(* ===== verification/Prelude.thy ===== *)
theory Prelude
  imports Main "HOL-Library.Multiset" "HOL-Library.List_Lexorder" "HOL-Library.Char_ord"
    "HOL-Library.Product_Lexorder" "HOL-Library.Word"
begin

text \<open>
  What the components share: Rust's ordered map (\<open>std::collections::BTreeMap\<close>) as a type of
  strictly sorted association lists with extensional equality, sums over its values, the
  64-bit arithmetic of the source (wrapping, saturating and checked), and the plumbing for
  Rust's \<open>Result\<close> and its question-mark operator.

  A \<open>u64\<close> or \<open>usize\<close> is a \<^typ>\<open>nat\<close> here, with \<open>wrap_add\<close>, \<open>sat_add\<close> and \<open>checked_add\<close>
  spelling out what happens at \<open>2 ^ 64\<close> wherever an operand comes from outside. The release
  profile of the workspace does not enable overflow checks, so a plain \<open>+\<close> wraps.
\<close>

section \<open>Collections of facts\<close>

named_theorems bt_simps \<open>lookup and iteration laws of ordered maps\<close>
named_theorems res_simps \<open>results and early returns\<close>

section \<open>Ordered maps\<close>

typedef (overloaded) ('k::linorder, 'v) btree =
  "{m :: ('k \<times> 'v) list. sorted_wrt (<) (map fst m)}"
  morphisms bitems BTree
  by (rule exI [of _ "[]"]) simp

setup_lifting type_definition_btree

fun ins_item :: "'k::linorder \<Rightarrow> 'v \<Rightarrow> ('k \<times> 'v) list \<Rightarrow> ('k \<times> 'v) list" where
  "ins_item k v [] = [(k, v)]"
| "ins_item k v ((k', v') # m) =
     (if k = k' then (k, v) # m
      else if k < k' then (k, v) # (k', v') # m
      else (k', v') # ins_item k v m)"

lemma fst_set_ins_item: "fst ` set (ins_item k v m) = insert k (fst ` set m)"
  by (induction k v m rule: ins_item.induct) auto

lemma sorted_ins_item:
  "sorted_wrt (<) (map fst m) \<Longrightarrow> sorted_wrt (<) (map fst (ins_item k v m))"
proof (induction k v m rule: ins_item.induct)
  case (2 k v k' v' m)
  then show ?case
    using fst_set_ins_item [of k v m] by (auto simp flip: set_map)
qed simp

lemma map_of_ins_item: "map_of (ins_item k v m) = (map_of m)(k \<mapsto> v)"
  by (induction k v m rule: ins_item.induct) auto

lift_definition bempty :: "('k::linorder, 'v) btree" is "[]"
  by simp

lift_definition bput :: "'k::linorder \<Rightarrow> 'v \<Rightarrow> ('k, 'v) btree \<Rightarrow> ('k, 'v) btree" is ins_item
  by (rule sorted_ins_item)

lemma sorted_filter_keys:
  "sorted_wrt (<) (map fst m) \<Longrightarrow> sorted_wrt (<) (map fst (filter P m))"
  by (induction m) auto

lift_definition bretain :: "('k::linorder \<Rightarrow> 'v \<Rightarrow> bool) \<Rightarrow> ('k, 'v) btree \<Rightarrow> ('k, 'v) btree"
  is "\<lambda>P. filter (\<lambda>(k, v). P k v)"
  by (rule sorted_filter_keys)

lift_definition bmap :: "('k::linorder \<Rightarrow> 'v \<Rightarrow> 'w) \<Rightarrow> ('k, 'v) btree \<Rightarrow> ('k, 'w) btree"
  is "\<lambda>f. map (\<lambda>(k, v). (k, f k v))"
proof -
  fix f :: "'k \<Rightarrow> 'v \<Rightarrow> 'w" and m :: "('k \<times> 'v) list"
  have "map fst (map (\<lambda>(k, v). (k, f k v)) m) = map fst m" by (induction m) auto
  then show "sorted_wrt (<) (map fst m) \<Longrightarrow>
      sorted_wrt (<) (map fst (map (\<lambda>(k, v). (k, f k v)) m))"
    by (simp only:)
qed

definition bget :: "('k::linorder, 'v) btree \<Rightarrow> 'k \<Rightarrow> 'v option" where
  "bget m k = map_of (bitems m) k"

definition bdel :: "'k::linorder \<Rightarrow> ('k, 'v) btree \<Rightarrow> ('k, 'v) btree" where
  "bdel k m = bretain (\<lambda>k' _. k' \<noteq> k) m"

definition bkeys :: "('k::linorder, 'v) btree \<Rightarrow> 'k list" where
  "bkeys m = map fst (bitems m)"

definition bvals :: "('k::linorder, 'v) btree \<Rightarrow> 'v list" where
  "bvals m = map snd (bitems m)"

definition bsize :: "('k::linorder, 'v) btree \<Rightarrow> nat" where
  "bsize m = length (bitems m)"

text \<open>\<open>BTreeMap::from_iter\<close> and \<open>extend\<close>: later items win.\<close>

fun bextend :: "('k::linorder, 'v) btree \<Rightarrow> ('k \<times> 'v) list \<Rightarrow> ('k, 'v) btree" where
  "bextend m [] = m"
| "bextend m ((k, v) # kvs) = bextend (bput k v m) kvs"

text \<open>\<open>BTreeMap::split_off\<close>: what stays below the key and what is cut from it on.\<close>

definition bbelow :: "'k::linorder \<Rightarrow> ('k, 'v) btree \<Rightarrow> ('k, 'v) btree" where
  "bbelow k m = bretain (\<lambda>k' _. k' < k) m"

definition bfrom :: "'k::linorder \<Rightarrow> ('k, 'v) btree \<Rightarrow> ('k, 'v) btree" where
  "bfrom k m = bretain (\<lambda>k' _. k \<le> k') m"

subsection \<open>Representation laws, used to evaluate concrete maps\<close>

lemma sorted_bitems: "sorted_wrt (<) (map fst (bitems m))"
  using bitems [of m] by simp

lemma distinct_bitems: "distinct (map fst (bitems m))"
  using sorted_bitems [of m] by (simp add: strict_sorted_iff)

lemma bitems_bempty [simp, bt_simps]: "bitems bempty = []"
  by (rule bempty.rep_eq)

lemma bitems_bput [simp, bt_simps]: "bitems (bput k v m) = ins_item k v (bitems m)"
  by (rule bput.rep_eq)

lemma bitems_bretain [bt_simps]: "bitems (bretain P m) = filter (\<lambda>(k, v). P k v) (bitems m)"
  by (rule bretain.rep_eq)

lemma bitems_bmap [bt_simps]: "bitems (bmap f m) = map (\<lambda>(k, v). (k, f k v)) (bitems m)"
  by (rule bmap.rep_eq)

lemma bitems_bdel [bt_simps]: "bitems (bdel k m) = filter (\<lambda>(k', _). k' \<noteq> k) (bitems m)"
  by (simp add: bdel_def bitems_bretain)

instantiation btree :: (linorder, equal) equal
begin

definition equal_btree :: "('a, 'b) btree \<Rightarrow> ('a, 'b) btree \<Rightarrow> bool" where
  "equal_btree m m' \<longleftrightarrow> bitems m = bitems m'"

instance
  by standard (simp add: equal_btree_def bitems_inject)

end

subsection \<open>Lookup laws\<close>

lemma bget_Some_iff: "bget m k = Some v \<longleftrightarrow> (k, v) \<in> set (bitems m)"
  using distinct_bitems [of m] by (simp add: bget_def)

lemma bget_bempty [simp]: "bget bempty k = None"
  by (simp add: bget_def)

lemma bget_bput [simp]: "bget (bput k v m) k' = (if k' = k then Some v else bget m k')"
  by (simp add: bget_def map_of_ins_item)

lemma bget_bretain:
  "bget (bretain P m) k = (case bget m k of None \<Rightarrow> None | Some v \<Rightarrow> if P k v then Some v else None)"
proof -
  have *: "bget (bretain P m) k = Some v \<longleftrightarrow> bget m k = Some v \<and> P k v" for v
    by (simp add: bget_Some_iff bitems_bretain)
  show ?thesis
  proof (cases "bget (bretain P m) k")
    case None
    with * show ?thesis by (cases "bget m k") auto
  next
    case (Some v)
    with * [of v] show ?thesis by simp
  qed
qed

lemma bget_bdel [simp]: "bget (bdel k m) k' = (if k' = k then None else bget m k')"
  by (simp add: bdel_def bget_bretain split: option.splits)

lemma bget_bmap [simp]: "bget (bmap f m) k = map_option (f k) (bget m k)"
proof -
  have "map_of (map (\<lambda>(k, v). (k, f k v)) xs) k = map_option (f k) (map_of xs k)" for xs
    by (induction xs) auto
  then show ?thesis by (simp add: bget_def bitems_bmap)
qed

lemma bget_bbelow [simp]: "bget (bbelow k m) k' = (if k' < k then bget m k' else None)"
  by (simp add: bbelow_def bget_bretain split: option.splits)

lemma bget_bfrom [simp]: "bget (bfrom k m) k' = (if k \<le> k' then bget m k' else None)"
  by (simp add: bfrom_def bget_bretain split: option.splits)

lemma btree_eqI:
  assumes "\<And>k. bget m k = bget m' k"
  shows "m = m'"
proof -
  have "set (bitems m) = set (bitems m')"
  proof -
    have "p \<in> set (bitems m) \<longleftrightarrow> p \<in> set (bitems m')" for p
      using assms [of "fst p"] bget_Some_iff [of m "fst p" "snd p"]
        bget_Some_iff [of m' "fst p" "snd p"] by simp
    then show ?thesis by blast
  qed
  then have eq: "map_of (bitems m) = map_of (bitems m')" "bkeys m = bkeys m'"
    using assms sorted_bitems [of m] sorted_bitems [of m']
    by (auto simp: fun_eq_iff bget_def bkeys_def strict_sorted_iff
        intro!: sorted_distinct_set_unique)
  have "bitems n = map (\<lambda>k. (k, the (map_of (bitems n) k))) (bkeys n)" for n :: "('a, 'b) btree"
    using distinct_bitems [of n] unfolding bkeys_def map_map
    by (intro map_idI [symmetric]) auto
  from this [of m] this [of m'] eq have "bitems m = bitems m'" by simp
  then show ?thesis by (simp add: bitems_inject)
qed

lemma bput_same [simp]: "bget m k = Some v \<Longrightarrow> bput k v m = m"
  by (rule btree_eqI) auto

lemma bput_bput [simp]: "bput k v (bput k w m) = bput k v m"
  by (rule btree_eqI) auto

lemma bdel_absent [simp]: "bget m k = None \<Longrightarrow> bdel k m = m"
  by (rule btree_eqI) auto

lemma bdel_bput [simp]: "bdel k (bput k v m) = bdel k m"
  by (rule btree_eqI) auto

subsection \<open>Keys, values and size\<close>

lemma set_bkeys: "set (bkeys m) = {k. bget m k \<noteq> None}"
  by (force simp: bkeys_def bget_Some_iff)

lemma set_bvals: "set (bvals m) = {v. \<exists>k. bget m k = Some v}"
  by (force simp: bvals_def bget_Some_iff)

lemma bvals_memI [intro]: "bget m k = Some v \<Longrightarrow> v \<in> set (bvals m)"
  by (auto simp: set_bvals)

lemma bvals_bempty [simp]: "bvals bempty = []"
  by (simp add: bvals_def)

lemma bsize_bempty [simp]: "bsize bempty = 0"
  by (simp add: bsize_def)

lemma finite_bdom: "finite {k. bget m k \<noteq> None}"
  unfolding set_bkeys [symmetric] by (rule finite_set)

lemma bsize_card: "bsize m = card {k. bget m k \<noteq> None}"
proof -
  have "bsize m = card (set (bkeys m))"
    using distinct_card [OF distinct_bitems [of m]] by (simp add: bsize_def bkeys_def)
  then show ?thesis by (simp add: set_bkeys)
qed

lemma bsize_0_iff: "bsize m = 0 \<longleftrightarrow> (\<forall>k. bget m k = None)"
  using finite_bdom [of m] by (auto simp: bsize_card)

lemma bsize_bput: "bsize (bput k v m) = (if bget m k = None then Suc (bsize m) else bsize m)"
proof -
  have "{k'. bget (bput k v m) k' \<noteq> None} = insert k {k'. bget m k' \<noteq> None}" by auto
  then show ?thesis
    using finite_bdom [of m] by (simp add: bsize_card insert_absorb)
qed

lemma bsize_bdel: "bsize (bdel k m) = (if bget m k = None then bsize m else bsize m - 1)"
proof -
  have "{k'. bget (bdel k m) k' \<noteq> None} = {k'. bget m k' \<noteq> None} - {k}" by auto
  then show ?thesis
    using finite_bdom [of m] by (simp add: bsize_card)
qed

subsection \<open>Sums over the values\<close>

text \<open>
  Reference counts and usage counters are sums over maps. The sum of a map is stated for any
  commutative monoid, so that it serves both byte counts and multisets of extent ids.
\<close>

definition bsum :: "('v \<Rightarrow> 'a::comm_monoid_add) \<Rightarrow> ('k::linorder, 'v) btree \<Rightarrow> 'a" where
  "bsum f m = sum_list (map f (bvals m))"

definition bopt :: "('v \<Rightarrow> 'a::comm_monoid_add) \<Rightarrow> 'v option \<Rightarrow> 'a" where
  "bopt f x = (case x of None \<Rightarrow> 0 | Some v \<Rightarrow> f v)"

lemma bopt_simps [simp]: "bopt f None = 0" "bopt f (Some v) = f v"
  by (simp_all add: bopt_def)

lemma bsum_bempty [simp]: "bsum f bempty = 0"
  by (simp add: bsum_def)

lemma sum_ins_item:
  "sorted_wrt (<) (map fst m) \<Longrightarrow>
   sum_list (map (f \<circ> snd) (ins_item k v m)) + bopt f (map_of m k)
     = sum_list (map (f \<circ> snd) m) + f v"
proof (induction k v m rule: ins_item.induct)
  case (2 k v k' v' m)
  show ?case
  proof (cases "k < k'")
    case True
    have "map_of m k = None"
    proof (rule ccontr)
      assume "map_of m k \<noteq> None"
      then have "k \<in> fst ` set m" by (simp add: map_of_eq_None_iff)
      then have "k' < k" using "2.prems" by auto
      with True show False by simp
    qed
    with True show ?thesis by (simp add: ac_simps)
  qed (use 2 in \<open>auto simp: ac_simps\<close>)
qed (simp add: ac_simps)

lemma bsum_bput: "bsum f (bput k v m) + bopt f (bget m k) = bsum f m + f v"
  using sum_ins_item [OF sorted_bitems, of f k v m]
  by (simp add: bsum_def bvals_def bget_def)

lemma bsum_bdel: "bsum f (bdel k m) + bopt f (bget m k) = bsum f m"
proof (cases "bget m k")
  case None
  then show ?thesis by simp
next
  case (Some v)
  have "bput k v (bdel k m) = m"
    by (rule btree_eqI) (use Some in auto)
  then show ?thesis
    using bsum_bput [of f k v "bdel k m"] Some by simp
qed

lemma bsum_cong [cong]:
  "m = m' \<Longrightarrow> (\<And>v. v \<in> set (bvals m') \<Longrightarrow> f v = g v) \<Longrightarrow> bsum f m = bsum g m'"
  by (auto simp: bsum_def intro: arg_cong [where f = sum_list])

lemma bsum_member_le:
  fixes f :: "'v \<Rightarrow> 'a::canonically_ordered_monoid_add"
  assumes "bget m k = Some v"
  shows "f v \<le> bsum f m"
proof -
  have "bsum f m = f v + bsum f (bdel k m)"
    using bsum_bdel [of f k m] assms by (simp add: add.commute)
  then show ?thesis by (auto simp: le_iff_add)
qed

lemma bsum_over_keys: "bsum f m = (\<Sum>k \<in> {k. bget m k \<noteq> None}. f (the (bget m k)))"
proof -
  have "bvals m = map (\<lambda>k. the (bget m k)) (bkeys m)"
    using distinct_bitems [of m] by (auto simp: bvals_def bkeys_def bget_def)
  moreover have "distinct (bkeys m)" using distinct_bitems [of m] by (simp add: bkeys_def)
  ultimately show ?thesis
    by (simp add: bsum_def sum_list_distinct_conv_sum_set comp_def set_bkeys)
qed

lemma bsum_mono:
  fixes f g :: "_ \<Rightarrow> nat"
  assumes "\<And>k v. bget m k = Some v \<Longrightarrow> \<exists>w. bget m' k = Some w \<and> f v \<le> g w"
  shows "bsum f m \<le> bsum g m'"
proof -
  have "bsum f m \<le> (\<Sum>k \<in> {k. bget m k \<noteq> None}. g (the (bget m' k)))"
    unfolding bsum_over_keys by (rule sum_mono) (use assms in force)
  also have "\<dots> \<le> bsum g m'"
    unfolding bsum_over_keys by (rule sum_mono2) (use assms finite_bdom in force)+
  finally show ?thesis .
qed

lemma bget_fold_bdel: "bget (fold bdel ks m) k = (if k \<in> set ks then None else bget m k)"
  by (induction ks arbitrary: m) auto

lemma bsize_mono: "(\<And>k. bget m k \<noteq> None \<Longrightarrow> bget m' k \<noteq> None) \<Longrightarrow> bsize m \<le> bsize m'"
  unfolding bsize_card by (rule card_mono [OF finite_bdom]) auto

lemma bsum_split:
  fixes m :: "('c::linorder, 'b) btree"
  shows "bsum f (bbelow k m) + bsum f (bfrom k m) = bsum f m"
proof -
  have "sum_list (map f (map snd (filter (\<lambda>(k', _). k' < k) xs)))
      + sum_list (map f (map snd (filter (\<lambda>(k', _). k \<le> k') xs)))
      = sum_list (map f (map snd xs))" for xs :: "('c \<times> 'b) list"
    by (induction xs) (auto simp: ac_simps)
  then show ?thesis
    by (simp add: bsum_def bvals_def bbelow_def bfrom_def bitems_bretain)
qed

section \<open>Vectors\<close>

text \<open>\<open>Iterator::position\<close>, \<open>Vec::remove\<close> and \<open>Vec::insert\<close> at an index in range.\<close>

fun position :: "('a \<Rightarrow> bool) \<Rightarrow> 'a list \<Rightarrow> nat option" where
  "position P [] = None"
| "position P (x # xs) = (if P x then Some 0 else map_option Suc (position P xs))"

definition vec_remove :: "nat \<Rightarrow> 'a list \<Rightarrow> 'a list" where
  "vec_remove i xs = take i xs @ drop (Suc i) xs"

definition vec_insert :: "nat \<Rightarrow> 'a \<Rightarrow> 'a list \<Rightarrow> 'a list" where
  "vec_insert i x xs = take i xs @ x # drop i xs"

lemma position_None: "position P xs = None \<longleftrightarrow> (\<forall>x \<in> set xs. \<not> P x)"
  by (induction xs) auto

lemma position_Some:
  "position P xs = Some i \<Longrightarrow>
     \<exists>as b bs. xs = as @ b # bs \<and> length as = i \<and> P b \<and> (\<forall>a \<in> set as. \<not> P a)"
proof (induction xs arbitrary: i)
  case (Cons x xs)
  show ?case
  proof (cases "P x")
    case True
    with Cons.prems show ?thesis by (intro exI [of _ "[]"]) auto
  next
    case False
    with Cons.prems obtain j where j: "position P xs = Some j" and i: "i = Suc j" by auto
    from Cons.IH [OF j] obtain as b bs where
      "xs = as @ b # bs" "length as = j" "P b" "\<forall>a \<in> set as. \<not> P a" by blast
    with False i show ?thesis by (intro exI [of _ "x # as"]) auto
  qed
qed simp

lemma vec_remove_append [simp]: "vec_remove (length as) (as @ b # bs) = as @ bs"
  by (simp add: vec_remove_def)

lemma vec_insert_append [simp]: "vec_insert (length as) x (as @ bs) = as @ x # bs"
  by (simp add: vec_insert_def)

section \<open>64-bit arithmetic\<close>

definition u64_max :: nat where
  "u64_max = 2 ^ 64 - 1"

definition wrap_add :: "nat \<Rightarrow> nat \<Rightarrow> nat" where
  "wrap_add a b = (a + b) mod 2 ^ 64"

definition sat_add :: "nat \<Rightarrow> nat \<Rightarrow> nat" where
  "sat_add a b = min (a + b) u64_max"

definition sat_sub :: "nat \<Rightarrow> nat \<Rightarrow> nat" where
  "sat_sub a b = (if b \<le> a then a - b else 0)"

definition checked_add :: "nat \<Rightarrow> nat \<Rightarrow> nat option" where
  "checked_add a b = (if a + b \<le> u64_max then Some (a + b) else None)"

definition sum_u64 :: "nat list \<Rightarrow> nat" where
  "sum_u64 xs = fold (\<lambda>x total. wrap_add total x) xs 0"

lemma wrap_add_exact [simp]: "a + b \<le> u64_max \<Longrightarrow> wrap_add a b = a + b"
  by (simp add: wrap_add_def u64_max_def)

lemma sat_add_exact [simp]: "a + b \<le> u64_max \<Longrightarrow> sat_add a b = a + b"
  by (simp add: sat_add_def)

lemma sat_sub_eq [simp]: "sat_sub a b = a - b"
  by (simp add: sat_sub_def)

lemma wrap_add_le: "wrap_add a b \<le> u64_max"
  using mod_less_divisor [of "2 ^ 64" "a + b"] by (simp add: wrap_add_def u64_max_def)

lemma fold_wrap_add:
  "fold (\<lambda>x total. wrap_add total (f x)) xs (a mod 2 ^ 64) = (a + sum_list (map f xs)) mod 2 ^ 64"
proof (induction xs arbitrary: a)
  case (Cons x xs)
  have "wrap_add (a mod 2 ^ 64) (f x) = (a + f x) mod 2 ^ 64"
    by (simp add: wrap_add_def mod_add_left_eq)
  with Cons.IH [of "a + f x"] show ?case by (simp add: add.assoc)
qed simp

lemma sum_u64_eq: "sum_u64 xs = sum_list xs mod 2 ^ 64"
  using fold_wrap_add [of "\<lambda>x. x" xs 0] by (simp add: sum_u64_def)

lemma sum_u64_exact: "sum_list xs \<le> u64_max \<Longrightarrow> sum_u64 xs = sum_list xs"
  by (simp add: sum_u64_eq u64_max_def)

section \<open>Results and early returns\<close>

text \<open>
  A fallible read is a sum with the error on the left. A fallible change of a state \<open>'s\<close> is a
  pair of such a result and the state it leaves, so that a change that fails halfway shows what
  it left behind. \<open>attempt s r k\<close> is Rust's \<open>r?\<close> at a point where the state is \<open>s\<close>;
  \<open>andthen\<close> sequences two changes.
\<close>

definition attempt :: "'s \<Rightarrow> 'e + 'a \<Rightarrow> ('a \<Rightarrow> ('e + 'b) \<times> 's) \<Rightarrow> ('e + 'b) \<times> 's" where
  "attempt s r k = (case r of Inl e \<Rightarrow> (Inl e, s) | Inr a \<Rightarrow> k a)"

definition andthen ::
    "('e + 'a) \<times> 's \<Rightarrow> ('a \<Rightarrow> 's \<Rightarrow> ('e + 'b) \<times> 's) \<Rightarrow> ('e + 'b) \<times> 's" where
  "andthen r k = (case r of (Inl e, s) \<Rightarrow> (Inl e, s) | (Inr a, s) \<Rightarrow> k a s)"

definition rbind :: "'e + 'a \<Rightarrow> ('a \<Rightarrow> 'e + 'b) \<Rightarrow> 'e + 'b" where
  "rbind r k = (case r of Inl e \<Rightarrow> Inl e | Inr a \<Rightarrow> k a)"

definition ok_or :: "'a option \<Rightarrow> 'e \<Rightarrow> 'e + 'a" where
  "ok_or x e = (case x of None \<Rightarrow> Inl e | Some a \<Rightarrow> Inr a)"

definition guard :: "bool \<Rightarrow> 'e \<Rightarrow> 'e + unit" where
  "guard b e = (if b then Inr () else Inl e)"

definition is_ok :: "'e + 'a \<Rightarrow> bool" where
  "is_ok r = (case r of Inl _ \<Rightarrow> False | Inr _ \<Rightarrow> True)"

lemma attempt_simps [simp, res_simps]:
  "attempt s (Inl e) k = (Inl e, s)" "attempt s (Inr a) k = k a"
  by (simp_all add: attempt_def)

lemma andthen_simps [simp, res_simps]:
  "andthen (Inl e, s) k = (Inl e, s)" "andthen (Inr a, s) k = k a s"
  by (simp_all add: andthen_def)

lemma rbind_simps [simp, res_simps]: "rbind (Inl e) k = Inl e" "rbind (Inr a) k = k a"
  by (simp_all add: rbind_def)

lemma ok_or_simps [simp, res_simps]: "ok_or None e = Inl e" "ok_or (Some a) e = Inr a"
  by (simp_all add: ok_or_def)

lemma guard_simps [simp, res_simps]: "guard True e = Inr ()" "guard False e = Inl e"
  by (simp_all add: guard_def)

lemma is_ok_simps [simp]: "\<not> is_ok (Inl e)" "is_ok (Inr a)"
  by (simp_all add: is_ok_def)

lemma attempt_split:
  "P (attempt s r k) \<longleftrightarrow> (\<forall>e. r = Inl e \<longrightarrow> P (Inl e, s)) \<and> (\<forall>a. r = Inr a \<longrightarrow> P (k a))"
  by (cases r) auto

lemma rbind_eq_Inr: "rbind r k = Inr b \<longleftrightarrow> (\<exists>a. r = Inr a \<and> k a = Inr b)"
  by (cases r) auto

lemma ok_or_eq_Inr [simp]: "ok_or x e = Inr a \<longleftrightarrow> x = Some a"
  by (cases x) auto

lemma ok_or_eq_Inl [simp]: "ok_or x e = Inl e' \<longleftrightarrow> x = None \<and> e' = e"
  by (cases x) auto

lemma guard_eq_Inr [simp]: "guard b e = Inr u \<longleftrightarrow> b"
  by (cases b) auto

lemma guard_eq_Inl [simp]: "guard b e = Inl e' \<longleftrightarrow> \<not> b \<and> e' = e"
  by (cases b) auto

end
