(* ===== verification/FreeSpace.thy ===== *)
theory FreeSpace
  imports Prelude
begin

text \<open>
  Device-space free lists (\<open>crates/atlas-native/src/alloc.rs\<close>). A free list is a vector of
  ranges sorted by node, device and offset, with no two ranges touching. The abstract view is
  the set of free bytes; \<open>find\<close>, \<open>reserve\<close> and \<open>release\<close> are shown to be set operations on it.
  The locale \<open>space_manager\<close> is the contract the metadata catalog relies on, interpreted on the
  free list of the code.
\<close>

record free_range =
  fr_node :: string
  fr_dev :: nat
  fr_off :: nat
  fr_len :: nat

type_synonym free_list = "free_range list"

definition fr_end :: "free_range \<Rightarrow> nat" where
  "fr_end r = wrap_add (fr_off r) (fr_len r)"

definition same_device :: "free_range \<Rightarrow> string \<Rightarrow> nat \<Rightarrow> bool" where
  "same_device r node_id device_index \<longleftrightarrow> fr_node r = node_id \<and> fr_dev r = device_index"

definition fr_key :: "free_range \<Rightarrow> string \<times> nat \<times> nat" where
  "fr_key r = (fr_node r, fr_dev r, fr_off r)"

definition total_bytes :: "free_list \<Rightarrow> nat" where
  "total_bytes fl = fold (\<lambda>r total. wrap_add total (fr_len r)) fl 0"

definition fl_find :: "free_list \<Rightarrow> string \<Rightarrow> nat \<Rightarrow> nat \<Rightarrow> nat option" where
  "fl_find fl node_id device_index ln =
     (if ln = 0 then None
      else map_option fr_off
        (List.find (\<lambda>r. same_device r node_id device_index \<and> ln \<le> fr_len r) fl))"

definition fl_reserve :: "free_list \<Rightarrow> string \<Rightarrow> nat \<Rightarrow> nat \<Rightarrow> nat \<Rightarrow> bool \<times> free_list" where
  "fl_reserve fl node_id device_index off ln =
     (if ln = 0 then (False, fl)
      else case position (\<lambda>r. same_device r node_id device_index \<and> fr_off r \<le> off
                              \<and> wrap_add off ln \<le> fr_end r) fl of
        None \<Rightarrow> (False, fl)
      | Some pos \<Rightarrow>
          let r = fl ! pos;
              fl1 = vec_remove pos fl;
              (fl2, insert_at) =
                (if off > fr_off r
                 then (vec_insert pos (r\<lparr>fr_len := off - fr_off r\<rparr>) fl1, Suc pos)
                 else (fl1, pos));
              fl3 =
                (if wrap_add off ln < fr_end r
                 then vec_insert insert_at
                   (r\<lparr>fr_off := wrap_add off ln, fr_len := fr_end r - wrap_add off ln\<rparr>) fl2
                 else fl2)
          in (True, fl3))"

text \<open>
  \<open>release\<close> merges the new range with its right neighbour first and then with its left one.
  \<open>partition_point\<close> on a sorted vector is the length of the prefix that satisfies the predicate.
\<close>

definition merge_next :: "string \<Rightarrow> nat \<Rightarrow> nat \<Rightarrow> free_list \<Rightarrow> free_list" where
  "merge_next node_id device_index pos fl =
     (if Suc pos < length fl
         \<and> same_device (fl ! Suc pos) node_id device_index
         \<and> fr_end (fl ! pos) = fr_off (fl ! Suc pos)
      then vec_remove (Suc pos)
        (fl[pos := (fl ! pos)\<lparr>fr_len := wrap_add (fr_len (fl ! pos)) (fr_len (fl ! Suc pos))\<rparr>])
      else fl)"

definition merge_prev :: "string \<Rightarrow> nat \<Rightarrow> nat \<Rightarrow> free_list \<Rightarrow> free_list" where
  "merge_prev node_id device_index pos fl =
     (if 0 < pos
         \<and> same_device (fl ! (pos - 1)) node_id device_index
         \<and> fr_end (fl ! (pos - 1)) = fr_off (fl ! pos)
      then vec_remove pos
        (fl[pos - 1 := (fl ! (pos - 1))\<lparr>fr_len :=
              wrap_add (fr_len (fl ! (pos - 1))) (fr_len (fl ! pos))\<rparr>])
      else fl)"

definition fl_release ::
    "free_list \<Rightarrow> string \<Rightarrow> nat \<Rightarrow> nat \<Rightarrow> nat \<Rightarrow> bool \<times> free_list" where
  "fl_release fl node_id device_index off ln =
     (if ln = 0 then (True, fl)
      else
        let new = \<lparr>fr_node = node_id, fr_dev = device_index, fr_off = off, fr_len = ln\<rparr>;
            pos = length (takeWhile (\<lambda>r. fr_key r < fr_key new) fl)
        in if 0 < pos \<and> same_device (fl ! (pos - 1)) node_id device_index
              \<and> off < fr_end (fl ! (pos - 1)) then (False, fl)
           else if pos < length fl \<and> same_device (fl ! pos) node_id device_index
              \<and> fr_off (fl ! pos) < fr_end new then (False, fl)
           else (True, merge_prev node_id device_index pos
                        (merge_next node_id device_index pos (vec_insert pos new fl))))"

section \<open>The abstract view: sets of free bytes\<close>

type_synonym device_byte = "string \<times> nat \<times> nat"

definition byte_range :: "string \<Rightarrow> nat \<Rightarrow> nat \<Rightarrow> nat \<Rightarrow> device_byte set" where
  "byte_range n d off ln = {n} \<times> {d} \<times> {off..<off + ln}"

definition fr_bytes :: "free_range \<Rightarrow> device_byte set" where
  "fr_bytes r = byte_range (fr_node r) (fr_dev r) (fr_off r) (fr_len r)"

definition free_bytes :: "free_list \<Rightarrow> device_byte set" where
  "free_bytes fl = (\<Union>r \<in> set fl. fr_bytes r)"

text \<open>Well-formed ranges and the order between neighbours: strictly apart on one device.\<close>

definition fr_ok :: "free_range \<Rightarrow> bool" where
  "fr_ok r \<longleftrightarrow> 0 < fr_len r \<and> fr_off r + fr_len r \<le> u64_max"

definition apart :: "free_range \<Rightarrow> free_range \<Rightarrow> bool" where
  "apart r s \<longleftrightarrow> (fr_node r, fr_dev r) < (fr_node s, fr_dev s)
     \<or> (fr_node r, fr_dev r) = (fr_node s, fr_dev s) \<and> fr_off r + fr_len r < fr_off s"

definition fl_inv :: "free_list \<Rightarrow> bool" where
  "fl_inv fl \<longleftrightarrow> (\<forall>r \<in> set fl. fr_ok r) \<and> sorted_wrt apart fl"

lemma byte_range_0 [simp]: "byte_range n d off 0 = {}"
  by (simp add: byte_range_def)

lemma mem_byte_range [simp]:
  "(n', d', b) \<in> byte_range n d off ln \<longleftrightarrow> n' = n \<and> d' = d \<and> off \<le> b \<and> b < off + ln"
  by (auto simp: byte_range_def)

lemma mem_fr_bytes:
  "(n, d, b) \<in> fr_bytes r \<longleftrightarrow>
     n = fr_node r \<and> d = fr_dev r \<and> fr_off r \<le> b \<and> b < fr_off r + fr_len r"
  by (simp add: fr_bytes_def)

lemma free_bytes_append: "free_bytes (xs @ ys) = free_bytes xs \<union> free_bytes ys"
  by (auto simp: free_bytes_def)

lemma free_bytes_Cons: "free_bytes (x # xs) = fr_bytes x \<union> free_bytes xs"
  by (auto simp: free_bytes_def)

lemma free_bytes_Nil [simp]: "free_bytes [] = {}"
  by (simp add: free_bytes_def)

lemmas free_bytes_simps = free_bytes_append free_bytes_Cons

lemma fr_end_eq [simp]: "fr_ok r \<Longrightarrow> fr_end r = fr_off r + fr_len r"
  by (simp add: fr_ok_def fr_end_def)

lemma apart_disjoint: "apart r s \<Longrightarrow> fr_bytes r \<inter> fr_bytes s = {}"
  by (auto simp: apart_def fr_bytes_def byte_range_def)

lemma fl_inv_append:
  "fl_inv (xs @ ys) \<longleftrightarrow> fl_inv xs \<and> fl_inv ys \<and> (\<forall>x \<in> set xs. \<forall>y \<in> set ys. apart x y)"
  by (auto simp: fl_inv_def sorted_wrt_append)

lemma fl_inv_Cons:
  "fl_inv (x # xs) \<longleftrightarrow> fr_ok x \<and> fl_inv xs \<and> (\<forall>y \<in> set xs. apart x y)"
  by (auto simp: fl_inv_def)

lemma fl_inv_Nil [simp]: "fl_inv []"
  by (simp add: fl_inv_def)

lemmas fl_inv_simps = fl_inv_append fl_inv_Cons

lemma fl_inv_pairwise:
  "fl_inv fl \<Longrightarrow> r \<in> set fl \<Longrightarrow> s \<in> set fl \<Longrightarrow> r \<noteq> s \<Longrightarrow> apart r s \<or> apart s r"
  by (induction fl) (auto simp: fl_inv_Cons)

section \<open>Lookup\<close>

lemma free_bytes_one_range:
  assumes inv: "fl_inv fl" and ln: "0 < ln" and sub: "byte_range n d off ln \<subseteq> free_bytes fl"
  shows "\<exists>r \<in> set fl. fr_node r = n \<and> fr_dev r = d \<and> fr_off r \<le> off
           \<and> off + ln \<le> fr_off r + fr_len r"
proof -
  have "(n, d, off) \<in> free_bytes fl" using sub ln by auto
  then obtain r where r: "r \<in> set fl" "(n, d, off) \<in> fr_bytes r"
    by (auto simp: free_bytes_def)
  have "off + ln \<le> fr_off r + fr_len r"
  proof (rule ccontr)
    let ?e = "fr_off r + fr_len r"
    assume "\<not> off + ln \<le> ?e"
    then have "(n, d, ?e) \<in> free_bytes fl"
      using sub r by (auto simp: mem_fr_bytes)
    then obtain s where s: "s \<in> set fl" "(n, d, ?e) \<in> fr_bytes s"
      by (auto simp: free_bytes_def)
    then have "r \<noteq> s" by (auto simp: mem_fr_bytes)
    then have "apart r s \<or> apart s r"
      using inv r(1) s(1) by (intro fl_inv_pairwise)
    then show False
      using r s by (auto simp: apart_def mem_fr_bytes)
  qed
  then show ?thesis using r by (auto simp: mem_fr_bytes)
qed

lemma fl_find_Some:
  "fl_find fl n d ln = Some off \<Longrightarrow> 0 < ln \<and> byte_range n d off ln \<subseteq> free_bytes fl"
  by (force simp: fl_find_def find_Some_iff same_device_def free_bytes_def fr_bytes_def
      split: if_splits dest: nth_mem)

lemma fl_find_None:
  assumes "fl_inv fl" and "0 < ln" and "fl_find fl n d ln = None"
  shows "\<not> byte_range n d off ln \<subseteq> free_bytes fl"
proof
  assume "byte_range n d off ln \<subseteq> free_bytes fl"
  from free_bytes_one_range [OF assms(1,2) this] show False
    using assms(2,3) by (auto simp: fl_find_def find_None_iff same_device_def)
qed

section \<open>Reserving\<close>

definition cut_range :: "free_range \<Rightarrow> nat \<Rightarrow> nat \<Rightarrow> free_range list" where
  "cut_range r off ln =
     (if off > fr_off r then [r\<lparr>fr_len := off - fr_off r\<rparr>] else [])
     @ (if off + ln < fr_off r + fr_len r
        then [r\<lparr>fr_off := off + ln, fr_len := fr_off r + fr_len r - (off + ln)\<rparr>] else [])"

lemma fl_reserve_cases:
  assumes "fl_inv fl" and "0 < ln" and "off + ln \<le> u64_max"
  shows "(fl_reserve fl n d off ln = (False, fl) \<and> \<not> byte_range n d off ln \<subseteq> free_bytes fl) \<or>
    (\<exists>as r bs. fl = as @ r # bs \<and> fr_node r = n \<and> fr_dev r = d
       \<and> fr_off r \<le> off \<and> off + ln \<le> fr_off r + fr_len r
       \<and> fl_reserve fl n d off ln = (True, as @ cut_range r off ln @ bs))"
proof (cases "position (\<lambda>r. same_device r n d \<and> fr_off r \<le> off \<and> wrap_add off ln \<le> fr_end r) fl")
  case None
  then have "\<not> byte_range n d off ln \<subseteq> free_bytes fl"
    using free_bytes_one_range [OF assms(1,2)] assms
    by (fastforce simp: position_None same_device_def fl_inv_def)
  with None show ?thesis by (simp add: fl_reserve_def)
next
  case (Some pos)
  from position_Some [OF this] obtain as r bs where fl: "fl = as @ r # bs" "pos = length as"
    and r: "same_device r n d" "fr_off r \<le> off" "wrap_add off ln \<le> fr_end r" by blast
  have "fr_ok r" using assms(1) fl by (simp add: fl_inv_simps)
  moreover have "vec_remove (length as) (as @ r # bs) = as @ bs" by simp
  moreover have "vec_insert (length as) x (as @ bs) = as @ x # bs" for x by simp
  moreover have "vec_insert (Suc (length as)) y (as @ x # bs) = as @ x # y # bs" for x y
    using vec_insert_append [of "as @ [x]" y bs] by simp
  ultimately have "fl_reserve fl n d off ln = (True, as @ cut_range r off ln @ bs)"
    using Some fl r assms(2,3) by (auto simp: fl_reserve_def cut_range_def Let_def)
  then show ?thesis
    using fl r assms \<open>fr_ok r\<close> by (intro disjI2 exI [of _ as] exI [of _ r] exI [of _ bs])
      (simp add: same_device_def)
qed

lemma cut_range_ok:
  assumes "fr_ok r" and "0 < ln" and "fr_off r \<le> off" and "off + ln \<le> fr_off r + fr_len r"
  shows "fl_inv (cut_range r off ln)"
    and "s \<in> set (cut_range r off ln) \<Longrightarrow> apart x r \<Longrightarrow> apart x s"
    and "s \<in> set (cut_range r off ln) \<Longrightarrow> apart r y \<Longrightarrow> apart s y"
    and "free_bytes (cut_range r off ln) = fr_bytes r - byte_range (fr_node r) (fr_dev r) off ln"
  using assms by (auto simp: cut_range_def fl_inv_def fr_ok_def apart_def free_bytes_def mem_fr_bytes
      fr_bytes_def split: if_splits)

lemma fl_reserve_False:
  assumes "fl_reserve fl n d off ln = (False, fl')"
  shows "fl' = fl"
  using assms by (auto simp: fl_reserve_def Let_def split: if_splits option.splits prod.splits)

lemma fl_reserve_spec:
  assumes inv: "fl_inv fl" and ln: "0 < ln" "off + ln \<le> u64_max"
    and res: "fl_reserve fl n d off ln = (ok, fl')"
  shows "fl_inv fl'" and "ok \<longleftrightarrow> byte_range n d off ln \<subseteq> free_bytes fl"
    and "free_bytes fl' = (if ok then free_bytes fl - byte_range n d off ln else free_bytes fl)"
proof -
  have "fl_inv fl' \<and> (ok \<longleftrightarrow> byte_range n d off ln \<subseteq> free_bytes fl) \<and>
    free_bytes fl' = (if ok then free_bytes fl - byte_range n d off ln else free_bytes fl)"
    using fl_reserve_cases [OF inv ln, of n d]
  proof (elim disjE exE conjE)
    fix as r bs
    assume fl: "fl = as @ r # bs" and r: "fr_node r = n" "fr_dev r = d" "fr_off r \<le> off"
        "off + ln \<le> fr_off r + fr_len r"
      and res': "fl_reserve fl n d off ln = (True, as @ cut_range r off ln @ bs)"
    have parts: "fl_inv as" "fl_inv bs" "fr_ok r" "\<forall>a \<in> set as. apart a r"
        "\<forall>b \<in> set bs. apart r b" "\<forall>a \<in> set as. \<forall>b \<in> set bs. apart a b"
      using inv fl by (auto simp: fl_inv_simps)
    note cut = cut_range_ok [OF parts(3) ln(1) r(3,4)]
    have inv': "fl_inv (as @ cut_range r off ln @ bs)"
      using parts cut(1) by (auto simp: fl_inv_append intro: cut(2,3))
    have sub: "byte_range n d off ln \<subseteq> fr_bytes r"
      using r by (auto simp: mem_fr_bytes)
    have "fr_bytes a \<inter> fr_bytes r = {}" if "a \<in> set as \<union> set bs" for a
      using that parts(4,5) apart_disjoint [of a r] apart_disjoint [of r a] by blast
    then have "free_bytes as \<inter> byte_range n d off ln = {}" "free_bytes bs \<inter> byte_range n d off ln = {}"
      using sub by (auto simp: free_bytes_def)
    then have "free_bytes (as @ cut_range r off ln @ bs) = free_bytes fl - byte_range n d off ln"
      using cut(4) r fl by (auto simp: free_bytes_simps)
    then show ?thesis using res res' inv' sub fl by (auto simp: free_bytes_simps)
  qed (use res inv in auto)
  then show "fl_inv fl'" and "ok \<longleftrightarrow> byte_range n d off ln \<subseteq> free_bytes fl"
    and "free_bytes fl' = (if ok then free_bytes fl - byte_range n d off ln else free_bytes fl)"
    by blast+
qed

section \<open>Releasing\<close>

text \<open>
  Ranges that may still touch: what holds between the new range and its neighbours before
  they are merged.
\<close>

definition touch :: "free_range \<Rightarrow> free_range \<Rightarrow> bool" where
  "touch r s \<longleftrightarrow> (fr_node r, fr_dev r) < (fr_node s, fr_dev s)
     \<or> (fr_node r, fr_dev r) = (fr_node s, fr_dev s) \<and> fr_off r + fr_len r \<le> fr_off s"

definition join_next :: "free_range \<Rightarrow> free_list \<Rightarrow> free_list" where
  "join_next new ys = (case ys of
      y # t \<Rightarrow> if (fr_node y, fr_dev y) = (fr_node new, fr_dev new)
                   \<and> fr_off new + fr_len new = fr_off y
                then new\<lparr>fr_len := fr_len new + fr_len y\<rparr> # t else new # ys
    | [] \<Rightarrow> [new])"

definition join_prev :: "free_list \<Rightarrow> free_list \<Rightarrow> free_list" where
  "join_prev xs zs =
     (if xs \<noteq> [] \<and> zs \<noteq> [] \<and> (fr_node (last xs), fr_dev (last xs)) = (fr_node (hd zs), fr_dev (hd zs))
         \<and> fr_off (last xs) + fr_len (last xs) = fr_off (hd zs)
      then butlast xs @ (last xs)\<lparr>fr_len := fr_len (last xs) + fr_len (hd zs)\<rparr> # tl zs
      else xs @ zs)"

lemma apart_trans:
  "fr_ok s \<Longrightarrow> apart r s \<Longrightarrow> apart s t \<Longrightarrow> apart r t"
  "fr_ok s \<Longrightarrow> apart r s \<Longrightarrow> touch s t \<Longrightarrow> apart r t"
  "fr_ok s \<Longrightarrow> touch r s \<Longrightarrow> apart s t \<Longrightarrow> apart r t"
  by (auto simp: apart_def touch_def fr_ok_def less_prod_def)

lemma apart_touch: "apart r s \<Longrightarrow> touch r s"
  by (auto simp: apart_def touch_def)

lemma touch_disjoint: "touch r s \<Longrightarrow> fr_bytes r \<inter> fr_bytes s = {}"
  by (auto simp: touch_def fr_bytes_def byte_range_def)

lemma join_next_spec:
  assumes "fr_ok new" and "fl_inv ys" and "\<forall>y \<in> set ys. touch new y"
  shows "fl_inv (join_next new ys)"
    and "free_bytes (join_next new ys) = fr_bytes new \<union> free_bytes ys"
    and "join_next new ys \<noteq> [] \<and> (fr_node (hd (join_next new ys)), fr_dev (hd (join_next new ys)),
           fr_off (hd (join_next new ys))) = (fr_node new, fr_dev new, fr_off new)"
    and "set (tl (join_next new ys)) \<subseteq> set ys"
proof -
  have *: "fl_inv (join_next new ys) \<and>
      free_bytes (join_next new ys) = fr_bytes new \<union> free_bytes ys"
  proof (cases ys)
    case Nil
    with assms show ?thesis by (simp add: join_next_def fl_inv_simps free_bytes_simps)
  next
    case (Cons y t)
    have y: "fr_ok y" "fl_inv t" "\<forall>z \<in> set t. apart y z" "touch new y"
      using assms Cons by (auto simp: fl_inv_simps)
    show ?thesis
    proof (cases "(fr_node y, fr_dev y) = (fr_node new, fr_dev new)
        \<and> fr_off new + fr_len new = fr_off y")
      case True
      let ?n = "new\<lparr>fr_len := fr_len new + fr_len y\<rparr>"
      have "fr_ok ?n" "\<forall>z \<in> set t. apart ?n z"
        using True y assms(1) by (auto simp: fr_ok_def apart_def)
      moreover have "fr_bytes ?n = fr_bytes new \<union> fr_bytes y"
        using True by (auto simp: mem_fr_bytes)
      ultimately show ?thesis
        using True Cons y by (auto simp: join_next_def fl_inv_simps free_bytes_simps)
    next
      case False
      then have "apart new y" using y(4) by (auto simp: touch_def apart_def)
      then have "\<forall>z \<in> set ys. apart new z"
        using Cons y by (auto intro: apart_trans(1))
      with False Cons assms show ?thesis
        by (auto simp: join_next_def fl_inv_simps free_bytes_simps)
    qed
  qed
  then show "fl_inv (join_next new ys)"
    and "free_bytes (join_next new ys) = fr_bytes new \<union> free_bytes ys" by blast+
  show "join_next new ys \<noteq> [] \<and> (fr_node (hd (join_next new ys)), fr_dev (hd (join_next new ys)),
           fr_off (hd (join_next new ys))) = (fr_node new, fr_dev new, fr_off new)"
    and "set (tl (join_next new ys)) \<subseteq> set ys"
    by (auto simp: join_next_def split: list.splits)
qed

lemma join_prev_spec:
  assumes "fl_inv xs" and "fl_inv (z # zs)" and "\<forall>x \<in> set xs. touch x z"
    and "\<forall>x \<in> set xs. \<forall>y \<in> set zs. apart x y"
  shows "fl_inv (join_prev xs (z # zs))
    \<and> free_bytes (join_prev xs (z # zs)) = free_bytes xs \<union> free_bytes (z # zs)"
proof (cases xs rule: rev_cases)
  case Nil
  with assms show ?thesis by (simp add: join_prev_def)
next
  case (snoc ws p)
  have p: "fl_inv ws" "fr_ok p" "\<forall>w \<in> set ws. apart w p" "touch p z"
    using assms snoc by (auto simp: fl_inv_simps)
  have ws: "\<forall>w \<in> set ws. apart w z" using p by (auto intro: apart_trans(2))
  have z: "fr_ok z" "fl_inv zs" "\<forall>y \<in> set zs. apart z y" using assms by (auto simp: fl_inv_simps)
  show ?thesis
  proof (cases "(fr_node p, fr_dev p) = (fr_node z, fr_dev z) \<and> fr_off p + fr_len p = fr_off z")
    case True
    let ?n = "p\<lparr>fr_len := fr_len p + fr_len z\<rparr>"
    have "fr_ok ?n" "\<forall>w \<in> set ws. apart w ?n" "\<forall>y \<in> set zs. apart ?n y"
      using True p z by (auto simp: fr_ok_def apart_def)
    moreover have "fr_bytes ?n = fr_bytes p \<union> fr_bytes z"
      using True by (auto simp: mem_fr_bytes)
    ultimately show ?thesis
      using True snoc p z assms(4) by (auto simp: join_prev_def fl_inv_simps free_bytes_simps)
  next
    case False
    then have "apart p z" using p(4) by (auto simp: touch_def apart_def)
    with False snoc p ws z assms show ?thesis
      by (auto simp: join_prev_def fl_inv_simps free_bytes_simps)
  qed
qed

lemma merge_next_eq:
  assumes "fr_ok new" and "fl_inv ys" and "same_device new n d"
  shows "merge_next n d (length xs) (xs @ new # ys) = xs @ join_next new ys"
proof (cases ys)
  case Nil
  then show ?thesis by (simp add: merge_next_def join_next_def)
next
  case (Cons y t)
  have y: "fr_ok y" using assms(2) Cons by (simp add: fl_inv_simps)
  have at: "(xs @ new # y # t) ! length xs = new" "(xs @ new # y # t) ! Suc (length xs) = y"
    by (simp_all add: nth_append)
  have rm: "vec_remove (Suc (length xs)) (xs @ r # y # t) = xs @ r # t" for r
    using vec_remove_append [of "xs @ [r]" y t] by simp
  show ?thesis
    using assms(1,3) y by (auto simp: merge_next_def join_next_def Cons at rm same_device_def
        fr_ok_def list_update_append)
qed

lemma merge_prev_eq:
  assumes "fl_inv xs" and "fr_ok z" and "same_device z n d"
  shows "merge_prev n d (length xs) (xs @ z # zs) = join_prev xs (z # zs)"
proof (cases xs rule: rev_cases)
  case Nil
  then show ?thesis by (simp add: merge_prev_def join_prev_def)
next
  case (snoc ws p)
  have p: "fr_ok p" using assms(1) snoc by (simp add: fl_inv_simps)
  have at: "(ws @ p # z # zs) ! length ws = p" "(ws @ p # z # zs) ! Suc (length ws) = z"
    by (simp_all add: nth_append)
  have rm: "vec_remove (Suc (length ws)) (ws @ r # z # zs) = ws @ r # zs" for r
    using vec_remove_append [of "ws @ [r]" z zs] by simp
  show ?thesis
    using assms(2,3) p by (auto simp: merge_prev_def join_prev_def snoc at rm same_device_def
        fr_ok_def list_update_append)
qed

lemma fr_key_apart: "fr_ok r \<Longrightarrow> apart r s \<Longrightarrow> fr_key r < fr_key s"
  by (auto simp: apart_def fr_key_def fr_ok_def less_prod_def)

lemma partition_keys:
  "fl_inv fl \<Longrightarrow> y \<in> set (dropWhile (\<lambda>r. fr_key r < k) fl) \<Longrightarrow> \<not> fr_key y < k"
proof (induction fl)
  case (Cons x fl)
  show ?case
  proof (cases "fr_key x < k")
    case True
    with Cons show ?thesis by (simp add: fl_inv_simps)
  next
    case False
    with Cons.prems have "y = x \<or> fr_key x < fr_key y"
      by (auto simp: fl_inv_simps intro: fr_key_apart)
    with False show ?thesis by auto
  qed
qed simp

lemma fl_release_cases:
  assumes inv: "fl_inv fl" and ln: "0 < ln" "off + ln \<le> u64_max"
  shows "(fl_release fl n d off ln = (False, fl) \<and> byte_range n d off ln \<inter> free_bytes fl \<noteq> {}) \<or>
    (\<exists>xs ys new. fl = xs @ ys \<and> fr_ok new \<and> fr_bytes new = byte_range n d off ln
       \<and> same_device new n d
       \<and> (\<forall>x \<in> set xs. touch x new) \<and> (\<forall>y \<in> set ys. touch new y)
       \<and> fl_release fl n d off ln = (True, join_prev xs (join_next new ys)))"
proof -
  define new where "new = \<lparr>fr_node = n, fr_dev = d, fr_off = off, fr_len = ln\<rparr>"
  obtain xs ys where fl: "fl = xs @ ys"
    and tw: "takeWhile (\<lambda>r. fr_key r < fr_key new) fl = xs"
    and xs1: "\<forall>x \<in> set xs. fr_key x < fr_key new"
    and ys1: "\<forall>y \<in> set ys. \<not> fr_key y < fr_key new"
    using partition_keys [OF inv] set_takeWhileD takeWhile_dropWhile_id by metis
  have new: "fr_ok new" "same_device new n d" "fr_bytes new = byte_range n d off ln"
    using ln by (simp_all add: new_def fr_ok_def same_device_def fr_bytes_def)
  have xs: "\<forall>x \<in> set xs. fr_key x < fr_key new" "fl_inv xs"
    using inv xs1 by (simp_all add: fl fl_inv_append)
  have ys: "\<forall>y \<in> set ys. \<not> fr_key y < fr_key new" "fl_inv ys"
    using inv ys1 by (simp_all add: fl fl_inv_append)
  define bad1 where "bad1 \<longleftrightarrow> xs \<noteq> [] \<and> same_device (last xs) n d \<and> off < fr_end (last xs)"
  define bad2 where "bad2 \<longleftrightarrow> ys \<noteq> [] \<and> same_device (hd ys) n d \<and> fr_off (hd ys) < off + ln"
  have last_at: "xs \<noteq> [] \<Longrightarrow> fl ! (length xs - 1) = last xs"
    using fl by (simp add: nth_append last_conv_nth)
  have hd_at: "ys \<noteq> [] \<Longrightarrow> fl ! length xs = hd ys"
    using fl by (simp add: nth_append hd_conv_nth)
  have rel: "fl_release fl n d off ln = (if bad1 \<or> bad2 then (False, fl)
      else (True, merge_prev n d (length xs) (merge_next n d (length xs) (xs @ new # ys))))"
  proof -
    have "fl_release fl n d off ln =
        (if 0 < length xs \<and> same_device (fl ! (length xs - 1)) n d
            \<and> off < fr_end (fl ! (length xs - 1)) then (False, fl)
         else if length xs < length fl \<and> same_device (fl ! length xs) n d
            \<and> fr_off (fl ! length xs) < fr_end new then (False, fl)
         else (True, merge_prev n d (length xs)
            (merge_next n d (length xs) (vec_insert (length xs) new fl))))"
      using ln(1) by (simp only: fl_release_def Let_def new_def [symmetric] tw) simp
    moreover have "length xs < length fl \<longleftrightarrow> ys \<noteq> []" using fl by auto
    moreover have "vec_insert (length xs) new fl = xs @ new # ys" using fl by simp
    moreover have "fr_end new = off + ln" using ln by (simp add: new_def fr_end_def)
    ultimately show ?thesis
      using last_at hd_at unfolding bad1_def bad2_def
      by (cases "xs = []"; cases "ys = []") simp_all
  qed
  show ?thesis
  proof (cases "bad1 \<or> bad2")
    case True
    have "byte_range n d off ln \<inter> free_bytes fl \<noteq> {}"
    proof (cases bad1)
      case True
      then have "last xs \<in> set xs" "fr_ok (last xs)" using xs by (auto simp: bad1_def fl_inv_def)
      then have "(n, d, off) \<in> fr_bytes (last xs)"
        using True xs(1) by (auto simp: bad1_def mem_fr_bytes same_device_def fr_key_def new_def)
      then have "(n, d, off) \<in> free_bytes fl"
        using \<open>last xs \<in> set xs\<close> fl by (auto simp: free_bytes_def)
      moreover have "(n, d, off) \<in> byte_range n d off ln" using ln by simp
      ultimately show ?thesis by blast
    next
      case False
      with True have b2: bad2 by simp
      then have "hd ys \<in> set ys" "fr_ok (hd ys)" using ys by (auto simp: bad2_def fl_inv_def)
      moreover from this have "off \<le> fr_off (hd ys)"
        using b2 ys(1) by (auto simp: bad2_def same_device_def fr_key_def new_def not_less)
      ultimately have "(n, d, fr_off (hd ys)) \<in> free_bytes fl \<inter> byte_range n d off ln"
        using b2 fl by (auto simp: bad2_def free_bytes_def mem_fr_bytes same_device_def fr_ok_def)
      then show ?thesis by blast
    qed
    with True rel show ?thesis by simp
  next
    case False
    have tx: "\<forall>x \<in> set xs. touch x new"
    proof (cases xs rule: rev_cases)
      case (snoc ws p)
      have "fr_ok p" using xs snoc by (simp add: fl_inv_simps)
      moreover have "touch p new"
        using False xs(1) snoc \<open>fr_ok p\<close>
        by (auto simp: bad1_def touch_def same_device_def fr_key_def new_def less_prod_def)
      ultimately show ?thesis
        using xs snoc by (auto simp: fl_inv_simps intro: apart_touch apart_trans(2))
    qed simp
    have ty: "\<forall>y \<in> set ys. touch new y"
    proof (cases ys)
      case (Cons y t)
      have "fr_ok y" using ys Cons by (simp add: fl_inv_simps)
      moreover have "touch new y"
        using False ys(1) Cons
        by (auto simp: bad2_def touch_def same_device_def fr_key_def new_def less_prod_def)
      ultimately show ?thesis
        using ys Cons by (auto simp: fl_inv_simps intro: apart_touch apart_trans(3))
    qed simp
    note jn = join_next_spec [OF new(1) ys(2) ty]
    obtain z zs where z: "join_next new ys = z # zs" using jn(3) by (cases "join_next new ys") auto
    have "fr_ok z" "same_device z n d"
      using jn(1,3) z new(2) by (auto simp: fl_inv_simps same_device_def)
    then have "fl_release fl n d off ln = (True, join_prev xs (join_next new ys))"
      using False rel merge_next_eq [OF new(1) ys(2) new(2)] merge_prev_eq [OF xs(2)] z by simp
    with fl new tx ty show ?thesis by blast
  qed
qed

lemma fl_release_spec:
  assumes inv: "fl_inv fl" and ln: "0 < ln" "off + ln \<le> u64_max"
    and res: "fl_release fl n d off ln = (ok, fl')"
  shows "fl_inv fl'" and "ok \<longleftrightarrow> byte_range n d off ln \<inter> free_bytes fl = {}"
    and "free_bytes fl' = (if ok then free_bytes fl \<union> byte_range n d off ln else free_bytes fl)"
    and "\<not> ok \<Longrightarrow> fl' = fl"
proof -
  have "fl_inv fl' \<and> (ok \<longleftrightarrow> byte_range n d off ln \<inter> free_bytes fl = {}) \<and> (\<not> ok \<longrightarrow> fl' = fl) \<and>
    free_bytes fl' = (if ok then free_bytes fl \<union> byte_range n d off ln else free_bytes fl)"
    using fl_release_cases [OF inv ln, of n d]
  proof (elim disjE exE conjE)
    fix xs ys new
    assume fl: "fl = xs @ ys" and new: "fr_ok new" "fr_bytes new = byte_range n d off ln"
      and t: "\<forall>x \<in> set xs. touch x new" "\<forall>y \<in> set ys. touch new y"
      and rel: "fl_release fl n d off ln = (True, join_prev xs (join_next new ys))"
    have parts: "fl_inv xs" "fl_inv ys" "\<forall>x \<in> set xs. \<forall>y \<in> set ys. apart x y"
      using inv fl by (auto simp: fl_inv_append)
    note jn = join_next_spec [OF new(1) parts(2) t(2)]
    obtain z zs where z: "join_next new ys = z # zs" using jn(3) by (cases "join_next new ys") auto
    have "\<forall>x \<in> set xs. touch x z" using t(1) jn(3) z by (simp add: touch_def)
    moreover have "\<forall>x \<in> set xs. \<forall>y \<in> set zs. apart x y" using parts(3) jn(4) z by auto
    ultimately have jp: "fl_inv (join_prev xs (z # zs))"
        "free_bytes (join_prev xs (z # zs)) = free_bytes xs \<union> free_bytes (z # zs)"
      using join_prev_spec parts(1) jn(1) z by auto
    have "byte_range n d off ln \<inter> free_bytes fl = {}"
      using t fl new(2) touch_disjoint by (fastforce simp: free_bytes_def)
    with rel res jp jn(2) z fl new(2) show ?thesis by (auto simp: free_bytes_append)
  qed (use res inv in auto)
  then show "fl_inv fl'" and "ok \<longleftrightarrow> byte_range n d off ln \<inter> free_bytes fl = {}"
    and "free_bytes fl' = (if ok then free_bytes fl \<union> byte_range n d off ln else free_bytes fl)"
    and "\<not> ok \<Longrightarrow> fl' = fl"
    by blast+
qed

section \<open>The allocator as an interface\<close>

text \<open>
  The catalog reserves or releases one range of the same length per replica of an extent,
  \<open>(node, device, offset)\<close> triples. Reserving ignores a range that is not free (freshly
  appended space); releasing stops at the first double free.
\<close>

type_synonym place = "string \<times> nat \<times> nat"

fun reserve_all ::
    "('s \<Rightarrow> string \<Rightarrow> nat \<Rightarrow> nat \<Rightarrow> nat \<Rightarrow> bool \<times> 's) \<Rightarrow> 's \<Rightarrow> place list \<Rightarrow> nat \<Rightarrow> 's" where
  "reserve_all rsv s [] ln = s"
| "reserve_all rsv s ((n, d, off) # ps) ln = reserve_all rsv (snd (rsv s n d off ln)) ps ln"

fun release_all ::
    "('s \<Rightarrow> string \<Rightarrow> nat \<Rightarrow> nat \<Rightarrow> nat \<Rightarrow> bool \<times> 's) \<Rightarrow> 's \<Rightarrow> place list \<Rightarrow> nat \<Rightarrow> bool \<times> 's" where
  "release_all rel s [] ln = (True, s)"
| "release_all rel s ((n, d, off) # ps) ln =
     (case rel s n d off ln of (True, s') \<Rightarrow> release_all rel s' ps ln | (False, s') \<Rightarrow> (False, s'))"

definition place_bytes :: "nat \<Rightarrow> place \<Rightarrow> device_byte set" where
  "place_bytes ln p = (case p of (n, d, off) \<Rightarrow> byte_range n d off ln)"

definition places_bytes :: "nat \<Rightarrow> place list \<Rightarrow> device_byte set" where
  "places_bytes ln ps = (\<Union>p \<in> set ps. place_bytes ln p)"

fun places_ok :: "nat \<Rightarrow> place list \<Rightarrow> bool" where
  "places_ok ln [] \<longleftrightarrow> True"
| "places_ok ln (p # ps) \<longleftrightarrow> snd (snd p) + ln \<le> u64_max
     \<and> place_bytes ln p \<inter> places_bytes ln ps = {} \<and> places_ok ln ps"

lemma place_bytes_simps [simp]:
  "place_bytes ln (n, d, off) = byte_range n d off ln" "place_bytes 0 p = {}"
  by (simp_all add: place_bytes_def split: prod.splits)

lemma places_bytes_simps [simp]:
  "places_bytes ln [] = {}" "places_bytes ln (p # ps) = place_bytes ln p \<union> places_bytes ln ps"
  by (simp_all add: places_bytes_def)

locale space_manager =
  fixes sinv :: "'s \<Rightarrow> bool"
    and free :: "'s \<Rightarrow> device_byte set"
    and rsv :: "'s \<Rightarrow> string \<Rightarrow> nat \<Rightarrow> nat \<Rightarrow> nat \<Rightarrow> bool \<times> 's"
    and rel :: "'s \<Rightarrow> string \<Rightarrow> nat \<Rightarrow> nat \<Rightarrow> nat \<Rightarrow> bool \<times> 's"
  assumes rsv_zero: "rsv s n d off 0 = (False, s)"
    and rel_zero: "rel s n d off 0 = (True, s)"
    and rsv_inv: "sinv s \<Longrightarrow> 0 < ln \<Longrightarrow> off + ln \<le> u64_max \<Longrightarrow> sinv (snd (rsv s n d off ln))"
    and rsv_free: "sinv s \<Longrightarrow> 0 < ln \<Longrightarrow> off + ln \<le> u64_max \<Longrightarrow>
      free (snd (rsv s n d off ln)) = (if byte_range n d off ln \<subseteq> free s
        then free s - byte_range n d off ln else free s)"
    and rel_inv: "sinv s \<Longrightarrow> 0 < ln \<Longrightarrow> off + ln \<le> u64_max \<Longrightarrow> sinv (snd (rel s n d off ln))"
    and rel_ok: "sinv s \<Longrightarrow> 0 < ln \<Longrightarrow> off + ln \<le> u64_max \<Longrightarrow>
      fst (rel s n d off ln) \<longleftrightarrow> byte_range n d off ln \<inter> free s = {}"
    and rel_free: "sinv s \<Longrightarrow> 0 < ln \<Longrightarrow> off + ln \<le> u64_max \<Longrightarrow> fst (rel s n d off ln) \<Longrightarrow>
      free (snd (rel s n d off ln)) = free s \<union> byte_range n d off ln"
begin

text \<open>A range that is free as a whole or not at all leaves the free set either way.\<close>

lemma rsv_all_or_nothing:
  assumes "sinv s" and "off + ln \<le> u64_max"
    and "byte_range n d off ln \<subseteq> free s \<or> byte_range n d off ln \<inter> free s = {}"
  shows "sinv (snd (rsv s n d off ln))
    \<and> free (snd (rsv s n d off ln)) = free s - byte_range n d off ln"
proof (cases "ln = 0")
  case True
  with assms show ?thesis by (simp add: rsv_zero)
next
  case False
  then show ?thesis
    using rsv_inv [OF assms(1) _ assms(2), of n d] rsv_free [OF assms(1) _ assms(2), of n d] assms(3)
    by auto
qed

lemma reserve_all_spec:
  assumes "sinv s" and "places_ok ln ps"
    and "\<forall>p \<in> set ps. place_bytes ln p \<subseteq> free s \<or> place_bytes ln p \<inter> free s = {}"
  shows "sinv (reserve_all rsv s ps ln)
    \<and> free (reserve_all rsv s ps ln) = free s - places_bytes ln ps"
  using assms
proof (induction ps arbitrary: s)
  case (Cons p ps)
  obtain n d off where p: "p = (n, d, off)" by (cases p) auto
  let ?s = "snd (rsv s n d off ln)"
  have s: "sinv ?s" "free ?s = free s - byte_range n d off ln"
    using rsv_all_or_nothing [of s off ln n d] Cons.prems p by auto
  have "\<forall>q \<in> set ps. place_bytes ln q \<subseteq> free ?s \<or> place_bytes ln q \<inter> free ?s = {}"
  proof
    fix q assume q: "q \<in> set ps"
    then have "place_bytes ln q \<inter> byte_range n d off ln = {}"
      using Cons.prems(2) p by (auto simp: places_bytes_def)
    then show "place_bytes ln q \<subseteq> free ?s \<or> place_bytes ln q \<inter> free ?s = {}"
      using Cons.prems(3) q s(2) by auto
  qed
  with Cons.IH [OF s(1)] Cons.prems p s(2) show ?case by auto
qed simp

lemma release_all_spec:
  assumes "sinv s" and "places_ok ln ps" and "places_bytes ln ps \<inter> free s = {}"
  shows "\<exists>s'. release_all rel s ps ln = (True, s') \<and> sinv s'
    \<and> free s' = free s \<union> places_bytes ln ps"
  using assms
proof (induction ps arbitrary: s)
  case (Cons p ps)
  obtain n d off where p: "p = (n, d, off)" by (cases p) auto
  obtain ok s1 where r: "rel s n d off ln = (ok, s1)" by fastforce
  have one: "ok \<and> sinv s1 \<and> free s1 = free s \<union> byte_range n d off ln"
  proof (cases "ln = 0")
    case True
    with r Cons.prems show ?thesis by (auto simp: rel_zero)
  next
    case False
    have b: "off + ln \<le> u64_max" "byte_range n d off ln \<inter> free s = {}"
      using Cons.prems p by auto
    then show ?thesis
      using False r rel_ok [OF Cons.prems(1) _ b(1), of n d] rel_inv [OF Cons.prems(1) _ b(1), of n d]
        rel_free [OF Cons.prems(1) _ b(1), of n d] by auto
  qed
  have "places_bytes ln ps \<inter> free s1 = {}"
    using Cons.prems(2,3) p one by auto
  then obtain s' where "release_all rel s1 ps ln = (True, s')" "sinv s'"
      "free s' = free s1 \<union> places_bytes ln ps"
    using Cons.IH [of s1] Cons.prems(2) one by auto
  then show ?case using p r one by (simp add: Un_assoc)
qed simp

text \<open>Double frees are rejected: the second release of a range fails.\<close>

lemma double_free:
  assumes "sinv s" and "0 < ln" and "off + ln \<le> u64_max" and "fst (rel s n d off ln)"
  shows "\<not> fst (rel (snd (rel s n d off ln)) n d off ln)"
proof -
  have "(n, d, off) \<in> byte_range n d off ln \<inter> free (snd (rel s n d off ln))"
    using assms rel_free by simp
  then have "byte_range n d off ln \<inter> free (snd (rel s n d off ln)) \<noteq> {}" by blast
  then show ?thesis using rel_ok rel_inv assms by simp
qed

text \<open>What was released can be reserved again, and the free space is as before.\<close>

lemma release_then_reserve:
  assumes "sinv s" and "0 < ln" and "off + ln \<le> u64_max" and "fst (rel s n d off ln)"
  shows "free (snd (rsv (snd (rel s n d off ln)) n d off ln)) = free s"
proof -
  have "byte_range n d off ln \<inter> free s = {}" using assms rel_ok by blast
  then show ?thesis using assms rel_inv rel_free rsv_free by auto
qed

end

interpretation fl: space_manager fl_inv free_bytes fl_reserve fl_release
proof unfold_locales
  fix s n d off ln
  show "fl_reserve s n d off 0 = (False, s)" by (simp add: fl_reserve_def)
  show "fl_release s n d off 0 = (True, s)" by (simp add: fl_release_def)
  assume a: "fl_inv s" "0 < ln" "off + ln \<le> u64_max"
  obtain ok s' where r: "fl_reserve s n d off ln = (ok, s')" by fastforce
  show "fl_inv (snd (fl_reserve s n d off ln))"
    and "free_bytes (snd (fl_reserve s n d off ln)) = (if byte_range n d off ln \<subseteq> free_bytes s
          then free_bytes s - byte_range n d off ln else free_bytes s)"
    using fl_reserve_spec [OF a r] r by auto
  obtain ok2 s2 where r2: "fl_release s n d off ln = (ok2, s2)" by fastforce
  show "fl_inv (snd (fl_release s n d off ln))"
    and "fst (fl_release s n d off ln) \<longleftrightarrow> byte_range n d off ln \<inter> free_bytes s = {}"
    using fl_release_spec [OF a r2] r2 by auto
  assume "fst (fl_release s n d off ln)"
  then show "free_bytes (snd (fl_release s n d off ln)) = free_bytes s \<union> byte_range n d off ln"
    using fl_release_spec [OF a r2] r2 by auto
qed

section \<open>Counting\<close>

lemma sum_ranges_card: "fl_inv fl \<Longrightarrow> sum_list (map fr_len fl) = card (free_bytes fl)"
proof (induction fl)
  case (Cons r fl)
  have "fr_bytes r \<inter> free_bytes fl = {}"
    using Cons.prems apart_disjoint by (fastforce simp: fl_inv_simps free_bytes_def)
  moreover have "finite (fr_bytes x)" for x by (simp add: fr_bytes_def byte_range_def)
  moreover have "card (fr_bytes r) = fr_len r"
    by (simp add: fr_bytes_def byte_range_def card_cartesian_product)
  ultimately show ?case
    using Cons by (simp add: fl_inv_simps free_bytes_Cons card_Un_disjoint free_bytes_def)
qed simp

section \<open>What the free list promises\<close>

text \<open>(C21) The free list implements a set of bytes. Reserving a range succeeds exactly when all
  of it is free and then takes it out; releasing succeeds exactly when none of it is free (so a
  double free is refused) and then adds it; a refused call changes nothing; and both keep the
  list sorted, non-overlapping and coalesced.\<close>

theorem free_list_refines_bytes:
  assumes "fl_inv fl" and "0 < ln" and "off + ln \<le> u64_max"
  shows "fl_inv (snd (fl_reserve fl n d off ln)) \<and> fl_inv (snd (fl_release fl n d off ln))
    \<and> (if byte_range n d off ln \<subseteq> free_bytes fl
       then fst (fl_reserve fl n d off ln)
         \<and> free_bytes (snd (fl_reserve fl n d off ln)) = free_bytes fl - byte_range n d off ln
       else fl_reserve fl n d off ln = (False, fl))
    \<and> (if byte_range n d off ln \<inter> free_bytes fl = {}
       then fst (fl_release fl n d off ln)
         \<and> free_bytes (snd (fl_release fl n d off ln)) = free_bytes fl \<union> byte_range n d off ln
       else fl_release fl n d off ln = (False, fl))"
proof -
  obtain ok s where r: "fl_reserve fl n d off ln = (ok, s)" by (rule prod.exhaust)
  obtain ok2 s2 where r2: "fl_release fl n d off ln = (ok2, s2)" by (rule prod.exhaust)
  show ?thesis
    using fl_reserve_spec [OF assms r] fl_reserve_False [of fl n d off ln s]
      fl_release_spec [OF assms r2] r r2 by auto
qed

theorem free_list_refines_bytes_witness:
  "(let fl = [\<lparr>fr_node = ''n1'', fr_dev = 0, fr_off = 0, fr_len = 10\<rparr>]
    in fl_inv fl \<and> fl_reserve fl ''n1'' 0 2 20 = (False, fl)
      \<and> free_bytes (snd (fl_reserve fl ''n1'' 0 2 4)) = free_bytes fl - byte_range ''n1'' 0 2 4
      \<and> free_bytes (snd (fl_release fl ''n1'' 0 10 5)) = free_bytes fl \<union> byte_range ''n1'' 0 10 5)"
proof -
  let ?r = "\<lparr>fr_node = ''n1'', fr_dev = 0, fr_off = 0, fr_len = 10\<rparr>"
  have inv: "fl_inv [?r]" by (simp add: fl_inv_simps fr_ok_def u64_max_def)
  have fb: "free_bytes [?r] = byte_range ''n1'' 0 0 10"
    by (simp add: free_bytes_def fr_bytes_def)
  have "(''n1'', 0, 15) \<in> byte_range ''n1'' 0 2 20" "(''n1'', 0, 15) \<notin> free_bytes [?r]"
    by (simp_all add: fb)
  then have no: "\<not> byte_range ''n1'' 0 2 20 \<subseteq> free_bytes [?r]" by blast
  have yes: "byte_range ''n1'' 0 2 4 \<subseteq> free_bytes [?r]"
      "byte_range ''n1'' 0 10 5 \<inter> free_bytes [?r] = {}" by (auto simp: fb byte_range_def)
  show ?thesis
    using free_list_refines_bytes [OF inv, of 20 2 "''n1''" 0]
      free_list_refines_bytes [OF inv, of 4 2 "''n1''" 0]
      free_list_refines_bytes [OF inv, of 5 10 "''n1''" 0] inv no yes
    by (simp add: u64_max_def Let_def)
qed

text \<open>(C33) First fit is complete: \<open>find\<close> returns an offset exactly when the device has that many
  contiguous free bytes, and reserving the range it returns succeeds.\<close>

theorem find_complete:
  assumes "fl_inv fl" and "0 < ln"
  shows "case fl_find fl n d ln of
      None \<Rightarrow> \<not> (\<exists>off. byte_range n d off ln \<subseteq> free_bytes fl)
    | Some off \<Rightarrow> byte_range n d off ln \<subseteq> free_bytes fl \<and> fst (fl_reserve fl n d off ln)"
proof (cases "fl_find fl n d ln")
  case None
  with fl_find_None [OF assms None] show ?thesis by auto
next
  case (Some off)
  obtain r where "r \<in> set fl" "fr_off r = off" "ln \<le> fr_len r"
    using Some by (force simp: fl_find_def find_Some_iff split: if_splits dest: nth_mem)
  then have "off + ln \<le> u64_max" using assms(1) by (auto simp: fl_inv_def fr_ok_def)
  moreover obtain ok s where r: "fl_reserve fl n d off ln = (ok, s)" by (rule prod.exhaust)
  ultimately show ?thesis
    using fl_find_Some [OF Some] fl_reserve_spec(2) [OF assms _ r] Some r by simp
qed

theorem find_complete_witness:
  "byte_range ''n1'' 0 7 4 \<subseteq> free_bytes [\<lparr>fr_node = ''n1'', fr_dev = 0, fr_off = 7, fr_len = 9\<rparr>]"
  using find_complete [of "[\<lparr>fr_node = ''n1'', fr_dev = 0, fr_off = 7, fr_len = 9\<rparr>]" 4 "''n1''" 0]
  by (simp add: fl_find_def same_device_def fl_inv_simps fr_ok_def u64_max_def)

text \<open>(C34) The reported capacity is the number of free bytes, up to the width of the counter.\<close>

theorem total_bytes_counts:
  assumes "fl_inv fl"
  shows "total_bytes fl = card (free_bytes fl) mod 2 ^ 64"
  using fold_wrap_add [of fr_len fl 0] sum_ranges_card [OF assms] by (simp add: total_bytes_def)

theorem total_bytes_counts_witness:
  "card (free_bytes [\<lparr>fr_node = ''n1'', fr_dev = 0, fr_off = 7, fr_len = 9\<rparr>]) mod 2 ^ 64 = 9"
  using total_bytes_counts [of "[\<lparr>fr_node = ''n1'', fr_dev = 0, fr_off = 7, fr_len = 9\<rparr>]"]
  by (simp add: total_bytes_def wrap_add_def fl_inv_simps fr_ok_def u64_max_def)

end
