(* ===== verification/Quorum.thy ===== *)
theory Quorum
  imports Prelude "HOL-Library.FSet"
begin

text \<open>
  Voter configurations (\<open>crates/atlas-native/src/membership.rs\<close>): a stable voter set, or the
  joint configuration of a membership change, which needs a majority of the old and of the new
  voters. The locale \<open>quorum_system\<close> states what Raft relies on: quorums of configurations that
  can be in force together meet, and more acknowledgements never hurt.
\<close>

type_synonym node_id = string

datatype membership =
    Stable (stable_voters: "node_id fset")
  | Joint (joint_old: "node_id fset") (joint_new: "node_id fset")

definition stable :: "node_id list \<Rightarrow> membership" where
  "stable vs = Stable (fset_of_list vs)"

fun voters :: "membership \<Rightarrow> node_id fset" where
  "voters (Stable vs) = vs"
| "voters (Joint old new) = old |\<union>| new"

fun target :: "membership \<Rightarrow> node_id fset" where
  "target (Stable vs) = vs"
| "target (Joint old new) = new"

definition majority :: "node_id fset \<Rightarrow> node_id fset \<Rightarrow> bool" where
  "majority vs acks \<longleftrightarrow> vs \<noteq> {||} \<and> fcard vs div 2 < fcard (vs |\<inter>| acks)"

fun has_quorum :: "membership \<Rightarrow> node_id fset \<Rightarrow> bool" where
  "has_quorum (Stable vs) acks \<longleftrightarrow> majority vs acks"
| "has_quorum (Joint old new) acks \<longleftrightarrow> majority old acks \<and> majority new acks"

section \<open>Majorities\<close>

lemma majorities_meet:
  assumes "majority vs a" and "majority vs b"
  shows "vs |\<inter>| a |\<inter>| b \<noteq> {||}"
proof
  assume empty: "vs |\<inter>| a |\<inter>| b = {||}"
  let ?a = "vs |\<inter>| a" and ?b = "vs |\<inter>| b"
  have "?a |\<inter>| ?b = {||}" using empty by blast
  then have "fcard (?a |\<union>| ?b) = fcard ?a + fcard ?b"
    by (rule fcard_funion_disjoint)
  moreover have "fcard (?a |\<union>| ?b) \<le> fcard vs" by (intro fcard_mono) blast
  moreover have "fcard vs < 2 * fcard ?a" "fcard vs < 2 * fcard ?b"
    using assms unfolding majority_def by linarith+
  ultimately show False by linarith
qed

lemma majority_mono: "majority vs a \<Longrightarrow> a |\<subseteq>| b \<Longrightarrow> majority vs b"
  unfolding majority_def by (meson finter_mono fcard_mono fsubset_refl order_less_le_trans)

lemma majority_voters_only: "majority vs (a |\<inter>| vs) \<longleftrightarrow> majority vs a"
proof -
  have "vs |\<inter>| (a |\<inter>| vs) = vs |\<inter>| a" by blast
  then show ?thesis by (simp add: majority_def)
qed

section \<open>Quorum systems\<close>

text \<open>The voter sets a configuration needs a majority of, and when two can be in force together.\<close>

fun sides :: "membership \<Rightarrow> node_id fset fset" where
  "sides (Stable vs) = {|vs|}"
| "sides (Joint old new) = {|old, new|}"

definition overlapping :: "membership \<Rightarrow> membership \<Rightarrow> bool" where
  "overlapping c c' \<longleftrightarrow> sides c |\<inter>| sides c' \<noteq> {||}"

locale quorum_system =
  fixes quorum :: "'c \<Rightarrow> 'n fset \<Rightarrow> bool"
    and together :: "'c \<Rightarrow> 'c \<Rightarrow> bool"
  assumes together_refl: "together c c"
    and meet: "together c c' \<Longrightarrow> quorum c a \<Longrightarrow> quorum c' b \<Longrightarrow> a |\<inter>| b \<noteq> {||}"
    and mono: "quorum c a \<Longrightarrow> a |\<subseteq>| b \<Longrightarrow> quorum c b"
begin

text \<open>With one vote per voter, two candidates cannot both have a quorum of votes.\<close>

lemma one_winner:
  assumes "together c c'" and "quorum c a" and "quorum c' b"
    and "\<And>n. n |\<in>| a \<Longrightarrow> vote n = Some x" and "\<And>n. n |\<in>| b \<Longrightarrow> vote n = Some y"
  shows "x = y"
proof -
  obtain n where "n |\<in>| a" "n |\<in>| b" using meet [OF assms(1-3)] by blast
  then show ?thesis using assms(4,5) by fastforce
qed

text \<open>What a quorum acknowledged is known to some member of every later quorum.\<close>

lemma acknowledged_is_seen:
  assumes "together c c'" and "quorum c a" and "quorum c' b" and "\<And>n. n |\<in>| a \<Longrightarrow> P n"
  shows "\<exists>n. n |\<in>| b \<and> P n"
  using meet [OF assms(1-3)] assms(4) by blast

lemma no_empty_quorum: "\<not> quorum c {||}"
  using meet [OF together_refl] by blast

end

lemma has_quorum_sides: "has_quorum c a \<longleftrightarrow> (\<forall>vs. vs |\<in>| sides c \<longrightarrow> majority vs a)"
  by (cases c) auto

interpretation memb: quorum_system has_quorum overlapping
proof unfold_locales
  fix c c' :: membership and a b
  show "overlapping c c" by (cases c) (auto simp: overlapping_def)
  show "overlapping c c' \<Longrightarrow> has_quorum c a \<Longrightarrow> has_quorum c' b \<Longrightarrow> a |\<inter>| b \<noteq> {||}"
    using majorities_meet by (fastforce simp: overlapping_def has_quorum_sides)
  show "has_quorum c a \<Longrightarrow> a |\<subseteq>| b \<Longrightarrow> has_quorum c b"
    by (auto simp: has_quorum_sides intro: majority_mono)
qed

lemma change_overlaps:
  "overlapping (Stable old) (Joint old new)" "overlapping (Joint old new) (Stable new)"
  by (auto simp: overlapping_def)

lemma has_quorum_voters_only: "has_quorum c (a |\<inter>| voters c) \<longleftrightarrow> has_quorum c a"
proof (cases c)
  case (Stable vs)
  then show ?thesis by (simp add: majority_voters_only)
next
  case (Joint old new)
  have "majority vs (a |\<inter>| (old |\<union>| new)) \<longleftrightarrow> majority vs a" if "vs = old \<or> vs = new" for vs
  proof -
    have "vs |\<inter>| (a |\<inter>| (old |\<union>| new)) = vs |\<inter>| a" using that by blast
    then show ?thesis by (simp add: majority_def)
  qed
  with Joint show ?thesis by simp
qed

section \<open>What elections and commits rely on\<close>

text \<open>(C22) Across a membership change from \<open>old\<close> to \<open>new\<close> through their joint configuration,
  every two quorums of neighbouring configurations share a voter, so with one vote per voter
  two candidates cannot both win; and acknowledgements from outside the configuration never
  count.\<close>

theorem membership_change_safe:
  assumes "c \<in> {Stable old, Joint old new}" and "c' \<in> {Joint old new, Stable new}"
    and "c = Joint old new \<or> c' = Joint old new"
    and "has_quorum c a" and "has_quorum c' b"
    and "\<And>n. n |\<in>| a |\<inter>| voters c \<Longrightarrow> vote n = Some x"
    and "\<And>n. n |\<in>| b |\<inter>| voters c' \<Longrightarrow> vote n = Some y"
  shows "x = y"
proof -
  have "overlapping c c'" using assms(1-3) change_overlaps memb.together_refl by auto
  moreover have "has_quorum c (a |\<inter>| voters c)" "has_quorum c' (b |\<inter>| voters c')"
    using assms(4,5) by (simp_all add: has_quorum_voters_only)
  ultimately show ?thesis by (rule memb.one_winner [of _ _ _ _ vote]) (use assms(6,7) in auto)
qed

theorem membership_change_safe_witness:
  "has_quorum (Joint {|''a'', ''b'', ''c''|} {|''b'', ''c'', ''d''|}) {|''b'', ''c''|}
    \<and> has_quorum (Stable {|''b'', ''c'', ''d''|}) {|''c'', ''d''|}
    \<and> the ((\<lambda>n. if n = ''a'' then None else Some (1::nat)) ''b'')
        = the ((\<lambda>n. if n = ''a'' then None else Some 1) ''d'')"
proof -
  let ?vote = "\<lambda>n. if n = ''a'' then None else Some (1::nat)"
  have q: "has_quorum (Joint {|''a'', ''b'', ''c''|} {|''b'', ''c'', ''d''|}) {|''b'', ''c''|}"
    "has_quorum (Stable {|''b'', ''c'', ''d''|}) {|''c'', ''d''|}"
    by code_simp+
  have "the (?vote ''b'') = the (?vote ''d'')"
    by (rule membership_change_safe [of _ "{|''a'', ''b'', ''c''|}" "{|''b'', ''c'', ''d''|}" _ _ _ ?vote,
          OF _ _ _ q]) auto
  with q show ?thesis by blast
qed

end
