(* ===== verification/Placement.thy ===== *)
theory Placement
  imports Prelude "HOL-Library.FSet"
begin

text \<open>
  Replica placement (\<open>crates/atlas-native/src/placement.rs\<close>): candidates are the healthy nodes
  with room, most free space first; a first pass takes one node per rack, a second fills up
  while still keeping hosts distinct.
\<close>

record failure_domain =
  zone :: string
  rack :: string
  host :: string

record node =
  n_id :: string
  failure_domain :: failure_domain
  free_space :: nat
  healthy :: bool

record placement_policy =
  replicas :: nat
  require_distinct_hosts :: bool
  prefer_distinct_racks :: bool

definition default_policy :: placement_policy where
  "default_policy = \<lparr>replicas = 3, require_distinct_hosts = True, prefer_distinct_racks = True\<rparr>"

definition n_host :: "node \<Rightarrow> string" where
  "n_host n = host (failure_domain n)"

definition n_rack :: "node \<Rightarrow> string" where
  "n_rack n = rack (failure_domain n)"

definition eligible :: "nat \<Rightarrow> node \<Rightarrow> bool" where
  "eligible bytes n \<longleftrightarrow> healthy n \<and> bytes \<le> free_space n"

definition candidates :: "node list \<Rightarrow> nat \<Rightarrow> node list" where
  "candidates nodes bytes =
     sort_key (\<lambda>n. (- int (free_space n), n_id n)) (filter (eligible bytes) nodes)"

fun rack_pass :: "placement_policy \<Rightarrow> node list \<Rightarrow> string list \<Rightarrow> string fset \<Rightarrow> string fset
    \<Rightarrow> string list \<times> string fset \<times> string fset" where
  "rack_pass pol [] out hosts racks = (out, hosts, racks)"
| "rack_pass pol (n # ns) out hosts racks =
     (if length out = replicas pol then (out, hosts, racks)
      else if require_distinct_hosts pol \<and> n_host n |\<in>| hosts then rack_pass pol ns out hosts racks
      else if n_rack n |\<in>| racks then rack_pass pol ns out hosts racks
      else rack_pass pol ns (out @ [n_id n]) (finsert (n_host n) hosts) (finsert (n_rack n) racks))"

fun fill_pass :: "placement_policy \<Rightarrow> node list \<Rightarrow> string list \<Rightarrow> string fset
    \<Rightarrow> string list \<times> string fset" where
  "fill_pass pol [] out hosts = (out, hosts)"
| "fill_pass pol (n # ns) out hosts =
     (if length out = replicas pol then (out, hosts)
      else if n_id n \<in> set out then fill_pass pol ns out hosts
      else if require_distinct_hosts pol \<and> n_host n |\<in>| hosts then fill_pass pol ns out hosts
      else fill_pass pol ns (out @ [n_id n]) (finsert (n_host n) hosts))"

definition select_replicas :: "node list \<Rightarrow> nat \<Rightarrow> placement_policy \<Rightarrow> string list" where
  "select_replicas nodes bytes pol =
     (let cands = candidates nodes bytes;
          (out, hosts, racks) =
            (if prefer_distinct_racks pol then rack_pass pol cands [] {||} {||} else ([], {||}, {||}))
      in fst (fill_pass pol cands out hosts))"

section \<open>The loops' invariant\<close>

definition picked :: "node set \<Rightarrow> string list \<Rightarrow> node set" where
  "picked N out = {n \<in> N. n_id n \<in> set out}"

text \<open>What has been chosen so far, for candidates \<open>N\<close> with distinct ids.\<close>

definition pass_inv ::
    "placement_policy \<Rightarrow> node set \<Rightarrow> string list \<Rightarrow> string fset \<Rightarrow> bool" where
  "pass_inv pol N out hosts \<longleftrightarrow> length out \<le> replicas pol \<and> distinct out \<and> set out \<subseteq> n_id ` N
     \<and> fset hosts = n_host ` picked N out
     \<and> (require_distinct_hosts pol \<longrightarrow> inj_on n_host (picked N out))"

lemma picked_snoc:
  assumes "inj_on n_id N" and "n \<in> N"
  shows "picked N (out @ [n_id n]) = insert n (picked N out)"
  using assms by (auto simp: picked_def dest: inj_onD)

lemma pass_inv_snoc:
  assumes "inj_on n_id N" and "n \<in> N" and "pass_inv pol N out hosts"
    and "length out \<noteq> replicas pol" and "n_id n \<notin> set out"
    and "require_distinct_hosts pol \<Longrightarrow> n_host n |\<notin>| hosts"
  shows "pass_inv pol N (out @ [n_id n]) (finsert (n_host n) hosts)"
  using assms by (auto simp: pass_inv_def picked_snoc intro: inj_on_insert [THEN iffD2])

lemma rack_pass_inv:
  assumes "inj_on n_id N" and "set ns \<subseteq> N" and "pass_inv pol N out hosts"
    and "fset racks = n_rack ` picked N out"
    and "rack_pass pol ns out hosts racks = (out', hosts', racks')"
  shows "pass_inv pol N out' hosts'"
  using assms
proof (induction pol ns out hosts racks rule: rack_pass.induct)
  case (2 pol n ns out hosts racks)
  show ?case
  proof (cases "length out = replicas pol \<or> require_distinct_hosts pol \<and> n_host n |\<in>| hosts
      \<or> n_rack n |\<in>| racks")
    case True
    with 2 show ?thesis by (auto split: if_splits)
  next
    case False
    then have "n_id n \<notin> set out"
      using "2.prems" by (auto simp: picked_def)
    then have "pass_inv pol N (out @ [n_id n]) (finsert (n_host n) hosts)"
      using False "2.prems" by (intro pass_inv_snoc) auto
    moreover have "fset (finsert (n_rack n) racks) = n_rack ` picked N (out @ [n_id n])"
      using "2.prems" by (simp add: picked_snoc)
    ultimately show ?thesis using False "2.IH"(3) "2.prems" by (auto split: if_splits)
  qed
qed simp

lemma fill_pass_inv:
  assumes "inj_on n_id N" and "set ns \<subseteq> N" and "pass_inv pol N out hosts"
    and "fill_pass pol ns out hosts = (out', hosts')"
  shows "pass_inv pol N out' hosts' \<and> set out \<subseteq> set out' \<and> hosts |\<subseteq>| hosts'
    \<and> (length out' = replicas pol \<or> (\<forall>n \<in> set ns. n_id n \<in> set out' \<or>
          require_distinct_hosts pol \<and> n_host n |\<in>| hosts'))"
  using assms
proof (induction pol ns out hosts rule: fill_pass.induct)
  case (2 pol n ns out hosts)
  consider (full) "length out = replicas pol"
    | (dup) "length out \<noteq> replicas pol" "n_id n \<in> set out"
    | (same) "length out \<noteq> replicas pol" "n_id n \<notin> set out"
        "require_distinct_hosts pol" "n_host n |\<in>| hosts"
    | (take) "length out \<noteq> replicas pol" "n_id n \<notin> set out"
        "\<not> (require_distinct_hosts pol \<and> n_host n |\<in>| hosts)"
    by blast
  then show ?case
  proof cases
    case full
    with "2.prems" show ?thesis by simp
  next
    case dup
    with "2.IH"(1) "2.prems" show ?thesis by auto
  next
    case same
    with "2.IH"(2) "2.prems" show ?thesis by auto
  next
    case take
    then have "pass_inv pol N (out @ [n_id n]) (finsert (n_host n) hosts)"
      using "2.prems" by (intro pass_inv_snoc) auto
    with take "2.IH"(3) "2.prems" show ?thesis by auto
  qed
qed simp

lemma pass_inv_start: "pass_inv pol N [] {||}"
  by (simp add: pass_inv_def picked_def)

lemma set_candidates: "set (candidates nodes bytes) = {n \<in> set nodes. eligible bytes n}"
  by (simp add: candidates_def)

lemma select_replicas_inv:
  assumes "inj_on n_id (set nodes)"
  shows "\<exists>hosts. pass_inv pol (set (candidates nodes bytes)) (select_replicas nodes bytes pol) hosts
    \<and> (length (select_replicas nodes bytes pol) = replicas pol \<or>
        (\<forall>n \<in> set (candidates nodes bytes). n_id n \<in> set (select_replicas nodes bytes pol) \<or>
          require_distinct_hosts pol \<and> n_host n |\<in>| hosts))"
proof -
  let ?N = "set (candidates nodes bytes)"
  have inj: "inj_on n_id ?N" using assms by (rule inj_on_subset) (auto simp: set_candidates)
  let ?start = "if prefer_distinct_racks pol then rack_pass pol (candidates nodes bytes) [] {||} {||}
    else ([], {||}, {||})"
  obtain out hosts racks where r: "?start = (out, hosts, racks)" by (rule prod_cases3)
  have "pass_inv pol ?N out hosts"
  proof (cases "prefer_distinct_racks pol")
    case True
    with r have "rack_pass pol (candidates nodes bytes) [] {||} {||} = (out, hosts, racks)" by simp
    then show ?thesis
      by (rule rack_pass_inv [OF inj order_refl pass_inv_start, rotated]) (simp add: picked_def)
  next
    case False
    with r show ?thesis by (simp add: pass_inv_start)
  qed
  moreover obtain out' hosts' where f: "fill_pass pol (candidates nodes bytes) out hosts = (out', hosts')"
    by (rule prod.exhaust)
  moreover have "select_replicas nodes bytes pol = out'"
    unfolding select_replicas_def Let_def r by (simp add: f)
  ultimately show ?thesis using fill_pass_inv [OF inj order_refl _ f] by auto
qed

section \<open>Rack diversity\<close>

text \<open>
  When a host sits in one rack, the first pass takes a node of a new rack whenever a candidate
  of such a rack comes up.
\<close>

lemma rack_pass_racks:
  assumes inj: "inj_on n_id N"
    and topo: "\<forall>m \<in> N. \<forall>n \<in> N. n_host m = n_host n \<longrightarrow> n_rack m = n_rack n"
    and "set ns \<subseteq> N" and "pass_inv pol N out hosts"
    and "fset racks = n_rack ` picked N out" and "card (fset racks) = length out"
    and "rack_pass pol ns out hosts racks = (out', hosts', racks')"
  shows "fset racks' = n_rack ` picked N out' \<and> card (fset racks') = length out'
    \<and> fset racks \<subseteq> fset racks'
    \<and> (length out' = replicas pol \<or> n_rack ` set ns \<subseteq> fset racks')"
  using assms(3-)
proof (induction ns arbitrary: out hosts racks)
  case (Cons n ns)
  have n: "n \<in> N" "set ns \<subseteq> N" using Cons.prems(1) by auto
  consider (full) "length out = replicas pol"
    | (skip) "length out \<noteq> replicas pol"
        "require_distinct_hosts pol \<and> n_host n |\<in>| hosts \<or> n_rack n |\<in>| racks"
    | (take) "length out \<noteq> replicas pol"
        "\<not> (require_distinct_hosts pol \<and> n_host n |\<in>| hosts)" "n_rack n |\<notin>| racks"
    by blast
  then show ?case
  proof cases
    case full
    with Cons.prems show ?thesis by simp
  next
    case skip
    have "n_rack n \<in> fset racks" using skip(2)
    proof
      assume "require_distinct_hosts pol \<and> n_host n |\<in>| hosts"
      then obtain m where "m \<in> picked N out" "n_host n = n_host m"
        using Cons.prems(2) by (auto simp: pass_inv_def)
      moreover from this have "m \<in> N" by (simp add: picked_def)
      ultimately have "n_rack n = n_rack m" "m \<in> picked N out"
        using topo n(1) by blast+
      then show ?thesis using Cons.prems(3) by simp
    qed
    moreover have "rack_pass pol ns out hosts racks = (out', hosts', racks')"
      using skip Cons.prems(5) by (simp split: if_splits)
    note Cons.IH [OF n(2) Cons.prems(2,3,4) this]
    ultimately show ?thesis by auto
  next
    case take
    have new: "n_id n \<notin> set out" using take(3) n(1) Cons.prems(3) by (auto simp: picked_def)
    have 1: "pass_inv pol N (out @ [n_id n]) (finsert (n_host n) hosts)"
      using take Cons.prems(2) new by (intro pass_inv_snoc [OF inj n(1)]) auto
    have 2: "fset (finsert (n_rack n) racks) = n_rack ` picked N (out @ [n_id n])"
      using Cons.prems(3) by (simp add: picked_snoc [OF inj n(1)])
    have 3: "card (fset (finsert (n_rack n) racks)) = length (out @ [n_id n])"
      using take(3) Cons.prems(4) by simp
    have "rack_pass pol ns (out @ [n_id n]) (finsert (n_host n) hosts)
        (finsert (n_rack n) racks) = (out', hosts', racks')"
      using take Cons.prems(5) by (simp split: if_splits)
    from Cons.IH [OF n(2) 1 2 3 this] show ?thesis by auto
  qed
qed simp

section \<open>What a selection guarantees\<close>

definition sample_nodes :: "node list" where
  "sample_nodes =
    [\<lparr>n_id = ''n1'', failure_domain = \<lparr>zone = ''z'', rack = ''r1'', host = ''h1''\<rparr>, free_space = 90, healthy = True\<rparr>,
     \<lparr>n_id = ''n2'', failure_domain = \<lparr>zone = ''z'', rack = ''r1'', host = ''h2''\<rparr>, free_space = 80, healthy = True\<rparr>,
     \<lparr>n_id = ''n3'', failure_domain = \<lparr>zone = ''z'', rack = ''r2'', host = ''h3''\<rparr>, free_space = 70, healthy = True\<rparr>]"

lemma default_policy_simps [simp]:
  "replicas default_policy = 3" "require_distinct_hosts default_policy" "prefer_distinct_racks default_policy"
  by (simp_all add: default_policy_def)

lemma sample_nodes_facts:
  "inj_on n_id (set sample_nodes)" "select_replicas sample_nodes 50 (default_policy\<lparr>replicas := 2\<rparr>) = [''n1'', ''n3'']"
  "select_replicas sample_nodes 50 default_policy = [''n1'', ''n3'', ''n2'']"
  by code_simp+

text \<open>(C30) Every selected replica is a healthy node with room, there are at most as many as the
  policy asks for, none twice, and with distinct hosts required no two share a host.\<close>

theorem select_replicas_safe:
  assumes "inj_on n_id (set nodes)"
  shows "length (select_replicas nodes bytes pol) \<le> replicas pol
    \<and> distinct (select_replicas nodes bytes pol)
    \<and> (\<forall>i \<in> set (select_replicas nodes bytes pol).
          \<exists>n \<in> set nodes. n_id n = i \<and> healthy n \<and> bytes \<le> free_space n)
    \<and> (require_distinct_hosts pol \<longrightarrow>
        inj_on n_host {n \<in> set nodes. n_id n \<in> set (select_replicas nodes bytes pol)})"
proof -
  let ?out = "select_replicas nodes bytes pol" and ?N = "set (candidates nodes bytes)"
  obtain hosts where inv: "pass_inv pol ?N ?out hosts"
    using select_replicas_inv [OF assms] by blast
  have "n \<in> ?N" if n: "n \<in> set nodes" "n_id n \<in> set ?out" for n
  proof -
    obtain m where "m \<in> ?N" "n_id m = n_id n" using inv n(2) by (auto simp: pass_inv_def)
    moreover from this have "m \<in> set nodes" by (simp add: set_candidates)
    ultimately have "m = n" using inj_onD [OF assms] n(1) by blast
    with \<open>m \<in> ?N\<close> show ?thesis by simp
  qed
  then have same: "{n \<in> set nodes. n_id n \<in> set ?out} = picked ?N ?out"
    unfolding picked_def using set_candidates [of nodes bytes] by blast
  have sub: "set ?out \<subseteq> n_id ` ?N" using inv by (simp add: pass_inv_def)
  show ?thesis unfolding same
  proof (intro conjI ballI impI)
    fix i assume "i \<in> set ?out"
    with sub obtain n where "n \<in> ?N" "n_id n = i" by blast
    then show "\<exists>n \<in> set nodes. n_id n = i \<and> healthy n \<and> bytes \<le> free_space n"
      by (auto simp: set_candidates eligible_def)
  qed (use inv in \<open>simp_all add: pass_inv_def\<close>)
qed

theorem select_replicas_safe_witness: "inj_on n_host {n \<in> set sample_nodes. n_id n \<in> {''n1'', ''n3''}}"
  using select_replicas_safe [OF sample_nodes_facts(1), of 50 "default_policy\<lparr>replicas := 2\<rparr>"]
  by (simp add: sample_nodes_facts)

text \<open>(C31) With distinct hosts required, the selection is as large as the policy and the hosts
  with an eligible node allow: a missing replica means there was no further host to use.\<close>

theorem select_replicas_maximal:
  assumes "inj_on n_id (set nodes)" and "require_distinct_hosts pol"
  shows "length (select_replicas nodes bytes pol)
    = min (replicas pol) (card (n_host ` {n \<in> set nodes. eligible bytes n}))"
proof -
  let ?out = "select_replicas nodes bytes pol" and ?N = "set (candidates nodes bytes)"
  have N: "?N = {n \<in> set nodes. eligible bytes n}" by (rule set_candidates)
  have inj: "inj_on n_id ?N" using assms(1) by (rule inj_on_subset) (auto simp: N)
  obtain hosts where inv: "pass_inv pol ?N ?out hosts"
    and full: "length ?out = replicas pol \<or> (\<forall>n \<in> ?N. n_id n \<in> set ?out \<or>
      require_distinct_hosts pol \<and> n_host n |\<in>| hosts)"
    using select_replicas_inv [OF assms(1)] by blast
  have "set ?out = n_id ` picked ?N ?out" using inv by (auto simp: pass_inv_def picked_def)
  moreover have "inj_on n_id (picked ?N ?out)"
    using inj by (rule inj_on_subset) (auto simp: picked_def)
  ultimately have "length ?out = card (picked ?N ?out)"
    using inv by (simp add: pass_inv_def card_image flip: distinct_card)
  also have "\<dots> = card (n_host ` picked ?N ?out)"
    using inv assms(2) by (simp add: pass_inv_def card_image)
  finally have len: "length ?out = card (n_host ` picked ?N ?out)" .
  have sub: "n_host ` picked ?N ?out \<subseteq> n_host ` ?N" by (auto simp: picked_def)
  have "length ?out \<le> card (n_host ` ?N)" unfolding len by (rule card_mono) (use sub in auto)
  moreover have "n_host ` ?N \<subseteq> n_host ` picked ?N ?out" if "length ?out \<noteq> replicas pol"
    using full that inv by (auto simp: pass_inv_def picked_def)
  then have "length ?out = card (n_host ` ?N)" if "length ?out \<noteq> replicas pol"
    using that len sub by (metis subset_antisym)
  moreover have "length ?out \<le> replicas pol" using inv by (simp add: pass_inv_def)
  ultimately show ?thesis unfolding N by linarith
qed

theorem select_replicas_maximal_witness:
  "min 3 (card (n_host ` {n \<in> set sample_nodes. eligible 50 n})) = 3"
  using select_replicas_maximal [OF sample_nodes_facts(1), of default_policy 50]
  by (simp add: sample_nodes_facts)

text \<open>(C32) With distinct racks preferred and every host in one rack, the selected nodes cover as
  many racks as any choice of that many replicas could.\<close>

theorem select_replicas_racks:
  assumes "inj_on n_id (set nodes)" and "prefer_distinct_racks pol"
    and topo: "\<forall>m \<in> set nodes. \<forall>n \<in> set nodes. n_host m = n_host n \<longrightarrow> n_rack m = n_rack n"
  shows "min (replicas pol) (card (n_rack ` {n \<in> set nodes. eligible bytes n}))
    \<le> card (n_rack ` {n \<in> set nodes. n_id n \<in> set (select_replicas nodes bytes pol)})"
proof -
  let ?cs = "candidates nodes bytes"
  let ?out = "select_replicas nodes bytes pol"
  have N: "set ?cs = {n \<in> set nodes. eligible bytes n}" by (rule set_candidates)
  have inj: "inj_on n_id (set ?cs)" using assms(1) by (rule inj_on_subset) (auto simp: N)
  have topo': "\<forall>m \<in> set ?cs. \<forall>n \<in> set ?cs. n_host m = n_host n \<longrightarrow> n_rack m = n_rack n"
    using topo unfolding N by blast
  obtain out hosts racks where r: "rack_pass pol ?cs [] {||} {||} = (out, hosts, racks)"
    by (rule prod_cases3)
  have rp: "fset racks = n_rack ` picked (set ?cs) out" "card (fset racks) = length out"
      "length out = replicas pol \<or> n_rack ` set ?cs \<subseteq> fset racks"
    using rack_pass_racks [OF inj topo' order_refl pass_inv_start _ _ r] by (auto simp: picked_def)
  have inv1: "pass_inv pol (set ?cs) out hosts"
    by (rule rack_pass_inv [OF inj order_refl pass_inv_start _ r]) (simp add: picked_def)
  obtain out' hosts' where f: "fill_pass pol ?cs out hosts = (out', hosts')" by (rule prod.exhaust)
  have out: "?out = out'"
    unfolding select_replicas_def Let_def using assms(2) by (simp add: r f)
  have "set out \<subseteq> set ?out" using fill_pass_inv [OF inj order_refl inv1 f] out by simp
  then have "fset racks \<subseteq> n_rack ` {n \<in> set nodes. n_id n \<in> set ?out}"
    using rp(1) by (auto simp: picked_def N)
  then have "card (fset racks) \<le> card (n_rack ` {n \<in> set nodes. n_id n \<in> set ?out})"
    by (rule card_mono [rotated]) simp
  moreover have "min (replicas pol) (card (n_rack ` set ?cs)) \<le> card (fset racks)"
    using rp(2,3) card_mono [of "fset racks" "n_rack ` set ?cs"] by auto
  ultimately show ?thesis unfolding N by linarith
qed

theorem select_replicas_racks_witness:
  "min 2 (card (n_rack ` {n \<in> set sample_nodes. eligible 50 n}))
    \<le> card (n_rack ` {n \<in> set sample_nodes. n_id n \<in> {''n1'', ''n3''}})"
proof -
  have "\<forall>m \<in> set sample_nodes. \<forall>n \<in> set sample_nodes. n_host m = n_host n \<longrightarrow> n_rack m = n_rack n"
    by (simp add: sample_nodes_def n_host_def n_rack_def)
  from select_replicas_racks [OF sample_nodes_facts(1) _ this, of "default_policy\<lparr>replicas := 2\<rparr>" 50]
  show ?thesis by (simp add: sample_nodes_facts)
qed

end
