(* ===== verification/MetaErrors.thy ===== *)
theory MetaErrors
  imports Prelude
begin

text \<open>
  The errors of the metadata layer (\<open>MetaError\<close> in \<open>crates/atlas-native/src/metadata.rs\<close>). The
  constructors are the source's without their message texts, which nothing in the code reads
  back. \<open>Diverge\<close> stands for a loop of the source that does not return and \<open>Panic\<close> for an
  \<open>expect\<close> that fails; neither is an error value of the code.
\<close>

datatype meta_error =
    NotFound
  | Invalid
  | Exists
  | NotEmpty
  | NotDir
  | IsDir
  | NoAttr
  | TooBig
  | Unsupported
  | Locked
  | Quota
  | ReadOnly
  | NoSession
  | Store
  | Diverge
  | Panic

type_synonym 'a meta_result = "meta_error + 'a"

type_synonym ('a, 's) change = "'a meta_result \<times> 's"

type_synonym byte = "8 word"

end
