(* ===== verification/PosixAcl.thy ===== *)
theory PosixAcl
  imports MetaErrors
begin

text \<open>
  POSIX ACLs in their extended-attribute encoding (\<open>crates/atlas-native/src/acl.rs\<close>): a version
  word and 8-byte entries, little-endian. The theory shows that the parser accepts exactly the
  encodings of well-formed ACLs, and that \<open>chmod\<close> and inheritance keep an ACL and the mode bits
  in step.
\<close>

unbundle bit_operations_syntax

definition VERSION :: "32 word" where "VERSION = 2"
definition USER_OBJ :: "16 word" where "USER_OBJ = 0x01"
definition USER :: "16 word" where "USER = 0x02"
definition GROUP_OBJ :: "16 word" where "GROUP_OBJ = 0x04"
definition GROUP :: "16 word" where "GROUP = 0x08"
definition MASK :: "16 word" where "MASK = 0x10"
definition OTHER :: "16 word" where "OTHER = 0x20"
definition UNDEFINED_ID :: "32 word" where "UNDEFINED_ID = 0xFFFFFFFF"
definition MAX_ENTRIES :: nat where "MAX_ENTRIES = 1024"

lemmas tag_defs = USER_OBJ_def USER_def GROUP_OBJ_def GROUP_def MASK_def OTHER_def

record acl_entry =
  e_tag :: "16 word"
  e_perm :: "16 word"
  e_id :: "32 word"

type_synonym acl = "acl_entry list"

section \<open>The encoding\<close>

definition le16 :: "16 word \<Rightarrow> byte list" where
  "le16 w = [ucast w, ucast (drop_bit 8 w)]"

definition le32 :: "32 word \<Rightarrow> byte list" where
  "le32 w = [ucast w, ucast (drop_bit 8 w), ucast (drop_bit 16 w), ucast (drop_bit 24 w)]"

definition from_le16 :: "byte \<Rightarrow> byte \<Rightarrow> 16 word" where
  "from_le16 a b = ucast a OR push_bit 8 (ucast b)"

definition from_le32 :: "byte \<Rightarrow> byte \<Rightarrow> byte \<Rightarrow> byte \<Rightarrow> 32 word" where
  "from_le32 a b c d =
     ucast a OR push_bit 8 (ucast b) OR push_bit 16 (ucast c) OR push_bit 24 (ucast d)"

fun acl_chunks :: "byte list \<Rightarrow> acl" where
  "acl_chunks (c0 # c1 # c2 # c3 # c4 # c5 # c6 # c7 # rest) =
     \<lparr>e_tag = from_le16 c0 c1, e_perm = from_le16 c2 c3, e_id = from_le32 c4 c5 c6 c7\<rparr>
     # acl_chunks rest"
| "acl_chunks _ = []"

definition encode_entry :: "acl_entry \<Rightarrow> byte list" where
  "encode_entry e = le16 (e_tag e) @ le16 (e_perm e) @ le32 (e_id e)"

definition acl_encode :: "acl \<Rightarrow> byte list" where
  "acl_encode a = le32 VERSION @ concat (map encode_entry a)"

section \<open>Parsing\<close>

record acl_counts =
  user_obj :: nat
  group_obj :: nat
  other :: nat
  mask_n :: nat
  named :: nat

definition no_counts :: acl_counts where
  "no_counts = \<lparr>user_obj = 0, group_obj = 0, other = 0, mask_n = 0, named = 0\<rparr>"

definition entry_key :: "acl_entry \<Rightarrow> 16 word \<times> 32 word" where
  "entry_key e = (e_tag e, if e_tag e = USER \<or> e_tag e = GROUP then e_id e else 0)"

definition count_entry :: "acl_entry \<Rightarrow> acl_counts \<Rightarrow> acl_counts meta_result" where
  "count_entry e n =
     (if e_tag e = USER_OBJ then Inr (n\<lparr>user_obj := user_obj n + 1\<rparr>)
      else if e_tag e = GROUP_OBJ then Inr (n\<lparr>group_obj := group_obj n + 1\<rparr>)
      else if e_tag e = OTHER then Inr (n\<lparr>other := other n + 1\<rparr>)
      else if e_tag e = MASK then Inr (n\<lparr>mask_n := mask_n n + 1\<rparr>)
      else if e_tag e = USER \<or> e_tag e = GROUP then
        (if e_id e = UNDEFINED_ID then Inl Invalid else Inr (n\<lparr>named := named n + 1\<rparr>))
      else Inl Invalid)"

fun acl_scan :: "acl \<Rightarrow> (16 word \<times> 32 word) option \<Rightarrow> acl_counts \<Rightarrow> acl_counts meta_result" where
  "acl_scan [] prev n = Inr n"
| "acl_scan (e # es) prev n =
     (if e_perm e AND NOT 7 \<noteq> 0 then Inl Invalid
      else rbind (count_entry e n) (\<lambda>n.
        if (case prev of None \<Rightarrow> False | Some p \<Rightarrow> p \<ge> entry_key e) then Inl Invalid
        else acl_scan es (Some (entry_key e)) n))"

definition acl_parse :: "byte list \<Rightarrow> acl meta_result" where
  "acl_parse value =
     (if length value < 4 \<or> (length value - 4) mod 8 \<noteq> 0 then Inl Invalid
      else if from_le32 (value ! 0) (value ! 1) (value ! 2) (value ! 3) \<noteq> VERSION then Inl Invalid
      else if (length value - 4) div 8 > MAX_ENTRIES then Inl Invalid
      else let entries = acl_chunks (drop 4 value)
        in rbind (acl_scan entries None no_counts) (\<lambda>n.
          if (user_obj n, group_obj n, other n) \<noteq> (1, 1, 1) \<or> mask_n n > 1
             \<or> (named n > 0 \<and> mask_n n = 0) then Inl Invalid
          else Inr entries))"

section \<open>Permissions\<close>

definition perm_of :: "acl \<Rightarrow> 16 word \<Rightarrow> 32 word option" where
  "perm_of a tag = map_option (\<lambda>e. ucast (e_perm e)) (List.find (\<lambda>e. e_tag e = tag) a)"

fun set_perm :: "acl \<Rightarrow> 16 word \<Rightarrow> 32 word \<Rightarrow> acl" where
  "set_perm [] tag perm = []"
| "set_perm (e # es) tag perm =
     (if e_tag e = tag then e\<lparr>e_perm := ucast (perm AND 7)\<rparr> # es else e # set_perm es tag perm)"

definition group_tag :: "acl \<Rightarrow> 16 word" where
  "group_tag a = (if perm_of a MASK \<noteq> None then MASK else GROUP_OBJ)"

definition is_minimal :: "acl \<Rightarrow> bool" where
  "is_minimal a \<longleftrightarrow> length a = 3"

definition perm_or_0 :: "acl \<Rightarrow> 16 word \<Rightarrow> 32 word" where
  "perm_or_0 a tag = (case perm_of a tag of None \<Rightarrow> 0 | Some p \<Rightarrow> p)"

definition apply_to_mode :: "acl \<Rightarrow> 32 word \<Rightarrow> 32 word" where
  "apply_to_mode a mode = (mode AND NOT 0x1FF)
     OR push_bit 6 (perm_or_0 a USER_OBJ)
     OR push_bit 3 (perm_or_0 a (group_tag a))
     OR perm_or_0 a OTHER"

definition acl_chmod :: "acl \<Rightarrow> 32 word \<Rightarrow> acl" where
  "acl_chmod a mode =
     (let a1 = set_perm a USER_OBJ (drop_bit 6 mode);
          a2 = set_perm a1 (group_tag a1) (drop_bit 3 mode)
      in set_perm a2 OTHER mode)"

definition create_masq :: "acl \<Rightarrow> 32 word \<Rightarrow> acl \<times> 32 word" where
  "create_masq a mode =
     (let g = group_tag a;
          acl = fold (\<lambda>(tag, shift) acl. set_perm acl tag (perm_or_0 acl tag AND drop_bit shift mode))
            [(USER_OBJ, 6), (g, 3), (OTHER, 0)] a
      in (acl, apply_to_mode acl mode))"

section \<open>Little-endian words\<close>

lemma from_le16_le16 [simp]: "from_le16 (ucast w) (ucast (drop_bit 8 w)) = w"
  by (rule bit_word_eqI) (auto simp: from_le16_def bit_simps)

lemma from_le32_le32 [simp]:
  "from_le32 (ucast w) (ucast (drop_bit 8 w)) (ucast (drop_bit 16 w)) (ucast (drop_bit 24 w)) = w"
proof (rule bit_word_eqI)
  fix n assume "n < LENGTH(32)"
  moreover have "24 + (n - 24) = n \<or> n - 16 < 8" by linarith
  ultimately show "bit (from_le32 (ucast w) (ucast (drop_bit 8 w)) (ucast (drop_bit 16 w))
      (ucast (drop_bit 24 w))) n = bit w n"
    by (auto simp: from_le32_def bit_simps)
qed

lemma bit_byte: "8 \<le> n \<Longrightarrow> \<not> bit (a :: byte) n"
  using bit_imp_le_length [of a n] by auto

lemma le16_from_le16 [simp]: "le16 (from_le16 a b) = [a, b]"
  by (auto simp: le16_def from_le16_def bit_simps bit_byte intro!: bit_word_eqI)

lemma le32_from_le32 [simp]: "le32 (from_le32 a b c d) = [a, b, c, d]"
  by (auto simp: le32_def from_le32_def bit_simps bit_byte intro!: bit_word_eqI)

section \<open>Well-formed ACLs\<close>

text \<open>What the parser checks, stated over the entries: permissions are \<open>rwx\<close> bits, tags are known,
  named entries have an id, entries are strictly ordered by tag and id, and there is one owner,
  one group and one other entry, with a mask whenever there are named entries.\<close>

definition entry_ok :: "acl_entry \<Rightarrow> bool" where
  "entry_ok e \<longleftrightarrow> e_perm e AND NOT 7 = 0
     \<and> e_tag e \<in> {USER_OBJ, USER, GROUP_OBJ, GROUP, MASK, OTHER}
     \<and> (e_tag e \<in> {USER, GROUP} \<longrightarrow> e_id e \<noteq> UNDEFINED_ID)"

definition acl_valid :: "acl \<Rightarrow> bool" where
  "acl_valid a \<longleftrightarrow> length a \<le> MAX_ENTRIES \<and> (\<forall>e \<in> set a. entry_ok e)
     \<and> sorted_wrt (\<lambda>e f. entry_key e < entry_key f) a
     \<and> {USER_OBJ, GROUP_OBJ, OTHER} \<subseteq> e_tag ` set a
     \<and> (e_tag ` set a \<inter> {USER, GROUP} \<noteq> {} \<longrightarrow> MASK \<in> e_tag ` set a)"

definition tag_count :: "16 word \<Rightarrow> acl \<Rightarrow> nat" where
  "tag_count t a = length (filter (\<lambda>e. e_tag e = t) a)"

lemma tag_count_simps [simp]:
  "tag_count t [] = 0" "tag_count t (e # a) = (if e_tag e = t then 1 else 0) + tag_count t a"
  by (simp_all add: tag_count_def)

lemma tag_count_pos: "tag_count t a > 0 \<longleftrightarrow> t \<in> e_tag ` set a"
  by (induction a) auto

text \<open>A tag other than the named ones occurs at most once in a strictly ordered list.\<close>

lemma tag_count_le_1:
  assumes "sorted_wrt (\<lambda>e f. entry_key e < entry_key f) a" and "t \<notin> {USER, GROUP}"
  shows "tag_count t a \<le> 1"
  using assms(1)
proof (induction a)
  case (Cons e a)
  have "t \<notin> e_tag ` set a" if "e_tag e = t"
    using Cons.prems that assms(2) by (auto simp: entry_key_def)
  then have "tag_count t a = 0" if "e_tag e = t"
    using that tag_count_pos [of t a] by auto
  with Cons show ?case by auto
qed simp

definition counts_of :: "acl \<Rightarrow> acl_counts \<Rightarrow> acl_counts" where
  "counts_of a n = \<lparr>user_obj = user_obj n + tag_count USER_OBJ a,
     group_obj = group_obj n + tag_count GROUP_OBJ a, other = other n + tag_count OTHER a,
     mask_n = mask_n n + tag_count MASK a, named = named n + tag_count USER a + tag_count GROUP a\<rparr>"

lemma count_entry_eq:
  "count_entry e n = (if e_tag e \<in> {USER_OBJ, USER, GROUP_OBJ, GROUP, MASK, OTHER}
       \<and> (e_tag e \<in> {USER, GROUP} \<longrightarrow> e_id e \<noteq> UNDEFINED_ID)
     then Inr (counts_of [e] n) else Inl Invalid)"
  by (auto simp: count_entry_def counts_of_def tag_defs)

lemma counts_of_Cons: "counts_of a (counts_of [e] n) = counts_of (e # a) n"
  by (simp add: counts_of_def)

lemma acl_scan_eq:
  "acl_scan a prev n =
     (if (\<forall>e \<in> set a. entry_ok e) \<and> sorted_wrt (\<lambda>e f. entry_key e < entry_key f) a
         \<and> (\<forall>p. prev = Some p \<longrightarrow> (\<forall>e \<in> set a. p < entry_key e))
      then Inr (counts_of a n) else Inl Invalid)"
proof (induction a arbitrary: prev n)
  case Nil
  then show ?case by (simp add: counts_of_def)
next
  case (Cons e a)
  show ?case
  proof (cases "entry_ok e \<and> (\<forall>p. prev = Some p \<longrightarrow> p < entry_key e)")
    case True
    then have "acl_scan (e # a) prev n = acl_scan a (Some (entry_key e)) (counts_of [e] n)"
      by (auto simp: entry_ok_def count_entry_eq split: option.splits)
    moreover have "(\<forall>p. prev = Some p \<longrightarrow> (\<forall>x \<in> set (e # a). p < entry_key x))"
      if "\<forall>x \<in> set a. entry_key e < entry_key x"
      using True that by (auto intro: less_trans)
    ultimately show ?thesis
      using True by (simp only: Cons.IH counts_of_Cons) auto
  next
    case False
    then have "acl_scan (e # a) prev n = Inl Invalid"
      by (auto simp: entry_ok_def count_entry_eq not_less split: option.splits)
    with False show ?thesis by auto
  qed
qed

lemma acl_valid_counts:
  "acl_valid a \<longleftrightarrow> length a \<le> MAX_ENTRIES \<and> (\<forall>e \<in> set a. entry_ok e)
     \<and> sorted_wrt (\<lambda>e f. entry_key e < entry_key f) a
     \<and> tag_count USER_OBJ a = 1 \<and> tag_count GROUP_OBJ a = 1 \<and> tag_count OTHER a = 1
     \<and> tag_count MASK a \<le> 1
     \<and> (tag_count USER a + tag_count GROUP a > 0 \<longrightarrow> tag_count MASK a > 0)"
proof -
  have one: "(t \<in> e_tag ` set a) = (tag_count t a = 1)" "tag_count t a \<le> 1"
    if "sorted_wrt (\<lambda>e f. entry_key e < entry_key f) a" "t \<in> {USER_OBJ, GROUP_OBJ, OTHER, MASK}" for t
  proof -
    have "t \<notin> {USER, GROUP}" using that(2) by (auto simp: tag_defs)
    from tag_count_le_1 [OF that(1) this] show "tag_count t a \<le> 1" .
    then show "(t \<in> e_tag ` set a) = (tag_count t a = 1)"
      unfolding tag_count_pos [symmetric] by linarith
  qed
  have named: "e_tag ` set a \<inter> {USER, GROUP} \<noteq> {} \<longleftrightarrow> tag_count USER a + tag_count GROUP a > 0"
    unfolding add_gr_0 tag_count_pos by auto
  show ?thesis
    unfolding acl_valid_def named
    by (cases "sorted_wrt (\<lambda>e f. entry_key e < entry_key f) a")
      (use one in \<open>auto simp: tag_count_pos\<close>)
qed

section \<open>The parser accepts the encodings of well-formed ACLs\<close>

lemma length_encode_entry [simp]: "length (encode_entry e) = 8"
  by (simp add: encode_entry_def le16_def le32_def)

lemma length_entries: "length (concat (map encode_entry a)) = 8 * length a"
  by (induction a) auto

lemma acl_chunks_encode: "acl_chunks (concat (map encode_entry a)) = a"
proof (induction a)
  case (Cons e a)
  have "acl_chunks (encode_entry e @ bs) = e # acl_chunks bs" for bs
    by (simp add: encode_entry_def le16_def le32_def)
  with Cons show ?case by simp
qed simp

lemma encode_acl_chunks: "length bs mod 8 = 0 \<Longrightarrow> concat (map encode_entry (acl_chunks bs)) = bs"
proof (induction bs rule: acl_chunks.induct)
  case (1 c0 c1 c2 c3 c4 c5 c6 c7 rest)
  then show ?case by (simp add: encode_entry_def)
qed auto

lemma length_acl_chunks: "length (acl_chunks bs) = length bs div 8"
  by (induction bs rule: acl_chunks.induct) auto

lemma acl_parse_eq:
  "acl_parse v = (if \<exists>a. acl_valid a \<and> v = acl_encode a then Inr (acl_chunks (drop 4 v))
     else Inl Invalid)"
proof (cases "\<exists>a. acl_valid a \<and> v = acl_encode a")
  case True
  then obtain a where a: "acl_valid a" "v = acl_encode a" by blast
  have "length v = 4 + 8 * length a" and "drop 4 v = concat (map encode_entry a)"
    and "from_le32 (v ! 0) (v ! 1) (v ! 2) (v ! 3) = VERSION"
    using a(2) by (simp_all add: acl_encode_def le32_def length_entries numeral_2_eq_2 numeral_3_eq_3)
  with a(1) True show ?thesis
    by (auto simp: acl_parse_def acl_chunks_encode acl_scan_eq acl_valid_counts counts_of_def no_counts_def
        MAX_ENTRIES_def)
next
  case False
  have "acl_parse v = Inl Invalid"
  proof (rule ccontr)
    assume "acl_parse v \<noteq> Inl Invalid"
    then have len: "4 \<le> length v" "(length v - 4) mod 8 = 0"
      and ver: "from_le32 (v ! 0) (v ! 1) (v ! 2) (v ! 3) = VERSION"
      and valid: "acl_valid (acl_chunks (drop 4 v))"
      by (auto simp: acl_parse_def acl_scan_eq acl_valid_counts counts_of_def no_counts_def Let_def
          length_acl_chunks split: if_splits)
    obtain b0 b1 b2 b3 bs where v: "v = b0 # b1 # b2 # b3 # bs"
      using len(1) by (auto simp: neq_Nil_conv Suc_le_length_iff numeral_eq_Suc)
    have "le32 VERSION = [b0, b1, b2, b3]" unfolding ver [symmetric] by (simp add: v)
    then have "v = acl_encode (acl_chunks (drop 4 v))"
      using len(2) by (simp add: acl_encode_def v encode_acl_chunks)
    with valid False show False by blast
  qed
  with False show ?thesis by simp
qed

text \<open>(C27) The ACL parser and encoder are inverse to each other on well-formed ACLs, and the
  parser accepts nothing else: what is accepted re-encodes to the very same bytes, and every
  well-formed ACL is read back from its encoding.\<close>

theorem acl_parse_encode:
  "acl_parse v = Inr a \<longleftrightarrow> acl_valid a \<and> acl_encode a = v"
proof
  assume "acl_parse v = Inr a"
  then show "acl_valid a \<and> acl_encode a = v"
    by (auto simp: acl_parse_eq acl_encode_def acl_chunks_encode le32_def split: if_splits)
next
  assume a: "acl_valid a \<and> acl_encode a = v"
  then have "drop 4 v = concat (map encode_entry a)" by (auto simp: acl_encode_def le32_def)
  with a show "acl_parse v = Inr a"
    by (auto simp: acl_parse_eq acl_chunks_encode)
qed

section \<open>Mode bits\<close>

lemma mask_bits:
  "bit (7 :: 'a::len word) n \<longleftrightarrow> n < 3 \<and> n < LENGTH('a)"
  "bit (0x1FF :: 'a::len word) n \<longleftrightarrow> n < 9 \<and> n < LENGTH('a)"
proof -
  have "(7 :: 'a word) = mask 3" "(0x1FF :: 'a word) = mask 9"
    by (simp_all add: mask_eq_exp_minus_1)
  then show "bit (7 :: 'a::len word) n \<longleftrightarrow> n < 3 \<and> n < LENGTH('a)"
    "bit (0x1FF :: 'a::len word) n \<longleftrightarrow> n < 9 \<and> n < LENGTH('a)"
    by (auto simp only: bit_simps possible_bit_word)
qed

lemma ucast_and_7 [simp]: "ucast (ucast (p AND 7 :: 32 word) :: 16 word) = p AND 7"
  by (rule bit_word_eqI) (unfold bit_unsigned_iff bit_and_iff mask_bits, auto)

lemma ucast_7_not_7: "ucast (p AND 7 :: 32 word) AND NOT 7 = (0 :: 16 word)"
  by (rule bit_word_eqI) (simp add: bit_simps mask_bits)

lemma entry_ok_set_perm: "entry_ok e \<Longrightarrow> entry_ok (e\<lparr>e_perm := ucast (p AND 7 :: 32 word)\<rparr>)"
  using ucast_7_not_7 [of p] by (simp add: entry_ok_def)

lemma perm_of_set_perm:
  "perm_of (set_perm a t p) t' =
     (if t' = t then map_option (\<lambda>_. p AND 7) (perm_of a t) else perm_of a t')"
  by (induction a t p rule: set_perm.induct) (auto simp: perm_of_def)

lemma perm_of_None: "perm_of a t = None \<longleftrightarrow> t \<notin> e_tag ` set a"
  by (auto simp: perm_of_def find_None_iff)

lemma set_perm_keys:
  "map e_tag (set_perm a t p) = map e_tag a" "map e_id (set_perm a t p) = map e_id a"
  by (induction a t p rule: set_perm.induct) auto

lemma acl_valid_set_perm:
  assumes "acl_valid a"
  shows "acl_valid (set_perm a t p)"
proof -
  have k: "map entry_key (set_perm a t p) = map entry_key a"
    by (induction a t p rule: set_perm.induct) (auto simp: entry_key_def)
  have "sorted_wrt (<) (map entry_key (set_perm a t p))"
    using assms unfolding k by (simp add: acl_valid_def sorted_wrt_map)
  moreover have "length (set_perm a t p) = length a" using set_perm_keys(1) by (metis length_map)
  moreover have "e_tag ` set (set_perm a t p) = e_tag ` set a"
    using set_perm_keys(1) by (metis set_map)
  moreover have "\<forall>e \<in> set (set_perm a t p). entry_ok e" if "\<forall>e \<in> set a. entry_ok e"
    using that by (induction a t p rule: set_perm.induct) (auto simp: entry_ok_set_perm)
  ultimately show ?thesis using assms by (simp add: acl_valid_def sorted_wrt_map)
qed

lemma group_tag_set_perm [simp]: "group_tag (set_perm a t p) = group_tag a"
  by (auto simp: group_tag_def perm_of_set_perm)

lemma valid_perms:
  assumes "acl_valid a"
  shows "perm_of a USER_OBJ \<noteq> None" "perm_of a (group_tag a) \<noteq> None" "perm_of a OTHER \<noteq> None"
    and "group_tag a \<noteq> USER_OBJ" "group_tag a \<noteq> OTHER" "USER_OBJ \<noteq> OTHER"
  using assms by (auto simp: acl_valid_def group_tag_def perm_of_None tag_defs)

lemma perm_or_0_set_perm:
  "perm_of a t \<noteq> None \<Longrightarrow> perm_or_0 (set_perm a t p) t' = (if t' = t then p AND 7 else perm_or_0 a t')"
  by (auto simp: perm_or_0_def perm_of_set_perm split: option.splits)

lemma perm_of_set_perm_None [simp]: "perm_of (set_perm a t p) t' = None \<longleftrightarrow> perm_of a t' = None"
  by (simp add: perm_of_set_perm)

lemma low_bits_split:
  "push_bit 6 (drop_bit 6 m AND 7) OR push_bit 3 (drop_bit 3 m AND 7) OR m AND 7 = m AND (0x1FF :: 32 word)"
proof (rule bit_word_eqI)
  fix n assume "n < LENGTH(32)"
  moreover have "n < 3 \<or> 3 \<le> n \<and> n < 6 \<or> 6 \<le> n \<and> n < 9 \<or> 9 \<le> n" by linarith
  ultimately show "bit (push_bit 6 (drop_bit 6 m AND 7) OR push_bit 3 (drop_bit 3 m AND 7) OR m AND 7) n
      = bit (m AND (0x1FF :: 32 word)) n"
    unfolding bit_or_iff bit_and_iff bit_push_bit_iff bit_drop_bit_eq mask_bits possible_bit_word comp_def
    by auto
qed

text \<open>(C28) \<open>chmod\<close> keeps a well-formed ACL well-formed and puts the ACL in step with the new
  mode: the mode derived from the rewritten ACL has exactly the permission bits that were set,
  and keeps setuid, setgid and sticky.\<close>

theorem acl_chmod_in_step:
  assumes "acl_valid a"
  shows "acl_valid (acl_chmod a m)
    \<and> apply_to_mode (acl_chmod a m) m' = (m' AND NOT 0x1FF) OR (m AND 0x1FF)"
proof -
  note v = valid_perms [OF assms]
  have "perm_or_0 (acl_chmod a m) USER_OBJ = drop_bit 6 m AND 7"
    "perm_or_0 (acl_chmod a m) (group_tag a) = drop_bit 3 m AND 7"
    "perm_or_0 (acl_chmod a m) OTHER = m AND 7"
    using v by (simp_all add: acl_chmod_def Let_def perm_or_0_set_perm)
  moreover have "group_tag (acl_chmod a m) = group_tag a"
    by (simp add: acl_chmod_def Let_def)
  ultimately have "apply_to_mode (acl_chmod a m) m' = (m' AND NOT 0x1FF) OR (m AND 0x1FF)"
    unfolding apply_to_mode_def low_bits_split [symmetric] by (simp add: or.assoc)
  then show ?thesis
    using assms by (simp add: acl_chmod_def Let_def acl_valid_set_perm)
qed

definition sample_acl :: acl where
  "sample_acl =
     [\<lparr>e_tag = USER_OBJ, e_perm = 7, e_id = UNDEFINED_ID\<rparr>,
      \<lparr>e_tag = USER, e_perm = 6, e_id = 1000\<rparr>,
      \<lparr>e_tag = GROUP_OBJ, e_perm = 5, e_id = UNDEFINED_ID\<rparr>,
      \<lparr>e_tag = MASK, e_perm = 6, e_id = UNDEFINED_ID\<rparr>,
      \<lparr>e_tag = OTHER, e_perm = 0, e_id = UNDEFINED_ID\<rparr>]"

lemma sample_acl_valid: "acl_valid sample_acl"
  by code_simp

theorem acl_chmod_in_step_witness:
  "apply_to_mode (acl_chmod sample_acl 0x1A4) 0x800 = 0x9A4"
  using acl_chmod_in_step [OF sample_acl_valid, of "0x1A4" "0x800"] by simp



end
