(* ===== verification/ErasureCode.thy ===== *)
theory ErasureCode
  imports MetaErrors
begin

text \<open>
  Erasure coding of extents (\<open>crates/atlas-native/src/ec.rs\<close>): splitting into data shards,
  padding, the layout recorded with an extent, and rebuilding from what is left. The
  Reed-Solomon codec and SHA-256 are other crates, so they are arguments \<open>enc\<close>, \<open>dec\<close> and
  \<open>sha\<close>; \<open>codec_ok\<close> states the documented behaviour of the codec for one scheme.
\<close>

definition MAX_DATA_SHARDS :: nat where "MAX_DATA_SHARDS = 32"
definition MAX_PARITY_SHARDS :: nat where "MAX_PARITY_SHARDS = 8"

record ec_scheme =
  sc_data :: nat
  sc_parity :: nat

record ec_layout =
  ly_data :: nat
  ly_parity :: nat
  ly_shard_len :: nat
  ly_checksums :: "byte list list"

type_synonym shard = "byte list"
type_synonym rs_encode = "nat \<Rightarrow> nat \<Rightarrow> shard list \<Rightarrow> shard list meta_result"
type_synonym rs_decode =
  "nat \<Rightarrow> nat \<Rightarrow> (nat \<times> shard) list \<Rightarrow> (nat \<times> shard) list \<Rightarrow> (nat \<times> shard) list meta_result"

definition ec_scheme_new :: "nat \<Rightarrow> nat \<Rightarrow> ec_scheme meta_result" where
  "ec_scheme_new d p =
     (if \<not> (1 \<le> d \<and> d \<le> MAX_DATA_SHARDS) \<or> \<not> (1 \<le> p \<and> p \<le> MAX_PARITY_SHARDS) then Inl Invalid
      else Inr \<lparr>sc_data = d, sc_parity = p\<rparr>)"

definition sc_shards :: "ec_scheme \<Rightarrow> nat" where
  "sc_shards s = sc_data s + sc_parity s"

definition div_ceil :: "nat \<Rightarrow> nat \<Rightarrow> nat" where
  "div_ceil a b = (if a mod b = 0 then a div b else a div b + 1)"

definition sc_shard_len :: "ec_scheme \<Rightarrow> nat \<Rightarrow> nat" where
  "sc_shard_len s ln = (let n = max (div_ceil ln (sc_data s)) 2 in wrap_add n (n mod 2))"

text \<open>\<open>Vec::resize\<close> with zero bytes.\<close>

definition resize_zero :: "nat \<Rightarrow> byte list \<Rightarrow> byte list" where
  "resize_zero n bs = take n bs @ replicate (n - length bs) 0"

definition data_shard :: "nat \<Rightarrow> byte list \<Rightarrow> nat \<Rightarrow> shard" where
  "data_shard shard_len bs i =
     (let start = min (i * shard_len) (length bs);
          end' = min ((i + 1) * shard_len) (length bs)
      in resize_zero shard_len (take (end' - start) (drop start bs)))"

definition parity_of :: "rs_encode \<Rightarrow> ec_scheme \<Rightarrow> shard list \<Rightarrow> shard list meta_result" where
  "parity_of enc s ds = enc (sc_data s) (sc_parity s) ds"

definition ec_encode ::
    "rs_encode \<Rightarrow> (byte list \<Rightarrow> byte list) \<Rightarrow> ec_scheme \<Rightarrow> byte list
      \<Rightarrow> (ec_layout \<times> shard list) meta_result" where
  "ec_encode enc sha s bs =
     (let shard_len = sc_shard_len s (length bs);
          ds = map (data_shard shard_len bs) [0..<sc_data s]
      in rbind (parity_of enc s ds) (\<lambda>ps.
        let shards = ds @ ps
        in Inr (\<lparr>ly_data = sc_data s, ly_parity = sc_parity s, ly_shard_len = shard_len,
                 ly_checksums = map sha shards\<rparr>, shards)))"

definition ly_scheme :: "ec_layout \<Rightarrow> ec_scheme meta_result" where
  "ly_scheme l = ec_scheme_new (ly_data l) (ly_parity l)"

definition ly_shards :: "ec_layout \<Rightarrow> nat" where
  "ly_shards l = ly_data l + ly_parity l"

definition ly_verify :: "(byte list \<Rightarrow> byte list) \<Rightarrow> ec_layout \<Rightarrow> nat \<Rightarrow> shard \<Rightarrow> bool" where
  "ly_verify sha l i s \<longleftrightarrow> length s = ly_shard_len l
     \<and> (i < length (ly_checksums l) \<and> sha s = ly_checksums l ! i)"

definition ly_check :: "ec_layout \<Rightarrow> nat \<Rightarrow> nat \<Rightarrow> unit meta_result" where
  "ly_check l ln n_replicas = rbind (ly_scheme l) (\<lambda>s.
     if n_replicas \<noteq> sc_shards s \<or> length (ly_checksums l) \<noteq> sc_shards s then Inl Invalid
     else if ly_shard_len l \<noteq> sc_shard_len s ln then Inl Invalid
     else Inr ())"

text \<open>The shards that are present, with their index.\<close>

fun present_from :: "nat \<Rightarrow> shard option list \<Rightarrow> (nat \<times> shard) list" where
  "present_from i [] = []"
| "present_from i (None # ss) = present_from (Suc i) ss"
| "present_from i (Some s # ss) = (i, s) # present_from (Suc i) ss"

fun all_some :: "shard option list \<Rightarrow> shard list meta_result" where
  "all_some [] = Inr []"
| "all_some (None # ss) = Inl Invalid"
| "all_some (Some s # ss) = rbind (all_some ss) (\<lambda>r. Inr (s # r))"

definition rebuild_data ::
    "rs_decode \<Rightarrow> ec_layout \<Rightarrow> shard option list \<Rightarrow> shard list meta_result" where
  "rebuild_data dec l shards = rbind (ly_scheme l) (\<lambda>s.
     if length shards \<noteq> sc_shards s then Inl Invalid
     else if length (filter (\<lambda>x. x \<noteq> None) shards) < ly_data l then Inl Invalid
     else
       let ds = take (ly_data l) shards
       in rbind
         (if None \<in> set ds then
            rbind (dec (ly_data l) (ly_parity l) (present_from 0 ds)
                (present_from 0 (drop (ly_data l) shards))) (\<lambda>restored.
              Inr (fold (\<lambda>(i, s) ss. ss[i := Some s]) restored shards))
          else Inr shards) (\<lambda>ss. all_some (take (ly_data l) ss)))"

definition ec_rebuild ::
    "rs_encode \<Rightarrow> rs_decode \<Rightarrow> ec_layout \<Rightarrow> shard option list \<Rightarrow> shard list meta_result" where
  "ec_rebuild enc dec l shards = rbind (ly_scheme l) (\<lambda>s.
     let parity = drop (ly_data l) shards
     in rbind (rebuild_data dec l shards) (\<lambda>ds.
       rbind (if None \<in> set parity then parity_of enc s ds
              else Inr (concat (map (\<lambda>x. case x of None \<Rightarrow> [] | Some p \<Rightarrow> [p]) parity))) (\<lambda>ps.
         Inr (ds @ ps))))"

definition ec_join :: "ec_layout \<Rightarrow> shard list \<Rightarrow> nat \<Rightarrow> byte list" where
  "ec_join l ds ln = take ln (concat (take (ly_data l) ds))"

section \<open>Splitting and joining\<close>

lemma div_ceil_bound:
  assumes "0 < b"
  shows "a \<le> b * div_ceil a b"
proof -
  have 1: "b * (a div b) + a mod b = a" and 2: "a mod b < b" using assms by simp_all
  show ?thesis
  proof (cases "a mod b = 0")
    case True
    then have "b * div_ceil a b = b * (a div b)" by (simp add: div_ceil_def)
    then show ?thesis using 1 True by linarith
  next
    case False
    then have "b * div_ceil a b = b * (a div b) + b" by (simp add: div_ceil_def)
    then show ?thesis using 1 2 by linarith
  qed
qed

lemma div_ceil_le: "div_ceil a b \<le> a"
proof (cases "a mod b = 0")
  case False
  then have "b \<noteq> 1" "0 < a" by (auto intro: gr0I)
  then show ?thesis
    using False div_less_dividend [of b a] by (cases "b = 0") (simp_all add: div_ceil_def Suc_le_eq)
qed (simp add: div_ceil_def)

lemma sc_shard_len_props:
  assumes "0 < sc_data s" and "ln < u64_max"
  shows "ln \<le> sc_data s * sc_shard_len s ln" "0 < sc_shard_len s ln" "even (sc_shard_len s ln)"
proof -
  let ?n = "max (div_ceil ln (sc_data s)) 2"
  have "?n \<le> max ln 2" using div_ceil_le [of ln "sc_data s"] by simp
  moreover have "?n mod 2 \<le> 1" by simp
  ultimately have "?n + ?n mod 2 \<le> u64_max"
    using assms(2) by (auto simp: u64_max_def max_def split: if_splits)
  then have l: "sc_shard_len s ln = ?n + ?n mod 2"
    unfolding sc_shard_len_def Let_def by (rule wrap_add_exact)
  have "ln \<le> sc_data s * div_ceil ln (sc_data s)" by (rule div_ceil_bound [OF assms(1)])
  also have "\<dots> \<le> sc_data s * sc_shard_len s ln" unfolding l by (rule mult_le_mono2) simp
  finally show "ln \<le> sc_data s * sc_shard_len s ln" .
  show "0 < sc_shard_len s ln" unfolding l by (simp add: max_def)
  show "even (sc_shard_len s ln)" unfolding l by presburger
qed

lemma length_data_shard [simp]: "length (data_shard n bs i) = n"
  by (simp add: data_shard_def resize_zero_def Let_def)

lemma data_shard_take:
  "data_shard n bs i = take n (drop (i * n) bs @ replicate n 0)"
proof (cases "i * n \<le> length bs")
  case True
  have "min ((i + 1) * n) (length bs) - i * n = min n (length bs - i * n)"
    by (auto simp: min_def)
  with True show ?thesis
    by (auto simp: data_shard_def resize_zero_def Let_def min_def)
qed (auto simp: data_shard_def resize_zero_def Let_def)

text \<open>The data shards in order are the bytes followed by zeros.\<close>

lemma concat_data_shards:
  "concat (map (data_shard n bs) [0..<k]) = take (k * n) (bs @ replicate (k * n) 0)"
proof (induction k)
  case (Suc k)
  let ?xs = "bs @ replicate (Suc k * n) 0"
  have "take (Suc k * n) ?xs = take (k * n + n) ?xs" by (simp add: add.commute)
  also have "\<dots> = take (k * n) ?xs @ take n (drop (k * n) ?xs)" by (rule take_add)
  also have "take (k * n) ?xs = take (k * n) (bs @ replicate (k * n) 0)"
    by (simp add: min_absorb1 diff_le_self le_trans)
  also have "take n (drop (k * n) ?xs) = data_shard n bs k"
    by (simp add: data_shard_take min_absorb1)
  finally show ?case using Suc by simp
qed simp

lemma join_data_shards:
  assumes "length bs \<le> k * n"
  shows "take (length bs) (concat (map (data_shard n bs) [0..<k])) = bs"
  using assms by (simp add: concat_data_shards min_def)

section \<open>Rebuilding\<close>

text \<open>
  What the codec promises for a scheme of \<open>d\<close> data and \<open>p\<close> parity shards: it encodes data shards
  of one even, positive length into as many parity shards of that length; and from any \<open>d\<close> of the
  \<open>d + p\<close> shards, when a data shard is missing, it returns exactly the missing data shards, in
  some order.
\<close>

definition codec_ok :: "rs_encode \<Rightarrow> rs_decode \<Rightarrow> nat \<Rightarrow> nat \<Rightarrow> bool" where
  "codec_ok enc dec d p \<longleftrightarrow> (\<forall>n ds. 0 < n \<longrightarrow> even n \<longrightarrow> length ds = d \<longrightarrow> (\<forall>s \<in> set ds. length s = n) \<longrightarrow>
     (\<exists>ps. enc d p ds = Inr ps \<and> length ps = p \<and> (\<forall>s \<in> set ps. length s = n)
       \<and> (\<forall>I J. I \<subset> {..<d} \<longrightarrow> J \<subseteq> {..<p} \<longrightarrow> d \<le> card I + card J \<longrightarrow>
           (\<exists>r. dec d p (map (\<lambda>i. (i, ds ! i)) (filter (\<lambda>i. i \<in> I) [0..<d]))
                   (map (\<lambda>j. (j, ps ! j)) (filter (\<lambda>j. j \<in> J) [0..<p])) = Inr r
              \<and> set r = {(i, ds ! i) |i. i \<in> {..<d} - I}))))"

text \<open>A vector of shards with some of them missing.\<close>

definition survivors :: "nat set \<Rightarrow> shard list \<Rightarrow> shard option list" where
  "survivors I ss = map (\<lambda>i. if i \<in> I then Some (ss ! i) else None) [0..<length ss]"

lemma length_survivors [simp]: "length (survivors I ss) = length ss"
  by (simp add: survivors_def)

lemma present_from_map:
  "present_from k (map (\<lambda>i. if i \<in> I then Some (f i) else None) [k..<k + n])
     = map (\<lambda>i. (i, f i)) (filter (\<lambda>i. i \<in> I) [k..<k + n])"
proof (induction n arbitrary: k)
  case (Suc n)
  have "[k..<k + Suc n] = k # [Suc k..<Suc k + n]" by (simp add: upt_conv_Cons)
  with Suc.IH [of "Suc k"] show ?case by simp
qed simp

lemma present_survivors:
  "present_from 0 (survivors I ss) = map (\<lambda>i. (i, ss ! i)) (filter (\<lambda>i. i \<in> I) [0..<length ss])"
  using present_from_map [of 0 I "\<lambda>i. ss ! i" "length ss"] by (simp add: survivors_def)

lemma survivors_append:
  "survivors I (ds @ ps) = survivors I ds @ survivors {j. length ds + j \<in> I} ps"
proof (rule nth_equalityI)
  fix i assume "i < length (survivors I (ds @ ps))"
  then show "survivors I (ds @ ps) ! i = (survivors I ds @ survivors {j. length ds + j \<in> I} ps) ! i"
    by (auto simp: survivors_def nth_append)
qed simp

lemma count_survivors: "length (filter (\<lambda>x. x \<noteq> None) (survivors I ss)) = card (I \<inter> {..<length ss})"
proof -
  have "filter (\<lambda>x. x \<noteq> None) (survivors I ss)
      = map (\<lambda>i. Some (ss ! i)) (filter (\<lambda>i. i \<in> I) [0..<length ss])"
    by (auto simp: survivors_def filter_map comp_def intro!: map_cong filter_cong)
  moreover have "set (filter (\<lambda>i. i \<in> I) [0..<length ss]) = I \<inter> {..<length ss}" by auto
  ultimately show ?thesis
    using distinct_card [of "filter (\<lambda>i. i \<in> I) [0..<length ss]"] by simp
qed

lemma None_survivors: "None \<in> set (survivors I ss) \<longleftrightarrow> \<not> {..<length ss} \<subseteq> I"
  by (auto simp: survivors_def)

lemma all_some_map: "all_some (map Some ss) = Inr ss"
  by (induction ss) auto

lemma survivors_all: "{..<length ss} \<subseteq> I \<Longrightarrow> survivors I ss = map Some ss"
  by (rule nth_equalityI) (auto simp: survivors_def)

lemma fold_restore:
  assumes "\<forall>(i, s) \<in> set r. i < length ds \<and> s = ds ! i"
  shows "fold (\<lambda>(i, s) ss. ss[i := Some s]) r (survivors I ds @ qs) = survivors (I \<union> fst ` set r) ds @ qs"
  using assms
proof (induction r arbitrary: I)
  case (Cons x r)
  obtain i s where x: "x = (i, s)" by (cases x)
  have "(survivors I ds @ qs)[i := Some s] = survivors (insert i I) ds @ qs"
    using Cons.prems x by (auto simp: survivors_def list_update_append intro!: nth_equalityI
        simp: nth_list_update)
  with Cons.IH [of "insert i I"] Cons.prems x show ?case by (simp add: Un_insert_left)
qed simp

lemma concat_Some: "concat (map (case_option [] (\<lambda>p. [p]) \<circ> Some) ps) = ps"
  by (induction ps) auto

lemma codec_ok_enc:
  assumes "codec_ok enc dec d p" and "0 < n" and "even n" and "length ds = d"
    and "\<forall>x \<in> set ds. length x = n"
  shows "\<exists>ps. enc d p ds = Inr ps \<and> length ps = p \<and> (\<forall>s \<in> set ps. length s = n)"
  using assms(1) [unfolded codec_ok_def, rule_format, OF assms(2-4), OF bspec [OF assms(5)]] by auto

lemma codec_okD:
  assumes "codec_ok enc dec d p" and "0 < n" and "even n" and "length ds = d"
    and "\<forall>x \<in> set ds. length x = n" and "enc d p ds = Inr ps"
  shows "length ps = p"
    and "I \<subset> {..<d} \<Longrightarrow> J \<subseteq> {..<p} \<Longrightarrow> d \<le> card I + card J \<Longrightarrow>
      \<exists>r. dec d p (map (\<lambda>i. (i, ds ! i)) (filter (\<lambda>i. i \<in> I) [0..<d]))
          (map (\<lambda>j. (j, ps ! j)) (filter (\<lambda>j. j \<in> J) [0..<p])) = Inr r
        \<and> set r = {(i, ds ! i) |i. i \<in> {..<d} - I}"
proof -
  note c = assms(1) [unfolded codec_ok_def, rule_format, OF assms(2-4), OF bspec [OF assms(5)]]
  show "length ps = p" using c assms(6) by auto
  show "\<exists>r. dec d p (map (\<lambda>i. (i, ds ! i)) (filter (\<lambda>i. i \<in> I) [0..<d]))
          (map (\<lambda>j. (j, ps ! j)) (filter (\<lambda>j. j \<in> J) [0..<p])) = Inr r
        \<and> set r = {(i, ds ! i) |i. i \<in> {..<d} - I}"
    if "I \<subset> {..<d}" "J \<subseteq> {..<p}" "d \<le> card I + card J"
    using c assms(6) that by (metis (no_types, lifting) sum.inject(2))
qed

lemma card_split_shards:
  "card (I \<inter> {..<d + p}) = card (I \<inter> {..<d}) + card ({j. d + j \<in> I} \<inter> {..<p :: nat})"
proof -
  have "I \<inter> {..<d + p} = (I \<inter> {..<d}) \<union> (+) d ` ({j. d + j \<in> I} \<inter> {..<p})"
  proof (rule set_eqI)
    fix x
    show "x \<in> I \<inter> {..<d + p} \<longleftrightarrow> x \<in> (I \<inter> {..<d}) \<union> (+) d ` ({j. d + j \<in> I} \<inter> {..<p})"
      by (cases "x < d") (auto simp: image_iff intro!: bexI [of _ "x - d"])
  qed
  moreover have "(I \<inter> {..<d}) \<inter> (+) d ` ({j. d + j \<in> I} \<inter> {..<p}) = {}" by auto
  ultimately show ?thesis by (simp add: card_Un_disjoint card_image)
qed

lemma rebuild_data_survivors:
  assumes "codec_ok enc dec d p" and "ly_data l = d" and "ly_parity l = p" and "ly_scheme l = Inr s"
    and "0 < n" and "even n" and "length ds = d" and "\<forall>x \<in> set ds. length x = n"
    and "enc d p ds = Inr ps" and "d \<le> card (I \<inter> {..<d + p})"
  shows "rebuild_data dec l (survivors I (ds @ ps)) = Inr ds"
proof -
  let ?J = "{j. d + j \<in> I}"
  have s: "sc_data s = d" "sc_parity s = p"
    using assms(2-4) by (auto simp: ly_scheme_def ec_scheme_new_def split: if_splits)
  note ps = codec_okD(1) [OF assms(1,5-9)]
  have surv: "survivors I (ds @ ps) = survivors I ds @ survivors ?J ps"
    using assms(7) by (simp add: survivors_append)
  show ?thesis
  proof (cases "{..<d} \<subseteq> I")
    case True
    then show ?thesis
      using assms(2,4,7,10) ps s surv count_survivors [of I "ds @ ps"] None_survivors [of I ds]
      by (simp add: rebuild_data_def sc_shards_def survivors_all all_some_map)
  next
    case False
    have "I \<inter> {..<d} \<subset> {..<d}" "?J \<inter> {..<p} \<subseteq> {..<p}"
      "d \<le> card (I \<inter> {..<d}) + card (?J \<inter> {..<p})"
      using False assms(10) by (auto simp: card_split_shards)
    moreover have "filter (\<lambda>i. i \<in> I \<inter> {..<d}) [0..<d] = filter (\<lambda>i. i \<in> I) [0..<d]"
      "filter (\<lambda>j. j \<in> ?J \<inter> {..<p}) [0..<p] = filter (\<lambda>j. j \<in> ?J) [0..<p]"
      "{..<d} - I \<inter> {..<d} = {..<d} - I"
      by (auto intro: filter_cong)
    ultimately obtain r where
      r: "dec d p (present_from 0 (survivors I ds)) (present_from 0 (survivors ?J ps)) = Inr r"
        "set r = {(i, ds ! i) |i. i \<in> {..<d} - I}"
      using codec_okD(2) [OF assms(1,5-9), of "I \<inter> {..<d}" "?J \<inter> {..<p}"]
      unfolding present_survivors ps assms(7) by auto
    have "I \<union> fst ` set r \<supseteq> {..<length ds}" unfolding r(2) using assms(7) by force
    moreover have "\<forall>(i, s) \<in> set r. i < length ds \<and> s = ds ! i" unfolding r(2) using assms(7) by auto
    ultimately show ?thesis
      using assms(2,3,4,7,10) ps s surv r(1) False count_survivors [of I "ds @ ps"]
        None_survivors [of I ds]
      by (simp add: rebuild_data_def sc_shards_def fold_restore survivors_all all_some_map)
  qed
qed

text \<open>What encoding leaves behind for its users: a layout and shards that verify, and from any
  sufficient set of them the data shards and the bytes come back.\<close>

lemma ec_encoded:
  assumes "codec_ok enc dec d p" and "ec_scheme_new d p = Inr s" and "length bs < u64_max"
  shows "\<exists>l shards. ec_encode enc sha s bs = Inr (l, shards)
    \<and> ly_data l = d \<and> ly_parity l = p \<and> 0 < ly_shard_len l \<and> length shards = d + p
    \<and> ly_check l (length bs) (length shards) = Inr ()
    \<and> (\<forall>i < length shards. ly_verify sha l i (shards ! i))
    \<and> (\<forall>I. d \<le> card (I \<inter> {..<d + p}) \<longrightarrow> rebuild_data dec l (survivors I shards) = Inr (take d shards)
        \<and> ec_rebuild enc dec l (survivors I shards) = Inr shards)
    \<and> ec_join l (take d shards) (length bs) = bs"
proof -
  have s: "sc_data s = d" "sc_parity s = p" "0 < d"
    using assms(2) by (auto simp: ec_scheme_new_def split: if_splits)
  let ?n = "sc_shard_len s (length bs)"
  define ds where "ds = map (data_shard ?n bs) [0..<d]"
  note n = sc_shard_len_props [of s "length bs", unfolded s, OF s(3) assms(3)]
  have ds: "length ds = d" "\<forall>x \<in> set ds. length x = ?n" by (auto simp: ds_def)
  obtain ps where ps: "enc d p ds = Inr ps" "length ps = p" "\<forall>x \<in> set ps. length x = ?n"
    using codec_ok_enc [OF assms(1) n(2,3) ds] by blast
  define l where "l = \<lparr>ly_data = d, ly_parity = p, ly_shard_len = ?n, ly_checksums = map sha (ds @ ps)\<rparr>"
  have enc: "ec_encode enc sha s bs = Inr (l, ds @ ps)"
    unfolding ec_encode_def parity_of_def Let_def s ds_def [symmetric] using ps by (simp add: l_def)
  have scheme: "ly_scheme l = Inr s" using assms(2) by (simp add: ly_scheme_def l_def)
  have "rebuild_data dec l (survivors I (ds @ ps)) = Inr (take d (ds @ ps))
      \<and> ec_rebuild enc dec l (survivors I (ds @ ps)) = Inr (ds @ ps)" if k: "d \<le> card (I \<inter> {..<d + p})" for I
  proof -
    have "rebuild_data dec l (survivors I (ds @ ps)) = Inr ds"
      by (rule rebuild_data_survivors [OF assms(1) _ _ scheme n(2,3) ds ps(1) k])
        (simp_all add: l_def)
    moreover have "drop d (survivors I (ds @ ps)) = survivors {j. d + j \<in> I} ps"
      using ds by (simp add: survivors_append)
    ultimately show ?thesis
      using scheme ps ds None_survivors [of "{j. d + j \<in> I}" ps] s
      by (cases "{..<length ps} \<subseteq> {j. d + j \<in> I}")
        (simp_all add: ec_rebuild_def parity_of_def l_def survivors_all concat_Some)
  qed
  moreover have "ec_join l (take d (ds @ ps)) (length bs) = bs"
    using ds(1) join_data_shards [OF n(1)] by (simp add: ec_join_def l_def ds_def)
  moreover have "ly_check l (length bs) (length (ds @ ps)) = Inr ()"
    using scheme ds ps s by (simp add: ly_check_def sc_shards_def l_def)
  moreover have "\<forall>i < length (ds @ ps). ly_verify sha l i ((ds @ ps) ! i)"
    using ds ps by (auto simp: ly_verify_def l_def nth_append)
  ultimately show ?thesis using enc ds ps n(2) by (intro exI [of _ l] exI [of _ "ds @ ps"]) (simp add: l_def)
qed

text \<open>(C26) Encoding an extent always succeeds and yields a layout that passes the catalog's check
  with one shard per device, each of which verifies. Whatever \<open>data\<close> of the shards are left, the
  rebuild returns every shard as it was written, and joining them gives back the extent's
  bytes.\<close>

theorem ec_rebuild_any_k:
  assumes "codec_ok enc dec d p" and "ec_scheme_new d p = Inr s" and "length bs < u64_max"
    and "d \<le> card (I \<inter> {..<d + p})"
  shows "\<exists>l shards. ec_encode enc sha s bs = Inr (l, shards)
    \<and> length shards = d + p \<and> ly_check l (length bs) (length shards) = Inr ()
    \<and> (\<forall>i < length shards. ly_verify sha l i (shards ! i))
    \<and> ec_rebuild enc dec l (survivors I shards) = Inr shards
    \<and> ec_join l shards (length bs) = bs"
proof -
  obtain l shards where e: "ec_encode enc sha s bs = Inr (l, shards)" "ly_data l = d" "length shards = d + p"
      "ly_check l (length bs) (length shards) = Inr ()" "\<forall>i < length shards. ly_verify sha l i (shards ! i)"
      "ec_rebuild enc dec l (survivors I shards) = Inr shards" "ec_join l (take d shards) (length bs) = bs"
    using ec_encoded [OF assms(1-3), of sha] assms(4) by blast
  moreover have "ec_join l shards (length bs) = ec_join l (take d shards) (length bs)"
    using e(2) by (simp add: ec_join_def)
  ultimately show ?thesis by (intro exI [of _ l] exI [of _ shards]) simp
qed

text \<open>One parity shard over two data shards: their exclusive or is such a codec.\<close>

definition xor2 :: "byte list \<Rightarrow> byte list \<Rightarrow> byte list" where
  "xor2 a b = map2 xor a b"

definition xor_enc :: rs_encode where
  "xor_enc d p ds = (case ds of [a, b] \<Rightarrow> Inr [xor2 a b] | _ \<Rightarrow> Inl Invalid)"

definition xor_dec :: rs_decode where
  "xor_dec d p os rs = (case (os, rs) of
       ([(i, a)], [(j, r)]) \<Rightarrow> Inr [(1 - i, xor2 a r)] | _ \<Rightarrow> Inl Invalid)"

lemma xor2_cancel: "length a = length b \<Longrightarrow> xor2 a (xor2 a b) = b" "length a = length b \<Longrightarrow> xor2 b (xor2 a b) = a"
proof -
  have x: "xor u (xor u v) = v" "xor v (xor u v) = u" for u v :: byte
    by (rule bit_word_eqI; simp add: bit_simps; blast)+
  show "length a = length b \<Longrightarrow> xor2 a (xor2 a b) = b" "length a = length b \<Longrightarrow> xor2 b (xor2 a b) = a"
    by (simp_all add: xor2_def list_eq_iff_nth_eq x)
qed

lemma xor_codec_ok: "codec_ok xor_enc xor_dec 2 1"
  unfolding codec_ok_def
proof (intro allI impI)
  fix n and ds :: "shard list"
  assume "length ds = 2" and len: "\<forall>s \<in> set ds. length s = n"
  then obtain a b where ds: "ds = [a, b]" by (auto simp: length_Suc_conv numeral_2_eq_2)
  have "\<exists>r. xor_dec 2 1 (map (\<lambda>i. (i, ds ! i)) (filter (\<lambda>i. i \<in> I) [0..<2]))
          (map (\<lambda>j. (j, [xor2 a b] ! j)) (filter (\<lambda>j. j \<in> J) [0..<1])) = Inr r
        \<and> set r = {(i, ds ! i) |i. i \<in> {..<2} - I}"
    if I: "I \<subset> {..<2}" and J: "J \<subseteq> {..<1}" and c: "2 \<le> card I + card J" for I J
  proof -
    have "card I \<le> 1" using psubset_card_mono [OF _ I] by simp
    moreover have "card J \<le> 1" using card_mono [OF _ J] by simp
    ultimately have "card I = 1" "card J = 1" using c by linarith+
    then obtain i j where "I = {i}" "J = {j}" by (metis card_1_singletonE)
    with I J have "I = {0} \<or> I = {1}" "J = {0}" by (auto simp: less_2_cases_iff)
    moreover have "[0..<2] = [0, 1 :: nat]" "[0..<1] = [0 :: nat]" by code_simp+
    moreover have "length a = length b" using len ds by simp
    ultimately show ?thesis
      using xor2_cancel [of a b] unfolding ds by (auto simp: xor_dec_def less_2_cases_iff)
  qed
  then show "\<exists>ps. xor_enc 2 1 ds = Inr ps \<and> length ps = 1 \<and> (\<forall>s \<in> set ps. length s = n)
      \<and> (\<forall>I J. I \<subset> {..<2} \<longrightarrow> J \<subseteq> {..<1} \<longrightarrow> 2 \<le> card I + card J \<longrightarrow>
        (\<exists>r. xor_dec 2 1 (map (\<lambda>i. (i, ds ! i)) (filter (\<lambda>i. i \<in> I) [0..<2]))
          (map (\<lambda>j. (j, ps ! j)) (filter (\<lambda>j. j \<in> J) [0..<1])) = Inr r
          \<and> set r = {(i, ds ! i) |i. i \<in> {..<2} - I}))"
    using len ds by (intro exI [of _ "[xor2 a b]"]) (simp add: xor_enc_def xor2_def)
qed

theorem ec_rebuild_any_k_witness:
  "\<exists>l shards. ec_encode xor_enc rev \<lparr>sc_data = 2, sc_parity = 1\<rparr> [1, 2, 3] = Inr (l, shards)
    \<and> ec_rebuild xor_enc xor_dec l (survivors {0, 2} shards) = Inr shards
    \<and> ec_join l shards 3 = [1, 2, 3]"
proof -
  have "{0, 2} \<inter> {..<2 + 1} = {0, 2 :: nat}" by auto
  then show ?thesis
    using ec_rebuild_any_k [OF xor_codec_ok, of "\<lparr>sc_data = 2, sc_parity = 1\<rparr>" "[1, 2, 3]" "{0, 2}" rev]
    by (auto simp: ec_scheme_new_def MAX_DATA_SHARDS_def MAX_PARITY_SHARDS_def u64_max_def numeral_3_eq_3)
qed

end
