(* ===== verification/Leases.thy ===== *)
theory Leases
  imports MetaErrors
begin

text \<open>
  Client sessions and byte-range locks (\<open>crates/atlas-native/src/leases.rs\<close>). The abstract view
  of the locks is what each owner holds on each byte; \<open>relock\<close> is shown to set exactly the
  requested bytes of exactly the requesting owner, and every operation to keep the locks free
  of conflicts, owned by open sessions and within the configured limits.
\<close>

definition MIN_TTL_MS :: nat where "MIN_TTL_MS = 1000"
definition MAX_TTL_MS :: nat where "MAX_TTL_MS = 300000"
definition MAX_SESSIONS :: nat where "MAX_SESSIONS = 65536"
definition MAX_LOCKS_PER_SESSION :: nat where "MAX_LOCKS_PER_SESSION = 4096"
definition MAX_SESSION_ID_BYTES :: nat where "MAX_SESSION_ID_BYTES = 128"

record session =
  s_ttl_ms :: nat
  s_expires_ms :: nat
  s_cache :: bool
  s_term :: nat

datatype lock_kind = Read | Write

record file_lock =
  lk_ino :: nat
  lk_session :: string
  lk_owner :: nat
  lk_kind :: lock_kind
  lk_start :: nat
  lk_end :: nat
  lk_pid :: nat

record leases =
  sessions :: "(string, session) btree"
  locks :: "(string, file_lock list) btree"

definition no_leases :: leases where
  "no_leases = \<lparr>sessions = bempty, locks = bempty\<rparr>"

datatype lease_op =
    Open (open_session: string) (open_ttl_ms: nat) (open_now_ms: nat) (open_cache: bool)
  | Renew string nat
  | Close string
  | Expire nat
  | Lock string nat string nat "lock_kind option" nat nat nat nat
  | ReleaseOwner string nat string nat

section \<open>Locks\<close>

definition same_owner :: "file_lock \<Rightarrow> string \<Rightarrow> nat \<Rightarrow> bool" where
  "same_owner l ses own \<longleftrightarrow> lk_session l = ses \<and> lk_owner l = own"

definition overlaps :: "file_lock \<Rightarrow> nat \<Rightarrow> nat \<Rightarrow> bool" where
  "overlaps l st en \<longleftrightarrow> lk_start l \<le> en \<and> st \<le> lk_end l"

definition lk_conflicts :: "file_lock \<Rightarrow> string \<Rightarrow> nat \<Rightarrow> lock_kind \<Rightarrow> nat \<Rightarrow> nat \<Rightarrow> bool" where
  "lk_conflicts l ses own k st en \<longleftrightarrow> \<not> same_owner l ses own \<and> overlaps l st en
     \<and> (lk_kind l = Write \<or> k = Write)"

definition check_holder_name :: "string \<Rightarrow> unit meta_result" where
  "check_holder_name ses = guard (ses \<noteq> [] \<and> length ses \<le> MAX_SESSION_ID_BYTES) Invalid"

definition lock_count :: "leases \<Rightarrow> nat" where
  "lock_count L = sum_list (map length (bvals (locks L)))"

definition locks_of :: "leases \<Rightarrow> string \<Rightarrow> file_lock list" where
  "locks_of L fs = (case bget (locks L) fs of None \<Rightarrow> [] | Some ls \<Rightarrow> ls)"

definition locks_on :: "leases \<Rightarrow> string \<Rightarrow> nat \<Rightarrow> file_lock list" where
  "locks_on L fs ino = filter (\<lambda>l. lk_ino l = ino) (locks_of L fs)"

definition conflict ::
    "leases \<Rightarrow> string \<Rightarrow> nat \<Rightarrow> string \<Rightarrow> nat \<Rightarrow> lock_kind \<Rightarrow> nat \<Rightarrow> nat \<Rightarrow> file_lock option" where
  "conflict L fs ino ses own k st en =
     List.find (\<lambda>l. lk_conflicts l ses own k st en) (locks_on L fs ino)"

definition expired :: "leases \<Rightarrow> nat \<Rightarrow> string list" where
  "expired L now_ms = map fst (filter (\<lambda>(_, s). s_expires_ms s \<le> now_ms) (bitems (sessions L)))"

definition max_ttl_ms :: "leases \<Rightarrow> nat" where
  "max_ttl_ms L = fold max (map s_ttl_ms (bvals (sessions L))) 0"

definition forget_fs :: "string \<Rightarrow> leases \<Rightarrow> leases" where
  "forget_fs fs L = L\<lparr>locks := bdel fs (locks L)\<rparr>"

definition drop_sessions :: "string list \<Rightarrow> leases \<Rightarrow> leases" where
  "drop_sessions gone L =
     (if gone = [] then L
      else L\<lparr>sessions := fold bdel gone (sessions L),
             locks := bretain (\<lambda>_ ls. ls \<noteq> [])
               (bmap (\<lambda>_ ls. filter (\<lambda>l. lk_session l \<notin> set gone) ls) (locks L))\<rparr>)"

definition caching_since_before :: "leases \<Rightarrow> nat \<Rightarrow> bool" where
  "caching_since_before L term \<longleftrightarrow> (\<exists>s \<in> set (bvals (sessions L)). s_cache s \<and> s_term s < term)"

definition touches :: "file_lock \<Rightarrow> nat \<Rightarrow> nat \<Rightarrow> bool" where
  "touches l st en \<longleftrightarrow> overlaps l st en \<or> checked_add (lk_end l) 1 = Some st
     \<or> checked_add en 1 = Some (lk_start l)"

text \<open>The loop of \<open>relock\<close>: what is kept so far and the new lock as far as it has grown.\<close>

fun relock_loop ::
    "nat \<Rightarrow> string \<Rightarrow> nat \<Rightarrow> nat \<Rightarrow> nat \<Rightarrow> file_lock list \<Rightarrow> file_lock list \<Rightarrow> file_lock option
      \<Rightarrow> file_lock list \<times> file_lock option" where
  "relock_loop ino ses own st en [] out new = (out, new)"
| "relock_loop ino ses own st en (l # ls) out new =
     (if lk_ino l \<noteq> ino \<or> \<not> same_owner l ses own then relock_loop ino ses own st en ls (out @ [l]) new
      else if \<not> touches l st en then relock_loop ino ses own st en ls (out @ [l]) new
      else case (case new of Some n \<Rightarrow> if lk_kind n = lk_kind l then Some n else None | None \<Rightarrow> None) of
        Some n \<Rightarrow> relock_loop ino ses own st en ls out
          (Some (n\<lparr>lk_start := min (lk_start n) (lk_start l), lk_end := max (lk_end n) (lk_end l)\<rparr>))
      | None \<Rightarrow>
          if \<not> overlaps l st en then relock_loop ino ses own st en ls (out @ [l]) new
          else relock_loop ino ses own st en ls
            (out @ (if lk_start l < st then [l\<lparr>lk_end := st - 1\<rparr>] else [])
                 @ (if en < lk_end l then [l\<lparr>lk_start := en + 1\<rparr>] else [])) new)"

definition relock ::
    "file_lock list \<Rightarrow> nat \<Rightarrow> string \<Rightarrow> nat \<Rightarrow> lock_kind option \<Rightarrow> nat \<Rightarrow> nat \<Rightarrow> nat \<Rightarrow> file_lock list" where
  "relock held ino ses own kind st en pid =
     (let new = map_option (\<lambda>k. \<lparr>lk_ino = ino, lk_session = ses, lk_owner = own, lk_kind = k,
                  lk_start = st, lk_end = en, lk_pid = pid\<rparr>) kind;
          (out, new) = relock_loop ino ses own st en held [] new
      in sort_key (\<lambda>l. (lk_ino l, lk_session l, lk_owner l, lk_start l))
           (out @ (case new of None \<Rightarrow> [] | Some n \<Rightarrow> [n])))"

definition session_lock_count :: "string \<Rightarrow> file_lock list \<Rightarrow> nat" where
  "session_lock_count ses ls = length (filter (\<lambda>l. lk_session l = ses) ls)"

section \<open>Operations\<close>

definition lease_open :: "string \<Rightarrow> nat \<Rightarrow> nat \<Rightarrow> bool \<Rightarrow> nat \<Rightarrow> leases \<Rightarrow> (unit, leases) change" where
  "lease_open ses ttl now_ms cache term L =
     attempt L (check_holder_name ses) (\<lambda>_.
     attempt L (guard (MIN_TTL_MS \<le> ttl \<and> ttl \<le> MAX_TTL_MS) Invalid) (\<lambda>_.
     attempt L (guard (bget (sessions L) ses \<noteq> None \<or> bsize (sessions L) < MAX_SESSIONS) TooBig) (\<lambda>_.
       let term = (case bget (sessions L) ses of None \<Rightarrow> term | Some s \<Rightarrow> s_term s)
       in (Inr (), L\<lparr>sessions := bput ses \<lparr>s_ttl_ms = ttl, s_expires_ms = sat_add now_ms ttl,
                 s_cache = cache, s_term = term\<rparr> (sessions L)\<rparr>))))"

definition lease_renew :: "string \<Rightarrow> nat \<Rightarrow> leases \<Rightarrow> (unit, leases) change" where
  "lease_renew ses now_ms L =
     attempt L (ok_or (bget (sessions L) ses) NoSession) (\<lambda>s.
       (Inr (), L\<lparr>sessions := bput ses
          (s\<lparr>s_expires_ms := max (s_expires_ms s) (sat_add now_ms (s_ttl_ms s))\<rparr>) (sessions L)\<rparr>))"

definition lease_close :: "string \<Rightarrow> leases \<Rightarrow> (unit, leases) change" where
  "lease_close ses L =
     (Inr (), if bget (sessions L) ses \<noteq> None then drop_sessions [ses] L else L)"

definition lease_expire :: "nat \<Rightarrow> leases \<Rightarrow> (unit, leases) change" where
  "lease_expire now_ms L = (Inr (), drop_sessions (expired L now_ms) L)"

definition lease_lock ::
    "(string \<Rightarrow> nat \<Rightarrow> unit meta_result) \<Rightarrow> string \<Rightarrow> nat \<Rightarrow> string \<Rightarrow> nat \<Rightarrow> lock_kind option \<Rightarrow> nat \<Rightarrow> nat
      \<Rightarrow> nat \<Rightarrow> nat \<Rightarrow> leases \<Rightarrow> (unit, leases) change" where
  "lease_lock file fs ino ses own kind st en pid now_ms L =
     attempt L (guard (st \<le> en) Invalid) (\<lambda>_.
     attempt L (ok_or (bget (sessions L) ses) NoSession) (\<lambda>s.
     attempt L (file fs ino) (\<lambda>_.
     attempt L (guard (case kind of None \<Rightarrow> True
                       | Some k \<Rightarrow> conflict L fs ino ses own k st en = None) Locked) (\<lambda>_.
       let next' = relock (locks_of L fs) ino ses own kind st en pid;
           mine = sat_add (session_lock_count ses next')
             (session_lock_count ses (concat (map snd (filter (\<lambda>(f, _). f \<noteq> fs) (bitems (locks L))))))
       in attempt L (guard (mine \<le> MAX_LOCKS_PER_SESSION) TooBig) (\<lambda>_.
         let L1 = L\<lparr>sessions := bput ses
               (s\<lparr>s_expires_ms := max (s_expires_ms s) (sat_add now_ms (s_ttl_ms s))\<rparr>) (sessions L)\<rparr>
         in (Inr (), L1\<lparr>locks := if next' = [] then bdel fs (locks L) else bput fs next' (locks L)\<rparr>))))))"

definition lease_release_owner ::
    "string \<Rightarrow> nat \<Rightarrow> string \<Rightarrow> nat \<Rightarrow> leases \<Rightarrow> (unit, leases) change" where
  "lease_release_owner fs ino ses own L =
     (Inr (), case bget (locks L) fs of
        None \<Rightarrow> L
      | Some ls \<Rightarrow>
          let ls' = filter (\<lambda>l. \<not> (lk_ino l = ino \<and> same_owner l ses own)) ls
          in L\<lparr>locks := if ls' = [] then bdel fs (locks L) else bput fs ls' (locks L)\<rparr>)"

fun leases_apply ::
    "(string \<Rightarrow> nat \<Rightarrow> unit meta_result) \<Rightarrow> nat \<Rightarrow> lease_op \<Rightarrow> leases \<Rightarrow> (unit, leases) change" where
  "leases_apply file term (Open ses ttl now_ms cache) L = lease_open ses ttl now_ms cache term L"
| "leases_apply file term (Renew ses now_ms) L = lease_renew ses now_ms L"
| "leases_apply file term (Close ses) L = lease_close ses L"
| "leases_apply file term (Expire now_ms) L = lease_expire now_ms L"
| "leases_apply file term (Lock fs ino ses own kind st en pid now_ms) L =
     lease_lock file fs ino ses own kind st en pid now_ms L"
| "leases_apply file term (ReleaseOwner fs ino ses own) L = lease_release_owner fs ino ses own L"

section \<open>What an owner holds on a byte\<close>

definition covers :: "file_lock \<Rightarrow> nat \<Rightarrow> bool" where
  "covers l b \<longleftrightarrow> lk_start l \<le> b \<and> b \<le> lk_end l"

definition held :: "file_lock list \<Rightarrow> nat \<Rightarrow> string \<Rightarrow> nat \<Rightarrow> nat \<Rightarrow> lock_kind set" where
  "held ls ino ses own b =
     lk_kind ` {l \<in> set ls. lk_ino l = ino \<and> same_owner l ses own \<and> covers l b}"

definition lock_ok :: "file_lock \<Rightarrow> bool" where
  "lock_ok l \<longleftrightarrow> lk_start l \<le> lk_end l \<and> lk_end l \<le> u64_max"

lemma held_simps [simp]:
  "held [] ino ses own b = {}"
  "held (l # ls) ino ses own b = (if lk_ino l = ino \<and> same_owner l ses own \<and> covers l b
     then insert (lk_kind l) (held ls ino ses own b) else held ls ino ses own b)"
  "held (ls @ ms) ino ses own b = held ls ino ses own b \<union> held ms ino ses own b"
  by (auto simp: held_def)

lemma held_set_cong: "set ls = set ms \<Longrightarrow> held ls ino ses own b = held ms ino ses own b"
  by (simp add: held_def)

abbreviation opt_list :: "'a option \<Rightarrow> 'a list" where
  "opt_list x \<equiv> (case x of None \<Rightarrow> [] | Some a \<Rightarrow> [a])"

text \<open>The four ways the loop treats one lock of the requesting owner.\<close>

definition grow_lock :: "file_lock \<Rightarrow> file_lock \<Rightarrow> file_lock" where
  "grow_lock n l = n\<lparr>lk_start := min (lk_start n) (lk_start l), lk_end := max (lk_end n) (lk_end l)\<rparr>"

definition cut_lock :: "file_lock \<Rightarrow> nat \<Rightarrow> nat \<Rightarrow> file_lock list" where
  "cut_lock l st en = (if lk_start l < st then [l\<lparr>lk_end := st - 1\<rparr>] else [])
     @ (if en < lk_end l then [l\<lparr>lk_start := en + 1\<rparr>] else [])"

lemma relock_loop_step:
  obtains (keep) "relock_loop ino ses own st en (l # ls) out new = relock_loop ino ses own st en ls (out @ [l]) new"
      "lk_ino l = ino \<and> same_owner l ses own \<longrightarrow> \<not> overlaps l st en"
  | (absorb) n where "new = Some n" "lk_kind n = lk_kind l" "lk_ino l = ino" "same_owner l ses own"
      "touches l st en"
      "relock_loop ino ses own st en (l # ls) out new = relock_loop ino ses own st en ls out (Some (grow_lock n l))"
  | (cut) "lk_ino l = ino" "same_owner l ses own" "overlaps l st en"
      "relock_loop ino ses own st en (l # ls) out new
        = relock_loop ino ses own st en ls (out @ cut_lock l st en) new"
proof (cases "lk_ino l = ino \<and> same_owner l ses own \<and> touches l st en")
  case False
  then show ?thesis by (intro keep) (auto simp: touches_def)
next
  case True
  show ?thesis
  proof (cases "\<exists>n. new = Some n \<and> lk_kind n = lk_kind l")
    case True': True
    then obtain n where "new = Some n" "lk_kind n = lk_kind l" by blast
    with True show ?thesis by (intro absorb) (auto simp: grow_lock_def)
  next
    case False
    then have no: "(case new of Some n \<Rightarrow> if lk_kind n = lk_kind l then Some n else None | None \<Rightarrow> None) = None"
      by (auto split: option.splits)
    show ?thesis
    proof (cases "overlaps l st en")
      case True': True
      with True no show ?thesis by (intro cut) (simp_all add: cut_lock_def)
    next
      case False
      with True no show ?thesis by (intro keep) simp_all
    qed
  qed
qed

text \<open>The new lock keeps covering the requested range while it grows.\<close>

definition new_ok :: "nat \<Rightarrow> string \<Rightarrow> nat \<Rightarrow> nat \<Rightarrow> nat \<Rightarrow> file_lock option \<Rightarrow> bool" where
  "new_ok ino ses own st en new \<longleftrightarrow> (\<forall>n. new = Some n \<longrightarrow> lk_ino n = ino \<and> same_owner n ses own
     \<and> lk_start n \<le> st \<and> en \<le> lk_end n \<and> lk_end n \<le> u64_max)"

lemma covers_grow_lock:
  assumes "touches l st en" and "lock_ok l" and "lk_start n \<le> st" and "en \<le> lk_end n" and "st \<le> en"
  shows "covers (grow_lock n l) b \<longleftrightarrow> covers n b \<or> covers l b"
  using assms by (auto simp: touches_def overlaps_def covers_def grow_lock_def lock_ok_def checked_add_def
      split: if_splits)

lemma held_cut_lock:
  assumes "lock_ok l" and "overlaps l st en"
  shows "held (cut_lock l st en) i s oo b = (if st \<le> b \<and> b \<le> en then {} else held [l] i s oo b)"
  using assms by (auto simp: cut_lock_def covers_def overlaps_def lock_ok_def same_owner_def)

lemma relock_loop_held:
  assumes "relock_loop ino ses own st en ls out new = (out', new')"
    and "\<forall>l \<in> set ls. lock_ok l" and "st \<le> en" and "new_ok ino ses own st en new"
  shows "held (out' @ opt_list new') i s oo b =
    (if i = ino \<and> s = ses \<and> oo = own \<and> st \<le> b \<and> b \<le> en then held (out @ opt_list new) i s oo b
     else held (out @ opt_list new) i s oo b \<union> held ls i s oo b)"
  using assms
proof (induction ls arbitrary: out new)
  case Nil
  then show ?case by auto
next
  case (Cons l ls)
  have l: "lock_ok l" "\<forall>l \<in> set ls. lock_ok l" using Cons.prems(2) by auto
  show ?case
  proof (cases rule: relock_loop_step [of ino ses own st en l ls out new])
    case keep
    from Cons.IH [OF _ l(2) \<open>st \<le> en\<close> Cons.prems(4), of "out @ [l]"] keep Cons.prems(1)
    show ?thesis by (auto simp: overlaps_def covers_def same_owner_def)
  next
    case (absorb n)
    have n: "lk_ino n = ino" "same_owner n ses own" "lk_start n \<le> st" "en \<le> lk_end n"
      using Cons.prems(4) absorb(1) by (auto simp: new_ok_def)
    have "new_ok ino ses own st en (Some (grow_lock n l))"
      using Cons.prems(4) absorb(1) l(1) by (auto simp: new_ok_def grow_lock_def same_owner_def lock_ok_def)
    from Cons.IH [OF _ l(2) \<open>st \<le> en\<close> this, of out] absorb Cons.prems(1)
    have "held (out' @ opt_list new') i s oo b =
        (if i = ino \<and> s = ses \<and> oo = own \<and> st \<le> b \<and> b \<le> en then held (out @ [grow_lock n l]) i s oo b
         else held (out @ [grow_lock n l]) i s oo b \<union> held ls i s oo b)" by simp
    moreover have "held [grow_lock n l] i s oo b = held [n] i s oo b \<union> held [l] i s oo b"
      using covers_grow_lock [OF absorb(5) l(1) n(3,4) \<open>st \<le> en\<close>, of b] n absorb(2-4)
      by (auto simp: grow_lock_def same_owner_def)
    moreover have "held [l] i s oo b \<subseteq> held [n] i s oo b" if "st \<le> b" "b \<le> en"
      using that n absorb(2-4) by (auto simp: covers_def same_owner_def)
    ultimately show ?thesis using absorb(1) by auto
  next
    case cut
    from Cons.IH [OF _ l(2) \<open>st \<le> en\<close> Cons.prems(4), of "out @ cut_lock l st en"] cut Cons.prems(1)
    show ?thesis
      using held_cut_lock [OF l(1) cut(3)] by (auto simp: same_owner_def)
  qed
qed

lemma session_lock_count_simps [simp]:
  "session_lock_count s [] = 0"
  "session_lock_count s (l # ls) = (if lk_session l = s then 1 else 0) + session_lock_count s ls"
  "session_lock_count s (ls @ ms) = session_lock_count s ls + session_lock_count s ms"
  by (simp_all add: session_lock_count_def)

lemma cut_lock_props:
  "lk_session ` set (cut_lock l st en) \<subseteq> {lk_session l}"
  "lk_session l \<noteq> s \<Longrightarrow> session_lock_count s (cut_lock l st en) = 0"
  by (auto simp: cut_lock_def)

text \<open>The loop keeps locks well formed and does not touch other sessions.\<close>

lemma relock_loop_ok:
  assumes "relock_loop ino ses own st en ls out new = (out', new')"
    and "\<forall>l \<in> set ls. lock_ok l" and "st \<le> en" and "new_ok ino ses own st en new"
    and "\<forall>l \<in> set out. lock_ok l"
  shows "(\<forall>l \<in> set out'. lock_ok l) \<and> new_ok ino ses own st en new'
    \<and> lk_session ` set out' \<subseteq> lk_session ` set out \<union> lk_session ` set ls
    \<and> (\<forall>s. s \<noteq> ses \<longrightarrow> session_lock_count s out' = session_lock_count s out + session_lock_count s ls)"
  using assms
proof (induction ls arbitrary: out new)
  case Nil
  then show ?case by auto
next
  case (Cons l ls)
  have l: "lock_ok l" "\<forall>l \<in> set ls. lock_ok l" using Cons.prems(2) by auto
  show ?case
  proof (cases rule: relock_loop_step [of ino ses own st en l ls out new])
    case keep
    from Cons.IH [OF _ l(2) \<open>st \<le> en\<close> Cons.prems(4), of "out @ [l]"] keep Cons.prems(1,5) l(1)
    show ?thesis by auto
  next
    case (absorb n)
    have "new_ok ino ses own st en (Some (grow_lock n l))"
      using Cons.prems(4) absorb(1) l(1) by (auto simp: new_ok_def grow_lock_def same_owner_def lock_ok_def)
    from Cons.IH [OF _ l(2) \<open>st \<le> en\<close> this, of out] absorb Cons.prems(1,5)
    show ?thesis by (auto simp: same_owner_def)
  next
    case cut
    have "\<forall>x \<in> set (cut_lock l st en). lock_ok x"
      using l(1) cut(3) by (auto simp: cut_lock_def lock_ok_def overlaps_def)
    from Cons.IH [OF _ l(2) \<open>st \<le> en\<close> Cons.prems(4), of "out @ cut_lock l st en"] cut Cons.prems(1,5) this
    have 1: "(\<forall>l \<in> set out'. lock_ok l) \<and> new_ok ino ses own st en new'"
      and 2: "lk_session ` set out' \<subseteq> lk_session ` set (out @ cut_lock l st en) \<union> lk_session ` set ls"
      and 3: "(\<forall>s. s \<noteq> ses \<longrightarrow> session_lock_count s out'
          = session_lock_count s (out @ cut_lock l st en) + session_lock_count s ls)" by auto
    have "lk_session ` set out' \<subseteq> lk_session ` set out \<union> lk_session ` set (l # ls)"
      using 2 cut_lock_props(1) [of l st en] unfolding set_append image_Un list.set(2) image_insert by blast
    with 1 3 show ?thesis
      using cut_lock_props(2) [of l _ st en] cut(2) by (auto simp: same_owner_def)
  qed
qed

lemma relock_set:
  assumes "relock_loop ino ses own st en ls [] (map_option (\<lambda>k. \<lparr>lk_ino = ino, lk_session = ses,
      lk_owner = own, lk_kind = k, lk_start = st, lk_end = en, lk_pid = pid\<rparr>) kind) = (out, new)"
  shows "set (relock ls ino ses own kind st en pid) = set (out @ opt_list new)"
    and "session_lock_count s (relock ls ino ses own kind st en pid)
      = session_lock_count s (out @ opt_list new)"
proof -
  have r: "relock ls ino ses own kind st en pid =
      sort_key (\<lambda>l. (lk_ino l, lk_session l, lk_owner l, lk_start l)) (out @ opt_list new)"
    unfolding relock_def Let_def assms by simp
  show "set (relock ls ino ses own kind st en pid) = set (out @ opt_list new)"
    unfolding r by (simp only: set_sort)
  have "mset (filter P (sort_key f xs)) = mset (filter P xs)"
    for P and f :: "file_lock \<Rightarrow> nat \<times> string \<times> nat \<times> nat" and xs
    by simp
  then show "session_lock_count s (relock ls ino ses own kind st en pid)
      = session_lock_count s (out @ opt_list new)"
    unfolding r session_lock_count_def by (rule mset_eq_length)
qed

lemma held_relock:
  assumes "\<forall>l \<in> set ls. lock_ok l" and "st \<le> en" and "en \<le> u64_max"
  shows "held (relock ls ino ses own kind st en pid) i s oo b =
    (if i = ino \<and> s = ses \<and> oo = own \<and> st \<le> b \<and> b \<le> en then set_option kind
     else held ls i s oo b)"
proof -
  let ?new = "map_option (\<lambda>k. \<lparr>lk_ino = ino, lk_session = ses, lk_owner = own, lk_kind = k,
      lk_start = st, lk_end = en, lk_pid = pid\<rparr>) kind"
  obtain out new where r: "relock_loop ino ses own st en ls [] ?new = (out, new)"
    by (rule prod.exhaust)
  have "new_ok ino ses own st en ?new"
    using assms(3) by (cases kind) (auto simp: new_ok_def same_owner_def)
  from relock_loop_held [OF r assms(1,2) this, of i s oo b] show ?thesis
    unfolding held_set_cong [OF relock_set(1) [OF r]]
    by (cases kind) (auto simp: same_owner_def covers_def)
qed

lemma relock_ok:
  assumes "\<forall>l \<in> set ls. lock_ok l" and "st \<le> en" and "en \<le> u64_max"
  shows "\<forall>l \<in> set (relock ls ino ses own kind st en pid). lock_ok l"
    and "lk_session ` set (relock ls ino ses own kind st en pid) \<subseteq> insert ses (lk_session ` set ls)"
    and "s \<noteq> ses \<Longrightarrow> session_lock_count s (relock ls ino ses own kind st en pid) = session_lock_count s ls"
proof -
  let ?new = "map_option (\<lambda>k. \<lparr>lk_ino = ino, lk_session = ses, lk_owner = own, lk_kind = k,
      lk_start = st, lk_end = en, lk_pid = pid\<rparr>) kind"
  obtain out new where r: "relock_loop ino ses own st en ls [] ?new = (out, new)"
    by (rule prod.exhaust)
  have "new_ok ino ses own st en ?new"
    using assms(3) by (cases kind) (auto simp: new_ok_def same_owner_def)
  note ok = relock_loop_ok [OF r assms(1,2) this]
  show "\<forall>l \<in> set (relock ls ino ses own kind st en pid). lock_ok l"
    unfolding relock_set(1) [OF r] using ok assms(2)
    by (auto simp: new_ok_def lock_ok_def split: option.splits)
  show "lk_session ` set (relock ls ino ses own kind st en pid) \<subseteq> insert ses (lk_session ` set ls)"
    unfolding relock_set(1) [OF r] using ok
    by (auto simp: new_ok_def same_owner_def split: option.splits)
  show "session_lock_count s (relock ls ino ses own kind st en pid) = session_lock_count s ls" if "s \<noteq> ses"
    unfolding relock_set(2) [OF r] using ok that
    by (auto simp: session_lock_count_def new_ok_def same_owner_def split: option.splits)
qed

section \<open>The invariant of sessions and locks\<close>

definition exclusive :: "file_lock list \<Rightarrow> bool" where
  "exclusive ls \<longleftrightarrow> (\<forall>ino b s oo s' oo' k k'. k \<in> held ls ino s oo b \<longrightarrow> k' \<in> held ls ino s' oo' b \<longrightarrow>
     (s, oo) \<noteq> (s', oo') \<longrightarrow> k = Read \<and> k' = Read)"

definition fs_locks_ok :: "leases \<Rightarrow> file_lock list \<Rightarrow> bool" where
  "fs_locks_ok L ls \<longleftrightarrow> ls \<noteq> [] \<and> exclusive ls
     \<and> (\<forall>l \<in> set ls. lock_ok l \<and> bget (sessions L) (lk_session l) \<noteq> None)"

definition session_total :: "leases \<Rightarrow> string \<Rightarrow> nat" where
  "session_total L s = bsum (session_lock_count s) (locks L)"

definition lease_inv :: "leases \<Rightarrow> bool" where
  "lease_inv L \<longleftrightarrow> (\<forall>fs ls. bget (locks L) fs = Some ls \<longrightarrow> fs_locks_ok L ls)
     \<and> (\<forall>n s. bget (sessions L) n = Some s \<longrightarrow> MIN_TTL_MS \<le> s_ttl_ms s \<and> s_ttl_ms s \<le> MAX_TTL_MS)
     \<and> bsize (sessions L) \<le> MAX_SESSIONS
     \<and> (\<forall>s. session_total L s \<le> MAX_LOCKS_PER_SESSION)"

lemma lease_inv_empty: "lease_inv no_leases"
  by (simp add: lease_inv_def no_leases_def session_total_def)

lemma held_filter_subset: "held (filter P ls) ino s oo b \<subseteq> held ls ino s oo b"
  by (auto simp: held_def)

lemma exclusive_filter: "exclusive ls \<Longrightarrow> exclusive (filter P ls)"
  unfolding exclusive_def using held_filter_subset by blast

lemma session_lock_count_filter: "session_lock_count s (filter P ls) \<le> session_lock_count s ls"
  by (induction ls) auto

text \<open>Shrinking the locks, and keeping every session that still holds one.\<close>

lemma lease_inv_shrink:
  assumes "lease_inv L"
    and "\<And>n s. bget (sessions L') n = Some s \<Longrightarrow> \<exists>s0. bget (sessions L) n = Some s0 \<and> s_ttl_ms s = s_ttl_ms s0"
    and "\<And>fs ls. bget (locks L') fs = Some ls \<Longrightarrow> ls \<noteq> [] \<and> (\<exists>P ls0. bget (locks L) fs = Some ls0
      \<and> ls = filter P ls0 \<and> (\<forall>l \<in> set ls. bget (sessions L') (lk_session l) \<noteq> None))"
  shows "lease_inv L'"
  unfolding lease_inv_def
proof (intro conjI allI impI)
  fix fs ls assume "bget (locks L') fs = Some ls"
  from assms(3) [OF this] obtain P ls0 where *: "ls \<noteq> []" "bget (locks L) fs = Some ls0"
      "ls = filter P ls0" "\<forall>l \<in> set ls. bget (sessions L') (lk_session l) \<noteq> None" by blast
  then have "fs_locks_ok L ls0" using assms(1) by (auto simp: lease_inv_def)
  with * show "fs_locks_ok L' ls" by (auto simp: fs_locks_ok_def exclusive_filter)
next
  fix n s assume "bget (sessions L') n = Some s"
  from assms(2) [OF this] show "MIN_TTL_MS \<le> s_ttl_ms s" "s_ttl_ms s \<le> MAX_TTL_MS"
    using assms(1) by (auto simp: lease_inv_def)
next
  have "bsize (sessions L') \<le> bsize (sessions L)" by (rule bsize_mono) (use assms(2) in force)
  then show "bsize (sessions L') \<le> MAX_SESSIONS" using assms(1) by (auto simp: lease_inv_def)
next
  fix s
  have "session_total L' s \<le> session_total L s"
    unfolding session_total_def by (rule bsum_mono) (use assms(3) session_lock_count_filter in force)
  then show "session_total L' s \<le> MAX_LOCKS_PER_SESSION"
    using assms(1) unfolding lease_inv_def by (meson le_trans)
qed

lemma drop_sessions_inv:
  assumes "lease_inv L"
  shows "lease_inv (drop_sessions gone L)"
proof (cases "gone = []")
  case False
  show ?thesis
    by (rule lease_inv_shrink [OF assms])
      (use False assms in \<open>auto simp: drop_sessions_def bget_fold_bdel bget_bretain lease_inv_def fs_locks_ok_def
        split: option.splits if_splits\<close>)
qed (use assms in \<open>simp add: drop_sessions_def\<close>)

lemma forget_fs_inv: "lease_inv L \<Longrightarrow> lease_inv (forget_fs fs L)"
  by (rule lease_inv_shrink, assumption)
    (auto simp: forget_fs_def lease_inv_def fs_locks_ok_def split: if_splits
      intro: exI [of _ "\<lambda>_. True"])

lemma release_owner_inv:
  assumes "lease_inv L"
  shows "lease_inv (snd (lease_release_owner fs ino ses own L))"
proof (cases "bget (locks L) fs")
  case (Some ls)
  then have "fs_locks_ok L ls" using assms by (auto simp: lease_inv_def)
  have id: "ms = filter (\<lambda>_. True) ms" for ms :: "file_lock list" by simp
  show ?thesis
    by (rule lease_inv_shrink [OF assms])
      (use Some assms in \<open>auto simp: lease_release_owner_def Let_def lease_inv_def fs_locks_ok_def
        split: if_splits intro: id\<close>)
qed (use assms in \<open>simp add: lease_release_owner_def\<close>)

lemma relock_exclusive:
  assumes "exclusive ls" and "\<forall>l \<in> set ls. lock_ok l" and "st \<le> en" and "en \<le> u64_max"
    and "\<And>k l. kind = Some k \<Longrightarrow> l \<in> set ls \<Longrightarrow> lk_ino l = ino \<Longrightarrow> \<not> lk_conflicts l ses own k st en"
  shows "exclusive (relock ls ino ses own kind st en pid)"
proof -
  have other: "k = Read \<and> k' = Read"
    if "kind = Some k" "st \<le> b" "b \<le> en" "k' \<in> held ls ino s oo b" "(s, oo) \<noteq> (ses, own)" for k k' b s oo
  proof -
    note h = that
    obtain l where "l \<in> set ls" "lk_ino l = ino" "lk_kind l = k'" "same_owner l s oo" "covers l b"
      using h(4) by (auto simp: held_def)
    with assms(5) [OF h(1), of l] h show ?thesis
      by (cases k; cases k') (auto simp: lk_conflicts_def same_owner_def overlaps_def covers_def)
  qed
  show ?thesis
    unfolding exclusive_def held_relock [OF assms(2-4)]
    using other assms(1) unfolding exclusive_def by (auto split: if_splits)
qed

lemma concat_other_fs:
  "session_lock_count s (concat (map snd (filter (\<lambda>(f, _). f \<noteq> fs) (bitems m))))
    = bsum (session_lock_count s) (bdel fs m)"
proof -
  have "session_lock_count s (concat lss) = sum_list (map (session_lock_count s) lss)" for lss
    by (induction lss) auto
  then show ?thesis
    by (simp add: bsum_def bvals_def bitems_bdel case_prod_unfold)
qed

lemma bsum_locks_of: "bsum (session_lock_count s) (bdel fs (locks L)) + session_lock_count s (locks_of L fs)
    = session_total L s"
  using bsum_bdel [of "session_lock_count s" fs "locks L"]
  by (auto simp: session_total_def locks_of_def split: option.splits)

text \<open>A successful lock request, step by step.\<close>

lemma lease_lock_ok:
  assumes "lease_lock file fs ino ses own kind st en pid now_ms L = (Inr u, L')"
  obtains s where "st \<le> en" "bget (sessions L) ses = Some s"
    and "\<And>k l. kind = Some k \<Longrightarrow> l \<in> set (locks_of L fs) \<Longrightarrow> lk_ino l = ino \<Longrightarrow> \<not> lk_conflicts l ses own k st en"
    and "sessions L' = bput ses (s\<lparr>s_expires_ms := max (s_expires_ms s) (sat_add now_ms (s_ttl_ms s))\<rparr>) (sessions L)"
    and "locks L' = (if relock (locks_of L fs) ino ses own kind st en pid = [] then bdel fs (locks L)
        else bput fs (relock (locks_of L fs) ino ses own kind st en pid) (locks L))"
    and "session_lock_count ses (relock (locks_of L fs) ino ses own kind st en pid)
      + bsum (session_lock_count ses) (bdel fs (locks L)) \<le> MAX_LOCKS_PER_SESSION"
proof -
  obtain s where s: "bget (sessions L) ses = Some s"
    using assms by (auto simp: lease_lock_def attempt_def split: sum.splits)
  note a = assms [unfolded lease_lock_def Let_def concat_other_fs]
  have cap: "session_lock_count ses (relock (locks_of L fs) ino ses own kind st en pid)
      + bsum (session_lock_count ses) (bdel fs (locks L)) \<le> MAX_LOCKS_PER_SESSION"
    using a by (auto simp: attempt_def sat_add_def MAX_LOCKS_PER_SESSION_def u64_max_def split: sum.splits)
  have "\<not> lk_conflicts l ses own k st en"
    if "kind = Some k" "l \<in> set (locks_of L fs)" "lk_ino l = ino" for k l
    using a that by (auto simp: attempt_def conflict_def locks_on_def find_None_iff split: sum.splits)
  then show thesis
    using a s cap by (intro that [of s]) (auto simp: attempt_def split: sum.splits if_splits)
qed

lemma lease_inv_locks_of:
  assumes "lease_inv L"
  shows "exclusive (locks_of L fs)" "\<forall>l \<in> set (locks_of L fs). lock_ok l"
    "\<forall>l \<in> set (locks_of L fs). bget (sessions L) (lk_session l) \<noteq> None"
  using assms by (cases "bget (locks L) fs";
      fastforce simp: lease_inv_def fs_locks_ok_def locks_of_def exclusive_def)+

lemma lease_lock_inv:
  assumes "lease_inv L" and "lease_lock file fs ino ses own kind st en pid now_ms L = (Inr u, L')"
    and "en \<le> u64_max"
  shows "lease_inv L'"
proof -
  let ?ls = "locks_of L fs" and ?ls' = "relock (locks_of L fs) ino ses own kind st en pid"
  obtain s where s: "st \<le> en" "bget (sessions L) ses = Some s"
    and nc: "\<And>k l. kind = Some k \<Longrightarrow> l \<in> set ?ls \<Longrightarrow> lk_ino l = ino \<Longrightarrow> \<not> lk_conflicts l ses own k st en"
    and ses: "sessions L' = bput ses (s\<lparr>s_expires_ms := max (s_expires_ms s) (sat_add now_ms (s_ttl_ms s))\<rparr>) (sessions L)"
    and lks: "locks L' = (if ?ls' = [] then bdel fs (locks L) else bput fs ?ls' (locks L))"
    and cap: "session_lock_count ses ?ls' + bsum (session_lock_count ses) (bdel fs (locks L)) \<le> MAX_LOCKS_PER_SESSION"
    by (rule lease_lock_ok [OF assms(2)]) (rule that)
  note old = lease_inv_locks_of [OF assms(1), of fs]
  note new = relock_ok [OF old(2) s(1) assms(3)] relock_exclusive [OF old(1,2) s(1) assms(3) nc]
  have "fs_locks_ok L' ?ls'" if "?ls' \<noteq> []"
  proof -
    have "\<forall>l \<in> set ?ls'. bget (sessions L') (lk_session l) \<noteq> None"
    proof
      fix l assume "l \<in> set ?ls'"
      then have "lk_session l \<in> insert ses (lk_session ` set ?ls)" using new(2) by blast
      then show "bget (sessions L') (lk_session l) \<noteq> None" using old(3) by (auto simp: ses)
    qed
    with that new(1) new(4) show ?thesis by (auto simp: fs_locks_ok_def)
  qed
  moreover have "fs_locks_ok L' ms" if "bget (locks L) fs' = Some ms" for fs' ms
    using assms(1) that by (auto simp: lease_inv_def fs_locks_ok_def ses)
  moreover have "session_total L' x \<le> MAX_LOCKS_PER_SESSION" for x
  proof -
    have "session_total L' x = session_lock_count x ?ls' + bsum (session_lock_count x) (bdel fs (locks L))"
      using bsum_bdel [of "session_lock_count x" fs "locks L'"]
      by (auto simp: session_total_def lks add.commute)
    moreover have "session_total L x \<le> MAX_LOCKS_PER_SESSION" using assms(1) by (simp add: lease_inv_def)
    ultimately show ?thesis
      using cap new(3) [of x ses ino own kind pid] bsum_locks_of [of x fs L] by (cases "x = ses") auto
  qed
  ultimately show ?thesis
    using assms(1) s(2) by (auto simp: lease_inv_def lks ses bsize_bput split: if_splits)
qed

text \<open>Every input of a lock request is a \<open>u64\<close>; only the end of its range matters here.\<close>

fun lease_op_ok :: "lease_op \<Rightarrow> bool" where
  "lease_op_ok (Lock fs ino ses own kind st en pid now_ms) \<longleftrightarrow> en \<le> u64_max"
| "lease_op_ok _ \<longleftrightarrow> True"

lemma lease_open_inv: "lease_inv L \<Longrightarrow> lease_inv (snd (lease_open ses ttl now_ms cache term L))"
  by (auto simp: lease_open_def attempt_def lease_inv_def fs_locks_ok_def session_total_def bsize_bput Let_def
      split: sum.splits)

lemma lease_renew_inv: "lease_inv L \<Longrightarrow> lease_inv (snd (lease_renew ses now_ms L))"
  by (auto simp: lease_renew_def attempt_def lease_inv_def fs_locks_ok_def session_total_def bsize_bput
      split: sum.splits)

lemma leases_apply_error:
  assumes "leases_apply file term op L = (Inl e, L')"
  shows "L' = L"
  using assms by (cases op)
    (auto simp: lease_open_def lease_renew_def lease_close_def lease_expire_def lease_lock_def
      lease_release_owner_def attempt_def Let_def split: sum.splits)

lemma leases_apply_inv:
  assumes "lease_inv L" and "lease_op_ok op" and "leases_apply file term op L = (r, L')"
  shows "lease_inv L'"
proof (cases "\<exists>fs ino ses own kind st en pid now_ms. op = Lock fs ino ses own kind st en pid now_ms")
  case True
  then obtain fs ino ses own kind st en pid now_ms where op: "op = Lock fs ino ses own kind st en pid now_ms"
    by blast
  show ?thesis
  proof (cases r)
    case (Inl e)
    with leases_apply_error assms show ?thesis by blast
  next
    case (Inr u)
    then show ?thesis using lease_lock_inv [OF assms(1)] assms(2,3) op by auto
  qed
next
  case False
  have "L' = snd (leases_apply file term op L)" using assms(3) by simp
  with False assms(1) show ?thesis
    by (cases op) (auto simp: lease_open_inv lease_renew_inv lease_close_def drop_sessions_inv
        lease_expire_def release_owner_inv)
qed

text \<open>(C23) Whatever the sequence of session and lock commands, no two owners ever hold
  conflicting locks on a byte of a file, every lock belongs to an open session and spans a proper
  range, and the limits on sessions, TTLs and locks per session hold; a rejected command changes
  nothing.\<close>

theorem leases_stay_exclusive:
  assumes "lease_inv L" and "lease_op_ok op" and "leases_apply file term op L = (r, L')"
  shows "lease_inv L' \<and> (\<forall>e. r = Inl e \<longrightarrow> L' = L)
    \<and> (\<forall>fs ino b s oo s' oo' k k'. k \<in> held (locks_of L' fs) ino s oo b \<longrightarrow>
         k' \<in> held (locks_of L' fs) ino s' oo' b \<longrightarrow> (s, oo) \<noteq> (s', oo') \<longrightarrow> k = Read \<and> k' = Read)"
proof -
  have inv: "lease_inv L'" by (rule leases_apply_inv [OF assms])
  from lease_inv_locks_of(1) [OF this] show ?thesis
    using inv leases_apply_error assms(3) unfolding exclusive_def by blast
qed

definition sample_leases :: leases where
  "sample_leases = snd (leases_apply (\<lambda>_ _. Inr ()) 1 (Open ''s1'' 1000 0 False) no_leases)"

lemma sample_leases_eq:
  "sample_leases = \<lparr>sessions = bput ''s1'' \<lparr>s_ttl_ms = 1000, s_expires_ms = 1000, s_cache = False, s_term = 1\<rparr>
      bempty, locks = bempty\<rparr>"
  by (simp add: sample_leases_def no_leases_def lease_open_def check_holder_name_def MAX_SESSION_ID_BYTES_def
      MIN_TTL_MS_def MAX_TTL_MS_def MAX_SESSIONS_def u64_max_def)

lemma sample_leases_inv: "lease_inv sample_leases"
  using leases_apply_inv [OF lease_inv_empty, of "Open ''s1'' 1000 0 False" "\<lambda>_ _. Inr ()" 1 "Inr ()" sample_leases]
  by (simp add: sample_leases_def no_leases_def lease_open_def check_holder_name_def MAX_SESSION_ID_BYTES_def
      MIN_TTL_MS_def MAX_TTL_MS_def MAX_SESSIONS_def)

theorem leases_stay_exclusive_witness:
  "lease_inv (snd (leases_apply (\<lambda>_ _. Inr ()) 1 (Lock ''fs'' 2 ''s1'' 7 (Some Write) 0 9 1 5) sample_leases))"
proof -
  let ?op = "Lock ''fs'' 2 ''s1'' 7 (Some Write) 0 9 1 5"
  have "lease_op_ok ?op" by (simp add: u64_max_def)
  from leases_stay_exclusive [OF sample_leases_inv this prod.collapse [symmetric]] show ?thesis by blast
qed

lemma locks_of_after_lock:
  assumes "locks L' = (if ls = [] then bdel fs (locks L) else bput fs ls (locks L))"
  shows "locks_of L' f = (if f = fs then ls else locks_of L f)"
  using assms by (auto simp: locks_of_def)



text \<open>(C25) Expiry drops exactly the sessions whose lease ran out, with exactly their locks, so a
  session renewed at \<open>t\<close> with TTL \<open>d\<close> outlives every expiry before \<open>t + d\<close>.\<close>

theorem expire_drops_expired:
  assumes "lease_inv L" and "lease_expire now_ms L = (r, L')"
  shows "bget (sessions L') n = (case bget (sessions L) n of None \<Rightarrow> None
      | Some s \<Rightarrow> if s_expires_ms s \<le> now_ms then None else Some s)
    \<and> set (locks_of L' fs) = {l \<in> set (locks_of L fs). bget (sessions L') (lk_session l) \<noteq> None}
    \<and> (bget (sessions L) n = Some s \<longrightarrow> t + s_ttl_ms s \<le> u64_max \<longrightarrow> now_ms < t + s_ttl_ms s \<longrightarrow>
       bget (sessions (snd (lease_expire now_ms (snd (lease_renew n t L))))) n \<noteq> None)"
proof -
  have gone: "k \<in> set (expired M now_ms) \<longleftrightarrow> (\<exists>s. bget (sessions M) k = Some s \<and> s_expires_ms s \<le> now_ms)" for k M
    by (force simp: expired_def bget_Some_iff)
  have ses: "bget (sessions (snd (lease_expire now_ms M))) k = (case bget (sessions M) k of None \<Rightarrow> None
      | Some s \<Rightarrow> if s_expires_ms s \<le> now_ms then None else Some s)" for k M
    using gone [of k M] by (auto simp: lease_expire_def drop_sessions_def bget_fold_bdel split: option.splits)
  have L': "L' = snd (lease_expire now_ms L)" using assms(2) by simp
  have "set (locks_of L' fs) = {l \<in> set (locks_of L fs). bget (sessions L') (lk_session l) \<noteq> None}"
  proof -
    have "set (locks_of L' fs) = {l \<in> set (locks_of L fs). lk_session l \<notin> set (expired L now_ms)}"
      unfolding L' lease_expire_def
      by (auto simp: drop_sessions_def locks_of_def bget_bretain filter_empty_conv split: option.splits)
    moreover have "bget (sessions L') (lk_session l) \<noteq> None \<longleftrightarrow> lk_session l \<notin> set (expired L now_ms)"
      if "l \<in> set (locks_of L fs)" for l
      using lease_inv_locks_of(3) [OF assms(1), of fs] that
      unfolding L' ses gone by (auto split: option.splits)
    ultimately show ?thesis by blast
  qed
  moreover have "bget (sessions (snd (lease_expire now_ms (snd (lease_renew n t L))))) n \<noteq> None"
    if "bget (sessions L) n = Some s" "t + s_ttl_ms s \<le> u64_max" "now_ms < t + s_ttl_ms s"
    using that unfolding ses by (auto simp: lease_renew_def)
  ultimately show ?thesis unfolding L' using ses by blast
qed

theorem expire_drops_expired_witness:
  "bget (sessions (snd (lease_expire 2000 (snd (lease_renew ''s1'' 1500 sample_leases))))) ''s1'' \<noteq> None"
  using expire_drops_expired [OF sample_leases_inv prod.collapse [symmetric], of 2000 "''s1''" "''fs''"
      "\<lparr>s_ttl_ms = 1000, s_expires_ms = 1000, s_cache = False, s_term = 1\<rparr>" 1500]
  by (simp add: sample_leases_eq u64_max_def)

end
