(* ===== verification/CatalogTypes.thy ===== *)
theory CatalogTypes
  imports PosixAcl ErasureCode Leases FreeSpace Quorum
begin

text \<open>
  The data of the replicated catalog: extents, volumes and snapshots (\<open>metadata.rs\<close>), inodes,
  filesystems and filesystem snapshots (\<open>namespace.rs\<close>), and the commands that change them. A
  \<open>Tracked\<close> map and an \<open>InodeTable\<close> are the maps they stand for; which entries changed since
  the last checkpoint, and which of them are in memory, is not part of this view. Link counts,
  user and group ids are \<open>u32\<close> values held as \<^typ>\<open>nat\<close>; times are \<^typ>\<open>int\<close>.
\<close>

section \<open>Extents, volumes and snapshots\<close>

type_synonym extent_id = string
type_synonym extent_map = "(nat, extent_id) btree"

record replica_ref =
  r_node_id :: string
  r_device_index :: nat
  r_offset :: nat

record extent_ref =
  x_id :: extent_id
  x_logical_offset :: nat
  x_len :: nat
  x_checksum :: "byte list"
  x_replicas :: "replica_ref list"
  x_ec :: "ec_layout option"
  x_created_ms :: nat
  x_object :: "string option"

record volume_meta =
  v_id :: string
  v_name :: string
  v_size_bytes :: nat
  v_extents :: extent_map

record snapshot_meta =
  sn_id :: string
  sn_volume_id :: string
  sn_name :: string
  sn_size_bytes :: nat
  sn_extents :: extent_map

record extent_meta =
  em_extent :: extent_ref
  em_refs :: nat
  em_tombstoned :: bool

section \<open>Inodes and filesystems\<close>

definition ROOT_INO :: nat where "ROOT_INO = 1"
definition MAX_NAME_BYTES :: nat where "MAX_NAME_BYTES = 255"
definition MAX_SYMLINK_BYTES :: nat where "MAX_SYMLINK_BYTES = 4096"
definition MAX_XATTR_VALUE_BYTES :: nat where "MAX_XATTR_VALUE_BYTES = 65536"
definition MAX_XATTR_TOTAL_BYTES :: nat where "MAX_XATTR_TOTAL_BYTES = 262144"

definition ACL_ACCESS :: string where "ACL_ACCESS = ''system.posix_acl_access''"
definition ACL_DEFAULT :: string where "ACL_DEFAULT = ''system.posix_acl_default''"

datatype node_type =
    TFile | TDir | TSymlink | TFifo | TSocket | TCharDevice | TBlockDevice

type_synonym dir_entries = "(string, nat) btree"
type_synonym xattrs = "(string, byte list) btree"

datatype inode_kind =
    Dir (d_parent: nat) (d_entries: dir_entries)
  | File (f_size: nat) (f_extents: extent_map)
  | Symlink (s_target: string)
  | Special (p_node_type: node_type) (p_rdev: nat)

record inode =
  i_ino :: nat
  i_kind :: inode_kind
  i_mode :: "32 word"
  i_uid :: nat
  i_gid :: nat
  i_nlink :: nat
  i_atime_ns :: int
  i_mtime_ns :: int
  i_ctime_ns :: int
  i_op_id :: string
  i_xattrs :: xattrs

type_synonym inode_table = "(nat, inode) btree"

record fs_usage =
  u_file_bytes :: nat
  u_used_bytes :: nat

record fs_quota =
  q_max_bytes :: "nat option"
  q_max_inodes :: "nat option"

record replica_state =
  rs_base :: "string option"
  rs_local :: "string option"
  rs_pending :: "string option"

record fs_meta =
  fs_id :: string
  fs_name :: string
  fs_next_ino :: nat
  fs_inodes :: inode_table
  fs_source_snapshot :: "string option"
  fs_extent_bytes :: "nat option"
  fs_usage_of :: "fs_usage option"
  fs_quota_of :: "fs_quota option"
  fs_replica :: "replica_state option"

record fs_snapshot_meta =
  ss_id :: string
  ss_fs_id :: string
  ss_name :: string
  ss_created_ns :: int
  ss_tree :: fs_meta

record replica_inode =
  n_ino :: nat
  n_node_type :: node_type
  n_mode :: "32 word"
  n_uid :: nat
  n_gid :: nat
  n_nlink :: nat
  n_atime_ns :: int
  n_mtime_ns :: int
  n_ctime_ns :: int
  n_xattrs :: xattrs
  n_size :: nat
  n_holes :: "nat list"
  n_parent :: nat
  n_entries :: "(string \<times> nat option) list"
  n_target :: "string option"
  n_rdev :: nat

datatype xattr_mode = XSet | XCreate | XReplace

record set_attr =
  a_mode :: "32 word option"
  a_uid :: "nat option"
  a_gid :: "nat option"
  a_size :: "nat option"
  a_atime_ns :: "int option"
  a_mtime_ns :: "int option"

section \<open>The catalog\<close>

record catalog =
  volumes :: "(string, volume_meta) btree"
  snapshots :: "(string, snapshot_meta) btree"
  extents :: "(extent_id, extent_meta) btree"
  applied_index :: nat
  current_term :: nat
  free :: free_list
  membership_of :: "membership option"
  raft_addrs :: "(string, string) btree"
  filesystems :: "(string, fs_meta) btree"
  fs_snapshots :: "(string, fs_snapshot_meta) btree"
  leases_of :: leases

definition empty_catalog :: catalog where
  "empty_catalog = \<lparr>volumes = bempty, snapshots = bempty, extents = bempty, applied_index = 0,
     current_term = 0, free = [], membership_of = None, raft_addrs = bempty, filesystems = bempty,
     fs_snapshots = bempty, leases_of = no_leases\<rparr>"

type_synonym gc = "extent_id list"

section \<open>Commands\<close>

datatype fs_op =
    CreateFs string string int "nat option"
  | DeleteFs string
  | Mknode string nat string string node_type "string option" nat "32 word" "32 word option" nat nat int
  | Link string nat nat string int
  | Unlink string nat string int
  | Rmdir string nat string int
  | Rename string nat string nat string int
  | SetAttr string nat set_attr int
  | SetXattr string nat string "byte list" xattr_mode int
  | RemoveXattr string nat string int
  | InstallFileExtent string nat nat extent_ref nat int bool
  | InstallFileExtents string nat "extent_ref list" nat int bool
  | SnapshotFs string string string int
  | DeleteFsSnapshot string
  | CloneFs string string string
  | SetQuota string "nat option" "nat option"
  | CreateReplica string string int nat
  | ReplicaApply string "string option" string "replica_inode list" "nat list"
  | ReplicaCommit string "string option" string string string nat int
  | ReplicaPromote string bool
  | ReplicaDemote string string string

datatype meta_command =
    CreateVolume string string nat
  | InstallExtent string nat extent_ref
  | InstallExtents string "extent_ref list"
  | CreateSnapshot string string string
  | DeleteSnapshot string
  | DeleteVolume string
  | ResizeVolume string nat
  | CloneSnapshot string string string "nat option"
  | MarkExtentReclaimed extent_id
  | ReplaceReplica extent_id replica_ref replica_ref
  | TierExtent extent_id string "replica_ref list"
  | ChangeMembership membership "(string, string) btree"
  | FsCommand fs_op
  | LeaseCommand lease_op
  | Noop

end
