(* ===== verification/TreeSpec.thy ===== *)
theory TreeSpec
  imports CatalogTypes
begin

text \<open>
  The abstract name space: directories with their parents, link counts, and directory entries.
  A tree is well formed when the entries form a tree below the root, every link count is the
  number of names (for a directory, two plus its subdirectories), and nothing is unreachable.
  The steps of this theory are what the operations of \<open>namespace.rs\<close> do to the name space.
\<close>

record tree =
  t_dir :: "nat \<Rightarrow> nat option"
  t_links :: "nat \<Rightarrow> nat option"
  t_kid :: "nat \<Rightarrow> string \<Rightarrow> nat option"

section \<open>Well-formed trees\<close>

definition t_names :: "tree \<Rightarrow> nat \<Rightarrow> (nat \<times> string) set" where
  "t_names T k = {(d, n). t_kid T d n = Some k}"

definition t_subdirs :: "tree \<Rightarrow> nat \<Rightarrow> string set" where
  "t_subdirs T d = {n. case t_kid T d n of None \<Rightarrow> False | Some k \<Rightarrow> t_dir T k \<noteq> None}"

text \<open>A directory from which the parent pointers lead to the root.\<close>

inductive rooted :: "(nat \<Rightarrow> nat option) \<Rightarrow> nat \<Rightarrow> bool" for P where
  root: "rooted P ROOT_INO"
| up: "P k = Some p \<Longrightarrow> rooted P p \<Longrightarrow> rooted P k"

inductive within :: "(nat \<Rightarrow> nat option) \<Rightarrow> nat \<Rightarrow> nat \<Rightarrow> bool" for P a where
  here: "within P a a"
| above: "k \<noteq> ROOT_INO \<Longrightarrow> P k = Some p \<Longrightarrow> within P a p \<Longrightarrow> within P a k"

definition t_finite :: "tree \<Rightarrow> bool" where
  "t_finite T \<longleftrightarrow> finite {(d, n). t_kid T d n \<noteq> None}"

definition tree_ok :: "tree \<Rightarrow> bool" where
  "tree_ok T \<longleftrightarrow>
     t_dir T ROOT_INO = Some ROOT_INO
   \<and> t_finite T
   \<and> (\<forall>k. t_dir T k \<noteq> None \<longrightarrow> t_links T k \<noteq> None \<and> rooted (t_dir T) k)
   \<and> (\<forall>d n k. t_kid T d n = Some k \<longrightarrow> t_dir T d \<noteq> None \<and> t_links T k \<noteq> None \<and> k \<noteq> ROOT_INO)
   \<and> (\<forall>k p. t_dir T k = Some p \<longrightarrow> k \<noteq> ROOT_INO \<longrightarrow> (\<exists>n. t_names T k = {(p, n)}))
   \<and> (\<forall>k l. t_links T k = Some l \<longrightarrow> t_dir T k = None \<longrightarrow> l = card (t_names T k) \<and> l \<noteq> 0)
   \<and> (\<forall>k l. t_links T k = Some l \<longrightarrow> t_dir T k \<noteq> None \<longrightarrow> l = 2 + card (t_subdirs T k))"

lemma tree_okD:
  assumes "tree_ok T"
  shows tree_root: "t_dir T ROOT_INO = Some ROOT_INO"
    and tree_finite: "t_finite T"
    and tree_dir: "t_dir T k \<noteq> None \<Longrightarrow> t_links T k \<noteq> None" "t_dir T k \<noteq> None \<Longrightarrow> rooted (t_dir T) k"
    and tree_kid: "t_kid T d n = Some k \<Longrightarrow> t_dir T d \<noteq> None" "t_kid T d n = Some k \<Longrightarrow> t_links T k \<noteq> None"
      "t_kid T d n = Some k \<Longrightarrow> k \<noteq> ROOT_INO"
    and tree_parent: "t_dir T k = Some p \<Longrightarrow> k \<noteq> ROOT_INO \<Longrightarrow> \<exists>n. t_names T k = {(p, n)}"
    and tree_file: "t_links T k = Some l \<Longrightarrow> t_dir T k = None \<Longrightarrow> l = card (t_names T k)"
      "t_links T k = Some l \<Longrightarrow> t_dir T k = None \<Longrightarrow> l \<noteq> 0"
    and tree_subdirs: "t_links T k = Some l \<Longrightarrow> t_dir T k \<noteq> None \<Longrightarrow> l = 2 + card (t_subdirs T k)"
  using assms unfolding tree_ok_def by (blast+)

lemma finite_names: "tree_ok T \<Longrightarrow> finite (t_names T k)"
  by (rule finite_subset [OF _ tree_finite [unfolded t_finite_def]]) (auto simp: t_names_def)

lemma finite_subdirs:
  assumes "tree_ok T"
  shows "finite (t_subdirs T d)"
proof -
  have "t_subdirs T d \<subseteq> snd ` {(d, n). t_kid T d n \<noteq> None}" by (force simp: t_subdirs_def split: option.splits)
  then show ?thesis using tree_finite [OF assms] unfolding t_finite_def by (meson finite_imageI finite_subset)
qed

lemma mem_names: "(d, n) \<in> t_names T k \<longleftrightarrow> t_kid T d n = Some k"
  by (simp add: t_names_def)

text \<open>A directory is named once, in its parent.\<close>

lemma dir_named_in_parent:
  assumes "tree_ok T" and "t_kid T d n = Some k" and "t_dir T k = Some p"
  shows "t_names T k = {(d, n)}" and "p = d"
proof -
  have "k \<noteq> ROOT_INO" using tree_kid(3) [OF assms(1,2)] .
  then obtain m where "t_names T k = {(p, m)}" using tree_parent [OF assms(1,3)] by blast
  moreover have "(d, n) \<in> t_names T k" using assms(2) by (simp add: mem_names)
  ultimately show "t_names T k = {(d, n)}" "p = d" by auto
qed

section \<open>Following parents\<close>

lemma rooted_mono: "rooted P k \<Longrightarrow> (\<And>x p. P x = Some p \<Longrightarrow> Q x = Some p) \<Longrightarrow> rooted Q k"
  by (induction rule: rooted.induct) (auto intro: rooted.intros)

text \<open>The chain of parents of a directory that is not inside \<open>a\<close> does not change with the parent of \<open>a\<close>.\<close>

lemma rooted_outside:
  assumes "rooted P k" and "\<not> within P a k" and "\<And>x. x \<noteq> a \<Longrightarrow> Q x = P x"
  shows "rooted Q k"
  using assms(1,2)
proof (induction rule: rooted.induct)
  case root
  show ?case by (rule rooted.root)
next
  case (up k p)
  show ?case
  proof (cases "k = ROOT_INO")
    case True
    then show ?thesis by (simp add: rooted.root)
  next
    case False
    then have "\<not> within P a p" "k \<noteq> a" using up.prems up.hyps(1) within.intros by blast+
    with up show ?thesis using assms(3) by (auto intro: rooted.up)
  qed
qed

lemma rooted_moved:
  assumes "rooted P k" and "rooted Q a" and "\<And>x. x \<noteq> a \<Longrightarrow> Q x = P x"
  shows "rooted Q k"
  using assms(1)
proof (induction rule: rooted.induct)
  case (up k p)
  then show ?case using assms(2,3) by (cases "k = a") (auto intro: rooted.up)
qed (rule rooted.root)

lemma rooted_without:
  assumes "rooted P k" and "k \<noteq> a" and "\<And>x p. P x = Some p \<Longrightarrow> x \<noteq> a \<Longrightarrow> x \<noteq> ROOT_INO \<Longrightarrow> p \<noteq> a"
  shows "rooted (P(a := None)) k"
  using assms(1,2)
proof (induction rule: rooted.induct)
  case (up k p)
  show ?case
  proof (cases "k = ROOT_INO")
    case True
    then show ?thesis by (simp add: rooted.root)
  next
    case False
    then have "p \<noteq> a" using assms(3) up.hyps(1) up.prems by blast
    then show ?thesis using up by (auto intro: rooted.up)
  qed
qed (rule rooted.root)

section \<open>Steps\<close>

definition t_put :: "nat \<Rightarrow> string \<Rightarrow> nat option \<Rightarrow> tree \<Rightarrow> tree" where
  "t_put d n x T = T\<lparr>t_kid := (t_kid T)(d := (t_kid T d)(n := x))\<rparr>"

definition t_count :: "nat \<Rightarrow> nat \<Rightarrow> tree \<Rightarrow> tree" where
  "t_count k l T = T\<lparr>t_links := (t_links T)(k := Some l)\<rparr>"

definition t_remove :: "nat \<Rightarrow> tree \<Rightarrow> tree" where
  "t_remove k T = T\<lparr>t_dir := (t_dir T)(k := None), t_links := (t_links T)(k := None),
     t_kid := (t_kid T)(k := (\<lambda>_. None))\<rparr>"

definition t_parent :: "nat \<Rightarrow> nat \<Rightarrow> tree \<Rightarrow> tree" where
  "t_parent k p T = T\<lparr>t_dir := (t_dir T)(k := Some p)\<rparr>"

lemma t_put_simps [simp]:
  "t_dir (t_put d n x T) = t_dir T" "t_links (t_put d n x T) = t_links T"
  "t_kid (t_put d n x T) a b = (if a = d \<and> b = n then x else t_kid T a b)"
  by (simp_all add: t_put_def)

lemma t_count_simps [simp]:
  "t_dir (t_count k l T) = t_dir T" "t_links (t_count k l T) a = (if a = k then Some l else t_links T a)"
  "t_kid (t_count k l T) = t_kid T" "t_names (t_count k l T) = t_names T" "t_subdirs (t_count k l T) = t_subdirs T"
  by (auto simp: t_count_def t_names_def t_subdirs_def fun_eq_iff split: option.splits)

lemma t_remove_simps [simp]:
  "t_dir (t_remove k T) = (t_dir T)(k := None)" "t_links (t_remove k T) a = (if a = k then None else t_links T a)"
  "t_kid (t_remove k T) a b = (if a = k then None else t_kid T a b)"
  by (simp_all add: t_remove_def)

lemma t_parent_simps [simp]:
  "t_dir (t_parent k p T) = (t_dir T)(k := Some p)" "t_links (t_parent k p T) = t_links T"
  "t_kid (t_parent k p T) = t_kid T" "t_names (t_parent k p T) = t_names T"
  by (simp_all add: t_parent_def t_names_def fun_eq_iff)

lemma names_put:
  "t_kid T d n = None \<Longrightarrow> t_names (t_put d n (Some k) T) x = (if x = k then insert (d, n) (t_names T x) else t_names T x)"
  "t_names (t_put d n None T) x = t_names T x - {(d, n)}"
  by (auto simp: t_names_def split: if_splits)

lemma subdirs_put:
  "t_kid T d n = None \<Longrightarrow> t_subdirs (t_put d n (Some k) T) x =
     (if x = d \<and> t_dir T k \<noteq> None then insert n (t_subdirs T x) else t_subdirs T x)"
  "t_subdirs (t_put d n None T) x = (if x = d then t_subdirs T x - {n} else t_subdirs T x)"
  by (auto simp: t_subdirs_def split: if_splits option.splits)

lemma t_finite_simps [simp]: "t_finite (t_count k l T) = t_finite T" "t_finite (t_parent k p T) = t_finite T"
  by (simp_all add: t_finite_def)

lemma t_finite_put [simp]: "t_finite T \<Longrightarrow> t_finite (t_put d n x T)"
  unfolding t_finite_def
  by (rule finite_subset [of _ "insert (d, n) {(d, n). t_kid T d n \<noteq> None}"]) auto

lemma t_finite_remove [simp]:
  assumes "t_finite T"
  shows "t_finite (t_remove k T)"
  unfolding t_finite_def by (rule finite_subset [OF _ assms [unfolded t_finite_def]]) auto

text \<open>A new name for something that is not a directory.\<close>

lemma add_name_ok:
  assumes ok: "tree_ok T" and d: "t_dir T d \<noteq> None" and free: "t_kid T d n = None"
    and k: "t_dir T k = None" and l: "l = card (t_names T k)"
  shows "tree_ok (t_count k (l + 1) (t_put d n (Some k) T))"
proof -
  let ?T = "t_count k (l + 1) (t_put d n (Some k) T)"
  have root: "k \<noteq> ROOT_INO" using k tree_root [OF ok] by auto
  have names: "t_names ?T x = (if x = k then insert (d, n) (t_names T x) else t_names T x)" for x
    using names_put(1) [OF free] by simp
  have subs: "t_subdirs ?T x = t_subdirs T x" for x
    using subdirs_put(1) [OF free, of k x] k by simp
  have "(d, n) \<notin> t_names T k" using free by (simp add: mem_names)
  then have "card (t_names ?T k) = l + 1" unfolding names using l finite_names [OF ok] by simp
  then show ?thesis
    unfolding tree_ok_def names subs
    using tree_okD [OF ok] d k root
    by (auto split: if_splits)
qed

text \<open>A new directory.\<close>

lemma add_dir_ok:
  assumes ok: "tree_ok T" and d: "t_dir T d \<noteq> None" and free: "t_kid T d n = None"
    and k: "t_links T k = None" and l: "t_links T d = Some l"
  shows "tree_ok (t_count d (l + 1) (t_put d n (Some k) (t_count k 2 (t_parent k d T))))"
proof -
  let ?T = "t_count d (l + 1) (t_put d n (Some k) (t_count k 2 (t_parent k d T)))"
  have "t_dir T k = None" using tree_dir(1) [OF ok, of k] k by (cases "t_dir T k") auto
  then have new: "t_dir T k = None" "k \<noteq> d" "k \<noteq> ROOT_INO" "t_kid T k m = None" "t_kid T x m \<noteq> Some k" for x m
    using k d tree_root [OF ok] tree_kid(1) [OF ok, of k m] tree_kid(2) [OF ok, of x m k]
    by (cases "t_kid T k m"; auto)+
  have names: "t_names ?T x = (if x = k then {(d, n)} else t_names T x)" for x
    using new(5) free by (auto simp: t_names_def split: if_splits)
  have subs: "t_subdirs ?T x = (if x = d then insert n (t_subdirs T x) else if x = k then {} else t_subdirs T x)" for x
    using new free by (auto simp: t_subdirs_def split: if_splits option.splits)
  have "n \<notin> t_subdirs T d" using free by (simp add: t_subdirs_def)
  then have card: "card (insert n (t_subdirs T d)) = card (t_subdirs T d) + 1" using finite_subdirs [OF ok] by simp
  have "rooted ((t_dir T)(k := Some d)) x" if "t_dir T x \<noteq> None" for x
    using tree_dir(2) [OF ok that] by (rule rooted_mono) (use new(1) in auto)
  then have "rooted ((t_dir T)(k := Some d)) x" if "t_dir T x \<noteq> None \<or> x = k" for x
    using that d by (auto intro: rooted.up)
  then show ?thesis
    unfolding tree_ok_def names subs
    using tree_okD [OF ok] d l new card
    by (auto split: if_splits)
qed

text \<open>One name less; the last name takes the inode along.\<close>

lemma remove_name_ok:
  assumes ok: "tree_ok T" and kid: "t_kid T d n = Some k" and k: "t_dir T k = None" and l: "t_links T k = Some l"
  shows "tree_ok (if l - 1 = 0 then t_remove k (t_put d n None T) else t_count k (l - 1) (t_put d n None T))"
proof -
  have root: "k \<noteq> ROOT_INO" using k tree_root [OF ok] by auto
  have names: "t_names (t_put d n None T) x = (if x = k then t_names T x - {(d, n)} else t_names T x)" for x
    using kid by (auto simp: t_names_def split: if_splits)
  have subs: "t_subdirs (t_put d n None T) x = t_subdirs T x" for x
    using kid k by (auto simp: t_subdirs_def split: if_splits option.splits)
  have "(d, n) \<in> t_names T k" using kid by (simp add: mem_names)
  then have card: "card (t_names T k - {(d, n)}) = l - 1"
    using tree_file(1) [OF ok l k] finite_names [OF ok] by simp
  show ?thesis
  proof (cases "l - 1 = 0")
    case False
    then show ?thesis
      unfolding tree_ok_def if_not_P [OF False] t_count_simps names subs
      using tree_okD [OF ok] k root card
      by (auto split: if_splits)
  next
    case True
    have "t_names T k - {(d, n)} = {}"
      using card True finite_names [OF ok, of k] by (metis card_0_eq finite_Diff)
    then have gone: "t_names T k = {(d, n)}" using \<open>(d, n) \<in> t_names T k\<close> by blast
    have kids: "t_kid T k m = None" "t_kid T a m = Some k \<longleftrightarrow> (a = d \<and> m = n)" for a m
    proof -
      show "t_kid T k m = None" using tree_kid(1) [OF ok, of k m] k by (cases "t_kid T k m") auto
      show "t_kid T a m = Some k \<longleftrightarrow> (a = d \<and> m = n)" using gone by (auto simp: t_names_def)
    qed
    let ?T = "t_remove k (t_put d n None T)"
    have names': "t_names ?T x = (if x = k then {} else t_names T x)" for x
      using kids by (auto simp: t_names_def kid split: if_splits)
    have subs': "t_subdirs ?T x = t_subdirs T x" for x
      using kids k by (auto simp: t_subdirs_def kid split: if_splits option.splits)
    have dir: "(t_dir T)(k := None) = t_dir T" using k by (simp add: fun_upd_idem)
    show ?thesis
      unfolding tree_ok_def if_P [OF True] names' subs'
      using tree_okD [OF ok] k root kids kid
      by (auto simp: dir split: if_splits)
  qed
qed

text \<open>Removing an empty directory.\<close>

lemma remove_dir_ok:
  assumes ok: "tree_ok T" and kid: "t_kid T d n = Some k" and k: "t_dir T k \<noteq> None"
    and empty: "\<And>m. t_kid T k m = None" and l: "t_links T d = Some l"
  shows "tree_ok (t_remove k (t_count d (l - 1) (t_put d n None T)))"
proof -
  let ?T = "t_remove k (t_count d (l - 1) (t_put d n None T))"
  obtain p where p: "t_dir T k = Some p" using k by blast
  have root: "k \<noteq> ROOT_INO" using tree_kid(3) [OF ok kid] .
  have gone: "t_names T k = {(d, n)}" using dir_named_in_parent [OF ok kid p] by blast
  then have kids: "t_kid T a m = Some k \<longleftrightarrow> (a = d \<and> m = n)" for a m by (auto simp: t_names_def)
  have kd: "k \<noteq> d" using kid empty by auto
  have names: "t_names ?T x = (if x = k then {} else t_names T x)" for x
    using kids empty by (auto simp: t_names_def kid split: if_splits)
  have subs: "t_subdirs ?T x = (if x = d then t_subdirs T x - {n} else t_subdirs T x)" for x
    using kids empty by (auto simp: t_subdirs_def kid split: if_splits option.splits)
  have "n \<in> t_subdirs T d" using kid k by (auto simp: t_subdirs_def)
  then have card: "card (t_subdirs T d - {n}) = card (t_subdirs T d) - 1" "card (t_subdirs T d) \<noteq> 0"
    using finite_subdirs [OF ok, of d] by auto
  have up: "q \<noteq> k" if "t_dir T x = Some q" "x \<noteq> ROOT_INO" for x q
  proof -
    note h = that
    obtain m where "t_names T x = {(q, m)}" using tree_parent [OF ok h] by blast
    then have "t_kid T q m = Some x" by (auto simp: t_names_def)
    then show ?thesis using empty by auto
  qed
  have "rooted ((t_dir T)(k := None)) x" if "t_dir T x \<noteq> None" "x \<noteq> k" for x
    using tree_dir(2) [OF ok that(1)] that(2) by (rule rooted_without) (use up in blast)
  moreover have "l - 1 = 2 + card (t_subdirs T d - {n})"
    using tree_subdirs [OF ok l tree_kid(1) [OF ok kid]] card by simp
  ultimately show ?thesis
    unfolding tree_ok_def names subs
    using tree_okD [OF ok] kids kd empty tree_kid(1) [OF ok kid]
    by (auto simp: root root [symmetric] split: if_splits)
qed

text \<open>Moving a name. What is not a directory only changes one of its names.\<close>

lemma t_count_same: "t_links T k = Some l \<Longrightarrow> t_count k l T = T"
  by (simp add: t_count_def fun_upd_idem)

lemma move_name_ok:
  assumes ok: "tree_ok T" and kid: "t_kid T d n = Some k" and k: "t_dir T k = None"
    and d': "t_dir T d' \<noteq> None" and free: "t_kid T d' n' = None"
  shows "tree_ok (t_put d' n' (Some k) (t_put d n None T))"
proof -
  let ?T = "t_put d' n' (Some k) (t_put d n None T)"
  have neq: "(d', n') \<noteq> (d, n)" using kid free by auto
  have names: "t_names ?T x = (if x = k then insert (d', n') (t_names T x - {(d, n)}) else t_names T x)" for x
    using kid free neq by (auto simp: t_names_def split: if_splits)
  have subs: "t_subdirs ?T x = t_subdirs T x" for x
    using kid k free neq by (auto simp: t_subdirs_def split: if_splits option.splits)
  have "(d, n) \<in> t_names T k" "(d', n') \<notin> t_names T k" using kid free by (simp_all add: mem_names)
  then have card: "card (insert (d', n') (t_names T k - {(d, n)})) = card (t_names T k)"
    using finite_names [OF ok, of k] card_gt_0_iff [of "t_names T k"] by auto
  show ?thesis
    unfolding tree_ok_def names subs
    using tree_okD [OF ok] card k d' tree_kid(2,3) [OF ok kid] by (auto split: if_splits)
qed

lemma move_dir_parents:
  assumes ok: "tree_ok T" and kid: "t_kid T d n = Some k" and k: "t_dir T k \<noteq> None"
    and d': "t_dir T d' \<noteq> None" and out: "\<not> within (t_dir T) k d'" and x: "t_dir T x \<noteq> None \<or> x = k"
  shows "rooted ((t_dir T)(k := Some d')) x"
proof -
  have "rooted ((t_dir T)(k := Some d')) d'"
    by (rule rooted_outside [OF tree_dir(2) [OF ok d'] out]) simp
  then have "rooted ((t_dir T)(k := Some d')) k" by (auto intro: rooted.up)
  moreover have "rooted (t_dir T) x" using tree_dir(2) [OF ok] x k by blast
  ultimately show ?thesis by (auto intro: rooted_moved)
qed

lemma only_name:
  assumes "tree_ok T" and "t_kid T d n = Some k" and "t_dir T k \<noteq> None" and "a \<noteq> d \<or> m \<noteq> n"
  shows "t_kid T a m \<noteq> Some k"
proof -
  obtain p where "t_dir T k = Some p" using assms(3) by blast
  from dir_named_in_parent(1) [OF assms(1,2) this] show ?thesis using assms(4) by (auto simp: t_names_def)
qed

lemma subdirs_card:
  assumes "tree_ok T" and "t_kid T d n = Some k" and "t_dir T k \<noteq> None"
  shows "card (t_subdirs T d - {n}) = card (t_subdirs T d) - 1" and "0 < card (t_subdirs T d)"
proof -
  have "n \<in> t_subdirs T d" using assms(2,3) by (simp add: t_subdirs_def)
  then show "card (t_subdirs T d - {n}) = card (t_subdirs T d) - 1" "0 < card (t_subdirs T d)"
    using finite_subdirs [OF assms(1), of d] card_gt_0_iff [of "t_subdirs T d"] by auto
qed

lemma move_dir_within_ok:
  assumes ok: "tree_ok T" and kid: "t_kid T d n = Some k" and k: "t_dir T k \<noteq> None"
    and free: "t_kid T d n' = None" and out: "\<not> within (t_dir T) k d"
  shows "tree_ok (t_parent k d (t_put d n' (Some k) (t_put d n None T)))"
proof -
  let ?T = "t_parent k d (t_put d n' (Some k) (t_put d n None T))"
  have d: "t_dir T d \<noteq> None" using tree_kid(1) [OF ok kid] .
  have neq: "n' \<noteq> n" using kid free by auto
  note one = only_name [OF ok kid k]
  have names: "t_names ?T x = (if x = k then {(d, n')} else t_names T x)" for x
    using one free neq by (auto simp: t_names_def kid split: if_splits)
  have subs: "t_subdirs ?T x = (if x = d then insert n' (t_subdirs T x - {n}) else t_subdirs T x)" for x
    using one free neq k by (auto simp: t_subdirs_def kid split: if_splits option.splits)
  have "n' \<notin> t_subdirs T d - {n}" using free by (simp add: t_subdirs_def)
  then have card: "card (insert n' (t_subdirs T d - {n})) = card (t_subdirs T d)"
    using subdirs_card [OF ok kid k] finite_subdirs [OF ok, of d] by simp
  show ?thesis
    unfolding tree_ok_def names subs
    using tree_okD [OF ok] card d k tree_kid(3) [OF ok kid] move_dir_parents [OF ok kid k d out]
    by (auto split: if_splits)
qed

lemma move_dir_across_ok:
  assumes ok: "tree_ok T" and kid: "t_kid T d n = Some k" and k: "t_dir T k \<noteq> None"
    and d': "t_dir T d' \<noteq> None" and free: "t_kid T d' n' = None" and out: "\<not> within (t_dir T) k d'"
    and l: "t_links T d = Some l" and l': "t_links T d' = Some l'" and neq: "d \<noteq> d'"
  shows "tree_ok (t_parent k d' (t_count d' (l' + 1) (t_count d (l - 1) (t_put d' n' (Some k) (t_put d n None T)))))"
proof -
  let ?T = "t_parent k d' (t_count d' (l' + 1) (t_count d (l - 1) (t_put d' n' (Some k) (t_put d n None T))))"
  have d: "t_dir T d \<noteq> None" using tree_kid(1) [OF ok kid] .
  note one = only_name [OF ok kid k]
  have names: "t_names ?T x = (if x = k then {(d', n')} else t_names T x)" for x
    using one free neq by (auto simp: t_names_def kid split: if_splits)
  have subs: "t_subdirs ?T x = (if x = d' then insert n' (t_subdirs T x) else if x = d then t_subdirs T x - {n}
      else t_subdirs T x)" for x
    using one free neq k by (auto simp: t_subdirs_def kid split: if_splits option.splits)
  have "n' \<notin> t_subdirs T d'" using free by (simp add: t_subdirs_def)
  then have card: "l' + 1 = 2 + card (insert n' (t_subdirs T d'))" "l - 1 = 2 + card (t_subdirs T d - {n})"
    using subdirs_card [OF ok kid k] finite_subdirs [OF ok, of d'] tree_subdirs [OF ok l d] tree_subdirs [OF ok l' d']
    by simp_all
  show ?thesis
    unfolding tree_ok_def names subs
    using tree_okD [OF ok] card d d' k l l' neq tree_kid(3) [OF ok kid] move_dir_parents [OF ok kid k d' out]
    by (auto split: if_splits)
qed

section \<open>Paths\<close>

fun t_walk :: "tree \<Rightarrow> nat \<Rightarrow> string list \<Rightarrow> nat option" where
  "t_walk T k [] = Some k"
| "t_walk T k (n # ns) = Option.bind (t_kid T k n) (\<lambda>j. t_walk T j ns)"

lemma t_walk_snoc: "t_walk T k (ns @ [n]) = Option.bind (t_walk T k ns) (\<lambda>j. t_kid T j n)"
  by (induction ns arbitrary: k) (auto split: Option.bind_splits)

text \<open>Every inode of a well-formed tree has a path from the root.\<close>

lemma every_inode_named:
  assumes ok: "tree_ok T" and k: "t_links T k \<noteq> None"
  shows "\<exists>ns. t_walk T ROOT_INO ns = Some k"
proof -
  have dirs: "\<exists>ns. t_walk T ROOT_INO ns = Some d" if "rooted (t_dir T) d" for d
    using that
  proof (induction rule: rooted.induct)
    case root
    show ?case by (rule exI [of _ "[]"]) simp
  next
    case (up d p)
    show ?case
    proof (cases "d = ROOT_INO")
      case True
      then show ?thesis by (intro exI [of _ "[]"]) simp
    next
      case False
      then obtain n where "(p, n) \<in> t_names T d" using tree_parent [OF ok up.hyps(1)] by auto
      moreover obtain ns where "t_walk T ROOT_INO ns = Some p" using up.IH by blast
      ultimately show ?thesis by (intro exI [of _ "ns @ [n]"]) (simp add: t_walk_snoc mem_names)
    qed
  qed
  show ?thesis
  proof (cases "t_dir T k")
    case (Some p)
    then show ?thesis using dirs tree_dir(2) [OF ok] by blast
  next
    case None
    obtain l where l: "t_links T k = Some l" using k by blast
    then have "t_names T k \<noteq> {}" using tree_file [OF ok l None] by auto
    then obtain d n where kid: "t_kid T d n = Some k" by (auto simp: t_names_def)
    then obtain ns where "t_walk T ROOT_INO ns = Some d" using dirs tree_dir(2) [OF ok tree_kid(1) [OF ok kid]] by blast
    then show ?thesis using kid by (intro exI [of _ "ns @ [n]"]) (simp add: t_walk_snoc)
  qed
qed

end
