(* ===== verification/ExtentRefs.thy ===== *)
theory ExtentRefs
  imports CatalogTypes
begin

text \<open>
  Extents and their reference counts (\<open>ExtentRef::check\<close>, \<open>add_extent_ref\<close>, \<open>dec_ref\<close>,
  \<open>written_end\<close> of \<open>metadata.rs\<close>, \<open>extent_len\<close> of \<open>namespace.rs\<close>). Every map of the catalog
  that names extents contributes to one multiset of references; the lemmas here say how each
  helper moves the counts relative to any multiset, so that handlers compose.
\<close>

section \<open>Definitions\<close>

definition stored_len :: "extent_ref \<Rightarrow> nat" where
  "stored_len x = (case x_ec x of None \<Rightarrow> x_len x | Some l \<Rightarrow> ly_shard_len l)"

definition extent_check :: "extent_ref \<Rightarrow> unit meta_result" where
  "extent_check x =
     (if x_object x \<noteq> None \<and> (x_replicas x \<noteq> [] \<or> x_ec x \<noteq> None) then Inl Invalid
      else case x_ec x of
        None \<Rightarrow> Inr ()
      | Some ec \<Rightarrow> rbind (ly_check ec (x_len x) (length (x_replicas x))) (\<lambda>_.
          let nodes = sort (map r_node_id (x_replicas x))
          in if list_ex (\<lambda>(a, b). a = b) (zip nodes (tl nodes)) then Inl Invalid else Inr ()))"

fun extents_check :: "extent_ref list \<Rightarrow> unit meta_result" where
  "extents_check [] = Inr ()"
| "extents_check (x # xs) = rbind (extent_check x) (\<lambda>_. extents_check xs)"

definition extent_places :: "extent_ref \<Rightarrow> place list" where
  "extent_places x = map (\<lambda>r. (r_node_id r, r_device_index r, r_offset r)) (x_replicas x)"

definition extent_len :: "catalog \<Rightarrow> extent_id \<Rightarrow> nat" where
  "extent_len c e = (case bget (extents c) e of None \<Rightarrow> 0 | Some m \<Rightarrow> x_len (em_extent m))"

definition written_end :: "catalog \<Rightarrow> extent_map \<Rightarrow> nat" where
  "written_end c xs = fold max
     (map (\<lambda>m. wrap_add (x_logical_offset (em_extent m)) (x_len (em_extent m)))
       (List.map_filter (bget (extents c)) (bvals xs))) 0"

definition add_extent_ref :: "extent_ref \<Rightarrow> catalog \<Rightarrow> catalog" where
  "add_extent_ref x c =
     (let c1 = (if bget (extents c) (x_id x) = None
                then c\<lparr>free := reserve_all fl_reserve (free c) (extent_places x) (stored_len x)\<rparr> else c)
      in case bget (extents c1) (x_id x) of
          Some m \<Rightarrow> c1\<lparr>extents := bput (x_id x) (m\<lparr>em_refs := em_refs m + 1\<rparr>) (extents c1)\<rparr>
        | None \<Rightarrow> c1\<lparr>extents := bput (x_id x) \<lparr>em_extent = x, em_refs = 1, em_tombstoned = False\<rparr> (extents c1)\<rparr>)"

definition dec_ref :: "extent_id \<Rightarrow> gc \<Rightarrow> catalog \<Rightarrow> (gc, catalog) change" where
  "dec_ref e gc c =
     attempt c (ok_or (bget (extents c) e) NotFound) (\<lambda>m.
     attempt c (guard (em_refs m \<noteq> 0) Invalid) (\<lambda>_.
       (Inr (if em_refs m - 1 = 0 then gc @ [e] else gc),
        c\<lparr>extents := bput e (m\<lparr>em_refs := em_refs m - 1\<rparr>) (extents c)\<rparr>)))"

fun dec_refs :: "extent_id list \<Rightarrow> gc \<Rightarrow> catalog \<Rightarrow> (gc, catalog) change" where
  "dec_refs [] gc c = (Inr gc, c)"
| "dec_refs (e # es) gc c = andthen (dec_ref e gc c) (\<lambda>gc c. dec_refs es gc c)"

definition inc_ref :: "extent_id \<Rightarrow> catalog \<Rightarrow> (unit, catalog) change" where
  "inc_ref e c =
     attempt c (ok_or (bget (extents c) e) NotFound) (\<lambda>m.
       (Inr (), c\<lparr>extents := bput e (m\<lparr>em_refs := em_refs m + 1\<rparr>) (extents c)\<rparr>))"

fun inc_refs :: "extent_id list \<Rightarrow> catalog \<Rightarrow> (unit, catalog) change" where
  "inc_refs [] c = (Inr (), c)"
| "inc_refs (e # es) c = andthen (inc_ref e c) (\<lambda>_ c. inc_refs es c)"

section \<open>Counts against a multiset of references\<close>

type_synonym extent_table = "(extent_id, extent_meta) btree"

definition ext_match :: "extent_table \<Rightarrow> extent_id multiset \<Rightarrow> bool" where
  "ext_match X R \<longleftrightarrow> (\<forall>e. bopt em_refs (bget X e) = count R e)"

text \<open>Two tables that differ in counts only.\<close>

definition same_extents :: "extent_table \<Rightarrow> extent_table \<Rightarrow> bool" where
  "same_extents X Y \<longleftrightarrow> (\<forall>e. map_option em_extent (bget X e) = map_option em_extent (bget Y e))"

lemma same_extents_refl [simp]: "same_extents X X"
  by (simp add: same_extents_def)

lemma same_extents_trans: "same_extents X Y \<Longrightarrow> same_extents Y Z \<Longrightarrow> same_extents X Z"
  by (simp add: same_extents_def)

lemma same_extents_bput:
  "bget X e = Some m \<Longrightarrow> em_extent m' = em_extent m \<Longrightarrow> same_extents X (bput e m' X)"
  by (auto simp: same_extents_def)

lemma same_extents_len:
  "same_extents (extents c) (extents c') \<Longrightarrow> extent_len c e = extent_len c' e"
proof -
  assume "same_extents (extents c) (extents c')"
  then have "map_option em_extent (bget (extents c) e) = map_option em_extent (bget (extents c') e)"
    by (simp add: same_extents_def)
  then show ?thesis by (auto simp: extent_len_def split: option.splits)
qed

lemma ext_matchD:
  assumes "ext_match X R"
  shows "bget X e = Some m \<Longrightarrow> em_refs m = count R e"
    and "bget X e = None \<Longrightarrow> count R e = 0"
    and "e \<in># R \<Longrightarrow> \<exists>m. bget X e = Some m"
proof -
  have *: "bopt em_refs (bget X e) = count R e" using assms by (simp add: ext_match_def)
  show "bget X e = Some m \<Longrightarrow> em_refs m = count R e" "bget X e = None \<Longrightarrow> count R e = 0" using * by auto
  show "e \<in># R \<Longrightarrow> \<exists>m. bget X e = Some m" using * by (cases "bget X e") (auto simp flip: count_greater_zero_iff)
qed

lemma ext_match_bput:
  assumes "ext_match X R" and "em_refs m = count R' e" and "\<And>e'. e' \<noteq> e \<Longrightarrow> count R' e' = count R e'"
  shows "ext_match (bput e m X) R'"
  using assms unfolding ext_match_def by auto

text \<open>Dropping references that are there never fails, and lists what became unreferenced.\<close>

lemma dec_ref_ok:
  assumes "ext_match (extents c) (add_mset e R)"
  obtains X where "dec_ref e gc c = (Inr (if count R e = 0 then gc @ [e] else gc), c\<lparr>extents := X\<rparr>)"
    "ext_match X R" "same_extents (extents c) X"
proof -
  obtain m where m: "bget (extents c) e = Some m" using ext_matchD(3) [OF assms, of e] by auto
  then have refs: "em_refs m = Suc (count R e)" using ext_matchD(1) [OF assms m] by simp
  let ?X = "bput e (m\<lparr>em_refs := em_refs m - 1\<rparr>) (extents c)"
  have "ext_match ?X R" by (rule ext_match_bput [OF assms]) (auto simp: refs)
  moreover have "same_extents (extents c) ?X" by (rule same_extents_bput [OF m]) simp
  ultimately show thesis using m refs by (intro that [of ?X]) (auto simp: dec_ref_def)
qed

lemma dec_refs_ok:
  assumes "ext_match (extents c) (mset es + R)"
  obtains X gone where "dec_refs es gc c = (Inr (gc @ gone), c\<lparr>extents := X\<rparr>)"
    "ext_match X R" "same_extents (extents c) X" "set gone = {e \<in> set es. e \<notin># R}" "distinct gone"
proof -
  have "\<exists>X gone. dec_refs es gc c = (Inr (gc @ gone), c\<lparr>extents := X\<rparr>)
    \<and> ext_match X R \<and> same_extents (extents c) X \<and> set gone = {e \<in> set es. e \<notin># R} \<and> distinct gone"
    using assms
  proof (induction es arbitrary: c gc)
    case Nil
    then show ?case by (intro exI [of _ "extents c"] exI [of _ "[]"]) auto
  next
    case (Cons e es)
    have "ext_match (extents c) (add_mset e (mset es + R))" using Cons.prems by simp
    then obtain X where 1: "dec_ref e gc c = (Inr (if count (mset es + R) e = 0 then gc @ [e] else gc), c\<lparr>extents := X\<rparr>)"
      "ext_match X (mset es + R)" "same_extents (extents c) X" by (rule dec_ref_ok)
    let ?gc = "if count (mset es + R) e = 0 then gc @ [e] else gc"
    obtain Y gone where 2: "dec_refs es ?gc (c\<lparr>extents := X\<rparr>) = (Inr (?gc @ gone), c\<lparr>extents := Y\<rparr>)"
      "ext_match Y R" "same_extents X Y" "set gone = {e \<in> set es. e \<notin># R}" "distinct gone"
      using Cons.IH [of "c\<lparr>extents := X\<rparr>" ?gc] 1(2) by auto
    let ?gone = "(if count (mset es + R) e = 0 then [e] else []) @ gone"
    have "set ?gone = {x \<in> set (e # es). x \<notin># R}" "distinct ?gone"
      using 2(4,5) by (auto simp: count_eq_zero_iff split: if_splits)
    moreover have "dec_refs (e # es) gc c = (Inr (gc @ ?gone), c\<lparr>extents := Y\<rparr>)"
      using 1(1) 2(1)
      by (cases "count (mset es + R) e = 0") (simp_all del: count_union not_in_iff count_eq_zero_iff)
    ultimately show ?case using 2(2) same_extents_trans [OF 1(3) 2(3)] by blast
  qed
  then show thesis using that by blast
qed

lemma inc_refs_ok:
  assumes "ext_match (extents c) R" and "set es \<subseteq> set_mset R"
  obtains X where "inc_refs es c = (Inr (), c\<lparr>extents := X\<rparr>)"
    "ext_match X (R + mset es)" "same_extents (extents c) X"
proof -
  have "\<exists>X. inc_refs es c = (Inr (), c\<lparr>extents := X\<rparr>) \<and> ext_match X (R + mset es) \<and> same_extents (extents c) X"
    using assms
  proof (induction es arbitrary: c R)
    case Nil
    then show ?case by (intro exI [of _ "extents c"]) auto
  next
    case (Cons e es)
    obtain m where m: "bget (extents c) e = Some m" using ext_matchD(3) [OF Cons.prems(1), of e] Cons.prems(2) by auto
    let ?X = "bput e (m\<lparr>em_refs := em_refs m + 1\<rparr>) (extents c)"
    have X: "ext_match ?X (add_mset e R)"
      by (rule ext_match_bput [OF Cons.prems(1)]) (auto simp: ext_matchD(1) [OF Cons.prems(1) m])
    have same: "same_extents (extents c) ?X" by (rule same_extents_bput [OF m]) simp
    obtain Y where Y: "inc_refs es (c\<lparr>extents := ?X\<rparr>) = (Inr (), c\<lparr>extents := Y\<rparr>)"
      "ext_match Y (add_mset e R + mset es)" "same_extents ?X Y"
      using Cons.IH [of "c\<lparr>extents := ?X\<rparr>" "add_mset e R"] X Cons.prems(2) by auto
    have "inc_refs (e # es) c = (Inr (), c\<lparr>extents := Y\<rparr>)"
      using m Y(1) by (simp add: inc_ref_def)
    with Y(2) same_extents_trans [OF same Y(3)] show ?case by auto
  qed
  then show thesis using that by blast
qed

lemma add_extent_ref_match:
  assumes "ext_match (extents c) R"
  shows "ext_match (extents (add_extent_ref x c)) (add_mset (x_id x) R)"
proof (cases "bget (extents c) (x_id x)")
  case None
  then have "count R (x_id x) = 0" using ext_matchD(2) [OF assms] by simp
  then show ?thesis
    using None by (auto simp: add_extent_ref_def intro!: ext_match_bput [OF assms])
next
  case (Some m)
  then show ?thesis
    using ext_matchD(1) [OF assms Some] by (auto simp: add_extent_ref_def intro!: ext_match_bput [OF assms])
qed

end
