(* ===== verification/Namespace.thy ===== *)
theory Namespace
  imports ExtentRefs
begin

text \<open>
  The file and directory namespace (\<open>crates/atlas-native/src/namespace.rs\<close>): inodes and
  directories of one filesystem, and the handler of each filesystem operation on the catalog.
  Strings are their UTF-8 bytes. A handler takes the list of extents found unreferenced so far
  and returns it extended, as the \<open>gc\<close> argument of the source.
\<close>

section \<open>Names\<close>

fun split_once :: "char \<Rightarrow> string \<Rightarrow> (string \<times> string) option" where
  "split_once c [] = None"
| "split_once c (x # xs) =
     (if x = c then Some ([], xs) else map_option (\<lambda>(a, b). (x # a, b)) (split_once c xs))"

definition check_xattr_name :: "string \<Rightarrow> unit meta_result" where
  "check_xattr_name name =
     (if name = [] \<or> length name > MAX_NAME_BYTES \<or> CHR 0x00 \<in> set name then Inl Invalid
      else if name = ACL_ACCESS \<or> name = ACL_DEFAULT then Inr ()
      else case split_once (CHR ''.'') name of
        Some (ns, rest) \<Rightarrow>
          if ns \<in> {''user'', ''trusted'', ''security''} \<and> rest \<noteq> [] then Inr () else Inl Unsupported
      | None \<Rightarrow> Inl Unsupported)"

definition check_name :: "string \<Rightarrow> unit meta_result" where
  "check_name name =
     (if name = [] \<or> length name > MAX_NAME_BYTES \<or> name = ''.'' \<or> name = ''..''
         \<or> CHR ''/'' \<in> set name \<or> CHR 0x00 \<in> set name then Inl Invalid
      else Inr ())"

section \<open>Inodes\<close>

definition node_type_of :: "inode \<Rightarrow> node_type" where
  "node_type_of i = (case i_kind i of
       Dir _ _ \<Rightarrow> TDir | File _ _ \<Rightarrow> TFile | Symlink _ \<Rightarrow> TSymlink | Special t _ \<Rightarrow> t)"

definition is_dir_kind :: "inode_kind \<Rightarrow> bool" where
  "is_dir_kind k = (case k of Dir _ _ \<Rightarrow> True | _ \<Rightarrow> False)"

definition inode_new :: "nat \<Rightarrow> inode_kind \<Rightarrow> 32 word \<Rightarrow> nat \<Rightarrow> nat \<Rightarrow> int \<Rightarrow> inode" where
  "inode_new ino kind mode uid gid now_ns =
     \<lparr>i_ino = ino, i_kind = kind, i_mode = mode AND 0xFFF, i_uid = uid, i_gid = gid,
      i_nlink = (if is_dir_kind kind then 2 else 1), i_atime_ns = now_ns, i_mtime_ns = now_ns,
      i_ctime_ns = now_ns, i_op_id = [], i_xattrs = bempty\<rparr>"

definition is_dir :: "inode \<Rightarrow> bool" where
  "is_dir i \<longleftrightarrow> is_dir_kind (i_kind i)"

definition inode_size :: "inode \<Rightarrow> nat" where
  "inode_size i = (case i_kind i of
       Dir _ es \<Rightarrow> bsize es | File sz _ \<Rightarrow> sz | Symlink t \<Rightarrow> length t | Special _ _ \<Rightarrow> 0)"

definition itouch :: "int \<Rightarrow> inode \<Rightarrow> inode" where
  "itouch now_ns i = i\<lparr>i_mtime_ns := now_ns, i_ctime_ns := now_ns\<rparr>"

section \<open>One filesystem\<close>

definition fs_inode :: "fs_meta \<Rightarrow> nat \<Rightarrow> inode meta_result" where
  "fs_inode f ino = ok_or (bget (fs_inodes f) ino) NotFound"

text \<open>\<open>inode_mut\<close> followed by an edit of the inode.\<close>

definition edit_inode :: "nat \<Rightarrow> (inode \<Rightarrow> inode) \<Rightarrow> fs_meta \<Rightarrow> (unit, fs_meta) change" where
  "edit_inode ino g f =
     attempt f (fs_inode f ino) (\<lambda>i. (Inr (), f\<lparr>fs_inodes := bput ino (g i) (fs_inodes f)\<rparr>))"

definition fs_dir :: "fs_meta \<Rightarrow> nat \<Rightarrow> inode meta_result" where
  "fs_dir f d = rbind (fs_inode f d) (\<lambda>i. if is_dir i then Inr i else Inl NotDir)"

definition inode_entry :: "inode \<Rightarrow> string \<Rightarrow> nat option" where
  "inode_entry i name = (case i_kind i of Dir _ es \<Rightarrow> bget es name | _ \<Rightarrow> None)"

definition fs_entry :: "fs_meta \<Rightarrow> nat \<Rightarrow> string \<Rightarrow> nat option meta_result" where
  "fs_entry f d name = rbind (fs_dir f d) (\<lambda>i. Inr (inode_entry i name))"

text \<open>\<open>InodeTable::set_entry\<close> and \<open>DirEntries::set\<close>.\<close>

definition put_entry :: "string \<Rightarrow> nat option \<Rightarrow> dir_entries \<Rightarrow> dir_entries" where
  "put_entry name x es = (case x of Some i \<Rightarrow> bput name i es | None \<Rightarrow> bdel name es)"

definition itab_set_entry ::
    "nat \<Rightarrow> string \<Rightarrow> nat option \<Rightarrow> inode_table \<Rightarrow> (nat option, inode_table) change" where
  "itab_set_entry d name x t =
     attempt t (ok_or (bget t d) NotFound) (\<lambda>i. case i_kind i of
         Dir p es \<Rightarrow> (Inr (bget es name), bput d (i\<lparr>i_kind := Dir p (put_entry name x es)\<rparr>) t)
       | _ \<Rightarrow> (Inl NotDir, t))"

definition fs_set_entry :: "nat \<Rightarrow> string \<Rightarrow> nat option \<Rightarrow> fs_meta \<Rightarrow> (unit, fs_meta) change" where
  "fs_set_entry d name x f =
     attempt f (fs_dir f d) (\<lambda>_.
       case itab_set_entry d name x (fs_inodes f) of
         (Inl e, t) \<Rightarrow> (Inl e, f\<lparr>fs_inodes := t\<rparr>)
       | (Inr _, t) \<Rightarrow> (Inr (), f\<lparr>fs_inodes := t\<rparr>))"

definition fs_lookup :: "fs_meta \<Rightarrow> nat \<Rightarrow> string \<Rightarrow> nat meta_result" where
  "fs_lookup f d name = rbind (fs_entry f d name) (\<lambda>x. ok_or x NotFound)"

definition inherit_acls ::
    "fs_meta \<Rightarrow> nat \<Rightarrow> node_type \<Rightarrow> 32 word \<Rightarrow> 32 word option
      \<Rightarrow> (32 word \<times> (string \<times> byte list) list) meta_result" where
  "inherit_acls f parent nt mode create_mode =
     (if nt = TSymlink then Inr (mode, [])
      else rbind (fs_inode f parent) (\<lambda>p.
        case bget (i_xattrs p) ACL_DEFAULT of
          None \<Rightarrow> Inr (mode, [])
        | Some raw \<Rightarrow> rbind (acl_parse raw) (\<lambda>a.
            let (access, mode') = create_masq a (case create_mode of None \<Rightarrow> mode | Some m \<Rightarrow> m)
            in Inr (mode',
                 (if \<not> is_minimal access then [(ACL_ACCESS, acl_encode access)] else [])
                 @ (if nt = TDir then [(ACL_DEFAULT, raw)] else [])))))"

definition check_inode_quota :: "fs_meta \<Rightarrow> unit meta_result" where
  "check_inode_quota f =
     (case Option.bind (fs_quota_of f) q_max_inodes of
        Some mx \<Rightarrow> if bsize (fs_inodes f) \<ge> mx then Inl Quota else Inr ()
      | None \<Rightarrow> Inr ())"

text \<open>The link count of a directory is computed in \<open>i64\<close>, clamped at zero and cut to \<open>u32\<close>.\<close>

definition add_links :: "nat \<Rightarrow> int \<Rightarrow> nat" where
  "add_links nlink subdirs = nat (max 0 (int nlink + subdirs)) mod 2 ^ 32"

definition dir_changed :: "nat \<Rightarrow> int \<Rightarrow> int \<Rightarrow> fs_meta \<Rightarrow> (unit, fs_meta) change" where
  "dir_changed d subdirs now_ns f =
     edit_inode d (\<lambda>i. itouch now_ns (i\<lparr>i_nlink := add_links (i_nlink i) subdirs\<rparr>)) f"

definition drop_link :: "nat \<Rightarrow> int \<Rightarrow> fs_meta \<Rightarrow> (inode option, fs_meta) change" where
  "drop_link ino now_ns f =
     attempt f (fs_inode f ino) (\<lambda>i.
       let i' = i\<lparr>i_nlink := sat_sub (i_nlink i) 1, i_ctime_ns := now_ns\<rparr>
       in if i_nlink i' = 0 then (Inr (Some i'), f\<lparr>fs_inodes := bdel ino (fs_inodes f)\<rparr>)
          else (Inr None, f\<lparr>fs_inodes := bput ino i' (fs_inodes f)\<rparr>))"

partial_function (option) is_within :: "inode_table \<Rightarrow> nat \<Rightarrow> nat \<Rightarrow> bool meta_result option" where
  "is_within t ino ancestor =
     (if ino = ancestor then Some (Inr True)
      else case bget t ino of
        None \<Rightarrow> Some (Inl NotFound)
      | Some i \<Rightarrow> (case i_kind i of
            Dir p _ \<Rightarrow> if ino \<noteq> ROOT_INO then is_within t p ancestor else Some (Inr False)
          | _ \<Rightarrow> Some (Inr False)))"

definition is_within_res :: "fs_meta \<Rightarrow> nat \<Rightarrow> nat \<Rightarrow> bool meta_result" where
  "is_within_res f ino ancestor =
     (case is_within (fs_inodes f) ino ancestor of None \<Rightarrow> Inl Diverge | Some r \<Rightarrow> r)"

definition inode_extents :: "inode \<Rightarrow> extent_id list" where
  "inode_extents i = (case i_kind i of File _ xs \<Rightarrow> bvals xs | _ \<Rightarrow> [])"

definition file_extents :: "inode list \<Rightarrow> extent_id list" where
  "file_extents is = concat (map inode_extents is)"

section \<open>Filesystem operations that stay within one filesystem\<close>

definition mknode_kind ::
    "nat \<Rightarrow> node_type \<Rightarrow> string option \<Rightarrow> nat \<Rightarrow> inode_kind meta_result" where
  "mknode_kind parent nt tgt rdev =
     (case nt of
        TFile \<Rightarrow> Inr (File 0 bempty)
      | TDir \<Rightarrow> Inr (Dir parent bempty)
      | TSymlink \<Rightarrow> (case tgt of
            Some t \<Rightarrow> if t \<noteq> [] \<and> length t \<le> MAX_SYMLINK_BYTES then Inr (Symlink t) else Inl Invalid
          | None \<Rightarrow> Inl Invalid)
      | t \<Rightarrow> Inr (Special t rdev))"

definition mknode_insert ::
    "nat \<Rightarrow> string \<Rightarrow> string \<Rightarrow> inode_kind \<Rightarrow> 32 word \<Rightarrow> (string \<times> byte list) list \<Rightarrow> nat \<Rightarrow> nat \<Rightarrow> int
      \<Rightarrow> fs_meta \<Rightarrow> (unit, fs_meta) change" where
  "mknode_insert parent name op_id kind mode acls uid gid now_ns f =
     (let ino = fs_next_ino f;
          i = (inode_new ino kind mode uid gid now_ns)
            \<lparr>i_op_id := op_id, i_xattrs := bextend bempty acls\<rparr>;
          f1 = f\<lparr>fs_next_ino := wrap_add ino 1, fs_inodes := bput ino i (fs_inodes f)\<rparr>
      in andthen (fs_set_entry parent name (Some ino) f1) (\<lambda>_ f2.
           dir_changed parent (if is_dir i then 1 else 0) now_ns f2))"

definition mknode_fs ::
    "nat \<Rightarrow> string \<Rightarrow> string \<Rightarrow> node_type \<Rightarrow> string option \<Rightarrow> nat \<Rightarrow> 32 word \<Rightarrow> 32 word option \<Rightarrow> nat \<Rightarrow> nat
      \<Rightarrow> int \<Rightarrow> fs_meta \<Rightarrow> (unit, fs_meta) change" where
  "mknode_fs parent name op_id nt tgt rdev mode create_mode uid gid now_ns f =
     attempt f (fs_entry f parent name) (\<lambda>x. case x of
       Some existing \<Rightarrow>
         if op_id \<noteq> [] then
           attempt f (fs_inode f existing) (\<lambda>i. if i_op_id i = op_id then (Inr (), f) else (Inl Exists, f))
         else (Inl Exists, f)
     | None \<Rightarrow>
         attempt f (check_inode_quota f) (\<lambda>_.
         attempt f (inherit_acls f parent nt mode create_mode) (\<lambda>(mode, acls).
         attempt f (mknode_kind parent nt tgt rdev) (\<lambda>kind.
           mknode_insert parent name op_id kind mode acls uid gid now_ns f))))"

definition link_fs :: "nat \<Rightarrow> nat \<Rightarrow> string \<Rightarrow> int \<Rightarrow> fs_meta \<Rightarrow> (unit, fs_meta) change" where
  "link_fs ino parent name now_ns f =
     attempt f (fs_inode f ino) (\<lambda>i.
     attempt f (guard (\<not> is_dir i) IsDir) (\<lambda>_.
     attempt f (fs_entry f parent name) (\<lambda>x. case x of
       Some existing \<Rightarrow> if existing = ino then (Inr (), f) else (Inl Exists, f)
     | None \<Rightarrow>
         andthen (fs_set_entry parent name (Some ino) f) (\<lambda>_ f.
         andthen (dir_changed parent 0 now_ns f) (\<lambda>_ f.
           edit_inode ino (\<lambda>i. i\<lparr>i_nlink := (i_nlink i + 1) mod 2 ^ 32, i_ctime_ns := now_ns\<rparr>) f)))))"

definition unlink_fs :: "nat \<Rightarrow> string \<Rightarrow> int \<Rightarrow> fs_meta \<Rightarrow> (inode option, fs_meta) change" where
  "unlink_fs parent name now_ns f =
     attempt f (fs_lookup f parent name) (\<lambda>ino.
     attempt f (fs_inode f ino) (\<lambda>i.
     attempt f (guard (\<not> is_dir i) IsDir) (\<lambda>_.
       andthen (fs_set_entry parent name None f) (\<lambda>_ f.
       andthen (dir_changed parent 0 now_ns f) (\<lambda>_ f.
         drop_link ino now_ns f)))))"

definition rmdir_fs :: "nat \<Rightarrow> string \<Rightarrow> int \<Rightarrow> fs_meta \<Rightarrow> (unit, fs_meta) change" where
  "rmdir_fs parent name now_ns f =
     attempt f (fs_lookup f parent name) (\<lambda>ino.
     attempt f (fs_dir f ino) (\<lambda>i.
     attempt f (guard (inode_size i = 0) NotEmpty) (\<lambda>_.
       andthen (fs_set_entry parent name None f) (\<lambda>_ f.
       andthen (dir_changed parent (- 1) now_ns f) (\<lambda>_ f.
         (Inr (), f\<lparr>fs_inodes := bdel ino (fs_inodes f)\<rparr>))))))"

text \<open>The checks of \<open>rename\<close> on an existing tgt, and its replacement.\<close>

definition rename_check :: "bool \<Rightarrow> nat \<Rightarrow> fs_meta \<Rightarrow> bool meta_result" where
  "rename_check src_dir dst f =
     rbind (fs_inode f dst) (\<lambda>d.
       if src_dir \<and> \<not> is_dir d then Inl NotDir
       else if \<not> src_dir \<and> is_dir d then Inl IsDir
       else if src_dir \<and> is_dir d then
         rbind (fs_dir f dst) (\<lambda>d. if inode_size d \<noteq> 0 then Inl NotEmpty else Inr True)
       else Inr (is_dir d))"

definition rename_replace ::
    "nat \<Rightarrow> string \<Rightarrow> nat \<Rightarrow> bool \<Rightarrow> int \<Rightarrow> fs_meta \<Rightarrow> (inode option, fs_meta) change" where
  "rename_replace new_parent new_name dst dst_dir now_ns f =
     andthen (fs_set_entry new_parent new_name None f) (\<lambda>_ f.
       if dst_dir then
         andthen (dir_changed new_parent (- 1) now_ns (f\<lparr>fs_inodes := bdel dst (fs_inodes f)\<rparr>))
           (\<lambda>_ f. (Inr None, f))
       else drop_link dst now_ns f)"

definition rename_move ::
    "nat \<Rightarrow> string \<Rightarrow> nat \<Rightarrow> string \<Rightarrow> nat \<Rightarrow> bool \<Rightarrow> int \<Rightarrow> fs_meta \<Rightarrow> (unit, fs_meta) change" where
  "rename_move parent name new_parent new_name src src_dir now_ns f =
     (let moved = (if src_dir \<and> parent \<noteq> new_parent then 1 else 0)
      in andthen (fs_set_entry parent name None f) (\<lambda>_ f.
         andthen (fs_set_entry new_parent new_name (Some src) f) (\<lambda>_ f.
         andthen (dir_changed parent (- moved) now_ns f) (\<lambda>_ f.
         andthen (dir_changed new_parent moved now_ns f) (\<lambda>_ f.
           edit_inode src (\<lambda>s. s\<lparr>i_ctime_ns := now_ns,
             i_kind := (case i_kind s of Dir _ es \<Rightarrow> Dir new_parent es | k \<Rightarrow> k)\<rparr>) f)))))"

definition rename_fs ::
    "nat \<Rightarrow> string \<Rightarrow> nat \<Rightarrow> string \<Rightarrow> int \<Rightarrow> fs_meta \<Rightarrow> (inode option, fs_meta) change" where
  "rename_fs parent name new_parent new_name now_ns f =
     attempt f (fs_lookup f parent name) (\<lambda>src.
     attempt f (fs_entry f new_parent new_name) (\<lambda>dst.
       if dst = Some src then (Inr None, f)
       else
         attempt f (fs_inode f src) (\<lambda>s.
         attempt f (if is_dir s then is_within_res f new_parent src else Inr False) (\<lambda>within.
         attempt f (guard (\<not> within) Invalid) (\<lambda>_.
           andthen
             (case dst of
                None \<Rightarrow> (Inr None, f)
              | Some d \<Rightarrow> attempt f (rename_check (is_dir s) d f) (\<lambda>dst_dir.
                  rename_replace new_parent new_name d dst_dir now_ns f))
             (\<lambda>dropped f.
               andthen (rename_move parent name new_parent new_name src (is_dir s) now_ns f) (\<lambda>_ f.
                 (Inr dropped, f))))))))"

section \<open>The catalog's filesystems\<close>

definition filesystem :: "catalog \<Rightarrow> string \<Rightarrow> fs_meta meta_result" where
  "filesystem c fs = ok_or (bget (filesystems c) fs) NotFound"

definition fs_view :: "catalog \<Rightarrow> string \<Rightarrow> fs_meta meta_result" where
  "fs_view c fs = (case split_once (CHR ''@'') fs of
       None \<Rightarrow> filesystem c fs
     | Some (f, snap) \<Rightarrow> (case bget (fs_snapshots c) snap of
           Some s \<Rightarrow> if ss_fs_id s = f then Inr (ss_tree s) else Inl NotFound
         | None \<Rightarrow> Inl NotFound))"

definition put_fs :: "string \<Rightarrow> fs_meta \<Rightarrow> catalog \<Rightarrow> catalog" where
  "put_fs fs f c = c\<lparr>filesystems := bput fs f (filesystems c)\<rparr>"

text \<open>\<open>fs_mut\<close> followed by changes of the filesystem in place.\<close>

definition with_fs ::
    "string \<Rightarrow> (fs_meta \<Rightarrow> ('a, fs_meta) change) \<Rightarrow> catalog \<Rightarrow> ('a, catalog) change" where
  "with_fs fs k c =
     attempt c (filesystem c fs) (\<lambda>f. case k f of (r, f') \<Rightarrow> (r, put_fs fs f' c))"

definition drop_inode :: "inode \<Rightarrow> gc \<Rightarrow> catalog \<Rightarrow> (gc, catalog) change" where
  "drop_inode i gc c = (case i_kind i of File _ xs \<Rightarrow> dec_refs (bvals xs) gc c | _ \<Rightarrow> (Inr gc, c))"

fun drop_inodes :: "inode list \<Rightarrow> gc \<Rightarrow> catalog \<Rightarrow> (gc, catalog) change" where
  "drop_inodes [] gc c = (Inr gc, c)"
| "drop_inodes (i # is) gc c = andthen (drop_inode i gc c) (\<lambda>gc c. drop_inodes is gc c)"

definition share_extents :: "inode_table \<Rightarrow> catalog \<Rightarrow> (unit, catalog) change" where
  "share_extents t c = inc_refs (file_extents (bvals t)) c"

definition check_byte_quota ::
    "catalog \<Rightarrow> string \<Rightarrow> nat \<Rightarrow> (nat \<times> nat) list \<Rightarrow> unit meta_result" where
  "check_byte_quota c fs ino new =
     rbind (filesystem c fs) (\<lambda>f.
       case (Option.bind (fs_quota_of f) q_max_bytes, fs_usage_of f) of
         (Some mx, Some usage) \<Rightarrow>
           rbind (fs_inode f ino) (\<lambda>i. case i_kind i of
             File _ xs \<Rightarrow>
               let freed = sum_u64 (map (extent_len c) (List.map_filter (\<lambda>(off, _). bget xs off) new));
                   added = sum_u64 (map snd new)
               in if added \<le> freed then Inr ()
                  else if sat_sub (wrap_add (u_used_bytes usage) added) freed > mx then Inl Quota
                  else Inr ()
           | _ \<Rightarrow> Inr ())
       | _ \<Rightarrow> Inr ())"

text \<open>\<open>usage_mut\<close> followed by an update of the counters.\<close>

definition edit_usage :: "string \<Rightarrow> (fs_usage \<Rightarrow> fs_usage) \<Rightarrow> catalog \<Rightarrow> catalog" where
  "edit_usage fs g c = (case bget (filesystems c) fs of
       None \<Rightarrow> c
     | Some f \<Rightarrow> (case fs_usage_of f of
           None \<Rightarrow> c
         | Some u \<Rightarrow> put_fs fs (f\<lparr>fs_usage_of := Some (g u)\<rparr>) c))"

definition forget_usage :: "string \<Rightarrow> inode \<Rightarrow> catalog \<Rightarrow> catalog" where
  "forget_usage fs i c = (case i_kind i of
       File sz xs \<Rightarrow>
         let used = sum_u64 (map (extent_len c) (bvals xs))
         in edit_usage fs (\<lambda>u. u\<lparr>u_file_bytes := sat_sub (u_file_bytes u) sz,
                                u_used_bytes := sat_sub (u_used_bytes u) used\<rparr>) c
     | _ \<Rightarrow> c)"

definition count_usage :: "catalog \<Rightarrow> fs_meta \<Rightarrow> fs_usage" where
  "count_usage c f =
     \<lparr>u_file_bytes = sum_u64 (map inode_size (filter (\<lambda>i. node_type_of i = TFile) (bvals (fs_inodes f)))),
      u_used_bytes = sum_u64 (map (extent_len c) (file_extents (bvals (fs_inodes f))))\<rparr>"

definition set_fs_usage :: "string \<times> fs_usage \<Rightarrow> catalog \<Rightarrow> catalog" where
  "set_fs_usage x c = (case bget (filesystems c) (fst x) of
       None \<Rightarrow> c
     | Some f \<Rightarrow> put_fs (fst x) (f\<lparr>fs_usage_of := Some (snd x)\<rparr>) c)"

definition set_snap_usage :: "string \<times> fs_usage \<Rightarrow> catalog \<Rightarrow> catalog" where
  "set_snap_usage x c = (case bget (fs_snapshots c) (fst x) of
       None \<Rightarrow> c
     | Some s \<Rightarrow> c\<lparr>fs_snapshots :=
         bput (fst x) (s\<lparr>ss_tree := (ss_tree s)\<lparr>fs_usage_of := Some (snd x)\<rparr>\<rparr>) (fs_snapshots c)\<rparr>)"

definition fill_usage :: "catalog \<Rightarrow> catalog" where
  "fill_usage c =
     (let fs = map (\<lambda>f. (fs_id f, count_usage c f))
                 (filter (\<lambda>f. fs_usage_of f = None) (bvals (filesystems c)));
          c1 = fold set_fs_usage fs c;
          snaps = map (\<lambda>s. (ss_id s, count_usage c1 (ss_tree s)))
                 (filter (\<lambda>s. fs_usage_of (ss_tree s) = None) (bvals (fs_snapshots c1)))
      in fold set_snap_usage snaps c1)"

section \<open>Handlers: creating, deleting and naming\<close>

definition root_inode :: "int \<Rightarrow> inode" where
  "root_inode now_ns = inode_new ROOT_INO (Dir ROOT_INO bempty) 0x1ED 0 0 now_ns"

definition zero_usage :: fs_usage where
  "zero_usage = \<lparr>u_file_bytes = 0, u_used_bytes = 0\<rparr>"

definition new_fs :: "string \<Rightarrow> string \<Rightarrow> nat option \<Rightarrow> int \<Rightarrow> fs_meta" where
  "new_fs fs name extent_bytes now_ns =
     \<lparr>fs_id = fs, fs_name = name, fs_next_ino = ROOT_INO + 1,
      fs_inodes = bput ROOT_INO (root_inode now_ns) bempty, fs_source_snapshot = None,
      fs_extent_bytes = extent_bytes, fs_usage_of = Some zero_usage, fs_quota_of = None,
      fs_replica = None\<rparr>"

definition create_fs ::
    "string \<Rightarrow> string \<Rightarrow> int \<Rightarrow> nat option \<Rightarrow> gc \<Rightarrow> catalog \<Rightarrow> (gc, catalog) change" where
  "create_fs fs name now_ns extent_bytes gc c =
     attempt c (guard (extent_bytes \<noteq> Some 0) Invalid) (\<lambda>_.
       case bget (filesystems c) fs of
         Some f \<Rightarrow> if fs_name f = name then (Inr gc, c) else (Inl Exists, c)
       | None \<Rightarrow> (Inr gc, put_fs fs (new_fs fs name extent_bytes now_ns) c))"

definition delete_fs :: "string \<Rightarrow> gc \<Rightarrow> catalog \<Rightarrow> (gc, catalog) change" where
  "delete_fs fs gc c =
     attempt c (filesystem c fs) (\<lambda>f.
       drop_inodes (bvals (fs_inodes f)) gc
         (c\<lparr>filesystems := bdel fs (filesystems c), leases_of := forget_fs fs (leases_of c)\<rparr>))"

definition keep_gc :: "gc \<Rightarrow> (unit, catalog) change \<Rightarrow> (gc, catalog) change" where
  "keep_gc gc r = andthen r (\<lambda>_ c. (Inr gc, c))"

definition mknode ::
    "string \<Rightarrow> nat \<Rightarrow> string \<Rightarrow> string \<Rightarrow> node_type \<Rightarrow> string option \<Rightarrow> nat \<Rightarrow> 32 word \<Rightarrow> 32 word option
      \<Rightarrow> nat \<Rightarrow> nat \<Rightarrow> int \<Rightarrow> gc \<Rightarrow> catalog \<Rightarrow> (gc, catalog) change" where
  "mknode fs parent name op_id nt tgt rdev mode create_mode uid gid now_ns gc c =
     attempt c (check_name name) (\<lambda>_.
       keep_gc gc (with_fs fs
         (mknode_fs parent name op_id nt tgt rdev mode create_mode uid gid now_ns) c))"

definition link :: "string \<Rightarrow> nat \<Rightarrow> nat \<Rightarrow> string \<Rightarrow> int \<Rightarrow> gc \<Rightarrow> catalog \<Rightarrow> (gc, catalog) change" where
  "link fs ino parent name now_ns gc c =
     attempt c (check_name name) (\<lambda>_. keep_gc gc (with_fs fs (link_fs ino parent name now_ns) c))"

text \<open>An inode that lost its last link leaves the usage counters and gives up its extents.\<close>

definition release_inode :: "string \<Rightarrow> inode option \<Rightarrow> gc \<Rightarrow> catalog \<Rightarrow> (gc, catalog) change" where
  "release_inode fs gone gc c = (case gone of
       None \<Rightarrow> (Inr gc, c)
     | Some i \<Rightarrow> drop_inode i gc (forget_usage fs i c))"

definition unlink :: "string \<Rightarrow> nat \<Rightarrow> string \<Rightarrow> int \<Rightarrow> gc \<Rightarrow> catalog \<Rightarrow> (gc, catalog) change" where
  "unlink fs parent name now_ns gc c =
     andthen (with_fs fs (unlink_fs parent name now_ns) c) (\<lambda>gone c. release_inode fs gone gc c)"

definition rmdir :: "string \<Rightarrow> nat \<Rightarrow> string \<Rightarrow> int \<Rightarrow> gc \<Rightarrow> catalog \<Rightarrow> (gc, catalog) change" where
  "rmdir fs parent name now_ns gc c = keep_gc gc (with_fs fs (rmdir_fs parent name now_ns) c)"

definition rename ::
    "string \<Rightarrow> nat \<Rightarrow> string \<Rightarrow> nat \<Rightarrow> string \<Rightarrow> int \<Rightarrow> gc \<Rightarrow> catalog \<Rightarrow> (gc, catalog) change" where
  "rename fs parent name new_parent new_name now_ns gc c =
     attempt c (check_name new_name) (\<lambda>_.
       andthen (with_fs fs (rename_fs parent name new_parent new_name now_ns) c)
         (\<lambda>gone c. release_inode fs gone gc c))"

section \<open>Handlers: attributes\<close>

text \<open>\<open>fs_mut(fs)?.inode_mut(ino)?\<close> followed by a fallible computation of the new inode.\<close>

definition change_inode ::
    "string \<Rightarrow> nat \<Rightarrow> (inode \<Rightarrow> (inode \<times> 'a) meta_result) \<Rightarrow> catalog \<Rightarrow> ('a, catalog) change" where
  "change_inode fs ino g c =
     attempt c (filesystem c fs) (\<lambda>f.
     attempt c (fs_inode f ino) (\<lambda>i.
     attempt c (g i) (\<lambda>(i', x).
       (Inr x, put_fs fs (f\<lparr>fs_inodes := bput ino i' (fs_inodes f)\<rparr>) c))))"

definition upd_some :: "'a option \<Rightarrow> ('a \<Rightarrow> 'b \<Rightarrow> 'b) \<Rightarrow> 'b \<Rightarrow> 'b" where
  "upd_some x g b = (case x of None \<Rightarrow> b | Some a \<Rightarrow> g a b)"

text \<open>The new access ACL that a \<open>chmod\<close> implies, and the effect of a new size.\<close>

definition setattr_acl :: "set_attr \<Rightarrow> inode \<Rightarrow> byte list option meta_result" where
  "setattr_acl attr i = (case (a_mode attr, bget (i_xattrs i) ACL_ACCESS) of
       (Some m, Some raw) \<Rightarrow> rbind (acl_parse raw) (\<lambda>a. Inr (Some (acl_encode (acl_chmod a m))))
     | _ \<Rightarrow> Inr None)"

definition setattr_size ::
    "set_attr \<Rightarrow> int \<Rightarrow> inode \<Rightarrow> (inode \<times> extent_map \<times> (nat \<times> nat) option) meta_result" where
  "setattr_size attr now_ns i = (case a_size attr of
       None \<Rightarrow> Inr (i, bempty, None)
     | Some new_size \<Rightarrow> (case i_kind i of
           File sz xs \<Rightarrow>
             let cut = (if new_size < sz then bfrom new_size xs else bempty);
                 kept = (if new_size < sz then bbelow new_size xs else xs)
             in if new_size \<noteq> sz
                then Inr (i\<lparr>i_kind := File new_size kept, i_mtime_ns := now_ns\<rparr>, cut, Some (sz, new_size))
                else Inr (i\<lparr>i_kind := File sz kept\<rparr>, cut, None)
         | _ \<Rightarrow> Inl IsDir))"

definition setattr_inode ::
    "set_attr \<Rightarrow> int \<Rightarrow> inode \<Rightarrow> (inode \<times> extent_map \<times> (nat \<times> nat) option) meta_result" where
  "setattr_inode attr now_ns i =
     rbind (setattr_acl attr i) (\<lambda>acl.
     rbind (setattr_size attr now_ns i) (\<lambda>(i, cut, resized).
       let i = upd_some (a_mode attr) (\<lambda>m i. i\<lparr>i_mode := m AND 0xFFF\<rparr>) i;
           i = upd_some acl (\<lambda>a i. i\<lparr>i_xattrs := bput ACL_ACCESS a (i_xattrs i)\<rparr>) i;
           i = upd_some (a_uid attr) (\<lambda>u i. i\<lparr>i_uid := u\<rparr>) i;
           i = upd_some (a_gid attr) (\<lambda>g i. i\<lparr>i_gid := g\<rparr>) i;
           i = upd_some (a_atime_ns attr) (\<lambda>t i. i\<lparr>i_atime_ns := t\<rparr>) i;
           i = upd_some (a_mtime_ns attr) (\<lambda>t i. i\<lparr>i_mtime_ns := t\<rparr>) i
       in Inr (i\<lparr>i_ctime_ns := now_ns\<rparr>, cut, resized)))"

definition setattr :: "string \<Rightarrow> nat \<Rightarrow> set_attr \<Rightarrow> int \<Rightarrow> gc \<Rightarrow> catalog \<Rightarrow> (gc, catalog) change" where
  "setattr fs ino attr now_ns gc c =
     andthen (change_inode fs ino (setattr_inode attr now_ns) c) (\<lambda>(cut, resized) c.
       let cut_bytes = sum_u64 (map (extent_len c) (bvals cut));
           c1 = edit_usage fs (\<lambda>u.
             (upd_some resized (\<lambda>(old, new) u.
                u\<lparr>u_file_bytes := sat_add (sat_sub (u_file_bytes u) old) new\<rparr>) u)
             \<lparr>u_used_bytes := sat_sub (u_used_bytes u) cut_bytes\<rparr>) c
       in dec_refs (bvals cut) gc c1)"

definition xattr_bytes :: "xattrs \<Rightarrow> nat" where
  "xattr_bytes xs = sum_list (map (\<lambda>(k, v). length k + length v) (bitems xs))"

text \<open>For the access ACL: the mode it implies and whether it says no more than the mode.\<close>

definition setxattr_acl :: "string \<Rightarrow> byte list \<Rightarrow> inode \<Rightarrow> (32 word \<times> bool) option meta_result" where
  "setxattr_acl name value i =
     (if name = ACL_ACCESS then
        rbind (acl_parse value) (\<lambda>a. Inr (Some (apply_to_mode a (i_mode i), is_minimal a)))
      else if name = ACL_DEFAULT then
        rbind (acl_parse value) (\<lambda>_. if \<not> is_dir i then Inl Invalid else Inr None)
      else Inr None)"

definition setxattr_inode ::
    "string \<Rightarrow> byte list \<Rightarrow> xattr_mode \<Rightarrow> int \<Rightarrow> inode \<Rightarrow> (inode \<times> unit) meta_result" where
  "setxattr_inode name value xmode now_ns i =
     rbind (setxattr_acl name value i) (\<lambda>acl_mode.
       let old = bget (i_xattrs i) name
       in if xmode = XCreate \<and> old \<noteq> None then Inl Exists
          else if xmode = XReplace \<and> old = None then Inl NoAttr
          else if xattr_bytes (i_xattrs i) - (case old of None \<Rightarrow> 0 | Some v \<Rightarrow> length name + length v)
                  + length name + length value > MAX_XATTR_TOTAL_BYTES then Inl TooBig
          else
            let i1 = (case acl_mode of
                Some (m, True) \<Rightarrow> i\<lparr>i_mode := m, i_xattrs := bdel name (i_xattrs i)\<rparr>
              | Some (m, False) \<Rightarrow> i\<lparr>i_mode := m, i_xattrs := bput name value (i_xattrs i)\<rparr>
              | None \<Rightarrow> i\<lparr>i_xattrs := bput name value (i_xattrs i)\<rparr>)
            in Inr (i1\<lparr>i_ctime_ns := now_ns\<rparr>, ()))"

definition setxattr ::
    "string \<Rightarrow> nat \<Rightarrow> string \<Rightarrow> byte list \<Rightarrow> xattr_mode \<Rightarrow> int \<Rightarrow> gc \<Rightarrow> catalog \<Rightarrow> (gc, catalog) change" where
  "setxattr fs ino name value xmode now_ns gc c =
     attempt c (check_xattr_name name) (\<lambda>_.
     attempt c (guard (length value \<le> MAX_XATTR_VALUE_BYTES) TooBig) (\<lambda>_.
       keep_gc gc (change_inode fs ino (setxattr_inode name value xmode now_ns) c)))"

definition removexattr :: "string \<Rightarrow> nat \<Rightarrow> string \<Rightarrow> int \<Rightarrow> gc \<Rightarrow> catalog \<Rightarrow> (gc, catalog) change" where
  "removexattr fs ino name now_ns gc c =
     keep_gc gc (change_inode fs ino (\<lambda>i.
       if bget (i_xattrs i) name = None then Inl NoAttr
       else Inr (i\<lparr>i_xattrs := bdel name (i_xattrs i), i_ctime_ns := now_ns\<rparr>, ())) c)"

section \<open>Handlers: file data\<close>

text \<open>Inserting several extents into a map; what they replace, in order.\<close>

fun insert_extents :: "(nat \<times> extent_id) list \<Rightarrow> extent_map \<Rightarrow> extent_id list \<times> extent_map" where
  "insert_extents [] xs = ([], xs)"
| "insert_extents ((off, e) # new) xs =
     (case insert_extents new (bput off e xs) of
        (old, xs') \<Rightarrow> ((case bget xs off of None \<Rightarrow> old | Some x \<Rightarrow> x # old), xs'))"

definition install_inode ::
    "(nat \<times> extent_id) list \<Rightarrow> nat \<Rightarrow> int \<Rightarrow> bool \<Rightarrow> inode \<Rightarrow> (inode \<times> extent_id list \<times> nat) meta_result" where
  "install_inode new at_least now_ns replica i = (case i_kind i of
       File sz xs \<Rightarrow>
         let (old, xs') = insert_extents new xs;
             sz' = max sz at_least;
             i1 = i\<lparr>i_kind := File sz' xs'\<rparr>;
             i2 = (if \<not> replica then itouch now_ns i1 else i1)
         in Inr (i2, old, sz' - sz)
     | _ \<Rightarrow> Inl IsDir)"

definition install_file_extent ::
    "string \<Rightarrow> nat \<Rightarrow> nat \<Rightarrow> extent_ref \<Rightarrow> nat \<Rightarrow> int \<Rightarrow> bool \<Rightarrow> gc \<Rightarrow> catalog \<Rightarrow> (gc, catalog) change" where
  "install_file_extent fs ino off x at_least now_ns replica gc c =
     attempt c (extent_check x) (\<lambda>_.
     attempt c (check_byte_quota c fs ino [(off, x_len x)]) (\<lambda>_.
       andthen (change_inode fs ino (install_inode [(off, x_id x)] at_least now_ns replica) c)
         (\<lambda>(old, grown) c.
           let c1 = add_extent_ref x c;
               old_len = (case old of [] \<Rightarrow> 0 | o1 # _ \<Rightarrow> extent_len c1 o1);
               c2 = edit_usage fs (\<lambda>u.
                 u\<lparr>u_file_bytes := sat_add (u_file_bytes u) grown,
                   u_used_bytes := sat_sub (wrap_add (u_used_bytes u) (x_len x)) old_len\<rparr>) c1
           in dec_refs old gc c2)))"

definition install_file_extents ::
    "string \<Rightarrow> nat \<Rightarrow> extent_ref list \<Rightarrow> nat \<Rightarrow> int \<Rightarrow> bool \<Rightarrow> gc \<Rightarrow> catalog \<Rightarrow> (gc, catalog) change" where
  "install_file_extents fs ino new at_least now_ns replica gc c =
     attempt c (extents_check new) (\<lambda>_.
     attempt c (check_byte_quota c fs ino (map (\<lambda>x. (x_logical_offset x, x_len x)) new)) (\<lambda>_.
       andthen (change_inode fs ino
           (install_inode (map (\<lambda>x. (x_logical_offset x, x_id x)) new) at_least now_ns replica) c)
         (\<lambda>(old, grown) c.
           let c1 = fold add_extent_ref new c;
               old_len = sum_u64 (map (extent_len c1) old);
               new_len = sum_u64 (map x_len new);
               c2 = edit_usage fs (\<lambda>u.
                 u\<lparr>u_file_bytes := sat_add (u_file_bytes u) grown,
                   u_used_bytes := sat_sub (wrap_add (u_used_bytes u) new_len) old_len\<rparr>) c1
           in dec_refs old gc c2)))"

section \<open>Handlers: snapshots, clones and quotas\<close>

definition snapshot_tree ::
    "string \<Rightarrow> string \<Rightarrow> string \<Rightarrow> int \<Rightarrow> catalog \<Rightarrow> (unit, catalog) change" where
  "snapshot_tree sid fs name now_ns c =
     (case bget (fs_snapshots c) sid of
        Some s \<Rightarrow> if ss_fs_id s = fs \<and> ss_name s = name then (Inr (), c) else (Inl Exists, c)
      | None \<Rightarrow>
          attempt c (filesystem c fs) (\<lambda>f.
            let tree = f\<lparr>fs_replica := None\<rparr>
            in andthen (share_extents (fs_inodes tree) c) (\<lambda>_ c.
              (Inr (), c\<lparr>fs_snapshots := bput sid \<lparr>ss_id = sid, ss_fs_id = fs, ss_name = name,
                 ss_created_ns = now_ns, ss_tree = tree\<rparr> (fs_snapshots c)\<rparr>))))"

definition snapshot_fs :: "string \<Rightarrow> string \<Rightarrow> string \<Rightarrow> int \<Rightarrow> gc \<Rightarrow> catalog \<Rightarrow> (gc, catalog) change" where
  "snapshot_fs sid fs name now_ns gc c = keep_gc gc (snapshot_tree sid fs name now_ns c)"

definition is_replica_base :: "string \<Rightarrow> fs_meta \<Rightarrow> bool" where
  "is_replica_base sid f \<longleftrightarrow> (case fs_replica f of None \<Rightarrow> False | Some r \<Rightarrow> rs_local r = Some sid)"

definition delete_fs_snapshot :: "string \<Rightarrow> gc \<Rightarrow> catalog \<Rightarrow> (gc, catalog) change" where
  "delete_fs_snapshot sid gc c =
     (if List.find (is_replica_base sid) (bvals (filesystems c)) \<noteq> None then (Inl Invalid, c)
      else attempt c (ok_or (bget (fs_snapshots c) sid) NotFound) (\<lambda>s.
        drop_inodes (bvals (fs_inodes (ss_tree s))) gc
          (c\<lparr>fs_snapshots := bdel sid (fs_snapshots c)\<rparr>)))"

definition clone_fs :: "string \<Rightarrow> string \<Rightarrow> string \<Rightarrow> gc \<Rightarrow> catalog \<Rightarrow> (gc, catalog) change" where
  "clone_fs sid name snapshot_id gc c =
     (case bget (filesystems c) sid of
        Some f \<Rightarrow> if fs_name f = name \<and> fs_source_snapshot f = Some snapshot_id then (Inr gc, c)
                  else (Inl Exists, c)
      | None \<Rightarrow>
          attempt c (ok_or (bget (fs_snapshots c) snapshot_id) NotFound) (\<lambda>s.
            andthen (share_extents (fs_inodes (ss_tree s)) c) (\<lambda>_ c.
              (Inr gc, put_fs sid ((ss_tree s)\<lparr>fs_id := sid, fs_name := name,
                 fs_source_snapshot := Some snapshot_id, fs_replica := None\<rparr>) c))))"

definition set_quota ::
    "string \<Rightarrow> nat option \<Rightarrow> nat option \<Rightarrow> gc \<Rightarrow> catalog \<Rightarrow> (gc, catalog) change" where
  "set_quota fs max_bytes max_inodes gc c =
     (let q = \<lparr>q_max_bytes = max_bytes, q_max_inodes = max_inodes\<rparr>
      in keep_gc gc (with_fs fs (\<lambda>f. (Inr (), f\<lparr>fs_quota_of :=
           if q \<noteq> \<lparr>q_max_bytes = None, q_max_inodes = None\<rparr> then Some q else None\<rparr>)) c))"

fun client_change :: "fs_op \<Rightarrow> string option" where
  "client_change (Mknode fs _ _ _ _ _ _ _ _ _ _ _) = Some fs"
| "client_change (Link fs _ _ _ _) = Some fs"
| "client_change (Unlink fs _ _ _) = Some fs"
| "client_change (Rmdir fs _ _ _) = Some fs"
| "client_change (Rename fs _ _ _ _ _) = Some fs"
| "client_change (SetAttr fs _ _ _) = Some fs"
| "client_change (SetXattr fs _ _ _ _ _) = Some fs"
| "client_change (RemoveXattr fs _ _ _) = Some fs"
| "client_change (InstallFileExtent fs _ _ _ _ _ replica) = (if replica then None else Some fs)"
| "client_change (InstallFileExtents fs _ _ _ _ replica) = (if replica then None else Some fs)"
| "client_change _ = None"

fun replica_data :: "fs_op \<Rightarrow> string option" where
  "replica_data (InstallFileExtent fs _ _ _ _ _ replica) = (if replica then Some fs else None)"
| "replica_data (InstallFileExtents fs _ _ _ _ replica) = (if replica then Some fs else None)"
| "replica_data _ = None"

end
