(* ===== verification/Replica.thy ===== *)
theory Replica
  imports Namespace
begin

text \<open>
  Replica filesystems (\<open>crates/atlas-native/src/namespace/replica.rs\<close>): the receiving side of
  asynchronous replication, and the dispatch of filesystem operations (\<open>Catalog::apply_fs\<close> of
  \<open>namespace.rs\<close>).
\<close>

definition no_replica_state :: replica_state where
  "no_replica_state = \<lparr>rs_base = None, rs_local = None, rs_pending = None\<rparr>"

definition empty_replica :: "string \<Rightarrow> string \<Rightarrow> nat \<Rightarrow> int \<Rightarrow> fs_meta" where
  "empty_replica fs name extent_bytes now_ns =
     (new_fs fs name (Some extent_bytes) now_ns)\<lparr>fs_replica := Some no_replica_state\<rparr>"

definition replica_of :: "catalog \<Rightarrow> string \<Rightarrow> replica_state meta_result" where
  "replica_of c fs = rbind (filesystem c fs) (\<lambda>f. ok_or (fs_replica f) Invalid)"

definition create_replica ::
    "string \<Rightarrow> string \<Rightarrow> int \<Rightarrow> nat \<Rightarrow> gc \<Rightarrow> catalog \<Rightarrow> (gc, catalog) change" where
  "create_replica fs name now_ns extent_bytes gc c =
     attempt c (guard (extent_bytes \<noteq> 0) Invalid) (\<lambda>_.
       case bget (filesystems c) fs of
         Some f \<Rightarrow> if fs_name f = name \<and> fs_replica f \<noteq> None \<and> fs_extent_bytes f = Some extent_bytes
                   then (Inr gc, c) else (Inl Exists, c)
       | None \<Rightarrow> (Inr gc, put_fs fs (empty_replica fs name extent_bytes now_ns) c))"

definition revert_to ::
    "string \<Rightarrow> string \<Rightarrow> replica_state option \<Rightarrow> gc \<Rightarrow> catalog \<Rightarrow> (gc, catalog) change" where
  "revert_to fs snapshot replica gc c =
     attempt c (ok_or (case bget (fs_snapshots c) snapshot of
         Some s \<Rightarrow> if ss_fs_id s = fs then Some s else None | None \<Rightarrow> None) NotFound) (\<lambda>s.
     attempt c (filesystem c fs) (\<lambda>current.
       let tree = (ss_tree s)\<lparr>fs_id := fs_id current, fs_name := fs_name current,
             fs_quota_of := fs_quota_of current, fs_source_snapshot := fs_source_snapshot current,
             fs_next_ino := max (fs_next_ino (ss_tree s)) (fs_next_ino current), fs_replica := replica\<rparr>
       in andthen (share_extents (fs_inodes tree) c) (\<lambda>_ c.
         drop_inodes (bvals (fs_inodes current)) gc
           ((put_fs fs tree c)\<lparr>leases_of := forget_fs fs (leases_of c)\<rparr>))))"

definition discard_partial :: "string \<Rightarrow> gc \<Rightarrow> catalog \<Rightarrow> (gc, catalog) change" where
  "discard_partial fs gc c =
     attempt c (replica_of c fs) (\<lambda>r. case rs_local r of
       Some loc \<Rightarrow> revert_to fs loc (Some (r\<lparr>rs_pending := None\<rparr>)) gc c
     | None \<Rightarrow>
         attempt c (filesystem c fs) (\<lambda>f.
         attempt c (fs_inode f ROOT_INO) (\<lambda>root.
           let fresh = (empty_replica fs (fs_name f)
                 (case fs_extent_bytes f of None \<Rightarrow> 0 | Some b \<Rightarrow> b) (i_ctime_ns root))
                 \<lparr>fs_quota_of := fs_quota_of f, fs_next_ino := fs_next_ino f\<rparr>
           in drop_inodes (bvals (fs_inodes f)) gc
             ((put_fs fs fresh c)\<lparr>leases_of := forget_fs fs (leases_of c)\<rparr>))))"

section \<open>Checking a part of an increment\<close>

fun check_names :: "(string \<times> nat option) list \<Rightarrow> unit meta_result" where
  "check_names [] = Inr ()"
| "check_names ((name, _) # es) = rbind (check_name name) (\<lambda>_. check_names es)"

fun check_xattrs :: "(string \<times> byte list) list \<Rightarrow> nat \<Rightarrow> nat meta_result" where
  "check_xattrs [] tot = Inr tot"
| "check_xattrs ((name, value) # xs) tot =
     rbind (check_xattr_name name) (\<lambda>_.
       if length value > MAX_XATTR_VALUE_BYTES then Inl TooBig
       else check_xattrs xs (tot + (length name + length value)))"

definition check_replica_inode ::
    "fs_meta \<Rightarrow> (nat, node_type) btree \<Rightarrow> replica_inode \<Rightarrow> (nat, node_type) btree meta_result" where
  "check_replica_inode f types n =
     (if n_ino n = 0 then Inl Invalid
      else if n_ino n = ROOT_INO \<and> n_node_type n \<noteq> TDir then Inl Invalid
      else
        let known = (case bget types (n_ino n) of
              Some t \<Rightarrow> Some t | None \<Rightarrow> map_option node_type_of (bget (fs_inodes f) (n_ino n)))
        in if known \<noteq> None \<and> known \<noteq> Some (n_node_type n) then Inl Invalid
        else if n_node_type n = TSymlink \<and>
             \<not> (case n_target n of None \<Rightarrow> False | Some t \<Rightarrow> t \<noteq> [] \<and> length t \<le> MAX_SYMLINK_BYTES)
          then Inl Invalid
        else if n_node_type n = TDir \<and> n_parent n = 0 then Inl Invalid
        else if n_node_type n \<noteq> TDir \<and> n_entries n \<noteq> [] then Inl Invalid
        else if n_node_type n \<noteq> TFile \<and> n_holes n \<noteq> [] then Inl Invalid
        else rbind (check_names (n_entries n)) (\<lambda>_.
          rbind (check_xattrs (bitems (n_xattrs n)) 0) (\<lambda>tot.
            if tot > MAX_XATTR_TOTAL_BYTES then Inl TooBig
            else Inr (bput (n_ino n) (n_node_type n) types))))"

fun check_replica_inodes ::
    "fs_meta \<Rightarrow> replica_inode list \<Rightarrow> (nat, node_type) btree \<Rightarrow> (nat, node_type) btree meta_result" where
  "check_replica_inodes f [] types = Inr types"
| "check_replica_inodes f (n # ns) types =
     rbind (check_replica_inode f types n) (\<lambda>types. check_replica_inodes f ns types)"

fun check_removed :: "(nat, node_type) btree \<Rightarrow> nat list \<Rightarrow> unit meta_result" where
  "check_removed types [] = Inr ()"
| "check_removed types (ino # inos) =
     (if ino = ROOT_INO then Inl Invalid
      else if bget types ino \<noteq> None then Inl Invalid
      else check_removed types inos)"

definition check_part ::
    "catalog \<Rightarrow> string \<Rightarrow> string option \<Rightarrow> string \<Rightarrow> replica_inode list \<Rightarrow> nat list \<Rightarrow> unit meta_result" where
  "check_part c fs from_snap to_snap ns removed =
     rbind (replica_of c fs) (\<lambda>r.
       if rs_pending r \<noteq> Some to_snap \<and> rs_base r \<noteq> from_snap then Inl Invalid
       else rbind (filesystem c fs) (\<lambda>f.
         rbind (check_replica_inodes f ns bempty) (\<lambda>types. check_removed types removed)))"

section \<open>Applying a part\<close>

text \<open>What a part changed besides the inodes: extents cut out of files, inodes removed, and the
  change of the total file size (\<open>i128\<close> in the source).\<close>

record part_effect =
  pe_dropped :: "extent_id list"
  pe_file_bytes :: int

fun remove_holes :: "nat list \<Rightarrow> extent_map \<Rightarrow> extent_id list \<times> extent_map" where
  "remove_holes [] xs = ([], xs)"
| "remove_holes (h # hs) xs =
     (case remove_holes hs (bdel h xs) of
        (old, xs') \<Rightarrow> ((case bget xs h of None \<Rightarrow> old | Some x \<Rightarrow> x # old), xs'))"

definition replica_attrs :: "replica_inode \<Rightarrow> inode \<Rightarrow> inode" where
  "replica_attrs n i = i\<lparr>i_mode := n_mode n AND 0xFFF, i_uid := n_uid n, i_gid := n_gid n,
     i_nlink := n_nlink n, i_atime_ns := n_atime_ns n, i_mtime_ns := n_mtime_ns n,
     i_ctime_ns := n_ctime_ns n, i_xattrs := n_xattrs n\<rparr>"

definition replica_update ::
    "replica_inode \<Rightarrow> inode \<Rightarrow> (inode \<times> extent_id list \<times> int) meta_result" where
  "replica_update n i = (case i_kind i of
       File sz xs \<Rightarrow>
         let (cut, xs1) = (if n_size n < sz then (bvals (bfrom (n_size n) xs), bbelow (n_size n) xs)
                           else ([], xs));
             (holes, xs2) = remove_holes (n_holes n) xs1
         in Inr ((replica_attrs n i)\<lparr>i_kind := File (n_size n) xs2\<rparr>, cut @ holes,
                 int (n_size n) - int sz)
     | Dir _ es \<Rightarrow> Inr ((replica_attrs n i)\<lparr>i_kind := Dir (n_parent n) es\<rparr>, [], 0)
     | Symlink _ \<Rightarrow> (case n_target n of
           Some t \<Rightarrow> Inr ((replica_attrs n i)\<lparr>i_kind := Symlink t\<rparr>, [], 0)
         | None \<Rightarrow> Inl Panic)
     | Special t _ \<Rightarrow> Inr ((replica_attrs n i)\<lparr>i_kind := Special t (n_rdev n)\<rparr>, [], 0))"

definition replica_create :: "replica_inode \<Rightarrow> (inode \<times> int) meta_result" where
  "replica_create n =
     rbind (case n_node_type n of
         TFile \<Rightarrow> Inr (File (n_size n) bempty)
       | TDir \<Rightarrow> Inr (Dir (n_parent n) bempty)
       | TSymlink \<Rightarrow> (case n_target n of Some t \<Rightarrow> Inr (Symlink t) | None \<Rightarrow> Inl Panic)
       | t \<Rightarrow> Inr (Special t (n_rdev n))) (\<lambda>kind.
       Inr (\<lparr>i_ino = n_ino n, i_kind = kind, i_mode = n_mode n AND 0xFFF, i_uid = n_uid n,
          i_gid = n_gid n, i_nlink = n_nlink n, i_atime_ns = n_atime_ns n, i_mtime_ns = n_mtime_ns n,
          i_ctime_ns = n_ctime_ns n, i_op_id = [], i_xattrs = n_xattrs n\<rparr>,
        if n_node_type n = TFile then int (n_size n) else 0))"

fun set_entries :: "nat \<Rightarrow> (string \<times> nat option) list \<Rightarrow> inode_table \<Rightarrow> (unit, inode_table) change" where
  "set_entries d [] t = (Inr (), t)"
| "set_entries d ((name, x) # es) t =
     andthen (itab_set_entry d name x t) (\<lambda>_ t. set_entries d es t)"

text \<open>Creating or updating the inode, then raising \<open>next_ino\<close>, then its entries.\<close>

definition upsert_inode ::
    "replica_inode \<Rightarrow> fs_meta \<Rightarrow> (extent_id list \<times> int, fs_meta) change" where
  "upsert_inode n f = (case bget (fs_inodes f) (n_ino n) of
       Some i \<Rightarrow> attempt f (replica_update n i) (\<lambda>(i', cut, bytes).
         (Inr (cut, bytes), f\<lparr>fs_inodes := bput (n_ino n) i' (fs_inodes f)\<rparr>))
     | None \<Rightarrow> attempt f (replica_create n) (\<lambda>(i', bytes).
         (Inr ([], bytes), f\<lparr>fs_inodes := bput (n_ino n) i' (fs_inodes f)\<rparr>)))"

fun upsert_inodes ::
    "replica_inode list \<Rightarrow> part_effect \<Rightarrow> fs_meta \<Rightarrow> (part_effect, fs_meta) change" where
  "upsert_inodes [] eff f = (Inr eff, f)"
| "upsert_inodes (n # ns) eff f =
     andthen (upsert_inode n f) (\<lambda>(cut, bytes) f.
       let f1 = f\<lparr>fs_next_ino := max (fs_next_ino f) (wrap_add (n_ino n) 1)\<rparr>
       in case set_entries (n_ino n) (n_entries n) (fs_inodes f1) of
            (Inl e, t) \<Rightarrow> (Inl e, f1\<lparr>fs_inodes := t\<rparr>)
          | (Inr _, t) \<Rightarrow> upsert_inodes ns
              \<lparr>pe_dropped = pe_dropped eff @ cut, pe_file_bytes = pe_file_bytes eff + bytes\<rparr>
              (f1\<lparr>fs_inodes := t\<rparr>))"

fun remove_inodes :: "nat list \<Rightarrow> inode_table \<Rightarrow> inode list \<times> inode_table" where
  "remove_inodes [] t = ([], t)"
| "remove_inodes (ino # inos) t =
     (case remove_inodes inos (bdel ino t) of
        (gone, t') \<Rightarrow> ((case bget t ino of None \<Rightarrow> gone | Some i \<Rightarrow> i # gone), t'))"

definition apply_part_fs ::
    "string \<Rightarrow> replica_inode list \<Rightarrow> nat list \<Rightarrow> fs_meta \<Rightarrow> (part_effect \<times> inode list, fs_meta) change" where
  "apply_part_fs to_snap ns removed f =
     andthen (upsert_inodes ns \<lparr>pe_dropped = [], pe_file_bytes = 0\<rparr> f) (\<lambda>eff f.
       let (gone, t) = remove_inodes removed (fs_inodes f);
           f1 = f\<lparr>fs_inodes := t\<rparr>
       in case fs_replica f1 of
            None \<Rightarrow> (Inl Panic, f1)
          | Some r \<Rightarrow> (Inr (eff, gone), f1\<lparr>fs_replica := Some (r\<lparr>rs_pending := Some to_snap\<rparr>)\<rparr>))"

fun forget_inodes :: "string \<Rightarrow> inode list \<Rightarrow> gc \<Rightarrow> catalog \<Rightarrow> (gc, catalog) change" where
  "forget_inodes fs [] gc c = (Inr gc, c)"
| "forget_inodes fs (i # is) gc c =
     andthen (drop_inode i gc (forget_usage fs i c)) (\<lambda>gc c. forget_inodes fs is gc c)"

definition replica_apply ::
    "string \<Rightarrow> string option \<Rightarrow> string \<Rightarrow> replica_inode list \<Rightarrow> nat list \<Rightarrow> gc \<Rightarrow> catalog
      \<Rightarrow> (gc, catalog) change" where
  "replica_apply fs from_snap to_snap ns removed gc c =
     attempt c (check_part c fs from_snap to_snap ns removed) (\<lambda>_.
     attempt c (replica_of c fs) (\<lambda>r.
       andthen (if rs_pending r \<noteq> None \<and> rs_pending r \<noteq> Some to_snap then discard_partial fs gc c
                else (Inr gc, c)) (\<lambda>gc c.
       andthen (with_fs fs (apply_part_fs to_snap ns removed) c) (\<lambda>(eff, gone) c.
         let dropped_bytes = sum_u64 (map (extent_len c) (pe_dropped eff));
             c1 = edit_usage fs (\<lambda>u.
               u\<lparr>u_file_bytes := nat (max 0 (int (u_file_bytes u) + pe_file_bytes eff)) mod 2 ^ 64,
                 u_used_bytes := sat_sub (u_used_bytes u) dropped_bytes\<rparr>) c
         in andthen (dec_refs (pe_dropped eff) gc c1) (\<lambda>gc c. forget_inodes fs gone gc c)))))"

section \<open>Committing, promoting and demoting\<close>

definition replica_commit ::
    "string \<Rightarrow> string option \<Rightarrow> string \<Rightarrow> string \<Rightarrow> string \<Rightarrow> nat \<Rightarrow> int \<Rightarrow> gc \<Rightarrow> catalog
      \<Rightarrow> (gc, catalog) change" where
  "replica_commit fs from_snap to_snap snapshot name next_ino now_ns gc c =
     attempt c (replica_of c fs) (\<lambda>r.
       if rs_base r = Some to_snap \<and> rs_local r = Some snapshot then (Inr gc, c)
       else
         let started = (rs_pending r = Some to_snap);
             partial = (\<not> started \<and> rs_pending r \<noteq> None)
         in attempt c (guard (started \<or> rs_base r = from_snap) Invalid) (\<lambda>_.
            attempt c (guard (bget (fs_snapshots c) snapshot = None) Exists) (\<lambda>_.
              andthen (if partial then discard_partial fs gc c else (Inr gc, c)) (\<lambda>gc c.
              andthen (with_fs fs (\<lambda>f. (Inr (), f\<lparr>fs_next_ino := max (fs_next_ino f) next_ino,
                  fs_replica := Some \<lparr>rs_base = Some to_snap, rs_local = Some snapshot,
                    rs_pending = None\<rparr>\<rparr>)) c) (\<lambda>_ c.
                keep_gc gc (snapshot_tree snapshot fs name now_ns c))))))"

definition replica_promote :: "string \<Rightarrow> bool \<Rightarrow> gc \<Rightarrow> catalog \<Rightarrow> (gc, catalog) change" where
  "replica_promote fs force gc c =
     attempt c (filesystem c fs) (\<lambda>f. case fs_replica f of
       None \<Rightarrow> (Inr gc, c)
     | Some r \<Rightarrow> (case (rs_local r, rs_pending r) of
           (Some loc, Some _) \<Rightarrow> revert_to fs loc None gc c
         | (Some _, None) \<Rightarrow> keep_gc gc (with_fs fs (\<lambda>f. (Inr (), f\<lparr>fs_replica := None\<rparr>)) c)
         | (None, _) \<Rightarrow>
             if force then keep_gc gc (with_fs fs (\<lambda>f. (Inr (), f\<lparr>fs_replica := None\<rparr>)) c)
             else (Inl Invalid, c)))"

definition replica_demote :: "string \<Rightarrow> string \<Rightarrow> string \<Rightarrow> gc \<Rightarrow> catalog \<Rightarrow> (gc, catalog) change" where
  "replica_demote fs snapshot base gc c =
     attempt c (filesystem c fs) (\<lambda>f. case fs_replica f of
       Some r \<Rightarrow> if rs_local r = Some snapshot \<and> rs_base r = Some base then (Inr gc, c)
                 else (Inl Invalid, c)
     | None \<Rightarrow> revert_to fs snapshot
         (Some \<lparr>rs_base = Some base, rs_local = Some snapshot, rs_pending = None\<rparr>) gc c)"

section \<open>Dispatch\<close>

fun apply_fs_op :: "fs_op \<Rightarrow> gc \<Rightarrow> catalog \<Rightarrow> (gc, catalog) change" where
  "apply_fs_op (CreateFs fs name now_ns extent_bytes) = create_fs fs name now_ns extent_bytes"
| "apply_fs_op (DeleteFs fs) = delete_fs fs"
| "apply_fs_op (Mknode fs parent name op_id nt tgt rdev mode create_mode uid gid now_ns) =
     mknode fs parent name op_id nt tgt rdev mode create_mode uid gid now_ns"
| "apply_fs_op (Link fs ino parent name now_ns) = link fs ino parent name now_ns"
| "apply_fs_op (Unlink fs parent name now_ns) = unlink fs parent name now_ns"
| "apply_fs_op (Rmdir fs parent name now_ns) = rmdir fs parent name now_ns"
| "apply_fs_op (Rename fs parent name new_parent new_name now_ns) =
     rename fs parent name new_parent new_name now_ns"
| "apply_fs_op (SetAttr fs ino attr now_ns) = setattr fs ino attr now_ns"
| "apply_fs_op (SetXattr fs ino name value xmode now_ns) = setxattr fs ino name value xmode now_ns"
| "apply_fs_op (RemoveXattr fs ino name now_ns) = removexattr fs ino name now_ns"
| "apply_fs_op (InstallFileExtent fs ino off x at_least now_ns replica) =
     install_file_extent fs ino off x at_least now_ns replica"
| "apply_fs_op (InstallFileExtents fs ino new at_least now_ns replica) =
     install_file_extents fs ino new at_least now_ns replica"
| "apply_fs_op (SnapshotFs sid fs name now_ns) = snapshot_fs sid fs name now_ns"
| "apply_fs_op (DeleteFsSnapshot sid) = delete_fs_snapshot sid"
| "apply_fs_op (CloneFs sid name snapshot_id) = clone_fs sid name snapshot_id"
| "apply_fs_op (SetQuota fs max_bytes max_inodes) = set_quota fs max_bytes max_inodes"
| "apply_fs_op (CreateReplica fs name now_ns extent_bytes) = create_replica fs name now_ns extent_bytes"
| "apply_fs_op (ReplicaApply fs from_snap to_snap ns removed) = replica_apply fs from_snap to_snap ns removed"
| "apply_fs_op (ReplicaCommit fs from_snap to_snap snapshot name next_ino now_ns) =
     replica_commit fs from_snap to_snap snapshot name next_ino now_ns"
| "apply_fs_op (ReplicaPromote fs force) = replica_promote fs force"
| "apply_fs_op (ReplicaDemote fs snapshot base) = replica_demote fs snapshot base"

definition apply_fs :: "fs_op \<Rightarrow> gc \<Rightarrow> catalog \<Rightarrow> (gc, catalog) change" where
  "apply_fs op gc c =
     attempt c (case client_change op of
         Some fs \<Rightarrow> (case bget (filesystems c) fs of
             Some f \<Rightarrow> guard (fs_replica f = None) ReadOnly | None \<Rightarrow> Inr ())
       | None \<Rightarrow> Inr ()) (\<lambda>_.
     attempt c (case replica_data op of
         Some fs \<Rightarrow> rbind (filesystem c fs) (\<lambda>f. guard (fs_replica f \<noteq> None) Invalid)
       | None \<Rightarrow> Inr ()) (\<lambda>_.
       apply_fs_op op gc c))"

end
