(* ===== verification/Metadata.thy ===== *)
theory Metadata
  imports Replica
begin

text \<open>
  The replicated state machine (\<open>Catalog::apply\<close>, \<open>apply_inner\<close>, \<open>apply_committed\<close> of
  \<open>crates/atlas-native/src/metadata.rs\<close>): one handler per command, and the bookkeeping of the
  applied index. A handler returns the extents that became unreferenced.
\<close>

section \<open>Volumes and snapshots\<close>

definition create_volume :: "string \<Rightarrow> string \<Rightarrow> nat \<Rightarrow> catalog \<Rightarrow> (gc, catalog) change" where
  "create_volume vid name size_bytes c = (case bget (volumes c) vid of
       Some v \<Rightarrow> if v_name v = name \<and> v_size_bytes v = size_bytes then (Inr [], c) else (Inl Invalid, c)
     | None \<Rightarrow> (Inr [], c\<lparr>volumes := bput vid
         \<lparr>v_id = vid, v_name = name, v_size_bytes = size_bytes, v_extents = bempty\<rparr> (volumes c)\<rparr>))"

definition install_extent :: "string \<Rightarrow> nat \<Rightarrow> extent_ref \<Rightarrow> catalog \<Rightarrow> (gc, catalog) change" where
  "install_extent vid off x c =
     attempt c (extent_check x) (\<lambda>_.
     attempt c (ok_or (bget (volumes c) vid) NotFound) (\<lambda>v.
       let old = bget (v_extents v) off;
           c1 = c\<lparr>volumes := bput vid (v\<lparr>v_extents := bput off (x_id x) (v_extents v)\<rparr>) (volumes c)\<rparr>;
           c2 = add_extent_ref x c1
       in case old of None \<Rightarrow> (Inr [], c2) | Some old_id \<Rightarrow> dec_ref old_id [] c2))"

definition install_extents :: "string \<Rightarrow> extent_ref list \<Rightarrow> catalog \<Rightarrow> (gc, catalog) change" where
  "install_extents vid xs c =
     attempt c (extents_check xs) (\<lambda>_.
     attempt c (ok_or (bget (volumes c) vid) NotFound) (\<lambda>v.
       let (old, m) = insert_extents (map (\<lambda>x. (x_logical_offset x, x_id x)) xs) (v_extents v);
           c1 = c\<lparr>volumes := bput vid (v\<lparr>v_extents := m\<rparr>) (volumes c)\<rparr>;
           c2 = fold add_extent_ref xs c1
       in dec_refs old [] c2))"

definition create_snapshot :: "string \<Rightarrow> string \<Rightarrow> string \<Rightarrow> catalog \<Rightarrow> (gc, catalog) change" where
  "create_snapshot sid vid name c = (case bget (snapshots c) sid of
       Some s \<Rightarrow> if sn_volume_id s = vid \<and> sn_name s = name then (Inr [], c) else (Inl Invalid, c)
     | None \<Rightarrow>
         attempt c (ok_or (bget (volumes c) vid) NotFound) (\<lambda>v.
           andthen (inc_refs (bvals (v_extents v)) c) (\<lambda>_ c.
             (Inr [], c\<lparr>snapshots := bput sid \<lparr>sn_id = sid, sn_volume_id = vid, sn_name = name,
                sn_size_bytes = v_size_bytes v, sn_extents = v_extents v\<rparr> (snapshots c)\<rparr>))))"

definition delete_snapshot :: "string \<Rightarrow> catalog \<Rightarrow> (gc, catalog) change" where
  "delete_snapshot sid c =
     attempt c (ok_or (bget (snapshots c) sid) NotFound) (\<lambda>s.
       dec_refs (bvals (sn_extents s)) [] (c\<lparr>snapshots := bdel sid (snapshots c)\<rparr>))"

definition delete_volume :: "string \<Rightarrow> catalog \<Rightarrow> (gc, catalog) change" where
  "delete_volume vid c =
     attempt c (ok_or (bget (volumes c) vid) NotFound) (\<lambda>v.
       dec_refs (bvals (v_extents v)) [] (c\<lparr>volumes := bdel vid (volumes c)\<rparr>))"

definition resize_volume :: "string \<Rightarrow> nat \<Rightarrow> catalog \<Rightarrow> (gc, catalog) change" where
  "resize_volume vid size_bytes c =
     attempt c (ok_or (bget (volumes c) vid) NotFound) (\<lambda>v.
     attempt c (guard (v_size_bytes v \<le> size_bytes) Invalid) (\<lambda>_.
       (Inr [], c\<lparr>volumes := bput vid (v\<lparr>v_size_bytes := size_bytes\<rparr>) (volumes c)\<rparr>)))"

definition clone_snapshot ::
    "string \<Rightarrow> string \<Rightarrow> string \<Rightarrow> nat option \<Rightarrow> catalog \<Rightarrow> (gc, catalog) change" where
  "clone_snapshot vid name sid size_bytes c = (case bget (volumes c) vid of
       Some v \<Rightarrow> if v_name v = name then (Inr [], c) else (Inl Invalid, c)
     | None \<Rightarrow>
         attempt c (ok_or (bget (snapshots c) sid) NotFound) (\<lambda>s.
           let floor = (if sn_size_bytes s > 0 then sn_size_bytes s else written_end c (sn_extents s));
               sz = (case size_bytes of None \<Rightarrow> floor | Some b \<Rightarrow> b)
           in attempt c (guard (\<not> (sz = 0 \<or> sz < floor)) Invalid) (\<lambda>_.
             andthen (inc_refs (bvals (sn_extents s)) c) (\<lambda>_ c.
               (Inr [], c\<lparr>volumes := bput vid \<lparr>v_id = vid, v_name = name, v_size_bytes = sz,
                  v_extents = sn_extents s\<rparr> (volumes c)\<rparr>)))))"

section \<open>Space\<close>

definition replica_place :: "replica_ref \<Rightarrow> place" where
  "replica_place r = (r_node_id r, r_device_index r, r_offset r)"

text \<open>Releasing one range per replica; the first double free stops it.\<close>

definition release_replicas :: "replica_ref list \<Rightarrow> nat \<Rightarrow> catalog \<Rightarrow> (gc, catalog) change" where
  "release_replicas rs ln c = (case release_all fl_release (free c) (map replica_place rs) ln of
       (True, fl) \<Rightarrow> (Inr [], c\<lparr>free := fl\<rparr>)
     | (False, fl) \<Rightarrow> (Inl Invalid, c\<lparr>free := fl\<rparr>))"

definition mark_extent_reclaimed :: "extent_id \<Rightarrow> catalog \<Rightarrow> (gc, catalog) change" where
  "mark_extent_reclaimed e c =
     attempt c (ok_or (bget (extents c) e) NotFound) (\<lambda>m.
     attempt c (guard (em_refs m = 0) Invalid) (\<lambda>_.
       release_replicas (x_replicas (em_extent m)) (stored_len (em_extent m))
         (c\<lparr>extents := bdel e (extents c)\<rparr>)))"

definition tier_extent :: "extent_id \<Rightarrow> string \<Rightarrow> replica_ref list \<Rightarrow> catalog \<Rightarrow> (gc, catalog) change" where
  "tier_extent e key rs c =
     attempt c (ok_or (bget (extents c) e) NotFound) (\<lambda>m.
     attempt c (guard (x_object (em_extent m) = None) Invalid) (\<lambda>_.
     attempt c (guard (\<not> (x_replicas (em_extent m) \<noteq> rs \<or> rs = [])) Invalid) (\<lambda>_.
       let ln = stored_len (em_extent m);
           m' = m\<lparr>em_extent := (em_extent m)\<lparr>x_replicas := [], x_ec := None, x_object := Some key\<rparr>\<rparr>
       in release_replicas (x_replicas (em_extent m)) ln (c\<lparr>extents := bput e m' (extents c)\<rparr>))))"

definition replace_replica ::
    "extent_id \<Rightarrow> replica_ref \<Rightarrow> replica_ref \<Rightarrow> catalog \<Rightarrow> (gc, catalog) change" where
  "replace_replica e old new c =
     attempt c (guard (old \<noteq> new) Invalid) (\<lambda>_.
     attempt c (ok_or (bget (extents c) e) NotFound) (\<lambda>m.
     attempt c (ok_or (position (\<lambda>r. r = old) (x_replicas (em_extent m))) Invalid) (\<lambda>pos.
     attempt c (guard (\<not> list_ex (\<lambda>(i, r). i \<noteq> pos \<and> r_node_id r = r_node_id new)
         (zip [0..<length (x_replicas (em_extent m))] (x_replicas (em_extent m)))) Invalid) (\<lambda>_.
       let ln = stored_len (em_extent m);
           m' = m\<lparr>em_extent := (em_extent m)\<lparr>x_replicas := (x_replicas (em_extent m))[pos := new]\<rparr>\<rparr>;
           c1 = c\<lparr>extents := bput e m' (extents c),
                  free := snd (fl_reserve (free c) (r_node_id new) (r_device_index new) (r_offset new) ln)\<rparr>
       in release_replicas [old] ln c1))))"

section \<open>Membership and leases\<close>

definition change_membership ::
    "membership \<Rightarrow> (string, string) btree \<Rightarrow> catalog \<Rightarrow> (gc, catalog) change" where
  "change_membership m addrs c =
     attempt c (guard (voters m \<noteq> {||}) Invalid) (\<lambda>_.
     attempt c (guard (case m of Joint old new \<Rightarrow> \<not> (old = {||} \<or> new = {||}) | _ \<Rightarrow> True) Invalid) (\<lambda>_.
       (Inr [], c\<lparr>raft_addrs := bextend (raft_addrs c) (bitems addrs), membership_of := Some m\<rparr>)))"

definition regular_file :: "catalog \<Rightarrow> string \<Rightarrow> nat \<Rightarrow> unit meta_result" where
  "regular_file c fs ino =
     rbind (ok_or (bget (filesystems c) fs) NotFound) (\<lambda>f.
     rbind (fs_inode f ino) (\<lambda>i. case i_kind i of File _ _ \<Rightarrow> Inr () | _ \<Rightarrow> Inl Invalid))"

definition lease_command :: "lease_op \<Rightarrow> nat \<Rightarrow> catalog \<Rightarrow> (gc, catalog) change" where
  "lease_command op term c = (case leases_apply (regular_file c) term op (leases_of c) of
       (Inl e, l) \<Rightarrow> (Inl e, c\<lparr>leases_of := l\<rparr>)
     | (Inr _, l) \<Rightarrow> (Inr [], c\<lparr>leases_of := l\<rparr>))"

section \<open>Applying a command\<close>

fun run_command :: "nat \<Rightarrow> meta_command \<Rightarrow> catalog \<Rightarrow> (gc, catalog) change" where
  "run_command term (CreateVolume vid name size_bytes) c = create_volume vid name size_bytes c"
| "run_command term (InstallExtent vid off x) c = install_extent vid off x c"
| "run_command term (InstallExtents vid xs) c = install_extents vid xs c"
| "run_command term (CreateSnapshot sid vid name) c = create_snapshot sid vid name c"
| "run_command term (DeleteSnapshot sid) c = delete_snapshot sid c"
| "run_command term (DeleteVolume vid) c = delete_volume vid c"
| "run_command term (ResizeVolume vid size_bytes) c = resize_volume vid size_bytes c"
| "run_command term (CloneSnapshot vid name sid size_bytes) c = clone_snapshot vid name sid size_bytes c"
| "run_command term (MarkExtentReclaimed e) c = mark_extent_reclaimed e c"
| "run_command term (ReplaceReplica e old new) c = replace_replica e old new c"
| "run_command term (TierExtent e key rs) c = tier_extent e key rs c"
| "run_command term (ChangeMembership m addrs) c = change_membership m addrs c"
| "run_command term (FsCommand op) c = apply_fs op [] c"
| "run_command term (LeaseCommand op) c = lease_command op term c"
| "run_command term Noop c = (Inr [], c)"

definition applied :: "nat \<Rightarrow> nat \<Rightarrow> catalog \<Rightarrow> catalog" where
  "applied term index c = c\<lparr>current_term := term, applied_index := index\<rparr>"

definition apply_inner :: "nat \<Rightarrow> nat \<Rightarrow> meta_command \<Rightarrow> catalog \<Rightarrow> (gc, catalog) change" where
  "apply_inner term index cmd c =
     (if index \<le> applied_index c then (Inr [], c)
      else andthen (run_command term cmd c) (\<lambda>gc c. (Inr gc, applied term index c)))"

text \<open>\<open>Catalog::apply\<close>: a store that cannot be read ends the process.\<close>

definition catalog_apply :: "nat \<Rightarrow> nat \<Rightarrow> meta_command \<Rightarrow> catalog \<Rightarrow> (gc, catalog) change" where
  "catalog_apply term index cmd c = (case apply_inner term index cmd c of
       (Inl Store, c') \<Rightarrow> (Inl Panic, c') | r \<Rightarrow> r)"

text \<open>\<open>apply_committed\<close>: a rejected command still consumes its index. A call that panics or does
  not return leaves no state for anyone to read.\<close>

definition apply_committed :: "nat \<Rightarrow> nat \<Rightarrow> meta_command \<Rightarrow> catalog \<Rightarrow> (gc, catalog) change" where
  "apply_committed term index cmd c = (case catalog_apply term index cmd c of
       (Inl e, c') \<Rightarrow>
         if e = Panic \<or> e = Diverge then (Inl e, c')
         else (Inl e, if applied_index c' < index then applied term index c' else c')
     | r \<Rightarrow> r)"

end
