(* ===== verification/FsShape.thy ===== *)
theory FsShape
  imports Metadata
begin

text \<open>
  What the operations on one filesystem do to its files, seen from outside the directory
  structure. Moving names and link counts around keeps the \<open>shape\<close> of the inode table: which
  inodes there are, which are directories, and what each file holds. The lemmas of this theory
  say that once an operation passes its checks it succeeds, that a failed operation leaves the
  filesystem as it was, and that every sum over files changes only by what was removed.
\<close>

section \<open>Shapes\<close>

text \<open>Size and extents of a file; an empty file counts as nothing, like anything else.\<close>

definition file_part :: "inode \<Rightarrow> (nat \<times> extent_map) option" where
  "file_part i = (case i_kind i of
       File sz xs \<Rightarrow> if sz = 0 \<and> xs = bempty then None else Some (sz, xs) | _ \<Rightarrow> None)"

text \<open>A special inode has the type of a fifo, a socket or a device.\<close>

definition special_ok :: "inode \<Rightarrow> bool" where
  "special_ok i = (case i_kind i of Special t _ \<Rightarrow> t \<notin> {TFile, TDir, TSymlink} | _ \<Rightarrow> True)"

definition inode_like :: "inode \<Rightarrow> inode \<Rightarrow> bool" where
  "inode_like i j \<longleftrightarrow>
     file_part i = file_part j \<and> is_dir i = is_dir j \<and> i_ino i = i_ino j \<and> special_ok i = special_ok j"

definition shape :: "inode_table \<Rightarrow> inode_table \<Rightarrow> bool" where
  "shape t u \<longleftrightarrow> (\<forall>k. rel_option inode_like (bget t k) (bget u k))"

lemma inode_like_refl [simp]: "inode_like i i"
  by (simp add: inode_like_def)

lemma inode_like_trans: "inode_like i j \<Longrightarrow> inode_like j k \<Longrightarrow> inode_like i k"
  by (simp add: inode_like_def)

lemma shape_refl [simp]: "shape t t"
  by (simp add: shape_def option.rel_refl)

lemma shape_trans:
  assumes "shape t u" and "shape u v"
  shows "shape t v"
  unfolding shape_def
proof
  fix k
  have "rel_option inode_like (bget t k) (bget u k)" "rel_option inode_like (bget u k) (bget v k)"
    using assms by (simp_all add: shape_def)
  then show "rel_option inode_like (bget t k) (bget v k)"
    by (cases "bget t k"; cases "bget u k"; cases "bget v k") (auto intro: inode_like_trans)
qed

lemma shape_bput: "bget t k = Some i \<Longrightarrow> inode_like i j \<Longrightarrow> shape t (bput k j t)"
  by (auto simp: shape_def option.rel_refl)

lemma shape_SomeD: "shape t u \<Longrightarrow> bget t k = Some i \<Longrightarrow> \<exists>j. bget u k = Some j \<and> inode_like i j"
  by (metis option.rel_cases option.sel option.distinct(1) shape_def)

lemma shape_None_iff: "shape t u \<Longrightarrow> bget t k = None \<longleftrightarrow> bget u k = None"
  by (metis option.rel_distinct(1,2) option.exhaust shape_def)

lemma shape_bdel: "shape t u \<Longrightarrow> shape (bdel k t) (bdel k u)"
  by (simp add: shape_def)

text \<open>The files of a table, as a multiset of their sizes and extents: every total over files is
  a sum over it.\<close>

definition the_file :: "inode option \<Rightarrow> (nat \<times> extent_map) multiset" where
  "the_file x = (case Option.bind x file_part of None \<Rightarrow> {#} | Some p \<Rightarrow> {#p#})"

definition files :: "inode_table \<Rightarrow> (nat \<times> extent_map) multiset" where
  "files t = bsum (\<lambda>i. the_file (Some i)) t"

lemma the_file_simps [simp]:
  "the_file None = {#}" "bopt (\<lambda>i. the_file (Some i)) x = the_file x"
  by (simp_all add: the_file_def bopt_def split: option.splits)

lemma inode_like_file: "inode_like i j \<Longrightarrow> the_file (Some j) = the_file (Some i)"
  by (simp add: inode_like_def the_file_def)

lemma files_shape:
  assumes "shape t u"
  shows "files u = files t"
proof -
  have dom: "{k. bget u k \<noteq> None} = {k. bget t k \<noteq> None}"
    using shape_None_iff [OF assms] by auto
  show ?thesis
    unfolding files_def bsum_over_keys dom
  proof (rule sum.cong [OF refl])
    fix k assume "k \<in> {k. bget t k \<noteq> None}"
    then obtain i where "bget t k = Some i" by blast
    with shape_SomeD [OF assms this] show "the_file (Some (the (bget u k))) = the_file (Some (the (bget t k)))"
      by (auto dest: inode_like_file)
  qed
qed

lemma files_bput: "files (bput k i t) + the_file (bget t k) = files t + the_file (Some i)"
  using bsum_bput [of "\<lambda>i. the_file (Some i)" k i t] by (simp add: files_def)

lemma files_bdel: "files (bdel k t) + the_file (bget t k) = files t"
  using bsum_bdel [of "\<lambda>i. the_file (Some i)" k t] by (simp add: files_def)

lemma files_bput_new: "bget t k = None \<Longrightarrow> files (bput k i t) = files t + the_file (Some i)"
  using files_bput [of k i t] by simp

definition inos_ok :: "inode_table \<Rightarrow> nat \<Rightarrow> bool" where
  "inos_ok t next \<longleftrightarrow> (\<forall>k i. bget t k = Some i \<longrightarrow> k < next \<and> i_ino i = k \<and> special_ok i)"

lemma inos_ok_shape:
  assumes "shape t u" and "inos_ok t next"
  shows "inos_ok u next"
  unfolding inos_ok_def
proof (intro allI impI)
  fix k j assume j: "bget u k = Some j"
  then obtain i where i: "bget t k = Some i" using shape_None_iff [OF assms(1), of k] by auto
  with shape_SomeD [OF assms(1) i] j have "inode_like i j" by auto
  with i assms(2) show "k < next \<and> i_ino j = k \<and> special_ok j" by (auto simp: inos_ok_def inode_like_def)
qed

lemma inos_ok_bdel: "inos_ok t next \<Longrightarrow> inos_ok (bdel k t) next"
  by (simp add: inos_ok_def)

lemma inos_ok_bput:
  "inos_ok t next \<Longrightarrow> i_ino i = k \<Longrightarrow> special_ok i \<Longrightarrow> k < next \<Longrightarrow> inos_ok (bput k i t) next"
  by (simp add: inos_ok_def)

lemma inos_ok_mono: "inos_ok t n \<Longrightarrow> n \<le> m \<Longrightarrow> inos_ok t m"
  unfolding inos_ok_def by (meson less_le_trans)

definition fs_wf :: "fs_meta \<Rightarrow> bool" where
  "fs_wf f \<longleftrightarrow> inos_ok (fs_inodes f) (fs_next_ino f)"

section \<open>Steps that keep the shape\<close>

definition same_shape :: "fs_meta \<Rightarrow> fs_meta \<Rightarrow> bool" where
  "same_shape f f' \<longleftrightarrow> shape (fs_inodes f) (fs_inodes f') \<and> f' = f\<lparr>fs_inodes := fs_inodes f'\<rparr>"

lemma same_shape_refl [simp]: "same_shape f f"
  by (simp add: same_shape_def)

lemma same_shape_trans: "same_shape f f' \<Longrightarrow> same_shape f' f'' \<Longrightarrow> same_shape f f''"
  unfolding same_shape_def by (cases f, cases f', cases f'') (auto intro: shape_trans)

definition dir_at :: "fs_meta \<Rightarrow> nat \<Rightarrow> bool" where
  "dir_at f d \<longleftrightarrow> (\<exists>i. bget (fs_inodes f) d = Some i \<and> is_dir i)"

definition node_at :: "fs_meta \<Rightarrow> nat \<Rightarrow> bool" where
  "node_at f k \<longleftrightarrow> bget (fs_inodes f) k \<noteq> None"

lemma fs_inode_eq_Inr [simp]: "fs_inode f k = Inr i \<longleftrightarrow> bget (fs_inodes f) k = Some i"
  by (simp add: fs_inode_def)

lemma fs_dir_eq_Inr: "fs_dir f d = Inr i \<longleftrightarrow> bget (fs_inodes f) d = Some i \<and> is_dir i"
  by (auto simp: fs_dir_def rbind_eq_Inr split: if_splits)

lemma is_dir_Dir: "is_dir i \<longleftrightarrow> (\<exists>p es. i_kind i = Dir p es)"
  by (cases "i_kind i") (auto simp: is_dir_def is_dir_kind_def)

lemma same_shape_at:
  assumes "same_shape f f'"
  shows "dir_at f d \<longleftrightarrow> dir_at f' d" "node_at f k \<longleftrightarrow> node_at f' k"
proof -
  have s: "shape (fs_inodes f) (fs_inodes f')" using assms by (simp add: same_shape_def)
  show "node_at f k \<longleftrightarrow> node_at f' k" using shape_None_iff [OF s] by (simp add: node_at_def)
  show "dir_at f d \<longleftrightarrow> dir_at f' d"
    using shape_None_iff [OF s, of d] shape_SomeD [OF s, of d]
    by (cases "bget (fs_inodes f) d") (auto simp: dir_at_def inode_like_def)
qed

lemma edit_inode_at:
  assumes "bget (fs_inodes f) k = Some i"
  shows "edit_inode k g f = (Inr (), f\<lparr>fs_inodes := bput k (g i) (fs_inodes f)\<rparr>)"
  using assms by (simp add: edit_inode_def fs_inode_def)

lemma edit_inode_shape:
  assumes "node_at f k" and "\<And>i. inode_like i (g i)"
  obtains f' where "edit_inode k g f = (Inr (), f')" "same_shape f f'"
proof -
  obtain i where i: "bget (fs_inodes f) k = Some i" using assms(1) by (auto simp: node_at_def)
  show thesis
    by (rule that [OF edit_inode_at [OF i]])
      (use shape_bput [OF i assms(2)] in \<open>simp add: same_shape_def\<close>)
qed

lemma fs_set_entry_at:
  assumes "bget (fs_inodes f) d = Some i" and "i_kind i = Dir p es"
  shows "fs_set_entry d name x f =
    (Inr (), f\<lparr>fs_inodes := bput d (i\<lparr>i_kind := Dir p (put_entry name x es)\<rparr>) (fs_inodes f)\<rparr>)"
  using assms by (simp add: fs_set_entry_def itab_set_entry_def fs_dir_def fs_inode_def is_dir_Dir)

lemma fs_set_entry_shape:
  assumes "dir_at f d"
  obtains f' where "fs_set_entry d name x f = (Inr (), f')" "same_shape f f'"
proof -
  obtain i p es where i: "bget (fs_inodes f) d = Some i" "i_kind i = Dir p es"
    using assms by (auto simp: dir_at_def is_dir_Dir)
  have "inode_like i (i\<lparr>i_kind := Dir p (put_entry name x es)\<rparr>)"
    using i(2) by (simp add: inode_like_def special_ok_def file_part_def is_dir_Dir)
  then show thesis
    using that [OF fs_set_entry_at [OF i]] shape_bput [OF i(1)] by (simp add: same_shape_def)
qed

lemma dir_changed_shape:
  assumes "node_at f d"
  obtains f' where "dir_changed d n now f = (Inr (), f')" "same_shape f f'"
proof -
  have "inode_like i (itouch now (i\<lparr>i_nlink := add_links (i_nlink i) n\<rparr>))" for i
    by (simp add: inode_like_def special_ok_def file_part_def is_dir_def itouch_def)
  from edit_inode_shape [OF assms this] show thesis using that by (metis dir_changed_def)
qed

lemma dir_node_at: "dir_at f d \<Longrightarrow> node_at f d"
  by (auto simp: dir_at_def node_at_def)

lemma same_shape_files: "same_shape f f' \<Longrightarrow> files (fs_inodes f') = files (fs_inodes f)"
  unfolding same_shape_def using files_shape by blast

lemma same_shape_next: "same_shape f f' \<Longrightarrow> fs_next_ino f' = fs_next_ino f"
  unfolding same_shape_def by (cases f, cases f') simp

lemma same_shape_wf: "same_shape f f' \<Longrightarrow> fs_wf f \<Longrightarrow> fs_wf f'"
  by (metis fs_wf_def inos_ok_shape same_shape_def same_shape_next)

text \<open>Dropping a link either keeps the shape or removes the inode.\<close>

lemma drop_link_cases:
  assumes "bget (fs_inodes f) k = Some i"
  obtains (kept) f' where "drop_link k now f = (Inr None, f')" "same_shape f f'"
  | (gone) i' where "drop_link k now f = (Inr (Some i'), f\<lparr>fs_inodes := bdel k (fs_inodes f)\<rparr>)" "inode_like i i'"
proof (cases "i_nlink i \<le> 1")
  case True
  with assms show thesis
    by (intro gone [of "i\<lparr>i_nlink := 0, i_ctime_ns := now\<rparr>"])
      (auto simp: drop_link_def fs_inode_def Let_def inode_like_def special_ok_def file_part_def is_dir_def)
next
  case False
  let ?i = "i\<lparr>i_nlink := i_nlink i - 1, i_ctime_ns := now\<rparr>"
  have "inode_like i ?i" by (simp add: inode_like_def special_ok_def file_part_def is_dir_def)
  with False assms show thesis
    by (intro kept [of "f\<lparr>fs_inodes := bput k ?i (fs_inodes f)\<rparr>"])
      (auto simp: drop_link_def fs_inode_def Let_def same_shape_def intro: shape_bput)
qed

section \<open>The effect of an operation on one filesystem\<close>

text \<open>
  \<open>fs_effect f r\<close>: a failure leaves the filesystem as it was; a success keeps everything but
  the table and the next inode number, keeps the table well formed, and every sum over files
  is what it was less the file that was removed, if any.
\<close>

definition fs_frame :: "fs_meta \<Rightarrow> fs_meta \<Rightarrow> bool" where
  "fs_frame f f' \<longleftrightarrow> f' = f\<lparr>fs_inodes := fs_inodes f', fs_next_ino := fs_next_ino f'\<rparr>"

definition fs_ok :: "fs_meta \<Rightarrow> bool" where
  "fs_ok f \<longleftrightarrow> fs_wf f \<and> fs_next_ino f < u64_max"

definition fs_effect :: "fs_meta \<Rightarrow> (inode option, fs_meta) change \<Rightarrow> bool" where
  "fs_effect f r \<longleftrightarrow> fs_ok f \<longrightarrow> (case r of
       (Inl e, f') \<Rightarrow> f' = f
     | (Inr gone, f') \<Rightarrow> fs_frame f f' \<and> fs_wf f' \<and> files (fs_inodes f) = files (fs_inodes f') + the_file gone)"

lemma fs_effect_error [simp]: "fs_effect f (Inl e, f)"
  by (simp add: fs_effect_def)

lemma fs_effect_attempt:
  "(\<And>a. r = Inr a \<Longrightarrow> fs_effect f (k a)) \<Longrightarrow> fs_effect f (attempt f r k)"
  by (cases r) simp_all

lemma same_shape_frame: "same_shape f f' \<Longrightarrow> fs_frame f f'"
  unfolding same_shape_def fs_frame_def by (cases f, cases f') simp

lemma fs_effect_shape: "same_shape f f' \<Longrightarrow> fs_effect f (Inr None, f')"
  by (simp add: fs_effect_def fs_ok_def same_shape_frame same_shape_files same_shape_wf)

lemma fs_effect_unchanged [simp]: "fs_effect f (Inr None, f)"
  by (simp add: fs_effect_shape)

text \<open>Removing an inode after steps that kept the shape: \<open>gone\<close> has its file, if it is one.\<close>

lemma fs_effect_remove:
  assumes "same_shape f f'" and "bget (fs_inodes f') k = Some i" and "the_file gone = the_file (Some i)"
  shows "fs_effect f (Inr gone, f'\<lparr>fs_inodes := bdel k (fs_inodes f')\<rparr>)"
proof -
  have "files (fs_inodes f) = files (bdel k (fs_inodes f')) + the_file gone"
    using files_bdel [of k "fs_inodes f'"] assms(2,3) same_shape_files [OF assms(1)] by simp
  moreover have "fs_wf (f'\<lparr>fs_inodes := bdel k (fs_inodes f')\<rparr>)" if "fs_wf f"
    using same_shape_wf [OF assms(1) that] by (simp add: fs_wf_def inos_ok_bdel)
  moreover have "fs_frame f (f'\<lparr>fs_inodes := bdel k (fs_inodes f')\<rparr>)"
    using assms(1) unfolding same_shape_def fs_frame_def by (cases f, cases f') simp
  ultimately show ?thesis by (simp add: fs_effect_def fs_ok_def)
qed

lemma the_file_dir: "is_dir i \<Longrightarrow> the_file (Some i) = {#}"
  by (auto simp: the_file_def file_part_def is_dir_Dir)

text \<open>Results without an inode: nothing was removed.\<close>

definition no_inode :: "(unit, fs_meta) change \<Rightarrow> (inode option, fs_meta) change" where
  "no_inode r = andthen r (\<lambda>_ f. (Inr None, f))"

lemma no_inode_simps [simp]:
  "no_inode (Inl e, f) = (Inl e, f)" "no_inode (Inr u, f) = (Inr None, f)"
  "no_inode (attempt s r k) = attempt s r (\<lambda>a. no_inode (k a))"
  "no_inode (andthen q h) = andthen q (\<lambda>a f. no_inode (h a f))"
  by (auto simp: no_inode_def attempt_def andthen_def split: sum.splits prod.splits)

section \<open>The operations\<close>

lemma link_effect: "fs_effect f (no_inode (link_fs ino parent name now f))"
proof -
  have "fs_effect f (no_inode
      (andthen (fs_set_entry parent name (Some ino) f) (\<lambda>_ f.
       andthen (dir_changed parent 0 now f) (\<lambda>_ f.
         edit_inode ino (\<lambda>i. i\<lparr>i_nlink := (i_nlink i + 1) mod 2 ^ 32, i_ctime_ns := now\<rparr>) f))))"
    if "dir_at f parent" "node_at f ino"
  proof -
    obtain f1 where 1: "fs_set_entry parent name (Some ino) f = (Inr (), f1)" "same_shape f f1"
      using fs_set_entry_shape [OF \<open>dir_at f parent\<close>] .
    have "node_at f1 parent" "node_at f1 ino"
      using that same_shape_at [OF 1(2)] dir_node_at by blast+
    then obtain f2 where 2: "dir_changed parent 0 now f1 = (Inr (), f2)" "same_shape f1 f2"
      using dir_changed_shape by blast
    have "node_at f2 ino" using \<open>node_at f1 ino\<close> same_shape_at [OF 2(2)] by blast
    then obtain f3 where 3: "edit_inode ino (\<lambda>i. i\<lparr>i_nlink := (i_nlink i + 1) mod 2 ^ 32,
        i_ctime_ns := now\<rparr>) f2 = (Inr (), f3)" "same_shape f2 f3"
      by (rule edit_inode_shape [where g = "\<lambda>i. i\<lparr>i_nlink := (i_nlink i + 1) mod 2 ^ 32, i_ctime_ns := now\<rparr>"])
        (auto simp: inode_like_def special_ok_def file_part_def is_dir_def)
    show ?thesis
      using fs_effect_shape [OF same_shape_trans [OF 1(2) same_shape_trans [OF 2(2) 3(2)]]] 1(1) 2(1) 3(1)
      by simp
  qed
  then show ?thesis
    unfolding link_fs_def no_inode_simps
    by (intro fs_effect_attempt) (auto simp: fs_entry_def rbind_eq_Inr fs_dir_eq_Inr dir_at_def node_at_def
        split: option.split)
qed

lemma unlink_effect: "fs_effect f (unlink_fs parent name now f)"
proof -
  have "fs_effect f
      (andthen (fs_set_entry parent name None f) (\<lambda>_ f.
       andthen (dir_changed parent 0 now f) (\<lambda>_ f. drop_link ino now f)))"
    if "dir_at f parent" "node_at f ino" for ino
  proof -
    obtain f1 where 1: "fs_set_entry parent name None f = (Inr (), f1)" "same_shape f f1"
      using fs_set_entry_shape [OF \<open>dir_at f parent\<close>] .
    have "node_at f1 parent" using that same_shape_at [OF 1(2)] dir_node_at by blast
    then obtain f2 where 2: "dir_changed parent 0 now f1 = (Inr (), f2)" "same_shape f1 f2"
      using dir_changed_shape by blast
    note sh = same_shape_trans [OF 1(2) 2(2)]
    obtain i where i: "bget (fs_inodes f2) ino = Some i"
      using \<open>node_at f ino\<close> same_shape_at [OF sh] by (auto simp: node_at_def)
    show ?thesis
      by (cases rule: drop_link_cases [OF i, of now])
        (use 1(1) 2(1) sh i in \<open>auto intro: fs_effect_shape fs_effect_remove same_shape_trans inode_like_file\<close>)
  qed
  then show ?thesis
    unfolding unlink_fs_def
    by (intro fs_effect_attempt) (auto simp: fs_lookup_def fs_entry_def rbind_eq_Inr fs_dir_eq_Inr dir_at_def
        node_at_def)
qed

lemma rmdir_effect: "fs_effect f (no_inode (rmdir_fs parent name now f))"
proof -
  have "fs_effect f (no_inode
      (andthen (fs_set_entry parent name None f) (\<lambda>_ f.
       andthen (dir_changed parent (- 1) now f) (\<lambda>_ f.
         (Inr (), f\<lparr>fs_inodes := bdel ino (fs_inodes f)\<rparr>)))))"
    if "dir_at f parent" "dir_at f ino" for ino
  proof -
    obtain f1 where 1: "fs_set_entry parent name None f = (Inr (), f1)" "same_shape f f1"
      using fs_set_entry_shape [OF \<open>dir_at f parent\<close>] .
    have "node_at f1 parent" using that same_shape_at [OF 1(2)] dir_node_at by blast
    then obtain f2 where 2: "dir_changed parent (- 1) now f1 = (Inr (), f2)" "same_shape f1 f2"
      using dir_changed_shape by blast
    note sh = same_shape_trans [OF 1(2) 2(2)]
    have "dir_at f2 ino" using \<open>dir_at f ino\<close> same_shape_at [OF sh] by blast
    then obtain i where "bget (fs_inodes f2) ino = Some i" "is_dir i" by (auto simp: dir_at_def)
    with fs_effect_remove [OF sh this(1), of None] show ?thesis
      using 1(1) 2(1) by (simp add: the_file_dir)
  qed
  then show ?thesis
    unfolding rmdir_fs_def no_inode_simps
    by (intro fs_effect_attempt) (auto simp: fs_lookup_def fs_entry_def rbind_eq_Inr fs_dir_eq_Inr dir_at_def)
qed

text \<open>Creating a node: the new inode number is unused, so nothing is overwritten.\<close>

lemma mknode_kind_empty:
  "mknode_kind parent nt tgt rdev = Inr kind \<Longrightarrow> i_kind i = kind \<Longrightarrow> the_file (Some i) = {#}"
  by (cases nt) (auto simp: mknode_kind_def the_file_def file_part_def eq_commute [of _ "i_kind i"]
      split: option.splits if_splits)

lemma mknode_kind_special:
  "mknode_kind parent nt tgt rdev = Inr kind \<Longrightarrow> i_kind i = kind \<Longrightarrow> special_ok i"
  by (cases nt) (auto simp: mknode_kind_def special_ok_def eq_commute [of _ "i_kind i"]
      split: option.splits if_splits)

lemma mknode_insert_effect:
  assumes "dir_at f parent" and "mknode_kind parent nt tgt rdev = Inr kind"
  shows "fs_effect f (no_inode (mknode_insert parent name op_id kind mode acls uid gid now f))"
proof (cases "fs_ok f")
  case True
  define ino where "ino = fs_next_ino f"
  define i where "i = (inode_new ino kind mode uid gid now)\<lparr>i_op_id := op_id, i_xattrs := bextend bempty acls\<rparr>"
  define f1 where "f1 = f\<lparr>fs_next_ino := wrap_add ino 1, fs_inodes := bput ino i (fs_inodes f)\<rparr>"
  have i: "i_kind i = kind" "i_ino i = ino" by (simp_all add: i_def inode_new_def)
  have fresh: "bget (fs_inodes f) ino = None"
    using True by (cases "bget (fs_inodes f) ino") (auto simp: fs_ok_def fs_wf_def inos_ok_def ino_def)
  have next_ino: "wrap_add ino 1 = ino + 1" using True by (simp add: fs_ok_def ino_def)
  have wf1: "fs_wf f1"
    using True i(2) mknode_kind_special [OF assms(2) i(1)] unfolding fs_ok_def fs_wf_def f1_def
    by (auto simp: next_ino ino_def intro!: inos_ok_bput intro: inos_ok_mono)
  have "dir_at f1 parent"
    using assms(1) fresh by (auto simp: dir_at_def f1_def)
  then obtain f2 where 2: "fs_set_entry parent name (Some ino) f1 = (Inr (), f2)" "same_shape f1 f2"
    by (rule fs_set_entry_shape)
  have "node_at f2 parent" using \<open>dir_at f1 parent\<close> same_shape_at [OF 2(2)] dir_node_at by blast
  then obtain f3 where 3: "dir_changed parent (if is_dir i then 1 else 0) now f2 = (Inr (), f3)"
      "same_shape f2 f3" by (rule dir_changed_shape)
  note sh = same_shape_trans [OF 2(2) 3(2)]
  have "files (fs_inodes f3) = files (fs_inodes f)"
    using same_shape_files [OF sh] files_bput_new [OF fresh] mknode_kind_empty [OF assms(2) i(1)]
    by (simp add: f1_def)
  moreover have "fs_frame f f3"
    using same_shape_frame [OF sh] unfolding fs_frame_def f1_def by (cases f, cases f3) simp
  moreover have "no_inode (mknode_insert parent name op_id kind mode acls uid gid now f) = (Inr None, f3)"
    using 2(1) 3(1) unfolding mknode_insert_def Let_def f1_def i_def ino_def by simp
  ultimately show ?thesis
    using same_shape_wf [OF sh wf1] by (simp add: fs_effect_def)
qed (simp add: fs_effect_def)

lemma mknode_effect:
  "fs_effect f (no_inode (mknode_fs parent name op_id nt tgt rdev mode create_mode uid gid now f))"
  unfolding mknode_fs_def no_inode_simps
proof (intro fs_effect_attempt)
  fix x assume "fs_entry f parent name = Inr x"
  then have "dir_at f parent" by (auto simp: fs_entry_def rbind_eq_Inr fs_dir_eq_Inr dir_at_def)
  then show "fs_effect f (no_inode (case x of
      None \<Rightarrow> attempt f (check_inode_quota f) (\<lambda>_.
        attempt f (inherit_acls f parent nt mode create_mode) (\<lambda>(mode, acls).
        attempt f (mknode_kind parent nt tgt rdev) (\<lambda>kind.
          mknode_insert parent name op_id kind mode acls uid gid now f)))
    | Some existing \<Rightarrow> if op_id \<noteq> []
        then attempt f (fs_inode f existing) (\<lambda>i. if i_op_id i = op_id then (Inr (), f) else (Inl Exists, f))
        else (Inl Exists, f)))"
    by (cases x) (auto intro!: fs_effect_attempt mknode_insert_effect)
qed

text \<open>Renaming: moving the name keeps the shape; replacing a target removes it.\<close>

lemma rename_move_shape:
  assumes "dir_at f parent" and "dir_at f new_parent" and "node_at f src"
  obtains f' where "rename_move parent name new_parent new_name src src_dir now f = (Inr (), f')" "same_shape f f'"
proof -
  let ?m = "if src_dir \<and> parent \<noteq> new_parent then 1 else 0 :: int"
  let ?g = "\<lambda>s. s\<lparr>i_ctime_ns := now, i_kind := (case i_kind s of Dir _ es \<Rightarrow> Dir new_parent es | k \<Rightarrow> k)\<rparr>"
  have g: "inode_like i (?g i)" for i
    by (auto simp: inode_like_def special_ok_def file_part_def is_dir_Dir split: inode_kind.split)
  obtain f1 where 1: "fs_set_entry parent name None f = (Inr (), f1)" "same_shape f f1"
    by (rule fs_set_entry_shape [OF assms(1)])
  then obtain f2 where 2: "fs_set_entry new_parent new_name (Some src) f1 = (Inr (), f2)" "same_shape f f2"
    using fs_set_entry_shape [of f1 new_parent] assms(2) same_shape_at [OF 1(2)] same_shape_trans by metis
  then obtain f3 where 3: "dir_changed parent (- ?m) now f2 = (Inr (), f3)" "same_shape f f3"
    using dir_changed_shape [of f2 parent] assms(1) same_shape_at [OF 2(2)] same_shape_trans dir_node_at by metis
  then obtain f4 where 4: "dir_changed new_parent ?m now f3 = (Inr (), f4)" "same_shape f f4"
    using dir_changed_shape [of f3 new_parent] assms(2) same_shape_at [OF 3(2)] same_shape_trans dir_node_at
    by metis
  have "node_at f4 src" using assms(3) same_shape_at [OF 4(2)] by blast
  then obtain f5 where 5: "edit_inode src ?g f4 = (Inr (), f5)" "same_shape f4 f5"
    by (rule edit_inode_shape [OF _ g])
  show thesis
    by (rule that [OF _ same_shape_trans [OF 4(2) 5(2)]])
      (use 1(1) 2(1) 3(1) 4(1) 5(1) in \<open>simp add: rename_move_def Let_def\<close>)
qed

lemma rename_check_ok:
  assumes "rename_check src_dir dst f = Inr dst_dir"
  obtains d where "bget (fs_inodes f) dst = Some d" "dst_dir = is_dir d" "src_dir = dst_dir"
    "is_dir d \<Longrightarrow> inode_size d = 0"
  using assms by (auto simp: rename_check_def rbind_eq_Inr fs_dir_eq_Inr split: if_splits)

lemma empty_dir_no_entry: "is_dir d \<Longrightarrow> inode_size d = 0 \<Longrightarrow> inode_entry d name = None"
  by (auto simp: is_dir_Dir inode_size_def inode_entry_def bsize_0_iff)

lemma nondir_no_entry: "\<not> is_dir d \<Longrightarrow> inode_entry d name = None"
  by (cases "i_kind d") (auto simp: is_dir_Dir inode_entry_def)

lemma bdel_at:
  "k \<noteq> dst \<Longrightarrow> dir_at (f\<lparr>fs_inodes := bdel dst (fs_inodes f)\<rparr>) k \<longleftrightarrow> dir_at f k"
  "k \<noteq> dst \<Longrightarrow> node_at (f\<lparr>fs_inodes := bdel dst (fs_inodes f)\<rparr>) k \<longleftrightarrow> node_at f k"
  by (simp_all add: dir_at_def node_at_def)

lemma rename_replace_effect:
  assumes "dir_at f new_parent" and "bget (fs_inodes f) dst = Some d" and "dst \<noteq> new_parent"
  obtains gone f' where "rename_replace new_parent new_name dst (is_dir d) now f = (Inr gone, f')"
    "fs_effect f (Inr gone, f')" "\<And>k. k \<noteq> dst \<Longrightarrow> dir_at f k \<longleftrightarrow> dir_at f' k"
    "\<And>k. k \<noteq> dst \<Longrightarrow> node_at f k \<longleftrightarrow> node_at f' k"
proof -
  obtain f1 where 1: "fs_set_entry new_parent new_name None f = (Inr (), f1)" "same_shape f f1"
    by (rule fs_set_entry_shape [OF assms(1)])
  note at1 = same_shape_at [OF 1(2)]
  obtain d1 where d1: "bget (fs_inodes f1) dst = Some d1" "inode_like d d1"
    using shape_SomeD [of _ "fs_inodes f1", OF _ assms(2)] 1(2) by (auto simp: same_shape_def)
  show thesis
  proof (cases "is_dir d")
    case True
    let ?f = "f1\<lparr>fs_inodes := bdel dst (fs_inodes f1)\<rparr>"
    have "node_at ?f new_parent" using assms(1,3) at1 dir_node_at bdel_at by metis
    then obtain f2 where 2: "dir_changed new_parent (- 1) now ?f = (Inr (), f2)" "same_shape ?f f2"
      by (rule dir_changed_shape)
    have "the_file (Some d1) = {#}" using True d1(2) by (simp add: the_file_dir inode_like_def)
    from fs_effect_remove [OF 1(2) d1(1), of None] this
    have e: "fs_effect f (Inr None, ?f)" by simp
    have "fs_effect f (Inr None, f2)"
      using e same_shape_wf [OF 2(2)] same_shape_files [OF 2(2)] same_shape_frame [OF 2(2)]
      unfolding fs_effect_def fs_frame_def by (cases f, cases f1, cases f2) auto
    moreover have "dir_at f k \<longleftrightarrow> dir_at f2 k" "node_at f k \<longleftrightarrow> node_at f2 k" if "k \<noteq> dst" for k
      using at1 same_shape_at [OF 2(2)] bdel_at [OF that] by metis+
    ultimately show thesis
      by (intro that [of None f2]) (use True 1(1) 2(1) in \<open>auto simp: rename_replace_def\<close>)
  next
    case False
    then have rr: "rename_replace new_parent new_name dst (is_dir d) now f = drop_link dst now f1"
      using 1(1) by (simp add: rename_replace_def)
    from d1(1) show thesis
    proof (cases rule: drop_link_cases [where now = now])
      case (kept f')
      note sh = same_shape_trans [OF 1(2) kept(2)]
      show ?thesis
        by (rule that [of None f']) (use rr kept(1) fs_effect_shape [OF sh] same_shape_at [OF sh] in auto)
    next
      case (gone i')
      then have "the_file (Some i') = the_file (Some d1)" by (simp add: inode_like_file)
      from that [OF _ fs_effect_remove [OF 1(2) d1(1) this]] show ?thesis
        using rr gone(1) at1 bdel_at by simp
    qed
  qed
qed

lemma fs_effect_then_shape:
  assumes "fs_effect f (Inr gone, f1)" and "same_shape f1 f2"
  shows "fs_effect f (Inr gone, f2)"
  using assms(1) same_shape_wf [OF assms(2)] same_shape_files [OF assms(2)] same_shape_frame [OF assms(2)]
  unfolding fs_effect_def fs_frame_def by (cases f, cases f1, cases f2) auto

lemma fs_lookup_eq_Inr:
  "fs_lookup f d name = Inr k \<longleftrightarrow>
    (\<exists>i. bget (fs_inodes f) d = Some i \<and> is_dir i \<and> inode_entry i name = Some k)"
  by (auto simp: fs_lookup_def fs_entry_def rbind_eq_Inr fs_dir_eq_Inr)

lemma fs_entry_eq_Inr:
  "fs_entry f d name = Inr x \<longleftrightarrow>
    (\<exists>i. bget (fs_inodes f) d = Some i \<and> is_dir i \<and> inode_entry i name = x)"
  by (auto simp: fs_entry_def rbind_eq_Inr fs_dir_eq_Inr)

lemma rename_effect: "fs_effect f (rename_fs parent name new_parent new_name now f)"
  unfolding rename_fs_def
proof (intro fs_effect_attempt)
  fix src dst
  assume "fs_lookup f parent name = Inr src" and "fs_entry f new_parent new_name = Inr dst"
  then obtain p q where p: "bget (fs_inodes f) parent = Some p" "is_dir p" "inode_entry p name = Some src"
    and q: "bget (fs_inodes f) new_parent = Some q" "is_dir q" "inode_entry q new_name = dst"
    by (auto simp: fs_lookup_eq_Inr fs_entry_eq_Inr)
  have dirs: "dir_at f parent" "dir_at f new_parent" using p q by (auto simp: dir_at_def)
  have move: "fs_effect f (andthen (rename_move parent name new_parent new_name src sd now f1)
      (\<lambda>_ f. (Inr gone, f)))"
    if "fs_effect f (Inr gone, f1)" "dir_at f1 parent" "dir_at f1 new_parent" "node_at f1 src" for f1 gone sd
  proof -
    note h = that
    obtain f2 where "rename_move parent name new_parent new_name src sd now f1 = (Inr (), f2)" "same_shape f1 f2"
      by (rule rename_move_shape [OF h(2-4)])
    with fs_effect_then_shape [OF h(1)] show ?thesis by simp
  qed
  have replace: "fs_effect f (andthen (attempt f (rename_check sd d f) (\<lambda>dst_dir.
        rename_replace new_parent new_name d dst_dir now f))
      (\<lambda>dropped f. andthen (rename_move parent name new_parent new_name src sd now f) (\<lambda>_ f. (Inr dropped, f))))"
    if "dst = Some d" "d \<noteq> src" "node_at f src" for d sd
  proof (cases "rename_check sd d f")
    case (Inr dst_dir)
    then obtain i where i: "bget (fs_inodes f) d = Some i" "dst_dir = is_dir i"
        "is_dir i \<Longrightarrow> inode_size i = 0" by (metis rename_check_ok)
    then have "inode_entry i nm = None" for nm using empty_dir_no_entry nondir_no_entry by blast
    then have "d \<noteq> parent" "d \<noteq> new_parent" using i(1) p q that(1) by auto
    moreover obtain gone f1 where 1: "rename_replace new_parent new_name d dst_dir now f = (Inr gone, f1)"
      "fs_effect f (Inr gone, f1)" "\<And>k. k \<noteq> d \<Longrightarrow> dir_at f k \<longleftrightarrow> dir_at f1 k"
      "\<And>k. k \<noteq> d \<Longrightarrow> node_at f k \<longleftrightarrow> node_at f1 k"
      unfolding i(2) using rename_replace_effect [OF dirs(2) i(1) \<open>d \<noteq> new_parent\<close>] by blast
    ultimately show ?thesis
      using Inr move [OF 1(2)] dirs that by simp
  qed simp
  show "fs_effect f (if dst = Some src then (Inr None, f) else
      attempt f (fs_inode f src) (\<lambda>s.
      attempt f (if is_dir s then is_within_res f new_parent src else Inr False) (\<lambda>within.
      attempt f (guard (\<not> within) Invalid) (\<lambda>_.
        andthen (case dst of None \<Rightarrow> (Inr None, f)
          | Some d \<Rightarrow> attempt f (rename_check (is_dir s) d f) (\<lambda>dst_dir.
              rename_replace new_parent new_name d dst_dir now f))
        (\<lambda>dropped f. andthen (rename_move parent name new_parent new_name src (is_dir s) now f)
          (\<lambda>_ f. (Inr dropped, f)))))))"
    using move [OF fs_effect_unchanged dirs] replace
    by (cases dst) (auto intro!: fs_effect_attempt simp: node_at_def)
qed

end
