(* ===== verification/RefCounts.thy ===== *)
theory RefCounts
  imports FsShape
begin

text \<open>
  Reference counts. Every extent map of a volume, a volume snapshot, a file of a filesystem or a
  file of a filesystem snapshot holds one reference per entry; the recorded count of an extent is
  exactly the number of entries that name it. The theory shows that every handler keeps this,
  that an extent is reported as garbage only once nothing refers to it, and that a handler that
  fails has changed nothing.
\<close>

lemma multiset_exchange:
  fixes A :: "'a multiset"
  assumes "A + V = R + M" and "M + D = V + N"
  shows "A + D = R + N"
proof -
  have "(A + V) + (M + D) = (R + M) + (V + N)" using assms by simp
  then have "(A + D) + (V + M) = (R + N) + (V + M)" by (simp only: ac_simps)
  then show ?thesis by simp
qed

section \<open>References\<close>

definition tree_refs :: "inode_table \<Rightarrow> extent_id multiset" where
  "tree_refs t = bsum (\<lambda>i. mset (inode_extents i)) t"

definition map_refs :: "extent_map \<Rightarrow> extent_id multiset" where
  "map_refs xs = mset (bvals xs)"

definition vol_refs :: "(string, volume_meta) btree \<Rightarrow> extent_id multiset" where
  "vol_refs = bsum (\<lambda>v. map_refs (v_extents v))"

definition snap_refs :: "(string, snapshot_meta) btree \<Rightarrow> extent_id multiset" where
  "snap_refs = bsum (\<lambda>s. map_refs (sn_extents s))"

definition fs_refs :: "(string, fs_meta) btree \<Rightarrow> extent_id multiset" where
  "fs_refs = bsum (\<lambda>f. tree_refs (fs_inodes f))"

definition fs_snap_refs :: "(string, fs_snapshot_meta) btree \<Rightarrow> extent_id multiset" where
  "fs_snap_refs = bsum (\<lambda>s. tree_refs (fs_inodes (ss_tree s)))"

definition refs_of :: "catalog \<Rightarrow> extent_id multiset" where
  "refs_of c = vol_refs (volumes c) + snap_refs (snapshots c) + fs_refs (filesystems c)
     + fs_snap_refs (fs_snapshots c)"

definition ref_inv :: "catalog \<Rightarrow> bool" where
  "ref_inv c \<longleftrightarrow> ext_match (extents c) (refs_of c)"

definition trees_wf :: "catalog \<Rightarrow> bool" where
  "trees_wf c \<longleftrightarrow> (\<forall>fs f. bget (filesystems c) fs = Some f \<longrightarrow> fs_wf f)
     \<and> (\<forall>k s. bget (fs_snapshots c) k = Some s \<longrightarrow> fs_wf (ss_tree s))"

definition cat_inv :: "catalog \<Rightarrow> bool" where
  "cat_inv c \<longleftrightarrow> ref_inv c \<and> trees_wf c"

text \<open>Inode numbers are \<open>u64\<close>: there has to be one left to hand out.\<close>

definition ino_room :: "catalog \<Rightarrow> bool" where
  "ino_room c \<longleftrightarrow> (\<forall>fs f. bget (filesystems c) fs = Some f \<longrightarrow> fs_next_ino f < u64_max)"

lemma cat_inv_fs_ok:
  "cat_inv c \<Longrightarrow> ino_room c \<Longrightarrow> bget (filesystems c) fs = Some f \<Longrightarrow> fs_ok f"
  by (simp add: cat_inv_def trees_wf_def ino_room_def fs_ok_def)

lemma refs_of_frame [simp]:
  "refs_of (c\<lparr>extents := X\<rparr>) = refs_of c" "refs_of (c\<lparr>free := fl\<rparr>) = refs_of c"
  "refs_of (c\<lparr>leases_of := L\<rparr>) = refs_of c"
  "refs_of (c\<lparr>membership_of := m\<rparr>) = refs_of c" "refs_of (c\<lparr>raft_addrs := a\<rparr>) = refs_of c"
  "refs_of (c\<lparr>applied_index := n\<rparr>) = refs_of c" "refs_of (c\<lparr>current_term := n\<rparr>) = refs_of c"
  by (simp_all add: refs_of_def)

lemma trees_wf_frame [simp]:
  "trees_wf (c\<lparr>extents := X\<rparr>) = trees_wf c" "trees_wf (c\<lparr>free := fl\<rparr>) = trees_wf c"
  "trees_wf (c\<lparr>leases_of := L\<rparr>) = trees_wf c" "trees_wf (c\<lparr>volumes := V\<rparr>) = trees_wf c"
  "trees_wf (c\<lparr>snapshots := S\<rparr>) = trees_wf c"
  "trees_wf (c\<lparr>membership_of := m\<rparr>) = trees_wf c" "trees_wf (c\<lparr>raft_addrs := a\<rparr>) = trees_wf c"
  "trees_wf (c\<lparr>applied_index := n\<rparr>) = trees_wf c" "trees_wf (c\<lparr>current_term := n\<rparr>) = trees_wf c"
  by (simp_all add: trees_wf_def)

lemma refs_volumes:
  "refs_of (c\<lparr>volumes := bput k v (volumes c)\<rparr>) + bopt (\<lambda>v. map_refs (v_extents v)) (bget (volumes c) k)
    = refs_of c + map_refs (v_extents v)"
  "refs_of (c\<lparr>volumes := bdel k (volumes c)\<rparr>) + bopt (\<lambda>v. map_refs (v_extents v)) (bget (volumes c) k)
    = refs_of c"
  using bsum_bput [of "\<lambda>v. map_refs (v_extents v)" k v "volumes c"]
    bsum_bdel [of "\<lambda>v. map_refs (v_extents v)" k "volumes c"]
  by (simp_all add: refs_of_def vol_refs_def ac_simps)

lemma refs_snapshots:
  "refs_of (c\<lparr>snapshots := bput k s (snapshots c)\<rparr>) + bopt (\<lambda>s. map_refs (sn_extents s)) (bget (snapshots c) k)
    = refs_of c + map_refs (sn_extents s)"
  "refs_of (c\<lparr>snapshots := bdel k (snapshots c)\<rparr>) + bopt (\<lambda>s. map_refs (sn_extents s)) (bget (snapshots c) k)
    = refs_of c"
  using bsum_bput [of "\<lambda>s. map_refs (sn_extents s)" k s "snapshots c"]
    bsum_bdel [of "\<lambda>s. map_refs (sn_extents s)" k "snapshots c"]
  by (simp_all add: refs_of_def snap_refs_def ac_simps)

lemma refs_filesystems:
  "refs_of (c\<lparr>filesystems := bput k f (filesystems c)\<rparr>)
      + bopt (\<lambda>f. tree_refs (fs_inodes f)) (bget (filesystems c) k) = refs_of c + tree_refs (fs_inodes f)"
  "refs_of (c\<lparr>filesystems := bdel k (filesystems c)\<rparr>)
      + bopt (\<lambda>f. tree_refs (fs_inodes f)) (bget (filesystems c) k) = refs_of c"
  using bsum_bput [of "\<lambda>f. tree_refs (fs_inodes f)" k f "filesystems c"]
    bsum_bdel [of "\<lambda>f. tree_refs (fs_inodes f)" k "filesystems c"]
  by (simp_all add: refs_of_def fs_refs_def ac_simps)

lemma refs_fs_snapshots:
  "refs_of (c\<lparr>fs_snapshots := bput k s (fs_snapshots c)\<rparr>)
      + bopt (\<lambda>s. tree_refs (fs_inodes (ss_tree s))) (bget (fs_snapshots c) k)
    = refs_of c + tree_refs (fs_inodes (ss_tree s))"
  "refs_of (c\<lparr>fs_snapshots := bdel k (fs_snapshots c)\<rparr>)
      + bopt (\<lambda>s. tree_refs (fs_inodes (ss_tree s))) (bget (fs_snapshots c) k) = refs_of c"
  using bsum_bput [of "\<lambda>s. tree_refs (fs_inodes (ss_tree s))" k s "fs_snapshots c"]
    bsum_bdel [of "\<lambda>s. tree_refs (fs_inodes (ss_tree s))" k "fs_snapshots c"]
  by (simp_all add: refs_of_def fs_snap_refs_def ac_simps)

lemma refs_put_fs:
  "refs_of (put_fs fs f c) + bopt (\<lambda>f. tree_refs (fs_inodes f)) (bget (filesystems c) fs)
    = refs_of c + tree_refs (fs_inodes f)"
  unfolding put_fs_def by (rule refs_filesystems)

text \<open>The references of a tree are those of its files.\<close>

definition part_refs :: "(nat \<times> extent_map) multiset \<Rightarrow> extent_id multiset" where
  "part_refs M = sum_mset (image_mset (\<lambda>p. map_refs (snd p)) M)"

lemma part_refs_simps [simp]:
  "part_refs {#} = {#}" "part_refs (M + N) = part_refs M + part_refs N"
  by (simp_all add: part_refs_def)

lemma inode_refs_file: "mset (inode_extents i) = part_refs (the_file (Some i))"
  by (auto simp: inode_extents_def the_file_def file_part_def part_refs_def map_refs_def split: inode_kind.splits)

lemma tree_refs_files: "tree_refs t = part_refs (files t)"
proof -
  have "sum_list (map (\<lambda>i. part_refs (g i)) xs) = part_refs (sum_list (map g xs))" for g and xs :: "inode list"
    by (induction xs) auto
  then show ?thesis
    unfolding tree_refs_def files_def bsum_def inode_refs_file .
qed

lemma file_extents_refs: "mset (file_extents (bvals t)) = tree_refs t"
proof -
  have "mset (file_extents xs) = sum_list (map (\<lambda>i. mset (inode_extents i)) xs)" for xs
    by (induction xs) (auto simp: file_extents_def)
  then show ?thesis by (simp add: tree_refs_def bsum_def)
qed

lemma tree_refs_member:
  assumes "bget (filesystems c) fs = Some f"
  shows "tree_refs (fs_inodes f) \<subseteq># refs_of c"
proof -
  have "refs_of (c\<lparr>filesystems := bdel fs (filesystems c)\<rparr>) + tree_refs (fs_inodes f) = refs_of c"
    using refs_filesystems(2) [of fs c] assms by simp
  then show ?thesis by (metis mset_subset_eq_add_right)
qed

lemma snap_tree_refs_member:
  assumes "bget (fs_snapshots c) k = Some s"
  shows "tree_refs (fs_inodes (ss_tree s)) \<subseteq># refs_of c"
proof -
  have "refs_of (c\<lparr>fs_snapshots := bdel k (fs_snapshots c)\<rparr>) + tree_refs (fs_inodes (ss_tree s)) = refs_of c"
    using refs_fs_snapshots(2) [of k c] assms by simp
  then show ?thesis by (metis mset_subset_eq_add_right)
qed

section \<open>Handlers that keep the counts right\<close>

text \<open>The extents as such, the free list and the lease invariant are kept.\<close>

definition keeps :: "catalog \<Rightarrow> catalog \<Rightarrow> bool" where
  "keeps c c' \<longleftrightarrow> same_extents (extents c) (extents c') \<and> free c' = free c
     \<and> (lease_inv (leases_of c) \<longrightarrow> lease_inv (leases_of c'))"

definition gc_ok :: "gc \<Rightarrow> catalog \<Rightarrow> bool" where
  "gc_ok gc c \<longleftrightarrow> (\<forall>e \<in> set gc. e \<notin># refs_of c \<and> bget (extents c) e \<noteq> None)"

text \<open>The outcome of a handler on \<open>c\<close>, where \<open>b\<close> is the catalog whose extents and space the
  result has to agree with.\<close>

definition good :: "catalog \<Rightarrow> catalog \<Rightarrow> (gc, catalog) change \<Rightarrow> bool" where
  "good c b r \<longleftrightarrow> (case r of
       (Inl e, c') \<Rightarrow> c' = c
     | (Inr gc, c') \<Rightarrow> cat_inv c' \<and> gc_ok gc c' \<and> keeps b c')"

lemma good_error [simp]: "good c b (Inl e, c)"
  by (simp add: good_def)

lemma good_attempt: "(\<And>a. r = Inr a \<Longrightarrow> good c b (k a)) \<Longrightarrow> good c b (attempt c r k)"
  by (cases r) simp_all

lemma keeps_refl [simp]: "keeps c c"
  by (simp add: keeps_def)

lemma keeps_trans: "keeps b c \<Longrightarrow> keeps c d \<Longrightarrow> keeps b d"
  by (auto simp: keeps_def intro: same_extents_trans)

lemma keeps_extents: "keeps b c \<Longrightarrow> same_extents (extents c) X \<Longrightarrow> keeps b (c\<lparr>extents := X\<rparr>)"
  by (auto simp: keeps_def intro: same_extents_trans)

lemma good_unchanged: "cat_inv c \<Longrightarrow> good c c (Inr [], c)"
  by (simp add: good_def gc_ok_def)

lemma gc_ok_simps [simp]: "gc_ok [] c" "gc_ok (xs @ ys) c \<longleftrightarrow> gc_ok xs c \<and> gc_ok ys c"
  by (auto simp: gc_ok_def)

lemma same_extents_None: "same_extents X Y \<Longrightarrow> bget Y e = None \<longleftrightarrow> bget X e = None"
  unfolding same_extents_def by (metis map_option_is_None)

lemma gc_ok_mono:
  "gc_ok gc c \<Longrightarrow> set_mset (refs_of c') \<subseteq> set_mset (refs_of c) \<Longrightarrow> same_extents (extents c) (extents c') \<Longrightarrow> gc_ok gc c'"
  using same_extents_None by (auto simp: gc_ok_def)

text \<open>The ids \<open>dec_refs\<close> hands to the collector are still in the table, with no reference left.\<close>

lemma dec_refs_gc:
  assumes "ext_match X (mset es + R)" and "same_extents X (extents c)" and "set gone = {e \<in> set es. e \<notin># R}"
    and "set_mset (refs_of c) \<subseteq> set_mset R"
  shows "gc_ok gone c"
proof -
  have "bget (extents c) e \<noteq> None" if "e \<in> set es" for e
    using ext_matchD(3) [OF assms(1), of e] that same_extents_None [OF assms(2)] by auto
  with assms(3,4) show ?thesis by (auto simp: gc_ok_def)
qed

lemma dec_refs_good:
  assumes "ext_match (extents c1) (mset es + refs_of c1)" and "trees_wf c1" and "gc_ok gc c1" and "keeps b c1"
  shows "good c b (dec_refs es gc c1)"
proof -
  obtain X gone where *: "dec_refs es gc c1 = (Inr (gc @ gone), c1\<lparr>extents := X\<rparr>)"
    "ext_match X (refs_of c1)" "same_extents (extents c1) X" "set gone = {e \<in> set es. e \<notin># refs_of c1}"
    by (rule dec_refs_ok [OF assms(1)])
  have "gc_ok gone (c1\<lparr>extents := X\<rparr>)" using dec_refs_gc [OF assms(1), of "c1\<lparr>extents := X\<rparr>" gone] *(3,4) by simp
  moreover have "gc_ok gc (c1\<lparr>extents := X\<rparr>)" using gc_ok_mono [OF assms(3)] *(3) by simp
  ultimately show ?thesis
    using *(1,2) assms(2) keeps_extents [OF assms(4) *(3)]
    by (simp add: good_def cat_inv_def ref_inv_def)
qed

lemma inc_refs_good:
  assumes "cat_inv c" and "mset es \<subseteq># refs_of c"
  obtains X where "inc_refs es c = (Inr (), c\<lparr>extents := X\<rparr>)" "ext_match X (refs_of c + mset es)"
    "same_extents (extents c) X"
proof -
  have "set es \<subseteq> set_mset (refs_of c)" using set_mset_mono [OF assms(2)] by simp
  with assms(1) show thesis
    using inc_refs_ok [of c "refs_of c" es] that by (auto simp: cat_inv_def ref_inv_def)
qed

subsection \<open>Volumes\<close>

lemma cat_inv_match: "cat_inv c \<Longrightarrow> ext_match (extents c) (refs_of c)"
  by (simp add: cat_inv_def ref_inv_def)

lemma create_volume_good: "cat_inv c \<Longrightarrow> good c c (create_volume vid name size_bytes c)"
  using refs_volumes(1) [of vid "\<lparr>v_id = vid, v_name = name, v_size_bytes = size_bytes, v_extents = bempty\<rparr>" c]
  by (auto simp: create_volume_def good_unchanged good_def cat_inv_def ref_inv_def gc_ok_def keeps_def map_refs_def
      split: option.splits)

lemma resize_volume_good: "cat_inv c \<Longrightarrow> good c c (resize_volume vid size_bytes c)"
proof -
  assume inv: "cat_inv c"
  have "refs_of (c\<lparr>volumes := bput vid (v\<lparr>v_size_bytes := size_bytes\<rparr>) (volumes c)\<rparr>) = refs_of c"
    if "bget (volumes c) vid = Some v" for v
    using refs_volumes(1) [of vid "v\<lparr>v_size_bytes := size_bytes\<rparr>" c] that by simp
  then show ?thesis
    unfolding resize_volume_def using inv
    by (intro good_attempt) (auto simp: good_def cat_inv_def ref_inv_def gc_ok_def keeps_def)
qed

lemma add_extent_ref_frame [simp]:
  "volumes (add_extent_ref x c) = volumes c" "snapshots (add_extent_ref x c) = snapshots c"
  "filesystems (add_extent_ref x c) = filesystems c" "fs_snapshots (add_extent_ref x c) = fs_snapshots c"
  "leases_of (add_extent_ref x c) = leases_of c"
  by (auto simp: add_extent_ref_def Let_def split: option.splits)

lemma add_extent_refs_frame [simp]:
  "volumes (fold add_extent_ref xs c) = volumes c" "snapshots (fold add_extent_ref xs c) = snapshots c"
  "filesystems (fold add_extent_ref xs c) = filesystems c"
  "fs_snapshots (fold add_extent_ref xs c) = fs_snapshots c"
  "leases_of (fold add_extent_ref xs c) = leases_of c"
  by (induction xs arbitrary: c) auto

lemma add_extent_refs_refs [simp]:
  "refs_of (fold add_extent_ref xs c) = refs_of c" "trees_wf (fold add_extent_ref xs c) = trees_wf c"
  by (simp_all add: refs_of_def trees_wf_def)

lemma add_extent_ref_refs [simp]:
  "refs_of (add_extent_ref x c) = refs_of c" "trees_wf (add_extent_ref x c) = trees_wf c"
  by (simp_all add: refs_of_def trees_wf_def)

lemma add_extent_refs_match:
  "ext_match (extents c) R \<Longrightarrow> ext_match (extents (fold add_extent_ref xs c)) (mset (map x_id xs) + R)"
proof (induction xs arbitrary: c R)
  case (Cons x xs)
  from Cons.IH [OF add_extent_ref_match [OF Cons.prems, of x]] show ?case by simp
qed simp

text \<open>Taking references depends on the extents and the free list only.\<close>

lemma add_extent_refs_cong:
  assumes "extents c' = extents c" and "free c' = free c"
  shows "extents (fold add_extent_ref xs c') = extents (fold add_extent_ref xs c)
    \<and> free (fold add_extent_ref xs c') = free (fold add_extent_ref xs c)"
  using assms
proof (induction xs arbitrary: c c')
  case (Cons x xs)
  have "extents (add_extent_ref x c') = extents (add_extent_ref x c)"
    "free (add_extent_ref x c') = free (add_extent_ref x c)"
    using Cons.prems by (auto simp: add_extent_ref_def Let_def split: option.splits)
  from Cons.IH [OF this] show ?case by simp
qed simp

lemma map_refs_bsum: "map_refs xs = bsum (\<lambda>x. {#x#}) xs"
proof -
  have "sum_list (map (\<lambda>x. {#x#}) ys) = mset ys" for ys :: "extent_id list" by (induction ys) auto
  then show ?thesis by (simp add: map_refs_def bsum_def)
qed

lemma map_refs_bput: "map_refs (bput off e xs) + bopt (\<lambda>x. {#x#}) (bget xs off) = map_refs xs + {#e#}"
  unfolding map_refs_bsum by (rule bsum_bput)

lemma insert_extents_refs:
  "insert_extents new xs = (old, xs') \<Longrightarrow> map_refs xs' + mset old = map_refs xs + mset (map snd new)"
proof (induction new xs arbitrary: old xs' rule: insert_extents.induct)
  case (2 off e new xs)
  obtain old1 xs1 where r: "insert_extents new (bput off e xs) = (old1, xs1)" by (rule prod.exhaust)
  show ?case using map_refs_bput [of off e xs] "2.IH" [OF r] "2.prems" r by (auto simp: ac_simps split: option.splits)
qed simp

text \<open>Installing extents in any map of the catalog: what they replace is dropped afterwards.\<close>

lemma install_good:
  assumes "cat_inv c" and "trees_wf c1" and "extents c1 = extents c" and "free c1 = free c"
    and "leases_of c1 = leases_of c"
    and "refs_of c1 + mset old = refs_of c + mset (map x_id xs)"
    and "extents c2 = extents (fold add_extent_ref xs c1)" and "free c2 = free (fold add_extent_ref xs c1)"
    and "leases_of c2 = leases_of c1" and "refs_of c2 = refs_of c1" and "trees_wf c2"
  shows "good c (fold add_extent_ref xs c) (dec_refs old [] c2)"
proof (rule dec_refs_good)
  have "ext_match (extents c2) (mset (map x_id xs) + refs_of c)"
    unfolding assms(7) using add_extent_refs_match [of c1 "refs_of c"] cat_inv_match [OF assms(1)] assms(3) by simp
  then show "ext_match (extents c2) (mset old + refs_of c2)"
    unfolding assms(10) using assms(6) by (simp add: add.commute)
  show "keeps (fold add_extent_ref xs c) c2"
    using add_extent_refs_cong [OF assms(3,4), of xs] assms(5,7-9) by (simp add: keeps_def)
qed (use assms(11) in \<open>simp_all add: gc_ok_def\<close>)

lemma dec_ref_eq_dec_refs: "dec_ref e gc c = dec_refs [e] gc c"
  by (simp add: andthen_def split: prod.splits sum.splits)

lemma install_extents_good:
  assumes "cat_inv c"
  shows "good c (fold add_extent_ref xs c) (install_extents vid xs c)"
  unfolding install_extents_def
proof (intro good_attempt)
  fix v assume "ok_or (bget (volumes c) vid) NotFound = Inr v"
  then have v: "bget (volumes c) vid = Some v" by simp
  obtain old m where r: "insert_extents (map (\<lambda>x. (x_logical_offset x, x_id x)) xs) (v_extents v) = (old, m)"
    by (rule prod.exhaust)
  let ?c1 = "c\<lparr>volumes := bput vid (v\<lparr>v_extents := m\<rparr>) (volumes c)\<rparr>"
  have "refs_of ?c1 + map_refs (v_extents v) = refs_of c + map_refs m"
    using refs_volumes(1) [of vid "v\<lparr>v_extents := m\<rparr>" c] v by simp
  moreover have "map_refs m + mset old = map_refs (v_extents v) + mset (map x_id xs)"
    using insert_extents_refs [OF r] by (simp add: comp_def)
  ultimately have refs: "refs_of ?c1 + mset old = refs_of c + mset (map x_id xs)"
    by (rule multiset_exchange)
  have "good c (fold add_extent_ref xs c) (dec_refs old [] (fold add_extent_ref xs ?c1))"
    by (rule install_good [OF assms _ _ _ _ refs refl refl]) (use assms in \<open>simp_all add: cat_inv_def\<close>)
  then show "good c (fold add_extent_ref xs c)
      (let (old, m) = insert_extents (map (\<lambda>x. (x_logical_offset x, x_id x)) xs) (v_extents v);
           c1 = c\<lparr>volumes := bput vid (v\<lparr>v_extents := m\<rparr>) (volumes c)\<rparr>;
           c2 = fold add_extent_ref xs c1
       in dec_refs old [] c2)"
    by (simp add: r Let_def)
qed

lemma install_extent_good:
  assumes "cat_inv c"
  shows "good c (add_extent_ref x c) (install_extent vid off x c)"
  unfolding install_extent_def
proof (intro good_attempt)
  fix v assume "ok_or (bget (volumes c) vid) NotFound = Inr v"
  then have v: "bget (volumes c) vid = Some v" by simp
  let ?c1 = "c\<lparr>volumes := bput vid (v\<lparr>v_extents := bput off (x_id x) (v_extents v)\<rparr>) (volumes c)\<rparr>"
  let ?old = "opt_list (bget (v_extents v) off)"
  have "refs_of ?c1 + map_refs (v_extents v) = refs_of c + map_refs (bput off (x_id x) (v_extents v))"
    using refs_volumes(1) [of vid "v\<lparr>v_extents := bput off (x_id x) (v_extents v)\<rparr>" c] v by simp
  moreover have "map_refs (bput off (x_id x) (v_extents v)) + mset ?old = map_refs (v_extents v) + {#x_id x#}"
    using map_refs_bput [of off "x_id x" "v_extents v"] by (cases "bget (v_extents v) off") auto
  ultimately have "refs_of ?c1 + mset ?old = refs_of c + {#x_id x#}" by (rule multiset_exchange)
  then have refs: "refs_of ?c1 + mset ?old = refs_of c + mset (map x_id [x])" by simp
  have "good c (fold add_extent_ref [x] c) (dec_refs ?old [] (fold add_extent_ref [x] ?c1))"
    by (rule install_good [OF assms _ _ _ _ refs refl refl]) (use assms in \<open>simp_all add: cat_inv_def\<close>)
  then show "good c (add_extent_ref x c)
      (let old = bget (v_extents v) off;
           c1 = c\<lparr>volumes := bput vid (v\<lparr>v_extents := bput off (x_id x) (v_extents v)\<rparr>) (volumes c)\<rparr>;
           c2 = add_extent_ref x c1
       in case old of None \<Rightarrow> (Inr [], c2) | Some old_id \<Rightarrow> dec_ref old_id [] c2)"
    unfolding Let_def dec_ref_eq_dec_refs
    by (cases "bget (v_extents v) off") (simp_all del: dec_refs.simps(2))
qed

lemma delete_volume_good:
  assumes "cat_inv c"
  shows "good c c (delete_volume vid c)"
  unfolding delete_volume_def
proof (intro good_attempt dec_refs_good)
  fix v assume "ok_or (bget (volumes c) vid) NotFound = Inr v"
  then have "refs_of (c\<lparr>volumes := bdel vid (volumes c)\<rparr>) + map_refs (v_extents v) = refs_of c"
    using refs_volumes(2) [of vid c] by simp
  then show "ext_match (extents (c\<lparr>volumes := bdel vid (volumes c)\<rparr>))
      (mset (bvals (v_extents v)) + refs_of (c\<lparr>volumes := bdel vid (volumes c)\<rparr>))"
    using cat_inv_match [OF assms] by (simp add: map_refs_def add.commute)
qed (use assms in \<open>simp_all add: cat_inv_def gc_ok_def keeps_def\<close>)

lemma delete_snapshot_good:
  assumes "cat_inv c"
  shows "good c c (delete_snapshot sid c)"
  unfolding delete_snapshot_def
proof (intro good_attempt dec_refs_good)
  fix s assume "ok_or (bget (snapshots c) sid) NotFound = Inr s"
  then have "refs_of (c\<lparr>snapshots := bdel sid (snapshots c)\<rparr>) + map_refs (sn_extents s) = refs_of c"
    using refs_snapshots(2) [of sid c] by simp
  then show "ext_match (extents (c\<lparr>snapshots := bdel sid (snapshots c)\<rparr>))
      (mset (bvals (sn_extents s)) + refs_of (c\<lparr>snapshots := bdel sid (snapshots c)\<rparr>))"
    using cat_inv_match [OF assms] by (simp add: map_refs_def add.commute)
qed (use assms in \<open>simp_all add: cat_inv_def gc_ok_def keeps_def\<close>)

lemma create_snapshot_good:
  assumes "cat_inv c"
  shows "good c c (create_snapshot sid vid name c)"
proof (cases "bget (snapshots c) sid")
  case None
  have "good c c (andthen (inc_refs (bvals (v_extents v)) c) (\<lambda>_ c.
      (Inr [], c\<lparr>snapshots := bput sid \<lparr>sn_id = sid, sn_volume_id = vid, sn_name = name,
         sn_size_bytes = v_size_bytes v, sn_extents = v_extents v\<rparr> (snapshots c)\<rparr>)))"
    if v: "bget (volumes c) vid = Some v" for v
  proof -
    have "map_refs (v_extents v) \<subseteq># refs_of c"
      using refs_volumes(2) [of vid c] v by (metis bopt_simps(2) mset_subset_eq_add_right)
    then obtain X where X: "inc_refs (bvals (v_extents v)) c = (Inr (), c\<lparr>extents := X\<rparr>)"
      "ext_match X (refs_of c + map_refs (v_extents v))" "same_extents (extents c) X"
      using inc_refs_good [OF assms, of "bvals (v_extents v)"] by (auto simp: map_refs_def)
    let ?s = "\<lparr>sn_id = sid, sn_volume_id = vid, sn_name = name, sn_size_bytes = v_size_bytes v,
        sn_extents = v_extents v\<rparr>"
    have "refs_of (c\<lparr>extents := X, snapshots := bput sid ?s (snapshots c)\<rparr>) = refs_of c + map_refs (v_extents v)"
      using refs_snapshots(1) [of sid ?s "c\<lparr>extents := X\<rparr>"] None by simp
    then show ?thesis
      using X assms by (simp add: good_def cat_inv_def ref_inv_def gc_ok_def keeps_def)
  qed
  with None show ?thesis
    unfolding create_snapshot_def by (auto intro!: good_attempt)
qed (auto simp: create_snapshot_def good_unchanged [OF assms])

lemma clone_snapshot_good:
  assumes "cat_inv c"
  shows "good c c (clone_snapshot vid name sid size_bytes c)"
proof (cases "bget (volumes c) vid")
  case None
  have "good c c (andthen (inc_refs (bvals (sn_extents s)) c) (\<lambda>_ c.
      (Inr [], c\<lparr>volumes := bput vid \<lparr>v_id = vid, v_name = name, v_size_bytes = sz,
         v_extents = sn_extents s\<rparr> (volumes c)\<rparr>)))"
    if s: "bget (snapshots c) sid = Some s" for s sz
  proof -
    have "map_refs (sn_extents s) \<subseteq># refs_of c"
      using refs_snapshots(2) [of sid c] s by (metis bopt_simps(2) mset_subset_eq_add_right)
    then obtain X where X: "inc_refs (bvals (sn_extents s)) c = (Inr (), c\<lparr>extents := X\<rparr>)"
      "ext_match X (refs_of c + map_refs (sn_extents s))" "same_extents (extents c) X"
      using inc_refs_good [OF assms, of "bvals (sn_extents s)"] by (auto simp: map_refs_def)
    let ?v = "\<lparr>v_id = vid, v_name = name, v_size_bytes = sz, v_extents = sn_extents s\<rparr>"
    have "refs_of (c\<lparr>extents := X, volumes := bput vid ?v (volumes c)\<rparr>) = refs_of c + map_refs (sn_extents s)"
      using refs_volumes(1) [of vid ?v "c\<lparr>extents := X\<rparr>"] None by simp
    then show ?thesis
      using X assms by (simp add: good_def cat_inv_def ref_inv_def gc_ok_def keeps_def)
  qed
  with None show ?thesis
    unfolding clone_snapshot_def Let_def by (auto intro!: good_attempt)
qed (auto simp: clone_snapshot_def good_unchanged [OF assms])

subsection \<open>Files and directories\<close>

lemma put_fs_frame [simp]:
  "extents (put_fs fs f c) = extents c" "free (put_fs fs f c) = free c" "leases_of (put_fs fs f c) = leases_of c"
  "filesystems (put_fs fs f c) = bput fs f (filesystems c)" "fs_snapshots (put_fs fs f c) = fs_snapshots c"
  "volumes (put_fs fs f c) = volumes c" "snapshots (put_fs fs f c) = snapshots c"
  by (simp_all add: put_fs_def)

lemma put_fs_same: "bget (filesystems c) fs = Some f \<Longrightarrow> put_fs fs f c = c"
  by (simp add: put_fs_def)

lemma trees_wf_put_fs: "trees_wf c \<Longrightarrow> fs_wf f \<Longrightarrow> trees_wf (put_fs fs f c)"
  by (auto simp: trees_wf_def)

lemma edit_usage_frame [simp]:
  "extents (edit_usage fs g c) = extents c" "free (edit_usage fs g c) = free c"
  "leases_of (edit_usage fs g c) = leases_of c" "fs_snapshots (edit_usage fs g c) = fs_snapshots c"
  by (auto simp: edit_usage_def split: option.splits)

lemma edit_usage_refs [simp]: "refs_of (edit_usage fs g c) = refs_of c"
proof -
  have "refs_of (put_fs fs (f\<lparr>fs_usage_of := u\<rparr>) c) = refs_of c" if "bget (filesystems c) fs = Some f" for f u
    using refs_put_fs [of fs "f\<lparr>fs_usage_of := u\<rparr>" c] that by simp
  then show ?thesis by (auto simp: edit_usage_def split: option.split)
qed

lemma edit_usage_wf [simp]: "trees_wf c \<Longrightarrow> trees_wf (edit_usage fs g c)"
  unfolding edit_usage_def
  by (auto simp: fs_wf_def trees_wf_def split: option.splits)

lemma forget_usage_frame [simp]:
  "extents (forget_usage fs i c) = extents c" "free (forget_usage fs i c) = free c"
  "leases_of (forget_usage fs i c) = leases_of c" "refs_of (forget_usage fs i c) = refs_of c"
  "trees_wf c \<Longrightarrow> trees_wf (forget_usage fs i c)"
  by (auto simp: forget_usage_def Let_def split: inode_kind.splits)

lemma drop_inode_eq: "drop_inode i gc c = dec_refs (inode_extents i) gc c"
  by (auto simp: drop_inode_def inode_extents_def split: inode_kind.splits)

lemma dec_refs_append:
  "dec_refs (xs @ ys) gc c = andthen (dec_refs xs gc c) (\<lambda>gc c. dec_refs ys gc c)"
  by (induction xs gc c rule: dec_refs.induct) (auto simp: andthen_def split: prod.splits sum.splits)

lemma drop_inodes_eq: "drop_inodes is gc c = dec_refs (file_extents is) gc c"
proof (induction "is" arbitrary: gc c)
  case (Cons i "is")
  have "drop_inodes is = dec_refs (file_extents is)" by (intro ext) (rule Cons.IH)
  then show ?case by (simp add: file_extents_def drop_inode_eq dec_refs_append)
qed (simp add: file_extents_def)

text \<open>An operation on one filesystem, followed by the release of the file it removed.\<close>

lemma with_fs_good:
  assumes "cat_inv c" and "ino_room c" and "\<And>f. bget (filesystems c) fs = Some f \<Longrightarrow> fs_effect f (k f)"
  shows "good c c (andthen (with_fs fs k c) (\<lambda>gone c. release_inode fs gone [] c))"
proof (cases "bget (filesystems c) fs")
  case None
  then show ?thesis by (simp add: with_fs_def filesystem_def)
next
  case (Some f)
  note ok = cat_inv_fs_ok [OF assms(1,2) Some]
  obtain r f' where k: "k f = (r, f')" by (rule prod.exhaust)
  have eff: "fs_effect f (r, f')" using assms(3) [OF Some] k by simp
  show ?thesis
  proof (cases r)
    case (Inl e)
    with eff ok have "f' = f" by (simp add: fs_effect_def)
    with Inl Some k show ?thesis by (simp add: with_fs_def filesystem_def put_fs_same)
  next
    case (Inr gone)
    with eff ok have e: "fs_wf f'" "files (fs_inodes f) = files (fs_inodes f') + the_file gone"
      by (auto simp: fs_effect_def)
    let ?c = "put_fs fs f' c"
    have "refs_of ?c + part_refs (the_file gone) = refs_of c"
      using refs_put_fs [of fs f' c] Some e(2) by (simp add: tree_refs_files ac_simps)
    then have m: "ext_match (extents ?c) (part_refs (the_file gone) + refs_of ?c)" "trees_wf ?c" "keeps c ?c"
      using cat_inv_match [OF assms(1)] e(1) assms(1)
      by (simp_all add: add.commute cat_inv_def trees_wf_put_fs keeps_def)
    have "good c c (release_inode fs gone [] ?c)"
    proof (cases gone)
      case None
      with m show ?thesis by (simp add: release_inode_def good_def cat_inv_def ref_inv_def gc_ok_def)
    next
      case (Some i)
      have "good c c (dec_refs (inode_extents i) [] (forget_usage fs i ?c))"
        by (rule dec_refs_good) (use m Some in \<open>simp_all add: inode_refs_file gc_ok_def keeps_def\<close>)
      with Some show ?thesis by (simp add: release_inode_def drop_inode_eq)
    qed
    with Inr k Some show ?thesis by (simp add: with_fs_def filesystem_def)
  qed
qed

lemma keep_gc_with_fs:
  "keep_gc [] (with_fs fs k c) = andthen (with_fs fs (\<lambda>f. no_inode (k f)) c) (\<lambda>gone c. release_inode fs gone [] c)"
  by (auto simp: keep_gc_def with_fs_def no_inode_def attempt_def andthen_def release_inode_def
      split: sum.splits prod.splits)

lemma mknode_good:
  "cat_inv c \<Longrightarrow> ino_room c \<Longrightarrow>
    good c c (mknode fs parent name op_id nt tgt rdev mode create_mode uid gid now [] c)"
  unfolding mknode_def keep_gc_with_fs by (intro good_attempt with_fs_good mknode_effect)

lemma link_good: "cat_inv c \<Longrightarrow> ino_room c \<Longrightarrow> good c c (link fs ino parent name now [] c)"
  unfolding link_def keep_gc_with_fs by (intro good_attempt with_fs_good link_effect)

lemma unlink_good: "cat_inv c \<Longrightarrow> ino_room c \<Longrightarrow> good c c (unlink fs parent name now [] c)"
  unfolding unlink_def by (intro with_fs_good unlink_effect)

lemma rmdir_good: "cat_inv c \<Longrightarrow> ino_room c \<Longrightarrow> good c c (rmdir fs parent name now [] c)"
  unfolding rmdir_def keep_gc_with_fs by (intro with_fs_good rmdir_effect)

lemma rename_good:
  "cat_inv c \<Longrightarrow> ino_room c \<Longrightarrow> good c c (rename fs parent name new_parent new_name now [] c)"
  unfolding rename_def by (intro good_attempt with_fs_good rename_effect)

text \<open>Changing one inode in place.\<close>

lemma change_inode_cases:
  obtains (err) e where "change_inode fs ino g c = (Inl e, c)"
  | (ok) f i i' x where "bget (filesystems c) fs = Some f" "bget (fs_inodes f) ino = Some i" "g i = Inr (i', x)"
      "change_inode fs ino g c = (Inr x, put_fs fs (f\<lparr>fs_inodes := bput ino i' (fs_inodes f)\<rparr>) c)"
proof (cases "bget (filesystems c) fs")
  case None
  then show thesis by (intro err [of NotFound]) (simp add: change_inode_def filesystem_def)
next
  case f: (Some f)
  show thesis
  proof (cases "bget (fs_inodes f) ino")
    case None
    with f show thesis by (intro err [of NotFound]) (simp add: change_inode_def filesystem_def fs_inode_def)
  next
    case i: (Some i)
    show thesis
    proof (cases "g i")
      case (Inl e)
      with f i show thesis by (intro err [of e]) (simp add: change_inode_def filesystem_def fs_inode_def)
    next
      case (Inr y)
      with f i show thesis
        by (intro ok [of f i "fst y" "snd y"])
          (simp_all add: change_inode_def filesystem_def fs_inode_def split: prod.splits)
    qed
  qed
qed

lemma change_inode_refs:
  assumes "bget (filesystems c) fs = Some f" and "bget (fs_inodes f) ino = Some i"
  shows "refs_of (put_fs fs (f\<lparr>fs_inodes := bput ino i' (fs_inodes f)\<rparr>) c) + mset (inode_extents i)
    = refs_of c + mset (inode_extents i')"
proof -
  have "refs_of (put_fs fs (f\<lparr>fs_inodes := bput ino i' (fs_inodes f)\<rparr>) c) + tree_refs (fs_inodes f)
      = refs_of c + tree_refs (bput ino i' (fs_inodes f))"
    using refs_put_fs [of fs "f\<lparr>fs_inodes := bput ino i' (fs_inodes f)\<rparr>" c] assms(1) by simp
  moreover have "tree_refs (bput ino i' (fs_inodes f)) + mset (inode_extents i)
      = tree_refs (fs_inodes f) + mset (inode_extents i')"
    using bsum_bput [of "\<lambda>i. mset (inode_extents i)" ino i' "fs_inodes f"] assms(2) by (simp add: tree_refs_def)
  ultimately show ?thesis by (rule multiset_exchange)
qed

lemma change_inode_wf:
  assumes "trees_wf c" and "bget (filesystems c) fs = Some f" and "bget (fs_inodes f) ino = Some i"
    and "i_ino i' = i_ino i" and "special_ok i' = special_ok i"
  shows "trees_wf (put_fs fs (f\<lparr>fs_inodes := bput ino i' (fs_inodes f)\<rparr>) c)"
  using assms by (auto simp: trees_wf_def fs_wf_def inos_ok_def)

lemma map_refs_split: "map_refs (bbelow k xs) + map_refs (bfrom k xs) = map_refs xs"
  unfolding map_refs_bsum by (rule bsum_split)

lemma upd_some_id: "(\<And>a b. h (g a b) = h b) \<Longrightarrow> h (upd_some x g b) = h b"
  by (simp add: upd_some_def split: option.split)

lemma setattr_inode_refs:
  assumes "setattr_inode attr now i = Inr (i', ct, resized)"
  shows "i_ino i' = i_ino i \<and> special_ok i' = special_ok i
    \<and> mset (inode_extents i') + mset (bvals ct) = mset (inode_extents i)"
proof -
  note same = upd_some_id [where h = i_ino] upd_some_id [where h = i_kind]
  obtain i1 where s: "setattr_size attr now i = Inr (i1, ct, resized)"
    and i': "i_ino i' = i_ino i1" "i_kind i' = i_kind i1"
    using assms by (auto simp: setattr_inode_def rbind_eq_Inr Let_def same)
  have "i_ino i1 = i_ino i \<and> special_ok i1 = special_ok i
      \<and> mset (inode_extents i1) + mset (bvals ct) = mset (inode_extents i)"
    using s map_refs_split [of "the (a_size attr)" "f_extents (i_kind i)"]
    by (auto simp: setattr_size_def inode_extents_def special_ok_def map_refs_def Let_def
        split: option.splits inode_kind.splits if_splits)
  then show ?thesis using i' by (simp add: inode_extents_def special_ok_def)
qed

lemma setattr_good:
  assumes "cat_inv c"
  shows "good c c (setattr fs ino attr now [] c)"
proof (cases rule: change_inode_cases [of fs ino "setattr_inode attr now" c])
  case (err e)
  then show ?thesis by (simp add: setattr_def)
next
  case (ok f i i' x)
  obtain ct resized where x: "x = (ct, resized)" by (rule prod.exhaust)
  note r = setattr_inode_refs [OF ok(3) [unfolded x]]
  let ?c = "put_fs fs (f\<lparr>fs_inodes := bput ino i' (fs_inodes f)\<rparr>) c"
  have "refs_of ?c + mset (bvals ct) = refs_of c"
    using multiset_exchange [OF change_inode_refs [OF ok(1,2), of i'], of _ "{#}"] r by simp
  moreover have "trees_wf ?c" using change_inode_wf [OF _ ok(1,2)] r assms by (simp add: cat_inv_def)
  ultimately have "good c c (dec_refs (bvals ct) [] (edit_usage fs g ?c))" for g
    using cat_inv_match [OF assms]
    by (intro dec_refs_good) (simp_all add: gc_ok_def keeps_def add.commute)
  then show ?thesis unfolding setattr_def by (simp add: ok(4) x Let_def)
qed

text \<open>Changes of an inode that leave its extents alone.\<close>

lemma keep_gc_change_inode_good:
  assumes "cat_inv c" and "\<And>i i' u. g i = Inr (i', u) \<Longrightarrow> i_ino i' = i_ino i \<and> i_kind i' = i_kind i"
  shows "good c c (keep_gc [] (change_inode fs ino g c))"
proof (cases rule: change_inode_cases [of fs ino g c])
  case (err e)
  then show ?thesis by (simp add: keep_gc_def)
next
  case (ok f i i' x)
  let ?c = "put_fs fs (f\<lparr>fs_inodes := bput ino i' (fs_inodes f)\<rparr>) c"
  have r: "i_ino i' = i_ino i" "inode_extents i' = inode_extents i" "special_ok i' = special_ok i"
    using assms(2) [OF ok(3)] by (simp_all add: inode_extents_def special_ok_def)
  have "refs_of ?c = refs_of c" using change_inode_refs [OF ok(1,2), of i'] r(2) by simp
  moreover have "trees_wf ?c" using change_inode_wf [OF _ ok(1,2)] r assms by (simp add: cat_inv_def)
  ultimately show ?thesis
    using ok(4) assms(1) by (simp add: keep_gc_def good_def cat_inv_def ref_inv_def gc_ok_def keeps_def)
qed

lemma setxattr_good: "cat_inv c \<Longrightarrow> good c c (setxattr fs ino name value xmode now [] c)"
  unfolding setxattr_def
  by (intro good_attempt keep_gc_change_inode_good)
    (auto simp: setxattr_inode_def rbind_eq_Inr Let_def split: if_splits option.splits prod.splits bool.splits)

lemma removexattr_good: "cat_inv c \<Longrightarrow> good c c (removexattr fs ino name now [] c)"
  unfolding removexattr_def
  by (intro keep_gc_change_inode_good) (auto split: if_splits)

lemma install_inode_refs:
  assumes "install_inode new at_least now replica i = Inr (i', old, grown)"
  shows "i_ino i' = i_ino i \<and> special_ok i' = special_ok i
    \<and> mset (inode_extents i') + mset old = mset (inode_extents i) + mset (map snd new)"
proof -
  obtain sz xs xs' where k: "i_kind i = File sz xs" and r: "insert_extents new xs = (old, xs')"
    and i': "i_kind i' = File (max sz at_least) xs'" "i_ino i' = i_ino i"
    using assms by (auto simp: install_inode_def itouch_def Let_def split: inode_kind.splits prod.splits if_splits)
  show ?thesis
    using insert_extents_refs [OF r] by (simp add: inode_extents_def special_ok_def k i' map_refs_def)
qed

lemma install_file_good:
  assumes "cat_inv c" and "change_inode fs ino (install_inode new at_least now replica) c = (Inr (old, grown), c1)"
    and "map snd new = map x_id xs"
  shows "good c (fold add_extent_ref xs c) (dec_refs old [] (edit_usage fs g (fold add_extent_ref xs c1)))"
proof -
  obtain f i i' where ok: "bget (filesystems c) fs = Some f" "bget (fs_inodes f) ino = Some i"
    "install_inode new at_least now replica i = Inr (i', old, grown)"
    "c1 = put_fs fs (f\<lparr>fs_inodes := bput ino i' (fs_inodes f)\<rparr>) c"
    using assms(2) by (cases rule: change_inode_cases [of fs ino "install_inode new at_least now replica" c]) auto
  note r = install_inode_refs [OF ok(3)]
  have "refs_of c1 + mset old = refs_of c + mset (map x_id xs)"
    unfolding ok(4) using multiset_exchange [OF change_inode_refs [OF ok(1,2), of i']] r assms(3) by simp
  moreover have "trees_wf c1"
    unfolding ok(4) using change_inode_wf [OF _ ok(1,2)] r assms(1) by (simp add: cat_inv_def)
  ultimately show ?thesis
    by (intro install_good [OF assms(1), where ?c1.0 = c1]) (simp_all add: ok(4))
qed

lemma install_file_extent_good:
  assumes "cat_inv c"
  shows "good c (add_extent_ref x c) (install_file_extent fs ino off x at_least now replica [] c)"
  unfolding install_file_extent_def
proof (intro good_attempt)
  let ?r = "change_inode fs ino (install_inode [(off, x_id x)] at_least now replica) c"
  show "good c (add_extent_ref x c) (andthen ?r (\<lambda>(old, grown) c.
      let c1 = add_extent_ref x c;
          old_len = (case old of [] \<Rightarrow> 0 | o1 # _ \<Rightarrow> extent_len c1 o1);
          c2 = edit_usage fs (\<lambda>u. u\<lparr>u_file_bytes := sat_add (u_file_bytes u) grown,
            u_used_bytes := sat_sub (wrap_add (u_used_bytes u) (x_len x)) old_len\<rparr>) c1
      in dec_refs old [] c2))"
  proof (cases rule: change_inode_cases [of fs ino "install_inode [(off, x_id x)] at_least now replica" c])
    case (ok f i i' y)
    with install_file_good [OF assms, of fs ino "[(off, x_id x)]" at_least now replica "fst y" "snd y" _ "[x]"]
    show ?thesis by (simp add: Let_def case_prod_unfold)
  qed simp
qed

lemma install_file_extents_good:
  assumes "cat_inv c"
  shows "good c (fold add_extent_ref xs c) (install_file_extents fs ino xs at_least now replica [] c)"
  unfolding install_file_extents_def
proof (intro good_attempt)
  let ?new = "map (\<lambda>x. (x_logical_offset x, x_id x)) xs"
  let ?r = "change_inode fs ino (install_inode ?new at_least now replica) c"
  show "good c (fold add_extent_ref xs c) (andthen ?r (\<lambda>(old, grown) c.
      let c1 = fold add_extent_ref xs c;
          old_len = sum_u64 (map (extent_len c1) old);
          new_len = sum_u64 (map x_len xs);
          c2 = edit_usage fs (\<lambda>u. u\<lparr>u_file_bytes := sat_add (u_file_bytes u) grown,
            u_used_bytes := sat_sub (wrap_add (u_used_bytes u) new_len) old_len\<rparr>) c1
      in dec_refs old [] c2))"
  proof (cases rule: change_inode_cases [of fs ino "install_inode ?new at_least now replica" c])
    case (ok f i i' y)
    with install_file_good [OF assms, of fs ino ?new at_least now replica "fst y" "snd y" _ xs]
    show ?thesis by (simp add: Let_def case_prod_unfold comp_def)
  qed simp
qed

subsection \<open>Filesystems, snapshots and clones\<close>

lemma new_fs_wf [simp]: "fs_wf (new_fs fs name eb now)"
  by (auto simp: fs_wf_def inos_ok_def special_ok_def new_fs_def root_inode_def inode_new_def)

lemma new_fs_refs [simp]: "tree_refs (fs_inodes (new_fs fs name eb now)) = {#}"
  using bsum_bput [of "\<lambda>i. mset (inode_extents i)" ROOT_INO "root_inode now" bempty]
  by (simp add: tree_refs_def new_fs_def root_inode_def inode_new_def inode_extents_def)

lemma put_new_fs_good:
  assumes "cat_inv c" and "bget (filesystems c) fs = None" and "fs_wf f" and "tree_refs (fs_inodes f) = {#}"
  shows "good c c (Inr [], put_fs fs f c)"
  using refs_put_fs [of fs f c] assms
  by (simp add: good_def cat_inv_def ref_inv_def gc_ok_def keeps_def trees_wf_put_fs)

lemma create_fs_good: "cat_inv c \<Longrightarrow> good c c (create_fs fs name now eb [] c)"
  unfolding create_fs_def
  by (intro good_attempt) (auto simp: good_unchanged split: option.split intro!: put_new_fs_good)

lemma create_replica_good: "cat_inv c \<Longrightarrow> good c c (create_replica fs name now eb [] c)"
proof -
  assume inv: "cat_inv c"
  have "fs_wf (empty_replica fs name eb now)" "tree_refs (fs_inodes (empty_replica fs name eb now)) = {#}"
    using new_fs_wf [of fs name "Some eb" now] new_fs_refs [of fs name "Some eb" now]
    by (simp_all add: empty_replica_def fs_wf_def)
  with inv show ?thesis
    unfolding create_replica_def
    by (intro good_attempt) (auto simp: good_unchanged split: option.split intro!: put_new_fs_good)
qed

lemma forget_fs_keeps: "keeps b c \<Longrightarrow> keeps b (c\<lparr>leases_of := forget_fs fs (leases_of c)\<rparr>)"
  by (simp add: keeps_def forget_fs_inv)

lemma delete_fs_good:
  assumes "cat_inv c"
  shows "good c c (delete_fs fs [] c)"
  unfolding delete_fs_def drop_inodes_eq
proof (intro good_attempt dec_refs_good)
  fix f assume "filesystem c fs = Inr f"
  then have f: "bget (filesystems c) fs = Some f" by (simp add: filesystem_def)
  let ?c = "c\<lparr>filesystems := bdel fs (filesystems c)\<rparr>"
  have "refs_of ?c + tree_refs (fs_inodes f) = refs_of c"
    using refs_filesystems(2) [of fs c] f by simp
  moreover have "refs_of (c\<lparr>filesystems := bdel fs (filesystems c), leases_of := L\<rparr>) = refs_of ?c" for L
    by (simp add: refs_of_def)
  ultimately show "ext_match (extents (c\<lparr>filesystems := bdel fs (filesystems c), leases_of := forget_fs fs (leases_of c)\<rparr>))
      (mset (file_extents (bvals (fs_inodes f)))
       + refs_of (c\<lparr>filesystems := bdel fs (filesystems c), leases_of := forget_fs fs (leases_of c)\<rparr>))"
    using cat_inv_match [OF assms] by (simp add: file_extents_refs add.commute)
qed (use assms in \<open>simp_all add: cat_inv_def trees_wf_def gc_ok_def keeps_def forget_fs_inv\<close>)

lemma share_extents_ok:
  assumes "cat_inv c" and "tree_refs t \<subseteq># refs_of c"
  obtains X where "share_extents t c = (Inr (), c\<lparr>extents := X\<rparr>)" "ext_match X (refs_of c + tree_refs t)"
    "same_extents (extents c) X"
  using inc_refs_good [OF assms(1), of "file_extents (bvals t)"] assms(2)
  by (auto simp: share_extents_def file_extents_refs)

text \<open>Freezing a filesystem under a new snapshot id always succeeds.\<close>

lemma snapshot_tree_ok:
  assumes "cat_inv c" and "bget (fs_snapshots c) sid = None" and "bget (filesystems c) fs = Some f"
  obtains c' where "snapshot_tree sid fs name now c = (Inr (), c')" "cat_inv c'" "keeps c c'"
    "set_mset (refs_of c') = set_mset (refs_of c)" "filesystems c' = filesystems c"
proof -
  obtain X where X: "share_extents (fs_inodes f) c = (Inr (), c\<lparr>extents := X\<rparr>)"
    "ext_match X (refs_of c + tree_refs (fs_inodes f))" "same_extents (extents c) X"
    by (rule share_extents_ok [OF assms(1) tree_refs_member [OF assms(3)]])
  let ?s = "\<lparr>ss_id = sid, ss_fs_id = fs, ss_name = name, ss_created_ns = now, ss_tree = f\<lparr>fs_replica := None\<rparr>\<rparr>"
  let ?c = "c\<lparr>extents := X, fs_snapshots := bput sid ?s (fs_snapshots c)\<rparr>"
  have refs: "refs_of ?c = refs_of c + tree_refs (fs_inodes f)"
    using refs_fs_snapshots(1) [of sid ?s "c\<lparr>extents := X\<rparr>"] assms(2) by simp
  have "fs_wf f" using assms(1,3) by (auto simp: cat_inv_def trees_wf_def)
  then have "trees_wf ?c" using assms(1) by (auto simp: cat_inv_def trees_wf_def fs_wf_def)
  moreover have "set_mset (refs_of ?c) = set_mset (refs_of c)"
    using refs set_mset_mono [OF tree_refs_member [OF assms(3)]] by auto
  moreover have "keeps c ?c" using X(3) by (simp add: keeps_def)
  ultimately show thesis
    using assms(2,3) X refs
    by (intro that [of ?c]) (simp_all add: snapshot_tree_def filesystem_def cat_inv_def ref_inv_def)
qed

lemma snapshot_fs_good:
  assumes "cat_inv c"
  shows "good c c (snapshot_fs sid fs name now [] c)"
proof (cases "bget (fs_snapshots c) sid")
  case None
  show ?thesis
  proof (cases "bget (filesystems c) fs")
    case (Some f)
    obtain c' where "snapshot_tree sid fs name now c = (Inr (), c')" "cat_inv c'" "keeps c c'"
      by (rule snapshot_tree_ok [OF assms None Some])
    then show ?thesis by (simp add: snapshot_fs_def keep_gc_def good_def gc_ok_def)
  qed (simp add: snapshot_fs_def snapshot_tree_def None filesystem_def keep_gc_def)
qed (auto simp: snapshot_fs_def snapshot_tree_def keep_gc_def good_unchanged [OF assms])

lemma delete_fs_snapshot_good:
  assumes "cat_inv c"
  shows "good c c (delete_fs_snapshot sid [] c)"
proof -
  have "good c c (drop_inodes (bvals (fs_inodes (ss_tree s))) [] (c\<lparr>fs_snapshots := bdel sid (fs_snapshots c)\<rparr>))"
    if s: "bget (fs_snapshots c) sid = Some s" for s
    unfolding drop_inodes_eq
  proof (rule dec_refs_good)
    have "refs_of (c\<lparr>fs_snapshots := bdel sid (fs_snapshots c)\<rparr>) + tree_refs (fs_inodes (ss_tree s)) = refs_of c"
      using refs_fs_snapshots(2) [of sid c] s by simp
    then show "ext_match (extents (c\<lparr>fs_snapshots := bdel sid (fs_snapshots c)\<rparr>))
        (mset (file_extents (bvals (fs_inodes (ss_tree s)))) + refs_of (c\<lparr>fs_snapshots := bdel sid (fs_snapshots c)\<rparr>))"
      using cat_inv_match [OF assms] by (simp add: file_extents_refs add.commute)
  qed (use assms in \<open>simp_all add: cat_inv_def trees_wf_def gc_ok_def keeps_def\<close>)
  then show ?thesis
    unfolding delete_fs_snapshot_def by (auto intro!: good_attempt)
qed

lemma clone_fs_good:
  assumes "cat_inv c"
  shows "good c c (clone_fs cid name sid [] c)"
proof (cases "bget (filesystems c) cid")
  case None
  have "good c c (andthen (share_extents (fs_inodes (ss_tree s)) c) (\<lambda>_ c.
      (Inr [], put_fs cid ((ss_tree s)\<lparr>fs_id := cid, fs_name := name, fs_source_snapshot := Some sid,
         fs_replica := None\<rparr>) c)))" if s: "bget (fs_snapshots c) sid = Some s" for s
  proof -
    obtain X where X: "share_extents (fs_inodes (ss_tree s)) c = (Inr (), c\<lparr>extents := X\<rparr>)"
      "ext_match X (refs_of c + tree_refs (fs_inodes (ss_tree s)))" "same_extents (extents c) X"
      by (rule share_extents_ok [OF assms snap_tree_refs_member [OF s]])
    let ?f = "(ss_tree s)\<lparr>fs_id := cid, fs_name := name, fs_source_snapshot := Some sid, fs_replica := None\<rparr>"
    have "refs_of (put_fs cid ?f (c\<lparr>extents := X\<rparr>)) = refs_of c + tree_refs (fs_inodes (ss_tree s))"
      using refs_put_fs [of cid ?f "c\<lparr>extents := X\<rparr>"] None by simp
    moreover have "fs_wf ?f" using assms s by (auto simp: cat_inv_def trees_wf_def fs_wf_def)
    ultimately show ?thesis
      using X assms by (simp add: good_def cat_inv_def ref_inv_def gc_ok_def keeps_def trees_wf_put_fs)
  qed
  with None show ?thesis unfolding clone_fs_def by (auto intro!: good_attempt)
qed (auto simp: clone_fs_def good_unchanged [OF assms])

text \<open>Changes of a filesystem that leave its inodes alone.\<close>

lemma with_fs_meta:
  assumes "cat_inv c" and "bget (filesystems c) fs = Some f"
    and "fs_inodes (g f) = fs_inodes f" and "fs_next_ino f \<le> fs_next_ino (g f)"
  shows "with_fs fs (\<lambda>f. (Inr (), g f)) c = (Inr (), put_fs fs (g f) c)"
    and "cat_inv (put_fs fs (g f) c)" and "keeps c (put_fs fs (g f) c)" and "refs_of (put_fs fs (g f) c) = refs_of c"
proof -
  show refs: "refs_of (put_fs fs (g f) c) = refs_of c"
    using refs_put_fs [of fs "g f" c] assms(2,3) by simp
  have "fs_wf (g f)"
    using assms by (auto simp: cat_inv_def trees_wf_def fs_wf_def intro: inos_ok_mono)
  then show "cat_inv (put_fs fs (g f) c)"
    using assms(1) refs by (simp add: cat_inv_def ref_inv_def trees_wf_put_fs)
  show "keeps c (put_fs fs (g f) c)" by (simp add: keeps_def)
  show "with_fs fs (\<lambda>f. (Inr (), g f)) c = (Inr (), put_fs fs (g f) c)"
    using assms(2) by (simp add: with_fs_def filesystem_def)
qed

lemma keep_gc_with_fs_meta_good:
  assumes "cat_inv c" and "\<And>f. fs_inodes (g f) = fs_inodes f" and "\<And>f. fs_next_ino f \<le> fs_next_ino (g f)"
  shows "good c c (keep_gc [] (with_fs fs (\<lambda>f. (Inr (), g f)) c))"
proof (cases "bget (filesystems c) fs")
  case None
  then show ?thesis by (simp add: keep_gc_def with_fs_def filesystem_def)
next
  case (Some f)
  note w = with_fs_meta [where g = g, OF assms(1) Some assms(2,3)]
  show ?thesis using w(2,3) by (simp add: keep_gc_def w(1) good_def gc_ok_def)
qed

lemma set_quota_good: "cat_inv c \<Longrightarrow> good c c (set_quota fs mb mi [] c)"
  unfolding set_quota_def Let_def by (rule keep_gc_with_fs_meta_good) simp_all

end
