(* ===== verification/ReplicaRefs.thy ===== *)
theory ReplicaRefs
  imports RefCounts
begin

text \<open>
  Reference counts through the operations of a replica filesystem: discarding a partial increment,
  applying a part, committing, promoting and demoting.
\<close>

section \<open>Reverting to a snapshot\<close>

text \<open>The result of putting the filesystem \<open>fs\<close> back to an earlier tree.\<close>

definition reverted :: "string \<Rightarrow> catalog \<Rightarrow> gc \<Rightarrow> catalog \<Rightarrow> bool" where
  "reverted fs c gc c' \<longleftrightarrow> cat_inv c' \<and> gc_ok gc c' \<and> keeps c c' \<and> fs_snapshots c' = fs_snapshots c
     \<and> bget (filesystems c') fs \<noteq> None"

definition reverts :: "string \<Rightarrow> catalog \<Rightarrow> (gc, catalog) change \<Rightarrow> bool" where
  "reverts fs c r \<longleftrightarrow> (case r of (Inl e, c') \<Rightarrow> c' = c | (Inr gc, c') \<Rightarrow> reverted fs c gc c')"

lemma reverts_error [simp]: "reverts fs c (Inl e, c)"
  by (simp add: reverts_def)

lemma reverts_attempt: "(\<And>a. r = Inr a \<Longrightarrow> reverts fs c (k a)) \<Longrightarrow> reverts fs c (attempt c r k)"
  by (cases r) simp_all

lemma reverts_good: "reverts fs c r \<Longrightarrow> good c c r"
  by (cases r; cases "fst r") (auto simp: reverts_def good_def reverted_def)

lemma replace_tree_reverts:
  assumes inv: "cat_inv c" and f: "bget (filesystems c) fs = Some f" and t: "fs_wf tree"
    and c1: "c1 = c\<lparr>extents := X\<rparr>" "ext_match X (refs_of c + tree_refs (fs_inodes tree))" "same_extents (extents c) X"
  shows "reverts fs c (drop_inodes (bvals (fs_inodes f)) [] ((put_fs fs tree c1)\<lparr>leases_of := forget_fs fs (leases_of c1)\<rparr>))"
proof -
  let ?c = "(put_fs fs tree c1)\<lparr>leases_of := forget_fs fs (leases_of c1)\<rparr>"
  have "refs_of (put_fs fs tree c1) + tree_refs (fs_inodes f) = refs_of c + tree_refs (fs_inodes tree)"
    using refs_put_fs [of fs tree c1] f c1(1) by simp
  then have m: "ext_match (extents ?c) (mset (file_extents (bvals (fs_inodes f))) + refs_of ?c)"
    using c1(1,2) by (simp add: file_extents_refs add.commute)
  then obtain Y gone where Y: "dec_refs (file_extents (bvals (fs_inodes f))) [] ?c = (Inr ([] @ gone), ?c\<lparr>extents := Y\<rparr>)"
    "ext_match Y (refs_of ?c)" "same_extents (extents ?c) Y"
    "set gone = {e \<in> set (file_extents (bvals (fs_inodes f))). e \<notin># refs_of ?c}"
    by (rule dec_refs_ok)
  have "trees_wf (?c\<lparr>extents := Y\<rparr>)"
    using inv t c1(1) by (simp add: cat_inv_def trees_wf_put_fs)
  moreover have "same_extents (extents c) Y"
    using same_extents_trans [OF c1(3)] Y(3) c1(1) by simp
  moreover have "refs_of (c\<lparr>extents := X, filesystems := F\<rparr>) = refs_of (c\<lparr>filesystems := F\<rparr>)" for F
    by (simp add: refs_of_def)
  moreover have "gc_ok gone (?c\<lparr>extents := Y\<rparr>)"
    using dec_refs_gc [OF m, of "?c\<lparr>extents := Y\<rparr>" gone] Y(3,4) by simp
  ultimately show ?thesis
    unfolding drop_inodes_eq Y(1)
    using Y(2) c1(1)
    by (simp add: reverts_def reverted_def cat_inv_def ref_inv_def keeps_def forget_fs_inv put_fs_def)
qed

lemma revert_to_reverts:
  assumes "cat_inv c"
  shows "reverts fs c (revert_to fs sid r [] c)"
  unfolding revert_to_def Let_def
proof (intro reverts_attempt)
  fix s f assume "filesystem c fs = Inr f"
    and "ok_or (case bget (fs_snapshots c) sid of Some s \<Rightarrow> if ss_fs_id s = fs then Some s else None | None \<Rightarrow> None)
      NotFound = Inr s"
  then have f: "bget (filesystems c) fs = Some f" and s: "bget (fs_snapshots c) sid = Some s"
    by (auto simp: filesystem_def ok_or_eq_Inr split: option.splits if_splits)
  let ?t = "(ss_tree s)\<lparr>fs_id := fs_id f, fs_name := fs_name f, fs_quota_of := fs_quota_of f,
    fs_source_snapshot := fs_source_snapshot f, fs_next_ino := max (fs_next_ino (ss_tree s)) (fs_next_ino f),
    fs_replica := r\<rparr>"
  have t: "fs_wf ?t"
    using assms s inos_ok_mono [OF _ max.cobounded1] by (auto simp: cat_inv_def trees_wf_def fs_wf_def)
  obtain X where X: "share_extents (fs_inodes ?t) c = (Inr (), c\<lparr>extents := X\<rparr>)"
    "ext_match X (refs_of c + tree_refs (fs_inodes ?t))" "same_extents (extents c) X"
    using share_extents_ok [OF assms snap_tree_refs_member [OF s]] by auto
  show "reverts fs c (andthen (share_extents (fs_inodes ?t) c) (\<lambda>_ c.
      drop_inodes (bvals (fs_inodes f)) [] ((put_fs fs ?t c)\<lparr>leases_of := forget_fs fs (leases_of c)\<rparr>)))"
    unfolding X(1) andthen_simps by (rule replace_tree_reverts [OF assms f t refl X(2,3)])
qed

lemma discard_partial_reverts:
  assumes "cat_inv c"
  shows "reverts fs c (discard_partial fs [] c)"
  unfolding discard_partial_def
proof (intro reverts_attempt)
  fix r
  have "reverts fs c (attempt c (filesystem c fs) (\<lambda>f. attempt c (fs_inode f ROOT_INO) (\<lambda>root.
      let fresh = (empty_replica fs (fs_name f) (case fs_extent_bytes f of None \<Rightarrow> 0 | Some b \<Rightarrow> b) (i_ctime_ns root))
            \<lparr>fs_quota_of := fs_quota_of f, fs_next_ino := fs_next_ino f\<rparr>
      in drop_inodes (bvals (fs_inodes f)) [] ((put_fs fs fresh c)\<lparr>leases_of := forget_fs fs (leases_of c)\<rparr>))))"
    unfolding Let_def
  proof (intro reverts_attempt)
    fix f root assume "filesystem c fs = Inr f" and root: "fs_inode f ROOT_INO = Inr root"
    then have f: "bget (filesystems c) fs = Some f" by (simp add: filesystem_def)
    let ?e = "empty_replica fs (fs_name f) (case fs_extent_bytes f of None \<Rightarrow> 0 | Some b \<Rightarrow> b) (i_ctime_ns root)"
    let ?t = "?e\<lparr>fs_quota_of := fs_quota_of f, fs_next_ino := fs_next_ino f\<rparr>"
    have "fs_wf f" using assms f by (auto simp: cat_inv_def trees_wf_def)
    with root have "ROOT_INO < fs_next_ino f" by (simp add: fs_wf_def inos_ok_def)
    then have t: "fs_wf ?t"
      by (auto simp: fs_wf_def inos_ok_def special_ok_def empty_replica_def new_fs_def root_inode_def inode_new_def)
    have "tree_refs (fs_inodes ?t) = {#}" by (simp add: empty_replica_def)
    then show "reverts fs c (drop_inodes (bvals (fs_inodes f)) [] ((put_fs fs ?t c)\<lparr>leases_of := forget_fs fs (leases_of c)\<rparr>))"
      using replace_tree_reverts [OF assms f t, of c "extents c"] cat_inv_match [OF assms] by simp
  qed
  then show "reverts fs c (case rs_local r of
      Some loc \<Rightarrow> revert_to fs loc (Some (r\<lparr>rs_pending := None\<rparr>)) [] c
    | None \<Rightarrow> attempt c (filesystem c fs) (\<lambda>f. attempt c (fs_inode f ROOT_INO) (\<lambda>root.
      let fresh = (empty_replica fs (fs_name f) (case fs_extent_bytes f of None \<Rightarrow> 0 | Some b \<Rightarrow> b) (i_ctime_ns root))
            \<lparr>fs_quota_of := fs_quota_of f, fs_next_ino := fs_next_ino f\<rparr>
      in drop_inodes (bvals (fs_inodes f)) [] ((put_fs fs fresh c)\<lparr>leases_of := forget_fs fs (leases_of c)\<rparr>))))"
    by (cases "rs_local r") (simp_all add: revert_to_reverts [OF assms])
qed

section \<open>Commit, promotion, demotion\<close>

lemma revert_to_good: "cat_inv c \<Longrightarrow> good c c (revert_to fs sid r [] c)"
  by (rule reverts_good [OF revert_to_reverts])

lemma replica_promote_good: "cat_inv c \<Longrightarrow> good c c (replica_promote fs force [] c)"
  unfolding replica_promote_def
  by (intro good_attempt)
    (auto simp: good_unchanged split: option.split intro!: revert_to_good keep_gc_with_fs_meta_good)

lemma replica_demote_good: "cat_inv c \<Longrightarrow> good c c (replica_demote fs snapshot base [] c)"
  unfolding replica_demote_def
  by (intro good_attempt) (auto simp: good_unchanged split: option.split intro!: revert_to_good)

lemma commit_tail:
  assumes "reverted fs b gc c" and "bget (fs_snapshots b) snapshot = None"
  shows "good b b (andthen (with_fs fs (\<lambda>f. (Inr (), f\<lparr>fs_next_ino := max (fs_next_ino f) next,
      fs_replica := r\<rparr>)) c) (\<lambda>_ c. keep_gc gc (snapshot_tree snapshot fs name now c)))"
proof -
  let ?g = "\<lambda>f. f\<lparr>fs_next_ino := max (fs_next_ino f) next, fs_replica := r\<rparr>"
  from assms(1) obtain f where f: "bget (filesystems c) fs = Some f" and inv: "cat_inv c"
    and gc: "gc_ok gc c" and k: "keeps b c" and s: "bget (fs_snapshots c) snapshot = None"
    using assms(2) by (auto simp: reverted_def)
  note w = with_fs_meta [where g = ?g, OF inv f, simplified]
  have "bget (fs_snapshots (put_fs fs (?g f) c)) snapshot = None"
    "bget (filesystems (put_fs fs (?g f) c)) fs = Some (?g f)"
    using s by (simp_all add: put_fs_def)
  then obtain c' where c': "snapshot_tree snapshot fs name now (put_fs fs (?g f) c) = (Inr (), c')" "cat_inv c'"
      "keeps (put_fs fs (?g f) c) c'" "set_mset (refs_of c') = set_mset (refs_of (put_fs fs (?g f) c))"
    by (rule snapshot_tree_ok [OF w(2)])
  have "gc_ok gc c'"
    using gc_ok_mono [OF gc, of c'] c'(3,4) w(3,4) same_extents_trans by (simp add: keeps_def)
  then show ?thesis
    using c' keeps_trans [OF keeps_trans [OF k w(3)] c'(3)] by (simp add: w(1) keep_gc_def good_def)
qed

lemma replica_commit_good:
  assumes "cat_inv c"
  shows "good c c (replica_commit fs from_snap to_snap snapshot name next now [] c)"
  unfolding replica_commit_def Let_def
proof (rule good_attempt)
  fix r assume r: "replica_of c fs = Inr r"
  let ?partial = "rs_pending r \<noteq> Some to_snap \<and> rs_pending r \<noteq> None"
  let ?d = "if ?partial then discard_partial fs [] c else (Inr [], c)"
  let ?k = "\<lambda>gc c. andthen (with_fs fs (\<lambda>f. (Inr (), f\<lparr>fs_next_ino := max (fs_next_ino f) next,
      fs_replica := Some \<lparr>rs_base = Some to_snap, rs_local = Some snapshot, rs_pending = None\<rparr>\<rparr>)) c) (\<lambda>_ c.
      keep_gc gc (snapshot_tree snapshot fs name now c))"
  have "good c c (andthen ?d ?k)" if s: "bget (fs_snapshots c) snapshot = None"
  proof -
    have "bget (filesystems c) fs \<noteq> None"
      using r by (auto simp: replica_of_def filesystem_def rbind_eq_Inr)
    then have "reverts fs c ?d"
      using discard_partial_reverts [OF assms] assms by (simp add: reverts_def reverted_def gc_ok_def)
    then show ?thesis
      using commit_tail [OF _ s] by (cases ?d; cases "fst ?d") (auto simp: reverts_def)
  qed
  then show "good c c (if rs_base r = Some to_snap \<and> rs_local r = Some snapshot then (Inr [], c)
      else attempt c (guard (rs_pending r = Some to_snap \<or> rs_base r = from_snap) Invalid) (\<lambda>_.
        attempt c (guard (bget (fs_snapshots c) snapshot = None) Exists) (\<lambda>_. andthen ?d ?k)))"
    using good_unchanged [OF assms] by (auto intro!: good_attempt simp: guard_eq_Inr)
qed

section \<open>Applying a part of an increment\<close>

lemma tree_refs_bput:
  "tree_refs (bput k i t) + bopt (\<lambda>i. mset (inode_extents i)) (bget t k) = tree_refs t + mset (inode_extents i)"
  unfolding tree_refs_def by (rule bsum_bput)

lemma tree_refs_bdel: "tree_refs (bdel k t) + bopt (\<lambda>i. mset (inode_extents i)) (bget t k) = tree_refs t"
  unfolding tree_refs_def by (rule bsum_bdel)

lemma remove_holes_refs: "remove_holes hs xs = (old, ys) \<Longrightarrow> mset (bvals ys) + mset old = mset (bvals xs)"
proof (induction hs arbitrary: xs old)
  case (Cons h hs)
  obtain old' where "remove_holes hs (bdel h xs) = (old', ys)"
    and old: "old = (case bget xs h of None \<Rightarrow> old' | Some x \<Rightarrow> x # old')"
    using Cons.prems by (auto split: prod.splits option.splits)
  from Cons.IH [OF this(1)] have "map_refs ys + mset old' = map_refs (bdel h xs)" by (simp add: map_refs_def)
  moreover have "map_refs (bdel h xs) + bopt (\<lambda>x. {#x#}) (bget xs h) = map_refs xs"
    unfolding map_refs_bsum by (rule bsum_bdel)
  ultimately show ?case by (cases "bget xs h") (simp_all add: old map_refs_def)
qed simp

text \<open>The type an inode of the part has, and that it may be applied.\<close>

definition part_fits :: "replica_inode \<Rightarrow> inode option \<Rightarrow> bool" where
  "part_fits n x \<longleftrightarrow> (\<forall>i. x = Some i \<longrightarrow> node_type_of i = n_node_type n)
     \<and> (n_node_type n = TSymlink \<longrightarrow> n_target n \<noteq> None) \<and> (n_entries n \<noteq> [] \<longrightarrow> n_node_type n = TDir)"

lemma replica_update_ok:
  assumes "part_fits n (Some i)"
  obtains i' ct bytes where "replica_update n i = Inr (i', ct, bytes)" "node_type_of i' = n_node_type n"
    "i_ino i' = i_ino i" "special_ok i' = special_ok i" "mset (inode_extents i') + mset ct = mset (inode_extents i)"
proof (cases "i_kind i")
  case (File sz xs)
  define p where "p = (if n_size n < sz then (bvals (bfrom (n_size n) xs), bbelow (n_size n) xs) else ([], xs))"
  obtain ct xs1 where p: "p = (ct, xs1)" by (rule prod.exhaust)
  obtain holes xs2 where h: "remove_holes (n_holes n) xs1 = (holes, xs2)" by (rule prod.exhaust)
  have "mset (bvals xs1) + mset ct = mset (bvals xs)"
    using p map_refs_split [of "n_size n" xs] by (auto simp: p_def map_refs_def split: if_splits)
  then have "mset (bvals xs2) + mset (ct @ holes) = mset (bvals xs)"
    using remove_holes_refs [OF h] by (simp add: ac_simps flip: union_assoc)
  moreover have u: "replica_update n i =
      Inr ((replica_attrs n i)\<lparr>i_kind := File (n_size n) xs2\<rparr>, ct @ holes, int (n_size n) - int sz)"
    using p by (simp add: replica_update_def File h flip: p_def)
  ultimately show thesis
    using assms File by (intro that [OF u])
      (auto simp: part_fits_def node_type_of_def replica_attrs_def special_ok_def inode_extents_def)
qed (use assms in \<open>auto simp: replica_update_def part_fits_def node_type_of_def replica_attrs_def special_ok_def
      inode_extents_def intro!: that\<close>)

lemma replica_create_ok:
  assumes "part_fits n None"
  obtains i' bytes where "replica_create n = Inr (i', bytes)" "node_type_of i' = n_node_type n"
    "i_ino i' = n_ino n" "special_ok i'" "inode_extents i' = []"
  using assms by (cases "n_node_type n")
    (auto simp: replica_create_def part_fits_def node_type_of_def special_ok_def inode_extents_def intro: that)

lemma is_dir_type: "special_ok i \<Longrightarrow> node_type_of i = TDir \<longleftrightarrow> is_dir i"
  by (auto simp: special_ok_def node_type_of_def is_dir_def is_dir_kind_def split: inode_kind.splits)

lemma set_entries_ok:
  assumes "bget t d = Some i" and "es \<noteq> [] \<Longrightarrow> is_dir i"
  obtains i' where "set_entries d es t = (Inr (), bput d i' t)" "node_type_of i' = node_type_of i"
    "i_ino i' = i_ino i" "special_ok i' = special_ok i" "inode_extents i' = inode_extents i"
proof -
  have "\<exists>i'. set_entries d es t = (Inr (), bput d i' t) \<and> node_type_of i' = node_type_of i
      \<and> i_ino i' = i_ino i \<and> special_ok i' = special_ok i \<and> inode_extents i' = inode_extents i"
    using assms
  proof (induction es arbitrary: t i)
    case Nil
    then show ?case by (intro exI [of _ i]) (simp add: bput_same)
  next
    case (Cons x es)
    obtain name y where x: "x = (name, y)" by (rule prod.exhaust)
    obtain p ds where k: "i_kind i = Dir p ds" using Cons.prems(2) by (auto simp: is_dir_Dir)
    let ?i = "i\<lparr>i_kind := Dir p (put_entry name y ds)\<rparr>"
    have "is_dir ?i" by (simp add: is_dir_Dir)
    with Cons.IH [of "bput d ?i t" ?i] show ?case
      using Cons.prems(1) by (simp add: x itab_set_entry_def k node_type_of_def special_ok_def inode_extents_def)
  qed
  then show thesis using that by blast
qed

lemma upsert_inode_ok:
  assumes "fs_wf f" and "part_fits n (bget (fs_inodes f) (n_ino n))"
  obtains i ct bytes where "upsert_inode n f = (Inr (ct, bytes), f\<lparr>fs_inodes := bput (n_ino n) i (fs_inodes f)\<rparr>)"
    "node_type_of i = n_node_type n" "i_ino i = n_ino n" "special_ok i"
    "tree_refs (bput (n_ino n) i (fs_inodes f)) + mset ct = tree_refs (fs_inodes f)"
proof (cases "bget (fs_inodes f) (n_ino n)")
  case None
  then obtain i' bytes where "replica_create n = Inr (i', bytes)" "node_type_of i' = n_node_type n"
    "i_ino i' = n_ino n" "special_ok i'" "inode_extents i' = []"
    using assms(2) by (metis replica_create_ok)
  then show thesis
    using None tree_refs_bput [of "n_ino n" i' "fs_inodes f"]
    by (intro that [of "[]" bytes i']) (simp_all add: upsert_inode_def)
next
  case (Some i)
  with assms(2) have fits: "part_fits n (Some i)" by simp
  obtain i' ct bytes where u: "replica_update n i = Inr (i', ct, bytes)" "node_type_of i' = n_node_type n"
    "i_ino i' = i_ino i" "special_ok i' = special_ok i" "mset (inode_extents i') + mset ct = mset (inode_extents i)"
    by (rule replica_update_ok [OF fits])
  have i: "i_ino i = n_ino n" "special_ok i" using assms(1) Some by (auto simp: fs_wf_def inos_ok_def)
  have "tree_refs (bput (n_ino n) i' (fs_inodes f)) + mset (inode_extents i) = tree_refs (fs_inodes f) + mset (inode_extents i')"
    using tree_refs_bput [of "n_ino n" i' "fs_inodes f"] Some by simp
  then have "tree_refs (bput (n_ino n) i' (fs_inodes f)) + mset ct = tree_refs (fs_inodes f)"
    unfolding u(5) [symmetric] by (simp add: ac_simps)
  then show thesis
    using u i Some by (intro that [of ct bytes i']) (simp_all add: upsert_inode_def)
qed

text \<open>One inode of a part: the table gets one new or changed inode of the announced type.\<close>

lemma upsert_step:
  assumes "fs_wf f" and "part_fits n (bget (fs_inodes f) (n_ino n))" and "n_ino n < u64_max"
  obtains i ct bytes f' where
    "f' = f\<lparr>fs_next_ino := max (fs_next_ino f) (n_ino n + 1), fs_inodes := bput (n_ino n) i (fs_inodes f)\<rparr>"
    "upsert_inodes (n # ns) eff f =
      upsert_inodes ns \<lparr>pe_dropped = pe_dropped eff @ ct, pe_file_bytes = pe_file_bytes eff + bytes\<rparr> f'"
    "node_type_of i = n_node_type n" "fs_wf f'" "tree_refs (fs_inodes f') + mset ct = tree_refs (fs_inodes f)"
proof -
  obtain i ct bytes where u: "upsert_inode n f = (Inr (ct, bytes), f\<lparr>fs_inodes := bput (n_ino n) i (fs_inodes f)\<rparr>)"
    "node_type_of i = n_node_type n" "i_ino i = n_ino n" "special_ok i"
    "tree_refs (bput (n_ino n) i (fs_inodes f)) + mset ct = tree_refs (fs_inodes f)"
    by (rule upsert_inode_ok [OF assms(1,2)])
  have "bget (bput (n_ino n) i (fs_inodes f)) (n_ino n) = Some i" by simp
  moreover have "n_entries n \<noteq> [] \<Longrightarrow> is_dir i"
    using assms(2) u(2) is_dir_type [OF u(4)] by (simp add: part_fits_def)
  ultimately obtain j where j: "set_entries (n_ino n) (n_entries n) (bput (n_ino n) i (fs_inodes f)) =
      (Inr (), bput (n_ino n) j (bput (n_ino n) i (fs_inodes f)))" "node_type_of j = node_type_of i"
    "i_ino j = i_ino i" "special_ok j = special_ok i" "inode_extents j = inode_extents i"
    by (rule set_entries_ok)
  let ?f = "f\<lparr>fs_next_ino := max (fs_next_ino f) (n_ino n + 1), fs_inodes := bput (n_ino n) j (fs_inodes f)\<rparr>"
  have "fs_wf ?f"
    using assms(1) u(3,4) j(3,4) by (auto simp: fs_wf_def intro!: inos_ok_bput intro: inos_ok_mono)
  moreover have "tree_refs (bput (n_ino n) j (fs_inodes f)) = tree_refs (bput (n_ino n) i (fs_inodes f))"
    using tree_refs_bput [of "n_ino n" j "fs_inodes f"] tree_refs_bput [of "n_ino n" i "fs_inodes f"] j(5)
    by (metis add_right_cancel)
  ultimately show thesis
    using u j assms(3) by (intro that [of ?f j ct bytes]) (simp_all add: bput_bput)
qed

definition types_kept :: "fs_meta \<Rightarrow> (nat, node_type) btree \<Rightarrow> fs_meta \<Rightarrow> bool" where
  "types_kept f0 types f \<longleftrightarrow> (\<forall>k. map_option node_type_of (bget (fs_inodes f) k) =
     (case bget types k of Some t \<Rightarrow> Some t | None \<Rightarrow> map_option node_type_of (bget (fs_inodes f0) k)))"

lemma check_replica_inode_ok:
  assumes "check_replica_inode f0 types n = Inr types'" and "types_kept f0 types f"
  shows "types' = bput (n_ino n) (n_node_type n) types" and "part_fits n (bget (fs_inodes f) (n_ino n))"
proof -
  let ?known = "case bget types (n_ino n) of
      Some t \<Rightarrow> Some t | None \<Rightarrow> map_option node_type_of (bget (fs_inodes f0) (n_ino n))"
  have k: "?known = None \<or> ?known = Some (n_node_type n)"
    and t: "types' = bput (n_ino n) (n_node_type n) types"
    and "n_node_type n = TSymlink \<longrightarrow> n_target n \<noteq> None" "n_entries n \<noteq> [] \<longrightarrow> n_node_type n = TDir"
    using assms(1) by (auto simp: check_replica_inode_def Let_def rbind_eq_Inr split: if_splits option.splits)
  moreover have "map_option node_type_of (bget (fs_inodes f) (n_ino n)) = ?known"
    using assms(2) by (simp add: types_kept_def)
  ultimately show "types' = bput (n_ino n) (n_node_type n) types" "part_fits n (bget (fs_inodes f) (n_ino n))"
    by (auto simp: part_fits_def)
qed

lemma upsert_inodes_ok:
  assumes "check_replica_inodes f0 ns types = Inr types'" and "types_kept f0 types f" and "fs_wf f"
    and "\<And>n. n \<in> set ns \<Longrightarrow> n_ino n < u64_max"
  shows "\<exists>eff' f'. upsert_inodes ns eff f = (Inr eff', f') \<and> fs_wf f' \<and> fs_replica f' = fs_replica f
    \<and> tree_refs (fs_inodes f') + mset (pe_dropped eff') = tree_refs (fs_inodes f) + mset (pe_dropped eff)"
  using assms
proof (induction ns arbitrary: types f eff)
  case Nil
  then show ?case by simp
next
  case (Cons n ns)
  from Cons.prems(1) obtain types1 where c: "check_replica_inode f0 types n = Inr types1"
    and cs: "check_replica_inodes f0 ns types1 = Inr types'"
    by (auto simp: rbind_eq_Inr)
  note ok = check_replica_inode_ok [OF c Cons.prems(2)]
  have "n_ino n < u64_max" using Cons.prems(4) by simp
  then obtain i ct bytes f' where s:
    "f' = f\<lparr>fs_next_ino := max (fs_next_ino f) (n_ino n + 1), fs_inodes := bput (n_ino n) i (fs_inodes f)\<rparr>"
    "upsert_inodes (n # ns) eff f =
      upsert_inodes ns \<lparr>pe_dropped = pe_dropped eff @ ct, pe_file_bytes = pe_file_bytes eff + bytes\<rparr> f'"
    "node_type_of i = n_node_type n" "fs_wf f'" "tree_refs (fs_inodes f') + mset ct = tree_refs (fs_inodes f)"
    by (rule upsert_step [OF Cons.prems(3) ok(2)])
  have "types_kept f0 types1 f'"
    using Cons.prems(2) s(1,3) by (simp add: types_kept_def ok(1))
  with Cons.IH [OF cs _ s(4)] Cons.prems(4) obtain eff' f'' where
    "upsert_inodes ns \<lparr>pe_dropped = pe_dropped eff @ ct, pe_file_bytes = pe_file_bytes eff + bytes\<rparr> f' = (Inr eff', f'')"
    "fs_wf f''" "fs_replica f'' = fs_replica f'"
    "tree_refs (fs_inodes f'') + mset (pe_dropped eff') = tree_refs (fs_inodes f') + mset (pe_dropped eff @ ct)"
    by (metis list.set_intros(2) part_effect.select_convs(1))
  moreover have "tree_refs (fs_inodes f') + mset (pe_dropped eff @ ct) = tree_refs (fs_inodes f) + mset (pe_dropped eff)"
    using s(5) by (simp add: ac_simps flip: s(5))
  ultimately show ?case using s(1,2) by auto
qed

lemma remove_inodes_ok:
  "remove_inodes inos t = (gone, t') \<Longrightarrow>
     tree_refs t' + mset (file_extents gone) = tree_refs t \<and> (inos_ok t next \<longrightarrow> inos_ok t' next)"
proof (induction inos arbitrary: t gone)
  case (Cons k inos)
  obtain g where g: "remove_inodes inos (bdel k t) = (g, t')"
    and gone: "gone = (case bget t k of None \<Rightarrow> g | Some i \<Rightarrow> i # g)"
    using Cons.prems by (auto split: prod.splits)
  have "mset (file_extents gone) = mset (file_extents g) + bopt (\<lambda>i. mset (inode_extents i)) (bget t k)"
    by (cases "bget t k") (simp_all add: gone file_extents_def)
  with Cons.IH [OF g] show ?case
    using tree_refs_bdel [of k t] inos_ok_bdel [of t "next" k] by (simp flip: union_assoc)
qed (simp add: file_extents_def)

lemma apply_part_fs_ok:
  assumes "check_replica_inodes f ns bempty = Inr types" and "fs_wf f" and "fs_replica f \<noteq> None"
    and "\<And>n. n \<in> set ns \<Longrightarrow> n_ino n < u64_max"
  obtains eff gone f' where "apply_part_fs to_snap ns removed f = (Inr (eff, gone), f')" "fs_wf f'"
    "tree_refs (fs_inodes f') + mset (file_extents gone) + mset (pe_dropped eff) = tree_refs (fs_inodes f)"
proof -
  have "types_kept f bempty f" by (simp add: types_kept_def)
  from upsert_inodes_ok [OF assms(1) this assms(2,4), of "\<lparr>pe_dropped = [], pe_file_bytes = 0\<rparr>"] obtain eff f1 where u:
    "upsert_inodes ns \<lparr>pe_dropped = [], pe_file_bytes = 0\<rparr> f = (Inr eff, f1)" "fs_wf f1" "fs_replica f1 = fs_replica f"
    "tree_refs (fs_inodes f1) + mset (pe_dropped eff) = tree_refs (fs_inodes f)"
    by auto
  obtain gone t where r: "remove_inodes removed (fs_inodes f1) = (gone, t)" by (rule prod.exhaust)
  obtain r where "fs_replica f = Some r" using assms(3) by blast
  with u r remove_inodes_ok [OF r, of "fs_next_ino f1"] show thesis
    by (intro that [of eff gone "f1\<lparr>fs_inodes := t, fs_replica := Some (r\<lparr>rs_pending := Some to_snap\<rparr>)\<rparr>"])
      (simp_all add: apply_part_fs_def fs_wf_def)
qed

lemma forget_inodes_good:
  assumes "ext_match (extents c) (mset (file_extents is) + refs_of c)" and "trees_wf c" and "gc_ok gc c" and "keeps b c"
  shows "good c0 b (forget_inodes fs is gc c)"
  using assms
proof (induction "is" arbitrary: gc c)
  case Nil
  then show ?case by (simp add: good_def cat_inv_def ref_inv_def file_extents_def)
next
  case (Cons i "is")
  let ?c = "forget_usage fs i c"
  have m: "ext_match (extents ?c) (mset (inode_extents i) + (mset (file_extents is) + refs_of ?c))"
    using Cons.prems(1) by (simp add: file_extents_def ac_simps)
  then obtain X gone where d: "dec_refs (inode_extents i) gc ?c = (Inr (gc @ gone), ?c\<lparr>extents := X\<rparr>)"
    "ext_match X (mset (file_extents is) + refs_of ?c)" "same_extents (extents ?c) X"
    "set gone = {e \<in> set (inode_extents i). e \<notin># mset (file_extents is) + refs_of ?c}"
    by (rule dec_refs_ok)
  have "keeps b (?c\<lparr>extents := X\<rparr>)"
    using Cons.prems(4) d(3) by (intro keeps_extents) (simp_all add: keeps_def)
  moreover have "gc_ok gone (?c\<lparr>extents := X\<rparr>)"
    using dec_refs_gc [OF m, of "?c\<lparr>extents := X\<rparr>" gone] d(3,4) by simp
  moreover have "gc_ok gc (?c\<lparr>extents := X\<rparr>)"
    using gc_ok_mono [OF Cons.prems(3), of "?c\<lparr>extents := X\<rparr>"] d(3) by simp
  ultimately show ?case
    using Cons.prems(2) d(1,2) by (auto simp: drop_inode_eq intro!: Cons.IH)
qed

text \<open>A part that passes its check against the tree it is applied to is applied completely.\<close>

lemma apply_part_good:
  assumes inv: "cat_inv c" and gc: "gc_ok gc c" and b: "keeps b c"
    and chk: "check_part c fs from_snap to_snap ns removed = Inr ()" and small: "\<And>n. n \<in> set ns \<Longrightarrow> n_ino n < u64_max"
  shows "good c0 b (andthen (with_fs fs (apply_part_fs to_snap ns removed) c) (\<lambda>(eff, gone) c.
    let dropped_bytes = sum_u64 (map (extent_len c) (pe_dropped eff));
        c1 = edit_usage fs (g eff dropped_bytes) c
    in andthen (dec_refs (pe_dropped eff) gc c1) (\<lambda>gc c. forget_inodes fs gone gc c)))"
proof -
  from chk obtain f types where f: "bget (filesystems c) fs = Some f" "fs_replica f \<noteq> None"
      and t: "check_replica_inodes f ns bempty = Inr types"
    by (auto simp: check_part_def replica_of_def filesystem_def rbind_eq_Inr ok_or_eq_Inr split: if_splits)
  have wf: "fs_wf f" using inv f(1) by (auto simp: cat_inv_def trees_wf_def)
  obtain eff gone f' where a: "apply_part_fs to_snap ns removed f = (Inr (eff, gone), f')" "fs_wf f'"
    "tree_refs (fs_inodes f') + mset (file_extents gone) + mset (pe_dropped eff) = tree_refs (fs_inodes f)"
    by (rule apply_part_fs_ok [OF t wf f(2) small])
  let ?c1 = "put_fs fs f' c"
  let ?c = "edit_usage fs (g eff (sum_u64 (map (extent_len ?c1) (pe_dropped eff)))) ?c1"
  have "refs_of ?c1 + tree_refs (fs_inodes f) = refs_of c + tree_refs (fs_inodes f')"
    using refs_put_fs [of fs f' c] f(1) by simp
  then have refs: "refs_of c = refs_of ?c1 + mset (file_extents gone) + mset (pe_dropped eff)"
    unfolding a(3) [symmetric] by (simp add: ac_simps)
  then have m: "ext_match (extents ?c) (mset (pe_dropped eff) + (mset (file_extents gone) + refs_of ?c))"
    using cat_inv_match [OF inv] by (simp add: ac_simps)
  then obtain X rel where d: "dec_refs (pe_dropped eff) gc ?c = (Inr (gc @ rel), ?c\<lparr>extents := X\<rparr>)"
    "ext_match X (mset (file_extents gone) + refs_of ?c)" "same_extents (extents ?c) X"
    "set rel = {e \<in> set (pe_dropped eff). e \<notin># mset (file_extents gone) + refs_of ?c}"
    by (rule dec_refs_ok)
  have "keeps b (?c\<lparr>extents := X\<rparr>)"
    using b d(3) by (intro keeps_extents) (simp_all add: keeps_def)
  moreover have "gc_ok (gc @ rel) (?c\<lparr>extents := X\<rparr>)"
    using dec_refs_gc [OF m, of "?c\<lparr>extents := X\<rparr>" rel] gc_ok_mono [OF gc, of "?c\<lparr>extents := X\<rparr>"] d(3,4) refs
    by (simp add: Un_assoc)
  moreover have "trees_wf (?c\<lparr>extents := X\<rparr>)"
    using inv a(2) by (simp add: cat_inv_def trees_wf_put_fs)
  ultimately have "good c0 b (forget_inodes fs gone (gc @ rel) (?c\<lparr>extents := X\<rparr>))"
    using d(2) by (intro forget_inodes_good) simp_all
  then show ?thesis
    using f(1) a(1) d(1) by (simp add: with_fs_def filesystem_def Let_def)
qed

text \<open>The part is also consistent with the tree that discarding an unfinished increment leaves.\<close>

definition part_survives_discard ::
    "catalog \<Rightarrow> string \<Rightarrow> string option \<Rightarrow> string \<Rightarrow> replica_inode list \<Rightarrow> nat list \<Rightarrow> bool" where
  "part_survives_discard c fs from_snap to_snap ns removed =
     (case replica_of c fs of
        Inl _ \<Rightarrow> True
      | Inr r \<Rightarrow>
          if rs_pending r = None \<or> rs_pending r = Some to_snap then True
          else (case discard_partial fs [] c of
                  (Inl _, _) \<Rightarrow> True
                | (Inr _, c1) \<Rightarrow> check_part c1 fs from_snap to_snap ns removed = Inr ()))"

lemma replica_apply_good:
  assumes inv: "cat_inv c" and small: "\<And>n. n \<in> set ns \<Longrightarrow> n_ino n < u64_max"
    and fits: "part_survives_discard c fs from_snap to_snap ns removed"
  shows "good c c (replica_apply fs from_snap to_snap ns removed [] c)"
  unfolding replica_apply_def
proof (intro good_attempt)
  fix u r assume chk: "check_part c fs from_snap to_snap ns removed = Inr u" and r: "replica_of c fs = Inr r"
  have ok: "check_part c fs from_snap to_snap ns removed = Inr ()" using chk by simp
  note tail = apply_part_good [where ns = ns and b = c and g = "\<lambda>eff dropped u.
      u\<lparr>u_file_bytes := nat (max 0 (int (u_file_bytes u) + pe_file_bytes eff)) mod 2 ^ 64,
        u_used_bytes := sat_sub (u_used_bytes u) dropped\<rparr>", OF _ _ _ _ small]
  show "good c c (andthen (if rs_pending r \<noteq> None \<and> rs_pending r \<noteq> Some to_snap then discard_partial fs [] c
      else (Inr [], c)) (\<lambda>gc c. andthen (with_fs fs (apply_part_fs to_snap ns removed) c) (\<lambda>(eff, gone) c.
        let dropped_bytes = sum_u64 (map (extent_len c) (pe_dropped eff));
            c1 = edit_usage fs (\<lambda>u.
               u\<lparr>u_file_bytes := nat (max 0 (int (u_file_bytes u) + pe_file_bytes eff)) mod 2 ^ 64,
                 u_used_bytes := sat_sub (u_used_bytes u) dropped_bytes\<rparr>) c
         in andthen (dec_refs (pe_dropped eff) gc c1) (\<lambda>gc c. forget_inodes fs gone gc c))))"
  proof (cases "rs_pending r \<noteq> None \<and> rs_pending r \<noteq> Some to_snap")
    case False
    have "gc_ok [] c" by (simp add: gc_ok_def)
    from tail [OF inv this keeps_refl ok] show ?thesis
      unfolding if_not_P [OF False] andthen_simps .
  next
    case True
    show ?thesis
    proof (cases "discard_partial fs [] c")
      case (Pair x c1)
      have rv: "reverts fs c (x, c1)" using discard_partial_reverts [OF inv, of fs] Pair by simp
      show ?thesis
      proof (cases x)
        case (Inl e)
        with rv Pair True show ?thesis by (simp add: reverts_def)
      next
        case (Inr gc)
        then have "cat_inv c1" "gc_ok gc c1" "keeps c c1" "check_part c1 fs from_snap to_snap ns removed = Inr ()"
          using rv fits r True Pair by (auto simp: reverts_def reverted_def part_survives_discard_def)
        from tail [OF this] show ?thesis unfolding if_P [OF True] Pair Inr andthen_simps .
      qed
    qed
  qed
qed

end
