(* ===== verification/SpaceInv.thy ===== *)
theory SpaceInv
  imports ReplicaRefs
begin

text \<open>
  Device space and extents. Every byte of a device is free, belongs to exactly one extent, or is
  unknown to the catalog. The commands that move bytes between these (installing, reclaiming,
  tiering and moving a replica) keep that, and under it none of them can stop halfway.
\<close>

section \<open>The invariant\<close>

definition extent_bytes :: "extent_ref \<Rightarrow> device_byte set" where
  "extent_bytes x = places_bytes (stored_len x) (extent_places x)"

definition extent_placed :: "extent_ref \<Rightarrow> bool" where
  "extent_placed x = places_ok (stored_len x) (extent_places x)"

definition live_bytes :: "extent_table \<Rightarrow> device_byte set" where
  "live_bytes X = (\<Union>e \<in> {e. bget X e \<noteq> None}. extent_bytes (em_extent (the (bget X e))))"

definition disjoint_extents :: "extent_table \<Rightarrow> bool" where
  "disjoint_extents X \<longleftrightarrow> (\<forall>e e' m m'. bget X e = Some m \<longrightarrow> bget X e' = Some m' \<longrightarrow> e \<noteq> e' \<longrightarrow>
     extent_bytes (em_extent m) \<inter> extent_bytes (em_extent m') = {})"

definition space_inv :: "catalog \<Rightarrow> bool" where
  "space_inv c \<longleftrightarrow> fl_inv (free c) \<and> live_bytes (extents c) \<inter> free_bytes (free c) = {}
     \<and> disjoint_extents (extents c) \<and> (\<forall>e m. bget (extents c) e = Some m \<longrightarrow> extent_placed (em_extent m))"

lemma mem_live_bytes: "b \<in> live_bytes X \<longleftrightarrow> (\<exists>e m. bget X e = Some m \<and> b \<in> extent_bytes (em_extent m))"
  by (force simp: live_bytes_def)

lemma extent_bytes_live: "bget X e = Some m \<Longrightarrow> extent_bytes (em_extent m) \<subseteq> live_bytes X"
  using mem_live_bytes by blast

lemma same_extents_Some:
  "same_extents X Y \<Longrightarrow> bget Y e = Some m \<Longrightarrow> \<exists>m'. bget X e = Some m' \<and> em_extent m' = em_extent m"
  by (metis (no_types, lifting) map_option_eq_Some same_extents_def)

lemma same_extents_sym: "same_extents X Y \<Longrightarrow> same_extents Y X"
  by (simp add: same_extents_def)

lemma live_bytes_same: "same_extents X Y \<Longrightarrow> live_bytes X = live_bytes Y"
  by (auto simp: mem_live_bytes) (metis same_extents_Some same_extents_sym)+

lemma space_inv_same:
  assumes "space_inv b" and "same_extents (extents b) (extents c)" and "free c = free b"
  shows "space_inv c"
proof -
  have "disjoint_extents (extents c)"
    unfolding disjoint_extents_def
  proof (intro allI impI)
    fix e e' m m' assume "bget (extents c) e = Some m" "bget (extents c) e' = Some m'" "e \<noteq> e'"
    then obtain n n' where n: "bget (extents b) e = Some n" "em_extent n = em_extent m"
        "bget (extents b) e' = Some n'" "em_extent n' = em_extent m'"
      using same_extents_Some [OF assms(2)] by meson
    with assms(1) \<open>e \<noteq> e'\<close> show "extent_bytes (em_extent m) \<inter> extent_bytes (em_extent m') = {}"
      unfolding space_inv_def disjoint_extents_def n(2,4) [symmetric] by blast
  qed
  moreover have "\<forall>e m. bget (extents c) e = Some m \<longrightarrow> extent_placed (em_extent m)"
    using assms(1) same_extents_Some [OF assms(2)] unfolding space_inv_def by metis
  ultimately show ?thesis
    using assms live_bytes_same [OF assms(2)] by (simp add: space_inv_def)
qed

lemma space_inv_keeps: "space_inv b \<Longrightarrow> keeps b c \<Longrightarrow> space_inv c"
  using space_inv_same by (auto simp: keeps_def)

lemma live_bytes_bdel: "live_bytes (bdel e X) \<subseteq> live_bytes X"
  by (rule subsetI) (metis bget_bdel mem_live_bytes option.distinct(1))

lemma live_bytes_bput: "live_bytes (bput e m X) = extent_bytes (em_extent m) \<union> live_bytes (bdel e X)"
proof (intro subset_antisym subsetI)
  fix b assume "b \<in> live_bytes (bput e m X)"
  then obtain e' m' where "bget (bput e m X) e' = Some m'" "b \<in> extent_bytes (em_extent m')"
    unfolding mem_live_bytes by blast
  then show "b \<in> extent_bytes (em_extent m) \<union> live_bytes (bdel e X)"
    using extent_bytes_live [of "bdel e X" e' m'] by (auto split: if_splits)
next
  fix b assume b: "b \<in> extent_bytes (em_extent m) \<union> live_bytes (bdel e X)"
  have "bget (bput e m X) e' = Some m'" if "bget (bdel e X) e' = Some m'" for e' m'
    using that by (simp split: if_splits)
  moreover have "bget (bput e m X) e = Some m" by simp
  ultimately show "b \<in> live_bytes (bput e m X)" using b unfolding mem_live_bytes Un_iff by blast
qed

lemma disjoint_extents_bdel: "disjoint_extents X \<Longrightarrow> disjoint_extents (bdel e X)"
  by (auto simp: disjoint_extents_def split: if_splits)

lemma disjoint_extents_bput:
  assumes "disjoint_extents X" and "extent_bytes (em_extent m) \<inter> live_bytes (bdel e X) = {}"
  shows "disjoint_extents (bput e m X)"
proof -
  have "extent_bytes (em_extent m) \<inter> extent_bytes (em_extent m') = {}" if "bget X e' = Some m'" "e' \<noteq> e" for e' m'
    using assms(2) extent_bytes_live [of "bdel e X" e' m'] that by auto
  with assms(1) show ?thesis unfolding disjoint_extents_def by (auto simp: Int_commute)
qed

lemma removed_extent_bytes:
  assumes "disjoint_extents X" and "bget X e = Some m"
  shows "extent_bytes (em_extent m) \<inter> live_bytes (bdel e X) = {}"
  using assms by (fastforce simp: disjoint_extents_def mem_live_bytes split: if_splits)

section \<open>Installing\<close>

text \<open>A new extent may take ranges that are free as a whole, or that the catalog knows nothing of.\<close>

definition new_extent_ok :: "catalog \<Rightarrow> extent_ref \<Rightarrow> bool" where
  "new_extent_ok c x \<longleftrightarrow> (bget (extents c) (x_id x) = None \<longrightarrow>
     extent_placed x \<and> extent_bytes x \<inter> live_bytes (extents c) = {}
     \<and> (\<forall>p \<in> set (extent_places x). place_bytes (stored_len x) p \<subseteq> free_bytes (free c)
          \<or> place_bytes (stored_len x) p \<inter> free_bytes (free c) = {}))"

fun installs_ok :: "extent_ref list \<Rightarrow> catalog \<Rightarrow> bool" where
  "installs_ok [] c \<longleftrightarrow> True"
| "installs_ok (x # xs) c \<longleftrightarrow> new_extent_ok c x \<and> installs_ok xs (add_extent_ref x c)"

lemma add_extent_ref_space:
  assumes "space_inv c" and "new_extent_ok c x"
  shows "space_inv (add_extent_ref x c)"
proof (cases "bget (extents c) (x_id x)")
  case (Some m)
  then show ?thesis
    by (intro space_inv_same [OF assms(1)]) (auto simp: add_extent_ref_def same_extents_def)
next
  case None
  let ?fl = "reserve_all fl_reserve (free c) (extent_places x) (stored_len x)"
  have fl: "fl_inv ?fl" "free_bytes ?fl = free_bytes (free c) - extent_bytes x"
    using fl.reserve_all_spec [of "free c" "stored_len x" "extent_places x"] assms None
    by (simp_all add: space_inv_def new_extent_ok_def extent_placed_def extent_bytes_def)
  have del: "bdel (x_id x) (extents c) = extents c" using None by (rule bdel_absent)
  show ?thesis
    using assms None fl
    by (auto simp: add_extent_ref_def space_inv_def new_extent_ok_def live_bytes_bput del
        intro!: disjoint_extents_bput split: if_splits)
qed

lemma add_extent_refs_space: "space_inv c \<Longrightarrow> installs_ok xs c \<Longrightarrow> space_inv (fold add_extent_ref xs c)"
  by (induction xs arbitrary: c) (auto intro: add_extent_ref_space)

section \<open>Reclaiming, tiering and moving\<close>

lemma release_replicas_ok:
  assumes "fl_inv (free c)" and "places_ok ln (map replica_place rs)"
    and "places_bytes ln (map replica_place rs) \<inter> free_bytes (free c) = {}"
  obtains fl where "release_replicas rs ln c = (Inr [], c\<lparr>free := fl\<rparr>)" "fl_inv fl"
    "free_bytes fl = free_bytes (free c) \<union> places_bytes ln (map replica_place rs)"
  using fl.release_all_spec [OF assms] by (auto simp: release_replicas_def intro: that)

lemma extent_places_eq: "extent_places x = map replica_place (x_replicas x)"
  by (simp add: extent_places_def replica_place_def)

text \<open>A handler that keeps the references and the space in order, or does nothing.\<close>

definition sound :: "catalog \<Rightarrow> (gc, catalog) change \<Rightarrow> bool" where
  "sound c r \<longleftrightarrow> (case r of
       (Inl e, c') \<Rightarrow> c' = c
     | (Inr gc, c') \<Rightarrow> cat_inv c' \<and> space_inv c' \<and> gc_ok gc c'
         \<and> (lease_inv (leases_of c) \<longrightarrow> lease_inv (leases_of c')))"

lemma sound_error [simp]: "sound c (Inl e, c)"
  by (simp add: sound_def)

lemma sound_attempt: "(\<And>a. r = Inr a \<Longrightarrow> sound c (k a)) \<Longrightarrow> sound c (attempt c r k)"
  by (cases r) simp_all

lemma good_sound:
  assumes "good c b r" and "space_inv b" and "leases_of b = leases_of c"
  shows "sound c r"
  using assms space_inv_keeps [OF assms(2)]
  by (cases r; cases "fst r") (auto simp: good_def sound_def keeps_def)

lemma good_self_sound: "good c c r \<Longrightarrow> space_inv c \<Longrightarrow> sound c r"
  by (rule good_sound) simp_all

lemma cat_inv_extents:
  assumes "cat_inv c" and "\<And>e. bopt em_refs (bget X e) = bopt em_refs (bget (extents c) e)"
  shows "cat_inv (c\<lparr>extents := X, free := fl\<rparr>)"
proof -
  have "refs_of (c\<lparr>extents := X, free := fl\<rparr>) = refs_of c" "trees_wf (c\<lparr>extents := X, free := fl\<rparr>) = trees_wf c"
    by (simp_all add: refs_of_def trees_wf_def)
  with assms show ?thesis by (simp add: cat_inv_def ref_inv_def ext_match_def)
qed

text \<open>The ranges of an extent in the table can always be given back.\<close>

lemma release_extent_ok:
  assumes "space_inv c" and "bget (extents c) e = Some m"
  obtains fl where "release_replicas (x_replicas (em_extent m)) (stored_len (em_extent m)) (c\<lparr>extents := X\<rparr>) =
      (Inr [], c\<lparr>extents := X, free := fl\<rparr>)"
    "fl_inv fl" "free_bytes fl = free_bytes (free c) \<union> extent_bytes (em_extent m)"
proof -
  have "fl_inv (free c)" "extent_placed (em_extent m)" "extent_bytes (em_extent m) \<inter> free_bytes (free c) = {}"
    using assms extent_bytes_live [OF assms(2)] by (auto simp: space_inv_def)
  then show thesis
    using release_replicas_ok [of "c\<lparr>extents := X\<rparr>" "stored_len (em_extent m)" "x_replicas (em_extent m)"] that
    by (auto simp: extent_placed_def extent_bytes_def extent_places_eq)
qed

lemma reclaim_ok:
  assumes "cat_inv c" and "space_inv c" and "bget (extents c) e = Some m" and "em_refs m = 0"
  obtains fl where "mark_extent_reclaimed e c = (Inr [], c\<lparr>extents := bdel e (extents c), free := fl\<rparr>)"
    "free_bytes fl = free_bytes (free c) \<union> extent_bytes (em_extent m)"
    "cat_inv (c\<lparr>extents := bdel e (extents c), free := fl\<rparr>)" "space_inv (c\<lparr>extents := bdel e (extents c), free := fl\<rparr>)"
proof -
  let ?X = "bdel e (extents c)"
  obtain fl where fl: "release_replicas (x_replicas (em_extent m)) (stored_len (em_extent m)) (c\<lparr>extents := ?X\<rparr>) =
      (Inr [], c\<lparr>extents := ?X, free := fl\<rparr>)"
    "fl_inv fl" "free_bytes fl = free_bytes (free c) \<union> extent_bytes (em_extent m)"
    by (rule release_extent_ok [OF assms(2,3)])
  have "cat_inv (c\<lparr>extents := ?X, free := fl\<rparr>)"
    using cat_inv_extents [OF assms(1), of ?X fl] assms(3,4) by simp
  moreover have "space_inv (c\<lparr>extents := ?X, free := fl\<rparr>)"
    using assms(2) fl(2,3) live_bytes_bdel [of e "extents c"] removed_extent_bytes [OF _ assms(3)]
    by (auto simp: space_inv_def disjoint_extents_bdel split: if_splits)
  ultimately show thesis
    using assms(3,4) fl by (intro that [of fl]) (simp_all add: mark_extent_reclaimed_def guard_def)
qed

lemma mark_extent_reclaimed_sound:
  assumes "cat_inv c" and "space_inv c"
  shows "sound c (mark_extent_reclaimed e c)"
proof (cases "\<exists>m. bget (extents c) e = Some m \<and> em_refs m = 0")
  case True
  then obtain m where "bget (extents c) e = Some m" "em_refs m = 0" by blast
  then show ?thesis by (rule reclaim_ok [OF assms]) (simp add: sound_def)
next
  case False
  then show ?thesis by (cases "bget (extents c) e") (simp_all add: mark_extent_reclaimed_def guard_def)
qed

lemma tier_extent_sound:
  assumes "cat_inv c" and "space_inv c"
  shows "sound c (tier_extent e key rs c)"
  unfolding tier_extent_def Let_def
proof (intro sound_attempt)
  fix m assume "ok_or (bget (extents c) e) NotFound = Inr m"
  then have m: "bget (extents c) e = Some m" by simp
  let ?m = "m\<lparr>em_extent := (em_extent m)\<lparr>x_replicas := [], x_ec := None, x_object := Some key\<rparr>\<rparr>"
  let ?X = "bput e ?m (extents c)"
  obtain fl where fl: "release_replicas (x_replicas (em_extent m)) (stored_len (em_extent m)) (c\<lparr>extents := ?X\<rparr>) =
      (Inr [], c\<lparr>extents := ?X, free := fl\<rparr>)"
    "fl_inv fl" "free_bytes fl = free_bytes (free c) \<union> extent_bytes (em_extent m)"
    by (rule release_extent_ok [OF assms(2) m])
  have none: "extent_bytes (em_extent ?m) = {}" "extent_placed (em_extent ?m)"
    by (simp_all add: extent_bytes_def extent_placed_def extent_places_def places_bytes_def)
  have "cat_inv (c\<lparr>extents := ?X, free := fl\<rparr>)"
    using cat_inv_extents [OF assms(1), of ?X fl] m by simp
  moreover have "disjoint_extents ?X"
    using assms(2) none(1) by (intro disjoint_extents_bput) (simp_all add: space_inv_def)
  moreover have "live_bytes ?X \<inter> free_bytes fl = {}"
    using assms(2) fl(3) removed_extent_bytes [OF _ m] live_bytes_bdel [of e "extents c"] none(1)
    unfolding live_bytes_bput space_inv_def by auto
  ultimately show "sound c (release_replicas (x_replicas (em_extent m)) (stored_len (em_extent m)) (c\<lparr>extents := ?X\<rparr>))"
    using assms(2) fl(2) none(2) by (simp add: fl(1) sound_def space_inv_def)
qed

lemma places_bytes_nth: "i < length ps \<Longrightarrow> place_bytes ln (ps ! i) \<subseteq> places_bytes ln ps"
  unfolding places_bytes_def by (intro UN_upper) simp

lemma places_ok_nth: "places_ok ln ps \<Longrightarrow> i < length ps \<Longrightarrow> places_ok ln [ps ! i]"
proof (induction ps arbitrary: i)
  case (Cons q ps)
  then show ?case by (cases i) (auto simp: places_bytes_def)
qed simp

lemma places_update:
  assumes "i < length ps" and "places_ok ln ps" and "places_ok ln [p]"
    and "place_bytes ln p \<inter> places_bytes ln ps = {}"
  shows "places_ok ln (ps[i := p])
    \<and> places_bytes ln (ps[i := p]) = places_bytes ln ps - place_bytes ln (ps ! i) \<union> place_bytes ln p"
  using assms
proof (induction ps arbitrary: i)
  case (Cons q ps)
  show ?case
  proof (cases i)
    case 0
    with Cons.prems show ?thesis by (auto simp: places_bytes_def)
  next
    case (Suc j)
    with Cons.prems have j: "j < length ps" "places_ok ln ps" "place_bytes ln p \<inter> places_bytes ln ps = {}"
      "place_bytes ln p \<inter> place_bytes ln q = {}" "place_bytes ln q \<inter> places_bytes ln ps = {}"
      by (auto simp: places_bytes_def)
    have IH: "places_ok ln (ps[j := p])"
      "places_bytes ln (ps[j := p]) = places_bytes ln ps - place_bytes ln (ps ! j) \<union> place_bytes ln p"
      using Cons.IH [OF j(1,2) Cons.prems(3) j(3)] by simp_all
    show ?thesis
      using Cons.prems(2) IH j places_bytes_nth [OF j(1), of ln] by (cases q) (auto simp: Suc)
  qed
qed simp

text \<open>The range a replica moves to is free as a whole or unknown to the catalog.\<close>

definition move_ok :: "catalog \<Rightarrow> extent_id \<Rightarrow> replica_ref \<Rightarrow> bool" where
  "move_ok c e new \<longleftrightarrow> (\<forall>m. bget (extents c) e = Some m \<longrightarrow>
     (let ln = stored_len (em_extent m); b = place_bytes ln (replica_place new)
      in places_ok ln [replica_place new] \<and> b \<inter> live_bytes (extents c) = {}
         \<and> (b \<subseteq> free_bytes (free c) \<or> b \<inter> free_bytes (free c) = {})))"

lemma moved_extent:
  assumes "pos < length (x_replicas x)" and "extent_placed x" and "places_ok (stored_len x) [replica_place new]"
    and "place_bytes (stored_len x) (replica_place new) \<inter> extent_bytes x = {}"
  defines "x' \<equiv> x\<lparr>x_replicas := (x_replicas x)[pos := new]\<rparr>"
  shows "extent_placed x'"
    and "extent_bytes x' = extent_bytes x - place_bytes (stored_len x) (replica_place (x_replicas x ! pos))
      \<union> place_bytes (stored_len x) (replica_place new)"
    and "place_bytes (stored_len x) (replica_place (x_replicas x ! pos)) \<subseteq> extent_bytes x"
    and "places_ok (stored_len x) [replica_place (x_replicas x ! pos)]"
proof -
  have ln: "stored_len x' = stored_len x" by (simp add: x'_def stored_len_def split: option.split)
  have ps: "extent_places x' = (extent_places x)[pos := replica_place new]" "pos < length (extent_places x)"
    using assms(1) by (simp_all add: x'_def extent_places_eq map_update)
  have nth: "extent_places x ! pos = replica_place (x_replicas x ! pos)"
    using assms(1) by (simp add: extent_places_eq)
  note u = places_update [OF ps(2) assms(2) [unfolded extent_placed_def] assms(3) assms(4) [unfolded extent_bytes_def]]
  show "extent_placed x'"
    "extent_bytes x' = extent_bytes x - place_bytes (stored_len x) (replica_place (x_replicas x ! pos))
      \<union> place_bytes (stored_len x) (replica_place new)"
    unfolding extent_placed_def extent_bytes_def ln ps(1) using u nth by simp_all
  show "place_bytes (stored_len x) (replica_place (x_replicas x ! pos)) \<subseteq> extent_bytes x"
    using places_bytes_nth [OF ps(2)] by (simp add: extent_bytes_def nth)
  show "places_ok (stored_len x) [replica_place (x_replicas x ! pos)]"
    using places_ok_nth [OF assms(2) [unfolded extent_placed_def] ps(2)] by (simp add: nth)
qed

lemma replace_ok:
  fixes c e m pos old new
  defines "x \<equiv> em_extent m" and "ln \<equiv> stored_len (em_extent m)"
  defines "x' \<equiv> (em_extent m)\<lparr>x_replicas := (x_replicas (em_extent m))[pos := new]\<rparr>"
  defines "c1 \<equiv> c\<lparr>extents := bput e (m\<lparr>em_extent := x'\<rparr>) (extents c),
    free := snd (fl_reserve (free c) (r_node_id new) (r_device_index new) (r_offset new) ln)\<rparr>"
  assumes inv: "cat_inv c" "space_inv c" and mv: "move_ok c e new" and m: "bget (extents c) e = Some m"
    and pos: "pos < length (x_replicas x)" "x_replicas x ! pos = old"
  obtains fl where "release_replicas [old] ln c1 = (Inr [], c1\<lparr>free := fl\<rparr>)" "cat_inv (c1\<lparr>free := fl\<rparr>)" "space_inv (c1\<lparr>free := fl\<rparr>)"
    "free_bytes fl \<subseteq> free_bytes (free c) \<union> extent_bytes x"
proof -
  let ?b = "place_bytes ln (replica_place new)" and ?o = "place_bytes ln (replica_place old)"
  let ?X = "extents c1" and ?R = "live_bytes (bdel e (extents c))"
  have s: "fl_inv (free c)" "extent_placed x" "live_bytes (extents c) \<inter> free_bytes (free c) = {}"
    "disjoint_extents (extents c)"
    using inv(2) m by (auto simp: space_inv_def x_def)
  have n: "places_ok ln [replica_place new]" "?b \<inter> live_bytes (extents c) = {}"
    "?b \<subseteq> free_bytes (free c) \<or> ?b \<inter> free_bytes (free c) = {}"
    using mv m by (auto simp: move_ok_def Let_def ln_def)
  have live: "extent_bytes x \<subseteq> live_bytes (extents c)" "?R \<subseteq> live_bytes (extents c)"
    unfolding x_def by (rule extent_bytes_live [OF m], rule live_bytes_bdel)
  have rest: "extent_bytes x \<inter> ?R = {}" unfolding x_def by (rule removed_extent_bytes [OF s(4) m])
  have dis: "?b \<inter> extent_bytes x = {}" using n(2) live(1) by blast
  note x' = moved_extent [OF pos(1) s(2) n(1) [unfolded ln_def, folded x_def] dis [unfolded ln_def, folded x_def],
      folded ln_def, unfolded pos(2), unfolded x_def, folded x'_def, folded ln_def, folded x_def]
  have fl: "fl_inv (free c1)" "free_bytes (free c1) = free_bytes (free c) - ?b"
    using fl.rsv_all_or_nothing [OF s(1), of "r_offset new" ln "r_node_id new" "r_device_index new"] n(1,3)
    by (simp_all add: replica_place_def c1_def)
  obtain fl' where fl': "release_replicas [old] ln c1 = (Inr [], c1\<lparr>free := fl'\<rparr>)" "fl_inv fl'"
    "free_bytes fl' = free_bytes (free c1) \<union> ?o"
  proof -
    have "places_bytes ln (map replica_place [old]) \<inter> free_bytes (free c1) = {}"
      using x'(3) live(1) s(3) fl(2) by (auto simp: places_bytes_def)
    then show thesis
      using release_replicas_ok [of c1 ln "[old]"] fl(1) x'(4) that by (auto simp: places_bytes_def)
  qed
  have X: "?X = bput e (m\<lparr>em_extent := x'\<rparr>) (extents c)" by (simp add: c1_def)
  have "cat_inv (c1\<lparr>free := fl'\<rparr>)"
    using cat_inv_extents [OF inv(1), of ?X fl'] m by (simp add: c1_def)
  moreover have "disjoint_extents ?X"
    unfolding X using s(4) x'(2) rest n(2) live by (intro disjoint_extents_bput) auto
  moreover have "live_bytes ?X \<inter> free_bytes fl' = {}"
    using x'(2,3) rest live s(3) n(2) dis unfolding X live_bytes_bput fl'(3) fl(2) by auto
  ultimately have "space_inv (c1\<lparr>free := fl'\<rparr>)" using inv(2) fl'(2) x'(1) by (simp add: space_inv_def X)
  moreover have "free_bytes fl' \<subseteq> free_bytes (free c) \<union> extent_bytes x" using fl'(3) fl(2) x'(3) by auto
  ultimately show thesis using \<open>cat_inv (c1\<lparr>free := fl'\<rparr>)\<close> fl'(1) by (intro that)
qed

lemma replace_replica_sound:
  assumes inv: "cat_inv c" "space_inv c" and mv: "move_ok c e new"
  shows "sound c (replace_replica e old new c)"
  unfolding replace_replica_def Let_def
proof (intro sound_attempt)
  fix m pos assume "ok_or (bget (extents c) e) NotFound = Inr m"
    and "ok_or (position (\<lambda>r. r = old) (x_replicas (em_extent m))) Invalid = Inr pos"
  then have m: "bget (extents c) e = Some m" and pos: "pos < length (x_replicas (em_extent m))"
      "x_replicas (em_extent m) ! pos = old"
    using position_Some [of "\<lambda>r. r = old" "x_replicas (em_extent m)" pos] by (auto simp: nth_append)
  show "sound c (release_replicas [old] (stored_len (em_extent m))
      (c\<lparr>extents := bput e (m\<lparr>em_extent := (em_extent m)\<lparr>x_replicas := (x_replicas (em_extent m))[pos := new]\<rparr>\<rparr>) (extents c),
         free := snd (fl_reserve (free c) (r_node_id new) (r_device_index new) (r_offset new) (stored_len (em_extent m)))\<rparr>))"
    by (rule replace_ok [OF inv mv m pos]) (simp add: sound_def gc_ok_def)
qed

end
