(* ===== verification/CommandLog.thy ===== *)
theory CommandLog
  imports SpaceInv
begin

text \<open>
  Commands and the log. What a command may assume of its arguments, that every command keeps the
  catalog consistent and leaves it alone when it fails, and what applying a log of committed
  commands establishes.
\<close>

section \<open>Arguments the proposers supply\<close>

text \<open>The checks of the code do not cover these: new extents take space nobody uses, a replica part
  still fits after the unfinished increment before it is discarded, and a counter has room left.\<close>

fun fs_op_ok :: "catalog \<Rightarrow> fs_op \<Rightarrow> bool" where
  "fs_op_ok c (Mknode fs parent name op_id nt tgt rdev mode create_mode uid gid now) \<longleftrightarrow> ino_room c"
| "fs_op_ok c (Link fs ino parent name now) \<longleftrightarrow> ino_room c"
| "fs_op_ok c (Unlink fs parent name now) \<longleftrightarrow> ino_room c"
| "fs_op_ok c (Rmdir fs parent name now) \<longleftrightarrow> ino_room c"
| "fs_op_ok c (Rename fs parent name new_parent new_name now) \<longleftrightarrow> ino_room c"
| "fs_op_ok c (InstallFileExtent fs ino off x at_least now replica) \<longleftrightarrow> new_extent_ok c x"
| "fs_op_ok c (InstallFileExtents fs ino xs at_least now replica) \<longleftrightarrow> installs_ok xs c"
| "fs_op_ok c (ReplicaApply fs from_snap to_snap ns removed) \<longleftrightarrow>
     (\<forall>n \<in> set ns. n_ino n < u64_max) \<and> part_survives_discard c fs from_snap to_snap ns removed"
| "fs_op_ok c _ \<longleftrightarrow> True"

fun command_ok :: "catalog \<Rightarrow> meta_command \<Rightarrow> bool" where
  "command_ok c (InstallExtent vid off x) \<longleftrightarrow> new_extent_ok c x"
| "command_ok c (InstallExtents vid xs) \<longleftrightarrow> installs_ok xs c"
| "command_ok c (ReplaceReplica e old new) \<longleftrightarrow> move_ok c e new"
| "command_ok c (FsCommand op) \<longleftrightarrow> fs_op_ok c op"
| "command_ok c (LeaseCommand op) \<longleftrightarrow> lease_op_ok op"
| "command_ok c _ \<longleftrightarrow> True"

section \<open>Every command\<close>

lemmas self_good =
  create_volume_good create_snapshot_good delete_snapshot_good delete_volume_good resize_volume_good
  clone_snapshot_good create_fs_good delete_fs_good mknode_good link_good unlink_good rmdir_good rename_good
  setattr_good setxattr_good removexattr_good snapshot_fs_good delete_fs_snapshot_good clone_fs_good
  set_quota_good create_replica_good replica_apply_good replica_commit_good replica_promote_good
  replica_demote_good

lemmas self_sound = self_good [THEN good_self_sound]

lemma apply_fs_op_sound:
  assumes "cat_inv c" and "space_inv c" and "fs_op_ok c op"
  shows "sound c (apply_fs_op op [] c)"
proof (cases op)
  case (InstallFileExtent fs ino off x at_least now replica)
  with assms show ?thesis
    using good_sound [OF install_file_extent_good [OF assms(1)] add_extent_ref_space [OF assms(2)]] by simp
next
  case (InstallFileExtents fs ino xs at_least now replica)
  with assms show ?thesis
    using good_sound [OF install_file_extents_good [OF assms(1)] add_extent_refs_space [OF assms(2)]] by simp
qed (use assms in \<open>auto intro!: self_sound\<close>)

lemma apply_fs_sound: "cat_inv c \<Longrightarrow> space_inv c \<Longrightarrow> fs_op_ok c op \<Longrightarrow> sound c (apply_fs op [] c)"
  unfolding apply_fs_def by (intro sound_attempt apply_fs_op_sound)

lemma lease_command_sound:
  assumes "cat_inv c" and "space_inv c" and "lease_op_ok op"
  shows "sound c (lease_command op term c)"
proof (cases "leases_apply (regular_file c) term op (leases_of c)")
  case (Pair r l)
  show ?thesis
  proof (cases r)
    case (Inl e)
    with leases_apply_error [of "regular_file c" "term" op "leases_of c" e l] Pair show ?thesis
      by (simp add: lease_command_def)
  next
    case (Inr u)
    with leases_apply_inv [OF _ assms(3)] Pair assms(1,2) show ?thesis
      by (auto simp: lease_command_def sound_def gc_ok_def cat_inv_def ref_inv_def space_inv_def)
  qed
qed

lemma change_membership_sound: "cat_inv c \<Longrightarrow> space_inv c \<Longrightarrow> sound c (change_membership m addrs c)"
  unfolding change_membership_def
  by (intro sound_attempt)
    (auto simp: sound_def gc_ok_def cat_inv_def ref_inv_def space_inv_def refs_of_def trees_wf_def)

lemma run_command_sound:
  assumes "cat_inv c" and "space_inv c" and "command_ok c cmd"
  shows "sound c (run_command term cmd c)"
proof (cases cmd)
  case (InstallExtent vid off x)
  with assms show ?thesis
    using good_sound [OF install_extent_good [OF assms(1)] add_extent_ref_space [OF assms(2)]] by simp
next
  case (InstallExtents vid xs)
  with assms show ?thesis
    using good_sound [OF install_extents_good [OF assms(1)] add_extent_refs_space [OF assms(2)]] by simp
next
  case Noop
  with assms show ?thesis by (simp add: sound_def gc_ok_def)
qed (use assms in \<open>auto intro!: self_sound mark_extent_reclaimed_sound tier_extent_sound
      replace_replica_sound change_membership_sound apply_fs_sound lease_command_sound\<close>)

section \<open>The log\<close>

definition cat_ok :: "catalog \<Rightarrow> bool" where
  "cat_ok c \<longleftrightarrow> cat_inv c \<and> space_inv c \<and> lease_inv (leases_of c)"

lemma applied_frame [simp]: "cat_ok (applied term index c) = cat_ok c" "refs_of (applied term index c) = refs_of c"
  "gc_ok gc (applied term index c) = gc_ok gc c"
  "applied_index (applied term index c) = index"
  by (simp_all add: applied_def cat_ok_def cat_inv_def ref_inv_def space_inv_def gc_ok_def refs_of_def trees_wf_def)

lemma apply_inner_cases:
  assumes "cat_ok c" and "command_ok c cmd"
  obtains (err) e where "apply_inner term index cmd c = (Inl e, c)" "applied_index c < index"
  | (ok) gc c' where "apply_inner term index cmd c = (Inr gc, c')" "cat_ok c'" "gc_ok gc c'"
      "applied_index c' = max index (applied_index c)"
proof (cases "index \<le> applied_index c")
  case True
  with assms show thesis by (intro ok [of "[]" c]) (simp_all add: apply_inner_def gc_ok_def)
next
  case False
  have s: "sound c (run_command term cmd c)" using run_command_sound assms by (simp add: cat_ok_def)
  obtain r c' where r: "run_command term cmd c = (r, c')" by (rule prod.exhaust)
  show thesis
  proof (cases r)
    case (Inl e)
    with s r False show thesis by (intro err [of e]) (simp_all add: apply_inner_def sound_def)
  next
    case (Inr gc)
    have "cat_ok c'" "gc_ok gc c'" using s r Inr assms(1) by (simp_all add: sound_def cat_ok_def)
    then show thesis
      using r Inr False by (intro ok [of gc "applied term index c'"]) (simp_all add: apply_inner_def)
  qed
qed

lemma fs_usage_frame:
  "refs_of (set_fs_usage x c) = refs_of c" "trees_wf c \<Longrightarrow> trees_wf (set_fs_usage x c)"
  "extents (set_fs_usage x c) = extents c" "free (set_fs_usage x c) = free c" "leases_of (set_fs_usage x c) = leases_of c"
proof -
  have "refs_of (put_fs (fst x) (f\<lparr>fs_usage_of := u\<rparr>) c) = refs_of c" if "bget (filesystems c) (fst x) = Some f" for f u
    using refs_put_fs [of "fst x" "f\<lparr>fs_usage_of := u\<rparr>" c] that by simp
  then show "refs_of (set_fs_usage x c) = refs_of c" by (auto simp: set_fs_usage_def split: option.split)
qed (auto simp: set_fs_usage_def trees_wf_def fs_wf_def split: option.splits)

lemma snap_usage_frame:
  "refs_of (set_snap_usage x c) = refs_of c" "trees_wf c \<Longrightarrow> trees_wf (set_snap_usage x c)"
  "extents (set_snap_usage x c) = extents c" "free (set_snap_usage x c) = free c"
  "leases_of (set_snap_usage x c) = leases_of c"
proof -
  have "refs_of (c\<lparr>fs_snapshots := bput k (s\<lparr>ss_tree := (ss_tree s)\<lparr>fs_usage_of := u\<rparr>\<rparr>) (fs_snapshots c)\<rparr>) = refs_of c"
    if "bget (fs_snapshots c) k = Some s" for k s u
    using refs_fs_snapshots(1) [of k "s\<lparr>ss_tree := (ss_tree s)\<lparr>fs_usage_of := u\<rparr>\<rparr>" c] that by simp
  then show "refs_of (set_snap_usage x c) = refs_of c" by (auto simp: set_snap_usage_def split: option.split)
qed (auto simp: set_snap_usage_def trees_wf_def fs_wf_def split: option.splits)

lemma cat_ok_frame:
  assumes "cat_ok c" and "refs_of c' = refs_of c" and "trees_wf c \<Longrightarrow> trees_wf c'"
    and "extents c' = extents c" and "free c' = free c" and "leases_of c' = leases_of c"
  shows "cat_ok c'"
  using assms by (simp add: cat_ok_def cat_inv_def ref_inv_def space_inv_def)

lemma fill_usage_keeps:
  assumes "P c" and fs: "\<And>x c. P c \<Longrightarrow> P (set_fs_usage x c)" and snap: "\<And>x c. P c \<Longrightarrow> P (set_snap_usage x c)"
  shows "P (fill_usage c)"
proof -
  have "P (fold set_fs_usage xs c)" if "P c" for xs c
    using that by (induction xs arbitrary: c) (auto intro: fs)
  moreover have "P (fold set_snap_usage xs c)" if "P c" for xs c
    using that by (induction xs arbitrary: c) (auto intro: snap)
  ultimately show ?thesis using assms(1) by (simp add: fill_usage_def Let_def)
qed

lemma fill_usage_ok:
  assumes "cat_ok c"
  shows "cat_ok (fill_usage c)"
  using assms
proof (rule fill_usage_keeps)
  show "cat_ok (set_fs_usage x c)" if "cat_ok c" for x c
    using that by (rule cat_ok_frame) (simp_all add: fs_usage_frame)
  show "cat_ok (set_snap_usage x c)" if "cat_ok c" for x c
    using that by (rule cat_ok_frame) (simp_all add: snap_usage_frame)
qed

text \<open>The catalogs that committed commands lead to; a loaded catalog gets its usage filled in.\<close>

inductive catalog_reach :: "catalog \<Rightarrow> bool" where
  start: "catalog_reach empty_catalog"
| committed: "catalog_reach c \<Longrightarrow> command_ok c cmd \<Longrightarrow> catalog_reach (snd (apply_committed term index cmd c))"
| loaded: "catalog_reach c \<Longrightarrow> catalog_reach (fill_usage c)"

lemma empty_catalog_ok: "cat_ok empty_catalog"
  by (simp add: cat_ok_def cat_inv_def ref_inv_def ext_match_def refs_of_def vol_refs_def snap_refs_def fs_refs_def
      fs_snap_refs_def trees_wf_def space_inv_def live_bytes_def disjoint_extents_def empty_catalog_def lease_inv_empty)

lemma apply_committed_ok:
  assumes "cat_ok c" and "command_ok c cmd"
  shows "cat_ok (snd (apply_committed term index cmd c))"
  by (rule apply_inner_cases [OF assms, of "term" index])
    (use assms(1) in \<open>auto simp: apply_committed_def catalog_apply_def split: meta_error.split\<close>)

lemma catalog_reach_ok: "catalog_reach c \<Longrightarrow> cat_ok c"
  by (induction rule: catalog_reach.induct) (auto intro: empty_catalog_ok apply_committed_ok fill_usage_ok)

section \<open>What holds of every reachable catalog\<close>

text \<open>A volume with one extent, written, overwritten and reclaimed.\<close>

definition sample_extent :: "string \<Rightarrow> nat \<Rightarrow> extent_ref" where
  "sample_extent e off = \<lparr>x_id = e, x_logical_offset = 0, x_len = 4, x_checksum = [],
     x_replicas = [\<lparr>r_node_id = ''a'', r_device_index = 0, r_offset = off\<rparr>], x_ec = None, x_created_ms = 0, x_object = None\<rparr>"

definition sample_catalog :: catalog where
  "sample_catalog = snd (apply_committed 1 2 (InstallExtent ''v'' 0 (sample_extent ''e'' 0))
     (snd (apply_committed 1 1 (CreateVolume ''v'' ''vol'' 8) empty_catalog)))"

lemmas sample_defs = sample_catalog_def sample_extent_def apply_committed_def catalog_apply_def apply_inner_def
  create_volume_def install_extent_def extent_check_def add_extent_ref_def extent_places_def stored_len_def
  empty_catalog_def applied_def Let_def

lemma sample_steps:
  "command_ok empty_catalog (CreateVolume ''v'' ''vol'' 8)"
  "command_ok (snd (apply_committed 1 1 (CreateVolume ''v'' ''vol'' 8) empty_catalog))
     (InstallExtent ''v'' 0 (sample_extent ''e'' 0))"
proof -
  have "live_bytes bempty = {}" "free_bytes [] = {}" by (simp_all add: live_bytes_def)
  then show "command_ok (snd (apply_committed 1 1 (CreateVolume ''v'' ''vol'' 8) empty_catalog))
     (InstallExtent ''v'' 0 (sample_extent ''e'' 0))"
    by (simp add: sample_defs new_extent_ok_def extent_placed_def extent_bytes_def u64_max_def)
qed simp

lemma sample_catalog_reach: "catalog_reach sample_catalog"
  unfolding sample_catalog_def by (intro committed start sample_steps)

lemma sample_catalog_extents:
  "bget (extents sample_catalog) ''e'' = Some \<lparr>em_extent = sample_extent ''e'' 0, em_refs = 1, em_tombstoned = False\<rparr>"
  "free sample_catalog = []" "applied_index sample_catalog = 2"
  by (simp_all add: sample_defs fl_reserve_def)





text \<open>(C4) Whatever a successful command hands to the garbage collector is referenced by nothing, and
  reclaiming it then succeeds: the extent disappears and exactly its bytes become free.\<close>

theorem collected_extents_are_dead:
  assumes "catalog_reach c" and "command_ok c cmd" and "apply_committed term index cmd c = (Inr gc, c')"
    and "e \<in> set gc"
  shows "e \<notin># refs_of c' \<and> (\<exists>m c''. bget (extents c') e = Some m \<and> mark_extent_reclaimed e c' = (Inr [], c'')
    \<and> bget (extents c'') e = None \<and> free_bytes (free c'') = free_bytes (free c') \<union> extent_bytes (em_extent m))"
proof (rule apply_inner_cases [OF catalog_reach_ok [OF assms(1)] assms(2), of "term" index])
  fix e0 assume "apply_inner term index cmd c = (Inl e0, c)"
  with assms(3) show ?thesis
    by (auto simp: apply_committed_def catalog_apply_def split: meta_error.splits if_splits)
next
  fix gc1 c1 assume "apply_inner term index cmd c = (Inr gc1, c1)" and ok: "cat_ok c1" "gc_ok gc1 c1"
  with assms(3) have [simp]: "gc1 = gc" "c1 = c'" by (simp_all add: apply_committed_def catalog_apply_def)
  obtain m where m: "bget (extents c') e = Some m" and r: "e \<notin># refs_of c'"
    using ok(2) assms(4) by (auto simp: gc_ok_def)
  have inv: "cat_inv c'" "space_inv c'" using ok(1) by (simp_all add: cat_ok_def)
  have "em_refs m = 0" using ext_matchD(1) [OF cat_inv_match [OF inv(1)] m] r by (simp add: not_in_iff)
  then obtain fl where "mark_extent_reclaimed e c' = (Inr [], c'\<lparr>extents := bdel e (extents c'), free := fl\<rparr>)"
    "free_bytes fl = free_bytes (free c') \<union> extent_bytes (em_extent m)"
    by (rule reclaim_ok [OF inv m])
  then show ?thesis using r m by auto
qed

lemma sample_overwrite:
  "command_ok sample_catalog (InstallExtent ''v'' 0 (sample_extent ''f'' 8))"
  "apply_committed 1 3 (InstallExtent ''v'' 0 (sample_extent ''f'' 8)) sample_catalog =
     (Inr [''e''], snd (apply_committed 1 3 (InstallExtent ''v'' 0 (sample_extent ''f'' 8)) sample_catalog))"
proof -
  have e: "extents sample_catalog = bput ''e'' \<lparr>em_extent = sample_extent ''e'' 0, em_refs = 1, em_tombstoned = False\<rparr> bempty"
    "free sample_catalog = []"
    by (simp_all add: sample_defs fl_reserve_def)
  have "live_bytes bempty = {}" "free_bytes [] = {}" by (simp_all add: live_bytes_def)
  then show "command_ok sample_catalog (InstallExtent ''v'' 0 (sample_extent ''f'' 8))"
    by (auto simp: e live_bytes_bput new_extent_ok_def extent_placed_def extent_bytes_def sample_extent_def
        extent_places_def stored_len_def u64_max_def byte_range_def)
  show "apply_committed 1 3 (InstallExtent ''v'' 0 (sample_extent ''f'' 8)) sample_catalog =
     (Inr [''e''], snd (apply_committed 1 3 (InstallExtent ''v'' 0 (sample_extent ''f'' 8)) sample_catalog))"
    by (simp add: sample_defs fl_reserve_def dec_ref_def guard_def)
qed

theorem collected_extents_are_dead_witness:
  "''e'' \<notin># refs_of (snd (apply_committed 1 3 (InstallExtent ''v'' 0 (sample_extent ''f'' 8)) sample_catalog))"
  using collected_extents_are_dead [OF sample_catalog_reach sample_overwrite, of "''e''"] by simp

text \<open>(C7) A committed entry consumes its index exactly once: afterwards the applied index is at least
  the entry's and never lower than before, and applying any entry at or below the applied index
  again does nothing.\<close>

theorem committed_index_consumed_once:
  assumes "catalog_reach c" and "command_ok c cmd" and "apply_committed term index cmd c = (r, c')"
    and "r \<noteq> Inl Panic" and "r \<noteq> Inl Diverge"
  shows "applied_index c' = max index (applied_index c)
    \<and> (\<forall>term2 index2 cmd2. index2 \<le> applied_index c' \<longrightarrow> apply_committed term2 index2 cmd2 c' = (Inr [], c'))"
proof -
  have "apply_committed term2 index2 cmd2 c' = (Inr [], c')" if "index2 \<le> applied_index c'" for term2 index2 cmd2
    using that by (simp add: apply_committed_def catalog_apply_def apply_inner_def)
  moreover have "applied_index c' = max index (applied_index c)"
    by (rule apply_inner_cases [OF catalog_reach_ok [OF assms(1)] assms(2), of "term" index])
      (use assms(3-5) in \<open>auto simp: apply_committed_def catalog_apply_def split: meta_error.splits if_splits\<close>)
  ultimately show ?thesis by blast
qed

theorem committed_index_consumed_once_witness:
  "applied_index (applied 1 3 sample_catalog) = 3
    \<and> apply_committed 1 2 (DeleteVolume ''v'') (applied 1 3 sample_catalog) = (Inr [], applied 1 3 sample_catalog)"
proof -
  have "apply_committed 1 3 (DeleteVolume ''w'') sample_catalog = (Inl NotFound, applied 1 3 sample_catalog)"
    by (simp add: sample_defs delete_volume_def)
  from committed_index_consumed_once [OF sample_catalog_reach _ this] show ?thesis
    by (simp add: sample_catalog_extents)
qed

end
