(* ===== verification/TableInv.thy ===== *)
theory TableInv
  imports CommandLog
begin

text \<open>
  Invariants of the inode tables of a catalog. The locale says what a property of one table has
  to survive (the name space operations and the changes of single inodes); from that it follows
  that every command keeps the property of all filesystems and filesystem snapshots. Parts of
  a replication increment are left out: they carry inodes of another catalog.
\<close>

lemma attempt_Inr: "attempt s r k = (Inr a, s') \<longleftrightarrow> (\<exists>x. r = Inr x \<and> k x = (Inr a, s'))"
  by (cases r) simp_all

lemma andthen_Inr: "andthen r k = (Inr a, s') \<longleftrightarrow> (\<exists>b s. r = (Inr b, s) \<and> k b s = (Inr a, s'))"
  by (cases r; cases "fst r") auto

definition all_tables :: "(inode_table \<Rightarrow> bool) \<Rightarrow> catalog \<Rightarrow> bool" where
  "all_tables Q c \<longleftrightarrow> (\<forall>fs f. bget (filesystems c) fs = Some f \<longrightarrow> Q (fs_inodes f))
     \<and> (\<forall>k s. bget (fs_snapshots c) k = Some s \<longrightarrow> Q (fs_inodes (ss_tree s)))"

fun is_part :: "fs_op \<Rightarrow> bool" where
  "is_part (ReplicaApply _ _ _ _ _) \<longleftrightarrow> True"
| "is_part _ \<longleftrightarrow> False"

section \<open>Steps that touch no table\<close>

lemma all_tables_frame:
  "filesystems c' = filesystems c \<Longrightarrow> fs_snapshots c' = fs_snapshots c \<Longrightarrow> all_tables Q c' = all_tables Q c"
  by (simp add: all_tables_def)

lemma all_tables_put_fs: "all_tables Q c \<Longrightarrow> Q (fs_inodes f) \<Longrightarrow> all_tables Q (put_fs fs f c)"
  by (auto simp: all_tables_def put_fs_def)

lemma dec_refs_tables:
  assumes "dec_refs es gc c = (r, c')"
  shows "filesystems c' = filesystems c \<and> fs_snapshots c' = fs_snapshots c \<and> volumes c' = volumes c"
  using assms
proof (induction es arbitrary: gc c)
  case (Cons e es)
  obtain x c1 where d: "dec_ref e gc c = (x, c1)" by (rule prod.exhaust)
  then have "filesystems c1 = filesystems c \<and> fs_snapshots c1 = fs_snapshots c \<and> volumes c1 = volumes c"
    by (auto simp: dec_ref_def attempt_def split: sum.splits)
  with d Cons.IH [of _ c1] Cons.prems show ?case by (cases x) auto
qed simp

lemma inc_refs_tables:
  assumes "inc_refs es c = (r, c')"
  shows "filesystems c' = filesystems c \<and> fs_snapshots c' = fs_snapshots c"
  using assms
proof (induction es arbitrary: c)
  case (Cons e es)
  obtain x c1 where d: "inc_ref e c = (x, c1)" by (rule prod.exhaust)
  then have "filesystems c1 = filesystems c \<and> fs_snapshots c1 = fs_snapshots c"
    by (auto simp: inc_ref_def attempt_def split: sum.splits)
  with d Cons.IH [of c1] Cons.prems show ?case by (cases x) auto
qed simp

lemma dec_refs_all: "dec_refs es gc c = (r, c') \<Longrightarrow> all_tables Q c' = all_tables Q c"
  using dec_refs_tables by (intro all_tables_frame) auto

lemma drop_inodes_all: "drop_inodes is gc c = (r, c') \<Longrightarrow> all_tables Q c' = all_tables Q c"
  unfolding drop_inodes_eq by (rule dec_refs_all)

lemma share_extents_all: "share_extents t c = (r, c') \<Longrightarrow> all_tables Q c' = all_tables Q c"
  unfolding share_extents_def using inc_refs_tables by (intro all_tables_frame) auto

lemma edit_usage_all: "all_tables Q c \<Longrightarrow> all_tables Q (edit_usage fs g c)"
  by (auto simp: edit_usage_def all_tables_def split: option.splits)

lemma forget_usage_all: "all_tables Q c \<Longrightarrow> all_tables Q (forget_usage fs i c)"
  by (auto simp: forget_usage_def Let_def intro: edit_usage_all split: inode_kind.splits)

lemma release_inode_all: "release_inode fs gone gc c = (r, c') \<Longrightarrow> all_tables Q c \<Longrightarrow> all_tables Q c'"
  by (cases gone)
    (auto simp: release_inode_def drop_inode_eq dest: dec_refs_all [where Q = Q] intro: forget_usage_all)

lemma add_extent_refs_all: "all_tables Q (fold add_extent_ref xs c) = all_tables Q c"
  by (simp add: all_tables_def)

lemma fill_usage_all: "all_tables Q c \<Longrightarrow> all_tables Q (fill_usage c)"
  by (rule fill_usage_keeps)
    (auto simp: set_fs_usage_def set_snap_usage_def all_tables_def put_fs_def split: option.splits if_splits)

lemma with_fs_all:
  assumes "with_fs fs k c = (Inr a, c')" and "all_tables Q c"
    and "\<And>f f'. bget (filesystems c) fs = Some f \<Longrightarrow> k f = (Inr a, f') \<Longrightarrow> Q (fs_inodes f) \<Longrightarrow> Q (fs_inodes f')"
  shows "all_tables Q c'"
proof -
  from assms(1) obtain f where f: "bget (filesystems c) fs = Some f" "fst (k f) = Inr a" "c' = put_fs fs (snd (k f)) c"
    by (auto simp: with_fs_def filesystem_def attempt_Inr case_prod_beta)
  then have "Q (fs_inodes (snd (k f)))" using assms(2) assms(3) [of f "snd (k f)"] by (auto simp: all_tables_def prod_eq_iff)
  then show ?thesis using all_tables_put_fs [OF assms(2)] f(3) by simp
qed

lemma change_inode_all:
  assumes "change_inode fs ino g c = (Inr x, c')" and "all_tables Q c"
    and "\<And>t i i'. bget t ino = Some i \<Longrightarrow> g i = Inr (i', x) \<Longrightarrow> Q t \<Longrightarrow> Q (bput ino i' t)"
  shows "all_tables Q c'"
proof -
  from assms(1) obtain f i i' where f: "bget (filesystems c) fs = Some f" "bget (fs_inodes f) ino = Some i"
    "g i = Inr (i', x)" "c' = put_fs fs (f\<lparr>fs_inodes := bput ino i' (fs_inodes f)\<rparr>) c"
    by (auto simp: change_inode_def filesystem_def fs_inode_def attempt_Inr)
  then have "Q (bput ino i' (fs_inodes f))" using assms(2,3) by (auto simp: all_tables_def)
  then show ?thesis using all_tables_put_fs [OF assms(2), of "f\<lparr>fs_inodes := bput ino i' (fs_inodes f)\<rparr>"] f(4) by simp
qed

lemma snapshot_tree_all:
  assumes "snapshot_tree sid fs name now c = (Inr u, c')" and "all_tables Q c"
  shows "all_tables Q c'"
proof (cases "bget (fs_snapshots c) sid")
  case None
  with assms(1) obtain f c1 where f: "bget (filesystems c) fs = Some f" and s: "share_extents (fs_inodes f) c = (Inr (), c1)"
    and c': "c' = c1\<lparr>fs_snapshots := bput sid \<lparr>ss_id = sid, ss_fs_id = fs, ss_name = name, ss_created_ns = now,
      ss_tree = f\<lparr>fs_replica := None\<rparr>\<rparr> (fs_snapshots c1)\<rparr>"
    by (auto simp: snapshot_tree_def filesystem_def attempt_Inr andthen_Inr Let_def)
  have "all_tables Q c1" using share_extents_all [OF s] assms(2) by simp
  moreover have "Q (fs_inodes f)" using assms(2) f by (simp add: all_tables_def)
  ultimately show ?thesis by (auto simp: c' all_tables_def)
qed (use assms in \<open>auto simp: snapshot_tree_def split: if_splits\<close>)

lemma revert_to_all:
  assumes "revert_to fs sid r gc c = (Inr gc', c')" and "all_tables Q c"
  shows "all_tables Q c'"
proof -
  from assms(1) obtain s f where s: "bget (fs_snapshots c) sid = Some s" and f: "filesystem c fs = Inr f"
    and fs: "ss_fs_id s = fs"
    by (auto simp: revert_to_def attempt_Inr split: option.splits if_splits)
  define t where "t = (ss_tree s)\<lparr>fs_id := fs_id f, fs_name := fs_name f,
    fs_quota_of := fs_quota_of f, fs_source_snapshot := fs_source_snapshot f,
    fs_next_ino := max (fs_next_ino (ss_tree s)) (fs_next_ino f), fs_replica := r\<rparr>"
  have t: "fs_inodes t = fs_inodes (ss_tree s)" by (simp add: t_def)
  from assms(1) s f fs obtain c1 where sh: "share_extents (fs_inodes t) c = (Inr (), c1)"
    and d: "drop_inodes (bvals (fs_inodes f)) gc ((put_fs fs t c1)\<lparr>leases_of := forget_fs fs (leases_of c1)\<rparr>) = (Inr gc', c')"
    by (auto simp: revert_to_def andthen_Inr t_def)
  have "all_tables Q c1" using share_extents_all [OF sh] assms(2) by simp
  moreover have "Q (fs_inodes t)" using assms(2) s t by (simp add: all_tables_def)
  ultimately have "all_tables Q (put_fs fs t c1)" by (rule all_tables_put_fs)
  then show ?thesis using drop_inodes_all [OF d, of Q] by (simp add: all_tables_def)
qed


fun cmd_is_part :: "meta_command \<Rightarrow> bool" where
  "cmd_is_part (FsCommand op) \<longleftrightarrow> is_part op"
| "cmd_is_part _ \<longleftrightarrow> False"

lemma dec_ref_tables:
  "dec_ref e gc c = (r, c') \<Longrightarrow> filesystems c' = filesystems c \<and> fs_snapshots c' = fs_snapshots c"
  by (auto simp: dec_ref_def attempt_def split: sum.splits)

lemma release_replicas_tables:
  "release_replicas rs ln c = (r, c') \<Longrightarrow> filesystems c' = filesystems c \<and> fs_snapshots c' = fs_snapshots c"
  by (auto simp: release_replicas_def split: prod.splits bool.splits)

lemma volume_tables:
  assumes "run_command term cmd c = (Inr gc, c')" and "\<And>op. cmd \<noteq> FsCommand op"
  shows "filesystems c' = filesystems c \<and> fs_snapshots c' = fs_snapshots c"
  using assms
  by (cases cmd)
    (auto simp: create_volume_def install_extent_def install_extents_def create_snapshot_def delete_snapshot_def
      delete_volume_def resize_volume_def clone_snapshot_def mark_extent_reclaimed_def replace_replica_def
      tier_extent_def change_membership_def lease_command_def attempt_Inr andthen_Inr Let_def case_prod_beta
      dest!: dec_ref_tables dec_refs_tables inc_refs_tables release_replicas_tables
      split: option.splits if_splits prod.splits sum.splits)

text \<open>Changes of an inode that the name space does not see.\<close>

definition same_node :: "inode \<Rightarrow> inode \<Rightarrow> bool" where
  "same_node i i' \<longleftrightarrow> i_nlink i' = i_nlink i \<and> (i_kind i' = i_kind i \<or> \<not> is_dir i \<and> \<not> is_dir i')"

lemma setattr_size_same:
  assumes "setattr_size attr now i = Inr (j, ct, rz)"
  shows "same_node i j"
proof (cases "a_size attr")
  case (Some n)
  with assms show ?thesis
    by (cases "i_kind i")
      (auto simp: setattr_size_def Let_def same_node_def is_dir_def is_dir_kind_def split: if_splits)
qed (use assms in \<open>simp add: setattr_size_def same_node_def\<close>)

lemma upd_some_node:
  "(\<And>a b. i_kind (g a b) = i_kind b) \<Longrightarrow> i_kind (upd_some x g b) = i_kind b"
  "(\<And>a b. i_nlink (g a b) = i_nlink b) \<Longrightarrow> i_nlink (upd_some x g b) = i_nlink b"
  by (simp_all add: upd_some_def split: option.split)

lemma setattr_same:
  assumes "setattr_inode attr now i = Inr (i', x)"
  shows "same_node i i'"
proof -
  from assms obtain j ct rz where j: "setattr_size attr now i = Inr (j, ct, rz)"
    by (auto simp: setattr_inode_def rbind_eq_Inr)
  have "i_kind i' = i_kind j \<and> i_nlink i' = i_nlink j"
    using assms j by (auto simp: setattr_inode_def rbind_eq_Inr Let_def upd_some_node)
  then show ?thesis using setattr_size_same [OF j] by (simp add: same_node_def is_dir_def)
qed

lemma install_same: "install_inode new at_least now rep i = Inr (i', x) \<Longrightarrow> same_node i i'"
  by (auto simp: install_inode_def Let_def same_node_def is_dir_def is_dir_kind_def itouch_def case_prod_beta
      split: inode_kind.splits if_splits)

section \<open>The laws of a table invariant, and what follows\<close>

text \<open>\<open>room\<close> is what the name space operations may rely on besides the invariant itself.\<close>

locale table_invariant =
  fixes Q :: "inode_table \<Rightarrow> bool" and room :: "fs_meta \<Rightarrow> bool"
  assumes Q_new: "Q (bput ROOT_INO (root_inode now) bempty)"
    and Q_mknode: "mknode_fs parent name op_id nt tgt rdev mode create_mode uid gid now f = (Inr u, f')
      \<Longrightarrow> check_name name = Inr () \<Longrightarrow> Q (fs_inodes f) \<Longrightarrow> room f \<Longrightarrow> Q (fs_inodes f')"
    and Q_link: "link_fs ino parent name now f = (Inr u, f')
      \<Longrightarrow> check_name name = Inr () \<Longrightarrow> Q (fs_inodes f) \<Longrightarrow> room f \<Longrightarrow> Q (fs_inodes f')"
    and Q_unlink: "unlink_fs parent name now f = (Inr g, f') \<Longrightarrow> Q (fs_inodes f) \<Longrightarrow> room f \<Longrightarrow> Q (fs_inodes f')"
    and Q_rmdir: "rmdir_fs parent name now f = (Inr u, f') \<Longrightarrow> Q (fs_inodes f) \<Longrightarrow> room f \<Longrightarrow> Q (fs_inodes f')"
    and Q_rename: "rename_fs parent name parent' name' now f = (Inr g, f')
      \<Longrightarrow> check_name name' = Inr () \<Longrightarrow> Q (fs_inodes f) \<Longrightarrow> room f \<Longrightarrow> Q (fs_inodes f')"
    and Q_same: "bget t k = Some i \<Longrightarrow> same_node i i' \<Longrightarrow> Q t \<Longrightarrow> Q (bput k i' t)"
begin

definition rooms :: "catalog \<Rightarrow> bool" where
  "rooms c \<longleftrightarrow> (\<forall>fs f. bget (filesystems c) fs = Some f \<longrightarrow> room f)"

lemma names_all:
  "mknode fs parent name op_id nt tgt rdev mode create_mode uid gid now gc c = (Inr gc', c') \<Longrightarrow> rooms c
    \<Longrightarrow> all_tables Q c \<Longrightarrow> all_tables Q c'"
  "link fs ino parent name now gc c = (Inr gc', c') \<Longrightarrow> rooms c \<Longrightarrow> all_tables Q c \<Longrightarrow> all_tables Q c'"
  "rmdir fs parent name now gc c = (Inr gc', c') \<Longrightarrow> rooms c \<Longrightarrow> all_tables Q c \<Longrightarrow> all_tables Q c'"
  by (auto simp: mknode_def link_def rmdir_def keep_gc_def attempt_Inr andthen_Inr rooms_def
      elim!: with_fs_all intro: Q_mknode Q_link Q_rmdir)

lemma unlink_all:
  "unlink fs parent name now gc c = (Inr gc', c') \<Longrightarrow> rooms c \<Longrightarrow> all_tables Q c \<Longrightarrow> all_tables Q c'"
  by (auto simp: unlink_def andthen_Inr rooms_def elim!: release_inode_all with_fs_all intro: Q_unlink)

lemma rename_all:
  "rename fs parent name parent' name' now gc c = (Inr gc', c') \<Longrightarrow> rooms c \<Longrightarrow> all_tables Q c \<Longrightarrow> all_tables Q c'"
  by (auto simp: rename_def attempt_Inr andthen_Inr rooms_def elim!: release_inode_all with_fs_all intro: Q_rename)

lemma setattr_all:
  assumes "setattr fs ino attr now gc c = (Inr gc', c')" and "all_tables Q c"
  shows "all_tables Q c'"
proof -
  from assms(1) obtain x c1 g where x: "change_inode fs ino (setattr_inode attr now) c = (Inr x, c1)"
    and d: "dec_refs (bvals (fst x)) gc (edit_usage fs g c1) = (Inr gc', c')"
    by (auto simp: setattr_def andthen_Inr Let_def case_prod_beta)
  have "all_tables Q c1" by (rule change_inode_all [OF x assms(2)]) (rule Q_same [OF _ setattr_same])
  then show ?thesis using dec_refs_all [OF d, of Q] edit_usage_all by blast
qed

lemma xattr_all:
  "setxattr fs ino name value xmode now gc c = (Inr gc', c') \<Longrightarrow> all_tables Q c \<Longrightarrow> all_tables Q c'"
  "removexattr fs ino name now gc c = (Inr gc', c') \<Longrightarrow> all_tables Q c \<Longrightarrow> all_tables Q c'"
  by (auto simp: setxattr_def removexattr_def setxattr_inode_def keep_gc_def attempt_Inr andthen_Inr rbind_eq_Inr Let_def
      same_node_def elim!: change_inode_all intro!: Q_same split: if_splits option.splits bool.split)

lemma install_all:
  "install_file_extent fs ino off x at_least now rep gc c = (Inr gc', c') \<Longrightarrow> all_tables Q c \<Longrightarrow> all_tables Q c'"
  "install_file_extents fs ino new at_least now rep gc c = (Inr gc', c') \<Longrightarrow> all_tables Q c \<Longrightarrow> all_tables Q c'"
  by (auto simp: install_file_extent_def install_file_extents_def attempt_Inr andthen_Inr Let_def
      dest!: dec_refs_all [where Q = Q] intro!: edit_usage_all
      simp: add_extent_refs_all add_extent_refs_all [where xs = "[x]", simplified]
      elim!: change_inode_all dest: Q_same [OF _ install_same])

lemma new_all:
  "create_fs fs name now eb gc c = (Inr gc', c') \<Longrightarrow> all_tables Q c \<Longrightarrow> all_tables Q c'"
  "create_replica fs name now eb2 gc c = (Inr gc', c') \<Longrightarrow> all_tables Q c \<Longrightarrow> all_tables Q c'"
  by (auto simp: create_fs_def create_replica_def empty_replica_def new_fs_def attempt_Inr split: option.splits if_splits
      intro!: all_tables_put_fs Q_new)

lemma delete_all:
  "delete_fs fs gc c = (Inr gc', c') \<Longrightarrow> all_tables Q c \<Longrightarrow> all_tables Q c'"
  "delete_fs_snapshot sid gc c = (Inr gc', c') \<Longrightarrow> all_tables Q c \<Longrightarrow> all_tables Q c'"
  by (auto simp: delete_fs_def delete_fs_snapshot_def attempt_Inr all_tables_def split: if_splits
      dest!: drop_inodes_all [where Q = Q] split: if_splits)

lemma clone_fs_all:
  assumes "clone_fs sid name snap gc c = (Inr gc', c')" and "all_tables Q c"
  shows "all_tables Q c'"
proof (cases "bget (filesystems c) sid")
  case None
  with assms(1) obtain s c1 where s: "bget (fs_snapshots c) snap = Some s"
    and sh: "share_extents (fs_inodes (ss_tree s)) c = (Inr (), c1)"
    and c': "c' = put_fs sid ((ss_tree s)\<lparr>fs_id := sid, fs_name := name,
      fs_source_snapshot := Some snap, fs_replica := None\<rparr>) c1"
    by (auto simp: clone_fs_def attempt_Inr andthen_Inr)
  have "all_tables Q c1" using share_extents_all [OF sh] assms(2) by simp
  moreover have "Q (fs_inodes (ss_tree s))" using assms(2) s by (simp add: all_tables_def)
  ultimately show ?thesis unfolding c' by (intro all_tables_put_fs) simp_all
qed (use assms in \<open>auto simp: clone_fs_def split: if_splits\<close>)

lemma discard_partial_all:
  assumes "discard_partial fs gc c = (Inr gc', c')" and "all_tables Q c"
  shows "all_tables Q c'"
proof -
  from assms(1) obtain r where r: "replica_of c fs = Inr r" by (auto simp: discard_partial_def attempt_Inr)
  show ?thesis
  proof (cases "rs_local r")
    case (Some loc)
    then show ?thesis using assms r by (auto simp: discard_partial_def intro: revert_to_all)
  next
    case None
    with assms(1) r obtain f root where f: "filesystem c fs = Inr f" "fs_inode f ROOT_INO = Inr root"
      by (auto simp: discard_partial_def attempt_Inr)
    define fresh where "fresh = (empty_replica fs (fs_name f)
      (case fs_extent_bytes f of None \<Rightarrow> 0 | Some b \<Rightarrow> b) (i_ctime_ns root))
      \<lparr>fs_quota_of := fs_quota_of f, fs_next_ino := fs_next_ino f\<rparr>"
    have d: "drop_inodes (bvals (fs_inodes f)) gc ((put_fs fs fresh c)\<lparr>leases_of := forget_fs fs (leases_of c)\<rparr>) = (Inr gc', c')"
      using assms(1) r f None by (simp add: discard_partial_def fresh_def Let_def)
    have fr: "fs_inodes fresh = bput ROOT_INO (root_inode (i_ctime_ns root)) bempty"
      by (simp add: fresh_def empty_replica_def new_fs_def)
    have "all_tables Q (put_fs fs fresh c)" using assms(2) fr Q_new by (intro all_tables_put_fs) simp_all
    then show ?thesis using drop_inodes_all [OF d, of Q] by (simp add: all_tables_def)
  qed
qed

lemma meta_all:
  "with_fs fs (\<lambda>f. (Inr (), g f)) c = (Inr u, c') \<Longrightarrow> (\<And>f. fs_inodes (g f) = fs_inodes f) \<Longrightarrow> all_tables Q c
    \<Longrightarrow> all_tables Q c'"
  by (auto elim!: with_fs_all)

lemma replica_commit_all:
  assumes "replica_commit fs from_snap to_snap snapshot name next_ino now gc c = (Inr gc', c')" and "all_tables Q c"
  shows "all_tables Q c'"
proof -
  from assms(1) obtain r where r: "replica_of c fs = Inr r" by (auto simp: replica_commit_def attempt_Inr)
  show ?thesis
  proof (cases "rs_base r = Some to_snap \<and> rs_local r = Some snapshot")
    case False
    from assms(1) [unfolded replica_commit_def keep_gc_def r attempt_simps Let_def if_not_P [OF False]]
    obtain gc1 c1 c2 u v where
      d: "(if rs_pending r \<noteq> Some to_snap \<and> rs_pending r \<noteq> None then discard_partial fs gc c else (Inr gc, c)) = (Inr gc1, c1)"
      and w: "with_fs fs (\<lambda>f. (Inr (), f\<lparr>fs_next_ino := max (fs_next_ino f) next_ino,
          fs_replica := Some \<lparr>rs_base = Some to_snap, rs_local = Some snapshot, rs_pending = None\<rparr>\<rparr>)) c1 = (Inr u, c2)"
      and s: "snapshot_tree snapshot fs name now c2 = (Inr v, c')"
      by (auto simp only: attempt_Inr andthen_Inr prod.inject)
    have "all_tables Q c1" using d assms(2) discard_partial_all by (auto split: if_splits)
    then show ?thesis by (intro snapshot_tree_all [OF s meta_all [OF w]]) simp_all
  qed (use assms r in \<open>simp add: replica_commit_def\<close>)
qed

lemma replica_promote_all:
  assumes "replica_promote fs force gc c = (Inr gc', c')" and "all_tables Q c"
  shows "all_tables Q c'"
proof -
  from assms(1) obtain f where f: "filesystem c fs = Inr f" by (auto simp: replica_promote_def attempt_Inr)
  show ?thesis
    using assms f
    by (cases "fs_replica f"; cases "rs_local (the (fs_replica f))"; cases "rs_pending (the (fs_replica f))")
      (auto simp: replica_promote_def keep_gc_def andthen_Inr elim: revert_to_all elim!: meta_all split: if_splits)
qed

lemma replica_demote_all:
  "replica_demote fs snapshot base gc c = (Inr gc', c') \<Longrightarrow> all_tables Q c \<Longrightarrow> all_tables Q c'"
  by (auto simp: replica_demote_def attempt_Inr elim: revert_to_all split: option.splits if_splits)

lemma quota_all: "set_quota fs mb mi gc c = (Inr gc', c') \<Longrightarrow> all_tables Q c \<Longrightarrow> all_tables Q c'"
  by (auto simp: set_quota_def keep_gc_def andthen_Inr Let_def elim!: meta_all)

lemma snapshot_all: "snapshot_fs sid fs name now gc c = (Inr gc', c') \<Longrightarrow> all_tables Q c \<Longrightarrow> all_tables Q c'"
  by (auto simp: snapshot_fs_def keep_gc_def andthen_Inr elim!: snapshot_tree_all)

lemma apply_fs_all:
  assumes "apply_fs op gc c = (Inr gc', c')" and "all_tables Q c" and "rooms c"
    and "\<not> is_part op"
  shows "all_tables Q c'"
proof -
  from assms(1) have "apply_fs_op op gc c = (Inr gc', c')" by (simp add: apply_fs_def attempt_Inr)
  then show ?thesis
    using assms(2-4)
    by (cases op) (simp_all add: names_all unlink_all rename_all setattr_all xattr_all install_all new_all delete_all
        clone_fs_all replica_commit_all replica_promote_all replica_demote_all quota_all snapshot_all)
qed

lemma run_command_all:
  assumes "run_command term cmd c = (Inr gc, c')" and "all_tables Q c" and "rooms c" and "\<not> cmd_is_part cmd"
  shows "all_tables Q c'"
proof (cases "\<exists>op. cmd = FsCommand op")
  case True
  then show ?thesis using assms by (auto intro: apply_fs_all)
next
  case False
  then show ?thesis using volume_tables [OF assms(1)] assms(2) all_tables_frame by blast
qed

lemma apply_committed_all:
  assumes "all_tables Q c" and "cat_ok c" and "command_ok c cmd" and "rooms c" and "\<not> cmd_is_part cmd"
  shows "all_tables Q (snd (apply_committed term index cmd c))"
proof (rule apply_inner_cases [OF assms(2,3), of "term" index])
  fix e assume "apply_inner term index cmd c = (Inl e, c)"
  then show ?thesis
    using assms(1)
    by (auto simp: apply_committed_def catalog_apply_def applied_def all_tables_def split: meta_error.split)
next
  fix gc c1 assume i: "apply_inner term index cmd c = (Inr gc, c1)"
  have "all_tables Q c1"
  proof (cases "index \<le> applied_index c")
    case False
    with i obtain c2 where "run_command term cmd c = (Inr gc, c2)" "c1 = applied term index c2"
      by (auto simp: apply_inner_def andthen_Inr)
    then show ?thesis using run_command_all [OF _ assms(1,4,5)] by (auto simp: applied_def all_tables_def)
  qed (use i assms(1) in \<open>simp add: apply_inner_def\<close>)
  with i show ?thesis by (simp add: apply_committed_def catalog_apply_def)
qed

end

section \<open>Names\<close>

text \<open>The first such invariant: every directory entry has a name that \<open>check_name\<close> accepts.\<close>

definition names_valid :: "inode_table \<Rightarrow> bool" where
  "names_valid t \<longleftrightarrow> (\<forall>k i n. bget t k = Some i \<longrightarrow> inode_entry i n \<noteq> None \<longrightarrow> check_name n = Inr ())"

lemma names_bput: "names_valid t \<Longrightarrow> (\<And>n. inode_entry i n \<noteq> None \<Longrightarrow> check_name n = Inr ()) \<Longrightarrow> names_valid (bput k i t)"
  by (auto simp: names_valid_def split: if_splits)

lemma names_bdel: "names_valid t \<Longrightarrow> names_valid (bdel k t)"
  by (auto simp: names_valid_def split: if_splits)

lemma names_get: "names_valid t \<Longrightarrow> bget t k = Some i \<Longrightarrow> inode_entry i n = Some x \<Longrightarrow> check_name n = Inr ()"
  by (auto simp: names_valid_def)

lemma names_same:
  "names_valid t \<Longrightarrow> bget t k = Some i \<Longrightarrow> inode_entry i' = inode_entry i \<Longrightarrow> names_valid (bput k i' t)"
  by (rule names_bput) (auto dest: names_get)

lemma names_set_entry:
  assumes "fs_set_entry d n x f = (Inr u, f')" and "names_valid (fs_inodes f)" and "x = None \<or> check_name n = Inr ()"
  shows "names_valid (fs_inodes f')"
proof -
  from assms(1) obtain i p es where i: "bget (fs_inodes f) d = Some i" "i_kind i = Dir p es"
    and f': "f' = f\<lparr>fs_inodes := bput d (i\<lparr>i_kind := Dir p (put_entry n x es)\<rparr>) (fs_inodes f)\<rparr>"
    by (auto simp: fs_set_entry_def itab_set_entry_def attempt_Inr fs_dir_eq_Inr is_dir_Dir)
  have "check_name m = Inr ()" if "bget (put_entry n x es) m \<noteq> None" for m
    using that assms(3) names_get [OF assms(2) i(1)] i(2)
    by (auto simp: put_entry_def inode_entry_def split: option.splits if_splits)
  then show ?thesis unfolding f' using assms(2) by (auto intro!: names_bput simp: inode_entry_def)
qed

lemma names_edit:
  assumes "edit_inode k g f = (Inr u, f')" and "names_valid (fs_inodes f)" and "\<And>i. inode_entry (g i) = inode_entry i"
  shows "names_valid (fs_inodes f')"
  using assms by (auto simp: edit_inode_def attempt_Inr intro!: names_same)

lemma names_dir_changed:
  "dir_changed d x now f = (Inr u, f') \<Longrightarrow> names_valid (fs_inodes f) \<Longrightarrow> names_valid (fs_inodes f')"
  unfolding dir_changed_def by (erule names_edit) (simp_all add: inode_entry_def itouch_def fun_eq_iff)

lemma names_drop_link:
  "drop_link ino now f = (Inr g, f') \<Longrightarrow> names_valid (fs_inodes f) \<Longrightarrow> names_valid (fs_inodes f')"
  by (auto simp: drop_link_def attempt_Inr Let_def inode_entry_def fun_eq_iff intro!: names_same names_bdel split: if_splits)

lemma names_mknode:
  assumes "mknode_fs parent name op_id nt tgt rdev mode create_mode uid gid now f = (Inr u, f')"
    and "check_name name = Inr ()" and "names_valid (fs_inodes f)"
  shows "names_valid (fs_inodes f')"
proof (cases "f' = f")
  case False
  with assms(1) obtain kind m acls where k: "mknode_kind parent nt tgt rdev = Inr kind"
    and i: "mknode_insert parent name op_id kind m acls uid gid now f = (Inr u, f')"
    by (auto simp: mknode_fs_def attempt_Inr split: option.splits if_splits prod.splits)
  have "inode_entry ((inode_new ino kind m uid gid now)\<lparr>i_op_id := op_id, i_xattrs := x\<rparr>) n = None" for ino x n
    using k by (auto simp: mknode_kind_def inode_new_def inode_entry_def split: node_type.splits option.splits if_splits)
  then show ?thesis
    using i assms(2,3)
    by (auto simp: mknode_insert_def Let_def andthen_Inr intro!: names_bput elim!: names_set_entry names_dir_changed)
qed (use assms(3) in simp)

lemma names_rename:
  assumes "rename_fs d n d' n' now f = (Inr g, f')" and "check_name n' = Inr ()" and "names_valid (fs_inodes f)"
  shows "names_valid (fs_inodes f')"
proof (cases "f' = f")
  case False
  with assms(1) obtain k s dst f1 u where
    r: "(case dst of None \<Rightarrow> (Inr None, f) | Some x \<Rightarrow> attempt f (rename_check (is_dir s) x f) (\<lambda>xd.
          rename_replace d' n' x xd now f)) = (Inr g, f1)"
    and m: "rename_move d n d' n' k (is_dir s) now f1 = (Inr u, f')"
    by (auto simp: rename_fs_def attempt_Inr andthen_Inr split: if_splits)
  have "names_valid (fs_inodes f1)"
    using r assms(3)
    by (auto simp: attempt_Inr rename_replace_def andthen_Inr split: option.splits if_splits
        elim!: names_dir_changed names_drop_link intro!: names_bdel elim: names_set_entry)
  with m assms(2) show ?thesis
    by (auto simp: rename_move_def Let_def andthen_Inr elim!: names_edit names_dir_changed names_set_entry
        simp: inode_entry_def fun_eq_iff split: inode_kind.split)
qed (use assms(3) in simp)

interpretation nv: table_invariant names_valid "\<lambda>_. True"
proof
  show "names_valid (bput ROOT_INO (root_inode now) bempty)" for now
    by (auto simp: names_valid_def root_inode_def inode_new_def inode_entry_def split: if_splits)
  show "names_valid (fs_inodes f')" if "link_fs ino parent name now f = (Inr u, f')" "check_name name = Inr ()"
    "names_valid (fs_inodes f)" for ino parent name now f u f'
    using that
    by (auto simp: link_fs_def attempt_Inr andthen_Inr split: option.splits if_splits
        elim!: names_edit names_dir_changed names_set_entry) (simp_all add: inode_entry_def fun_eq_iff)
  show "names_valid (fs_inodes f')" if "unlink_fs parent name now f = (Inr g, f')" "names_valid (fs_inodes f)"
    for parent name now f g f'
    using that by (auto simp: unlink_fs_def attempt_Inr andthen_Inr elim!: names_drop_link names_dir_changed names_set_entry)
  show "names_valid (fs_inodes f')" if "rmdir_fs parent name now f = (Inr u, f')" "names_valid (fs_inodes f)"
    for parent name now f u f'
    using that by (auto simp: rmdir_fs_def attempt_Inr andthen_Inr intro!: names_bdel elim!: names_dir_changed names_set_entry)
  show "names_valid (bput k i' t)" if "bget t k = Some i" "same_node i i'" "names_valid t" for t k i i'
    using that by (auto intro!: names_same simp: same_node_def inode_entry_def fun_eq_iff is_dir_Dir split: inode_kind.split)
qed (auto intro: names_mknode names_rename)

end
