(* ===== verification/TreeInv.thy ===== *)
theory TreeInv
  imports TreeSpec TableInv
begin

text \<open>
  The name space operations of \<open>namespace.rs\<close> against the abstract tree of \<open>TreeSpec\<close>: what each
  step of an operation does to the tree of an inode table, that a well-formed tree stays one,
  and that the loop of \<open>is_within\<close> ends on it.
\<close>

section \<open>The tree of an inode table\<close>

definition tree_of :: "inode_table \<Rightarrow> tree" where
  "tree_of t =
     \<lparr>t_dir = (\<lambda>k. case bget t k of None \<Rightarrow> None
        | Some i \<Rightarrow> (case i_kind i of Dir p _ \<Rightarrow> Some p | _ \<Rightarrow> None)),
      t_links = (\<lambda>k. map_option i_nlink (bget t k)),
      t_kid = (\<lambda>d n. case bget t d of None \<Rightarrow> None | Some i \<Rightarrow> inode_entry i n)\<rparr>"

lemma tree_links: "t_links (tree_of t) k = map_option i_nlink (bget t k)"
  by (simp add: tree_of_def)

lemma tree_links_None: "t_links (tree_of t) k = None \<longleftrightarrow> bget t k = None"
  by (simp add: tree_links)

lemma tree_dir_iff: "bget t k = Some i \<Longrightarrow> t_dir (tree_of t) k = None \<longleftrightarrow> \<not> is_dir i"
  by (auto simp: tree_of_def is_dir_Dir split: inode_kind.split)

lemma tree_dir_is: "t_dir (tree_of t) k \<noteq> None \<longleftrightarrow> (\<exists>i. bget t k = Some i \<and> is_dir i)"
  by (cases "bget t k") (auto simp: tree_of_def is_dir_Dir split: inode_kind.splits)

lemma fs_dir_tree: "fs_dir f d = Inr i \<Longrightarrow> t_dir (tree_of (fs_inodes f)) d \<noteq> None"
  unfolding tree_dir_is by (auto simp: fs_dir_eq_Inr)

lemma fs_entry_tree:
  assumes "fs_entry f d n = Inr x"
  shows "t_dir (tree_of (fs_inodes f)) d \<noteq> None" and "t_kid (tree_of (fs_inodes f)) d n = x"
proof -
  from assms obtain i where "bget (fs_inodes f) d = Some i" "is_dir i" "x = inode_entry i n"
    by (auto simp: fs_entry_def rbind_eq_Inr fs_dir_eq_Inr)
  then show "t_dir (tree_of (fs_inodes f)) d \<noteq> None" "t_kid (tree_of (fs_inodes f)) d n = x"
    by (simp_all only: tree_dir_is) (auto simp: tree_of_def)
qed

lemma fs_lookup_tree:
  assumes "fs_lookup f d n = Inr k"
  shows "t_dir (tree_of (fs_inodes f)) d \<noteq> None" and "t_kid (tree_of (fs_inodes f)) d n = Some k"
  using assms fs_entry_tree [of f d n] by (auto simp: fs_lookup_def rbind_eq_Inr ok_or_eq_Inr)

section \<open>Steps\<close>

lemma tree_set_entry:
  assumes "fs_set_entry d n x f = (Inr u, f')"
  shows "tree_of (fs_inodes f') = t_put d n x (tree_of (fs_inodes f))"
proof -
  from assms obtain i where i: "bget (fs_inodes f) d = Some i" "is_dir i"
    by (auto simp: fs_set_entry_def attempt_Inr fs_dir_eq_Inr)
  then obtain p es where k: "i_kind i = Dir p es" by (auto simp: is_dir_Dir)
  have "fs_inodes f' = bput d (i\<lparr>i_kind := Dir p (put_entry n x es)\<rparr>) (fs_inodes f)"
    using assms i k by (auto simp: fs_set_entry_def attempt_Inr itab_set_entry_def fs_dir_def fs_inode_def)
  then show ?thesis
    using i(1) k by (auto simp: tree_of_def t_put_def fun_eq_iff inode_entry_def put_entry_def split: option.split)
qed

lemma tree_edit:
  assumes "edit_inode k g f = (Inr u, f')"
    and "\<And>i. inode_entry (g i) = inode_entry i"
    and "\<And>i. is_dir (g i) = is_dir i" and "\<And>i p es. i_kind i = Dir p es \<Longrightarrow> \<exists>es'. i_kind (g i) = Dir p es'"
  obtains i where "bget (fs_inodes f) k = Some i"
    "tree_of (fs_inodes f') = t_count k (i_nlink (g i)) (tree_of (fs_inodes f))"
proof -
  from assms(1) obtain i where i: "bget (fs_inodes f) k = Some i"
    and f': "fs_inodes f' = bput k (g i) (fs_inodes f)"
    by (auto simp: edit_inode_def attempt_Inr)
  have "(case i_kind (g i) of Dir p _ \<Rightarrow> Some p | _ \<Rightarrow> None) = (case i_kind i of Dir p _ \<Rightarrow> Some p | _ \<Rightarrow> None)"
    using assms(3) [of i] assms(4) [of i] by (auto simp: is_dir_Dir split: inode_kind.splits)
  then have "tree_of (fs_inodes f') = t_count k (i_nlink (g i)) (tree_of (fs_inodes f))"
    using i assms(2) [of i] by (auto simp: f' tree_of_def t_count_def fun_eq_iff)
  with i show thesis by (rule that)
qed

lemma tree_dir_changed:
  assumes "dir_changed d m now f = (Inr u, f')"
  obtains l where "t_links (tree_of (fs_inodes f)) d = Some l"
    "tree_of (fs_inodes f') = t_count d (add_links l m) (tree_of (fs_inodes f))"
proof -
  obtain i where "bget (fs_inodes f) d = Some i"
    "tree_of (fs_inodes f') = t_count d (i_nlink (itouch now (i\<lparr>i_nlink := add_links (i_nlink i) m\<rparr>))) (tree_of (fs_inodes f))"
    by (rule tree_edit [OF assms [unfolded dir_changed_def]]) (auto simp: inode_entry_def itouch_def is_dir_def)
  then show thesis by (intro that) (simp_all add: tree_links itouch_def)
qed

lemma tree_bdel: "tree_of (bdel k t) = t_remove k (tree_of t)"
  by (auto simp: tree_of_def t_remove_def fun_eq_iff)

lemma tree_drop_link:
  assumes "drop_link k now f = (Inr g, f')"
  obtains l where "t_links (tree_of (fs_inodes f)) k = Some l"
    "tree_of (fs_inodes f') = (if l - 1 = 0 then t_remove k (tree_of (fs_inodes f))
       else t_count k (l - 1) (tree_of (fs_inodes f)))"
proof -
  from assms obtain i where i: "bget (fs_inodes f) k = Some i" and f': "fs_inodes f' =
      (if i_nlink i - 1 = 0 then bdel k (fs_inodes f)
       else bput k (i\<lparr>i_nlink := i_nlink i - 1, i_ctime_ns := now\<rparr>) (fs_inodes f))"
    by (auto simp: drop_link_def attempt_Inr Let_def split: if_splits)
  have "tree_of (bput k (i\<lparr>i_nlink := n, i_ctime_ns := now\<rparr>) (fs_inodes f)) = t_count k n (tree_of (fs_inodes f))" for n
    using i by (auto simp: tree_of_def t_count_def fun_eq_iff inode_entry_def)
  with i f' show thesis by (intro that [of "i_nlink i"]) (auto simp: tree_links tree_bdel)
qed

lemma tree_insert:
  assumes "bget t k = None"
  shows "\<not> is_dir i \<Longrightarrow> tree_of (bput k i t) = t_count k (i_nlink i) (tree_of t)"
    and "i_kind i = Dir p bempty \<Longrightarrow> tree_of (bput k i t) = t_count k (i_nlink i) (t_parent k p (tree_of t))"
  using assms
  by (auto simp: tree_of_def t_count_def t_parent_def fun_eq_iff inode_entry_def is_dir_Dir split: inode_kind.split)

section \<open>Operations\<close>

text \<open>Link counts are \<open>u32\<close>: there has to be room for one more.\<close>

definition links_room :: "inode_table \<Rightarrow> bool" where
  "links_room t \<longleftrightarrow> (\<forall>k i. bget t k = Some i \<longrightarrow> i_nlink i + 1 < 2 ^ 32)"

lemma add_links_simps:
  "l < 2 ^ 32 \<Longrightarrow> add_links l 0 = l" "l + 1 < 2 ^ 32 \<Longrightarrow> add_links l 1 = l + 1" "l < 2 ^ 32 \<Longrightarrow> add_links l (- 1) = l - 1"
  by (simp_all add: add_links_def nat_diff_distrib' max_def)

lemma links_roomD: "links_room t \<Longrightarrow> t_links (tree_of t) k = Some l \<Longrightarrow> l + 1 < 2 ^ 32"
  by (auto simp: links_room_def tree_links)

definition name_ok :: "fs_meta \<Rightarrow> bool" where
  "name_ok f \<longleftrightarrow> tree_ok (tree_of (fs_inodes f))"

lemma link_fs_tree:
  assumes "link_fs ino parent name now f = (Inr u, f')" and "name_ok f" and "links_room (fs_inodes f)"
  shows "name_ok f'"
proof -
  let ?T = "tree_of (fs_inodes f)"
  from assms(1) obtain i x where i: "bget (fs_inodes f) ino = Some i" "\<not> is_dir i"
    and x: "fs_entry f parent name = Inr x"
    by (auto simp: link_fs_def attempt_Inr guard_eq_Inr)
  note e = fs_entry_tree [OF x]
  have k: "t_dir ?T ino = None" using tree_dir_iff [OF i(1)] i(2) by simp
  have l: "t_links ?T ino = Some (i_nlink i)" using i(1) by (simp add: tree_links)
  show ?thesis
  proof (cases x)
    case (Some y)
    with assms(1,2) i x show ?thesis
      by (simp add: link_fs_def attempt_Inr guard_eq_Inr split: if_splits)
  next
    case None
    with assms(1) i x obtain f1 f2 where 1: "fs_set_entry parent name (Some ino) f = (Inr (), f1)"
      and 2: "dir_changed parent 0 now f1 = (Inr (), f2)"
      and 3: "edit_inode ino (\<lambda>i. i\<lparr>i_nlink := (i_nlink i + 1) mod 2 ^ 32, i_ctime_ns := now\<rparr>) f2 = (Inr u, f')"
      by (auto simp: link_fs_def attempt_Inr andthen_Inr guard_eq_Inr)
    let ?P = "t_put parent name (Some ino) ?T"
    obtain lp where lp: "t_links ?T parent = Some lp" "tree_of (fs_inodes f2) = t_count parent (add_links lp 0) ?P"
      by (rule tree_dir_changed [OF 2]) (simp add: tree_set_entry [OF 1])
    have "tree_of (fs_inodes f2) = ?P"
      using lp links_roomD [OF assms(3) lp(1)] by (simp add: add_links_simps t_count_same)
    moreover obtain j where j: "bget (fs_inodes f2) ino = Some j"
      "tree_of (fs_inodes f') = t_count ino ((i_nlink j + 1) mod 2 ^ 32) (tree_of (fs_inodes f2))"
      by (rule tree_edit [OF 3]) (auto simp: inode_entry_def is_dir_def)
    moreover have "t_links (tree_of (fs_inodes f2)) ino = Some (i_nlink j)" using j(1) by (simp add: tree_links)
    ultimately have "tree_of (fs_inodes f') = t_count ino (i_nlink i + 1) ?P"
      using links_roomD [OF assms(3) l] l by simp
    moreover have "tree_ok (t_count ino (i_nlink i + 1) ?P)"
      using assms(2) e None k tree_file(1) [OF _ l k] by (intro add_name_ok) (simp_all add: name_ok_def)
    ultimately show ?thesis by (simp add: name_ok_def)
  qed
qed

text \<open>Removing the name of something that is not a directory.\<close>

lemma drop_name_tree:
  assumes "name_ok f" and "t_kid (tree_of (fs_inodes f)) d n = Some k" and "t_dir (tree_of (fs_inodes f)) k = None"
    and "tree_of (fs_inodes f1) = t_put d n None (tree_of (fs_inodes f))" and "drop_link k now f1 = (Inr g, f')"
  shows "name_ok f'"
proof -
  obtain l where l: "t_links (tree_of (fs_inodes f1)) k = Some l" "tree_of (fs_inodes f') =
      (if l - 1 = 0 then t_remove k (tree_of (fs_inodes f1)) else t_count k (l - 1) (tree_of (fs_inodes f1)))"
    by (rule tree_drop_link [OF assms(5)])
  from l(1) have "t_links (tree_of (fs_inodes f)) k = Some l" by (simp add: assms(4))
  from remove_name_ok [OF assms(1) [unfolded name_ok_def] assms(2,3) this] show ?thesis
    unfolding name_ok_def l(2) assms(4) .
qed

lemma dir_changed_0:
  assumes "dir_changed d 0 now f = (Inr u, f')" and "links_room (fs_inodes f0)"
    and "tree_of (fs_inodes f) = t_put a n x (tree_of (fs_inodes f0))"
  shows "tree_of (fs_inodes f') = tree_of (fs_inodes f)"
proof -
  obtain l where l: "t_links (tree_of (fs_inodes f)) d = Some l"
    "tree_of (fs_inodes f') = t_count d (add_links l 0) (tree_of (fs_inodes f))"
    by (rule tree_dir_changed [OF assms(1)])
  have "add_links l 0 = l" using links_roomD [OF assms(2), of d l] l(1) assms(3) by (simp add: add_links_simps)
  with l show ?thesis by (simp add: t_count_same)
qed

lemma unlink_fs_tree:
  assumes "unlink_fs parent name now f = (Inr g, f')" and "name_ok f" and "links_room (fs_inodes f)"
  shows "name_ok f'"
proof -
  from assms(1) obtain ino i f1 f2 where x: "fs_lookup f parent name = Inr ino"
    and i: "bget (fs_inodes f) ino = Some i" "\<not> is_dir i"
    and 1: "fs_set_entry parent name None f = (Inr (), f1)" and 2: "dir_changed parent 0 now f1 = (Inr (), f2)"
    and 3: "drop_link ino now f2 = (Inr g, f')"
    by (auto simp: unlink_fs_def attempt_Inr andthen_Inr guard_eq_Inr)
  have "t_dir (tree_of (fs_inodes f)) ino = None" using tree_dir_iff [OF i(1)] i by simp
  moreover have "tree_of (fs_inodes f2) = t_put parent name None (tree_of (fs_inodes f))"
    using dir_changed_0 [OF 2 assms(3) tree_set_entry [OF 1]] tree_set_entry [OF 1] by simp
  ultimately show ?thesis using drop_name_tree [OF assms(2) fs_lookup_tree(2) [OF x] _ _ 3] by simp
qed

text \<open>Removing an empty directory.\<close>

lemma empty_dir_kids: "bget t k = Some i \<Longrightarrow> inode_size i = 0 \<Longrightarrow> is_dir i \<Longrightarrow> t_kid (tree_of t) k m = None"
  by (auto simp: tree_of_def inode_entry_def inode_size_def is_dir_Dir bsize_0_iff)

lemma remove_dir_tree:
  assumes ok: "name_ok f" and kid: "t_kid (tree_of (fs_inodes f)) d n = Some k"
    and i: "bget (fs_inodes f) k = Some i" "is_dir i" "inode_size i = 0" and room: "links_room (fs_inodes f)"
  shows "\<exists>l. t_links (tree_of (fs_inodes f)) d = Some l \<and> add_links l (- 1) = l - 1
    \<and> tree_ok (t_remove k (t_count d (l - 1) (t_put d n None (tree_of (fs_inodes f))))) \<and> k \<noteq> d"
proof -
  let ?T = "tree_of (fs_inodes f)"
  have T: "tree_ok ?T" using ok by (simp add: name_ok_def)
  obtain l where l: "t_links ?T d = Some l" using tree_dir(1) [OF T tree_kid(1) [OF T kid]] by blast
  have "t_dir ?T k \<noteq> None" using tree_dir_iff [OF i(1)] i(2) by simp
  then have "tree_ok (t_remove k (t_count d (l - 1) (t_put d n None ?T)))"
    using remove_dir_ok [OF T kid _ _ l] empty_dir_kids [OF i(1,3,2)] by blast
  moreover have "add_links l (- 1) = l - 1" using links_roomD [OF room l] by (simp add: add_links_simps)
  moreover have "k \<noteq> d" using kid empty_dir_kids [OF i(1,3,2), of n] by auto
  ultimately show ?thesis using l by blast
qed

lemma rmdir_fs_tree:
  assumes "rmdir_fs parent name now f = (Inr g, f')" and "name_ok f" and "links_room (fs_inodes f)"
  shows "name_ok f'"
proof -
  from assms(1) obtain ino i f1 f2 where x: "fs_lookup f parent name = Inr ino"
    and i: "bget (fs_inodes f) ino = Some i" "is_dir i" "inode_size i = 0"
    and 1: "fs_set_entry parent name None f = (Inr (), f1)" and 2: "dir_changed parent (- 1) now f1 = (Inr (), f2)"
    and f': "f' = f2\<lparr>fs_inodes := bdel ino (fs_inodes f2)\<rparr>"
    by (auto simp: rmdir_fs_def attempt_Inr andthen_Inr guard_eq_Inr fs_dir_eq_Inr)
  obtain l where l: "t_links (tree_of (fs_inodes f)) parent = Some l" "add_links l (- 1) = l - 1"
    "tree_ok (t_remove ino (t_count parent (l - 1) (t_put parent name None (tree_of (fs_inodes f)))))"
    using remove_dir_tree [OF assms(2) fs_lookup_tree(2) [OF x] i assms(3)] by blast
  obtain l' where "t_links (tree_of (fs_inodes f1)) parent = Some l'"
    "tree_of (fs_inodes f2) = t_count parent (add_links l' (- 1)) (tree_of (fs_inodes f1))"
    by (rule tree_dir_changed [OF 2])
  with l show ?thesis
    unfolding tree_set_entry [OF 1] by (simp add: name_ok_def f' tree_bdel)
qed

text \<open>Creating.\<close>

lemma t_put_count: "t_put d n x (t_count k l T) = t_count k l (t_put d n x T)"
  by (simp add: t_put_def t_count_def)

lemma mknode_insert_tree:
  assumes "mknode_insert parent name op_id kind mode acls uid gid now f = (Inr u, f')"
    and kind: "mknode_kind parent nt tgt rdev = Inr kind" and ok: "name_ok f" and room: "links_room (fs_inodes f)"
    and wf: "fs_ok f" and d: "t_dir (tree_of (fs_inodes f)) parent \<noteq> None"
    and free: "t_kid (tree_of (fs_inodes f)) parent name = None"
  shows "name_ok f'"
proof -
  let ?T = "tree_of (fs_inodes f)"
  define ino where "ino = fs_next_ino f"
  define i where "i = (inode_new ino kind mode uid gid now)\<lparr>i_op_id := op_id, i_xattrs := bextend bempty acls\<rparr>"
  define f1 where "f1 = f\<lparr>fs_next_ino := wrap_add ino 1, fs_inodes := bput ino i (fs_inodes f)\<rparr>"
  obtain f2 where 1: "fs_set_entry parent name (Some ino) f1 = (Inr (), f2)"
    and 2: "dir_changed parent (if is_dir i then 1 else 0) now f2 = (Inr u, f')"
    using assms(1) by (auto simp: mknode_insert_def Let_def andthen_Inr f1_def i_def ino_def)
  have T: "tree_ok ?T" using ok by (simp add: name_ok_def)
  have i: "i_kind i = kind" "i_nlink i = (if is_dir_kind kind then 2 else 1)" by (simp_all add: i_def inode_new_def)
  have fresh: "bget (fs_inodes f) ino = None"
    using wf by (cases "bget (fs_inodes f) ino") (auto simp: fs_ok_def fs_wf_def inos_ok_def ino_def)
  then have k: "t_links ?T ino = None" by (simp add: tree_links)
  obtain l where l: "t_links ?T parent = Some l" using tree_dir(1) [OF T d] by blast
  have neq: "parent \<noteq> ino" using l k by auto
  obtain l' where l': "t_links (tree_of (fs_inodes f2)) parent = Some l'"
    "tree_of (fs_inodes f') = t_count parent (add_links l' (if is_dir i then 1 else 0)) (tree_of (fs_inodes f2))"
    by (rule tree_dir_changed [OF 2])
  have kid: "(\<exists>p es. kind = Dir p es) \<longleftrightarrow> kind = Dir parent bempty"
    using kind by (cases nt) (auto simp: mknode_kind_def split: option.splits if_splits)
  show ?thesis
  proof (cases "is_dir i")
    case True
    then have "i_kind i = Dir parent bempty" using kid i(1) by (auto simp: is_dir_Dir)
    then have "tree_of (fs_inodes f1) = t_count ino 2 (t_parent ino parent ?T)"
      using tree_insert(2) [OF fresh] i by (simp add: f1_def is_dir_kind_def)
    then have f2: "tree_of (fs_inodes f2) = t_put parent name (Some ino) (t_count ino 2 (t_parent ino parent ?T))"
      using tree_set_entry [OF 1] by simp
    have "l' = l" using l'(1) l neq unfolding f2 by simp
    then show ?thesis
      using add_dir_ok [OF T d free k l] l' True links_roomD [OF room l] by (simp add: name_ok_def f2 add_links_simps)
  next
    case False
    then have "tree_of (fs_inodes f1) = t_count ino 1 ?T"
      using tree_insert(1) [OF fresh] i by (simp add: f1_def is_dir_kind_def is_dir_def)
    then have f2: "tree_of (fs_inodes f2) = t_count ino 1 (t_put parent name (Some ino) ?T)"
      using tree_set_entry [OF 1] by (simp add: t_put_count)
    have "l' = l" using l'(1) l neq unfolding f2 by simp
    then have f': "tree_of (fs_inodes f') = t_count ino 1 (t_put parent name (Some ino) ?T)"
      using l' False links_roomD [OF room l] by (simp add: f2 add_links_simps t_count_same)
    have "t_dir ?T ino = None" using tree_dir(1) [OF T, of ino] k by (cases "t_dir ?T ino") auto
    moreover have "t_kid ?T a m \<noteq> Some ino" for a m using tree_kid(2) [OF T, of a m ino] k by auto
    then have "t_names ?T ino = {}" by (auto simp: t_names_def)
    ultimately show ?thesis
      using add_name_ok [OF T d free, of ino 0] by (simp add: name_ok_def f')
  qed
qed

lemma mknode_fs_tree:
  assumes "mknode_fs parent name op_id nt tgt rdev mode create_mode uid gid now f = (Inr u, f')"
    and "name_ok f" and "links_room (fs_inodes f)" and "fs_ok f"
  shows "name_ok f'"
proof -
  from assms(1) obtain x where x: "fs_entry f parent name = Inr x"
    by (auto simp: mknode_fs_def attempt_Inr)
  note e = fs_entry_tree [OF x]
  show ?thesis
  proof (cases x)
    case (Some k)
    with assms(1,2) x show ?thesis by (auto simp: mknode_fs_def attempt_Inr split: if_splits)
  next
    case None
    with assms(1) x obtain mode' acls kind where
      "mknode_insert parent name op_id kind mode' acls uid gid now f = (Inr u, f')"
      "mknode_kind parent nt tgt rdev = Inr kind"
      by (auto simp: mknode_fs_def attempt_Inr)
    then show ?thesis using mknode_insert_tree assms(2-4) e None by blast
  qed
qed

section \<open>Moving\<close>

text \<open>The loop of \<open>is_within\<close> ends, with the right answer.\<close>

lemma is_within_total:
  assumes "tree_ok (tree_of t)" and "t_dir (tree_of t) k \<noteq> None"
  shows "\<exists>b. is_within t k a = Some (Inr b) \<and> (b \<longleftrightarrow> within (t_dir (tree_of t)) a k)"
proof -
  let ?P = "t_dir (tree_of t)"
  have at_root: "is_within t ROOT_INO a = Some (Inr (a = ROOT_INO))" "within ?P a ROOT_INO \<longleftrightarrow> a = ROOT_INO"
  proof -
    obtain i where i: "bget t ROOT_INO = Some i" "is_dir i"
      using tree_root [OF assms(1)] tree_dir_is [of t ROOT_INO] by auto
    then show "is_within t ROOT_INO a = Some (Inr (a = ROOT_INO))" by (subst is_within.simps) (auto simp: is_dir_Dir)
    show "within ?P a ROOT_INO \<longleftrightarrow> a = ROOT_INO" by (auto intro: within.here elim: within.cases)
  qed
  from tree_dir(2) [OF assms] show ?thesis
    using assms(2)
  proof (induction rule: rooted.induct)
    case root
    show ?case using at_root by auto
  next
    case (up k p)
    show ?case
    proof (cases "k = ROOT_INO \<or> k = a")
      case True
      then show ?thesis
        using at_root by (auto simp: is_within.simps [of t a a] intro: within.here)
    next
      case False
      obtain i es where i: "bget t k = Some i" "i_kind i = Dir p es"
        using up.hyps(1) by (auto simp: tree_of_def split: option.splits inode_kind.splits)
      obtain n where "(p, n) \<in> t_names (tree_of t) k" using tree_parent [OF assms(1) up.hyps(1)] False by auto
      then have "?P p \<noteq> None" using tree_kid(1) [OF assms(1)] by (simp add: mem_names)
      from up.IH [OF this] obtain b where b: "is_within t p a = Some (Inr b)" "b \<longleftrightarrow> within ?P a p" by blast
      have "within ?P a k \<longleftrightarrow> within ?P a p"
        using False up.hyps(1) by (auto intro: within.above elim: within.cases)
      moreover have "is_within t k a = is_within t p a"
        using False i by (subst is_within.simps) simp
      ultimately show ?thesis using b by auto
    qed
  qed
qed

lemma tree_reparent:
  assumes "edit_inode k (\<lambda>s. s\<lparr>i_ctime_ns := now,
      i_kind := (case i_kind s of Dir _ es \<Rightarrow> Dir p es | kd \<Rightarrow> kd)\<rparr>) f = (Inr u, f')"
  shows "tree_of (fs_inodes f') = (if t_dir (tree_of (fs_inodes f)) k = None then tree_of (fs_inodes f)
    else t_parent k p (tree_of (fs_inodes f)))"
proof -
  from assms obtain i where i: "bget (fs_inodes f) k = Some i"
    and f': "fs_inodes f' = bput k (i\<lparr>i_ctime_ns := now,
      i_kind := (case i_kind i of Dir _ es \<Rightarrow> Dir p es | kd \<Rightarrow> kd)\<rparr>) (fs_inodes f)"
    by (auto simp: edit_inode_def attempt_Inr)
  show ?thesis
    using i by (cases "i_kind i") (auto simp: f' tree_of_def t_parent_def fun_eq_iff inode_entry_def)
qed

lemma rename_move_tree:
  assumes move: "rename_move d n d' n' k kd now f = (Inr u, f')" and ok: "name_ok f" and room: "links_room (fs_inodes f)"
    and kid: "t_kid (tree_of (fs_inodes f)) d n = Some k" and kd: "kd \<longleftrightarrow> t_dir (tree_of (fs_inodes f)) k \<noteq> None"
    and d': "t_dir (tree_of (fs_inodes f)) d' \<noteq> None" and free: "t_kid (tree_of (fs_inodes f)) d' n' = None"
    and out: "kd \<Longrightarrow> \<not> within (t_dir (tree_of (fs_inodes f))) k d'"
  shows "name_ok f'"
proof -
  let ?T = "tree_of (fs_inodes f)" and ?m = "if kd \<and> d \<noteq> d' then 1 else 0 :: int"
  let ?U = "t_put d' n' (Some k) (t_put d n None ?T)"
  obtain f1 f2 f3 f4 where 1: "fs_set_entry d n None f = (Inr (), f1)"
    and 2: "fs_set_entry d' n' (Some k) f1 = (Inr (), f2)" and 3: "dir_changed d (- ?m) now f2 = (Inr (), f3)"
    and 4: "dir_changed d' ?m now f3 = (Inr (), f4)"
    and 5: "edit_inode k (\<lambda>s. s\<lparr>i_ctime_ns := now,
      i_kind := (case i_kind s of Dir _ es \<Rightarrow> Dir d' es | kd \<Rightarrow> kd)\<rparr>) f4 = (Inr u, f')"
    using move by (auto simp: rename_move_def Let_def andthen_Inr)
  have T: "tree_ok ?T" using ok by (simp add: name_ok_def)
  have f2: "tree_of (fs_inodes f2) = ?U" using tree_set_entry [OF 1] tree_set_entry [OF 2] by simp
  obtain l where l: "t_links ?T d = Some l" "tree_of (fs_inodes f3) = t_count d (add_links l (- ?m)) ?U"
    by (rule tree_dir_changed [OF 3]) (simp add: f2)
  obtain x where x: "t_links (tree_of (fs_inodes f3)) d' = Some x"
    "tree_of (fs_inodes f4) = t_count d' (add_links x ?m) (tree_of (fs_inodes f3))"
    by (rule tree_dir_changed [OF 4])
  obtain l' where l': "t_links ?T d' = Some l'" using tree_dir(1) [OF T d'] by blast
  have small: "l + 1 < 2 ^ 32" "l' + 1 < 2 ^ 32" using links_roomD [OF room] l(1) l' by blast+
  show ?thesis
  proof (cases "kd \<and> d \<noteq> d'")
    case True
    then have "tree_of (fs_inodes f4) = t_count d' (l' + 1) (t_count d (l - 1) ?U)"
      using l x l' small by (simp add: add_links_simps)
    then show ?thesis
      using tree_reparent [OF 5] True kd out move_dir_across_ok [OF T kid _ d' free _ l(1) l']
      by (auto simp: name_ok_def)
  next
    case False
    have f3: "tree_of (fs_inodes f3) = ?U"
      using l small unfolding if_not_P [OF False] by (simp add: add_links_simps t_count_same)
    then have f4: "tree_of (fs_inodes f4) = ?U"
      using x l' small unfolding if_not_P [OF False] f3 by (simp add: add_links_simps t_count_same)
    show ?thesis
    proof (cases kd)
      case True
      then show ?thesis
        using tree_reparent [OF 5] False kd out f4 move_dir_within_ok [OF T kid] free
        by (auto simp: name_ok_def)
    next
      case False
      then show ?thesis
        using tree_reparent [OF 5] kd f4 move_name_ok [OF T kid _ d' free] by (simp add: name_ok_def)
    qed
  qed
qed

lemma within_mono: "within P a k \<Longrightarrow> (\<And>x p. P x = Some p \<Longrightarrow> Q x = Some p) \<Longrightarrow> within Q a k"
  by (induction rule: within.induct) (auto intro: within.intros)

text \<open>What replacing the target of a rename leaves of the tree.\<close>

definition replaced :: "tree \<Rightarrow> nat \<Rightarrow> string \<Rightarrow> nat \<Rightarrow> tree \<Rightarrow> bool" where
  "replaced T d n k T' \<longleftrightarrow> (\<forall>x. x \<noteq> k \<longrightarrow> t_dir T' x = t_dir T x) \<and> (t_dir T' k = None \<or> t_dir T' k = t_dir T k)
     \<and> (\<forall>x l. t_links T' x = Some l \<longrightarrow> (\<exists>l'. t_links T x = Some l' \<and> l \<le> l'))
     \<and> (\<forall>a m. a \<noteq> k \<longrightarrow> a \<noteq> d \<or> m \<noteq> n \<longrightarrow> t_kid T' a m = t_kid T a m) \<and> (k \<noteq> d \<longrightarrow> t_kid T' d n = None)"

lemma rename_replace_tree:
  assumes rep: "rename_replace d n k kd now f = (Inr g, f')" and ok: "name_ok f" and room: "links_room (fs_inodes f)"
    and kid: "t_kid (tree_of (fs_inodes f)) d n = Some k" and i: "bget (fs_inodes f) k = Some i" "kd \<longleftrightarrow> is_dir i"
    and empty: "kd \<Longrightarrow> inode_size i = 0"
  shows "name_ok f' \<and> replaced (tree_of (fs_inodes f)) d n k (tree_of (fs_inodes f'))"
proof -
  let ?T = "tree_of (fs_inodes f)"
  obtain f1 where 1: "fs_set_entry d n None f = (Inr (), f1)"
    using rep by (auto simp: rename_replace_def andthen_Inr)
  note f1 = tree_set_entry [OF 1]
  show ?thesis
  proof (cases kd)
    case True
    then obtain f2 where 2: "dir_changed d (- 1) now (f1\<lparr>fs_inodes := bdel k (fs_inodes f1)\<rparr>) = (Inr (), f2)" "f' = f2"
      using rep 1 by (auto simp: rename_replace_def andthen_Inr)
    obtain l where l: "t_links ?T d = Some l" "add_links l (- 1) = l - 1"
      "tree_ok (t_remove k (t_count d (l - 1) (t_put d n None ?T)))" "k \<noteq> d"
      using remove_dir_tree [OF ok kid i(1) _ empty room] True i(2) by blast
    obtain x where "t_links (t_remove k (t_put d n None ?T)) d = Some x"
      "tree_of (fs_inodes f') = t_count d (add_links x (- 1)) (t_remove k (t_put d n None ?T))"
      by (rule tree_dir_changed [OF 2(1)]) (simp add: 2(2) tree_bdel f1)
    then have "tree_of (fs_inodes f') = t_remove k (t_count d (l - 1) (t_put d n None ?T))"
      using l by (auto simp: t_remove_def t_count_def t_put_def fun_eq_iff)
    then show ?thesis using l by (auto simp: name_ok_def replaced_def split: if_splits)
  next
    case False
    then have 2: "drop_link k now f1 = (Inr g, f')"
      using rep 1 by (auto simp: rename_replace_def andthen_Inr)
    have k: "t_dir ?T k = None" using tree_dir_iff [OF i(1)] i(2) False by simp
    obtain l where "t_links (tree_of (fs_inodes f1)) k = Some l" "tree_of (fs_inodes f') =
        (if l - 1 = 0 then t_remove k (tree_of (fs_inodes f1)) else t_count k (l - 1) (tree_of (fs_inodes f1)))"
      by (rule tree_drop_link [OF 2])
    then have "replaced ?T d n k (tree_of (fs_inodes f'))"
      unfolding f1 by (auto simp: replaced_def split: if_splits)
    then show ?thesis using drop_name_tree [OF ok kid k f1 2] by blast
  qed
qed

lemma rename_fs_tree:
  assumes ren: "rename_fs d n d' n' now f = (Inr g, f')" and ok: "name_ok f" and room: "links_room (fs_inodes f)"
  shows "name_ok f'"
proof -
  let ?T = "tree_of (fs_inodes f)"
  from ren obtain k dst where k: "fs_lookup f d n = Inr k" and dst: "fs_entry f d' n' = Inr dst"
    by (auto simp: rename_fs_def attempt_Inr)
  show ?thesis
  proof (cases "dst = Some k")
    case True
    with ren k dst ok show ?thesis by (simp add: rename_fs_def attempt_Inr)
  next
    case False
    with ren k dst obtain s f1 where s: "bget (fs_inodes f) k = Some s"
      and out: "is_dir s \<Longrightarrow> is_within_res f d' k = Inr False"
      and rep: "(case dst of None \<Rightarrow> (Inr None, f) | Some x \<Rightarrow> attempt f (rename_check (is_dir s) x f) (\<lambda>xd.
          rename_replace d' n' x xd now f)) = (Inr g, f1)"
      and move: "rename_move d n d' n' k (is_dir s) now f1 = (Inr (), f')"
      by (auto simp: rename_fs_def attempt_Inr andthen_Inr guard_eq_Inr split: if_splits)
    note kid = fs_lookup_tree [OF k] and e = fs_entry_tree [OF dst]
    have T: "tree_ok ?T" using ok by (simp add: name_ok_def)
    have kd: "is_dir s \<longleftrightarrow> t_dir ?T k \<noteq> None" using tree_dir_iff [OF s] by simp
    have win: "\<not> within (t_dir ?T) k d'" if "is_dir s"
      using is_within_total [OF T e(1), of k] out [OF that] by (auto simp: is_within_res_def)
    show ?thesis
    proof (cases dst)
      case None
      then show ?thesis
        using rep rename_move_tree [OF move] ok room kid(2) kd e win by simp
    next
      case (Some x)
      then obtain xd where c: "rename_check (is_dir s) x f = Inr xd" and r: "rename_replace d' n' x xd now f = (Inr g, f1)"
        using rep by (auto simp: attempt_Inr)
      obtain i where i: "bget (fs_inodes f) x = Some i" "xd \<longleftrightarrow> is_dir i" "xd \<Longrightarrow> inode_size i = 0" "xd \<longleftrightarrow> is_dir s"
        using c by (auto simp: rename_check_def rbind_eq_Inr fs_dir_eq_Inr split: if_splits)
      have xk: "t_kid ?T d' n' = Some x" using e(2) Some by simp
      have ok1: "name_ok f1" and rp: "replaced ?T d' n' x (tree_of (fs_inodes f1))"
        using rename_replace_tree [OF r ok room xk i(1-3)] by simp_all
      have nx: "d \<noteq> x" "d' \<noteq> x"
      proof -
        have "t_kid ?T x m = None" for m
          using empty_dir_kids [OF i(1)] i(2,3) tree_kid(1) [OF T, of x m] tree_dir_iff [OF i(1)]
          by (cases "is_dir i"; cases "t_kid ?T x m") auto
        then show "d \<noteq> x" "d' \<noteq> x" using kid(2) xk by auto
      qed
      have neq: "d \<noteq> d' \<or> n \<noteq> n'" "k \<noteq> x" using kid(2) xk False Some by auto
      have "links_room (fs_inodes f1)"
        unfolding links_room_def
      proof (intro allI impI)
        fix y j assume "bget (fs_inodes f1) y = Some j"
        then have "t_links (tree_of (fs_inodes f1)) y = Some (i_nlink j)" by (simp add: tree_links)
        then obtain l' where "t_links ?T y = Some l'" "i_nlink j \<le> l'" using rp unfolding replaced_def by blast
        then show "i_nlink j + 1 < 2 ^ 32" using links_roomD [OF room] by fastforce
      qed
      moreover have "\<not> within (t_dir (tree_of (fs_inodes f1))) k d'" if "is_dir s"
        using win [OF that] within_mono [of "t_dir (tree_of (fs_inodes f1))" k d' "t_dir ?T"] rp
        unfolding replaced_def by (metis option.distinct(1))
      ultimately show ?thesis
        using rename_move_tree [OF move ok1] kid kd e rp neq nx unfolding replaced_def by auto
    qed
  qed
qed

section \<open>Every filesystem is a tree\<close>

definition roomy :: "fs_meta \<Rightarrow> bool" where
  "roomy f \<longleftrightarrow> links_room (fs_inodes f) \<and> fs_ok f"

lemma tree_same_node:
  assumes "bget t k = Some i" and "same_node i i'"
  shows "tree_of (bput k i' t) = tree_of t"
proof -
  have "(case i_kind i' of Dir p _ \<Rightarrow> Some p | _ \<Rightarrow> None) = (case i_kind i of Dir p _ \<Rightarrow> Some p | _ \<Rightarrow> None)"
    "inode_entry i' = inode_entry i" "i_nlink i' = i_nlink i"
    using assms(2) by (auto simp: same_node_def inode_entry_def fun_eq_iff is_dir_Dir split: inode_kind.split)
  then show ?thesis using assms(1) by (auto simp: tree_of_def fun_eq_iff split: option.split)
qed

lemma tree_new: "tree_ok (tree_of (bput ROOT_INO (root_inode now) bempty))"
proof -
  have "t_kid (tree_of (bput ROOT_INO (root_inode now) bempty)) d n = None" for d n
    by (simp add: tree_of_def root_inode_def inode_new_def inode_entry_def)
  then have k: "t_kid (tree_of (bput ROOT_INO (root_inode now) bempty)) = (\<lambda>_ _. None)" by (simp add: fun_eq_iff)
  have d: "t_dir (tree_of (bput ROOT_INO (root_inode now) bempty)) = (\<lambda>k. if k = ROOT_INO then Some ROOT_INO else None)"
    "t_links (tree_of (bput ROOT_INO (root_inode now) bempty)) = (\<lambda>k. if k = ROOT_INO then Some 2 else None)"
    by (simp_all add: tree_of_def root_inode_def inode_new_def fun_eq_iff is_dir_kind_def)
  show ?thesis
    by (auto simp: tree_ok_def k d t_finite_def t_names_def t_subdirs_def intro: rooted.root split: if_splits)
qed

interpretation tr: table_invariant "\<lambda>t. tree_ok (tree_of t)" roomy
proof
  show "tree_ok (tree_of (bput k i' t))" if "bget t k = Some i" "same_node i i'" "tree_ok (tree_of t)" for t k i i'
    using that by (simp add: tree_same_node)
qed (use mknode_fs_tree link_fs_tree unlink_fs_tree rmdir_fs_tree rename_fs_tree in \<open>auto simp: roomy_def name_ok_def tree_new\<close>)

text \<open>The catalogs that commands other than parts of a replication increment lead to, as long as no
  link count and no inode number is used up.\<close>

inductive client_reach :: "catalog \<Rightarrow> bool" where
  client_start: "client_reach empty_catalog"
| client_committed: "client_reach c \<Longrightarrow> command_ok c cmd \<Longrightarrow> \<not> cmd_is_part cmd
    \<Longrightarrow> (\<And>fs f. bget (filesystems c) fs = Some f \<Longrightarrow> roomy f)
    \<Longrightarrow> client_reach (snd (apply_committed term index cmd c))"
| client_loaded: "client_reach c \<Longrightarrow> client_reach (fill_usage c)"

lemma client_reach_catalog: "client_reach c \<Longrightarrow> catalog_reach c"
  by (induction rule: client_reach.induct) (auto intro: catalog_reach.intros)

lemma client_reach_trees:
  assumes "client_reach c"
  shows "all_tables (\<lambda>t. tree_ok (tree_of t)) c" and "all_tables names_valid c"
  using assms
proof (induction rule: client_reach.induct)
  case (client_committed c cmd "term" index)
  have c: "cat_ok c" using client_committed(1) by (intro catalog_reach_ok client_reach_catalog)
  { case 1
    show ?case using tr.apply_committed_all [OF _ c] client_committed by (simp add: tr.rooms_def)
  next
    case 2
    show ?case using nv.apply_committed_all [OF _ c] client_committed by (simp add: nv.rooms_def) }
next
  case (client_loaded c)
  { case 1
    show ?case using client_loaded by (intro fill_usage_all)
  next
    case 2
    show ?case using client_loaded by (intro fill_usage_all) }
qed (auto simp: all_tables_def empty_catalog_def)

lemma walk_names: "t_walk T k ns = Some j \<Longrightarrow> n \<in> set ns \<Longrightarrow> \<exists>d k. t_kid T d n = Some k"
  by (induction ns arbitrary: k) (auto split: Option.bind_splits)

section \<open>What holds of every name space\<close>

definition sample_mkdir :: "string \<Rightarrow> meta_command" where
  "sample_mkdir name = FsCommand (Mknode ''f'' ROOT_INO name [] TDir None 0 0 None 0 0 0)"

definition sample_dirs :: catalog where
  "sample_dirs = snd (apply_committed 1 2 (sample_mkdir ''d'')
     (snd (apply_committed 1 1 (FsCommand (CreateFs ''f'' ''fs'' 0 None)) empty_catalog)))"

lemmas sample_tree_defs = sample_dirs_def sample_mkdir_def apply_committed_def catalog_apply_def apply_inner_def
  apply_fs_def create_fs_def mknode_def mknode_fs_def mknode_insert_def mknode_kind_def keep_gc_def with_fs_def
  filesystem_def fs_entry_def fs_dir_def fs_inode_def inode_entry_def fs_set_entry_def itab_set_entry_def
  put_entry_def dir_changed_def edit_inode_def check_name_def check_inode_quota_def inherit_acls_def
  new_fs_def root_inode_def inode_new_def is_dir_def is_dir_kind_def put_fs_def itouch_def add_links_def wrap_add_def
  empty_catalog_def applied_def guard_def MAX_NAME_BYTES_def Let_def

lemma sample_dirs_fs:
  "bget (filesystems (snd (apply_committed 1 1 (FsCommand (CreateFs ''f'' ''fs'' 0 None)) empty_catalog))) k =
     (if k = ''f'' then Some (new_fs ''f'' ''fs'' None 0) else None)"
  "\<exists>f i. bget (filesystems sample_dirs) ''f'' = Some f \<and> bget (fs_inodes f) 2 = Some i"
  "\<exists>f i. bget (filesystems sample_dirs) ''f'' = Some f \<and> fs_dir f ROOT_INO = Inr i"
  by (simp_all add: sample_tree_defs ROOT_INO_def)

lemma sample_dirs_reach: "client_reach sample_dirs"
proof -
  have a: "client_reach (snd (apply_committed 1 1 (FsCommand (CreateFs ''f'' ''fs'' 0 None)) empty_catalog))"
    by (intro client_committed client_start) (simp_all add: empty_catalog_def)
  have "roomy (new_fs ''f'' ''fs'' None 0)"
    by (simp add: roomy_def links_room_def fs_ok_def fs_wf_def inos_ok_def special_ok_def new_fs_def root_inode_def
        inode_new_def is_dir_kind_def u64_max_def ROOT_INO_def)
  then show ?thesis
    unfolding sample_dirs_def
    by (intro client_committed [OF a])
      (auto simp: sample_mkdir_def sample_dirs_fs [simplified] ino_room_def roomy_def fs_ok_def split: if_splits)
qed





end
