(* ===== verification/Returns.thy ===== *)
theory Returns
  imports TreeInv
begin

text \<open>
  Commands return: on a catalog whose filesystems are trees no command makes the node panic or
  loop. Parts of a replication increment are again left out.
\<close>

definition returns :: "'a meta_result \<Rightarrow> bool" where
  "returns r \<longleftrightarrow> r \<notin> {Inl Diverge, Inl Panic, Inl Store}"

named_theorems returning \<open>results that are no panic and no endless loop\<close>

lemma returns_Inl: "returns (Inl e) \<longleftrightarrow> e \<notin> {Diverge, Panic, Store}"
  by (simp add: returns_def)

lemma returns_values [returning]:
  "returns (Inr x)" "returns (Inl NotFound)" "returns (Inl Invalid)" "returns (Inl Exists)" "returns (Inl NotEmpty)"
  "returns (Inl NotDir)" "returns (Inl IsDir)" "returns (Inl NoAttr)" "returns (Inl TooBig)" "returns (Inl Unsupported)"
  "returns (Inl Locked)" "returns (Inl Quota)" "returns (Inl ReadOnly)" "returns (Inl NoSession)"
  by (simp_all add: returns_def)

lemma returns_attempt [returning]:
  "returns r \<Longrightarrow> (\<And>x. r = Inr x \<Longrightarrow> returns (fst (k x))) \<Longrightarrow> returns (fst (attempt s r k))"
  by (cases r) (auto simp: returns_def)

lemma returns_andthen [returning]:
  "returns (fst r) \<Longrightarrow> (\<And>x s. r = (Inr x, s) \<Longrightarrow> returns (fst (k x s))) \<Longrightarrow> returns (fst (andthen r k))"
  by (cases r; cases "fst r") (auto simp: returns_def)

lemma returns_rbind [returning]:
  "returns r \<Longrightarrow> (\<And>x. r = Inr x \<Longrightarrow> returns (k x)) \<Longrightarrow> returns (rbind r k)"
  by (cases r) (auto simp: returns_def)

lemma returns_guard [returning]: "returns (Inl e) \<Longrightarrow> returns (guard b e)"
  by (simp add: guard_def returns_def)

lemma returns_ok_or [returning]: "returns (Inl e) \<Longrightarrow> returns (ok_or x e)"
  by (cases x) (simp_all add: returns_def)

lemma returns_if [returning]: "(b \<Longrightarrow> returns x) \<Longrightarrow> (\<not> b \<Longrightarrow> returns y) \<Longrightarrow> returns (if b then x else y)"
  "(b \<Longrightarrow> returns (fst u)) \<Longrightarrow> (\<not> b \<Longrightarrow> returns (fst v)) \<Longrightarrow> returns (fst (if b then u else v))"
  by simp_all

lemma returns_basic [returning]:
  "returns (filesystem c fs)" "returns (fs_inode f ino)" "returns (fs_dir f d)" "returns (fs_entry f d n)"
  "returns (fs_lookup f d n)" "returns (check_name n)" "returns (acl_parse v)" "returns (extent_check x)"
  "returns (replica_of c fs)" "returns (check_inode_quota f)" "returns (check_xattr_name n)"
  by (auto simp: filesystem_def fs_inode_def fs_dir_def fs_entry_def fs_lookup_def check_name_def acl_parse_eq
      extent_check_def ly_check_def ly_scheme_def ec_scheme_new_def replica_of_def check_inode_quota_def check_xattr_name_def Let_def
      intro!: returning split: option.split)

lemma returns_extents [returning]: "returns (extents_check xs)"
  by (induction xs) (auto intro!: returning)

lemma returns_refs [returning]:
  "returns (fst (dec_ref e gc c))" "returns (fst (inc_ref e c))" "returns (fst (dec_refs es gc c))" "returns (fst (inc_refs es c))"
proof -
  show d: "returns (fst (dec_ref e gc c))" for e gc c by (auto simp: dec_ref_def intro!: returning)
  show i: "returns (fst (inc_ref e c))" for e c by (auto simp: inc_ref_def intro!: returning)
  show "returns (fst (dec_refs es gc c))" by (induction es arbitrary: gc c) (auto intro!: returning d)
  show "returns (fst (inc_refs es c))" by (induction es arbitrary: c) (auto intro!: returning i)
qed

lemma returns_set_entry [returning]: "returns (fst (fs_set_entry d n x f))"
proof -
  have "returns (fst (itab_set_entry d n x t))" for t
    by (auto simp: itab_set_entry_def intro!: returning split: inode_kind.split)
  from this [of "fs_inodes f"] show ?thesis
    by (cases "itab_set_entry d n x (fs_inodes f)"; cases "fst (itab_set_entry d n x (fs_inodes f))")
      (auto simp: fs_set_entry_def returns_Inl intro!: returning)
qed

lemma returns_steps [returning]:
  "returns (fst (edit_inode k g f))" "returns (fst (dir_changed d s now f))"
  "returns (fst (drop_link k now f))" "returns (fst (share_extents t c))" "returns (fst (drop_inodes is gc c))"
  "returns (fst (release_inode fs gone gc c))" "returns (fst (release_replicas rs ln c))"
  by (auto simp: edit_inode_def dir_changed_def drop_link_def share_extents_def
      drop_inodes_eq drop_inode_eq release_inode_def release_replicas_def Let_def
      intro!: returning split: option.split prod.split bool.split)

lemma returns_with_fs [returning]:
  "(\<And>f. bget (filesystems c) fs = Some f \<Longrightarrow> returns (fst (k f))) \<Longrightarrow> returns (fst (with_fs fs k c))"
  by (auto simp: with_fs_def case_prod_beta filesystem_def intro!: returning)

lemma returns_change_inode [returning]:
  "(\<And>i. returns (g i)) \<Longrightarrow> returns (fst (change_inode fs ino g c))"
  by (auto simp: change_inode_def case_prod_beta intro!: returning)

lemma returns_keep_gc [returning]: "returns (fst r) \<Longrightarrow> returns (fst (keep_gc gc r))"
  by (auto simp: keep_gc_def intro!: returning)

section \<open>Handlers\<close>

lemma returns_names [returning]:
  "returns (fst (mknode_fs parent name op_id nt tgt rdev mode create_mode uid gid now f))"
  "returns (fst (link_fs ino parent name now f))" "returns (fst (unlink_fs parent name now f))"
  "returns (fst (rmdir_fs parent name now f))"
  by (auto simp: mknode_fs_def mknode_insert_def mknode_kind_def inherit_acls_def link_fs_def unlink_fs_def rmdir_fs_def
      Let_def case_prod_beta intro!: returning split: option.split node_type.split)

lemma returns_rename [returning]:
  assumes "tree_ok (tree_of (fs_inodes f))"
  shows "returns (fst (rename_fs d n d' n' now f))"
proof -
  have "returns (is_within_res f d' k)" if "fs_entry f d' n' = Inr x" for x k
    using is_within_total [OF assms fs_entry_tree(1) [OF that], of k] by (auto simp: is_within_res_def returns_def)
  then show ?thesis
    by (auto simp: rename_fs_def rename_check_def rename_replace_def rename_move_def Let_def
        intro!: returning split: option.split)
qed

lemma returns_snapshot [returning]:
  "returns (fst (snapshot_tree sid fs name now c))" "returns (fst (revert_to fs sid r gc c))"
  "returns (fst (discard_partial fs gc c))"
  by (auto simp: snapshot_tree_def revert_to_def discard_partial_def Let_def intro!: returning split: option.split)

lemma returns_attrs [returning]:
  "returns (setattr_inode attr now i)" "returns (setxattr_inode name value xmode now i)"
  "returns (install_inode new at_least now rep i)" "returns (check_byte_quota c fs ino new')"
  by (auto simp: setattr_inode_def setattr_acl_def setattr_size_def setxattr_inode_def setxattr_acl_def install_inode_def
      check_byte_quota_def Let_def case_prod_beta intro!: returning split: option.split inode_kind.split)

lemma returns_fs_op:
  assumes "all_tables (\<lambda>t. tree_ok (tree_of t)) c" and "\<not> is_part op"
  shows "returns (fst (apply_fs_op op gc c))"
proof -
  have "tree_ok (tree_of (fs_inodes f))" if "bget (filesystems c) fs = Some f" for fs f
    using assms(1) that by (auto simp: all_tables_def)
  then show ?thesis
    using assms(2)
    by (cases op)
      (auto simp: create_fs_def delete_fs_def mknode_def link_def unlink_def rmdir_def rename_def setattr_def setxattr_def
        removexattr_def install_file_extent_def install_file_extents_def snapshot_fs_def delete_fs_snapshot_def
        clone_fs_def set_quota_def create_replica_def replica_commit_def replica_promote_def replica_demote_def
        Let_def case_prod_beta intro!: returning split: option.split)
qed

lemma returns_command:
  assumes "all_tables (\<lambda>t. tree_ok (tree_of t)) c" and "\<not> cmd_is_part cmd"
  shows "returns (fst (run_command term cmd c))"
proof (cases cmd)
  case (FsCommand op)
  then show ?thesis
    using returns_fs_op [OF assms(1), of op] assms(2)
    by (auto simp: apply_fs_def intro!: returning split: option.split)
next
  case (LeaseCommand op)
  have "returns (fst (leases_apply (regular_file c) term op (leases_of c)))"
    by (cases op)
      (auto simp: lease_open_def lease_renew_def lease_close_def lease_expire_def lease_lock_def lease_release_owner_def
        check_holder_name_def regular_file_def Let_def intro!: returning split: option.split inode_kind.split)
  then show ?thesis
    using LeaseCommand
    by (cases "leases_apply (regular_file c) term op (leases_of c)"; cases "fst (leases_apply (regular_file c) term op (leases_of c))")
      (auto simp: lease_command_def returns_Inl intro!: returning)
qed (auto simp: create_volume_def install_extent_def install_extents_def create_snapshot_def delete_snapshot_def
      delete_volume_def resize_volume_def clone_snapshot_def mark_extent_reclaimed_def replace_replica_def
      tier_extent_def change_membership_def Let_def case_prod_beta intro!: returning split: option.split)



end
