(* ===== verification/WalSpec.thy ===== *)
theory WalSpec
  imports MetaErrors
begin

text \<open>
  The write-ahead log as its users see it: records with increasing indexes, the last index handed
  out, and how far the log is known to be on disk. \<open>Wal\<close> implements this on the bytes of a file;
  the Raft node and the single-node engine are modelled on top of it. Terms and indexes count
  single steps up from zero and are natural numbers here.
\<close>

record 'c wal_record =
  wr_term :: nat
  wr_index :: nat
  wr_command :: 'c

datatype wal_error =
    WalIo
  | WalDecode
  | IndexRegression nat nat
  | WalCorrupt nat

record 'c disk_log =
  dl_records :: "'c wal_record list"
  dl_last :: nat
  dl_synced :: nat

section \<open>Operations\<close>

definition dl_append_unsynced :: "'c wal_record \<Rightarrow> 'c disk_log \<Rightarrow> (wal_error + unit) \<times> 'c disk_log" where
  "dl_append_unsynced r l =
     attempt l (guard (dl_last l < wr_index r) (IndexRegression (dl_last l) (wr_index r))) (\<lambda>_.
       (Inr (), l\<lparr>dl_records := dl_records l @ [r], dl_last := wr_index r\<rparr>))"

definition dl_sync :: "'c disk_log \<Rightarrow> 'c disk_log" where
  "dl_sync l = l\<lparr>dl_synced := max (dl_synced l) (dl_last l)\<rparr>"

definition dl_append :: "'c wal_record \<Rightarrow> 'c disk_log \<Rightarrow> (wal_error + unit) \<times> 'c disk_log" where
  "dl_append r l = andthen (dl_append_unsynced r l) (\<lambda>_ l. (Inr (), dl_sync l))"

definition dl_rewrite :: "(nat \<Rightarrow> bool) \<Rightarrow> 'c disk_log \<Rightarrow> 'c disk_log" where
  "dl_rewrite keep l = l\<lparr>dl_records := filter (\<lambda>r. keep (wr_index r)) (dl_records l), dl_synced := dl_last l\<rparr>"

definition dl_raise_floor :: "nat \<Rightarrow> 'c disk_log \<Rightarrow> 'c disk_log" where
  "dl_raise_floor i l = l\<lparr>dl_last := max (dl_last l) i, dl_synced := max (dl_synced l) i\<rparr>"

definition dl_compact_through :: "nat \<Rightarrow> 'c disk_log \<Rightarrow> 'c disk_log" where
  "dl_compact_through i l = dl_rewrite (\<lambda>k. i < k) l"

definition dl_truncate_after :: "nat \<Rightarrow> 'c disk_log \<Rightarrow> 'c disk_log" where
  "dl_truncate_after i l = (dl_rewrite (\<lambda>k. k \<le> i) l)\<lparr>dl_last := i, dl_synced := i\<rparr>"

definition dl_reset :: "nat \<Rightarrow> 'c disk_log \<Rightarrow> 'c disk_log" where
  "dl_reset i l = (dl_rewrite (\<lambda>_. False) l)\<lparr>dl_last := i, dl_synced := i\<rparr>"

text \<open>What is left of the log after a crash in which \<open>n\<close> records reached the disk: reopening takes
  the indexes from the file.\<close>

definition dl_load :: "'c wal_record list \<Rightarrow> 'c disk_log" where
  "dl_load rs = (let i = (if rs = [] then 0 else wr_index (last rs))
     in \<lparr>dl_records = rs, dl_last = i, dl_synced = i\<rparr>)"

section \<open>Well-formed logs\<close>

definition rising :: "'c wal_record list \<Rightarrow> bool" where
  "rising rs \<longleftrightarrow> sorted_wrt (<) (map wr_index rs)"

definition dl_inv :: "'c disk_log \<Rightarrow> bool" where
  "dl_inv l \<longleftrightarrow> rising (dl_records l) \<and> (\<forall>r \<in> set (dl_records l). wr_index r \<le> dl_last l)
     \<and> dl_synced l \<le> dl_last l"

lemma rising_simps [simp]: "rising []" "rising [r]"
  by (simp_all add: rising_def)

lemma rising_snoc: "rising (rs @ [r]) \<longleftrightarrow> rising rs \<and> (\<forall>s \<in> set rs. wr_index s < wr_index r)"
  by (auto simp: rising_def sorted_wrt_append)

lemma rising_filter: "rising rs \<Longrightarrow> rising (filter P rs)"
  by (simp add: rising_def sorted_wrt_map sorted_wrt_filter)

lemma rising_append: "rising (rs @ ss) \<longleftrightarrow> rising rs \<and> rising ss \<and> (\<forall>r \<in> set rs. \<forall>s \<in> set ss. wr_index r < wr_index s)"
  by (auto simp: rising_def sorted_wrt_append)

lemma rising_take: "rising rs \<Longrightarrow> rising (take n rs)"
  by (simp add: rising_def sorted_wrt_take flip: take_map)

text \<open>In a rising log a bound on the index selects a prefix.\<close>

lemma rising_filter_prefix:
  assumes "rising rs"
  shows "\<exists>n. filter (\<lambda>r. wr_index r \<le> i) rs = take n rs \<and> filter (\<lambda>r. \<not> wr_index r \<le> i) rs = drop n rs"
  using assms
proof (induction rs rule: rev_induct)
  case (snoc r rs)
  then obtain n where n: "filter (\<lambda>r. wr_index r \<le> i) rs = take n rs" "filter (\<lambda>r. \<not> wr_index r \<le> i) rs = drop n rs"
    by (auto simp: rising_snoc)
  show ?case
  proof (cases "wr_index r \<le> i")
    case True
    then have "filter (\<lambda>r. wr_index r \<le> i) rs = rs" "filter (\<lambda>r. \<not> wr_index r \<le> i) rs = []"
      using snoc.prems by (auto simp: rising_snoc filter_empty_conv intro!: filter_True)
    with True show ?thesis by (intro exI [of _ "Suc (length rs)"]) simp
  next
    case False
    show ?thesis
      using False n by (intro exI [of _ "min n (length rs)"]) (auto simp: min_def)
  qed
qed simp

lemma dl_inv_ops:
  assumes "dl_inv l"
  shows "dl_inv (snd (dl_append_unsynced r l))" "dl_inv (dl_sync l)" "dl_inv (dl_raise_floor i l)"
    "dl_inv (dl_compact_through i l)" "dl_inv (dl_truncate_after i l)" "dl_inv (dl_reset i l)"
proof -
  show "dl_inv (snd (dl_append_unsynced r l))"
    using assms by (auto simp: dl_append_unsynced_def dl_inv_def guard_def rising_snoc)
qed (use assms in \<open>auto simp: dl_inv_def dl_sync_def dl_raise_floor_def dl_compact_through_def dl_truncate_after_def
  dl_reset_def dl_rewrite_def rising_filter\<close>)

lemma dl_load_inv: "rising rs \<Longrightarrow> dl_inv (dl_load rs)"
  by (cases rs rule: rev_cases) (auto simp: dl_inv_def dl_load_def Let_def rising_snoc)

end
