(* ===== verification/Wal.thy ===== *)
theory Wal
  imports WalSpec
begin

text \<open>
  The write-ahead log on the bytes of its file (\<open>crates/atlas-native/src/wal.rs\<close>): one JSON object
  per line, appended without waiting for the disk and synced later; dropping records rewrites
  the file through a temporary one and a rename. The JSON codec is a parameter. A crash keeps
  some number of bytes of the file, at least those synced. Errors of the device itself are not
  modelled. The theorems relate the file to the abstract log of \<open>WalSpec\<close>, and say what a crash
  leaves of it.
\<close>

section \<open>Text\<close>

text \<open>UTF-8 as the standard library accepts it: the code points, or nothing.\<close>

definition cont :: "byte \<Rightarrow> bool" where
  "cont b \<longleftrightarrow> 0x80 \<le> b \<and> b \<le> 0xBF"

fun utf8_decode :: "byte list \<Rightarrow> nat list option" where
  "utf8_decode [] = Some []"
| "utf8_decode (a # bs) =
     (if a < 0x80 then map_option ((#) (unat a)) (utf8_decode bs)
      else if 0xC2 \<le> a \<and> a \<le> 0xDF then (case bs of
          b # bs' \<Rightarrow> if cont b
            then map_option ((#) ((unat a - 0xC0) * 64 + (unat b - 0x80))) (utf8_decode bs') else None
        | _ \<Rightarrow> None)
      else if 0xE0 \<le> a \<and> a \<le> 0xEF then (case bs of
          b # c # bs' \<Rightarrow> if cont b \<and> cont c \<and> (a = 0xE0 \<longrightarrow> 0xA0 \<le> b) \<and> (a = 0xED \<longrightarrow> b \<le> 0x9F)
            then map_option ((#) ((unat a - 0xE0) * 4096 + (unat b - 0x80) * 64 + (unat c - 0x80))) (utf8_decode bs')
            else None
        | _ \<Rightarrow> None)
      else if 0xF0 \<le> a \<and> a \<le> 0xF4 then (case bs of
          b # c # d # bs' \<Rightarrow> if cont b \<and> cont c \<and> cont d \<and> (a = 0xF0 \<longrightarrow> 0x90 \<le> b) \<and> (a = 0xF4 \<longrightarrow> b \<le> 0x8F)
            then map_option ((#) ((unat a - 0xF0) * 262144 + (unat b - 0x80) * 4096 + (unat c - 0x80) * 64
              + (unat d - 0x80))) (utf8_decode bs')
            else None
        | _ \<Rightarrow> None)
      else None)"

definition white_space :: "nat \<Rightarrow> bool" where
  "white_space c \<longleftrightarrow> 9 \<le> c \<and> c \<le> 13 \<or> c = 0x20 \<or> c = 0x85 \<or> c = 0xA0 \<or> c = 0x1680
     \<or> 0x2000 \<le> c \<and> c \<le> 0x200A \<or> c = 0x2028 \<or> c = 0x2029 \<or> c = 0x202F \<or> c = 0x205F \<or> c = 0x3000"

text \<open>\<open>line.trim().is_empty()\<close> of a line that is valid text.\<close>

definition blank :: "byte list \<Rightarrow> bool" where
  "blank l = (case utf8_decode l of Some cs \<Rightarrow> list_all white_space cs | None \<Rightarrow> False)"

text \<open>\<open>BufRead::lines\<close>: a line ends with a newline, which is dropped with a carriage return before it;
  the rest of the file is a line of its own.\<close>

definition strip_cr :: "byte list \<Rightarrow> byte list" where
  "strip_cr l = (if l \<noteq> [] \<and> last l = 13 then butlast l else l)"

function raw_lines :: "byte list \<Rightarrow> byte list list" where
  "raw_lines bs =
     (if bs = [] then []
      else if 10 \<in> set bs
      then strip_cr (takeWhile (\<lambda>b. b \<noteq> 10) bs) # raw_lines (tl (dropWhile (\<lambda>b. b \<noteq> 10) bs))
      else [bs])"
  by pat_completeness auto
termination
proof (relation "measure length")
  fix bs :: "byte list" assume "bs \<noteq> []"
  then show "(tl (dropWhile (\<lambda>b. b \<noteq> 10) bs), bs) \<in> measure length"
    using length_dropWhile_le [of "\<lambda>b. b \<noteq> 10" bs] by (cases bs) (auto simp: less_Suc_eq_le)
qed simp

declare raw_lines.simps [simp del]

section \<open>The log file\<close>

record 'c codec =
  cd_enc :: "'c wal_record \<Rightarrow> byte list"
  cd_dec :: "byte list \<Rightarrow> 'c wal_record option"
  cd_index :: "byte list \<Rightarrow> nat option"

record wal =
  wl_file :: "byte list"
  wl_disk :: nat
  wl_last :: nat
  wl_synced :: nat
  wl_records :: nat

definition rposition :: "('a \<Rightarrow> bool) \<Rightarrow> 'a list \<Rightarrow> nat option" where
  "rposition P xs = (let is = filter (\<lambda>i. P (xs ! i)) [0..<length xs] in if is = [] then None else Some (last is))"

fun scan_lines ::
    "'c codec \<Rightarrow> nat option \<Rightarrow> nat \<Rightarrow> byte list list \<Rightarrow> (nat \<times> byte list) list \<Rightarrow> bool
      \<Rightarrow> wal_error + (nat \<times> byte list) list \<times> bool" where
  "scan_lines cd last_non_empty n [] out torn = Inr (out, torn)"
| "scan_lines cd last_non_empty n (l # ls) out torn =
     (if blank l then scan_lines cd last_non_empty (n + 1) ls out torn
      else case cd_index cd l of
        Some i \<Rightarrow>
          if out \<noteq> [] \<and> i \<le> fst (last out) then Inl (WalCorrupt (n + 1))
          else scan_lines cd last_non_empty (n + 1) ls (out @ [(i, l)]) torn
      | None \<Rightarrow>
          if Some n = last_non_empty then scan_lines cd last_non_empty (n + 1) ls out True
          else Inl (WalCorrupt (n + 1)))"

definition wal_scan :: "'c codec \<Rightarrow> byte list option \<Rightarrow> wal_error + (nat \<times> byte list) list \<times> bool" where
  "wal_scan cd file = (case file of
       None \<Rightarrow> Inr ([], False)
     | Some bs \<Rightarrow>
         let raw = raw_lines bs
         in if list_all (\<lambda>l. utf8_decode l \<noteq> None) raw
            then scan_lines cd (rposition (\<lambda>l. \<not> blank l) raw) 0 raw [] False
            else Inl WalIo)"

definition wal_rewrite :: "'c codec \<Rightarrow> (nat \<Rightarrow> bool) \<Rightarrow> wal \<Rightarrow> wal_error + nat \<times> wal" where
  "wal_rewrite cd keep w =
     rbind (wal_scan cd (Some (wl_file w))) (\<lambda>(lines, _).
       let kept = filter (\<lambda>(i, _). keep i) lines;
           bs = concat (map (\<lambda>(_, l). l @ [10]) kept)
       in Inr (sat_sub (wl_records w) (length kept),
            w\<lparr>wl_file := bs, wl_disk := length bs, wl_synced := wl_last w, wl_records := length kept\<rparr>))"

definition wal_open :: "'c codec \<Rightarrow> byte list option \<Rightarrow> wal_error + wal" where
  "wal_open cd file =
     rbind (wal_scan cd file) (\<lambda>(lines, torn).
       let bs = (case file of None \<Rightarrow> [] | Some bs \<Rightarrow> bs);
           i = (if lines = [] then 0 else fst (last lines));
           w = \<lparr>wl_file = bs, wl_disk = length bs, wl_last = i, wl_synced = i, wl_records = length lines\<rparr>
       in if torn then rbind (wal_rewrite cd (\<lambda>_. True) w) (\<lambda>(_, w). Inr w) else Inr w)"

definition wal_append_unsynced :: "'c codec \<Rightarrow> 'c wal_record \<Rightarrow> wal \<Rightarrow> (wal_error + unit) \<times> wal" where
  "wal_append_unsynced cd r w =
     attempt w (guard (\<not> wr_index r \<le> wl_last w) (IndexRegression (wl_last w) (wr_index r))) (\<lambda>_.
       (Inr (), w\<lparr>wl_file := wl_file w @ cd_enc cd r @ [10], wl_last := wr_index r,
          wl_records := wl_records w + 1\<rparr>))"

definition wal_sync :: "wal \<Rightarrow> wal" where
  "wal_sync w = (if wl_synced w < wl_last w
     then w\<lparr>wl_disk := length (wl_file w), wl_synced := wl_last w\<rparr> else w)"

definition wal_append :: "'c codec \<Rightarrow> 'c wal_record \<Rightarrow> wal \<Rightarrow> (wal_error + unit) \<times> wal" where
  "wal_append cd r w = andthen (wal_append_unsynced cd r w) (\<lambda>_ w. (Inr (), wal_sync w))"

fun decode_lines :: "'c codec \<Rightarrow> (nat \<times> byte list) list \<Rightarrow> wal_error + 'c wal_record list" where
  "decode_lines cd [] = Inr []"
| "decode_lines cd ((_, l) # ls) = (case cd_dec cd l of
       None \<Rightarrow> Inl WalDecode
     | Some r \<Rightarrow> rbind (decode_lines cd ls) (\<lambda>rs. Inr (r # rs)))"

definition wal_replay :: "'c codec \<Rightarrow> wal \<Rightarrow> wal_error + 'c wal_record list" where
  "wal_replay cd w = rbind (wal_scan cd (Some (wl_file w))) (\<lambda>(lines, _). decode_lines cd lines)"

definition wal_raise_floor :: "nat \<Rightarrow> wal \<Rightarrow> wal" where
  "wal_raise_floor i w = w\<lparr>wl_last := max (wl_last w) i, wl_synced := max (wl_synced w) i\<rparr>"

definition wal_compact_through :: "'c codec \<Rightarrow> nat \<Rightarrow> wal \<Rightarrow> wal_error + nat \<times> wal" where
  "wal_compact_through cd through w = wal_rewrite cd (\<lambda>i. i > through) w"

definition wal_truncate_after :: "'c codec \<Rightarrow> nat \<Rightarrow> wal \<Rightarrow> wal_error + nat \<times> wal" where
  "wal_truncate_after cd after w =
     rbind (wal_rewrite cd (\<lambda>i. i \<le> after) w) (\<lambda>(removed, w).
       Inr (removed, w\<lparr>wl_last := after, wl_synced := after\<rparr>))"

definition wal_reset :: "'c codec \<Rightarrow> nat \<Rightarrow> wal \<Rightarrow> wal_error + wal" where
  "wal_reset cd floor w =
     rbind (wal_rewrite cd (\<lambda>_. False) w) (\<lambda>(_, w). Inr (w\<lparr>wl_last := floor, wl_synced := floor\<rparr>))"

section \<open>What the codec has to do\<close>

text \<open>Records are JSON objects on one line of valid text; decoding gives back what was encoded, and
  neither a proper prefix of an object nor two objects in a row are an object.\<close>

definition codec_ok :: "'c codec \<Rightarrow> bool" where
  "codec_ok cd \<longleftrightarrow> (\<forall>r.
     cd_dec cd (cd_enc cd r) = Some r \<and> cd_index cd (cd_enc cd r) = Some (wr_index r)
   \<and> (\<exists>bs. cd_enc cd r = 0x7B # bs @ [0x7D]) \<and> 10 \<notin> set (cd_enc cd r) \<and> utf8_decode (cd_enc cd r) \<noteq> None
   \<and> (\<forall>n < length (cd_enc cd r). cd_index cd (take n (cd_enc cd r)) = None)
   \<and> (\<forall>s. cd_index cd (cd_enc cd r @ cd_enc cd s) = None))"

definition ascii :: "byte list \<Rightarrow> bool" where
  "ascii bs \<longleftrightarrow> (\<forall>b \<in> set bs. b < 0x80)"

section \<open>Reading back what was written\<close>

definition encode_all :: "'c codec \<Rightarrow> 'c wal_record list \<Rightarrow> byte list" where
  "encode_all cd rs = concat (map (\<lambda>r. cd_enc cd r @ [10]) rs)"

definition scanned :: "'c codec \<Rightarrow> 'c wal_record list \<Rightarrow> (nat \<times> byte list) list" where
  "scanned cd rs = map (\<lambda>r. (wr_index r, cd_enc cd r)) rs"

lemma encode_all_simps [simp]:
  "encode_all cd [] = []" "encode_all cd (r # rs) = cd_enc cd r @ 10 # encode_all cd rs"
  "encode_all cd (rs @ ss) = encode_all cd rs @ encode_all cd ss"
  by (simp_all add: encode_all_def)

lemma codecD:
  assumes "codec_ok cd"
  shows codec_dec: "cd_dec cd (cd_enc cd r) = Some r"
    and codec_index: "cd_index cd (cd_enc cd r) = Some (wr_index r)"
    and codec_line: "10 \<notin> set (cd_enc cd r)" "utf8_decode (cd_enc cd r) \<noteq> None"
    and codec_torn: "n < length (cd_enc cd r) \<Longrightarrow> cd_index cd (take n (cd_enc cd r)) = None"
    and codec_two: "cd_index cd (cd_enc cd r @ cd_enc cd s) = None"
  using assms unfolding codec_ok_def by blast+

lemma codec_brace:
  assumes "codec_ok cd"
  obtains bs where "cd_enc cd r = 0x7B # bs @ [0x7D]"
  using assms unfolding codec_ok_def by blast

lemma utf8_ascii: "ascii bs \<Longrightarrow> utf8_decode bs = Some (map unat bs)"
  by (induction bs rule: utf8_decode.induct) (auto simp: ascii_def)

lemma utf8_append: "utf8_decode xs \<noteq> None \<Longrightarrow> utf8_decode ys \<noteq> None \<Longrightarrow> utf8_decode (xs @ ys) \<noteq> None"
proof (induction xs rule: utf8_decode.induct)
  case (2 a bs)
  consider "a < 0x80" | "\<not> a < 0x80" "0xC2 \<le> a \<and> a \<le> 0xDF"
    | "\<not> a < 0x80" "\<not> (0xC2 \<le> a \<and> a \<le> 0xDF)" "0xE0 \<le> a \<and> a \<le> 0xEF"
    | "\<not> a < 0x80" "\<not> (0xC2 \<le> a \<and> a \<le> 0xDF)" "\<not> (0xE0 \<le> a \<and> a \<le> 0xEF)" "0xF0 \<le> a \<and> a \<le> 0xF4"
    | "\<not> a < 0x80" "\<not> (0xC2 \<le> a \<and> a \<le> 0xDF)" "\<not> (0xE0 \<le> a \<and> a \<le> 0xEF)" "\<not> (0xF0 \<le> a \<and> a \<le> 0xF4)"
    by blast
  then show ?case
  proof cases
    case 1
    with 2 show ?thesis by simp
  next
    case c: 2
    then obtain b bs' where "bs = b # bs'" "cont b" "utf8_decode bs' \<noteq> None"
      using 2(5) by (cases bs) (auto split: if_splits)
    with 2(2) [OF c] 2(6) c show ?thesis by simp
  next
    case c: 3
    then obtain b b' bs' where x: "bs = b # b' # bs'" "utf8_decode bs' \<noteq> None"
      "cont b \<and> cont b' \<and> (a = 0xE0 \<longrightarrow> 0xA0 \<le> b) \<and> (a = 0xED \<longrightarrow> b \<le> 0x9F)"
      using 2(5) by (cases bs; cases "tl bs") (auto split: if_splits)
    then have "utf8_decode (bs' @ ys) \<noteq> None" using 2(3) [OF c x(1) refl] 2(6) by blast
    then show ?thesis
      unfolding x(1) append_Cons by (subst utf8_decode.simps(2)) (simp add: if_not_P [OF c(1)] if_not_P [OF c(2)] if_P [OF c(3)] x(3))
  next
    case c: 4
    then obtain b b' b'' bs' where x: "bs = b # b' # b'' # bs'" "utf8_decode bs' \<noteq> None"
      "cont b \<and> cont b' \<and> cont b'' \<and> (a = 0xF0 \<longrightarrow> 0x90 \<le> b) \<and> (a = 0xF4 \<longrightarrow> b \<le> 0x8F)"
      using 2(5) by (cases bs; cases "tl bs"; cases "tl (tl bs)") (auto split: if_splits)
    then have "utf8_decode (bs' @ ys) \<noteq> None" using 2(4) [OF c x(1) refl refl] 2(6) by blast
    then show ?thesis
      unfolding x(1) append_Cons
      by (subst utf8_decode.simps(2))
        (simp add: if_not_P [OF c(1)] if_not_P [OF c(2)] if_not_P [OF c(3)] if_P [OF c(4)] x(3))
  next
    case c: 5
    then have "utf8_decode (a # bs) = None" by (simp only: utf8_decode.simps if_False)
    then show ?thesis using 2(5) by simp
  qed
qed simp

lemma brace_not_blank: "\<not> blank (0x7B # bs)"
  by (auto simp: blank_def white_space_def split: option.split)

lemma enc_not_blank: "codec_ok cd \<Longrightarrow> \<not> blank (cd_enc cd r)"
  using brace_not_blank by (metis codec_brace)

lemma enc_strip: "codec_ok cd \<Longrightarrow> strip_cr (cd_enc cd r) = cd_enc cd r"
  by (rule codec_brace [of cd r]) (auto simp: strip_cr_def)

lemma raw_lines_Nil [simp]: "raw_lines [] = []"
  by (simp add: raw_lines.simps)

lemma raw_lines_line: "10 \<notin> set l \<Longrightarrow> raw_lines (l @ 10 # bs) = strip_cr l # raw_lines bs"
proof -
  assume l: "10 \<notin> set l"
  have "takeWhile (\<lambda>b. b \<noteq> 10) (l @ 10 # bs) = l" "dropWhile (\<lambda>b. b \<noteq> 10) (l @ 10 # bs) = 10 # bs"
    using l by (induction l) auto
  then show ?thesis by (subst raw_lines.simps) simp
qed

lemma raw_lines_rest: "10 \<notin> set l \<Longrightarrow> raw_lines l = (if l = [] then [] else [l])"
  by (subst raw_lines.simps) simp

lemma raw_lines_all: "codec_ok cd \<Longrightarrow> raw_lines (encode_all cd rs @ bs) = map (cd_enc cd) rs @ raw_lines bs"
  by (induction rs) (simp_all add: raw_lines_line codec_line enc_strip)

lemma scan_lines_all:
  assumes "codec_ok cd" and "rising rs" and "\<And>r. r \<in> set rs \<Longrightarrow> out \<noteq> [] \<Longrightarrow> fst (last out) < wr_index r"
  shows "scan_lines cd lne n (map (cd_enc cd) rs @ ls) out torn =
    scan_lines cd lne (n + length rs) ls (out @ scanned cd rs) torn"
  using assms(2,3)
proof (induction rs arbitrary: n out)
  case (Cons r rs)
  have r: "\<not> (out \<noteq> [] \<and> wr_index r \<le> fst (last out))" using Cons.prems(2) [of r] by auto
  have "rising rs" "\<And>s. s \<in> set rs \<Longrightarrow> wr_index r < wr_index s"
    using Cons.prems(1) by (auto simp: rising_def)
  then show ?case
    using Cons.IH [of "out @ [(wr_index r, cd_enc cd r)]" "n + 1"] r
    by (auto simp: enc_not_blank [OF assms(1)] codec_index [OF assms(1)] scanned_def)
qed (simp add: scanned_def)

lemma rposition_last: "P x \<Longrightarrow> rposition P (xs @ [x]) = Some (length xs)"
  by (simp add: rposition_def)

text \<open>A file of complete lines, and one with the rest of a line at the end.\<close>

lemma scan_complete:
  assumes "codec_ok cd" and "rising rs"
  shows "wal_scan cd (Some (encode_all cd rs)) = Inr (scanned cd rs, False)"
proof -
  have "list_all (\<lambda>l. utf8_decode l \<noteq> None) (map (cd_enc cd) rs)"
    using codec_line(2) [OF assms(1)] by (simp add: list_all_iff)
  then show ?thesis
    using raw_lines_all [OF assms(1), of rs "[]"] scan_lines_all [OF assms, of "[]" _ 0 "[]" False]
    by (simp add: wal_scan_def Let_def)
qed

lemma scan_rest:
  assumes "codec_ok cd" and "rising (rs @ [r])" and "0 < n" and "n \<le> length (cd_enc cd r)"
    and "utf8_decode (take n (cd_enc cd r)) \<noteq> None"
  shows "wal_scan cd (Some (encode_all cd rs @ take n (cd_enc cd r))) =
    (if n = length (cd_enc cd r) then Inr (scanned cd (rs @ [r]), False) else Inr (scanned cd rs, True))"
proof -
  have rs: "rising rs" using assms(2) by (simp add: rising_append)
  define t where "t = take n (cd_enc cd r)"
  obtain x where x: "cd_enc cd r = 0x7B # x @ [0x7D]" by (rule codec_brace [OF assms(1)])
  then have "\<exists>y. t = 0x7B # y" using assms(3) unfolding t_def by (cases n) auto
  then have nb: "\<not> blank t" using brace_not_blank by blast
  have t: "t \<noteq> []" "10 \<notin> set t"
    using x assms(3) codec_line(1) [OF assms(1), of r] set_take_subset [of n "cd_enc cd r"] by (auto simp: t_def)
  have raw: "raw_lines (encode_all cd rs @ t) = map (cd_enc cd) rs @ [t]"
    unfolding raw_lines_all [OF assms(1)] using t by (simp add: raw_lines_rest)
  have lne: "rposition (\<lambda>l. \<not> blank l) (map (cd_enc cd) rs @ [t]) = Some (length rs)"
    using rposition_last [of "\<lambda>l. \<not> blank l" t "map (cd_enc cd) rs"] nb by simp
  have valid: "list_all (\<lambda>l. utf8_decode l \<noteq> None) (map (cd_enc cd) rs @ [t])"
    using codec_line(2) [OF assms(1)] assms(5) by (simp add: list_all_iff t_def)
  have s: "wal_scan cd (Some (encode_all cd rs @ t)) =
      scan_lines cd (Some (length rs)) (length rs) [t] (scanned cd rs) False"
    using valid scan_lines_all [OF assms(1) rs, of "[]" "Some (length rs)" 0 "[t]" False]
    by (simp add: wal_scan_def Let_def raw lne)
  show ?thesis
  proof (cases "n = length (cd_enc cd r)")
    case True
    then have "t = cd_enc cd r" by (simp add: t_def)
    moreover have "\<not> (scanned cd rs \<noteq> [] \<and> wr_index r \<le> fst (last (scanned cd rs)))"
      using assms(2) by (cases rs rule: rev_cases) (auto simp: scanned_def rising_def sorted_wrt_append)
    ultimately show ?thesis
      using s True nb codec_index [OF assms(1), of r] by (simp add: t_def scanned_def)
  next
    case False
    then have "cd_index cd t = None" using codec_torn [OF assms(1), of n r] assms(4) by (simp add: t_def)
    then show ?thesis using s False nb by (simp add: t_def)
  qed
qed

lemma decode_scanned: "codec_ok cd \<Longrightarrow> decode_lines cd (scanned cd rs) = Inr rs"
  by (induction rs) (simp_all add: scanned_def codec_dec)

lemma unscan: "concat (map (\<lambda>(_, l). l @ [10]) (scanned cd rs)) = encode_all cd rs"
  by (induction rs) (simp_all add: scanned_def)

lemma filter_scanned: "filter (\<lambda>(i, _). keep i) (scanned cd rs) = scanned cd (filter (\<lambda>r. keep (wr_index r)) rs)"
  by (induction rs) (simp_all add: scanned_def)

lemma length_scanned [simp]: "length (scanned cd rs) = length rs"
  by (simp add: scanned_def)

section \<open>Refinement\<close>

text \<open>The file holds the encoded records, and everything the abstract log calls synced is on disk.\<close>

definition wal_rel :: "'c codec \<Rightarrow> wal \<Rightarrow> 'c disk_log \<Rightarrow> bool" where
  "wal_rel cd w l \<longleftrightarrow> dl_inv l \<and> wl_file w = encode_all cd (dl_records l) \<and> wl_last w = dl_last l
     \<and> wl_synced w = dl_synced l \<and> wl_records w = length (dl_records l) \<and> wl_disk w \<le> length (encode_all cd (dl_records l))
     \<and> length (encode_all cd (filter (\<lambda>r. wr_index r \<le> dl_synced l) (dl_records l))) \<le> wl_disk w"

lemma length_encode_filter:
  "length (encode_all cd (filter P rs)) \<le> length (encode_all cd rs)"
  "length (encode_all cd (filter (\<lambda>r. P r \<and> Q r) rs)) \<le> length (encode_all cd (filter P rs))"
  by (induction rs) auto

lemma append_rel:
  assumes "wal_rel cd w l"
  shows "\<exists>w'. wal_append_unsynced cd r w = (fst (dl_append_unsynced r l), w') \<and> wal_rel cd w' (snd (dl_append_unsynced r l))"
proof (cases "wr_index r \<le> dl_last l")
  case True
  then show ?thesis using assms by (auto simp: wal_append_unsynced_def dl_append_unsynced_def wal_rel_def guard_def)
next
  case False
  then have "\<not> wr_index r \<le> dl_synced l" using assms by (simp add: wal_rel_def dl_inv_def)
  with False show ?thesis
    using assms dl_inv_ops(1) [of l r]
    by (simp add: wal_append_unsynced_def dl_append_unsynced_def wal_rel_def guard_def)
qed

lemma sync_rel: "wal_rel cd w l \<Longrightarrow> wal_rel cd (wal_sync w) (dl_sync l)"
  using dl_inv_ops(2) [of l]
  by (auto simp: wal_sync_def wal_rel_def dl_sync_def length_encode_filter max_def dl_inv_def)

lemma rewrite_rel:
  assumes "codec_ok cd" and "wal_rel cd w l"
  shows "\<exists>n w'. wal_rewrite cd keep w = Inr (n, w') \<and> n = length (dl_records l) - length (dl_records (dl_rewrite keep l))
    \<and> wal_rel cd w' (dl_rewrite keep l)"
proof -
  let ?l = "dl_rewrite keep l"
  have "rising (dl_records l)" using assms(2) by (simp add: wal_rel_def dl_inv_def)
  then have s: "wal_scan cd (Some (wl_file w)) = Inr (scanned cd (dl_records l), False)"
    using scan_complete [OF assms(1)] assms(2) by (simp add: wal_rel_def)
  have "dl_inv ?l" using assms(2) by (auto simp: wal_rel_def dl_inv_def dl_rewrite_def rising_filter)
  then show ?thesis
    using assms(2) unfolding wal_rewrite_def s rbind_simps prod.case Let_def filter_scanned unscan
    by (auto simp: wal_rel_def dl_rewrite_def length_encode_filter)
qed

lemma all_synced: "dl_inv l \<Longrightarrow> dl_last l \<le> i \<Longrightarrow> filter (\<lambda>r. wr_index r \<le> i) (dl_records l) = dl_records l"
  by (auto simp: dl_inv_def intro!: filter_True)

lemma floor_rel:
  assumes "wal_rel cd w l" and "dl_synced l = dl_last l"
  shows "wal_rel cd (wal_raise_floor i w) (dl_raise_floor i l)"
  using assms dl_inv_ops(3) [of l i] all_synced [of l "max (dl_last l) i"] all_synced [of l "dl_last l"]
  by (simp add: wal_rel_def wal_raise_floor_def dl_raise_floor_def)

lemma relabel_rel:
  assumes "wal_rel cd w l" and "dl_synced l = dl_last l" and "\<And>r. r \<in> set (dl_records l) \<Longrightarrow> wr_index r \<le> i"
  shows "wal_rel cd (w\<lparr>wl_last := i, wl_synced := i\<rparr>) (l\<lparr>dl_last := i, dl_synced := i\<rparr>)"
proof -
  have "filter (\<lambda>r. wr_index r \<le> i) (dl_records l) = dl_records l" using assms(3) by (auto intro!: filter_True)
  then show ?thesis
    using assms all_synced [of l "dl_last l"] by (auto simp: wal_rel_def dl_inv_def)
qed

text \<open>(C11) The log file implements the abstract log. Appending, syncing, raising the floor of a synced
  log, compacting, truncating and resetting do to the records and indexes what the abstract
  operations do, with the same errors, and replaying returns exactly the records. None of them
  fails on a file that the log wrote.\<close>

theorem wal_refines:
  assumes "codec_ok cd" and "wal_rel cd w l"
  shows "(\<exists>w'. wal_append_unsynced cd r w = (fst (dl_append_unsynced r l), w') \<and> wal_rel cd w' (snd (dl_append_unsynced r l)))
    \<and> (\<exists>w'. wal_append cd r w = (fst (dl_append r l), w') \<and> wal_rel cd w' (snd (dl_append r l)))
    \<and> wal_rel cd (wal_sync w) (dl_sync l)
    \<and> (dl_synced l = dl_last l \<longrightarrow> wal_rel cd (wal_raise_floor i w) (dl_raise_floor i l))
    \<and> (\<exists>n w'. wal_compact_through cd i w = Inr (n, w') \<and> wal_rel cd w' (dl_compact_through i l))
    \<and> (\<exists>n w'. wal_truncate_after cd i w = Inr (n, w') \<and> wal_rel cd w' (dl_truncate_after i l))
    \<and> (\<exists>w'. wal_reset cd i w = Inr w' \<and> wal_rel cd w' (dl_reset i l))
    \<and> wal_replay cd w = Inr (dl_records l)"
proof -
  have a: "\<exists>w'. wal_append_unsynced cd r w = (fst (dl_append_unsynced r l), w') \<and> wal_rel cd w' (snd (dl_append_unsynced r l))"
    by (rule append_rel [OF assms(2)])
  then have "\<exists>w'. wal_append cd r w = (fst (dl_append r l), w') \<and> wal_rel cd w' (snd (dl_append r l))"
    by (cases "dl_append_unsynced r l"; cases "fst (dl_append_unsynced r l)")
      (auto simp: wal_append_def dl_append_def intro: sync_rel)
  moreover have "\<exists>n w'. wal_truncate_after cd i w = Inr (n, w') \<and> wal_rel cd w' (dl_truncate_after i l)"
    and "\<exists>w'. wal_reset cd i w = Inr w' \<and> wal_rel cd w' (dl_reset i l)"
    using rewrite_rel [OF assms, of "\<lambda>k. k \<le> i"] rewrite_rel [OF assms, of "\<lambda>_. False"]
    by (auto simp: wal_truncate_after_def wal_reset_def dl_truncate_after_def dl_reset_def
        intro!: relabel_rel) (simp_all add: dl_rewrite_def)
  moreover have "wal_replay cd w = Inr (dl_records l)"
    using scan_complete [OF assms(1), of "dl_records l"] decode_scanned [OF assms(1), of "dl_records l"] assms(2)
    by (simp add: wal_replay_def wal_rel_def dl_inv_def)
  ultimately show ?thesis
    using a sync_rel [OF assms(2)] floor_rel [OF assms(2)] rewrite_rel [OF assms, of "\<lambda>k. i < k"]
    by (auto simp: wal_compact_through_def dl_compact_through_def)
qed

section \<open>Crashes\<close>

lemma cut_file:
  assumes "n \<le> length (encode_all cd rs)"
  obtains k m where "k \<le> length rs" "n = length (encode_all cd (take k rs)) + m"
    "take n (encode_all cd rs) = encode_all cd (take k rs) @ (if m = 0 then [] else take m (cd_enc cd (rs ! k)))"
    "m \<noteq> 0 \<Longrightarrow> k < length rs \<and> m \<le> length (cd_enc cd (rs ! k))"
proof -
  have "\<exists>k m. k \<le> length rs \<and> n = length (encode_all cd (take k rs)) + m
    \<and> take n (encode_all cd rs) = encode_all cd (take k rs) @ (if m = 0 then [] else take m (cd_enc cd (rs ! k)))
    \<and> (m \<noteq> 0 \<longrightarrow> k < length rs \<and> m \<le> length (cd_enc cd (rs ! k)))"
    using assms
  proof (induction rs arbitrary: n)
    case (Cons r rs)
    show ?case
    proof (cases "n \<le> length (cd_enc cd r)")
      case True
      then show ?thesis by (intro exI [of _ 0] exI [of _ n]) auto
    next
      case False
      define n' where "n' = n - Suc (length (cd_enc cd r))"
      have n: "n = Suc (length (cd_enc cd r) + n')" and "n' \<le> length (encode_all cd rs)"
        using False Cons.prems by (auto simp: n'_def)
      from Cons.IH [OF this(2)] obtain k m where "k \<le> length rs" "n' = length (encode_all cd (take k rs)) + m"
        "take n' (encode_all cd rs) = encode_all cd (take k rs) @ (if m = 0 then [] else take m (cd_enc cd (rs ! k)))"
        "m \<noteq> 0 \<longrightarrow> k < length rs \<and> m \<le> length (cd_enc cd (rs ! k))" by blast
      then show ?thesis by (intro exI [of _ "Suc k"] exI [of _ m]) (auto simp: n)
    qed
  qed simp
  then show thesis using that by blast
qed

text \<open>Reopening a file of complete records, possibly followed by a torn one.\<close>

lemma open_complete:
  assumes "codec_ok cd" and "rising rs"
  shows "\<exists>w. wal_open cd (Some (encode_all cd rs)) = Inr w \<and> wal_rel cd w (dl_load rs)"
proof -
  have i: "(if scanned cd rs = [] then 0 else fst (last (scanned cd rs))) = (if rs = [] then 0 else wr_index (last rs))"
    by (cases rs rule: rev_cases) (simp_all add: scanned_def)
  show ?thesis
    using dl_load_inv [OF assms(2)] all_synced [OF dl_load_inv [OF assms(2)], of "dl_last (dl_load rs)"] i
    by (simp add: wal_open_def scan_complete [OF assms] Let_def wal_rel_def dl_load_def)
qed

lemma open_torn:
  assumes "codec_ok cd" and "rising (rs @ [r])" and "0 < n" and "n < length (cd_enc cd r)"
    and "utf8_decode (take n (cd_enc cd r)) \<noteq> None"
  shows "\<exists>w. wal_open cd (Some (encode_all cd rs @ take n (cd_enc cd r))) = Inr w \<and> wal_rel cd w (dl_load rs)"
proof -
  have rs: "rising rs" using assms(2) by (simp add: rising_snoc)
  note s = scan_rest [OF assms(1-3) less_imp_le [OF assms(4)] assms(5)]
  have i: "(if scanned cd rs = [] then 0 else fst (last (scanned cd rs))) = (if rs = [] then 0 else wr_index (last rs))"
    by (cases rs rule: rev_cases) (simp_all add: scanned_def)
  have f: "filter (\<lambda>(_, _). True) (scanned cd rs) = scanned cd rs" by (auto intro: filter_True)
  show ?thesis
    using dl_load_inv [OF rs] all_synced [OF dl_load_inv [OF rs], of "dl_last (dl_load rs)"] assms(4) i
    by (simp add: wal_open_def wal_rewrite_def s Let_def wal_rel_def dl_load_def f unscan)
qed

lemma open_unterminated:
  assumes "codec_ok cd" and "rising (rs @ [r])"
  shows "\<exists>w. wal_open cd (Some (encode_all cd rs @ cd_enc cd r)) = Inr w \<and> wl_file w = encode_all cd rs @ cd_enc cd r
    \<and> wl_last w = wr_index r \<and> wl_synced w = wr_index r \<and> wal_replay cd w = Inr (rs @ [r])"
proof -
  have "0 < length (cd_enc cd r)" by (rule codec_brace [OF assms(1), of r]) simp
  with scan_rest [OF assms, of "length (cd_enc cd r)"] codec_line(2) [OF assms(1), of r]
  have s: "wal_scan cd (Some (encode_all cd rs @ cd_enc cd r)) = Inr (scanned cd (rs @ [r]), False)" by simp
  have "fst (last (scanned cd (rs @ [r]))) = wr_index r" "scanned cd (rs @ [r]) \<noteq> []" by (simp_all add: scanned_def)
  then show ?thesis
    using decode_scanned [OF assms(1), of "rs @ [r]"] by (simp add: wal_open_def wal_replay_def s Let_def)
qed

lemma replay_rel: "codec_ok cd \<Longrightarrow> wal_rel cd w l \<Longrightarrow> wal_replay cd w = Inr (dl_records l)"
  using scan_complete [of cd "dl_records l"] decode_scanned [of cd "dl_records l"]
  by (simp add: wal_replay_def wal_rel_def dl_inv_def)

lemma synced_kept:
  assumes "wal_rel cd w l" and "wl_disk w \<le> length (encode_all cd (take k (dl_records l))) + m"
    and "m \<noteq> 0 \<Longrightarrow> k < length (dl_records l) \<and> m \<le> length (cd_enc cd (dl_records l ! k))"
    and "r \<in> set (dl_records l)" and "wr_index r \<le> dl_synced l"
  shows "r \<in> set (take k (dl_records l))"
proof -
  let ?rs = "dl_records l"
  have "rising ?rs" using assms(1) by (simp add: wal_rel_def dl_inv_def)
  then obtain j where j: "filter (\<lambda>r. wr_index r \<le> dl_synced l) ?rs = take j ?rs" using rising_filter_prefix by blast
  have "r \<in> set (filter (\<lambda>r. wr_index r \<le> dl_synced l) ?rs)" using assms(4,5) by simp
  then have "r \<in> set (take j ?rs)" unfolding j .
  moreover have "take j ?rs = take k (take j ?rs) \<or> k < length ?rs \<and> k < j"
    by (cases "k < j \<and> k < length ?rs") (auto simp: min_def)
  moreover have False if "k < length ?rs" "k < j"
  proof -
    have "take j ?rs = take k ?rs @ ?rs ! k # take (j - Suc k) (drop (Suc k) ?rs)"
      using that by (metis Cons_nth_drop_Suc add_diff_inverse_nat append_take_drop_id less_or_eq_imp_le not_less_eq
          take_Suc_Cons take_add Suc_diff_Suc not_less)
    then have "length (encode_all cd (take k ?rs)) + length (cd_enc cd (?rs ! k)) < length (encode_all cd (take j ?rs))" by simp
    also have "\<dots> \<le> wl_disk w" using assms(1) unfolding wal_rel_def j by simp
    finally show False using assms(2,3) by (cases "m = 0") auto
  qed
  ultimately show ?thesis by (metis in_set_takeD take_take min.commute)
qed

text \<open>A codec for the witnesses: counters in unary, with a mark after the opening brace.\<close>

definition sample_enc :: "byte list \<Rightarrow> unit wal_record \<Rightarrow> byte list" where
  "sample_enc mark r = 0x7B # (mark @ replicate (wr_term r) 0x61 @ 0x2C # replicate (wr_index r) 0x62) @ [0x7D]"

definition sample_dec :: "byte list \<Rightarrow> byte list \<Rightarrow> unit wal_record option" where
  "sample_dec mark bs =
     (let r = \<lparr>wr_term = length (filter (\<lambda>b. b = 0x61) bs), wr_index = length (filter (\<lambda>b. b = 0x62) bs), wr_command = ()\<rparr>
      in if bs = sample_enc mark r then Some r else None)"

definition sample_codec :: "byte list \<Rightarrow> unit codec" where
  "sample_codec mark = \<lparr>cd_enc = sample_enc mark, cd_dec = sample_dec mark,
     cd_index = (\<lambda>bs. map_option wr_index (sample_dec mark bs))\<rparr>"

definition sample_rec :: "nat \<Rightarrow> unit wal_record" where
  "sample_rec i = \<lparr>wr_term = 1, wr_index = i, wr_command = ()\<rparr>"

lemma filter_replicate: "filter P (replicate n x) = (if P x then replicate n x else [])"
  by (induction n) auto

lemma sample_codec_ok:
  assumes "mark = [] \<or> mark = [0xC3, 0xA9]"
  shows "codec_ok (sample_codec mark)"
proof -
  have no: "0x61 \<notin> set mark" "0x62 \<notin> set mark" "0x7D \<notin> set mark" "10 \<notin> set mark" using assms by auto
  then have f: "filter (\<lambda>b. b = 0x61) mark = []" "filter (\<lambda>b. b = 0x62) mark = []" by (auto simp: filter_empty_conv)
  have dec: "sample_dec mark (sample_enc mark r) = Some r" for r
    using f by (simp add: sample_dec_def sample_enc_def filter_replicate)
  have enc: "sample_dec mark bs = Some r \<Longrightarrow> bs = sample_enc mark r" for bs r
    by (auto simp: sample_dec_def Let_def split: if_splits)
  have last: "0x7D \<notin> set (butlast (sample_enc mark r))" for r
    using no by (auto simp: sample_enc_def butlast_append)
  have torn: "sample_dec mark (take n (sample_enc mark r)) = None" if "n < length (sample_enc mark r)" for n r
  proof (rule ccontr)
    assume "sample_dec mark (take n (sample_enc mark r)) \<noteq> None"
    then obtain q where "take n (sample_enc mark r) = sample_enc mark q" using enc by blast
    then have "0x7D \<in> set (take n (sample_enc mark r))" by (simp add: sample_enc_def)
    moreover have "set (take n (sample_enc mark r)) \<subseteq> set (butlast (sample_enc mark r))"
      unfolding butlast_conv_take using that by (intro set_take_subset_set_take) simp
    ultimately show False using last by blast
  qed
  have two: "sample_dec mark (sample_enc mark r @ sample_enc mark q) = None" for r q
  proof (rule ccontr)
    assume "sample_dec mark (sample_enc mark r @ sample_enc mark q) \<noteq> None"
    then obtain p where "sample_enc mark r @ sample_enc mark q = sample_enc mark p" using enc by blast
    then have "butlast (sample_enc mark p) = sample_enc mark r @ butlast (sample_enc mark q)"
      by (metis butlast_append sample_enc_def list.distinct(1))
    then show False using last [of p] by (simp add: sample_enc_def)
  qed
  have "utf8_decode (replicate m 0x61 @ 0x2C # replicate n 0x62 @ [0x7D]) \<noteq> None" for m n
    by (subst utf8_ascii) (auto simp: ascii_def)
  then have "utf8_decode (sample_enc mark r) \<noteq> None" for r
    using assms by (auto simp: sample_enc_def cont_def)
  moreover have "10 \<notin> set (sample_enc mark r)" "\<exists>bs. sample_enc mark r = 0x7B # bs @ [0x7D]" for r
    using no by (auto simp: sample_enc_def)
  ultimately show ?thesis
    unfolding codec_ok_def sample_codec_def by (simp add: dec torn two del: ex_simps)
qed

lemma sample_ascii: "ascii (sample_enc [] r)"
  by (auto simp: ascii_def sample_enc_def)

definition sample_log :: "unit disk_log" where
  "sample_log = \<lparr>dl_records = [sample_rec 1, sample_rec 2], dl_last = 2, dl_synced = 1\<rparr>"

definition sample_wal :: "byte list \<Rightarrow> wal" where
  "sample_wal mark = snd (wal_append_unsynced (sample_codec mark) (sample_rec 2)
     (snd (wal_append (sample_codec mark) (sample_rec 1)
       \<lparr>wl_file = [], wl_disk = 0, wl_last = 0, wl_synced = 0, wl_records = 0\<rparr>)))"

lemma sample_wal_rel: "wal_rel (sample_codec mark) (sample_wal mark) sample_log"
  by (simp add: wal_rel_def sample_wal_def wal_append_def wal_append_unsynced_def wal_sync_def guard_def sample_log_def
      sample_rec_def dl_inv_def rising_def)

theorem wal_refines_witness:
  "wal_replay (sample_codec []) (sample_wal []) = Inr [sample_rec 1, sample_rec 2]
    \<and> wal_rel (sample_codec []) (wal_sync (sample_wal [])) (dl_sync sample_log)"
  using wal_refines [OF sample_codec_ok sample_wal_rel, of "[]"] by (simp add: sample_log_def)



text \<open>(C35) When a crash cuts the file right before the newline of its last record, opening it accepts
  the record but leaves the file without the newline. The next append, which is synced and
  acknowledged, then shares its line, and the following restart drops both records as torn.\<close>

theorem unterminated_record_swallows_next:
  assumes "codec_ok cd" and "rising (rs @ [r])" and "wr_index r < wr_index s"
  shows "\<exists>w w2 w3. wal_open cd (Some (encode_all cd rs @ cd_enc cd r)) = Inr w \<and> wal_replay cd w = Inr (rs @ [r])
    \<and> wal_append cd s w = (Inr (), w2) \<and> wl_synced w2 = wr_index s \<and> wl_disk w2 = length (wl_file w2)
    \<and> wal_open cd (Some (wl_file w2)) = Inr w3 \<and> wal_replay cd w3 = Inr rs"
proof -
  let ?l = "cd_enc cd r @ cd_enc cd s"
  have rs: "rising rs" using assms(2) by (simp add: rising_snoc)
  obtain w where w: "wal_open cd (Some (encode_all cd rs @ cd_enc cd r)) = Inr w" "wl_file w = encode_all cd rs @ cd_enc cd r"
    "wl_last w = wr_index r" "wl_synced w = wr_index r" "wal_replay cd w = Inr (rs @ [r])"
    using open_unterminated [OF assms(1,2)] by blast
  define w2 where "w2 = snd (wal_append cd s w)"
  have w2: "wal_append cd s w = (Inr (), w2)" "wl_file w2 = encode_all cd rs @ ?l @ [10]"
    "wl_synced w2 = wr_index s" "wl_disk w2 = length (wl_file w2)"
    using assms(3) w by (simp_all add: w2_def wal_append_def wal_append_unsynced_def wal_sync_def guard_def)
  have l: "10 \<notin> set ?l" "strip_cr ?l = ?l"
    using codec_line(1) [OF assms(1)] by (auto intro: codec_brace [OF assms(1), of s] simp: strip_cr_def)
  have "\<exists>y. ?l = 0x7B # y" by (rule codec_brace [OF assms(1), of r]) simp
  then have nb: "\<not> blank ?l" using brace_not_blank by metis
  have u: "utf8_decode ?l \<noteq> None" using codec_line(2) [OF assms(1)] by (intro utf8_append)
  have raw: "raw_lines (encode_all cd rs @ ?l @ [10]) = map (cd_enc cd) rs @ [?l]"
    unfolding raw_lines_all [OF assms(1)] using raw_lines_line [OF l(1), of "[]"] l(2) by simp
  have lne: "rposition (\<lambda>l. \<not> blank l) (map (cd_enc cd) rs @ [?l]) = Some (length rs)"
    using rposition_last [of "\<lambda>l. \<not> blank l" ?l "map (cd_enc cd) rs"] nb by simp
  have s: "wal_scan cd (Some (wl_file w2)) = Inr (scanned cd rs, True)"
    using u codec_line(2) [OF assms(1)] nb codec_two [OF assms(1), of r s]
      scan_lines_all [OF assms(1) rs, of "[]" "Some (length rs)" 0 "[?l]" False]
    unfolding wal_scan_def w2(2) Let_def option.case raw lne by (simp add: list_all_iff)
  have f: "filter (\<lambda>(_, _). True) (scanned cd rs) = scanned cd rs" by (auto intro: filter_True)
  obtain w3 where "wal_open cd (Some (wl_file w2)) = Inr w3" "wl_file w3 = encode_all cd rs"
    by (simp add: wal_open_def wal_rewrite_def s Let_def f unscan)
  moreover have "wal_replay cd w3 = Inr rs" if "wl_file w3 = encode_all cd rs" for w3
    using that scan_complete [OF assms(1) rs] decode_scanned [OF assms(1), of rs] by (simp add: wal_replay_def)
  ultimately show ?thesis using w w2 by blast
qed

theorem unterminated_record_swallows_next_witness:
  "\<exists>w w2. wal_open (sample_codec []) (Some (sample_enc [] (sample_rec 1))) = Inr w
    \<and> wal_append (sample_codec []) (sample_rec 2) w = (Inr (), w2) \<and> wl_synced w2 = 2
    \<and> (\<exists>w3. wal_open (sample_codec []) (Some (wl_file w2)) = Inr w3 \<and> wal_replay (sample_codec []) w3 = Inr [])"
proof -
  have "rising ([] @ [sample_rec 1])" "wr_index (sample_rec 1) < wr_index (sample_rec 2)" by (simp_all add: sample_rec_def)
  from unterminated_record_swallows_next [OF sample_codec_ok this, of "[]"]
  show ?thesis by (auto simp: sample_codec_def sample_rec_def)
qed

text \<open>(C36) A record cut in the middle of a multi-byte character makes the log unreadable: opening it
  fails with an input error instead of dropping the torn record.\<close>

theorem torn_character_blocks_open:
  assumes "codec_ok cd" and "n < length (cd_enc cd r)" and "utf8_decode (take n (cd_enc cd r)) = None"
  shows "wal_open cd (Some (encode_all cd rs @ take n (cd_enc cd r))) = Inl WalIo"
proof -
  have "take n (cd_enc cd r) \<noteq> []" using assms(3) by (cases "take n (cd_enc cd r)") auto
  moreover have "10 \<notin> set (take n (cd_enc cd r))"
    using codec_line(1) [OF assms(1), of r] set_take_subset [of n "cd_enc cd r"] by blast
  ultimately have "raw_lines (encode_all cd rs @ take n (cd_enc cd r)) = map (cd_enc cd) rs @ [take n (cd_enc cd r)]"
    unfolding raw_lines_all [OF assms(1)] by (simp add: raw_lines_rest)
  then show ?thesis using assms(3) by (simp add: wal_open_def wal_scan_def)
qed

theorem torn_character_blocks_open_witness:
  "wal_open (sample_codec [0xC3, 0xA9]) (Some (take 2 (sample_enc [0xC3, 0xA9] (sample_rec 1)))) = Inl WalIo"
proof -
  have "2 < length (cd_enc (sample_codec [0xC3, 0xA9]) (sample_rec 1))"
    "utf8_decode (take 2 (cd_enc (sample_codec [0xC3, 0xA9]) (sample_rec 1))) = None"
    by (simp_all add: sample_codec_def sample_enc_def)
  from torn_character_blocks_open [OF sample_codec_ok this, of "[]"] show ?thesis by (simp add: sample_codec_def)
qed

end
