(* ===== verification/RaftTypes.thy ===== *)
theory RaftTypes
  imports WalSpec Metadata
begin

text \<open>
  The data of the Raft node (\<open>crates/atlas-native/src/raft.rs\<close>) and of the snapshot transfer
  (\<open>raft_snapshot.rs\<close>): messages, configuration, errors, the chunks of a snapshot, and the node's
  state. Terms, indexes, ticks and counters are natural numbers; they count single steps. What
  is on disk is part of the state: the log (\<open>rn_wal\<close>), the checkpointed catalog (\<open>rn_store\<close>) and
  the vote (\<open>rn_disk_hard\<close>).
\<close>

type_synonym entry = "meta_command wal_record"

text \<open>\<open>RaftDiverge\<close> is no error of the code: it stands for a loop that does not end.\<close>

datatype raft_error =
    RaftIo
  | RaftJson
  | RaftWal wal_error
  | NotLeader "node_id option"
  | Rejected meta_error
  | BadConfig
  | Inconsistent
  | LeadershipLost nat
  | TimedOut nat
  | ShutDown
  | TermChanged nat nat
  | MembershipBusy
  | RaftDiverge

record raft_config =
  cf_id :: node_id
  cf_peers :: "node_id list"
  cf_bootstrap :: "node_id list option"
  cf_election_lo :: nat
  cf_election_hi :: nat
  cf_heartbeat_ticks :: nat
  cf_max_batch :: nat
  cf_compact_after :: nat

datatype role = Follower | PreCandidate | Candidate | Leader

section \<open>Snapshot transfer\<close>

datatype snapshot_chunk =
    Header catalog
  | ExtentsChunk "(extent_id \<times> extent_meta) list"
  | InodesChunk string "inode list"
  | DoneChunk

datatype cursor =
    ExtentsAfter "extent_id option"
  | InodesFrom nat nat
  | AtDone
  | AtEnd

record outgoing =
  og_index :: nat
  og_seq :: nat
  og_sent_at :: nat
  og_chunk :: snapshot_chunk
  og_catalog :: catalog
  og_filesystems :: "string list"
  og_next :: cursor

record incoming =
  ic_index :: nat
  ic_seq :: nat
  ic_catalog :: catalog

section \<open>Messages\<close>

datatype message =
    PreVote (msg_term: nat) (pv_last_log_index: nat) (pv_last_log_term: nat)
  | PreVoteResponse (msg_term: nat) (pvr_granted: bool)
  | RequestVote (msg_term: nat) (rv_last_log_index: nat) (rv_last_log_term: nat)
  | RequestVoteResponse (msg_term: nat) (rvr_granted: bool)
  | AppendEntries (msg_term: nat) (ae_prev_log_index: nat) (ae_prev_log_term: nat) (ae_entries: "entry list")
      (ae_leader_commit: nat) (ae_read_seq: nat)
  | AppendEntriesResponse (msg_term: nat) (aer_success: bool) (aer_match_index: nat) (aer_read_seq: nat)
  | InstallSnapshot (msg_term: nat) (is_index: nat) (is_seq: nat) (is_chunk: snapshot_chunk)
  | InstallSnapshotResponse (msg_term: nat) (isr_match_index: nat) (isr_ack: "nat option")
  | ReadIndex (msg_term: nat) (ri_id: nat)
  | ReadIndexResponse (msg_term: nat) (rir_id: nat) (rir_index: "nat option")

fun is_response :: "message \<Rightarrow> bool" where
  "is_response (PreVoteResponse _ _) \<longleftrightarrow> True"
| "is_response (RequestVoteResponse _ _) \<longleftrightarrow> True"
| "is_response (AppendEntriesResponse _ _ _ _) \<longleftrightarrow> True"
| "is_response (InstallSnapshotResponse _ _ _) \<longleftrightarrow> True"
| "is_response (ReadIndexResponse _ _ _) \<longleftrightarrow> True"
| "is_response _ \<longleftrightarrow> False"

record envelope =
  en_from :: node_id
  en_to :: node_id
  en_group :: nat
  en_msg :: message

section \<open>The node\<close>

record hard_state =
  h_term :: nat
  h_voted_for :: "node_id option"

record raft_counters =
  ct_elections :: nat
  ct_leader_terms :: nat
  ct_append_rejections :: nat

record pending_read =
  pr_seq :: nat
  pr_index :: nat
  pr_from :: "node_id option"
  pr_id :: nat
  pr_acks :: "node_id fset"

record raft_node =
  rn_cfg :: raft_config
  rn_membership :: membership
  rn_initial :: membership
  rn_counters :: raft_counters
  rn_role :: role
  rn_hard :: hard_state
  rn_leader :: "node_id option"
  rn_log :: "entry list"
  rn_snapshot_index :: nat
  rn_snapshot_term :: nat
  rn_commit_index :: nat
  rn_catalog :: catalog
  rn_spec :: "catalog option"
  rn_wal :: "meta_command disk_log"
  rn_store :: "catalog option"
  rn_disk_hard :: "hard_state option"
  rn_votes :: "node_id fset"
  rn_next_index :: "(node_id, nat) btree"
  rn_match_index :: "(node_id, nat) btree"
  rn_recent_active :: "node_id fset"
  rn_check_quorum_elapsed :: nat
  rn_election_elapsed :: nat
  rn_election_timeout :: nat
  rn_heartbeat_elapsed :: nat
  rn_ticks :: nat
  rn_outgoing :: "(node_id, outgoing) btree"
  rn_incoming :: "incoming option"
  rn_rng :: "64 word"
  rn_outbox :: "envelope list"
  rn_read_seq :: nat
  rn_pending_reads :: "pending_read list"
  rn_next_read_id :: nat
  rn_read_results :: "(nat, nat option) btree"

type_synonym 'a raft = "(raft_error + 'a) \<times> raft_node"

text \<open>What a node finds when it starts.\<close>

record raft_disk =
  dk_hard :: "hard_state option"
  dk_store :: "catalog option"
  dk_legacy :: "catalog option"
  dk_wal :: "entry list"

end
