(* ===== verification/RaftSnapshot.thy ===== *)
theory RaftSnapshot
  imports RaftTypes
begin

text \<open>
  Snapshot transfer in chunks (\<open>crates/atlas-native/src/raft_snapshot.rs\<close>): a header, pages of
  extents, pages of each filesystem's inodes, and an end mark. The theorem at the end says that a
  complete transfer rebuilds the leader's catalog, whatever the page sizes.
\<close>

definition CHUNK_INODES :: nat where "CHUNK_INODES = 1024"
definition CHUNK_EXTENTS :: nat where "CHUNK_EXTENTS = 4096"

section \<open>Sending\<close>

definition snapshot_header :: "catalog \<Rightarrow> catalog" where
  "snapshot_header c = c\<lparr>extents := bempty, filesystems := bmap (\<lambda>_ f. f\<lparr>fs_inodes := bempty\<rparr>) (filesystems c)\<rparr>"

definition outgoing_start :: "catalog \<Rightarrow> nat \<Rightarrow> outgoing" where
  "outgoing_start c now =
     \<lparr>og_index = applied_index c, og_seq = 0, og_sent_at = now, og_chunk = Header (snapshot_header c),
      og_catalog = c, og_filesystems = bkeys (filesystems c), og_next = ExtentsAfter None\<rparr>"

definition is_done :: "outgoing \<Rightarrow> bool" where
  "is_done o1 \<longleftrightarrow> og_chunk o1 = DoneChunk"

definition extents_page :: "catalog \<Rightarrow> extent_id option \<Rightarrow> (extent_id \<times> extent_meta) list" where
  "extents_page c after =
     take CHUNK_EXTENTS (filter (\<lambda>(k, _). case after of None \<Rightarrow> True | Some a \<Rightarrow> a < k) (bitems (extents c)))"

definition inodes_page :: "catalog \<Rightarrow> string \<Rightarrow> nat \<Rightarrow> inode list" where
  "inodes_page c fs from_ino = (case bget (filesystems c) fs of
       Some f \<Rightarrow> take CHUNK_INODES (bvals (bfrom from_ino (fs_inodes f)))
     | None \<Rightarrow> [])"

text \<open>The loop of \<open>advance\<close>: the next chunk and what follows it, or nothing at the end.\<close>

fun cursor_rank :: "nat \<Rightarrow> cursor \<Rightarrow> nat" where
  "cursor_rank n (ExtentsAfter _) = n + 3"
| "cursor_rank n (InodesFrom k _) = (n - k) + 2"
| "cursor_rank n AtDone = 1"
| "cursor_rank n AtEnd = 0"

function next_chunk :: "catalog \<Rightarrow> string list \<Rightarrow> cursor \<Rightarrow> (snapshot_chunk \<times> cursor) option" where
  "next_chunk c fss (ExtentsAfter after) =
     (let page = extents_page c after
      in if page = [] then next_chunk c fss (InodesFrom 0 0)
         else Some (ExtentsChunk page, ExtentsAfter (Some (fst (last page)))))"
| "next_chunk c fss (InodesFrom k from_ino) =
     (if k < length fss then
        let page = inodes_page c (fss ! k) from_ino;
            next = (if page \<noteq> [] \<and> length page = CHUNK_INODES then InodesFrom k (i_ino (last page) + 1)
                    else InodesFrom (k + 1) 0)
        in if page = [] then next_chunk c fss next else Some (InodesChunk (fss ! k) page, next)
      else next_chunk c fss AtDone)"
| "next_chunk c fss AtDone = Some (DoneChunk, AtEnd)"
| "next_chunk c fss AtEnd = None"
  by pat_completeness auto
termination
  by (relation "measure (\<lambda>(c, fss, cur). cursor_rank (length fss) cur)") (auto simp: Let_def)

definition advance :: "nat \<Rightarrow> outgoing \<Rightarrow> outgoing" where
  "advance now o1 = (case next_chunk (og_catalog o1) (og_filesystems o1) (og_next o1) of
       Some (chunk, next) \<Rightarrow> o1\<lparr>og_chunk := chunk, og_next := next, og_seq := og_seq o1 + 1, og_sent_at := now\<rparr>
     | None \<Rightarrow> o1\<lparr>og_next := AtEnd\<rparr>)"

section \<open>Staging\<close>

definition incoming_start :: "nat \<Rightarrow> catalog \<Rightarrow> incoming" where
  "incoming_start index header = \<lparr>ic_index = index, ic_seq = 0, ic_catalog = header\<rparr>"

fun stage :: "snapshot_chunk \<Rightarrow> incoming \<Rightarrow> (raft_error + unit) \<times> incoming" where
  "stage (ExtentsChunk xs) i =
     (Inr (), i\<lparr>ic_catalog := (ic_catalog i)\<lparr>extents := bextend (extents (ic_catalog i)) xs\<rparr>\<rparr>)"
| "stage (InodesChunk fs is) i = (case bget (filesystems (ic_catalog i)) fs of
       None \<Rightarrow> (Inl RaftIo, i)
     | Some f \<Rightarrow> (Inr (), i\<lparr>ic_catalog := (ic_catalog i)\<lparr>filesystems :=
         bput fs (f\<lparr>fs_inodes := bextend (fs_inodes f) (map (\<lambda>j. (i_ino j, j)) is)\<rparr>) (filesystems (ic_catalog i))\<rparr>\<rparr>))"
| "stage _ i = (Inl RaftIo, i)"

section \<open>Pages\<close>

lemma bget_bextend:
  "distinct (map fst kvs) \<Longrightarrow> bget (bextend m kvs) k = (case map_of kvs k of Some v \<Rightarrow> Some v | None \<Rightarrow> bget m k)"
proof (induction m kvs rule: bextend.induct)
  case (2 m k' v kvs)
  have "map_of kvs k' = None" using 2(2) by (simp add: map_of_eq_None_iff)
  with 2 show ?case by (auto split: option.split)
qed simp

lemma sorted_take_upto:
  assumes "sorted_wrt (<) (map fst xs)" and "take n xs \<noteq> []"
  shows "set (take n xs) = {x \<in> set xs. fst x \<le> (fst (last (take n xs)) :: 'k::linorder)}"
proof -
  let ?l = "last (take n xs)"
  have split: "sorted_wrt (<) (map fst (take n xs) @ map fst (drop n xs))"
    using assms(1) by (simp flip: map_append)
  obtain ys l where ys: "take n xs = ys @ [l]" using assms(2) by (cases "take n xs" rule: rev_cases) auto
  then have "fst x \<le> fst ?l" if "x \<in> set (take n xs)" for x
    using split that by (auto simp: sorted_wrt_append less_imp_le)
  moreover have "fst ?l < fst x" if "x \<in> set (drop n xs)" for x
    using split that assms(2) last_in_set [OF assms(2)] by (auto simp: sorted_wrt_append)
  moreover have "set xs = set (take n xs) \<union> set (drop n xs)" by (metis append_take_drop_id set_append)
  ultimately show ?thesis by (fastforce dest: leD)
qed

text \<open>Inserting the next page into what is already there.\<close>

lemma extend_page:
  fixes m :: "('k::linorder, 'v) btree"
  assumes page: "page = take n (filter (\<lambda>(k, _). P k) (bitems m))" and "page \<noteq> []"
    and up: "\<forall>k k'. k < k' \<longrightarrow> P k \<longrightarrow> P k'"
  shows "bextend (bretain (\<lambda>k _. \<not> P k) m) page = bretain (\<lambda>k _. \<not> P k \<or> k \<le> fst (last page)) m"
    and "P (fst (last page))" and "length page < n \<Longrightarrow> bget m k \<noteq> None \<Longrightarrow> P k \<Longrightarrow> k \<le> fst (last page)"
proof -
  let ?xs = "filter (\<lambda>(k, _). P k) (bitems m)"
  have sorted: "sorted_wrt (<) (map fst ?xs)"
    using sorted_bitems [of m] by (simp add: sorted_wrt_map sorted_wrt_filter)
  have keys: "set page = {x \<in> set ?xs. fst x \<le> fst (last page)}"
    using sorted_take_upto [OF sorted, of n] assms(1,2) by simp
  have "distinct (map fst ?xs)" using sorted by (simp add: strict_sorted_iff)
  then have d: "distinct (map fst page)" unfolding page by (simp add: take_map [symmetric] distinct_take)
  have mem: "(k, v) \<in> set page \<longleftrightarrow> bget m k = Some v \<and> P k \<and> k \<le> fst (last page)" for k v
    by (auto simp: keys bget_Some_iff)
  show l: "P (fst (last page))"
    using last_in_set [OF assms(2)] mem [of "fst (last page)" "snd (last page)"] by simp
  show "bextend (bretain (\<lambda>k _. \<not> P k) m) page = bretain (\<lambda>k _. \<not> P k \<or> k \<le> fst (last page)) m"
  proof (rule btree_eqI)
    fix k
    show "bget (bextend (bretain (\<lambda>k _. \<not> P k) m) page) k = bget (bretain (\<lambda>k _. \<not> P k \<or> k \<le> fst (last page)) m) k"
    proof (cases "map_of page k")
      case None
      then have "(k, v) \<notin> set page" for v by (auto simp: map_of_eq_None_iff rev_image_eqI)
      then have "P k \<and> k \<le> fst (last page) \<longrightarrow> bget m k = None" using mem by (cases "bget m k") auto
      then show ?thesis using None d by (auto simp: bget_bextend bget_bretain split: option.split)
    next
      case (Some v)
      then show ?thesis using d mem [of k v] map_of_SomeD [OF Some] by (auto simp: bget_bextend bget_bretain)
    qed
  qed
  show "k \<le> fst (last page)" if "length page < n" "bget m k \<noteq> None" "P k"
  proof -
    note h = that
    have "page = ?xs" using h(1) unfolding page by (cases "n \<le> length ?xs") auto
    moreover obtain v where "bget m k = Some v" using h(2) by auto
    ultimately have "(k, v) \<in> set page" using h(3) by (simp add: bget_Some_iff)
    then show ?thesis using mem by blast
  qed
qed

section \<open>What is staged at a cursor\<close>

definition part_inodes :: "string list \<Rightarrow> nat \<Rightarrow> nat \<Rightarrow> string \<Rightarrow> fs_meta \<Rightarrow> fs_meta" where
  "part_inodes fss k from_ino fs f =
     (if fs \<in> set (take k fss) then f
      else if k < length fss \<and> fs = fss ! k then f\<lparr>fs_inodes := bbelow from_ino (fs_inodes f)\<rparr>
      else f\<lparr>fs_inodes := bempty\<rparr>)"

fun staged :: "catalog \<Rightarrow> string list \<Rightarrow> cursor \<Rightarrow> catalog" where
  "staged c fss (ExtentsAfter a) =
     (snapshot_header c)\<lparr>extents := bretain (\<lambda>k _. \<not> (case a of None \<Rightarrow> True | Some a \<Rightarrow> a < k)) (extents c)\<rparr>"
| "staged c fss (InodesFrom k from_ino) = c\<lparr>filesystems := bmap (part_inodes fss k from_ino) (filesystems c)\<rparr>"
| "staged c fss _ = c"

definition keyed :: "catalog \<Rightarrow> bool" where
  "keyed c \<longleftrightarrow> (\<forall>fs f k i. bget (filesystems c) fs = Some f \<longrightarrow> bget (fs_inodes f) k = Some i \<longrightarrow> i_ino i = k)"

lemma keyed_items:
  assumes "keyed c" and "bget (filesystems c) fs = Some f"
  shows "map (\<lambda>j. (i_ino j, j)) (inodes_page c fs n) = take CHUNK_INODES (filter (\<lambda>(k, _). n \<le> k) (bitems (fs_inodes f)))"
proof -
  have "map (\<lambda>j. (i_ino j, j)) (map snd (filter (\<lambda>(k, _). n \<le> k) (bitems (fs_inodes f)))) =
      map (\<lambda>x. x) (filter (\<lambda>(k, _). n \<le> k) (bitems (fs_inodes f)))"
    unfolding map_map using assms by (intro map_cong refl) (force simp: keyed_def bget_Some_iff)
  then show ?thesis
    using assms(2) by (simp add: inodes_page_def bvals_def bfrom_def bitems_bretain take_map [symmetric] case_prod_beta)
qed

fun left :: "catalog \<Rightarrow> string list \<Rightarrow> cursor \<Rightarrow> nat \<times> nat" where
  "left c fss (ExtentsAfter a) =
     (length fss + 1, length (filter (\<lambda>(k, _). case a of None \<Rightarrow> True | Some a \<Rightarrow> a < k) (bitems (extents c))))"
| "left c fss (InodesFrom k from_ino) = (length fss - k, (if k < length fss then
     (case bget (filesystems c) (fss ! k) of None \<Rightarrow> 0 | Some f \<Rightarrow> length (filter (\<lambda>(k, _). from_ino \<le> k) (bitems (fs_inodes f))))
     else 0))"
| "left c fss _ = (0, 0)"

lemma bmap_cong:
  "(\<And>k v. bget m k = Some v \<Longrightarrow> f k v = g k v) \<Longrightarrow> bmap f m = bmap g m"
  by (rule btree_eqI) (auto intro: option.map_cong0)

lemma bmap_ident [simp]: "bmap (\<lambda>_ v. v) m = m"
  by (rule btree_eqI) (simp add: option.map_ident)

lemma bbelow_0 [simp]: "bbelow (0 :: nat) m = bempty"
  by (rule btree_eqI) simp

lemma page_shrinks:
  assumes "page = take n (filter (\<lambda>(k, _). P k) (bitems m))" and "page \<noteq> []" and "\<And>k. Q k \<Longrightarrow> P k" and "\<not> Q (fst (last page))"
  shows "length (filter (\<lambda>(k, _). Q k) (bitems m)) < length (filter (\<lambda>(k, _). P k) (bitems m))"
proof -
  let ?xs = "filter (\<lambda>(k, _). P k) (bitems m)"
  have "last page \<in> set ?xs" using last_in_set [OF assms(2)] assms(1) by (metis in_set_takeD)
  then have "filter (\<lambda>(k, _). \<not> Q k) ?xs \<noteq> []" using assms(4) by (force simp: filter_empty_conv)
  moreover have "length (filter (\<lambda>(k, _). Q k) ?xs) + length (filter (\<lambda>(k, _). \<not> Q k) ?xs) = length ?xs"
    using sum_length_filter_compl [of "\<lambda>x. Q (fst x)" ?xs] by (simp add: split_def)
  ultimately have "length (filter (\<lambda>(k, _). Q k) ?xs) < length ?xs" by (metis add_gr_0 length_greater_0_conv less_add_same_cancel1)
  moreover have "filter (\<lambda>(k, _). Q k) ?xs = filter (\<lambda>(k, _). Q k) (bitems m)"
    using assms(3) by (auto simp: filter_filter case_prod_beta intro!: filter_cong)
  ultimately show ?thesis by simp
qed

abbreviation shrinks :: "(nat \<times> nat) \<Rightarrow> (nat \<times> nat) \<Rightarrow> bool" where
  "shrinks a b \<equiv> (a, b) \<in> less_than <*lex*> less_than"

text \<open>What a chunk does to the staged catalog: it moves it on to the next cursor.\<close>

definition moves :: "catalog \<Rightarrow> string list \<Rightarrow> cursor \<Rightarrow> bool" where
  "moves c fss cur \<longleftrightarrow> (case next_chunk c fss cur of
       None \<Rightarrow> False
     | Some (chunk, next) \<Rightarrow>
         if chunk = DoneChunk then staged c fss cur = c
         else shrinks (left c fss next) (left c fss cur)
           \<and> (\<forall>i. ic_catalog i = staged c fss cur \<longrightarrow> stage chunk i = (Inr (), i\<lparr>ic_catalog := staged c fss next\<rparr>)))"

lemma shrinks_trans: "shrinks x y \<Longrightarrow> shrinks y z \<Longrightarrow> shrinks x z"
  by (cases x; cases y; cases z) auto

lemma moves_skip:
  assumes "moves c fss cur'" and "next_chunk c fss cur = next_chunk c fss cur'" and "staged c fss cur = staged c fss cur'"
    and "shrinks (left c fss cur') (left c fss cur)"
  shows "moves c fss cur"
  using assms unfolding moves_def by (auto split: option.splits prod.splits if_splits intro: shrinks_trans)

lemma moves_extents:
  assumes "moves c fss (InodesFrom 0 0)"
  shows "moves c fss (ExtentsAfter a)"
proof (cases "extents_page c a = []")
  case True
  let ?P = "\<lambda>k. case a of None \<Rightarrow> True | Some a \<Rightarrow> a < k"
  have "filter (\<lambda>(k, _). ?P k) (bitems (extents c)) = []"
    using True by (auto simp: extents_page_def CHUNK_EXTENTS_def)
  then have none: "\<not> ?P k" if "bget (extents c) k \<noteq> None" for k
    using that by (force simp: filter_empty_conv bget_Some_iff)
  have "bretain (\<lambda>k _. \<not> ?P k) (extents c) = extents c"
    using none by (intro btree_eqI) (auto simp: bget_bretain split: option.split)
  moreover have "bmap (\<lambda>_ f. f\<lparr>fs_inodes := bempty\<rparr>) (filesystems c) = bmap (part_inodes fss 0 0) (filesystems c)"
    by (intro bmap_cong) (auto simp: part_inodes_def)
  ultimately have s: "staged c fss (ExtentsAfter a) = staged c fss (InodesFrom 0 0)" by (simp add: snapshot_header_def)
  show ?thesis by (rule moves_skip [OF assms _ s]) (use True in simp_all)
next
  case False
  let ?P = "\<lambda>k. case a of None \<Rightarrow> True | Some a \<Rightarrow> a < k" and ?p = "extents_page c a"
  have up: "\<forall>k k'. k < k' \<longrightarrow> ?P k \<longrightarrow> ?P k'" by (auto split: option.splits)
  note page = extend_page [OF extents_page_def False up]
  have eq: "(\<lambda>k v. \<not> ?P k \<or> k \<le> fst (last ?p)) = (\<lambda>k v. \<not> fst (last ?p) < k)"
    using page(2) by (auto simp: fun_eq_iff not_less split: option.splits)
  have "length (filter (\<lambda>(k, _). fst (last ?p) < k) (bitems (extents c))) < length (filter (\<lambda>(k, _). ?P k) (bitems (extents c)))"
    using page(2) by (intro page_shrinks [OF extents_page_def False]) (auto split: option.splits)
  then show ?thesis using False page(1) unfolding eq by (simp add: moves_def Let_def snapshot_header_def)
qed

lemma moves_inodes:
  assumes "keyed c" and "distinct fss" and "set fss = {fs. bget (filesystems c) fs \<noteq> None}"
  shows "moves c fss (InodesFrom k n)"
proof (induction "length fss - k" arbitrary: k n rule: less_induct)
  case less
  show ?case
  proof (cases "k < length fss")
    case False
    have "bmap (part_inodes fss k n) (filesystems c) = bmap (\<lambda>_ f. f) (filesystems c)"
      using False assms(3) by (intro bmap_cong) (auto simp: part_inodes_def)
    then have s: "staged c fss (InodesFrom k n) = c" by simp
    show ?thesis using False s by (simp add: moves_def)
  next
    case True
    let ?fs = "fss ! k" and ?p = "inodes_page c (fss ! k) n"
    obtain f where f: "bget (filesystems c) ?fs = Some f" using assms(3) True nth_mem by blast
    note items = keyed_items [OF assms(1) f, of n]
    have whole: "staged c fss (InodesFrom (Suc k) 0) = c\<lparr>filesystems := bmap (part_inodes fss k m) (filesystems c)\<rparr>"
      if "bbelow m (fs_inodes f) = fs_inodes f" for m
    proof -
      have "part_inodes fss (Suc k) 0 fs g = part_inodes fss k m fs g" if "bget (filesystems c) fs = Some g" for fs g
        using True f that \<open>bbelow m (fs_inodes f) = fs_inodes f\<close> by (auto simp: take_Suc_conv_app_nth part_inodes_def)
      then have "bmap (part_inodes fss (Suc k) 0) (filesystems c) = bmap (part_inodes fss k m) (filesystems c)"
        by (rule bmap_cong)
      then show ?thesis by simp
    qed
    show ?thesis
    proof (cases "?p = []")
      case empty: True
      then have "filter (\<lambda>(k, _). n \<le> k) (bitems (fs_inodes f)) = []" using items by (simp add: CHUNK_INODES_def)
      then have "\<not> n \<le> k" if "bget (fs_inodes f) k \<noteq> None" for k
        using that by (force simp: filter_empty_conv bget_Some_iff)
      then have "bbelow n (fs_inodes f) = fs_inodes f" by (intro btree_eqI) (metis bget_bbelow not_le)
      from whole [OF this] have s: "staged c fss (InodesFrom k n) = staged c fss (InodesFrom (Suc k) 0)" by simp
      have "moves c fss (InodesFrom (Suc k) 0)" using True by (intro less) simp
      moreover have "shrinks (left c fss (InodesFrom (Suc k) 0)) (left c fss (InodesFrom k n))" using True by auto
      ultimately show ?thesis using True empty by (intro moves_skip [OF _ _ s]) simp_all
    next
      case full: False
      let ?q = "map (\<lambda>j. (i_ino j, j)) ?p"
      have q: "?q \<noteq> []" "fst (last ?q) = i_ino (last ?p)" using full by (simp_all add: last_map)
      have up: "\<forall>a b. a < b \<longrightarrow> n \<le> a \<longrightarrow> n \<le> b" by simp
      note page = extend_page [OF items q(1) up]
      let ?n = "i_ino (last ?p) + 1"
      have new: "?fs \<notin> set (take k fss)" using assms(2) True by (auto simp: distinct_conv_nth in_set_conv_nth)
      have below: "bbelow ?n (fs_inodes f) = bretain (\<lambda>j _. \<not> n \<le> j \<or> j \<le> fst (last ?q)) (fs_inodes f)"
        using page(2) q(2) by (auto simp: bbelow_def fun_eq_iff intro!: arg_cong2 [where f = bretain])
      have "bput ?fs (f\<lparr>fs_inodes := bbelow ?n (fs_inodes f)\<rparr>) (bmap (part_inodes fss k n) (filesystems c)) =
          bmap (part_inodes fss k ?n) (filesystems c)"
        using f new True by (intro btree_eqI) (auto simp: part_inodes_def intro!: option.map_cong0)
      then have st: "stage (InodesChunk ?fs ?p) i = (Inr (), i\<lparr>ic_catalog := staged c fss (InodesFrom k ?n)\<rparr>)"
        if "ic_catalog i = staged c fss (InodesFrom k n)" for i
        using that f new True page(1) below by (simp add: part_inodes_def bbelow_def not_le)
      show ?thesis
      proof (cases "length ?p = CHUNK_INODES")
        case chunk: True
        have "length (filter (\<lambda>(k, _). ?n \<le> k) (bitems (fs_inodes f))) < length (filter (\<lambda>(k, _). n \<le> k) (bitems (fs_inodes f)))"
          using page(2) q(2) by (intro page_shrinks [OF items q(1)]) auto
        then show ?thesis using st True full f chunk by (simp add: moves_def Let_def)
      next
        case False
        moreover have "length ?q \<le> CHUNK_INODES" unfolding items by simp
        ultimately have "length ?q < CHUNK_INODES" by simp
        then have "bbelow ?n (fs_inodes f) = fs_inodes f"
          using page(3) q(2) unfolding below by (intro btree_eqI) (auto simp: bget_bretain split: option.split)
        from whole [OF this] have "staged c fss (InodesFrom k ?n) = staged c fss (InodesFrom (Suc k) 0)" by simp
        note st' = st [unfolded this]
        have "next_chunk c fss (InodesFrom k n) = Some (InodesChunk ?fs ?p, InodesFrom (Suc k) 0)"
          using True full False by (simp add: Let_def)
        moreover have "shrinks (left c fss (InodesFrom (Suc k) 0)) (left c fss (InodesFrom k n))" using True by auto
        ultimately show ?thesis using st' unfolding moves_def by (simp del: stage.simps staged.simps left.simps next_chunk.simps)
      qed
    qed
  qed
qed

section \<open>Complete transfers\<close>

text \<open>A transfer from a cursor on: chunk by chunk until the end mark.\<close>

inductive transfers :: "catalog \<Rightarrow> string list \<Rightarrow> cursor \<Rightarrow> incoming \<Rightarrow> incoming \<Rightarrow> bool" for c fss where
  finished: "next_chunk c fss cur = Some (DoneChunk, cur') \<Longrightarrow> transfers c fss cur i i"
| chunk: "next_chunk c fss cur = Some (ch, cur') \<Longrightarrow> ch \<noteq> DoneChunk \<Longrightarrow> stage ch i = (Inr (), i1)
    \<Longrightarrow> transfers c fss cur' i1 i2 \<Longrightarrow> transfers c fss cur i i2"

lemma staged_moves:
  assumes "keyed c" and "fss = bkeys (filesystems c)" and "cur \<noteq> AtEnd"
  shows "moves c fss cur"
proof -
  have "distinct fss" using assms(2) distinct_bitems by (simp add: bkeys_def)
  moreover have "set fss = {fs. bget (filesystems c) fs \<noteq> None}" using assms(2) by (simp add: set_bkeys)
  ultimately have i: "moves c fss (InodesFrom k n)" for k n by (rule moves_inodes [OF assms(1)])
  then have "moves c fss (ExtentsAfter a)" for a by (intro moves_extents)
  moreover have "moves c fss AtDone" by (simp add: moves_def)
  ultimately show ?thesis using assms(3) i by (cases cur) simp_all
qed

text \<open>Every transfer ends, in exactly one way, with the leader's catalog staged.\<close>

lemma transfer_ends:
  assumes "keyed c" and "fss = bkeys (filesystems c)" and "cur \<noteq> AtEnd" and "ic_catalog i = staged c fss cur"
  shows "\<exists>i'. transfers c fss cur i i' \<and> ic_catalog i' = c \<and> ic_index i' = ic_index i"
  using assms(3,4)
proof (induction "left c fss cur" arbitrary: cur i rule: wf_induct_rule [OF wf_lex_prod [OF wf_less_than wf_less_than]])
  case (1 cur)
  have m: "moves c fss cur" by (rule staged_moves [OF assms(1,2) 1(2)])
  then obtain ch cur' where n: "next_chunk c fss cur = Some (ch, cur')" by (auto simp: moves_def split: option.splits)
  show ?case
  proof (cases "ch = DoneChunk")
    case True
    then show ?thesis using m n 1(3) by (intro exI [of _ i]) (auto simp: moves_def intro: transfers.finished)
  next
    case False
    let ?i = "i\<lparr>ic_catalog := staged c fss cur'\<rparr>"
    have s: "stage ch i = (Inr (), ?i)" "shrinks (left c fss cur') (left c fss cur)"
      using m n False 1(3) by (simp_all add: moves_def)
    have "cur' \<noteq> AtEnd"
    proof
      assume "cur' = AtEnd"
      then show False using n False by (induction c fss cur rule: next_chunk.induct) (auto simp: Let_def split: if_splits)
    qed
    then obtain i' where "transfers c fss cur' ?i i'" "ic_catalog i' = c" "ic_index i' = ic_index i"
      using 1(1) [OF s(2), of ?i] by auto
    then show ?thesis using n False s(1) by (blast intro: transfers.chunk)
  qed
qed

lemma transfer_unique:
  assumes "transfers c fss cur i i'" and "transfers c fss cur i i''"
  shows "i' = i''"
  using assms
proof (induction arbitrary: i'' rule: transfers.induct)
  case (finished cur cur' i)
  then show ?case by (auto elim: transfers.cases)
next
  case (chunk cur ch cur' i i1 i2)
  from chunk.prems show ?case
  proof cases
    case (chunk ch2 cur2 j)
    with chunk.hyps chunk.IH show ?thesis by simp
  qed (use chunk.hyps in simp)
qed

text \<open>(C20) A snapshot streamed in chunks arrives whole: whatever the sizes of the pages, the transfer
  that starts from the header ends, and what it has staged is the leader's catalog as of the
  start of the transfer.\<close>

theorem snapshot_arrives_whole:
  assumes "keyed c"
  shows "\<exists>i. transfers c (bkeys (filesystems c)) (og_next (outgoing_start c now))
      (incoming_start (applied_index c) (snapshot_header c)) i
    \<and> ic_catalog i = c \<and> (\<forall>j. transfers c (bkeys (filesystems c)) (og_next (outgoing_start c now))
      (incoming_start (applied_index c) (snapshot_header c)) j \<longrightarrow> j = i)"
proof -
  have "bretain (\<lambda>_ _. False) (extents c) = bempty"
    by (rule btree_eqI) (simp add: bget_bretain split: option.split)
  then have "snapshot_header c = staged c (bkeys (filesystems c)) (ExtentsAfter None)"
    by (simp add: snapshot_header_def)
  then show ?thesis
    using transfer_ends [OF assms refl, of "ExtentsAfter None" "incoming_start (applied_index c) (snapshot_header c)"]
      transfer_unique
    by (fastforce simp: outgoing_start_def incoming_start_def)
qed

definition sample_snapshot :: catalog where
  "sample_snapshot = empty_catalog\<lparr>filesystems := bput ''f'' (new_fs ''f'' ''fs'' None 0) bempty\<rparr>"

theorem snapshot_arrives_whole_witness:
  "\<exists>i. transfers sample_snapshot (bkeys (filesystems sample_snapshot)) (ExtentsAfter None)
      (incoming_start 0 (snapshot_header sample_snapshot)) i \<and> ic_catalog i = sample_snapshot"
proof -
  have "keyed sample_snapshot"
    by (auto simp: keyed_def sample_snapshot_def empty_catalog_def new_fs_def root_inode_def inode_new_def split: if_splits)
  from snapshot_arrives_whole [OF this, of 0] show ?thesis
    by (auto simp: outgoing_start_def sample_snapshot_def empty_catalog_def)
qed

end
