(* ===== verification/RaftNode.thy ===== *)
theory RaftNode
  imports RaftSnapshot
begin

text \<open>
  The Raft node of \<open>crates/atlas-native/src/raft.rs\<close>: every operation as a function from the node
  to a result and the changed node. The write-ahead log is the abstract one of \<open>WalSpec\<close>, the
  catalog store keeps the catalog last checkpointed, and the messages of an operation are added to
  the outbox. The loop that applies committed entries gets as many rounds as there are entries
  to apply; the loop of \<open>advance_commit\<close> is shown to end.
\<close>

section \<open>Reading the node\<close>

abbreviation node_term :: "raft_node \<Rightarrow> nat" where
  "node_term n \<equiv> h_term (rn_hard n)"

abbreviation node_id_of :: "raft_node \<Rightarrow> node_id" where
  "node_id_of n \<equiv> cf_id (rn_cfg n)"

abbreviation applied_of :: "raft_node \<Rightarrow> nat" where
  "applied_of n \<equiv> applied_index (rn_catalog n)"

definition last_index :: "raft_node \<Rightarrow> nat" where
  "last_index n = (if rn_log n = [] then rn_snapshot_index n else wr_index (last (rn_log n)))"

definition last_term :: "raft_node \<Rightarrow> nat" where
  "last_term n = (if rn_log n = [] then rn_snapshot_term n else wr_term (last (rn_log n)))"

definition is_voter :: "raft_node \<Rightarrow> bool" where
  "is_voter n \<longleftrightarrow> node_id_of n |\<in>| voters (rn_membership n)"

fun config_of :: "meta_command \<Rightarrow> membership option" where
  "config_of (ChangeMembership m _) = Some m"
| "config_of _ = None"

fun addrs_of :: "meta_command \<Rightarrow> (string, string) btree option" where
  "addrs_of (ChangeMembership _ a) = Some a"
| "addrs_of _ = None"

definition peer_addrs :: "raft_node \<Rightarrow> (node_id, string) btree" where
  "peer_addrs n = fold (\<lambda>e addrs. case addrs_of (wr_command e) of
       Some a \<Rightarrow> bextend addrs (bitems a) | None \<Rightarrow> addrs) (rn_log n) (raft_addrs (rn_catalog n))"

definition config_index :: "raft_node \<Rightarrow> nat option" where
  "config_index n = map_option wr_index (List.find (\<lambda>e. config_of (wr_command e) \<noteq> None) (rev (rn_log n)))"

definition latest_config_index :: "raft_node \<Rightarrow> nat" where
  "latest_config_index n = (case config_index n of None \<Rightarrow> 0 | Some i \<Rightarrow> i)"

definition peers :: "raft_node \<Rightarrow> node_id list" where
  "peers n = filter (\<lambda>p. p \<noteq> node_id_of n) (sorted_list_of_fset (voters (rn_membership n)))"

definition nth_opt :: "'a list \<Rightarrow> nat \<Rightarrow> 'a option" where
  "nth_opt xs i = (if i < length xs then Some (xs ! i) else None)"

definition entry_at :: "raft_node \<Rightarrow> nat \<Rightarrow> entry option" where
  "entry_at n index =
     (if index \<le> rn_snapshot_index n then None else nth_opt (rn_log n) (index - rn_snapshot_index n - 1))"

definition term_at :: "raft_node \<Rightarrow> nat \<Rightarrow> nat option" where
  "term_at n index =
     (if index = rn_snapshot_index n then Some (rn_snapshot_term n) else map_option wr_term (entry_at n index))"

definition peer_match_index :: "raft_node \<Rightarrow> (node_id, nat) btree" where
  "peer_match_index n = (if rn_role n = Leader then rn_match_index n else bempty)"

definition log_up_to_date :: "raft_node \<Rightarrow> nat \<Rightarrow> nat \<Rightarrow> bool" where
  "log_up_to_date n last_log_index last_log_term \<longleftrightarrow>
     last_log_term > last_term n \<or> (last_log_term = last_term n \<and> last_log_index \<ge> last_index n)"

definition leader_active :: "raft_node \<Rightarrow> bool" where
  "leader_active n \<longleftrightarrow>
     rn_role n = Leader \<or> (rn_leader n \<noteq> None \<and> rn_election_elapsed n < cf_election_lo (rn_cfg n))"

section \<open>Small steps\<close>

definition send :: "node_id \<Rightarrow> message \<Rightarrow> raft_node \<Rightarrow> raft_node" where
  "send to msg n = n\<lparr>rn_outbox := rn_outbox n @ [\<lparr>en_from = node_id_of n, en_to = to, en_group = 0, en_msg = msg\<rparr>]\<rparr>"

definition send_all :: "node_id list \<Rightarrow> message \<Rightarrow> raft_node \<Rightarrow> raft_node" where
  "send_all ps msg n = fold (\<lambda>p. send p msg) ps n"

definition persist_hard :: "raft_node \<Rightarrow> raft_node" where
  "persist_hard n = n\<lparr>rn_disk_hard := Some (rn_hard n)\<rparr>"

definition persist_catalog :: "raft_node \<Rightarrow> raft_node" where
  "persist_catalog n = n\<lparr>rn_store := Some (rn_catalog n)\<rparr>"

definition sync_wal :: "raft_node \<Rightarrow> raft_node" where
  "sync_wal n = n\<lparr>rn_wal := dl_sync (rn_wal n)\<rparr>"

definition xorshift :: "64 word \<Rightarrow> 64 word" where
  "xorshift r =
     (let r = r XOR push_bit 13 r;
          r = r XOR drop_bit 7 r
      in r XOR push_bit 17 r)"

definition reset_election_timer :: "raft_node \<Rightarrow> raft_node" where
  "reset_election_timer n =
     (let r = xorshift (rn_rng n); lo = cf_election_lo (rn_cfg n); hi = cf_election_hi (rn_cfg n)
      in n\<lparr>rn_rng := r, rn_election_elapsed := 0, rn_election_timeout := lo + unat r mod (hi - lo)\<rparr>)"

definition refresh_membership :: "raft_node \<Rightarrow> raft_node" where
  "refresh_membership n =
     (let latest = Option.bind (List.find (\<lambda>e. config_of (wr_command e) \<noteq> None) (rev (rn_log n)))
            (\<lambda>e. config_of (wr_command e));
          m = (case latest of Some m \<Rightarrow> m
               | None \<Rightarrow> (case membership_of (rn_catalog n) of Some m \<Rightarrow> m | None \<Rightarrow> rn_initial n));
          n = n\<lparr>rn_membership := m\<rparr>
      in if rn_role n = Leader then
           let ps = peers n; next = last_index n + 1;
               ni = bretain (\<lambda>p _. p \<in> set ps) (rn_next_index n);
               mi = bretain (\<lambda>p _. p \<in> set ps) (rn_match_index n)
           in n\<lparr>rn_next_index := fold (\<lambda>p m. if bget m p = None then bput p next m else m) ps ni,
                rn_match_index := fold (\<lambda>p m. if bget m p = None then bput p 0 m else m) ps mi\<rparr>
         else n)"

definition snapshot_message :: "nat \<Rightarrow> outgoing \<Rightarrow> message" where
  "snapshot_message term o1 = InstallSnapshot term (og_index o1) (og_seq o1) (og_chunk o1)"

section \<open>Replicating the log\<close>

definition send_append :: "node_id \<Rightarrow> raft_node \<Rightarrow> raft_node" where
  "send_append peer n =
     (let next = min (case bget (rn_next_index n) peer of Some i \<Rightarrow> i | None \<Rightarrow> last_index n + 1) (last_index n + 1);
          prev = next - 1
      in if prev < rn_snapshot_index n then
           (case bget (rn_outgoing n) peer of
              Some o1 \<Rightarrow>
                if rn_ticks n < og_sent_at o1 + cf_election_hi (rn_cfg n) then n
                else let o1 = o1\<lparr>og_sent_at := rn_ticks n\<rparr>
                  in send peer (snapshot_message (node_term n) o1) (n\<lparr>rn_outgoing := bput peer o1 (rn_outgoing n)\<rparr>)
            | None \<Rightarrow>
                let o1 = outgoing_start (rn_catalog n) (rn_ticks n)
                in send peer (snapshot_message (node_term n) o1) (n\<lparr>rn_outgoing := bput peer o1 (rn_outgoing n)\<rparr>))
         else
           let prev_term = (case term_at n prev of Some t \<Rightarrow> t | None \<Rightarrow> 0);
               start = next - rn_snapshot_index n - 1;
               stop = min (start + cf_max_batch (rn_cfg n)) (length (rn_log n));
               es = take (stop - start) (drop start (rn_log n));
               n1 = (if es = [] then n
                     else n\<lparr>rn_next_index := bput peer (wr_index (last es) + 1) (rn_next_index n)\<rparr>)
           in send peer (AppendEntries (node_term n) prev prev_term es (rn_commit_index n) (rn_read_seq n)) n1)"

definition broadcast_append :: "raft_node \<Rightarrow> raft_node" where
  "broadcast_append n = fold send_append (peers n) n"

text \<open>Building the speculative catalog of a leader.\<close>

definition spec_mut :: "raft_node \<Rightarrow> catalog \<times> raft_node" where
  "spec_mut n = (case rn_spec n of
       Some s \<Rightarrow> (s, n)
     | None \<Rightarrow>
         let s = fold (\<lambda>e s. snd (apply_committed (wr_term e) (wr_index e) (wr_command e) s))
               (filter (\<lambda>e. wr_index e > applied_of n) (rn_log n)) (rn_catalog n)
         in (s, n\<lparr>rn_spec := Some s\<rparr>))"

definition append_local :: "meta_command \<Rightarrow> raft_node \<Rightarrow> nat raft" where
  "append_local cmd n =
     (let index = last_index n + 1;
          e = \<lparr>wr_term = node_term n, wr_index = index, wr_command = cmd\<rparr>
      in case dl_append_unsynced e (rn_wal n) of
           (Inl err, w) \<Rightarrow> (Inl (RaftWal err), n\<lparr>rn_wal := w\<rparr>)
         | (Inr _, w) \<Rightarrow>
             let n = n\<lparr>rn_wal := w,
                   rn_spec := map_option (\<lambda>s. snd (apply_committed (wr_term e) (wr_index e) cmd s)) (rn_spec n),
                   rn_log := rn_log n @ [e]\<rparr>
             in (Inr index, if config_of cmd \<noteq> None then refresh_membership n else n))"

definition append_validated :: "meta_command \<Rightarrow> raft_node \<Rightarrow> nat raft" where
  "append_validated cmd n =
     (let term = node_term n; index = last_index n + 1; (s, n) = spec_mut n
      in case catalog_apply term index cmd s of
           (Inl e, s) \<Rightarrow> (Inl (Rejected e), n\<lparr>rn_spec := Some s\<rparr>)
         | (Inr _, s) \<Rightarrow>
             (case append_local cmd (n\<lparr>rn_spec := Some s\<rparr>) of
                (Inl e, n) \<Rightarrow> (Inl e, n\<lparr>rn_spec := None\<rparr>)
              | r \<Rightarrow> r))"

section \<open>Applying\<close>

definition maybe_compact :: "raft_node \<Rightarrow> unit raft" where
  "maybe_compact n =
     (let applied = applied_of n; keep = cf_compact_after (rn_cfg n)
      in if keep = 0 \<or> applied - rn_snapshot_index n < 2 * keep then (Inr (), n)
         else
           let through = applied - keep
           in case term_at n through of
                None \<Rightarrow> (Inl Inconsistent, n)
              | Some term \<Rightarrow>
                  let n = persist_catalog n
                  in (Inr (), n\<lparr>rn_wal := dl_compact_through through (rn_wal n),
                        rn_log := drop (through - rn_snapshot_index n) (rn_log n),
                        rn_snapshot_index := through, rn_snapshot_term := term\<rparr>))"

text \<open>The rounds of the loop; a command that panics or does not return ends the node.\<close>

fun apply_rounds :: "nat \<Rightarrow> raft_node \<Rightarrow> unit raft" where
  "apply_rounds k n =
     (if applied_of n < rn_commit_index n then
        (case k of
           0 \<Rightarrow> (Inl RaftDiverge, n)
         | Suc k \<Rightarrow>
             (case entry_at n (applied_of n + 1) of
                None \<Rightarrow> (Inl Inconsistent, n)
              | Some e \<Rightarrow>
                  (case apply_committed (wr_term e) (wr_index e) (wr_command e) (rn_catalog n) of
                     (r, c) \<Rightarrow>
                       if r = Inl Panic then (Inl (Rejected Panic), n\<lparr>rn_catalog := c\<rparr>)
                       else if r = Inl Diverge then (Inl (Rejected Diverge), n\<lparr>rn_catalog := c\<rparr>)
                       else apply_rounds k (n\<lparr>rn_catalog := c\<rparr>))))
      else (Inr (), n))"

declare apply_rounds.simps [simp del]

definition raft_apply_committed :: "raft_node \<Rightarrow> unit raft" where
  "raft_apply_committed n =
     andthen (apply_rounds (rn_commit_index n - applied_of n) n) (\<lambda>_ n'.
       if applied_of n' > applied_of n then maybe_compact n' else (Inr (), n'))"

section \<open>Read barriers and roles\<close>

definition answer_read :: "node_id option \<Rightarrow> nat \<Rightarrow> nat option \<Rightarrow> raft_node \<Rightarrow> raft_node" where
  "answer_read from_node rid index n = (case from_node of
       None \<Rightarrow> n\<lparr>rn_read_results := bput rid index (rn_read_results n)\<rparr>
     | Some f \<Rightarrow> send f (ReadIndexResponse (node_term n) rid index) n)"

text \<open>One answer counted towards the pending barriers; the confirmed ones leave the list.\<close>

definition ack_read :: "node_id option \<Rightarrow> nat \<Rightarrow> pending_read \<Rightarrow> pending_read" where
  "ack_read from_node seq r = (case from_node of
       Some f \<Rightarrow> if seq \<ge> pr_seq r then r\<lparr>pr_acks := finsert f (pr_acks r)\<rparr> else r
     | None \<Rightarrow> r)"

definition confirm_reads :: "node_id option \<Rightarrow> nat \<Rightarrow> raft_node \<Rightarrow> raft_node" where
  "confirm_reads from_node seq n =
     (let rs = map (ack_read from_node seq) (rn_pending_reads n);
          confirmed = filter (\<lambda>r. has_quorum (rn_membership n) (pr_acks r)) rs;
          pending = filter (\<lambda>r. \<not> has_quorum (rn_membership n) (pr_acks r)) rs
      in fold (\<lambda>r. answer_read (pr_from r) (pr_id r) (Some (pr_index r))) confirmed
           (n\<lparr>rn_pending_reads := pending\<rparr>))"

definition register_read :: "node_id option \<Rightarrow> nat \<Rightarrow> raft_node \<Rightarrow> bool \<times> raft_node" where
  "register_read from_node rid n =
     (if term_at n (rn_commit_index n) \<noteq> Some (node_term n) then (False, n)
      else
        let seq = rn_read_seq n + 1;
            r = \<lparr>pr_seq = seq, pr_index = rn_commit_index n, pr_from = from_node, pr_id = rid,
                 pr_acks = {|node_id_of n|}\<rparr>;
            n = confirm_reads None 0 (n\<lparr>rn_read_seq := seq, rn_pending_reads := rn_pending_reads n @ [r]\<rparr>)
        in (True, if rn_pending_reads n \<noteq> [] then broadcast_append n else n))"

definition become_follower :: "nat \<Rightarrow> node_id option \<Rightarrow> raft_node \<Rightarrow> raft_node" where
  "become_follower term lead n =
     (let n = sync_wal n;
          n = (if term > node_term n
               then persist_hard (n\<lparr>rn_hard := \<lparr>h_term = term, h_voted_for = None\<rparr>\<rparr>) else n);
          n = fold (\<lambda>r. answer_read (pr_from r) (pr_id r) None) (rn_pending_reads n) (n\<lparr>rn_pending_reads := []\<rparr>)
      in reset_election_timer (n\<lparr>rn_role := Follower, rn_spec := None, rn_outgoing := bempty,
           rn_leader := lead, rn_votes := {||}\<rparr>))"

section \<open>Committing\<close>

definition finish_membership_change :: "raft_node \<Rightarrow> unit raft" where
  "finish_membership_change n =
     (if rn_role n \<noteq> Leader \<or> (case config_index n of Some i \<Rightarrow> i > rn_commit_index n | None \<Rightarrow> False)
      then (Inr (), n)
      else (case rn_membership n of
          Joint old new \<Rightarrow>
            andthen (append_validated (ChangeMembership (Stable new) bempty) n) (\<lambda>_ n. (Inr (), broadcast_append n))
        | Stable vs \<Rightarrow>
            if node_id_of n |\<notin>| vs then (Inr (), become_follower (node_term n) None n) else (Inr (), n)))"

text \<open>The highest index above the commit index that a quorum holds; entries of earlier terms end the search.\<close>

definition acks_at :: "raft_node \<Rightarrow> nat \<Rightarrow> node_id fset" where
  "acks_at n i = fset_of_list (map fst (filter (\<lambda>(_, m). m \<ge> i) (bitems (rn_match_index n)))
     @ (if dl_synced (rn_wal n) \<ge> i then [node_id_of n] else []))"

fun find_commit :: "raft_node \<Rightarrow> nat \<Rightarrow> nat" where
  "find_commit n 0 = rn_commit_index n"
| "find_commit n (Suc i) =
     (if Suc i \<le> rn_commit_index n then rn_commit_index n
      else if term_at n (Suc i) \<noteq> Some (node_term n) then rn_commit_index n
      else if has_quorum (rn_membership n) (acks_at n (Suc i)) then Suc i
      else find_commit n i)"

text \<open>One round of the loop of \<open>advance_commit\<close>: whether there is another one.\<close>

definition advance_round :: "raft_node \<Rightarrow> bool raft" where
  "advance_round n =
     (if rn_role n \<noteq> Leader then (Inr False, n)
      else
        let n = (if has_quorum (rn_membership n) {|node_id_of n|} then sync_wal n else n);
            new_commit = find_commit n (last_index n)
        in if new_commit \<le> rn_commit_index n then (Inr False, n)
           else
             andthen (raft_apply_committed (n\<lparr>rn_commit_index := new_commit\<rparr>)) (\<lambda>_ n.
               let n = broadcast_append n
               in andthen (finish_membership_change n) (\<lambda>_ n'.
                 (Inr (last_index n' \<noteq> last_index n), n'))))"

section \<open>What the small steps leave alone\<close>

lemma fold_keeps: "(\<And>x n. P (f x n) = P n) \<Longrightarrow> P (fold f xs n) = P n"
  by (induction xs arbitrary: n) simp_all

lemma send_frame [simp]:
  "rn_cfg (send to msg n) = rn_cfg n" "rn_membership (send to msg n) = rn_membership n"
  "rn_initial (send to msg n) = rn_initial n" "rn_role (send to msg n) = rn_role n"
  "rn_hard (send to msg n) = rn_hard n" "rn_leader (send to msg n) = rn_leader n"
  "rn_log (send to msg n) = rn_log n" "rn_snapshot_index (send to msg n) = rn_snapshot_index n"
  "rn_snapshot_term (send to msg n) = rn_snapshot_term n" "rn_commit_index (send to msg n) = rn_commit_index n"
  "rn_catalog (send to msg n) = rn_catalog n" "rn_spec (send to msg n) = rn_spec n"
  "rn_wal (send to msg n) = rn_wal n" "rn_store (send to msg n) = rn_store n"
  "rn_disk_hard (send to msg n) = rn_disk_hard n" "rn_votes (send to msg n) = rn_votes n"
  "rn_match_index (send to msg n) = rn_match_index n"
  "rn_incoming (send to msg n) = rn_incoming n"
  by (simp_all add: send_def)

text \<open>Sending appends only changes the outbox and the book-keeping of what was sent.\<close>

definition quiet :: "raft_node \<Rightarrow> raft_node" where
  "quiet n = n\<lparr>rn_next_index := bempty, rn_outgoing := bempty, rn_outbox := []\<rparr>"

lemma quietD:
  assumes "quiet m = quiet n"
  shows "rn_cfg m = rn_cfg n \<and> rn_membership m = rn_membership n \<and> rn_initial m = rn_initial n \<and>
    rn_role m = rn_role n \<and> rn_hard m = rn_hard n \<and> rn_leader m = rn_leader n \<and>
    rn_log m = rn_log n \<and> rn_snapshot_index m = rn_snapshot_index n \<and>
    rn_snapshot_term m = rn_snapshot_term n \<and> rn_commit_index m = rn_commit_index n \<and>
    rn_catalog m = rn_catalog n \<and> rn_spec m = rn_spec n \<and> rn_wal m = rn_wal n \<and>
    rn_store m = rn_store n \<and> rn_disk_hard m = rn_disk_hard n \<and> rn_votes m = rn_votes n \<and>
    rn_match_index m = rn_match_index n \<and> rn_incoming m = rn_incoming n"
  using assms by (cases m; cases n) (simp add: quiet_def)

lemma quiet_simps [simp]:
  "quiet (n\<lparr>rn_next_index := x\<rparr>) = quiet n" "quiet (n\<lparr>rn_outgoing := y\<rparr>) = quiet n" "quiet (n\<lparr>rn_outbox := z\<rparr>) = quiet n"
  "quiet (send to msg n) = quiet n"
  by (simp_all add: quiet_def send_def)

lemma send_append_quiet [simp]: "quiet (send_append p n) = quiet n"
proof -
  have "(case x of None \<Rightarrow> m | Some _ \<Rightarrow> m) = m" for x :: "outgoing option" and m :: raft_node by (cases x) simp_all
  then show ?thesis
    by (simp only: send_append_def Let_def if_distrib [of quiet] option.case_distrib [of quiet] quiet_simps if_cancel)
qed

lemma broadcast_quiet [simp]: "quiet (broadcast_append n) = quiet n"
  by (simp add: broadcast_append_def fold_keeps)

lemma send_append_frame [simp]:
  "rn_cfg (send_append p n) = rn_cfg n" "rn_membership (send_append p n) = rn_membership n"
  "rn_initial (send_append p n) = rn_initial n" "rn_role (send_append p n) = rn_role n"
  "rn_hard (send_append p n) = rn_hard n" "rn_leader (send_append p n) = rn_leader n"
  "rn_log (send_append p n) = rn_log n" "rn_snapshot_index (send_append p n) = rn_snapshot_index n"
  "rn_snapshot_term (send_append p n) = rn_snapshot_term n" "rn_commit_index (send_append p n) = rn_commit_index n"
  "rn_catalog (send_append p n) = rn_catalog n" "rn_spec (send_append p n) = rn_spec n"
  "rn_wal (send_append p n) = rn_wal n" "rn_store (send_append p n) = rn_store n"
  "rn_disk_hard (send_append p n) = rn_disk_hard n" "rn_votes (send_append p n) = rn_votes n"
  "rn_match_index (send_append p n) = rn_match_index n"
  "rn_incoming (send_append p n) = rn_incoming n"
  using quietD [OF send_append_quiet] by simp_all

lemma broadcast_frame [simp]:
  "rn_cfg (broadcast_append n) = rn_cfg n" "rn_membership (broadcast_append n) = rn_membership n"
  "rn_initial (broadcast_append n) = rn_initial n" "rn_role (broadcast_append n) = rn_role n"
  "rn_hard (broadcast_append n) = rn_hard n" "rn_leader (broadcast_append n) = rn_leader n"
  "rn_log (broadcast_append n) = rn_log n" "rn_snapshot_index (broadcast_append n) = rn_snapshot_index n"
  "rn_snapshot_term (broadcast_append n) = rn_snapshot_term n"
  "rn_commit_index (broadcast_append n) = rn_commit_index n" "rn_catalog (broadcast_append n) = rn_catalog n"
  "rn_spec (broadcast_append n) = rn_spec n" "rn_wal (broadcast_append n) = rn_wal n"
  "rn_store (broadcast_append n) = rn_store n" "rn_disk_hard (broadcast_append n) = rn_disk_hard n"
  "rn_votes (broadcast_append n) = rn_votes n" "rn_match_index (broadcast_append n) = rn_match_index n"
  "rn_incoming (broadcast_append n) = rn_incoming n"
  using quietD [OF broadcast_quiet] by simp_all

lemma sync_wal_frame [simp]:
  "rn_cfg (sync_wal n) = rn_cfg n" "rn_membership (sync_wal n) = rn_membership n"
  "rn_initial (sync_wal n) = rn_initial n" "rn_role (sync_wal n) = rn_role n" "rn_hard (sync_wal n) = rn_hard n"
  "rn_leader (sync_wal n) = rn_leader n" "rn_log (sync_wal n) = rn_log n"
  "rn_snapshot_index (sync_wal n) = rn_snapshot_index n" "rn_snapshot_term (sync_wal n) = rn_snapshot_term n"
  "rn_commit_index (sync_wal n) = rn_commit_index n" "rn_catalog (sync_wal n) = rn_catalog n"
  "rn_spec (sync_wal n) = rn_spec n" "rn_store (sync_wal n) = rn_store n"
  "rn_disk_hard (sync_wal n) = rn_disk_hard n" "rn_votes (sync_wal n) = rn_votes n"
  "rn_match_index (sync_wal n) = rn_match_index n"
  "rn_incoming (sync_wal n) = rn_incoming n" "rn_wal (sync_wal n) = dl_sync (rn_wal n)"
  by (simp_all add: sync_wal_def)

lemma answer_read_frame [simp]:
  "rn_cfg (answer_read f i x n) = rn_cfg n" "rn_membership (answer_read f i x n) = rn_membership n"
  "rn_initial (answer_read f i x n) = rn_initial n" "rn_role (answer_read f i x n) = rn_role n"
  "rn_hard (answer_read f i x n) = rn_hard n" "rn_leader (answer_read f i x n) = rn_leader n"
  "rn_log (answer_read f i x n) = rn_log n" "rn_snapshot_index (answer_read f i x n) = rn_snapshot_index n"
  "rn_snapshot_term (answer_read f i x n) = rn_snapshot_term n"
  "rn_commit_index (answer_read f i x n) = rn_commit_index n" "rn_catalog (answer_read f i x n) = rn_catalog n"
  "rn_spec (answer_read f i x n) = rn_spec n" "rn_wal (answer_read f i x n) = rn_wal n"
  "rn_store (answer_read f i x n) = rn_store n" "rn_disk_hard (answer_read f i x n) = rn_disk_hard n"
  "rn_votes (answer_read f i x n) = rn_votes n" "rn_match_index (answer_read f i x n) = rn_match_index n"
  "rn_incoming (answer_read f i x n) = rn_incoming n"
  by (simp_all add: answer_read_def split: option.split)

lemma answer_reads_frame [simp]:
  "rn_cfg (fold (\<lambda>r. answer_read (f r) (g r) (h r)) rs n) = rn_cfg n"
  "rn_membership (fold (\<lambda>r. answer_read (f r) (g r) (h r)) rs n) = rn_membership n"
  "rn_initial (fold (\<lambda>r. answer_read (f r) (g r) (h r)) rs n) = rn_initial n"
  "rn_role (fold (\<lambda>r. answer_read (f r) (g r) (h r)) rs n) = rn_role n"
  "rn_hard (fold (\<lambda>r. answer_read (f r) (g r) (h r)) rs n) = rn_hard n"
  "rn_leader (fold (\<lambda>r. answer_read (f r) (g r) (h r)) rs n) = rn_leader n"
  "rn_log (fold (\<lambda>r. answer_read (f r) (g r) (h r)) rs n) = rn_log n"
  "rn_snapshot_index (fold (\<lambda>r. answer_read (f r) (g r) (h r)) rs n) = rn_snapshot_index n"
  "rn_snapshot_term (fold (\<lambda>r. answer_read (f r) (g r) (h r)) rs n) = rn_snapshot_term n"
  "rn_commit_index (fold (\<lambda>r. answer_read (f r) (g r) (h r)) rs n) = rn_commit_index n"
  "rn_catalog (fold (\<lambda>r. answer_read (f r) (g r) (h r)) rs n) = rn_catalog n"
  "rn_spec (fold (\<lambda>r. answer_read (f r) (g r) (h r)) rs n) = rn_spec n"
  "rn_wal (fold (\<lambda>r. answer_read (f r) (g r) (h r)) rs n) = rn_wal n"
  "rn_store (fold (\<lambda>r. answer_read (f r) (g r) (h r)) rs n) = rn_store n"
  "rn_disk_hard (fold (\<lambda>r. answer_read (f r) (g r) (h r)) rs n) = rn_disk_hard n"
  "rn_votes (fold (\<lambda>r. answer_read (f r) (g r) (h r)) rs n) = rn_votes n"
  "rn_match_index (fold (\<lambda>r. answer_read (f r) (g r) (h r)) rs n) = rn_match_index n"
  "rn_incoming (fold (\<lambda>r. answer_read (f r) (g r) (h r)) rs n) = rn_incoming n"
  by (simp_all add: fold_keeps)

lemma confirm_reads_frame [simp]:
  "rn_cfg (confirm_reads f s n) = rn_cfg n" "rn_membership (confirm_reads f s n) = rn_membership n"
  "rn_initial (confirm_reads f s n) = rn_initial n" "rn_role (confirm_reads f s n) = rn_role n"
  "rn_hard (confirm_reads f s n) = rn_hard n" "rn_leader (confirm_reads f s n) = rn_leader n"
  "rn_log (confirm_reads f s n) = rn_log n" "rn_snapshot_index (confirm_reads f s n) = rn_snapshot_index n"
  "rn_snapshot_term (confirm_reads f s n) = rn_snapshot_term n"
  "rn_commit_index (confirm_reads f s n) = rn_commit_index n" "rn_catalog (confirm_reads f s n) = rn_catalog n"
  "rn_spec (confirm_reads f s n) = rn_spec n" "rn_wal (confirm_reads f s n) = rn_wal n"
  "rn_store (confirm_reads f s n) = rn_store n" "rn_disk_hard (confirm_reads f s n) = rn_disk_hard n"
  "rn_votes (confirm_reads f s n) = rn_votes n" "rn_match_index (confirm_reads f s n) = rn_match_index n"
  "rn_incoming (confirm_reads f s n) = rn_incoming n"
  by (simp_all add: confirm_reads_def Let_def)

lemma reset_timer_frame [simp]:
  "rn_cfg (reset_election_timer n) = rn_cfg n" "rn_membership (reset_election_timer n) = rn_membership n"
  "rn_initial (reset_election_timer n) = rn_initial n" "rn_role (reset_election_timer n) = rn_role n"
  "rn_hard (reset_election_timer n) = rn_hard n" "rn_leader (reset_election_timer n) = rn_leader n"
  "rn_log (reset_election_timer n) = rn_log n" "rn_snapshot_index (reset_election_timer n) = rn_snapshot_index n"
  "rn_snapshot_term (reset_election_timer n) = rn_snapshot_term n"
  "rn_commit_index (reset_election_timer n) = rn_commit_index n"
  "rn_catalog (reset_election_timer n) = rn_catalog n" "rn_spec (reset_election_timer n) = rn_spec n"
  "rn_wal (reset_election_timer n) = rn_wal n" "rn_store (reset_election_timer n) = rn_store n"
  "rn_disk_hard (reset_election_timer n) = rn_disk_hard n" "rn_votes (reset_election_timer n) = rn_votes n"
  "rn_match_index (reset_election_timer n) = rn_match_index n"
  "rn_incoming (reset_election_timer n) = rn_incoming n"
  by (simp_all add: reset_election_timer_def Let_def)

lemma become_follower_frame [simp]:
  "rn_cfg (become_follower t l n) = rn_cfg n" "rn_membership (become_follower t l n) = rn_membership n"
  "rn_initial (become_follower t l n) = rn_initial n" "rn_log (become_follower t l n) = rn_log n"
  "rn_snapshot_index (become_follower t l n) = rn_snapshot_index n"
  "rn_snapshot_term (become_follower t l n) = rn_snapshot_term n"
  "rn_commit_index (become_follower t l n) = rn_commit_index n" "rn_catalog (become_follower t l n) = rn_catalog n"
  "rn_store (become_follower t l n) = rn_store n" "rn_match_index (become_follower t l n) = rn_match_index n"
  "rn_incoming (become_follower t l n) = rn_incoming n"
  "rn_role (become_follower t l n) = Follower" "rn_wal (become_follower t l n) = dl_sync (rn_wal n)"
  "rn_hard (become_follower t l n) = (if node_term n < t then \<lparr>h_term = t, h_voted_for = None\<rparr> else rn_hard n)"
  "rn_disk_hard (become_follower t l n) = (if node_term n < t then Some \<lparr>h_term = t, h_voted_for = None\<rparr> else rn_disk_hard n)"
  "rn_leader (become_follower t l n) = l" "rn_spec (become_follower t l n) = None"
  "rn_votes (become_follower t l n) = {||}"
  by (simp_all add: become_follower_def Let_def persist_hard_def)

lemma refresh_frame [simp]:
  "rn_cfg (refresh_membership n) = rn_cfg n" "rn_initial (refresh_membership n) = rn_initial n"
  "rn_role (refresh_membership n) = rn_role n" "rn_hard (refresh_membership n) = rn_hard n"
  "rn_leader (refresh_membership n) = rn_leader n" "rn_log (refresh_membership n) = rn_log n"
  "rn_snapshot_index (refresh_membership n) = rn_snapshot_index n"
  "rn_snapshot_term (refresh_membership n) = rn_snapshot_term n"
  "rn_commit_index (refresh_membership n) = rn_commit_index n" "rn_catalog (refresh_membership n) = rn_catalog n"
  "rn_spec (refresh_membership n) = rn_spec n" "rn_wal (refresh_membership n) = rn_wal n"
  "rn_store (refresh_membership n) = rn_store n" "rn_disk_hard (refresh_membership n) = rn_disk_hard n"
  "rn_votes (refresh_membership n) = rn_votes n" "rn_incoming (refresh_membership n) = rn_incoming n"
  by (simp_all add: refresh_membership_def Let_def)

lemma spec_mut_frame [simp]:
  "rn_cfg (snd (spec_mut n)) = rn_cfg n" "rn_membership (snd (spec_mut n)) = rn_membership n"
  "rn_initial (snd (spec_mut n)) = rn_initial n" "rn_role (snd (spec_mut n)) = rn_role n"
  "rn_hard (snd (spec_mut n)) = rn_hard n" "rn_leader (snd (spec_mut n)) = rn_leader n"
  "rn_log (snd (spec_mut n)) = rn_log n" "rn_snapshot_index (snd (spec_mut n)) = rn_snapshot_index n"
  "rn_snapshot_term (snd (spec_mut n)) = rn_snapshot_term n"
  "rn_commit_index (snd (spec_mut n)) = rn_commit_index n" "rn_catalog (snd (spec_mut n)) = rn_catalog n"
  "rn_wal (snd (spec_mut n)) = rn_wal n" "rn_store (snd (spec_mut n)) = rn_store n"
  "rn_disk_hard (snd (spec_mut n)) = rn_disk_hard n" "rn_votes (snd (spec_mut n)) = rn_votes n"
  "rn_match_index (snd (spec_mut n)) = rn_match_index n"
  "rn_incoming (snd (spec_mut n)) = rn_incoming n"
  by (simp_all add: spec_mut_def Let_def split: option.split)


lemma last_index_cong: "rn_log n = rn_log m \<Longrightarrow> rn_snapshot_index n = rn_snapshot_index m \<Longrightarrow> last_index n = last_index m"
  by (simp add: last_index_def)

lemma last_index_frame [simp]:
  "last_index (send to msg n) = last_index n" "last_index (send_append p n) = last_index n"
  "last_index (broadcast_append n) = last_index n" "last_index (sync_wal n) = last_index n"
  "last_index (become_follower t l n) = last_index n" "last_index (refresh_membership n) = last_index n"
  "last_index (snd (spec_mut n)) = last_index n" "last_index (reset_election_timer n) = last_index n"
  by (simp_all add: last_index_def)

text \<open>A configuration entry takes effect as it is appended.\<close>

lemma append_local_membership:
  assumes "append_local cmd n = (Inr i, n')"
  shows "rn_membership n' = (case config_of cmd of Some m \<Rightarrow> m | None \<Rightarrow> rn_membership n)"
  using assms by (auto simp: append_local_def Let_def refresh_membership_def split: prod.splits sum.splits if_splits option.splits)

lemma append_validated_membership:
  assumes "append_validated cmd n = (Inr i, n')"
  shows "rn_membership n' = (case config_of cmd of Some m \<Rightarrow> m | None \<Rightarrow> rn_membership n)"
proof -
  obtain s where "append_local cmd ((snd (spec_mut n))\<lparr>rn_spec := s\<rparr>) = (Inr i, n')"
    using assms by (auto simp: append_validated_def Let_def split: prod.splits sum.splits)
  from append_local_membership [OF this] show ?thesis by (simp split: option.split)
qed

lemma apply_rounds_membership: "rn_membership (snd (apply_rounds k n)) = rn_membership n"
  by (induction k arbitrary: n) (subst apply_rounds.simps; auto split: option.split prod.split)+

lemma maybe_compact_membership: "rn_membership (snd (maybe_compact n)) = rn_membership n"
  by (simp add: maybe_compact_def Let_def persist_catalog_def split: option.split)

lemma apply_committed_membership: "raft_apply_committed n = (r, n') \<Longrightarrow> rn_membership n' = rn_membership n"
  using apply_rounds_membership [of "rn_commit_index n - applied_of n" n]
  by (auto simp: raft_apply_committed_def andthen_def dest: arg_cong [where f = "\<lambda>x. rn_membership (snd x)"]
      simp: maybe_compact_membership split: prod.splits sum.splits if_splits)

lemma finish_appends:
  assumes "finish_membership_change n = (Inr (), n')" and "last_index n' \<noteq> last_index n"
  shows "(\<exists>old new. rn_membership n = Joint old new) \<and> (\<exists>vs. rn_membership n' = Stable vs)"
proof (cases "rn_membership n")
  case (Joint old new)
  from assms obtain m i where "append_validated (ChangeMembership (Stable new) bempty) n = (Inr i, m)" "n' = broadcast_append m"
    unfolding finish_membership_change_def Joint
    by (auto simp: andthen_def split: if_splits prod.splits sum.splits)
  then show ?thesis using append_validated_membership [of "ChangeMembership (Stable new) bempty" n i m] Joint by simp
qed (use assms in \<open>auto simp: finish_membership_change_def split: if_splits\<close>)

lemma advance_round_again:
  assumes "advance_round n = (Inr True, n')"
  shows "(\<exists>old new. rn_membership n = Joint old new) \<and> (\<exists>vs. rn_membership n' = Stable vs)"
proof -
  define n0 where "n0 = (if has_quorum (rn_membership n) {|node_id_of n|} then sync_wal n else n)"
  define n1 where "n1 = n0\<lparr>rn_commit_index := find_commit n0 (last_index n0)\<rparr>"
  have m: "rn_membership n1 = rn_membership n" by (simp add: n1_def n0_def)
  from assms obtain u n2 where a: "raft_apply_committed n1 = (Inr u, n2)"
    and f: "finish_membership_change (broadcast_append n2) = (Inr (), n')" "last_index n' \<noteq> last_index n2"
    unfolding advance_round_def Let_def n0_def [symmetric] n1_def [symmetric]
    by (auto simp: andthen_def split: if_splits prod.splits sum.splits)
  have "rn_membership n2 = rn_membership n" using apply_committed_membership [OF a] m by simp
  then show ?thesis using finish_appends [OF f(1)] f(2) by simp
qed

function advance_commit :: "raft_node \<Rightarrow> unit raft" where
  "advance_commit n = (case advance_round n of
       (Inl e, n') \<Rightarrow> (Inl e, n')
     | (Inr again, n') \<Rightarrow> if again then advance_commit n' else (Inr (), n'))"
  by pat_completeness auto
termination
  by (relation "measure (\<lambda>n. case rn_membership n of Joint _ _ \<Rightarrow> 1 | Stable _ \<Rightarrow> 0)")
    (auto dest!: advance_round_again [OF sym])

declare advance_commit.simps [simp del]

section \<open>Elections\<close>

definition become_leader :: "raft_node \<Rightarrow> unit raft" where
  "become_leader n =
     (let c = rn_counters n;
          n = n\<lparr>rn_counters := c\<lparr>ct_leader_terms := ct_leader_terms c + 1\<rparr>, rn_role := Leader, rn_spec := None,
                rn_outgoing := bempty, rn_incoming := None, rn_leader := Some (node_id_of n),
                rn_heartbeat_elapsed := 0, rn_check_quorum_elapsed := 0, rn_recent_active := {||}\<rparr>;
          next = last_index n + 1;
          n = n\<lparr>rn_next_index := bextend bempty (map (\<lambda>p. (p, next)) (peers n)),
                rn_match_index := bextend bempty (map (\<lambda>p. (p, 0)) (peers n))\<rparr>
      in andthen (append_local Noop n) (\<lambda>_ n. advance_commit (broadcast_append n)))"

definition campaign :: "raft_node \<Rightarrow> unit raft" where
  "campaign n =
     (let c = rn_counters n;
          n = persist_hard (n\<lparr>rn_counters := c\<lparr>ct_elections := ct_elections c + 1\<rparr>, rn_role := Candidate,
                rn_hard := \<lparr>h_term = node_term n + 1, h_voted_for = Some (node_id_of n)\<rparr>\<rparr>);
          n = reset_election_timer (n\<lparr>rn_leader := None, rn_votes := {|node_id_of n|}\<rparr>)
      in if has_quorum (rn_membership n) (rn_votes n) then become_leader n
         else (Inr (), send_all (peers n) (RequestVote (node_term n) (last_index n) (last_term n)) n))"

definition pre_campaign :: "raft_node \<Rightarrow> unit raft" where
  "pre_campaign n =
     (if \<not> is_voter n then (Inr (), reset_election_timer n)
      else
        let n = reset_election_timer (n\<lparr>rn_role := PreCandidate, rn_leader := None, rn_votes := {|node_id_of n|}\<rparr>)
        in if has_quorum (rn_membership n) (rn_votes n) then campaign n
           else (Inr (), send_all (peers n) (PreVote (node_term n + 1) (last_index n) (last_term n)) n))"

section \<open>Driving the node\<close>

definition take_messages :: "raft_node \<Rightarrow> envelope list \<times> raft_node" where
  "take_messages n =
     (let n = (if rn_role n \<noteq> Leader then sync_wal n else n)
      in (rn_outbox n, n\<lparr>rn_outbox := []\<rparr>))"

definition tick :: "raft_node \<Rightarrow> unit raft" where
  "tick n =
     (let n = n\<lparr>rn_ticks := rn_ticks n + 1\<rparr>
      in if rn_role n = Leader then
           andthen (if dl_synced (rn_wal n) < last_index n then advance_commit (sync_wal n) else (Inr (), n)) (\<lambda>_ n.
             let n = n\<lparr>rn_check_quorum_elapsed := rn_check_quorum_elapsed n + 1\<rparr>;
                 due = (rn_check_quorum_elapsed n \<ge> cf_election_lo (rn_cfg n));
                 active = finsert (node_id_of n) (rn_recent_active n);
                 n = (if due then n\<lparr>rn_check_quorum_elapsed := 0, rn_recent_active := {||}\<rparr> else n)
             in if due \<and> \<not> has_quorum (rn_membership n) active
                then (Inr (), become_follower (node_term n) None n)
                else
                  let n = n\<lparr>rn_heartbeat_elapsed := rn_heartbeat_elapsed n + 1\<rparr>
                  in if rn_heartbeat_elapsed n \<ge> cf_heartbeat_ticks (rn_cfg n)
                     then (Inr (), broadcast_append (n\<lparr>rn_heartbeat_elapsed := 0\<rparr>))
                     else (Inr (), n))
         else
           let n = n\<lparr>rn_election_elapsed := rn_election_elapsed n + 1\<rparr>
           in if rn_election_elapsed n \<ge> rn_election_timeout n then pre_campaign n else (Inr (), n))"

definition propose :: "meta_command \<Rightarrow> raft_node \<Rightarrow> nat raft" where
  "propose cmd n =
     (if rn_role n \<noteq> Leader then (Inl (NotLeader (rn_leader n)), n)
      else if config_of cmd \<noteq> None then (Inl BadConfig, n)
      else
        andthen (append_validated cmd n) (\<lambda>index n.
        andthen (advance_commit (broadcast_append n)) (\<lambda>_ n. (Inr index, n))))"

definition raft_change_membership :: "node_id fset \<Rightarrow> (node_id, string) btree \<Rightarrow> raft_node \<Rightarrow> nat raft" where
  "raft_change_membership vs addrs n =
     (if rn_role n \<noteq> Leader then (Inl (NotLeader (rn_leader n)), n)
      else if vs = {||} then (Inl BadConfig, n)
      else (case rn_membership n of
          Joint _ _ \<Rightarrow> (Inl MembershipBusy, n)
        | Stable old \<Rightarrow>
            if (case config_index n of Some i \<Rightarrow> i > rn_commit_index n | None \<Rightarrow> False)
               \<or> term_at n (rn_commit_index n) \<noteq> Some (node_term n) then (Inl MembershipBusy, n)
            else if old = vs then (Inr (rn_commit_index n), n)
            else if list_ex (\<lambda>v. v \<noteq> node_id_of n \<and> bget addrs v = None \<and> bget (peer_addrs n) v = None
                      \<and> v \<notin> set (cf_peers (rn_cfg n))) (sorted_list_of_fset vs)
              then (Inl BadConfig, n)
            else
              andthen (append_validated (ChangeMembership (Joint old vs) addrs) n) (\<lambda>index n.
              andthen (advance_commit (broadcast_append n)) (\<lambda>_ n. (Inr index, n)))))"

definition read_index :: "raft_node \<Rightarrow> nat raft" where
  "read_index n =
     (let rid = rn_next_read_id n;
          n = n\<lparr>rn_next_read_id := rid + 1\<rparr>
      in if rn_role n = Leader then
           (case register_read None rid n of
              (True, n) \<Rightarrow> (Inr rid, n)
            | (False, n) \<Rightarrow> (Inl (NotLeader (rn_leader n)), n))
         else (case rn_leader n of
             None \<Rightarrow> (Inl (NotLeader None), n)
           | Some l \<Rightarrow> (Inr rid, send l (ReadIndex (node_term n) rid) n)))"

definition read_result :: "nat \<Rightarrow> raft_node \<Rightarrow> nat option option \<times> raft_node" where
  "read_result rid n = (bget (rn_read_results n) rid, n\<lparr>rn_read_results := bdel rid (rn_read_results n)\<rparr>)"

definition forget_read :: "nat \<Rightarrow> raft_node \<Rightarrow> raft_node" where
  "forget_read rid n = n\<lparr>rn_read_results := bdel rid (rn_read_results n),
     rn_pending_reads := filter (\<lambda>r. \<not> (pr_from r = None \<and> pr_id r = rid)) (rn_pending_reads n)\<rparr>"

section \<open>Appends from the leader\<close>

text \<open>Where the leader should retry: below the run of entries with the conflicting term.\<close>

fun back_hint :: "raft_node \<Rightarrow> nat \<Rightarrow> nat \<Rightarrow> nat" where
  "back_hint n t 0 = 0"
| "back_hint n t (Suc h) =
     (if Suc h > rn_snapshot_index n \<and> term_at n (Suc h) = Some t then back_hint n t h else Suc h)"

fun append_entries :: "entry list \<Rightarrow> raft_node \<Rightarrow> unit raft" where
  "append_entries [] n = (Inr (), n)"
| "append_entries (e # es) n =
     (if term_at n (wr_index e) = Some (wr_term e) then append_entries es n
      else if term_at n (wr_index e) \<noteq> None \<and> wr_index e \<le> rn_commit_index n then (Inl Inconsistent, n)
      else
        let n = (if term_at n (wr_index e) \<noteq> None
                 then n\<lparr>rn_wal := dl_truncate_after (wr_index e - 1) (rn_wal n),
                        rn_log := take (wr_index e - rn_snapshot_index n - 1) (rn_log n)\<rparr>
                 else n)
        in case dl_append_unsynced e (rn_wal n) of
             (Inl err, w) \<Rightarrow> (Inl (RaftWal err), n\<lparr>rn_wal := w\<rparr>)
           | (Inr _, w) \<Rightarrow> append_entries es (n\<lparr>rn_wal := w, rn_log := rn_log n @ [e]\<rparr>))"

definition handle_append :: "nat \<Rightarrow> nat \<Rightarrow> entry list \<Rightarrow> nat \<Rightarrow> raft_node \<Rightarrow> (bool \<times> nat) raft" where
  "handle_append prev_index prev_term entries leader_commit n =
     (let skip = rn_snapshot_index n - prev_index;
          covered = (prev_index < rn_snapshot_index n)
      in if covered \<and> skip \<ge> length entries then (Inr (True, rn_snapshot_index n), n)
         else
           let es = (if covered then drop skip entries else entries);
               prev_index = (if covered then rn_snapshot_index n else prev_index);
               prev_term = (if covered then rn_snapshot_term n else prev_term)
           in case term_at n prev_index of
                None \<Rightarrow> (Inr (False, last_index n), n)
              | Some t \<Rightarrow>
                  if t \<noteq> prev_term then (Inr (False, back_hint n t (prev_index - 1)), n)
                  else
                    let match_index = prev_index + length es
                    in andthen (append_entries es n) (\<lambda>_ n.
                      let n = refresh_membership n
                      in if leader_commit > rn_commit_index n
                         then andthen (raft_apply_committed
                                (n\<lparr>rn_commit_index := max (min leader_commit match_index) (rn_commit_index n)\<rparr>))
                              (\<lambda>_ n. (Inr (True, match_index), n))
                         else (Inr (True, match_index), n)))"

section \<open>Snapshots from the leader\<close>

definition adopt_snapshot :: "catalog \<Rightarrow> raft_node \<Rightarrow> raft_node" where
  "adopt_snapshot snap n =
     (let si = applied_index snap; st = current_term snap;
          n = n\<lparr>rn_catalog := snap\<rparr>;
          n = (if term_at n si = Some st
               then n\<lparr>rn_log := drop (si - rn_snapshot_index n) (rn_log n), rn_wal := dl_compact_through si (rn_wal n)\<rparr>
               else n\<lparr>rn_log := [], rn_wal := dl_reset si (rn_wal n)\<rparr>)
      in refresh_membership (n\<lparr>rn_wal := dl_raise_floor si (rn_wal n), rn_snapshot_index := si,
           rn_snapshot_term := st, rn_commit_index := si\<rparr>))"

text \<open>The staged store takes the place of the node's own; its catalog is read back from it.\<close>

definition load_checkpoint :: "catalog option \<Rightarrow> catalog option \<Rightarrow> catalog" where
  "load_checkpoint store legacy = fill_usage (case store of
       Some c \<Rightarrow> c | None \<Rightarrow> (case legacy of Some c \<Rightarrow> c | None \<Rightarrow> empty_catalog))"

definition install_staged :: "incoming \<Rightarrow> raft_node \<Rightarrow> raft_node" where
  "install_staged inc n =
     adopt_snapshot (load_checkpoint (Some (ic_catalog inc)) None)
       (n\<lparr>rn_spec := None, rn_catalog := empty_catalog, rn_store := Some (ic_catalog inc)\<rparr>)"

definition handle_snapshot_chunk :: "nat \<Rightarrow> nat \<Rightarrow> snapshot_chunk \<Rightarrow> raft_node \<Rightarrow> nat option raft" where
  "handle_snapshot_chunk index seq chunk n =
     (if index \<le> rn_commit_index n then (Inr (Some seq), n\<lparr>rn_incoming := None\<rparr>)
      else (case chunk of
          Header catalog \<Rightarrow>
            if seq \<noteq> 0 then (Inr None, n\<lparr>rn_incoming := None\<rparr>)
            else (Inr (Some 0), n\<lparr>rn_incoming := Some (incoming_start index catalog)\<rparr>)
        | _ \<Rightarrow>
            (case rn_incoming n of
               None \<Rightarrow> (Inr None, n)
             | Some inc \<Rightarrow>
                 if ic_index inc \<noteq> index then (Inr None, n)
                 else if seq = ic_seq inc then (Inr (Some seq), n)
                 else if seq \<noteq> ic_seq inc + 1 then (Inr None, n)
                 else if chunk = DoneChunk
                   then (Inr (Some seq), install_staged inc (n\<lparr>rn_incoming := None\<rparr>))
                 else (case stage chunk inc of
                     (Inl e, inc) \<Rightarrow> (Inl e, n\<lparr>rn_incoming := Some inc\<rparr>)
                   | (Inr _, inc) \<Rightarrow> (Inr (Some seq), n\<lparr>rn_incoming := Some (inc\<lparr>ic_seq := seq\<rparr>)\<rparr>)))))"

section \<open>Messages\<close>

text \<open>What a message's term does before the message itself is looked at: a disruptive vote request is
  dropped, a higher term makes the node a follower.\<close>

definition step_term :: "node_id \<Rightarrow> message \<Rightarrow> raft_node \<Rightarrow> bool \<times> raft_node" where
  "step_term from_node msg n =
     (let higher = (msg_term msg > node_term n)
      in case msg of
           PreVote _ _ _ \<Rightarrow> (True, n)
         | PreVoteResponse _ True \<Rightarrow> (True, n)
         | RequestVote _ _ _ \<Rightarrow>
             if higher \<and> leader_active n then (False, n)
             else if higher then (True, become_follower (msg_term msg) None n)
             else (True, n)
         | AppendEntries _ _ _ _ _ _ \<Rightarrow>
             if higher then (True, become_follower (msg_term msg) (Some from_node) n) else (True, n)
         | InstallSnapshot _ _ _ _ \<Rightarrow>
             if higher then (True, become_follower (msg_term msg) (Some from_node) n) else (True, n)
         | _ \<Rightarrow> if higher then (True, become_follower (msg_term msg) None n) else (True, n))"

definition on_pre_vote :: "node_id \<Rightarrow> nat \<Rightarrow> nat \<Rightarrow> nat \<Rightarrow> raft_node \<Rightarrow> unit raft" where
  "on_pre_vote from_node term last_log_index last_log_term n =
     (let granted = (term > node_term n \<and> log_up_to_date n last_log_index last_log_term \<and> \<not> leader_active n)
      in (Inr (), send from_node (PreVoteResponse (if granted then term else node_term n) granted) n))"

definition on_pre_vote_response :: "node_id \<Rightarrow> nat \<Rightarrow> bool \<Rightarrow> raft_node \<Rightarrow> unit raft" where
  "on_pre_vote_response from_node term granted n =
     (if rn_role n = PreCandidate \<and> granted \<and> term = node_term n + 1 then
        let n = n\<lparr>rn_votes := finsert from_node (rn_votes n)\<rparr>
        in if has_quorum (rn_membership n) (rn_votes n) then campaign n else (Inr (), n)
      else (Inr (), n))"

definition on_request_vote :: "node_id \<Rightarrow> nat \<Rightarrow> nat \<Rightarrow> nat \<Rightarrow> raft_node \<Rightarrow> unit raft" where
  "on_request_vote from_node term last_log_index last_log_term n =
     (let up_to_date = log_up_to_date n last_log_index last_log_term;
          can_vote = (h_voted_for (rn_hard n) = None \<or> h_voted_for (rn_hard n) = Some from_node);
          granted = (term = node_term n \<and> can_vote \<and> up_to_date);
          n = (if granted
               then reset_election_timer (persist_hard (n\<lparr>rn_hard := (rn_hard n)\<lparr>h_voted_for := Some from_node\<rparr>\<rparr>))
               else n)
      in (Inr (), send from_node (RequestVoteResponse (node_term n) granted) n))"

definition on_request_vote_response :: "node_id \<Rightarrow> nat \<Rightarrow> bool \<Rightarrow> raft_node \<Rightarrow> unit raft" where
  "on_request_vote_response from_node term granted n =
     (if rn_role n = Candidate \<and> term = node_term n \<and> granted then
        let n = n\<lparr>rn_votes := finsert from_node (rn_votes n)\<rparr>
        in if has_quorum (rn_membership n) (rn_votes n) then become_leader n else (Inr (), n)
      else (Inr (), n))"

definition on_append_entries ::
    "node_id \<Rightarrow> nat \<Rightarrow> nat \<Rightarrow> nat \<Rightarrow> entry list \<Rightarrow> nat \<Rightarrow> nat \<Rightarrow> raft_node \<Rightarrow> unit raft" where
  "on_append_entries from_node term prev_index prev_term entries leader_commit read_seq n =
     (if term < node_term n
      then (Inr (), send from_node (AppendEntriesResponse (node_term n) False 0 read_seq) n)
      else
        let n = (if rn_role n \<noteq> Follower then become_follower term (Some from_node) n else n);
            n = reset_election_timer (n\<lparr>rn_leader := Some from_node\<rparr>)
        in andthen (handle_append prev_index prev_term entries leader_commit n) (\<lambda>(success, match_index) n.
             (Inr (), send from_node (AppendEntriesResponse (node_term n) success match_index read_seq) n)))"

definition on_append_response :: "node_id \<Rightarrow> nat \<Rightarrow> bool \<Rightarrow> nat \<Rightarrow> nat \<Rightarrow> raft_node \<Rightarrow> unit raft" where
  "on_append_response from_node term success match_index read_seq n =
     (if rn_role n \<noteq> Leader \<or> term \<noteq> node_term n \<or> bget (rn_next_index n) from_node = None then (Inr (), n)
      else
        let n = n\<lparr>rn_recent_active := finsert from_node (rn_recent_active n)\<rparr>;
            n = (if read_seq > 0 then confirm_reads (Some from_node) read_seq n else n)
        in if success then
             let m = max (case bget (rn_match_index n) from_node of Some m \<Rightarrow> m | None \<Rightarrow> 0) match_index;
                 next = max (m + 1) (case bget (rn_next_index n) from_node of Some i \<Rightarrow> i | None \<Rightarrow> 0);
                 n = n\<lparr>rn_match_index := bput from_node m (rn_match_index n),
                       rn_next_index := bput from_node next (rn_next_index n)\<rparr>
             in andthen (advance_commit (sync_wal n)) (\<lambda>_ n.
                  (Inr (), if next \<le> last_index n then send_append from_node n else n))
           else
             let c = rn_counters n;
                 cur = (case bget (rn_next_index n) from_node of Some i \<Rightarrow> i | None \<Rightarrow> 1);
                 next = max (min (sat_sub cur 1) (match_index + 1)) 1;
                 n = n\<lparr>rn_counters := c\<lparr>ct_append_rejections := ct_append_rejections c + 1\<rparr>,
                       rn_next_index := bput from_node next (rn_next_index n)\<rparr>
             in (Inr (), send_append from_node n))"

definition on_install_snapshot :: "node_id \<Rightarrow> nat \<Rightarrow> nat \<Rightarrow> nat \<Rightarrow> snapshot_chunk \<Rightarrow> raft_node \<Rightarrow> unit raft" where
  "on_install_snapshot from_node term index seq chunk n =
     andthen (if term \<ge> node_term n then
         let n = (if rn_role n \<noteq> Follower then become_follower term (Some from_node) n else n);
             n = reset_election_timer (n\<lparr>rn_leader := Some from_node\<rparr>)
         in handle_snapshot_chunk index seq chunk n
       else (Inr None, n)) (\<lambda>ack n.
       (Inr (), send from_node (InstallSnapshotResponse (node_term n) (rn_commit_index n) ack) n))"

definition on_snapshot_response :: "node_id \<Rightarrow> nat \<Rightarrow> nat \<Rightarrow> nat option \<Rightarrow> raft_node \<Rightarrow> unit raft" where
  "on_snapshot_response from_node term match_index ack n =
     (if rn_role n \<noteq> Leader \<or> term \<noteq> node_term n \<or> bget (rn_next_index n) from_node = None then (Inr (), n)
      else
        let n = n\<lparr>rn_recent_active := finsert from_node (rn_recent_active n)\<rparr>;
            finish = (\<lambda>n.
              let n = n\<lparr>rn_outgoing := bdel from_node (rn_outgoing n)\<rparr>;
                  m = max (case bget (rn_match_index n) from_node of Some m \<Rightarrow> m | None \<Rightarrow> 0)
                        (min match_index (last_index n));
                  next = m + 1;
                  n = n\<lparr>rn_match_index := bput from_node m (rn_match_index n),
                        rn_next_index := bput from_node next (rn_next_index n)\<rparr>
              in andthen (advance_commit n) (\<lambda>_ n.
                   (Inr (), if next \<le> last_index n then send_append from_node n else n)))
        in case bget (rn_outgoing n) from_node of
             Some o1 \<Rightarrow>
               if match_index < og_index o1 then
                 (case ack of
                    Some seq \<Rightarrow>
                      if seq = og_seq o1 \<and> \<not> is_done o1 then
                        let o1 = advance (rn_ticks n) o1
                        in (Inr (), send from_node (snapshot_message (node_term n) o1)
                             (n\<lparr>rn_outgoing := bput from_node o1 (rn_outgoing n)\<rparr>))
                      else (Inr (), n)
                  | None \<Rightarrow>
                      let o1 = outgoing_start (rn_catalog n) (rn_ticks n)
                      in (Inr (), (send from_node (snapshot_message (node_term n) o1) n)
                           \<lparr>rn_outgoing := bput from_node o1 (rn_outgoing n)\<rparr>))
               else finish n
           | None \<Rightarrow> finish n)"

definition on_read_index :: "node_id \<Rightarrow> nat \<Rightarrow> nat \<Rightarrow> raft_node \<Rightarrow> unit raft" where
  "on_read_index from_node term rid n =
     (let (registered, n) = (if term = node_term n \<and> rn_role n = Leader
            then register_read (Some from_node) rid n else (False, n))
      in (Inr (), if registered then n else send from_node (ReadIndexResponse (node_term n) rid None) n))"

fun on_message :: "node_id \<Rightarrow> message \<Rightarrow> raft_node \<Rightarrow> unit raft" where
  "on_message f (PreVote t i lt) = on_pre_vote f t i lt"
| "on_message f (PreVoteResponse t g) = on_pre_vote_response f t g"
| "on_message f (RequestVote t i lt) = on_request_vote f t i lt"
| "on_message f (RequestVoteResponse t g) = on_request_vote_response f t g"
| "on_message f (AppendEntries t pi pt es lc rs) = on_append_entries f t pi pt es lc rs"
| "on_message f (AppendEntriesResponse t s m rs) = on_append_response f t s m rs"
| "on_message f (InstallSnapshot t i s ch) = on_install_snapshot f t i s ch"
| "on_message f (InstallSnapshotResponse t m a) = on_snapshot_response f t m a"
| "on_message f (ReadIndex t i) = on_read_index f t i"
| "on_message f (ReadIndexResponse t i x) =
     (\<lambda>n. (Inr (), if rn_role n \<noteq> Leader then n\<lparr>rn_read_results := bput i x (rn_read_results n)\<rparr> else n))"

definition step :: "envelope \<Rightarrow> raft_node \<Rightarrow> unit raft" where
  "step env n = (case step_term (en_from env) (en_msg env) n of
       (False, n) \<Rightarrow> (Inr (), n)
     | (True, n) \<Rightarrow> on_message (en_from env) (en_msg env) n)"

section \<open>Opening\<close>

definition fnv_rng :: "node_id \<Rightarrow> 64 word" where
  "fnv_rng nid = fold (\<lambda>b r. (r XOR of_char b) * 0x100000001B3) nid 0xCBF29CE484222325 OR 1"

definition raft_open :: "raft_config \<Rightarrow> raft_disk \<Rightarrow> raft_error + raft_node" where
  "raft_open cfg disk =
     rbind (guard (distinct (cf_peers cfg) \<and> cf_id cfg \<notin> set (cf_peers cfg)) BadConfig) (\<lambda>_.
     rbind (guard (\<not> (cf_election_lo cfg = 0 \<or> cf_election_hi cfg \<le> cf_election_lo cfg
         \<or> cf_heartbeat_ticks cfg = 0 \<or> cf_heartbeat_ticks cfg \<ge> cf_election_lo cfg)) BadConfig) (\<lambda>_.
       let hard = (case dk_hard disk of Some h \<Rightarrow> h | None \<Rightarrow> \<lparr>h_term = 0, h_voted_for = None\<rparr>);
           catalog = load_checkpoint (dk_store disk) (dk_legacy disk);
           store = (if dk_store disk = None then Some catalog else dk_store disk);
           applied = applied_index catalog;
           log = filter (\<lambda>e. wr_index e > applied) (dk_wal disk)
       in rbind (guard (map wr_index log = map (\<lambda>i. applied + 1 + i) [0..<length log]) Inconsistent) (\<lambda>_.
            let wal = dl_raise_floor applied (dl_compact_through applied (dl_load (dk_wal disk)))
            in rbind (case cf_bootstrap cfg of
                 Some b \<Rightarrow> if b = [] \<or> \<not> distinct b then Inl BadConfig else Inr (stable b)
               | None \<Rightarrow> Inr (stable (cf_peers cfg @ [cf_id cfg]))) (\<lambda>initial.
               Inr (reset_election_timer (refresh_membership
                 \<lparr>rn_cfg = cfg, rn_membership = initial, rn_initial = initial,
                  rn_counters = \<lparr>ct_elections = 0, ct_leader_terms = 0, ct_append_rejections = 0\<rparr>,
                  rn_role = Follower, rn_hard = hard\<lparr>h_term := max (h_term hard) (current_term catalog)\<rparr>,
                  rn_leader = None, rn_log = log, rn_snapshot_index = applied, rn_snapshot_term = current_term catalog,
                  rn_commit_index = applied, rn_catalog = catalog, rn_spec = None, rn_wal = wal, rn_store = store,
                  rn_disk_hard = dk_hard disk, rn_votes = {||}, rn_next_index = bempty, rn_match_index = bempty,
                  rn_recent_active = {||}, rn_check_quorum_elapsed = 0, rn_election_elapsed = 0,
                  rn_election_timeout = 0, rn_heartbeat_elapsed = 0, rn_ticks = 0, rn_outgoing = bempty,
                  rn_incoming = None, rn_rng = fnv_rng (cf_id cfg), rn_outbox = [], rn_read_seq = 0,
                  rn_pending_reads = [], rn_next_read_id = 1, rn_read_results = bempty\<rparr>))))))"

end
