(* ===== verification/ApplyFrame.thy ===== *)
theory ApplyFrame
  imports Metadata
begin

text \<open>
  No command touches the applied index or the term of the catalog; only applying an entry moves
  them. This holds of failing commands too.
\<close>

definition mark :: "catalog \<Rightarrow> nat \<times> nat" where
  "mark c = (applied_index c, current_term c)"

definition marks :: "catalog \<Rightarrow> ('a, catalog) change \<Rightarrow> bool" where
  "marks c r \<longleftrightarrow> mark (snd r) = mark c"

named_theorems marking \<open>steps that leave the applied index and the term alone\<close>

lemma marks_values [marking]: "mark c' = mark c \<Longrightarrow> marks c (r, c')"
  by (simp add: marks_def)

lemma marks_attempt [marking]:
  "mark s = mark c \<Longrightarrow> (\<And>x. r = Inr x \<Longrightarrow> marks c (k x)) \<Longrightarrow> marks c (attempt s r k)"
  by (cases r) (auto simp: marks_def)

lemma marks_andthen [marking]:
  assumes "marks c r" and "\<And>x s. mark s = mark c \<Longrightarrow> marks c (k x s)"
  shows "marks c (andthen r k)"
  using assms by (cases r; cases "fst r") (auto simp: marks_def)

lemma marks_if [marking]: "(b \<Longrightarrow> marks c x) \<Longrightarrow> (\<not> b \<Longrightarrow> marks c y) \<Longrightarrow> marks c (if b then x else y)"
  by simp

lemma mark_frame [simp]:
  "mark (put_fs fs f c) = mark c" "mark (edit_usage fs g c) = mark c" "mark (forget_usage fs i c) = mark c"
  "mark (add_extent_ref x c) = mark c"
  by (simp_all add: mark_def put_fs_def edit_usage_def forget_usage_def add_extent_ref_def Let_def
      split: option.split inode_kind.split)

lemma mark_add_extent_refs [simp]: "mark (fold add_extent_ref xs c) = mark c"
  by (induction xs arbitrary: c) simp_all

lemma mark_updates [simp]:
  "mark (c\<lparr>volumes := v\<rparr>) = mark c" "mark (c\<lparr>snapshots := s\<rparr>) = mark c" "mark (c\<lparr>extents := e\<rparr>) = mark c"
  "mark (c\<lparr>free := fl\<rparr>) = mark c" "mark (c\<lparr>membership_of := m\<rparr>) = mark c" "mark (c\<lparr>raft_addrs := ra\<rparr>) = mark c"
  "mark (c\<lparr>filesystems := fs\<rparr>) = mark c" "mark (c\<lparr>fs_snapshots := ss\<rparr>) = mark c" "mark (c\<lparr>leases_of := l\<rparr>) = mark c"
  by (simp_all add: mark_def)

lemma marks_ref [marking]:
  "mark s = mark c \<Longrightarrow> marks c (dec_ref e gc s)" "mark s = mark c \<Longrightarrow> marks c (inc_ref e s)"
  by (auto simp: dec_ref_def inc_ref_def intro!: marking)

lemma marks_dec_refs [marking]: "mark s = mark c \<Longrightarrow> marks c (dec_refs es gc s)"
  by (induction es arbitrary: gc s) (auto intro!: marking)

lemma marks_inc_refs [marking]: "mark s = mark c \<Longrightarrow> marks c (inc_refs es s)"
  by (induction es arbitrary: s) (auto intro!: marking)

lemma marks_drop_inodes [marking]: "mark s = mark c \<Longrightarrow> marks c (drop_inodes is gc s)"
  by (induction "is" arbitrary: gc s) (auto simp: drop_inode_def Let_def intro!: marking split: inode_kind.split)

lemma marks_steps [marking]:
  "mark s = mark c \<Longrightarrow> marks c (share_extents t s)" "mark s = mark c \<Longrightarrow> marks c (release_inode fs gone gc s)"
  "mark s = mark c \<Longrightarrow> marks c (release_replicas rs ln s)" "mark s = mark c \<Longrightarrow> marks c (with_fs fs f s)"
  "mark s = mark c \<Longrightarrow> marks c (change_inode fs ino g s)" "marks c x \<Longrightarrow> marks c (keep_gc gc x)"
  by (auto simp: share_extents_def release_inode_def release_replicas_def with_fs_def change_inode_def keep_gc_def
      drop_inode_def case_prod_beta intro!: marking split: option.split prod.split bool.split inode_kind.split)

lemma marks_forget_inodes [marking]: "mark s = mark c \<Longrightarrow> marks c (forget_inodes fs is gc s)"
  by (induction "is" arbitrary: gc s) (auto simp: drop_inode_def intro!: marking split: inode_kind.split)

lemma marks_trees [marking]:
  "mark s = mark c \<Longrightarrow> marks c (snapshot_tree sid fs name now s)" "mark s = mark c \<Longrightarrow> marks c (revert_to fs sid r gc s)"
  "mark s = mark c \<Longrightarrow> marks c (discard_partial fs gc s)"
  by (auto simp: snapshot_tree_def revert_to_def discard_partial_def Let_def intro!: marking split: option.split)

lemma marks_fs_op [marking]: "marks c (apply_fs_op op gc c)"
  by (cases op)
    (auto simp: create_fs_def delete_fs_def mknode_def link_def unlink_def rmdir_def rename_def setattr_def setxattr_def
      removexattr_def install_file_extent_def install_file_extents_def snapshot_fs_def delete_fs_snapshot_def
      clone_fs_def set_quota_def create_replica_def replica_apply_def replica_commit_def replica_promote_def
      replica_demote_def Let_def case_prod_beta intro!: marking split: option.split)

lemma marks_command: "marks c (run_command term cmd c)"
  by (cases cmd)
    (auto simp: create_volume_def install_extent_def install_extents_def create_snapshot_def delete_snapshot_def
      delete_volume_def resize_volume_def clone_snapshot_def mark_extent_reclaimed_def replace_replica_def tier_extent_def
      change_membership_def lease_command_def apply_fs_def Let_def case_prod_beta intro!: marking
      split: option.split sum.split)

text \<open>Applying a committed entry: an old index changes nothing, a new one is recorded with its term.\<close>

lemma apply_committed_mark:
  assumes "apply_committed term index cmd c = (r, c')" and "r \<noteq> Inl Panic" and "r \<noteq> Inl Diverge"
  shows "index \<le> applied_index c \<Longrightarrow> c' = c"
    and "applied_index c < index \<Longrightarrow> applied_index c' = index \<and> current_term c' = term"
proof -
  obtain x d where x: "run_command term cmd c = (x, d)" by (rule prod.exhaust)
  have d: "applied_index d = applied_index c"
    using marks_command [of c "term" cmd] by (simp add: marks_def mark_def x)
  show "index \<le> applied_index c \<Longrightarrow> c' = c"
    using assms(1) by (simp add: apply_committed_def catalog_apply_def apply_inner_def)
  show "applied_index c < index \<Longrightarrow> applied_index c' = index \<and> current_term c' = term"
    using assms d
    by (cases x) (auto simp: apply_committed_def catalog_apply_def apply_inner_def applied_def x
        split: meta_error.splits if_splits)
qed

text \<open>A command that ends the process has not recorded its index.\<close>

lemma apply_committed_stuck:
  assumes "apply_committed term index cmd c = (r, c')" and "r = Inl Panic \<or> r = Inl Diverge"
  shows "applied_index c' = applied_index c \<and> current_term c' = current_term c"
proof -
  obtain x d where x: "run_command term cmd c = (x, d)" by (rule prod.exhaust)
  have "applied_index d = applied_index c \<and> current_term d = current_term c"
    using marks_command [of c "term" cmd] by (simp add: marks_def mark_def x)
  with assms show ?thesis
    by (cases x) (auto simp: apply_committed_def catalog_apply_def apply_inner_def x split: meta_error.splits if_splits)
qed

end
