(* ===== verification/RaftInv.thy ===== *)
theory RaftInv
  imports RaftNode ApplyFrame CommandLog
begin

text \<open>
  What holds of a single Raft node: its log is contiguous and mirrored on disk, the snapshot,
  applied, commit and last index are in order, a restart finds what it needs, and no operation
  forgets a committed entry, goes back in term or commit index, or changes a vote within a term.
\<close>

section \<open>Contiguous logs\<close>

definition contiguous :: "nat \<Rightarrow> entry list \<Rightarrow> bool" where
  "contiguous i es \<longleftrightarrow> map wr_index es = [i + 1..<i + 1 + length es]"

lemma contiguous_map: "contiguous i es \<longleftrightarrow> map wr_index es = map (\<lambda>k. i + 1 + k) [0..<length es]"
  using map_add_upt [of "i + 1" "length es"] by (simp only: contiguous_def add.commute)

lemma contiguous_simps [simp]: "contiguous i []"
  "contiguous i (es @ [e]) \<longleftrightarrow> contiguous i es \<and> wr_index e = i + 1 + length es"
  by (auto simp: contiguous_def)

lemma contiguous_nth: "contiguous i es \<Longrightarrow> k < length es \<Longrightarrow> wr_index (es ! k) = i + 1 + k"
  unfolding contiguous_def by (metis add_less_cancel_left nth_map nth_upt)

lemma contiguous_append: "contiguous i (as @ bs) \<longleftrightarrow> contiguous i as \<and> contiguous (i + length as) bs"
proof (induction bs rule: rev_induct)
  case (snoc b bs)
  then show ?case using contiguous_simps(2) [of i "as @ bs" b] by (auto simp: add.assoc)
qed simp

lemma contiguous_take: "contiguous i es \<Longrightarrow> contiguous i (take k es)"
  using contiguous_append [of i "take k es" "drop k es"] by simp

lemma contiguous_drop: "contiguous i es \<Longrightarrow> k \<le> length es \<Longrightarrow> contiguous (i + k) (drop k es)"
  using contiguous_append [of i "take k es" "drop k es"] by simp

lemma contiguous_filter:
  assumes "contiguous i es" and "i \<le> j"
  shows "filter (\<lambda>e. j < wr_index e) es = drop (j - i) es" "filter (\<lambda>e. wr_index e \<le> j) es = take (j - i) es"
  using assms
proof (induction es rule: rev_induct)
  case (snoc e es)
  { case 1
    with snoc show ?case by (cases "j - i \<le> length es") auto
  next
    case 2
    with snoc show ?case by (cases "j - i \<le> length es") auto }
qed simp_all

section \<open>The invariant\<close>

definition node_ok :: "raft_node \<Rightarrow> bool" where
  "node_ok n \<longleftrightarrow>
     contiguous (rn_snapshot_index n) (rn_log n)
   \<and> dl_records (rn_wal n) = rn_log n \<and> dl_last (rn_wal n) = rn_snapshot_index n + length (rn_log n)
   \<and> dl_synced (rn_wal n) \<le> dl_last (rn_wal n)
   \<and> rn_snapshot_index n \<le> applied_of n \<and> applied_of n \<le> rn_commit_index n
   \<and> rn_commit_index n \<le> rn_snapshot_index n + length (rn_log n)
   \<and> (\<exists>c. rn_store n = Some c \<and> rn_snapshot_index n \<le> applied_index c \<and> applied_index c \<le> applied_of n
        \<and> current_term c \<le> node_term n)
   \<and> (\<forall>inc. rn_incoming n = Some inc \<longrightarrow> applied_index (ic_catalog inc) = ic_index inc
        \<and> current_term (ic_catalog inc) \<le> node_term n)
   \<and> (\<forall>e \<in> set (rn_log n). wr_term e \<le> node_term n) \<and> rn_snapshot_term n \<le> node_term n
   \<and> current_term (rn_catalog n) \<le> node_term n"

text \<open>How a node may change.\<close>

definition grows :: "raft_node \<Rightarrow> raft_node \<Rightarrow> bool" where
  "grows n n' \<longleftrightarrow>
     rn_cfg n' = rn_cfg n \<and> node_term n \<le> node_term n'
   \<and> (node_term n' = node_term n \<longrightarrow> h_voted_for (rn_hard n) \<noteq> None \<longrightarrow> h_voted_for (rn_hard n') = h_voted_for (rn_hard n))
   \<and> (rn_hard n' = rn_hard n \<and> rn_disk_hard n' = rn_disk_hard n \<or> rn_disk_hard n' = Some (rn_hard n'))
   \<and> rn_snapshot_index n \<le> rn_snapshot_index n' \<and> rn_commit_index n \<le> rn_commit_index n' \<and> applied_of n \<le> applied_of n'
   \<and> (\<forall>i \<le> rn_commit_index n. rn_snapshot_index n' < i \<longrightarrow> entry_at n' i = entry_at n i)"

text \<open>Errors that mean a broken log.\<close>

fun broken :: "raft_error \<Rightarrow> bool" where
  "broken Inconsistent \<longleftrightarrow> True"
| "broken RaftDiverge \<longleftrightarrow> True"
| "broken (RaftWal _) \<longleftrightarrow> True"
| "broken _ \<longleftrightarrow> False"

fun sane :: "raft_error + 'a \<Rightarrow> bool" where
  "sane (Inl e) \<longleftrightarrow> \<not> broken e"
| "sane (Inr _) \<longleftrightarrow> True"

definition keeps_ok :: "raft_node \<Rightarrow> 'a raft \<Rightarrow> bool" where
  "keeps_ok n r \<longleftrightarrow> node_ok (snd r) \<and> grows n (snd r) \<and> sane (fst r)"

lemma grows_refl [simp]: "grows n n"
  by (simp add: grows_def)

lemma grows_trans: "grows n m \<Longrightarrow> grows m k \<Longrightarrow> grows n k"
  unfolding grows_def by (auto intro: order_trans)

lemma node_okD:
  assumes "node_ok n"
  shows "contiguous (rn_snapshot_index n) (rn_log n)" "dl_records (rn_wal n) = rn_log n"
    "dl_last (rn_wal n) = rn_snapshot_index n + length (rn_log n)" "dl_synced (rn_wal n) \<le> dl_last (rn_wal n)"
    "rn_snapshot_index n \<le> applied_of n" "applied_of n \<le> rn_commit_index n"
    "rn_commit_index n \<le> rn_snapshot_index n + length (rn_log n)"
    "\<forall>e \<in> set (rn_log n). wr_term e \<le> node_term n" "rn_snapshot_term n \<le> node_term n"
    "current_term (rn_catalog n) \<le> node_term n"
  using assms unfolding node_ok_def by blast+

lemma last_index_eq: "node_ok n \<Longrightarrow> last_index n = rn_snapshot_index n + length (rn_log n)"
  using node_okD(1) [of n] by (cases "rn_log n" rule: rev_cases) (auto simp: last_index_def)

lemma entry_at_eq: "entry_at n i = (if rn_snapshot_index n < i \<and> i \<le> rn_snapshot_index n + length (rn_log n)
    then Some (rn_log n ! (i - rn_snapshot_index n - 1)) else None)"
  by (auto simp: entry_at_def nth_opt_def)

lemma entry_at_drop:
  assumes "rn_log m = drop (t - rn_snapshot_index n) (rn_log n)" and "rn_snapshot_index m = t"
    and "rn_snapshot_index n \<le> t" and "t < i"
  shows "entry_at m i = entry_at n i"
proof -
  have "t - rn_snapshot_index n + (i - Suc t) = i - Suc (rn_snapshot_index n)" using assms(3,4) by arith
  then show ?thesis using assms by (auto simp: entry_at_eq)
qed

lemma entry_at_index: "node_ok n \<Longrightarrow> entry_at n i = Some e \<Longrightarrow> wr_index e = i"
  using contiguous_nth [OF node_okD(1), of n "i - rn_snapshot_index n - 1"] by (auto simp: entry_at_eq split: if_splits)

lemma term_at_eq: "term_at n i = (if i = rn_snapshot_index n then Some (rn_snapshot_term n)
    else if rn_snapshot_index n < i \<and> i \<le> rn_snapshot_index n + length (rn_log n)
    then Some (wr_term (rn_log n ! (i - rn_snapshot_index n - 1))) else None)"
  by (auto simp: term_at_def entry_at_eq)

lemma term_at_le: "node_ok n \<Longrightarrow> term_at n i = Some t \<Longrightarrow> t \<le> node_term n"
  by (auto simp: term_at_eq node_ok_def split: if_splits)

lemma entry_at_le: "node_ok n \<Longrightarrow> entry_at n i = Some e \<Longrightarrow> wr_term e \<le> node_term n"
  by (auto simp: entry_at_eq node_ok_def split: if_splits)

section \<open>Small steps\<close>

lemma keeps_okI: "node_ok n' \<Longrightarrow> grows n n' \<Longrightarrow> keeps_ok n (Inr x, n')"
  by (simp add: keeps_ok_def)

lemma keeps_ok_andthen:
  assumes "keeps_ok n r" and "\<And>x m. r = (Inr x, m) \<Longrightarrow> node_ok m \<Longrightarrow> grows n m \<Longrightarrow> keeps_ok n (k x m)"
  shows "keeps_ok n (andthen r k)"
proof (cases r)
  case (Pair x m)
  then show ?thesis
    using assms by (cases x) (auto simp: keeps_ok_def)
qed

lemma keeps_ok_trans: "grows n m \<Longrightarrow> keeps_ok m r \<Longrightarrow> keeps_ok n r"
  by (auto simp: keeps_ok_def intro: grows_trans)

text \<open>Steps that touch nothing the invariant speaks of.\<close>

definition core :: "raft_node \<Rightarrow> _" where
  "core n = ((rn_cfg n, rn_hard n, rn_disk_hard n, rn_commit_index n, rn_catalog n, rn_store n), rn_log n, rn_snapshot_index n, rn_snapshot_term n, rn_incoming n)"

lemma core_grows: "core n' = core n \<Longrightarrow> grows n n'"
  by (auto simp: core_def grows_def entry_at_def)

lemma core_ok: "core n' = core n \<Longrightarrow> rn_wal n' = rn_wal n \<Longrightarrow> node_ok n' = node_ok n"
  by (auto simp: core_def node_ok_def)

lemma quiet_core: "quiet n' = quiet n \<Longrightarrow> core n' = core n \<and> rn_wal n' = rn_wal n"
  using quietD [of n' n] by (simp add: core_def)

lemma quiet_ok: "quiet n' = quiet n \<Longrightarrow> node_ok n' = node_ok n"
  using quiet_core core_ok by blast

lemma quiet_grows: "quiet n' = quiet n \<Longrightarrow> grows n n'"
  using quiet_core core_grows by blast

lemma core_frame [simp]:
  "core (send to msg n) = core n" "core (send_append p n) = core n" "core (broadcast_append n) = core n"
  "core (sync_wal n) = core n" "core (answer_read f i x n) = core n" "core (confirm_reads f s n) = core n"
  "core (reset_election_timer n) = core n" "core (refresh_membership n) = core n" "core (snd (spec_mut n)) = core n"
  by (simp_all add: core_def)

lemma node_ok_frame [simp]:
  "node_ok (send to msg n) = node_ok n" "node_ok (send_append p n) = node_ok n" "node_ok (broadcast_append n) = node_ok n"
  "node_ok (answer_read f i x n) = node_ok n" "node_ok (confirm_reads f s n) = node_ok n"
  "node_ok (reset_election_timer n) = node_ok n" "node_ok (refresh_membership n) = node_ok n"
  "node_ok (snd (spec_mut n)) = node_ok n"
  by (rule core_ok; simp)+

lemma node_ok_sync: "node_ok n \<Longrightarrow> node_ok (sync_wal n)"
  by (auto simp: node_ok_def dl_sync_def)

lemma become_follower_ok:
  assumes "node_ok n"
  shows "node_ok (become_follower t l n)" "grows n (become_follower t l n)"
  using assms by (auto simp: node_ok_def dl_sync_def grows_def entry_at_def)

section \<open>Appending\<close>

lemma append_local_ok:
  assumes "node_ok n"
  shows "keeps_ok n (append_local cmd n)"
    and "append_local cmd n = (r, n') \<Longrightarrow> r = Inr (last_index n + 1)
      \<and> rn_log n' = rn_log n @ [\<lparr>wr_term = node_term n, wr_index = last_index n + 1, wr_command = cmd\<rparr>]
      \<and> rn_snapshot_index n' = rn_snapshot_index n \<and> rn_hard n' = rn_hard n \<and> rn_commit_index n' = rn_commit_index n
      \<and> rn_role n' = rn_role n \<and> rn_catalog n' = rn_catalog n"
proof -
  let ?e = "\<lparr>wr_term = node_term n, wr_index = last_index n + 1, wr_command = cmd\<rparr>"
  define m where "m = n\<lparr>rn_wal := (rn_wal n)\<lparr>dl_records := dl_records (rn_wal n) @ [?e], dl_last := last_index n + 1\<rparr>,
    rn_spec := map_option (\<lambda>s. snd (apply_committed (node_term n) (last_index n + 1) cmd s)) (rn_spec n),
    rn_log := rn_log n @ [?e]\<rparr>"
  have l: "last_index n = rn_snapshot_index n + length (rn_log n)" by (rule last_index_eq [OF assms])
  have w: "dl_append_unsynced ?e (rn_wal n) =
      (Inr (), (rn_wal n)\<lparr>dl_records := dl_records (rn_wal n) @ [?e], dl_last := last_index n + 1\<rparr>)"
    using node_okD(3) [OF assms] l by (simp add: dl_append_unsynced_def guard_def)
  have a: "append_local cmd n = (Inr (last_index n + 1), if config_of cmd \<noteq> None then refresh_membership m else m)"
    unfolding append_local_def Let_def w by (simp add: m_def)
  have "node_ok m" using assms l by (auto simp: node_ok_def m_def)
  moreover have "grows n m"
    using node_okD(7) [OF assms] by (auto simp: grows_def m_def entry_at_eq nth_append)
  moreover have "grows m (refresh_membership m)" by (rule core_grows) simp
  ultimately show "keeps_ok n (append_local cmd n)" unfolding a keeps_ok_def by (auto intro: grows_trans)
  show "append_local cmd n = (r, n') \<Longrightarrow> r = Inr (last_index n + 1) \<and> rn_log n' = rn_log n @ [?e]
      \<and> rn_snapshot_index n' = rn_snapshot_index n \<and> rn_hard n' = rn_hard n \<and> rn_commit_index n' = rn_commit_index n
      \<and> rn_role n' = rn_role n \<and> rn_catalog n' = rn_catalog n"
    unfolding a by (auto simp: m_def)
qed

lemma spec_update [simp]: "core (n\<lparr>rn_spec := s\<rparr>) = core n" "node_ok (n\<lparr>rn_spec := s\<rparr>) = node_ok n"
  "last_index (n\<lparr>rn_spec := s\<rparr>) = last_index n"
  by (simp_all add: core_def node_ok_def last_index_def)

lemma append_validated_ok:
  assumes "node_ok n"
  shows "keeps_ok n (append_validated cmd n)"
proof -
  obtain s n1 where s: "spec_mut n = (s, n1)" by (rule prod.exhaust)
  have n1: "core n1 = core n" "node_ok n1" using core_frame(9) [of n] node_ok_frame(8) [of n] assms by (simp_all add: s)
  obtain r s' where c: "catalog_apply (node_term n) (Suc (last_index n)) cmd s = (r, s')" by (rule prod.exhaust)
  show ?thesis
  proof (cases r)
    case (Inl e)
    then show ?thesis using n1 by (simp add: append_validated_def s c keeps_ok_def core_grows)
  next
    case (Inr g)
    let ?m = "n1\<lparr>rn_spec := Some s'\<rparr>"
    have k: "keeps_ok n (append_local cmd ?m)"
      using n1 by (intro keeps_ok_trans [OF core_grows append_local_ok(1)]) simp_all
    obtain x m where a: "append_local cmd ?m = (x, m)" by (rule prod.exhaust)
    have "\<exists>i. x = Inr i" using append_local_ok(2) [OF _ a] n1 by simp
    then show ?thesis using Inr k a by (auto simp: append_validated_def s c)
  qed
qed

section \<open>Applying\<close>

lemma maybe_compact_ok:
  assumes "node_ok n"
  shows "keeps_ok n (maybe_compact n)"
proof -
  let ?k = "cf_compact_after (rn_cfg n)"
  let ?t = "applied_of n - ?k"
  show ?thesis
  proof (cases "?k = 0 \<or> applied_of n - rn_snapshot_index n < 2 * ?k")
    case True
    then show ?thesis using assms by (auto simp: maybe_compact_def Let_def intro: keeps_okI)
  next
    case False
    let ?d = "?t - rn_snapshot_index n"
    have t: "rn_snapshot_index n \<le> ?t" "?t \<le> applied_of n" "?d \<le> length (rn_log n)"
      using False node_okD(5-7) [OF assms] by auto
    have "term_at n ?t \<noteq> None" using t node_okD(5-7) [OF assms] by (auto simp: term_at_eq)
    then obtain tt where tt: "term_at n ?t = Some tt" by blast
    define m where "m = n\<lparr>rn_store := Some (rn_catalog n), rn_wal := dl_compact_through ?t (rn_wal n),
      rn_log := drop ?d (rn_log n), rn_snapshot_index := ?t, rn_snapshot_term := tt\<rparr>"
    have eq: "maybe_compact n = (Inr (), m)"
      using False tt by (simp add: maybe_compact_def Let_def persist_catalog_def m_def)
    have f: "filter (\<lambda>e. ?t < wr_index e) (rn_log n) = drop ?d (rn_log n)"
      using contiguous_filter(1) [OF node_okD(1) [OF assms] t(1)] by simp
    have "contiguous ?t (drop ?d (rn_log n))"
      using contiguous_drop [OF node_okD(1) [OF assms] t(3)] unfolding le_add_diff_inverse [OF t(1)] .
    then have "node_ok m"
      using assms t f term_at_le [OF assms tt]
      by (auto simp: node_ok_def m_def dl_compact_through_def dl_rewrite_def dest: in_set_dropD)
    moreover have "grows n m"
      using t node_okD(5,6) [OF assms] by (auto simp: grows_def m_def intro!: entry_at_drop)
    ultimately show ?thesis unfolding eq by (rule keeps_okI)
  qed
qed

lemma catalog_update_ok:
  assumes "node_ok n" and "applied_of n \<le> applied_index c" and "applied_index c \<le> rn_commit_index n"
    and "current_term c \<le> node_term n"
  shows "node_ok (n\<lparr>rn_catalog := c\<rparr>)" "grows n (n\<lparr>rn_catalog := c\<rparr>)"
  using assms by (auto simp: node_ok_def grows_def entry_at_def)

lemma commit_update_ok:
  assumes "node_ok n" and "rn_commit_index n \<le> i" and "i \<le> last_index n"
  shows "node_ok (n\<lparr>rn_commit_index := i\<rparr>)" "grows n (n\<lparr>rn_commit_index := i\<rparr>)"
  using assms by (auto simp: node_ok_def last_index_eq grows_def entry_at_def)

lemma apply_rounds_ok:
  assumes "node_ok n" and "rn_commit_index n - applied_of n \<le> k"
  shows "keeps_ok n (apply_rounds k n)"
  using assms
proof (induction k arbitrary: n)
  case 0
  then have "apply_rounds 0 n = (Inr (), n)" by (subst apply_rounds.simps) simp
  then show ?case using 0 by (simp add: keeps_ok_def)
next
  case (Suc k)
  show ?case
  proof (cases "applied_of n < rn_commit_index n")
    case True
    let ?i = "Suc (applied_of n)"
    have "entry_at n ?i \<noteq> None" using True node_okD(5,7) [OF Suc.prems(1)] by (auto simp: entry_at_eq)
    then obtain e where e: "entry_at n ?i = Some e" by blast
    have i: "wr_index e = ?i" by (rule entry_at_index [OF Suc.prems(1) e])
    obtain r c where c: "apply_committed (wr_term e) (wr_index e) (wr_command e) (rn_catalog n) = (r, c)" by (rule prod.exhaust)
    note ok = catalog_update_ok [OF Suc.prems(1), of c]
    show ?thesis
    proof (cases "r = Inl Panic \<or> r = Inl Diverge")
      case bad: True
      then have "applied_index c = applied_of n \<and> current_term c \<le> node_term n"
        using apply_committed_stuck [OF c] Suc.prems(1) by (auto simp: node_ok_def)
      then show ?thesis
        using bad ok True apply_rounds.simps [of "Suc k" n] by (auto simp: e c keeps_ok_def)
    next
      case False
      then have a: "applied_index c = ?i" "current_term c \<le> node_term n"
        using apply_committed_mark(2) [OF c] i entry_at_le [OF Suc.prems(1) e] by simp_all
      have "keeps_ok (n\<lparr>rn_catalog := c\<rparr>) (apply_rounds k (n\<lparr>rn_catalog := c\<rparr>))"
        using Suc.prems(2) a ok True by (intro Suc.IH) auto
      moreover have "grows n (n\<lparr>rn_catalog := c\<rparr>)" using a ok True by auto
      ultimately have "keeps_ok n (apply_rounds k (n\<lparr>rn_catalog := c\<rparr>))" by (rule keeps_ok_trans [rotated])
      moreover have "apply_rounds (Suc k) n = apply_rounds k (n\<lparr>rn_catalog := c\<rparr>)"
        using False True e c by (subst apply_rounds.simps) simp
      ultimately show ?thesis by simp
    qed
  next
    case False
    then have "apply_rounds (Suc k) n = (Inr (), n)" by (subst apply_rounds.simps) simp
    then show ?thesis using Suc.prems by (simp add: keeps_ok_def)
  qed
qed

lemma raft_apply_committed_ok:
  assumes "node_ok n"
  shows "keeps_ok n (raft_apply_committed n)"
  unfolding raft_apply_committed_def
proof (rule keeps_ok_andthen [OF apply_rounds_ok [OF assms]])
  fix u m
  assume "node_ok m" and g: "grows n m"
  then show "keeps_ok n (if applied_of n < applied_of m then maybe_compact m else (Inr (), m))"
    using keeps_ok_trans [OF g maybe_compact_ok] by (simp add: keeps_okI)
qed simp

section \<open>Committing and elections\<close>

lemma finish_membership_change_ok:
  assumes "node_ok n"
  shows "keeps_ok n (finish_membership_change n)"
proof -
  have "keeps_ok n (andthen (append_validated cmd n) (\<lambda>_ n. (Inr (), broadcast_append n)))" for cmd
    by (rule keeps_ok_andthen [OF append_validated_ok [OF assms]])
      (auto simp: keeps_ok_def intro: grows_trans [OF _ core_grows])
  then show ?thesis
    using assms become_follower_ok [OF assms]
    by (auto simp: finish_membership_change_def keeps_ok_def split: membership.split)
qed

lemma find_commit_bounds: "find_commit n k \<noteq> rn_commit_index n \<Longrightarrow>
    rn_commit_index n < find_commit n k \<and> find_commit n k \<le> k \<and> term_at n (find_commit n k) = Some (node_term n)
    \<and> has_quorum (rn_membership n) (acks_at n (find_commit n k))"
  by (induction k) (auto split: if_splits)

lemma advance_round_ok:
  assumes "node_ok n"
  shows "keeps_ok n (advance_round n)"
proof (cases "rn_role n = Leader")
  case True
  define m where "m = (if has_quorum (rn_membership n) {|node_id_of n|} then sync_wal n else n)"
  define i where "i = find_commit m (last_index m)"
  have m: "node_ok m" "grows n m" using assms node_ok_sync by (auto simp: m_def intro: core_grows)
  have eq: "advance_round n = (if i \<le> rn_commit_index m then (Inr False, m)
      else andthen (raft_apply_committed (m\<lparr>rn_commit_index := i\<rparr>)) (\<lambda>_ n.
        andthen (finish_membership_change (broadcast_append n)) (\<lambda>_ n'.
          (Inr (last_index n' \<noteq> last_index (broadcast_append n)), n'))))"
    using True unfolding advance_round_def Let_def m_def [symmetric] i_def [symmetric] by simp
  show ?thesis
  proof (cases "i \<le> rn_commit_index m")
    case False
    then have "i \<le> last_index m" using find_commit_bounds [of m "last_index m"] by (auto simp: i_def)
    then have c: "node_ok (m\<lparr>rn_commit_index := i\<rparr>)" "grows m (m\<lparr>rn_commit_index := i\<rparr>)"
      using commit_update_ok [OF m(1), of i] False by auto
    have "keeps_ok n (raft_apply_committed (m\<lparr>rn_commit_index := i\<rparr>))"
      by (rule keeps_ok_trans [OF grows_trans [OF m(2) c(2)] raft_apply_committed_ok [OF c(1)]])
    then have "keeps_ok n (andthen (raft_apply_committed (m\<lparr>rn_commit_index := i\<rparr>)) (\<lambda>_ n.
        andthen (finish_membership_change (broadcast_append n)) (\<lambda>_ n'.
          (Inr (last_index n' \<noteq> last_index (broadcast_append n)), n'))))"
    proof (rule keeps_ok_andthen)
      fix u k
      assume k: "node_ok k" "grows n k"
      have "keeps_ok n (finish_membership_change (broadcast_append k))"
        using k(1) by (intro keeps_ok_trans [OF grows_trans [OF k(2) core_grows] finish_membership_change_ok]) simp_all
      then show "keeps_ok n (andthen (finish_membership_change (broadcast_append k)) (\<lambda>_ n'.
          (Inr (last_index n' \<noteq> last_index (broadcast_append k)), n')))"
        by (rule keeps_ok_andthen) (rule keeps_okI)
    qed
    then show ?thesis unfolding eq using False by simp
  qed (use m in \<open>simp add: eq keeps_ok_def\<close>)
qed (use assms in \<open>simp add: advance_round_def keeps_ok_def\<close>)

lemma advance_commit_ok: "node_ok n \<Longrightarrow> keeps_ok n (advance_commit n)"
proof (induction n rule: advance_commit.induct)
  case (1 n)
  obtain r m where r: "advance_round n = (r, m)" by (rule prod.exhaust)
  have m: "node_ok m" "grows n m" "sane r" using advance_round_ok [OF 1(2)] by (simp_all add: r keeps_ok_def)
  show ?case
  proof (cases r)
    case (Inr again)
    have "again \<Longrightarrow> keeps_ok n (advance_commit m)"
      using 1(1) [OF r [symmetric] Inr] m(1) by (intro keeps_ok_trans [OF m(2)]) simp
    then show ?thesis
      using m Inr by (subst advance_commit.simps) (auto simp: r intro: keeps_okI)
  qed (use m in \<open>subst advance_commit.simps, simp add: r keeps_ok_def\<close>)
qed

text \<open>What the node does after an append: it tells its peers and looks for a new commit index.\<close>

lemma advance_after:
  assumes "node_ok m" and "grows n m"
  shows "keeps_ok n (advance_commit (broadcast_append m))" "keeps_ok n (advance_commit (sync_wal m))" "keeps_ok n (advance_commit m)"
proof -
  show "keeps_ok n (advance_commit (broadcast_append m))"
    using assms(1) by (intro keeps_ok_trans [OF grows_trans [OF assms(2) core_grows] advance_commit_ok]) simp_all
  show "keeps_ok n (advance_commit (sync_wal m))"
    using node_ok_sync [OF assms(1)] by (intro keeps_ok_trans [OF grows_trans [OF assms(2) core_grows] advance_commit_ok]) simp_all
  show "keeps_ok n (advance_commit m)"
    by (rule keeps_ok_trans [OF assms(2) advance_commit_ok [OF assms(1)]])
qed

lemma become_leader_ok:
  assumes "node_ok n"
  shows "keeps_ok n (become_leader n)"
proof -
  have e: "\<exists>m. node_ok m \<and> grows n m \<and> become_leader n = andthen (append_local Noop m) (\<lambda>_ n. advance_commit (broadcast_append n))"
    unfolding become_leader_def Let_def
    by (intro exI conjI, rule_tac [3] refl) (use assms in \<open>auto simp: node_ok_def grows_def entry_at_def\<close>)
  then obtain m where m: "node_ok m" "grows n m" "become_leader n = andthen (append_local Noop m) (\<lambda>_ n. advance_commit (broadcast_append n))"
    by blast
  show ?thesis
    unfolding m(3)
    by (rule keeps_ok_andthen [OF keeps_ok_trans [OF m(2) append_local_ok(1) [OF m(1)]]]) (rule advance_after)
qed

lemma send_all_ok [simp]: "core (send_all ps msg n) = core n" "node_ok (send_all ps msg n) = node_ok n"
  unfolding send_all_def by (rule fold_keeps; simp)+

lemma keeps_ok_if: "(b \<Longrightarrow> keeps_ok n r) \<Longrightarrow> (\<not> b \<Longrightarrow> keeps_ok n r') \<Longrightarrow> keeps_ok n (if b then r else r')"
  by simp

lemma campaign_ok:
  assumes "node_ok n"
  shows "keeps_ok n (campaign n)"
proof -
  define m where "m = reset_election_timer ((persist_hard (n\<lparr>rn_counters := (rn_counters n)\<lparr>ct_elections := ct_elections (rn_counters n) + 1\<rparr>,
    rn_role := Candidate, rn_hard := \<lparr>h_term = node_term n + 1, h_voted_for = Some (node_id_of n)\<rparr>\<rparr>))\<lparr>rn_leader := None, rn_votes := {|node_id_of n|}\<rparr>)"
  have m: "node_ok m" "grows n m"
    using assms by (auto simp: m_def node_ok_def grows_def persist_hard_def entry_at_def)
  have "campaign n = (if has_quorum (rn_membership m) (rn_votes m) then become_leader m
      else (Inr (), send_all (peers m) (RequestVote (node_term m) (last_index m) (last_term m)) m))"
    by (simp add: campaign_def Let_def m_def persist_hard_def)
  then show ?thesis
    using m keeps_ok_trans [OF m(2) become_leader_ok [OF m(1)]] by (auto intro!: keeps_okI grows_trans [OF m(2) core_grows])
qed

lemma pre_campaign_ok:
  assumes "node_ok n"
  shows "keeps_ok n (pre_campaign n)"
proof -
  define m where "m = reset_election_timer (n\<lparr>rn_role := PreCandidate, rn_leader := None, rn_votes := {|node_id_of n|}\<rparr>)"
  have m: "node_ok m" "grows n m"
    using assms by (auto simp: m_def node_ok_def grows_def entry_at_def)
  have "pre_campaign n = (if \<not> is_voter n then (Inr (), reset_election_timer n)
      else if has_quorum (rn_membership m) (rn_votes m) then campaign m
      else (Inr (), send_all (peers m) (PreVote (node_term m + 1) (last_index m) (last_term m)) m))"
    by (simp add: pre_campaign_def Let_def m_def)
  then show ?thesis
    using assms m keeps_ok_trans [OF m(2) campaign_ok [OF m(1)]] core_grows [of "reset_election_timer n" n]
    by (auto simp: keeps_ok_def intro!: grows_trans [OF m(2) core_grows])
qed

section \<open>Driving the node\<close>

text \<open>Updates of the book-keeping fields.\<close>

lemma book_keeping [simp]:
  "core (n\<lparr>rn_ticks := x\<rparr>) = core n" "core (n\<lparr>rn_check_quorum_elapsed := x\<rparr>) = core n"
  "core (n\<lparr>rn_recent_active := a\<rparr>) = core n" "core (n\<lparr>rn_heartbeat_elapsed := x\<rparr>) = core n"
  "core (n\<lparr>rn_election_elapsed := x\<rparr>) = core n" "core (n\<lparr>rn_next_read_id := x\<rparr>) = core n"
  "core (n\<lparr>rn_read_results := rr\<rparr>) = core n" "core (n\<lparr>rn_pending_reads := p\<rparr>) = core n"
  "core (n\<lparr>rn_read_seq := x\<rparr>) = core n" "core (n\<lparr>rn_outbox := ob\<rparr>) = core n" "core (n\<lparr>rn_leader := l\<rparr>) = core n"
  "core (n\<lparr>rn_votes := a\<rparr>) = core n" "core (n\<lparr>rn_next_index := ix\<rparr>) = core n" "core (n\<lparr>rn_match_index := ix\<rparr>) = core n"
  "core (n\<lparr>rn_outgoing := og\<rparr>) = core n" "core (n\<lparr>rn_counters := ct\<rparr>) = core n"
  by (simp_all add: core_def)

lemma book_keeping_ok [simp]:
  "node_ok (n\<lparr>rn_ticks := x\<rparr>) = node_ok n" "node_ok (n\<lparr>rn_check_quorum_elapsed := x\<rparr>) = node_ok n"
  "node_ok (n\<lparr>rn_recent_active := a\<rparr>) = node_ok n" "node_ok (n\<lparr>rn_heartbeat_elapsed := x\<rparr>) = node_ok n"
  "node_ok (n\<lparr>rn_election_elapsed := x\<rparr>) = node_ok n" "node_ok (n\<lparr>rn_next_read_id := x\<rparr>) = node_ok n"
  "node_ok (n\<lparr>rn_read_results := rr\<rparr>) = node_ok n" "node_ok (n\<lparr>rn_pending_reads := p\<rparr>) = node_ok n"
  "node_ok (n\<lparr>rn_read_seq := x\<rparr>) = node_ok n" "node_ok (n\<lparr>rn_outbox := ob\<rparr>) = node_ok n" "node_ok (n\<lparr>rn_leader := l\<rparr>) = node_ok n"
  "node_ok (n\<lparr>rn_votes := a\<rparr>) = node_ok n" "node_ok (n\<lparr>rn_next_index := ix\<rparr>) = node_ok n" "node_ok (n\<lparr>rn_match_index := ix\<rparr>) = node_ok n"
  "node_ok (n\<lparr>rn_outgoing := og\<rparr>) = node_ok n" "node_ok (n\<lparr>rn_counters := ct\<rparr>) = node_ok n"
  by (rule core_ok; simp)+

text \<open>A result whose node differs from the start in book-keeping only.\<close>

lemma keeps_core: "node_ok n \<Longrightarrow> core m = core n \<Longrightarrow> rn_wal m = rn_wal n \<Longrightarrow> \<not> broken e \<Longrightarrow> keeps_ok n (Inl e, m)"
  "node_ok n \<Longrightarrow> core m = core n \<Longrightarrow> rn_wal m = rn_wal n \<Longrightarrow> keeps_ok n (Inr x, m)"
  using core_ok [of m n] core_grows [of m n] by (simp_all add: keeps_ok_def)

lemma take_messages_ok:
  assumes "node_ok n"
  shows "node_ok (snd (take_messages n))" "grows n (snd (take_messages n))"
  using assms node_ok_sync by (auto simp: take_messages_def Let_def intro: core_grows)

lemma tick_ok:
  assumes "node_ok n"
  shows "keeps_ok n (tick n)"
proof (cases "rn_role n = Leader")
  case True
  let ?n = "n\<lparr>rn_ticks := rn_ticks n + 1\<rparr>"
  have n: "node_ok ?n" "grows n ?n" using assms by (auto intro: core_grows)
  have k: "keeps_ok n (if dl_synced (rn_wal ?n) < last_index ?n then advance_commit (sync_wal ?n) else (Inr (), ?n))"
    using advance_after(2) [OF n] keeps_okI [OF n] by (rule keeps_ok_if)
  have t: "tick n = andthen (if dl_synced (rn_wal ?n) < last_index ?n then advance_commit (sync_wal ?n) else (Inr (), ?n)) (\<lambda>_ n.
             let n = n\<lparr>rn_check_quorum_elapsed := rn_check_quorum_elapsed n + 1\<rparr>;
                 due = (rn_check_quorum_elapsed n \<ge> cf_election_lo (rn_cfg n));
                 active = finsert (node_id_of n) (rn_recent_active n);
                 n = (if due then n\<lparr>rn_check_quorum_elapsed := 0, rn_recent_active := {||}\<rparr> else n)
             in if due \<and> \<not> has_quorum (rn_membership n) active
                then (Inr (), become_follower (node_term n) None n)
                else
                  let n = n\<lparr>rn_heartbeat_elapsed := rn_heartbeat_elapsed n + 1\<rparr>
                  in if rn_heartbeat_elapsed n \<ge> cf_heartbeat_ticks (rn_cfg n)
                     then (Inr (), broadcast_append (n\<lparr>rn_heartbeat_elapsed := 0\<rparr>))
                     else (Inr (), n))"
    using True by (simp add: tick_def Let_def)
  show ?thesis
    unfolding t
  proof (rule keeps_ok_andthen [OF k], goal_cases)
    case (1 u m)
    have "node_ok m' \<Longrightarrow> core m' = core m \<Longrightarrow> keeps_ok n (Inr (), m')" for m'
      by (rule keeps_okI [OF _ grows_trans [OF 1(3) core_grows]])
    moreover have "node_ok m' \<Longrightarrow> core m' = core m \<Longrightarrow> keeps_ok n (Inr (), become_follower t l m')" for m' t l
      by (intro keeps_okI become_follower_ok(1) grows_trans [OF 1(3) grows_trans [OF core_grows become_follower_ok(2)]])
    ultimately show ?case using 1(2) by (auto simp: Let_def)
  qed
next
  case False
  have "keeps_ok n (pre_campaign (n\<lparr>rn_ticks := x, rn_election_elapsed := y\<rparr>))" for x y
    using assms by (intro keeps_ok_trans [OF core_grows pre_campaign_ok]) simp_all
  then show ?thesis using assms False by (auto simp: tick_def Let_def intro!: keeps_core)
qed

lemma append_and_advance:
  assumes "node_ok n"
  shows "keeps_ok n (andthen (append_validated cmd n) (\<lambda>i n. andthen (advance_commit (broadcast_append n)) (\<lambda>_ n. (Inr i, n))))"
  by (rule keeps_ok_andthen [OF append_validated_ok [OF assms]])
    (rule keeps_ok_andthen [OF advance_after(1)]; auto intro: keeps_okI)

lemma propose_ok: "node_ok n \<Longrightarrow> keeps_ok n (propose cmd n)"
  using append_and_advance by (auto simp: propose_def intro!: keeps_core)

lemma raft_change_membership_ok: "node_ok n \<Longrightarrow> keeps_ok n (raft_change_membership vs addrs n)"
  using append_and_advance by (auto simp: raft_change_membership_def intro!: keeps_core split: membership.split)

lemma register_read_ok:
  assumes "node_ok n"
  shows "node_ok (snd (register_read f i n))" "grows n (snd (register_read f i n))"
  using assms by (auto simp: register_read_def Let_def intro!: core_grows)

lemma read_index_ok:
  assumes "node_ok n"
  shows "keeps_ok n (read_index n)"
proof -
  let ?n = "n\<lparr>rn_next_read_id := Suc (rn_next_read_id n)\<rparr>"
  have n: "node_ok ?n" "grows n ?n" using assms by (auto intro: core_grows)
  obtain b m where r: "register_read None (rn_next_read_id n) ?n = (b, m)" by (rule prod.exhaust)
  have "node_ok m \<and> grows n m"
    using register_read_ok [OF n(1), of None "rn_next_read_id n"] r grows_trans [OF n(2)] by auto
  then show ?thesis
    using assms n by (auto simp: read_index_def Let_def r keeps_ok_def intro: core_grows split: bool.split option.split)
qed

lemma read_results_ok:
  assumes "node_ok n"
  shows "node_ok (snd (read_result i n)) \<and> grows n (snd (read_result i n))" "node_ok (forget_read i n) \<and> grows n (forget_read i n)"
  using assms by (auto simp: read_result_def forget_read_def intro: core_grows)

section \<open>Messages\<close>

text \<open>A message can be wrong: entries that contradict what the node has committed are refused with
  \<open>Inconsistent\<close>. The node stays well formed then, too.\<close>

definition keeps_msg :: "raft_node \<Rightarrow> 'a raft \<Rightarrow> bool" where
  "keeps_msg n r \<longleftrightarrow> node_ok (snd r) \<and> grows n (snd r) \<and> (fst r = Inl Inconsistent \<or> sane (fst r))"

lemma keeps_ok_msg: "keeps_ok n r \<Longrightarrow> keeps_msg n r"
  by (auto simp: keeps_ok_def keeps_msg_def)

lemma keeps_msg_trans: "grows n m \<Longrightarrow> keeps_msg m r \<Longrightarrow> keeps_msg n r"
  by (auto simp: keeps_msg_def intro: grows_trans)

lemma keeps_msg_andthen:
  assumes "keeps_msg n r" and "\<And>x m. r = (Inr x, m) \<Longrightarrow> node_ok m \<Longrightarrow> grows n m \<Longrightarrow> keeps_msg n (k x m)"
  shows "keeps_msg n (andthen r k)"
proof (cases r)
  case (Pair x m)
  then show ?thesis
    using assms by (cases x) (auto simp: keeps_msg_def)
qed

text \<open>Entries of a message follow each other.\<close>

lemma contiguous_Cons: "contiguous i (e # es) \<longleftrightarrow> wr_index e = Suc i \<and> contiguous (Suc i) es"
  using contiguous_append [of i "[e]" es] by (simp add: contiguous_def)

lemma append_entry_ok:
  assumes "node_ok n" and "wr_index e = Suc i" and "rn_snapshot_index n \<le> i" and "i \<le> last_index n"
    and "term_at n (Suc i) \<noteq> None \<Longrightarrow> rn_commit_index n \<le> i" and "wr_term e \<le> node_term n"
  defines "m \<equiv> (if term_at n (Suc i) \<noteq> None
      then n\<lparr>rn_wal := dl_truncate_after i (rn_wal n), rn_log := take (i - rn_snapshot_index n) (rn_log n)\<rparr> else n)"
  shows "\<exists>w. dl_append_unsynced e (rn_wal m) = (Inr (), w) \<and> node_ok (m\<lparr>rn_wal := w, rn_log := rn_log m @ [e]\<rparr>)
    \<and> grows n (m\<lparr>rn_wal := w, rn_log := rn_log m @ [e]\<rparr>) \<and> last_index (m\<lparr>rn_wal := w, rn_log := rn_log m @ [e]\<rparr>) = Suc i"
proof -
  let ?l = "take (i - rn_snapshot_index n) (rn_log n)"
  have l: "i \<le> rn_snapshot_index n + length (rn_log n)" using assms(1,4) by (simp add: last_index_eq)
  have t: "term_at n (Suc i) = None \<longleftrightarrow> i = rn_snapshot_index n + length (rn_log n)"
    using assms(3) l by (auto simp: term_at_eq)
  have c: "rn_commit_index n \<le> i" using assms(5) t node_okD(7) [OF assms(1)] by auto
  have len: "rn_snapshot_index n + length ?l = i" using l assms(3) by simp
  have f: "filter (\<lambda>r. wr_index r \<le> i) (rn_log n) = ?l"
    by (rule contiguous_filter(2) [OF node_okD(1) [OF assms(1)] assms(3)])
  have m: "rn_log m = ?l" "dl_records (rn_wal m) = ?l" "dl_last (rn_wal m) = i" "dl_synced (rn_wal m) \<le> i"
    "core (m\<lparr>rn_log := rn_log n\<rparr>) = core n"
    using t node_okD(2-4) [OF assms(1)] f unfolding m_def by (auto simp: dl_truncate_after_def dl_rewrite_def core_def)
  define w where "w = (rn_wal m)\<lparr>dl_records := ?l @ [e], dl_last := Suc i\<rparr>"
  define k where "k = m\<lparr>rn_wal := w, rn_log := rn_log m @ [e]\<rparr>"
  have k: "rn_log k = ?l @ [e]" "rn_wal k = w" "core (k\<lparr>rn_log := rn_log n\<rparr>) = core n"
    using m(1,5) by (simp_all add: k_def core_def)
  have "dl_append_unsynced e (rn_wal m) = (Inr (), w)"
    using m assms(2) by (simp add: dl_append_unsynced_def guard_def w_def)
  moreover have "node_ok k"
    using assms(1,2,6) k m len c contiguous_take [OF node_okD(1) [OF assms(1)]]
    by (auto simp: node_ok_def core_def w_def dest: in_set_takeD)
  moreover have "grows n k"
    using k l c assms(3) by (auto simp: grows_def core_def entry_at_eq nth_append)
  moreover have "last_index k = Suc i" using assms(2) by (simp add: last_index_def k(1))
  ultimately show ?thesis by (auto simp: k_def)
qed

lemma append_entries_ok:
  assumes "node_ok n" and "contiguous i es" and "rn_snapshot_index n \<le> i" and "i \<le> last_index n"
    and "\<forall>e \<in> set es. wr_term e \<le> node_term n"
  shows "keeps_msg n (append_entries es n) \<and> (\<forall>u m. append_entries es n = (Inr u, m) \<longrightarrow> i + length es \<le> last_index m)"
  using assms
proof (induction es arbitrary: n i)
  case (Cons e es)
  let ?i = "Suc i"
  have e: "wr_index e = ?i" "contiguous ?i es" using Cons.prems(2) by (auto simp: contiguous_Cons)
  consider (same) "term_at n ?i = Some (wr_term e)"
    | (stale) "term_at n ?i \<noteq> Some (wr_term e)" "term_at n ?i \<noteq> None" "?i \<le> rn_commit_index n"
    | (new) "term_at n ?i \<noteq> Some (wr_term e)" "term_at n ?i \<noteq> None \<Longrightarrow> rn_commit_index n \<le> i" by fastforce
  then show ?case
  proof cases
    case same
    then have "?i \<le> last_index n" using Cons.prems(1,3) by (auto simp: term_at_eq last_index_eq split: if_splits)
    then show ?thesis using Cons.IH [OF Cons.prems(1) e(2)] Cons.prems(3,5) same e(1) by simp
  next
    case stale
    then show ?thesis using Cons.prems(1) e(1) by (simp add: keeps_msg_def)
  next
    case new
    define m where "m = (if term_at n ?i \<noteq> None
      then n\<lparr>rn_wal := dl_truncate_after i (rn_wal n), rn_log := take (i - rn_snapshot_index n) (rn_log n)\<rparr> else n)"
    from append_entry_ok [OF Cons.prems(1) e(1) Cons.prems(3,4) new(2)] Cons.prems(5) obtain w where
      w: "dl_append_unsynced e (rn_wal m) = (Inr (), w)" "node_ok (m\<lparr>rn_wal := w, rn_log := rn_log m @ [e]\<rparr>)"
        "grows n (m\<lparr>rn_wal := w, rn_log := rn_log m @ [e]\<rparr>)" "last_index (m\<lparr>rn_wal := w, rn_log := rn_log m @ [e]\<rparr>) = ?i"
      unfolding m_def [symmetric] by auto
    let ?k = "m\<lparr>rn_wal := w, rn_log := rn_log m @ [e]\<rparr>"
    have "rn_snapshot_index ?k \<le> ?i" "node_term ?k = node_term n" using Cons.prems(3) by (simp_all add: m_def)
    then have "keeps_msg ?k (append_entries es ?k) \<and> (\<forall>u m. append_entries es ?k = (Inr u, m) \<longrightarrow> ?i + length es \<le> last_index m)"
      using Cons.IH [OF w(2) e(2)] w(4) Cons.prems(5) by simp
    moreover have "append_entries (e # es) n = append_entries es ?k"
      using new w(1) e(1) by (cases "term_at n ?i") (simp_all add: Let_def m_def)
    ultimately show ?thesis by (auto simp del: append_entries.simps intro: keeps_msg_trans [OF w(3)])
  qed
qed (simp add: keeps_msg_def)

lemma handle_append_ok:
  assumes "node_ok n" and "contiguous prev_index es" and "\<forall>e \<in> set es. wr_term e \<le> node_term n"
  shows "keeps_msg n (handle_append prev_index prev_term es leader_commit n)"
proof -
  let ?skip = "rn_snapshot_index n - prev_index" and ?covered = "prev_index < rn_snapshot_index n"
  define fs where "fs = (if ?covered then drop ?skip es else es)"
  define i where "i = (if ?covered then rn_snapshot_index n else prev_index)"
  define t where "t = (if ?covered then rn_snapshot_term n else prev_term)"
  let ?rest = "\<lambda>_ n. let n = refresh_membership n
      in if leader_commit > rn_commit_index n
         then andthen (raft_apply_committed
                (n\<lparr>rn_commit_index := max (min leader_commit (i + length fs)) (rn_commit_index n)\<rparr>))
              (\<lambda>_ n. (Inr (True, i + length fs), n))
         else (Inr (True, i + length fs), n)"
  have h: "handle_append prev_index prev_term es leader_commit n =
      (if ?covered \<and> ?skip \<ge> length es then (Inr (True, rn_snapshot_index n), n)
       else case term_at n i of
           None \<Rightarrow> (Inr (False, last_index n), n)
         | Some t' \<Rightarrow> if t' \<noteq> t then (Inr (False, back_hint n t' (i - 1)), n)
             else andthen (append_entries fs n) ?rest)"
    unfolding handle_append_def Let_def fs_def i_def t_def by (rule refl)
  have self: "keeps_msg n (Inr x, n)" for x :: "bool \<times> nat" using assms(1) by (simp add: keeps_msg_def)
  have "keeps_msg n (andthen (append_entries fs n) ?rest)"
    if g: "\<not> (?covered \<and> ?skip \<ge> length es)" "term_at n i \<noteq> None"
  proof (rule keeps_msg_andthen)
    have fs: "contiguous i fs" "rn_snapshot_index n \<le> i"
      using assms(2) g(1) contiguous_drop [of prev_index es ?skip] by (auto simp: fs_def i_def)
    have i: "i \<le> last_index n" using assms(1) g(2) fs(2) by (auto simp: term_at_eq last_index_eq split: if_splits)
    have "\<forall>e \<in> set fs. wr_term e \<le> node_term n" using assms(3) by (auto simp: fs_def dest: in_set_dropD)
    note a = append_entries_ok [OF assms(1) fs i this]
    show "keeps_msg n (append_entries fs n)" using a by blast
    fix u m
    assume m: "append_entries fs n = (Inr u, m)" "node_ok m" "grows n m"
    let ?c = "max (min leader_commit (i + length fs)) (rn_commit_index m)"
    have r: "node_ok (refresh_membership m)" "grows n (refresh_membership m)"
      using m(2) grows_trans [OF m(3) core_grows] by simp_all
    have "?c \<le> last_index (refresh_membership m)"
      using a m(1) node_okD(7) [OF m(2)] last_index_eq [OF m(2)] by (auto simp: max_def min_def)
    then have c: "node_ok ((refresh_membership m)\<lparr>rn_commit_index := ?c\<rparr>)" "grows n ((refresh_membership m)\<lparr>rn_commit_index := ?c\<rparr>)"
      using commit_update_ok [OF r(1), of ?c] grows_trans [OF r(2)] by simp_all
    have "keeps_ok n (andthen (raft_apply_committed ((refresh_membership m)\<lparr>rn_commit_index := ?c\<rparr>)) (\<lambda>_ n. (Inr (True, i + length fs), n)))"
      by (rule keeps_ok_andthen [OF keeps_ok_trans [OF c(2) raft_apply_committed_ok [OF c(1)]]]) (rule keeps_okI)
    then show "keeps_msg n (?rest u m)"
      using r keeps_okI [OF r, THEN keeps_ok_msg] by (auto simp: Let_def intro: keeps_ok_msg)
  qed
  then show ?thesis unfolding h using self by (auto split: option.split)
qed

text \<open>Installing a snapshot: the log is cut or dropped, and everything up to the snapshot is committed.\<close>

lemma adopt_snapshot_ok:
  assumes "contiguous (rn_snapshot_index n) (rn_log n)" "dl_records (rn_wal n) = rn_log n"
    "dl_last (rn_wal n) = rn_snapshot_index n + length (rn_log n)" "dl_synced (rn_wal n) \<le> dl_last (rn_wal n)"
    and "rn_snapshot_index n \<le> rn_commit_index n" and "rn_commit_index n < applied_index snap"
    and "rn_store n = Some c" and "applied_index c = applied_index snap"
    and "rn_incoming n = None" and "current_term c \<le> node_term n" and "current_term snap \<le> node_term n"
    and "\<forall>e \<in> set (rn_log n). wr_term e \<le> node_term n"
  shows "node_ok (adopt_snapshot snap n)" "rn_cfg (adopt_snapshot snap n) = rn_cfg n" "rn_hard (adopt_snapshot snap n) = rn_hard n"
    "rn_snapshot_index (adopt_snapshot snap n) = applied_index snap" "rn_commit_index (adopt_snapshot snap n) = applied_index snap"
    "rn_catalog (adopt_snapshot snap n) = snap" "rn_disk_hard (adopt_snapshot snap n) = rn_disk_hard n"
proof -
  let ?s = "applied_index snap"
  let ?n = "n\<lparr>rn_catalog := snap\<rparr>"
  have s: "rn_snapshot_index n \<le> ?s" using assms(5,6) by simp
  have t: "term_at ?n ?s = term_at n ?s" by (simp add: term_at_def entry_at_def)
  show "node_ok (adopt_snapshot snap n)"
  proof (cases "term_at n ?s = Some (current_term snap)")
    case True
    then have l: "?s - rn_snapshot_index n \<le> length (rn_log n)" using assms(5,6) by (auto simp: term_at_eq split: if_splits)
    have "contiguous ?s (drop (?s - rn_snapshot_index n) (rn_log n))"
      using contiguous_drop [OF assms(1) l] s by simp
    moreover have "filter (\<lambda>r. ?s < wr_index r) (rn_log n) = drop (?s - rn_snapshot_index n) (rn_log n)"
      using contiguous_filter(1) [OF assms(1) s] by simp
    ultimately show ?thesis
      using True t s l assms
      by (auto simp: adopt_snapshot_def Let_def node_ok_def dl_raise_floor_def dl_compact_through_def dl_rewrite_def dest: in_set_dropD)
  next
    case False
    then show ?thesis
      using t assms by (auto simp: adopt_snapshot_def Let_def node_ok_def dl_raise_floor_def dl_reset_def dl_rewrite_def)
  qed
qed (simp_all add: adopt_snapshot_def Let_def)

lemma fill_usage_index: "applied_index (fill_usage c) = applied_index c \<and> current_term (fill_usage c) = current_term c"
  by (rule fill_usage_keeps [where P = "\<lambda>d. applied_index d = applied_index c \<and> current_term d = current_term c"])
    (auto simp: set_fs_usage_def set_snap_usage_def put_fs_def split: option.split)

lemmas fill_usage_marks [simp] = fill_usage_index [THEN conjunct1] fill_usage_index [THEN conjunct2]

lemma install_staged_ok:
  assumes "node_ok n" and "applied_index (ic_catalog inc) = ic_index inc \<and> current_term (ic_catalog inc) \<le> node_term n" and "rn_commit_index n < ic_index inc"
  shows "keeps_ok n (Inr x, install_staged inc (n\<lparr>rn_incoming := None\<rparr>))"
proof -
  let ?snap = "load_checkpoint (Some (ic_catalog inc)) None"
  let ?n = "n\<lparr>rn_incoming := None, rn_spec := None, rn_catalog := empty_catalog, rn_store := Some (ic_catalog inc)\<rparr>"
  have i: "applied_index ?snap = ic_index inc" "current_term ?snap \<le> node_term n" using assms(2) by (simp_all add: load_checkpoint_def)
  have eq: "install_staged inc (n\<lparr>rn_incoming := None\<rparr>) = adopt_snapshot ?snap ?n" by (simp add: install_staged_def)
  note a = adopt_snapshot_ok [of ?n ?snap "ic_catalog inc"]
  have "node_ok (adopt_snapshot ?snap ?n)" "grows n (adopt_snapshot ?snap ?n)"
    using a node_okD(1-8) [OF assms(1)] assms(2,3) i by (simp_all add: grows_def)
  then show ?thesis unfolding eq by (rule keeps_okI)
qed

lemma stage_index: "stage chunk inc = (r, inc') \<Longrightarrow> ic_index inc' = ic_index inc \<and> applied_index (ic_catalog inc') = applied_index (ic_catalog inc)
    \<and> current_term (ic_catalog inc') = current_term (ic_catalog inc)"
  by (cases chunk) (auto split: option.splits)

lemma incoming_update_ok:
  assumes "node_ok n" and "\<And>inc. x = Some inc \<Longrightarrow> applied_index (ic_catalog inc) = ic_index inc \<and> current_term (ic_catalog inc) \<le> node_term n"
  shows "node_ok (n\<lparr>rn_incoming := x\<rparr>)" "grows n (n\<lparr>rn_incoming := x\<rparr>)"
  using assms by (auto simp: node_ok_def grows_def entry_at_def)

lemma handle_snapshot_chunk_ok:
  assumes "node_ok n" and "\<And>c. chunk = Header c \<Longrightarrow> applied_index c = index \<and> current_term c \<le> node_term n"
  shows "keeps_ok n (handle_snapshot_chunk index seq chunk n)"
proof -
  have inc: "applied_index (ic_catalog inc) = ic_index inc \<and> current_term (ic_catalog inc) \<le> node_term n" if "rn_incoming n = Some inc" for inc
    using assms(1) that by (auto simp: node_ok_def)
  have upd: "keeps_ok n (r, n\<lparr>rn_incoming := x\<rparr>)"
    if "\<And>inc. x = Some inc \<Longrightarrow> applied_index (ic_catalog inc) = ic_index inc \<and> current_term (ic_catalog inc) \<le> node_term n" "sane r" for r :: "raft_error + nat option" and x
    using incoming_update_ok [OF assms(1), of x] that by (simp add: keeps_ok_def)
  have self: "keeps_ok n (Inr x, n)" for x :: "nat option" using assms(1) by (simp add: keeps_ok_def)
  have io: "sane r" if "stage chunk i = (r, i')" for r i i'
    using that by (cases chunk) (auto split: option.splits)
  have put: "keeps_ok n (case stage chunk inc of
        (Inl e, inc) \<Rightarrow> (Inl e, n\<lparr>rn_incoming := Some inc\<rparr>)
      | (Inr _, inc) \<Rightarrow> (Inr (Some seq), n\<lparr>rn_incoming := Some (inc\<lparr>ic_seq := seq\<rparr>)\<rparr>))"
    if h: "rn_incoming n = Some inc" for inc
  proof -
    obtain r i where r: "stage chunk inc = (r, i)" by (rule prod.exhaust)
    have i: "applied_index (ic_catalog i) = ic_index i \<and> current_term (ic_catalog i) \<le> node_term n" using inc [OF h] stage_index [OF r] by simp
    show ?thesis
    proof (cases r)
      case (Inl e)
      with r i show ?thesis using upd [of "Some i" "Inl e"] io [OF r] by simp
    next
      case (Inr u)
      with r i show ?thesis using upd [of "Some (i\<lparr>ic_seq := seq\<rparr>)" "Inr (Some seq)"] by simp
    qed
  qed
  have "keeps_ok n (case rn_incoming n of
      None \<Rightarrow> (Inr None, n)
    | Some inc \<Rightarrow>
        if ic_index inc \<noteq> index then (Inr None, n)
        else if seq = ic_seq inc then (Inr (Some seq), n)
        else if seq \<noteq> ic_seq inc + 1 then (Inr None, n)
        else if chunk = DoneChunk then (Inr (Some seq), install_staged inc (n\<lparr>rn_incoming := None\<rparr>))
        else (case stage chunk inc of
            (Inl e, inc) \<Rightarrow> (Inl e, n\<lparr>rn_incoming := Some inc\<rparr>)
          | (Inr _, inc) \<Rightarrow> (Inr (Some seq), n\<lparr>rn_incoming := Some (inc\<lparr>ic_seq := seq\<rparr>)\<rparr>)))"
    if "rn_commit_index n < index"
    using that inc put by (auto simp: self split: option.split intro!: install_staged_ok [OF assms(1)])
  moreover have "keeps_ok n (Inr x, n\<lparr>rn_incoming := None\<rparr>)" for x :: "nat option" by (rule upd) simp_all
  moreover have "chunk = Header c \<Longrightarrow> keeps_ok n (Inr x, n\<lparr>rn_incoming := Some (incoming_start index c)\<rparr>)" for x :: "nat option" and c
    by (rule upd) (auto simp: incoming_start_def assms(2))
  ultimately show ?thesis unfolding handle_snapshot_chunk_def by (cases chunk) simp_all
qed

definition well_formed :: "message \<Rightarrow> bool" where
  "well_formed msg \<longleftrightarrow> (case msg of
       AppendEntries t prev _ es _ _ \<Rightarrow> contiguous prev es \<and> (\<forall>e \<in> set es. wr_term e \<le> t)
     | InstallSnapshot t index _ (Header c) \<Rightarrow> applied_index c = index \<and> current_term c \<le> t
     | _ \<Rightarrow> True)"

lemma step_term_ok:
  assumes "node_ok n" and "step_term f msg n = (b, m)"
  shows "node_ok m" "grows n m"
proof -
  have "m = n \<or> (\<exists>l. m = become_follower (msg_term msg) l n)"
    using assms(2) by (auto simp: step_term_def Let_def split: message.splits if_splits bool.splits)
  then show "node_ok m" "grows n m" using assms(1) become_follower_ok [OF assms(1)] by auto
qed

lemma step_term_le:
  assumes "step_term f msg n = (True, m)" and "\<not> (\<exists>t i lt. msg = PreVote t i lt)" and "\<not> (\<exists>t. msg = PreVoteResponse t True)"
  shows "msg_term msg \<le> node_term m"
  using assms by (cases msg) (auto simp: step_term_def Let_def split: if_splits bool.splits)

lemma on_pre_vote_ok: "node_ok n \<Longrightarrow> keeps_ok n (on_pre_vote f t i lt n)"
  by (simp add: on_pre_vote_def Let_def keeps_core)

lemma vote_update:
  assumes "node_ok n"
  shows "node_ok (n\<lparr>rn_votes := v\<rparr>)" "grows n (n\<lparr>rn_votes := v\<rparr>)"
  using assms by (auto intro: core_grows)

lemma on_votes_ok:
  assumes "node_ok n"
  shows "keeps_ok n (on_pre_vote_response f t g n)" "keeps_ok n (on_request_vote_response f t g n)"
  using assms keeps_ok_trans [OF vote_update(2) [OF assms] campaign_ok [OF vote_update(1) [OF assms]]]
    keeps_ok_trans [OF vote_update(2) [OF assms] become_leader_ok [OF vote_update(1) [OF assms]]]
  by (auto simp: on_pre_vote_response_def on_request_vote_response_def Let_def keeps_core)

lemma on_request_vote_ok:
  assumes "node_ok n"
  shows "keeps_ok n (on_request_vote f t i lt n)"
proof -
  let ?m = "reset_election_timer (persist_hard (n\<lparr>rn_hard := (rn_hard n)\<lparr>h_voted_for := Some f\<rparr>\<rparr>))"
  have "node_ok ?m" using assms by (auto simp: persist_hard_def node_ok_def)
  moreover have "grows n ?m" if "h_voted_for (rn_hard n) = None \<or> h_voted_for (rn_hard n) = Some f"
    using that by (auto simp: grows_def persist_hard_def entry_at_def)
  ultimately show ?thesis
    using assms by (auto simp: on_request_vote_def Let_def keeps_ok_def intro: core_grows grows_trans [OF _ core_grows])
qed

text \<open>Answering after the work is done.\<close>

lemma reply_ok:
  "keeps_msg n r \<Longrightarrow> keeps_msg n (andthen r (\<lambda>x n. (Inr (), send f (g x n) n)))"
  "keeps_ok n r' \<Longrightarrow> keeps_ok n (andthen r' (\<lambda>x n. (Inr (), send f (g' x n) n)))"
  by (rule keeps_msg_andthen keeps_ok_andthen; auto simp: keeps_msg_def keeps_ok_def intro: grows_trans [OF _ core_grows])+

text \<open>A node that hears from the leader of its term follows it.\<close>

lemma follow_ok:
  fixes t f
  assumes "node_ok n"
  defines "m \<equiv> reset_election_timer ((if rn_role n \<noteq> Follower then become_follower t (Some f) n else n)\<lparr>rn_leader := Some f\<rparr>)"
  shows "node_ok m" "grows n m"
  using assms become_follower_ok [OF assms(1), of t "Some f"] by (auto simp: m_def intro: core_grows grows_trans [OF _ core_grows])

lemma on_append_entries_ok:
  assumes "node_ok n" and "contiguous pi es" and "\<forall>e \<in> set es. wr_term e \<le> t" and "t \<le> node_term n"
  shows "keeps_msg n (on_append_entries f t pi pt es lc rs n)"
proof (cases "t < node_term n")
  case False
  let ?m = "reset_election_timer ((if rn_role n \<noteq> Follower then become_follower t (Some f) n else n)\<lparr>rn_leader := Some f\<rparr>)"
  note m = follow_ok [OF assms(1), where t = t and f = f]
  have "keeps_msg n (handle_append pi pt es lc ?m)"
    by (rule keeps_msg_trans [OF m(2) handle_append_ok [OF m(1) assms(2)]]) (use assms(3,4) in auto)
  then show ?thesis
    using False unfolding on_append_entries_def Let_def case_prod_beta by (simp only: if_False) (rule reply_ok)
qed (use assms in \<open>simp add: on_append_entries_def keeps_core keeps_ok_msg\<close>)

lemma send_append_after:
  assumes "keeps_ok n (advance_commit m)"
  shows "keeps_ok n (andthen (advance_commit m) (\<lambda>_ n. (Inr (), if P n then send_append f n else n)))"
  using assms by (rule keeps_ok_andthen) (auto simp: keeps_ok_def intro: grows_trans [OF _ core_grows])

lemma keeps_after_core:
  assumes "node_ok n" and "core m = core n" and "rn_wal m = rn_wal n"
  shows "keeps_ok m r \<Longrightarrow> keeps_ok n r" "keeps_ok n (advance_commit (sync_wal m))" "keeps_ok n (advance_commit m)"
  using advance_after(2,3) [of m n] core_grows [OF assms(2)] core_ok [OF assms(2,3)] assms(1) keeps_ok_trans [of n m r]
  by simp_all

lemma on_append_response_ok:
  assumes "node_ok n"
  shows "keeps_ok n (on_append_response f t s m rs n)"
  unfolding on_append_response_def Let_def using assms
  by (auto intro!: keeps_core send_append_after keeps_after_core(2) [OF assms])

lemma on_install_snapshot_ok:
  assumes "node_ok n" and "\<And>c. ch = Header c \<Longrightarrow> applied_index c = i \<and> current_term c \<le> t" and "t \<le> node_term n"
  shows "keeps_ok n (on_install_snapshot f t i s ch n)"
proof -
  let ?m = "reset_election_timer ((if rn_role n \<noteq> Follower then become_follower t (Some f) n else n)\<lparr>rn_leader := Some f\<rparr>)"
  note m = follow_ok [OF assms(1), where t = t and f = f]
  have "keeps_ok n (handle_snapshot_chunk i s ch ?m)"
    by (rule keeps_ok_trans [OF m(2) handle_snapshot_chunk_ok [OF m(1)]]) (use assms(2,3) in auto)
  then show ?thesis
    unfolding on_install_snapshot_def Let_def using assms(1) by (intro reply_ok keeps_ok_if keeps_core) simp_all
qed

lemma on_snapshot_response_ok:
  assumes "node_ok n"
  shows "keeps_ok n (on_snapshot_response f t m a n)"
  unfolding on_snapshot_response_def Let_def using assms
  by (auto intro!: keeps_core send_append_after keeps_after_core(3) [OF assms] split: option.split)

lemma on_read_index_ok:
  assumes "node_ok n"
  shows "keeps_ok n (on_read_index f t i n)"
  using assms register_read_ok [OF assms, of "Some f" i]
  by (cases "register_read (Some f) i n") (auto simp: on_read_index_def keeps_ok_def intro: core_grows grows_trans [OF _ core_grows])

lemma step_ok:
  assumes "node_ok n" and "well_formed (en_msg env)"
  shows "keeps_msg n (step env n)"
proof -
  obtain b m where b: "step_term (en_from env) (en_msg env) n = (b, m)" by (rule prod.exhaust)
  note m = step_term_ok [OF assms(1) b]
  have "keeps_msg m (on_message (en_from env) (en_msg env) m)" if b
    using m(1) assms(2) step_term_le [OF b [unfolded that [THEN eqTrueI]]]
    by (cases "en_msg env")
      (auto simp: well_formed_def intro!: keeps_ok_msg [OF on_pre_vote_ok] keeps_ok_msg [OF on_votes_ok(1)]
        keeps_ok_msg [OF on_votes_ok(2)] keeps_ok_msg [OF on_request_vote_ok] on_append_entries_ok
        keeps_ok_msg [OF on_append_response_ok] keeps_ok_msg [OF on_install_snapshot_ok]
        keeps_ok_msg [OF on_snapshot_response_ok] keeps_ok_msg [OF on_read_index_ok] keeps_ok_msg [OF keeps_core(2)])
  then show ?thesis
    using m keeps_msg_trans [OF m(2)] by (cases b) (simp_all add: step_def b keeps_msg_def [of n "(Inr (), m)"])
qed

section \<open>Restarting\<close>

text \<open>A configuration that has opened once opens on every disk whose log has no gap and reaches back
  to the checkpoint.\<close>

lemma load_index: "applied_index (load_checkpoint (Some c) l) = applied_index c"
  by (simp add: load_checkpoint_def)

lemma dl_load_simps [simp]: "dl_records (dl_load w) = w" "dl_synced (dl_load w) = dl_last (dl_load w)"
  by (simp_all add: dl_load_def Let_def)

lemma outbox_frame: "rn_outbox (reset_election_timer (refresh_membership n)) = rn_outbox n"
  by (simp add: reset_election_timer_def refresh_membership_def Let_def)

lemma guard_True: "b \<Longrightarrow> guard b e = Inr ()"
  by (simp add: guard_def)

lemma rbind_Inr: "rbind (Inr x) k = k x"
  by (simp add: rbind_def)

lemma open_config:
  assumes "raft_open cfg d = Inr n"
  shows "\<exists>initial. (case cf_bootstrap cfg of Some b \<Rightarrow> if b = [] \<or> \<not> distinct b then Inl BadConfig else Inr (stable b)
      | None \<Rightarrow> Inr (stable (cf_peers cfg @ [cf_id cfg]))) = Inr initial
    \<and> (distinct (cf_peers cfg) \<and> cf_id cfg \<notin> set (cf_peers cfg))
    \<and> \<not> (cf_election_lo cfg = 0 \<or> cf_election_hi cfg \<le> cf_election_lo cfg
         \<or> cf_heartbeat_ticks cfg = 0 \<or> cf_heartbeat_ticks cfg \<ge> cf_election_lo cfg)"
  using assms unfolding raft_open_def Let_def rbind_def guard_def
  by (cases "case cf_bootstrap cfg of Some b \<Rightarrow> if b = [] \<or> \<not> distinct b then Inl BadConfig else Inr (stable b)
      | None \<Rightarrow> Inr (stable (cf_peers cfg @ [cf_id cfg]))") (simp_all split: if_split_asm)

lemma raft_open_ok:
  assumes "raft_open cfg d0 = Inr n0"
    and "contiguous s (dk_wal d)" and "s \<le> applied_index (load_checkpoint (dk_store d) (dk_legacy d))"
    and "\<forall>e \<in> set (dk_wal d). wr_term e \<le> max (case dk_hard d of Some h \<Rightarrow> h_term h | None \<Rightarrow> 0)
      (current_term (load_checkpoint (dk_store d) (dk_legacy d)))"
  shows "\<exists>n. raft_open cfg d = Inr n \<and> node_ok n \<and> rn_cfg n = cfg
    \<and> rn_catalog n = load_checkpoint (dk_store d) (dk_legacy d) \<and> rn_snapshot_index n = applied_of n \<and> rn_commit_index n = applied_of n
    \<and> rn_log n = drop (applied_of n - s) (dk_wal d) \<and> rn_disk_hard n = dk_hard d
    \<and> rn_hard n = (case dk_hard d of Some h \<Rightarrow> h | None \<Rightarrow> \<lparr>h_term = 0, h_voted_for = None\<rparr>)
        \<lparr>h_term := max (case dk_hard d of Some h \<Rightarrow> h_term h | None \<Rightarrow> 0) (current_term (rn_catalog n))\<rparr>
    \<and> rn_role n = Follower \<and> rn_votes n = {||} \<and> rn_outbox n = [] \<and> dl_synced (rn_wal n) = dl_last (rn_wal n)"
proof -
  define c where "c = load_checkpoint (dk_store d) (dk_legacy d)"
  have s: "s \<le> applied_index c" using assms(3) by (simp add: c_def)
  have f: "filter (\<lambda>e. applied_index c < wr_index e) (dk_wal d) = drop (applied_index c - s) (dk_wal d)"
    by (rule contiguous_filter(1) [OF assms(2) s])
  have k: "contiguous (applied_index c) (drop (applied_index c - s) (dk_wal d))"
    using contiguous_drop [OF assms(2), of "applied_index c - s"] s
    by (cases "applied_index c - s \<le> length (dk_wal d)") simp_all
  then have g: "map wr_index (drop (applied_index c - s) (dk_wal d)) =
      map (\<lambda>i. applied_index c + 1 + i) [0..<length (drop (applied_index c - s) (dk_wal d))]"
    by (simp only: contiguous_map)
  have l: "dl_last (dl_load (dk_wal d)) = (if dk_wal d = [] then 0 else s + length (dk_wal d))"
    using assms(2) by (cases "dk_wal d" rule: rev_cases) (auto simp: dl_load_def)
  have w: "max (dl_last (dl_load (dk_wal d))) (applied_index c) = applied_index c + length (drop (applied_index c - s) (dk_wal d))"
    using s by (auto simp: l)
  obtain initial where i: "(case cf_bootstrap cfg of Some b \<Rightarrow> if b = [] \<or> \<not> distinct b then Inl BadConfig else Inr (stable b)
      | None \<Rightarrow> Inr (stable (cf_peers cfg @ [cf_id cfg]))) = Inr initial"
    and v: "distinct (cf_peers cfg) \<and> cf_id cfg \<notin> set (cf_peers cfg)"
      "\<not> (cf_election_lo cfg = 0 \<or> cf_election_hi cfg \<le> cf_election_lo cfg
         \<or> cf_heartbeat_ticks cfg = 0 \<or> cf_heartbeat_ticks cfg \<ge> cf_election_lo cfg)"
    using open_config [OF assms(1)] by blast
  obtain n where n: "raft_open cfg d = Inr (reset_election_timer (refresh_membership n))" "rn_cfg n = cfg" "rn_catalog n = c"
      "rn_hard n = (case dk_hard d of Some h \<Rightarrow> h | None \<Rightarrow> \<lparr>h_term = 0, h_voted_for = None\<rparr>)
        \<lparr>h_term := max (h_term (case dk_hard d of Some h \<Rightarrow> h | None \<Rightarrow> \<lparr>h_term = 0, h_voted_for = None\<rparr>)) (current_term c)\<rparr>"
      "rn_snapshot_index n = applied_index c" "rn_commit_index n = applied_index c"
      "rn_log n = drop (applied_index c - s) (dk_wal d)" "rn_wal n = dl_raise_floor (applied_index c) (dl_compact_through (applied_index c) (dl_load (dk_wal d)))"
      "rn_store n = (if dk_store d = None then Some c else dk_store d)" "rn_disk_hard n = dk_hard d"
      "rn_role n = Follower" "rn_votes n = {||}" "rn_outbox n = []" "rn_incoming n = None" "rn_snapshot_term n = current_term c"
    unfolding raft_open_def c_def [symmetric] Let_def f i guard_True [OF v(1)] guard_True [OF v(2)] guard_True [OF g] rbind_Inr
    by simp
  have h: "h_term (case dk_hard d of Some h \<Rightarrow> h | None \<Rightarrow> \<lparr>h_term = 0, h_voted_for = None\<rparr>) =
      (case dk_hard d of Some h \<Rightarrow> h_term h | None \<Rightarrow> 0)" by (simp split: option.split)
  have t: "dk_store d = Some x \<Longrightarrow> current_term x \<le> current_term c" for x by (simp add: c_def load_checkpoint_def)
  have "\<forall>e \<in> set (rn_log n). wr_term e \<le> node_term n" using assms(4) by (auto simp: n(4,7) h c_def dest!: in_set_dropD)
  then have "node_ok n"
    using k w t load_index [of _ "dk_legacy d"]
    by (auto simp: n c_def node_ok_def dl_raise_floor_def dl_compact_through_def dl_rewrite_def dl_load_simps f [unfolded c_def])
  then show ?thesis
    using n by (intro exI [of _ "reset_election_timer (refresh_membership n)"]) (auto simp: c_def outbox_frame dl_raise_floor_def dl_compact_through_def dl_rewrite_def split: option.split)
qed

text \<open>What is on disk after a crash: the vote, the checkpoint, and the log, of which the last \<open>k\<close>
  records that were not synced may be missing.\<close>

definition crash_disk :: "nat \<Rightarrow> raft_node \<Rightarrow> raft_disk" where
  "crash_disk k n = \<lparr>dk_hard = rn_disk_hard n, dk_store = rn_store n, dk_legacy = None,
     dk_wal = take k (dl_records (rn_wal n))\<rparr>"

definition fresh_disk :: raft_disk where
  "fresh_disk = \<lparr>dk_hard = None, dk_store = None, dk_legacy = None, dk_wal = []\<rparr>"

definition survives :: "nat \<Rightarrow> raft_node \<Rightarrow> bool" where
  "survives k n \<longleftrightarrow> dl_synced (rn_wal n) \<le> rn_snapshot_index n + k"

text \<open>What the server of a node may do with it.\<close>

inductive node_step :: "raft_node \<Rightarrow> raft_node \<Rightarrow> bool" where
  by_tick: "node_step n (snd (tick n))"
| by_propose: "node_step n (snd (propose cmd n))"
| by_change: "node_step n (snd (raft_change_membership vs addrs n))"
| by_message: "well_formed (en_msg env) \<Longrightarrow> node_step n (snd (step env n))"
| by_take: "node_step n (snd (take_messages n))"
| by_read: "node_step n (snd (read_index n))"
| by_result: "node_step n (snd (read_result i n))"
| by_forget: "node_step n (forget_read i n)"

text \<open>The life of a node: calls, and crashes between two calls.\<close>

inductive node_life :: "raft_config \<Rightarrow> raft_node \<Rightarrow> bool" for cfg where
  life_open: "raft_open cfg fresh_disk = Inr n \<Longrightarrow> node_life cfg n"
| life_step: "node_life cfg n \<Longrightarrow> node_step n n' \<Longrightarrow> node_life cfg n'"
| life_crash: "node_life cfg n \<Longrightarrow> survives k n \<Longrightarrow> raft_open cfg (crash_disk k n) = Inr n' \<Longrightarrow> node_life cfg n'"

lemma keepsD:
  "keeps_ok n r \<Longrightarrow> node_ok (snd r) \<and> grows n (snd r)" "keeps_msg n r' \<Longrightarrow> node_ok (snd r') \<and> grows n (snd r')"
  by (simp_all add: keeps_ok_def keeps_msg_def)

lemma node_step_ok: "node_step n n' \<Longrightarrow> node_ok n \<Longrightarrow> node_ok n' \<and> grows n n'"
  by (induction rule: node_step.induct)
    (auto dest: tick_ok [THEN keepsD(1)] propose_ok [THEN keepsD(1)] raft_change_membership_ok [THEN keepsD(1)]
      step_ok [THEN keepsD(2)] read_index_ok [THEN keepsD(1)] read_results_ok take_messages_ok)

text \<open>Restarting on what a crash has left.\<close>

definition hard_kept :: "raft_node \<Rightarrow> bool" where
  "hard_kept n \<longleftrightarrow> rn_hard n = (case rn_disk_hard n of Some h \<Rightarrow> h | None \<Rightarrow> \<lparr>h_term = 0, h_voted_for = None\<rparr>)"

lemma hard_kept_grows: "hard_kept n \<Longrightarrow> grows n n' \<Longrightarrow> hard_kept n'"
  by (auto simp: hard_kept_def grows_def)

lemma crash_restart:
  assumes "node_ok n" and "hard_kept n" and "raft_open cfg d0 = Inr n0"
  shows "\<exists>n' c. raft_open cfg (crash_disk k n) = Inr n' \<and> node_ok n' \<and> rn_cfg n' = cfg
    \<and> rn_store n = Some c \<and> rn_catalog n' = fill_usage c \<and> rn_snapshot_index n' = applied_index c \<and> rn_commit_index n' = applied_index c
    \<and> rn_log n' = drop (applied_index c - rn_snapshot_index n) (take k (rn_log n)) \<and> rn_disk_hard n' = rn_disk_hard n
    \<and> rn_hard n' = rn_hard n
    \<and> rn_role n' = Follower \<and> rn_votes n' = {||} \<and> rn_outbox n' = []"
proof -
  obtain c where c: "rn_store n = Some c" "rn_snapshot_index n \<le> applied_index c" "current_term c \<le> node_term n"
    using assms(1) by (auto simp: node_ok_def)
  have h: "(case rn_disk_hard n of Some h \<Rightarrow> h_term h | None \<Rightarrow> 0) = node_term n"
    using assms(2) by (auto simp: hard_kept_def split: option.split)
  have w: "contiguous (rn_snapshot_index n) (dk_wal (crash_disk k n))"
    using contiguous_take [OF node_okD(1)] node_okD(2) assms(1) by (simp add: crash_disk_def)
  have s: "rn_snapshot_index n \<le> applied_index (load_checkpoint (dk_store (crash_disk k n)) (dk_legacy (crash_disk k n)))"
    using c by (simp add: crash_disk_def load_index)
  have t: "\<forall>e \<in> set (dk_wal (crash_disk k n)). wr_term e \<le> max (case dk_hard (crash_disk k n) of Some h \<Rightarrow> h_term h | None \<Rightarrow> 0)
      (current_term (load_checkpoint (dk_store (crash_disk k n)) (dk_legacy (crash_disk k n))))"
    using node_okD(2,8) [OF assms(1)] h by (auto simp: crash_disk_def le_max_iff_disj dest: in_set_takeD)
  obtain n' where n': "raft_open cfg (crash_disk k n) = Inr n'" "node_ok n'" "rn_cfg n' = cfg" "rn_catalog n' = fill_usage c"
      "rn_snapshot_index n' = applied_of n'" "rn_commit_index n' = applied_of n'"
      "rn_log n' = drop (applied_of n' - rn_snapshot_index n) (take k (rn_log n))" "rn_disk_hard n' = rn_disk_hard n"
      "rn_hard n' = (case rn_disk_hard n of Some h \<Rightarrow> h | None \<Rightarrow> \<lparr>h_term = 0, h_voted_for = None\<rparr>)
        \<lparr>h_term := max (case rn_disk_hard n of Some h \<Rightarrow> h_term h | None \<Rightarrow> 0) (current_term (rn_catalog n'))\<rparr>"
      "rn_role n' = Follower" "rn_votes n' = {||}" "rn_outbox n' = []"
    using raft_open_ok [OF assms(3) w s t] c(1) node_okD(2) [OF assms(1)]
    by (clarsimp simp: crash_disk_def load_checkpoint_def)
  then have "rn_hard n' = rn_hard n" using c(3) assms(2) unfolding h by (simp add: hard_kept_def)
  then show ?thesis using n' c by auto
qed

lemma node_life_opened: "node_life cfg n \<Longrightarrow> \<exists>d n0. raft_open cfg d = Inr n0"
  by (induction rule: node_life.induct) blast+

lemma node_life_ok: "node_life cfg n \<Longrightarrow> node_ok n \<and> hard_kept n"
proof (induction rule: node_life.induct)
  case (life_open n)
  then show ?case using raft_open_ok [OF life_open, of 0 fresh_disk]
    by (auto simp: fresh_disk_def hard_kept_def load_checkpoint_def empty_catalog_def)
next
  case (life_crash n k n')
  then show ?case using crash_restart [OF _ _ life_crash.hyps(3), of n k] by (auto simp: hard_kept_def)
next
  case (life_step n n')
  then show ?case using node_step_ok hard_kept_grows by blast
qed

section \<open>Properties\<close>

definition sample_cfg :: raft_config where
  "sample_cfg = \<lparr>cf_id = ''a'', cf_peers = [''b'', ''c''], cf_bootstrap = None, cf_election_lo = 10, cf_election_hi = 20,
     cf_heartbeat_ticks = 3, cf_max_batch = 256, cf_compact_after = 4096\<rparr>"

lemma sample_opens: "\<exists>n. raft_open sample_cfg fresh_disk = Inr n"
  by (simp add: raft_open_def Let_def rbind_def sample_cfg_def fresh_disk_def)



text \<open>Safety (C9): no call makes a node go back. Its term, commit, applied and snapshot index only rise,
  within a term it keeps its vote, and no entry up to its commit index changes or is lost, unless the
  snapshot covers it.\<close>

theorem node_never_goes_back:
  assumes "node_life cfg n" and "node_step n n'"
  shows "node_term n \<le> node_term n'
    \<and> (node_term n' = node_term n \<longrightarrow> h_voted_for (rn_hard n) \<noteq> None \<longrightarrow> h_voted_for (rn_hard n') = h_voted_for (rn_hard n))
    \<and> rn_commit_index n \<le> rn_commit_index n' \<and> applied_of n \<le> applied_of n' \<and> rn_snapshot_index n \<le> rn_snapshot_index n'
    \<and> (\<forall>i. i \<le> rn_commit_index n \<longrightarrow> rn_snapshot_index n' < i \<longrightarrow> entry_at n' i = entry_at n i)"
  using node_step_ok [OF assms(2)] node_life_ok [OF assms(1)] unfolding grows_def by auto

theorem node_never_goes_back_witness:
  "\<exists>n. raft_open sample_cfg fresh_disk = Inr n \<and> node_term n \<le> node_term (snd (tick n))"
  using sample_opens node_never_goes_back [OF life_open by_tick] by blast



end
