(* ===== verification/Inflight.thy ===== *)
theory Inflight
  imports FreeSpace RaftTypes
begin

text \<open>
  Free space handed to placements in flight (\<open>crates/atlas-native/src/engine/inflight.rs\<close>). A
  placement writes data into a range before the command that installs it commits, so ranges are
  drawn from a cached view: the applied free list without every range a placement holds or that
  is quarantined. Clock readings are arguments. The step relation at the end puts the allocator
  beside the applied free list, the commits that use the ranges and the releases of extents.
\<close>

definition REFRESH :: nat where
  "REFRESH = 1000"

definition QUARANTINE :: nat where
  "QUARANTINE = 300000"

record inflight =
  if_view :: "(free_list \<times> nat) option"
  if_held :: "(nat, free_range list) btree"
  if_quarantine :: "(nat \<times> free_range) list"
  if_next :: nat

definition no_inflight :: inflight where
  "no_inflight = \<lparr>if_view = None, if_held = bempty, if_quarantine = [], if_next = 0\<rparr>"

definition if_lease :: "inflight \<Rightarrow> nat \<times> inflight" where
  "if_lease s =
     (let token = if_next s + 1
      in (token, s\<lparr>if_next := token, if_held := bput token [] (if_held s)\<rparr>))"

definition reserve_range :: "free_range \<Rightarrow> free_list \<Rightarrow> free_list" where
  "reserve_range r fl = snd (fl_reserve fl (fr_node r) (fr_dev r) (fr_off r) (fr_len r))"

definition if_refresh :: "free_list \<Rightarrow> nat \<Rightarrow> inflight \<Rightarrow> inflight" where
  "if_refresh fl now s =
     (let q = filter (\<lambda>(til, _). til > now) (if_quarantine s);
          view = fold reserve_range (concat (bvals (if_held s)) @ map snd q) fl
      in s\<lparr>if_quarantine := q, if_view := Some (view, now)\<rparr>)"

text \<open>\<open>t0\<close> is read to see how old the view is, \<open>t1\<close> after the applied free list was copied.\<close>

definition if_take ::
    "free_list \<Rightarrow> nat \<Rightarrow> nat \<Rightarrow> nat \<Rightarrow> string \<Rightarrow> nat \<Rightarrow> nat \<Rightarrow> inflight \<Rightarrow> nat option \<times> inflight" where
  "if_take fl t0 t1 token node_id device_index ln s =
     (let s = (if (case if_view s of None \<Rightarrow> True | Some (_, at) \<Rightarrow> t0 - at \<ge> REFRESH)
               then if_refresh fl t1 s else s)
      in case if_view s of
           None \<Rightarrow> (None, s)
         | Some (view, at) \<Rightarrow>
             (case fl_find view node_id device_index ln of
                None \<Rightarrow> (None, s)
              | Some off \<Rightarrow>
                  let rs = (case bget (if_held s) token of Some rs \<Rightarrow> rs | None \<Rightarrow> []);
                      r = \<lparr>fr_node = node_id, fr_dev = device_index, fr_off = off, fr_len = ln\<rparr>
                  in (Some off, s\<lparr>if_view := Some (snd (fl_reserve view node_id device_index off ln), at),
                        if_held := bput token (rs @ [r]) (if_held s)\<rparr>)))"

text \<open>Errors after which a command may still commit.\<close>

fun outcome_unknown :: "raft_error \<Rightarrow> bool" where
  "outcome_unknown (TimedOut _) \<longleftrightarrow> True"
| "outcome_unknown (LeadershipLost _) \<longleftrightarrow> True"
| "outcome_unknown ShutDown \<longleftrightarrow> True"
| "outcome_unknown RaftIo \<longleftrightarrow> True"
| "outcome_unknown (RaftWal _) \<longleftrightarrow> True"
| "outcome_unknown _ \<longleftrightarrow> False"

definition if_settle :: "raft_error \<Rightarrow> nat \<Rightarrow> nat \<Rightarrow> inflight \<Rightarrow> inflight" where
  "if_settle e now token s =
     (if \<not> outcome_unknown e then s
      else
        let til = now + QUARANTINE;
            rs = (case bget (if_held s) token of Some rs \<Rightarrow> rs | None \<Rightarrow> [])
        in s\<lparr>if_held := bput token [] (if_held s), if_quarantine := if_quarantine s @ map (\<lambda>r. (til, r)) rs\<rparr>)"

definition if_drop :: "nat \<Rightarrow> inflight \<Rightarrow> inflight" where
  "if_drop token s =
     (let s = s\<lparr>if_held := bdel token (if_held s)\<rparr>
      in if bsize (if_held s) = 0 \<and> if_quarantine s = [] then s\<lparr>if_view := None\<rparr> else s)"

section \<open>Placements, commits and releases\<close>

text \<open>
  \<open>pl_open\<close> are the ranges whose command has not been decided, \<open>pl_used\<close> those of installed
  extents.
\<close>

record placing =
  pl_free :: free_list
  pl_in :: inflight
  pl_now :: nat
  pl_open :: "free_range set"
  pl_used :: "free_range set"

definition holds :: "placing \<Rightarrow> nat \<Rightarrow> free_range \<Rightarrow> bool" where
  "holds s token r \<longleftrightarrow> (\<exists>rs. bget (if_held (pl_in s)) token = Some rs \<and> r \<in> set rs)"

definition quarantined :: "placing \<Rightarrow> free_range \<Rightarrow> bool" where
  "quarantined s r \<longleftrightarrow> (\<exists>til. (til, r) \<in> set (if_quarantine (pl_in s)) \<and> pl_now s < til)"

text \<open>A command whose outcome is unknown applies, if at all, while its ranges are quarantined.\<close>

inductive placing_step :: "placing \<Rightarrow> placing \<Rightarrow> bool" where
  pl_time: "pl_now s \<le> t \<Longrightarrow> placing_step s (s\<lparr>pl_now := t\<rparr>)"
| pl_lease: "placing_step s (s\<lparr>pl_in := snd (if_lease (pl_in s))\<rparr>)"
| pl_take: "bget (if_held (pl_in s)) token \<noteq> None \<Longrightarrow> pl_now s \<le> t0 \<Longrightarrow> t0 \<le> t1
    \<Longrightarrow> if_take (pl_free s) t0 t1 token n d ln (pl_in s) = (off, i)
    \<Longrightarrow> placing_step s (s\<lparr>pl_in := i, pl_now := t1, pl_open := pl_open s \<union>
          (case off of None \<Rightarrow> {} | Some off \<Rightarrow> {\<lparr>fr_node = n, fr_dev = d, fr_off = off, fr_len = ln\<rparr>})\<rparr>)"
| pl_commit: "r \<in> pl_open s \<Longrightarrow> holds s token r \<or> quarantined s r
    \<Longrightarrow> placing_step s (s\<lparr>pl_free := reserve_range r (pl_free s), pl_open := pl_open s - {r}, pl_used := insert r (pl_used s)\<rparr>)"
| pl_settle: "pl_now s \<le> t \<Longrightarrow> placing_step s (s\<lparr>pl_in := if_settle e t token (pl_in s), pl_now := t\<rparr>)"
| pl_drop: "placing_step s (s\<lparr>pl_in := if_drop token (pl_in s), pl_open := pl_open s - {r. holds s token r}\<rparr>)"
| pl_release: "r \<in> pl_used s
    \<Longrightarrow> placing_step s (s\<lparr>pl_free := snd (fl_release (pl_free s) (fr_node r) (fr_dev r) (fr_off r) (fr_len r)),
          pl_used := pl_used s - {r}\<rparr>)"

inductive placing_reach :: "placing \<Rightarrow> bool" where
  reach_init: "fl_inv fl \<Longrightarrow> (\<forall>r \<in> used. fr_ok r \<and> fr_bytes r \<inter> free_bytes fl = {})
    \<Longrightarrow> (\<forall>r \<in> used. \<forall>s \<in> used. r \<noteq> s \<longrightarrow> fr_bytes r \<inter> fr_bytes s = {})
    \<Longrightarrow> placing_reach \<lparr>pl_free = fl, pl_in = no_inflight, pl_now = t, pl_open = {}, pl_used = used\<rparr>"
| reach_step: "placing_reach s \<Longrightarrow> placing_step s s' \<Longrightarrow> placing_reach s'"

section \<open>The invariant\<close>

text \<open>The claims of a lease, and (\<open>None\<close>) those in quarantine.\<close>

definition claims_of :: "inflight \<Rightarrow> nat option \<Rightarrow> free_range list" where
  "claims_of i x = (case x of
       None \<Rightarrow> map snd (if_quarantine i)
     | Some k \<Rightarrow> (case bget (if_held i) k of Some rs \<Rightarrow> rs | None \<Rightarrow> []))"

abbreviation claims :: "placing \<Rightarrow> nat option \<Rightarrow> free_range list" where
  "claims s \<equiv> claims_of (pl_in s)"

definition bytes_apart :: "free_range \<Rightarrow> free_range \<Rightarrow> bool" where
  "bytes_apart r s \<longleftrightarrow> fr_bytes r \<inter> fr_bytes s = {}"

definition claims_ok :: "(nat option \<Rightarrow> free_range list) \<Rightarrow> bool" where
  "claims_ok C \<longleftrightarrow> (\<forall>x. (\<forall>r \<in> set (C x). fr_ok r) \<and> sorted_wrt bytes_apart (C x))
     \<and> (\<forall>x y. x \<noteq> y \<longrightarrow> free_bytes (C x) \<inter> free_bytes (C y) = {})"

definition view_ok :: "free_list \<Rightarrow> inflight \<Rightarrow> bool" where
  "view_ok fl i \<longleftrightarrow> (\<forall>v at. if_view i = Some (v, at) \<longrightarrow>
     fl_inv v \<and> free_bytes v \<subseteq> free_bytes fl \<and> (\<forall>x. free_bytes (claims_of i x) \<inter> free_bytes v = {}))"

definition used_ok :: "free_list \<Rightarrow> free_range set \<Rightarrow> bool" where
  "used_ok fl U \<longleftrightarrow> (\<forall>r \<in> U. fr_ok r \<and> fr_bytes r \<inter> free_bytes fl = {})
     \<and> (\<forall>r \<in> U. \<forall>s \<in> U. r \<noteq> s \<longrightarrow> bytes_apart r s)"

definition pl_inv :: "placing \<Rightarrow> bool" where
  "pl_inv s \<longleftrightarrow> fl_inv (pl_free s) \<and> claims_ok (claims s) \<and> view_ok (pl_free s) (pl_in s)
     \<and> used_ok (pl_free s) (pl_used s)
     \<and> (\<forall>x. \<forall>r \<in> set (claims s x). r \<in> pl_used s \<or> fr_bytes r \<subseteq> free_bytes (pl_free s))
     \<and> (\<forall>r \<in> pl_open s. (\<exists>k. r \<in> set (claims s (Some k))) \<or> quarantined s r \<longrightarrow> fr_bytes r \<subseteq> free_bytes (pl_free s))"

lemma claims_Some: "bget (if_held i) k = Some rs \<Longrightarrow> claims_of i (Some k) = rs"
  by (simp add: claims_of_def)

lemma holds_claims: "holds s k r \<longleftrightarrow> r \<in> set (claims s (Some k))"
  by (cases "bget (if_held (pl_in s)) k") (auto simp: holds_def claims_of_def)

lemma quarantined_claims: "quarantined s r \<Longrightarrow> r \<in> set (claims s None)"
  by (force simp: quarantined_def claims_of_def)

lemma fr_bytes_free: "r \<in> set rs \<Longrightarrow> fr_bytes r \<subseteq> free_bytes rs"
  by (auto simp: free_bytes_def)

lemma free_bytes_mono: "set rs \<subseteq> set ss \<Longrightarrow> free_bytes rs \<subseteq> free_bytes ss"
  by (auto simp: free_bytes_def)

lemma fr_ok_nonempty: "fr_ok r \<Longrightarrow> fr_bytes r \<noteq> {}"
  by (auto simp: fr_ok_def fr_bytes_def byte_range_def)

lemma apart_in_list:
  assumes "sorted_wrt bytes_apart rs" and "r \<in> set rs" and "s \<in> set rs"
  shows "r = s \<or> bytes_apart r s"
  using assms by (induction rs) (auto simp: bytes_apart_def)

lemma claims_apart:
  assumes "claims_ok C" and "r \<in> set (C x)" and "s \<in> set (C y)"
  shows "r = s \<or> bytes_apart r s"
proof (cases "x = y")
  case True
  then show ?thesis using assms apart_in_list [of "C x" r s] by (auto simp: claims_ok_def)
next
  case False
  then have "free_bytes (C x) \<inter> free_bytes (C y) = {}" using assms(1) by (simp add: claims_ok_def)
  then show ?thesis using assms(2,3) by (auto simp: bytes_apart_def free_bytes_def)
qed

lemma reserve_range_spec:
  assumes "fl_inv fl" and "fr_ok r"
  shows "fl_inv (reserve_range r fl)"
    and "fr_bytes r \<subseteq> free_bytes fl \<or> fr_bytes r \<inter> free_bytes fl = {} \<Longrightarrow> free_bytes (reserve_range r fl) = free_bytes fl - fr_bytes r"
proof -
  obtain ok fl' where r: "fl_reserve fl (fr_node r) (fr_dev r) (fr_off r) (fr_len r) = (ok, fl')" by (rule prod.exhaust)
  have l: "0 < fr_len r" "fr_off r + fr_len r \<le> u64_max" using assms(2) by (simp_all add: fr_ok_def)
  note spec = fl_reserve_spec [OF assms(1) l r]
  show "fl_inv (reserve_range r fl)" using spec(1) r by (simp add: reserve_range_def)
  show "free_bytes (reserve_range r fl) = free_bytes fl - fr_bytes r"
    if "fr_bytes r \<subseteq> free_bytes fl \<or> fr_bytes r \<inter> free_bytes fl = {}"
    using spec(2,3) r that fr_ok_nonempty [OF assms(2)] by (auto simp: reserve_range_def fr_bytes_def)
qed

text \<open>Reserving claims that are wholly free or wholly taken removes exactly their bytes.\<close>

lemma fold_reserve:
  assumes "fl_inv fl" and "\<forall>r \<in> set rs. fr_ok r" and "\<forall>r \<in> set rs. \<forall>s \<in> set rs. r = s \<or> bytes_apart r s"
    and "\<forall>r \<in> set rs. fr_bytes r \<subseteq> free_bytes fl \<or> fr_bytes r \<inter> free_bytes fl = {}"
  shows "fl_inv (fold reserve_range rs fl) \<and> free_bytes (fold reserve_range rs fl) = free_bytes fl - free_bytes rs"
  using assms
proof (induction rs arbitrary: fl)
  case (Cons r rs)
  let ?fl = "reserve_range r fl"
  have r: "fl_inv ?fl" "free_bytes ?fl = free_bytes fl - fr_bytes r"
    using reserve_range_spec [OF Cons.prems(1), of r] Cons.prems(2,4) by auto
  have "fr_bytes q \<subseteq> free_bytes ?fl \<or> fr_bytes q \<inter> free_bytes ?fl = {}" if "q \<in> set rs" for q
    using Cons.prems(3,4) that unfolding r(2) bytes_apart_def by (cases "q = r") fastforce+
  then have "fl_inv (fold reserve_range rs ?fl) \<and> free_bytes (fold reserve_range rs ?fl) = free_bytes ?fl - free_bytes rs"
    using Cons.IH [OF r(1)] Cons.prems(2,3) by simp
  then show ?case using r(2) by (auto simp: free_bytes_Cons)
qed simp

section \<open>Every step keeps it\<close>

definition whole :: "free_list \<Rightarrow> free_range \<Rightarrow> bool" where
  "whole fl r \<longleftrightarrow> fr_bytes r \<subseteq> free_bytes fl \<or> fr_bytes r \<inter> free_bytes fl = {}"

lemma refresh_claims:
  "claims_of (if_refresh fl t i) (Some k) = claims_of i (Some k)"
  "claims_of (if_refresh fl t i) None = map snd (filter (\<lambda>(til, _). til > t) (if_quarantine i))"
  by (simp_all add: if_refresh_def Let_def claims_of_def)

lemma sorted_map_filter: "sorted_wrt P (map f xs) \<Longrightarrow> sorted_wrt P (map f (filter Q xs))"
  by (simp add: sorted_wrt_map sorted_wrt_filter)

lemma refresh_ok:
  assumes "fl_inv fl" and "claims_ok (claims_of i)" and "\<forall>x. \<forall>r \<in> set (claims_of i x). whole fl r"
  shows "claims_ok (claims_of (if_refresh fl t i))" "view_ok fl (if_refresh fl t i)"
    "set (claims_of (if_refresh fl t i) x) \<subseteq> set (claims_of i x)"
proof -
  let ?i = "if_refresh fl t i"
  let ?q = "filter (\<lambda>(til, _). til > t) (if_quarantine i)"
  let ?rs = "concat (bvals (if_held i)) @ map snd ?q"
  have sub: "set (claims_of ?i x) \<subseteq> set (claims_of i x)" for x
    by (cases x) (auto simp: refresh_claims claims_of_def [of i])
  show "set (claims_of ?i x) \<subseteq> set (claims_of i x)" by (rule sub)
  have b: "free_bytes (claims_of ?i x) \<subseteq> free_bytes (claims_of i x)" for x
    using sub [of x] by (rule free_bytes_mono)
  have "sorted_wrt bytes_apart (claims_of ?i x)" for x
    using assms(2) sorted_map_filter [of bytes_apart snd "if_quarantine i"]
    by (cases x) (auto simp: claims_ok_def refresh_claims claims_of_def [of i "None"] dest!: spec [of _ "None :: nat option"])
  then show "claims_ok (claims_of ?i)" using assms(2) sub b unfolding claims_ok_def by blast
  have mem: "\<exists>x. r \<in> set (claims_of i x)" if "r \<in> set ?rs" for r
  proof -
    have "(\<exists>k rs. bget (if_held i) k = Some rs \<and> r \<in> set rs) \<or> r \<in> set (claims_of i None)"
      using that by (auto simp: set_bvals claims_of_def)
    then show ?thesis using claims_Some by fastforce
  qed
  have v: "fl_inv (fold reserve_range ?rs fl) \<and> free_bytes (fold reserve_range ?rs fl) = free_bytes fl - free_bytes ?rs"
  proof (rule fold_reserve [OF assms(1)])
    show "\<forall>r \<in> set ?rs. fr_ok r" using mem assms(2) unfolding claims_ok_def by blast
    show "\<forall>r \<in> set ?rs. \<forall>s \<in> set ?rs. r = s \<or> bytes_apart r s" using mem claims_apart [OF assms(2)] by metis
    show "\<forall>r \<in> set ?rs. fr_bytes r \<subseteq> free_bytes fl \<or> fr_bytes r \<inter> free_bytes fl = {}"
      using mem assms(3) unfolding whole_def by blast
  qed
  have "set (claims_of ?i x) \<subseteq> set ?rs" for x
  proof (cases x)
    case (Some k)
    then show ?thesis by (cases "bget (if_held i) k") (auto simp: refresh_claims claims_of_def [of i] set_bvals)
  qed (auto simp: refresh_claims)
  then have "free_bytes (claims_of ?i x) \<subseteq> free_bytes ?rs" for x by (rule free_bytes_mono)
  moreover have "if_view ?i = Some (fold reserve_range ?rs fl, t)" by (simp add: if_refresh_def Let_def)
  ultimately show "view_ok fl ?i" using v unfolding view_ok_def by auto
qed

lemma find_fits: "fl_inv fl \<Longrightarrow> fl_find fl n d ln = Some off \<Longrightarrow> 0 < ln \<and> off + ln \<le> u64_max"
  by (force simp: fl_find_def find_Some_iff fl_inv_def fr_ok_def split: if_splits dest: nth_mem)

lemma take_cached_ok:
  fixes n d ln off token i
  defines "r \<equiv> \<lparr>fr_node = n, fr_dev = d, fr_off = off, fr_len = ln\<rparr>"
  assumes "claims_ok (claims_of i)" and "view_ok fl i" and "if_view i = Some (v, at)" and "fl_find v n d ln = Some off"
  defines "j \<equiv> i\<lparr>if_view := Some (snd (fl_reserve v n d off ln), at),
      if_held := bput token ((case bget (if_held i) token of Some rs \<Rightarrow> rs | None \<Rightarrow> []) @ [r]) (if_held i)\<rparr>"
  shows "claims_ok (claims_of j)" "view_ok fl j" "fr_bytes r \<subseteq> free_bytes fl"
    "claims_of j x = claims_of i x @ (if x = Some token then [r] else [])"
proof -
  have v: "fl_inv v" "free_bytes v \<subseteq> free_bytes fl" "\<And>x. free_bytes (claims_of i x) \<inter> free_bytes v = {}"
    using assms(3,4) by (auto simp: view_ok_def)
  have ok: "fr_ok r" using find_fits [OF v(1) assms(5)] by (simp add: r_def fr_ok_def)
  have sub: "fr_bytes r \<subseteq> free_bytes v" using fl_find_Some [OF assms(5)] by (simp add: r_def fr_bytes_def)
  then show "fr_bytes r \<subseteq> free_bytes fl" using v(2) by blast
  show c: "claims_of j x = claims_of i x @ (if x = Some token then [r] else [])" for x
    by (cases x) (auto simp: claims_of_def j_def split: option.split)
  have a: "bytes_apart q r" if "q \<in> set (claims_of i x)" for q x
    using v(3) [of x] sub fr_bytes_free [OF that] unfolding bytes_apart_def by blast
  have f: "free_bytes (claims_of j x) = free_bytes (claims_of i x) \<union> (if x = Some token then fr_bytes r else {})" for x
    by (simp add: c free_bytes_simps)
  show "claims_ok (claims_of j)"
    using assms(2) ok a v(3) sub unfolding claims_ok_def f
    by (auto simp: c sorted_wrt_append) (blast | force)+
  have "free_bytes (reserve_range r v) = free_bytes v - fr_bytes r" "fl_inv (reserve_range r v)"
    using reserve_range_spec [OF v(1) ok] sub by auto
  moreover have "snd (fl_reserve v n d off ln) = reserve_range r v" by (simp add: reserve_range_def r_def)
  ultimately show "view_ok fl j" using v unfolding view_ok_def f by (auto simp: j_def)
qed

lemma take_ok:
  fixes n d ln off token
  assumes "if_take fl t0 t1 token n d ln i = (off, j)"
    and "fl_inv fl" and "claims_ok (claims_of i)" and "view_ok fl i" and "\<forall>x. \<forall>r \<in> set (claims_of i x). whole fl r"
  defines "new \<equiv> (case off of None \<Rightarrow> {} | Some off \<Rightarrow> {\<lparr>fr_node = n, fr_dev = d, fr_off = off, fr_len = ln\<rparr>})"
  shows "claims_ok (claims_of j)" "view_ok fl j" "\<forall>r \<in> new. fr_bytes r \<subseteq> free_bytes fl \<and> r \<in> set (claims_of j (Some token))"
    "\<forall>x. set (claims_of j x) \<subseteq> set (claims_of i x) \<union> new"
    "if_quarantine j = if_quarantine i \<or> if_quarantine j = filter (\<lambda>(til, _). til > t1) (if_quarantine i)"
    "\<forall>k. set (claims_of i (Some k)) \<subseteq> set (claims_of j (Some k))"
proof -
  define h where "h = (if (case if_view i of None \<Rightarrow> True | Some (_, at) \<Rightarrow> t0 - at \<ge> REFRESH) then if_refresh fl t1 i else i)"
  have h: "claims_ok (claims_of h)" "view_ok fl h" "\<And>x. set (claims_of h x) \<subseteq> set (claims_of i x)"
    using refresh_ok [OF assms(2,3,5)] assms(3,4) by (auto simp: h_def)
  have q: "if_quarantine h = if_quarantine i \<or> if_quarantine h = filter (\<lambda>(til, _). til > t1) (if_quarantine i)"
    "claims_of h (Some k) = claims_of i (Some k)" for k
    by (auto simp: h_def if_refresh_def Let_def claims_of_def)
  have t: "if_take fl t0 t1 token n d ln i = (case if_view h of
           None \<Rightarrow> (None, h)
         | Some (view, at) \<Rightarrow>
             (case fl_find view n d ln of
                None \<Rightarrow> (None, h)
              | Some off \<Rightarrow>
                  (Some off, h\<lparr>if_view := Some (snd (fl_reserve view n d off ln), at),
                     if_held := bput token ((case bget (if_held h) token of Some rs \<Rightarrow> rs | None \<Rightarrow> [])
                       @ [\<lparr>fr_node = n, fr_dev = d, fr_off = off, fr_len = ln\<rparr>]) (if_held h)\<rparr>)))"
    unfolding if_take_def Let_def h_def by (rule refl)
  consider (no) "off = None" "j = h"
    | (yes) v at x where "if_view h = Some (v, at)" "fl_find v n d ln = Some x" "off = Some x"
      "j = h\<lparr>if_view := Some (snd (fl_reserve v n d x ln), at),
         if_held := bput token ((case bget (if_held h) token of Some rs \<Rightarrow> rs | None \<Rightarrow> [])
           @ [\<lparr>fr_node = n, fr_dev = d, fr_off = x, fr_len = ln\<rparr>]) (if_held h)\<rparr>"
  proof (cases "if_view h")
    case None
    then show thesis using assms(1) t that(1) by simp
  next
    case (Some p)
    then obtain v at where v: "if_view h = Some (v, at)" by (cases p) simp
    show thesis
    proof (cases "fl_find v n d ln")
      case None
      then show thesis using assms(1) t that(1) v by simp
    next
      case (Some x)
      then show thesis using assms(1) t v by (intro that(2) [OF v Some]) simp_all
    qed
  qed
  then have "claims_ok (claims_of j) \<and> view_ok fl j \<and> (\<forall>r \<in> new. fr_bytes r \<subseteq> free_bytes fl \<and> r \<in> set (claims_of j (Some token)))
    \<and> (\<forall>x. set (claims_of j x) \<subseteq> set (claims_of i x) \<union> new) \<and> if_quarantine j = if_quarantine h
    \<and> (\<forall>k. set (claims_of i (Some k)) \<subseteq> set (claims_of j (Some k)))"
  proof cases
    case no
    then show ?thesis using h q(2) by (simp add: new_def)
  next
    case (yes v at x)
    note k = take_cached_ok(1,2,4) [OF h(1,2) yes(1,2), where token = token, folded yes(4)] take_cached_ok(3) [OF h(1,2) yes(1,2)]
    show ?thesis using k h(3) q(2) yes(3,4) by (auto simp: new_def)
  qed
  then show "claims_ok (claims_of j)" "view_ok fl j" "\<forall>r \<in> new. fr_bytes r \<subseteq> free_bytes fl \<and> r \<in> set (claims_of j (Some token))"
    "\<forall>x. set (claims_of j x) \<subseteq> set (claims_of i x) \<union> new"
    "if_quarantine j = if_quarantine i \<or> if_quarantine j = filter (\<lambda>(til, _). til > t1) (if_quarantine i)"
    "\<forall>k. set (claims_of i (Some k)) \<subseteq> set (claims_of j (Some k))"
    using q(1) by auto
qed

lemma whole_claims:
  assumes "pl_inv s" and "r \<in> set (claims s x)"
  shows "whole (pl_free s) r"
  using assms unfolding pl_inv_def used_ok_def whole_def by blast

lemma settle_claims:
  assumes "outcome_unknown e"
  shows "claims_of (if_settle e t token i) (Some k) = (if k = token then [] else claims_of i (Some k))"
    "claims_of (if_settle e t token i) None = claims_of i None @ claims_of i (Some token)"
    "if_view (if_settle e t token i) = if_view i"
  using assms by (auto simp: if_settle_def Let_def claims_of_def comp_def split: option.split)

lemma settle_ok:
  assumes "claims_ok (claims_of i)" and "view_ok fl i" and "outcome_unknown e"
  shows "claims_ok (claims_of (if_settle e t token i))" "view_ok fl (if_settle e t token i)"
proof -
  let ?j = "if_settle e t token i"
  have f: "free_bytes (claims_of ?j (Some k)) = (if k = token then {} else free_bytes (claims_of i (Some k)))"
    "free_bytes (claims_of ?j None) = free_bytes (claims_of i None) \<union> free_bytes (claims_of i (Some token))" for k
    by (simp_all add: settle_claims [OF assms(3)] free_bytes_append)
  have c: "x \<noteq> y \<Longrightarrow> free_bytes (claims_of i x) \<inter> free_bytes (claims_of i y) = {}" for x y
    using assms(1) by (simp add: claims_ok_def)
  have "bytes_apart q r" if "q \<in> set (claims_of i None)" "r \<in> set (claims_of i (Some token))" for q r
    using c [of None "Some token"] fr_bytes_free that unfolding bytes_apart_def by blast
  then have "(\<forall>r \<in> set (claims_of ?j x). fr_ok r) \<and> sorted_wrt bytes_apart (claims_of ?j x)" for x
    using assms(1) by (cases x) (auto simp: claims_ok_def settle_claims [OF assms(3)] sorted_wrt_append)
  moreover have "free_bytes (claims_of ?j x) \<inter> free_bytes (claims_of ?j y) = {}" if "x \<noteq> y" for x y
    using c that by (cases x; cases y) (auto simp: f split: if_splits, blast+)
  ultimately show "claims_ok (claims_of ?j)" unfolding claims_ok_def by blast
  have "free_bytes (claims_of ?j x) \<inter> free_bytes v = {}" if "if_view i = Some (v, at)" for x v at
    using assms(2) that by (cases x) (auto simp: view_ok_def f)
  then show "view_ok fl ?j" using assms(2) unfolding view_ok_def settle_claims(3) [OF assms(3)] by blast
qed

lemma claims_ok_shrink:
  assumes "claims_ok C" and "\<And>x. D x = C x \<or> D x = []"
  shows "claims_ok D"
proof -
  have "free_bytes (D x) \<subseteq> free_bytes (C x)" "set (D x) \<subseteq> set (C x)" for x using assms(2) [of x] by auto
  moreover have "sorted_wrt bytes_apart (D x)" for x using assms(1) assms(2) [of x] by (auto simp: claims_ok_def)
  ultimately show ?thesis using assms(1) unfolding claims_ok_def by blast
qed

lemma view_ok_shrink:
  assumes "view_ok fl i" and "\<And>x. claims_of j x = claims_of i x \<or> claims_of j x = []" and "if_view j = if_view i \<or> if_view j = None"
  shows "view_ok fl j"
proof -
  have "free_bytes (claims_of j x) \<subseteq> free_bytes (claims_of i x)" for x using assms(2) [of x] by auto
  then show ?thesis using assms(1,3) unfolding view_ok_def by fastforce
qed

text \<open>Claims may be given up at any time.\<close>

lemma pl_inv_shrink:
  assumes "pl_inv s" and "\<And>x. claims_of j x = claims s x \<or> claims_of j x = []" and "if_view j = if_view (pl_in s) \<or> if_view j = None"
    and "if_quarantine j = if_quarantine (pl_in s)" and "P \<subseteq> pl_open s" and "pl_now s \<le> t"
  shows "pl_inv (s\<lparr>pl_in := j, pl_open := P, pl_now := t\<rparr>)"
proof -
  have sub: "set (claims_of j x) \<subseteq> set (claims s x)" for x using assms(2) [of x] by auto
  moreover have "quarantined (s\<lparr>pl_in := j, pl_open := P, pl_now := t\<rparr>) r \<Longrightarrow> quarantined s r" for r
    using assms(4,6) by (auto simp: quarantined_def)
  moreover have "claims_ok (claims_of j)" "view_ok (pl_free s) j"
    using assms(1,3) claims_ok_shrink [OF _ assms(2)] view_ok_shrink [OF _ assms(2)] by (simp_all add: pl_inv_def)
  ultimately show ?thesis using assms(1,5) unfolding pl_inv_def by auto blast+
qed

lemma commit_keeps:
  assumes "pl_inv s" and "r \<in> pl_open s" and "r \<in> set (claims s x)" and "fr_bytes r \<subseteq> free_bytes (pl_free s)"
  shows "pl_inv (s\<lparr>pl_free := reserve_range r (pl_free s), pl_open := pl_open s - {r}, pl_used := insert r (pl_used s)\<rparr>)"
proof -
  note i = assms(1) [unfolded pl_inv_def]
  have ok: "fr_ok r" using i assms(3) by (auto simp: claims_ok_def)
  have f: "fl_inv (reserve_range r (pl_free s))" "free_bytes (reserve_range r (pl_free s)) = free_bytes (pl_free s) - fr_bytes r"
    using reserve_range_spec [OF _ ok] i assms(4) by auto
  have a: "q = r \<or> bytes_apart q r" if "q \<in> set (claims s y)" for q y using claims_apart [OF _ that assms(3)] i by blast
  have u: "bytes_apart q r" "bytes_apart r q" if "q \<in> pl_used s" for q
    using i assms(4) that by (auto simp: used_ok_def bytes_apart_def)
  have "fr_bytes r \<inter> free_bytes v = {}" if "if_view (pl_in s) = Some (v, at)" for v at
    using i that fr_bytes_free [OF assms(3)] unfolding view_ok_def by blast
  then have v: "view_ok (reserve_range r (pl_free s)) (pl_in s)"
    using i unfolding view_ok_def f(2) by blast
  have us: "used_ok (reserve_range r (pl_free s)) (insert r (pl_used s))"
    using i ok u by (auto simp: used_ok_def f(2))
  have c: "q \<in> insert r (pl_used s) \<or> fr_bytes q \<subseteq> free_bytes (pl_free s) - fr_bytes r" if "q \<in> set (claims s y)" for q y
    using i a [OF that] that unfolding bytes_apart_def by blast
  have o: "fr_bytes q \<subseteq> free_bytes (pl_free s) - fr_bytes r"
    if "q \<in> pl_open s - {r}" "(\<exists>k. q \<in> set (claims s (Some k))) \<or> quarantined s q" for q
    using i that a quarantined_claims [of s q] unfolding bytes_apart_def by blast
  have "quarantined (s\<lparr>pl_free := fl, pl_open := P, pl_used := U\<rparr>) q = quarantined s q" for q fl P U by (simp add: quarantined_def)
  then show ?thesis using i f v us c o unfolding pl_inv_def by simp
qed

lemma release_keeps:
  assumes "pl_inv s" and "r \<in> pl_used s"
  shows "pl_inv (s\<lparr>pl_free := snd (fl_release (pl_free s) (fr_node r) (fr_dev r) (fr_off r) (fr_len r)), pl_used := pl_used s - {r}\<rparr>)"
proof -
  note i = assms(1) [unfolded pl_inv_def]
  obtain ok fl where rel: "fl_release (pl_free s) (fr_node r) (fr_dev r) (fr_off r) (fr_len r) = (ok, fl)" by (rule prod.exhaust)
  have r: "fr_ok r" "fr_bytes r \<inter> free_bytes (pl_free s) = {}" using i assms(2) by (auto simp: used_ok_def)
  have f: "fl_inv fl" "free_bytes fl = free_bytes (pl_free s) \<union> fr_bytes r"
    using fl_release_spec [OF _ _ _ rel] i r by (auto simp: fr_ok_def fr_bytes_def)
  have "fr_bytes q \<inter> fr_bytes r = {}" if "q \<in> pl_used s - {r}" for q
    using i assms(2) that by (auto simp: used_ok_def bytes_apart_def)
  then have us: "used_ok fl (pl_used s - {r})"
    using i by (auto simp: used_ok_def f(2) Int_Un_distrib)
  have v: "view_ok fl (pl_in s)" using i unfolding view_ok_def f(2) by blast
  have c: "q \<in> pl_used s - {r} \<or> fr_bytes q \<subseteq> free_bytes (pl_free s) \<union> fr_bytes r" if "q \<in> set (claims s x)" for q x
    using i that by blast
  have "quarantined (s\<lparr>pl_free := fl, pl_used := U\<rparr>) q = quarantined s q" for q U by (simp add: quarantined_def)
  then show ?thesis using i f us v c unfolding pl_inv_def rel snd_conv by simp blast
qed

lemma take_keeps:
  fixes n d ln off token
  assumes "pl_inv s" and "pl_now s \<le> t0" and "t0 \<le> t1" and "if_take (pl_free s) t0 t1 token n d ln (pl_in s) = (off, i)"
  defines "new \<equiv> (case off of None \<Rightarrow> {} | Some off \<Rightarrow> {\<lparr>fr_node = n, fr_dev = d, fr_off = off, fr_len = ln\<rparr>})"
  shows "pl_inv (s\<lparr>pl_in := i, pl_now := t1, pl_open := pl_open s \<union> new\<rparr>)"
proof -
  note j = assms(1) [unfolded pl_inv_def]
  have t: "claims_ok (claims_of i)" "view_ok (pl_free s) i"
    "\<forall>r \<in> new. fr_bytes r \<subseteq> free_bytes (pl_free s) \<and> r \<in> set (claims_of i (Some token))"
    "\<forall>x. set (claims_of i x) \<subseteq> set (claims s x) \<union> new"
    "if_quarantine i = if_quarantine (pl_in s) \<or> if_quarantine i = filter (\<lambda>(til, _). til > t1) (if_quarantine (pl_in s))"
    using take_ok [OF assms(4)] whole_claims [OF assms(1)] j by (auto simp: new_def)
  let ?s = "s\<lparr>pl_in := i, pl_now := t1, pl_open := pl_open s \<union> new\<rparr>"
  have q: "quarantined ?s r \<Longrightarrow> quarantined s r" for r
    using t(5) assms(2,3) by (force simp: quarantined_def)
  have "fr_bytes r \<subseteq> free_bytes (pl_free s)"
    if "r \<in> pl_open s \<union> new" "(\<exists>k. r \<in> set (claims_of i (Some k))) \<or> quarantined ?s r" for r
    using that t(3,4) q j by blast
  moreover have "r \<in> pl_used s \<or> fr_bytes r \<subseteq> free_bytes (pl_free s)" if "r \<in> set (claims_of i x)" for r x
    using that t(3,4) j by blast
  ultimately show ?thesis using j t(1,2) unfolding pl_inv_def by simp
qed

lemma settle_keeps:
  assumes "pl_inv s" and "pl_now s \<le> t"
  shows "pl_inv (s\<lparr>pl_in := if_settle e t token (pl_in s), pl_now := t\<rparr>)"
proof (cases "outcome_unknown e")
  case True
  note j = assms(1) [unfolded pl_inv_def]
  let ?i = "if_settle e t token (pl_in s)"
  let ?s = "s\<lparr>pl_in := ?i, pl_now := t\<rparr>"
  have ok: "claims_ok (claims_of ?i)" "view_ok (pl_free s) ?i" using settle_ok [OF _ _ True] j by auto
  have mem: "\<exists>y. r \<in> set (claims s y)" if "r \<in> set (claims_of ?i x)" for r x
    using that by (cases x) (auto simp: settle_claims [OF True] split: if_splits)
  have "quarantined s r \<or> r \<in> set (claims s (Some token))" if "quarantined ?s r" for r
    using that assms(2) True by (force simp: quarantined_def if_settle_def Let_def claims_of_def)
  moreover have "r \<in> set (claims s (Some k))" if "r \<in> set (claims_of ?i (Some k))" for r k
    using that by (simp add: settle_claims [OF True] split: if_splits)
  ultimately have "fr_bytes r \<subseteq> free_bytes (pl_free s)"
    if "r \<in> pl_open s" "(\<exists>k. r \<in> set (claims_of ?i (Some k))) \<or> quarantined ?s r" for r
    using that j by blast
  moreover have "r \<in> pl_used s \<or> fr_bytes r \<subseteq> free_bytes (pl_free s)" if "r \<in> set (claims_of ?i x)" for r x
    using mem [OF that] j by blast
  ultimately show ?thesis using j ok unfolding pl_inv_def by simp
next
  case False
  then show ?thesis using pl_inv_shrink [OF assms(1), of "pl_in s" "pl_open s" t] assms(2) by (simp add: if_settle_def)
qed

lemma drop_claims: "claims_of (if_drop token i) x = (if x = Some token then [] else claims_of i x)"
  "if_view (if_drop token i) = if_view i \<or> if_view (if_drop token i) = None" "if_quarantine (if_drop token i) = if_quarantine i"
  by (auto simp: if_drop_def Let_def claims_of_def split: option.split)

lemma placing_step_inv: "placing_step s s' \<Longrightarrow> pl_inv s \<Longrightarrow> pl_inv s'"
proof (induction rule: placing_step.induct)
  case (pl_time s t)
  then show ?case using pl_inv_shrink [of s "pl_in s" "pl_open s" t] by simp
next
  case (pl_lease s)
  have "claims_of (snd (if_lease (pl_in s))) x = claims s x \<or> claims_of (snd (if_lease (pl_in s))) x = []" for x
    by (auto simp: if_lease_def Let_def claims_of_def split: option.split)
  then show ?case using pl_inv_shrink [OF pl_lease, of "snd (if_lease (pl_in s))" "pl_open s" "pl_now s"]
    by (simp add: if_lease_def Let_def)
next
  case (pl_commit r s token)
  then have "\<exists>x. r \<in> set (claims s x)" using holds_claims quarantined_claims by blast
  moreover have "fr_bytes r \<subseteq> free_bytes (pl_free s)" using pl_commit holds_claims unfolding pl_inv_def by blast
  ultimately show ?case using commit_keeps pl_commit by blast
next
  case (pl_drop s token)
  have "claims_of (if_drop token (pl_in s)) x = claims s x \<or> claims_of (if_drop token (pl_in s)) x = []" for x
    by (simp add: drop_claims)
  then show ?case
    using pl_inv_shrink [OF pl_drop, of "if_drop token (pl_in s)" "pl_open s - {r. holds s token r}" "pl_now s"] drop_claims(2,3)
    by simp
qed (use take_keeps settle_keeps release_keeps in blast)+

lemma placing_reach_inv: "placing_reach s \<Longrightarrow> pl_inv s"
proof (induction rule: placing_reach.induct)
  case (reach_init fl used t)
  then show ?case
    by (auto simp: pl_inv_def claims_of_def no_inflight_def claims_ok_def view_ok_def used_ok_def bytes_apart_def quarantined_def split: option.split)
qed (rule placing_step_inv)

text \<open>Safety (C17): placements in flight never get in each other's way. No device byte is held by two
  leases, or by a lease and the quarantine; a range whose command is undecided belongs to no
  installed extent; and when the command commits, reserving the range in the applied free list
  succeeds.\<close>

theorem placements_never_collide:
  assumes "placing_reach s"
  shows "(\<forall>x y. x \<noteq> y \<longrightarrow> free_bytes (claims s x) \<inter> free_bytes (claims s y) = {})
    \<and> (\<forall>r token. r \<in> pl_open s \<longrightarrow> holds s token r \<or> quarantined s r \<longrightarrow>
        fst (fl_reserve (pl_free s) (fr_node r) (fr_dev r) (fr_off r) (fr_len r))
        \<and> (\<forall>u \<in> pl_used s. fr_bytes r \<inter> fr_bytes u = {}))"
proof -
  have i: "pl_inv s" by (rule placing_reach_inv [OF assms])
  have "fst (fl_reserve (pl_free s) (fr_node r) (fr_dev r) (fr_off r) (fr_len r)) \<and> (\<forall>u \<in> pl_used s. fr_bytes r \<inter> fr_bytes u = {})"
    if "r \<in> pl_open s" "holds s token r \<or> quarantined s r" for r token
  proof -
    have f: "fr_bytes r \<subseteq> free_bytes (pl_free s)" using i that holds_claims unfolding pl_inv_def by blast
    have "\<exists>x. r \<in> set (claims s x)" using that(2) holds_claims quarantined_claims by blast
    then have "fr_ok r" using i by (auto simp: pl_inv_def claims_ok_def)
    obtain ok fl where rs: "fl_reserve (pl_free s) (fr_node r) (fr_dev r) (fr_off r) (fr_len r) = (ok, fl)" by (rule prod.exhaust)
    have "fl_inv (pl_free s)" using i by (simp add: pl_inv_def)
    then have ok using fl_reserve_spec(2) [OF _ _ _ rs] \<open>fr_ok r\<close> f by (simp add: fr_ok_def fr_bytes_def)
    then show ?thesis using rs f i by (auto simp: pl_inv_def used_ok_def)
  qed
  then show ?thesis using i by (auto simp: pl_inv_def claims_ok_def)
qed

definition sample_range :: "nat \<Rightarrow> nat \<Rightarrow> free_range" where
  "sample_range off ln = \<lparr>fr_node = ''n1'', fr_dev = 0, fr_off = off, fr_len = ln\<rparr>"

definition sample_placing :: placing where
  "sample_placing = \<lparr>pl_free = [sample_range 0 10],
     pl_in = \<lparr>if_view = Some ([sample_range 4 6], 5), if_held = bput 1 [sample_range 0 4] bempty, if_quarantine = [], if_next = 1\<rparr>,
     pl_now = 5, pl_open = {sample_range 0 4}, pl_used = {}\<rparr>"

lemma sample_placing_reach: "placing_reach sample_placing"
proof -
  let ?s = "\<lparr>pl_free = [sample_range 0 10], pl_in = no_inflight, pl_now = 5, pl_open = {}, pl_used = {}\<rparr>"
  let ?t = "?s\<lparr>pl_in := snd (if_lease (pl_in ?s))\<rparr>"
  have s: "placing_reach ?s"
    by (rule reach_init) (simp_all add: fl_inv_simps fr_ok_def sample_range_def u64_max_def)
  have t: "placing_reach ?t" by (rule reach_step [OF s pl_lease])
  have k: "if_take (pl_free ?t) 5 5 1 ''n1'' 0 4 (pl_in ?t) = (Some 0, pl_in sample_placing)"
    by (simp add: sample_placing_def if_take_def if_lease_def no_inflight_def if_refresh_def Let_def bvals_def fl_find_def
        same_device_def fl_reserve_def sample_range_def fr_end_def wrap_add_def vec_remove_def vec_insert_def reserve_range_def)
  have "placing_reach (?t\<lparr>pl_in := pl_in sample_placing, pl_now := 5, pl_open := pl_open ?t \<union> {sample_range 0 4}\<rparr>)"
    using reach_step [OF t pl_take [OF _ _ _ k]] by (simp add: if_lease_def no_inflight_def Let_def sample_range_def)
  then show ?thesis by (simp add: sample_placing_def)
qed

theorem placements_never_collide_witness:
  "sample_range 0 4 \<in> pl_open sample_placing \<and> fst (fl_reserve (pl_free sample_placing) ''n1'' 0 0 4)"
proof -
  have "sample_range 0 4 \<in> pl_open sample_placing" "holds sample_placing 1 (sample_range 0 4)"
    by (simp_all add: sample_placing_def holds_def)
  then show ?thesis using placements_never_collide [OF sample_placing_reach] by (fastforce simp: sample_range_def)
qed

end
