(* ===== verification/CacheLeases.thy ===== *)
theory CacheLeases
  imports Prelude "HOL-Library.FSet"
begin

text \<open>
  Cache leases (\<open>crates/atlas-native/src/node/cache_leases.rs\<close>): the leader lets client sessions
  cache inodes, and holds back changes until every other session has given its lease back or the
  lease has run out. Hash maps are ordered maps here, since nothing depends on their order. Each
  critical section is one function; a wait on the condition variable separates two of them. The
  clock is an argument (milliseconds).
\<close>

section \<open>The state\<close>

definition CACHE_LEASE :: nat where
  "CACHE_LEASE = 5000"

type_synonym lease_key = "string \<times> nat"

record cache_state =
  cs_term :: nat
  cs_since :: "nat option"
  cs_leases :: "(lease_key, (string, nat) btree) btree"
  cs_changing :: "(lease_key, nat) btree"
  cs_recalls :: "(string, lease_key fset) btree"
  cs_grants :: nat

definition no_cache_state :: cache_state where
  "no_cache_state = \<lparr>cs_term = 0, cs_since = None, cs_leases = bempty, cs_changing = bempty, cs_recalls = bempty, cs_grants = 0\<rparr>"

definition lease_keys :: "string \<Rightarrow> nat list \<Rightarrow> lease_key list" where
  "lease_keys fs inos = map (Pair fs) (sort (remdups inos))"

definition cs_sync :: "nat \<Rightarrow> nat \<Rightarrow> cache_state \<Rightarrow> cache_state" where
  "cs_sync now term s =
     (if cs_since s = None \<or> cs_term s \<noteq> term then no_cache_state\<lparr>cs_term := term, cs_since := Some now\<rparr> else s)"

definition cs_sweep :: "nat \<Rightarrow> cache_state \<Rightarrow> cache_state" where
  "cs_sweep now s = s\<lparr>cs_leases := bretain (\<lambda>_ h. bsize h \<noteq> 0) (bmap (\<lambda>_ h. bretain (\<lambda>_ til. til > now) h) (cs_leases s))\<rparr>"

definition holders :: "cache_state \<Rightarrow> lease_key \<Rightarrow> (string, nat) btree" where
  "holders s k = (case bget (cs_leases s) k of Some h \<Rightarrow> h | None \<Rightarrow> bempty)"

definition foreign :: "nat \<Rightarrow> lease_key list \<Rightarrow> string option \<Rightarrow> cache_state \<Rightarrow> (string \<times> lease_key) list" where
  "foreign now ks except s =
     concat (map (\<lambda>k. map (\<lambda>(h, _). (h, k)) (filter (\<lambda>(h, til). Some h \<noteq> except \<and> til > now) (bitems (holders s k)))) ks)"

section \<open>Operations\<close>

definition put_lease :: "string \<Rightarrow> nat \<Rightarrow> lease_key \<Rightarrow> cache_state \<Rightarrow> cache_state" where
  "put_lease session til k s = s\<lparr>cs_leases := bput k (bput session til (holders s k)) (cs_leases s)\<rparr>"

definition cl_grant :: "nat \<Rightarrow> nat \<Rightarrow> string \<Rightarrow> nat list \<Rightarrow> string \<Rightarrow> cache_state \<Rightarrow> nat option \<times> cache_state" where
  "cl_grant now term fs inos session s =
     (let s = cs_sync now term s; ks = lease_keys fs inos
      in if list_ex (\<lambda>k. bget (cs_changing s) k \<noteq> None) ks then (None, s)
         else
           let s = s\<lparr>cs_grants := cs_grants s + 1\<rparr>;
               s = (if cs_grants s mod 1024 = 0 then cs_sweep now s else s)
           in (Some CACHE_LEASE, fold (put_lease session (now + CACHE_LEASE)) ks s))"

text \<open>\<open>begin\<close>, up to the grace period: the time from which the change may go on.\<close>

definition begin_sync :: "nat \<Rightarrow> nat \<Rightarrow> bool \<Rightarrow> cache_state \<Rightarrow> nat \<times> cache_state" where
  "begin_sync now term grace s =
     (let s = cs_sync now term s
      in (if grace then (case cs_since s of None \<Rightarrow> now | Some t \<Rightarrow> t + CACHE_LEASE) else now, s))"

text \<open>\<open>begin\<close>, after the grace period: the keys are marked as changing and other sessions' leases are
  recalled; whether the change can go on at once.\<close>

definition begin_mark :: "nat \<Rightarrow> lease_key list \<Rightarrow> string option \<Rightarrow> cache_state \<Rightarrow> bool \<times> cache_state" where
  "begin_mark now ks session s =
     (let s = s\<lparr>cs_changing := fold (\<lambda>k m. bput k ((case bget m k of Some n \<Rightarrow> n | None \<Rightarrow> 0) + 1) m) ks (cs_changing s)\<rparr>;
          held = foreign now ks session s
      in if held = [] then (True, s)
         else (False, s\<lparr>cs_recalls := fold (\<lambda>(h, k) m. bput h (finsert k (case bget m h of Some r \<Rightarrow> r | None \<Rightarrow> {||})) m)
                 held (cs_recalls s)\<rparr>))"

text \<open>The test of the loop that waits for the leases.\<close>

definition begin_waits :: "nat \<Rightarrow> lease_key list \<Rightarrow> string option \<Rightarrow> cache_state \<Rightarrow> bool" where
  "begin_waits now ks session s =
     list_ex (\<lambda>k. list_ex (\<lambda>(h, til). Some h \<noteq> session \<and> til > now) (bitems (holders s k))) ks"

definition unmark :: "lease_key \<Rightarrow> cache_state \<Rightarrow> cache_state" where
  "unmark k s = (case bget (cs_changing s) k of
       None \<Rightarrow> s
     | Some n \<Rightarrow> s\<lparr>cs_changing := (if n - 1 = 0 then bdel k (cs_changing s) else bput k (n - 1) (cs_changing s))\<rparr>)"

definition change_drop :: "lease_key list \<Rightarrow> cache_state \<Rightarrow> cache_state" where
  "change_drop ks s = fold unmark ks s"

definition cl_recalls :: "string \<Rightarrow> string \<Rightarrow> cache_state \<Rightarrow> nat list" where
  "cl_recalls fs session s =
     map snd (filter (\<lambda>(f, _). f = fs) (sorted_list_of_fset (case bget (cs_recalls s) session of Some r \<Rightarrow> r | None \<Rightarrow> {||})))"

definition give_back_one :: "string \<Rightarrow> lease_key \<Rightarrow> cache_state \<Rightarrow> cache_state" where
  "give_back_one session k s =
     (let s = (case bget (cs_leases s) k of
           None \<Rightarrow> s
         | Some h \<Rightarrow>
             let h = bdel session h
             in s\<lparr>cs_leases := (if bsize h = 0 then bdel k (cs_leases s) else bput k h (cs_leases s))\<rparr>)
      in case bget (cs_recalls s) session of
           None \<Rightarrow> s
         | Some r \<Rightarrow>
             let r = r |-| {|k|}
             in s\<lparr>cs_recalls := (if r = {||} then bdel session (cs_recalls s) else bput session r (cs_recalls s))\<rparr>)"

definition cl_give_back :: "string \<Rightarrow> string \<Rightarrow> nat list \<Rightarrow> cache_state \<Rightarrow> cache_state" where
  "cl_give_back fs session inos s = fold (give_back_one session) (lease_keys fs inos) s"

definition forget_session :: "string \<Rightarrow> cache_state \<Rightarrow> cache_state" where
  "forget_session session s =
     s\<lparr>cs_recalls := bdel session (cs_recalls s),
       cs_leases := bretain (\<lambda>_ h. bsize h \<noteq> 0) (bmap (\<lambda>_ h. bdel session h) (cs_leases s))\<rparr>"

definition leases_held :: "nat \<Rightarrow> cache_state \<Rightarrow> nat" where
  "leases_held now s = sum_list (map (\<lambda>h. length (filter (\<lambda>til. til > now) (bvals h))) (bvals (cs_leases s)))"

section \<open>Requests in flight\<close>

text \<open>A change is marked when it enters the list and ready once \<open>begin\<close> has returned.\<close>

record change_req =
  cr_keys :: "lease_key list"
  cr_session :: "string option"
  cr_marked :: nat
  cr_ready :: bool

record lease_sys =
  ls_state :: cache_state
  ls_now :: nat
  ls_changes :: "change_req list"

text \<open>The terms that a run may see are given by \<open>P\<close>. A request reads its term before it takes the
  lock, and a change that waits out the grace period does not read it again.\<close>

inductive lease_step :: "(nat \<Rightarrow> bool) \<Rightarrow> lease_sys \<Rightarrow> lease_sys \<Rightarrow> bool" for P where
  ls_time: "ls_now s \<le> t \<Longrightarrow> lease_step P s (s\<lparr>ls_now := t\<rparr>)"
| ls_grant: "P term \<Longrightarrow> lease_step P s (s\<lparr>ls_state := snd (cl_grant (ls_now s) term fs inos session (ls_state s))\<rparr>)"
| ls_begin: "P term \<Longrightarrow> lease_step P s (s\<lparr>ls_state := snd (begin_sync (ls_now s) term grace (ls_state s))\<rparr>)"
| ls_mark: "cs_since (ls_state s) \<noteq> None \<Longrightarrow> begin_mark (ls_now s) (lease_keys fs inos) session (ls_state s) = (r, c)
    \<Longrightarrow> lease_step P s (s\<lparr>ls_state := c,
          ls_changes := ls_changes s @ [\<lparr>cr_keys = lease_keys fs inos, cr_session = session, cr_marked = ls_now s, cr_ready = r\<rparr>]\<rparr>)"
| ls_ready: "i < length (ls_changes s) \<Longrightarrow> c = ls_changes s ! i \<Longrightarrow> \<not> begin_waits (ls_now s) (cr_keys c) (cr_session c) (ls_state s)
    \<Longrightarrow> lease_step P s (s\<lparr>ls_changes := (ls_changes s)[i := c\<lparr>cr_ready := True\<rparr>]\<rparr>)"
| ls_drop: "i < length (ls_changes s)
    \<Longrightarrow> lease_step P s (s\<lparr>ls_state := change_drop (cr_keys (ls_changes s ! i)) (ls_state s),
          ls_changes := take i (ls_changes s) @ drop (Suc i) (ls_changes s)\<rparr>)"
| ls_back: "lease_step P s (s\<lparr>ls_state := cl_give_back fs session inos (ls_state s)\<rparr>)"
| ls_forget: "lease_step P s (s\<lparr>ls_state := forget_session session (ls_state s)\<rparr>)"

inductive lease_reach :: "(nat \<Rightarrow> bool) \<Rightarrow> lease_sys \<Rightarrow> bool" for P where
  ls_init: "lease_reach P \<lparr>ls_state = no_cache_state, ls_now = t, ls_changes = []\<rparr>"
| ls_more: "lease_reach P s \<Longrightarrow> lease_step P s s' \<Longrightarrow> lease_reach P s'"

section \<open>Leases and marks\<close>

definition lease_at :: "cache_state \<Rightarrow> lease_key \<Rightarrow> string \<Rightarrow> nat option" where
  "lease_at s k h = bget (holders s k) h"

definition mark_at :: "cache_state \<Rightarrow> lease_key \<Rightarrow> nat" where
  "mark_at s k = (case bget (cs_changing s) k of Some n \<Rightarrow> n | None \<Rightarrow> 0)"

lemma distinct_lease_keys: "distinct (lease_keys fs inos)"
  by (simp add: lease_keys_def distinct_map inj_on_def)

lemma lease_at_put: "lease_at (put_lease ses til k s) k' h = (if k' = k \<and> h = ses then Some til else lease_at s k' h)"
  by (simp add: lease_at_def put_lease_def holders_def)

lemma put_lease_frame [simp]: "cs_changing (put_lease ses til k s) = cs_changing s" "cs_since (put_lease ses til k s) = cs_since s"
  "cs_term (put_lease ses til k s) = cs_term s"
  by (simp_all add: put_lease_def)

lemma lease_at_puts: "lease_at (fold (put_lease ses til) ks s) k' h = (if k' \<in> set ks \<and> h = ses then Some til else lease_at s k' h)"
  by (induction ks arbitrary: s) (auto simp: lease_at_put)

lemma puts_frame: "cs_changing (fold (put_lease ses til) ks s) = cs_changing s \<and> cs_since (fold (put_lease ses til) ks s) = cs_since s
  \<and> cs_term (fold (put_lease ses til) ks s) = cs_term s"
  by (induction ks arbitrary: s) simp_all

text \<open>Operations that only take leases away.\<close>

definition fewer :: "cache_state \<Rightarrow> cache_state \<Rightarrow> bool" where
  "fewer s s' \<longleftrightarrow> (\<forall>k h til. lease_at s' k h = Some til \<longrightarrow> lease_at s k h = Some til)
     \<and> cs_changing s' = cs_changing s \<and> cs_since s' = cs_since s \<and> cs_term s' = cs_term s"

lemma fewer_refl [simp]: "fewer s s"
  by (simp add: fewer_def)

lemma fewer_trans: "fewer a b \<Longrightarrow> fewer b c \<Longrightarrow> fewer a c"
  by (simp add: fewer_def)

lemma sweep_fewer: "fewer s (cs_sweep now s)"
  by (auto simp: fewer_def cs_sweep_def lease_at_def holders_def bget_bretain split: option.splits if_splits)

lemma forget_fewer: "fewer s (forget_session ses s)"
  by (auto simp: fewer_def forget_session_def lease_at_def holders_def bget_bretain split: option.splits if_splits)

lemma give_back_one_fewer: "fewer s (give_back_one ses k s)"
  by (auto simp: fewer_def give_back_one_def lease_at_def holders_def Let_def split: option.splits if_splits)

lemma give_back_fewer: "fewer s (cl_give_back fs ses inos s)"
proof -
  have "fewer s (fold (give_back_one ses) ks s)" for ks
    by (induction ks arbitrary: s) (auto intro: fewer_trans [OF give_back_one_fewer])
  then show ?thesis by (simp add: cl_give_back_def)
qed

lemma unmark_at: "mark_at (unmark k s) k' = (if k' = k then mark_at s k - 1 else mark_at s k')"
  by (auto simp: mark_at_def unmark_def split: option.split)

lemma unmark_frame [simp]: "cs_leases (unmark k s) = cs_leases s" "cs_since (unmark k s) = cs_since s" "cs_term (unmark k s) = cs_term s"
  by (simp_all add: unmark_def split: option.split)

lemma change_drop_at:
  "distinct ks \<Longrightarrow> mark_at (change_drop ks s) k = (if k \<in> set ks then mark_at s k - 1 else mark_at s k)"
  by (induction ks arbitrary: s) (auto simp: change_drop_def unmark_at)

lemma change_drop_frame: "cs_leases (change_drop ks s) = cs_leases s \<and> cs_since (change_drop ks s) = cs_since s \<and> cs_term (change_drop ks s) = cs_term s"
  by (induction ks arbitrary: s) (simp_all add: change_drop_def)

lemma marks_at:
  "distinct ks \<Longrightarrow> (case bget (fold (\<lambda>k m. bput k ((case bget m k of Some n \<Rightarrow> n | None \<Rightarrow> 0) + 1) m) ks m) k of Some n \<Rightarrow> n | None \<Rightarrow> 0)
     = (case bget m k of Some n \<Rightarrow> n | None \<Rightarrow> 0) + (if k \<in> set ks then 1 else 0 :: nat)"
  by (induction ks arbitrary: m) auto

lemma begin_mark_at:
  assumes "begin_mark now ks ses s = (r, c)" and "distinct ks"
  shows "mark_at c k = mark_at s k + (if k \<in> set ks then 1 else 0)" "cs_leases c = cs_leases s" "cs_since c = cs_since s" "cs_term c = cs_term s"
    "r \<longleftrightarrow> \<not> begin_waits now ks ses s"
  using assms marks_at [OF assms(2), of "cs_changing s" k]
  by (auto simp: begin_mark_def mark_at_def Let_def foreign_def begin_waits_def holders_def list_ex_iff filter_empty_conv split: if_splits)

lemma waits_iff: "begin_waits now ks ses s \<longleftrightarrow> (\<exists>k \<in> set ks. \<exists>h til. lease_at s k h = Some til \<and> Some h \<noteq> ses \<and> now < til)"
  by (auto simp: begin_waits_def list_ex_iff lease_at_def bget_Some_iff)

text \<open>A key is free for grants exactly when its mark is zero, provided no count is kept at zero.\<close>

definition marks_positive :: "cache_state \<Rightarrow> bool" where
  "marks_positive s \<longleftrightarrow> (\<forall>k n. bget (cs_changing s) k = Some n \<longrightarrow> 0 < n)"

declare split_paired_All [simp del]

lemma marked_iff: "marks_positive s \<Longrightarrow> bget (cs_changing s) k \<noteq> None \<longleftrightarrow> 0 < mark_at s k"
  by (cases "bget (cs_changing s) k") (auto simp: marks_positive_def mark_at_def)

lemma begin_marks_positive:
  assumes "marks_positive s" and "begin_mark now ks ses s = (r, c)"
  shows "marks_positive c"
proof -
  let ?f = "\<lambda>k m. bput k ((case bget m k of Some n \<Rightarrow> n | None \<Rightarrow> 0) + 1) m"
  have "\<forall>k n. bget (fold ?f ks m) k = Some n \<longrightarrow> 0 < n" if "\<forall>k n. bget m k = Some n \<longrightarrow> 0 < (n::nat)" for m
    using that
  proof (induction ks arbitrary: m)
    case (Cons k ks)
    have "\<forall>k' n. bget (?f k m) k' = Some n \<longrightarrow> 0 < n" using Cons.prems by auto
    from Cons.IH [OF this] show ?case by simp
  qed simp
  then show ?thesis using assms by (auto simp: marks_positive_def begin_mark_def Let_def split: if_splits)
qed

lemma drop_marks_positive: "marks_positive s \<Longrightarrow> marks_positive (change_drop ks s)"
proof (induction ks arbitrary: s)
  case (Cons k ks)
  have "marks_positive (unmark k s)" using Cons.prems by (auto simp: marks_positive_def unmark_def split: option.split)
  then show ?case using Cons.IH by (simp add: change_drop_def)
qed (simp add: change_drop_def)

lemma grant_cases:
  assumes "cl_grant now term fs inos ses s = (r, c)"
  defines "s' \<equiv> cs_sync now term s"
  shows "cs_changing c = cs_changing s'" "cs_since c = cs_since s'" "cs_term c = cs_term s'"
    and "lease_at c k h = Some til \<Longrightarrow> lease_at s' k h = Some til
      \<or> bget (cs_changing s') k = None \<and> h = ses \<and> til = now + CACHE_LEASE"
proof -
  let ?ks = "lease_keys fs inos"
  define m where "m = (let s = s'\<lparr>cs_grants := cs_grants s' + 1\<rparr> in if cs_grants s mod 1024 = 0 then cs_sweep now s else s)"
  have "fewer (s'\<lparr>cs_grants := cs_grants s' + 1\<rparr>) m"
    using sweep_fewer [of "s'\<lparr>cs_grants := cs_grants s' + 1\<rparr>" now] by (simp add: m_def Let_def)
  then have f: "fewer s' m" by (simp add: fewer_def lease_at_def holders_def)
  have c: "c = s' \<or> (\<forall>k \<in> set ?ks. bget (cs_changing s') k = None) \<and> c = fold (put_lease ses (now + CACHE_LEASE)) ?ks m"
    using assms(1) by (auto simp: cl_grant_def Let_def s'_def m_def list_ex_iff split: if_splits)
  show "cs_changing c = cs_changing s'" "cs_since c = cs_since s'" "cs_term c = cs_term s'"
    using c f puts_frame [of ses "now + CACHE_LEASE" ?ks m] by (auto simp: fewer_def)
  show "lease_at s' k h = Some til \<or> bget (cs_changing s') k = None \<and> h = ses \<and> til = now + CACHE_LEASE"
    if "lease_at c k h = Some til"
    using c f that by (auto simp: lease_at_puts fewer_def split: if_splits)
qed

section \<open>The invariant of one term\<close>

definition lease_inv :: "nat \<Rightarrow> lease_sys \<Rightarrow> bool" where
  "lease_inv T s \<longleftrightarrow>
     (case cs_since (ls_state s) of
        None \<Rightarrow> ls_changes s = [] \<and> ls_state s = no_cache_state
      | Some _ \<Rightarrow> cs_term (ls_state s) = T)
   \<and> marks_positive (ls_state s)
   \<and> (\<forall>k. mark_at (ls_state s) k = length (filter (\<lambda>c. k \<in> set (cr_keys c)) (ls_changes s)))
   \<and> (\<forall>k h til. lease_at (ls_state s) k h = Some til \<longrightarrow> til \<le> ls_now s + CACHE_LEASE)
   \<and> (\<forall>c \<in> set (ls_changes s). distinct (cr_keys c) \<and> cr_marked c \<le> ls_now s
        \<and> (\<forall>k \<in> set (cr_keys c). \<forall>h til. lease_at (ls_state s) k h = Some til \<longrightarrow>
             til \<le> cr_marked c + CACHE_LEASE \<and> (cr_ready c \<longrightarrow> Some h \<noteq> cr_session c \<longrightarrow> til \<le> ls_now s)))"

lemma lease_inv_fewer:
  assumes "lease_inv T s" and "fewer (ls_state s) c" and "cs_since (ls_state s) = None \<longrightarrow> c = no_cache_state"
  shows "lease_inv T (s\<lparr>ls_state := c\<rparr>)"
proof -
  have f: "cs_changing c = cs_changing (ls_state s)" "cs_since c = cs_since (ls_state s)" "cs_term c = cs_term (ls_state s)"
    "\<forall>k h til. lease_at c k h = Some til \<longrightarrow> lease_at (ls_state s) k h = Some til"
    using assms(2) by (auto simp: fewer_def)
  have "mark_at c k = mark_at (ls_state s) k" for k by (simp add: mark_at_def f)
  moreover have "marks_positive c = marks_positive (ls_state s)" by (simp add: marks_positive_def f)
  ultimately show ?thesis using assms(1,3) f unfolding lease_inv_def by (auto split: option.splits) blast+
qed

lemma empty_ops: "forget_session ses no_cache_state = no_cache_state" "cl_give_back fs ses inos no_cache_state = no_cache_state"
proof -
  have e: "bretain P (bmap f (bempty :: ('k::linorder, 'v) btree)) = bempty" "bdel k (bempty :: ('k, 'w) btree) = bempty" for P f k
    by (rule btree_eqI; simp add: bget_bretain)+
  show "forget_session ses no_cache_state = no_cache_state" by (simp add: forget_session_def no_cache_state_def e)
  have "give_back_one ses k no_cache_state = no_cache_state" for k by (simp add: give_back_one_def no_cache_state_def)
  then show "cl_give_back fs ses inos no_cache_state = no_cache_state"
    unfolding cl_give_back_def by (intro fold_invariant [where Q = top and P = "\<lambda>c. c = no_cache_state"]) simp_all
qed

lemma sync_inv:
  assumes "lease_inv T s"
  shows "lease_inv T (s\<lparr>ls_state := cs_sync (ls_now s) T (ls_state s)\<rparr>)" "cs_since (cs_sync (ls_now s) T (ls_state s)) \<noteq> None"
proof -
  have "cs_sync (ls_now s) T (ls_state s) = ls_state s \<or>
    ls_changes s = [] \<and> cs_sync (ls_now s) T (ls_state s) = no_cache_state\<lparr>cs_term := T, cs_since := Some (ls_now s)\<rparr>"
    using assms by (auto simp: lease_inv_def cs_sync_def split: option.splits)
  then show "lease_inv T (s\<lparr>ls_state := cs_sync (ls_now s) T (ls_state s)\<rparr>)"
    using assms by (elim disjE) (simp, auto simp: lease_inv_def marks_positive_def mark_at_def lease_at_def holders_def no_cache_state_def)
  show "cs_since (cs_sync (ls_now s) T (ls_state s)) \<noteq> None" by (simp add: cs_sync_def)
qed

lemma grant_inv:
  assumes "lease_inv T s"
  shows "lease_inv T (s\<lparr>ls_state := snd (cl_grant (ls_now s) T fs inos ses (ls_state s))\<rparr>)"
proof -
  obtain r c where g: "cl_grant (ls_now s) T fs inos ses (ls_state s) = (r, c)" by force
  define m where "m = cs_sync (ls_now s) T (ls_state s)"
  have i: "lease_inv T (s\<lparr>ls_state := m\<rparr>)" "cs_since m \<noteq> None" using sync_inv [OF assms] by (simp_all add: m_def)
  note c = grant_cases [OF g, folded m_def]
  have l: "lease_at m k h = Some til \<or> mark_at m k = 0 \<and> til = ls_now s + CACHE_LEASE" if "lease_at c k h = Some til" for k h til
    using c(4) [OF that] by (auto simp: mark_at_def)
  have mk: "mark_at c k = mark_at m k" for k by (simp add: mark_at_def c(1))
  have mp: "marks_positive c = marks_positive m" by (simp add: marks_positive_def c(1))
  have nz: "mark_at m k \<noteq> 0" if "ch \<in> set (ls_changes s)" "k \<in> set (cr_keys ch)" for ch k
    using i(1) that by (auto simp: lease_inv_def filter_empty_conv)
  have "lease_inv T (s\<lparr>ls_state := c\<rparr>)"
    using i c(2,3) l nz unfolding lease_inv_def by (auto simp: mk mp split: option.splits) blast+
  then show ?thesis by (simp add: g)
qed

lemma mark_inv:
  assumes "lease_inv T s" "cs_since (ls_state s) \<noteq> None"
    and "begin_mark (ls_now s) (lease_keys fs inos) ses (ls_state s) = (r, c)"
  shows "lease_inv T (s\<lparr>ls_state := c,
    ls_changes := ls_changes s @ [\<lparr>cr_keys = lease_keys fs inos, cr_session = ses, cr_marked = ls_now s, cr_ready = r\<rparr>]\<rparr>)"
proof -
  note b = begin_mark_at [OF assms(3) distinct_lease_keys]
  have l: "lease_at c k h = lease_at (ls_state s) k h" for k h by (simp add: lease_at_def holders_def b(2))
  have "marks_positive c" using assms(1) begin_marks_positive [OF _ assms(3)] by (simp add: lease_inv_def)
  moreover have "til \<le> ls_now s" if "r" "k \<in> set (lease_keys fs inos)" "lease_at (ls_state s) k h = Some til" "Some h \<noteq> ses" for k h til
    using that b(5) by (auto simp: waits_iff not_less)
  ultimately show ?thesis using assms(1,2) distinct_lease_keys unfolding lease_inv_def by (auto simp: b(1,3,4) l split: option.splits)
qed

lemma ready_inv:
  assumes "lease_inv T s" "i < length (ls_changes s)" "c = ls_changes s ! i"
    and w: "\<not> begin_waits (ls_now s) (cr_keys c) (cr_session c) (ls_state s)"
  shows "lease_inv T (s\<lparr>ls_changes := (ls_changes s)[i := c\<lparr>cr_ready := True\<rparr>]\<rparr>)"
proof -
  have c: "c \<in> set (ls_changes s)" using assms(2,3) by simp
  have f: "length (filter (\<lambda>c. k \<in> set (cr_keys c)) ((ls_changes s)[i := c\<lparr>cr_ready := True\<rparr>]))
      = length (filter (\<lambda>c. k \<in> set (cr_keys c)) (ls_changes s))" for k
    unfolding upd_conv_take_nth_drop [OF assms(2)] by (subst (3) id_take_nth_drop [OF assms(2)]) (simp add: assms(3))
  have m: "set ((ls_changes s)[i := c\<lparr>cr_ready := True\<rparr>]) \<subseteq> insert (c\<lparr>cr_ready := True\<rparr>) (set (ls_changes s))"
    by (rule set_update_subset_insert)
  have n: "\<forall>k \<in> set (cr_keys c). \<forall>h til. lease_at (ls_state s) k h = Some til \<longrightarrow> Some h \<noteq> cr_session c \<longrightarrow> til \<le> ls_now s"
    using w by (auto simp: waits_iff not_less)
  show ?thesis using assms(1) c n unfolding lease_inv_def by (auto simp: f dest!: subsetD [OF m] split: option.splits)
qed

lemma drop_inv:
  assumes "lease_inv T s" and i: "i < length (ls_changes s)"
  shows "lease_inv T (s\<lparr>ls_state := change_drop (cr_keys (ls_changes s ! i)) (ls_state s),
    ls_changes := take i (ls_changes s) @ drop (Suc i) (ls_changes s)\<rparr>)"
proof -
  let ?c = "ls_changes s ! i"
  let ?cs = "take i (ls_changes s) @ drop (Suc i) (ls_changes s)"
  have f: "length (filter P (ls_changes s)) = length (filter P ?cs) + (if P ?c then 1 else 0)" for P
    by (subst id_take_nth_drop [OF i]) simp
  have c: "?c \<in> set (ls_changes s)" using i by simp
  have d: "distinct (cr_keys ?c)" using assms(1) c by (simp add: lease_inv_def)
  have m: "mark_at (change_drop (cr_keys ?c) (ls_state s)) k = length (filter (\<lambda>c. k \<in> set (cr_keys c)) ?cs)" for k
    using assms(1) f [of "\<lambda>c. k \<in> set (cr_keys c)"] by (simp add: change_drop_at [OF d] lease_inv_def)
  have sub: "set ?cs \<subseteq> set (ls_changes s)" by (auto dest: in_set_takeD in_set_dropD)
  have l: "lease_at (change_drop ks (ls_state s)) k h = lease_at (ls_state s) k h" for ks k h
    by (simp add: lease_at_def holders_def change_drop_frame)
  show ?thesis using assms(1) c sub drop_marks_positive m unfolding lease_inv_def
    by (auto simp: l change_drop_frame split: option.splits)
qed

lemma lease_step_inv:
  assumes "lease_step (\<lambda>t. t = T) s s'" and "lease_inv T s"
  shows "lease_inv T s'"
  using assms(1)
proof cases
  case (ls_time t)
  then show ?thesis using assms(2) unfolding lease_inv_def by (auto split: option.splits) (meson le_trans add_le_mono1)+
next
  case (ls_grant trm fs inos session)
  then show ?thesis using grant_inv [OF assms(2)] by simp
next
  case (ls_begin trm grace)
  then show ?thesis using sync_inv(1) [OF assms(2)] by (simp add: begin_sync_def Let_def)
next
  case (ls_back fs session inos)
  have "cs_since (ls_state s) = None \<longrightarrow> ls_state s = no_cache_state" using assms(2) by (auto simp: lease_inv_def)
  then show ?thesis unfolding ls_back using lease_inv_fewer [OF assms(2) give_back_fewer] empty_ops by metis
next
  case (ls_forget session)
  have "cs_since (ls_state s) = None \<longrightarrow> ls_state s = no_cache_state" using assms(2) by (auto simp: lease_inv_def)
  then show ?thesis unfolding ls_forget using lease_inv_fewer [OF assms(2) forget_fewer] empty_ops by metis
qed (auto intro: mark_inv ready_inv drop_inv assms(2))

lemma lease_reach_inv: "lease_reach (\<lambda>t. t = T) s \<Longrightarrow> lease_inv T s"
proof (induction rule: lease_reach.induct)
  case (ls_init t)
  then show ?case by (simp add: lease_inv_def no_cache_state_def marks_positive_def mark_at_def lease_at_def holders_def)
qed (rule lease_step_inv)

section \<open>Properties\<close>

text \<open>(C18) Within one leader term, from the moment \<open>begin\<close> has returned until the change is dropped, no
  session other than the changing one holds an unexpired lease on an inode of the change, and no
  session is granted one.\<close>

theorem change_excludes_caches:
  assumes "lease_reach (\<lambda>t. t = T) s" and "c \<in> set (ls_changes s)" and "cr_ready c" and "k \<in> set (cr_keys c)"
  shows "(Some h \<noteq> cr_session c \<longrightarrow> lease_at (ls_state s) k h = Some til \<longrightarrow> til \<le> ls_now s)
    \<and> (k \<in> set (lease_keys fs inos) \<longrightarrow> fst (cl_grant (ls_now s) T fs inos h (ls_state s)) = None)"
proof -
  have i: "lease_inv T s" using assms(1) by (rule lease_reach_inv)
  have "cs_since (ls_state s) \<noteq> None \<and> cs_term (ls_state s) = T"
    using i assms(2) by (auto simp: lease_inv_def split: option.splits)
  then have sy: "cs_sync (ls_now s) T (ls_state s) = ls_state s" by (auto simp: cs_sync_def)
  have "mark_at (ls_state s) k \<noteq> 0" using i assms(2,4) by (auto simp: lease_inv_def filter_empty_conv)
  moreover have "marks_positive (ls_state s)" using i by (simp add: lease_inv_def)
  ultimately have "bget (cs_changing (ls_state s)) k \<noteq> None" using marked_iff by blast
  then have "k \<in> set (lease_keys fs inos) \<longrightarrow> fst (cl_grant (ls_now s) T fs inos h (ls_state s)) = None"
    by (auto simp: cl_grant_def sy list_ex_iff Let_def)
  then show ?thesis using i assms(2-4) by (auto simp: lease_inv_def)
qed

text \<open>A run: session \<open>b\<close> takes a lease on inode 7, and session \<open>a\<close> changes it once the lease is gone.\<close>

definition run_grant :: cache_state where
  "run_grant = snd (cl_grant 0 1 ''fs'' [7] ''b'' no_cache_state)"

definition run_mark :: cache_state where
  "run_mark = snd (begin_mark 10 (lease_keys ''fs'' [7]) (Some ''a'') run_grant)"

abbreviation run_change :: "bool \<Rightarrow> change_req" where
  "run_change r \<equiv> \<lparr>cr_keys = [(''fs'', 7)], cr_session = Some ''a'', cr_marked = 10, cr_ready = r\<rparr>"

lemma run_keys: "lease_keys fs [i] = [(fs, i)]"
  by (simp add: lease_keys_def)

lemma run_evals: "cs_since run_grant = Some 0"
  "lease_at run_grant k h = (if k = (''fs'', 7) \<and> h = ''b'' then Some 5000 else None)"
  by (simp_all add: run_grant_def cl_grant_def run_keys cs_sync_def no_cache_state_def Let_def CACHE_LEASE_def put_lease_def
      lease_at_def holders_def)

lemma run_marks: "lease_at run_mark k h = lease_at run_grant k h"
  "begin_mark 10 (lease_keys ''fs'' [7]) (Some ''a'') run_grant = (False, run_mark)"
  "\<not> begin_waits 5010 [(''fs'', 7)] (Some ''a'') run_mark"
proof -
  obtain r where r: "begin_mark 10 (lease_keys ''fs'' [7]) (Some ''a'') run_grant = (r, run_mark)"
    unfolding run_mark_def by (metis prod.collapse)
  note b = begin_mark_at [OF r distinct_lease_keys]
  show l: "lease_at run_mark k h = lease_at run_grant k h" for k h by (simp add: lease_at_def holders_def b(2))
  show "begin_mark 10 (lease_keys ''fs'' [7]) (Some ''a'') run_grant = (False, run_mark)"
    using r b(5) by (simp add: waits_iff run_keys run_evals)
  show "\<not> begin_waits 5010 [(''fs'', 7)] (Some ''a'') run_mark" by (simp add: waits_iff l run_evals)
qed

lemma run_reach:
  "lease_reach (\<lambda>t. t = 1) \<lparr>ls_state = run_mark, ls_now = 5010, ls_changes = [run_change False]\<rparr>"
  "lease_reach (\<lambda>t. t = 1) \<lparr>ls_state = run_mark, ls_now = 5010, ls_changes = [run_change True]\<rparr>"
proof -
  have "lease_reach (\<lambda>t. t = 1) \<lparr>ls_state = run_grant, ls_now = 0, ls_changes = []\<rparr>"
    using ls_more [OF ls_init [of "\<lambda>t. t = 1" 0] ls_grant [of _ 1 _ "''fs''" "[7]" "''b''"]] by (simp add: run_grant_def)
  from ls_more [OF this ls_time [of _ 10]]
  have "lease_reach (\<lambda>t. t = 1) \<lparr>ls_state = run_grant, ls_now = 10, ls_changes = []\<rparr>" by simp
  from ls_more [OF this ls_mark [of _ "''fs''" "[7]" "Some ''a''" False run_mark]]
  have "lease_reach (\<lambda>t. t = 1) \<lparr>ls_state = run_mark, ls_now = 10, ls_changes = [run_change False]\<rparr>"
    using run_evals(1) run_marks(2) by (simp add: run_keys)
  from ls_more [OF this ls_time [of _ 5010]]
  show w: "lease_reach (\<lambda>t. t = 1) \<lparr>ls_state = run_mark, ls_now = 5010, ls_changes = [run_change False]\<rparr>" by simp
  from ls_more [OF w ls_ready [of 0 _ "run_change False"]]
  show "lease_reach (\<lambda>t. t = 1) \<lparr>ls_state = run_mark, ls_now = 5010, ls_changes = [run_change True]\<rparr>"
    using run_marks(3) by simp
qed

theorem change_excludes_caches_witness:
  "lease_at run_mark (''fs'', 7) ''b'' = Some 5000 \<and> fst (cl_grant 5010 1 ''fs'' [7] ''b'' run_mark) = None"
proof -
  have "lease_at run_mark (''fs'', 7) ''b'' = Some 5000" by (simp add: run_marks run_evals)
  then show ?thesis
    using change_excludes_caches [OF run_reach(2), of "run_change True" "(''fs'', 7)" "''b''" 5000 "''fs''" "[7]"] by (simp add: run_keys)
qed



text \<open>A run across two terms: a change of term 1 is still in flight when the node leads again in term 2,
  and is dropped after a change of term 2 has marked the same inode. Both changes wait out their
  grace period.\<close>

definition two_first :: cache_state where
  "two_first = snd (begin_mark 5000 (lease_keys ''fs'' [7]) (Some ''a'') (snd (begin_sync 0 1 True no_cache_state)))"

definition two_second :: cache_state where
  "two_second = snd (begin_mark 10000 (lease_keys ''fs'' [7]) (Some ''a'') (snd (begin_sync 5000 2 True two_first)))"

definition two_end :: cache_state where
  "two_end = snd (cl_grant 10000 2 ''fs'' [7] ''b'' (change_drop [(''fs'', 7)] two_second))"

abbreviation two_change :: "nat \<Rightarrow> change_req" where
  "two_change t \<equiv> \<lparr>cr_keys = [(''fs'', 7)], cr_session = Some ''a'', cr_marked = t, cr_ready = True\<rparr>"

lemmas two_defs = two_first_def two_second_def two_end_def begin_sync_def cs_sync_def no_cache_state_def begin_mark_def Let_def
  run_keys foreign_def holders_def change_drop_def unmark_def

lemma two_evals: "cs_since (snd (begin_sync 0 1 True no_cache_state)) \<noteq> None" "cs_since (snd (begin_sync 5000 2 True two_first)) \<noteq> None"
  "begin_mark 5000 (lease_keys ''fs'' [7]) (Some ''a'') (snd (begin_sync 0 1 True no_cache_state)) = (True, two_first)"
  "begin_mark 10000 (lease_keys ''fs'' [7]) (Some ''a'') (snd (begin_sync 5000 2 True two_first)) = (True, two_second)"
  "lease_at two_end (''fs'', 7) ''b'' = Some 15000"
  by (simp_all add: two_defs cl_grant_def put_lease_def lease_at_def CACHE_LEASE_def)

lemma two_reach:
  "lease_reach (\<lambda>_. True) \<lparr>ls_state = two_end, ls_now = 10000, ls_changes = [two_change 10000]\<rparr>"
proof -
  let ?R = "lease_reach (\<lambda>_. True)"
  have "?R \<lparr>ls_state = snd (begin_sync 0 1 True no_cache_state), ls_now = 0, ls_changes = []\<rparr>"
    using ls_more [OF ls_init [of "\<lambda>_. True" 0] ls_begin [of _ 1 _ True]] by simp
  from ls_more [OF this ls_time [of _ 5000]]
  have "?R \<lparr>ls_state = snd (begin_sync 0 1 True no_cache_state), ls_now = 5000, ls_changes = []\<rparr>" by simp
  from ls_more [OF this ls_mark [of _ "''fs''" "[7]" "Some ''a''" True two_first]]
  have "?R \<lparr>ls_state = two_first, ls_now = 5000, ls_changes = [two_change 5000]\<rparr>"
    using two_evals(1,3) by (simp add: run_keys)
  from ls_more [OF this ls_begin [of _ 2 _ True]]
  have "?R \<lparr>ls_state = snd (begin_sync 5000 2 True two_first), ls_now = 5000, ls_changes = [two_change 5000]\<rparr>" by simp
  from ls_more [OF this ls_time [of _ 10000]]
  have "?R \<lparr>ls_state = snd (begin_sync 5000 2 True two_first), ls_now = 10000, ls_changes = [two_change 5000]\<rparr>" by simp
  from ls_more [OF this ls_mark [of _ "''fs''" "[7]" "Some ''a''" True two_second]]
  have "?R \<lparr>ls_state = two_second, ls_now = 10000, ls_changes = [two_change 5000, two_change 10000]\<rparr>"
    using two_evals(2,4) by (simp add: run_keys)
  from ls_more [OF this ls_drop [of 0]]
  have "?R \<lparr>ls_state = change_drop [(''fs'', 7)] two_second, ls_now = 10000, ls_changes = [two_change 10000]\<rparr>" by simp
  from ls_more [OF this ls_grant [of _ 2 _ "''fs''" "[7]" "''b''"]]
  show ?thesis by (simp add: two_end_def)
qed


end
