(* ===== verification/Tracked.thy ===== *)
theory Tracked
  imports Prelude "HOL-Library.FSet"
begin

text \<open>
  Maps that record which keys changed since the last checkpoint
  (\<open>crates/atlas-native/src/tracked.rs\<close>), and the promise the catalog store relies on: a key outside
  the record has the value it had at the checkpoint, and a key that was only touched has been
  edited in place.
\<close>

section \<open>The map and its operations\<close>

record (overloaded) ('k::linorder, 'v) tracked =
  tr_map :: "('k, 'v) btree"
  tr_touched :: "'k fset"
  tr_replaced :: "'k fset"

definition tr_empty :: "('k::linorder, 'v) tracked" where
  "tr_empty = \<lparr>tr_map = bempty, tr_touched = {||}, tr_replaced = {||}\<rparr>"

text \<open>\<open>From<BTreeMap>\<close>: nothing counts as changed.\<close>

definition tr_of :: "('k::linorder, 'v) btree \<Rightarrow> ('k, 'v) tracked" where
  "tr_of m = \<lparr>tr_map = m, tr_touched = {||}, tr_replaced = {||}\<rparr>"

text \<open>\<open>get_mut\<close>, together with the edit \<open>g\<close> that the caller makes through the reference.\<close>

definition tr_edit :: "'k::linorder \<Rightarrow> ('v \<Rightarrow> 'v) \<Rightarrow> ('k, 'v) tracked \<Rightarrow> ('k, 'v) tracked" where
  "tr_edit k g t = (case bget (tr_map t) k of
       None \<Rightarrow> t
     | Some v \<Rightarrow> t\<lparr>tr_touched := finsert k (tr_touched t), tr_map := bput k (g v) (tr_map t)\<rparr>)"

definition tr_insert :: "'k::linorder \<Rightarrow> 'v \<Rightarrow> ('k, 'v) tracked \<Rightarrow> 'v option \<times> ('k, 'v) tracked" where
  "tr_insert k v t = (bget (tr_map t) k,
     t\<lparr>tr_touched := finsert k (tr_touched t), tr_replaced := finsert k (tr_replaced t), tr_map := bput k v (tr_map t)\<rparr>)"

definition tr_remove :: "'k::linorder \<Rightarrow> ('k, 'v) tracked \<Rightarrow> 'v option \<times> ('k, 'v) tracked" where
  "tr_remove k t = (case bget (tr_map t) k of
       None \<Rightarrow> (None, t)
     | Some v \<Rightarrow> (Some v,
         t\<lparr>tr_map := bdel k (tr_map t), tr_touched := finsert k (tr_touched t), tr_replaced := finsert k (tr_replaced t)\<rparr>))"

definition tr_values_mut :: "('k::linorder \<Rightarrow> 'v \<Rightarrow> 'v) \<Rightarrow> ('k, 'v) tracked \<Rightarrow> ('k, 'v) tracked" where
  "tr_values_mut g t = t\<lparr>tr_touched := tr_touched t |\<union>| fset_of_list (bkeys (tr_map t)), tr_map := bmap g (tr_map t)\<rparr>"

definition tr_insert_quietly :: "'k::linorder \<Rightarrow> 'v \<Rightarrow> ('k, 'v) tracked \<Rightarrow> ('k, 'v) tracked" where
  "tr_insert_quietly k v t = t\<lparr>tr_map := bput k v (tr_map t)\<rparr>"

definition tr_values_mut_quietly :: "('k::linorder \<Rightarrow> 'v \<Rightarrow> 'v) \<Rightarrow> ('k, 'v) tracked \<Rightarrow> ('k, 'v) tracked" where
  "tr_values_mut_quietly g t = t\<lparr>tr_map := bmap g (tr_map t)\<rparr>"

definition tr_clear :: "('k::linorder, 'v) tracked \<Rightarrow> ('k, 'v) tracked" where
  "tr_clear t = t\<lparr>tr_touched := {||}, tr_replaced := {||}\<rparr>"

definition tr_clear_with :: "('v \<Rightarrow> 'v) \<Rightarrow> ('k::linorder, 'v) tracked \<Rightarrow> ('k, 'v) tracked" where
  "tr_clear_with f t = tr_clear (t\<lparr>tr_map := bmap (\<lambda>k v. if k |\<in>| tr_touched t then f v else v) (tr_map t)\<rparr>)"

lemmas tr_defs = tr_empty_def tr_of_def tr_edit_def tr_insert_def tr_remove_def tr_values_mut_def
  tr_insert_quietly_def tr_values_mut_quietly_def tr_clear_def tr_clear_with_def

text \<open>Every way the catalog changes a map.\<close>

inductive tr_step :: "('k::linorder, 'v) tracked \<Rightarrow> ('k, 'v) tracked \<Rightarrow> bool" where
  tr_step_edit: "tr_step t (tr_edit k g t)"
| tr_step_insert: "tr_step t (snd (tr_insert k v t))"
| tr_step_remove: "tr_step t (snd (tr_remove k t))"
| tr_step_values: "tr_step t (tr_values_mut g t)"

section \<open>The record of changes\<close>

lemma tr_map_simps [simp]:
  "tr_map (tr_of m) = m" "tr_map tr_empty = bempty" "tr_map (tr_clear t) = tr_map t"
  "bget (tr_map (tr_edit k g t)) k' = (if k' = k then map_option g (bget (tr_map t) k) else bget (tr_map t) k')"
  "bget (tr_map (snd (tr_insert k v t))) k' = (if k' = k then Some v else bget (tr_map t) k')"
  "bget (tr_map (snd (tr_remove k t))) k' = (if k' = k then None else bget (tr_map t) k')"
  "fst (tr_insert k v t) = bget (tr_map t) k" "fst (tr_remove k t) = bget (tr_map t) k"
  by (auto simp: tr_defs split: option.split)

text \<open>Keys outside the record have not changed.\<close>

definition tr_kept :: "('k::linorder, 'v) btree \<Rightarrow> ('k, 'v) tracked \<Rightarrow> bool" where
  "tr_kept base t \<longleftrightarrow> (\<forall>k. k |\<notin>| tr_touched t \<longrightarrow> bget (tr_map t) k = bget base k)"

lemma tr_kept_step: "tr_step t t' \<Longrightarrow> tr_kept base t \<Longrightarrow> tr_kept base t'"
proof (induction rule: tr_step.induct)
  case (tr_step_values t g)
  have "k |\<notin>| tr_touched t \<Longrightarrow> k \<notin> set (bkeys (tr_map t)) \<Longrightarrow> bget (tr_map t) k = None" for k by (simp add: set_bkeys)
  then show ?case using tr_step_values by (auto simp: tr_kept_def tr_values_mut_def fset_of_list_elem)
qed (auto simp: tr_kept_def tr_edit_def tr_insert_def tr_remove_def split: option.splits)

lemma tr_kept_clear: "tr_kept (tr_map t) (tr_clear t)"
  by (simp add: tr_kept_def tr_clear_def)

end
