(* ===== verification/LruCache.thy ===== *)
theory LruCache
  imports Prelude
begin

text \<open>
  The least-recently-used cache of the catalog store (\<open>Lru\<close> in \<open>crates/atlas-native/src/store.rs\<close>): a
  map from keys to values and the tick of their last use, and the ticks in order. Seen from outside
  it is a map that may forget; the interface says what a client may rely on.
\<close>

section \<open>The cache\<close>

record (overloaded) ('k::linorder, 'v) lru =
  lr_cap :: nat
  lr_tick :: nat
  lr_map :: "('k, 'v \<times> nat) btree"
  lr_order :: "(nat, 'k) btree"

definition lru_new :: "nat \<Rightarrow> ('k::linorder, 'v) lru" where
  "lru_new cap = \<lparr>lr_cap = cap, lr_tick = 0, lr_map = bempty, lr_order = bempty\<rparr>"

definition lru_get :: "'k::linorder \<Rightarrow> ('k, 'v) lru \<Rightarrow> 'v option \<times> ('k, 'v) lru" where
  "lru_get k l = (case bget (lr_map l) k of
       None \<Rightarrow> (None, l)
     | Some (v, t) \<Rightarrow>
         let n = lr_tick l + 1
         in (Some v, l\<lparr>lr_tick := n, lr_map := bput k (v, n) (lr_map l), lr_order := bput n k (bdel t (lr_order l))\<rparr>))"

definition lru_take :: "'k::linorder \<Rightarrow> ('k, 'v) lru \<Rightarrow> 'v option \<times> ('k, 'v) lru" where
  "lru_take k l = (case bget (lr_map l) k of
       None \<Rightarrow> (None, l)
     | Some (v, t) \<Rightarrow> (Some v, l\<lparr>lr_map := bdel k (lr_map l), lr_order := bdel t (lr_order l)\<rparr>))"

text \<open>The loop at the end of \<open>put\<close>: forget the oldest while there are too many.\<close>

function lru_evict :: "('k::linorder, 'v) lru \<Rightarrow> ('k, 'v) lru" where
  "lru_evict l =
     (if bsize (lr_map l) \<le> lr_cap l then l
      else case bitems (lr_order l) of
          [] \<Rightarrow> l
        | (t, k) # _ \<Rightarrow> lru_evict (l\<lparr>lr_order := bdel t (lr_order l), lr_map := bdel k (lr_map l)\<rparr>))"
  by pat_completeness auto
termination
proof (relation "measure (\<lambda>l. bsize (lr_order l))")
  fix l :: "('k::linorder, 'v) lru" and p ps t k
  assume "bitems (lr_order l) = p # ps" "(t, k) = p"
  then have "bget (lr_order l) t = Some k" by (simp add: bget_Some_iff)
  then show "(l\<lparr>lr_order := bdel t (lr_order l), lr_map := bdel k (lr_map l)\<rparr>, l) \<in> measure (\<lambda>l. bsize (lr_order l))"
    using bsize_0_iff [of "lr_order l"] by (auto simp: bsize_bdel)
qed simp

declare lru_evict.simps [simp del]

definition lru_put :: "'k::linorder \<Rightarrow> 'v \<Rightarrow> ('k, 'v) lru \<Rightarrow> ('k, 'v) lru" where
  "lru_put k v l =
     (let n = lr_tick l + 1;
          order = (case bget (lr_map l) k of None \<Rightarrow> lr_order l | Some (_, t) \<Rightarrow> bdel t (lr_order l))
      in lru_evict (l\<lparr>lr_tick := n, lr_map := bput k (v, n) (lr_map l), lr_order := bput n k order\<rparr>))"

definition lru_retain :: "('k::linorder \<Rightarrow> bool) \<Rightarrow> ('k, 'v) lru \<Rightarrow> ('k, 'v) lru" where
  "lru_retain keep l = l\<lparr>lr_map := bretain (\<lambda>k _. keep k) (lr_map l), lr_order := bretain (\<lambda>_ k. keep k) (lr_order l)\<rparr>"

section \<open>Its invariant\<close>

definition lru_holds :: "('k::linorder, 'v) lru \<Rightarrow> 'k \<Rightarrow> 'v option" where
  "lru_holds l k = map_option fst (bget (lr_map l) k)"

text \<open>Map and order say the same, and ticks have been handed out.\<close>

definition lru_ok :: "('k::linorder, 'v) lru \<Rightarrow> bool" where
  "lru_ok l \<longleftrightarrow> (\<forall>k t. (\<exists>v. bget (lr_map l) k = Some (v, t)) \<longleftrightarrow> bget (lr_order l) t = Some k)
     \<and> (\<forall>k t. bget (lr_order l) t = Some k \<longrightarrow> t \<le> lr_tick l)"

lemma lru_okD: "lru_ok l \<Longrightarrow> bget (lr_map l) k = Some (v, t) \<Longrightarrow> bget (lr_order l) t = Some k \<and> t \<le> lr_tick l"
  by (auto simp: lru_ok_def)

lemma lru_ok_sizes: assumes "lru_ok l" shows "bsize (lr_order l) = bsize (lr_map l)"
proof -
  let ?t = "\<lambda>k. snd (the (bget (lr_map l) k))"
  have "bij_betw ?t {k. bget (lr_map l) k \<noteq> None} {t. bget (lr_order l) t \<noteq> None}"
    unfolding bij_betw_def
  proof
    show "inj_on ?t {k. bget (lr_map l) k \<noteq> None}"
    proof (rule inj_onI)
      fix k k' assume "k \<in> {k. bget (lr_map l) k \<noteq> None}" "k' \<in> {k. bget (lr_map l) k \<noteq> None}" "?t k = ?t k'"
      then obtain v v' t where "bget (lr_map l) k = Some (v, t)" "bget (lr_map l) k' = Some (v', t)" by auto
      then show "k = k'" using lru_okD [OF assms] by (metis option.inject)
    qed
    show "?t ` {k. bget (lr_map l) k \<noteq> None} = {t. bget (lr_order l) t \<noteq> None}"
    proof (intro equalityI subsetI)
      fix t assume "t \<in> {t. bget (lr_order l) t \<noteq> None}"
      then obtain k v where "bget (lr_map l) k = Some (v, t)" using assms unfolding lru_ok_def by blast
      then show "t \<in> ?t ` {k. bget (lr_map l) k \<noteq> None}" by (intro image_eqI [of _ _ k]) auto
    qed (use lru_okD [OF assms] in auto)
  qed
  then show ?thesis by (simp add: bsize_card bij_betw_same_card)
qed

lemma lru_ok_new: "lru_ok (lru_new cap)" "lru_holds (lru_new cap) k = None"
  by (simp_all add: lru_ok_def lru_new_def lru_holds_def)

lemma lru_take_ok:
  assumes "lru_ok l"
  shows "lru_ok (snd (lru_take k l))" "fst (lru_take k l) = lru_holds l k"
    and "lru_holds (snd (lru_take k l)) k' = (if k' = k then None else lru_holds l k')"
    and "bsize (lr_map (snd (lru_take k l))) \<le> bsize (lr_map l)" "lr_cap (snd (lru_take k l)) = lr_cap l"
proof -
  show "lru_ok (snd (lru_take k l))"
  proof (cases "bget (lr_map l) k")
    case (Some p)
    obtain v t where p: "p = (v, t)" by (cases p)
    have "bget (lr_order l) t = Some k" using lru_okD [OF assms] Some p by blast
    then have "k' = k \<longleftrightarrow> t' = t" if "bget (lr_order l) t' = Some k'" for k' t'
      using that assms Some p unfolding lru_ok_def by (metis option.inject prod.inject)
    then show ?thesis using assms Some p unfolding lru_ok_def by (auto simp: lru_take_def)
  qed (simp add: lru_take_def assms)
qed (auto simp: lru_take_def lru_holds_def bsize_bdel split: option.split)

lemma lru_use_ok:
  assumes "lru_ok l" and "bget (lr_map l) k = None"
  shows "lru_ok (l\<lparr>lr_tick := lr_tick l + 1, lr_map := bput k (v, lr_tick l + 1) (lr_map l),
    lr_order := bput (lr_tick l + 1) k (lr_order l)\<rparr>)"
proof -
  have "bget (lr_order l) (lr_tick l + 1) = None"
    using assms(1) unfolding lru_ok_def by (metis not_less_eq_eq le_refl add.commute plus_1_eq_Suc option.exhaust)
  moreover have "bget (lr_order l) t \<noteq> Some k" for t
    using assms unfolding lru_ok_def by (metis option.distinct(1))
  ultimately show ?thesis using assms unfolding lru_ok_def by (auto simp: le_Suc_eq)
qed

lemma bput_bdel: "bput k v (bdel k m) = bput k v m"
  by (rule btree_eqI) simp

lemma lru_get_ok:
  assumes "lru_ok l"
  shows "lru_ok (snd (lru_get k l))" "fst (lru_get k l) = lru_holds l k" "lru_holds (snd (lru_get k l)) k' = lru_holds l k'"
    and "bsize (lr_map (snd (lru_get k l))) = bsize (lr_map l)" "lr_cap (snd (lru_get k l)) = lr_cap l"
proof -
  show "lru_ok (snd (lru_get k l))"
  proof (cases "bget (lr_map l) k")
    case (Some p)
    obtain v t where p: "p = (v, t)" by (cases p)
    show ?thesis using lru_use_ok [OF lru_take_ok(1) [OF assms], of k k v] Some
      by (simp add: lru_get_def lru_take_def p bput_bdel Let_def)
  qed (simp add: lru_get_def assms)
qed (auto simp: lru_get_def lru_holds_def bsize_bput Let_def split: option.split)

lemma lru_evict_ok:
  assumes "lru_ok l"
  shows "lru_ok (lru_evict l) \<and> (\<forall>k. lru_holds (lru_evict l) k = None \<or> lru_holds (lru_evict l) k = lru_holds l k)
    \<and> bsize (lr_map (lru_evict l)) \<le> lr_cap l \<and> lr_cap (lru_evict l) = lr_cap l"
  using assms
proof (induction l rule: lru_evict.induct)
  case (1 l)
  show ?case
  proof (cases "bsize (lr_map l) \<le> lr_cap l")
    case True
    then show ?thesis using "1.prems" by (subst (1 2 3 4 5) lru_evict.simps) simp
  next
    case big: False
    then have "bitems (lr_order l) \<noteq> []" using lru_ok_sizes [OF "1.prems"] by (auto simp: bsize_def)
    then obtain t k ps where ps: "bitems (lr_order l) = (t, k) # ps" by (metis list.exhaust prod.exhaust)
    then have tk: "bget (lr_order l) t = Some k" by (simp add: bget_Some_iff)
    then obtain v where "bget (lr_map l) k = Some (v, t)" using "1.prems" unfolding lru_ok_def by blast
    then have "snd (lru_take k l) = l\<lparr>lr_order := bdel t (lr_order l), lr_map := bdel k (lr_map l)\<rparr>" by (simp add: lru_take_def)
    then have e: "lru_evict l = lru_evict (snd (lru_take k l))" using big ps by (subst lru_evict.simps) simp
    have "lru_ok (snd (lru_take k l))" by (rule lru_take_ok(1) [OF "1.prems"])
    with "1.IH" [OF big ps refl] \<open>snd (lru_take k l) = _\<close>
    have ih: "lru_ok (lru_evict (snd (lru_take k l)))" "bsize (lr_map (lru_evict (snd (lru_take k l)))) \<le> lr_cap l"
      "lr_cap (lru_evict (snd (lru_take k l))) = lr_cap l"
      "\<And>k'. lru_holds (lru_evict (snd (lru_take k l))) k' = None \<or> lru_holds (lru_evict (snd (lru_take k l))) k' = lru_holds (snd (lru_take k l)) k'"
      by auto
    have "lru_holds (lru_evict l) k' = None \<or> lru_holds (lru_evict l) k' = lru_holds l k'" for k'
      using ih(4) [of k'] unfolding e lru_take_ok(3) [OF "1.prems"] by (auto split: if_splits)
    then show ?thesis using ih(1-3) unfolding e by blast
  qed
qed

lemma lru_put_ok:
  assumes "lru_ok l"
  shows "lru_ok (lru_put k v l)" "bsize (lr_map (lru_put k v l)) \<le> lr_cap l" "lr_cap (lru_put k v l) = lr_cap l"
    and "lru_holds (lru_put k v l) k' = Some w \<Longrightarrow> if k' = k then w = v else lru_holds l k' = Some w"
proof -
  define m where "m = l\<lparr>lr_tick := lr_tick l + 1, lr_map := bput k (v, lr_tick l + 1) (lr_map l),
    lr_order := bput (lr_tick l + 1) k (case bget (lr_map l) k of None \<Rightarrow> lr_order l | Some (_, t) \<Rightarrow> bdel t (lr_order l))\<rparr>"
  have p: "lru_put k v l = lru_evict m" by (simp add: lru_put_def m_def Let_def)
  have "bget (lr_map (snd (lru_take k l))) k = None" by (simp add: lru_take_def split: option.split)
  from lru_use_ok [OF lru_take_ok(1) [OF assms] this, of v] have "lru_ok m"
    by (cases "bget (lr_map l) k") (auto simp: m_def lru_take_def bput_bdel)
  note e = lru_evict_ok [OF this]
  show "lru_ok (lru_put k v l)" "bsize (lr_map (lru_put k v l)) \<le> lr_cap l" "lr_cap (lru_put k v l) = lr_cap l"
    using e by (simp_all add: p) (simp_all add: m_def)
  have "lru_holds m k' = (if k' = k then Some v else lru_holds l k')" by (simp add: m_def lru_holds_def)
  then show "if k' = k then w = v else lru_holds l k' = Some w" if "lru_holds (lru_put k v l) k' = Some w"
    using e that unfolding p by (metis option.distinct(1) option.inject)
qed

lemma lru_retain_ok:
  assumes "lru_ok l"
  shows "lru_ok (lru_retain P l)" "lru_holds (lru_retain P l) k = (if P k then lru_holds l k else None)"
    "bsize (lr_map (lru_retain P l)) \<le> bsize (lr_map l)" "lr_cap (lru_retain P l) = lr_cap l"
proof -
  have o: "(\<exists>v. bget (lr_map (lru_retain P l)) k = Some (v, t)) \<longleftrightarrow> (\<exists>v. bget (lr_map l) k = Some (v, t)) \<and> P k"
    "bget (lr_order (lru_retain P l)) t = Some k \<longleftrightarrow> bget (lr_order l) t = Some k \<and> P k" for k t
    by (auto simp: lru_retain_def bget_bretain split: option.split)
  show "lru_ok (lru_retain P l)" using assms unfolding lru_ok_def o by (auto simp: lru_retain_def)
  show "bsize (lr_map (lru_retain P l)) \<le> bsize (lr_map l)"
    by (rule bsize_mono) (auto simp: lru_retain_def bget_bretain split: option.splits)
qed (auto simp: lru_retain_def lru_holds_def bget_bretain split: option.split)

section \<open>The interface of a cache\<close>

text \<open>A cache may forget, and otherwise returns what was put last. Its client reads through it
  from a source that does not change.\<close>

locale cache =
  fixes holds :: "'c \<Rightarrow> 'k \<Rightarrow> 'v option" and ok :: "'c \<Rightarrow> bool"
    and get :: "'k \<Rightarrow> 'c \<Rightarrow> 'v option \<times> 'c" and take' :: "'k \<Rightarrow> 'c \<Rightarrow> 'v option \<times> 'c"
    and put :: "'k \<Rightarrow> 'v \<Rightarrow> 'c \<Rightarrow> 'c" and retain :: "('k \<Rightarrow> bool) \<Rightarrow> 'c \<Rightarrow> 'c"
  assumes ok_ops: "ok c \<Longrightarrow> ok (snd (get k c))" "ok c \<Longrightarrow> ok (snd (take' k c))" "ok c \<Longrightarrow> ok (put k v c)" "ok c \<Longrightarrow> ok (retain P c)"
    and get_holds: "ok c \<Longrightarrow> fst (get k c) = holds c k" "ok c \<Longrightarrow> holds (snd (get k c)) k' = holds c k'"
    and take_holds: "ok c \<Longrightarrow> fst (take' k c) = holds c k" "ok c \<Longrightarrow> holds (snd (take' k c)) k' = (if k' = k then None else holds c k')"
    and put_holds: "ok c \<Longrightarrow> holds (put k v c) k' = Some w \<Longrightarrow> if k' = k then w = v else holds c k' = Some w"
    and retain_holds: "ok c \<Longrightarrow> holds (retain P c) k = (if P k then holds c k else None)"
begin

text \<open>Everything held is what the source has.\<close>

definition true_to :: "('k \<Rightarrow> 'v option) \<Rightarrow> 'c \<Rightarrow> bool" where
  "true_to source c \<longleftrightarrow> ok c \<and> (\<forall>k v. holds c k = Some v \<longrightarrow> source k = Some v)"

lemma true_to_get:
  assumes "true_to source c" and "get k c = (x, c')"
  shows "true_to source c'" and "x = Some v \<Longrightarrow> source k = Some v"
  using assms ok_ops(1) [of c k] get_holds [of c k] unfolding true_to_def by auto metis

lemma true_to_take:
  assumes "true_to source c" and "take' k c = (x, c')"
  shows "true_to source c'" and "x = Some v \<Longrightarrow> source k = Some v"
  using assms ok_ops(2) [of c k] take_holds [of c k] unfolding true_to_def by (auto split: if_splits) metis

lemma true_to_put: "true_to source c \<Longrightarrow> source k = Some v \<Longrightarrow> true_to source (put k v c)"
  using ok_ops(3) [of c k v] put_holds [of c k v] unfolding true_to_def by metis

text \<open>After the source changed, it is enough to forget what it changed.\<close>

lemma true_to_retain:
  assumes "true_to source c" and "\<And>k v. P k \<Longrightarrow> source k = Some v \<Longrightarrow> source' k = Some v"
  shows "true_to source' (retain P c)"
  using assms ok_ops(4) [of c P] retain_holds [of c P] by (auto simp: true_to_def split: if_splits)

end

interpretation lru: cache lru_holds lru_ok lru_get lru_take lru_put lru_retain
  by unfold_locales (rule lru_get_ok lru_take_ok lru_put_ok(1,4) lru_retain_ok; assumption)+

end
