(* ===== verification/PagedInodes.thy ===== *)
theory PagedInodes
  imports Tracked LruCache Namespace
begin

text \<open>
  Inode tables paged in and out of the catalog store (\<open>crates/atlas-native/src/inodes.rs\<close>, and
  \<open>StoreSnapshot\<close> of \<open>store.rs\<close>). A table keeps the inodes changed since the last checkpoint and reads
  the others from the store as of that checkpoint, through a cache; a directory does the same
  with its entries. The theory shows that such a table behaves as the plain map of whole inodes
  that the model of the name space uses.

  A reading transaction of the database is the tables as they were when it began. Rows of the
  inode table are bytes; how values become bytes is a parameter. A limit of \<open>usize::MAX\<close> is \<open>None\<close>.
\<close>

section \<open>Directory entries\<close>

record dents =
  de_map :: dir_entries
  de_changed :: "string fset"
  de_len :: nat
  de_stored :: bool

definition no_dents :: dents where
  "no_dents = \<lparr>de_map = bempty, de_changed = {||}, de_len = 0, de_stored = False\<rparr>"

definition dents_stored :: "nat \<Rightarrow> dents" where
  "dents_stored n = no_dents\<lparr>de_len := n, de_stored := True\<rparr>"

definition dents_of :: "dir_entries \<Rightarrow> dents" where
  "dents_of m = \<lparr>de_map = m, de_changed = {||}, de_len = bsize m, de_stored = False\<rparr>"

definition de_known :: "string \<Rightarrow> dents \<Rightarrow> nat option option" where
  "de_known name d = (case bget (de_map d) name of
       Some i \<Rightarrow> Some (Some i)
     | None \<Rightarrow> if \<not> de_stored d \<or> name |\<in>| de_changed d then Some None else None)"

definition de_set :: "string \<Rightarrow> nat option \<Rightarrow> bool \<Rightarrow> dents \<Rightarrow> dents" where
  "de_set name ino existed d =
     (let d = (case ino of
            Some i \<Rightarrow> d\<lparr>de_map := bput name i (de_map d), de_len := de_len d + (if existed then 0 else 1)\<rparr>
          | None \<Rightarrow> d\<lparr>de_map := bdel name (de_map d), de_len := de_len d - (if existed then 1 else 0)\<rparr>)
      in d\<lparr>de_changed := finsert name (de_changed d)\<rparr>)"

definition de_changes :: "dents \<Rightarrow> (string \<times> nat option) list" where
  "de_changes d = map (\<lambda>n. (n, bget (de_map d) n)) (sorted_list_of_fset (de_changed d))"

definition de_settled :: "dents \<Rightarrow> bool" where
  "de_settled d \<longleftrightarrow> de_stored d \<and> bsize (de_map d) = 0 \<and> de_changed d = {||}"

definition de_settle :: "dents \<Rightarrow> dents" where
  "de_settle d = d\<lparr>de_map := bempty, de_changed := {||}, de_stored := True\<rparr>"

section \<open>Inodes with their entries apart\<close>

text \<open>The entries of a directory are in \<open>pi_dents\<close>; those of \<open>pi_inode\<close> are left empty.\<close>

record pinode =
  pi_inode :: inode
  pi_dents :: dents

definition with_entries :: "dir_entries \<Rightarrow> inode \<Rightarrow> inode" where
  "with_entries es i = (case i_kind i of Dir p _ \<Rightarrow> i\<lparr>i_kind := Dir p es\<rparr> | _ \<Rightarrow> i)"

definition pinode_of :: "inode \<Rightarrow> pinode" where
  "pinode_of i = (case i_kind i of
       Dir p es \<Rightarrow> \<lparr>pi_inode = with_entries bempty i, pi_dents = dents_of es\<rparr>
     | _ \<Rightarrow> \<lparr>pi_inode = i, pi_dents = no_dents\<rparr>)"

text \<open>What an inode row holds in place of a directory's entries: their count, or the map itself.\<close>

datatype row_entries = EntryCount nat | EntryMap dir_entries

record inode_row =
  ir_inode :: inode
  ir_entries :: row_entries

definition inode_record :: "pinode \<Rightarrow> inode_row" where
  "inode_record p = \<lparr>ir_inode = pi_inode p,
     ir_entries = (if is_dir (pi_inode p) then EntryCount (de_len (pi_dents p)) else EntryMap bempty)\<rparr>"

record 'v json =
  js_enc :: "'v \<Rightarrow> byte list"
  js_dec :: "byte list \<Rightarrow> 'v option"

definition json_ok :: "'v json \<Rightarrow> bool" where
  "json_ok j \<longleftrightarrow> (\<forall>v. js_dec j (js_enc j v) = Some v)"

definition parse_row :: "inode_row json \<Rightarrow> byte list \<Rightarrow> pinode meta_result" where
  "parse_row j row = rbind (ok_or (js_dec j row) Store) (\<lambda>r.
     Inr \<lparr>pi_inode = ir_inode r, pi_dents = (case ir_entries r of EntryCount n \<Rightarrow> dents_stored n | EntryMap m \<Rightarrow> dents_of m)\<rparr>)"

section \<open>The store as of one checkpoint\<close>

record itables =
  t_inodes :: "(string \<times> nat, byte list) btree"
  t_dirents :: "(string \<times> nat \<times> string, nat) btree"

record store_snap =
  sp_tx :: itables
  sp_cache :: "(string \<times> nat, pinode) lru"

definition at_most :: "nat option \<Rightarrow> 'a list \<Rightarrow> 'a list" where
  "at_most limit xs = (case limit of None \<Rightarrow> xs | Some n \<Rightarrow> take n xs)"

definition ss_entry :: "itables \<Rightarrow> string \<Rightarrow> nat \<Rightarrow> string \<Rightarrow> nat option" where
  "ss_entry tx fs d name = bget (t_dirents tx) (fs, d, name)"

text \<open>The ranges of keys the two tables are read by.\<close>

definition dirent_range :: "string \<Rightarrow> nat \<Rightarrow> string option \<Rightarrow> string \<times> nat \<times> string \<Rightarrow> bool" where
  "dirent_range fs d after k \<longleftrightarrow>
     (case after of Some a \<Rightarrow> (fs, d, a) < k | None \<Rightarrow> (fs, d, []) \<le> k) \<and> k < (fs, d + 1, [])"

definition inode_range :: "string \<Rightarrow> nat \<Rightarrow> string \<times> nat \<Rightarrow> bool" where
  "inode_range fs from k \<longleftrightarrow> (fs, from) \<le> k \<and> k \<le> (fs, u64_max)"

definition ss_entries ::
    "itables \<Rightarrow> string \<Rightarrow> nat \<Rightarrow> string option \<Rightarrow> nat option \<Rightarrow> (string \<Rightarrow> bool) \<Rightarrow> (string \<times> nat) list" where
  "ss_entries tx fs d after limit skip =
     at_most limit (filter (\<lambda>(n, _). \<not> skip n) (map (\<lambda>((_, _, n), v). (n, v))
       (filter (\<lambda>(k, _). dirent_range fs d after k) (bitems (t_dirents tx)))))"

definition ss_inos_from :: "itables \<Rightarrow> string \<Rightarrow> nat \<Rightarrow> nat option \<Rightarrow> (nat \<Rightarrow> bool) \<Rightarrow> nat list" where
  "ss_inos_from tx fs from limit skip =
     at_most limit (filter (\<lambda>i. \<not> skip i) (map (\<lambda>((_, i), _). i)
       (filter (\<lambda>(k, _). inode_range fs from k) (bitems (t_inodes tx)))))"

definition ss_inos :: "itables \<Rightarrow> string \<Rightarrow> nat list" where
  "ss_inos tx fs = ss_inos_from tx fs 0 None (\<lambda>_. False)"

definition ss_read :: "inode_row json \<Rightarrow> itables \<Rightarrow> string \<Rightarrow> nat \<Rightarrow> pinode option meta_result" where
  "ss_read j tx fs ino = (case bget (t_inodes tx) (fs, ino) of
       None \<Rightarrow> Inr None
     | Some row \<Rightarrow> rbind (parse_row j row) (\<lambda>p.
         Inr (Some (if is_dir (pi_inode p) \<and> \<not> de_stored (pi_dents p)
           then p\<lparr>pi_dents := dents_stored (length (ss_entries tx fs ino None None (\<lambda>_. False)))\<rparr> else p))))"

definition ss_put :: "string \<Rightarrow> nat \<Rightarrow> pinode \<Rightarrow> store_snap \<Rightarrow> store_snap" where
  "ss_put fs ino p s = s\<lparr>sp_cache := lru_put (fs, ino) p (sp_cache s)\<rparr>"

definition ss_get :: "inode_row json \<Rightarrow> string \<Rightarrow> nat \<Rightarrow> store_snap \<Rightarrow> (pinode option, store_snap) change" where
  "ss_get j fs ino s =
     (let (x, c) = lru_get (fs, ino) (sp_cache s); s = s\<lparr>sp_cache := c\<rparr>
      in case x of
           Some p \<Rightarrow> (Inr (Some p), s)
         | None \<Rightarrow> attempt s (ss_read j (sp_tx s) fs ino) (\<lambda>x. case x of
               None \<Rightarrow> (Inr None, s)
             | Some p \<Rightarrow> (Inr (Some p), ss_put fs ino p s)))"

definition ss_peek :: "inode_row json \<Rightarrow> string \<Rightarrow> nat \<Rightarrow> store_snap \<Rightarrow> (pinode option, store_snap) change" where
  "ss_peek j fs ino s =
     (let (x, c) = lru_get (fs, ino) (sp_cache s); s = s\<lparr>sp_cache := c\<rparr>
      in case x of Some p \<Rightarrow> (Inr (Some p), s) | None \<Rightarrow> (ss_read j (sp_tx s) fs ino, s))"

definition ss_take :: "inode_row json \<Rightarrow> string \<Rightarrow> nat \<Rightarrow> store_snap \<Rightarrow> (pinode option, store_snap) change" where
  "ss_take j fs ino s =
     (let (x, c) = lru_take (fs, ino) (sp_cache s); s = s\<lparr>sp_cache := c\<rparr>
      in case x of Some p \<Rightarrow> (Inr (Some p), s) | None \<Rightarrow> (ss_read j (sp_tx s) fs ino, s))"

section \<open>The inode table\<close>

record inode_tab =
  it_map :: "(nat, pinode) tracked"
  it_len :: nat
  it_paged :: "string option"

definition it_of :: "inode list \<Rightarrow> inode_tab" where
  "it_of is = (let m = bextend bempty (map (\<lambda>i. (i_ino i, pinode_of i)) is)
     in \<lparr>it_map = tr_of m, it_len = bsize m, it_paged = None\<rparr>)"

definition it_paged_on :: "string \<Rightarrow> nat \<Rightarrow> inode_tab" where
  "it_paged_on fs len = \<lparr>it_map = tr_empty, it_len = len, it_paged = Some fs\<rparr>"

definition it_behind :: "inode_tab \<Rightarrow> nat \<Rightarrow> string option" where
  "it_behind t ino = (if ino |\<in>| tr_touched (it_map t) then None else it_paged t)"

definition it_get :: "inode_row json \<Rightarrow> inode_tab \<Rightarrow> nat \<Rightarrow> store_snap \<Rightarrow> (pinode option, store_snap) change" where
  "it_get j t ino s = (case bget (tr_map (it_map t)) ino of
       Some p \<Rightarrow> (Inr (Some p), s)
     | None \<Rightarrow> (case it_behind t ino of
           Some fs \<Rightarrow> ss_get j fs ino s
         | None \<Rightarrow> (Inr None, s)))"

definition it_page_in :: "inode_row json \<Rightarrow> nat \<Rightarrow> inode_tab \<times> store_snap \<Rightarrow> (bool, inode_tab \<times> store_snap) change" where
  "it_page_in j ino = (\<lambda>(t, s).
     if bget (tr_map (it_map t)) ino \<noteq> None then (Inr True, (t, s))
     else case it_behind t ino of
         None \<Rightarrow> (Inr False, (t, s))
       | Some fs \<Rightarrow> (case ss_take j fs ino s of
             (Inl e, s) \<Rightarrow> (Inl e, (t, s))
           | (Inr None, s) \<Rightarrow> (Inr False, (t, s))
           | (Inr (Some p), s) \<Rightarrow> (Inr True, (t\<lparr>it_map := tr_insert_quietly ino p (it_map t)\<rparr>, s))))"

text \<open>\<open>get_mut\<close>, with the caller's edit \<open>g\<close>; the result says whether there is such an inode.\<close>

definition it_get_mut ::
    "inode_row json \<Rightarrow> nat \<Rightarrow> (pinode \<Rightarrow> pinode) \<Rightarrow> inode_tab \<times> store_snap \<Rightarrow> (bool, inode_tab \<times> store_snap) change" where
  "it_get_mut j ino g ts = andthen (it_page_in j ino ts) (\<lambda>b (t, s).
     if b then (Inr True, (t\<lparr>it_map := tr_edit ino g (it_map t)\<rparr>, s)) else (Inr False, (t, s)))"

definition it_insert :: "pinode \<Rightarrow> inode_tab \<Rightarrow> inode_tab" where
  "it_insert p t = (let (old, m) = tr_insert (i_ino (pi_inode p)) p (it_map t)
     in t\<lparr>it_map := m, it_len := it_len t + (if old = None then 1 else 0)\<rparr>)"

definition it_remove :: "inode_row json \<Rightarrow> nat \<Rightarrow> inode_tab \<times> store_snap \<Rightarrow> (pinode option, inode_tab \<times> store_snap) change" where
  "it_remove j ino ts = andthen (it_page_in j ino ts) (\<lambda>b (t, s).
     if \<not> b then (Inr None, (t, s))
     else let (x, m) = tr_remove ino (it_map t)
          in (Inr x, (t\<lparr>it_map := m, it_len := it_len t - (if x = None then 0 else 1)\<rparr>, s)))"

definition it_entry :: "inode_tab \<Rightarrow> itables \<Rightarrow> pinode \<Rightarrow> string \<Rightarrow> nat option meta_result" where
  "it_entry t tx d name =
     (if \<not> is_dir (pi_inode d) then Inr None
      else case de_known name (pi_dents d) of
          Some x \<Rightarrow> Inr x
        | None \<Rightarrow> rbind (ok_or (it_paged t) Store) (\<lambda>fs. Inr (ss_entry tx fs (i_ino (pi_inode d)) name)))"

definition it_entries ::
    "inode_tab \<Rightarrow> itables \<Rightarrow> pinode \<Rightarrow> string option \<Rightarrow> nat option \<Rightarrow> (string \<times> nat) list meta_result" where
  "it_entries t tx d after limit =
     (if \<not> is_dir (pi_inode d) then Inr []
      else
        let e = pi_dents d;
            out = bextend bempty (at_most limit (filter (\<lambda>(n, _). case after of None \<Rightarrow> True | Some a \<Rightarrow> a < n) (bitems (de_map e))))
        in if de_stored e
           then rbind (ok_or (it_paged t) Store) (\<lambda>fs.
             Inr (at_most limit (bitems (bextend out (ss_entries tx fs (i_ino (pi_inode d)) after limit (\<lambda>n. n |\<in>| de_changed e))))))
           else Inr (at_most limit (bitems out)))"

definition it_set_entry ::
    "inode_row json \<Rightarrow> nat \<Rightarrow> string \<Rightarrow> nat option \<Rightarrow> inode_tab \<times> store_snap \<Rightarrow> (nat option, inode_tab \<times> store_snap) change" where
  "it_set_entry j d name ino ts = (case ts of (t, s) \<Rightarrow>
     (case it_get j t d s of
        (Inl e, s) \<Rightarrow> (Inl e, (t, s))
      | (Inr None, s) \<Rightarrow> (Inl NotFound, (t, s))
      | (Inr (Some p), s) \<Rightarrow>
          attempt (t, s) (it_entry t (sp_tx s) p name) (\<lambda>old.
          andthen (it_get_mut j d (\<lambda>p. if is_dir (pi_inode p) then p\<lparr>pi_dents := de_set name ino (old \<noteq> None) (pi_dents p)\<rparr> else p) (t, s))
            (\<lambda>b ts. if b \<and> is_dir (pi_inode p) then (Inr old, ts) else (Inl NotDir, ts)))))"

definition it_full :: "inode_tab \<Rightarrow> itables \<Rightarrow> pinode \<Rightarrow> pinode meta_result" where
  "it_full t tx p =
     (if is_dir (pi_inode p) \<and> de_stored (pi_dents p)
      then rbind (it_entries t tx p None None) (\<lambda>es. Inr (p\<lparr>pi_dents := dents_of (bextend bempty es)\<rparr>))
      else Inr p)"

fun it_full_all :: "inode_tab \<Rightarrow> itables \<Rightarrow> pinode list \<Rightarrow> pinode list meta_result" where
  "it_full_all t tx [] = Inr []"
| "it_full_all t tx (p # ps) = rbind (it_full t tx p) (\<lambda>p. rbind (it_full_all t tx ps) (\<lambda>ps. Inr (p # ps)))"

text \<open>Reading the inodes with the given numbers, past the cache.\<close>

fun it_peek_all ::
    "inode_row json \<Rightarrow> string \<Rightarrow> nat list \<Rightarrow> (nat, pinode) btree \<Rightarrow> store_snap \<Rightarrow> ((nat, pinode) btree, store_snap) change" where
  "it_peek_all j fs [] out s = (Inr out, s)"
| "it_peek_all j fs (ino # inos) out s = andthen (ss_peek j fs ino s) (\<lambda>x s.
     it_peek_all j fs inos (case x of None \<Rightarrow> out | Some p \<Rightarrow> bput ino p out) s)"

definition it_scan :: "inode_row json \<Rightarrow> inode_tab \<Rightarrow> store_snap \<Rightarrow> (pinode list, store_snap) change" where
  "it_scan j t s = (case it_paged t of
       None \<Rightarrow> (Inr (bvals (tr_map (it_map t))), s)
     | Some fs \<Rightarrow> andthen (it_peek_all j fs (filter (\<lambda>i. i |\<notin>| tr_touched (it_map t)) (ss_inos (sp_tx s) fs)) bempty s)
         (\<lambda>all s. (Inr (bvals (bextend all (bitems (tr_map (it_map t))))), s)))"

definition it_scan_full :: "inode_row json \<Rightarrow> inode_tab \<Rightarrow> store_snap \<Rightarrow> (pinode list, store_snap) change" where
  "it_scan_full j t s = andthen (it_scan j t s) (\<lambda>ps s. (it_full_all t (sp_tx s) ps, s))"

definition it_page :: "inode_row json \<Rightarrow> inode_tab \<Rightarrow> nat \<Rightarrow> nat \<Rightarrow> store_snap \<Rightarrow> (pinode list, store_snap) change" where
  "it_page j t from limit s =
     (let out = bextend bempty (take limit (filter (\<lambda>(i, _). from \<le> i) (bitems (tr_map (it_map t)))))
      in case it_paged t of
           None \<Rightarrow> (Inr (take limit (bvals out)), s)
         | Some fs \<Rightarrow> andthen (it_peek_all j fs (ss_inos_from (sp_tx s) fs from (Some limit) (\<lambda>i. i |\<in>| tr_touched (it_map t))) out s)
             (\<lambda>out s. (Inr (take limit (bvals out)), s)))"

definition it_page_full :: "inode_row json \<Rightarrow> inode_tab \<Rightarrow> nat \<Rightarrow> nat \<Rightarrow> store_snap \<Rightarrow> (pinode list, store_snap) change" where
  "it_page_full j t from limit s = andthen (it_page j t from limit s) (\<lambda>ps s. (it_full_all t (sp_tx s) ps, s))"

text \<open>The whole inode, once its entries are in memory.\<close>

definition whole_inode :: "pinode \<Rightarrow> inode" where
  "whole_inode p = with_entries (de_map (pi_dents p)) (pi_inode p)"

definition it_detached :: "inode_row json \<Rightarrow> inode_tab \<Rightarrow> store_snap \<Rightarrow> (inode_tab, store_snap) change" where
  "it_detached j t s = andthen (it_scan_full j t s) (\<lambda>ps s. (Inr (it_of (map whole_inode ps)), s))"

definition it_clear_changes :: "inode_tab \<Rightarrow> inode_tab" where
  "it_clear_changes t = t\<lparr>it_map := tr_clear (it_map t)\<rparr>"

definition settle_inode :: "pinode \<Rightarrow> pinode" where
  "settle_inode p = (if is_dir (pi_inode p) \<and> \<not> de_settled (pi_dents p) then p\<lparr>pi_dents := de_settle (pi_dents p)\<rparr> else p)"

definition it_attach :: "string \<Rightarrow> inode_tab \<times> store_snap \<Rightarrow> inode_tab \<times> store_snap" where
  "it_attach fs = (\<lambda>(t, s).
     (t\<lparr>it_map := tr_empty, it_paged := Some fs\<rparr>,
      fold (\<lambda>p. ss_put fs (i_ino (pi_inode p)) (settle_inode p)) (bvals (tr_map (it_map t))) s))"

section \<open>What a table stands for\<close>

text \<open>The inode behind a number, and the name behind an entry, wherever they are kept.\<close>

definition row_of :: "inode_row json \<Rightarrow> itables \<Rightarrow> string \<times> nat \<Rightarrow> pinode option" where
  "row_of j tx k = (case ss_read j tx (fst k) (snd k) of Inl _ \<Rightarrow> None | Inr x \<Rightarrow> x)"

definition tab_view :: "inode_row json \<Rightarrow> inode_tab \<Rightarrow> itables \<Rightarrow> nat \<Rightarrow> pinode option" where
  "tab_view j t tx ino = (case bget (tr_map (it_map t)) ino of
       Some p \<Rightarrow> Some p
     | None \<Rightarrow> (case it_behind t ino of None \<Rightarrow> None | Some fs \<Rightarrow> row_of j tx (fs, ino)))"

definition dir_view :: "string option \<Rightarrow> itables \<Rightarrow> pinode \<Rightarrow> string \<Rightarrow> nat option" where
  "dir_view paged tx p name = (case de_known name (pi_dents p) of
       Some x \<Rightarrow> x
     | None \<Rightarrow> (case paged of None \<Rightarrow> None | Some fs \<Rightarrow> ss_entry tx fs (i_ino (pi_inode p)) name))"

definition pinode_rep :: "string option \<Rightarrow> itables \<Rightarrow> pinode \<Rightarrow> inode \<Rightarrow> bool" where
  "pinode_rep paged tx p i \<longleftrightarrow>
     (if is_dir (pi_inode p)
      then \<exists>es. i = with_entries es (pi_inode p) \<and> (\<forall>name. bget es name = dir_view paged tx p name) \<and> de_len (pi_dents p) = bsize es
      else i = pi_inode p)"

text \<open>Rows that checkpoints write: they can be read, a directory's row counts its entries, and only
  directories have entries. An inode number is below the largest \<open>u64\<close>.\<close>

definition pinode_shape :: "nat \<Rightarrow> pinode \<Rightarrow> bool" where
  "pinode_shape ino p \<longleftrightarrow> i_ino (pi_inode p) = ino \<and> ino < u64_max
     \<and> with_entries bempty (pi_inode p) = pi_inode p
     \<and> (if is_dir (pi_inode p) then de_stored (pi_dents p) \<longrightarrow> (\<forall>n. bget (de_map (pi_dents p)) n \<noteq> None \<longrightarrow> n |\<in>| de_changed (pi_dents p))
        else pi_dents p = no_dents)"

definition dir_rows :: "itables \<Rightarrow> string \<Rightarrow> nat \<Rightarrow> dir_entries" where
  "dir_rows tx fs ino = bextend bempty (ss_entries tx fs ino None None (\<lambda>_. False))"

definition tx_ok :: "inode_row json \<Rightarrow> itables \<Rightarrow> bool" where
  "tx_ok j tx \<longleftrightarrow>
     (\<forall>fs ino row. bget (t_inodes tx) (fs, ino) = Some row \<longrightarrow>
        (\<exists>p. ss_read j tx fs ino = Inr (Some p) \<and> pinode_shape ino p
           \<and> (is_dir (pi_inode p) \<longrightarrow> pi_dents p = dents_stored (bsize (dir_rows tx fs ino)))))
   \<and> (\<forall>fs ino name x. bget (t_dirents tx) (fs, ino, name) = Some x \<longrightarrow>
        (\<exists>p. row_of j tx (fs, ino) = Some p \<and> is_dir (pi_inode p)))"

definition snap_ok :: "inode_row json \<Rightarrow> store_snap \<Rightarrow> bool" where
  "snap_ok j s \<longleftrightarrow> tx_ok j (sp_tx s) \<and> lru.true_to (row_of j (sp_tx s)) (sp_cache s)"

text \<open>What is in memory: in a paged table only changed inodes; an inode that was edited in place is
  a directory exactly if its row is, with its other entries in the store; one inserted since has
  all its entries in memory.\<close>

definition tab_ok :: "inode_row json \<Rightarrow> itables \<Rightarrow> inode_tab \<Rightarrow> bool" where
  "tab_ok j tx t \<longleftrightarrow>
     (\<forall>ino p. bget (tr_map (it_map t)) ino = Some p \<longrightarrow> pinode_shape ino p
        \<and> (it_paged t \<noteq> None \<longrightarrow> ino |\<in>| tr_touched (it_map t))
        \<and> (is_dir (pi_inode p) \<longrightarrow> de_stored (pi_dents p) = (it_paged t \<noteq> None \<and> ino |\<notin>| tr_replaced (it_map t))))
   \<and> tr_replaced (it_map t) |\<subseteq>| tr_touched (it_map t)
   \<and> (\<forall>fs ino. it_paged t = Some fs \<longrightarrow> ino |\<in>| tr_touched (it_map t) \<longrightarrow> ino |\<notin>| tr_replaced (it_map t) \<longrightarrow>
        (\<exists>p q. bget (tr_map (it_map t)) ino = Some p \<and> row_of j tx (fs, ino) = Some q
           \<and> is_dir (pi_inode p) = is_dir (pi_inode q)))"

definition tab_rep :: "inode_row json \<Rightarrow> itables \<Rightarrow> inode_tab \<Rightarrow> inode_table \<Rightarrow> bool" where
  "tab_rep j tx t T \<longleftrightarrow> tab_ok j tx t \<and> it_len t = bsize T
     \<and> (\<forall>ino. rel_option (pinode_rep (it_paged t) tx) (tab_view j t tx ino) (bget T ino))"

declare split_paired_All [simp del] split_paired_Ex [simp del]

section \<open>Inodes and their entries\<close>

lemma is_dir_with_entries [simp]: "is_dir (with_entries es i) = is_dir i"
  by (simp add: with_entries_def is_dir_def is_dir_kind_def split: inode_kind.split)

lemma i_ino_with_entries [simp]: "i_ino (with_entries es i) = i_ino i"
  by (simp add: with_entries_def split: inode_kind.split)

lemma with_entries_again [simp]: "with_entries es (with_entries es' i) = with_entries es i"
  by (simp add: with_entries_def split: inode_kind.split)

lemma with_entries_nondir [simp]: "\<not> is_dir i \<Longrightarrow> with_entries es i = i"
  by (simp add: with_entries_def is_dir_def is_dir_kind_def split: inode_kind.splits)

lemma with_entries_kind: "is_dir i \<Longrightarrow> i_kind (with_entries es i) = Dir (d_parent (i_kind i)) es"
  by (auto simp: with_entries_def is_dir_def is_dir_kind_def split: inode_kind.splits)

lemma pinode_rep_dir: "pinode_rep paged tx p i \<Longrightarrow> is_dir i = is_dir (pi_inode p)"
  by (auto simp: pinode_rep_def split: if_splits)

lemma pinode_rep_ino: "pinode_rep paged tx p i \<Longrightarrow> i_ino i = i_ino (pi_inode p)"
  by (auto simp: pinode_rep_def split: if_splits)

lemma pinode_rep_eq:
  assumes "pinode_rep paged tx p i" and "pinode_rep paged tx p i'"
  shows "i = i'"
proof (cases "is_dir (pi_inode p)")
  case True
  then obtain es es' where e: "i = with_entries es (pi_inode p)" "\<forall>n. bget es n = dir_view paged tx p n"
    "i' = with_entries es' (pi_inode p)" "\<forall>n. bget es' n = dir_view paged tx p n"
    using assms by (auto simp: pinode_rep_def)
  then have "es = es'" by (intro btree_eqI) simp
  then show ?thesis using e by simp
qed (use assms in \<open>simp add: pinode_rep_def\<close>)

section \<open>Reading the store\<close>

definition after_ok :: "string option \<Rightarrow> string \<Rightarrow> bool" where
  "after_ok after n \<longleftrightarrow> (case after of None \<Rightarrow> True | Some a \<Rightarrow> a < n)"

lemma dirent_range_iff: "dirent_range fs d after (f, e, n) \<longleftrightarrow> f = fs \<and> e = d \<and> after_ok after n"
  by (auto simp: dirent_range_def after_ok_def less_eq_prod_def less_prod_def split: option.split)

lemma inode_range_iff: "inode_range fs from (f, i) \<longleftrightarrow> f = fs \<and> from \<le> i \<and> i \<le> u64_max"
  by (auto simp: inode_range_def less_eq_prod_def less_prod_def)

lemma ss_entries_alt:
  "ss_entries tx fs d after limit skip = at_most limit (map (\<lambda>((_, _, n), v). (n, v))
     (filter (\<lambda>((f, e, n), _). f = fs \<and> e = d \<and> after_ok after n \<and> \<not> skip n) (bitems (t_dirents tx))))"
  unfolding ss_entries_def filter_map filter_filter
  by (intro arg_cong [of _ _ "at_most limit"] arg_cong [of _ _ "map _"] filter_cong) (auto simp: dirent_range_iff)

lemma set_ss_entries:
  "set (ss_entries tx fs d after None skip) = {(n, v). bget (t_dirents tx) (fs, d, n) = Some v \<and> after_ok after n \<and> \<not> skip n}"
  by (force simp: ss_entries_alt at_most_def bget_Some_iff image_iff)

lemma sorted_ss_entries: "sorted_wrt (<) (map fst (ss_entries tx fs d after None skip))"
proof -
  have "sorted_wrt (<) (map fst (map (\<lambda>((_, _, n), v). (n, v)) (filter (\<lambda>((f, e, n), _). f = fs \<and> e = d \<and> Q n) xs)))"
    if "sorted_wrt (<) (map fst xs)" for Q and xs :: "((string \<times> nat \<times> string) \<times> nat) list"
    using that by (induction xs) (auto simp: less_prod_def)
  from this [OF sorted_bitems] show ?thesis by (simp add: ss_entries_alt at_most_def)
qed

lemma bget_bextend_sorted:
  assumes "sorted_wrt (<) (map fst xs)"
  shows "bget (bextend m xs) k = (case map_of xs k of None \<Rightarrow> bget m k | Some v \<Rightarrow> Some v)"
  using assms
proof (induction xs arbitrary: m)
  case (Cons x xs)
  obtain a v where x: "x = (a, v)" by (cases x)
  have "map_of xs a = None" using Cons.prems by (auto simp: x map_of_eq_None_iff)
  then show ?case using Cons by (auto simp: x split: option.split)
qed simp

lemma bget_dir_rows [simp]: "bget (dir_rows tx fs ino) n = bget (t_dirents tx) (fs, ino, n)"
proof -
  let ?xs = "ss_entries tx fs ino None None (\<lambda>_. False)"
  have d: "distinct (map fst ?xs)" using sorted_ss_entries by (metis strict_sorted_iff)
  have "map_of ?xs n = Some v \<longleftrightarrow> bget (t_dirents tx) (fs, ino, n) = Some v" for v
    using set_ss_entries [of tx fs ino None "\<lambda>_. False"] map_of_eq_Some_iff [OF d] by (simp add: after_ok_def)
  then have "map_of ?xs n = bget (t_dirents tx) (fs, ino, n)" by (metis option.exhaust)
  then show ?thesis unfolding dir_rows_def by (simp add: bget_bextend_sorted [OF sorted_ss_entries] split: option.split)
qed

lemma bextend_bitems [simp]: "bextend bempty (bitems m) = m"
  by (rule btree_eqI) (simp add: bget_bextend_sorted sorted_bitems split: option.split flip: bget_def)

lemma bitems_of_sorted: "sorted_wrt (<) (map fst xs) \<Longrightarrow> bitems (bextend bempty xs) = xs"
proof -
  assume s: "sorted_wrt (<) (map fst xs)"
  define m where "m = BTree xs"
  have m: "bitems m = xs" unfolding m_def using s by (intro BTree_inverse) simp
  have "bextend bempty xs = m"
    by (rule btree_eqI) (auto simp: bget_bextend_sorted [OF s] bget_def [of m] m split: option.split)
  then show ?thesis using m by simp
qed

lemma length_dir_rows: "length (ss_entries tx fs ino None None (\<lambda>_. False)) = bsize (dir_rows tx fs ino)"
  unfolding dir_rows_def bsize_def bitems_of_sorted [OF sorted_ss_entries] ..

text \<open>Reads through the cache return what the rows say.\<close>

lemma ss_read_None: "ss_read j tx fs ino = Inr None \<longleftrightarrow> bget (t_inodes tx) (fs, ino) = None"
  by (auto simp: ss_read_def rbind_eq_Inr split: option.split)

lemma tx_ok_read:
  assumes "tx_ok j tx"
  obtains "ss_read j tx fs ino = Inr None"
  | p where "ss_read j tx fs ino = Inr (Some p)" "pinode_shape ino p"
      "is_dir (pi_inode p) \<longrightarrow> pi_dents p = dents_stored (bsize (dir_rows tx fs ino))"
proof (cases "bget (t_inodes tx) (fs, ino)")
  case None
  then show ?thesis using that(1) by (simp add: ss_read_None)
next
  case (Some row)
  with assms have "\<exists>p. ss_read j tx fs ino = Inr (Some p) \<and> pinode_shape ino p
      \<and> (is_dir (pi_inode p) \<longrightarrow> pi_dents p = dents_stored (bsize (dir_rows tx fs ino)))"
    unfolding tx_ok_def by blast
  then show ?thesis using that(2) by blast
qed

lemma ss_read_row: "tx_ok j tx \<Longrightarrow> ss_read j tx fs ino = Inr (row_of j tx (fs, ino))"
  by (erule tx_ok_read [of j tx fs ino]) (simp_all add: row_of_def)

lemma row_shape: "tx_ok j tx \<Longrightarrow> row_of j tx (fs, ino) = Some p \<Longrightarrow> pinode_shape ino p
  \<and> (is_dir (pi_inode p) \<longrightarrow> pi_dents p = dents_stored (bsize (dir_rows tx fs ino)))"
  by (erule tx_ok_read [of j tx fs ino]) (simp_all add: row_of_def)

definition reads :: "inode_row json \<Rightarrow> store_snap \<Rightarrow> 'a \<Rightarrow> ('a, store_snap) change \<Rightarrow> bool" where
  "reads j s x r \<longleftrightarrow> fst r = Inr x \<and> snap_ok j (snd r) \<and> sp_tx (snd r) = sp_tx s"

lemma readsE:
  assumes "reads j s x r" and "snap_ok j s"
  obtains s' where "r = (Inr x, s')" "snap_ok j s'" "sp_tx s' = sp_tx s"
  using assms by (cases r) (auto simp: reads_def)

lemma ss_put_ok: "snap_ok j s \<Longrightarrow> row_of j (sp_tx s) (fs, ino) = Some p \<Longrightarrow> snap_ok j (ss_put fs ino p s) \<and> sp_tx (ss_put fs ino p s) = sp_tx s"
  by (simp add: snap_ok_def ss_put_def lru.true_to_put)

lemma ss_peek_reads:
  assumes "snap_ok j s"
  shows "reads j s (row_of j (sp_tx s) (fs, ino)) (ss_peek j fs ino s)"
proof -
  obtain x c where g: "lru_get (fs, ino) (sp_cache s) = (x, c)" by force
  have "lru.true_to (row_of j (sp_tx s)) (sp_cache s)" using assms by (simp add: snap_ok_def)
  note t = lru.true_to_get [OF this g]
  show ?thesis using assms t ss_read_row [of j "sp_tx s" fs ino]
    by (cases x) (auto simp: ss_peek_def g reads_def snap_ok_def)
qed

lemma ss_take_reads:
  assumes "snap_ok j s"
  shows "reads j s (row_of j (sp_tx s) (fs, ino)) (ss_take j fs ino s)"
proof -
  obtain x c where g: "lru_take (fs, ino) (sp_cache s) = (x, c)" by force
  have "lru.true_to (row_of j (sp_tx s)) (sp_cache s)" using assms by (simp add: snap_ok_def)
  note t = lru.true_to_take [OF this g]
  show ?thesis using assms t ss_read_row [of j "sp_tx s" fs ino]
    by (cases x) (auto simp: ss_take_def g reads_def snap_ok_def)
qed

lemma ss_get_reads:
  assumes "snap_ok j s"
  shows "reads j s (row_of j (sp_tx s) (fs, ino)) (ss_get j fs ino s)"
proof -
  obtain x c where g: "lru_get (fs, ino) (sp_cache s) = (x, c)" by force
  have "lru.true_to (row_of j (sp_tx s)) (sp_cache s)" using assms by (simp add: snap_ok_def)
  note t = lru.true_to_get [OF this g]
  have s': "snap_ok j (s\<lparr>sp_cache := c\<rparr>)" using assms t(1) by (simp add: snap_ok_def)
  then have "ss_read j (sp_tx s) fs ino = Inr (row_of j (sp_tx s) (fs, ino))" using ss_read_row by (auto simp: snap_ok_def)
  then show ?thesis using s' t(2) ss_put_ok [OF s']
    by (cases x; cases "row_of j (sp_tx s) (fs, ino)") (auto simp: ss_get_def g reads_def)
qed

lemma it_get_reads: "snap_ok j s \<Longrightarrow> reads j s (tab_view j t (sp_tx s) ino) (it_get j t ino s)"
  using ss_get_reads [of j s] by (auto simp: it_get_def tab_view_def reads_def split: option.split)

section \<open>Changing the table\<close>

lemma page_in_spec:
  assumes "snap_ok j s"
  shows "\<exists>t' s'. it_page_in j ino (t, s) = (Inr (tab_view j t (sp_tx s) ino \<noteq> None), (t', s')) \<and> snap_ok j s' \<and> sp_tx s' = sp_tx s
    \<and> (\<forall>k. bget (tr_map (it_map t')) k = (if k = ino then tab_view j t (sp_tx s) ino else bget (tr_map (it_map t)) k))
    \<and> tr_touched (it_map t') = tr_touched (it_map t) \<and> tr_replaced (it_map t') = tr_replaced (it_map t)
    \<and> it_len t' = it_len t \<and> it_paged t' = it_paged t \<and> (tab_view j t (sp_tx s) ino = None \<longrightarrow> t' = t)"
proof (cases "bget (tr_map (it_map t)) ino")
  case (Some p)
  then show ?thesis using assms by (auto simp: it_page_in_def tab_view_def)
next
  case None
  show ?thesis
  proof (cases "it_behind t ino")
    case b: None
    then show ?thesis using assms None by (auto simp: it_page_in_def tab_view_def)
  next
    case (Some fs)
    obtain s' where s': "ss_take j fs ino s = (Inr (row_of j (sp_tx s) (fs, ino)), s')" "snap_ok j s'" "sp_tx s' = sp_tx s"
      using readsE [OF ss_take_reads [OF assms] assms] .
    show ?thesis using None Some s' by (cases "row_of j (sp_tx s) (fs, ino)") (auto simp: it_page_in_def tab_view_def tr_insert_quietly_def)
  qed
qed

text \<open>The view of a table in which one number was dealt with.\<close>

lemma tab_view_touched:
  assumes "\<And>k. k \<noteq> ino \<Longrightarrow> bget (tr_map (it_map t')) k = bget (tr_map (it_map t)) k"
    and "\<And>k. k \<noteq> ino \<Longrightarrow> (k |\<in>| tr_touched (it_map t')) = (k |\<in>| tr_touched (it_map t))"
    and "ino |\<in>| tr_touched (it_map t')" and "it_paged t' = it_paged t"
  shows "tab_view j t' tx k = (if k = ino then bget (tr_map (it_map t')) ino else tab_view j t tx k)"
  using assms by (auto simp: tab_view_def it_behind_def split: option.split)

lemma tab_rep_view: "tab_rep j tx t T \<Longrightarrow> rel_option (pinode_rep (it_paged t) tx) (tab_view j t tx ino) (bget T ino)"
  by (simp add: tab_rep_def)

lemma tab_view_shape:
  assumes "tx_ok j tx" "tab_ok j tx t" "tab_view j t tx ino = Some p"
  shows "pinode_shape ino p"
    and "is_dir (pi_inode p) \<Longrightarrow> de_stored (pi_dents p) = (it_paged t \<noteq> None \<and> ino |\<notin>| tr_replaced (it_map t))"
proof -
  have "pinode_shape ino p \<and> (is_dir (pi_inode p) \<longrightarrow> de_stored (pi_dents p) = (it_paged t \<noteq> None \<and> ino |\<notin>| tr_replaced (it_map t)))"
  proof (cases "bget (tr_map (it_map t)) ino")
    case None
    then obtain fs where fs: "it_behind t ino = Some fs" "row_of j tx (fs, ino) = Some p"
      using assms(3) by (auto simp: tab_view_def split: option.splits)
    then have "ino |\<notin>| tr_replaced (it_map t)" "it_paged t = Some fs"
      using assms(2) by (auto simp: it_behind_def tab_ok_def split: if_splits)
    then show ?thesis using row_shape [OF assms(1) fs(2)] by (auto simp: dents_stored_def)
  next
    case (Some q)
    then show ?thesis using assms(2,3) by (simp add: tab_view_def tab_ok_def)
  qed
  then show "pinode_shape ino p"
    "is_dir (pi_inode p) \<Longrightarrow> de_stored (pi_dents p) = (it_paged t \<noteq> None \<and> ino |\<notin>| tr_replaced (it_map t))" by auto
qed

lemma row_unchanged:
  assumes "tab_ok j tx t" "tab_view j t tx ino = Some p" "it_paged t = Some fs" "ino |\<notin>| tr_replaced (it_map t)"
  shows "\<exists>q. row_of j tx (fs, ino) = Some q \<and> is_dir (pi_inode p) = is_dir (pi_inode q)"
proof (cases "ino |\<in>| tr_touched (it_map t)")
  case True
  then obtain p' q where "bget (tr_map (it_map t)) ino = Some p'" "row_of j tx (fs, ino) = Some q" "is_dir (pi_inode p') = is_dir (pi_inode q)"
    using assms(1,3,4) unfolding tab_ok_def by blast
  then show ?thesis using assms(2) by (simp add: tab_view_def)
next
  case False
  then have "bget (tr_map (it_map t)) ino = None" using assms(1,3) unfolding tab_ok_def by (metis option.distinct(1) option.exhaust)
  then show ?thesis using assms(2,3) False by (auto simp: tab_view_def it_behind_def)
qed

text \<open>An edit in place: the inode keeps being a directory or not, and the entries that are in the store
  stay there.\<close>

lemma tab_rep_get_mut:
  assumes "tab_rep j (sp_tx s) t T" "snap_ok j s" "tab_view j t (sp_tx s) ino = Some p"
    and "pinode_shape ino (g p)" "is_dir (pi_inode (g p)) = is_dir (pi_inode p)" "de_stored (pi_dents (g p)) = de_stored (pi_dents p)"
    and "pinode_rep (it_paged t) (sp_tx s) (g p) i"
  shows "\<exists>t' s'. it_get_mut j ino g (t, s) = (Inr True, (t', s')) \<and> snap_ok j s' \<and> sp_tx s' = sp_tx s
    \<and> it_paged t' = it_paged t \<and> tab_rep j (sp_tx s) t' (bput ino i T)"
proof -
  let ?tx = "sp_tx s"
  obtain t1 s1 where p1: "it_page_in j ino (t, s) = (Inr True, (t1, s1))" "snap_ok j s1" "sp_tx s1 = ?tx"
    "\<And>k. bget (tr_map (it_map t1)) k = (if k = ino then Some p else bget (tr_map (it_map t)) k)"
    "tr_touched (it_map t1) = tr_touched (it_map t)" "tr_replaced (it_map t1) = tr_replaced (it_map t)"
    "it_len t1 = it_len t" "it_paged t1 = it_paged t"
    using page_in_spec [OF assms(2), of ino t] assms(3) by auto
  define t2 where "t2 = t1\<lparr>it_map := tr_edit ino g (it_map t1)\<rparr>"
  have m: "bget (tr_map (it_map t2)) k = (if k = ino then Some (g p) else bget (tr_map (it_map t)) k)"
    "tr_touched (it_map t2) = finsert ino (tr_touched (it_map t))" "tr_replaced (it_map t2) = tr_replaced (it_map t)"
    "it_paged t2 = it_paged t" "it_len t2 = it_len t" for k
    using p1(4-8) by (simp_all add: t2_def tr_edit_def)
  have ok: "tab_ok j ?tx t" and tx: "tx_ok j ?tx" using assms(1,2) by (auto simp: tab_rep_def snap_ok_def)
  have st: "is_dir (pi_inode (g p)) \<longrightarrow> de_stored (pi_dents (g p)) = (it_paged t \<noteq> None \<and> ino |\<notin>| tr_replaced (it_map t))"
    using tab_view_shape(2) [OF tx ok assms(3)] assms(5,6) by simp
  have v: "tab_view j t2 ?tx k = (if k = ino then Some (g p) else tab_view j t ?tx k)" for k
    using tab_view_touched [of ino t2 t j ?tx k] m by auto
  have "tab_ok j ?tx t2"
    unfolding tab_ok_def m
  proof (intro conjI allI impI)
    show "tr_replaced (it_map t) |\<subseteq>| finsert ino (tr_touched (it_map t))" using ok by (auto simp: tab_ok_def)
    fix fs k assume a: "it_paged t = Some fs" "k |\<in>| finsert ino (tr_touched (it_map t))" "k |\<notin>| tr_replaced (it_map t)"
    show "\<exists>pa q. (if k = ino then Some (g p) else bget (tr_map (it_map t)) k) = Some pa \<and> row_of j ?tx (fs, k) = Some q
        \<and> is_dir (pi_inode pa) = is_dir (pi_inode q)"
      using a ok row_unchanged [OF ok assms(3) a(1)] assms(5) unfolding tab_ok_def by (cases "k = ino") auto
  qed (use ok assms(4) st in \<open>auto simp: tab_ok_def split: if_splits\<close>)
  moreover have "it_len t2 = bsize (bput ino i T)"
    using assms(1) tab_rep_view [OF assms(1), of ino] assms(3) by (auto simp: m tab_rep_def bsize_bput option_rel_Some1)
  moreover have "rel_option (pinode_rep (it_paged t2) ?tx) (tab_view j t2 ?tx k) (bget (bput ino i T) k)" for k
    using tab_rep_view [OF assms(1)] assms(7) by (simp add: v m)
  ultimately show ?thesis using p1(1-3) m(4) by (auto simp: it_get_mut_def tab_rep_def t2_def)
qed

lemma get_mut_absent:
  assumes "snap_ok j s" "tab_view j t (sp_tx s) ino = None"
  shows "\<exists>s'. it_get_mut j ino g (t, s) = (Inr False, (t, s')) \<and> snap_ok j s' \<and> sp_tx s' = sp_tx s"
  using page_in_spec [OF assms(1), of ino t] assms(2) by (auto simp: it_get_mut_def)

text \<open>A new inode, under a number that is not in use.\<close>

lemma tab_rep_insert:
  assumes "tab_rep j tx t T" "tab_view j t tx ino = None"
    and "pinode_shape ino p" "\<not> de_stored (pi_dents p)" "pinode_rep (it_paged t) tx p i"
  shows "tab_rep j tx (it_insert p t) (bput ino i T)"
proof -
  let ?t = "it_insert p t"
  have ino: "i_ino (pi_inode p) = ino" using assms(3) by (simp add: pinode_shape_def)
  have new: "bget (tr_map (it_map t)) ino = None" using assms(2) by (auto simp: tab_view_def split: option.splits)
  have m: "bget (tr_map (it_map ?t)) k = (if k = ino then Some p else bget (tr_map (it_map t)) k)"
    "tr_touched (it_map ?t) = finsert ino (tr_touched (it_map t))" "tr_replaced (it_map ?t) = finsert ino (tr_replaced (it_map t))"
    "it_paged ?t = it_paged t" "it_len ?t = it_len t + 1" for k
    using new by (simp_all add: it_insert_def tr_insert_def ino)
  have v: "tab_view j ?t tx k = (if k = ino then Some p else tab_view j t tx k)" for k
    using tab_view_touched [of ino ?t t j tx k] m by auto
  have "tab_ok j tx t" using assms(1) by (simp add: tab_rep_def)
  then have "tab_ok j tx ?t" using assms(3,4) unfolding tab_ok_def m by (auto split: if_splits)
  moreover have "it_len ?t = bsize (bput ino i T)"
    using assms(1) tab_rep_view [OF assms(1), of ino] assms(2) by (auto simp: m tab_rep_def bsize_bput)
  moreover have "rel_option (pinode_rep (it_paged ?t) tx) (tab_view j ?t tx k) (bget (bput ino i T) k)" for k
    using tab_rep_view [OF assms(1)] assms(5) by (simp add: v m)
  ultimately show ?thesis by (simp add: tab_rep_def)
qed

lemma tab_rep_remove:
  assumes "tab_rep j (sp_tx s) t T" "snap_ok j s"
  shows "\<exists>t' s'. it_remove j ino (t, s) = (Inr (tab_view j t (sp_tx s) ino), (t', s')) \<and> snap_ok j s' \<and> sp_tx s' = sp_tx s
    \<and> it_paged t' = it_paged t \<and> tab_rep j (sp_tx s) t' (bdel ino T)"
proof -
  let ?tx = "sp_tx s"
  obtain t1 s1 where p1: "it_page_in j ino (t, s) = (Inr (tab_view j t ?tx ino \<noteq> None), (t1, s1))" "snap_ok j s1" "sp_tx s1 = ?tx"
    "\<forall>k. bget (tr_map (it_map t1)) k = (if k = ino then tab_view j t ?tx ino else bget (tr_map (it_map t)) k)"
    "tr_touched (it_map t1) = tr_touched (it_map t)" "tr_replaced (it_map t1) = tr_replaced (it_map t)"
    "it_len t1 = it_len t" "it_paged t1 = it_paged t" "tab_view j t ?tx ino = None \<longrightarrow> t1 = t"
    using page_in_spec [OF assms(2), of ino t] by (elim exE conjE) (rule that)
  show ?thesis
  proof (cases "tab_view j t ?tx ino")
    case None
    then have "bdel ino T = T" using tab_rep_view [OF assms(1), of ino] by simp
    then show ?thesis using p1 None assms(1) by (auto simp: it_remove_def)
  next
    case (Some p)
    define t2 where "t2 = t1\<lparr>it_map := snd (tr_remove ino (it_map t1)), it_len := it_len t1 - 1\<rparr>"
    have m: "bget (tr_map (it_map t2)) k = (if k = ino then None else bget (tr_map (it_map t)) k)"
      "tr_touched (it_map t2) = finsert ino (tr_touched (it_map t))" "tr_replaced (it_map t2) = finsert ino (tr_replaced (it_map t))"
      "it_paged t2 = it_paged t" "it_len t2 = it_len t - 1" for k
      using p1(4-8) Some by (simp_all add: t2_def tr_remove_def)
    have r: "it_remove j ino (t, s) = (Inr (Some p), (t2, s1))"
      using p1(1,4) Some by (simp add: it_remove_def t2_def tr_remove_def)
    have v: "tab_view j t2 ?tx k = (if k = ino then None else tab_view j t ?tx k)" for k
      using tab_view_touched [of ino t2 t j ?tx k] m by auto
    have "tab_ok j ?tx t" using assms(1) by (simp add: tab_rep_def)
    then have "tab_ok j ?tx t2" unfolding tab_ok_def m by (auto split: if_splits)
    moreover have "it_len t2 = bsize (bdel ino T)"
      using assms(1) tab_rep_view [OF assms(1), of ino] Some by (auto simp: m tab_rep_def bsize_bdel option_rel_Some1)
    moreover have "rel_option (pinode_rep (it_paged t2) ?tx) (tab_view j t2 ?tx k) (bget (bdel ino T) k)" for k
      using tab_rep_view [OF assms(1)] by (simp add: v m)
    ultimately show ?thesis using p1(2,3) m(4) r Some by (auto simp: tab_rep_def)
  qed
qed

text \<open>Looking up and setting a directory entry.\<close>

lemma it_entry_view:
  assumes "tab_ok j tx t" "tx_ok j tx" "tab_view j t tx d = Some p" "is_dir (pi_inode p)"
  shows "it_entry t tx p name = Inr (dir_view (it_paged t) tx p name)"
  using assms tab_view_shape(2) [OF assms(2,1,3,4)]
  by (auto simp: it_entry_def dir_view_def de_known_def split: option.splits)

lemma inode_entry_rep:
  "pinode_rep paged tx p i \<Longrightarrow> inode_entry i name = (if is_dir (pi_inode p) then dir_view paged tx p name else None)"
  by (auto simp: pinode_rep_def inode_entry_def with_entries_kind is_dir_def is_dir_kind_def split: if_splits inode_kind.splits)

lemma dir_view_set:
  "dir_view paged tx (p\<lparr>pi_dents := de_set name x b (pi_dents p)\<rparr>) n = (if n = name then x else dir_view paged tx p n)"
  by (cases x) (auto simp: dir_view_def de_known_def de_set_def split: option.split)

lemma pinode_rep_set_entry:
  assumes "pinode_rep paged tx p i" "is_dir (pi_inode p)" "i_kind i = Dir par es"
  shows "pinode_rep paged tx (p\<lparr>pi_dents := de_set name x (bget es name \<noteq> None) (pi_dents p)\<rparr>) (i\<lparr>i_kind := Dir par (put_entry name x es)\<rparr>)"
proof -
  obtain es' where e: "i = with_entries es' (pi_inode p)" "\<And>n. bget es' n = dir_view paged tx p n" "de_len (pi_dents p) = bsize es'"
    using assms(1,2) by (auto simp: pinode_rep_def)
  then have es: "es' = es" "par = d_parent (i_kind (pi_inode p))" using assms(2,3) by (auto simp: with_entries_kind)
  have "i\<lparr>i_kind := Dir par (put_entry name x es)\<rparr> = with_entries (put_entry name x es) (pi_inode p)"
    using assms(2) unfolding e(1) es(2) by (auto simp: with_entries_def is_dir_def is_dir_kind_def split: inode_kind.splits)
  moreover have "bget (put_entry name x es) n = (if n = name then x else bget es n)" for n by (simp add: put_entry_def split: option.split)
  moreover have "de_len (de_set name x (bget es name \<noteq> None) (pi_dents p)) = bsize (put_entry name x es)"
    using e(3) es(1) by (auto simp: de_set_def put_entry_def bsize_bput bsize_bdel split: option.split)
  ultimately show ?thesis using assms(2) e(2) es(1) by (auto simp: pinode_rep_def dir_view_set)
qed

lemma de_set_stored [simp]: "de_stored (de_set name x b d) = de_stored d"
  by (simp add: de_set_def split: option.split)

lemma pinode_shape_set_entry:
  "pinode_shape ino p \<Longrightarrow> is_dir (pi_inode p) \<Longrightarrow> pinode_shape ino (p\<lparr>pi_dents := de_set name x b (pi_dents p)\<rparr>)"
  by (auto simp: pinode_shape_def de_set_def split: option.splits)

lemma tab_rep_set_entry:
  assumes "tab_rep j (sp_tx s) t T" "snap_ok j s"
  shows "\<exists>t' s'. it_set_entry j d name x (t, s) = (fst (itab_set_entry d name x T), (t', s')) \<and> snap_ok j s' \<and> sp_tx s' = sp_tx s
    \<and> it_paged t' = it_paged t \<and> tab_rep j (sp_tx s) t' (snd (itab_set_entry d name x T))"
proof -
  let ?tx = "sp_tx s"
  obtain s1 where g: "it_get j t d s = (Inr (tab_view j t ?tx d), s1)" "snap_ok j s1" "sp_tx s1 = ?tx"
    using readsE [OF it_get_reads [OF assms(2)] assms(2)] .
  have ok: "tab_ok j ?tx t" and tx: "tx_ok j ?tx" using assms by (auto simp: tab_rep_def snap_ok_def)
  show ?thesis
  proof (cases "tab_view j t ?tx d")
    case None
    then have "bget T d = None" using tab_rep_view [OF assms(1), of d] by simp
    then show ?thesis using g None assms(1) by (simp add: it_set_entry_def itab_set_entry_def)
  next
    case (Some p)
    then obtain i where i: "bget T d = Some i" "pinode_rep (it_paged t) ?tx p i"
      using tab_rep_view [OF assms(1), of d] by (auto simp: option_rel_Some1)
    have shape: "pinode_shape d p" by (rule tab_view_shape(1) [OF tx ok Some])
    show ?thesis
    proof (cases "is_dir (pi_inode p)")
      case True
      then obtain par es where k: "i_kind i = Dir par es"
        using pinode_rep_dir [OF i(2)] by (cases "i_kind i") (auto simp: is_dir_def is_dir_kind_def)
      have old: "it_entry t ?tx p name = Inr (bget es name)"
        using it_entry_view [OF ok tx Some True] inode_entry_rep [OF i(2), of name] True k by (simp add: inode_entry_def)
      define h :: "pinode \<Rightarrow> pinode" where "h = (\<lambda>p. if is_dir (pi_inode p) then p\<lparr>pi_dents := de_set name x (bget es name \<noteq> None) (pi_dents p)\<rparr> else p)"
      have "\<exists>t' s'. it_get_mut j d h (t, s1) = (Inr True, (t', s')) \<and> snap_ok j s' \<and> sp_tx s' = sp_tx s1
          \<and> it_paged t' = it_paged t \<and> tab_rep j (sp_tx s1) t' (bput d (i\<lparr>i_kind := Dir par (put_entry name x es)\<rparr>) T)"
        using True Some assms(1) g(2,3) pinode_shape_set_entry [OF shape True] pinode_rep_set_entry [OF i(2) True k]
        by (intro tab_rep_get_mut [where p = p]) (simp_all add: h_def)
      then show ?thesis using g Some old True i(1) k by (auto simp: it_set_entry_def itab_set_entry_def h_def)
    next
      case False
      then have nd: "\<And>par es. i_kind i \<noteq> Dir par es" using pinode_rep_dir [OF i(2)] by (auto simp: is_dir_def is_dir_kind_def)
      then have T: "itab_set_entry d name x T = (Inl NotDir, T)" using i(1) by (simp add: itab_set_entry_def split: inode_kind.split)
      define h :: "pinode \<Rightarrow> pinode" where "h = (\<lambda>p. if is_dir (pi_inode p) then p\<lparr>pi_dents := de_set name x (None \<noteq> (None :: nat option)) (pi_dents p)\<rparr> else p)"
      have "\<exists>t' s'. it_get_mut j d h (t, s1) = (Inr True, (t', s')) \<and> snap_ok j s' \<and> sp_tx s' = sp_tx s1
          \<and> it_paged t' = it_paged t \<and> tab_rep j (sp_tx s1) t' (bput d i T)"
        using False Some assms(1) g(2,3) shape i by (intro tab_rep_get_mut [where p = p]) (simp_all add: h_def)
      moreover have "it_entry t ?tx p name = Inr None" using False by (simp add: it_entry_def)
      ultimately show ?thesis using g Some False i(1) T by (auto simp: it_set_entry_def h_def)
    qed
  qed
qed

section \<open>Reading in order\<close>

abbreviation rising_keys :: "('k::linorder \<times> 'v) list \<Rightarrow> bool" where
  "rising_keys xs \<equiv> sorted_wrt (<) (map fst xs)"

lemma rising_keys_min: "rising_keys (x # xs) \<Longrightarrow> y \<in> set xs \<Longrightarrow> fst x < fst y"
  by simp

lemma rising_sub_cases:
  assumes "rising_keys (x # xs)" "rising_keys ys" "set ys \<subseteq> set (x # xs)"
  obtains "set ys \<subseteq> set xs" | zs where "ys = x # zs" "set zs \<subseteq> set xs" "rising_keys zs"
proof (cases "x \<in> set ys")
  case False
  then show ?thesis using assms(3) that(1) by auto
next
  case True
  then obtain y zs where ys: "ys = y # zs" by (cases ys) auto
  have "y = x"
  proof (rule ccontr)
    assume n: "y \<noteq> x"
    then have "fst x < fst y" using assms(1,3) ys by auto
    moreover have "x \<in> set zs" using True n ys by auto
    then have "fst y < fst x" using assms(2) ys by auto
    ultimately show False by simp
  qed
  moreover have "x \<notin> set zs" using assms(2) ys \<open>y = x\<close> by auto
  ultimately show ?thesis using that(2) [of zs] assms(2,3) ys by auto
qed

lemma take_of_part:
  assumes "rising_keys xs" "rising_keys ys" "set ys \<subseteq> set xs"
  shows "set (take n xs) \<inter> set ys \<subseteq> set (take n ys)"
  using assms
proof (induction xs arbitrary: ys n)
  case (Cons x xs)
  show ?case
  proof (cases n)
    case (Suc m)
    from Cons.prems show ?thesis
    proof (cases rule: rising_sub_cases)
      case 1
      have "x \<notin> set ys" using Cons.prems(1) 1 by auto
      moreover have "set (take m xs) \<inter> set ys \<subseteq> set (take m ys)" using Cons.IH [of ys m] Cons.prems 1 by auto
      moreover have "set (take m ys) \<subseteq> set (take n ys)" using Suc by (simp add: set_take_subset_set_take)
      ultimately show ?thesis using Suc by auto
    next
      case (2 zs)
      then show ?thesis using Cons.IH [of zs m] Cons.prems Suc by auto
    qed
  qed simp
qed simp

lemma take_of_merge:
  assumes "rising_keys xs" "rising_keys ys" "set ys \<subseteq> set xs" "set (take n xs) \<subseteq> set ys"
  shows "take n ys = take n xs"
  using assms
proof (induction xs arbitrary: ys n)
  case (Cons x xs)
  show ?case
  proof (cases n)
    case (Suc m)
    from Cons.prems(1-3) show ?thesis
    proof (cases rule: rising_sub_cases)
      case 1
      then have "x \<in> set xs" using Cons.prems(4) Suc by auto
      then show ?thesis using Cons.prems(1) by auto
    next
      case (2 zs)
      have "x \<notin> set (take m xs)" using Cons.prems(1) by (auto dest: in_set_takeD)
      then show ?thesis using Cons.IH [of zs m] Cons.prems Suc 2 by auto
    qed
  qed simp
qed simp

text \<open>The first \<open>limit\<close> of two disjoint parts merged are among the first \<open>limit\<close> of each.\<close>

lemma at_most_merge:
  assumes "rising_keys xs" "rising_keys as" "rising_keys bs" "set xs = set as \<union> set bs" "fst ` set as \<inter> fst ` set bs = {}"
  shows "at_most limit (bitems (bextend (bextend bempty (at_most limit as)) (at_most limit bs))) = at_most limit xs"
proof -
  let ?a = "at_most limit as" and ?b = "at_most limit bs"
  have u: "rising_keys (at_most limit ys)" if "rising_keys ys" for ys :: "('a \<times> 'b) list"
    using that by (simp add: at_most_def sorted_wrt_take flip: take_map split: option.split)
  have sub: "set (at_most limit ys) \<subseteq> set ys" for ys :: "('a \<times> 'b) list" by (auto simp: at_most_def dest: in_set_takeD split: option.split)
  let ?m = "bitems (bextend (bextend bempty ?a) ?b)"
  have d: "distinct (map fst ?a)" "distinct (map fst ?b)" using u assms(2,3) by (meson strict_sorted_iff)+
  have "bget (bextend (bextend bempty ?a) ?b) k = Some v \<longleftrightarrow> (k, v) \<in> set ?a \<union> set ?b" for k v
  proof -
    have "map_of ?b k = None" if "(k, v) \<in> set ?a" using that sub assms(5) by (force simp: map_of_eq_None_iff)
    moreover have "bget (bextend (bextend bempty ?a) ?b) k = (case map_of ?b k of None \<Rightarrow> map_of ?a k | Some v \<Rightarrow> Some v)"
      by (simp add: bget_bextend_sorted [OF u [OF assms(2)]] bget_bextend_sorted [OF u [OF assms(3)]] split: option.split)
    ultimately show ?thesis
      using map_of_eq_Some_iff [OF d(1), of k v] map_of_eq_Some_iff [OF d(2), of k v] by (cases "map_of ?b k") auto
  qed
  then have m: "set ?m = set ?a \<union> set ?b" by (auto simp: bget_Some_iff)
  show ?thesis
  proof (cases limit)
    case None
    then have "set ?m = set xs" using m assms(4) by (simp add: at_most_def)
    then have "take (length xs + length ?m) ?m = take (length xs + length ?m) xs"
      using assms(1) by (intro take_of_merge sorted_bitems) simp_all
    then have "?m = xs" by simp
    then show ?thesis by simp
  next
    case (Some n)
    have m': "set ?m = set (take n as) \<union> set (take n bs)" by (simp only: m) (simp add: Some at_most_def)
    have "set (take n xs) \<subseteq> set ?m"
      using take_of_part [OF assms(1,2), of n] take_of_part [OF assms(1,3), of n] assms(4) set_take_subset [of n xs]
      unfolding m' by auto
    moreover have "set ?m \<subseteq> set xs" using m sub assms(4) by auto
    ultimately show ?thesis using take_of_merge [OF assms(1) sorted_bitems] by (simp add: Some at_most_def)
  qed
qed

lemma filter_bitems_sorted: "rising_keys (filter P (bitems m))"
  by (simp add: sorted_filter_keys sorted_bitems)

lemma it_entries_spec:
  assumes "tab_rep j tx t T" "tx_ok j tx" "tab_view j t tx d = Some p" "bget T d = Some i" "i_kind i = Dir par es"
  shows "it_entries t tx p after limit = Inr (at_most limit (filter (\<lambda>(n, _). after_ok after n) (bitems es)))"
proof -
  let ?e = "pi_dents p" and ?as = "filter (\<lambda>(n, _). after_ok after n) (bitems (de_map (pi_dents p)))"
  have ok: "tab_ok j tx t" using assms(1) by (simp add: tab_rep_def)
  have rep: "pinode_rep (it_paged t) tx p i" using tab_rep_view [OF assms(1), of d] assms(3,4) by simp
  have dir: "is_dir (pi_inode p)" using pinode_rep_dir [OF rep] assms(5) by (simp add: is_dir_def is_dir_kind_def)
  have es: "bget es n = dir_view (it_paged t) tx p n" for n
    using inode_entry_rep [OF rep, of n] dir assms(5) by (simp add: inode_entry_def)
  note shape = tab_view_shape [OF assms(2) ok assms(3)]
  have ino: "i_ino (pi_inode p) = d" using shape(1) by (simp add: pinode_shape_def)
  have a: "(\<lambda>(n, _). case after of None \<Rightarrow> True | Some a \<Rightarrow> a < n) = (\<lambda>(n, _). after_ok after n)" by (simp add: after_ok_def)
  show ?thesis
  proof (cases "de_stored ?e")
    case False
    then have "es = de_map ?e" using es by (intro btree_eqI) (auto simp: dir_view_def de_known_def split: option.split)
    then show ?thesis using False dir
      by (cases limit) (simp_all add: it_entries_def a at_most_def bitems_of_sorted filter_bitems_sorted sorted_wrt_take flip: take_map)
  next
    case True
    then obtain fs where fs: "it_paged t = Some fs" using shape(2) dir by auto
    let ?bs = "ss_entries tx fs d after None (\<lambda>n. n |\<in>| de_changed ?e)"
    have ch: "n |\<in>| de_changed ?e" if "bget (de_map ?e) n \<noteq> None" for n
      using shape(1) that dir True by (simp add: pinode_shape_def)
    have b: "ss_entries tx fs d after limit (\<lambda>n. n |\<in>| de_changed ?e) = at_most limit ?bs" by (simp add: ss_entries_alt at_most_def)
    have v: "bget es n = (case bget (de_map ?e) n of Some x \<Rightarrow> Some x
        | None \<Rightarrow> if n |\<in>| de_changed ?e then None else bget (t_dirents tx) (fs, d, n))" for n
      using True fs ino by (simp add: es dir_view_def de_known_def ss_entry_def split: option.split)
    have "set (filter (\<lambda>(n, _). after_ok after n) (bitems es)) = set ?as \<union> set ?bs"
      using ch by (auto simp: set_ss_entries v simp flip: bget_Some_iff split: option.splits if_splits)
    moreover have "fst ` set ?as \<inter> fst ` set ?bs = {}"
      using ch by (auto simp: set_ss_entries simp flip: bget_Some_iff)
    ultimately have "at_most limit (bitems (bextend (bextend bempty (at_most limit ?as)) (at_most limit ?bs)))
        = at_most limit (filter (\<lambda>(n, _). after_ok after n) (bitems es))"
      by (intro at_most_merge filter_bitems_sorted sorted_ss_entries)
    then show ?thesis using dir True fs by (simp add: it_entries_def a b ino)
  qed
qed

lemma it_full_spec:
  assumes "tab_rep j tx t T" "tx_ok j tx" "tab_view j t tx d = Some p" "bget T d = Some i"
  shows "\<exists>q. it_full t tx p = Inr q \<and> whole_inode q = i"
proof (cases "is_dir (pi_inode p)")
  case True
  have rep: "pinode_rep (it_paged t) tx p i" using tab_rep_view [OF assms(1), of d] assms(3,4) by simp
  then obtain es where es: "i = with_entries es (pi_inode p)" "\<forall>n. bget es n = dir_view (it_paged t) tx p n"
    using True by (auto simp: pinode_rep_def)
  show ?thesis
  proof (cases "de_stored (pi_dents p)")
    case st: True
    have "it_entries t tx p None None = Inr (bitems es)"
      using it_entries_spec [OF assms, of _ es None None] es(1) True by (simp add: with_entries_kind after_ok_def at_most_def)
    moreover have "bextend bempty (bitems es) = es"
      using bitems_of_sorted [OF sorted_bitems [of es]] by (simp add: bitems_inject)
    ultimately show ?thesis using True st es(1) by (simp add: it_full_def whole_inode_def dents_of_def)
  next
    case False
    then have "es = de_map (pi_dents p)" using es(2) by (intro btree_eqI) (auto simp: dir_view_def de_known_def split: option.split)
    then show ?thesis using False es(1) by (simp add: it_full_def whole_inode_def)
  qed
next
  case False
  have "pinode_rep (it_paged t) tx p i" using tab_rep_view [OF assms(1), of d] assms(3,4) by simp
  then show ?thesis using False by (simp add: it_full_def whole_inode_def pinode_rep_def)
qed

lemma it_full_all_spec:
  assumes "tab_rep j tx t T" "tx_ok j tx" "\<forall>k \<in> set ks. bget T k \<noteq> None"
  shows "\<exists>qs. it_full_all t tx (map (\<lambda>k. the (tab_view j t tx k)) ks) = Inr qs \<and> map whole_inode qs = map (\<lambda>k. the (bget T k)) ks"
  using assms(3)
proof (induction ks)
  case (Cons k ks)
  then obtain i where i: "bget T k = Some i" by auto
  then obtain p where p: "tab_view j t tx k = Some p"
    using tab_rep_view [OF assms(1), of k] by (auto simp: option_rel_Some2)
  from it_full_spec [OF assms(1,2) p i] Cons show ?case by (force simp: p i)
qed simp

definition peeked :: "inode_row json \<Rightarrow> itables \<Rightarrow> string \<Rightarrow> nat list \<Rightarrow> (nat, pinode) btree \<Rightarrow> (nat, pinode) btree" where
  "peeked j tx fs inos out = fold (\<lambda>k m. case row_of j tx (fs, k) of None \<Rightarrow> m | Some p \<Rightarrow> bput k p m) inos out"

lemma peek_all_reads: "snap_ok j s \<Longrightarrow> reads j s (peeked j (sp_tx s) fs inos out) (it_peek_all j fs inos out s)"
proof (induction inos arbitrary: s out)
  case (Cons k inos)
  obtain s1 where s1: "ss_peek j fs k s = (Inr (row_of j (sp_tx s) (fs, k)), s1)" "snap_ok j s1" "sp_tx s1 = sp_tx s"
    using readsE [OF ss_peek_reads [OF Cons.prems] Cons.prems] .
  show ?case using Cons.IH [OF s1(2)] s1 by (simp add: reads_def peeked_def cong: option.case_cong)
qed (simp add: reads_def peeked_def)

lemma bget_peeked: "bget (peeked j tx fs inos out) k = (if k \<in> set inos \<and> row_of j tx (fs, k) \<noteq> None then row_of j tx (fs, k) else bget out k)"
  unfolding peeked_def by (induction inos arbitrary: out) (auto split: option.split)

lemma peeked_rows:
  "(\<forall>k \<in> set inos. row_of j tx (fs, k) \<noteq> None) \<Longrightarrow> peeked j tx fs inos out = bextend out (map (\<lambda>k. (k, the (row_of j tx (fs, k)))) inos)"
  unfolding peeked_def by (induction inos arbitrary: out) auto

lemma ss_inos_from_alt:
  "ss_inos_from tx fs from limit skip = at_most limit (map (\<lambda>((_, i), _). i)
     (filter (\<lambda>((f, i), _). f = fs \<and> from \<le> i \<and> i \<le> u64_max \<and> \<not> skip i) (bitems (t_inodes tx))))"
  unfolding ss_inos_from_def filter_map filter_filter
  by (intro arg_cong [of _ _ "at_most limit"] arg_cong [of _ _ "map _"] filter_cong) (auto simp: inode_range_iff)

lemma set_ss_inos_from:
  "set (ss_inos_from tx fs from None skip) = {i. bget (t_inodes tx) (fs, i) \<noteq> None \<and> from \<le> i \<and> i \<le> u64_max \<and> \<not> skip i}"
proof -
  have "bget (t_inodes tx) k \<noteq> None \<longleftrightarrow> (\<exists>v. (k, v) \<in> set (bitems (t_inodes tx)))" for k by (simp flip: bget_Some_iff)
  then show ?thesis by (force simp: ss_inos_from_alt at_most_def image_iff)
qed

lemma sorted_ss_inos_from: "sorted_wrt (<) (ss_inos_from tx fs from None skip)"
proof -
  have "sorted_wrt (<) (map (\<lambda>((_, i), _). i) (filter (\<lambda>((f, i), _). f = fs \<and> Q i) xs))"
    if "rising_keys xs" for Q and xs :: "((string \<times> nat) \<times> byte list) list"
    using that by (induction xs) (auto simp: less_prod_def)
  from this [OF sorted_bitems] show ?thesis by (simp add: ss_inos_from_alt at_most_def)
qed

lemma row_of_None: "tx_ok j tx \<Longrightarrow> row_of j tx (fs, k) = None \<longleftrightarrow> bget (t_inodes tx) (fs, k) = None"
  using ss_read_None [of j tx fs k] ss_read_row [of j tx fs k] by auto

lemma set_stored_inos:
  assumes "tx_ok j tx"
  shows "set (ss_inos_from tx fs from None skip) = {i. row_of j tx (fs, i) \<noteq> None \<and> from \<le> i \<and> \<not> skip i}"
proof -
  have "i \<le> u64_max" if "row_of j tx (fs, i) \<noteq> None" for i
    using that row_shape [OF assms] by (fastforce simp: pinode_shape_def)
  then show ?thesis unfolding set_ss_inos_from row_of_None [OF assms, symmetric] by blast
qed

text \<open>Numbers in order, with what the table has for them.\<close>

definition views :: "inode_row json \<Rightarrow> inode_tab \<Rightarrow> itables \<Rightarrow> nat list \<Rightarrow> pinode list" where
  "views j t tx ks = map (\<lambda>k. the (tab_view j t tx k)) ks"

lemma bvals_by_keys: "bvals m = map (\<lambda>k. the (bget m k)) (bkeys m)"
  unfolding bvals_def bkeys_def map_map
  by (rule map_cong [OF refl]) (metis bget_Some_iff comp_apply option.sel prod.collapse)

lemma bkeys_eq: "(\<And>k. bget m k = None \<longleftrightarrow> bget m' k = None) \<Longrightarrow> bkeys m = bkeys m'"
  using sorted_bitems [of m] sorted_bitems [of m'] set_bkeys [of m] set_bkeys [of m']
  unfolding bkeys_def strict_sorted_iff by (intro sorted_distinct_set_unique) auto

lemma bvals_views:
  assumes "tab_rep j tx t T" "\<And>k. bget V k = tab_view j t tx k"
  shows "bvals V = views j t tx (bkeys T)"
proof -
  have "bkeys V = bkeys T" using tab_rep_view [OF assms(1)] assms(2) by (intro bkeys_eq) (metis option.rel_distinct option.exhaust)
  then show ?thesis by (simp add: bvals_by_keys views_def assms(2))
qed

lemma it_scan_spec:
  assumes "tab_rep j (sp_tx s) t T" "snap_ok j s"
  shows "reads j s (views j t (sp_tx s) (bkeys T)) (it_scan j t s)"
proof (cases "it_paged t")
  case None
  then have "bget (tr_map (it_map t)) k = tab_view j t (sp_tx s) k" for k by (simp add: tab_view_def it_behind_def split: option.split)
  from bvals_views [OF assms(1) this] show ?thesis using None assms(2) by (simp add: it_scan_def reads_def)
next
  case (Some fs)
  let ?tx = "sp_tx s" and ?is = "filter (\<lambda>i. i |\<notin>| tr_touched (it_map t)) (ss_inos (sp_tx s) fs)"
  have tx: "tx_ok j ?tx" using assms(2) by (simp add: snap_ok_def)
  obtain s' where s': "it_peek_all j fs ?is bempty s = (Inr (peeked j ?tx fs ?is bempty), s')" "snap_ok j s'" "sp_tx s' = ?tx"
    using readsE [OF peek_all_reads [OF assms(2)] assms(2)] .
  let ?V = "bextend (peeked j ?tx fs ?is bempty) (bitems (tr_map (it_map t)))"
  have "bget ?V k = tab_view j t ?tx k" for k
    by (auto simp: bget_bextend_sorted [OF sorted_bitems] bget_peeked tab_view_def it_behind_def Some ss_inos_def
        set_stored_inos [OF tx] simp flip: bget_def split: option.splits)
  from bvals_views [OF assms(1) this] show ?thesis using Some s' by (simp add: it_scan_def reads_def)
qed

lemma views_full:
  assumes "tab_rep j tx t T" "tx_ok j tx" "set ks \<subseteq> set (bkeys T)"
  shows "\<exists>qs. it_full_all t tx (views j t tx ks) = Inr qs \<and> map whole_inode qs = map (\<lambda>k. the (bget T k)) ks"
  unfolding views_def using assms(3) set_bkeys [of T] by (intro it_full_all_spec [OF assms(1,2)]) auto

lemma it_scan_full_spec:
  assumes "tab_rep j (sp_tx s) t T" "snap_ok j s"
  shows "\<exists>qs. reads j s qs (it_scan_full j t s) \<and> map whole_inode qs = bvals T"
proof -
  obtain s' where s': "it_scan j t s = (Inr (views j t (sp_tx s) (bkeys T)), s')" "snap_ok j s'" "sp_tx s' = sp_tx s"
    using readsE [OF it_scan_spec [OF assms] assms(2)] .
  obtain qs where "it_full_all t (sp_tx s) (views j t (sp_tx s) (bkeys T)) = Inr qs" "map whole_inode qs = bvals T"
    using views_full [OF assms(1), of "bkeys T"] assms(2) by (auto simp: snap_ok_def bvals_by_keys)
  then show ?thesis using s' by (auto simp: it_scan_full_def reads_def)
qed

lemma take_bvals: "take n (bvals m) = map snd (take n (bitems m))"
  by (simp add: bvals_def take_map)

lemma it_page_spec:
  assumes "tab_rep j (sp_tx s) t T" "snap_ok j s"
  shows "reads j s (views j t (sp_tx s) (take limit (filter (\<lambda>i. from \<le> i) (bkeys T)))) (it_page j t from limit s)"
proof -
  let ?tx = "sp_tx s" and ?as = "filter (\<lambda>(i, _). from \<le> i) (bitems (tr_map (it_map t)))"
  have tx: "tx_ok j ?tx" and ok: "tab_ok j ?tx t" using assms by (auto simp: snap_ok_def tab_rep_def)
  let ?xs = "map (\<lambda>k. (k, the (tab_view j t ?tx k))) (filter (\<lambda>i. from \<le> i) (bkeys T))"
  have "rising_keys ?xs"
    using sorted_bitems [of T] by (simp add: comp_def sorted_wrt_filter flip: bkeys_def)
  moreover have xs: "set ?xs = {(k, p). tab_view j t ?tx k = Some p \<and> from \<le> k}"
  proof -
    have "k \<in> set (bkeys T) \<longleftrightarrow> tab_view j t ?tx k \<noteq> None" for k
      using tab_rep_view [OF assms(1), of k] by (auto simp: set_bkeys elim: option.rel_cases)
    then show ?thesis by force
  qed
  have v: "map snd (take limit ?xs) = views j t ?tx (take limit (filter (\<lambda>i. from \<le> i) (bkeys T)))"
    by (simp add: views_def take_map comp_def)
  show ?thesis
  proof (cases "it_paged t")
    case None
    then have "tab_view j t ?tx k = bget (tr_map (it_map t)) k" for k by (simp add: tab_view_def it_behind_def split: option.split)
    then have "set ?xs = set ?as \<union> set []" unfolding xs by (auto simp flip: bget_Some_iff)
    from at_most_merge [OF \<open>rising_keys ?xs\<close> filter_bitems_sorted _ this, of "Some limit"]
    have "take limit (bitems (bextend bempty (take limit ?as))) = take limit ?xs" by (simp add: at_most_def)
    then show ?thesis using None assms(2) v by (simp add: it_page_def reads_def take_bvals)
  next
    case (Some fs)
    let ?is = "ss_inos_from ?tx fs from None (\<lambda>i. i |\<in>| tr_touched (it_map t))"
    let ?bs = "map (\<lambda>k. (k, the (row_of j ?tx (fs, k)))) ?is"
    have is_eq: "ss_inos_from ?tx fs from (Some limit) (\<lambda>i. i |\<in>| tr_touched (it_map t)) = take limit ?is"
      by (simp add: ss_inos_from_alt at_most_def)
    have rows: "\<forall>k \<in> set (take limit ?is). row_of j ?tx (fs, k) \<noteq> None"
      using set_stored_inos [OF tx] by (blast dest: in_set_takeD)
    have mem: "k |\<in>| tr_touched (it_map t)" if "bget (tr_map (it_map t)) k = Some p" for k p
      using that ok Some by (simp add: tab_ok_def)
    have "set ?xs = set ?as \<union> set ?bs" unfolding xs using mem
      by (fastforce simp: set_stored_inos [OF tx] tab_view_def it_behind_def Some simp flip: bget_Some_iff split: option.splits if_splits)
    moreover have "fst ` set ?as \<inter> fst ` set ?bs = {}" using mem by (auto simp: set_stored_inos [OF tx] simp flip: bget_Some_iff)
    moreover have "rising_keys ?bs" using sorted_ss_inos_from by (simp add: comp_def)
    ultimately have "take limit (bitems (bextend (bextend bempty (take limit ?as)) (take limit ?bs))) = take limit ?xs"
      using at_most_merge [OF \<open>rising_keys ?xs\<close> filter_bitems_sorted, of ?bs _ _ "Some limit"] by (simp add: at_most_def)
    moreover have "peeked j ?tx fs (take limit ?is) (bextend bempty (take limit ?as)) = bextend (bextend bempty (take limit ?as)) (take limit ?bs)"
      using peeked_rows [OF rows] by (simp add: take_map)
    ultimately have e: "take limit (bvals (peeked j ?tx fs (take limit ?is) (bextend bempty (take limit ?as)))) = map snd (take limit ?xs)"
      by (simp add: take_bvals)
    obtain s' where "it_peek_all j fs (take limit ?is) (bextend bempty (take limit ?as)) s
        = (Inr (peeked j ?tx fs (take limit ?is) (bextend bempty (take limit ?as))), s')" "snap_ok j s'" "sp_tx s' = ?tx"
      using readsE [OF peek_all_reads [OF assms(2)] assms(2)] .
    then show ?thesis using Some e v by (simp add: it_page_def is_eq reads_def)
  qed
qed

lemma it_page_full_spec:
  assumes "tab_rep j (sp_tx s) t T" "snap_ok j s"
  shows "\<exists>qs. reads j s qs (it_page_full j t from limit s)
    \<and> map whole_inode qs = take limit (map snd (filter (\<lambda>(i, _). from \<le> i) (bitems T)))"
proof -
  let ?ks = "take limit (filter (\<lambda>i. from \<le> i) (bkeys T))"
  obtain s' where s': "it_page j t from limit s = (Inr (views j t (sp_tx s) ?ks), s')" "snap_ok j s'" "sp_tx s' = sp_tx s"
    using readsE [OF it_page_spec [OF assms] assms(2)] .
  obtain qs where qs: "it_full_all t (sp_tx s) (views j t (sp_tx s) ?ks) = Inr qs" "map whole_inode qs = map (\<lambda>k. the (bget T k)) ?ks"
    using views_full [OF assms(1) _ subset_trans [OF set_take_subset filter_is_subset]] assms(2) by (auto simp: snap_ok_def)
  have "map (\<lambda>k. the (bget T k)) (filter (\<lambda>i. from \<le> i) (bkeys T)) = map snd (filter (\<lambda>(i, _). from \<le> i) (bitems T))"
    unfolding bkeys_def filter_map map_map
    by (rule map_cong) (auto simp: comp_def case_prod_unfold simp flip: bget_Some_iff)
  then show ?thesis using qs s' by (auto simp: it_page_full_def reads_def simp flip: take_map)
qed

section \<open>Tables in memory and on the store\<close>

text \<open>A table built from inodes has all of them in memory.\<close>

lemma pinode_of_simps [simp]: "is_dir (pi_inode (pinode_of i)) = is_dir i" "i_ino (pi_inode (pinode_of i)) = i_ino i"
  "\<not> de_stored (pi_dents (pinode_of i))"
  by (auto simp: pinode_of_def is_dir_def is_dir_kind_def with_entries_def dents_of_def no_dents_def split: inode_kind.split)

lemma pinode_of_rep: "pinode_rep paged tx (pinode_of i) i"
  by (auto simp: pinode_rep_def pinode_of_def is_dir_def is_dir_kind_def with_entries_def dents_of_def dir_view_def de_known_def
      split: inode_kind.splits option.splits intro!: exI [of _ "d_entries (i_kind i)"])

lemma pinode_of_shape: "i_ino i = k \<Longrightarrow> k < u64_max \<Longrightarrow> pinode_shape k (pinode_of i)"
  by (auto simp: pinode_shape_def pinode_of_def is_dir_def is_dir_kind_def with_entries_def dents_of_def split: inode_kind.splits)

definition numbered :: "inode_table \<Rightarrow> bool" where
  "numbered T \<longleftrightarrow> (\<forall>k i. bget T k = Some i \<longrightarrow> i_ino i = k \<and> k < u64_max)"

lemma it_of_map:
  assumes "numbered T"
  shows "tr_map (it_map (it_of (bvals T))) = bmap (\<lambda>_. pinode_of) T"
proof (rule btree_eqI)
  fix k
  have e: "map (\<lambda>i. (i_ino i, pinode_of i)) (bvals T) = map (\<lambda>(k, i). (k, pinode_of i)) (bitems T)"
    unfolding bvals_def map_map using assms
    by (intro map_cong refl) (auto simp: numbered_def simp flip: bget_Some_iff)
  have "rising_keys (map (\<lambda>(k, i). (k, pinode_of i)) (bitems T))" using sorted_bitems [of T] by (simp add: comp_def case_prod_beta)
  then show "bget (tr_map (it_map (it_of (bvals T)))) k = bget (bmap (\<lambda>_. pinode_of) T) k"
    by (simp add: it_of_def e Let_def bget_bextend_sorted bget_def [of T] map_of_map split: option.split)
qed

lemma it_of_rep:
  assumes "numbered T"
  shows "tab_rep j tx (it_of (bvals T)) T" "it_paged (it_of (bvals T)) = None"
proof -
  let ?t = "it_of (bvals T)"
  have m: "bget (tr_map (it_map ?t)) k = map_option pinode_of (bget T k)" for k by (simp add: it_of_map [OF assms])
  have p: "it_paged ?t = None" "tr_replaced (it_map ?t) = {||}" by (simp_all add: it_of_def Let_def tr_of_def)
  have "it_len ?t = bsize (tr_map (it_map ?t))" by (simp add: it_of_def Let_def)
  also have "\<dots> = bsize T" by (simp add: it_of_map [OF assms] bsize_def bitems_bmap)
  finally have l: "it_len ?t = bsize T" .
  have "tab_ok j tx ?t" using assms by (auto simp: tab_ok_def m p numbered_def pinode_of_shape)
  moreover have "tab_view j ?t tx k = map_option pinode_of (bget T k)" for k
    by (simp add: tab_view_def m it_behind_def p split: option.split)
  ultimately show "tab_rep j tx ?t T" by (simp add: tab_rep_def l option.rel_map pinode_of_rep option.rel_refl)
  show "it_paged ?t = None" by (rule p)
qed

lemma tab_rep_numbered:
  assumes "tab_rep j tx t T" "tx_ok j tx"
  shows "numbered T"
  unfolding numbered_def
proof (intro allI impI)
  fix k i assume "bget T k = Some i"
  then obtain p where p: "tab_view j t tx k = Some p" "pinode_rep (it_paged t) tx p i"
    using tab_rep_view [OF assms(1), of k] by (auto simp: option_rel_Some2)
  then show "i_ino i = k \<and> k < u64_max"
    using tab_view_shape(1) [OF assms(2) _ p(1)] assms(1) pinode_rep_ino [OF p(2)] by (auto simp: tab_rep_def pinode_shape_def)
qed

lemma it_detached_spec:
  assumes "tab_rep j (sp_tx s) t T" "snap_ok j s"
  shows "reads j s (it_of (bvals T)) (it_detached j t s)"
proof -
  obtain qs where qs: "reads j s qs (it_scan_full j t s)" "map whole_inode qs = bvals T" using it_scan_full_spec [OF assms] by blast
  obtain s' where "it_scan_full j t s = (Inr qs, s')" "snap_ok j s'" "sp_tx s' = sp_tx s" using readsE [OF qs(1) assms(2)] .
  then show ?thesis using qs(2) by (simp add: it_detached_def reads_def)
qed

end
