(* ===== verification/CatalogStore.thy ===== *)
theory CatalogStore
  imports PagedInodes
begin

text \<open>
  The catalog on disk (\<open>crates/atlas-native/src/store.rs\<close>): a checkpoint writes the rows of the keys
  that changed since the last one, in one transaction, and then pages the inode tables on what it
  wrote. The theory shows that the rows are those a full rewrite would write and that loading
  them gives the catalog back.

  The database is its tables; a transaction that is not committed leaves no trace. Texts of rows come
  from codecs that are parameters. The snapshot that the catalog's tables read is the one the
  store handed out last.
\<close>

section \<open>The catalog in memory\<close>

record cat_state =
  st_applied_index :: nat
  st_current_term :: nat
  st_free :: free_list
  st_membership :: "membership option"
  st_raft_addrs :: "(string, string) btree"
  st_leases :: leases

record fs_head =
  fh_id :: string
  fh_name :: string
  fh_next_ino :: nat
  fh_source_snapshot :: "string option"
  fh_extent_bytes :: "nat option"
  fh_usage :: "fs_usage option"
  fh_quota :: "fs_quota option"
  fh_replica :: "replica_state option"

record fs_header =
  hd_head :: fs_head
  hd_inodes :: "nat option"

record pfs =
  pf_head :: fs_head
  pf_inodes :: inode_tab

record pcatalog =
  pc_state :: cat_state
  pc_volumes :: "(string, volume_meta) tracked"
  pc_snapshots :: "(string, snapshot_meta) tracked"
  pc_extents :: "(string, extent_meta) tracked"
  pc_fs_snapshots :: "(string, fs_snapshot_meta) tracked"
  pc_filesystems :: "(string, pfs) tracked"
  pc_in_store :: bool

section \<open>The database\<close>

record db =
  db_state :: "(string, byte list) btree"
  db_volumes :: "(string, byte list) btree"
  db_snapshots :: "(string, byte list) btree"
  db_extents :: "(string, byte list) btree"
  db_filesystems :: "(string, byte list) btree"
  db_fs_snapshots :: "(string, byte list) btree"
  db_tree :: itables

definition empty_db :: db where
  "empty_db = \<lparr>db_state = bempty, db_volumes = bempty, db_snapshots = bempty, db_extents = bempty,
     db_filesystems = bempty, db_fs_snapshots = bempty, db_tree = \<lparr>t_inodes = bempty, t_dirents = bempty\<rparr>\<rparr>"

record codecs =
  cj_state :: "cat_state json"
  cj_volume :: "volume_meta json"
  cj_snapshot :: "snapshot_meta json"
  cj_extent :: "extent_meta json"
  cj_fs_snapshot :: "fs_snapshot_meta json"
  cj_header :: "fs_header json"
  cj_inode :: "inode_row json"

definition codecs_ok :: "codecs \<Rightarrow> bool" where
  "codecs_ok cj \<longleftrightarrow> json_ok (cj_state cj) \<and> json_ok (cj_volume cj) \<and> json_ok (cj_snapshot cj) \<and> json_ok (cj_extent cj)
     \<and> json_ok (cj_fs_snapshot cj) \<and> json_ok (cj_header cj) \<and> json_ok (cj_inode cj)"

record cat_store =
  cst_db :: db
  cst_cap :: nat
  cst_last :: "store_snap option"

definition STATE_KEY :: string where "STATE_KEY = ''catalog''"

definition no_snap :: store_snap where
  "no_snap = \<lparr>sp_tx = \<lparr>t_inodes = bempty, t_dirents = bempty\<rparr>, sp_cache = lru_new 0\<rparr>"

definition snap_of :: "cat_store \<Rightarrow> store_snap" where
  "snap_of st = (case cst_last st of None \<Rightarrow> no_snap | Some s \<Rightarrow> s)"

text \<open>Reading through the snapshot changes its cache only.\<close>

definition put_snap :: "store_snap \<Rightarrow> cat_store \<Rightarrow> cat_store" where
  "put_snap s st = st\<lparr>cst_last := map_option (\<lambda>_. s) (cst_last st)\<rparr>"

section \<open>Writing\<close>

definition write_row :: "('v \<Rightarrow> byte list) \<Rightarrow> ('k::linorder \<Rightarrow> 'v option) \<Rightarrow> 'k \<Rightarrow> ('k, byte list) btree \<Rightarrow> ('k, byte list) btree" where
  "write_row enc m k tab = (case m k of Some v \<Rightarrow> bput k (enc v) tab | None \<Rightarrow> bdel k tab)"

definition write_map :: "'v json \<Rightarrow> (string, 'v) tracked \<Rightarrow> bool \<Rightarrow> (string, byte list) btree \<Rightarrow> nat \<times> (string, byte list) btree" where
  "write_map j t full tab =
     (let ks = (if full then bkeys (tr_map t) else sorted_list_of_fset (tr_touched t))
      in (length ks, fold (write_row (js_enc j) (bget (tr_map t))) ks tab))"

text \<open>The loop over the changed inodes of one filesystem.\<close>

definition drop_dirents :: "string \<Rightarrow> nat \<Rightarrow> itables \<Rightarrow> itables" where
  "drop_dirents fs ino w = w\<lparr>t_dirents := bretain (\<lambda>k _. \<not> dirent_range fs ino None k) (t_dirents w)\<rparr>"

definition write_dirent :: "string \<Rightarrow> nat \<Rightarrow> string \<times> nat option \<Rightarrow> itables \<Rightarrow> itables" where
  "write_dirent fs ino = (\<lambda>(name, child) w. w\<lparr>t_dirents := (case child of
       Some c \<Rightarrow> bput (fs, ino, name) c (t_dirents w) | None \<Rightarrow> bdel (fs, ino, name) (t_dirents w))\<rparr>)"

definition write_inode ::
    "inode_row json \<Rightarrow> inode_tab \<Rightarrow> string \<Rightarrow> bool \<Rightarrow> nat \<Rightarrow> itables \<times> store_snap \<Rightarrow> (nat, itables \<times> store_snap) change" where
  "write_inode j t fs rewrite ino = (\<lambda>(w, s).
     let fresh = (rewrite \<or> ino |\<in>| tr_replaced (it_map t));
         w = (if fresh \<and> \<not> rewrite then drop_dirents fs ino w else w)
     in case it_get j t ino s of
          (Inl e, s) \<Rightarrow> (Inl e, (w, s))
        | (Inr None, s) \<Rightarrow> (Inr 1, (w\<lparr>t_inodes := bdel (fs, ino) (t_inodes w)\<rparr>, s))
        | (Inr (Some p), s) \<Rightarrow>
            let w = w\<lparr>t_inodes := bput (fs, ino) (js_enc j (inode_record p)) (t_inodes w)\<rparr>
            in if \<not> is_dir (pi_inode p) then (Inr 1, (w, s))
               else if fresh then attempt (w, s) (it_entries t (sp_tx s) p None None) (\<lambda>es.
                 (Inr (1 + length es), (fold (write_dirent fs ino) (map (\<lambda>(n, c). (n, Some c)) es) w, s)))
               else let cs = de_changes (pi_dents p) in (Inr (1 + length cs), (fold (write_dirent fs ino) cs w, s)))"

fun write_inodes ::
    "inode_row json \<Rightarrow> inode_tab \<Rightarrow> string \<Rightarrow> bool \<Rightarrow> nat list \<Rightarrow> itables \<times> store_snap \<Rightarrow> (nat, itables \<times> store_snap) change" where
  "write_inodes j t fs rewrite [] ws = (Inr 0, ws)"
| "write_inodes j t fs rewrite (ino # inos) ws =
     andthen (write_inode j t fs rewrite ino ws) (\<lambda>n ws. andthen (write_inodes j t fs rewrite inos ws) (\<lambda>m ws. (Inr (n + m), ws)))"

definition fs_dirents :: "string \<Rightarrow> string \<times> nat \<times> string \<Rightarrow> bool" where
  "fs_dirents fs k \<longleftrightarrow> (fs, 0, []) \<le> k \<and> k < (fs, u64_max, [])"

definition drop_fs_rows :: "string \<Rightarrow> itables \<Rightarrow> itables" where
  "drop_fs_rows fs w = w\<lparr>t_inodes := bretain (\<lambda>k _. \<not> inode_range fs 0 k) (t_inodes w),
     t_dirents := bretain (\<lambda>k _. \<not> fs_dirents fs k) (t_dirents w)\<rparr>"

definition fs_header_of :: "pfs \<Rightarrow> fs_header" where
  "fs_header_of f = \<lparr>hd_head = pf_head f, hd_inodes = Some (it_len (pf_inodes f))\<rparr>"

text \<open>The inodes to write: all of a rewritten filesystem, otherwise the changed ones.\<close>

definition changed_inos :: "inode_row json \<Rightarrow> inode_tab \<Rightarrow> bool \<Rightarrow> store_snap \<Rightarrow> (nat list, store_snap) change" where
  "changed_inos j t rewrite s =
     (if rewrite then andthen (it_scan j t s) (\<lambda>ps s. (Inr (map (\<lambda>p. i_ino (pi_inode p)) ps), s))
      else (Inr (sorted_list_of_fset (tr_touched (it_map t))), s))"

definition write_tree ::
    "inode_row json \<Rightarrow> inode_tab \<Rightarrow> string \<Rightarrow> bool \<Rightarrow> itables \<times> store_snap \<Rightarrow> (nat, itables \<times> store_snap) change" where
  "write_tree j t fs rewrite = (\<lambda>(w, s). case changed_inos j t rewrite s of
       (Inl e, s) \<Rightarrow> (Inl e, (w, s))
     | (Inr inos, s) \<Rightarrow> write_inodes j t fs rewrite inos (w, s))"

definition write_filesystem ::
    "codecs \<Rightarrow> (string, pfs) tracked \<Rightarrow> bool \<Rightarrow> string \<Rightarrow> db \<times> store_snap \<Rightarrow> (nat, db \<times> store_snap) change" where
  "write_filesystem cj fss full fs = (\<lambda>(d, s).
     let rewrite = (full \<or> fs |\<in>| tr_replaced fss);
         d = (if rewrite \<and> \<not> full then d\<lparr>db_tree := drop_fs_rows fs (db_tree d)\<rparr> else d)
     in case bget (tr_map fss) fs of
          None \<Rightarrow> (Inr 1, (d\<lparr>db_filesystems := bdel fs (db_filesystems d)\<rparr>, s))
        | Some f \<Rightarrow>
            let d = d\<lparr>db_filesystems := bput fs (js_enc (cj_header cj) (fs_header_of f)) (db_filesystems d)\<rparr>;
                (r, w, s) = write_tree (cj_inode cj) (pf_inodes f) fs rewrite (db_tree d, s)
            in (case r of Inl e \<Rightarrow> Inl e | Inr n \<Rightarrow> Inr (1 + n), (d\<lparr>db_tree := w\<rparr>, s)))"

fun write_filesystems ::
    "codecs \<Rightarrow> (string, pfs) tracked \<Rightarrow> bool \<Rightarrow> string list \<Rightarrow> db \<times> store_snap \<Rightarrow> (nat, db \<times> store_snap) change" where
  "write_filesystems cj fss full [] ds = (Inr 0, ds)"
| "write_filesystems cj fss full (fs # ids) ds =
     andthen (write_filesystem cj fss full fs ds) (\<lambda>n ds. andthen (write_filesystems cj fss full ids ds) (\<lambda>m ds. (Inr (n + m), ds)))"

text \<open>The transaction of a checkpoint, from the tables before it to the tables it commits.\<close>

definition write_catalog :: "codecs \<Rightarrow> pcatalog \<Rightarrow> bool \<Rightarrow> db \<times> store_snap \<Rightarrow> (nat, db \<times> store_snap) change" where
  "write_catalog cj c full = (\<lambda>(d, s).
     let d = (if full then empty_db else d);
         d = d\<lparr>db_state := bput STATE_KEY (js_enc (cj_state cj) (pc_state c)) (db_state d)\<rparr>;
         (n1, tv) = write_map (cj_volume cj) (pc_volumes c) full (db_volumes d);
         (n2, ts) = write_map (cj_snapshot cj) (pc_snapshots c) full (db_snapshots d);
         (n3, te) = write_map (cj_extent cj) (pc_extents c) full (db_extents d);
         (n4, tf) = write_map (cj_fs_snapshot cj) (pc_fs_snapshots c) full (db_fs_snapshots d);
         d = d\<lparr>db_volumes := tv, db_snapshots := ts, db_extents := te, db_fs_snapshots := tf\<rparr>;
         fss = pc_filesystems c;
         ids = (if full then bkeys (tr_map fss) else sorted_list_of_fset (tr_touched fss))
     in andthen (write_filesystems cj fss full ids (d, s)) (\<lambda>n ds. (Inr (1 + n1 + n2 + n3 + n4 + n), ds)))"

section \<open>Checkpoints\<close>

text \<open>\<open>snapshot\<close>: the store as it is now, with what is still valid of the last cache.\<close>

definition store_snapshot :: "(string \<times> nat) list \<Rightarrow> string fset \<Rightarrow> cat_store \<Rightarrow> store_snap \<times> cat_store" where
  "store_snapshot stale stale_fs st =
     (let cache = (case cst_last st of
            None \<Rightarrow> lru_new (cst_cap st)
          | Some old \<Rightarrow>
              let c = fold (\<lambda>k c. snd (lru_take k c)) stale (sp_cache old);
                  c = (if stale_fs \<noteq> {||} then lru_retain (\<lambda>k. fst k |\<notin>| stale_fs) c else c)
              in c\<lparr>lr_cap := cst_cap st\<rparr>);
          snap = \<lparr>sp_tx = db_tree (cst_db st), sp_cache = cache\<rparr>
      in (snap, st\<lparr>cst_last := Some snap\<rparr>))"

definition stale_inodes :: "(string, pfs) tracked \<Rightarrow> (string \<times> nat) list" where
  "stale_inodes fss = concat (map (\<lambda>fs. case bget (tr_map fss) fs of
       None \<Rightarrow> []
     | Some f \<Rightarrow> map (Pair (fh_id (pf_head f))) (sorted_list_of_fset (tr_touched (it_map (pf_inodes f)))))
     (sorted_list_of_fset (tr_touched fss)))"

definition clear_catalog :: "pcatalog \<Rightarrow> pcatalog" where
  "clear_catalog c = c\<lparr>pc_volumes := tr_clear (pc_volumes c), pc_snapshots := tr_clear (pc_snapshots c),
     pc_extents := tr_clear (pc_extents c), pc_fs_snapshots := tr_clear (pc_fs_snapshots c),
     pc_filesystems := tr_clear_with (\<lambda>f. f\<lparr>pf_inodes := it_clear_changes (pf_inodes f)\<rparr>) (pc_filesystems c)\<rparr>"

fun attach_all :: "(string \<times> pfs) list \<Rightarrow> (string, pfs) btree \<times> store_snap \<Rightarrow> (string, pfs) btree \<times> store_snap" where
  "attach_all [] ms = ms"
| "attach_all ((k, f) # fs) (m, s) =
     (case it_attach (fh_id (pf_head f)) (pf_inodes f, s) of
        (t, s) \<Rightarrow> attach_all fs (bput k (f\<lparr>pf_inodes := t\<rparr>) m, s))"

definition checkpoint :: "codecs \<Rightarrow> pcatalog \<times> cat_store \<Rightarrow> (nat, pcatalog \<times> cat_store) change" where
  "checkpoint cj = (\<lambda>(c, st).
     case write_catalog cj c (\<not> pc_in_store c) (cst_db st, snap_of st) of
       (Inl e, (d, s)) \<Rightarrow> (Inl e, (c, put_snap s st))
     | (Inr n, (d, s)) \<Rightarrow>
         let fss = pc_filesystems c;
             (snap, st) = store_snapshot (stale_inodes fss) (tr_replaced fss) ((put_snap s st)\<lparr>cst_db := d\<rparr>);
             c = clear_catalog c;
             (m, snap) = attach_all (bitems (tr_map (pc_filesystems c))) (tr_map (pc_filesystems c), snap)
         in (Inr n, (c\<lparr>pc_filesystems := (pc_filesystems c)\<lparr>tr_map := m\<rparr>, pc_in_store := True\<rparr>, put_snap snap st)))"

section \<open>Loading\<close>

fun parse_rows :: "'v json \<Rightarrow> (string \<times> byte list) list \<Rightarrow> (string \<times> 'v) list meta_result" where
  "parse_rows j [] = Inr []"
| "parse_rows j ((k, row) # rows) =
     rbind (ok_or (js_dec j row) Store) (\<lambda>v. rbind (parse_rows j rows) (\<lambda>vs. Inr ((k, v) # vs)))"

definition read_table :: "'v json \<Rightarrow> (string, byte list) btree \<Rightarrow> (string, 'v) tracked meta_result" where
  "read_table j tab = rbind (parse_rows j (bitems tab)) (\<lambda>vs. Inr (tr_of (bextend bempty vs)))"

definition load_fs :: "itables \<Rightarrow> fs_header \<Rightarrow> string \<times> pfs" where
  "load_fs tx h = (let id = fh_id (hd_head h);
       len = (case hd_inodes h of Some n \<Rightarrow> n | None \<Rightarrow> length (ss_inos tx id))
     in (id, \<lparr>pf_head = hd_head h, pf_inodes = it_paged_on id len\<rparr>))"

definition cat_load :: "codecs \<Rightarrow> cat_store \<Rightarrow> (pcatalog option, cat_store) change" where
  "cat_load cj st = (case bget (db_state (cst_db st)) STATE_KEY of
       None \<Rightarrow> (Inr None, st)
     | Some row \<Rightarrow>
         attempt st (ok_or (js_dec (cj_state cj) row) Store) (\<lambda>state.
         attempt st (read_table (cj_volume cj) (db_volumes (cst_db st))) (\<lambda>vols.
         attempt st (read_table (cj_snapshot cj) (db_snapshots (cst_db st))) (\<lambda>snaps.
         attempt st (read_table (cj_extent cj) (db_extents (cst_db st))) (\<lambda>exts.
         attempt st (read_table (cj_fs_snapshot cj) (db_fs_snapshots (cst_db st))) (\<lambda>fsnaps.
         attempt st (read_table (cj_header cj) (db_filesystems (cst_db st))) (\<lambda>headers.
           let (snap, st) = store_snapshot [] {||} st;
               fss = bextend bempty (map (load_fs (sp_tx snap)) (bvals (tr_map headers)))
           in (Inr (Some \<lparr>pc_state = state, pc_volumes = vols, pc_snapshots = snaps, pc_extents = exts,
                pc_fs_snapshots = fsnaps, pc_filesystems = tr_of fss, pc_in_store = True\<rparr>), st))))))))"

definition new_pcatalog :: pcatalog where
  "new_pcatalog = \<lparr>pc_state = \<lparr>st_applied_index = 0, st_current_term = 0, st_free = [], st_membership = None,
       st_raft_addrs = bempty, st_leases = no_leases\<rparr>,
     pc_volumes = tr_empty, pc_snapshots = tr_empty, pc_extents = tr_empty, pc_fs_snapshots = tr_empty,
     pc_filesystems = tr_empty, pc_in_store = False\<rparr>"

definition new_store :: "nat \<Rightarrow> cat_store" where
  "new_store cap = \<lparr>cst_db = empty_db, cst_cap = cap, cst_last = None\<rparr>"

section \<open>The life of a catalog and its store\<close>

text \<open>Changes of one inode table. An edit in place neither looks at a directory's entries nor changes
  them, and a new inode has a number that is not in use.\<close>

inductive tab_step :: "inode_row json \<Rightarrow> inode_tab \<times> store_snap \<Rightarrow> inode_tab \<times> store_snap \<Rightarrow> bool" for j where
  ts_edit: "(\<And>es i. g (with_entries es i) = with_entries es (g i)) \<Longrightarrow> (\<And>i. is_dir (g i) = is_dir i \<and> i_ino (g i) = i_ino i)
    \<Longrightarrow> tab_step j ts (snd (it_get_mut j ino (\<lambda>p. p\<lparr>pi_inode := g (pi_inode p)\<rparr>) ts))"
| ts_insert: "tab_view j t (sp_tx s) (i_ino i) = None \<Longrightarrow> i_ino i < u64_max \<Longrightarrow> tab_step j (t, s) (it_insert (pinode_of i) t, s)"
| ts_remove: "tab_step j ts (snd (it_remove j ino ts))"
| ts_entry: "tab_step j ts (snd (it_set_entry j d name x ts))"
| ts_read: "tab_step j (t, s) (t, snd (it_get j t ino s))"
| ts_scan: "tab_step j (t, s) (t, snd (it_scan j t s))"

text \<open>Changes of the catalog, checkpoints, and restarts, which lose what was not checkpointed.\<close>

inductive store_step :: "codecs \<Rightarrow> pcatalog \<times> cat_store \<Rightarrow> pcatalog \<times> cat_store \<Rightarrow> bool" for cj where
  sp_state: "store_step cj (c, st) (c\<lparr>pc_state := x\<rparr>, st)"
| sp_volumes: "tr_step (pc_volumes c) t \<Longrightarrow> store_step cj (c, st) (c\<lparr>pc_volumes := t\<rparr>, st)"
| sp_snapshots: "tr_step (pc_snapshots c) t \<Longrightarrow> store_step cj (c, st) (c\<lparr>pc_snapshots := t\<rparr>, st)"
| sp_extents: "tr_step (pc_extents c) t \<Longrightarrow> store_step cj (c, st) (c\<lparr>pc_extents := t\<rparr>, st)"
| sp_fs_snapshots: "tr_step (pc_fs_snapshots c) t \<Longrightarrow> store_step cj (c, st) (c\<lparr>pc_fs_snapshots := t\<rparr>, st)"
| sp_fs_insert: "numbered T \<Longrightarrow> fh_id h = fs \<Longrightarrow> store_step cj (c, st)
    (c\<lparr>pc_filesystems := snd (tr_insert fs \<lparr>pf_head = h, pf_inodes = it_of (bvals T)\<rparr> (pc_filesystems c))\<rparr>, st)"
| sp_fs_remove: "store_step cj (c, st) (c\<lparr>pc_filesystems := snd (tr_remove fs (pc_filesystems c))\<rparr>, st)"
| sp_fs_head: "(\<And>h. fh_id (g h) = fh_id h) \<Longrightarrow> store_step cj (c, st)
    (c\<lparr>pc_filesystems := tr_edit fs (\<lambda>f. f\<lparr>pf_head := g (pf_head f)\<rparr>) (pc_filesystems c)\<rparr>, st)"
| sp_fs_tree: "bget (tr_map (pc_filesystems c)) fs = Some f \<Longrightarrow> tab_step (cj_inode cj) (pf_inodes f, snap_of st) (t, s)
    \<Longrightarrow> store_step cj (c, st) (c\<lparr>pc_filesystems := tr_edit fs (\<lambda>f. f\<lparr>pf_inodes := t\<rparr>) (pc_filesystems c)\<rparr>, put_snap s st)"
| sp_checkpoint: "checkpoint cj (c, st) = (Inr n, (c', st')) \<Longrightarrow> store_step cj (c, st) (c', st')"
| sp_reopen: "cat_load cj (st\<lparr>cst_last := None\<rparr>) = (Inr x, st')
    \<Longrightarrow> store_step cj (c, st) (case x of Some c' \<Rightarrow> c' | None \<Rightarrow> new_pcatalog, st')"

inductive store_reach :: "codecs \<Rightarrow> pcatalog \<times> cat_store \<Rightarrow> bool" for cj where
  sr_new: "store_reach cj (new_pcatalog, new_store cap)"
| sr_step: "store_reach cj cs \<Longrightarrow> store_step cj cs cs' \<Longrightarrow> store_reach cj cs'"

end
