(* ===== verification/StoreInv.thy ===== *)
theory StoreInv
  imports CatalogStore
begin

text \<open>
  What checkpoints leave in the database: exactly the rows of the catalog's contents, whether they
  were written in full or only where the record of changes says so. From this follow the round trip
  through the store and that a paged table stands for the same inodes before and after.
\<close>

section \<open>The rows of a tree of filesystems\<close>

definition tab_row :: "inode_row json \<Rightarrow> inode_table \<Rightarrow> nat \<Rightarrow> byte list option" where
  "tab_row j T ino = map_option (\<lambda>i. js_enc j (inode_record (pinode_of i))) (bget T ino)"

definition tab_ent :: "inode_table \<Rightarrow> nat \<Rightarrow> string \<Rightarrow> nat option" where
  "tab_ent T ino name = (case bget T ino of None \<Rightarrow> None | Some i \<Rightarrow> inode_entry i name)"

definition fs_table :: "(string, fs_meta) btree \<Rightarrow> string \<Rightarrow> inode_table" where
  "fs_table M fs = (case bget M fs of None \<Rightarrow> bempty | Some F \<Rightarrow> fs_inodes F)"

definition tree_image :: "inode_row json \<Rightarrow> (string \<Rightarrow> inode_table) \<Rightarrow> itables \<Rightarrow> bool" where
  "tree_image j M w \<longleftrightarrow> (\<forall>fs ino. bget (t_inodes w) (fs, ino) = tab_row j (M fs) ino)
     \<and> (\<forall>fs ino name. bget (t_dirents w) (fs, ino, name) = tab_ent (M fs) ino name)"

text \<open>An inode as it is read back from its row.\<close>

definition settled :: "inode \<Rightarrow> pinode" where
  "settled i = settle_inode (pinode_of i)"

lemma settled_alt:
  "settled i = \<lparr>pi_inode = with_entries bempty i,
     pi_dents = (case i_kind i of Dir _ es \<Rightarrow> dents_stored (bsize es) | _ \<Rightarrow> no_dents)\<rparr>"
  by (auto simp: settled_def settle_inode_def pinode_of_def de_settled_def dents_of_def de_settle_def dents_stored_def no_dents_def
      with_entries_def is_dir_def is_dir_kind_def split: inode_kind.split)

lemma pi_inode_settled [simp]: "pi_inode (settled i) = with_entries bempty i"
  by (simp add: settled_alt)

lemma settled_rep:
  assumes "\<And>n. bget (t_dirents w) (fs, i_ino i, n) = inode_entry i n"
  shows "pinode_rep (Some fs) w (settled i) i"
proof (cases "i_kind i")
  case (Dir par es)
  then have "with_entries es (with_entries bempty i) = i" by (simp add: with_entries_def)
  then show ?thesis using assms Dir
    by (auto simp: pinode_rep_def settled_alt dir_view_def de_known_def dents_stored_def no_dents_def ss_entry_def inode_entry_def
        intro!: exI [of _ es])
qed (simp_all add: pinode_rep_def settled_alt is_dir_def is_dir_kind_def with_entries_def)

lemma settled_shape: "i_ino i = k \<Longrightarrow> k < u64_max \<Longrightarrow> pinode_shape k (settled i)"
  by (auto simp: pinode_shape_def settled_alt is_dir_def is_dir_kind_def with_entries_def dents_stored_def no_dents_def split: inode_kind.splits)

lemma parse_settled:
  "json_ok j \<Longrightarrow> parse_row j (js_enc j (inode_record (pinode_of i))) = Inr (settled i)"
  by (auto simp: parse_row_def json_ok_def inode_record_def settled_alt pinode_of_def dents_of_def dents_stored_def no_dents_def
      with_entries_def is_dir_def is_dir_kind_def split: inode_kind.split)

lemma image_row_of:
  assumes "json_ok j" "tree_image j M w"
  shows "row_of j w (fs, ino) = map_option settled (bget (M fs) ino)"
proof (cases "bget (M fs) ino")
  case None
  then have "bget (t_inodes w) (fs, ino) = None" using assms(2) by (simp add: tree_image_def tab_row_def)
  then show ?thesis using None by (simp add: row_of_def ss_read_def)
next
  case (Some i)
  then have r: "bget (t_inodes w) (fs, ino) = Some (js_enc j (inode_record (pinode_of i)))"
    using assms(2) by (simp add: tree_image_def tab_row_def)
  have "is_dir i \<Longrightarrow> de_stored (pi_dents (settled i))"
    by (auto simp: settled_alt dents_stored_def is_dir_def is_dir_kind_def split: inode_kind.splits)
  then show ?thesis using Some r by (auto simp: row_of_def ss_read_def parse_settled [OF assms(1)])
qed

lemma image_dir_rows:
  assumes "tree_image j M w" "bget (M fs) ino = Some i" "i_kind i = Dir par es"
  shows "dir_rows w fs ino = es"
  using assms by (intro btree_eqI) (simp add: tree_image_def tab_ent_def inode_entry_def)

lemma image_tx_ok:
  assumes "json_ok j" "tree_image j M w" "\<forall>fs. numbered (M fs)"
  shows "tx_ok j w"
  unfolding tx_ok_def
proof (intro conjI allI impI)
  fix fs ino row assume "bget (t_inodes w) (fs, ino) = Some row"
  then obtain i where i: "bget (M fs) ino = Some i" using assms(2) by (auto simp: tree_image_def tab_row_def)
  have r: "row_of j w (fs, ino) = Some (settled i)" using image_row_of [OF assms(1,2)] i by simp
  then have rd: "ss_read j w fs ino = Inr (Some (settled i))" by (auto simp: row_of_def split: sum.splits)
  have "pinode_shape ino (settled i)" using assms(3) i by (intro settled_shape) (auto simp: numbered_def)
  moreover have "is_dir i \<Longrightarrow> pi_dents (settled i) = dents_stored (bsize (dir_rows w fs ino))"
    using image_dir_rows [OF assms(2) i] by (cases "i_kind i") (auto simp: settled_alt is_dir_def is_dir_kind_def)
  ultimately show "\<exists>p. ss_read j w fs ino = Inr (Some p) \<and> pinode_shape ino p
      \<and> (is_dir (pi_inode p) \<longrightarrow> pi_dents p = dents_stored (bsize (dir_rows w fs ino)))"
    using rd by simp
next
  fix fs ino name x assume "bget (t_dirents w) (fs, ino, name) = Some x"
  then obtain i where i: "bget (M fs) ino = Some i" "inode_entry i name = Some x"
    using assms(2) by (auto simp: tree_image_def tab_ent_def split: option.splits)
  then have "is_dir i" by (auto simp: inode_entry_def is_dir_def is_dir_kind_def split: inode_kind.splits)
  then show "\<exists>p. row_of j w (fs, ino) = Some p \<and> is_dir (pi_inode p)" using image_row_of [OF assms(1,2)] i by simp
qed

lemma image_tab_rep:
  assumes "json_ok j" "tree_image j M w" "numbered (M fs)"
  shows "tab_rep j w (it_paged_on fs (bsize (M fs))) (M fs)"
proof -
  let ?t = "it_paged_on fs (bsize (M fs))"
  have v: "tab_view j ?t w k = map_option settled (bget (M fs) k)" for k
    using image_row_of [OF assms(1,2)] by (simp add: tab_view_def it_paged_on_def it_behind_def tr_empty_def)
  have "pinode_rep (Some fs) w (settled i) i" if "bget (M fs) k = Some i" for i k
    using that assms(2,3) by (intro settled_rep) (auto simp: tree_image_def tab_ent_def numbered_def)
  then have "rel_option (pinode_rep (it_paged ?t) w) (tab_view j ?t w k) (bget (M fs) k)" for k
    unfolding v by (cases "bget (M fs) k") (simp_all add: it_paged_on_def)
  then show ?thesis by (simp add: tab_rep_def tab_ok_def it_paged_on_def tr_empty_def)
qed

section \<open>Writing inodes\<close>

lemma write_dirents_at:
  "distinct (map fst cs) \<Longrightarrow> t_inodes (fold (write_dirent fs ino) cs w) = t_inodes w
    \<and> bget (t_dirents (fold (write_dirent fs ino) cs w)) (f, e, n)
      = (if f = fs \<and> e = ino then (case map_of cs n of Some x \<Rightarrow> x | None \<Rightarrow> bget (t_dirents w) (f, e, n)) else bget (t_dirents w) (f, e, n))"
proof (induction cs arbitrary: w)
  case (Cons c cs)
  obtain name child where c: "c = (name, child)" by (cases c)
  have "map_of cs name = None" using Cons.prems by (auto simp: c map_of_eq_None_iff image_iff)
  then show ?case using Cons by (auto simp: c write_dirent_def split: option.split)
qed simp

lemma drop_dirents_at:
  "t_inodes (drop_dirents fs ino w) = t_inodes w"
  "bget (t_dirents (drop_dirents fs ino w)) (f, e, n) = (if f = fs \<and> e = ino then None else bget (t_dirents w) (f, e, n))"
  by (simp_all add: drop_dirents_def bget_bretain dirent_range_iff after_ok_def split: option.split)

lemma map_of_changes: "map_of (de_changes d) n = (if n |\<in>| de_changed d then Some (bget (de_map d) n) else None)"
proof -
  have "map_of (map (\<lambda>n. (n, f n)) xs) n = (if n \<in> set xs then Some (f n) else None)" for f :: "string \<Rightarrow> nat option" and xs
    by (induction xs) auto
  then show ?thesis by (simp add: de_changes_def)
qed

lemma distinct_changes: "distinct (map fst (de_changes d))"
  by (simp add: de_changes_def comp_def sorted_list_of_fset.rep_eq)

lemma record_eq:
  assumes "pinode_rep paged tx p i" "pinode_shape k p"
  shows "inode_record p = inode_record (pinode_of i)"
proof (cases "is_dir (pi_inode p)")
  case True
  then obtain es where es: "i = with_entries es (pi_inode p)" "de_len (pi_dents p) = bsize es" using assms(1) by (auto simp: pinode_rep_def)
  have "with_entries bempty (pi_inode p) = pi_inode p" using assms(2) by (simp add: pinode_shape_def)
  then show ?thesis using True es
    by (cases "i_kind (pi_inode p)") (auto simp: inode_record_def pinode_of_def with_entries_def dents_of_def is_dir_def is_dir_kind_def)
next
  case False
  then have "i = pi_inode p" using assms(1) by (simp add: pinode_rep_def)
  then show ?thesis using False by (cases "i_kind i") (auto simp: inode_record_def pinode_of_def is_dir_def is_dir_kind_def)
qed

text \<open>What one step of the loop leaves: the rows of one inode, and nothing else changed.\<close>

definition inode_written :: "inode_row json \<Rightarrow> inode_table \<Rightarrow> string \<Rightarrow> nat \<Rightarrow> itables \<Rightarrow> itables \<Rightarrow> bool" where
  "inode_written j T fs ino w w' \<longleftrightarrow>
     (\<forall>f e. bget (t_inodes w') (f, e) = (if f = fs \<and> e = ino then tab_row j T ino else bget (t_inodes w) (f, e)))
   \<and> (\<forall>f e n. bget (t_dirents w') (f, e, n) = (if f = fs \<and> e = ino then tab_ent T ino n else bget (t_dirents w) (f, e, n)))"

definition may_write :: "inode_tab \<Rightarrow> string \<Rightarrow> bool \<Rightarrow> itables \<Rightarrow> nat \<Rightarrow> itables \<Rightarrow> bool" where
  "may_write t fs rewrite tx ino w \<longleftrightarrow>
     (if rewrite then \<forall>n. bget (t_dirents w) (fs, ino, n) = None
      else it_paged t = Some fs \<and> ino |\<in>| tr_touched (it_map t) \<and> (\<forall>n. bget (t_dirents w) (fs, ino, n) = bget (t_dirents tx) (fs, ino, n)))"

lemma no_dirents:
  assumes "tx_ok j tx" "row_of j tx (fs, ino) = Some q" "\<not> is_dir (pi_inode q)"
  shows "bget (t_dirents tx) (fs, ino, n) = None"
proof (rule ccontr)
  assume "bget (t_dirents tx) (fs, ino, n) \<noteq> None"
  then obtain p where "row_of j tx (fs, ino) = Some p" "is_dir (pi_inode p)" using assms(1) unfolding tx_ok_def by blast
  then show False using assms(2,3) by simp
qed

lemma write_inode_spec:
  assumes "tab_rep j tx t T" "snap_ok j s" "sp_tx s = tx" "may_write t fs rewrite tx ino w"
  shows "\<exists>k w' s'. write_inode j t fs rewrite ino (w, s) = (Inr k, (w', s')) \<and> snap_ok j s' \<and> sp_tx s' = tx \<and> inode_written j T fs ino w w'"
proof -
  have ok: "tab_ok j tx t" and tx: "tx_ok j tx" using assms(1-3) by (auto simp: tab_rep_def snap_ok_def)
  obtain s' where g: "it_get j t ino s = (Inr (tab_view j t tx ino), s')" "snap_ok j s'" "sp_tx s' = tx"
    using readsE [OF it_get_reads [OF assms(2)] assms(2)] assms(3) by metis
  define fresh where "fresh = (rewrite \<or> ino |\<in>| tr_replaced (it_map t))"
  define w1 where "w1 = (if fresh \<and> \<not> rewrite then drop_dirents fs ino w else w)"
  have w1: "t_inodes w1 = t_inodes w" "bget (t_dirents w1) (f, e, n) = (if f = fs \<and> e = ino \<and> fresh then None else bget (t_dirents w) (f, e, n))" for f e n
    using assms(4) by (auto simp: w1_def drop_dirents_at fresh_def may_write_def)
  show ?thesis
  proof (cases "tab_view j t tx ino")
    case None
    then have T: "bget T ino = None" using tab_rep_view [OF assms(1), of ino] by simp
    have "fresh"
      using assms(4) ok None by (auto simp: fresh_def may_write_def tab_ok_def tab_view_def split: if_splits option.splits)
    then have "inode_written j T fs ino w (w1\<lparr>t_inodes := bdel (fs, ino) (t_inodes w1)\<rparr>)"
      by (simp add: inode_written_def w1 tab_row_def tab_ent_def T)
    then show ?thesis using g None by (auto simp: write_inode_def fresh_def w1_def Let_def)
  next
    case (Some p)
    then obtain i where i: "bget T ino = Some i" "pinode_rep (it_paged t) tx p i"
      using tab_rep_view [OF assms(1), of ino] by (auto simp: option_rel_Some1)
    note shape = tab_view_shape [OF tx ok Some]
    define w2 where "w2 = w1\<lparr>t_inodes := bput (fs, ino) (js_enc j (inode_record p)) (t_inodes w1)\<rparr>"
    have w2: "bget (t_inodes w2) (f, e) = (if f = fs \<and> e = ino then tab_row j T ino else bget (t_inodes w) (f, e))"
      "t_dirents w2 = t_dirents w1" for f e
      using record_eq [OF i(2) shape(1)] i(1) by (auto simp: w2_def w1 tab_row_def)
    have ent: "tab_ent T ino n = (if is_dir (pi_inode p) then dir_view (it_paged t) tx p n else None)" for n
      using inode_entry_rep [OF i(2)] i(1) by (simp add: tab_ent_def)
    have unfresh: "it_paged t = Some fs" "ino |\<notin>| tr_replaced (it_map t)" "bget (t_dirents w) (fs, ino, n) = bget (t_dirents tx) (fs, ino, n)"
      if "\<not> fresh" for n using that assms(4) by (auto simp: fresh_def may_write_def)
    consider (nondir) "\<not> is_dir (pi_inode p)" | (fresh) "is_dir (pi_inode p)" "fresh" | (old) "is_dir (pi_inode p)" "\<not> fresh" by blast
    then show ?thesis
    proof cases
      case nondir
      have "bget (t_dirents w1) (fs, ino, n) = None" for n
      proof (cases fresh)
        case False
        then obtain q where "row_of j tx (fs, ino) = Some q" "\<not> is_dir (pi_inode q)"
          using row_unchanged [OF ok Some unfresh(1,2)] nondir by auto
        then show ?thesis using no_dirents [OF tx] unfresh(3) [OF False] False by (simp add: w1)
      qed (simp add: w1)
      then have "inode_written j T fs ino w w2" using nondir by (auto simp: inode_written_def w2 ent w1)
      then show ?thesis using g Some nondir by (auto simp: write_inode_def fresh_def w1_def w2_def Let_def)
    next
      case fresh
      then obtain par es where k: "i_kind i = Dir par es"
        using pinode_rep_dir [OF i(2)] by (cases "i_kind i") (auto simp: is_dir_def is_dir_kind_def)
      have e: "it_entries t tx p None None = Inr (bitems es)"
        using it_entries_spec [OF assms(1) tx Some i(1) k, of None None] by (simp add: after_ok_def at_most_def)
      let ?cs = "map (\<lambda>(n, c). (n, Some c)) (bitems es)"
      have d: "distinct (map fst ?cs)" using distinct_bitems [of es] by (simp add: comp_def case_prod_unfold)
      have "map_of ?cs n = map_option Some (bget es n)" for n by (simp add: map_of_map bget_def)
      moreover have "tab_ent T ino n = bget es n" for n using i(1) k by (simp add: tab_ent_def inode_entry_def)
      ultimately have "inode_written j T fs ino w (fold (write_dirent fs ino) ?cs w2)"
        using fresh by (auto simp: inode_written_def write_dirents_at [OF d] w2 w1 split: option.split)
      then show ?thesis using g Some fresh e by (auto simp: write_inode_def fresh_def w1_def w2_def Let_def)
    next
      case old
      have st: "de_stored (pi_dents p)" using shape(2) old(1) unfresh(1,2) [OF old(2)] by simp
      have ino: "i_ino (pi_inode p) = ino" using shape(1) by (simp add: pinode_shape_def)
      have ch: "n |\<in>| de_changed (pi_dents p)" if "bget (de_map (pi_dents p)) n \<noteq> None" for n
        using that shape(1) old(1) st by (simp add: pinode_shape_def)
      have "inode_written j T fs ino w (fold (write_dirent fs ino) (de_changes (pi_dents p)) w2)"
        using old unfresh ch st
        by (auto simp: inode_written_def write_dirents_at [OF distinct_changes] map_of_changes w2 w1 ent dir_view_def de_known_def
            ss_entry_def ino split: option.split)
      then show ?thesis using g Some old by (auto simp: write_inode_def fresh_def w1_def w2_def Let_def)
    qed
  qed
qed

text \<open>The rows of a set of inodes.\<close>

definition rows_written :: "inode_row json \<Rightarrow> inode_table \<Rightarrow> string \<Rightarrow> nat set \<Rightarrow> itables \<Rightarrow> itables \<Rightarrow> bool" where
  "rows_written j T fs I w w' \<longleftrightarrow>
     (\<forall>f e. bget (t_inodes w') (f, e) = (if f = fs \<and> e \<in> I then tab_row j T e else bget (t_inodes w) (f, e)))
   \<and> (\<forall>f e n. bget (t_dirents w') (f, e, n) = (if f = fs \<and> e \<in> I then tab_ent T e n else bget (t_dirents w) (f, e, n)))"

lemma rows_written_more:
  "inode_written j T fs ino w w1 \<Longrightarrow> rows_written j T fs I w1 w' \<Longrightarrow> rows_written j T fs (insert ino I) w w'"
  by (auto simp: inode_written_def rows_written_def)

lemma write_inodes_spec:
  assumes "tab_rep j tx t T" "snap_ok j s" "sp_tx s = tx" "distinct inos" "\<forall>ino \<in> set inos. may_write t fs rewrite tx ino w"
  shows "\<exists>k w' s'. write_inodes j t fs rewrite inos (w, s) = (Inr k, (w', s')) \<and> snap_ok j s' \<and> sp_tx s' = tx
    \<and> rows_written j T fs (set inos) w w'"
  using assms(2-5)
proof (induction inos arbitrary: w s)
  case (Cons ino inos)
  obtain k w1 s1 where w1: "write_inode j t fs rewrite ino (w, s) = (Inr k, (w1, s1))" "snap_ok j s1" "sp_tx s1 = tx" "inode_written j T fs ino w w1"
    using write_inode_spec [OF assms(1) Cons.prems(1,2), of fs rewrite ino w] Cons.prems(4) by auto
  have "\<forall>i \<in> set inos. may_write t fs rewrite tx i w1"
    using Cons.prems(3,4) w1(4) by (auto simp: may_write_def inode_written_def)
  then obtain m w2 s2 where w2: "write_inodes j t fs rewrite inos (w1, s1) = (Inr m, (w2, s2))" "snap_ok j s2" "sp_tx s2 = tx"
    "rows_written j T fs (set inos) w1 w2"
    using Cons.IH [OF w1(2,3), of w1] Cons.prems(3) by auto
  show ?case using w1 w2 rows_written_more [OF w1(4) w2(4)] by simp
qed (simp add: rows_written_def)

lemma rows_writtenD:
  assumes "rows_written j T fs I w w'"
  shows "bget (t_inodes w') (f, e) = (if f = fs \<and> e \<in> I then tab_row j T e else bget (t_inodes w) (f, e))"
    "bget (t_dirents w') (f, e, n) = (if f = fs \<and> e \<in> I then tab_ent T e n else bget (t_dirents w) (f, e, n))"
  using assms by (simp_all add: rows_written_def)

text \<open>The rows of a filesystem after its tree was written, and those of the others.\<close>

definition tree_written :: "inode_row json \<Rightarrow> inode_table \<Rightarrow> string \<Rightarrow> itables \<Rightarrow> itables \<Rightarrow> bool" where
  "tree_written j T fs w w' \<longleftrightarrow>
     (\<forall>f e. bget (t_inodes w') (f, e) = (if f = fs then tab_row j T e else bget (t_inodes w) (f, e)))
   \<and> (\<forall>f e n. bget (t_dirents w') (f, e, n) = (if f = fs then tab_ent T e n else bget (t_dirents w) (f, e, n)))"

definition fs_empty :: "string \<Rightarrow> itables \<Rightarrow> bool" where
  "fs_empty fs w \<longleftrightarrow> (\<forall>e. bget (t_inodes w) (fs, e) = None) \<and> (\<forall>e n. bget (t_dirents w) (fs, e, n) = None)"

lemma changed_inos_all:
  assumes "tab_rep j (sp_tx s) t T" "snap_ok j s"
  shows "reads j s (bkeys T) (changed_inos j t True s)"
proof -
  have tx: "tx_ok j (sp_tx s)" and ok: "tab_ok j (sp_tx s) t" using assms by (auto simp: snap_ok_def tab_rep_def)
  have "i_ino (pi_inode (the (tab_view j t (sp_tx s) k))) = k" if "k \<in> set (bkeys T)" for k
  proof -
    have "tab_view j t (sp_tx s) k \<noteq> None" using tab_rep_view [OF assms(1), of k] that by (auto simp: set_bkeys elim: option.rel_cases)
    then show ?thesis using tab_view_shape(1) [OF tx ok] by (auto simp: pinode_shape_def)
  qed
  then have "map (\<lambda>p. i_ino (pi_inode p)) (views j t (sp_tx s) (bkeys T)) = bkeys T" by (simp add: views_def map_idI)
  moreover obtain s' where "it_scan j t s = (Inr (views j t (sp_tx s) (bkeys T)), s')" "snap_ok j s'" "sp_tx s' = sp_tx s"
    using readsE [OF it_scan_spec [OF assms] assms(2)] .
  ultimately show ?thesis by (simp add: changed_inos_def reads_def)
qed

lemma write_tree_all:
  assumes "tab_rep j tx t T" "snap_ok j s" "sp_tx s = tx" "fs_empty fs w"
  shows "\<exists>k w' s'. write_tree j t fs True (w, s) = (Inr k, (w', s')) \<and> snap_ok j s' \<and> sp_tx s' = tx \<and> tree_written j T fs w w'"
proof -
  obtain s1 where s1: "changed_inos j t True s = (Inr (bkeys T), s1)" "snap_ok j s1" "sp_tx s1 = tx"
    using readsE [OF changed_inos_all assms(2)] assms(1-3) by metis
  have "distinct (bkeys T)" using distinct_bitems [of T] by (simp add: bkeys_def)
  moreover have "\<forall>ino \<in> set (bkeys T). may_write t fs True tx ino w" using assms(4) by (simp add: may_write_def fs_empty_def)
  ultimately obtain k w' s' where w': "write_inodes j t fs True (bkeys T) (w, s1) = (Inr k, (w', s'))" "snap_ok j s'" "sp_tx s' = tx"
    "rows_written j T fs (set (bkeys T)) w w'"
    using write_inodes_spec [OF assms(1) s1(2,3)] by blast
  have "tree_written j T fs w w'"
    using assms(4) by (auto simp: tree_written_def rows_writtenD [OF w'(4)] set_bkeys fs_empty_def tab_row_def tab_ent_def)
  then show ?thesis using s1 w' by (auto simp: write_tree_def)
qed

text \<open>An inode that was not touched is what its row says.\<close>

lemma untouched_inode:
  assumes "json_ok j" "tree_image j M tx" "\<forall>fs. numbered (M fs)" "tab_rep j tx t T" "it_paged t = Some fs" "ino |\<notin>| tr_touched (it_map t)"
  shows "bget T ino = bget (M fs) ino"
proof -
  have tx: "tx_ok j tx" by (rule image_tx_ok [OF assms(1-3)])
  have "bget (tr_map (it_map t)) ino = None" using assms(4-6) unfolding tab_rep_def tab_ok_def by (metis option.distinct(1) option.exhaust)
  then have "tab_view j t tx ino = map_option settled (bget (M fs) ino)"
    using assms(5,6) image_row_of [OF assms(1,2)] by (simp add: tab_view_def it_behind_def)
  then have r: "rel_option (pinode_rep (Some fs) tx) (map_option settled (bget (M fs) ino)) (bget T ino)"
    using tab_rep_view [OF assms(4), of ino] assms(5) by simp
  show ?thesis
  proof (cases "bget (M fs) ino")
    case (Some i)
    then obtain i' where i': "bget T ino = Some i'" "pinode_rep (Some fs) tx (settled i) i'" using r by (auto simp: option_rel_Some1)
    have "pinode_rep (Some fs) tx (settled i) i"
      using Some assms(2,3) by (intro settled_rep) (auto simp: tree_image_def tab_ent_def numbered_def)
    then show ?thesis using i'(1) Some pinode_rep_eq [OF i'(2)] by simp
  qed (use r in simp)
qed

lemma write_tree_changed:
  assumes "json_ok j" "tree_image j M tx" "\<forall>fs. numbered (M fs)" "tab_rep j tx t T" "snap_ok j s" "sp_tx s = tx" "it_paged t = Some fs"
    and "\<And>e. bget (t_inodes w) (fs, e) = bget (t_inodes tx) (fs, e)" "\<And>e n. bget (t_dirents w) (fs, e, n) = bget (t_dirents tx) (fs, e, n)"
  shows "\<exists>k w' s'. write_tree j t fs False (w, s) = (Inr k, (w', s')) \<and> snap_ok j s' \<and> sp_tx s' = tx \<and> tree_written j T fs w w'"
proof -
  let ?is = "sorted_list_of_fset (tr_touched (it_map t))"
  have "distinct ?is" by (simp add: sorted_list_of_fset.rep_eq)
  moreover have "\<forall>ino \<in> set ?is. may_write t fs False tx ino w" using assms(7,9) by (simp add: may_write_def)
  ultimately obtain k w' s' where w': "write_inodes j t fs False ?is (w, s) = (Inr k, (w', s'))" "snap_ok j s'" "sp_tx s' = tx"
    "rows_written j T fs (set ?is) w w'"
    using write_inodes_spec [OF assms(4-6)] by blast
  have "tab_row j T e = bget (t_inodes w) (fs, e) \<and> tab_ent T e n = bget (t_dirents w) (fs, e, n)" if "e |\<notin>| tr_touched (it_map t)" for e n
    using untouched_inode [OF assms(1-4,7) that] assms(2,8,9) by (simp add: tree_image_def tab_row_def tab_ent_def)
  then have "tree_written j T fs w w'" by (auto simp: tree_written_def rows_writtenD [OF w'(4)])
  then show ?thesis using w' by (auto simp: write_tree_def changed_inos_def)
qed

section \<open>Writing filesystems\<close>

definition head_of :: "fs_meta \<Rightarrow> fs_head" where
  "head_of F = \<lparr>fh_id = fs_id F, fh_name = fs_name F, fh_next_ino = fs_next_ino F, fh_source_snapshot = fs_source_snapshot F,
     fh_extent_bytes = fs_extent_bytes F, fh_usage = fs_usage_of F, fh_quota = fs_quota_of F, fh_replica = fs_replica F\<rparr>"

definition fs_rep :: "inode_row json \<Rightarrow> itables \<Rightarrow> string \<Rightarrow> pfs \<Rightarrow> fs_meta \<Rightarrow> bool" where
  "fs_rep j tx fs f F \<longleftrightarrow> fs_id F = fs \<and> pf_head f = head_of F \<and> tab_rep j tx (pf_inodes f) (fs_inodes F)"

definition fss_rep :: "inode_row json \<Rightarrow> itables \<Rightarrow> (string, pfs) tracked \<Rightarrow> (string, fs_meta) btree \<Rightarrow> bool" where
  "fss_rep j tx t M \<longleftrightarrow> (\<forall>fs. rel_option (fs_rep j tx fs) (bget (tr_map t) fs) (bget M fs))"

definition header_row :: "codecs \<Rightarrow> (string, fs_meta) btree \<Rightarrow> string \<Rightarrow> byte list option" where
  "header_row cj M fs = map_option (\<lambda>F. js_enc (cj_header cj) \<lparr>hd_head = head_of F, hd_inodes = Some (bsize (fs_inodes F))\<rparr>) (bget M fs)"

text \<open>The rows of all filesystems, after those in \<open>I\<close> were written.\<close>

definition fss_written :: "codecs \<Rightarrow> (string, fs_meta) btree \<Rightarrow> string set \<Rightarrow> db \<Rightarrow> db \<Rightarrow> bool" where
  "fss_written cj M I d d' \<longleftrightarrow>
     (\<forall>f. bget (db_filesystems d') f = (if f \<in> I then header_row cj M f else bget (db_filesystems d) f))
   \<and> (\<forall>f e. bget (t_inodes (db_tree d')) (f, e) = (if f \<in> I then tab_row (cj_inode cj) (fs_table M f) e else bget (t_inodes (db_tree d)) (f, e)))
   \<and> (\<forall>f e n. bget (t_dirents (db_tree d')) (f, e, n) = (if f \<in> I then tab_ent (fs_table M f) e n else bget (t_dirents (db_tree d)) (f, e, n)))
   \<and> db_state d' = db_state d \<and> db_volumes d' = db_volumes d \<and> db_snapshots d' = db_snapshots d
   \<and> db_extents d' = db_extents d \<and> db_fs_snapshots d' = db_fs_snapshots d"

lemma fss_written_more:
  assumes "fss_written cj M {fs} d d1" "fss_written cj M I d1 d'"
  shows "fss_written cj M (insert fs I) d d'"
  using assms by (auto simp: fss_written_def)

lemma fs_dirents_iff: "fs_dirents fs (f, e, n) \<longleftrightarrow> f = fs \<and> e < u64_max"
  by (auto simp: fs_dirents_def less_eq_prod_def less_prod_def)

lemma drop_fs_rows_at:
  "bget (t_inodes (drop_fs_rows fs w)) (f, e) = (if f = fs \<and> e \<le> u64_max then None else bget (t_inodes w) (f, e))"
  "bget (t_dirents (drop_fs_rows fs w)) (f, e, n) = (if f = fs \<and> e < u64_max then None else bget (t_dirents w) (f, e, n))"
  by (simp_all add: drop_fs_rows_def bget_bretain inode_range_iff fs_dirents_iff split: option.split)

text \<open>When a filesystem may be written as the record of changes says: its rows are those of the last
  checkpoint, or it is written anew where there are no rows.\<close>

definition fs_due :: "inode_row json \<Rightarrow> itables \<Rightarrow> (string \<Rightarrow> inode_table) \<Rightarrow> (string, pfs) tracked \<Rightarrow> bool \<Rightarrow> string \<Rightarrow> itables \<Rightarrow> bool" where
  "fs_due j tx B t full fs w \<longleftrightarrow>
     (if full then fs_empty fs w
      else tree_image j B tx \<and> (\<forall>e. bget (t_inodes w) (fs, e) = bget (t_inodes tx) (fs, e))
         \<and> (\<forall>e n. bget (t_dirents w) (fs, e, n) = bget (t_dirents tx) (fs, e, n))
         \<and> (fs |\<notin>| tr_replaced t \<longrightarrow> (\<exists>f. bget (tr_map t) fs = Some f \<and> it_paged (pf_inodes f) = Some fs)))"

lemma image_rows_numbered:
  assumes "tree_image j B tx" "\<forall>fs. numbered (B fs)"
  shows "bget (t_inodes tx) (fs, e) \<noteq> None \<Longrightarrow> e < u64_max" "bget (t_dirents tx) (fs, e, n) \<noteq> None \<Longrightarrow> e < u64_max"
  using assms by (auto simp: tree_image_def tab_row_def tab_ent_def numbered_def split: option.splits)

lemma write_filesystem_spec:
  assumes "codecs_ok cj" "fss_rep (cj_inode cj) tx t M" "snap_ok (cj_inode cj) s" "sp_tx s = tx"
    and "\<forall>fs. numbered (B fs)" "fs_due (cj_inode cj) tx B t full fs (db_tree d)"
  shows "\<exists>k d' s'. write_filesystem cj t full fs (d, s) = (Inr k, (d', s')) \<and> snap_ok (cj_inode cj) s' \<and> sp_tx s' = tx \<and> fss_written cj M {fs} d d'"
proof -
  let ?j = "cj_inode cj"
  have j: "json_ok ?j" using assms(1) by (simp add: codecs_ok_def)
  define rw where "rw = (full \<or> fs |\<in>| tr_replaced t)"
  define d1 where "d1 = (if rw \<and> \<not> full then d\<lparr>db_tree := drop_fs_rows fs (db_tree d)\<rparr> else d)"
  have e1: "fs_empty fs (db_tree d1)" if rw
  proof (cases full)
    case False
    then have i: "tree_image ?j B tx" "\<And>e. bget (t_inodes (db_tree d)) (fs, e) = bget (t_inodes tx) (fs, e)"
      "\<And>e n. bget (t_dirents (db_tree d)) (fs, e, n) = bget (t_dirents tx) (fs, e, n)"
      using assms(6) by (simp_all add: fs_due_def)
    have "bget (t_inodes tx) (fs, e) = None" if "\<not> e \<le> u64_max" for e using image_rows_numbered(1) [OF i(1) assms(5), of fs e] that by (cases "bget (t_inodes tx) (fs, e)") auto
    moreover have "bget (t_dirents tx) (fs, e, n) = None" if "\<not> e < u64_max" for e n
      using image_rows_numbered(2) [OF i(1) assms(5), of fs e n] that by (cases "bget (t_dirents tx) (fs, e, n)") auto
    ultimately show ?thesis using that False by (simp add: d1_def fs_empty_def drop_fs_rows_at i(2,3))
  qed (use assms(6) in \<open>simp add: fs_due_def d1_def\<close>)
  have o1: "bget (t_inodes (db_tree d1)) (f, e) = bget (t_inodes (db_tree d)) (f, e)"
    "bget (t_dirents (db_tree d1)) (f, e, n) = bget (t_dirents (db_tree d)) (f, e, n)" if "f \<noteq> fs \<or> \<not> rw" for f e n
    using that by (auto simp: d1_def drop_fs_rows_at)
  have r1: "db_filesystems d1 = db_filesystems d" "db_state d1 = db_state d" "db_volumes d1 = db_volumes d" "db_snapshots d1 = db_snapshots d"
    "db_extents d1 = db_extents d" "db_fs_snapshots d1 = db_fs_snapshots d" by (simp_all add: d1_def)
  show ?thesis
  proof (cases "bget (tr_map t) fs")
    case None
    then have M: "bget M fs = None" using assms(2) unfolding fss_rep_def by (metis option.rel_distinct(1) option.exhaust)
    have rw using assms(6) None by (auto simp: rw_def fs_due_def split: if_splits)
    then have "fss_written cj M {fs} d (d1\<lparr>db_filesystems := bdel fs (db_filesystems d1)\<rparr>)"
      using e1 by (auto simp: fss_written_def r1 o1 header_row_def fs_table_def M tab_row_def tab_ent_def fs_empty_def)
    then show ?thesis using None assms(3,4) by (simp add: write_filesystem_def rw_def d1_def Let_def)
  next
    case (Some f)
    then obtain F where F: "bget M fs = Some F" "fs_rep ?j tx fs f F" using assms(2) unfolding fss_rep_def by (metis option_rel_Some1)
    have T: "tab_rep ?j tx (pf_inodes f) (fs_inodes F)" using F(2) by (simp add: fs_rep_def)
    define d2 where "d2 = d1\<lparr>db_filesystems := bput fs (js_enc (cj_header cj) (fs_header_of f)) (db_filesystems d1)\<rparr>"
    have "\<exists>k w' s'. write_tree ?j (pf_inodes f) fs rw (db_tree d2, s) = (Inr k, (w', s')) \<and> snap_ok ?j s' \<and> sp_tx s' = tx
        \<and> tree_written ?j (fs_inodes F) fs (db_tree d2) w'"
    proof (cases rw)
      case True
      then show ?thesis using write_tree_all [OF T assms(3,4), of fs "db_tree d2"] e1 by (simp add: d2_def)
    next
      case False
      then have "tree_image ?j B tx" "it_paged (pf_inodes f) = Some fs" using assms(6) Some by (auto simp: rw_def fs_due_def)
      then show ?thesis using write_tree_changed [OF j _ assms(5) T assms(3,4), of fs "db_tree d2"] False assms(6) o1
        by (simp add: d2_def rw_def fs_due_def)
    qed
    then obtain k w' s' where w': "write_tree ?j (pf_inodes f) fs rw (db_tree d2, s) = (Inr k, (w', s'))" "snap_ok ?j s'" "sp_tx s' = tx"
      "tree_written ?j (fs_inodes F) fs (db_tree d2) w'" by blast
    have h: "header_row cj M fs = Some (js_enc (cj_header cj) (fs_header_of f))"
      using F T by (simp add: header_row_def fs_rep_def fs_header_of_def tab_rep_def)
    have "fss_written cj M {fs} d (d2\<lparr>db_tree := w'\<rparr>)"
      using w'(4) by (auto simp: fss_written_def d2_def r1 h tree_written_def o1 fs_table_def F(1))
    then show ?thesis using Some w' by (simp add: write_filesystem_def rw_def d1_def d2_def Let_def)
  qed
qed

lemma write_filesystems_spec:
  assumes "codecs_ok cj" "fss_rep (cj_inode cj) tx t M" "snap_ok (cj_inode cj) s" "sp_tx s = tx"
    and "\<forall>fs. numbered (B fs)" "distinct ids" "\<forall>fs \<in> set ids. fs_due (cj_inode cj) tx B t full fs (db_tree d)"
  shows "\<exists>k d' s'. write_filesystems cj t full ids (d, s) = (Inr k, (d', s')) \<and> snap_ok (cj_inode cj) s' \<and> sp_tx s' = tx
    \<and> fss_written cj M (set ids) d d'"
  using assms(3,4,6,7)
proof (induction ids arbitrary: d s)
  case (Cons fs ids)
  obtain k d1 s1 where d1: "write_filesystem cj t full fs (d, s) = (Inr k, (d1, s1))" "snap_ok (cj_inode cj) s1" "sp_tx s1 = tx"
    "fss_written cj M {fs} d d1"
    using write_filesystem_spec [OF assms(1,2) Cons.prems(1,2) assms(5), where fs = fs and d = d and full = full] Cons.prems(4) by auto
  have "\<forall>f \<in> set ids. fs_due (cj_inode cj) tx B t full f (db_tree d1)"
    using Cons.prems(3,4) d1(4) by (auto simp: fs_due_def fs_empty_def fss_written_def)
  then obtain m d2 s2 where d2: "write_filesystems cj t full ids (d1, s1) = (Inr m, (d2, s2))" "snap_ok (cj_inode cj) s2" "sp_tx s2 = tx"
    "fss_written cj M (set ids) d1 d2"
    using Cons.IH [OF d1(2,3), of d1] Cons.prems(3) by auto
  show ?case using d1 d2 fss_written_more [OF d1(4) d2(4)] by simp
qed (simp add: fss_written_def)

section \<open>Writing the catalog\<close>

lemma write_rows_at:
  "bget (fold (write_row enc m) ks tab) k = (if k \<in> set ks then map_option enc (m k) else bget tab k)"
proof (induction ks arbitrary: tab)
  case (Cons a ks)
  then show ?case by (cases "m a") (auto simp: write_row_def)
qed simp

lemma write_map_full: "snd (write_map j t True bempty) = bmap (\<lambda>_. js_enc j) (tr_map t)"
  by (rule btree_eqI) (simp add: write_map_def Let_def write_rows_at set_bkeys)

lemma write_map_changed:
  assumes "tr_kept base t"
  shows "snd (write_map j t False (bmap (\<lambda>_. js_enc j) base)) = bmap (\<lambda>_. js_enc j) (tr_map t)"
  using assms by (intro btree_eqI) (simp add: write_map_def Let_def write_rows_at tr_kept_def)

definition state_of :: "catalog \<Rightarrow> cat_state" where
  "state_of C = \<lparr>st_applied_index = applied_index C, st_current_term = current_term C, st_free = free C, st_membership = membership_of C,
     st_raft_addrs = raft_addrs C, st_leases = leases_of C\<rparr>"

text \<open>The database that holds a catalog.\<close>

definition db_image :: "codecs \<Rightarrow> catalog \<Rightarrow> db \<Rightarrow> bool" where
  "db_image cj C d \<longleftrightarrow> db_state d = bput STATE_KEY (js_enc (cj_state cj) (state_of C)) bempty
     \<and> db_volumes d = bmap (\<lambda>_. js_enc (cj_volume cj)) (volumes C)
     \<and> db_snapshots d = bmap (\<lambda>_. js_enc (cj_snapshot cj)) (snapshots C)
     \<and> db_extents d = bmap (\<lambda>_. js_enc (cj_extent cj)) (extents C)
     \<and> db_fs_snapshots d = bmap (\<lambda>_. js_enc (cj_fs_snapshot cj)) (fs_snapshots C)
     \<and> (\<forall>fs. bget (db_filesystems d) fs = header_row cj (filesystems C) fs)
     \<and> tree_image (cj_inode cj) (fs_table (filesystems C)) (db_tree d)"

lemma db_image_unique:
  assumes "db_image cj C d" "db_image cj C d'"
  shows "d = d'"
proof -
  have "t_inodes (db_tree d) = t_inodes (db_tree d')"
    using assms by (intro btree_eqI) (auto simp: db_image_def tree_image_def)
  moreover have "t_dirents (db_tree d) = t_dirents (db_tree d')"
    using assms by (intro btree_eqI) (auto simp: db_image_def tree_image_def)
  moreover have "db_filesystems d = db_filesystems d'" using assms by (intro btree_eqI) (simp add: db_image_def)
  ultimately show ?thesis using assms by (intro db.equality itables.equality) (simp_all add: db_image_def)
qed

text \<open>What a catalog in memory stands for, given the tables its inode tables are paged on.\<close>

definition cat_rep :: "codecs \<Rightarrow> itables \<Rightarrow> pcatalog \<Rightarrow> catalog \<Rightarrow> bool" where
  "cat_rep cj tx c C \<longleftrightarrow> pc_state c = state_of C \<and> tr_map (pc_volumes c) = volumes C \<and> tr_map (pc_snapshots c) = snapshots C
     \<and> tr_map (pc_extents c) = extents C \<and> tr_map (pc_fs_snapshots c) = fs_snapshots C
     \<and> fss_rep (cj_inode cj) tx (pc_filesystems c) (filesystems C)"

text \<open>How a catalog differs from the one the store holds.\<close>

definition changed_since :: "catalog \<Rightarrow> pcatalog \<Rightarrow> catalog \<Rightarrow> bool" where
  "changed_since B c C \<longleftrightarrow> tr_kept (volumes B) (pc_volumes c) \<and> tr_kept (snapshots B) (pc_snapshots c)
     \<and> tr_kept (extents B) (pc_extents c) \<and> tr_kept (fs_snapshots B) (pc_fs_snapshots c)
     \<and> tr_replaced (pc_filesystems c) |\<subseteq>| tr_touched (pc_filesystems c)
     \<and> (\<forall>fs. fs |\<notin>| tr_touched (pc_filesystems c) \<longrightarrow> bget (filesystems C) fs = bget (filesystems B) fs)
     \<and> (\<forall>fs. fs |\<in>| tr_touched (pc_filesystems c) \<longrightarrow> fs |\<notin>| tr_replaced (pc_filesystems c) \<longrightarrow>
          bget (tr_map (pc_filesystems c)) fs \<noteq> None)
     \<and> (\<forall>fs f. bget (tr_map (pc_filesystems c)) fs = Some f \<longrightarrow>
          it_paged (pf_inodes f) = (if fs |\<in>| tr_replaced (pc_filesystems c) then None else Some fs))"

definition well_keyed :: "catalog \<Rightarrow> bool" where
  "well_keyed C \<longleftrightarrow> (\<forall>fs F. bget (filesystems C) fs = Some F \<longrightarrow> fs_id F = fs \<and> numbered (fs_inodes F))"

lemma well_keyed_numbered: "well_keyed C \<Longrightarrow> \<forall>fs. numbered (fs_table (filesystems C) fs)"
  by (auto simp: well_keyed_def fs_table_def numbered_def split: option.split)

lemma cat_rep_keyed:
  assumes "cat_rep cj tx c C" "tx_ok (cj_inode cj) tx"
  shows "well_keyed C"
  unfolding well_keyed_def
proof (intro allI impI)
  fix fs F assume "bget (filesystems C) fs = Some F"
  then obtain f where "fs_rep (cj_inode cj) tx fs f F"
    using assms(1) unfolding cat_rep_def fss_rep_def by (metis option_rel_Some2)
  then have f: "fs_id F = fs" "tab_rep (cj_inode cj) tx (pf_inodes f) (fs_inodes F)" by (simp_all add: fs_rep_def)
  then show "fs_id F = fs \<and> numbered (fs_inodes F)" using tab_rep_numbered [OF f(2) assms(2)] by simp
qed

lemma fss_image:
  assumes "fss_written cj M I d d'" "\<And>fs. fs \<notin> I \<Longrightarrow> bget (db_filesystems d) fs = header_row cj M fs"
    and "\<And>fs e. fs \<notin> I \<Longrightarrow> bget (t_inodes (db_tree d)) (fs, e) = tab_row (cj_inode cj) (fs_table M fs) e"
    and "\<And>fs e n. fs \<notin> I \<Longrightarrow> bget (t_dirents (db_tree d)) (fs, e, n) = tab_ent (fs_table M fs) e n"
  shows "(\<forall>fs. bget (db_filesystems d') fs = header_row cj M fs) \<and> tree_image (cj_inode cj) (fs_table M) (db_tree d')"
  using assms by (simp add: fss_written_def tree_image_def)

lemma absent_rows: "bget M fs = None \<Longrightarrow> header_row cj M fs = None \<and> tab_row j (fs_table M fs) e = None \<and> tab_ent (fs_table M fs) e n = None"
  by (simp add: header_row_def fs_table_def tab_row_def tab_ent_def)

lemma write_catalog_full:
  assumes "codecs_ok cj" "cat_rep cj tx c C" "snap_ok (cj_inode cj) s" "sp_tx s = tx"
  shows "\<exists>n d' s'. write_catalog cj c True (d, s) = (Inr n, (d', s')) \<and> snap_ok (cj_inode cj) s' \<and> sp_tx s' = tx \<and> db_image cj C d'"
proof -
  let ?t = "pc_filesystems c" and ?M = "filesystems C"
  have rep: "fss_rep (cj_inode cj) tx ?t ?M" and m: "pc_state c = state_of C" "tr_map (pc_volumes c) = volumes C"
    "tr_map (pc_snapshots c) = snapshots C" "tr_map (pc_extents c) = extents C" "tr_map (pc_fs_snapshots c) = fs_snapshots C"
    using assms(2) by (simp_all add: cat_rep_def)
  define d1 where "d1 = empty_db\<lparr>db_state := bput STATE_KEY (js_enc (cj_state cj) (pc_state c)) bempty,
    db_volumes := snd (write_map (cj_volume cj) (pc_volumes c) True bempty), db_snapshots := snd (write_map (cj_snapshot cj) (pc_snapshots c) True bempty),
    db_extents := snd (write_map (cj_extent cj) (pc_extents c) True bempty),
    db_fs_snapshots := snd (write_map (cj_fs_snapshot cj) (pc_fs_snapshots c) True bempty)\<rparr>"
  have "distinct (bkeys (tr_map ?t))" using distinct_bitems by (auto simp: bkeys_def)
  moreover have "\<forall>fs \<in> set (bkeys (tr_map ?t)). fs_due (cj_inode cj) tx (\<lambda>_. bempty) ?t True fs (db_tree d1)"
    by (simp add: fs_due_def fs_empty_def d1_def empty_db_def)
  ultimately obtain k d' s' where d': "write_filesystems cj ?t True (bkeys (tr_map ?t)) (d1, s) = (Inr k, (d', s'))" "snap_ok (cj_inode cj) s'"
    "sp_tx s' = tx" "fss_written cj ?M (set (bkeys (tr_map ?t))) d1 d'"
    using write_filesystems_spec [OF assms(1) rep assms(3,4), of "\<lambda>_. bempty" "bkeys (tr_map ?t)" True d1] by (auto simp: numbered_def)
  have abs: "bget ?M fs = None" if "fs \<notin> set (bkeys (tr_map ?t))" for fs
    using that rep unfolding fss_rep_def set_bkeys by (metis (mono_tags, lifting) mem_Collect_eq option.rel_distinct(1) option.exhaust)
  have "(\<forall>fs. bget (db_filesystems d') fs = header_row cj ?M fs) \<and> tree_image (cj_inode cj) (fs_table ?M) (db_tree d')"
    using abs absent_rows by (intro fss_image [OF d'(4)]) (auto simp: d1_def empty_db_def)
  moreover have "db_state d' = db_state d1" "db_volumes d' = db_volumes d1" "db_snapshots d' = db_snapshots d1" "db_extents d' = db_extents d1"
    "db_fs_snapshots d' = db_fs_snapshots d1" using d'(4) by (simp_all add: fss_written_def)
  ultimately have "db_image cj C d'" by (simp add: db_image_def d1_def write_map_full m)
  moreover have "\<exists>n. write_catalog cj c True (d, s) = (Inr n, (d', s'))"
    using d'(1) by (simp add: write_catalog_def Let_def case_prod_unfold d1_def empty_db_def)
  ultimately show ?thesis using d'(2,3) by blast
qed

lemma write_catalog_changed:
  assumes "codecs_ok cj" "cat_rep cj tx c C" "snap_ok (cj_inode cj) s" "sp_tx s = tx" "db_image cj B d" "db_tree d = tx" "well_keyed B"
    and "changed_since B c C"
  shows "\<exists>n d' s'. write_catalog cj c False (d, s) = (Inr n, (d', s')) \<and> snap_ok (cj_inode cj) s' \<and> sp_tx s' = tx \<and> db_image cj C d'"
proof -
  let ?t = "pc_filesystems c" and ?M = "filesystems C" and ?B = "fs_table (filesystems B)"
  let ?ids = "sorted_list_of_fset (tr_touched ?t)"
  have rep: "fss_rep (cj_inode cj) tx ?t ?M" and m: "pc_state c = state_of C" "tr_map (pc_volumes c) = volumes C"
    "tr_map (pc_snapshots c) = snapshots C" "tr_map (pc_extents c) = extents C" "tr_map (pc_fs_snapshots c) = fs_snapshots C"
    using assms(2) by (simp_all add: cat_rep_def)
  have B: "tree_image (cj_inode cj) ?B tx" "\<And>fs. bget (db_filesystems d) fs = header_row cj (filesystems B) fs"
    using assms(5,6) by (auto simp: db_image_def)
  define d1 where "d1 = d\<lparr>db_state := bput STATE_KEY (js_enc (cj_state cj) (pc_state c)) (db_state d),
    db_volumes := snd (write_map (cj_volume cj) (pc_volumes c) False (db_volumes d)), db_snapshots := snd (write_map (cj_snapshot cj) (pc_snapshots c) False (db_snapshots d)),
    db_extents := snd (write_map (cj_extent cj) (pc_extents c) False (db_extents d)),
    db_fs_snapshots := snd (write_map (cj_fs_snapshot cj) (pc_fs_snapshots c) False (db_fs_snapshots d))\<rparr>"
  have "distinct ?ids" by (simp add: sorted_list_of_fset.rep_eq)
  moreover have "\<forall>fs \<in> set ?ids. fs_due (cj_inode cj) tx ?B ?t False fs (db_tree d1)"
    using assms(8) B(1) by (fastforce simp: fs_due_def d1_def assms(6) changed_since_def)
  ultimately obtain k d' s' where d': "write_filesystems cj ?t False ?ids (d1, s) = (Inr k, (d', s'))" "snap_ok (cj_inode cj) s'"
    "sp_tx s' = tx" "fss_written cj ?M (set ?ids) d1 d'"
    using write_filesystems_spec [OF assms(1) rep assms(3,4) well_keyed_numbered [OF assms(7)], of ?ids False d1] by auto
  have same: "bget ?M fs = bget (filesystems B) fs" if "fs \<notin> set ?ids" for fs using that assms(8) by (simp add: changed_since_def)
  then have "header_row cj ?M fs = header_row cj (filesystems B) fs \<and> fs_table ?M fs = ?B fs" if "fs \<notin> set ?ids" for fs
    using that by (simp add: header_row_def fs_table_def)
  then have "(\<forall>fs. bget (db_filesystems d') fs = header_row cj ?M fs) \<and> tree_image (cj_inode cj) (fs_table ?M) (db_tree d')"
    using B by (intro fss_image [OF d'(4)]) (auto simp: d1_def tree_image_def assms(6))
  moreover have "db_state d' = db_state d1" "db_volumes d' = db_volumes d1" "db_snapshots d' = db_snapshots d1" "db_extents d' = db_extents d1"
    "db_fs_snapshots d' = db_fs_snapshots d1" using d'(4) by (simp_all add: fss_written_def)
  ultimately have "db_image cj C d'"
    using assms(5,8) by (simp add: db_image_def d1_def write_map_changed changed_since_def m)
  moreover have "\<exists>n. write_catalog cj c False (d, s) = (Inr n, (d', s'))"
    using d'(1) by (simp add: write_catalog_def Let_def case_prod_unfold d1_def)
  ultimately show ?thesis using d'(2,3) by blast
qed

section \<open>The snapshot after a checkpoint\<close>

lemma take_all_holds:
  assumes "lru_ok c"
  shows "lru_ok (fold (\<lambda>k c. snd (lru_take k c)) ks c)
    \<and> lru_holds (fold (\<lambda>k c. snd (lru_take k c)) ks c) k = (if k \<in> set ks then None else lru_holds c k)"
  using assms
proof (induction ks arbitrary: c)
  case (Cons a ks)
  then show ?case using lru_take_ok [OF Cons.prems, of a] by (auto split: if_splits)
qed simp

lemma lru_cap [simp]: "lru_ok (c\<lparr>lr_cap := n\<rparr>) = lru_ok c" "lru_holds (c\<lparr>lr_cap := n\<rparr>) k = lru_holds c k"
  by (simp_all add: lru_ok_def lru_holds_def)

lemma snapshot_holds:
  assumes "cst_last st = Some old" "lru_ok (sp_cache old)" "store_snapshot stale stale_fs st = (snap, st')"
  shows "lru_ok (sp_cache snap)"
    and "lru_holds (sp_cache snap) k = Some v \<Longrightarrow> lru_holds (sp_cache old) k = Some v \<and> k \<notin> set stale \<and> fst k |\<notin>| stale_fs"
proof -
  define c where "c = fold (\<lambda>k c. snd (lru_take k c)) stale (sp_cache old)"
  have c: "lru_ok c" "\<And>k. lru_holds c k = (if k \<in> set stale then None else lru_holds (sp_cache old) k)"
    using take_all_holds [OF assms(2)] by (simp_all add: c_def)
  have "sp_cache snap = (if stale_fs \<noteq> {||} then lru_retain (\<lambda>k. fst k |\<notin>| stale_fs) c else c)\<lparr>lr_cap := cst_cap st\<rparr>"
    using assms(1,3) unfolding store_snapshot_def c_def Let_def by (simp only: option.case prod.inject) (metis store_snap.select_convs(2))
  then show "lru_ok (sp_cache snap)"
    "lru_holds (sp_cache snap) k = Some v \<Longrightarrow> lru_holds (sp_cache old) k = Some v \<and> k \<notin> set stale \<and> fst k |\<notin>| stale_fs"
    using lru_retain_ok [OF c(1)] c by (auto split: if_splits)
qed

lemma snapshot_frame:
  "store_snapshot stale stale_fs st = (snap, st') \<Longrightarrow> sp_tx snap = db_tree (cst_db st) \<and> st' = st\<lparr>cst_last := Some snap\<rparr>"
  by (auto simp: store_snapshot_def Let_def)

text \<open>What was forgotten covers what has changed.\<close>

lemma kept_rows:
  assumes "codecs_ok cj" "cat_rep cj tx c C" "db_image cj B d" "db_tree d = tx" "well_keyed B" "changed_since B c C"
    and "(fs, ino) \<notin> set (stale_inodes (pc_filesystems c))" "fs |\<notin>| tr_replaced (pc_filesystems c)"
  shows "bget (fs_table (filesystems C) fs) ino = bget (fs_table (filesystems B) fs) ino"
proof (cases "fs |\<in>| tr_touched (pc_filesystems c)")
  case False
  then show ?thesis using assms(6) by (simp add: changed_since_def fs_table_def)
next
  case True
  then obtain f where f: "bget (tr_map (pc_filesystems c)) fs = Some f" "it_paged (pf_inodes f) = Some fs"
    using assms(6,8) by (fastforce simp: changed_since_def)
  then obtain F where F: "bget (filesystems C) fs = Some F" "fs_rep (cj_inode cj) tx fs f F"
    using assms(2) unfolding cat_rep_def fss_rep_def by (metis option_rel_Some1)
  then have h: "fh_id (pf_head f) = fs" "tab_rep (cj_inode cj) tx (pf_inodes f) (fs_inodes F)" by (simp_all add: fs_rep_def head_of_def)
  have "ino |\<notin>| tr_touched (it_map (pf_inodes f))"
    using assms(7) True f(1) h(1) by (auto simp: stale_inodes_def)
  moreover have "json_ok (cj_inode cj)" "tree_image (cj_inode cj) (fs_table (filesystems B)) tx"
    using assms(1,3,4) by (auto simp: codecs_ok_def db_image_def)
  ultimately have "bget (fs_inodes F) ino = bget (fs_table (filesystems B) fs) ino"
    using untouched_inode [OF _ _ well_keyed_numbered [OF assms(5)] h(2) f(2)] by blast
  then show ?thesis using F(1) by (simp add: fs_table_def)
qed

lemma settle_eq:
  assumes "pinode_rep paged tx p i" "pinode_shape k p"
  shows "settle_inode p = settled i"
proof (cases "is_dir (pi_inode p)")
  case True
  then obtain es where es: "i = with_entries es (pi_inode p)" "de_len (pi_dents p) = bsize es" using assms(1) by (auto simp: pinode_rep_def)
  have w: "with_entries bempty (pi_inode p) = pi_inode p" using assms(2) by (simp add: pinode_shape_def)
  have k: "i_kind i = Dir (d_parent (i_kind (pi_inode p))) es" using True es(1) by (simp add: with_entries_kind)
  have "de_settled (pi_dents p) \<Longrightarrow> pi_dents p = dents_stored (bsize es)"
    using es(2) by (auto simp: de_settled_def dents_stored_def no_dents_def bsize_0_iff intro!: dents.equality btree_eqI)
  moreover have "de_settle (pi_dents p) = dents_stored (bsize es)" using es(2) by (simp add: de_settle_def dents_stored_def no_dents_def)
  ultimately show ?thesis using True w k es(1) by (auto simp: settle_inode_def settled_alt intro!: pinode.equality)
next
  case False
  then have "i = pi_inode p" "pi_dents p = no_dents" using assms by (auto simp: pinode_rep_def pinode_shape_def)
  then show ?thesis using False
    by (cases "i_kind i") (auto simp: settle_inode_def settled_alt is_dir_def is_dir_kind_def with_entries_def intro!: pinode.equality)
qed

text \<open>Attaching hands rows to the cache that are those of the new snapshot.\<close>

definition attached :: "pfs \<Rightarrow> pfs" where
  "attached f = f\<lparr>pf_inodes := (pf_inodes f)\<lparr>it_map := tr_empty, it_paged := Some (fh_id (pf_head f))\<rparr>\<rparr>"

lemma puts_ok:
  assumes "snap_ok j s" "\<forall>p \<in> set ps. row_of j (sp_tx s) (fs, i_ino (pi_inode p)) = Some (settle_inode p)"
  shows "snap_ok j (fold (\<lambda>p. ss_put fs (i_ino (pi_inode p)) (settle_inode p)) ps s)
    \<and> sp_tx (fold (\<lambda>p. ss_put fs (i_ino (pi_inode p)) (settle_inode p)) ps s) = sp_tx s"
  using assms
proof (induction ps arbitrary: s)
  case (Cons p ps)
  then show ?case using ss_put_ok [OF Cons.prems(1), of fs "i_ino (pi_inode p)" "settle_inode p"] by simp
qed simp

lemma attach_all_spec:
  assumes "snap_ok j s" "\<forall>(k, f) \<in> set fs. \<forall>p \<in> set (bvals (tr_map (it_map (pf_inodes f)))).
      row_of j (sp_tx s) (fh_id (pf_head f), i_ino (pi_inode p)) = Some (settle_inode p)"
  shows "\<exists>s'. attach_all fs (m, s) = (bextend m (map (\<lambda>(k, f). (k, attached f)) fs), s') \<and> snap_ok j s' \<and> sp_tx s' = sp_tx s"
  using assms
proof (induction fs arbitrary: m s)
  case (Cons x fs)
  obtain k f where x: "x = (k, f)" by (cases x)
  let ?s = "fold (\<lambda>p. ss_put (fh_id (pf_head f)) (i_ino (pi_inode p)) (settle_inode p)) (bvals (tr_map (it_map (pf_inodes f)))) s"
  have s: "snap_ok j ?s" "sp_tx ?s = sp_tx s" using puts_ok [OF Cons.prems(1)] Cons.prems(2) by (simp_all add: x)
  have "\<exists>s'. attach_all fs (bput k (attached f) m, ?s) = (bextend (bput k (attached f) m) (map (\<lambda>(k, f). (k, attached f)) fs), s')
      \<and> snap_ok j s' \<and> sp_tx s' = sp_tx ?s"
    using Cons.prems(2) s by (intro Cons.IH) auto
  then show ?case using s by (auto simp: x it_attach_def attached_def)
qed simp

section \<open>The invariant\<close>

definition store_inv :: "codecs \<Rightarrow> pcatalog \<Rightarrow> cat_store \<Rightarrow> catalog \<Rightarrow> bool" where
  "store_inv cj c st C \<longleftrightarrow> cat_rep cj (sp_tx (snap_of st)) c C \<and> snap_ok (cj_inode cj) (snap_of st)
     \<and> (if pc_in_store c
        then cst_last st \<noteq> None \<and> sp_tx (snap_of st) = db_tree (cst_db st)
           \<and> (\<exists>B. db_image cj B (cst_db st) \<and> well_keyed B \<and> changed_since B c C)
        else cst_last st = None \<and> cst_db st = empty_db
           \<and> (\<forall>fs f. bget (tr_map (pc_filesystems c)) fs = Some f \<longrightarrow> it_paged (pf_inodes f) = None))"

lemma write_catalog_inv:
  assumes "codecs_ok cj" "store_inv cj c st C"
  shows "\<exists>n d' s'. write_catalog cj c (\<not> pc_in_store c) (cst_db st, snap_of st) = (Inr n, (d', s')) \<and> snap_ok (cj_inode cj) s'
    \<and> sp_tx s' = sp_tx (snap_of st) \<and> db_image cj C d'"
  using assms write_catalog_full [OF assms(1)] write_catalog_changed [OF assms(1)]
  unfolding store_inv_def by (cases "pc_in_store c") auto

lemma fresh_cache:
  assumes "codecs_ok cj" "db_image cj C d" "well_keyed C" "lru_ok (sp_cache s)" "sp_tx s = db_tree d"
    and "\<And>fs ino p. lru_holds (sp_cache s) (fs, ino) = Some p \<Longrightarrow> map_option settled (bget (fs_table (filesystems C) fs) ino) = Some p"
  shows "snap_ok (cj_inode cj) s"
proof -
  have j: "json_ok (cj_inode cj)" and i: "tree_image (cj_inode cj) (fs_table (filesystems C)) (db_tree d)"
    using assms(1,2) by (auto simp: codecs_ok_def db_image_def)
  have "tx_ok (cj_inode cj) (db_tree d)" by (rule image_tx_ok [OF j i well_keyed_numbered [OF assms(3)]])
  moreover have "row_of (cj_inode cj) (db_tree d) k = Some p" if "lru_holds (sp_cache s) k = Some p" for k p
    using that assms(6) image_row_of [OF j i] by (cases k) auto
  ultimately show ?thesis using assms(4,5) by (simp add: snap_ok_def lru.true_to_def)
qed

lemma snapshot_ok:
  assumes "codecs_ok cj" "store_inv cj c st C" "db_image cj C d" "snap_ok (cj_inode cj) s1" "sp_tx s1 = sp_tx (snap_of st)"
    and "store_snapshot (stale_inodes (pc_filesystems c)) (tr_replaced (pc_filesystems c)) ((put_snap s1 st)\<lparr>cst_db := d\<rparr>) = (snap, st')"
  shows "snap_ok (cj_inode cj) snap"
proof -
  let ?j = "cj_inode cj" and ?tx = "sp_tx (snap_of st)"
  have rep: "cat_rep cj ?tx c C" and tx0: "tx_ok ?j ?tx" using assms(2) by (auto simp: store_inv_def snap_ok_def)
  note keyed = cat_rep_keyed [OF rep tx0]
  have f: "sp_tx snap = db_tree d" using snapshot_frame [OF assms(6)] by simp
  show ?thesis
  proof (cases "cst_last st")
    case None
    then have "sp_cache snap = lru_new (cst_cap st)" using assms(6) by (auto simp: store_snapshot_def put_snap_def Let_def)
    then show ?thesis using fresh_cache [OF assms(1,3) keyed _ f] by (simp add: lru_ok_new)
  next
    case (Some old)
    then have last: "cst_last ((put_snap s1 st)\<lparr>cst_db := d\<rparr>) = Some s1" by (simp add: put_snap_def)
    have t: "lru_ok (sp_cache s1)" "\<And>k v. lru_holds (sp_cache s1) k = Some v \<Longrightarrow> row_of ?j ?tx k = Some v"
      using assms(4,5) by (auto simp: snap_ok_def lru.true_to_def)
    note h = snapshot_holds [OF last t(1) assms(6)]
    obtain B where B: "db_image cj B (cst_db st)" "well_keyed B" "changed_since B c C" "?tx = db_tree (cst_db st)"
      using assms(2) Some by (auto simp: store_inv_def split: if_splits)
    have row: "row_of ?j ?tx (fs, ino) = map_option settled (bget (fs_table (filesystems B) fs) ino)" for fs ino
      using B(1,4) assms(1) by (intro image_row_of) (auto simp: codecs_ok_def db_image_def)
    show ?thesis
    proof (rule fresh_cache [OF assms(1,3) keyed h(1) f])
      fix fs ino p assume "lru_holds (sp_cache snap) (fs, ino) = Some p"
      then have "lru_holds (sp_cache s1) (fs, ino) = Some p" "(fs, ino) \<notin> set (stale_inodes (pc_filesystems c))" "fs |\<notin>| tr_replaced (pc_filesystems c)"
        using h(2) by force+
      then show "map_option settled (bget (fs_table (filesystems C) fs) ino) = Some p"
        using t(2) row kept_rows [OF assms(1) rep B(1) B(4) [symmetric] B(2,3)] by metis
    qed
  qed
qed

lemma attach_map:
  assumes "fss = tr_clear_with (\<lambda>f. f\<lparr>pf_inodes := it_clear_changes (pf_inodes f)\<rparr>) t"
  shows "bextend (tr_map fss) (map (\<lambda>(k, f). (k, attached f)) (bitems (tr_map fss))) = bmap (\<lambda>_. attached) (tr_map t)"
proof (rule btree_eqI)
  fix k
  have a: "attached (f\<lparr>pf_inodes := it_clear_changes (pf_inodes f)\<rparr>) = attached f" for f by (simp add: attached_def it_clear_changes_def)
  have "map (\<lambda>(k, f). (k, attached f)) (bitems (tr_map fss)) = bitems (bmap (\<lambda>_. attached) (tr_map fss))" by (simp add: bitems_bmap)
  then show "bget (bextend (tr_map fss) (map (\<lambda>(k, f). (k, attached f)) (bitems (tr_map fss)))) k = bget (bmap (\<lambda>_. attached) (tr_map t)) k"
    using a by (cases "bget (tr_map t) k")
      (simp_all add: bget_bextend_sorted [OF sorted_bitems] assms tr_clear_with_def tr_clear_def flip: bget_def)
qed

lemma attached_rep:
  assumes "codecs_ok cj" "db_image cj C d" "well_keyed C" "fs_rep (cj_inode cj) tx fs f F" "bget (filesystems C) fs = Some F"
  shows "fs_rep (cj_inode cj) (db_tree d) fs (attached f) F" "it_paged (pf_inodes (attached f)) = Some fs"
proof -
  have "fh_id (pf_head f) = fs" "it_len (pf_inodes f) = bsize (fs_inodes F)" using assms(4) by (auto simp: fs_rep_def head_of_def tab_rep_def)
  then have a: "pf_inodes (attached f) = it_paged_on fs (bsize (fs_inodes F))" by (simp add: attached_def it_paged_on_def)
  moreover have "tab_rep (cj_inode cj) (db_tree d) (it_paged_on fs (bsize (fs_table (filesystems C) fs))) (fs_table (filesystems C) fs)"
    using assms(1-3) well_keyed_numbered by (intro image_tab_rep) (auto simp: codecs_ok_def db_image_def)
  ultimately show "fs_rep (cj_inode cj) (db_tree d) fs (attached f) F"
    using assms(4,5) by (simp add: fs_rep_def fs_table_def) (simp add: attached_def)
  show "it_paged (pf_inodes (attached f)) = Some fs" by (simp add: a it_paged_on_def)
qed

lemma memory_rows:
  assumes "codecs_ok cj" "db_image cj C d" "well_keyed C" "tx_ok (cj_inode cj) tx" "fs_rep (cj_inode cj) tx fs f F" "bget (filesystems C) fs = Some F"
    and "p \<in> set (bvals (tr_map (it_map (pf_inodes f))))"
  shows "row_of (cj_inode cj) (db_tree d) (fs, i_ino (pi_inode p)) = Some (settle_inode p)"
proof -
  have T: "tab_rep (cj_inode cj) tx (pf_inodes f) (fs_inodes F)" using assms(5) by (simp add: fs_rep_def)
  obtain ino where ino: "bget (tr_map (it_map (pf_inodes f))) ino = Some p" using assms(7) by (auto simp: set_bvals)
  then have v: "tab_view (cj_inode cj) (pf_inodes f) tx ino = Some p" by (simp add: tab_view_def)
  then obtain i where i: "bget (fs_inodes F) ino = Some i" "pinode_rep (it_paged (pf_inodes f)) tx p i"
    using tab_rep_view [OF T, of ino] by (auto simp: option_rel_Some1)
  have sh: "pinode_shape ino p" using tab_view_shape(1) [OF assms(4) _ v] T by (simp add: tab_rep_def)
  then have "i_ino (pi_inode p) = ino" by (simp add: pinode_shape_def)
  moreover have "row_of (cj_inode cj) (db_tree d) (fs, ino) = map_option settled (bget (fs_table (filesystems C) fs) ino)"
    using assms(1,2) by (intro image_row_of) (auto simp: codecs_ok_def db_image_def)
  ultimately show ?thesis using settle_eq [OF i(2) sh] i(1) assms(6) by (simp add: fs_table_def)
qed

lemma rep_filesystem:
  assumes "cat_rep cj tx c C" "bget (tr_map (pc_filesystems c)) fs = Some f"
  obtains F where "bget (filesystems C) fs = Some F" "fs_rep (cj_inode cj) tx fs f F"
  using assms unfolding cat_rep_def fss_rep_def by (metis option_rel_Some1)

lemma attach_catalog:
  assumes "codecs_ok cj" "cat_rep cj tx c C" "tx_ok (cj_inode cj) tx" "db_image cj C d" "snap_ok (cj_inode cj) snap" "sp_tx snap = db_tree d"
  defines "t' \<equiv> pc_filesystems (clear_catalog c)"
  shows "\<exists>snap'. attach_all (bitems (tr_map t')) (tr_map t', snap) = (bmap (\<lambda>_. attached) (tr_map (pc_filesystems c)), snap')
    \<and> snap_ok (cj_inode cj) snap' \<and> sp_tx snap' = db_tree d"
proof -
  let ?j = "cj_inode cj" and ?t = "pc_filesystems c"
  note keyed = cat_rep_keyed [OF assms(2,3)]
  have t': "t' = tr_clear_with (\<lambda>f. f\<lparr>pf_inodes := it_clear_changes (pf_inodes f)\<rparr>) ?t" by (simp add: t'_def clear_catalog_def)
  have "\<forall>(k, f) \<in> set (bitems (tr_map t')). \<forall>p \<in> set (bvals (tr_map (it_map (pf_inodes f)))).
      row_of ?j (sp_tx snap) (fh_id (pf_head f), i_ino (pi_inode p)) = Some (settle_inode p)"
  proof (safe)
    fix fs f p assume "(fs, f) \<in> set (bitems (tr_map t'))" "p \<in> set (bvals (tr_map (it_map (pf_inodes f))))"
    then obtain f0 where f0: "bget (tr_map ?t) fs = Some f0" "pf_head f = pf_head f0" "p \<in> set (bvals (tr_map (it_map (pf_inodes f0))))"
      by (auto simp: t' tr_clear_with_def tr_clear_def it_clear_changes_def simp flip: bget_Some_iff split: if_splits)
    obtain F where F: "bget (filesystems C) fs = Some F" "fs_rep ?j tx fs f0 F" using rep_filesystem [OF assms(2) f0(1)] .
    then show "row_of ?j (sp_tx snap) (fh_id (pf_head f), i_ino (pi_inode p)) = Some (settle_inode p)"
      using memory_rows [OF assms(1,4) keyed assms(3) F(2,1) f0(3)] f0(2) assms(6) by (simp add: fs_rep_def head_of_def)
  qed
  from attach_all_spec [OF assms(5) this, of "tr_map t'"] show ?thesis unfolding attach_map [OF t'] assms(6) .
qed

lemma attached_catalog:
  assumes "codecs_ok cj" "cat_rep cj tx c C" "tx_ok (cj_inode cj) tx" "db_image cj C d"
  defines "c' \<equiv> (clear_catalog c)\<lparr>pc_filesystems := (pc_filesystems (clear_catalog c))\<lparr>tr_map := bmap (\<lambda>_. attached) (tr_map (pc_filesystems c))\<rparr>,
    pc_in_store := True\<rparr>"
  shows "cat_rep cj (db_tree d) c' C" "changed_since C c' C"
proof -
  let ?j = "cj_inode cj" and ?t = "pc_filesystems c"
  note keyed = cat_rep_keyed [OF assms(2,3)]
  have tr: "tr_touched (pc_filesystems c') = {||}" "tr_replaced (pc_filesystems c') = {||}"
    "bget (tr_map (pc_filesystems c')) fs = map_option attached (bget (tr_map ?t) fs)" for fs
    by (simp_all add: c'_def clear_catalog_def tr_clear_with_def tr_clear_def)
  have "rel_option (fs_rep ?j (db_tree d) fs) (map_option attached (bget (tr_map ?t) fs)) (bget (filesystems C) fs)" for fs
  proof (cases "bget (tr_map ?t) fs")
    case None
    then have "bget (filesystems C) fs = None" using assms(2) unfolding cat_rep_def fss_rep_def by (metis option.rel_distinct(1) option.exhaust)
    then show ?thesis using None by simp
  next
    case (Some f0)
    obtain F where F: "bget (filesystems C) fs = Some F" "fs_rep ?j tx fs f0 F" using rep_filesystem [OF assms(2) Some] .
    then show ?thesis using attached_rep(1) [OF assms(1,4) keyed F(2,1)] Some by simp
  qed
  then have "fss_rep ?j (db_tree d) (pc_filesystems c') (filesystems C)" unfolding fss_rep_def tr by blast
  moreover have m: "pc_state c' = pc_state c" "pc_volumes c' = tr_clear (pc_volumes c)" "pc_snapshots c' = tr_clear (pc_snapshots c)"
    "pc_extents c' = tr_clear (pc_extents c)" "pc_fs_snapshots c' = tr_clear (pc_fs_snapshots c)" by (simp_all add: c'_def clear_catalog_def)
  ultimately show rep': "cat_rep cj (db_tree d) c' C" using assms(2) by (simp add: cat_rep_def)
  have "it_paged (pf_inodes f) = Some fs" if "bget (tr_map (pc_filesystems c')) fs = Some f" for fs f
  proof -
    obtain f0 where f0: "bget (tr_map ?t) fs = Some f0" "f = attached f0" using \<open>bget _ fs = Some f\<close> by (auto simp: tr)
    obtain F where F: "bget (filesystems C) fs = Some F" "fs_rep ?j tx fs f0 F" using rep_filesystem [OF assms(2) f0(1)] .
    then show ?thesis using attached_rep(2) [OF assms(1,4) keyed F(2,1)] f0(2) by simp
  qed
  moreover have "tr_kept (volumes C) (pc_volumes c')" "tr_kept (snapshots C) (pc_snapshots c')" "tr_kept (extents C) (pc_extents c')"
    "tr_kept (fs_snapshots C) (pc_fs_snapshots c')"
    using assms(2) by (simp_all add: m tr_kept_def tr_clear_def cat_rep_def)
  ultimately show "changed_since C c' C" by (simp add: changed_since_def tr(1,2))
qed

lemma checkpoint_spec:
  assumes "codecs_ok cj" "store_inv cj c st C"
  shows "\<exists>n c' st'. checkpoint cj (c, st) = (Inr n, (c', st')) \<and> db_image cj C (cst_db st') \<and> pc_in_store c' \<and> store_inv cj c' st' C"
proof -
  let ?j = "cj_inode cj" and ?tx = "sp_tx (snap_of st)" and ?t = "pc_filesystems c"
  have rep: "cat_rep cj ?tx c C" and tx0: "tx_ok ?j ?tx" using assms(2) by (auto simp: store_inv_def snap_ok_def)
  note keyed = cat_rep_keyed [OF rep tx0]
  obtain n d s1 where w: "write_catalog cj c (\<not> pc_in_store c) (cst_db st, snap_of st) = (Inr n, (d, s1))" "snap_ok ?j s1" "sp_tx s1 = ?tx"
    "db_image cj C d" using write_catalog_inv [OF assms] by blast
  obtain snap st1 where sn: "store_snapshot (stale_inodes ?t) (tr_replaced ?t) ((put_snap s1 st)\<lparr>cst_db := d\<rparr>) = (snap, st1)" by force
  have f: "sp_tx snap = db_tree d" "cst_db st1 = d" "cst_last st1 = Some snap" using snapshot_frame [OF sn] by simp_all
  have ok: "snap_ok ?j snap" by (rule snapshot_ok [OF assms w(4,2,3) sn])
  define t' where "t' = pc_filesystems (clear_catalog c)"
  obtain snap' where at: "attach_all (bitems (tr_map t')) (tr_map t', snap) = (bmap (\<lambda>_. attached) (tr_map ?t), snap')"
    "snap_ok ?j snap'" "sp_tx snap' = db_tree d" using attach_catalog [OF assms(1) rep tx0 w(4) ok f(1)] unfolding t'_def by blast
  define c' where "c' = (clear_catalog c)\<lparr>pc_filesystems := t'\<lparr>tr_map := bmap (\<lambda>_. attached) (tr_map ?t)\<rparr>, pc_in_store := True\<rparr>"
  define st' where "st' = put_snap snap' st1"
  have r: "checkpoint cj (c, st) = (Inr n, (c', st'))"
    using w(1) sn at(1) by (simp add: checkpoint_def Let_def c'_def st'_def t'_def)
  have s': "snap_of st' = snap'" "cst_db st' = d" "cst_last st' = Some snap'" using f by (simp_all add: st'_def put_snap_def snap_of_def)
  have "cat_rep cj (db_tree d) c' C" "changed_since C c' C"
    using attached_catalog [OF assms(1) rep tx0 w(4)] by (simp_all add: c'_def t'_def)
  then have "store_inv cj c' st' C" using at s' w(4) keyed by (auto simp: store_inv_def c'_def)
  then show ?thesis using r s'(2) w(4) by (auto simp: c'_def)
qed

section \<open>Loading\<close>

lemma parse_rows_enc: "json_ok j \<Longrightarrow> parse_rows j (map (\<lambda>(k, v). (k, js_enc j v)) vs) = Inr vs"
  by (induction vs) (auto simp: json_ok_def)

lemma read_table_enc: "json_ok j \<Longrightarrow> read_table j (bmap (\<lambda>_. js_enc j) m) = Inr (tr_of m)"
  by (simp add: read_table_def bitems_bmap parse_rows_enc)

definition header_of :: "fs_meta \<Rightarrow> fs_header" where
  "header_of F = \<lparr>hd_head = head_of F, hd_inodes = Some (bsize (fs_inodes F))\<rparr>"

lemma header_rows:
  assumes "db_image cj C d"
  shows "db_filesystems d = bmap (\<lambda>_. js_enc (cj_header cj)) (bmap (\<lambda>_. header_of) (filesystems C))"
  using assms by (intro btree_eqI) (simp add: db_image_def header_row_def header_of_def option.map_comp comp_def)

lemma loaded_map:
  assumes "well_keyed C"
  shows "bget (bextend bempty (map (load_fs tx) (bvals (bmap (\<lambda>_. header_of) (filesystems C))))) fs
    = map_option (\<lambda>F. \<lparr>pf_head = head_of F, pf_inodes = it_paged_on fs (bsize (fs_inodes F))\<rparr>) (bget (filesystems C) fs)"
proof -
  let ?g = "\<lambda>k F. \<lparr>pf_head = head_of F, pf_inodes = it_paged_on k (bsize (fs_inodes F))\<rparr>"
  have "map (load_fs tx) (bvals (bmap (\<lambda>_. header_of) (filesystems C))) = bitems (bmap ?g (filesystems C))"
    unfolding bvals_def bitems_bmap map_map using assms
    by (intro map_cong refl) (auto simp: load_fs_def header_of_def head_of_def well_keyed_def simp flip: bget_Some_iff)
  then show ?thesis by simp
qed

lemma load_spec:
  assumes "codecs_ok cj" "db_image cj C (cst_db st)" "well_keyed C"
  shows "\<exists>c' st'. cat_load cj (st\<lparr>cst_last := None\<rparr>) = (Inr (Some c'), st') \<and> pc_in_store c' \<and> cst_db st' = cst_db st
    \<and> tr_replaced (pc_filesystems c') = {||} \<and> store_inv cj c' st' C"
proof -
  let ?d = "cst_db st" and ?tx = "db_tree (cst_db st)"
  define snap where "snap = \<lparr>sp_tx = ?tx, sp_cache = lru_new (cst_cap st)\<rparr>"
  define c' where "c' = \<lparr>pc_state = state_of C, pc_volumes = tr_of (volumes C), pc_snapshots = tr_of (snapshots C), pc_extents = tr_of (extents C),
    pc_fs_snapshots = tr_of (fs_snapshots C),
    pc_filesystems = tr_of (bextend bempty (map (load_fs ?tx) (bvals (bmap (\<lambda>_. header_of) (filesystems C))))), pc_in_store = True\<rparr>"
  have j: "json_ok (cj_inode cj)" "json_ok (cj_state cj)" "json_ok (cj_volume cj)" "json_ok (cj_snapshot cj)" "json_ok (cj_extent cj)"
    "json_ok (cj_fs_snapshot cj)" "json_ok (cj_header cj)" using assms(1) by (simp_all add: codecs_ok_def)
  have i: "tree_image (cj_inode cj) (fs_table (filesystems C)) ?tx" using assms(2) by (simp add: db_image_def)
  have "cat_load cj (st\<lparr>cst_last := None\<rparr>) = (Inr (Some c'), st\<lparr>cst_last := Some snap\<rparr>)"
    using assms(2) j header_rows [OF assms(2)]
    by (simp add: cat_load_def db_image_def json_ok_def [of "cj_state cj"] read_table_enc store_snapshot_def c'_def snap_def Let_def)
  moreover have "snap_ok (cj_inode cj) snap"
    by (rule fresh_cache [OF assms]) (simp_all add: snap_def lru_ok_new)
  moreover have "rel_option (fs_rep (cj_inode cj) ?tx fs) (bget (tr_map (pc_filesystems c')) fs) (bget (filesystems C) fs)" for fs
  proof (cases "bget (filesystems C) fs")
    case (Some F)
    have "tab_rep (cj_inode cj) ?tx (it_paged_on fs (bsize (fs_inodes F))) (fs_inodes F)"
      using image_tab_rep [OF j(1) i, of fs] assms(3) Some by (simp add: fs_table_def well_keyed_def)
    moreover have "fs_id F = fs" using assms(3) Some by (simp add: well_keyed_def)
    ultimately show ?thesis using Some by (simp add: c'_def loaded_map [OF assms(3)] fs_rep_def)
  qed (simp add: c'_def loaded_map [OF assms(3)])
  moreover have "changed_since C c' C"
    by (auto simp: changed_since_def c'_def tr_kept_def tr_of_def loaded_map [OF assms(3)] it_paged_on_def)
  moreover have "tr_replaced (pc_filesystems c') = {||}" by (simp add: c'_def tr_of_def)
  ultimately show ?thesis using assms(2,3)
    by (auto simp: store_inv_def snap_of_def cat_rep_def fss_rep_def snap_def c'_def tr_of_def intro!: exI [of _ C])
qed

section \<open>Every step keeps the invariant\<close>

lemma edit_rep:
  assumes "pinode_rep paged tx p i" "\<And>es i. g (with_entries es i) = with_entries es (g i)" "\<And>i. is_dir (g i) = is_dir i \<and> i_ino (g i) = i_ino i"
  shows "pinode_rep paged tx (p\<lparr>pi_inode := g (pi_inode p)\<rparr>) (g i)"
proof (cases "is_dir (pi_inode p)")
  case True
  then obtain es where "i = with_entries es (pi_inode p)" "\<forall>name. bget es name = dir_view paged tx p name" "de_len (pi_dents p) = bsize es"
    using assms(1) by (auto simp: pinode_rep_def)
  moreover have "dir_view paged tx (p\<lparr>pi_inode := g (pi_inode p)\<rparr>) name = dir_view paged tx p name" for name
    using assms(3) by (simp add: dir_view_def split: option.split)
  ultimately show ?thesis using True assms(2,3) by (auto simp: pinode_rep_def)
next
  case False
  then show ?thesis using assms(1,3) by (auto simp: pinode_rep_def)
qed

lemma edit_shape:
  assumes "pinode_shape ino p" "\<And>es i. g (with_entries es i) = with_entries es (g i)" "\<And>i. is_dir (g i) = is_dir i \<and> i_ino (g i) = i_ino i"
  shows "pinode_shape ino (p\<lparr>pi_inode := g (pi_inode p)\<rparr>)"
  using assms(1,3) by (auto simp: pinode_shape_def simp flip: assms(2))

lemma tab_step_rep:
  assumes "tab_step j (t, s) (t', s')" "tab_rep j (sp_tx s) t T" "snap_ok j s"
  shows "\<exists>T'. tab_rep j (sp_tx s) t' T' \<and> snap_ok j s' \<and> sp_tx s' = sp_tx s \<and> it_paged t' = it_paged t"
  using assms(1)
proof cases
  case (ts_edit g ino)
  let ?g = "\<lambda>p. p\<lparr>pi_inode := g (pi_inode p)\<rparr>"
  show ?thesis
  proof (cases "tab_view j t (sp_tx s) ino")
    case None
    then show ?thesis using get_mut_absent [OF assms(3) None, of ?g] assms(2) ts_edit(1) by auto
  next
    case (Some p)
    then obtain i where i: "pinode_rep (it_paged t) (sp_tx s) p i" using tab_rep_view [OF assms(2), of ino] by (auto simp: option_rel_Some1)
    have "pinode_shape ino p" using tab_view_shape(1) [OF _ _ Some] assms(2,3) by (auto simp: tab_rep_def snap_ok_def)
    then have "pinode_shape ino (?g p)" by (rule edit_shape [OF _ ts_edit(2,3)])
    then show ?thesis
      using tab_rep_get_mut [OF assms(2,3) Some, of ?g "g i"] edit_rep [OF i ts_edit(2,3)] ts_edit(1,3) by auto
  qed
next
  case (ts_insert i)
  have "tab_rep j (sp_tx s) (it_insert (pinode_of i) t) (bput (i_ino i) i T)"
    using ts_insert by (intro tab_rep_insert [OF assms(2)] pinode_of_shape pinode_of_rep) simp_all
  then show ?thesis using ts_insert(1,2) assms(3) by (auto simp: it_insert_def tr_insert_def)
next
  case (ts_remove ino)
  then show ?thesis using tab_rep_remove [OF assms(2,3), of ino] by auto
next
  case (ts_entry d name x)
  then show ?thesis using tab_rep_set_entry [OF assms(2,3), of d name x] by auto
next
  case (ts_read ino)
  then show ?thesis using it_get_reads [OF assms(3), of t ino] assms(2) by (auto simp: reads_def)
next
  case ts_scan
  then show ?thesis using it_scan_spec [OF assms(2,3)] assms(2) by (auto simp: reads_def)
qed

definition meta_of :: "fs_head \<Rightarrow> inode_table \<Rightarrow> fs_meta" where
  "meta_of h T = \<lparr>fs_id = fh_id h, fs_name = fh_name h, fs_next_ino = fh_next_ino h, fs_inodes = T, fs_source_snapshot = fh_source_snapshot h,
     fs_extent_bytes = fh_extent_bytes h, fs_usage_of = fh_usage h, fs_quota_of = fh_quota h, fs_replica = fh_replica h\<rparr>"

lemma meta_of_simps [simp]: "head_of (meta_of h T) = h" "fs_inodes (meta_of h T) = T" "fs_id (meta_of h T) = fh_id h"
  by (simp_all add: meta_of_def head_of_def)

text \<open>Changing one filesystem: what has to hold of the new one.\<close>

lemma fs_change_inv:
  assumes "store_inv cj c st C" and "snap_ok (cj_inode cj) (snap_of st')" "sp_tx (snap_of st') = sp_tx (snap_of st)" "cst_db st' = cst_db st"
    "(cst_last st' = None) = (cst_last st = None)"
    and t: "\<And>k. k \<noteq> fs \<Longrightarrow> bget (tr_map t) k = bget (tr_map (pc_filesystems c)) k"
      "tr_touched t = finsert fs (tr_touched (pc_filesystems c))"
      "tr_replaced t = (if repl then finsert fs (tr_replaced (pc_filesystems c)) else tr_replaced (pc_filesystems c))"
    and x: "rel_option (fs_rep (cj_inode cj) (sp_tx (snap_of st)) fs) (bget (tr_map t) fs) x"
    and p: "\<And>f. bget (tr_map t) fs = Some f \<Longrightarrow> repl \<Longrightarrow> it_paged (pf_inodes f) = None"
      "\<not> repl \<Longrightarrow> \<exists>f f0. bget (tr_map t) fs = Some f \<and> bget (tr_map (pc_filesystems c)) fs = Some f0 \<and> it_paged (pf_inodes f) = it_paged (pf_inodes f0)"
  shows "\<exists>C'. store_inv cj (c\<lparr>pc_filesystems := t\<rparr>) st' C'"
proof -
  define M where "M = (case x of None \<Rightarrow> bdel fs (filesystems C) | Some F \<Rightarrow> bput fs F (filesystems C))"
  have M: "bget M k = (if k = fs then x else bget (filesystems C) k)" for k by (simp add: M_def split: option.split)
  let ?C = "C\<lparr>filesystems := M\<rparr>" and ?c = "c\<lparr>pc_filesystems := t\<rparr>"
  have "rel_option (fs_rep (cj_inode cj) (sp_tx (snap_of st)) k) (bget (tr_map t) k) (bget M k)" for k
    using assms(1) x t(1) [of k] by (cases "k = fs") (auto simp: M store_inv_def cat_rep_def fss_rep_def)
  then have rep: "cat_rep cj (sp_tx (snap_of st)) ?c ?C"
    using assms(1) by (auto simp: store_inv_def cat_rep_def fss_rep_def state_of_def)
  have ch: "changed_since B ?c ?C" if b: "changed_since B c C" for B
  proof -
    have "it_paged (pf_inodes f) = (if k |\<in>| tr_replaced t then None else Some k)" if "bget (tr_map t) k = Some f" for k f
      using that t(1) [of k] t(3) p b unfolding changed_since_def by (cases "k = fs"; cases repl) fastforce+
    moreover have "bget (tr_map t) k \<noteq> None" if "k |\<in>| tr_touched t" "k |\<notin>| tr_replaced t" for k
      using that t(1) [of k] t(2,3) p(2) b unfolding changed_since_def by (cases "k = fs"; cases repl) auto
    ultimately show ?thesis using b t(2,3) unfolding changed_since_def by (auto simp: M)
  qed
  have "pc_in_store c \<or> it_paged (pf_inodes f) = None" if "bget (tr_map t) k = Some f" for k f
    using that assms(1) t(1) [of k] p unfolding store_inv_def by (cases "k = fs"; cases repl) (force split: if_splits)+
  then show ?thesis
    using assms(1-5) rep ch unfolding store_inv_def by (intro exI [of _ ?C]) (auto split: if_splits)
qed

text \<open>The five parts of the catalog that are not filesystems.\<close>

lemma part_inv:
  assumes "store_inv cj c st C" "\<And>tx. cat_rep cj tx c C \<Longrightarrow> cat_rep cj tx c' C'" "\<And>B. changed_since B c C \<Longrightarrow> changed_since B c' C'"
    and "pc_filesystems c' = pc_filesystems c" "pc_in_store c' = pc_in_store c"
  shows "\<exists>C'. store_inv cj c' st C'"
  using assms unfolding store_inv_def by (intro exI [of _ C']) (auto split: if_splits)

lemma state_inv:
  assumes "store_inv cj c st C"
  shows "\<exists>C'. store_inv cj (c\<lparr>pc_state := x\<rparr>) st C'"
  by (rule part_inv [OF assms, of _ "C\<lparr>applied_index := st_applied_index x, current_term := st_current_term x, free := st_free x,
      membership_of := st_membership x, raft_addrs := st_raft_addrs x, leases_of := st_leases x\<rparr>"])
    (simp_all add: cat_rep_def state_of_def changed_since_def)

lemma rows_inv:
  assumes "store_inv cj c st C"
  shows "tr_step (pc_volumes c) v \<Longrightarrow> \<exists>C'. store_inv cj (c\<lparr>pc_volumes := v\<rparr>) st C'"
    and "tr_step (pc_snapshots c) n \<Longrightarrow> \<exists>C'. store_inv cj (c\<lparr>pc_snapshots := n\<rparr>) st C'"
    and "tr_step (pc_extents c) e \<Longrightarrow> \<exists>C'. store_inv cj (c\<lparr>pc_extents := e\<rparr>) st C'"
    and "tr_step (pc_fs_snapshots c) m \<Longrightarrow> \<exists>C'. store_inv cj (c\<lparr>pc_fs_snapshots := m\<rparr>) st C'"
  by (rule part_inv [OF assms, of _ "C\<lparr>volumes := tr_map v\<rparr>"] part_inv [OF assms, of _ "C\<lparr>snapshots := tr_map n\<rparr>"]
      part_inv [OF assms, of _ "C\<lparr>extents := tr_map e\<rparr>"] part_inv [OF assms, of _ "C\<lparr>fs_snapshots := tr_map m\<rparr>"],
      auto simp: cat_rep_def state_of_def changed_since_def intro: tr_kept_step; fail)+

text \<open>The changes of one filesystem.\<close>

lemma store_inv_fs:
  assumes "store_inv cj c st C" "bget (tr_map (pc_filesystems c)) fs = Some f"
  obtains F where "bget (filesystems C) fs = Some F" "fs_rep (cj_inode cj) (sp_tx (snap_of st)) fs f F"
  using assms unfolding store_inv_def cat_rep_def fss_rep_def by (metis option_rel_Some1)

lemma fs_insert_inv:
  assumes "store_inv cj c st C" "numbered T" "fh_id h = fs"
  shows "\<exists>C'. store_inv cj (c\<lparr>pc_filesystems := snd (tr_insert fs \<lparr>pf_head = h, pf_inodes = it_of (bvals T)\<rparr> (pc_filesystems c))\<rparr>) st C'"
  using assms it_of_rep [OF assms(2)]
  by (intro fs_change_inv [OF assms(1), where fs = fs and repl = True and x = "Some (meta_of h T)"])
    (auto simp: store_inv_def fs_rep_def tr_insert_def)

lemma fs_remove_inv:
  assumes "store_inv cj c st C"
  shows "\<exists>C'. store_inv cj (c\<lparr>pc_filesystems := snd (tr_remove fs (pc_filesystems c))\<rparr>) st C'"
proof (cases "bget (tr_map (pc_filesystems c)) fs")
  case None
  then show ?thesis using assms by (auto simp: tr_remove_def)
next
  case (Some f)
  then show ?thesis using assms
    by (intro fs_change_inv [OF assms, where fs = fs and repl = True and x = None]) (auto simp: store_inv_def tr_remove_def)
qed

lemma fs_edit_inv:
  assumes "store_inv cj c st C" "bget (tr_map (pc_filesystems c)) fs = Some f"
    and "fs_rep (cj_inode cj) (sp_tx (snap_of st)) fs (g f) F" "it_paged (pf_inodes (g f)) = it_paged (pf_inodes f)"
    and "snap_ok (cj_inode cj) s" "sp_tx s = sp_tx (snap_of st)"
  shows "\<exists>C'. store_inv cj (c\<lparr>pc_filesystems := tr_edit fs g (pc_filesystems c)\<rparr>) (put_snap s st) C'"
proof -
  have "snap_ok (cj_inode cj) (snap_of (put_snap s st)) \<and> sp_tx (snap_of (put_snap s st)) = sp_tx (snap_of st)"
    using assms(1,5,6) by (cases "cst_last st") (auto simp: snap_of_def put_snap_def store_inv_def)
  then show ?thesis using assms(2-4)
    by (intro fs_change_inv [OF assms(1), where fs = fs and repl = False and x = "Some F"]) (auto simp: tr_edit_def put_snap_def)
qed

lemma put_own_snap [simp]: "put_snap (snap_of st) st = st"
  by (cases "cst_last st") (simp_all add: put_snap_def snap_of_def)

lemma fs_head_inv:
  assumes "store_inv cj c st C" "\<And>h. fh_id (g h) = fh_id h"
  shows "\<exists>C'. store_inv cj (c\<lparr>pc_filesystems := tr_edit fs (\<lambda>f. f\<lparr>pf_head := g (pf_head f)\<rparr>) (pc_filesystems c)\<rparr>) st C'"
proof (cases "bget (tr_map (pc_filesystems c)) fs")
  case None
  then show ?thesis using assms by (auto simp: tr_edit_def)
next
  case (Some f)
  obtain F where F: "fs_rep (cj_inode cj) (sp_tx (snap_of st)) fs f F" using store_inv_fs [OF assms(1) Some] .
  then have "fs_rep (cj_inode cj) (sp_tx (snap_of st)) fs (f\<lparr>pf_head := g (pf_head f)\<rparr>) (meta_of (g (pf_head f)) (fs_inodes F))"
    using assms(2) by (auto simp: fs_rep_def) (simp add: head_of_def)
  then show ?thesis
    using fs_edit_inv [OF assms(1) Some, where g = "\<lambda>f. f\<lparr>pf_head := g (pf_head f)\<rparr>" and s = "snap_of st"] assms(1) by (auto simp: store_inv_def)
qed

lemma fs_tree_inv:
  assumes "store_inv cj c st C" "bget (tr_map (pc_filesystems c)) fs = Some f" "tab_step (cj_inode cj) (pf_inodes f, snap_of st) (t, s)"
  shows "\<exists>C'. store_inv cj (c\<lparr>pc_filesystems := tr_edit fs (\<lambda>f. f\<lparr>pf_inodes := t\<rparr>) (pc_filesystems c)\<rparr>) (put_snap s st) C'"
proof -
  obtain F where F: "fs_rep (cj_inode cj) (sp_tx (snap_of st)) fs f F" using store_inv_fs [OF assms(1,2)] .
  then have "tab_rep (cj_inode cj) (sp_tx (snap_of st)) (pf_inodes f) (fs_inodes F)" by (simp add: fs_rep_def)
  moreover have "snap_ok (cj_inode cj) (snap_of st)" using assms(1) by (simp add: store_inv_def)
  ultimately obtain T where T: "tab_rep (cj_inode cj) (sp_tx (snap_of st)) t T" "snap_ok (cj_inode cj) s" "sp_tx s = sp_tx (snap_of st)"
    "it_paged t = it_paged (pf_inodes f)" using tab_step_rep [OF assms(3)] by blast
  then have "fs_rep (cj_inode cj) (sp_tx (snap_of st)) fs (f\<lparr>pf_inodes := t\<rparr>) (meta_of (pf_head f) T)"
    using F by (auto simp: fs_rep_def) (simp add: head_of_def)
  with fs_edit_inv [OF assms(1,2) _ _ T(2,3), where g = "\<lambda>f. f\<lparr>pf_inodes := t\<rparr>"] show ?thesis using T(4) by simp
qed

text \<open>Restarts.\<close>

lemma no_snap_ok: "snap_ok j no_snap"
  by (simp add: snap_ok_def tx_ok_def no_snap_def lru.true_to_def lru_ok_new)

lemma new_store_inv: "store_inv cj new_pcatalog (new_store cap) empty_catalog"
  by (simp add: store_inv_def no_snap_ok new_pcatalog_def new_store_def snap_of_def cat_rep_def fss_rep_def tr_empty_def empty_catalog_def state_of_def)

lemma reopen_inv:
  assumes "codecs_ok cj" "store_inv cj c st C" "cat_load cj (st\<lparr>cst_last := None\<rparr>) = (Inr x, st')"
  shows "\<exists>C'. store_inv cj (case x of Some c' \<Rightarrow> c' | None \<Rightarrow> new_pcatalog) st' C'"
proof (cases "pc_in_store c")
  case True
  then obtain B where B: "db_image cj B (cst_db st)" "well_keyed B" using assms(2) by (auto simp: store_inv_def)
  then show ?thesis using load_spec [OF assms(1) B] assms(3) by auto
next
  case False
  then have "cst_db st = empty_db" "cst_last st = None" using assms(2) by (auto simp: store_inv_def)
  then have "x = None" "st' = new_store (cst_cap st)" using assms(3) by (auto simp: cat_load_def empty_db_def new_store_def)
  then show ?thesis using new_store_inv by auto
qed

lemma store_step_inv:
  assumes "codecs_ok cj" "store_step cj (c, st) (c', st')" "store_inv cj c st C"
  shows "\<exists>C'. store_inv cj c' st' C'"
  using assms(2)
proof cases
  case (sp_checkpoint n)
  then show ?thesis using checkpoint_spec [OF assms(1,3)] by auto
next
  case (sp_reopen x)
  then show ?thesis using reopen_inv [OF assms(1,3)] by auto
qed (use assms(3) in \<open>auto intro: state_inv rows_inv fs_insert_inv fs_remove_inv fs_head_inv fs_tree_inv\<close>)

lemma store_reach_inv:
  assumes "store_reach cj cs" "codecs_ok cj"
  shows "\<exists>C. store_inv cj (fst cs) (snd cs) C"
  using assms(1)
proof induction
  case (sr_new cap)
  then show ?case using new_store_inv by auto
next
  case (sr_step cs cs')
  then show ?case using store_step_inv [OF assms(2)] by (cases cs; cases cs') auto
qed

end
