(* ===== verification/RowCodecs.thy ===== *)
theory RowCodecs
  imports CatalogStore
begin

text \<open>
  A concrete codec for every kind of row of the catalog store. The store writes its rows with a JSON
  library, which the model takes as a parameter with one law: decoding gives back what was encoded.
  The codecs here have the law, so what is proved from it is about something. They are built from
  prefix codes over numbers, one combinator per way of making a type.
\<close>

section \<open>Prefix codes\<close>

record 'a code =
  cd_en :: "'a \<Rightarrow> nat list"
  cd_de :: "nat list \<Rightarrow> ('a \<times> nat list) option"

definition code_ok :: "'a code \<Rightarrow> bool" where
  "code_ok c \<longleftrightarrow> (\<forall>v r. cd_de c (cd_en c v @ r) = Some (v, r))"

named_theorems codes

lemma code_okD: "code_ok c \<Longrightarrow> cd_de c (cd_en c v @ r) = Some (v, r)"
  by (simp add: code_ok_def)

definition c_nat :: "nat code" where
  "c_nat = \<lparr>cd_en = \<lambda>n. [n], cd_de = \<lambda>l. case l of [] \<Rightarrow> None | n # r \<Rightarrow> Some (n, r)\<rparr>"

definition c_pair :: "'a code \<Rightarrow> 'b code \<Rightarrow> ('a \<times> 'b) code" where
  "c_pair a b = \<lparr>cd_en = \<lambda>(x, y). cd_en a x @ cd_en b y,
     cd_de = \<lambda>l. case cd_de a l of None \<Rightarrow> None | Some (x, r) \<Rightarrow>
       (case cd_de b r of None \<Rightarrow> None | Some (y, r') \<Rightarrow> Some ((x, y), r'))\<rparr>"

definition c_via :: "('a \<Rightarrow> 'b) \<Rightarrow> ('b \<Rightarrow> 'a) \<Rightarrow> 'b code \<Rightarrow> 'a code" where
  "c_via f g c = \<lparr>cd_en = \<lambda>v. cd_en c (f v), cd_de = \<lambda>l. map_option (\<lambda>(v, r). (g v, r)) (cd_de c l)\<rparr>"

fun de_times :: "'a code \<Rightarrow> nat \<Rightarrow> nat list \<Rightarrow> ('a list \<times> nat list) option" where
  "de_times c 0 l = Some ([], l)"
| "de_times c (Suc n) l = (case cd_de c l of None \<Rightarrow> None | Some (x, r) \<Rightarrow>
     (case de_times c n r of None \<Rightarrow> None | Some (xs, r') \<Rightarrow> Some (x # xs, r')))"

definition c_list :: "'a code \<Rightarrow> 'a list code" where
  "c_list c = \<lparr>cd_en = \<lambda>xs. length xs # concat (map (cd_en c) xs),
     cd_de = \<lambda>l. case l of [] \<Rightarrow> None | n # r \<Rightarrow> de_times c n r\<rparr>"

definition c_option :: "'a code \<Rightarrow> 'a option code" where
  "c_option c = c_via (\<lambda>x. case x of None \<Rightarrow> [] | Some v \<Rightarrow> [v]) (\<lambda>l. case l of [] \<Rightarrow> None | v # _ \<Rightarrow> Some v) (c_list c)"

definition c_bool :: "bool code" where
  "c_bool = c_via (\<lambda>b. if b then 1 else 0) (\<lambda>n. n = 1) c_nat"

definition c_int :: "int code" where
  "c_int = c_via (\<lambda>i. (i < 0, nat \<bar>i\<bar>)) (\<lambda>(neg, n). if neg then - int n else int n) (c_pair c_bool c_nat)"

definition c_word :: "'a::len word code" where
  "c_word = c_via unat of_nat c_nat"

definition c_string :: "string code" where
  "c_string = c_list (c_via of_char char_of c_nat)"

definition c_btree :: "'k::linorder code \<Rightarrow> 'v code \<Rightarrow> ('k, 'v) btree code" where
  "c_btree k v = c_via bitems (bextend bempty) (c_list (c_pair k v))"

definition c_fset :: "'a::linorder code \<Rightarrow> 'a fset code" where
  "c_fset c = c_via sorted_list_of_fset fset_of_list (c_list c)"

lemma c_nat_ok [codes]: "code_ok c_nat"
  by (simp add: code_ok_def c_nat_def)

lemma c_pair_ok [codes]: "code_ok a \<Longrightarrow> code_ok b \<Longrightarrow> code_ok (c_pair a b)"
  by (auto simp: code_ok_def c_pair_def)

lemma c_via_ok: "code_ok c \<Longrightarrow> (\<And>v. g (f v) = v) \<Longrightarrow> code_ok (c_via f g c)"
  by (simp add: code_ok_def c_via_def)

lemma de_times_en: "code_ok c \<Longrightarrow> de_times c (length xs) (concat (map (cd_en c) xs) @ r) = Some (xs, r)"
  by (induction xs) (simp_all add: code_okD)

lemma c_list_ok [codes]: "code_ok c \<Longrightarrow> code_ok (c_list c)"
  unfolding code_ok_def [of "c_list c"] by (simp add: c_list_def de_times_en)

lemma c_option_ok [codes]: "code_ok c \<Longrightarrow> code_ok (c_option c)"
  unfolding c_option_def by (intro c_via_ok codes) (auto split: option.split)

lemma c_bool_ok [codes]: "code_ok c_bool"
  unfolding c_bool_def by (intro c_via_ok codes) auto

lemma c_int_ok [codes]: "code_ok c_int"
  unfolding c_int_def by (intro c_via_ok codes) auto

lemma c_word_ok [codes]: "code_ok (c_word :: 'a::len word code)"
  unfolding c_word_def by (intro c_via_ok codes) simp

lemma c_string_ok [codes]: "code_ok c_string"
  unfolding c_string_def by (intro c_via_ok codes) simp

lemma c_btree_ok [codes]: "code_ok k \<Longrightarrow> code_ok v \<Longrightarrow> code_ok (c_btree k v)"
  unfolding c_btree_def by (intro c_via_ok codes) auto

lemma c_fset_ok [codes]: "code_ok c \<Longrightarrow> code_ok (c_fset c)"
  unfolding c_fset_def by (intro c_via_ok codes) (auto simp: fset_eq_iff fset_of_list_elem)

section \<open>Rows\<close>

definition c_lock_kind :: "lock_kind code" where
  "c_lock_kind = c_via (\<lambda>k. k = Write) (\<lambda>w. if w then Write else Read) c_bool"

definition c_membership :: "membership code" where
  "c_membership = c_via (\<lambda>m. case m of Stable v \<Rightarrow> (None, v) | Joint old new \<Rightarrow> (Some old, new))
     (\<lambda>(old, new). case old of None \<Rightarrow> Stable new | Some old \<Rightarrow> Joint old new) (c_pair (c_option (c_fset c_string)) (c_fset c_string))"

definition c_node_type :: "node_type code" where
  "c_node_type = c_via (\<lambda>t. case t of TFile \<Rightarrow> 0 | TDir \<Rightarrow> 1 | TSymlink \<Rightarrow> 2 | TFifo \<Rightarrow> 3 | TSocket \<Rightarrow> 4 | TCharDevice \<Rightarrow> 5 | TBlockDevice \<Rightarrow> 6)
     (\<lambda>n. if n = 0 then TFile else if n = 1 then TDir else if n = 2 then TSymlink else if n = 3 then TFifo
        else if n = 4 then TSocket else if n = 5 then TCharDevice else TBlockDevice) c_nat"

definition kind_parts :: "inode_kind \<Rightarrow> nat \<times> dir_entries \<times> extent_map \<times> string \<times> node_type option" where
  "kind_parts k = (case k of Dir p es \<Rightarrow> (p, es, bempty, ''d'', None) | File n m \<Rightarrow> (n, bempty, m, ''f'', None)
     | Symlink t \<Rightarrow> (0, bempty, bempty, CHR ''s'' # t, None) | Special t r \<Rightarrow> (r, bempty, bempty, [], Some t))"

definition kind_of :: "nat \<times> dir_entries \<times> extent_map \<times> string \<times> node_type option \<Rightarrow> inode_kind" where
  "kind_of = (\<lambda>(n, es, m, s, t). case t of Some t \<Rightarrow> Special t n
     | None \<Rightarrow> if s = ''d'' then Dir n es else if s = ''f'' then File n m else Symlink (tl s))"

definition c_kind :: "inode_kind code" where
  "c_kind = c_via kind_parts kind_of
     (c_pair c_nat (c_pair (c_btree c_string c_nat) (c_pair (c_btree c_nat c_string) (c_pair c_string (c_option c_node_type)))))"

definition c_row_entries :: "row_entries code" where
  "c_row_entries = c_via (\<lambda>e. case e of EntryCount n \<Rightarrow> (Some n, bempty) | EntryMap m \<Rightarrow> (None, m))
     (\<lambda>(n, m). case n of Some n \<Rightarrow> EntryCount n | None \<Rightarrow> EntryMap m) (c_pair (c_option c_nat) (c_btree c_string c_nat))"

definition c_free_range :: "free_range code" where
  "c_free_range = c_via (\<lambda>r. (fr_node r, fr_dev r, fr_off r, fr_len r))
     (\<lambda>(v0, v1, v2, v3). \<lparr>fr_node = v0, fr_dev = v1, fr_off = v2, fr_len = v3\<rparr>)
     (c_pair c_string (c_pair c_nat (c_pair c_nat c_nat)))"

definition c_session :: "session code" where
  "c_session = c_via (\<lambda>r. (s_ttl_ms r, s_expires_ms r, s_cache r, s_term r))
     (\<lambda>(v0, v1, v2, v3). \<lparr>s_ttl_ms = v0, s_expires_ms = v1, s_cache = v2, s_term = v3\<rparr>)
     (c_pair c_nat (c_pair c_nat (c_pair c_bool c_nat)))"

definition c_file_lock :: "file_lock code" where
  "c_file_lock = c_via (\<lambda>r. (lk_ino r, lk_session r, lk_owner r, lk_kind r, lk_start r, lk_end r, lk_pid r))
     (\<lambda>(v0, v1, v2, v3, v4, v5, v6). \<lparr>lk_ino = v0, lk_session = v1, lk_owner = v2, lk_kind = v3, lk_start = v4, lk_end = v5, lk_pid = v6\<rparr>)
     (c_pair c_nat (c_pair c_string (c_pair c_nat (c_pair c_lock_kind (c_pair c_nat (c_pair c_nat c_nat))))))"

definition c_leases :: "leases code" where
  "c_leases = c_via (\<lambda>r. (sessions r, locks r))
     (\<lambda>(v0, v1). \<lparr>sessions = v0, locks = v1\<rparr>)
     (c_pair (c_btree c_string c_session) (c_btree c_string (c_list c_file_lock)))"

definition c_state :: "cat_state code" where
  "c_state = c_via (\<lambda>r. (st_applied_index r, st_current_term r, st_free r, st_membership r, st_raft_addrs r, st_leases r))
     (\<lambda>(v0, v1, v2, v3, v4, v5). \<lparr>st_applied_index = v0, st_current_term = v1, st_free = v2, st_membership = v3, st_raft_addrs = v4, st_leases = v5\<rparr>)
     (c_pair c_nat (c_pair c_nat (c_pair (c_list c_free_range) (c_pair (c_option c_membership) (c_pair (c_btree c_string c_string) c_leases)))))"

definition c_volume :: "volume_meta code" where
  "c_volume = c_via (\<lambda>r. (v_id r, v_name r, v_size_bytes r, v_extents r))
     (\<lambda>(v0, v1, v2, v3). \<lparr>v_id = v0, v_name = v1, v_size_bytes = v2, v_extents = v3\<rparr>)
     (c_pair c_string (c_pair c_string (c_pair c_nat (c_btree c_nat c_string))))"

definition c_snapshot :: "snapshot_meta code" where
  "c_snapshot = c_via (\<lambda>r. (sn_id r, sn_volume_id r, sn_name r, sn_size_bytes r, sn_extents r))
     (\<lambda>(v0, v1, v2, v3, v4). \<lparr>sn_id = v0, sn_volume_id = v1, sn_name = v2, sn_size_bytes = v3, sn_extents = v4\<rparr>)
     (c_pair c_string (c_pair c_string (c_pair c_string (c_pair c_nat (c_btree c_nat c_string)))))"

definition c_replica_ref :: "replica_ref code" where
  "c_replica_ref = c_via (\<lambda>r. (r_node_id r, r_device_index r, r_offset r))
     (\<lambda>(v0, v1, v2). \<lparr>r_node_id = v0, r_device_index = v1, r_offset = v2\<rparr>)
     (c_pair c_string (c_pair c_nat c_nat))"

definition c_ec_layout :: "ec_layout code" where
  "c_ec_layout = c_via (\<lambda>r. (ly_data r, ly_parity r, ly_shard_len r, ly_checksums r))
     (\<lambda>(v0, v1, v2, v3). \<lparr>ly_data = v0, ly_parity = v1, ly_shard_len = v2, ly_checksums = v3\<rparr>)
     (c_pair c_nat (c_pair c_nat (c_pair c_nat (c_list (c_list c_word)))))"

definition c_extent_ref :: "extent_ref code" where
  "c_extent_ref = c_via (\<lambda>r. (x_id r, x_logical_offset r, x_len r, x_checksum r, x_replicas r, x_ec r, x_created_ms r, x_object r))
     (\<lambda>(v0, v1, v2, v3, v4, v5, v6, v7). \<lparr>x_id = v0, x_logical_offset = v1, x_len = v2, x_checksum = v3, x_replicas = v4, x_ec = v5, x_created_ms = v6, x_object = v7\<rparr>)
     (c_pair c_string (c_pair c_nat (c_pair c_nat (c_pair (c_list c_word) (c_pair (c_list c_replica_ref) (c_pair (c_option c_ec_layout) (c_pair c_nat (c_option c_string))))))))"

definition c_extent :: "extent_meta code" where
  "c_extent = c_via (\<lambda>r. (em_extent r, em_refs r, em_tombstoned r))
     (\<lambda>(v0, v1, v2). \<lparr>em_extent = v0, em_refs = v1, em_tombstoned = v2\<rparr>)
     (c_pair c_extent_ref (c_pair c_nat c_bool))"

definition c_inode :: "inode code" where
  "c_inode = c_via (\<lambda>r. (i_ino r, i_kind r, i_mode r, i_uid r, i_gid r, i_nlink r, i_atime_ns r, i_mtime_ns r, i_ctime_ns r, i_op_id r, i_xattrs r))
     (\<lambda>(v0, v1, v2, v3, v4, v5, v6, v7, v8, v9, v10). \<lparr>i_ino = v0, i_kind = v1, i_mode = v2, i_uid = v3, i_gid = v4, i_nlink = v5, i_atime_ns = v6, i_mtime_ns = v7, i_ctime_ns = v8, i_op_id = v9, i_xattrs = v10\<rparr>)
     (c_pair c_nat (c_pair c_kind (c_pair c_word (c_pair c_nat (c_pair c_nat (c_pair c_nat (c_pair c_int (c_pair c_int (c_pair c_int (c_pair c_string (c_btree c_string (c_list c_word))))))))))))"

definition c_usage :: "fs_usage code" where
  "c_usage = c_via (\<lambda>r. (u_file_bytes r, u_used_bytes r))
     (\<lambda>(v0, v1). \<lparr>u_file_bytes = v0, u_used_bytes = v1\<rparr>)
     (c_pair c_nat c_nat)"

definition c_quota :: "fs_quota code" where
  "c_quota = c_via (\<lambda>r. (q_max_bytes r, q_max_inodes r))
     (\<lambda>(v0, v1). \<lparr>q_max_bytes = v0, q_max_inodes = v1\<rparr>)
     (c_pair (c_option c_nat) (c_option c_nat))"

definition c_replica :: "replica_state code" where
  "c_replica = c_via (\<lambda>r. (rs_base r, rs_local r, rs_pending r))
     (\<lambda>(v0, v1, v2). \<lparr>rs_base = v0, rs_local = v1, rs_pending = v2\<rparr>)
     (c_pair (c_option c_string) (c_pair (c_option c_string) (c_option c_string)))"

definition c_head :: "fs_head code" where
  "c_head = c_via (\<lambda>r. (fh_id r, fh_name r, fh_next_ino r, fh_source_snapshot r, fh_extent_bytes r, fh_usage r, fh_quota r, fh_replica r))
     (\<lambda>(v0, v1, v2, v3, v4, v5, v6, v7). \<lparr>fh_id = v0, fh_name = v1, fh_next_ino = v2, fh_source_snapshot = v3, fh_extent_bytes = v4, fh_usage = v5, fh_quota = v6, fh_replica = v7\<rparr>)
     (c_pair c_string (c_pair c_string (c_pair c_nat (c_pair (c_option c_string) (c_pair (c_option c_nat) (c_pair (c_option c_usage) (c_pair (c_option c_quota) (c_option c_replica))))))))"

definition c_header :: "fs_header code" where
  "c_header = c_via (\<lambda>r. (hd_head r, hd_inodes r))
     (\<lambda>(v0, v1). \<lparr>hd_head = v0, hd_inodes = v1\<rparr>)
     (c_pair c_head (c_option c_nat))"

definition c_fs :: "fs_meta code" where
  "c_fs = c_via (\<lambda>r. (fs_id r, fs_name r, fs_next_ino r, fs_inodes r, fs_source_snapshot r, fs_extent_bytes r, fs_usage_of r, fs_quota_of r, fs_replica r))
     (\<lambda>(v0, v1, v2, v3, v4, v5, v6, v7, v8). \<lparr>fs_id = v0, fs_name = v1, fs_next_ino = v2, fs_inodes = v3, fs_source_snapshot = v4, fs_extent_bytes = v5, fs_usage_of = v6, fs_quota_of = v7, fs_replica = v8\<rparr>)
     (c_pair c_string (c_pair c_string (c_pair c_nat (c_pair (c_btree c_nat c_inode) (c_pair (c_option c_string) (c_pair (c_option c_nat) (c_pair (c_option c_usage) (c_pair (c_option c_quota) (c_option c_replica)))))))))"

definition c_fs_snapshot :: "fs_snapshot_meta code" where
  "c_fs_snapshot = c_via (\<lambda>r. (ss_id r, ss_fs_id r, ss_name r, ss_created_ns r, ss_tree r))
     (\<lambda>(v0, v1, v2, v3, v4). \<lparr>ss_id = v0, ss_fs_id = v1, ss_name = v2, ss_created_ns = v3, ss_tree = v4\<rparr>)
     (c_pair c_string (c_pair c_string (c_pair c_string (c_pair c_int c_fs))))"

definition c_inode_row :: "inode_row code" where
  "c_inode_row = c_via (\<lambda>r. (ir_inode r, ir_entries r))
     (\<lambda>(v0, v1). \<lparr>ir_inode = v0, ir_entries = v1\<rparr>)
     (c_pair c_inode c_row_entries)"

lemma c_lock_kind_ok [codes]: "code_ok c_lock_kind"
  unfolding c_lock_kind_def by (intro c_via_ok codes) (case_tac v; simp)

lemma c_membership_ok [codes]: "code_ok c_membership"
  unfolding c_membership_def by (intro c_via_ok codes) (auto split: membership.split)

lemma c_node_type_ok [codes]: "code_ok c_node_type"
  unfolding c_node_type_def by (intro c_via_ok codes) (auto split: node_type.split)

lemma c_kind_ok [codes]: "code_ok c_kind"
  unfolding c_kind_def by (intro c_via_ok codes) (auto simp: kind_parts_def kind_of_def split: inode_kind.split)

lemma c_row_entries_ok [codes]: "code_ok c_row_entries"
  unfolding c_row_entries_def by (intro c_via_ok codes) (auto split: row_entries.split)

lemma c_free_range_ok [codes]: "code_ok c_free_range"
  unfolding c_free_range_def by (intro c_via_ok codes) simp

lemma c_session_ok [codes]: "code_ok c_session"
  unfolding c_session_def by (intro c_via_ok codes) simp

lemma c_file_lock_ok [codes]: "code_ok c_file_lock"
  unfolding c_file_lock_def by (intro c_via_ok codes) simp

lemma c_leases_ok [codes]: "code_ok c_leases"
  unfolding c_leases_def by (intro c_via_ok codes) simp

lemma c_state_ok [codes]: "code_ok c_state"
  unfolding c_state_def by (intro c_via_ok codes) simp

lemma c_volume_ok [codes]: "code_ok c_volume"
  unfolding c_volume_def by (intro c_via_ok codes) simp

lemma c_snapshot_ok [codes]: "code_ok c_snapshot"
  unfolding c_snapshot_def by (intro c_via_ok codes) simp

lemma c_replica_ref_ok [codes]: "code_ok c_replica_ref"
  unfolding c_replica_ref_def by (intro c_via_ok codes) simp

lemma c_ec_layout_ok [codes]: "code_ok c_ec_layout"
  unfolding c_ec_layout_def by (intro c_via_ok codes) simp

lemma c_extent_ref_ok [codes]: "code_ok c_extent_ref"
  unfolding c_extent_ref_def by (intro c_via_ok codes) simp

lemma c_extent_ok [codes]: "code_ok c_extent"
  unfolding c_extent_def by (intro c_via_ok codes) simp

lemma c_inode_ok [codes]: "code_ok c_inode"
  unfolding c_inode_def by (intro c_via_ok codes) simp

lemma c_usage_ok [codes]: "code_ok c_usage"
  unfolding c_usage_def by (intro c_via_ok codes) simp

lemma c_quota_ok [codes]: "code_ok c_quota"
  unfolding c_quota_def by (intro c_via_ok codes) simp

lemma c_replica_ok [codes]: "code_ok c_replica"
  unfolding c_replica_def by (intro c_via_ok codes) simp

lemma c_head_ok [codes]: "code_ok c_head"
  unfolding c_head_def by (intro c_via_ok codes) simp

lemma c_header_ok [codes]: "code_ok c_header"
  unfolding c_header_def by (intro c_via_ok codes) simp

lemma c_fs_ok [codes]: "code_ok c_fs"
  unfolding c_fs_def by (intro c_via_ok codes) simp

lemma c_fs_snapshot_ok [codes]: "code_ok c_fs_snapshot"
  unfolding c_fs_snapshot_def by (intro c_via_ok codes) simp

lemma c_inode_row_ok [codes]: "code_ok c_inode_row"
  unfolding c_inode_row_def by (intro c_via_ok codes) simp

section \<open>Bytes\<close>

text \<open>A number is that many ones and a zero.\<close>

definition to_bytes :: "nat list \<Rightarrow> byte list" where
  "to_bytes ns = concat (map (\<lambda>n. replicate n 1 @ [0]) ns)"

fun of_bytes :: "nat \<Rightarrow> byte list \<Rightarrow> nat list" where
  "of_bytes n [] = []"
| "of_bytes n (b # bs) = (if b = 0 then n # of_bytes 0 bs else of_bytes (Suc n) bs)"

definition row_json :: "'a code \<Rightarrow> 'a json" where
  "row_json c = \<lparr>js_enc = \<lambda>v. to_bytes (cd_en c v), js_dec = \<lambda>bs. map_option fst (cd_de c (of_bytes 0 bs))\<rparr>"

definition row_codecs :: codecs where
  "row_codecs = \<lparr>cj_state = row_json c_state, cj_volume = row_json c_volume, cj_snapshot = row_json c_snapshot, cj_extent = row_json c_extent,
     cj_fs_snapshot = row_json c_fs_snapshot, cj_header = row_json c_header, cj_inode = row_json c_inode_row\<rparr>"

lemma of_bytes_number: "of_bytes m (replicate n 1 @ 0 # bs) = (m + n) # of_bytes 0 bs"
  by (induction n arbitrary: m) simp_all

lemma of_to_bytes: "of_bytes 0 (to_bytes ns) = ns"
  by (induction ns) (simp_all add: to_bytes_def of_bytes_number)

lemma row_json_ok: "code_ok c \<Longrightarrow> json_ok (row_json c)"
  using code_okD [of c _ "[]"] by (simp add: json_ok_def row_json_def of_to_bytes)

lemma row_codecs_ok: "codecs_ok row_codecs"
  unfolding codecs_ok_def row_codecs_def by (simp add: row_json_ok codes)

end
