(* ===== verification/StoreSpec.thy ===== *)
theory StoreSpec
  imports StoreInv RowCodecs
begin

text \<open>
  What the catalog store promises: a paged inode table answers as the plain table it stands for, the
  rows in the database are well typed, writing the changes leaves the rows that writing everything
  leaves, and a checkpoint followed by a restart gives the catalog back.
\<close>

section \<open>Paged tables\<close>

definition stands_for :: "inode_row json \<Rightarrow> inode_tab \<times> store_snap \<Rightarrow> inode_table \<Rightarrow> bool" where
  "stands_for j = (\<lambda>(t, s) T. tab_rep j (sp_tx s) t T \<and> snap_ok j s)"

text \<open>A reading operation returns \<open>x\<close> and leaves what the table stands for.\<close>

definition answers :: "inode_row json \<Rightarrow> inode_tab \<Rightarrow> inode_table \<Rightarrow> ('a \<Rightarrow> bool) \<Rightarrow> ('a, store_snap) change \<Rightarrow> bool" where
  "answers j t T P r \<longleftrightarrow> (\<exists>x s. r = (Inr x, s) \<and> P x \<and> stands_for j (t, s) T)"

text \<open>A changing operation returns \<open>x\<close> and leaves a table that stands for \<open>T\<close>.\<close>

definition turns_into :: "inode_row json \<Rightarrow> meta_error + 'a \<Rightarrow> inode_table \<Rightarrow> ('a, inode_tab \<times> store_snap) change \<Rightarrow> bool" where
  "turns_into j x T r \<longleftrightarrow> fst r = x \<and> stands_for j (snd r) T"

lemma stands_forD: "stands_for j (t, s) T \<Longrightarrow> tab_rep j (sp_tx s) t T \<and> snap_ok j s \<and> tx_ok j (sp_tx s)"
  by (simp add: stands_for_def snap_ok_def)

lemma reads_answers: "reads j s x r \<Longrightarrow> stands_for j (t, s) T \<Longrightarrow> P x \<Longrightarrow> answers j t T P r"
  by (cases r) (auto simp: reads_def answers_def stands_for_def)

text \<open>The inode read is the whole inode of the plain table, and a directory's entries, one by one or in
  pages, are its entries there.\<close>

definition same_inode :: "inode_tab \<Rightarrow> itables \<Rightarrow> inode \<Rightarrow> pinode \<Rightarrow> bool" where
  "same_inode t tx i p \<longleftrightarrow> (\<exists>q. it_full t tx p = Inr q \<and> whole_inode q = i)
     \<and> (is_dir i \<longrightarrow> (\<forall>name. it_entry t tx p name = Inr (inode_entry i name))
        \<and> (\<forall>after limit. it_entries t tx p after limit
             = Inr (at_most limit (filter (\<lambda>(n, _). after_ok after n) (bitems (d_entries (i_kind i)))))))"

lemma view_same:
  assumes "stands_for j (t, s) T" "tab_view j t (sp_tx s) ino = Some p" "bget T ino = Some i"
  shows "same_inode t (sp_tx s) i p"
proof -
  have r: "tab_rep j (sp_tx s) t T" "tx_ok j (sp_tx s)" using stands_forD [OF assms(1)] by simp_all
  have rep: "pinode_rep (it_paged t) (sp_tx s) p i" using tab_rep_view [OF r(1), of ino] assms(2,3) by simp
  have "it_entry t (sp_tx s) p name = Inr (inode_entry i name)" if "is_dir i" for name
    using that it_entry_view [OF _ r(2) assms(2), of name] inode_entry_rep [OF rep, of name] pinode_rep_dir [OF rep] r(1)
    by (simp add: tab_rep_def)
  moreover have "it_entries t (sp_tx s) p after limit = Inr (at_most limit (filter (\<lambda>(n, _). after_ok after n) (bitems (d_entries (i_kind i)))))"
    if "is_dir i" for after limit
    using that it_entries_spec [OF r assms(2,3)] by (auto simp: is_dir_def is_dir_kind_def split: inode_kind.splits)
  ultimately show ?thesis using it_full_spec [OF r assms(2,3)] by (simp add: same_inode_def)
qed

lemma get_answers:
  assumes "stands_for j (t, s) T"
  shows "answers j t T (\<lambda>p. rel_option (\<lambda>p i. same_inode t (sp_tx s) i p) p (bget T ino)) (it_get j t ino s)"
proof (rule reads_answers [OF it_get_reads assms])
  have r: "rel_option (pinode_rep (it_paged t) (sp_tx s)) (tab_view j t (sp_tx s) ino) (bget T ino)"
    using tab_rep_view stands_forD [OF assms] by blast
  then show "rel_option (\<lambda>p i. same_inode t (sp_tx s) i p) (tab_view j t (sp_tx s) ino) (bget T ino)"
    using view_same [OF assms] by (auto elim!: option.rel_cases)
qed (use stands_forD [OF assms] in simp)

lemma page_answers:
  assumes "stands_for j (t, s) T"
  shows "answers j t T (\<lambda>qs. map whole_inode qs = take limit (map snd (filter (\<lambda>(i, _). from \<le> i) (bitems T)))) (it_page_full j t from limit s)"
proof -
  obtain qs where "reads j s qs (it_page_full j t from limit s)"
    "map whole_inode qs = take limit (map snd (filter (\<lambda>(i, _). from \<le> i) (bitems T)))"
    using it_page_full_spec [of j s t T "from" limit] stands_forD [OF assms] by blast
  then show ?thesis by (rule reads_answers [OF _ assms])
qed

text \<open>An edit that neither looks at the entries of a directory nor changes them.\<close>

definition plain_edit :: "(inode \<Rightarrow> inode) \<Rightarrow> bool" where
  "plain_edit g \<longleftrightarrow> (\<forall>es i. g (with_entries es i) = with_entries es (g i)) \<and> (\<forall>i. is_dir (g i) = is_dir i \<and> i_ino (g i) = i_ino i)"

definition edit_at :: "nat \<Rightarrow> (inode \<Rightarrow> inode) \<Rightarrow> inode_table \<Rightarrow> inode_table" where
  "edit_at ino g T = (case bget T ino of None \<Rightarrow> T | Some i \<Rightarrow> bput ino (g i) T)"

lemma edit_turns:
  assumes "stands_for j (t, s) T" "plain_edit g"
  shows "turns_into j (Inr (bget T ino \<noteq> None)) (edit_at ino g T) (it_get_mut j ino (\<lambda>p. p\<lparr>pi_inode := g (pi_inode p)\<rparr>) (t, s))"
proof -
  have r: "tab_rep j (sp_tx s) t T" "snap_ok j s" "tx_ok j (sp_tx s)" using stands_forD [OF assms(1)] by simp_all
  have v: "rel_option (pinode_rep (it_paged t) (sp_tx s)) (tab_view j t (sp_tx s) ino) (bget T ino)" by (rule tab_rep_view [OF r(1)])
  show ?thesis
  proof (cases "tab_view j t (sp_tx s) ino")
    case None
    then have "bget T ino = None" using v by simp
    then show ?thesis
      using get_mut_absent [OF r(2) None, of "\<lambda>p. p\<lparr>pi_inode := g (pi_inode p)\<rparr>"] r(1) by (auto simp: turns_into_def stands_for_def edit_at_def)
  next
    case (Some p)
    then obtain i where i: "bget T ino = Some i" "pinode_rep (it_paged t) (sp_tx s) p i" using v by (auto simp: option_rel_Some1)
    have "pinode_shape ino p" using tab_view_shape(1) [OF r(3) _ Some] r(1) by (simp add: tab_rep_def)
    then have "pinode_shape ino (p\<lparr>pi_inode := g (pi_inode p)\<rparr>)"
      using assms(2) by (intro edit_shape) (auto simp: plain_edit_def)
    then show ?thesis
      using tab_rep_get_mut [OF r(1,2) Some, of "\<lambda>p. p\<lparr>pi_inode := g (pi_inode p)\<rparr>" "g i"] edit_rep [OF i(2), of g] assms(2) i(1)
      by (auto simp: plain_edit_def turns_into_def stands_for_def edit_at_def)
  qed
qed

lemma remove_turns:
  assumes "stands_for j (t, s) T"
  shows "fst (it_remove j ino (t, s)) = Inr (tab_view j t (sp_tx s) ino)" "stands_for j (snd (it_remove j ino (t, s))) (bdel ino T)"
  using tab_rep_remove [of j s t T ino] stands_forD [OF assms] by (auto simp: stands_for_def)

lemma insert_turns:
  assumes "stands_for j (t, s) T" "bget T (i_ino i) = None" "i_ino i < u64_max"
  shows "stands_for j (it_insert (pinode_of i) t, s) (bput (i_ino i) i T)"
proof -
  have "tab_view j t (sp_tx s) (i_ino i) = None" using tab_rep_view stands_forD [OF assms(1)] assms(2) by (metis option_rel_Some1 option.exhaust option.distinct(1))
  then show ?thesis using tab_rep_insert [OF _ _ pinode_of_shape _ pinode_of_rep] assms(3) stands_forD [OF assms(1)]
    by (auto simp: stands_for_def pinode_of_def dents_of_def no_dents_def split: inode_kind.split)
qed

lemma remove_answers:
  assumes "stands_for j (t, s) T"
  shows "\<exists>p. fst (it_remove j ino (t, s)) = Inr p \<and> rel_option (\<lambda>p i. same_inode t (sp_tx s) i p) p (bget T ino)"
proof -
  have "rel_option (\<lambda>p i. same_inode t (sp_tx s) i p) (tab_view j t (sp_tx s) ino) (bget T ino)"
    using tab_rep_view [of j "sp_tx s" t T ino] stands_forD [OF assms] view_same [OF assms] by (auto elim!: option.rel_cases)
  then show ?thesis using remove_turns(1) [OF assms] by blast
qed

lemma set_entry_turns:
  assumes "stands_for j (t, s) T"
  shows "turns_into j (fst (itab_set_entry d name x T)) (snd (itab_set_entry d name x T)) (it_set_entry j d name x (t, s))"
proof -
  obtain t' s' where "it_set_entry j d name x (t, s) = (fst (itab_set_entry d name x T), (t', s'))" "snap_ok j s'" "sp_tx s' = sp_tx s"
    "tab_rep j (sp_tx s) t' (snd (itab_set_entry d name x T))"
    using tab_rep_set_entry [of j s t T d name x] stands_forD [OF assms] by blast
  then show ?thesis by (simp add: turns_into_def stands_for_def)
qed

lemma scan_answers:
  assumes "stands_for j (t, s) T"
  shows "answers j t T (\<lambda>qs. map whole_inode qs = bvals T) (it_scan_full j t s)"
proof -
  obtain qs where "reads j s qs (it_scan_full j t s)" "map whole_inode qs = bvals T"
    using it_scan_full_spec [of j s t T] stands_forD [OF assms] by blast
  then show ?thesis by (rule reads_answers [OF _ assms])
qed

section \<open>What the rows of a database are\<close>

definition decodes :: "'v json \<Rightarrow> (string, byte list) btree \<Rightarrow> bool" where
  "decodes j tab \<longleftrightarrow> (\<forall>k row. bget tab k = Some row \<longrightarrow> js_dec j row \<noteq> None)"

definition header_typed :: "codecs \<Rightarrow> db \<Rightarrow> string \<Rightarrow> byte list \<Rightarrow> bool" where
  "header_typed cj d fs row \<longleftrightarrow>
     (\<exists>h. js_dec (cj_header cj) row = Some h \<and> fh_id (hd_head h) = fs \<and> hd_inodes h = Some (length (ss_inos (db_tree d) fs)))"

definition inode_typed :: "codecs \<Rightarrow> db \<Rightarrow> string \<Rightarrow> nat \<Rightarrow> bool" where
  "inode_typed cj d fs ino \<longleftrightarrow> bget (db_filesystems d) fs \<noteq> None
     \<and> (\<exists>p. ss_read (cj_inode cj) (db_tree d) fs ino = Inr (Some p) \<and> i_ino (pi_inode p) = ino
          \<and> (is_dir (pi_inode p) \<longrightarrow> de_len (pi_dents p) = length (ss_entries (db_tree d) fs ino None None (\<lambda>_. False))))"

definition dirent_typed :: "codecs \<Rightarrow> db \<Rightarrow> string \<Rightarrow> nat \<Rightarrow> bool" where
  "dirent_typed cj d fs ino \<longleftrightarrow> (\<exists>p. ss_read (cj_inode cj) (db_tree d) fs ino = Inr (Some p) \<and> is_dir (pi_inode p))"

definition rows_typed :: "codecs \<Rightarrow> db \<Rightarrow> bool" where
  "rows_typed cj d \<longleftrightarrow> decodes (cj_state cj) (db_state d) \<and> decodes (cj_volume cj) (db_volumes d) \<and> decodes (cj_snapshot cj) (db_snapshots d)
     \<and> decodes (cj_extent cj) (db_extents d) \<and> decodes (cj_fs_snapshot cj) (db_fs_snapshots d)
     \<and> (\<forall>fs row. bget (db_filesystems d) fs = Some row \<longrightarrow> header_typed cj d fs row)
     \<and> (\<forall>fs ino row. bget (t_inodes (db_tree d)) (fs, ino) = Some row \<longrightarrow> inode_typed cj d fs ino)
     \<and> (\<forall>fs ino name x. bget (t_dirents (db_tree d)) (fs, ino, name) = Some x \<longrightarrow> dirent_typed cj d fs ino)"

lemma decodes_enc: "json_ok j \<Longrightarrow> decodes j (bmap (\<lambda>_. js_enc j) m)"
  by (auto simp: decodes_def json_ok_def)

lemma image_inos_length:
  assumes "db_image cj C d" "well_keyed C" "bget (filesystems C) fs = Some F"
  shows "length (ss_inos (db_tree d) fs) = bsize (fs_inodes F)"
proof -
  have i: "tree_image (cj_inode cj) (fs_table (filesystems C)) (db_tree d)" using assms(1) by (simp add: db_image_def)
  have "bget (t_inodes (db_tree d)) (fs, k) \<noteq> None \<longleftrightarrow> bget (fs_inodes F) k \<noteq> None" for k
    using i assms(3) by (simp add: tree_image_def tab_row_def fs_table_def)
  moreover have "k \<le> u64_max" if "bget (fs_inodes F) k \<noteq> None" for k
    using that assms(2,3) by (force simp: well_keyed_def numbered_def)
  ultimately have "set (ss_inos (db_tree d) fs) = {k. bget (fs_inodes F) k \<noteq> None}"
    unfolding ss_inos_def set_ss_inos_from by auto
  moreover have "distinct (ss_inos (db_tree d) fs)"
    unfolding ss_inos_def using sorted_ss_inos_from by (metis strict_sorted_iff)
  ultimately show ?thesis by (metis bsize_card distinct_card)
qed

lemma image_typed:
  assumes "codecs_ok cj" "db_image cj C d" "well_keyed C"
  shows "rows_typed cj d"
proof -
  have j: "json_ok (cj_inode cj)" "json_ok (cj_state cj)" "json_ok (cj_volume cj)" "json_ok (cj_snapshot cj)" "json_ok (cj_extent cj)"
    "json_ok (cj_fs_snapshot cj)" "json_ok (cj_header cj)" using assms(1) by (simp_all add: codecs_ok_def)
  have i: "tree_image (cj_inode cj) (fs_table (filesystems C)) (db_tree d)" using assms(2) by (simp add: db_image_def)
  have tx: "tx_ok (cj_inode cj) (db_tree d)" by (rule image_tx_ok [OF j(1) i well_keyed_numbered [OF assms(3)]])
  have "header_typed cj d fs row" if "bget (db_filesystems d) fs = Some row" for fs row
    using that image_inos_length [OF assms(2,3), of fs] assms(2,3) j(7)
    by (auto simp: db_image_def header_row_def header_typed_def json_ok_def well_keyed_def head_of_def)
  moreover have "inode_typed cj d fs ino" if row: "bget (t_inodes (db_tree d)) (fs, ino) = Some row" for fs ino row
  proof -
    have "bget (db_filesystems d) fs \<noteq> None"
      using row i assms(2) by (auto simp: db_image_def header_row_def tree_image_def tab_row_def fs_table_def split: option.splits)
    then show ?thesis using tx row
      by (fastforce simp: tx_ok_def inode_typed_def pinode_shape_def length_dir_rows dents_stored_def)
  qed
  moreover have "dirent_typed cj d fs ino" if ent: "bget (t_dirents (db_tree d)) (fs, ino, name) = Some x" for fs ino name x
  proof -
    obtain p where "row_of (cj_inode cj) (db_tree d) (fs, ino) = Some p" "is_dir (pi_inode p)" using tx ent unfolding tx_ok_def by blast
    then show ?thesis by (auto simp: dirent_typed_def row_of_def split: sum.splits)
  qed
  moreover have "decodes (cj_state cj) (db_state d)"
    using assms(2) j(2) by (auto simp: decodes_def db_image_def json_ok_def split: if_splits)
  ultimately show ?thesis using assms(2) j by (simp add: rows_typed_def db_image_def decodes_enc)
qed

lemma empty_typed: "rows_typed cj empty_db"
  by (simp add: rows_typed_def empty_db_def decodes_def)

section \<open>What a catalog stands for is one thing\<close>

lemma pinode_rep_unique: "pinode_rep paged tx p i \<Longrightarrow> pinode_rep paged tx p i' \<Longrightarrow> i = i'"
  by (auto simp: pinode_rep_def split: if_splits) (metis btree_eqI)

lemma tab_rep_unique:
  assumes "tab_rep j tx t T" "tab_rep j tx t T'"
  shows "T = T'"
proof (rule btree_eqI)
  fix k
  show "bget T k = bget T' k"
    using tab_rep_view [OF assms(1), of k] tab_rep_view [OF assms(2), of k] pinode_rep_unique by (fastforce elim!: option.rel_cases)
qed

lemma fs_rep_unique:
  assumes "fs_rep j tx fs f F" "fs_rep j tx fs f F'"
  shows "F = F'"
proof -
  have "head_of F = head_of F'" "fs_inodes F = fs_inodes F'"
    using assms tab_rep_unique [of j tx "pf_inodes f" "fs_inodes F" "fs_inodes F'"] by (simp_all add: fs_rep_def)
  then show ?thesis by (simp add: head_of_def)
qed

lemma cat_rep_unique:
  assumes "cat_rep cj tx c C" "cat_rep cj tx c C'"
  shows "C = C'"
proof -
  have "filesystems C = filesystems C'"
  proof (rule btree_eqI)
    fix k
    have "rel_option (fs_rep (cj_inode cj) tx k) (bget (tr_map (pc_filesystems c)) k) (bget (filesystems C) k)"
      "rel_option (fs_rep (cj_inode cj) tx k) (bget (tr_map (pc_filesystems c)) k) (bget (filesystems C') k)"
      using assms by (simp_all add: cat_rep_def fss_rep_def)
    then show "bget (filesystems C) k = bget (filesystems C') k"
      using fs_rep_unique by (fastforce elim!: option.rel_cases)
  qed
  then show ?thesis using assms by (auto simp: cat_rep_def state_of_def)
qed

section \<open>A small catalog\<close>

definition sample_file :: inode where
  "sample_file = \<lparr>i_ino = 2, i_kind = File 0 bempty, i_mode = 420, i_uid = 0, i_gid = 0, i_nlink = 1, i_atime_ns = 0, i_mtime_ns = 0,
     i_ctime_ns = 0, i_op_id = [], i_xattrs = bempty\<rparr>"

definition sample_table :: inode_table where
  "sample_table = bput 1 (sample_file\<lparr>i_ino := 1, i_kind := Dir 1 (bput ''x'' 2 bempty)\<rparr>) (bput 2 sample_file bempty)"

definition sample_head :: fs_head where
  "sample_head = \<lparr>fh_id = ''a'', fh_name = ''a'', fh_next_ino = 3, fh_source_snapshot = None, fh_extent_bytes = None, fh_usage = None,
     fh_quota = None, fh_replica = None\<rparr>"

definition sample_pcatalog :: pcatalog where
  "sample_pcatalog = new_pcatalog\<lparr>pc_filesystems :=
     snd (tr_insert ''a'' \<lparr>pf_head = sample_head, pf_inodes = it_of (bvals sample_table)\<rparr> (pc_filesystems new_pcatalog))\<rparr>"

definition sample_catalog :: catalog where
  "sample_catalog = empty_catalog\<lparr>filesystems := bput ''a'' (meta_of sample_head sample_table) bempty\<rparr>"

lemma sample_numbered: "numbered sample_table"
  by (simp add: numbered_def sample_table_def sample_file_def u64_max_def)

lemma sample_reach: "store_reach cj (sample_pcatalog, new_store 4)"
  unfolding sample_pcatalog_def by (rule sr_step [OF sr_new sp_fs_insert [OF sample_numbered]]) (simp add: sample_head_def)

lemma sample_inv: "store_inv cj sample_pcatalog (new_store 4) sample_catalog"
  using it_of_rep [OF sample_numbered]
  by (simp add: store_inv_def no_snap_ok snap_of_def new_store_def cat_rep_def fss_rep_def fs_rep_def sample_catalog_def sample_pcatalog_def
      new_pcatalog_def empty_catalog_def state_of_def tr_empty_def tr_insert_def sample_head_def)

text \<open>The small catalog, checkpointed and loaded again: its table is paged.\<close>

lemma sample_loaded:
  obtains f :: pfs and st :: cat_store where "it_paged (pf_inodes f) = Some ''a''" "stands_for (cj_inode row_codecs) (pf_inodes f, snap_of st) sample_table"
proof -
  obtain st1 :: cat_store where cp: "db_image row_codecs sample_catalog (cst_db st1)"
    using checkpoint_spec [OF row_codecs_ok sample_inv] by blast
  have "well_keyed sample_catalog"
    using sample_numbered by (simp add: well_keyed_def sample_catalog_def empty_catalog_def sample_head_def)
  from load_spec [OF row_codecs_ok cp this] obtain c2 st2 where c2: "pc_in_store c2" "tr_replaced (pc_filesystems c2) = {||}"
    "store_inv row_codecs c2 st2 sample_catalog" by blast
  have "rel_option (fs_rep (cj_inode row_codecs) (sp_tx (snap_of st2)) ''a'') (bget (tr_map (pc_filesystems c2)) ''a'')
      (Some (meta_of sample_head sample_table))"
    using c2(3) unfolding store_inv_def cat_rep_def fss_rep_def by (auto simp: sample_catalog_def dest!: spec [of _ "''a''"])
  then obtain f where f: "bget (tr_map (pc_filesystems c2)) ''a'' = Some f"
    "fs_rep (cj_inode row_codecs) (sp_tx (snap_of st2)) ''a'' f (meta_of sample_head sample_table)" by (auto simp: option_rel_Some2)
  have "it_paged (pf_inodes f) = Some ''a''" using c2 f(1) unfolding store_inv_def changed_since_def by auto
  moreover have "stands_for (cj_inode row_codecs) (pf_inodes f, snap_of st2) sample_table"
    using c2(3) f(2) by (simp add: stands_for_def fs_rep_def store_inv_def)
  ultimately show thesis by (rule that)
qed

section \<open>The promises of the store\<close>

text \<open>(C15) An inode table that keeps only changed inodes in memory, and reads the others and the entries
  of directories from the last checkpoint, answers and changes as the plain table it stands for:
  looking up an inode, an entry or a page of entries, listing the table in full or in pages, editing an
  inode, inserting one under a free number, removing one and setting an entry.\<close>

theorem paged_table_refines:
  assumes "stands_for j (t, s) T"
  shows "answers j t T (\<lambda>p. rel_option (\<lambda>p i. same_inode t (sp_tx s) i p) p (bget T ino)) (it_get j t ino s)
    \<and> answers j t T (\<lambda>qs. map whole_inode qs = bvals T) (it_scan_full j t s)
    \<and> answers j t T (\<lambda>qs. map whole_inode qs = take limit (map snd (filter (\<lambda>(i, _). from \<le> i) (bitems T)))) (it_page_full j t from limit s)
    \<and> (plain_edit g \<longrightarrow> turns_into j (Inr (bget T ino \<noteq> None)) (edit_at ino g T) (it_get_mut j ino (\<lambda>p. p\<lparr>pi_inode := g (pi_inode p)\<rparr>) (t, s)))
    \<and> (bget T (i_ino i) = None \<longrightarrow> i_ino i < u64_max \<longrightarrow> stands_for j (it_insert (pinode_of i) t, s) (bput (i_ino i) i T))
    \<and> (\<exists>p. fst (it_remove j ino (t, s)) = Inr p \<and> rel_option (\<lambda>p i. same_inode t (sp_tx s) i p) p (bget T ino))
    \<and> stands_for j (snd (it_remove j ino (t, s))) (bdel ino T)
    \<and> turns_into j (fst (itab_set_entry d name x T)) (snd (itab_set_entry d name x T)) (it_set_entry j d name x (t, s))"
  using get_answers [OF assms] scan_answers [OF assms] page_answers [OF assms] edit_turns [OF assms] insert_turns [OF assms]
    remove_answers [OF assms] remove_turns(2) [OF assms] set_entry_turns [OF assms] by blast

theorem paged_table_refines_witness:
  "\<exists>t s. it_paged t = Some ''a'' \<and> stands_for (cj_inode row_codecs) (t, s) sample_table
    \<and> stands_for (cj_inode row_codecs) (it_insert (pinode_of (sample_file\<lparr>i_ino := 3\<rparr>)) t, s) (bput 3 (sample_file\<lparr>i_ino := 3\<rparr>) sample_table)
    \<and> turns_into (cj_inode row_codecs) (Inr True) (edit_at 2 (i_uid_update (\<lambda>_. 7)) sample_table)
        (it_get_mut (cj_inode row_codecs) 2 (\<lambda>p. p\<lparr>pi_inode := pi_inode p\<lparr>i_uid := 7\<rparr>\<rparr>) (t, s))"
proof -
  obtain f :: pfs and st :: cat_store where f: "it_paged (pf_inodes f) = Some ''a''" "stands_for (cj_inode row_codecs) (pf_inodes f, snap_of st) sample_table"
    by (rule sample_loaded)
  have "plain_edit (i_uid_update (\<lambda>_. 7))"
    by (auto simp: plain_edit_def with_entries_def is_dir_def is_dir_kind_def split: inode_kind.split)
  moreover have "bget sample_table 3 = None" "bget sample_table 2 \<noteq> None" "(3::nat) < u64_max" by (simp_all add: sample_table_def u64_max_def)
  ultimately show ?thesis
    using f paged_table_refines [OF f(2), where i = "sample_file\<lparr>i_ino := 3\<rparr>" and ino = 2 and g = "i_uid_update (\<lambda>_. 7)"]
    by (intro exI [of _ "pf_inodes f"] exI [of _ "snap_of st"]) simp
qed

text \<open>(C16) Every row of a reachable database is a value of the type its table promises: the rows of
  the catalog's maps decode; the header under a filesystem's name carries that name and the number of its
  inode rows; an inode row belongs to a filesystem that exists, has the number it is stored under, and
  counts its entry rows if it is a directory; an entry row belongs to a directory's row.\<close>

theorem database_rows_typed:
  assumes "codecs_ok cj" "store_reach cj (c, st)"
  shows "rows_typed cj (cst_db st)"
proof -
  obtain C where "store_inv cj c st C" using store_reach_inv [OF assms(2,1)] by auto
  then show ?thesis using image_typed [OF assms(1)] empty_typed by (auto simp: store_inv_def split: if_splits)
qed

theorem database_rows_typed_witness:
  "\<exists>c st. store_reach row_codecs (c, st) \<and> bget (db_filesystems (cst_db st)) ''a'' \<noteq> None \<and> rows_typed row_codecs (cst_db st)"
proof -
  obtain n c st where c: "checkpoint row_codecs (sample_pcatalog, new_store 4) = (Inr n, (c, st))" "db_image row_codecs sample_catalog (cst_db st)"
    using checkpoint_spec [OF row_codecs_ok sample_inv] by blast
  have r: "store_reach row_codecs (c, st)" by (rule sr_step [OF sample_reach sp_checkpoint [OF c(1)]])
  moreover have "bget (db_filesystems (cst_db st)) ''a'' \<noteq> None"
    using c(2) by (simp add: db_image_def header_row_def sample_catalog_def)
  ultimately show ?thesis using database_rows_typed [OF row_codecs_ok r] by blast
qed

text \<open>(C14) Writing only the rows of what changed since the last checkpoint leaves the same database as
  writing everything.\<close>

theorem changes_equal_rewrite:
  assumes "codecs_ok cj" "store_reach cj (c, st)" "pc_in_store c"
  shows "\<exists>n m d s s'. write_catalog cj c False (cst_db st, snap_of st) = (Inr n, (d, s))
    \<and> write_catalog cj c True (cst_db st, snap_of st) = (Inr m, (d, s'))"
proof -
  obtain C where C: "store_inv cj c st C" using store_reach_inv [OF assms(2,1)] by auto
  obtain n d s where d: "write_catalog cj c False (cst_db st, snap_of st) = (Inr n, (d, s))" "db_image cj C d"
    using write_catalog_inv [OF assms(1) C] assms(3) by auto
  have "cat_rep cj (sp_tx (snap_of st)) c C" "snap_ok (cj_inode cj) (snap_of st)" using C by (simp_all add: store_inv_def)
  from write_catalog_full [OF assms(1) this refl] obtain m d' s' where
    "write_catalog cj c True (cst_db st, snap_of st) = (Inr m, (d', s'))" "db_image cj C d'" by blast
  then show ?thesis using d db_image_unique [of cj C d d'] by blast
qed

theorem changes_equal_rewrite_witness:
  "\<exists>c st. store_reach row_codecs (c, st) \<and> pc_in_store c \<and> ''a'' |\<in>| tr_touched (pc_filesystems c)
    \<and> (\<exists>n m d s s'. write_catalog row_codecs c False (cst_db st, snap_of st) = (Inr n, (d, s))
        \<and> write_catalog row_codecs c True (cst_db st, snap_of st) = (Inr m, (d, s')))"
proof -
  obtain n c st where c: "checkpoint row_codecs (sample_pcatalog, new_store 4) = (Inr n, (c, st))" "pc_in_store c"
    "store_inv row_codecs c st sample_catalog" using checkpoint_spec [OF row_codecs_ok sample_inv] by blast
  let ?c = "c\<lparr>pc_filesystems := tr_edit ''a'' (\<lambda>f. f\<lparr>pf_head := (pf_head f)\<lparr>fh_next_ino := 9\<rparr>\<rparr>) (pc_filesystems c)\<rparr>"
  have r: "store_reach row_codecs (?c, st)"
    by (rule sr_step [OF sr_step [OF sample_reach sp_checkpoint [OF c(1)]]], rule sp_fs_head) simp
  have "rel_option (fs_rep (cj_inode row_codecs) (sp_tx (snap_of st)) ''a'') (bget (tr_map (pc_filesystems c)) ''a'')
      (bget (filesystems sample_catalog) ''a'')" using c(3) unfolding store_inv_def cat_rep_def fss_rep_def by blast
  then have "''a'' |\<in>| tr_touched (pc_filesystems ?c)" by (auto simp: sample_catalog_def option_rel_Some2 tr_edit_def)
  moreover have p: "pc_in_store ?c" using c(2) by simp
  ultimately show ?thesis using r changes_equal_rewrite [OF row_codecs_ok r p] by blast
qed

text \<open>(C13) In every reachable state the catalog in memory stands for exactly one catalog; a checkpoint
  succeeds and leaves a catalog in memory that stands for the same one; and so does what a restart
  loads from the store afterwards.\<close>

theorem checkpoint_roundtrip:
  assumes "codecs_ok cj" "store_reach cj (c, st)"
  shows "\<exists>C n c' st' c2 st2. (\<forall>C'. cat_rep cj (sp_tx (snap_of st)) c C' \<longleftrightarrow> C' = C)
    \<and> checkpoint cj (c, st) = (Inr n, (c', st')) \<and> cat_rep cj (sp_tx (snap_of st')) c' C
    \<and> cat_load cj (st'\<lparr>cst_last := None\<rparr>) = (Inr (Some c2), st2) \<and> cat_rep cj (sp_tx (snap_of st2)) c2 C"
proof -
  obtain C where C: "store_inv cj c st C" using store_reach_inv [OF assms(2,1)] by auto
  then have rep: "cat_rep cj (sp_tx (snap_of st)) c C" by (simp add: store_inv_def)
  obtain n c' st' where c': "checkpoint cj (c, st) = (Inr n, (c', st'))" "db_image cj C (cst_db st')" "store_inv cj c' st' C"
    using checkpoint_spec [OF assms(1) C] by blast
  have rep': "cat_rep cj (sp_tx (snap_of st')) c' C" "tx_ok (cj_inode cj) (sp_tx (snap_of st'))"
    using c'(3) by (auto simp: store_inv_def snap_ok_def)
  obtain c2 st2 where c2: "cat_load cj (st'\<lparr>cst_last := None\<rparr>) = (Inr (Some c2), st2)" "store_inv cj c2 st2 C"
    using load_spec [OF assms(1) c'(2) cat_rep_keyed [OF rep']] by blast
  have "cat_rep cj (sp_tx (snap_of st)) c C' \<longleftrightarrow> C' = C" for C' using rep cat_rep_unique [OF rep] by blast
  moreover have "cat_rep cj (sp_tx (snap_of st2)) c2 C" using c2(2) by (simp add: store_inv_def)
  ultimately show ?thesis using c'(1) rep'(1) c2(1) by blast
qed

theorem checkpoint_roundtrip_witness:
  "\<exists>n c' st' c2 st2. checkpoint row_codecs (sample_pcatalog, new_store 4) = (Inr n, (c', st'))
    \<and> cat_load row_codecs (st'\<lparr>cst_last := None\<rparr>) = (Inr (Some c2), st2) \<and> cat_rep row_codecs (sp_tx (snap_of st2)) c2 sample_catalog"
proof -
  have "cat_rep row_codecs (sp_tx (snap_of (new_store 4))) sample_pcatalog sample_catalog" using sample_inv by (simp add: store_inv_def)
  then show ?thesis using checkpoint_roundtrip [OF row_codecs_ok sample_reach] by (elim exE conjE) auto
qed

end
