(* ===== verification/BlockStore.thy ===== *)
theory BlockStore
  imports RaftTypes
begin

text \<open>
  Byte-addressed devices (\<open>crates/atlas-native/src/device.rs\<close>): the trait \<open>BlockStore\<close> as a record of
  operations, what the engine relies on of it as a locale, and \<open>FileDevice\<close>, positional I/O on one
  file. Which of the coming I/O calls fail, and after how many bytes, is part of a device's state;
  a call on a file never reaches past the largest file offset.
\<close>

section \<open>Errors and the trait\<close>

datatype native_error =
    IoFailed
  | JsonFailed
  | MetaFailed meta_error
  | WalFailed wal_error
  | RaftFailed raft_error
  | NoSuch
  | TooFew nat nat
  | BadChecksum string
  | BadRequest
  | FencedOff nat
  | RemoteFailed
  | ReadOnlyTarget
  | EnginePanic

text \<open>\<open>EnginePanic\<close> is an index or a remainder that panics; it is not an error value of the code.\<close>

type_synonym 'a native_result = "native_error + 'a"

record 'd block_store =
  bs_append :: "nat \<Rightarrow> byte list \<Rightarrow> 'd \<Rightarrow> nat native_result \<times> 'd"
  bs_write_at :: "nat \<Rightarrow> nat \<Rightarrow> byte list \<Rightarrow> 'd \<Rightarrow> unit native_result \<times> 'd"
  bs_read :: "nat \<Rightarrow> nat \<Rightarrow> 'd \<Rightarrow> byte list native_result \<times> 'd"

section \<open>A file as a device\<close>

record file_device =
  fd_bytes :: "byte list"
  fd_end :: nat
  fd_faults :: "nat option list"

definition MAX_FILE :: nat where "MAX_FILE = 2 ^ 63 - 1"

definition fd_open :: "byte list \<Rightarrow> nat option list \<Rightarrow> file_device" where
  "fd_open bs faults = \<lparr>fd_bytes = bs, fd_end = length bs, fd_faults = faults\<rparr>"

text \<open>A write at an offset; a gap before it reads as zeros.\<close>

definition patch :: "nat \<Rightarrow> byte list \<Rightarrow> byte list \<Rightarrow> byte list" where
  "patch off data bs = (if data = [] then bs
     else take off (bs @ replicate (off - length bs) 0) @ data @ drop (off + length data) bs)"

definition fd_write_all :: "nat \<Rightarrow> byte list \<Rightarrow> file_device \<Rightarrow> bool \<times> file_device" where
  "fd_write_all off data d =
     (if off + length data > MAX_FILE then (False, d)
      else case fd_faults d of
        Some k # fs \<Rightarrow> (False, d\<lparr>fd_bytes := patch off (take k data) (fd_bytes d), fd_faults := fs\<rparr>)
      | fs \<Rightarrow> (True, d\<lparr>fd_bytes := patch off data (fd_bytes d), fd_faults := tl fs\<rparr>))"

definition fd_append :: "byte list \<Rightarrow> file_device \<Rightarrow> nat native_result \<times> file_device" where
  "fd_append data d =
     (let off = fd_end d
      in case fd_write_all off data (d\<lparr>fd_end := off + length data\<rparr>) of
           (True, d) \<Rightarrow> (Inr off, d)
         | (False, d) \<Rightarrow> (Inl IoFailed, if fd_end d = off + length data then d\<lparr>fd_end := off\<rparr> else d))"

definition fd_write_at :: "nat \<Rightarrow> byte list \<Rightarrow> file_device \<Rightarrow> unit native_result \<times> file_device" where
  "fd_write_at off data d =
     attempt d (guard (\<not> off + length data > length (fd_bytes d)) BadRequest) (\<lambda>_.
       case fd_write_all off data d of (True, d) \<Rightarrow> (Inr (), d) | (False, d) \<Rightarrow> (Inl IoFailed, d))"

definition fd_read :: "nat \<Rightarrow> nat \<Rightarrow> file_device \<Rightarrow> byte list native_result \<times> file_device" where
  "fd_read off ln d = (case fd_faults d of
       Some _ # fs \<Rightarrow> (Inl IoFailed, d\<lparr>fd_faults := fs\<rparr>)
     | fs \<Rightarrow> (if off + ln \<le> length (fd_bytes d) then Inr (take ln (drop off (fd_bytes d))) else Inl IoFailed,
              d\<lparr>fd_faults := tl fs\<rparr>))"

text \<open>\<open>impl BlockStore for FileDevice\<close>: a local file ignores the fence.\<close>

definition file_store :: "file_device block_store" where
  "file_store = \<lparr>bs_append = \<lambda>_. fd_append, bs_write_at = \<lambda>_. fd_write_at, bs_read = fd_read\<rparr>"

section \<open>What the engine relies on\<close>

text \<open>\<open>cell d i\<close> is the byte at offset \<open>i\<close>; \<open>used d\<close> is the end of the space handed out.\<close>

definition stored :: "('d \<Rightarrow> nat \<Rightarrow> byte) \<Rightarrow> 'd \<Rightarrow> nat \<Rightarrow> byte list \<Rightarrow> bool" where
  "stored cell d off data \<longleftrightarrow> (\<forall>i < length data. cell d (off + i) = data ! i)"

locale block_store =
  fixes ops :: "'d block_store" and cell :: "'d \<Rightarrow> nat \<Rightarrow> byte" and used :: "'d \<Rightarrow> nat"
  assumes append_ok: "bs_append ops fence data d = (Inr off, d') \<Longrightarrow> data \<noteq> [] \<Longrightarrow>
      used d \<le> off \<and> off + length data \<le> used d' \<and> used d' \<le> u64_max \<and> stored cell d' off data \<and> (\<forall>i < used d. cell d' i = cell d i)"
    and append_err: "bs_append ops fence data d = (Inl e, d') \<Longrightarrow> used d \<le> used d' \<and> (\<forall>i < used d. cell d' i = cell d i)"
    and write_ok: "bs_write_at ops fence off data d = (Inr u, d') \<Longrightarrow> used d' = used d \<and> stored cell d' off data"
    and write_other: "bs_write_at ops fence off data d = (r, d') \<Longrightarrow> used d' = used d \<and>
      (\<forall>i. i < off \<or> off + length data \<le> i \<longrightarrow> cell d' i = cell d i)"
    and read_ok: "bs_read ops off ln d = (Inr bs, d') \<Longrightarrow> length bs = ln \<and> stored cell d off bs"
    and read_same: "bs_read ops off ln d = (q, d') \<Longrightarrow> used d' = used d \<and> cell d' = cell d"

definition fd_cell :: "file_device \<Rightarrow> nat \<Rightarrow> byte" where
  "fd_cell d i = (if i < length (fd_bytes d) then fd_bytes d ! i else 0)"

text \<open>Space handed out that the file has; it stays when the file is opened again.\<close>

definition fd_used :: "file_device \<Rightarrow> nat" where
  "fd_used d = min (fd_end d) (length (fd_bytes d))"

lemma fd_open_same: "fd_cell (fd_open (fd_bytes d) faults) = fd_cell d" "fd_used d \<le> fd_used (fd_open (fd_bytes d) faults)"
  by (simp_all add: fd_cell_def fd_used_def fd_open_def fun_eq_iff)

lemma fd_cell_end [simp]: "fd_cell (d\<lparr>fd_end := x\<rparr>) i = fd_cell d i"
  by (simp add: fd_cell_def)

lemma patch_cell:
  "fd_cell (d\<lparr>fd_bytes := patch off data (fd_bytes d), fd_faults := fs\<rparr>) i =
     (if off \<le> i \<and> i < off + length data then data ! (i - off) else fd_cell d i)"
  by (auto simp: fd_cell_def patch_def nth_append min_def)

lemma patch_length: "length (patch off data bs) = (if data = [] then length bs else max (length bs) (off + length data))"
  by (auto simp: patch_def)

lemma fd_write_all_cases:
  assumes "fd_write_all off data d = (ok, d')"
  obtains k where "\<And>i. fd_cell d' i = (if off \<le> i \<and> i < off + min k (length data) then data ! (i - off) else fd_cell d i)"
    "fd_end d' = fd_end d" "ok \<Longrightarrow> length data \<le> k \<and> off + length data \<le> MAX_FILE"
    "length (fd_bytes d) \<le> length (fd_bytes d')" "length (fd_bytes d') \<le> max (length (fd_bytes d)) (off + length data)"
    "ok \<Longrightarrow> data \<noteq> [] \<Longrightarrow> off + length data \<le> length (fd_bytes d')"
proof (cases "off + length data > MAX_FILE")
  case True
  then show thesis using assms by (intro that [of 0]) (auto simp: fd_write_all_def)
next
  case False
  show thesis
  proof (cases "\<exists>k fs. fd_faults d = Some k # fs")
    case True
    then obtain k fs where "fd_faults d = Some k # fs" by blast
    then show thesis using assms False
      by (intro that [of k]) (auto simp: fd_write_all_def patch_cell patch_length)
  next
    case no: False
    then have "ok \<and> d' = d\<lparr>fd_bytes := patch off data (fd_bytes d), fd_faults := tl (fd_faults d)\<rparr>"
      using assms False by (auto simp: fd_write_all_def split: list.splits option.splits)
    then show thesis using False by (intro that [of "length data"]) (auto simp: patch_cell patch_length)
  qed
qed

interpretation fdev: block_store file_store fd_cell fd_used
proof
  show "fd_used d \<le> off \<and> off + length data \<le> fd_used d' \<and> fd_used d' \<le> u64_max \<and> stored fd_cell d' off data \<and> (\<forall>i < fd_used d. fd_cell d' i = fd_cell d i)"
    if call: "bs_append file_store fence data d = (Inr off, d')" and data: "data \<noteq> []" for fence data d off d'
  proof -
    obtain e :: file_device where w: "fd_write_all (fd_end d) data (d\<lparr>fd_end := fd_end d + length data\<rparr>) = (True, e)" "d' = e" "off = fd_end d"
      using call by (auto simp: file_store_def fd_append_def Let_def split: prod.splits bool.splits)
    obtain k where "\<And>i. fd_cell e i = (if fd_end d \<le> i \<and> i < fd_end d + min k (length data) then data ! (i - fd_end d)
        else fd_cell (d\<lparr>fd_end := fd_end d + length data\<rparr>) i)"
      "fd_end e = fd_end d + length data" "length data \<le> k \<and> fd_end d + length data \<le> MAX_FILE"
      "fd_end d + length data \<le> length (fd_bytes e)"
      by (rule fd_write_all_cases [OF w(1)]) (use data in auto)
    then show ?thesis using w by (auto simp: stored_def MAX_FILE_def u64_max_def fd_used_def)
  qed
  show "fd_used d \<le> fd_used d' \<and> (\<forall>i < fd_used d. fd_cell d' i = fd_cell d i)"
    if call: "bs_append file_store fence data d = (Inl err, d')" for fence data d err d'
  proof -
    obtain e :: file_device where w: "fd_write_all (fd_end d) data (d\<lparr>fd_end := fd_end d + length data\<rparr>) = (False, e)"
      "d' = (if fd_end e = fd_end d + length data then e\<lparr>fd_end := fd_end d\<rparr> else e)"
      using call by (auto simp: file_store_def fd_append_def Let_def split: prod.splits bool.splits)
    obtain k where "\<And>i. fd_cell e i = (if fd_end d \<le> i \<and> i < fd_end d + min k (length data) then data ! (i - fd_end d)
        else fd_cell (d\<lparr>fd_end := fd_end d + length data\<rparr>) i)" "fd_end e = fd_end d + length data"
      "length (fd_bytes d) \<le> length (fd_bytes e)"
      by (rule fd_write_all_cases [OF w(1)]) auto
    then show ?thesis using w(2) by (auto simp: fd_used_def)
  qed
  show "fd_used d' = fd_used d \<and> stored fd_cell d' off data" if call: "bs_write_at file_store fence off data d = (Inr u, d')" for fence off data d u d'
  proof -
    have w: "fd_write_all off data d = (True, d')" and fit: "off + length data \<le> length (fd_bytes d)"
      using call by (auto simp: file_store_def fd_write_at_def guard_def split: if_splits prod.splits bool.splits)
    from w obtain k where "\<And>i. fd_cell d' i = (if off \<le> i \<and> i < off + min k (length data) then data ! (i - off) else fd_cell d i)"
      "fd_end d' = fd_end d" "length data \<le> k" "length (fd_bytes d') = length (fd_bytes d)"
      by (rule fd_write_all_cases) (use fit in auto)
    then show ?thesis by (simp add: stored_def fd_used_def)
  qed
  show "fd_used d' = fd_used d \<and> (\<forall>i. i < off \<or> off + length data \<le> i \<longrightarrow> fd_cell d' i = fd_cell d i)"
    if call: "bs_write_at file_store fence off data d = (r, d')" for fence off data d r d'
  proof (cases "d' = d")
    case False
    then obtain ok where w: "fd_write_all off data d = (ok, d')" and fit: "off + length data \<le> length (fd_bytes d)"
      using call by (auto simp: file_store_def fd_write_at_def guard_def split: if_splits prod.splits bool.splits)
    from w obtain k where "\<And>i. fd_cell d' i = (if off \<le> i \<and> i < off + min k (length data) then data ! (i - off) else fd_cell d i)"
      "fd_end d' = fd_end d" "length (fd_bytes d') = length (fd_bytes d)"
      by (rule fd_write_all_cases) (use fit in auto)
    then show ?thesis by (auto simp: fd_used_def)
  qed simp
  show "length bs = ln \<and> stored fd_cell d off bs" if "bs_read file_store off ln d = (Inr bs, d')" for off ln d bs d'
    using that by (auto simp: file_store_def fd_read_def stored_def fd_cell_def split: list.splits option.splits if_splits)
  show "fd_used d' = fd_used d \<and> fd_cell d' = fd_cell d" if "bs_read file_store off ln d = (r, d')" for off ln d r d'
    using that by (auto simp: file_store_def fd_read_def fd_cell_def fd_used_def fun_eq_iff split: list.splits option.splits if_splits)
qed

end
