(* ===== verification/Engine.thy ===== *)
theory Engine
  imports BlockStore Placement Inflight RaftNode
begin

unbundle bit_operations_syntax

text \<open>
  The storage engine over a local log (\<open>crates/atlas-native/src/engine.rs\<close>): nodes and their devices,
  placing replicas and erasure-coded shards, reading them back with their checksums, the extent
  grid that writes of volumes and files go through, committing catalog commands, and the
  operations on volumes and snapshots, garbage collection and repair.

  The engine's state is explicit. One operation runs at a time; threads that one operation starts
  run in the order it starts them. An operation reads each of its clocks once. SHA-256, Reed-Solomon coding
  and the devices' behaviour are arguments, as are the random ids, drawn in order from a
  function. The log and the catalog's checkpoint are those of \<open>WalSpec\<close> and \<open>RaftNode\<close>; which of the
  coming appends to the log fail, and whether the record still got to the disk, is part of the
  state. Telemetry counters are left out.
\<close>

section \<open>Nodes\<close>

definition READ_PARALLELISM :: nat where "READ_PARALLELISM = 8"
definition WRITE_PARALLELISM :: nat where "WRITE_PARALLELISM = 4"

record engine_config =
  cg_extent_bytes :: nat
  cg_placement :: placement_policy
  cg_compact_after :: nat
  cg_retry_after :: nat
  cg_erasure :: "ec_scheme option"
  cg_erasure_min :: nat

record 'd node_runtime =
  nr_spec :: node
  nr_devices :: "'d list"
  nr_failures :: nat
  nr_down_until :: "nat option"
  nr_down_since :: "nat option"
  nr_next :: nat

record 'd engine =
  en_nodes :: "'d node_runtime list"
  en_catalog :: catalog
  en_log :: "meta_command disk_log"
  en_log_faults :: "bool option list"
  en_saved :: "catalog option"
  en_inflight :: inflight
  en_objects :: "(string, byte list) btree option"
  en_reads :: "(string, nat) btree"
  en_uuids :: "nat \<Rightarrow> string"
  en_uuid_next :: nat

type_synonym ('a, 'd) eng = "'a native_result \<times> 'd engine"

text \<open>What the engine is built on: its configuration, its devices, and two libraries.\<close>

record 'd env =
  ev_cfg :: engine_config
  ev_ops :: "'d block_store"
  ev_sha :: "byte list \<Rightarrow> byte list"
  ev_enc :: rs_encode
  ev_dec :: rs_decode

text \<open>The clocks an operation reads: the monotonic one, and the time of day in two units.\<close>

record clock =
  ck_now :: nat
  ck_ms :: nat
  ck_ns :: int

definition is_up :: "clock \<Rightarrow> 'd node_runtime \<Rightarrow> bool" where
  "is_up now n \<longleftrightarrow> healthy (nr_spec n) \<and> (case nr_down_until n of None \<Rightarrow> True | Some t \<Rightarrow> ck_now now \<ge> t)"

definition mark_down :: "engine_config \<Rightarrow> clock \<Rightarrow> 'd node_runtime \<Rightarrow> 'd node_runtime" where
  "mark_down cfg now n = n\<lparr>nr_failures := wrap_add (nr_failures n) 1, nr_down_until := Some (ck_now now + cg_retry_after cfg),
     nr_down_since := (case nr_down_since n of None \<Rightarrow> Some (ck_now now) | Some t \<Rightarrow> Some t)\<rparr>"

definition mark_up :: "'d node_runtime \<Rightarrow> 'd node_runtime" where
  "mark_up n = n\<lparr>nr_down_until := None, nr_down_since := None\<rparr>"

definition upd_node :: "nat \<Rightarrow> ('d node_runtime \<Rightarrow> 'd node_runtime) \<Rightarrow> 'd engine \<Rightarrow> 'd engine" where
  "upd_node i f eng = eng\<lparr>en_nodes := (en_nodes eng)[i := f (en_nodes eng ! i)]\<rparr>"

definition use_device :: "nat \<Rightarrow> nat \<Rightarrow> ('d \<Rightarrow> 'a \<times> 'd) \<Rightarrow> 'd engine \<Rightarrow> 'a \<times> 'd engine" where
  "use_device i k f eng = (case f (nr_devices (en_nodes eng ! i) ! k) of
     (r, d) \<Rightarrow> (r, upd_node i (\<lambda>n. n\<lparr>nr_devices := (nr_devices n)[k := d]\<rparr>) eng))"

text \<open>A node that reads may use: configured and healthy.\<close>

definition find_healthy :: "string \<Rightarrow> 'd engine \<Rightarrow> nat option" where
  "find_healthy node_id eng = position (\<lambda>n. n_id (nr_spec n) = node_id \<and> healthy (nr_spec n)) (en_nodes eng)"

definition placement_order :: "engine_config \<Rightarrow> clock \<Rightarrow> nat \<Rightarrow> (node \<Rightarrow> bool) \<Rightarrow> 'd engine \<Rightarrow> string list" where
  "placement_order cfg now ln skip eng =
     (let specs = map nr_spec (filter (\<lambda>n. is_up now n \<and> \<not> skip (nr_spec n)) (en_nodes eng))
      in select_replicas specs ln ((cg_placement cfg)\<lparr>replicas := length specs\<rparr>))"

definition new_uuid :: "'d engine \<Rightarrow> string \<times> 'd engine" where
  "new_uuid eng = (en_uuids eng (en_uuid_next eng), eng\<lparr>en_uuid_next := Suc (en_uuid_next eng)\<rparr>)"

section \<open>Placing\<close>

definition place_replica ::
    "'d env \<Rightarrow> clock \<Rightarrow> nat \<Rightarrow> nat \<Rightarrow> string \<Rightarrow> byte list \<Rightarrow> 'd engine \<Rightarrow> (replica_ref option, 'd) eng" where
  "place_replica w now token fence node_id data eng =
     (case position (\<lambda>n. n_id (nr_spec n) = node_id) (en_nodes eng) of
        None \<Rightarrow> (Inl NoSuch, eng)
      | Some i \<Rightarrow>
          let n = en_nodes eng ! i;
              k = nr_next n mod length (nr_devices n);
              (free_off, infl) = if_take (free (en_catalog eng)) (ck_now now) (ck_now now) token node_id k (length data) (en_inflight eng);
              eng = upd_node i (\<lambda>n. n\<lparr>nr_next := wrap_add (nr_next n) 1\<rparr>) (eng\<lparr>en_inflight := infl\<rparr>);
              (written, eng) = use_device i k (\<lambda>d. case free_off of
                  Some off \<Rightarrow> (case bs_write_at (ev_ops w) fence off data d of
                      (Inl e, d) \<Rightarrow> (Inl e, d) | (Inr _, d) \<Rightarrow> (Inr off, d))
                | None \<Rightarrow> bs_append (ev_ops w) fence data d) eng
          in case written of
               Inr off \<Rightarrow> (Inr (Some \<lparr>r_node_id = node_id, r_device_index = k, r_offset = off\<rparr>), upd_node i mark_up eng)
             | Inl (FencedOff t) \<Rightarrow> (Inl (FencedOff t), eng)
             | Inl _ \<Rightarrow> (Inr None, upd_node i (mark_down (ev_cfg w) now) eng))"

text \<open>The writers one operation starts at a time: all of them run, then their results are looked at.\<close>

fun place_each ::
    "'d env \<Rightarrow> clock \<Rightarrow> nat \<Rightarrow> nat \<Rightarrow> (string \<times> byte list) list \<Rightarrow> 'd engine \<Rightarrow> replica_ref option native_result list \<times> 'd engine" where
  "place_each w now token fence [] eng = ([], eng)"
| "place_each w now token fence ((node_id, data) # ps) eng =
     (case place_replica w now token fence node_id data eng of (r, eng) \<Rightarrow>
        (case place_each w now token fence ps eng of (rs, eng) \<Rightarrow> (r # rs, eng)))"

fun ok_parts :: "'a option native_result list \<Rightarrow> 'a list native_result" where
  "ok_parts [] = Inr []"
| "ok_parts (Inl e # rs) = Inl e"
| "ok_parts (Inr x # rs) = rbind (ok_parts rs) (\<lambda>ys. Inr (case x of None \<Rightarrow> ys | Some y \<Rightarrow> y # ys))"

function place_loop ::
    "'d env \<Rightarrow> clock \<Rightarrow> nat \<Rightarrow> nat \<Rightarrow> byte list \<Rightarrow> nat \<Rightarrow> string list \<Rightarrow> replica_ref list \<Rightarrow> 'd engine \<Rightarrow> (replica_ref list, 'd) eng" where
  "place_loop w now token fence data needed order reps eng =
     (if length reps < needed \<and> order \<noteq> [] then
        case place_each w now token fence (map (\<lambda>n. (n, data)) (take (needed - length reps) order)) eng of (rs, eng) \<Rightarrow>
          (case ok_parts rs of
             Inl e \<Rightarrow> (Inl e, eng)
           | Inr got \<Rightarrow> place_loop w now token fence data needed (drop (needed - length reps) order) (reps @ got) eng)
      else (Inr reps, eng))"
  by pat_completeness auto
termination
  by (relation "measure (\<lambda>(w, now, token, fence, data, needed, order, reps, eng). length order)")
    (auto simp: neq_Nil_conv)

fun settle_slots ::
    "nat \<Rightarrow> (nat \<times> replica_ref option native_result) list \<Rightarrow> string list \<Rightarrow> replica_ref option list \<Rightarrow> (nat \<times> string) list
      \<Rightarrow> (replica_ref option list \<times> string list \<times> (nat \<times> string) list) native_result" where
  "settle_slots needed [] spare slots retry = Inr (slots, spare, retry)"
| "settle_slots needed ((i, Inl e) # rs) spare slots retry = Inl e"
| "settle_slots needed ((i, Inr (Some r)) # rs) spare slots retry = settle_slots needed rs spare (slots[i := Some r]) retry"
| "settle_slots needed ((i, Inr None) # rs) spare slots retry = (case spare of
     [] \<Rightarrow> Inl (TooFew needed (length (filter (\<lambda>s. s \<noteq> None) slots)))
   | n # ns \<Rightarrow> settle_slots needed rs ns slots (retry @ [(i, n)]))"

lemma settle_slots_spare:
  "settle_slots needed rs spare slots retry = Inr (slots', spare', retry') \<Longrightarrow>
     length spare' + length retry' = length spare + length retry"
  by (induction needed rs spare slots retry rule: settle_slots.induct) (auto split: list.splits)

function shard_loop ::
    "'d env \<Rightarrow> clock \<Rightarrow> nat \<Rightarrow> nat \<Rightarrow> shard list \<Rightarrow> nat \<Rightarrow> (nat \<times> string) list \<Rightarrow> string list \<Rightarrow> replica_ref option list \<Rightarrow> 'd engine
      \<Rightarrow> (replica_ref option list, 'd) eng" where
  "shard_loop w now token fence shards needed pending spare slots eng =
     (if pending = [] then (Inr slots, eng)
      else case place_each w now token fence (map (\<lambda>(i, n). (n, shards ! i)) pending) eng of (rs, eng) \<Rightarrow>
        (case settle_slots needed (zip (map fst pending) rs) spare slots [] of
           Inl e \<Rightarrow> (Inl e, eng)
         | Inr (slots, spare, retry) \<Rightarrow> shard_loop w now token fence shards needed retry spare slots eng))"
  by pat_completeness auto
termination
  by (relation "measure (\<lambda>(w, now, token, fence, shards, needed, pending, spare, slots, eng).
      length spare + (if pending = [] then 0 else 1))") (auto dest!: settle_slots_spare simp: neq_Nil_conv)

declare place_loop.simps [simp del] shard_loop.simps [simp del]

definition new_extent :: "'d env \<Rightarrow> clock \<Rightarrow> byte list \<Rightarrow> replica_ref list \<Rightarrow> ec_layout option \<Rightarrow> 'd engine \<Rightarrow> (extent_ref, 'd) eng" where
  "new_extent w now chunk reps ec eng = (case new_uuid eng of (uuid, eng) \<Rightarrow>
     (Inr \<lparr>x_id = uuid, x_logical_offset = 0, x_len = length chunk, x_checksum = ev_sha w chunk, x_replicas = reps,
           x_ec = ec, x_created_ms = ck_ms now, x_object = None\<rparr>, eng))"

definition place_shards ::
    "'d env \<Rightarrow> clock \<Rightarrow> nat \<Rightarrow> nat \<Rightarrow> ec_scheme \<Rightarrow> byte list \<Rightarrow> 'd engine \<Rightarrow> (extent_ref, 'd) eng" where
  "place_shards w now token fence scheme chunk eng = (case ec_encode (ev_enc w) (ev_sha w) scheme chunk of
       Inl e \<Rightarrow> (Inl (MetaFailed e), eng)
     | Inr (layout, shards) \<Rightarrow>
         let needed = sc_shards scheme;
             order = placement_order (ev_cfg w) now (ly_shard_len layout) (\<lambda>_. False) eng
         in if length order < needed then (Inl (TooFew needed (length order)), eng)
            else andthen (shard_loop w now token fence shards needed (zip [0..<needed] order) (drop needed order)
                (replicate needed None) eng) (\<lambda>slots eng.
              new_extent w now chunk (List.map_filter id slots) (Some layout) eng))"

definition place_extent :: "'d env \<Rightarrow> clock \<Rightarrow> nat \<Rightarrow> nat \<Rightarrow> byte list \<Rightarrow> 'd engine \<Rightarrow> (extent_ref, 'd) eng" where
  "place_extent w now token fence chunk eng =
     (case (if length chunk \<ge> cg_erasure_min (ev_cfg w) then cg_erasure (ev_cfg w) else None) of
        Some scheme \<Rightarrow> place_shards w now token fence scheme chunk eng
      | None \<Rightarrow>
          let needed = replicas (cg_placement (ev_cfg w));
              order = placement_order (ev_cfg w) now (length chunk) (\<lambda>_. False) eng
          in if length order < needed then (Inl (TooFew needed (length order)), eng)
             else andthen (place_loop w now token fence chunk needed order [] eng) (\<lambda>reps eng.
               if length reps < needed then (Inl (TooFew needed (length reps)), eng)
               else new_extent w now chunk reps None eng))"

section \<open>Reading\<close>

definition read_shard ::
    "'d env \<Rightarrow> clock \<Rightarrow> extent_ref \<Rightarrow> ec_layout \<Rightarrow> nat \<Rightarrow> 'd engine \<Rightarrow> shard option \<times> 'd engine" where
  "read_shard w now x ec i eng =
     (if length (x_replicas x) \<le> i then (None, eng)
      else let r = x_replicas x ! i
        in case find_healthy (r_node_id r) eng of
             None \<Rightarrow> (None, eng)
           | Some n \<Rightarrow>
               if length (nr_devices (en_nodes eng ! n)) \<le> r_device_index r then (None, eng)
               else case use_device n (r_device_index r) (bs_read (ev_ops w) (r_offset r) (ly_shard_len ec)) eng of
                   (Inr buf, eng) \<Rightarrow>
                     if ly_verify (ev_sha w) ec i buf then (Some buf, upd_node n mark_up eng) else (None, eng)
                 | (Inl _, eng) \<Rightarrow> (None, upd_node n (mark_down (ev_cfg w) now) eng))"

fun read_shard_batch ::
    "'d env \<Rightarrow> clock \<Rightarrow> extent_ref \<Rightarrow> ec_layout \<Rightarrow> nat list \<Rightarrow> 'd engine \<Rightarrow> shard option list \<times> 'd engine" where
  "read_shard_batch w now x ec [] eng = ([], eng)"
| "read_shard_batch w now x ec (i # is) eng =
     (case read_shard w now x ec i eng of (s, eng) \<Rightarrow>
        (case read_shard_batch w now x ec is eng of (ss, eng) \<Rightarrow> (s # ss, eng)))"

fun put_shards :: "(nat \<times> shard option) list \<Rightarrow> shard option list \<Rightarrow> shard option list" where
  "put_shards [] shards = shards"
| "put_shards ((i, None) # rs) shards = put_shards rs shards"
| "put_shards ((i, Some b) # rs) shards = put_shards rs (shards[i := Some b])"

function gather_shards ::
    "'d env \<Rightarrow> clock \<Rightarrow> extent_ref \<Rightarrow> ec_layout \<Rightarrow> nat list \<Rightarrow> nat \<Rightarrow> shard option list \<Rightarrow> 'd engine \<Rightarrow> (shard option list, 'd) eng" where
  "gather_shards w now x ec order have_n shards eng =
     (if ly_data ec \<le> have_n then (Inr shards, eng)
      else if order = [] then (Inl (BadChecksum (x_id x)), eng)
      else let batch = take (ly_data ec - have_n) order
        in case read_shard_batch w now x ec batch eng of (got, eng) \<Rightarrow>
             gather_shards w now x ec (drop (ly_data ec - have_n) order)
               (have_n + length (filter (\<lambda>s. s \<noteq> None) got)) (put_shards (zip batch got) shards) eng)"
  by pat_completeness auto
termination
  by (relation "measure (\<lambda>(w, now, x, ec, order, have_n, shards, eng). length order)") (auto simp: neq_Nil_conv)

declare gather_shards.simps [simp del]

definition shard_order :: "clock \<Rightarrow> extent_ref \<Rightarrow> ec_layout \<Rightarrow> 'd engine \<Rightarrow> nat list" where
  "shard_order now x ec eng =
     (let up = (\<lambda>i. \<exists>n \<in> set (en_nodes eng). n_id (nr_spec n) = r_node_id (x_replicas x ! i) \<and> is_up now n)
      in sort_key (\<lambda>i. (if up i then 0 else 2) + (if i \<ge> ly_data ec then 1 else 0 :: nat)) [0..<ly_shards ec])"

definition read_shards :: "'d env \<Rightarrow> clock \<Rightarrow> extent_ref \<Rightarrow> ec_layout \<Rightarrow> 'd engine \<Rightarrow> (byte list, 'd) eng" where
  "read_shards w now x ec eng =
     (if length (x_replicas x) < ly_shards ec then (Inl EnginePanic, eng)
      else andthen (gather_shards w now x ec (shard_order now x ec eng) 0 (replicate (ly_shards ec) None) eng) (\<lambda>shards eng.
        case rebuild_data (ev_dec w) ec shards of
          Inl e \<Rightarrow> (Inl (MetaFailed e), eng)
        | Inr ds \<Rightarrow>
            let out = ec_join ec ds (x_len x)
            in if ev_sha w out = x_checksum x then (Inr out, eng) else (Inl (BadChecksum (x_id x)), eng)))"

definition read_object :: "'d env \<Rightarrow> extent_ref \<Rightarrow> string \<Rightarrow> 'd engine \<Rightarrow> byte list native_result" where
  "read_object w x key eng = (case en_objects eng of
       None \<Rightarrow> Inl BadRequest
     | Some store \<Rightarrow> rbind (ok_or (bget store key) IoFailed) (\<lambda>buf.
         if length buf \<noteq> x_len x \<or> ev_sha w buf \<noteq> x_checksum x then Inl (BadChecksum (x_id x)) else Inr buf))"

text \<open>FNV-1a over the bytes of the id.\<close>

definition replica_start :: "string \<Rightarrow> nat \<Rightarrow> nat" where
  "replica_start i n = (if n = 0 then 0
     else unat (fold (\<lambda>c h. (h XOR of_char c) * 0x100000001b3) i (0xcbf29ce484222325 :: 64 word)) mod n)"

definition read_order :: "clock \<Rightarrow> extent_ref \<Rightarrow> 'd engine \<Rightarrow> (replica_ref \<times> nat) list" where
  "read_order now x eng =
     sort_key (\<lambda>(r, i). if is_up now (en_nodes eng ! i) then 0 else 1 :: nat)
       (List.map_filter (\<lambda>r. map_option (Pair r) (find_healthy (r_node_id r) eng))
         (rotate (replica_start (x_id x) (length (x_replicas x))) (x_replicas x)))"

fun read_replicas ::
    "'d env \<Rightarrow> clock \<Rightarrow> extent_ref \<Rightarrow> (replica_ref \<times> nat) list \<Rightarrow> 'd engine \<Rightarrow> (byte list, 'd) eng" where
  "read_replicas w now x [] eng = (Inl (BadChecksum (x_id x)), eng)"
| "read_replicas w now x ((r, n) # rs) eng =
     (if length (nr_devices (en_nodes eng ! n)) \<le> r_device_index r then read_replicas w now x rs eng
      else case use_device n (r_device_index r) (bs_read (ev_ops w) (r_offset r) (x_len x)) eng of
          (Inr buf, eng) \<Rightarrow>
            if ev_sha w buf = x_checksum x then (Inr buf, upd_node n mark_up eng) else read_replicas w now x rs eng
        | (Inl _, eng) \<Rightarrow> read_replicas w now x rs (upd_node n (mark_down (ev_cfg w) now) eng))"

definition read_placed :: "'d env \<Rightarrow> clock \<Rightarrow> extent_ref \<Rightarrow> 'd engine \<Rightarrow> (byte list, 'd) eng" where
  "read_placed w now x eng = (case x_object x of
       Some key \<Rightarrow> (read_object w x key eng, eng)
     | None \<Rightarrow> (case x_ec x of
           Some ec \<Rightarrow> read_shards w now x ec eng
         | None \<Rightarrow> read_replicas w now x (read_order now x eng) eng))"

definition read_extent :: "'d env \<Rightarrow> clock \<Rightarrow> extent_ref \<Rightarrow> 'd engine \<Rightarrow> (byte list, 'd) eng" where
  "read_extent w now x eng =
     (let eng = (if en_objects eng = None then eng else eng\<lparr>en_reads := bput (x_id x) (ck_ms now) (en_reads eng)\<rparr>)
      in case read_placed w now x eng of
           (Inl (BadChecksum i), eng) \<Rightarrow> (case map_option em_extent (bget (extents (en_catalog eng)) i) of
               Some x' \<Rightarrow> if x' \<noteq> x then read_placed w now x' eng else (Inl (BadChecksum i), eng)
             | None \<Rightarrow> (Inl (BadChecksum i), eng))
         | r \<Rightarrow> r)"

fun collect_ok :: "'a native_result list \<Rightarrow> 'a list native_result" where
  "collect_ok [] = Inr []"
| "collect_ok (Inl e # rs) = Inl e"
| "collect_ok (Inr x # rs) = rbind (collect_ok rs) (\<lambda>xs. Inr (x # xs))"

definition extents_in ::
    "catalog \<Rightarrow> extent_map \<Rightarrow> nat \<Rightarrow> nat \<Rightarrow> nat \<Rightarrow> nat \<Rightarrow> extent_ref list native_result" where
  "extents_in c xs grid sz off ln =
     rbind (ok_or (case checked_add off ln of Some e \<Rightarrow> if e \<le> sz then Some e else None | None \<Rightarrow> None) BadRequest) (\<lambda>stop.
       if ln = 0 then Inr []
       else if grid = 0 then Inl EnginePanic
       else collect_ok (map (\<lambda>e. ok_or (map_option em_extent (bget (extents c) e)) NoSuch)
              (bvals (bbelow stop (bfrom (off - off mod grid) xs)))))"

function chunks :: "nat \<Rightarrow> 'a list \<Rightarrow> 'a list list" where
  "chunks n xs = (if n = 0 \<or> xs = [] then [] else take n xs # chunks n (drop n xs))"
  by pat_completeness auto
termination
  by (relation "measure (\<lambda>(n, xs). length xs)") auto

declare chunks.simps [simp del]

definition put_slice :: "nat \<Rightarrow> byte list \<Rightarrow> byte list \<Rightarrow> byte list" where
  "put_slice i part out = take i out @ part @ drop (i + length part) out"

fun read_batch :: "'d env \<Rightarrow> clock \<Rightarrow> extent_ref list \<Rightarrow> 'd engine \<Rightarrow> byte list native_result list \<times> 'd engine" where
  "read_batch w now [] eng = ([], eng)"
| "read_batch w now (x # xs) eng =
     (case read_extent w now x eng of (b, eng) \<Rightarrow> (case read_batch w now xs eng of (bs, eng) \<Rightarrow> (b # bs, eng)))"

fun copy_bufs :: "nat \<Rightarrow> ((extent_ref \<times> nat \<times> nat) \<times> byte list native_result) list \<Rightarrow> byte list \<Rightarrow> byte list native_result" where
  "copy_bufs off [] out = Inr out"
| "copy_bufs off (((x, start, stop), b) # bs) out = rbind b (\<lambda>buf.
     let lo = x_logical_offset x
     in if length buf < stop - lo then Inl EnginePanic
        else copy_bufs off bs (put_slice (start - off) (drop (start - lo) (take (stop - lo) buf)) out))"

fun read_windows ::
    "'d env \<Rightarrow> clock \<Rightarrow> nat \<Rightarrow> (extent_ref \<times> nat \<times> nat) list list \<Rightarrow> byte list \<Rightarrow> 'd engine \<Rightarrow> (byte list, 'd) eng" where
  "read_windows w now off [] out eng = (Inr out, eng)"
| "read_windows w now off (win # wins) out eng = (case read_batch w now (map fst win) eng of (bufs, eng) \<Rightarrow>
     (case copy_bufs off (zip win bufs) out of
        Inl e \<Rightarrow> (Inl e, eng)
      | Inr out \<Rightarrow> read_windows w now off wins out eng))"

definition wanted_parts :: "nat \<Rightarrow> nat \<Rightarrow> extent_ref list \<Rightarrow> (extent_ref \<times> nat \<times> nat) list" where
  "wanted_parts off stop xs = List.map_filter (\<lambda>x.
     let a = max (x_logical_offset x) off; b = min (x_logical_offset x + x_len x) stop
     in if a < b then Some (x, a, b) else None) xs"

definition read_range :: "'d env \<Rightarrow> clock \<Rightarrow> extent_ref list \<Rightarrow> nat \<Rightarrow> nat \<Rightarrow> 'd engine \<Rightarrow> (byte list, 'd) eng" where
  "read_range w now xs off ln eng =
     read_windows w now off (chunks READ_PARALLELISM (wanted_parts off (off + ln) xs)) (replicate ln 0) eng"

end
