(* ===== verification/EngineOps.thy ===== *)
theory EngineOps
  imports Engine
begin

text \<open>
  The storage engine's operations (\<open>crates/atlas-native/src/engine.rs\<close>): committing a command to the
  local log, writing cells of the extent grid, volumes and snapshots, garbage collection
  (\<open>gc.rs\<close>), repair, checkpoints and opening.
\<close>

section \<open>Committing\<close>

fun replay_records :: "meta_command wal_record list \<Rightarrow> catalog \<Rightarrow> catalog native_result" where
  "replay_records [] c = Inr c"
| "replay_records (r # rs) c =
     (if applied_index c < wr_index r then
        case catalog_apply (wr_term r) (wr_index r) (wr_command r) c of
          (Inl e, _) \<Rightarrow> Inl (if e = Panic \<or> e = Diverge then EnginePanic else MetaFailed e)
        | (Inr _, c) \<Rightarrow> replay_records rs c
      else replay_records rs c)"

definition load_local :: "catalog option \<Rightarrow> meta_command wal_record list \<Rightarrow> (catalog \<times> meta_command disk_log) native_result" where
  "load_local saved rs = rbind (replay_records rs (load_checkpoint saved None)) (\<lambda>c.
     Inr (c, dl_raise_floor (applied_index c) (dl_load rs)))"

definition log_append :: "'c wal_record \<Rightarrow> bool option list \<Rightarrow> 'c disk_log \<Rightarrow> (wal_error + unit) \<times> 'c disk_log" where
  "log_append r faults l = (case faults of
       Some reached # _ \<Rightarrow> (Inl WalIo, if reached then snd (dl_append r l) else l)
     | _ \<Rightarrow> dl_append r l)"

definition eng_commit :: "'d env \<Rightarrow> meta_command \<Rightarrow> 'd engine \<Rightarrow> (unit, 'd) eng" where
  "eng_commit w cmd eng =
     (let index = dl_last (en_log eng) + 1;
          trm = max (current_term (en_catalog eng)) 1
      in case catalog_apply trm index cmd (en_catalog eng) of
           (Inl e, c) \<Rightarrow> (Inl (if e = Panic \<or> e = Diverge then EnginePanic else MetaFailed e), eng\<lparr>en_catalog := c\<rparr>)
         | (Inr _, c) \<Rightarrow>
             (case log_append \<lparr>wr_term = trm, wr_index = index, wr_command = cmd\<rparr> (en_log_faults eng) (en_log eng) of
                (Inl e, l) \<Rightarrow>
                  let eng = eng\<lparr>en_catalog := c, en_log := l, en_log_faults := tl (en_log_faults eng)\<rparr>
                  in (case load_local (en_saved eng) (dl_records l) of
                        Inl e' \<Rightarrow> (Inl e', eng)
                      | Inr (disk, reopened) \<Rightarrow> (Inl (WalFailed e), eng\<lparr>en_catalog := disk, en_log := reopened\<rparr>))
              | (Inr _, l) \<Rightarrow>
                  let eng = eng\<lparr>en_catalog := c, en_log := l, en_log_faults := tl (en_log_faults eng)\<rparr>
                  in if cg_compact_after (ev_cfg w) > 0 \<and> length (dl_records l) \<ge> cg_compact_after (ev_cfg w)
                     then (Inr (), eng\<lparr>en_saved := Some c, en_log := dl_compact_through index l\<rparr>)
                     else (Inr (), eng)))"

definition eng_checkpoint :: "'d engine \<Rightarrow> (nat, 'd) eng" where
  "eng_checkpoint eng =
     (let l = dl_compact_through (applied_index (en_catalog eng)) (en_log eng)
      in (Inr (length (dl_records (en_log eng)) - length (dl_records l)), eng\<lparr>en_saved := Some (en_catalog eng), en_log := l\<rparr>))"

section \<open>Leases on free space\<close>

definition with_lease :: "(nat \<Rightarrow> 'd engine \<Rightarrow> ('a, 'd) eng) \<Rightarrow> 'd engine \<Rightarrow> ('a, 'd) eng" where
  "with_lease f eng =
     (case if_lease (en_inflight eng) of (token, infl) \<Rightarrow>
        (case f token (eng\<lparr>en_inflight := infl\<rparr>) of (r, eng) \<Rightarrow>
           (r, eng\<lparr>en_inflight := if_drop token (en_inflight eng)\<rparr>)))"

definition settle_lease :: "clock \<Rightarrow> nat \<Rightarrow> ('a, 'd) eng \<Rightarrow> ('a, 'd) eng" where
  "settle_lease now token r = (case r of
       (Inl (RaftFailed e), eng) \<Rightarrow>
         (Inl (RaftFailed e), eng\<lparr>en_inflight := if_settle e (ck_now now) token (en_inflight eng)\<rparr>)
     | _ \<Rightarrow> r)"

section \<open>Writing\<close>

datatype target = ToVolume string | ToFile string nat bool

definition tg_grid :: "engine_config \<Rightarrow> target \<Rightarrow> catalog \<Rightarrow> nat native_result" where
  "tg_grid cfg t c = (case t of
       ToVolume _ \<Rightarrow> Inr (cg_extent_bytes cfg)
     | ToFile fs _ _ \<Rightarrow> rbind (ok_or (bget (filesystems c) fs) (MetaFailed NotFound)) (\<lambda>f.
         Inr (case fs_extent_bytes f of None \<Rightarrow> cg_extent_bytes cfg | Some b \<Rightarrow> b)))"

definition extent_at :: "target \<Rightarrow> catalog \<Rightarrow> nat \<Rightarrow> extent_ref option native_result" where
  "extent_at t c cell =
     (let ext = (\<lambda>i. Inr (case i of None \<Rightarrow> None | Some e \<Rightarrow> map_option em_extent (bget (extents c) e)))
      in case t of
           ToVolume v \<Rightarrow> ext (case bget (volumes c) v of None \<Rightarrow> None | Some m \<Rightarrow> bget (v_extents m) cell)
         | ToFile fs ino _ \<Rightarrow> rbind (ok_or (bget (filesystems c) fs) (MetaFailed NotFound)) (\<lambda>f.
             (case fs_inode f ino of
                Inl e \<Rightarrow> Inl (MetaFailed e)
              | Inr i \<Rightarrow> (case i_kind i of File _ xs \<Rightarrow> ext (bget xs cell) | _ \<Rightarrow> Inl (MetaFailed IsDir)))))"

definition merged_cell :: "nat \<Rightarrow> byte list \<Rightarrow> byte list \<Rightarrow> byte list" where
  "merged_cell within part buf =
     put_slice within part (if length buf < within + length part then resize_zero (within + length part) buf else buf)"

definition cell_content ::
    "'d env \<Rightarrow> clock \<Rightarrow> extent_ref option \<Rightarrow> nat \<Rightarrow> byte list \<Rightarrow> 'd engine \<Rightarrow> (byte list, 'd) eng" where
  "cell_content w now existing within part eng = (case existing of
       Some x \<Rightarrow>
         if within > 0 \<or> length part < x_len x
         then andthen (read_extent w now x eng) (\<lambda>buf eng. (Inr (merged_cell within part buf), eng))
         else (Inr part, eng)
     | None \<Rightarrow> (Inr (replicate within 0 @ part), eng))"

function write_cells ::
    "'d env \<Rightarrow> clock \<Rightarrow> target \<Rightarrow> nat \<Rightarrow> nat \<Rightarrow> byte list \<Rightarrow> 'd engine \<Rightarrow> ((nat \<times> byte list) list, 'd) eng" where
  "write_cells w now t grid pos rest eng =
     (if rest = [] then (Inr [], eng)
      else if grid = 0 then (Inl EnginePanic, eng)
      else
        let cell = pos - pos mod grid;
            within = pos - cell;
            n = min (length rest) (grid - within)
        in attempt eng (extent_at t (en_catalog eng) cell) (\<lambda>existing.
           andthen (cell_content w now existing within (take n rest) eng) (\<lambda>content eng.
           andthen (write_cells w now t grid (wrap_add pos n) (drop n rest) eng) (\<lambda>cells eng.
             (Inr ((cell, content) # cells), eng)))))"
  by pat_completeness auto
termination
proof (relation "measure (\<lambda>(w, now, t, grid, pos, rest, eng). length rest)", goal_cases)
  case (2 w now t grid pos rest eng cell within n existing content eng')
  have "pos - (pos - pos mod grid) = pos mod grid" by simp
  moreover have "pos mod grid < grid" using 2 by simp
  ultimately have "0 < grid - (pos - (pos - pos mod grid))" by linarith
  with 2 show ?case by (simp add: min_def)
qed simp

declare write_cells.simps [simp del]

fun place_window ::
    "'d env \<Rightarrow> clock \<Rightarrow> nat \<Rightarrow> nat \<Rightarrow> byte list list \<Rightarrow> 'd engine \<Rightarrow> extent_ref native_result list \<times> 'd engine" where
  "place_window w now token fence [] eng = ([], eng)"
| "place_window w now token fence (b # bs) eng =
     (case place_extent w now token fence b eng of (x, eng) \<Rightarrow>
        (case place_window w now token fence bs eng of (xs, eng) \<Rightarrow> (x # xs, eng)))"

fun place_windows ::
    "'d env \<Rightarrow> clock \<Rightarrow> nat \<Rightarrow> nat \<Rightarrow> (nat \<times> byte list) list list \<Rightarrow> 'd engine \<Rightarrow> (extent_ref list, 'd) eng" where
  "place_windows w now token fence [] eng = (Inr [], eng)"
| "place_windows w now token fence (win # wins) eng =
     (case place_window w now token fence (map snd win) eng of (placed, eng) \<Rightarrow>
        attempt eng (collect_ok placed) (\<lambda>xs.
        andthen (place_windows w now token fence wins eng) (\<lambda>ys eng.
          (Inr (map (\<lambda>((cell, _), x). x\<lparr>x_logical_offset := cell\<rparr>) (zip win xs) @ ys), eng))))"

definition place_cells ::
    "'d env \<Rightarrow> clock \<Rightarrow> nat \<Rightarrow> nat \<Rightarrow> (nat \<times> byte list) list \<Rightarrow> 'd engine \<Rightarrow> (extent_ref list, 'd) eng" where
  "place_cells w now token fence cells = place_windows w now token fence (chunks WRITE_PARALLELISM cells)"

definition cells_command :: "clock \<Rightarrow> target \<Rightarrow> extent_ref list \<Rightarrow> meta_command" where
  "cells_command now t xs = (case t of
       ToVolume v \<Rightarrow> InstallExtents v xs
     | ToFile fs ino replica \<Rightarrow> FsCommand (InstallFileExtents fs ino xs
         (fold max (map (\<lambda>x. wrap_add (x_logical_offset x) (x_len x)) xs) 0) (ck_ns now) replica))"

definition commit_cells :: "'d env \<Rightarrow> clock \<Rightarrow> nat \<Rightarrow> target \<Rightarrow> extent_ref list \<Rightarrow> 'd engine \<Rightarrow> (unit, 'd) eng" where
  "commit_cells w now token t xs eng = settle_lease now token (eng_commit w (cells_command now t xs) eng)"

definition extent_command :: "clock \<Rightarrow> target \<Rightarrow> nat \<Rightarrow> nat \<Rightarrow> extent_ref \<Rightarrow> meta_command" where
  "extent_command now t logical ln x =
     (let x = x\<lparr>x_logical_offset := logical\<rparr>
      in case t of
           ToVolume v \<Rightarrow> InstallExtent v logical x
         | ToFile fs ino replica \<Rightarrow> FsCommand (InstallFileExtent fs ino logical x (wrap_add logical ln) (ck_ns now) replica))"

definition eng_install_extent :: "'d env \<Rightarrow> clock \<Rightarrow> target \<Rightarrow> nat \<Rightarrow> byte list \<Rightarrow> nat \<Rightarrow> 'd engine \<Rightarrow> (unit, 'd) eng" where
  "eng_install_extent w now t logical chunk fence = with_lease (\<lambda>token eng.
     andthen (place_extent w now token fence chunk eng) (\<lambda>x eng.
       settle_lease now token (eng_commit w (extent_command now t logical (length chunk) x) eng)))"

definition write_locked :: "'d env \<Rightarrow> clock \<Rightarrow> target \<Rightarrow> nat \<Rightarrow> byte list \<Rightarrow> nat \<Rightarrow> 'd engine \<Rightarrow> (unit, 'd) eng" where
  "write_locked w now t off data fence eng =
     attempt eng (tg_grid (ev_cfg w) t (en_catalog eng)) (\<lambda>grid.
     andthen (write_cells w now t grid off data eng) (\<lambda>cells eng.
       case cells of
         [(cell, content)] \<Rightarrow> eng_install_extent w now t cell content fence eng
       | _ \<Rightarrow> with_lease (\<lambda>token eng.
           andthen (place_cells w now token fence cells eng) (\<lambda>xs eng. commit_cells w now token t xs eng)) eng))"

definition aligned_cells :: "nat \<Rightarrow> nat \<Rightarrow> byte list \<Rightarrow> (nat \<times> byte list) list" where
  "aligned_cells grid off data =
     (let cs = chunks grid data in map (\<lambda>(i, c). (wrap_add off (i * grid), c)) (zip [0..<length cs] cs))"

definition write_aligned ::
    "'d env \<Rightarrow> clock \<Rightarrow> target \<Rightarrow> nat \<Rightarrow> byte list \<Rightarrow> (catalog \<Rightarrow> unit native_result) \<Rightarrow> nat \<Rightarrow> 'd engine \<Rightarrow> (bool, 'd) eng" where
  "write_aligned w now t off data in_bounds fence eng =
     (if data = [] then (Inr False, eng)
      else attempt eng (tg_grid (ev_cfg w) t (en_catalog eng)) (\<lambda>grid.
        if \<not> grid dvd off \<or> \<not> grid dvd length data then (Inr False, eng)
        else attempt eng (in_bounds (en_catalog eng)) (\<lambda>_.
          if grid = 0 then (Inl EnginePanic, eng)
          else with_lease (\<lambda>token eng.
            andthen (place_cells w now token fence (aligned_cells grid off data) eng) (\<lambda>xs eng.
            attempt eng (in_bounds (en_catalog eng)) (\<lambda>_.
            andthen (commit_cells w now token t xs eng) (\<lambda>_ eng. (Inr True, eng))))) eng)))"

section \<open>Volumes and snapshots\<close>

definition vol_in_bounds :: "string \<Rightarrow> nat \<Rightarrow> nat \<Rightarrow> catalog \<Rightarrow> unit native_result" where
  "vol_in_bounds vid off ln c =
     rbind (ok_or (map_option v_size_bytes (bget (volumes c) vid)) NoSuch) (\<lambda>sz.
       guard (\<not> sat_add off ln > sz) BadRequest)"

text \<open>With a local log the fence is zero.\<close>

definition eng_write :: "'d env \<Rightarrow> clock \<Rightarrow> string \<Rightarrow> nat \<Rightarrow> byte list \<Rightarrow> 'd engine \<Rightarrow> (unit, 'd) eng" where
  "eng_write w now vid off data eng =
     (if data = [] then (Inr (), eng)
      else andthen (write_aligned w now (ToVolume vid) off data (vol_in_bounds vid off (length data)) 0 eng) (\<lambda>written eng.
        if written then (Inr (), eng)
        else attempt eng (vol_in_bounds vid off (length data) (en_catalog eng)) (\<lambda>_.
          write_locked w now (ToVolume vid) off data 0 eng)))"

definition eng_read :: "'d env \<Rightarrow> clock \<Rightarrow> string \<Rightarrow> nat \<Rightarrow> nat \<Rightarrow> 'd engine \<Rightarrow> (byte list, 'd) eng" where
  "eng_read w now vid off ln eng =
     attempt eng (rbind (ok_or (bget (volumes (en_catalog eng)) vid) NoSuch) (\<lambda>v.
       extents_in (en_catalog eng) (v_extents v) (cg_extent_bytes (ev_cfg w)) (v_size_bytes v) off ln)) (\<lambda>xs.
     read_range w now xs off ln eng)"

definition eng_read_snapshot :: "'d env \<Rightarrow> clock \<Rightarrow> string \<Rightarrow> nat \<Rightarrow> nat \<Rightarrow> 'd engine \<Rightarrow> (byte list, 'd) eng" where
  "eng_read_snapshot w now sid off ln eng =
     attempt eng (rbind (ok_or (bget (snapshots (en_catalog eng)) sid) NoSuch) (\<lambda>s.
       extents_in (en_catalog eng) (sn_extents s) (cg_extent_bytes (ev_cfg w))
         (if sn_size_bytes s > 0 then sn_size_bytes s else written_end (en_catalog eng) (sn_extents s)) off ln)) (\<lambda>xs.
     read_range w now xs off ln eng)"

definition eng_create_volume :: "'d env \<Rightarrow> string \<Rightarrow> string \<Rightarrow> nat \<Rightarrow> 'd engine \<Rightarrow> (string, 'd) eng" where
  "eng_create_volume w vid name size_bytes eng =
     (if size_bytes = 0 then (Inl BadRequest, eng)
      else andthen (eng_commit w (CreateVolume vid name size_bytes) eng) (\<lambda>_ eng. (Inr vid, eng)))"

definition eng_delete_volume :: "'d env \<Rightarrow> string \<Rightarrow> 'd engine \<Rightarrow> (unit, 'd) eng" where
  "eng_delete_volume w vid = eng_commit w (DeleteVolume vid)"

definition eng_resize_volume :: "'d env \<Rightarrow> string \<Rightarrow> nat \<Rightarrow> 'd engine \<Rightarrow> (unit, 'd) eng" where
  "eng_resize_volume w vid size_bytes = eng_commit w (ResizeVolume vid size_bytes)"

definition eng_create_snapshot :: "'d env \<Rightarrow> string \<Rightarrow> string \<Rightarrow> string \<Rightarrow> 'd engine \<Rightarrow> (string, 'd) eng" where
  "eng_create_snapshot w sid vid name eng =
     andthen (eng_commit w (CreateSnapshot sid vid name) eng) (\<lambda>_ eng. (Inr sid, eng))"

definition eng_delete_snapshot :: "'d env \<Rightarrow> string \<Rightarrow> 'd engine \<Rightarrow> (unit, 'd) eng" where
  "eng_delete_snapshot w sid = eng_commit w (DeleteSnapshot sid)"

definition eng_clone_snapshot :: "'d env \<Rightarrow> string \<Rightarrow> string \<Rightarrow> string \<Rightarrow> nat option \<Rightarrow> 'd engine \<Rightarrow> (string, 'd) eng" where
  "eng_clone_snapshot w vid sid name size_bytes eng =
     andthen (eng_commit w (CloneSnapshot vid name sid size_bytes) eng) (\<lambda>_ eng. (Inr vid, eng))"

section \<open>Garbage collection\<close>

definition collect_candidates :: "catalog \<Rightarrow> extent_id list" where
  "collect_candidates c = map fst (filter (\<lambda>(_, m). em_refs m = 0 \<and> \<not> em_tombstoned m) (bitems (extents c)))"

record gc_stats =
  gs_candidates :: nat
  gs_reclaimed :: nat
  gs_freed_bytes :: nat

fun reclaim_each :: "'d env \<Rightarrow> extent_id list \<Rightarrow> 'd engine \<Rightarrow> (nat, 'd) eng" where
  "reclaim_each w [] eng = (Inr 0, eng)"
| "reclaim_each w (e # es) eng =
     (let key = (case bget (extents (en_catalog eng)) e of None \<Rightarrow> None | Some m \<Rightarrow> x_object (em_extent m))
      in andthen (eng_commit w (MarkExtentReclaimed e) eng) (\<lambda>_ eng.
         let eng = (case key of
             None \<Rightarrow> eng
           | Some k \<Rightarrow> eng\<lparr>en_objects := map_option (bdel k) (en_objects eng)\<rparr>)
         in andthen (reclaim_each w es eng) (\<lambda>n eng. (Inr (n + 1), eng))))"

definition gc_once :: "'d env \<Rightarrow> 'd engine \<Rightarrow> (gc_stats, 'd) eng" where
  "gc_once w eng =
     (let candidates = collect_candidates (en_catalog eng);
          free_before = total_bytes (free (en_catalog eng))
      in andthen (reclaim_each w candidates eng) (\<lambda>n eng.
           (Inr \<lparr>gs_candidates = length candidates, gs_reclaimed = n,
                 gs_freed_bytes = sat_sub (total_bytes (free (en_catalog eng))) free_before\<rparr>, eng)))"

section \<open>Repair\<close>

record repair_stats =
  rs_extents_checked :: nat
  rs_replicas_repaired :: nat
  rs_unrecoverable :: nat
  rs_deferred :: nat
  rs_bytes_read :: nat
  rs_bytes_written :: nat

definition no_repairs :: repair_stats where
  "no_repairs = \<lparr>rs_extents_checked = 0, rs_replicas_repaired = 0, rs_unrecoverable = 0, rs_deferred = 0,
     rs_bytes_read = 0, rs_bytes_written = 0\<rparr>"

text \<open>The first node of the order that takes the part.\<close>

fun place_first ::
    "'d env \<Rightarrow> clock \<Rightarrow> nat \<Rightarrow> nat \<Rightarrow> string list \<Rightarrow> byte list \<Rightarrow> 'd engine \<Rightarrow> (replica_ref option, 'd) eng" where
  "place_first w now token fence [] data eng = (Inr None, eng)"
| "place_first w now token fence (n # ns) data eng =
     andthen (place_replica w now token fence n data eng) (\<lambda>r eng.
       case r of Some _ \<Rightarrow> (Inr r, eng) | None \<Rightarrow> place_first w now token fence ns data eng)"

definition replacement_order :: "'d env \<Rightarrow> clock \<Rightarrow> replica_ref list \<Rightarrow> nat \<Rightarrow> 'd engine \<Rightarrow> string list" where
  "replacement_order w now others ln eng =
     (let taken_nodes = map r_node_id others;
          taken_hosts = List.map_filter (\<lambda>r. map_option (\<lambda>n. host (failure_domain (nr_spec n)))
            (find (\<lambda>n. n_id (nr_spec n) = r_node_id r) (en_nodes eng))) others
      in placement_order (ev_cfg w) now ln (\<lambda>n. n_id n \<in> set taken_nodes
           \<or> (require_distinct_hosts (cg_placement (ev_cfg w)) \<and> host (failure_domain n) \<in> set taken_hosts)) eng)"

text \<open>The outcome of one part: placed and committed, left for a later pass, or the pass ends.\<close>

datatype part_outcome = Moved replica_ref | Skipped | Stopped

definition replace_one ::
    "'d env \<Rightarrow> clock \<Rightarrow> nat \<Rightarrow> extent_id \<Rightarrow> replica_ref list \<Rightarrow> replica_ref \<Rightarrow> byte list \<Rightarrow> 'd engine \<Rightarrow> (part_outcome, 'd) eng" where
  "replace_one w now fence e current old data eng =
     (let order = replacement_order w now (filter (\<lambda>r. r \<noteq> old) current) (length data) eng
      in with_lease (\<lambda>token eng.
         andthen (place_first w now token fence order data eng) (\<lambda>placed eng.
           case placed of
             None \<Rightarrow> (Inr Skipped, eng)
           | Some new \<Rightarrow>
               (case settle_lease now token (eng_commit w (ReplaceReplica e old new) eng) of
                  (Inr _, eng) \<Rightarrow> (Inr (Moved new), eng)
                | (Inl (MetaFailed _), eng) \<Rightarrow> (Inr Stopped, eng)
                | (Inl (RaftFailed (Rejected m)), eng) \<Rightarrow> (Inr Stopped, eng)
                | (Inl err, eng) \<Rightarrow> (Inl err, eng)))) eng)"

fun replace_each ::
    "'d env \<Rightarrow> clock \<Rightarrow> nat \<Rightarrow> extent_id \<Rightarrow> replica_ref list \<Rightarrow> (replica_ref \<times> byte list) list \<Rightarrow> repair_stats \<Rightarrow> 'd engine
      \<Rightarrow> (repair_stats, 'd) eng" where
  "replace_each w now fence e current [] st eng = (Inr st, eng)"
| "replace_each w now fence e current ((old, data) # bad) st eng =
     andthen (replace_one w now fence e current old data eng) (\<lambda>out eng.
       case out of
         Moved new \<Rightarrow> replace_each w now fence e
           (case position (\<lambda>r. r = old) current of None \<Rightarrow> current | Some i \<Rightarrow> current[i := new]) bad
           (st\<lparr>rs_replicas_repaired := rs_replicas_repaired st + 1, rs_bytes_written := rs_bytes_written st + length data\<rparr>) eng
       | Skipped \<Rightarrow> replace_each w now fence e current bad (st\<lparr>rs_deferred := rs_deferred st + 1\<rparr>) eng
       | Stopped \<Rightarrow> (Inr (st\<lparr>rs_deferred := rs_deferred st + 1\<rparr>), eng))"

definition replace_replicas ::
    "'d env \<Rightarrow> clock \<Rightarrow> nat \<Rightarrow> extent_ref \<Rightarrow> (replica_ref \<times> byte list) list \<Rightarrow> repair_stats \<Rightarrow> 'd engine \<Rightarrow> (repair_stats, 'd) eng" where
  "replace_replicas w now fence x bad st eng =
     (if (case bget (extents (en_catalog eng)) (x_id x) of None \<Rightarrow> False | Some m \<Rightarrow> x_replicas (em_extent m) = x_replicas x)
      then replace_each w now fence (x_id x) (x_replicas x) bad st eng
      else (Inr (st\<lparr>rs_deferred := rs_deferred st + 1\<rparr>), eng))"

fun check_shards ::
    "'d env \<Rightarrow> clock \<Rightarrow> extent_ref \<Rightarrow> ec_layout \<Rightarrow> string fset \<Rightarrow> nat list \<Rightarrow> 'd engine \<Rightarrow> shard option list \<times> 'd engine" where
  "check_shards w now x ec lost [] eng = ([], eng)"
| "check_shards w now x ec lost (i # is) eng =
     (case (if r_node_id (x_replicas x ! i) |\<in>| lost then (None, eng) else read_shard w now x ec i eng) of (s, eng) \<Rightarrow>
        (case check_shards w now x ec lost is eng of (ss, eng) \<Rightarrow> (s # ss, eng)))"

text \<open>A good copy if there was one, the bytes read, and the replicas that are not good.\<close>

fun check_replicas ::
    "'d env \<Rightarrow> clock \<Rightarrow> extent_ref \<Rightarrow> string fset \<Rightarrow> replica_ref list \<Rightarrow> 'd engine \<Rightarrow> (byte list option \<times> nat \<times> replica_ref list) \<times> 'd engine" where
  "check_replicas w now x lost [] eng = ((None, 0, []), eng)"
| "check_replicas w now x lost (r # rs) eng =
     (let absent = (\<lambda>eng. case check_replicas w now x lost rs eng of ((good, n, bad), eng) \<Rightarrow> ((good, n, r # bad), eng))
      in case position (\<lambda>n. n_id (nr_spec n) = r_node_id r \<and> healthy (nr_spec n) \<and> n_id (nr_spec n) |\<notin>| lost) (en_nodes eng) of
           None \<Rightarrow> absent eng
         | Some i \<Rightarrow>
             if length (nr_devices (en_nodes eng ! i)) \<le> r_device_index r then absent eng
             else case use_device i (r_device_index r) (bs_read (ev_ops w) (r_offset r) (x_len x)) eng of
                 (Inr buf, eng) \<Rightarrow>
                   if ev_sha w buf = x_checksum x then
                     (case check_replicas w now x lost rs (upd_node i mark_up eng) of
                        ((good, n, bad), eng) \<Rightarrow> ((Some buf, length buf + n, bad), eng))
                   else absent eng
               | (Inl _, eng) \<Rightarrow> absent (upd_node i (mark_down (ev_cfg w) now) eng))"

definition repair_extent_with ::
    "'d env \<Rightarrow> clock \<Rightarrow> extent_id \<Rightarrow> string fset \<Rightarrow> nat \<Rightarrow> repair_stats \<Rightarrow> 'd engine \<Rightarrow> (repair_stats, 'd) eng" where
  "repair_extent_with w now e lost fence st eng = (case map_option em_extent (bget (extents (en_catalog eng)) e) of
       None \<Rightarrow> (Inr st, eng)
     | Some x \<Rightarrow>
         let st = st\<lparr>rs_extents_checked := rs_extents_checked st + 1\<rparr>
         in case x_ec x of
              Some ec \<Rightarrow>
                if length (x_replicas x) < ly_shards ec then (Inl EnginePanic, eng)
                else (case check_shards w now x ec lost [0..<ly_shards ec] eng of (shards, eng) \<Rightarrow>
                  let st = st\<lparr>rs_bytes_read := rs_bytes_read st
                             + sum_list (map (\<lambda>s. case s of None \<Rightarrow> 0 | Some b \<Rightarrow> length b) shards)\<rparr>;
                      bad = filter (\<lambda>i. shards ! i = None) [0..<length shards]
                  in if bad = [] then (Inr st, eng)
                     else case ec_rebuild (ev_enc w) (ev_dec w) ec shards of
                         Inl _ \<Rightarrow> (Inr (st\<lparr>rs_unrecoverable := rs_unrecoverable st + 1\<rparr>), eng)
                       | Inr parts \<Rightarrow> replace_replicas w now fence x (map (\<lambda>i. (x_replicas x ! i, parts ! i)) bad) st eng)
            | None \<Rightarrow> (case check_replicas w now x lost (x_replicas x) eng of ((good, n, bad), eng) \<Rightarrow>
                let st = st\<lparr>rs_bytes_read := rs_bytes_read st + n\<rparr>
                in if bad = [] then (Inr st, eng)
                   else case good of
                       None \<Rightarrow> (Inr (st\<lparr>rs_unrecoverable := rs_unrecoverable st + 1\<rparr>), eng)
                     | Some data \<Rightarrow> replace_replicas w now fence x (map (\<lambda>r. (r, data)) bad) st eng))"

fun repair_each :: "'d env \<Rightarrow> clock \<Rightarrow> extent_id list \<Rightarrow> repair_stats \<Rightarrow> 'd engine \<Rightarrow> (repair_stats, 'd) eng" where
  "repair_each w now [] st eng = (Inr st, eng)"
| "repair_each w now (e # es) st eng =
     andthen (repair_extent_with w now e {||} 0 st eng) (\<lambda>st eng. repair_each w now es st eng)"

definition repair_once :: "'d env \<Rightarrow> clock \<Rightarrow> 'd engine \<Rightarrow> (repair_stats, 'd) eng" where
  "repair_once w now eng = repair_each w now (bkeys (extents (en_catalog eng))) no_repairs eng"

section \<open>Opening\<close>

definition open_engine ::
    "'d env \<Rightarrow> (node \<times> 'd list) list \<Rightarrow> catalog option \<Rightarrow> meta_command wal_record list \<Rightarrow> (string, byte list) btree option
      \<Rightarrow> (nat \<Rightarrow> string) \<Rightarrow> bool option list \<Rightarrow> 'd engine native_result" where
  "open_engine w nodes saved rs objects uuids faults =
     (if cg_extent_bytes (ev_cfg w) = 0 then Inl BadRequest
      else if list_ex (\<lambda>(_, ds). ds = []) nodes then Inl BadRequest
      else rbind (load_local saved rs) (\<lambda>(c, l).
        Inr \<lparr>en_nodes = map (\<lambda>(n, ds). \<lparr>nr_spec = n, nr_devices = ds, nr_failures = 0, nr_down_until = None,
                nr_down_since = None, nr_next = 0\<rparr>) nodes,
             en_catalog = c, en_log = l, en_log_faults = faults, en_saved = Some c, en_inflight = no_inflight,
             en_objects = objects, en_reads = bempty, en_uuids = uuids, en_uuid_next = 0\<rparr>))"

end
