(* ===== verification/EngineDevices.thy ===== *)
theory EngineDevices
  imports EngineOps CommandLog
begin

text \<open>
  The devices under the engine. What each replica and shard has to hold, what reads return of it,
  and that placing new data touches neither the bytes of installed extents nor those of the
  placements before it. Everything rests on the contract of a device, the locale \<open>block_store\<close>.
\<close>

section \<open>Devices by name\<close>

abbreviation node_name :: "'d node_runtime \<Rightarrow> string" where
  "node_name n \<equiv> n_id (nr_spec n)"

definition dev_at :: "'d engine \<Rightarrow> string \<Rightarrow> nat \<Rightarrow> 'd option" where
  "dev_at eng n k = (case position (\<lambda>m. node_name m = n) (en_nodes eng) of
       None \<Rightarrow> None
     | Some i \<Rightarrow> let ds = nr_devices (en_nodes eng ! i) in if k < length ds then Some (ds ! k) else None)"

definition nodes_ok :: "'d engine \<Rightarrow> bool" where
  "nodes_ok eng \<longleftrightarrow> distinct (map node_name (en_nodes eng)) \<and> (\<forall>n \<in> set (en_nodes eng). nr_devices n \<noteq> [])"

text \<open>Steps that leave the catalog, the log and the configuration alone.\<close>

definition steady :: "'d engine \<Rightarrow> 'd engine \<Rightarrow> bool" where
  "steady eng eng' \<longleftrightarrow> en_catalog eng' = en_catalog eng \<and> en_log eng' = en_log eng
     \<and> en_log_faults eng' = en_log_faults eng \<and> en_saved eng' = en_saved eng \<and> en_uuids eng' = en_uuids eng
     \<and> en_uuid_next eng \<le> en_uuid_next eng' \<and> map nr_spec (en_nodes eng') = map nr_spec (en_nodes eng)
     \<and> map (length \<circ> nr_devices) (en_nodes eng') = map (length \<circ> nr_devices) (en_nodes eng)"

lemma steady_refl [simp]: "steady eng eng"
  by (simp add: steady_def)

lemma steady_trans: "steady a b \<Longrightarrow> steady b c \<Longrightarrow> steady a c"
  by (simp add: steady_def)

lemma steadyD:
  assumes "steady eng eng'"
  shows "en_catalog eng' = en_catalog eng" "en_log eng' = en_log eng" "en_saved eng' = en_saved eng"
    "en_log_faults eng' = en_log_faults eng" "en_uuids eng' = en_uuids eng" "en_uuid_next eng \<le> en_uuid_next eng'"
  using assms by (simp_all add: steady_def)

lemma nodes_ok_steady:
  assumes "nodes_ok eng" and "steady eng eng'"
  shows "nodes_ok eng'"
proof -
  have "map node_name (en_nodes eng') = map n_id (map nr_spec (en_nodes eng'))" by simp
  also have "\<dots> = map node_name (en_nodes eng)" using assms(2) by (simp add: steady_def)
  finally have names: "map node_name (en_nodes eng') = map node_name (en_nodes eng)" .
  have "0 \<notin> set (map (length \<circ> nr_devices) (en_nodes eng))"
    using assms(1) by (auto simp: nodes_ok_def)
  then have "0 \<notin> set (map (length \<circ> nr_devices) (en_nodes eng'))" using assms(2) by (simp add: steady_def)
  then show ?thesis using assms(1) names by (force simp: nodes_ok_def)
qed

lemma position_eq_nth:
  assumes "i < length xs" and "P (xs ! i)" and "\<And>j. j < length xs \<Longrightarrow> P (xs ! j) \<Longrightarrow> j = i"
  shows "position P xs = Some i"
proof (cases "position P xs")
  case None
  then show ?thesis using assms(1,2) by (auto simp: position_None)
next
  case (Some j)
  then obtain as b bs where "xs = as @ b # bs" "length as = j" "P b" using position_Some by blast
  with assms(3) [of j] Some show ?thesis by auto
qed

lemma position_nth: "position P xs = Some i \<Longrightarrow> i < length xs \<and> P (xs ! i)"
  using position_Some [of P xs i] by auto

lemma node_index_unique:
  assumes "nodes_ok eng" and "i < length (en_nodes eng)" and "j < length (en_nodes eng)"
    and "node_name (en_nodes eng ! i) = node_name (en_nodes eng ! j)"
  shows "i = j"
  using assms unfolding nodes_ok_def distinct_conv_nth by fastforce

lemma dev_at_nth:
  assumes "nodes_ok eng" and "i < length (en_nodes eng)"
  shows "dev_at eng (node_name (en_nodes eng ! i)) k =
    (let ds = nr_devices (en_nodes eng ! i) in if k < length ds then Some (ds ! k) else None)"
proof -
  have "position (\<lambda>m. node_name m = node_name (en_nodes eng ! i)) (en_nodes eng) = Some i"
    using assms node_index_unique [OF assms(1)] by (intro position_eq_nth) auto
  then show ?thesis by (simp add: dev_at_def)
qed

lemma dev_at_None: "n \<notin> set (map node_name (en_nodes eng)) \<Longrightarrow> dev_at eng n k = None"
proof -
  assume "n \<notin> set (map node_name (en_nodes eng))"
  then have "position (\<lambda>m. node_name m = n) (en_nodes eng) = None" by (auto simp: position_None)
  then show ?thesis by (simp add: dev_at_def)
qed

lemma dev_at_upd_node:
  assumes "nodes_ok eng" and "i < length (en_nodes eng)"
    and "nr_spec (f (en_nodes eng ! i)) = nr_spec (en_nodes eng ! i)"
    and "length (nr_devices (f (en_nodes eng ! i))) = length (nr_devices (en_nodes eng ! i))"
  shows "steady eng (upd_node i f eng)" "en_inflight (upd_node i f eng) = en_inflight eng"
    "dev_at (upd_node i f eng) n k = (if n = node_name (en_nodes eng ! i) \<and> k < length (nr_devices (en_nodes eng ! i))
       then Some (nr_devices (f (en_nodes eng ! i)) ! k) else dev_at eng n k)"
proof -
  let ?e = "upd_node i f eng"
  have n: "en_nodes ?e = (en_nodes eng)[i := f (en_nodes eng ! i)]" by (simp add: upd_node_def)
  have specs: "map nr_spec (en_nodes ?e) = map nr_spec (en_nodes eng)"
    "map (length \<circ> nr_devices) (en_nodes ?e) = map (length \<circ> nr_devices) (en_nodes eng)"
    using assms by (simp_all add: n map_update list_update_same_conv)
  then show st: "steady eng ?e" by (simp add: steady_def upd_node_def)
  show "en_inflight ?e = en_inflight eng" by (simp add: upd_node_def)
  have ok: "nodes_ok ?e" by (rule nodes_ok_steady [OF assms(1) st])
  show "dev_at ?e n k = (if n = node_name (en_nodes eng ! i) \<and> k < length (nr_devices (en_nodes eng ! i))
       then Some (nr_devices (f (en_nodes eng ! i)) ! k) else dev_at eng n k)"
  proof (cases "n \<in> set (map node_name (en_nodes eng))")
    case True
    then obtain j where j: "j < length (en_nodes eng)" "n = node_name (en_nodes eng ! j)"
      unfolding in_set_conv_nth by auto
    have j': "n = node_name (en_nodes ?e ! j)" "j < length (en_nodes ?e)" using j assms(2,3) by (auto simp: n nth_list_update)
    have e: "dev_at ?e n k = (let ds = nr_devices (en_nodes ?e ! j) in if k < length ds then Some (ds ! k) else None)"
      unfolding j'(1) by (rule dev_at_nth [OF ok j'(2)])
    show ?thesis
    proof (cases "j = i")
      case True
      then show ?thesis
        using e j(2) assms(2,4) dev_at_nth [OF assms(1,2), of k] by (simp add: n Let_def)
    next
      case False
      then have "n \<noteq> node_name (en_nodes eng ! i)" using node_index_unique [OF assms(1,2) j(1)] j(2) by metis
      then show ?thesis using e False dev_at_nth [OF assms(1) j(1), of k] unfolding j(2) by (simp add: n)
    qed
  next
    case False
    have "set (map node_name (en_nodes ?e)) = n_id ` set (map nr_spec (en_nodes ?e))" by force
    also have "\<dots> = set (map node_name (en_nodes eng))" unfolding specs by force
    finally have "n \<notin> set (map node_name (en_nodes ?e))" using False by simp
    then show ?thesis using False assms(2) by (auto simp: dev_at_None)
  qed
qed

lemma upd_node_quiet:
  assumes "nodes_ok eng" and "i < length (en_nodes eng)"
    and "\<And>n. nr_spec (f n) = nr_spec n" and "\<And>n. nr_devices (f n) = nr_devices n"
  shows "steady eng (upd_node i f eng)" "en_inflight (upd_node i f eng) = en_inflight eng"
    "dev_at (upd_node i f eng) = dev_at eng"
  using dev_at_upd_node [OF assms(1,2), of f] assms(3,4) dev_at_nth [OF assms(1,2)] by (auto simp: fun_eq_iff Let_def)

lemma use_device_cases:
  assumes "nodes_ok eng" and "i < length (en_nodes eng)" and "k < length (nr_devices (en_nodes eng ! i))"
    and "use_device i k f eng = (r, eng')"
  obtains d d' where "dev_at eng (node_name (en_nodes eng ! i)) k = Some d" "f d = (r, d')"
    "\<And>n l. dev_at eng' n l = (if n = node_name (en_nodes eng ! i) \<and> l = k then Some d' else dev_at eng n l)"
    "steady eng eng'" "en_inflight eng' = en_inflight eng"
proof -
  let ?n = "en_nodes eng ! i"
  obtain d' where d': "f (nr_devices ?n ! k) = (r, d')" "eng' = upd_node i (\<lambda>n. n\<lparr>nr_devices := (nr_devices n)[k := d']\<rparr>) eng"
    using assms(4) by (auto simp: use_device_def split: prod.splits)
  note u = dev_at_upd_node [OF assms(1,2), of "\<lambda>n. n\<lparr>nr_devices := (nr_devices n)[k := d']\<rparr>", simplified, folded d'(2)]
  show thesis
    using u dev_at_nth [OF assms(1,2)] assms(3) d'(1)
    by (intro that [of "nr_devices ?n ! k" d']) (auto simp: Let_def)
qed

lemma dev_at_cong: "en_nodes e = en_nodes eng \<Longrightarrow> dev_at e = dev_at eng"
  by (simp add: dev_at_def fun_eq_iff cong: option.case_cong)

lemma bad_replicas: "read_replicas w now x rs eng = (Inl (BadChecksum i), eng') \<Longrightarrow> i = x_id x"
  by (induction w now x rs eng rule: read_replicas.induct) (auto split: if_splits prod.splits sum.splits)

lemma bad_shards: "gather_shards w now x ec order have_n shards eng = (Inl (BadChecksum i), eng') \<Longrightarrow> i = x_id x"
proof (induction w now x ec order have_n shards eng rule: gather_shards.induct)
  case (1 w now x ec order have_n shards eng)
  show ?case
  proof (cases "ly_data ec \<le> have_n \<or> order = []")
    case True
    then show ?thesis using "1.prems" by (auto simp: gather_shards.simps split: if_splits)
  next
    case False
    obtain got e where g: "read_shard_batch w now x ec (take (ly_data ec - have_n) order) eng = (got, e)" by (rule prod.exhaust)
    show ?thesis
      using "1.prems" False g "1.IH" [OF _ _ refl g [symmetric]] by (subst (asm) gather_shards.simps) (auto simp: Let_def)
  qed
qed

lemma bad_placed:
  assumes "read_placed w now x eng = (Inl (BadChecksum i), eng')"
  shows "i = x_id x"
proof (cases "x_object x")
  case (Some key)
  then show ?thesis
    using assms by (cases "en_objects eng") (auto simp: read_placed_def read_object_def ok_or_def split: option.splits if_splits)
next
  case None
  show ?thesis
  proof (cases "x_ec x")
    case (Some ec)
    obtain g e where g: "gather_shards w now x ec (shard_order now x ec eng) 0 (replicate (ly_shards ec) None) eng = (g, e)"
      by (rule prod.exhaust)
    show ?thesis
      using assms None Some g bad_shards [of w now x ec "shard_order now x ec eng" 0 _ eng i e]
      by (cases g) (auto simp: read_placed_def read_shards_def Let_def split: if_splits sum.splits)
  qed (use assms None in \<open>auto simp: read_placed_def intro: bad_replicas\<close>)
qed

section \<open>What the devices hold\<close>

text \<open>A device is seen as the end of its used space and its bytes.\<close>

type_synonym device_view = "string \<Rightarrow> nat \<Rightarrow> (nat \<times> (nat \<Rightarrow> byte)) option"

definition dev_view :: "('d \<Rightarrow> nat \<Rightarrow> byte) \<Rightarrow> ('d \<Rightarrow> nat) \<Rightarrow> 'd engine \<Rightarrow> device_view" where
  "dev_view cell used eng n k = map_option (\<lambda>d. (used d, cell d)) (dev_at eng n k)"

definition holds_at :: "device_view \<Rightarrow> replica_ref \<Rightarrow> byte list \<Rightarrow> bool" where
  "holds_at v r bs \<longleftrightarrow> (case v (r_node_id r) (r_device_index r) of
       None \<Rightarrow> False
     | Some (u, c) \<Rightarrow> r_offset r + length bs \<le> u \<and> (\<forall>i < length bs. c (r_offset r + i) = bs ! i))"

definition below_used :: "device_view \<Rightarrow> device_byte \<Rightarrow> bool" where
  "below_used v b \<longleftrightarrow> (case b of (n, k, i) \<Rightarrow> case v n k of None \<Rightarrow> False | Some (u, _) \<Rightarrow> i < u)"

text \<open>The part each replica holds: the bytes themselves, or a shard of them.\<close>

definition scheme_ok :: "'d env \<Rightarrow> ec_scheme \<Rightarrow> bool" where
  "scheme_ok w s \<longleftrightarrow> ec_scheme_new (sc_data s) (sc_parity s) = Inr s \<and> codec_ok (ev_enc w) (ev_dec w) (sc_data s) (sc_parity s)"

definition parts_of :: "'d env \<Rightarrow> extent_ref \<Rightarrow> byte list \<Rightarrow> byte list list \<Rightarrow> bool" where
  "parts_of w x bs ps \<longleftrightarrow> (case x_ec x of
       None \<Rightarrow> ps = replicate (length (x_replicas x)) bs
     | Some ec \<Rightarrow> \<exists>s. scheme_ok w s \<and> ec_encode (ev_enc w) (ev_sha w) s bs = Inr (ec, ps))"

definition extent_of :: "'d env \<Rightarrow> extent_ref \<Rightarrow> byte list \<Rightarrow> bool" where
  "extent_of w x bs \<longleftrightarrow> x_len x = length bs \<and> x_checksum x = ev_sha w bs \<and> x_object x = None
     \<and> bs \<noteq> [] \<and> length bs < u64_max"

definition extent_held :: "'d env \<Rightarrow> device_view \<Rightarrow> extent_ref \<Rightarrow> byte list \<Rightarrow> bool" where
  "extent_held w v x bs \<longleftrightarrow> extent_of w x bs \<and> (\<exists>ps. parts_of w x bs ps \<and> list_all2 (holds_at v) (x_replicas x) ps)"

text \<open>Between two views the used space grows and the bytes of a set stay as they are.\<close>

definition grows_to :: "device_byte set \<Rightarrow> device_view \<Rightarrow> device_view \<Rightarrow> bool" where
  "grows_to S v v' \<longleftrightarrow> (\<forall>n k u c. v n k = Some (u, c) \<longrightarrow>
     (\<exists>u' c'. v' n k = Some (u', c') \<and> u \<le> u' \<and> (\<forall>i < u. (n, k, i) \<in> S \<longrightarrow> c' i = c i)))"

lemma grows_to_refl [simp]: "grows_to S v v"
  by (simp add: grows_to_def)

lemma grows_to_mono: "grows_to S v v' \<Longrightarrow> T \<subseteq> S \<Longrightarrow> grows_to T v v'"
  unfolding grows_to_def by blast

lemma grows_to_trans:
  assumes "grows_to S a b" and "grows_to S b c"
  shows "grows_to S a c"
  unfolding grows_to_def
proof (intro allI impI)
  fix n k u x assume "a n k = Some (u, x)"
  then obtain u1 x1 where 1: "b n k = Some (u1, x1)" "u \<le> u1" "\<forall>i < u. (n, k, i) \<in> S \<longrightarrow> x1 i = x i"
    using assms(1) unfolding grows_to_def by blast
  obtain u2 x2 where "c n k = Some (u2, x2)" "u1 \<le> u2" "\<forall>i < u1. (n, k, i) \<in> S \<longrightarrow> x2 i = x1 i"
    using assms(2) 1(1) unfolding grows_to_def by blast
  then show "\<exists>u' c'. c n k = Some (u', c') \<and> u \<le> u' \<and> (\<forall>i < u. (n, k, i) \<in> S \<longrightarrow> c' i = x i)" using 1 by auto
qed

lemma holds_at_grows:
  assumes "holds_at v r bs" and "grows_to S v v'" and "place_bytes (length bs) (replica_place r) \<subseteq> S"
  shows "holds_at v' r bs"
proof -
  obtain u c where v: "v (r_node_id r) (r_device_index r) = Some (u, c)" "r_offset r + length bs \<le> u"
      "\<forall>i < length bs. c (r_offset r + i) = bs ! i"
    using assms(1) by (auto simp: holds_at_def split: option.splits)
  obtain u' c' where v': "v' (r_node_id r) (r_device_index r) = Some (u', c')" "u \<le> u'"
      "\<forall>i < u. (r_node_id r, r_device_index r, i) \<in> S \<longrightarrow> c' i = c i"
    using assms(2) v(1) unfolding grows_to_def by blast
  have "(r_node_id r, r_device_index r, r_offset r + i) \<in> S" if "i < length bs" for i
    using assms(3) that by (auto simp: replica_place_def)
  then show ?thesis using v v' by (auto simp: holds_at_def)
qed

lemma below_used_grows: "below_used v b \<Longrightarrow> grows_to S v v' \<Longrightarrow> below_used v' b"
  by (cases b) (fastforce simp: below_used_def grows_to_def split: option.splits)

lemma holds_at_below: "holds_at v r bs \<Longrightarrow> b \<in> place_bytes (length bs) (replica_place r) \<Longrightarrow> below_used v b"
  by (auto simp: holds_at_def below_used_def replica_place_def split: option.splits)

lemma holds_at_unique: "holds_at v r as \<Longrightarrow> holds_at v r bs \<Longrightarrow> length as = length bs \<Longrightarrow> as = bs"
  by (auto simp: holds_at_def intro!: nth_equalityI split: option.splits)

lemma parts_of_length:
  assumes "extent_of w x bs" and "parts_of w x bs ps"
  shows "\<forall>p \<in> set ps. length p = stored_len x" "0 < stored_len x"
proof -
  have "(\<forall>p \<in> set ps. length p = stored_len x) \<and> 0 < stored_len x"
  proof (cases "x_ec x")
    case None
    then show ?thesis using assms by (auto simp: parts_of_def extent_of_def stored_len_def)
  next
    case (Some ec)
    then obtain s where s: "scheme_ok w s" "ec_encode (ev_enc w) (ev_sha w) s bs = Inr (ec, ps)"
      using assms(2) by (auto simp: parts_of_def)
    have "length bs < u64_max" using assms(1) by (simp add: extent_of_def)
    from ec_encoded [OF _ _ this, of "ev_enc w" "ev_dec w" "sc_data s" "sc_parity s" s "ev_sha w"] s
    show ?thesis using Some by (auto simp: scheme_ok_def stored_len_def ly_verify_def in_set_conv_nth)
  qed
  then show "\<forall>p \<in> set ps. length p = stored_len x" "0 < stored_len x" by simp_all
qed

lemma extent_held_grows:
  assumes "extent_held w v x bs" and "grows_to S v v'" and "extent_bytes x \<subseteq> S"
  shows "extent_held w v' x bs"
proof -
  obtain ps where ps: "extent_of w x bs" "parts_of w x bs ps" "list_all2 (holds_at v) (x_replicas x) ps"
    using assms(1) by (auto simp: extent_held_def)
  have "holds_at v' (x_replicas x ! i) (ps ! i)" if i: "i < length (x_replicas x)" for i
  proof (rule holds_at_grows [OF _ assms(2)])
    show "holds_at v (x_replicas x ! i) (ps ! i)" using ps(3) i by (auto simp: list_all2_conv_all_nth)
    have "length (ps ! i) = stored_len x" using parts_of_length(1) [OF ps(1,2)] ps(3) i by (auto dest: list_all2_lengthD)
    then show "place_bytes (length (ps ! i)) (replica_place (x_replicas x ! i)) \<subseteq> S"
      using assms(3) nth_mem [OF i] by (simp add: extent_bytes_def extent_places_eq places_bytes_def) blast
  qed
  then have "list_all2 (holds_at v') (x_replicas x) ps" using ps(3) by (simp add: list_all2_conv_all_nth)
  then show ?thesis using ps by (auto simp: extent_held_def)
qed

lemma extent_held_below:
  assumes "extent_held w v x bs" and "b \<in> extent_bytes x"
  shows "below_used v b"
proof -
  obtain ps where ps: "extent_of w x bs" "parts_of w x bs ps" "list_all2 (holds_at v) (x_replicas x) ps"
    using assms(1) by (auto simp: extent_held_def)
  obtain i where i: "i < length (x_replicas x)" "b \<in> place_bytes (stored_len x) (replica_place (x_replicas x ! i))"
    using assms(2) by (auto simp: extent_bytes_def extent_places_eq places_bytes_def in_set_conv_nth)
  have "length (ps ! i) = stored_len x" using parts_of_length(1) [OF ps(1,2)] ps(3) i by (auto dest: list_all2_lengthD)
  moreover have "holds_at v (x_replicas x ! i) (ps ! i)" using ps(3) i by (auto simp: list_all2_conv_all_nth)
  ultimately show ?thesis using holds_at_below i(2) by metis
qed

section \<open>Reading\<close>

context block_store
begin

abbreviation view :: "'d engine \<Rightarrow> device_view" where
  "view \<equiv> dev_view cell used"

text \<open>A step that changes no byte, no range in flight and nothing the catalog or the log knows.\<close>

definition still :: "'d engine \<Rightarrow> 'd engine \<Rightarrow> bool" where
  "still eng eng' \<longleftrightarrow> steady eng eng' \<and> en_inflight eng' = en_inflight eng \<and> view eng' = view eng"

lemma still_refl [simp]: "still eng eng"
  by (simp add: still_def)

lemma still_trans: "still a b \<Longrightarrow> still b c \<Longrightarrow> still a c"
  by (auto simp: still_def intro: steady_trans)

lemma still_nodes: "still eng eng' \<Longrightarrow> nodes_ok eng \<Longrightarrow> nodes_ok eng'"
  by (auto simp: still_def intro: nodes_ok_steady)

lemma still_length: "still eng eng' \<Longrightarrow> length (en_nodes eng') = length (en_nodes eng)"
  by (metis length_map still_def steady_def)

lemma marks_still:
  assumes "nodes_ok eng" and "i < length (en_nodes eng)"
  shows "still eng (upd_node i mark_up eng)" "still eng (upd_node i (mark_down cfg now) eng)"
  using upd_node_quiet [OF assms, of mark_up] upd_node_quiet [OF assms, of "mark_down cfg now"]
  by (auto simp: still_def dev_view_def mark_up_def mark_down_def fun_eq_iff)

lemma device_read:
  assumes "nodes_ok eng" and "i < length (en_nodes eng)" and "r_device_index r < length (nr_devices (en_nodes eng ! i))"
    and "node_name (en_nodes eng ! i) = r_node_id r"
    and "use_device i (r_device_index r) (bs_read ops (r_offset r) ln) eng = (res, eng')"
  shows "still eng eng'" "res = Inr buf \<Longrightarrow> length buf = ln" "res = Inr buf \<Longrightarrow> holds_at (view eng) r p \<Longrightarrow> length p = ln \<Longrightarrow> buf = p"
proof -
  obtain d d' where d: "dev_at eng (r_node_id r) (r_device_index r) = Some d" "bs_read ops (r_offset r) ln d = (res, d')"
      "\<And>n l. dev_at eng' n l = (if n = r_node_id r \<and> l = r_device_index r then Some d' else dev_at eng n l)"
      "steady eng eng'" "en_inflight eng' = en_inflight eng"
    using use_device_cases [OF assms(1-3,5)] assms(4) by metis
  show "still eng eng'"
    using d read_same [OF d(2)] by (auto simp: still_def dev_view_def fun_eq_iff)
  show "length buf = ln" if "res = Inr buf" using read_ok d(2) that by blast
  show "buf = p" if "res = Inr buf" "holds_at (view eng) r p" "length p = ln"
  proof (rule nth_equalityI)
    have b: "length buf = ln" "stored cell d (r_offset r) buf" using read_ok d(2) that(1) by blast+
    then show "length buf = length p" using that(3) by simp
    show "buf ! j = p ! j" if "j < length buf" for j
      using b that \<open>holds_at (view eng) r p\<close> \<open>length p = ln\<close> d(1) by (auto simp: holds_at_def dev_view_def stored_def)
  qed
qed

lemma find_healthy_node:
  assumes "find_healthy n eng = Some i"
  shows "i < length (en_nodes eng)" "node_name (en_nodes eng ! i) = n" "healthy (nr_spec (en_nodes eng ! i))"
  using position_nth [OF assms [unfolded find_healthy_def]] by auto

lemma read_shard_right:
  assumes "nodes_ok eng" and w: "ev_ops w = ops" and "read_shard w now x ec i eng = (s, eng')"
  shows "still eng eng'"
    "s = Some b \<Longrightarrow> holds_at (view eng) (x_replicas x ! i) p \<Longrightarrow> length p = ly_shard_len ec \<Longrightarrow> b = p \<and> i < length (x_replicas x)"
proof -
  have "still eng eng' \<and> (s = Some b \<longrightarrow> holds_at (view eng) (x_replicas x ! i) p \<longrightarrow> length p = ly_shard_len ec \<longrightarrow> b = p \<and> i < length (x_replicas x))"
  proof (cases "length (x_replicas x) \<le> i \<or> find_healthy (r_node_id (x_replicas x ! i)) eng = None")
    case True
    then show ?thesis using assms(3) by (auto simp: read_shard_def Let_def split: if_splits)
  next
    case False
    then obtain n where n: "find_healthy (r_node_id (x_replicas x ! i)) eng = Some n" "i < length (x_replicas x)" by auto
    note h = find_healthy_node [OF n(1)]
    let ?r = "x_replicas x ! i"
    show ?thesis
    proof (cases "length (nr_devices (en_nodes eng ! n)) \<le> r_device_index ?r")
      case True
      then show ?thesis using assms(3) n by (auto simp: read_shard_def Let_def)
    next
      case False
      obtain res e where u: "use_device n (r_device_index ?r) (bs_read ops (r_offset ?r) (ly_shard_len ec)) eng = (res, e)"
        by (rule prod.exhaust)
      note rd = device_read [OF assms(1) h(1) _ h(2) u]
      have e: "still eng e" using rd(1) False by simp
      have m: "still e (upd_node n mark_up e)" "still e (upd_node n (mark_down (ev_cfg w) now) e)"
        using marks_still [OF still_nodes [OF e assms(1)]] h(1) still_length [OF e] by auto
      have "eng' = e \<or> eng' = upd_node n mark_up e \<or> eng' = upd_node n (mark_down (ev_cfg w) now) e" "s = Some b \<longrightarrow> res = Inr b"
        using assms(3) n False u w by (auto simp: read_shard_def Let_def split: sum.splits if_splits)
      moreover have "length (x_replicas x) > i" by (rule n(2))
      ultimately show ?thesis using rd(3) [of b p] False e m by (auto intro: still_trans)
    qed
  qed
  then show "still eng eng'"
    "s = Some b \<Longrightarrow> holds_at (view eng) (x_replicas x ! i) p \<Longrightarrow> length p = ly_shard_len ec \<Longrightarrow> b = p \<and> i < length (x_replicas x)"
    by blast+
qed

lemma read_shard_batch_right:
  assumes "nodes_ok eng" and w: "ev_ops w = ops" and "read_shard_batch w now x ec is eng = (ss, eng')"
    and "\<forall>i \<in> set is. holds_at (view eng) (x_replicas x ! i) (ps ! i) \<and> length (ps ! i) = ly_shard_len ec"
  shows "still eng eng' \<and> list_all2 (\<lambda>i s. s = None \<or> s = Some (ps ! i)) is ss"
  using assms
proof (induction "is" arbitrary: eng ss)
  case (Cons i "is")
  obtain s e ss' where e: "read_shard w now x ec i eng = (s, e)" "read_shard_batch w now x ec is e = (ss', eng')" "ss = s # ss'"
    using Cons.prems(3) by (auto split: prod.splits)
  note r = read_shard_right [OF Cons.prems(1) w e(1)]
  have v: "view e = view eng" using r(1) by (simp add: still_def)
  have "still e eng' \<and> list_all2 (\<lambda>i s. s = None \<or> s = Some (ps ! i)) is ss'"
    using Cons.IH [OF still_nodes [OF r(1) Cons.prems(1)] w e(2)] Cons.prems(4) v by simp
  moreover have "s = None \<or> s = Some (ps ! i)" using r(2) Cons.prems(4) by (cases s) auto
  ultimately show ?case using e(3) r(1) by (auto intro: still_trans)
qed simp

lemma put_shards_right:
  assumes "list_all2 (\<lambda>i s. s = None \<or> s = Some (ps ! i)) is ss" and "\<forall>i < length shards. shards ! i = None \<or> shards ! i = Some (ps ! i)"
  shows "length (put_shards (zip is ss) shards) = length shards \<and>
    (\<forall>i < length shards. put_shards (zip is ss) shards ! i = None \<or> put_shards (zip is ss) shards ! i = Some (ps ! i))"
  using assms
proof (induction "is" ss arbitrary: shards rule: list_all2_induct)
  case (Cons i "is" s ss)
  let ?shards = "case s of None \<Rightarrow> shards | Some b \<Rightarrow> shards[i := Some b]"
  have p: "put_shards (zip (i # is) (s # ss)) shards = put_shards (zip is ss) ?shards" by (cases s) simp_all
  have l: "length ?shards = length shards" by (cases s) simp_all
  have "\<forall>j < length ?shards. ?shards ! j = None \<or> ?shards ! j = Some (ps ! j)"
    using Cons.hyps(1) Cons.prems by (cases s) (auto, metis nth_list_update_eq nth_list_update_neq)
  from Cons.IH [OF this] show ?case unfolding p l .
qed simp

lemma gather_shards_right:
  assumes "nodes_ok eng" and "ev_ops w = ops" and "gather_shards w now x ec order have_n shards eng = (res, eng')"
    and "\<forall>i \<in> set order. holds_at (view eng) (x_replicas x ! i) (ps ! i) \<and> length (ps ! i) = ly_shard_len ec"
    and "\<forall>i < length shards. shards ! i = None \<or> shards ! i = Some (ps ! i)"
  shows "still eng eng' \<and> (\<forall>out. res = Inr out \<longrightarrow> length out = length shards \<and> (\<forall>i < length shards. out ! i = None \<or> out ! i = Some (ps ! i)))"
  using assms
proof (induction w now x ec order have_n shards eng rule: gather_shards.induct)
  case (1 w now x ec order have_n shards eng)
  let ?k = "ly_data ec - have_n"
  show ?case
  proof (cases "ly_data ec \<le> have_n \<or> order = []")
    case True
    then show ?thesis using "1.prems"(3,5) by (auto simp: gather_shards.simps split: if_splits)
  next
    case False
    obtain got e where g: "read_shard_batch w now x ec (take ?k order) eng = (got, e)" by (rule prod.exhaust)
    have rest: "gather_shards w now x ec (drop ?k order) (have_n + length (filter (\<lambda>s. s \<noteq> None) got))
        (put_shards (zip (take ?k order) got) shards) e = (res, eng')"
      using "1.prems"(3) False g by (subst (asm) gather_shards.simps) (simp add: Let_def)
    have b: "still eng e" "list_all2 (\<lambda>i s. s = None \<or> s = Some (ps ! i)) (take ?k order) got"
      using read_shard_batch_right [OF "1.prems"(1,2) g, of ps] "1.prems"(4) by (auto dest: in_set_takeD)
    note put = put_shards_right [OF b(2) "1.prems"(5)]
    have v: "view e = view eng" using b(1) by (simp add: still_def)
    have "still e eng' \<and> (\<forall>out. res = Inr out \<longrightarrow> length out = length (put_shards (zip (take ?k order) got) shards)
        \<and> (\<forall>i < length (put_shards (zip (take ?k order) got) shards). out ! i = None \<or> out ! i = Some (ps ! i)))"
      using False "1.prems"(4) put
      by (intro "1.IH" [OF _ _ refl g [symmetric] still_nodes [OF b(1) "1.prems"(1)] "1.prems"(2) rest])
        (auto simp: v dest: in_set_dropD)
    then show ?thesis using b(1) put by (auto intro: still_trans)
  qed
qed

lemma some_shards_survive:
  assumes "length shards = length ps" and "\<forall>i < length shards. shards ! i = None \<or> shards ! i = Some (ps ! i)"
  shows "shards = survivors {i. shards ! i \<noteq> None} ps"
  using assms by (intro nth_equalityI) (auto simp: survivors_def)

lemma read_shards_right:
  assumes "nodes_ok eng" and "ev_ops w = ops" and "extent_held w (view eng) x bs" and "x_ec x = Some ec"
    and "read_shards w now x ec eng = (res, eng')"
  shows "still eng eng' \<and> (\<forall>out. res = Inr out \<longrightarrow> out = bs)"
proof -
  obtain ps s where h: "extent_of w x bs" "scheme_ok w s" "ec_encode (ev_enc w) (ev_sha w) s bs = Inr (ec, ps)"
      "list_all2 (holds_at (view eng)) (x_replicas x) ps" "parts_of w x bs ps"
    using assms(3,4) by (auto simp: extent_held_def parts_of_def)
  have len: "length bs < u64_max" "x_len x = length bs" using h(1) by (simp_all add: extent_of_def)
  have enc: "ly_data ec = sc_data s" "ly_parity ec = sc_parity s" "length ps = sc_data s + sc_parity s"
      "\<And>I. sc_data s \<le> card (I \<inter> {..<sc_data s + sc_parity s}) \<Longrightarrow> rebuild_data (ev_dec w) ec (survivors I ps) = Inr (take (sc_data s) ps)"
      "ec_join ec (take (sc_data s) ps) (length bs) = bs"
    using ec_encoded [OF _ _ len(1), of "ev_enc w" "ev_dec w" "sc_data s" "sc_parity s" s "ev_sha w"] h(2,3)
    by (auto simp: scheme_ok_def)
  obtain g e where g: "gather_shards w now x ec (shard_order now x ec eng) 0 (replicate (ly_shards ec) None) eng = (g, e)"
    by (rule prod.exhaust)
  have n: "ly_shards ec = length ps" using enc by (simp add: ly_shards_def)
  have "still eng e \<and> (\<forall>out. g = Inr out \<longrightarrow> length out = length ps \<and> (\<forall>i < length ps. out ! i = None \<or> out ! i = Some (ps ! i)))"
  proof (rule gather_shards_right [OF assms(1,2) g, of ps, simplified, unfolded n])
    have "set (shard_order now x ec eng) = {..<length ps}" by (auto simp: shard_order_def Let_def n)
    moreover have "stored_len x = ly_shard_len ec" using assms(4) by (simp add: stored_len_def)
    ultimately show "\<forall>i \<in> set (shard_order now x ec eng). holds_at (view eng) (x_replicas x ! i) (ps ! i) \<and> length (ps ! i) = ly_shard_len ec"
      using h(4) parts_of_length(1) [OF h(1,5)] by (auto simp: list_all2_conv_all_nth)
  qed
  then have e: "still eng e" "\<And>out. g = Inr out \<Longrightarrow> length out = length ps \<and> (\<forall>i < length ps. out ! i = None \<or> out ! i = Some (ps ! i))"
    by auto
  have "out = bs" if g': "g = Inr shards" and r: "rebuild_data (ev_dec w) ec shards = Inr ds" and "out = ec_join ec ds (x_len x)" for shards ds out
  proof -
    define I where "I = {i. shards ! i \<noteq> None}"
    have sh: "shards = survivors I ps" using some_shards_survive [of shards ps] e(2) [OF g'] by (simp add: I_def)
    have "\<not> length (filter (\<lambda>x. x \<noteq> None) shards) < ly_data ec"
      using r by (auto simp: rebuild_data_def rbind_eq_Inr split: if_splits)
    then have "sc_data s \<le> card (I \<inter> {..<sc_data s + sc_parity s})"
      unfolding sh count_survivors using enc by simp
    then have "ds = take (sc_data s) ps" using enc(4) r sh by simp
    then show ?thesis using enc(5) len that(3) by simp
  qed
  then show ?thesis
    using assms(5) g e by (cases g) (auto simp: read_shards_def Let_def split: sum.splits if_splits)
qed

lemma read_replicas_right:
  assumes "nodes_ok eng" and "ev_ops w = ops" and "read_replicas w now x rs eng = (res, eng')"
    and "\<forall>(r, n) \<in> set rs. n < length (en_nodes eng) \<and> node_name (en_nodes eng ! n) = r_node_id r \<and> holds_at (view eng) r bs"
    and "length bs = x_len x"
  shows "still eng eng' \<and> (\<forall>out. res = Inr out \<longrightarrow> out = bs)"
  using assms
proof (induction rs arbitrary: eng)
  case (Cons p rs)
  obtain r n where p: "p = (r, n)" by (rule prod.exhaust)
  have r: "n < length (en_nodes eng)" "node_name (en_nodes eng ! n) = r_node_id r" "holds_at (view eng) r bs"
    using Cons.prems(4) p by auto
  have IH: "still e eng' \<and> (\<forall>out. res = Inr out \<longrightarrow> out = bs)" if e: "still eng e" "read_replicas w now x rs e = (res, eng')" for e
  proof (rule Cons.IH [OF still_nodes [OF e(1) Cons.prems(1)] Cons.prems(2) e(2) _ Cons.prems(5)])
    have specs: "map nr_spec (en_nodes e) = map nr_spec (en_nodes eng)" using e(1) by (simp add: still_def steady_def)
    have "node_name (en_nodes e ! k) = node_name (en_nodes eng ! k)" if "k < length (en_nodes eng)" for k
      using arg_cong [OF specs, of "\<lambda>l. l ! k"] that still_length [OF e(1)] by simp
    then show "\<forall>(r, n) \<in> set rs. n < length (en_nodes e) \<and> node_name (en_nodes e ! n) = r_node_id r \<and> holds_at (view e) r bs"
      using Cons.prems(4) e(1) still_length [OF e(1)] by (auto simp: still_def)
  qed
  show ?case
  proof (cases "length (nr_devices (en_nodes eng ! n)) \<le> r_device_index r")
    case True
    then show ?thesis using IH [of eng] Cons.prems(3) p by simp
  next
    case False
    obtain b e where u: "use_device n (r_device_index r) (bs_read ops (r_offset r) (x_len x)) eng = (b, e)" by (rule prod.exhaust)
    note rd = device_read [OF Cons.prems(1) r(1) _ r(2) u]
    have e: "still eng e" using rd(1) False by simp
    have m: "still eng (upd_node n mark_up e)" "still eng (upd_node n (mark_down (ev_cfg w) now) e)"
      using marks_still [OF still_nodes [OF e Cons.prems(1)]] r(1) still_length [OF e] still_trans [OF e] by auto
    show ?thesis
    proof (cases b)
      case (Inl err)
      then show ?thesis using IH [OF m(2)] m(2) Cons.prems(2,3) p False u by (auto intro: still_trans)
    next
      case (Inr buf)
      then have "buf = bs" using rd(3) [of buf bs] r(3) False Cons.prems(5) by simp
      then show ?thesis using Inr IH [OF e] e m(1) Cons.prems(2,3) p False u by (auto split: if_splits intro: still_trans)
    qed
  qed
qed auto

lemma read_placed_right:
  assumes "nodes_ok eng" and "ev_ops w = ops" and "extent_held w (view eng) x bs" and "read_placed w now x eng = (res, eng')"
  shows "still eng eng' \<and> (\<forall>out. res = Inr out \<longrightarrow> out = bs)"
proof (cases "x_ec x")
  case (Some ec)
  then show ?thesis
    using read_shards_right [OF assms(1-3) Some] assms(3,4) by (simp add: read_placed_def extent_held_def extent_of_def)
next
  case None
  have h: "x_object x = None" "length bs = x_len x" "\<forall>r \<in> set (x_replicas x). holds_at (view eng) r bs"
    using assms(3) None by (auto simp: extent_held_def extent_of_def parts_of_def list_all2_conv_all_nth in_set_conv_nth)
  have "\<forall>(r, n) \<in> set (read_order now x eng). n < length (en_nodes eng) \<and> node_name (en_nodes eng ! n) = r_node_id r \<and> holds_at (view eng) r bs"
    using h(3) find_healthy_node by (auto simp: read_order_def List.map_filter_def)
  then show ?thesis
    using read_replicas_right [OF assms(1,2) _ _ h(2)] assms(4) None h(1) by (simp add: read_placed_def)
qed

text \<open>A read returns the extent's bytes or fails; it never returns other bytes.\<close>

lemma read_extent_right:
  assumes "nodes_ok eng" and "ev_ops w = ops" and "extent_held w (view eng) x bs"
    and "map_option em_extent (bget (extents (en_catalog eng)) (x_id x)) = Some x"
    and "read_extent w now x eng = (res, eng')"
  shows "still eng eng' \<and> (\<forall>out. res = Inr out \<longrightarrow> out = bs)"
proof -
  define e where "e = (if en_objects eng = None then eng else eng\<lparr>en_reads := bput (x_id x) (ck_ms now) (en_reads eng)\<rparr>)"
  have e: "still eng e" "view e = view eng" "nodes_ok e"
    using assms(1) dev_at_cong [of e eng] by (auto simp: e_def still_def steady_def dev_view_def nodes_ok_def fun_eq_iff)
  obtain r1 e1 where p: "read_placed w now x e = (r1, e1)" by (rule prod.exhaust)
  note p1 = read_placed_right [OF e(3) assms(2) assms(3) [folded e(2)] p]
  have c: "en_catalog e1 = en_catalog eng" using p1 e(1) by (simp add: still_def steady_def)
  have "(res, eng') = (r1, e1) \<or> (\<exists>i. r1 = Inl (BadChecksum i) \<and> x_id x \<noteq> i) \<or> (\<exists>err. res = Inl err \<and> eng' = e1)"
    using assms(4,5) p c unfolding read_extent_def Let_def e_def [symmetric]
    by (auto split: sum.splits native_error.splits option.splits if_splits)
  moreover have "x_id x = i" if "r1 = Inl (BadChecksum i)" for i
    using bad_placed p that by metis
  ultimately show ?thesis using p1 e(1) by (auto intro: still_trans)
qed

end

end
