(* ===== verification/EnginePlace.thy ===== *)
theory EnginePlace
  imports EngineDevices
begin

text \<open>
  Placing data. A placement holds a lease on free space; every range it writes is free and claimed
  by nobody else, or lies past the used end of its device. So it changes no byte of an installed
  extent and none of what the same operation placed before.
\<close>

section \<open>Leases\<close>

definition idle :: "inflight \<Rightarrow> bool" where
  "idle i \<longleftrightarrow> if_held i = bempty \<and> if_quarantine i = [] \<and> if_view i = None"

definition leased :: "free_list \<Rightarrow> nat \<Rightarrow> inflight \<Rightarrow> bool" where
  "leased fl token i \<longleftrightarrow> claims_ok (claims_of i) \<and> view_ok fl i \<and> (\<forall>x. free_bytes (claims_of i x) \<subseteq> free_bytes fl)
     \<and> if_quarantine i = [] \<and> (\<forall>k. bget (if_held i) k \<noteq> None \<longrightarrow> k = token)"

lemma idle_no_inflight [simp]: "idle no_inflight"
  by (simp add: idle_def no_inflight_def)

lemma lease_idle:
  assumes "idle i" and "if_lease i = (token, j)"
  shows "leased fl token j"
proof -
  have j: "j = i\<lparr>if_next := token, if_held := bput token [] bempty\<rparr>"
    using assms by (auto simp: if_lease_def Let_def idle_def)
  have c: "claims_of j x = []" for x
    using assms(1) by (cases x) (auto simp: claims_of_def j idle_def)
  have "if_view j = None" "if_quarantine j = []" "if_held j = bput token [] bempty"
    using assms(1) by (simp_all add: j idle_def)
  then show ?thesis by (auto simp: leased_def c claims_ok_def view_ok_def split: if_splits)
qed

lemma drop_idle:
  assumes "leased fl token i"
  shows "idle (if_drop token i)"
proof -
  have "bdel token (if_held i) = bempty" using assms by (intro btree_eqI) (auto simp: leased_def)
  then show ?thesis using assms by (simp add: idle_def if_drop_def leased_def Let_def)
qed

lemma take_leased:
  assumes "fl_inv fl" and "leased fl token i" and "if_take fl t t token n k ln i = (off, j)"
  shows "leased fl token j" "free_bytes (claims_of i (Some token)) \<subseteq> free_bytes (claims_of j (Some token))"
    "off = Some a \<Longrightarrow> 0 < ln \<and> a + ln \<le> u64_max \<and> byte_range n k a ln \<subseteq> free_bytes fl
      \<and> byte_range n k a ln \<inter> free_bytes (claims_of i (Some token)) = {}
      \<and> byte_range n k a ln \<subseteq> free_bytes (claims_of j (Some token))"
proof -
  have c: "claims_ok (claims_of i)" "view_ok fl i" "\<And>x. free_bytes (claims_of i x) \<subseteq> free_bytes fl"
      "if_quarantine i = []" "\<And>k. bget (if_held i) k \<noteq> None \<Longrightarrow> k = token"
    using assms(2) by (auto simp: leased_def)
  have wh: "\<forall>x. \<forall>r \<in> set (claims_of i x). whole fl r"
    using c(3) fr_bytes_free unfolding whole_def by blast
  define h where "h = (if (case if_view i of None \<Rightarrow> True | Some (_, at) \<Rightarrow> t - at \<ge> REFRESH) then if_refresh fl t i else i)"
  have h: "claims_ok (claims_of h)" "view_ok fl h" "if_held h = if_held i" "if_quarantine h = []"
    using refresh_ok(1,2) [OF assms(1) c(1) wh] c by (auto simp: h_def if_refresh_def Let_def)
  have hc: "claims_of h = claims_of i" using h(3,4) c(4) by (auto simp: claims_of_def fun_eq_iff split: option.split)
  have "leased fl token j \<and> free_bytes (claims_of i (Some token)) \<subseteq> free_bytes (claims_of j (Some token))
     \<and> (off = Some a \<longrightarrow> 0 < ln \<and> a + ln \<le> u64_max \<and> byte_range n k a ln \<subseteq> free_bytes fl
      \<and> byte_range n k a ln \<inter> free_bytes (claims_of i (Some token)) = {}
      \<and> byte_range n k a ln \<subseteq> free_bytes (claims_of j (Some token)))"
  proof (cases "\<exists>v at o'. if_view h = Some (v, at) \<and> fl_find v n k ln = Some o'")
    case False
    then have "off = None \<and> j = h"
      using assms(3) unfolding if_take_def Let_def h_def [symmetric] by (auto split: option.splits)
    then show ?thesis using h c hc by (auto simp: leased_def)
  next
    case True
    then obtain v at o' where v: "if_view h = Some (v, at)" "fl_find v n k ln = Some o'" by blast
    let ?r = "\<lparr>fr_node = n, fr_dev = k, fr_off = o', fr_len = ln\<rparr>"
    have j: "off = Some o'" "j = h\<lparr>if_view := Some (snd (fl_reserve v n k o' ln), at),
        if_held := bput token ((case bget (if_held h) token of Some rs \<Rightarrow> rs | None \<Rightarrow> []) @ [?r]) (if_held h)\<rparr>"
      using assms(3) v unfolding if_take_def Let_def h_def [symmetric] by auto
    note k = take_cached_ok(1,2) [OF h(1,2) v, where token = token, folded j(2)] take_cached_ok(3) [OF h(1,2) v]
      take_cached_ok(4) [OF h(1,2) v, where token = token, folded j(2)]
    have fj: "free_bytes (claims_of j x) = free_bytes (claims_of i x) \<union> (if x = Some token then fr_bytes ?r else {})" for x
      using k(4) [of x] by (simp add: hc free_bytes_simps)
    have vok: "fl_inv v" "free_bytes (claims_of i (Some token)) \<inter> free_bytes v = {}" using h(2) v(1) hc by (auto simp: view_ok_def)
    have "if_quarantine j = []" "\<And>l. bget (if_held j) l \<noteq> None \<Longrightarrow> l = token"
      using h(3,4) c(5) j(2) by (auto split: if_splits)
    then have "leased fl token j" using k(1,2,3) c(3) by (auto simp: leased_def fj split: if_splits)
    moreover have "fr_bytes ?r = byte_range n k o' ln" by (simp add: fr_bytes_def)
    ultimately show ?thesis using find_fits [OF vok(1) v(2)] fl_find_Some [OF v(2)] vok(2) j(1) k(3) fj by auto
  qed
  then show "leased fl token j" "free_bytes (claims_of i (Some token)) \<subseteq> free_bytes (claims_of j (Some token))"
    "off = Some a \<Longrightarrow> 0 < ln \<and> a + ln \<le> u64_max \<and> byte_range n k a ln \<subseteq> free_bytes fl
      \<and> byte_range n k a ln \<inter> free_bytes (claims_of i (Some token)) = {}
      \<and> byte_range n k a ln \<subseteq> free_bytes (claims_of j (Some token))" by blast+
qed

section \<open>One replica\<close>

text \<open>The devices hold what the catalog says, and all free space is used space.\<close>

definition data_ok :: "'d env \<Rightarrow> device_view \<Rightarrow> catalog \<Rightarrow> bool" where
  "data_ok w v c \<longleftrightarrow> space_inv c \<and> (\<forall>b \<in> free_bytes (free c). below_used v b)
     \<and> (\<forall>e m. bget (extents c) e = Some m \<longrightarrow> x_id (em_extent m) = e \<and> (\<exists>bs. extent_held w v (em_extent m) bs))"

text \<open>\<open>T\<close> is what the operation has written so far.\<close>

definition fresh_bytes :: "device_byte set \<Rightarrow> nat \<Rightarrow> inflight \<Rightarrow> device_view \<Rightarrow> catalog \<Rightarrow> bool" where
  "fresh_bytes T token i v c \<longleftrightarrow> T \<inter> live_bytes (extents c) = {}
     \<and> T \<inter> free_bytes (free c) \<subseteq> free_bytes (claims_of i (Some token)) \<and> (\<forall>b \<in> T. below_used v b)"

abbreviation part_bytes :: "replica_ref \<times> byte list \<Rightarrow> device_byte set" where
  "part_bytes p \<equiv> place_bytes (length (snd p)) (replica_place (fst p))"

text \<open>Parts that were placed: where they may be installed, and that they are there.\<close>

definition part_placed :: "catalog \<Rightarrow> device_view \<Rightarrow> device_byte set \<Rightarrow> replica_ref \<times> byte list \<Rightarrow> bool" where
  "part_placed c v T p \<longleftrightarrow> r_offset (fst p) + length (snd p) \<le> u64_max
     \<and> (part_bytes p \<subseteq> free_bytes (free c) \<or> part_bytes p \<inter> free_bytes (free c) = {})
     \<and> part_bytes p \<subseteq> T \<and> holds_at v (fst p) (snd p)"

lemma data_ok_grows:
  assumes "data_ok w v c" and "grows_to S v v'" and "live_bytes (extents c) \<subseteq> S"
  shows "data_ok w v' c"
  unfolding data_ok_def
proof (intro conjI allI impI ballI)
  show "space_inv c" using assms(1) by (simp add: data_ok_def)
  show "below_used v' b" if "b \<in> free_bytes (free c)" for b
    using assms(1) that below_used_grows [OF _ assms(2)] by (auto simp: data_ok_def)
  fix e m assume e: "bget (extents c) e = Some m"
  show "x_id (em_extent m) = e" using assms(1) e by (simp add: data_ok_def)
  obtain bs where "extent_held w v (em_extent m) bs" using assms(1) e unfolding data_ok_def by blast
  then show "\<exists>bs. extent_held w v' (em_extent m) bs"
    using extent_held_grows [OF _ assms(2)] extent_bytes_live [OF e] assms(3) by blast
qed

lemma data_ok_live: "data_ok w v c \<Longrightarrow> b \<in> live_bytes (extents c) \<Longrightarrow> below_used v b"
  unfolding data_ok_def mem_live_bytes using extent_held_below by blast

lemma part_placed_grows:
  "part_placed c v T p \<Longrightarrow> grows_to S v v' \<Longrightarrow> T \<subseteq> S \<Longrightarrow> T \<subseteq> T' \<Longrightarrow> part_placed c v' T' p"
  unfolding part_placed_def using holds_at_grows by blast

context block_store
begin

definition placing_inv :: "'d env \<Rightarrow> nat \<Rightarrow> device_byte set \<Rightarrow> 'd engine \<Rightarrow> bool" where
  "placing_inv w token T eng \<longleftrightarrow> nodes_ok eng \<and> data_ok w (view eng) (en_catalog eng)
     \<and> leased (free (en_catalog eng)) token (en_inflight eng)
     \<and> fresh_bytes T token (en_inflight eng) (view eng) (en_catalog eng)"

text \<open>A placing step: what was placed and what is installed stays.\<close>

definition places :: "'d env \<Rightarrow> nat \<Rightarrow> device_byte set \<Rightarrow> device_byte set \<Rightarrow> 'd engine \<Rightarrow> 'd engine \<Rightarrow> bool" where
  "places w token T T' eng eng' \<longleftrightarrow> T \<subseteq> T' \<and> placing_inv w token T' eng' \<and> steady eng eng'
     \<and> grows_to (T \<union> live_bytes (extents (en_catalog eng))) (view eng) (view eng')"

lemma places_refl: "placing_inv w token T eng \<Longrightarrow> places w token T T eng eng"
  by (simp add: places_def)

lemma places_trans:
  assumes "places w token T T1 a b" and "places w token T1 T2 b c"
  shows "places w token T T2 a c"
proof -
  have "en_catalog b = en_catalog a" using assms(1) by (simp add: places_def steady_def)
  then have "grows_to (T \<union> live_bytes (extents (en_catalog a))) (view b) (view c)"
    using assms unfolding places_def by (elim conjE) (rule grows_to_mono, assumption, auto)
  then show ?thesis using assms by (auto simp: places_def intro: steady_trans grows_to_trans)
qed

lemma places_part:
  assumes "places w token T T' eng eng'" and "part_placed (en_catalog eng) (view eng) T p"
  shows "part_placed (en_catalog eng) (view eng') T' p"
  using assms part_placed_grows [of "en_catalog eng" "view eng" T p] unfolding places_def by blast

lemma still_placing: "placing_inv w token T eng \<Longrightarrow> still eng eng' \<Longrightarrow> places w token T T eng eng'"
  using still_nodes by (auto simp: places_def placing_inv_def still_def steady_def)

lemma written_placing:
  assumes inv: "placing_inv w token T eng" and st: "steady eng eng'"
    and lease: "leased (free (en_catalog eng)) token (en_inflight eng')"
    and claims: "free_bytes (claims_of (en_inflight eng) (Some token)) \<subseteq> free_bytes (claims_of (en_inflight eng') (Some token))"
    and gr: "grows_to (T \<union> live_bytes (extents (en_catalog eng))) (view eng) (view eng')"
    and new: "T' = T \<or> T' = T \<union> B \<and> B \<inter> live_bytes (extents (en_catalog eng)) = {}
      \<and> B \<inter> free_bytes (free (en_catalog eng)) \<subseteq> free_bytes (claims_of (en_inflight eng') (Some token)) \<and> (\<forall>b \<in> B. below_used (view eng') b)"
  shows "places w token T T' eng eng'"
proof -
  have "fresh_bytes T' token (en_inflight eng') (view eng') (en_catalog eng)"
    using new inv claims below_used_grows [OF _ gr] unfolding placing_inv_def fresh_bytes_def by blast
  moreover have "data_ok w (view eng') (en_catalog eng)"
    using data_ok_grows [of w, OF _ gr Un_upper2] inv by (simp add: placing_inv_def)
  ultimately show ?thesis
    using inv st lease gr new nodes_ok_steady [OF _ st] by (auto simp: places_def placing_inv_def steadyD(1))
qed

lemma device_changed:
  assumes "dev_at eng n k = Some d" and "\<And>m l. dev_at eng' m l = (if m = n \<and> l = k then Some d' else dev_at eng m l)"
    and "used d \<le> used d'" and "\<And>i. i < used d \<Longrightarrow> (n, k, i) \<in> S \<Longrightarrow> cell d' i = cell d i"
  shows "grows_to S (view eng) (view eng')"
  using assms by (auto simp: grows_to_def dev_view_def)

lemma used_below:
  assumes "placing_inv w token T eng" and "dev_at eng n k = Some d"
    and "(n, k, i) \<in> T \<union> live_bytes (extents (en_catalog eng)) \<or> (n, k, i) \<in> free_bytes (free (en_catalog eng))"
  shows "i < used d"
proof -
  have "below_used (view eng) (n, k, i)"
    using assms(1,3) data_ok_live [of w "view eng" "en_catalog eng"] by (auto simp: placing_inv_def fresh_bytes_def data_ok_def)
  then show ?thesis using assms(2) by (simp add: below_used_def dev_view_def)
qed

text \<open>Writing into a range taken from the free list.\<close>

lemma reuse_placing:
  fixes eng eng' :: "'d engine"
  defines "c \<equiv> en_catalog eng"
  assumes inv: "placing_inv w token T eng" and st: "steady eng eng'"
    and lease: "leased (free (en_catalog eng)) token (en_inflight eng')"
      "free_bytes (claims_of (en_inflight eng) (Some token)) \<subseteq> free_bytes (claims_of (en_inflight eng') (Some token))"
    and d: "dev_at eng n k = Some d" "\<And>m l. dev_at eng' m l = (if m = n \<and> l = k then Some d' else dev_at eng m l)"
    and B: "a + length data \<le> u64_max" "byte_range n k a (length data) \<subseteq> free_bytes (free c)"
      "byte_range n k a (length data) \<inter> free_bytes (claims_of (en_inflight eng) (Some token)) = {}"
      "byte_range n k a (length data) \<subseteq> free_bytes (claims_of (en_inflight eng') (Some token))"
    and q: "bs_write_at ops fence a data d = (q, d')" and data: "data \<noteq> []"
  shows "\<exists>T'. places w token T T' eng eng' \<and> (\<forall>u. q = Inr u \<longrightarrow>
    (let p = (\<lparr>r_node_id = n, r_device_index = k, r_offset = a\<rparr>, data) in part_placed c (view eng') T' p \<and> part_bytes p \<inter> T = {}))"
proof -
  let ?live = "live_bytes (extents c)"
  let ?B = "byte_range n k a (length data)"
  note other = write_other [OF q]
  have "?live \<inter> free_bytes (free c) = {}" "T \<inter> free_bytes (free c) \<subseteq> free_bytes (claims_of (en_inflight eng) (Some token))"
    using inv by (auto simp: placing_inv_def c_def data_ok_def space_inv_def fresh_bytes_def)
  then have disj: "?B \<inter> (T \<union> ?live) = {}" using B by auto
  have gr: "grows_to (T \<union> ?live) (view eng) (view eng')"
  proof (rule device_changed [OF d])
    show "cell d' j = cell d j" if "(n, k, j) \<in> T \<union> ?live" for j
      using other disj that by (metis disjoint_iff mem_byte_range not_le)
  qed (use other in simp)
  have view': "view eng' n k = Some (used d', cell d')" using d(2) by (simp add: dev_view_def)
  have ub: "j < used d'" if "(n, k, j) \<in> ?B" for j using used_below [OF inv d(1), of j] subsetD [OF B(2) that] other by (simp add: c_def)
  then have ub': "\<forall>b \<in> ?B. below_used (view eng') b" using view' by (auto simp: below_used_def byte_range_def)
  let ?T = "case q of Inl _ \<Rightarrow> T | Inr _ \<Rightarrow> T \<union> ?B"
  have pl: "places w token T ?T eng eng'"
    using disj B ub' by (intro written_placing [OF inv st lease gr [unfolded c_def], of _ ?B]) (auto simp: c_def split: sum.split)
  have "(n, k, a + length data - 1) \<in> ?B" using data by (cases data) auto
  from ub [OF this] have "a + length data \<le> used d'" using data by (cases data) auto
  then have "holds_at (view eng') \<lparr>r_node_id = n, r_device_index = k, r_offset = a\<rparr> data" if "q = Inr u" for u
    using write_ok q that view' by (auto simp: holds_at_def stored_def)
  then show ?thesis
    using pl disj B by (intro exI [of _ ?T]) (auto simp: Let_def part_placed_def replica_place_def)
qed

text \<open>Appending past the used end.\<close>

lemma append_placing:
  fixes eng eng' :: "'d engine"
  defines "c \<equiv> en_catalog eng"
  assumes inv: "placing_inv w token T eng" and st: "steady eng eng'"
    and lease: "leased (free (en_catalog eng)) token (en_inflight eng')"
      "free_bytes (claims_of (en_inflight eng) (Some token)) \<subseteq> free_bytes (claims_of (en_inflight eng') (Some token))"
    and d: "dev_at eng n k = Some d" "\<And>m l. dev_at eng' m l = (if m = n \<and> l = k then Some d' else dev_at eng m l)"
    and ap: "bs_append ops fence data d = (res, d')" "data \<noteq> []"
  shows "\<exists>T'. places w token T T' eng eng' \<and> (\<forall>a. res = Inr a \<longrightarrow>
    (let p = (\<lparr>r_node_id = n, r_device_index = k, r_offset = a\<rparr>, data) in part_placed c (view eng') T' p \<and> part_bytes p \<inter> T = {}))"
proof (cases res)
  case (Inl e)
  have "grows_to (T \<union> live_bytes (extents c)) (view eng) (view eng')"
    by (rule device_changed [OF d]) (use append_err ap(1) Inl in auto)
  then have "places w token T T eng eng'" using written_placing [OF inv st lease, of T "{}"] by (simp add: c_def)
  then show ?thesis using Inl by auto
next
  case (Inr a)
  let ?live = "live_bytes (extents c)"
  let ?B = "byte_range n k a (length data)"
  have A: "used d \<le> a" "a + length data \<le> used d'" "used d' \<le> u64_max" "stored cell d' a data" "\<forall>i < used d. cell d' i = cell d i"
    using append_ok [of fence data d a d'] ap Inr by auto
  have view': "view eng' n k = Some (used d', cell d')" using d(2) by (simp add: dev_view_def)
  have gr: "grows_to (T \<union> ?live) (view eng) (view eng')"
    by (rule device_changed [OF d]) (use A in auto)
  have "(n, k, j) \<notin> T \<union> ?live \<union> free_bytes (free c)" if "a \<le> j" for j
    using used_below [OF inv d(1), of j] A(1) that by (auto simp: c_def)
  then have disj: "?B \<inter> (T \<union> ?live) = {}" "?B \<inter> free_bytes (free c) = {}" by (auto simp: byte_range_def)
  have ub: "\<forall>b \<in> ?B. below_used (view eng') b" using A view' by (auto simp: below_used_def byte_range_def)
  have pl: "places w token T (T \<union> ?B) eng eng'"
    using disj ub by (intro written_placing [OF inv st lease gr [unfolded c_def], of _ ?B]) (auto simp: c_def)
  have "holds_at (view eng') \<lparr>r_node_id = n, r_device_index = k, r_offset = a\<rparr> data"
    using A view' by (auto simp: holds_at_def stored_def)
  then show ?thesis
    using pl Inr disj A by (intro exI [of _ "T \<union> ?B"]) (auto simp: Let_def part_placed_def replica_place_def)
qed

lemma place_replica_spec:
  fixes eng :: "'d engine"
  assumes inv: "placing_inv w token T eng" and w: "ev_ops w = ops" and data: "data \<noteq> []"
    and call: "place_replica w now token fence n data eng = (res, eng')"
  shows "\<exists>T'. places w token T T' eng eng' \<and> (\<forall>r. res = Inr (Some r) \<longrightarrow>
    r_node_id r = n \<and> part_placed (en_catalog eng) (view eng') T' (r, data) \<and> part_bytes (r, data) \<inter> T = {})"
proof (cases "position (\<lambda>m. node_name m = n) (en_nodes eng)")
  case None
  then have "eng' = eng" "res = Inl NoSuch" using call by (auto simp: place_replica_def)
  then show ?thesis using places_refl [OF inv] by auto
next
  case (Some i)
  have i: "i < length (en_nodes eng)" "node_name (en_nodes eng ! i) = n" using position_nth [OF Some] by auto
  have ok: "nodes_ok eng" using inv by (simp add: placing_inv_def)
  let ?ds = "nr_devices (en_nodes eng ! i)"
  let ?k = "nr_next (en_nodes eng ! i) mod length ?ds"
  have k: "?k < length ?ds" using ok i(1) by (simp add: nodes_ok_def)
  obtain off infl where take: "if_take (free (en_catalog eng)) (ck_now now) (ck_now now) token n ?k (length data) (en_inflight eng) = (off, infl)"
    by (rule prod.exhaust)
  define e1 where "e1 = upd_node i (\<lambda>m. m\<lparr>nr_next := wrap_add (nr_next m) 1\<rparr>) (eng\<lparr>en_inflight := infl\<rparr>)"
  have e0: "nodes_ok (eng\<lparr>en_inflight := infl\<rparr>)" "i < length (en_nodes (eng\<lparr>en_inflight := infl\<rparr>))" "steady eng (eng\<lparr>en_inflight := infl\<rparr>)"
    using ok i by (simp_all add: nodes_ok_def steady_def)
  note q1 = upd_node_quiet [OF e0(1,2), of "\<lambda>m. m\<lparr>nr_next := wrap_add (nr_next m) 1\<rparr>", simplified, folded e1_def]
  have E1: "steady eng e1" "dev_at e1 = dev_at eng" "en_inflight e1 = infl" "nodes_ok e1"
      "node_name (en_nodes e1 ! i) = n" "i < length (en_nodes e1)" "nr_devices (en_nodes e1 ! i) = ?ds"
    using q1 e0 steady_trans [OF e0(3)] nodes_ok_steady [OF e0(1)] dev_at_cong [of "eng\<lparr>en_inflight := infl\<rparr>" eng] i
    by (auto simp: e1_def upd_node_def)
  let ?io = "\<lambda>d. case off of
      Some off \<Rightarrow> (case bs_write_at ops fence off data d of (Inl e, d) \<Rightarrow> (Inl e, d) | (Inr _, d) \<Rightarrow> (Inr off, d))
    | None \<Rightarrow> bs_append ops fence data d"
  obtain out e2 where use: "use_device i ?k ?io e1 = (out, e2)" by (rule prod.exhaust)
  obtain d d' where d: "dev_at eng n ?k = Some d" "?io d = (out, d')"
      "\<And>m l. dev_at e2 m l = (if m = n \<and> l = ?k then Some d' else dev_at eng m l)" "steady e1 e2" "en_inflight e2 = infl"
    by (rule use_device_cases [OF E1(4,6) _ use, unfolded E1(2,3,5,7), OF k]) (rule that)
  have st: "steady eng e2" using E1(1) d(4) by (rule steady_trans)
  have fl: "fl_inv (free (en_catalog eng))" "leased (free (en_catalog eng)) token (en_inflight eng)"
    using inv by (auto simp: placing_inv_def data_ok_def space_inv_def)
  note tk = take_leased [OF fl take, folded d(5)]
  obtain T' where T': "places w token T T' eng e2" "\<And>a. out = Inr a \<Longrightarrow>
      part_placed (en_catalog eng) (view e2) T' (\<lparr>r_node_id = n, r_device_index = ?k, r_offset = a\<rparr>, data)
      \<and> part_bytes (\<lparr>r_node_id = n, r_device_index = ?k, r_offset = a\<rparr>, data) \<inter> T = {}"
  proof (cases off)
    case None
    then show thesis using append_placing [OF inv st tk(1,2) d(1,3), of fence data out] d(2) data that by (auto simp: Let_def)
  next
    case (Some a)
    obtain q where q: "bs_write_at ops fence a data d = (q, d')" "out = (case q of Inl e \<Rightarrow> Inl e | Inr _ \<Rightarrow> Inr a)"
      using d(2) Some by (auto split: prod.splits sum.splits)
    show thesis
      using reuse_placing [OF inv st tk(1,2) d(1,3), of a data fence q] tk(3) [OF Some] q data that
      by (auto simp: Let_def split: sum.splits)
  qed
  have ok2: "placing_inv w token T' e2" "i < length (en_nodes e2)"
    using T'(1) E1(6) d(4) by (auto simp: places_def steady_def dest: arg_cong [where f = length])
  have m: "still e2 (upd_node i mark_up e2)" "still e2 (upd_node i (mark_down (ev_cfg w) now) e2)"
    using marks_still ok2 by (auto simp: placing_inv_def)
  have fin: "places w token T T' eng e3 \<and> view e3 = view e2" if "e3 = e2 \<or> e3 = upd_node i mark_up e2 \<or> e3 = upd_node i (mark_down (ev_cfg w) now) e2" for e3
    using that T'(1) m places_trans [OF T'(1) still_placing [OF ok2(1)]] by (auto simp: still_def)
  have "eng' = e2 \<or> eng' = upd_node i mark_up e2 \<or> eng' = upd_node i (mark_down (ev_cfg w) now) e2"
    and "\<And>r. res = Inr (Some r) \<Longrightarrow> \<exists>a. out = Inr a \<and> r = \<lparr>r_node_id = n, r_device_index = ?k, r_offset = a\<rparr>"
    using call Some take use w unfolding place_replica_def
    by (auto simp: Let_def e1_def split: sum.splits native_error.splits)
  with fin T'(2) show ?thesis by (intro exI [of _ T']) fastforce
qed

end

section \<open>Several replicas, shards, extents\<close>

text \<open>The parts written while \<open>T0\<close> grew to \<open>T\<close>.\<close>

definition parts_placed ::
    "catalog \<Rightarrow> device_view \<Rightarrow> device_byte set \<Rightarrow> device_byte set \<Rightarrow> (replica_ref \<times> byte list) list \<Rightarrow> bool" where
  "parts_placed c v T0 T ps \<longleftrightarrow> (\<forall>p \<in> set ps. part_placed c v T p \<and> part_bytes p \<inter> T0 = {})
     \<and> sorted_wrt (\<lambda>p q. part_bytes p \<inter> part_bytes q = {}) ps"

lemma parts_placed_Nil [simp]: "parts_placed c v T0 T []"
  by (simp add: parts_placed_def)

lemma parts_placed_append:
  assumes "parts_placed c v T0 T ps" and "parts_placed c v' T T' qs" and "T0 \<subseteq> T" and "T \<subseteq> T'"
    and "grows_to S v v'" and "T \<subseteq> S"
  shows "parts_placed c v' T0 T' (ps @ qs)"
proof -
  have "part_placed c v' T' p" if "p \<in> set ps" for p
    using assms(1,4-6) that by (auto simp: parts_placed_def intro: part_placed_grows)
  moreover have "part_bytes p \<subseteq> T" if "p \<in> set ps" for p
    using assms(1) that by (auto simp: parts_placed_def part_placed_def)
  ultimately show ?thesis using assms(1-3) unfolding parts_placed_def sorted_wrt_append by fastforce
qed

fun taken_parts :: "byte list list \<Rightarrow> replica_ref option native_result list \<Rightarrow> (replica_ref \<times> byte list) list" where
  "taken_parts (b # bs) (Inr (Some r) # rs) = (r, b) # taken_parts bs rs"
| "taken_parts (b # bs) (_ # rs) = taken_parts bs rs"
| "taken_parts _ _ = []"

lemma taken_parts_replicate:
  "ok_parts rs = Inr got \<Longrightarrow> taken_parts (replicate (length rs) b) rs = map (\<lambda>r. (r, b)) got"
  by (induction rs arbitrary: got rule: ok_parts.induct) (auto simp: rbind_eq_Inr split: option.splits)

context block_store
begin

lemma place_each_spec:
  fixes eng :: "'d engine"
  assumes "placing_inv w token T eng" and "ev_ops w = ops" and "\<forall>p \<in> set ps. snd p \<noteq> []"
    and "place_each w now token fence ps eng = (rs, eng')"
  shows "length rs = length ps \<and> (\<exists>T'. places w token T T' eng eng'
    \<and> parts_placed (en_catalog eng) (view eng') T T' (taken_parts (map snd ps) rs))"
  using assms
proof (induction ps arbitrary: T eng rs)
  case Nil
  then show ?case using places_refl [OF Nil.prems(1)] by (auto intro: exI [of _ T])
next
  case (Cons p ps)
  obtain n data where p: "p = (n, data)" by (rule prod.exhaust)
  obtain r e rs' where e: "place_replica w now token fence n data eng = (r, e)"
      "place_each w now token fence ps e = (rs', eng')" "rs = r # rs'"
    using Cons.prems(4) p by (auto split: prod.splits)
  have "data \<noteq> []" using Cons.prems(3) p by simp
  from place_replica_spec [OF Cons.prems(1,2) this e(1)]
  obtain T1 where T1: "places w token T T1 eng e" "\<And>x. r = Inr (Some x) \<Longrightarrow>
      part_placed (en_catalog eng) (view e) T1 (x, data) \<and> part_bytes (x, data) \<inter> T = {}" by blast
  have inv1: "placing_inv w token T1 e" "en_catalog e = en_catalog eng" using T1(1) by (auto simp: places_def steady_def)
  obtain T2 where T2: "length rs' = length ps" "places w token T1 T2 e eng'"
      "parts_placed (en_catalog eng) (view eng') T1 T2 (taken_parts (map snd ps) rs')"
    using Cons.IH [OF inv1(1) Cons.prems(2) _ e(2)] Cons.prems(3) inv1(2) by auto
  define new where "new = (case r of Inr (Some x) \<Rightarrow> [(x, data)] | _ \<Rightarrow> [])"
  have "parts_placed (en_catalog eng) (view e) T T1 new"
    using T1(2) by (auto simp: new_def parts_placed_def split: sum.splits option.splits)
  then have "parts_placed (en_catalog eng) (view eng') T T2 (new @ taken_parts (map snd ps) rs')"
    using T1(1) T2(2) by (intro parts_placed_append [OF _ T2(3)]) (auto simp: places_def)
  moreover have "taken_parts (map snd (p # ps)) rs = new @ taken_parts (map snd ps) rs'"
    by (auto simp: e(3) p new_def split: sum.splits option.splits)
  ultimately show ?case using e(3) T2(1) places_trans [OF T1(1) T2(2)] by auto
qed

lemma place_loop_spec:
  fixes eng :: "'d engine"
  assumes "placing_inv w token T eng" and "ev_ops w = ops" and "data \<noteq> []"
    and "place_loop w now token fence data needed order reps eng = (res, eng')"
    and "T0 \<subseteq> T" and "parts_placed (en_catalog eng) (view eng) T0 T (map (\<lambda>r. (r, data)) reps)"
  shows "\<exists>T'. places w token T T' eng eng' \<and> (\<forall>out. res = Inr out \<longrightarrow>
    parts_placed (en_catalog eng) (view eng') T0 T' (map (\<lambda>r. (r, data)) out))"
  using assms
proof (induction w now token fence data needed order reps eng arbitrary: T rule: place_loop.induct)
  case (1 w now token fence data needed order reps eng)
  show ?case
  proof (cases "length reps < needed \<and> order \<noteq> []")
    case False
    then show ?thesis using "1.prems" places_refl [OF "1.prems"(1)] by (auto simp: place_loop.simps)
  next
    case True
    let ?b = "take (needed - length reps) order"
    obtain rs e where e: "place_each w now token fence (map (\<lambda>n. (n, data)) ?b) eng = (rs, e)" by (rule prod.exhaust)
    have each: "length rs = length ?b \<and> (\<exists>T'. places w token T T' eng e
        \<and> parts_placed (en_catalog eng) (view e) T T' (taken_parts (replicate (length ?b) data) rs))"
      using place_each_spec [OF "1.prems"(1,2) _ e] "1.prems"(3) by (simp add: map_replicate_const comp_def)
    then obtain T1 where T1: "places w token T T1 eng e"
        "parts_placed (en_catalog eng) (view e) T T1 (taken_parts (replicate (length rs) data) rs)" by auto
    have inv1: "placing_inv w token T1 e" "en_catalog e = en_catalog eng" "T0 \<subseteq> T1"
      using T1(1) "1.prems"(5) by (auto simp: places_def steady_def)
    show ?thesis
    proof (cases "ok_parts rs")
      case (Inl err)
      then show ?thesis using "1.prems"(4) True e T1(1) by (auto simp: place_loop.simps [of w])
    next
      case (Inr got)
      have "parts_placed (en_catalog eng) (view e) T0 T1 (map (\<lambda>r. (r, data)) (reps @ got))"
        using parts_placed_append [OF "1.prems"(6) T1(2) "1.prems"(5)] T1(1)
        unfolding taken_parts_replicate [OF Inr] by (auto simp: places_def)
      moreover have "place_loop w now token fence data needed (drop (needed - length reps) order) (reps @ got) e = (res, eng')"
        using "1.prems"(4) True e Inr by (auto simp: place_loop.simps [of w now token fence data needed order])
      ultimately have "\<exists>T'. places w token T1 T' e eng' \<and> (\<forall>out. res = Inr out \<longrightarrow>
          parts_placed (en_catalog eng) (view eng') T0 T' (map (\<lambda>r. (r, data)) out))"
        using "1.IH" [OF True e [symmetric] Inr inv1(1) "1.prems"(2,3) _ inv1(3)] unfolding inv1(2) by blast
      then show ?thesis using places_trans [OF T1(1)] by blast
    qed
  qed
qed

end

subsection \<open>Shards\<close>

definition slots_placed ::
    "catalog \<Rightarrow> device_view \<Rightarrow> device_byte set \<Rightarrow> device_byte set \<Rightarrow> shard list \<Rightarrow> replica_ref option list \<Rightarrow> bool" where
  "slots_placed c v T0 T shards slots \<longleftrightarrow> length slots = length shards
     \<and> (\<forall>i r. i < length slots \<longrightarrow> slots ! i = Some r \<longrightarrow> part_placed c v T (r, shards ! i) \<and> part_bytes (r, shards ! i) \<inter> T0 = {})
     \<and> (\<forall>i j r s. i < length slots \<longrightarrow> j < length slots \<longrightarrow> i \<noteq> j \<longrightarrow> slots ! i = Some r \<longrightarrow> slots ! j = Some s \<longrightarrow>
          part_bytes (r, shards ! i) \<inter> part_bytes (s, shards ! j) = {})"

definition empty_slots :: "replica_ref option list \<Rightarrow> nat set" where
  "empty_slots slots = {i. i < length slots \<and> slots ! i = None}"

lemma slots_placed_grows:
  assumes "slots_placed c v T0 T shards slots" and "grows_to S v v'" and "T \<subseteq> S" and "T \<subseteq> T'"
  shows "slots_placed c v' T0 T' shards slots"
  using assms(1) part_placed_grows [OF _ assms(2-4)] unfolding slots_placed_def by blast

lemma slots_placed_put:
  assumes "slots_placed c v T0 T shards slots" and "i \<in> empty_slots slots"
    and "part_placed c v T (r, shards ! i)" and "part_bytes (r, shards ! i) \<inter> T0 = {}"
    and "\<forall>j s. j < length slots \<longrightarrow> slots ! j = Some s \<longrightarrow> part_bytes (r, shards ! i) \<inter> part_bytes (s, shards ! j) = {}"
  shows "slots_placed c v T0 T shards (slots[i := Some r])" "empty_slots (slots[i := Some r]) = empty_slots slots - {i}"
proof -
  have i: "i < length slots" using assms(2) by (simp add: empty_slots_def)
  have g: "slots[i := Some r] ! j = (if j = i then Some r else slots ! j)" if "j < length slots" for j
    using that by (simp add: nth_list_update)
  show "slots_placed c v T0 T shards (slots[i := Some r])"
    using assms(1,3-5) unfolding slots_placed_def by (auto simp: g Int_commute split: if_splits)
  show "empty_slots (slots[i := Some r]) = empty_slots slots - {i}"
    by (auto simp: empty_slots_def g split: if_splits)
qed

text \<open>The empty slots are those whose write is still to be looked at or to be tried again.\<close>

lemma settle_slots_placed:
  assumes "settle_slots needed (zip is rs) spare slots retry = Inr (slots', spare', retry')" and "length is = length rs"
    and "distinct (is @ map fst retry)" and "empty_slots slots = set is \<union> fst ` set retry"
    and "slots_placed c v T0 T shards slots" and "parts_placed c v T0 T (taken_parts (map ((!) shards) is) rs)"
    and "\<forall>j s p. j < length slots \<longrightarrow> slots ! j = Some s \<longrightarrow> p \<in> set (taken_parts (map ((!) shards) is) rs) \<longrightarrow>
      part_bytes p \<inter> part_bytes (s, shards ! j) = {}"
  shows "slots_placed c v T0 T shards slots' \<and> empty_slots slots' = fst ` set retry' \<and> distinct (map fst retry')
    \<and> length slots' = length slots"
  using assms
proof (induction "is" arbitrary: rs spare slots retry)
  case (Cons i "is")
  obtain r rs' where rs: "rs = r # rs'" "length is = length rs'" using Cons.prems(2) by (cases rs) auto
  obtain x where r: "r = Inr x" using Cons.prems(1) rs by (cases r) auto
  show ?case
  proof (cases x)
    case None
    obtain n ns where sp: "spare = n # ns" using Cons.prems(1) rs r None by (cases spare) auto
    show ?thesis
      using Cons.prems rs r None sp by (intro Cons.IH [of rs' ns slots "retry @ [(i, n)]"]) auto
  next
    case (Some y)
    note put = slots_placed_put [OF Cons.prems(5), of i y]
    have p: "part_placed c v T (y, shards ! i)" "part_bytes (y, shards ! i) \<inter> T0 = {}"
        "parts_placed c v T0 T (taken_parts (map ((!) shards) is) rs')"
        "\<forall>p \<in> set (taken_parts (map ((!) shards) is) rs'). part_bytes (y, shards ! i) \<inter> part_bytes p = {}"
      using Cons.prems(6) rs r Some by (auto simp: parts_placed_def)
    have i: "i \<in> empty_slots slots" "i < length slots" using Cons.prems(4) by (auto simp: empty_slots_def)
    have put: "slots_placed c v T0 T shards (slots[i := Some y])" "empty_slots (slots[i := Some y]) = empty_slots slots - {i}"
      using slots_placed_put [OF Cons.prems(5) i(1) p(1,2)] Cons.prems(7) rs r Some by auto
    have "slots_placed c v T0 T shards slots' \<and> empty_slots slots' = fst ` set retry' \<and> distinct (map fst retry')
        \<and> length slots' = length (slots[i := Some y])"
    proof (rule Cons.IH [OF _ rs(2) _ _ put(1) p(3)])
      show "settle_slots needed (zip is rs') spare (slots[i := Some y]) retry = Inr (slots', spare', retry')"
        using Cons.prems(1) rs r Some by simp
      show "distinct (is @ map fst retry)" using Cons.prems(3) by simp
      show "empty_slots (slots[i := Some y]) = set is \<union> fst ` set retry" using Cons.prems(3,4) put(2) by auto
      show "\<forall>j s q. j < length (slots[i := Some y]) \<longrightarrow> slots[i := Some y] ! j = Some s \<longrightarrow>
          q \<in> set (taken_parts (map ((!) shards) is) rs') \<longrightarrow> part_bytes q \<inter> part_bytes (s, shards ! j) = {}"
      proof (intro allI impI)
        fix j s q assume j: "j < length (slots[i := Some y])" "slots[i := Some y] ! j = Some s" "q \<in> set (taken_parts (map ((!) shards) is) rs')"
        show "part_bytes q \<inter> part_bytes (s, shards ! j) = {}"
        proof (cases "j = i")
          case True
          then show ?thesis using j(2) i(2) bspec [OF p(4) j(3)] by (simp add: Int_commute)
        next
          case False
          then show ?thesis using j Cons.prems(7) rs r Some by simp
        qed
      qed
    qed
    then show ?thesis by simp
  qed
qed auto

lemma taken_parts_apart:
  assumes "slots_placed c v T0 T shards slots" and "parts_placed c v' T T' ps" and "p \<in> set ps"
    and "j < length slots" and "slots ! j = Some s"
  shows "part_bytes p \<inter> part_bytes (s, shards ! j) = {}"
proof -
  have "part_bytes (s, shards ! j) \<subseteq> T" using assms(1,4,5) unfolding slots_placed_def part_placed_def by blast
  moreover have "part_bytes p \<inter> T = {}" using assms(2,3) by (simp add: parts_placed_def)
  ultimately show ?thesis by blast
qed

lemma parts_placed_mono: "parts_placed c v T T' ps \<Longrightarrow> T0 \<subseteq> T \<Longrightarrow> parts_placed c v T0 T' ps"
  unfolding parts_placed_def by blast

context block_store
begin

lemma shard_loop_spec:
  fixes eng :: "'d engine"
  assumes "placing_inv w token T eng" and "ev_ops w = ops" and "\<forall>b \<in> set shards. b \<noteq> []" and "T0 \<subseteq> T"
    and "shard_loop w now token fence shards needed pending spare slots eng = (res, eng')"
    and "slots_placed (en_catalog eng) (view eng) T0 T shards slots" and "empty_slots slots = fst ` set pending"
    and "distinct (map fst pending)"
  shows "\<exists>T'. places w token T T' eng eng' \<and> (\<forall>out. res = Inr out \<longrightarrow>
    slots_placed (en_catalog eng) (view eng') T0 T' shards out \<and> empty_slots out = {})"
  using assms
proof (induction w now token fence shards needed pending spare slots eng arbitrary: T rule: shard_loop.induct)
  case (1 w now token fence shards needed pending spare slots eng)
  show ?case
  proof (cases "pending = []")
    case True
    then show ?thesis using "1.prems" places_refl [OF "1.prems"(1)] by (auto simp: shard_loop.simps intro: exI [of _ T])
  next
    case False
    let ?ps = "map (\<lambda>(i, n). (n, shards ! i)) pending"
    have len: "length slots = length shards" using "1.prems"(6) by (simp add: slots_placed_def)
    obtain rs e where e: "place_each w now token fence ?ps eng = (rs, e)" by (rule prod.exhaust)
    have mem: "shards ! i \<in> set shards" if "i \<in> fst ` set pending" for i
    proof -
      have "i \<in> empty_slots slots" using "1.prems"(7) that by simp
      then show ?thesis using len by (simp add: empty_slots_def)
    qed
    have "\<forall>p \<in> set ?ps. snd p \<noteq> []"
    proof
      fix p assume "p \<in> set ?ps"
      then obtain i where "i \<in> fst ` set pending" "snd p = shards ! i" by (fastforce intro: rev_image_eqI)
      then show "snd p \<noteq> []" using "1.prems"(3) mem by metis
    qed
    from place_each_spec [OF "1.prems"(1,2) this e]
    obtain T1 where T1: "length rs = length pending" "places w token T T1 eng e"
        "parts_placed (en_catalog eng) (view e) T T1 (taken_parts (map ((!) shards) (map fst pending)) rs)"
      by (auto simp: comp_def split_def)
    have inv1: "placing_inv w token T1 e" "en_catalog e = en_catalog eng" "T0 \<subseteq> T1"
      using T1(2) "1.prems"(4) by (auto simp: places_def steady_def)
    have sl: "slots_placed (en_catalog eng) (view e) T0 T1 shards slots"
      using slots_placed_grows [OF "1.prems"(6)] T1(2) by (auto simp: places_def)
    show ?thesis
    proof (cases "settle_slots needed (zip (map fst pending) rs) spare slots []")
      case (Inl err)
      then show ?thesis using "1.prems"(5) False e T1(2) by (auto simp: shard_loop.simps [of w] intro: exI [of _ T1])
    next
      case (Inr q)
      then obtain slots' spare' retry' where q: "settle_slots needed (zip (map fst pending) rs) spare slots [] = Inr (slots', spare', retry')"
        by (cases q) auto
      have st: "slots_placed (en_catalog eng) (view e) T0 T1 shards slots' \<and> empty_slots slots' = fst ` set retry' \<and> distinct (map fst retry')
          \<and> length slots' = length slots"
        using taken_parts_apart [OF "1.prems"(6) T1(3)] T1(1) "1.prems"(7,8) parts_placed_mono [OF T1(3) "1.prems"(4)]
        by (intro settle_slots_placed [OF q _ _ _ sl]) auto
      have rest: "shard_loop w now token fence shards needed retry' spare' slots' e = (res, eng')"
        using "1.prems"(5) False e q by (auto simp: shard_loop.simps [of w now token fence shards needed pending])
      have "\<exists>T'. places w token T1 T' e eng' \<and> (\<forall>out. res = Inr out \<longrightarrow>
          slots_placed (en_catalog e) (view eng') T0 T' shards out \<and> empty_slots out = {})"
        using st by (intro "1.IH" [OF False e [symmetric] q refl refl inv1(1) "1.prems"(2,3) inv1(3) rest]) (simp_all add: inv1(2))
      then show ?thesis using places_trans [OF T1(2)] inv1(2) by metis
    qed
  qed
qed

end

subsection \<open>Extents\<close>

definition env_ok :: "'d env \<Rightarrow> bool" where
  "env_ok w \<longleftrightarrow> 0 < cg_extent_bytes (ev_cfg w) \<and> cg_extent_bytes (ev_cfg w) < u64_max
     \<and> (\<forall>s. cg_erasure (ev_cfg w) = Some s \<longrightarrow> scheme_ok w s)"

text \<open>An extent that was placed and not installed yet.\<close>

definition new_placed ::
    "'d env \<Rightarrow> catalog \<Rightarrow> device_view \<Rightarrow> device_byte set \<Rightarrow> device_byte set \<Rightarrow> extent_ref \<Rightarrow> byte list \<Rightarrow> bool" where
  "new_placed w c v T0 T x bs \<longleftrightarrow> extent_of w x bs \<and> (\<exists>ps. parts_of w x bs ps \<and> length ps = length (x_replicas x)
     \<and> parts_placed c v T0 T (zip (x_replicas x) ps))"

lemma slots_all:
  assumes "slots_placed c v T0 T shards slots" and "empty_slots slots = {}"
  shows "parts_placed c v T0 T (zip (List.map_filter id slots) shards)" "length (List.map_filter id slots) = length shards"
proof -
  have some: "slots ! i = Some (the (slots ! i))" if "i < length slots" for i
    using assms(2) that by (cases "slots ! i") (auto simp: empty_slots_def)
  have "filter (\<lambda>x. x \<noteq> None) slots = slots" using assms(2) by (auto simp: empty_slots_def in_set_conv_nth intro!: filter_True)
  then have m: "List.map_filter id slots = map the slots" by (simp add: List.map_filter_def)
  have len: "length slots = length shards" using assms(1) by (simp add: slots_placed_def)
  then show "length (List.map_filter id slots) = length shards" by (simp add: m)
  let ?z = "zip (map the slots) shards"
  have z: "?z ! i = (the (slots ! i), shards ! i)" "slots ! i = Some (the (slots ! i))" if "i < length ?z" for i
    using that len some by simp_all
  have "part_placed c v T p \<and> part_bytes p \<inter> T0 = {}" if p: "p \<in> set ?z" for p
  proof -
    obtain i where i: "i < length ?z" "p = ?z ! i" using p unfolding in_set_conv_nth by blast
    then show ?thesis using assms(1) z [OF i(1)] len unfolding slots_placed_def by simp
  qed
  moreover have "part_bytes (?z ! i) \<inter> part_bytes (?z ! j) = {}" if "i < j" "j < length ?z" for i j
    using assms(1) z [of i] z [of j] that len unfolding slots_placed_def by simp
  ultimately show "parts_placed c v T0 T (zip (List.map_filter id slots) shards)"
    unfolding m parts_placed_def sorted_wrt_iff_nth_less by blast
qed

context block_store
begin

lemma new_extent_spec:
  assumes "new_extent w now chunk reps ec eng = (res, eng')"
  shows "still eng eng' \<and> en_uuid_next eng < en_uuid_next eng' \<and> res = Inr \<lparr>x_id = en_uuids eng (en_uuid_next eng), x_logical_offset = 0,
    x_len = length chunk, x_checksum = ev_sha w chunk, x_replicas = reps, x_ec = ec, x_created_ms = ck_ms now, x_object = None\<rparr>"
proof -
  let ?e = "eng\<lparr>en_uuid_next := Suc (en_uuid_next eng)\<rparr>"
  have "eng' = ?e" using assms by (auto simp: new_extent_def new_uuid_def)
  moreover have "view ?e = view eng" using dev_at_cong [of ?e eng] by (simp add: dev_view_def fun_eq_iff)
  ultimately show ?thesis using assms by (auto simp: new_extent_def new_uuid_def still_def steady_def)
qed

text \<open>The outcome of placing a chunk.\<close>

definition placed_as :: "'d env \<Rightarrow> 'd engine \<Rightarrow> 'd engine \<Rightarrow> device_byte set \<Rightarrow> device_byte set \<Rightarrow> byte list \<Rightarrow> extent_ref \<Rightarrow> bool" where
  "placed_as w eng eng' T T' chunk x \<longleftrightarrow> new_placed w (en_catalog eng) (view eng') T T' x chunk
     \<and> (\<exists>k. en_uuid_next eng \<le> k \<and> k < en_uuid_next eng' \<and> x_id x = en_uuids eng k)"

lemma place_shards_spec:
  fixes eng :: "'d engine"
  assumes inv: "placing_inv w token T eng" and w: "ev_ops w = ops" and chunk: "chunk \<noteq> []" "length chunk < u64_max"
    and s: "scheme_ok w s" and call: "place_shards w now token fence s chunk eng = (res, eng')"
  shows "\<exists>T'. places w token T T' eng eng' \<and> (\<forall>x. res = Inr x \<longrightarrow> placed_as w eng eng' T T' chunk x)"
proof -
  obtain l shards where enc: "ec_encode (ev_enc w) (ev_sha w) s chunk = Inr (l, shards)" "length shards = sc_data s + sc_parity s"
      "0 < ly_shard_len l" "\<forall>i < length shards. ly_verify (ev_sha w) l i (shards ! i)"
    using ec_encoded [OF _ _ chunk(2), of "ev_enc w" "ev_dec w" "sc_data s" "sc_parity s" s "ev_sha w"] s
    by (auto simp: scheme_ok_def)
  define order where "order = placement_order (ev_cfg w) now (ly_shard_len l) (\<lambda>_. False) eng"
  let ?needed = "length shards"
  have needed: "sc_shards s = ?needed" using enc by (simp add: sc_shards_def)
  show ?thesis
  proof (cases "length order < ?needed")
    case True
    then show ?thesis
      using call enc(1) needed places_refl [OF inv] by (auto simp: place_shards_def Let_def order_def [symmetric] intro: exI [of _ T])
  next
    case False
    let ?pending = "zip [0..<?needed] order"
    obtain q e where q: "shard_loop w now token fence shards ?needed ?pending (drop ?needed order) (replicate ?needed None) eng = (q, e)"
      by (rule prod.exhaust)
    have ne: "\<forall>b \<in> set shards. b \<noteq> []" using enc(3,4) by (fastforce simp: ly_verify_def in_set_conv_nth)
    have fst: "map fst ?pending = [0..<?needed]" using False by (simp add: map_fst_zip_take)
    have fst': "fst ` set ?pending = {..<?needed}" using arg_cong [OF fst, of set] by (simp add: atLeast_upt)
    have init: "slots_placed (en_catalog eng) (view eng) T T shards (replicate ?needed None)"
      "empty_slots (replicate ?needed None) = fst ` set ?pending" "distinct (map fst ?pending)"
      unfolding fst' fst by (auto simp: slots_placed_def empty_slots_def)
    obtain T' where T': "places w token T T' eng e" "\<And>out. q = Inr out \<Longrightarrow>
        slots_placed (en_catalog eng) (view e) T T' shards out \<and> empty_slots out = {}"
      using shard_loop_spec [OF inv w ne subset_refl q init] by blast
    show ?thesis
    proof (cases q)
      case (Inl err)
      then show ?thesis
        using call enc(1) needed False q T'(1) by (auto simp: place_shards_def Let_def order_def [symmetric] intro: exI [of _ T'])
    next
      case (Inr slots)
      have c: "new_extent w now chunk (List.map_filter id slots) (Some l) e = (res, eng')"
        using call enc(1) needed False q Inr by (auto simp: place_shards_def Let_def order_def [symmetric])
      note x = new_extent_spec [OF c]
      note all = slots_all [OF conjunct1 [OF T'(2) [OF Inr]] conjunct2 [OF T'(2) [OF Inr]]]
      have inv': "placing_inv w token T' e" using T'(1) by (simp add: places_def)
      have "places w token T T' eng eng'" using places_trans [OF T'(1) still_placing [OF inv']] x by blast
      moreover have "en_uuid_next eng \<le> en_uuid_next e" "en_uuids e = en_uuids eng" "view eng' = view e"
        using T'(1) x by (auto simp: places_def steady_def still_def)
      ultimately show ?thesis
        using x chunk all s enc(1)
        by (intro exI [of _ T']) (auto simp: placed_as_def new_placed_def extent_of_def parts_of_def)
    qed
  qed
qed

lemma place_extent_spec:
  fixes eng :: "'d engine"
  assumes inv: "placing_inv w token T eng" and w: "ev_ops w = ops" "env_ok w" and chunk: "chunk \<noteq> []" "length chunk < u64_max"
    and call: "place_extent w now token fence chunk eng = (res, eng')"
  shows "\<exists>T'. places w token T T' eng eng' \<and> (\<forall>x. res = Inr x \<longrightarrow> placed_as w eng eng' T T' chunk x)"
proof (cases "if length chunk \<ge> cg_erasure_min (ev_cfg w) then cg_erasure (ev_cfg w) else None")
  case (Some s)
  then have "scheme_ok w s" using w(2) by (auto simp: env_ok_def split: if_splits)
  moreover have "place_shards w now token fence s chunk eng = (res, eng')" using call Some by (simp add: place_extent_def)
  ultimately show ?thesis by (rule place_shards_spec [OF inv w(1) chunk])
next
  case None
  define order where "order = placement_order (ev_cfg w) now (length chunk) (\<lambda>_. False) eng"
  define needed where "needed = replicas (cg_placement (ev_cfg w))"
  note def = place_extent_def [of w now token fence chunk eng, unfolded None Let_def, folded order_def needed_def, simplified]
  obtain q e where q: "place_loop w now token fence chunk needed order [] eng = (q, e)" by (rule prod.exhaust)
  obtain T' where T': "places w token T T' eng e" "\<And>out. q = Inr out \<Longrightarrow>
      parts_placed (en_catalog eng) (view e) T T' (map (\<lambda>r. (r, chunk)) out)"
    using place_loop_spec [OF inv w(1) chunk(1) q subset_refl] by auto
  consider (err) err where "res = Inl err" "eng' = eng \<or> eng' = e"
    | (ok) reps where "q = Inr reps" "new_extent w now chunk reps None e = (res, eng')"
    using call q unfolding def by (cases q) (auto split: if_splits)
  then show ?thesis
  proof cases
    case err
    then show ?thesis using T'(1) places_refl [OF inv] by auto
  next
    case (ok reps)
    note x = new_extent_spec [OF ok(2)]
    have inv': "placing_inv w token T' e" using T'(1) by (simp add: places_def)
    have "places w token T T' eng eng'" using places_trans [OF T'(1) still_placing [OF inv']] x by blast
    moreover have "en_uuid_next eng \<le> en_uuid_next e" "en_uuids e = en_uuids eng" "view eng' = view e"
      using T'(1) x by (auto simp: places_def steady_def still_def)
    moreover have "map (\<lambda>r. (r, chunk)) reps = zip reps (replicate (length reps) chunk)" by (simp add: zip_replicate2)
    ultimately show ?thesis
      using x chunk T'(2) [OF ok(1)]
      by (intro exI [of _ T']) (auto simp: placed_as_def new_placed_def extent_of_def parts_of_def)
  qed
qed

end

subsection \<open>Several extents\<close>

definition news_placed ::
    "'d env \<Rightarrow> catalog \<Rightarrow> device_view \<Rightarrow> device_byte set \<Rightarrow> device_byte set \<Rightarrow> (nat \<Rightarrow> string) \<Rightarrow> nat \<Rightarrow> nat
      \<Rightarrow> (extent_ref \<times> byte list) list \<Rightarrow> bool" where
  "news_placed w c v T0 T uu lo hi xs \<longleftrightarrow>
     (\<forall>(x, bs) \<in> set xs. new_placed w c v T0 T x bs \<and> (\<exists>k. lo \<le> k \<and> k < hi \<and> x_id x = uu k))
     \<and> sorted_wrt (\<lambda>(x, _) (y, _). x_id x \<noteq> x_id y \<and> extent_bytes x \<inter> extent_bytes y = {}) xs"

lemma extent_bytes_parts:
  assumes "extent_of w x bs" and "parts_of w x bs ps" and "length ps = length (x_replicas x)"
  shows "extent_bytes x = (\<Union>p \<in> set (zip (x_replicas x) ps). part_bytes p)"
proof -
  have "part_bytes (zip (x_replicas x) ps ! i) = place_bytes (stored_len x) (replica_place (x_replicas x ! i))" if "i < length (x_replicas x)" for i
    using parts_of_length(1) [OF assms(1,2)] assms(3) that by simp
  then show ?thesis
    using assms(3) unfolding extent_bytes_def places_bytes_def extent_places_eq
    by (auto simp: set_conv_nth)
qed

lemma new_placed_bytes:
  assumes "new_placed w c v T0 T x bs"
  shows "extent_bytes x \<subseteq> T" "extent_bytes x \<inter> T0 = {}"
proof -
  obtain ps where p: "extent_of w x bs" "parts_of w x bs ps" "length ps = length (x_replicas x)" "parts_placed c v T0 T (zip (x_replicas x) ps)"
    using assms by (auto simp: new_placed_def)
  show "extent_bytes x \<subseteq> T" "extent_bytes x \<inter> T0 = {}"
    using p(4) unfolding extent_bytes_parts [OF p(1-3)] parts_placed_def part_placed_def by blast+
qed

lemma new_placed_grows:
  assumes "new_placed w c v T0 T x bs" and "grows_to S v v'" and "T \<subseteq> S" and "T \<subseteq> T'"
  shows "new_placed w c v' T0 T' x bs"
  using assms(1) part_placed_grows [OF _ assms(2-4)] unfolding new_placed_def parts_placed_def by blast

lemma new_placed_mono: "new_placed w c v T T' x bs \<Longrightarrow> T0 \<subseteq> T \<Longrightarrow> new_placed w c v T0 T' x bs"
  unfolding new_placed_def using parts_placed_mono by blast

lemma new_placed_moved [simp]:
  "new_placed w c v T0 T (x\<lparr>x_logical_offset := l\<rparr>) bs \<longleftrightarrow> new_placed w c v T0 T x bs"
  "extent_bytes (x\<lparr>x_logical_offset := l\<rparr>) = extent_bytes x"
  by (simp_all add: new_placed_def extent_of_def parts_of_def extent_bytes_def extent_places_def stored_len_def split: option.split)

lemma news_placed_Nil [simp]: "news_placed w c v T0 T uu lo hi []"
  by (simp add: news_placed_def)

lemma news_placed_append:
  assumes "news_placed w c v T0 T uu lo mid xs" and "news_placed w c v' T T' uu mid hi ys" and "inj uu"
    and "T0 \<subseteq> T" and "T \<subseteq> T'" and "grows_to S v v'" and "T \<subseteq> S" and "lo \<le> mid" and "mid \<le> hi"
  shows "news_placed w c v' T0 T' uu lo hi (xs @ ys)"
proof -
  have X: "new_placed w c v' T0 T' x bs \<and> (\<exists>k. lo \<le> k \<and> k < hi \<and> x_id x = uu k)" if "(x, bs) \<in> set xs" for x bs
  proof -
    have "new_placed w c v T0 T x bs" "\<exists>k. lo \<le> k \<and> k < mid \<and> x_id x = uu k"
      using assms(1) that by (auto simp: news_placed_def)
    then show ?thesis using new_placed_grows [OF _ assms(6,7,5)] assms(9) order_less_le_trans by blast
  qed
  have Y: "new_placed w c v' T0 T' x bs \<and> (\<exists>k. lo \<le> k \<and> k < hi \<and> x_id x = uu k)" if "(x, bs) \<in> set ys" for x bs
  proof -
    have "new_placed w c v' T T' x bs" "\<exists>k. mid \<le> k \<and> k < hi \<and> x_id x = uu k"
      using assms(2) that by (auto simp: news_placed_def)
    then show ?thesis using new_placed_mono [OF _ assms(4)] assms(8) order_trans by blast
  qed
  have "x_id x \<noteq> x_id y \<and> extent_bytes x \<inter> extent_bytes y = {}" if xy: "(x, bs) \<in> set xs" "(y, cs) \<in> set ys" for x bs y cs
  proof -
    obtain i j where ij: "i < mid" "x_id x = uu i" "mid \<le> j" "x_id y = uu j"
      using assms(1,2) xy unfolding news_placed_def by fastforce
    have "extent_bytes x \<subseteq> T" "extent_bytes y \<inter> T = {}"
      using assms(1,2) xy new_placed_bytes unfolding news_placed_def by fast+
    then show ?thesis using ij assms(3) by (auto dest: injD)
  qed
  then show ?thesis using assms(1,2) X Y unfolding news_placed_def sorted_wrt_append by (simp add: split_def ball_Un) fastforce
qed

context block_store
begin

abbreviation cells_placed :: "'d env \<Rightarrow> 'd engine \<Rightarrow> 'd engine \<Rightarrow> device_byte set \<Rightarrow> device_byte set \<Rightarrow> (extent_ref \<times> byte list) list \<Rightarrow> bool" where
  "cells_placed w eng eng' T T' \<equiv> news_placed w (en_catalog eng) (view eng') T T' (en_uuids eng) (en_uuid_next eng) (en_uuid_next eng')"

lemma cells_placed_append:
  assumes "inj (en_uuids eng)" and "T0 \<subseteq> T" and "places w token T0 T eng e" and "places w token T T' e eng'"
    and "cells_placed w eng e T0 T xs" and "cells_placed w e eng' T T' ys"
  shows "cells_placed w eng eng' T0 T' (xs @ ys)"
proof -
  have "en_catalog e = en_catalog eng" "en_uuids e = en_uuids eng" "en_uuid_next eng \<le> en_uuid_next e" "en_uuid_next e \<le> en_uuid_next eng'"
      "T \<subseteq> T'" "grows_to (T \<union> live_bytes (extents (en_catalog e))) (view e) (view eng')"
    using assms(3,4) by (auto simp: places_def steady_def)
  with assms show ?thesis
    by (intro news_placed_append [OF assms(5), where S = "T \<union> live_bytes (extents (en_catalog e))"]) auto
qed

lemma place_window_spec:
  fixes eng :: "'d engine"
  assumes "placing_inv w token T eng" and "ev_ops w = ops" "env_ok w" and "inj (en_uuids eng)"
    and "\<forall>b \<in> set bs. b \<noteq> [] \<and> length b < u64_max" and "place_window w now token fence bs eng = (rs, eng')"
  shows "\<exists>T'. places w token T T' eng eng' \<and> (\<forall>xs. collect_ok rs = Inr xs \<longrightarrow>
    length xs = length bs \<and> cells_placed w eng eng' T T' (zip xs bs))"
  using assms
proof (induction bs arbitrary: T eng rs)
  case Nil
  then show ?case using places_refl [OF Nil.prems(1)] by (auto intro: exI [of _ T])
next
  case (Cons b bs)
  obtain r e rs' where e: "place_extent w now token fence b eng = (r, e)" "place_window w now token fence bs e = (rs', eng')" "rs = r # rs'"
    using Cons.prems(6) by (auto split: prod.splits)
  obtain T1 where T1: "places w token T T1 eng e" "\<And>x. r = Inr x \<Longrightarrow> placed_as w eng e T T1 b x"
    using place_extent_spec [OF Cons.prems(1-3) _ _ e(1)] Cons.prems(5) by auto
  have e': "placing_inv w token T1 e" "inj (en_uuids e)" "T \<subseteq> T1" using T1(1) Cons.prems(4) by (auto simp: places_def steady_def)
  obtain T2 where T2: "places w token T1 T2 e eng'" "\<And>xs. collect_ok rs' = Inr xs \<Longrightarrow> length xs = length bs \<and> cells_placed w e eng' T1 T2 (zip xs bs)"
    using Cons.IH [OF e'(1) Cons.prems(2,3) e'(2) _ e(2)] Cons.prems(5) by auto
  have "length xs = length (b # bs) \<and> cells_placed w eng eng' T T2 (zip xs (b # bs))" if ok: "collect_ok rs = Inr xs" for xs
  proof -
    obtain x xs' where x: "r = Inr x" "collect_ok rs' = Inr xs'" "xs = x # xs'"
      using ok e(3) by (cases r) (auto simp: rbind_eq_Inr)
    have "cells_placed w eng e T T1 [(x, b)]" using T1(2) [OF x(1)] by (auto simp: news_placed_def placed_as_def)
    from cells_placed_append [OF Cons.prems(4) e'(3) T1(1) T2(1) this] T2(2) [OF x(2)] x(3) show ?thesis by simp
  qed
  then show ?case using places_trans [OF T1(1) T2(1)] by blast
qed

end

lemma news_placed_moved:
  assumes "news_placed w c v T0 T uu lo hi (zip xs bs)" and "length ls = length xs"
  shows "news_placed w c v T0 T uu lo hi (zip (map2 (\<lambda>l x. x\<lparr>x_logical_offset := l\<rparr>) ls xs) bs)"
proof -
  define b where "b = zip (map2 (\<lambda>l x. x\<lparr>x_logical_offset := l\<rparr>) ls xs) bs"
  have len: "length b = length (zip xs bs)" using assms(2) by (simp add: b_def)
  have nth: "b ! i = ((fst (zip xs bs ! i))\<lparr>x_logical_offset := ls ! i\<rparr>, snd (zip xs bs ! i))" if "i < length (zip xs bs)" for i
    using that assms(2) by (simp add: b_def)
  show ?thesis
    using assms(1) unfolding b_def [symmetric] news_placed_def all_set_conv_all_nth sorted_wrt_iff_nth_less len
    by (auto simp: nth split_def)
qed

lemma concat_chunks: "0 < n \<Longrightarrow> concat (chunks n xs) = xs"
proof (induction n xs rule: chunks.induct)
  case (1 n xs)
  then show ?case by (subst chunks.simps) simp
qed

lemma chunks_bounds: "ys \<in> set (chunks n xs) \<Longrightarrow> ys \<noteq> [] \<and> length ys \<le> n \<and> set ys \<subseteq> set xs"
proof (induction n xs rule: chunks.induct)
  case (1 n xs)
  show ?case
  proof (cases "n = 0 \<or> xs = []")
    case True
    then show ?thesis using "1.prems" by (subst (asm) chunks.simps) auto
  next
    case False
    then have "ys = take n xs \<or> ys \<in> set (chunks n (drop n xs))" using "1.prems" by (subst (asm) chunks.simps) auto
    then show ?thesis using False "1.IH" set_take_subset [of n xs] set_drop_subset [of n xs] by auto
  qed
qed

context block_store
begin

lemma place_windows_spec:
  fixes eng :: "'d engine"
  assumes "placing_inv w token T eng" and "ev_ops w = ops" "env_ok w" and "inj (en_uuids eng)"
    and "\<forall>cell \<in> set (concat wins). snd cell \<noteq> [] \<and> length (snd cell) < u64_max"
    and "place_windows w now token fence wins eng = (res, eng')"
  shows "\<exists>T'. places w token T T' eng eng' \<and> (\<forall>xs. res = Inr xs \<longrightarrow>
    map x_logical_offset xs = map fst (concat wins) \<and> cells_placed w eng eng' T T' (zip xs (map snd (concat wins))))"
  using assms
proof (induction wins arbitrary: T eng res eng')
  case Nil
  then show ?case using places_refl [OF Nil.prems(1)] by (auto intro: exI [of _ T])
next
  case (Cons win wins)
  obtain rs e where e: "place_window w now token fence (map snd win) eng = (rs, e)" by (rule prod.exhaust)
  obtain T1 where T1: "places w token T T1 eng e" "\<And>xs. collect_ok rs = Inr xs \<Longrightarrow>
      length xs = length win \<and> cells_placed w eng e T T1 (zip xs (map snd win))"
    using place_window_spec [OF Cons.prems(1-4) _ e] Cons.prems(5) by auto
  have e': "placing_inv w token T1 e" "inj (en_uuids e)" "T \<subseteq> T1" using T1(1) Cons.prems(4) by (auto simp: places_def steady_def)
  show ?case
  proof (cases "collect_ok rs")
    case (Inl err)
    then show ?thesis using Cons.prems(6) e T1(1) by (auto intro: exI [of _ T1])
  next
    case (Inr xs)
    obtain q e2 where q: "place_windows w now token fence wins e = (q, e2)" by (rule prod.exhaust)
    obtain T2 where T2: "places w token T1 T2 e e2" "\<And>ys. q = Inr ys \<Longrightarrow>
        map x_logical_offset ys = map fst (concat wins) \<and> cells_placed w e e2 T1 T2 (zip ys (map snd (concat wins)))"
      using Cons.IH [OF e'(1) Cons.prems(2,3) e'(2) _ q] Cons.prems(5) by auto
    define ms where "ms = map2 (\<lambda>l x. x\<lparr>x_logical_offset := l\<rparr>) (map fst win) xs"
    have len: "length xs = length win" using T1(2) [OF Inr] by simp
    have ms: "map (\<lambda>((cell, _), x). x\<lparr>x_logical_offset := cell\<rparr>) (zip win xs) = ms"
      by (simp add: ms_def zip_map1 split_def)
    have offs: "map x_logical_offset ms = map fst win" "length ms = length win" using len by (auto simp: ms_def intro!: nth_equalityI)
    have pl: "cells_placed w eng e T T1 (zip ms (map snd win))"
      unfolding ms_def using T1(2) [OF Inr] by (intro news_placed_moved) auto
    have fin: "eng' = e2" "res = rbind q (\<lambda>ys. Inr (ms @ ys))"
      using Cons.prems(6) e Inr q ms by (cases q; auto)+
    have "map x_logical_offset zs = map fst (concat (win # wins)) \<and> cells_placed w eng eng' T T2 (zip zs (map snd (concat (win # wins))))"
      if zs: "res = Inr zs" for zs
    proof -
      obtain ys where ys: "q = Inr ys" "zs = ms @ ys" using zs fin(2) by (auto simp: rbind_eq_Inr)
      have "zip zs (map snd (concat (win # wins))) = zip ms (map snd win) @ zip ys (map snd (concat wins))"
        using offs(2) by (simp add: ys(2))
      then show ?thesis
        using cells_placed_append [OF Cons.prems(4) e'(3) T1(1) T2(1) pl conjunct2 [OF T2(2) [OF ys(1)]]] offs(1) T2(2) [OF ys(1)] ys(2) fin(1)
        by simp
    qed
    then show ?thesis using places_trans [OF T1(1) T2(1)] fin(1) by blast
  qed
qed

lemma place_cells_spec:
  fixes eng :: "'d engine"
  assumes "placing_inv w token T eng" and "ev_ops w = ops" "env_ok w" and "inj (en_uuids eng)"
    and "\<forall>cell \<in> set cells. snd cell \<noteq> [] \<and> length (snd cell) < u64_max"
    and "place_cells w now token fence cells eng = (res, eng')"
  shows "\<exists>T'. places w token T T' eng eng' \<and> (\<forall>xs. res = Inr xs \<longrightarrow>
    map x_logical_offset xs = map fst cells \<and> cells_placed w eng eng' T T' (zip xs (map snd cells)))"
proof -
  have "concat (chunks WRITE_PARALLELISM cells) = cells" by (rule concat_chunks) (simp add: WRITE_PARALLELISM_def)
  then show ?thesis
    using place_windows_spec [OF assms(1-4), of "chunks WRITE_PARALLELISM cells"] assms(5,6) by (simp add: place_cells_def)
qed

lemma place_first_spec:
  fixes eng :: "'d engine"
  assumes "placing_inv w token T eng" and "ev_ops w = ops" and "data \<noteq> []" and "place_first w now token fence ns data eng = (res, eng')"
  shows "\<exists>T'. places w token T T' eng eng' \<and> (\<forall>r. res = Inr (Some r) \<longrightarrow>
    part_placed (en_catalog eng) (view eng') T' (r, data) \<and> part_bytes (r, data) \<inter> T = {})"
  using assms
proof (induction ns arbitrary: T eng)
  case Nil
  then show ?case using places_refl [OF Nil.prems(1)] by (auto intro: exI [of _ T])
next
  case (Cons n ns)
  obtain q e where q: "place_replica w now token fence n data eng = (q, e)" by (rule prod.exhaust)
  obtain T1 where T1: "places w token T T1 eng e" "\<And>r. q = Inr (Some r) \<Longrightarrow>
      part_placed (en_catalog eng) (view e) T1 (r, data) \<and> part_bytes (r, data) \<inter> T = {}"
    using place_replica_spec [OF Cons.prems(1-3) q] by blast
  have e': "placing_inv w token T1 e" "en_catalog e = en_catalog eng" "T \<subseteq> T1" using T1(1) by (auto simp: places_def steady_def)
  show ?case
  proof (cases "q = Inr None")
    case True
    then have "place_first w now token fence ns data e = (res, eng')" using Cons.prems(4) q by simp
    from Cons.IH [OF e'(1) Cons.prems(2,3) this] obtain T2 where T2: "places w token T1 T2 e eng'" "\<And>r. res = Inr (Some r) \<Longrightarrow>
        part_placed (en_catalog eng) (view eng') T2 (r, data) \<and> part_bytes (r, data) \<inter> T1 = {}" using e'(2) by auto
    have "part_bytes (r, data) \<inter> T = {}" if "res = Inr (Some r)" for r using T2(2) [OF that] e'(3) by blast
    then show ?thesis using places_trans [OF T1(1) T2(1)] T2(2) by (intro exI [of _ T2]) simp
  next
    case False
    then have "eng' = e" "\<And>r. res = Inr (Some r) \<Longrightarrow> q = Inr (Some r)"
      using Cons.prems(4) q by (cases q; auto split: option.splits)+
    then show ?thesis using T1 by blast
  qed
qed

end

end
