(* ===== verification/EngineInv.thy ===== *)
theory EngineInv
  imports EnginePlace TableInv
begin

text \<open>
  The engine's invariant, and that every operation keeps it. The catalog is consistent and every
  replica of every extent holds its bytes; replaying the log on the checkpoint gives the catalog;
  nothing is leased between operations; the ids drawn so far are the ids in use.
\<close>

section \<open>The log\<close>

definition usage_filled :: "catalog \<Rightarrow> bool" where
  "usage_filled c \<longleftrightarrow> (\<forall>f \<in> set (bvals (filesystems c)). fs_usage_of f \<noteq> None)
     \<and> (\<forall>s \<in> set (bvals (fs_snapshots c)). fs_usage_of (ss_tree s) \<noteq> None)"

definition durable :: "'d engine \<Rightarrow> bool" where
  "durable eng \<longleftrightarrow> replay_records (dl_records (en_log eng)) (load_checkpoint (en_saved eng) None) = Inr (en_catalog eng)
     \<and> dl_inv (en_log eng) \<and> applied_index (en_catalog eng) \<le> dl_last (en_log eng) \<and> usage_filled (en_catalog eng)"

lemma fill_usage_filled: "usage_filled c \<Longrightarrow> fill_usage c = c"
proof -
  assume u: "usage_filled c"
  then have "filter (\<lambda>f. fs_usage_of f = None) (bvals (filesystems c)) = []"
    by (auto simp: usage_filled_def filter_empty_conv)
  moreover have "filter (\<lambda>s. fs_usage_of (ss_tree s) = None) (bvals (fs_snapshots c)) = []"
    using u by (auto simp: usage_filled_def filter_empty_conv)
  ultimately show ?thesis by (simp add: fill_usage_def)
qed

lemma usage_filled_applied [simp]: "usage_filled (applied term index c) = usage_filled c"
  by (simp add: applied_def usage_filled_def)

lemma replay_append: "replay_records (rs @ ss) c = rbind (replay_records rs c) (replay_records ss)"
  by (induction rs c rule: replay_records.induct) (auto split: prod.split sum.split)

lemma apply_index: "catalog_apply trm index cmd c = (Inr gc, c') \<Longrightarrow> applied_index c' = (if index \<le> applied_index c then applied_index c else index)"
  by (auto simp: catalog_apply_def apply_inner_def andthen_def applied_def split: if_splits prod.splits sum.splits meta_error.splits)

lemma replay_covers: "replay_records rs c = Inr c' \<Longrightarrow> applied_index c \<le> applied_index c' \<and> (\<forall>r \<in> set rs. wr_index r \<le> applied_index c')"
proof (induction rs c rule: replay_records.induct)
  case (2 r rs c)
  show ?case
  proof (cases "applied_index c < wr_index r")
    case True
    obtain x d where x: "catalog_apply (wr_term r) (wr_index r) (wr_command r) c = (x, d)" by (rule prod.exhaust)
    then obtain gc where "x = Inr gc" "replay_records rs d = Inr c'" using "2.prems" True by (cases x) auto
    then show ?thesis using "2.IH"(1) [OF True x [symmetric]] apply_index x True by fastforce
  next
    case False
    then show ?thesis using "2.IH"(2) "2.prems" by auto
  qed
qed simp

text \<open>A checkpoint covers the whole log.\<close>

lemma durable_checkpoint:
  assumes "durable eng" and "\<forall>r \<in> set (dl_records (en_log eng)). wr_index r \<le> i"
  shows "durable (eng\<lparr>en_saved := Some (en_catalog eng), en_log := dl_compact_through i (en_log eng)\<rparr>)"
proof -
  have "filter (\<lambda>r. i < wr_index r) (dl_records (en_log eng)) = []" using assms(2) by (auto simp: filter_empty_conv)
  then show ?thesis
    using assms(1) dl_inv_ops(4) [of "en_log eng" i] fill_usage_filled [of "en_catalog eng"]
    by (simp add: durable_def dl_compact_through_def dl_rewrite_def load_checkpoint_def)
qed

lemma checkpoint_durable:
  assumes "durable eng" and "eng_checkpoint eng = (res, eng')"
  shows "durable eng'"
proof -
  have "\<forall>r \<in> set (dl_records (en_log eng)). wr_index r \<le> applied_index (en_catalog eng)"
    using replay_covers assms(1) by (auto simp: durable_def)
  then show ?thesis using durable_checkpoint [OF assms(1)] assms(2) by (auto simp: eng_checkpoint_def Let_def)
qed

text \<open>Loading gives back the catalog in memory.\<close>

lemma load_durable:
  assumes "durable eng"
  obtains l where "load_local (en_saved eng) (dl_records (en_log eng)) = Inr (en_catalog eng, l)" "dl_records l = dl_records (en_log eng)"
    "dl_inv l" "applied_index (en_catalog eng) \<le> dl_last l"
proof -
  let ?l = "dl_raise_floor (applied_index (en_catalog eng)) (dl_load (dl_records (en_log eng)))"
  have "rising (dl_records (en_log eng))" using assms by (simp add: durable_def dl_inv_def)
  then have "dl_inv ?l" by (intro dl_inv_ops(3) dl_load_inv)
  then show thesis using assms by (intro that [of ?l]) (simp_all add: load_local_def durable_def dl_raise_floor_def dl_load_def Let_def)
qed

section \<open>Committing\<close>

text \<open>What a commit leaves alone.\<close>

definition same_data :: "'d engine \<Rightarrow> 'd engine \<Rightarrow> bool" where
  "same_data eng eng' \<longleftrightarrow> en_nodes eng' = en_nodes eng \<and> en_inflight eng' = en_inflight eng
     \<and> en_uuids eng' = en_uuids eng \<and> en_uuid_next eng' = en_uuid_next eng"

lemma same_data_view: "same_data eng eng' \<Longrightarrow> dev_view cell used eng' = dev_view cell used eng"
  using dev_at_cong [of eng' eng] by (simp add: same_data_def dev_view_def fun_eq_iff)

lemma same_data_nodes: "same_data eng eng' \<Longrightarrow> nodes_ok eng' = nodes_ok eng"
  by (simp add: same_data_def nodes_ok_def)

lemma log_append_cases:
  "log_append r fs l = dl_append r l \<or> log_append r fs l = (Inl WalIo, snd (dl_append r l)) \<or> log_append r fs l = (Inl WalIo, l)"
  by (auto simp: log_append_def split: list.split option.split)

text \<open>A commit either leaves the catalog as it was, or it ran the command; in both cases the log and
  the checkpoint give the catalog in memory. It may report an error although it ran.\<close>

lemma commit_cases:
  fixes eng :: "'d engine"
  assumes d: "durable eng" and ok: "cat_ok (en_catalog eng)" "command_ok (en_catalog eng) cmd"
    and fill: "\<And>trm gc c'. run_command trm cmd (en_catalog eng) = (Inr gc, c') \<Longrightarrow> usage_filled c'"
    and call: "eng_commit w cmd eng = (res, eng')"
  obtains (kept) e where "res = Inl e" "\<forall>r. e \<noteq> RaftFailed r" "en_catalog eng' = en_catalog eng" "durable eng'" "same_data eng eng'"
  | (run) trm index gc c' where "run_command trm cmd (en_catalog eng) = (Inr gc, c')" "en_catalog eng' = applied trm index c'"
      "res = Inr () \<or> (\<exists>e. res = Inl (WalFailed e))" "durable eng'" "same_data eng eng'"
proof -
  define index trm where "index = dl_last (en_log eng) + 1" and "trm = max (current_term (en_catalog eng)) 1"
  define r where "r = \<lparr>wr_term = trm, wr_index = index, wr_command = cmd\<rparr>"
  let ?c = "en_catalog eng" and ?l = "en_log eng"
  have D: "replay_records (dl_records ?l) (load_checkpoint (en_saved eng) None) = Inr ?c" "dl_inv ?l" "applied_index ?c < index" "usage_filled ?c"
    using d by (auto simp: durable_def index_def)
  note def = eng_commit_def [of w cmd eng, unfolded Let_def, folded index_def trm_def, folded r_def]
  have sound: "sound ?c (run_command trm cmd ?c)" using run_command_sound ok by (simp add: cat_ok_def)
  obtain x c1 where rc: "run_command trm cmd ?c = (x, c1)" by (rule prod.exhaust)
  have ap: "catalog_apply trm index cmd ?c = (case x of Inl e \<Rightarrow> (Inl (if e = Store then Panic else e), c1) | Inr gc \<Rightarrow> (Inr gc, applied trm index c1))"
    using rc D(3) by (cases x) (auto simp: catalog_apply_def apply_inner_def split: meta_error.split)
  show thesis
  proof (cases x)
    case (Inl e)
    then have "c1 = ?c" using sound rc by (simp add: sound_def)
    then have "eng' = eng" "res = Inl (if e = Panic \<or> e = Diverge \<or> e = Store then EnginePanic else MetaFailed e)"
      using call Inl unfolding def ap by (auto split: if_splits)
    then show thesis using d by (intro kept) (auto simp: same_data_def split: if_splits)
  next
    case (Inr gc)
    let ?c' = "applied trm index c1"
    let ?l' = "dl_sync (?l\<lparr>dl_records := dl_records ?l @ [r], dl_last := index\<rparr>)"
    have app: "dl_append r ?l = (Inr (), ?l')" by (simp add: dl_append_def dl_append_unsynced_def guard_def index_def r_def)
    have c: "catalog_apply trm index cmd ?c = (Inr gc, ?c')" using ap Inr by simp
    have rep: "replay_records (dl_records ?l @ [r]) (load_checkpoint (en_saved eng) None) = Inr ?c'"
      using D c by (simp add: replay_append r_def)
    have filled: "usage_filled ?c'" using fill rc Inr by simp
    define e1 where "e1 = eng\<lparr>en_catalog := ?c', en_log := ?l', en_log_faults := tl (en_log_faults eng)\<rparr>"
    have inv': "dl_inv ?l'"
      using D(2) by (auto simp: dl_inv_def dl_sync_def rising_snoc index_def r_def)
    have d1: "durable e1" using rep filled inv' by (simp add: durable_def e1_def dl_sync_def)
    have run': "run_command trm cmd ?c = (Inr gc, c1)" using rc Inr by simp
    consider (works) "log_append r (en_log_faults eng) ?l = (Inr (), ?l')"
      | (reached) "log_append r (en_log_faults eng) ?l = (Inl WalIo, ?l')" | (lost) "log_append r (en_log_faults eng) ?l = (Inl WalIo, ?l)"
      using log_append_cases [of r "en_log_faults eng" ?l] app by fastforce
    then show thesis
    proof cases
      case works
      show thesis
      proof (cases "cg_compact_after (ev_cfg w) > 0 \<and> length (dl_records ?l') \<ge> cg_compact_after (ev_cfg w)")
        case True
        have "eng' = e1\<lparr>en_saved := Some (en_catalog e1), en_log := dl_compact_through index (en_log e1)\<rparr>" "res = Inr ()"
          using call True works unfolding def c by (auto simp: e1_def)
        moreover have "\<forall>r \<in> set (dl_records (en_log e1)). wr_index r \<le> index"
          using inv' by (auto simp: dl_inv_def e1_def dl_sync_def)
        ultimately show thesis using durable_checkpoint [OF d1] by (intro run [OF run']) (auto simp: e1_def same_data_def)
      next
        case False
        then have "eng' = e1" "res = Inr ()" using call works unfolding def c by (auto simp: e1_def)
        then show thesis using d1 by (intro run [OF run']) (auto simp: e1_def same_data_def)
      qed
    next
      case reached
      obtain l where l: "load_local (en_saved e1) (dl_records (en_log e1)) = Inr (en_catalog e1, l)" "dl_records l = dl_records (en_log e1)"
          "dl_inv l" "applied_index (en_catalog e1) \<le> dl_last l" by (rule load_durable [OF d1])
      then have "eng' = e1\<lparr>en_log := l\<rparr>" "res = Inl (WalFailed WalIo)" using call reached unfolding def c by (auto simp: e1_def)
      moreover have "durable (e1\<lparr>en_log := l\<rparr>)" using d1 l by (simp add: durable_def)
      ultimately show thesis by (intro run [OF run']) (auto simp: e1_def same_data_def)
    next
      case lost
      obtain l where l: "load_local (en_saved eng) (dl_records (en_log eng)) = Inr (en_catalog eng, l)" "dl_records l = dl_records (en_log eng)"
          "dl_inv l" "applied_index (en_catalog eng) \<le> dl_last l" by (rule load_durable [OF d])
      then have "eng' = eng\<lparr>en_log := l, en_log_faults := tl (en_log_faults eng)\<rparr>" "res = Inl (WalFailed WalIo)"
        using call lost unfolding def c by auto
      moreover have "durable (eng\<lparr>en_log := l, en_log_faults := tl (en_log_faults eng)\<rparr>)" using d l by (simp add: durable_def)
      ultimately show thesis by (intro kept) (auto simp: same_data_def)
    qed
  qed
qed

section \<open>Commands and data\<close>

lemma data_ok_keeps:
  assumes "data_ok w v b" and "keeps b c"
  shows "data_ok w v c"
  unfolding data_ok_def
proof (intro conjI allI impI ballI)
  show "space_inv c" using assms space_inv_keeps by (auto simp: data_ok_def)
  show "below_used v x" if "x \<in> free_bytes (free c)" for x using assms that by (auto simp: data_ok_def keeps_def)
  fix e m assume "bget (extents c) e = Some m"
  then obtain m' where "bget (extents b) e = Some m'" "em_extent m' = em_extent m"
    using assms(2) same_extents_Some unfolding keeps_def by blast
  then show "x_id (em_extent m) = e" "\<exists>bs. extent_held w v (em_extent m) bs"
    using assms(1) unfolding data_ok_def by metis+
qed

lemma data_ok_applied [simp]: "data_ok w v (applied term index c) = data_ok w v c"
  by (simp add: data_ok_def applied_def space_inv_def)

lemma add_new_extent:
  assumes "bget (extents c) (x_id x) = None"
  shows "extents (add_extent_ref x c) = bput (x_id x) \<lparr>em_extent = x, em_refs = 1, em_tombstoned = False\<rparr> (extents c)"
    "free (add_extent_ref x c) = reserve_all fl_reserve (free c) (extent_places x) (stored_len x)"
  using assms by (simp_all add: add_extent_ref_def)

lemma add_new_free:
  assumes "bget (extents c) (x_id x) = None" and "space_inv c" and "new_extent_ok c x"
  shows "free_bytes (free (add_extent_ref x c)) = free_bytes (free c) - extent_bytes x"
  using assms fl.reserve_all_spec [of "free c" "stored_len x" "extent_places x"]
  by (simp add: add_new_extent space_inv_def new_extent_ok_def extent_placed_def extent_bytes_def)

lemma data_ok_add:
  assumes "data_ok w v c" and "new_extent_ok c x" and "bget (extents c) (x_id x) = None" and "extent_held w v x bs"
  shows "data_ok w v (add_extent_ref x c)"
proof -
  have s: "space_inv c" using assms(1) by (simp add: data_ok_def)
  then have "space_inv (add_extent_ref x c)" using add_extent_ref_space assms(2) by blast
  then show ?thesis
    using assms add_new_free [OF assms(3) s assms(2)] by (auto simp: data_ok_def add_new_extent split: if_splits)
qed

text \<open>Extents that were placed may be installed, one after the other.\<close>

definition installable :: "catalog \<Rightarrow> extent_ref \<Rightarrow> bool" where
  "installable c x \<longleftrightarrow> extent_placed x \<and> extent_bytes x \<inter> live_bytes (extents c) = {} \<and> bget (extents c) (x_id x) = None
     \<and> (\<forall>p \<in> set (extent_places x). place_bytes (stored_len x) p \<subseteq> free_bytes (free c) \<or> place_bytes (stored_len x) p \<inter> free_bytes (free c) = {})"

lemma installable_ok: "installable c x \<Longrightarrow> new_extent_ok c x"
  by (simp add: installable_def new_extent_ok_def)

lemma place_in_extent: "p \<in> set (extent_places x) \<Longrightarrow> place_bytes (stored_len x) p \<subseteq> extent_bytes x"
  by (auto simp: extent_bytes_def places_bytes_def)

lemma installable_next:
  assumes "space_inv c" and "installable c x" and "installable c y" and "x_id x \<noteq> x_id y" and "extent_bytes x \<inter> extent_bytes y = {}"
  shows "installable (add_extent_ref x c) y"
proof -
  have x: "bget (extents c) (x_id x) = None" using assms(2) by (simp add: installable_def)
  have "live_bytes (extents (add_extent_ref x c)) = extent_bytes x \<union> live_bytes (extents c)"
    using x by (simp add: add_new_extent live_bytes_bput bdel_absent)
  moreover have free: "free_bytes (free (add_extent_ref x c)) = free_bytes (free c) - extent_bytes x"
    by (rule add_new_free [OF x assms(1) installable_ok [OF assms(2)]])
  moreover have "place_bytes (stored_len y) p \<subseteq> free_bytes (free (add_extent_ref x c)) \<or> place_bytes (stored_len y) p \<inter> free_bytes (free (add_extent_ref x c)) = {}"
    if p: "p \<in> set (extent_places y)" for p
  proof -
    have "place_bytes (stored_len y) p \<inter> extent_bytes x = {}" using place_in_extent [OF p] assms(5) by blast
    moreover have "place_bytes (stored_len y) p \<subseteq> free_bytes (free c) \<or> place_bytes (stored_len y) p \<inter> free_bytes (free c) = {}"
      using assms(3) p by (simp add: installable_def)
    ultimately show ?thesis unfolding free by blast
  qed
  moreover have "bget (extents (add_extent_ref x c)) (x_id y) = None" using assms(3,4) x by (simp add: add_new_extent installable_def)
  ultimately show ?thesis using assms(3,5) unfolding installable_def by blast
qed

lemma installs_all:
  assumes "data_ok w v c" and "\<forall>(x, bs) \<in> set xs. installable c x \<and> extent_held w v x bs"
    and "sorted_wrt (\<lambda>(x, _) (y, _). x_id x \<noteq> x_id y \<and> extent_bytes x \<inter> extent_bytes y = {}) xs"
  shows "installs_ok (map fst xs) c \<and> data_ok w v (fold add_extent_ref (map fst xs) c)"
  using assms
proof (induction xs arbitrary: c)
  case (Cons p xs)
  obtain x bs where p: "p = (x, bs)" by (rule prod.exhaust)
  have x: "installable c x" "extent_held w v x bs" "bget (extents c) (x_id x) = None" using Cons.prems(2) p by (auto simp: installable_def)
  have s: "space_inv c" using Cons.prems(1) by (simp add: data_ok_def)
  have "data_ok w v (add_extent_ref x c)" by (rule data_ok_add [OF Cons.prems(1) installable_ok [OF x(1)] x(3,2)])
  moreover have "\<forall>(y, cs) \<in> set xs. installable (add_extent_ref x c) y \<and> extent_held w v y cs"
  proof (intro ballI, clarify)
    fix y cs assume y: "(y, cs) \<in> set xs"
    then have "installable c y" "extent_held w v y cs" "x_id x \<noteq> x_id y \<and> extent_bytes x \<inter> extent_bytes y = {}"
      using Cons.prems(2,3) p by auto
    then show "installable (add_extent_ref x c) y \<and> extent_held w v y cs" using installable_next [OF s x(1)] by blast
  qed
  ultimately show ?case using Cons.IH [of "add_extent_ref x c"] Cons.prems(3) p installable_ok [OF x(1)] by simp
qed simp

lemma new_placed_held: "new_placed w c v T0 T x bs \<Longrightarrow> extent_held w v x bs"
proof -
  assume "new_placed w c v T0 T x bs"
  then obtain ps where p: "extent_of w x bs" "parts_of w x bs ps" "length ps = length (x_replicas x)" "parts_placed c v T0 T (zip (x_replicas x) ps)"
    by (auto simp: new_placed_def)
  have "holds_at v (x_replicas x ! i) (ps ! i)" if "i < length ps" for i
  proof -
    have "(x_replicas x ! i, ps ! i) \<in> set (zip (x_replicas x) ps)" using that p(3) by (auto simp: set_zip)
    then show ?thesis using p(4) by (auto simp: parts_placed_def part_placed_def)
  qed
  then show ?thesis using p(1-3) by (auto simp: extent_held_def list_all2_conv_all_nth)
qed

lemma parts_places_ok:
  assumes "sorted_wrt (\<lambda>p q. part_bytes p \<inter> part_bytes q = {}) ps" and "\<forall>p \<in> set ps. length (snd p) = ln \<and> r_offset (fst p) + ln \<le> u64_max"
  shows "places_ok ln (map (replica_place \<circ> fst) ps)"
  using assms
proof (induction ps)
  case (Cons p ps)
  have "part_bytes p \<inter> part_bytes q = {}" if "q \<in> set ps" for q using Cons.prems(1) that by simp
  then have "place_bytes ln (replica_place (fst p)) \<inter> places_bytes ln (map (replica_place \<circ> fst) ps) = {}"
    using Cons.prems(2) by (auto simp: places_bytes_def)
  moreover have "snd (snd (replica_place (fst p))) = r_offset (fst p)" by (simp add: replica_place_def)
  ultimately show ?case using Cons by (simp add: comp_def)
qed simp

lemma new_placed_installable:
  assumes "new_placed w c v T0 T x bs" and "T \<inter> live_bytes (extents c) = {}" and "bget (extents c) (x_id x) = None"
  shows "installable c x"
proof -
  obtain ps where p: "extent_of w x bs" "parts_of w x bs ps" "length ps = length (x_replicas x)" "parts_placed c v T0 T (zip (x_replicas x) ps)"
    using assms(1) by (auto simp: new_placed_def)
  let ?z = "zip (x_replicas x) ps"
  have len: "\<forall>p \<in> set ?z. length (snd p) = stored_len x" using parts_of_length(1) [OF p(1,2)] by (auto dest: set_zip_rightD)
  have pl: "extent_places x = map (replica_place \<circ> fst) ?z"
    using p(3) by (simp add: extent_places_eq flip: map_map)
  have "extent_placed x"
    unfolding extent_placed_def pl using p(4) len by (intro parts_places_ok) (auto simp: parts_placed_def part_placed_def)
  moreover have "\<forall>q \<in> set (extent_places x). place_bytes (stored_len x) q \<subseteq> free_bytes (free c) \<or> place_bytes (stored_len x) q \<inter> free_bytes (free c) = {}"
    unfolding pl using p(4) len by (auto simp: parts_placed_def part_placed_def)
  ultimately show ?thesis using assms(2,3) new_placed_bytes(1) [OF assms(1)] by (auto simp: installable_def)
qed

section \<open>What the volume commands change\<close>

lemma dec_refs_frame:
  assumes "dec_refs es gc c = (r, c')"
  obtains X where "c' = c\<lparr>extents := X\<rparr>"
proof -
  have "\<exists>X. c' = c\<lparr>extents := X\<rparr>"
    using assms
  proof (induction es arbitrary: gc c)
    case Nil
    then show ?case by (auto intro: exI [of _ "extents c"])
  next
    case (Cons e es)
    obtain x c1 where d: "dec_ref e gc c = (x, c1)" by (rule prod.exhaust)
    then have "\<exists>X. c1 = c\<lparr>extents := X\<rparr>"
      by (auto simp: dec_ref_def attempt_def split: sum.splits intro: exI [of _ "extents c"])
    with d Cons.IH [of _ c1] Cons.prems show ?case by (cases x) auto
  qed
  then show thesis using that by blast
qed

lemma inc_refs_frame:
  assumes "inc_refs es c = (r, c')"
  obtains X where "c' = c\<lparr>extents := X\<rparr>"
proof -
  have "\<exists>X. c' = c\<lparr>extents := X\<rparr>"
    using assms
  proof (induction es arbitrary: c)
    case Nil
    then show ?case by (auto intro: exI [of _ "extents c"])
  next
    case (Cons e es)
    obtain x c1 where d: "inc_ref e c = (x, c1)" by (rule prod.exhaust)
    then have "\<exists>X. c1 = c\<lparr>extents := X\<rparr>"
      by (auto simp: inc_ref_def attempt_def split: sum.splits intro: exI [of _ "extents c"])
    with d Cons.IH [of c1] Cons.prems show ?case by (cases x) auto
  qed
  then show thesis using that by blast
qed

text \<open>The file systems are not touched.\<close>

definition same_fs :: "catalog \<Rightarrow> catalog \<Rightarrow> bool" where
  "same_fs c c' \<longleftrightarrow> filesystems c' = filesystems c \<and> fs_snapshots c' = fs_snapshots c"

lemma same_fs_filled: "same_fs c c' \<Longrightarrow> usage_filled c' = usage_filled c"
  by (simp add: same_fs_def usage_filled_def)

text \<open>Extents are installed in a volume, in place of what was at their offsets.\<close>

definition put_extents :: "extent_ref list \<Rightarrow> extent_map \<Rightarrow> extent_map" where
  "put_extents xs m = fold (\<lambda>x. bput (x_logical_offset x) (x_id x)) xs m"

definition installed :: "catalog \<Rightarrow> string \<Rightarrow> extent_ref list \<Rightarrow> catalog \<Rightarrow> bool" where
  "installed c vid xs c' \<longleftrightarrow> (\<exists>v. bget (volumes c) vid = Some v
       \<and> volumes c' = bput vid (v\<lparr>v_extents := put_extents xs (v_extents v)\<rparr>) (volumes c))
     \<and> snapshots c' = snapshots c \<and> same_fs c c' \<and> keeps (fold add_extent_ref xs c) c'"

lemma insert_extents_put: "snd (insert_extents (map (\<lambda>x. (x_logical_offset x, x_id x)) xs) m) = put_extents xs m"
  by (induction xs arbitrary: m) (auto simp: put_extents_def split_def)

lemma install_extents_installed:
  assumes "cat_inv c" and "install_extents vid xs c = (Inr gc, c')"
  shows "installed c vid xs c'"
proof -
  obtain v where v: "bget (volumes c) vid = Some v" "extents_check xs = Inr ()"
    using assms(2) by (auto simp: install_extents_def attempt_def ok_or_def split: sum.splits option.splits)
  obtain old m where m: "insert_extents (map (\<lambda>x. (x_logical_offset x, x_id x)) xs) (v_extents v) = (old, m)" by (rule prod.exhaust)
  have "dec_refs old [] (fold add_extent_ref xs (c\<lparr>volumes := bput vid (v\<lparr>v_extents := m\<rparr>) (volumes c)\<rparr>)) = (Inr gc, c')"
    using assms(2) v m by (simp add: install_extents_def)
  then obtain X where "c' = (fold add_extent_ref xs (c\<lparr>volumes := bput vid (v\<lparr>v_extents := m\<rparr>) (volumes c)\<rparr>))\<lparr>extents := X\<rparr>"
    by (rule dec_refs_frame)
  moreover have "m = put_extents xs (v_extents v)" using insert_extents_put [of xs "v_extents v"] m by simp
  moreover have "keeps (fold add_extent_ref xs c) c'" using install_extents_good [OF assms(1), of xs vid] assms(2) by (simp add: good_def)
  ultimately show ?thesis using v by (simp add: installed_def same_fs_def)
qed

lemma install_extent_installed:
  assumes "cat_inv c" and "install_extent vid off x c = (Inr gc, c')" and "x_logical_offset x = off"
  shows "installed c vid [x] c'"
proof -
  obtain v where v: "bget (volumes c) vid = Some v" "extent_check x = Inr ()"
    using assms(2) by (auto simp: install_extent_def attempt_def ok_or_def split: sum.splits option.splits)
  let ?c = "add_extent_ref x (c\<lparr>volumes := bput vid (v\<lparr>v_extents := bput off (x_id x) (v_extents v)\<rparr>) (volumes c)\<rparr>)"
  have "\<exists>es. dec_refs es [] ?c = (Inr gc, c')"
  proof (cases "bget (v_extents v) off")
    case None
    then show ?thesis using assms(2) v by (intro exI [of _ "[]"]) (simp add: install_extent_def)
  next
    case (Some e)
    then show ?thesis using assms(2) v by (intro exI [of _ "[e]"]) (simp add: install_extent_def flip: dec_ref_eq_dec_refs)
  qed
  then obtain X where "c' = ?c\<lparr>extents := X\<rparr>" using dec_refs_frame by blast
  moreover have "keeps (add_extent_ref x c) c'" using install_extent_good [OF assms(1), of x vid off] assms(2) by (simp add: good_def)
  ultimately show ?thesis using v assms(3) by (simp add: installed_def same_fs_def put_extents_def)
qed

section \<open>The invariant\<close>

definition ids_ok :: "'d engine \<Rightarrow> bool" where
  "ids_ok eng \<longleftrightarrow> inj (en_uuids eng) \<and> (\<forall>k \<ge> en_uuid_next eng. bget (extents (en_catalog eng)) (en_uuids eng k) = None)"

definition engine_core :: "('d \<Rightarrow> nat \<Rightarrow> byte) \<Rightarrow> ('d \<Rightarrow> nat) \<Rightarrow> 'd env \<Rightarrow> 'd engine \<Rightarrow> bool" where
  "engine_core cell used w eng \<longleftrightarrow> nodes_ok eng \<and> cat_ok (en_catalog eng)
     \<and> data_ok w (dev_view cell used eng) (en_catalog eng) \<and> durable eng \<and> ids_ok eng"

definition engine_ok :: "('d \<Rightarrow> nat \<Rightarrow> byte) \<Rightarrow> ('d \<Rightarrow> nat) \<Rightarrow> 'd env \<Rightarrow> 'd engine \<Rightarrow> bool" where
  "engine_ok cell used w eng \<longleftrightarrow> engine_core cell used w eng \<and> idle (en_inflight eng)"

lemma extents_applied: "extents (applied trm index c) = extents c"
  by (simp add: applied_def)

lemma ids_ok_same: "ids_ok eng \<Longrightarrow> same_data eng eng' \<Longrightarrow> same_extents (extents (en_catalog eng)) (extents (en_catalog eng')) \<Longrightarrow> ids_ok eng'"
  using same_extents_None [of "extents (en_catalog eng)" "extents (en_catalog eng')"] by (simp add: ids_ok_def same_data_def)

context block_store
begin

abbreviation core :: "'d env \<Rightarrow> 'd engine \<Rightarrow> bool" where
  "core \<equiv> engine_core cell used"

lemma core_kept:
  assumes "core w eng" and "en_catalog eng' = en_catalog eng" and "durable eng'" and "same_data eng eng'"
  shows "core w eng'"
  using assms same_data_view [OF assms(4), of cell used] same_data_nodes [OF assms(4)] ids_ok_same [OF _ assms(4)]
  by (simp add: engine_core_def)

text \<open>A commit after which the catalog still describes what the devices hold.\<close>

definition run_fits :: "'d env \<Rightarrow> 'd engine \<Rightarrow> catalog \<Rightarrow> bool" where
  "run_fits w eng c' \<longleftrightarrow> data_ok w (view eng) c' \<and> usage_filled c'
     \<and> (\<forall>k \<ge> en_uuid_next eng. bget (extents c') (en_uuids eng k) = None)"

lemma core_commit:
  assumes inv: "core w eng" and call: "eng_commit w cmd eng = (res, eng')" and ok: "command_ok (en_catalog eng) cmd"
    and cmd: "\<And>trm gc c'. run_command trm cmd (en_catalog eng) = (Inr gc, c') \<Longrightarrow> run_fits w eng c'"
  shows "core w eng' \<and> same_data eng eng' \<and> (\<forall>r. res \<noteq> Inl (RaftFailed r))
    \<and> (en_catalog eng' = en_catalog eng \<and> (\<exists>e. res = Inl e)
       \<or> (res = Inr () \<or> (\<exists>e. res = Inl (WalFailed e)))
         \<and> (\<exists>trm index gc c'. run_command trm cmd (en_catalog eng) = (Inr gc, c') \<and> en_catalog eng' = applied trm index c'))"
proof -
  have I: "durable eng" "cat_ok (en_catalog eng)" "usage_filled (en_catalog eng)" "inj (en_uuids eng)"
    using inv by (auto simp: engine_core_def durable_def ids_ok_def)
  show ?thesis
  proof (rule commit_cases [OF I(1,2) ok _ call])
    show "usage_filled c'" if "run_command trm cmd (en_catalog eng) = (Inr gc, c')" for trm gc c'
      using cmd [OF that] by (simp add: run_fits_def)
  next
    fix e assume "res = Inl e" "\<forall>r. e \<noteq> RaftFailed r" "en_catalog eng' = en_catalog eng" "durable eng'" "same_data eng eng'"
    then show ?thesis using core_kept [OF inv] by auto
  next
    fix trm index gc c' assume r: "run_command trm cmd (en_catalog eng) = (Inr gc, c')" "en_catalog eng' = applied trm index c'"
      "res = Inr () \<or> (\<exists>e. res = Inl (WalFailed e))" "durable eng'" "same_data eng eng'"
    have "cat_ok c'" using run_command_sound [of "en_catalog eng" cmd trm] I(2) ok r(1) by (auto simp: cat_ok_def sound_def)
    then have "core w eng'"
      using cmd [OF r(1)] I(4) r(2,4,5) same_data_view [OF r(5), of cell used] same_data_nodes [OF r(5)] inv
      by (simp add: run_fits_def engine_core_def ids_ok_def same_data_def extents_applied)
    then show ?thesis using r by blast
  qed
qed

text \<open>A command that moves no extent.\<close>

lemma keeps_fits: "core w eng \<Longrightarrow> keeps (en_catalog eng) c' \<Longrightarrow> same_fs (en_catalog eng) c' \<Longrightarrow> run_fits w eng c'"
  using data_ok_keeps [of w "view eng" "en_catalog eng" c'] same_extents_None [of "extents (en_catalog eng)" "extents c'"]
  by (auto simp: run_fits_def engine_core_def ids_ok_def durable_def keeps_def same_fs_filled)

end

lemma add_extent_refs_ids:
  "bget (extents (fold add_extent_ref xs c)) e \<noteq> None \<longleftrightarrow> bget (extents c) e \<noteq> None \<or> e \<in> x_id ` set xs"
proof (induction xs arbitrary: c)
  case (Cons x xs)
  have "bget (extents (add_extent_ref x c)) e \<noteq> None \<longleftrightarrow> bget (extents c) e \<noteq> None \<or> e = x_id x"
    by (auto simp: add_extent_ref_def Let_def split: option.splits if_splits)
  then show ?case using Cons.IH [of "add_extent_ref x c"] by auto
qed simp

lemma installed_held:
  assumes "installed c vid xs c'" and "sorted_wrt (\<lambda>x y. x_id x \<noteq> x_id y) xs" and "\<forall>x \<in> set xs. bget (extents c) (x_id x) = None"
  shows "x \<in> set xs \<Longrightarrow> map_option em_extent (bget (extents c') (x_id x)) = Some x"
    "bget (extents c) e = Some m \<Longrightarrow> map_option em_extent (bget (extents c') e) = Some (em_extent m)"
proof -
  have "(\<forall>x \<in> set xs. map_option em_extent (bget (extents (fold add_extent_ref xs c)) (x_id x)) = Some x)
      \<and> (\<forall>e m. bget (extents c) e = Some m \<longrightarrow> map_option em_extent (bget (extents (fold add_extent_ref xs c)) e) = Some (em_extent m))"
    using assms(2,3)
  proof (induction xs arbitrary: c)
    case (Cons x xs)
    have x: "bget (extents (add_extent_ref x c)) e = (if e = x_id x then Some \<lparr>em_extent = x, em_refs = 1, em_tombstoned = False\<rparr> else bget (extents c) e)" for e
      using Cons.prems(2) by (simp add: add_new_extent)
    have "\<forall>y \<in> set xs. bget (extents (add_extent_ref x c)) (x_id y) = None" using Cons.prems by (auto simp: x)
    then have IH: "\<forall>y \<in> set xs. map_option em_extent (bget (extents (fold add_extent_ref (x # xs) c)) (x_id y)) = Some y"
        "\<And>e m. bget (extents (add_extent_ref x c)) e = Some m \<Longrightarrow> map_option em_extent (bget (extents (fold add_extent_ref (x # xs) c)) e) = Some (em_extent m)"
      using Cons.IH [of "add_extent_ref x c"] Cons.prems(1) by simp_all
    have "map_option em_extent (bget (extents (fold add_extent_ref (x # xs) c)) (x_id x)) = Some x" using IH(2) [of "x_id x"] x by simp
    moreover have "bget (extents (add_extent_ref x c)) e = Some m" if "bget (extents c) e = Some m" for e m
      using that Cons.prems(2) by (auto simp: x)
    ultimately show ?case using IH by (auto simp del: fold_simps)
  qed simp
  moreover have "same_extents (extents (fold add_extent_ref xs c)) (extents c')" using assms(1) by (simp add: installed_def keeps_def)
  ultimately show "x \<in> set xs \<Longrightarrow> map_option em_extent (bget (extents c') (x_id x)) = Some x"
    "bget (extents c) e = Some m \<Longrightarrow> map_option em_extent (bget (extents c') e) = Some (em_extent m)"
    unfolding same_extents_def by metis+
qed

text \<open>The commands that install extents in a volume.\<close>

definition installs_in :: "meta_command \<Rightarrow> string \<Rightarrow> extent_ref list \<Rightarrow> bool" where
  "installs_in cmd vid xs \<longleftrightarrow> cmd = InstallExtents vid xs \<or> (\<exists>x. xs = [x] \<and> cmd = InstallExtent vid (x_logical_offset x) x)"

lemma installs_in_ok: "installs_in cmd vid xs \<Longrightarrow> installs_ok xs c \<Longrightarrow> command_ok c cmd"
  by (auto simp: installs_in_def)

lemma installs_in_run: "installs_in cmd vid xs \<Longrightarrow> cat_inv c \<Longrightarrow> run_command trm cmd c = (Inr gc, c') \<Longrightarrow> installed c vid xs c'"
  by (auto simp: installs_in_def intro: install_extents_installed install_extent_installed)

context block_store
begin

lemma news_fresh:
  assumes "news_placed w c v T0 T uu lo hi xs" and "\<forall>k \<ge> lo. bget (extents c) (uu k) = None" and x: "(x, bs) \<in> set xs"
  shows "bget (extents c) (x_id x) = None"
  using assms by (auto simp: news_placed_def)

lemma commit_installs:
  assumes inv: "core w eng" and T: "T \<inter> live_bytes (extents (en_catalog eng)) = {}"
    and new: "news_placed w (en_catalog eng) (view eng) T0 T (en_uuids eng) lo (en_uuid_next eng) xs"
    and lo: "\<forall>k \<ge> lo. bget (extents (en_catalog eng)) (en_uuids eng k) = None"
    and cmd: "installs_in cmd vid (map fst xs)" and call: "eng_commit w cmd eng = (res, eng')"
  shows "core w eng' \<and> same_data eng eng' \<and> (\<forall>r. res \<noteq> Inl (RaftFailed r))
    \<and> (en_catalog eng' = en_catalog eng \<and> (\<exists>e. res = Inl e)
       \<or> (res = Inr () \<or> (\<exists>e. res = Inl (WalFailed e)))
         \<and> (\<exists>trm index c'. installed (en_catalog eng) vid (map fst xs) c' \<and> en_catalog eng' = applied trm index c'))"
proof -
  let ?c = "en_catalog eng" and ?xs = "map fst xs"
  have I: "cat_ok ?c" "usage_filled ?c" "data_ok w (view eng) ?c" "inj (en_uuids eng)" "ids_ok eng"
    using inv by (auto simp: engine_core_def durable_def ids_ok_def)
  note fresh = news_fresh [OF new lo]
  have "installs_ok ?xs ?c \<and> data_ok w (view eng) (fold add_extent_ref ?xs ?c)"
  proof (rule installs_all [OF I(3)])
    show "\<forall>(x, bs) \<in> set xs. installable ?c x \<and> extent_held w (view eng) x bs"
    proof (intro ballI, clarify)
      fix x bs assume x: "(x, bs) \<in> set xs"
      then have "new_placed w ?c (view eng) T0 T x bs" using new by (auto simp: news_placed_def)
      then show "installable ?c x \<and> extent_held w (view eng) x bs"
        using new_placed_installable [OF _ T fresh [OF x]] new_placed_held by blast
    qed
  qed (use new in \<open>simp add: news_placed_def\<close>)
  then have ok: "command_ok ?c cmd" "data_ok w (view eng) (fold add_extent_ref ?xs ?c)" using installs_in_ok [OF cmd] by auto
  have run: "installed ?c vid ?xs c'" if "run_command trm cmd ?c = (Inr gc, c')" for trm gc c'
    using installs_in_run [OF cmd _ that] I(1) by (simp add: cat_ok_def cat_inv_def)
  have fits: "run_fits w eng c'" if "run_command trm cmd ?c = (Inr gc, c')" for trm gc c'
  proof -
    have k: "keeps (fold add_extent_ref ?xs ?c) c'" "same_fs ?c c'" using run [OF that] by (auto simp: installed_def)
    have ids: "bget (extents c') (en_uuids eng i) = None" if i: "en_uuid_next eng \<le> i" for i
    proof (rule ccontr)
      assume "bget (extents c') (en_uuids eng i) \<noteq> None"
      then have "bget (extents (fold add_extent_ref ?xs ?c)) (en_uuids eng i) \<noteq> None"
        using k(1) same_extents_Some unfolding keeps_def by blast
      then have "en_uuids eng i \<in> x_id ` set ?xs" using I(5) i unfolding add_extent_refs_ids by (simp add: ids_ok_def)
      then obtain k where "k < en_uuid_next eng" "en_uuids eng i = en_uuids eng k" using new by (auto simp: news_placed_def)
      then show False using i I(4) by (auto dest: injD)
    qed
    show ?thesis using data_ok_keeps [OF ok(2) k(1)] same_fs_filled [OF k(2)] I(2) ids by (simp add: run_fits_def)
  qed
  have "core w eng' \<and> same_data eng eng' \<and> (\<forall>r. res \<noteq> Inl (RaftFailed r))
    \<and> (en_catalog eng' = ?c \<and> (\<exists>e. res = Inl e) \<or> (res = Inr () \<or> (\<exists>e. res = Inl (WalFailed e)))
       \<and> (\<exists>trm index gc c'. run_command trm cmd ?c = (Inr gc, c') \<and> en_catalog eng' = applied trm index c'))"
    by (rule core_commit [OF inv call ok(1)]) (rule fits)
  then show ?thesis using run by blast
qed

end

end
