(* ===== verification/EngineGrid.thy ===== *)
theory EngineGrid
  imports EngineInv
begin

text \<open>
  The extent grid. A range of bytes is written as whole cells with the old bytes around it merged
  in, and read back from the cells it touches; bytes no cell has are zeros.
\<close>

section \<open>Cells of a range\<close>

definition byte_of :: "byte list \<Rightarrow> nat \<Rightarrow> byte" where
  "byte_of d i = (if i < length d then d ! i else 0)"

text \<open>The cells written for \<open>data\<close> at \<open>pos\<close>, over the old content \<open>old\<close> of the cells.\<close>

definition cell_right :: "nat \<Rightarrow> nat \<Rightarrow> byte list \<Rightarrow> (nat \<Rightarrow> byte list) \<Rightarrow> nat \<times> byte list \<Rightarrow> bool" where
  "cell_right g pos data old p \<longleftrightarrow> (case p of (cell, content) \<Rightarrow>
     cell mod g = 0 \<and> pos - pos mod g \<le> cell \<and> cell < pos + length data \<and> content \<noteq> [] \<and> length content \<le> g
     \<and> cell + length content \<le> max (pos + length data) (cell + length (old cell))
     \<and> (\<forall>i < g. byte_of content i =
          (if pos \<le> cell + i \<and> cell + i < pos + length data then data ! (cell + i - pos) else byte_of (old cell) i)))"

definition cells_cover :: "nat \<Rightarrow> nat \<Rightarrow> byte list \<Rightarrow> (nat \<Rightarrow> byte list) \<Rightarrow> (nat \<times> byte list) list \<Rightarrow> bool" where
  "cells_cover g pos data old cells \<longleftrightarrow> (\<forall>p \<in> set cells. cell_right g pos data old p) \<and> sorted_wrt (<) (map fst cells)
     \<and> (\<forall>p. pos \<le> p \<longrightarrow> p < pos + length data \<longrightarrow> p - p mod g \<in> fst ` set cells)"

lemma put_slice_length: "i + length part \<le> length out \<Longrightarrow> length (put_slice i part out) = length out"
  by (simp add: put_slice_def)

lemma put_slice_nth:
  "i + length part \<le> length out \<Longrightarrow> j < length out \<Longrightarrow>
     put_slice i part out ! j = (if i \<le> j \<and> j < i + length part then part ! (j - i) else out ! j)"
  by (auto simp: put_slice_def nth_append min_def)

lemma merged_cell_length: "length (merged_cell within part buf) = max (length buf) (within + length part)"
  by (simp add: merged_cell_def resize_zero_def put_slice_length)

lemma merged_cell_byte:
  "byte_of (merged_cell within part buf) i =
     (if within \<le> i \<and> i < within + length part then part ! (i - within) else byte_of buf i)"
proof (cases "i < max (length buf) (within + length part)")
  case True
  define b where "b = (if length buf < within + length part then resize_zero (within + length part) buf else buf)"
  have b: "within + length part \<le> length b" "i < length b" using True by (auto simp: b_def resize_zero_def)
  have "b ! i = byte_of buf i" using b(2) by (auto simp: b_def byte_of_def resize_zero_def nth_append split: if_splits)
  then show ?thesis using True put_slice_nth [OF b] merged_cell_length [of within part buf]
    unfolding merged_cell_def b_def [symmetric] by (simp add: byte_of_def [of "put_slice within part b"])
next
  case False
  then show ?thesis by (auto simp: byte_of_def merged_cell_length)
qed

text \<open>One cell, then the rest of the range from the next cell on.\<close>

lemma same_cell:
  fixes g p cell :: nat
  assumes "cell mod g = 0" and "cell \<le> p" and "p < cell + g"
  shows "p - p mod g = cell"
proof -
  obtain k where k: "cell = g * k" using assms(1) by (auto simp: mod_eq_0_iff_dvd)
  have "p div g = k" using assms by (intro div_nat_eqI) (simp_all add: k algebra_simps)
  then show ?thesis by (simp add: minus_mod_eq_mult_div k)
qed

lemma cover_step:
  assumes g: "0 < g" and n: "n = min (length rest) (g - pos mod g)" and rest: "rest \<noteq> []"
    and content: "\<forall>i < g. byte_of content i = (if pos mod g \<le> i \<and> i < pos mod g + n then rest ! (i - pos mod g) else byte_of (old (pos - pos mod g)) i)"
      "content \<noteq> []" "length content \<le> g" "length content \<le> max (pos mod g + n) (length (old (pos - pos mod g)))"
    and cells: "cells_cover g (pos + n) (drop n rest) old cells" "drop n rest = [] \<Longrightarrow> cells = []"
  shows "cells_cover g pos rest old ((pos - pos mod g, content) # cells)"
proof -
  define c where "c = pos - pos mod g"
  define v where "v = pos mod g"
  have w: "v < g" "c + v = pos" "c mod g = 0" using g by (simp_all add: v_def c_def)
  have n0: "0 < n" "n \<le> length rest" "v + n \<le> g" "drop n rest \<noteq> [] \<Longrightarrow> v + n = g" using n rest w by (auto simp: v_def)
  have tail: "c + g \<le> cell \<and> cell_right g pos rest old (cell, x)" if cell: "(cell, x) \<in> set cells" for cell x
  proof -
    have "drop n rest \<noteq> []" using cells(2) cell by auto
    then have e: "v + n = g" using n0 by blast
    have p: "pos + n = c + g" using e w by simp
    have "(c + g) mod g = 0" using w(3) by simp
    then have p: "pos + n = c + g" "(pos + n) mod g = 0" using p by simp_all
    have r: "cell_right g (pos + n) (drop n rest) old (cell, x)" using cells(1) cell by (auto simp: cells_cover_def)
    then have cg: "c + g \<le> cell" using p by (simp add: cell_right_def)
    have "drop n rest ! (cell + i - (pos + n)) = rest ! (cell + i - pos)" for i
    proof -
      have "n + (cell + i - (pos + n)) = cell + i - pos" using p(1) cg by linarith
      then show ?thesis using nth_drop [OF n0(2), of "cell + i - (pos + n)"] by simp
    qed
    then show ?thesis using r cg p w n0 unfolding cell_right_def c_def [symmetric] v_def [symmetric] by auto
  qed
  have head: "cell_right g pos rest old (c, content)"
    unfolding cell_right_def prod.case
  proof (intro conjI allI impI)
    fix i assume i: "i < g"
    have "v + n = g \<or> n = length rest" using n w(1) unfolding v_def [symmetric] by linarith
    then have "pos \<le> c + i \<and> c + i < pos + length rest \<longleftrightarrow> v \<le> i \<and> i < v + n"
      using n0(2) i unfolding w(2) [symmetric] by linarith
    moreover have "c + i - pos = i - v" using w by simp
    ultimately show "byte_of content i = (if pos \<le> c + i \<and> c + i < pos + length rest then rest ! (c + i - pos) else byte_of (old c) i)"
      using content(1) i by (simp add: c_def v_def)
  qed (use w n0 rest content in \<open>auto simp: c_def v_def\<close>)
  have cov: "p - p mod g \<in> insert c (fst ` set cells)" if p: "pos \<le> p" "p < pos + length rest" for p
  proof (cases "p < pos + n")
    case True
    then show ?thesis using same_cell [OF w(3), of p] p(1) w n0 by simp
  next
    case False
    then show ?thesis using cells(1) p by (auto simp: cells_cover_def)
  qed
  have "sorted_wrt (<) (map fst ((c, content) # cells))"
    using tail cells(1) w by (fastforce simp: cells_cover_def)
  then show ?thesis
    using head tail cov unfolding cells_cover_def c_def [symmetric] by auto
qed

lemma cover_Nil [simp]: "cells_cover g pos [] old []"
  by (simp add: cells_cover_def)

text \<open>Whole cells.\<close>

lemma chunks_cover:
  assumes "0 < g" and "pos mod g = 0" and "g dvd length data" and "pos + length data \<le> u64_max"
  shows "cells_cover g pos data old (map (\<lambda>(i, c). (wrap_add pos (i * g), c)) (zip [0..<length (chunks g data)] (chunks g data)))"
proof -
  have "cells_cover g (pos + k * g) data old (map (\<lambda>(i, c). (wrap_add pos (i * g), c)) (zip [k..<k + length (chunks g data)] (chunks g data)))"
    if "pos + k * g + length data \<le> u64_max" "g dvd length data" for k
    using that
  proof (induction "length data" arbitrary: k data rule: less_induct)
    case less
    show ?case
    proof (cases "data = []")
      case True
      then show ?thesis by (simp add: chunks.simps)
    next
      case False
      let ?tail = "map (\<lambda>(i, c). (wrap_add pos (i * g), c)) (zip [Suc k..<Suc k + length (chunks g (drop g data))] (chunks g (drop g data)))"
      have le: "g \<le> length data" using less.prems(2) False by (auto dest: dvd_imp_le)
      have ch: "chunks g data = take g data # chunks g (drop g data)" using assms(1) False by (simp add: chunks.simps [of g data])
      have at: "wrap_add pos (k * g) = pos + k * g" using less.prems(1) by (intro wrap_add_exact) simp
      have m: "(pos + k * g) mod g = 0" using assms(2) by simp
      have IH: "cells_cover g (pos + Suc k * g) (drop g data) old ?tail"
        using less.prems le assms(1) False by (intro less.hyps) (auto simp: algebra_simps)
      have "cells_cover g (pos + k * g) data old ((pos + k * g - (pos + k * g) mod g, take g data) # ?tail)"
        using assms(1) False le IH
        by (intro cover_step [where n = g]) (auto simp: assms(2) byte_of_def chunks.simps [of g "[]"] algebra_simps)
      moreover have "zip [k..<k + length (chunks g data)] (chunks g data) = (k, take g data) # zip [Suc k..<Suc k + length (chunks g (drop g data))] (chunks g (drop g data))"
        by (simp add: ch upt_conv_Cons del: upt_Suc)
      ultimately show ?thesis using m at by simp
    qed
  qed
  from this [of 0] show ?thesis using assms by simp
qed

lemma aligned_cover:
  "0 < g \<Longrightarrow> g dvd off \<Longrightarrow> g dvd length data \<Longrightarrow> off + length data \<le> u64_max \<Longrightarrow> cells_cover g off data old (aligned_cells g off data)"
  unfolding aligned_cells_def Let_def by (rule chunks_cover) auto

section \<open>Reading cells to be merged\<close>

context block_store
begin

text \<open>What the cells of a target hold.\<close>

definition cells_hold :: "'d env \<Rightarrow> 'd engine \<Rightarrow> target \<Rightarrow> nat \<Rightarrow> (nat \<Rightarrow> byte list) \<Rightarrow> bool" where
  "cells_hold w eng t g old \<longleftrightarrow> (\<forall>cell ext. cell mod g = 0 \<longrightarrow> extent_at t (en_catalog eng) cell = Inr ext \<longrightarrow>
     (case ext of None \<Rightarrow> old cell = []
      | Some x \<Rightarrow> extent_held w (view eng) x (old cell) \<and> length (old cell) \<le> g
          \<and> map_option em_extent (bget (extents (en_catalog eng)) (x_id x)) = Some x))"

lemma cells_hold_still: "still eng eng' \<Longrightarrow> cells_hold w eng t g old \<Longrightarrow> cells_hold w eng' t g old"
  by (simp add: cells_hold_def still_def steady_def cong: option.case_cong)

lemma cell_content_spec:
  assumes "nodes_ok eng" and "ev_ops w = ops" and hold: "cells_hold w eng t g old"
    and at: "k mod g = 0" "extent_at t (en_catalog eng) k = Inr existing" and part: "part \<noteq> []" "within + length part \<le> g"
    and call: "cell_content w now existing within part eng = (res, eng')"
  shows "still eng eng' \<and> (\<forall>content. res = Inr content \<longrightarrow> content \<noteq> [] \<and> length content \<le> g
    \<and> length content \<le> max (within + length part) (length (old k))
    \<and> (\<forall>i < g. byte_of content i = (if within \<le> i \<and> i < within + length part then part ! (i - within) else byte_of (old k) i)))"
proof (cases existing)
  case None
  then have o: "old k = []" using hold [unfolded cells_hold_def, rule_format, OF at] by simp
  have "res = Inr (replicate within 0 @ part)" "eng' = eng" using call None by (simp_all add: cell_content_def)
  then show ?thesis using part o by (auto simp: byte_of_def nth_append)
next
  case (Some x)
  then have x: "extent_held w (view eng) x (old k)" "length (old k) \<le> g"
      "map_option em_extent (bget (extents (en_catalog eng)) (x_id x)) = Some x"
    using hold [unfolded cells_hold_def, rule_format, OF at] by simp_all
  have len: "x_len x = length (old k)" using x(1) by (simp add: extent_held_def extent_of_def)
  show ?thesis
  proof (cases "within > 0 \<or> length part < x_len x")
    case True
    obtain q e where q: "read_extent w now x eng = (q, e)" by (rule prod.exhaust)
    note r = read_extent_right [OF assms(1,2) x(1,3) q]
    have fin: "eng' = e" "res = rbind q (\<lambda>buf. Inr (merged_cell within part buf))"
      using call Some True q by (cases q; auto simp: cell_content_def)+
    have m: "length (merged_cell within part (old k)) = max (length (old k)) (within + length part)" by (rule merged_cell_length)
    then have ne: "merged_cell within part (old k) \<noteq> []" using part(1) by (cases part) auto
    have "res = Inr (merged_cell within part (old k)) \<or> (\<exists>err. res = Inl err)" using r fin(2) by (cases q) auto
    then show ?thesis using r fin(1) ne m x(2) part(2) by (auto simp: merged_cell_byte)
  next
    case False
    then have "res = Inr part" "eng' = eng" using call Some by (simp_all add: cell_content_def)
    then show ?thesis using False part len by (auto simp: byte_of_def)
  qed
qed

lemma write_cells_spec:
  assumes "nodes_ok eng" and "ev_ops w = ops" and "cells_hold w eng t g old" and "0 < g" and "pos + length rest \<le> u64_max"
    and "write_cells w now t g pos rest eng = (res, eng')"
  shows "still eng eng' \<and> (\<forall>cells. res = Inr cells \<longrightarrow> cells_cover g pos rest old cells \<and> (rest = [] \<longrightarrow> cells = []))"
  using assms
proof (induction w now t g pos rest eng arbitrary: res eng' rule: write_cells.induct)
  case (1 w now t g pos rest eng)
  show ?case
  proof (cases "rest = []")
    case True
    then show ?thesis using "1.prems"(6) by (auto simp: write_cells.simps)
  next
    case False
    define c v n where "c = pos - pos mod g" and "v = pos - c" and "n = min (length rest) (g - v)"
    have v: "v = pos mod g" "v < g" "c mod g = 0" using "1.prems"(4) by (auto simp: v_def c_def)
    have n0: "0 < n" "n \<le> length rest" "v + n \<le> g" using False v by (auto simp: n_def)
    have wrap: "wrap_add pos n = pos + n" using "1.prems"(5) n0 by (intro wrap_add_exact) linarith
    note def = write_cells.simps [of w now t g pos rest eng, unfolded Let_def, folded c_def, folded v_def, folded n_def, unfolded wrap]
    show ?thesis
    proof (cases "extent_at t (en_catalog eng) c")
      case (Inl err)
      then show ?thesis using "1.prems"(4,6) False unfolding def by auto
    next
      case (Inr ext)
      obtain q e where q: "cell_content w now ext v (take n rest) eng = (q, e)" by (rule prod.exhaust)
      have part: "take n rest \<noteq> []" "v + length (take n rest) \<le> g" using n0 False by auto
      note cc = cell_content_spec [OF "1.prems"(1-3) v(3) Inr part q]
      show ?thesis
      proof (cases q)
        case (Inl err)
        then show ?thesis using "1.prems"(4,6) False Inr q cc unfolding def by auto
      next
        case (Inr content)
        obtain q2 e2 where q2: "write_cells w now t g (pos + n) (drop n rest) e = (q2, e2)" by (rule prod.exhaust)
        have e: "still eng e" using cc by blast
        have IH: "still e e2 \<and> (\<forall>cells. q2 = Inr cells \<longrightarrow> cells_cover g (pos + n) (drop n rest) old cells \<and> (drop n rest = [] \<longrightarrow> cells = []))"
          using "1.IH" [OF False _ c_def v_def n_def still_nodes [OF e "1.prems"(1)] "1.prems"(2) cells_hold_still [OF e "1.prems"(3)] "1.prems"(4),
              unfolded wrap, OF _ _ q2] "1.prems"(4,5) n0 by auto
        have fin: "eng' = e2" "res = rbind q2 (\<lambda>cells. Inr ((c, content) # cells))"
          using "1.prems"(4,6) False \<open>extent_at t (en_catalog eng) c = Inr ext\<close> q Inr q2 unfolding def by (cases q2; auto)+
        have "cells_cover g pos rest old ((c, content) # cells)" if cells: "q2 = Inr cells" for cells
          unfolding c_def
        proof (rule cover_step [OF "1.prems"(4) n_def [unfolded v(1)] False])
          show "\<forall>i < g. byte_of content i = (if pos mod g \<le> i \<and> i < pos mod g + n then rest ! (i - pos mod g) else byte_of (old (pos - pos mod g)) i)"
            using cc Inr n0 by (auto simp: v(1) c_def)
        qed (use cc Inr IH cells n0 in \<open>auto simp: v(1) c_def\<close>)
        then show ?thesis using fin still_trans [OF e] IH False by (auto simp: rbind_eq_Inr)
      qed
    qed
  qed
qed

end

end
