(* ===== verification/EngineWrite.thy ===== *)
theory EngineWrite
  imports EngineGrid
begin

text \<open>
  Writes. Whatever goes wrong on the way, a write leaves the engine consistent, and the volume's
  extents are either those it had or those with all the written cells installed.
\<close>

lemma engine_ok_inflight:
  "engine_core cell used w (eng\<lparr>en_inflight := i\<rparr>) = engine_core cell used w eng"
  using dev_at_cong [of "eng\<lparr>en_inflight := i\<rparr>" eng]
  by (simp add: engine_core_def nodes_ok_def durable_def ids_ok_def dev_view_def [abs_def])

text \<open>The cells were installed in the volume as new extents that hold their contents.\<close>

definition wrote ::
    "('d \<Rightarrow> nat \<Rightarrow> byte) \<Rightarrow> ('d \<Rightarrow> nat) \<Rightarrow> 'd env \<Rightarrow> 'd engine \<Rightarrow> 'd engine \<Rightarrow> string \<Rightarrow> (nat \<times> byte list) list \<Rightarrow> bool" where
  "wrote cell used w eng eng' vid cells \<longleftrightarrow> (\<exists>xs trm index c'. map x_logical_offset xs = map fst cells
     \<and> installed (en_catalog eng) vid xs c' \<and> en_catalog eng' = applied trm index c'
     \<and> list_all2 (\<lambda>x p. extent_held w (dev_view cell used eng') x (snd p)) xs cells
     \<and> sorted_wrt (\<lambda>x y. x_id x \<noteq> x_id y) xs \<and> (\<forall>x \<in> set xs. bget (extents (en_catalog eng)) (x_id x) = None))"

text \<open>How an operation on data may end: the bytes of installed extents stay, and the catalog stays
  with an error, or changes as described (with an error only when the log failed after its record
  was written).\<close>

definition op_ends ::
    "('d \<Rightarrow> nat \<Rightarrow> byte) \<Rightarrow> ('d \<Rightarrow> nat) \<Rightarrow> 'd env \<Rightarrow> 'd engine \<Rightarrow> 'a native_result \<Rightarrow> 'd engine \<Rightarrow> bool \<Rightarrow> bool" where
  "op_ends cell used w eng res eng' changed \<longleftrightarrow> engine_ok cell used w eng'
     \<and> grows_to (live_bytes (extents (en_catalog eng))) (dev_view cell used eng) (dev_view cell used eng')
     \<and> (en_catalog eng' = en_catalog eng \<and> (\<exists>e. res = Inl e)
        \<or> ((\<exists>a. res = Inr a) \<or> (\<exists>e. res = Inl (WalFailed e))) \<and> changed)"

text \<open>A write of a volume, over the old content of its cells.\<close>

definition volume_written ::
    "('d \<Rightarrow> nat \<Rightarrow> byte) \<Rightarrow> ('d \<Rightarrow> nat) \<Rightarrow> 'd env \<Rightarrow> string \<Rightarrow> nat \<Rightarrow> byte list \<Rightarrow> (nat \<Rightarrow> byte list) \<Rightarrow> 'd engine \<Rightarrow> 'd engine \<Rightarrow> bool" where
  "volume_written cell used w vid off data old eng eng' \<longleftrightarrow> (\<exists>v cells. bget (volumes (en_catalog eng)) vid = Some v
     \<and> off + length data \<le> v_size_bytes v \<and> cells_cover (cg_extent_bytes (ev_cfg w)) off data old cells
     \<and> wrote cell used w eng eng' vid cells)"

lemma settle_lease_id: "\<forall>r. res \<noteq> Inl (RaftFailed r) \<Longrightarrow> settle_lease now token (res, eng) = (res, eng)"
  by (auto simp: settle_lease_def split: sum.split native_error.split)

lemma in_bounds_Inr:
  assumes "vol_in_bounds vid off ln c = Inr u" and "\<And>v. bget (volumes c) vid = Some v \<Longrightarrow> v_size_bytes v < u64_max"
  shows "\<exists>v. bget (volumes c) vid = Some v \<and> off + ln \<le> v_size_bytes v \<and> v_size_bytes v < u64_max"
  using assms by (auto simp: vol_in_bounds_def rbind_eq_Inr ok_or_def guard_def sat_add_def min_def split: option.splits if_splits)

lemma cover_bounds:
  assumes "cells_cover g off data old cells" and "g < u64_max"
  shows "\<forall>p \<in> set cells. snd p \<noteq> [] \<and> length (snd p) < u64_max"
  using assms unfolding cells_cover_def cell_right_def by fastforce

lemma wrote_cong: "en_catalog e = en_catalog eng \<Longrightarrow> wrote cell used w e eng' vid cells = wrote cell used w eng eng' vid cells"
  by (simp add: wrote_def)

lemma ids_ok_steady: "ids_ok eng \<Longrightarrow> steady eng eng' \<Longrightarrow> ids_ok eng'"
  by (simp add: ids_ok_def steady_def)

context block_store
begin

lemma core_still: "core w eng \<Longrightarrow> still eng eng' \<Longrightarrow> core w eng'"
  using still_nodes [of eng eng'] ids_ok_steady [of eng eng']
  by (auto simp: engine_core_def durable_def still_def steady_def)

lemma core_places:
  assumes "core w eng" and "places w token T T' eng eng'"
  shows "core w eng'"
proof -
  have "steady eng eng'" "nodes_ok eng'" "data_ok w (view eng') (en_catalog eng')"
    using assms(2) by (auto simp: places_def placing_inv_def)
  then show ?thesis
    using assms(1) ids_ok_steady [of eng eng'] by (auto simp: engine_core_def durable_def steady_def)
qed

lemma lease_starts:
  assumes "engine_ok cell used w eng" and "if_lease (en_inflight eng) = (token, infl)"
  shows "placing_inv w token {} (eng\<lparr>en_inflight := infl\<rparr>)" "core w (eng\<lparr>en_inflight := infl\<rparr>)"
    "view (eng\<lparr>en_inflight := infl\<rparr>) = view eng"
proof -
  show v: "view (eng\<lparr>en_inflight := infl\<rparr>) = view eng"
    using dev_at_cong [of "eng\<lparr>en_inflight := infl\<rparr>" eng] by (simp add: dev_view_def [abs_def])
  show c: "core w (eng\<lparr>en_inflight := infl\<rparr>)" using assms(1) by (simp add: engine_ok_def engine_ok_inflight)
  show "placing_inv w token {} (eng\<lparr>en_inflight := infl\<rparr>)"
    using c v assms lease_idle by (auto simp: placing_inv_def engine_core_def engine_ok_def fresh_bytes_def)
qed

lemma lease_ends:
  assumes "core w eng" and "leased fl token (en_inflight eng)"
  shows "engine_ok cell used w (eng\<lparr>en_inflight := if_drop token (en_inflight eng)\<rparr>)"
    "view (eng\<lparr>en_inflight := if_drop token (en_inflight eng)\<rparr>) = view eng"
proof -
  let ?e = "eng\<lparr>en_inflight := if_drop token (en_inflight eng)\<rparr>"
  show "engine_ok cell used w ?e" using assms drop_idle by (simp add: engine_ok_def engine_ok_inflight)
  show "view ?e = view eng" using dev_at_cong [of ?e eng] by (simp add: dev_view_def [abs_def])
qed

text \<open>Placing cells under a lease and committing them.\<close>

lemma install_cells_end:
  assumes ok: "engine_ok cell used w eng" "ev_ops w = ops" "env_ok w"
    and lease: "if_lease (en_inflight eng) = (token, infl)"
    and pl: "places w token {} T (eng\<lparr>en_inflight := infl\<rparr>) e1"
    and xs: "map x_logical_offset xs = map fst cells" "cells_placed w (eng\<lparr>en_inflight := infl\<rparr>) e1 {} T (zip xs (map snd cells))"
    and cmd: "installs_in cmd vid xs" and call: "eng_commit w cmd e1 = (res, e2)"
    and eng': "eng' = e2\<lparr>en_inflight := if_drop token (en_inflight e2)\<rparr>"
  shows "(\<forall>r. res \<noteq> Inl (RaftFailed r)) \<and> op_ends cell used w eng res eng' (wrote cell used w eng eng' vid cells)"
proof -
  let ?e0 = "eng\<lparr>en_inflight := infl\<rparr>"
  note s = lease_starts [OF ok(1) lease]
  have len: "length xs = length cells" using arg_cong [OF xs(1), of length] by simp
  have core1: "core w e1" by (rule core_places [OF s(2) pl])
  have st: "steady ?e0 e1" "placing_inv w token T e1" using pl by (auto simp: places_def)
  have c1: "en_catalog e1 = en_catalog eng" "en_uuids e1 = en_uuids eng" "en_uuid_next eng \<le> en_uuid_next e1"
    using st(1) by (simp_all add: steady_def)
  let ?zs = "zip xs (map snd cells)"
  have z: "map fst ?zs = xs" using len by simp
  have new: "news_placed w (en_catalog e1) (view e1) {} T (en_uuids e1) (en_uuid_next eng) (en_uuid_next e1) ?zs"
    using xs(2) c1 by simp
  have ids: "\<forall>k \<ge> en_uuid_next eng. bget (extents (en_catalog e1)) (en_uuids e1 k) = None"
    using ok(1) c1 by (auto simp: engine_ok_def engine_core_def ids_ok_def)
  have T: "T \<inter> live_bytes (extents (en_catalog e1)) = {}" using st(2) by (simp add: placing_inv_def fresh_bytes_def)
  note ci = commit_installs [OF core1 T new ids, unfolded z, OF cmd call]
  have v2: "view e2 = view e1" "en_inflight e2 = en_inflight e1" using ci same_data_view by (auto simp: same_data_def)
  have l: "leased (free (en_catalog e1)) token (en_inflight e2)" using st(2) v2(2) by (simp add: placing_inv_def)
  note fin = lease_ends [OF conjunct1 [OF ci] l, folded eng']
  have gr: "grows_to (live_bytes (extents (en_catalog eng))) (view eng) (view eng')"
    using pl fin(2) v2(1) s(3) by (simp add: places_def)
  have x: "bget (extents (en_catalog eng)) (x_id (xs ! i)) = None \<and> extent_held w (view eng') (xs ! i) (snd (cells ! i))"
    if i: "i < length xs" for i
  proof -
    have m: "(xs ! i, snd (cells ! i)) \<in> set ?zs" using i len by (auto simp: set_zip)
    then have "new_placed w (en_catalog e1) (view e1) {} T (xs ! i) (snd (cells ! i))" using new by (auto simp: news_placed_def)
    then show ?thesis
      using news_fresh [OF new ids m] c1(1) fin(2) v2(1) new_placed_held by (auto simp: engine_core_def ids_ok_def)
  qed
  have "sorted_wrt (\<lambda>x y. x_id x \<noteq> x_id y) xs"
    using new len by (auto simp: news_placed_def sorted_wrt_iff_nth_less)
  then have "wrote cell used w eng eng' vid cells" if "installed (en_catalog e1) vid xs c'" "en_catalog e2 = applied trm index c'" for trm index c'
    unfolding wrote_def using that xs(1) x c1(1) len eng'
    by (intro exI [of _ xs] exI [of _ trm] exI [of _ index] exI [of _ c']) (auto simp: list_all2_conv_all_nth in_set_conv_nth)
  then show ?thesis using ci fin(1) gr c1(1) eng' unfolding op_ends_def by auto
qed

lemma install_aborts:
  assumes ok: "engine_ok cell used w eng" and lease: "if_lease (en_inflight eng) = (token, infl)"
    and pl: "places w token {} T (eng\<lparr>en_inflight := infl\<rparr>) e1"
    and eng': "eng' = e1\<lparr>en_inflight := if_drop token (en_inflight e1)\<rparr>"
  shows "op_ends cell used w eng (Inl e) eng' changed"
proof -
  note s = lease_starts [OF ok lease]
  have st: "steady (eng\<lparr>en_inflight := infl\<rparr>) e1" "placing_inv w token T e1" using pl by (auto simp: places_def)
  then have l: "leased (free (en_catalog e1)) token (en_inflight e1)" by (simp add: placing_inv_def)
  note fin = lease_ends [OF core_places [OF s(2) pl] l, folded eng']
  have "grows_to (live_bytes (extents (en_catalog eng))) (view eng) (view eng')"
    using pl fin(2) s(3) by (simp add: places_def)
  then show ?thesis using fin(1) st(1) eng' by (simp add: op_ends_def steady_def)
qed

lemma op_ends_map: "op_ends cell used w eng r eng' changed \<Longrightarrow> op_ends cell used w eng (map_sum id f r) eng' changed"
  by (auto simp: op_ends_def)

lemma leased_cells:
  assumes ok: "engine_ok cell used w eng" "ev_ops w = ops" "env_ok w"
    and cells: "\<forall>p \<in> set cells. snd p \<noteq> [] \<and> length (snd p) < u64_max"
    and k: "\<And>token xs e. en_catalog e = en_catalog eng \<Longrightarrow> \<exists>cmd. installs_in cmd vid xs
      \<and> k token xs e = (case settle_lease now token (eng_commit w cmd e) of (r, e) \<Rightarrow> (map_sum id f r, e))"
    and call: "with_lease (\<lambda>token e. andthen (place_cells w now token fence cells e) (k token)) eng = (res, eng')"
  shows "op_ends cell used w eng res eng' (wrote cell used w eng eng' vid cells) \<and> (\<forall>b. res = Inr b \<longrightarrow> (\<exists>u. b = f u))"
proof -
  obtain token infl where lease: "if_lease (en_inflight eng) = (token, infl)" by (rule prod.exhaust)
  let ?e0 = "eng\<lparr>en_inflight := infl\<rparr>"
  obtain q e1 where q: "place_cells w now token fence cells ?e0 = (q, e1)" by (rule prod.exhaust)
  have inj: "inj (en_uuids ?e0)" using ok(1) by (simp add: engine_ok_def engine_core_def ids_ok_def)
  obtain T where pl: "places w token {} T ?e0 e1"
    and xs: "\<And>xs. q = Inr xs \<Longrightarrow> map x_logical_offset xs = map fst cells \<and> cells_placed w ?e0 e1 {} T (zip xs (map snd cells))"
    using place_cells_spec [OF lease_starts(1) [OF ok(1) lease] ok(2,3) inj cells q] by blast
  show ?thesis
  proof (cases q)
    case (Inl e)
    then have "res = Inl e" "eng' = e1\<lparr>en_inflight := if_drop token (en_inflight e1)\<rparr>"
      using call lease q by (simp_all add: with_lease_def andthen_def)
    then show ?thesis using install_aborts [OF ok(1) lease pl] by simp
  next
    case (Inr ys)
    have "en_catalog e1 = en_catalog eng" using pl by (simp add: places_def steady_def)
    then obtain cmd where cmd: "installs_in cmd vid ys"
        "k token ys e1 = (case settle_lease now token (eng_commit w cmd e1) of (r, e) \<Rightarrow> (map_sum id f r, e))"
      using k by blast
    obtain r e2 where r: "eng_commit w cmd e1 = (r, e2)" by (rule prod.exhaust)
    note fin = install_cells_end [OF ok lease pl conjunct1 [OF xs [OF Inr]] conjunct2 [OF xs [OF Inr]] cmd(1) r refl]
    have "res = map_sum id f r" "eng' = e2\<lparr>en_inflight := if_drop token (en_inflight e2)\<rparr>"
      using call lease q Inr cmd(2) r settle_lease_id [OF conjunct1 [OF fin], of now token e2] by (auto simp: with_lease_def andthen_def)
    then show ?thesis using op_ends_map [OF conjunct2 [OF fin], of f] by (cases r) auto
  qed
qed

lemma install_extent_ends:
  assumes ok: "engine_ok cell used w eng" "ev_ops w = ops" "env_ok w" and chunk: "chunk \<noteq> []" "length chunk < u64_max"
    and call: "eng_install_extent w now (ToVolume vid) logical chunk fence eng = (res, eng')"
  shows "op_ends cell used w eng res eng' (wrote cell used w eng eng' vid [(logical, chunk)])"
proof -
  obtain token infl where lease: "if_lease (en_inflight eng) = (token, infl)" by (rule prod.exhaust)
  let ?e0 = "eng\<lparr>en_inflight := infl\<rparr>"
  obtain q e1 where q: "place_extent w now token fence chunk ?e0 = (q, e1)" by (rule prod.exhaust)
  obtain T where pl: "places w token {} T ?e0 e1" and x: "\<And>x. q = Inr x \<Longrightarrow> placed_as w ?e0 e1 {} T chunk x"
    using place_extent_spec [OF lease_starts(1) [OF ok(1) lease] ok(2,3) chunk q] by blast
  show ?thesis
  proof (cases q)
    case (Inl e)
    then have "res = Inl e" "eng' = e1\<lparr>en_inflight := if_drop token (en_inflight e1)\<rparr>"
      using call lease q by (simp_all add: with_lease_def andthen_def eng_install_extent_def)
    then show ?thesis using install_aborts [OF ok(1) lease pl] by simp
  next
    case (Inr x0)
    let ?x = "x0\<lparr>x_logical_offset := logical\<rparr>" and ?cmd = "extent_command now (ToVolume vid) logical (length chunk) x0"
    have cmd: "installs_in ?cmd vid [?x]" by (simp add: extent_command_def installs_in_def)
    have placed: "map x_logical_offset [?x] = map fst [(logical, chunk)]" "cells_placed w ?e0 e1 {} T (zip [?x] (map snd [(logical, chunk)]))"
      using x [OF Inr] new_placed_moved by (auto simp: placed_as_def news_placed_def)
    obtain r e2 where r: "eng_commit w ?cmd e1 = (r, e2)" by (rule prod.exhaust)
    note fin = install_cells_end [OF ok lease pl placed cmd r refl]
    have "res = r" "eng' = e2\<lparr>en_inflight := if_drop token (en_inflight e2)\<rparr>"
      using call lease q Inr r settle_lease_id [OF conjunct1 [OF fin], of now token e2] by (auto simp: with_lease_def andthen_def eng_install_extent_def)
    then show ?thesis using conjunct2 [OF fin] by simp
  qed
qed

lemma op_ends_still:
  assumes "still eng e" and "op_ends cell used w e res eng' changed" and "changed \<Longrightarrow> changed'"
  shows "op_ends cell used w eng res eng' changed'"
  using assms by (auto simp: op_ends_def still_def steady_def)

lemma still_ends: "engine_ok cell used w eng \<Longrightarrow> still eng eng' \<Longrightarrow> op_ends cell used w eng (Inl e) eng' changed"
  using core_still [of w eng eng'] by (auto simp: op_ends_def engine_ok_def still_def steady_def)

lemma write_locked_ends:
  assumes ok: "engine_ok cell used w eng" "ev_ops w = ops" "env_ok w"
    and hold: "cells_hold w eng (ToVolume vid) (cg_extent_bytes (ev_cfg w)) old" and data: "data \<noteq> []"
    and v: "bget (volumes (en_catalog eng)) vid = Some v" "off + length data \<le> v_size_bytes v" "v_size_bytes v < u64_max"
    and call: "write_locked w now (ToVolume vid) off data fence eng = (res, eng')"
  shows "op_ends cell used w eng res eng' (volume_written cell used w vid off data old eng eng')"
proof -
  let ?g = "cg_extent_bytes (ev_cfg w)"
  have g: "0 < ?g" "?g < u64_max" and n: "nodes_ok eng" using ok by (auto simp: env_ok_def engine_ok_def engine_core_def)
  obtain q e where q: "write_cells w now (ToVolume vid) ?g off data eng = (q, e)" by (rule prod.exhaust)
  have sp: "still eng e" "\<And>cells. q = Inr cells \<Longrightarrow> cells_cover ?g off data old cells"
    using write_cells_spec [OF n ok(2) hold g(1) _ q] v by auto
  have ok': "engine_ok cell used w e"
    using core_still [OF _ sp(1), of w] ok(1) sp(1) by (auto simp: engine_ok_def still_def steady_def)
  note rest = call [unfolded write_locked_def tg_grid_def attempt_def target.case sum.case q andthen_def prod.case]
  show ?thesis
  proof (cases q)
    case (Inl x)
    then show ?thesis using rest still_ends [OF ok(1) sp(1)] by auto
  next
    case (Inr cells)
    note cov = sp(2) [OF Inr]
    have ends: ?thesis if "op_ends cell used w e res eng' (wrote cell used w e eng' vid cells)"
    proof (rule op_ends_still [OF sp(1) that])
      assume "wrote cell used w e eng' vid cells"
      moreover have "en_catalog e = en_catalog eng" using sp(1) by (simp add: still_def steady_def)
      ultimately show "volume_written cell used w vid off data old eng eng'"
        using v cov wrote_cong [of e eng cell used w eng' vid cells] by (auto simp: volume_written_def)
    qed
    note b = cover_bounds [OF cov g(2)]
    show ?thesis
    proof (cases "\<exists>k content. cells = [(k, content)]")
      case True
      then obtain k content where c: "cells = [(k, content)]" by blast
      then have "eng_install_extent w now (ToVolume vid) k content fence e = (res, eng')" using rest Inr by simp
      then show ?thesis using ends install_extent_ends [OF ok' ok(2,3)] b c by simp
    next
      case False
      then have "with_lease (\<lambda>token e. andthen (place_cells w now token fence cells e) (commit_cells w now token (ToVolume vid))) e = (res, eng')"
        using rest Inr by (auto simp: andthen_def split: list.splits)
      then show ?thesis
        by (intro ends conjunct1 [OF leased_cells [OF ok' ok(2,3) b, where k = "\<lambda>token. commit_cells w now token (ToVolume vid)" and f = id and now = now]])
          (auto simp: commit_cells_def cells_command_def installs_in_def sum.map_id0 split: prod.split)
    qed
  qed
qed

lemma write_aligned_ends:
  assumes ok: "engine_ok cell used w eng" "ev_ops w = ops" "env_ok w"
    and sz: "\<And>v. bget (volumes (en_catalog eng)) vid = Some v \<Longrightarrow> v_size_bytes v < u64_max"
    and call: "write_aligned w now (ToVolume vid) off data (vol_in_bounds vid off (length data)) fence eng = (res, eng')"
  shows "res = Inr False \<and> eng' = eng
    \<or> res \<noteq> Inr False \<and> op_ends cell used w eng res eng' (volume_written cell used w vid off data old eng eng')"
proof -
  let ?g = "cg_extent_bytes (ev_cfg w)" and ?in = "vol_in_bounds vid off (length data)" and ?cells = "aligned_cells (cg_extent_bytes (ev_cfg w)) off data"
  let ?k = "\<lambda>token xs e. attempt e (?in (en_catalog e)) (\<lambda>_. andthen (commit_cells w now token (ToVolume vid) xs e) (\<lambda>_ e. (Inr True, e)))"
  have g: "0 < ?g" "?g < u64_max" using ok by (auto simp: env_ok_def)
  have same: "op_ends cell used w eng (Inl e) eng changed" for e :: native_error and changed
    using ok(1) by (simp add: op_ends_def)
  show ?thesis
  proof (cases "data = [] \<or> \<not> ?g dvd off \<or> \<not> ?g dvd length data")
    case True
    then show ?thesis using call by (cases "data = []") (auto simp: write_aligned_def tg_grid_def attempt_def)
  next
    case al: False
    note def = call [unfolded write_aligned_def tg_grid_def target.case]
    show ?thesis
    proof (cases "?in (en_catalog eng)")
      case (Inl e)
      then show ?thesis using def al same by (auto simp: attempt_def)
    next
      case (Inr u)
      then obtain v where v: "bget (volumes (en_catalog eng)) vid = Some v" "off + length data \<le> v_size_bytes v" "v_size_bytes v < u64_max"
        using in_bounds_Inr [OF Inr sz] by blast
      have cov: "cells_cover ?g off data old ?cells" using aligned_cover [OF g(1)] al v by simp
      have wl: "with_lease (\<lambda>token e. andthen (place_cells w now token fence ?cells e) (?k token)) eng = (res, eng')"
        using def al Inr g(1) by (simp add: attempt_def)
      have k: "\<exists>cmd. installs_in cmd vid xs
          \<and> ?k token xs e = (case settle_lease now token (eng_commit w cmd e) of (r, e) \<Rightarrow> (map_sum id (\<lambda>_. True) r, e))"
        if "en_catalog e = en_catalog eng" for token xs e
        using that Inr by (intro exI [of _ "InstallExtents vid xs"])
          (auto simp: installs_in_def attempt_def andthen_def commit_cells_def cells_command_def split: prod.split sum.split)
      have "op_ends cell used w eng res eng' (wrote cell used w eng eng' vid ?cells) \<and> (\<forall>b. res = Inr b \<longrightarrow> (\<exists>u :: unit. b = True))"
        by (rule leased_cells [OF ok cover_bounds [OF cov g(2)] k wl])
      then show ?thesis using v cov unfolding volume_written_def op_ends_def by blast
    qed
  qed
qed

lemma eng_write_ends:
  assumes ok: "engine_ok cell used w eng" "ev_ops w = ops" "env_ok w"
    and hold: "cells_hold w eng (ToVolume vid) (cg_extent_bytes (ev_cfg w)) old"
    and sz: "\<And>v. bget (volumes (en_catalog eng)) vid = Some v \<Longrightarrow> v_size_bytes v < u64_max" and data: "data \<noteq> []"
    and call: "eng_write w now vid off data eng = (res, eng')"
  shows "op_ends cell used w eng res eng' (volume_written cell used w vid off data old eng eng')"
proof -
  let ?in = "vol_in_bounds vid off (length data)"
  obtain q e where q: "write_aligned w now (ToVolume vid) off data ?in 0 eng = (q, e)" by (rule prod.exhaust)
  note def = call [unfolded eng_write_def q andthen_def prod.case]
  consider "q = Inr False" "e = eng" | "q \<noteq> Inr False" "op_ends cell used w eng q e (volume_written cell used w vid off data old eng e)"
    using write_aligned_ends [OF ok sz q] by blast
  then show ?thesis
  proof cases
    case 1
    note rest = def [unfolded 1 sum.case]
    show ?thesis
    proof (cases "?in (en_catalog eng)")
      case (Inl x)
      then have "res = Inl x" "eng' = eng" using rest data by (simp_all add: attempt_def)
      then show ?thesis using ok(1) by (simp add: op_ends_def)
    next
      case (Inr u)
      obtain v where v: "bget (volumes (en_catalog eng)) vid = Some v" "off + length data \<le> v_size_bytes v" "v_size_bytes v < u64_max"
        using in_bounds_Inr [OF Inr sz] by blast
      have "write_locked w now (ToVolume vid) off data 0 eng = (res, eng')" using rest data Inr by (simp add: attempt_def)
      then show ?thesis by (rule write_locked_ends [OF ok hold data v])
    qed
  next
    case 2
    then have "res = map_sum id (\<lambda>_. ()) q" "eng' = e" using def data by (auto split: sum.splits)
    then show ?thesis using op_ends_map [OF 2(2)] by simp
  qed
qed

end

end
