(* ===== verification/EngineVolumes.thy ===== *)
theory EngineVolumes
  imports EngineWrite
begin

text \<open>
  Volumes as arrays of bytes. The extents of a map show an array when each holds the bytes of its
  cell; reading a range of the map returns the bytes of that range, and an installed write shows
  the array with the written bytes in place.
\<close>

section \<open>What a map of extents shows\<close>

text \<open>The entry of cell \<open>k\<close> holds the bytes of the array from \<open>k\<close> on.\<close>

definition entry_shows :: "'d env \<Rightarrow> device_view \<Rightarrow> catalog \<Rightarrow> byte list \<Rightarrow> nat \<Rightarrow> extent_id \<Rightarrow> bool" where
  "entry_shows w v c d k e \<longleftrightarrow> (\<exists>x bs. map_option em_extent (bget (extents c) e) = Some x \<and> x_id x = e \<and> x_logical_offset x = k
     \<and> length bs \<le> cg_extent_bytes (ev_cfg w) \<and> k + length bs \<le> length d \<and> extent_held w v x bs
     \<and> (\<forall>i < cg_extent_bytes (ev_cfg w). byte_of d (k + i) = byte_of bs i))"

definition map_shows :: "'d env \<Rightarrow> device_view \<Rightarrow> catalog \<Rightarrow> extent_map \<Rightarrow> byte list \<Rightarrow> bool" where
  "map_shows w v c m d \<longleftrightarrow> (\<forall>k e. bget m k = Some e \<longrightarrow> k mod cg_extent_bytes (ev_cfg w) = 0 \<and> entry_shows w v c d k e)
     \<and> (\<forall>p. bget m (p - p mod cg_extent_bytes (ev_cfg w)) = None \<longrightarrow> byte_of d p = 0)"

lemma map_showsD:
  assumes "map_shows w v c m d" and "bget m k = Some e"
  shows "k mod cg_extent_bytes (ev_cfg w) = 0" "entry_shows w v c d k e"
  using assms by (auto simp: map_shows_def)

lemma entry_showsE:
  assumes "entry_shows w v c d k e" and "map_option em_extent (bget (extents c) e) = Some x"
  obtains bs where "x_id x = e" "x_logical_offset x = k" "length bs \<le> cg_extent_bytes (ev_cfg w)" "extent_held w v x bs"
    "\<And>i. i < cg_extent_bytes (ev_cfg w) \<Longrightarrow> byte_of d (k + i) = byte_of bs i" "x_len x = length bs"
  using assms by (auto simp: entry_shows_def extent_held_def extent_of_def)

text \<open>The array stays when every entry keeps its place and its bytes.\<close>

lemma map_shows_frame:
  assumes "map_shows w v c m d" and "\<And>k e. bget m k = Some e \<Longrightarrow> entry_shows w v c d k e \<Longrightarrow> entry_shows w v' c' d k e"
  shows "map_shows w v' c' m d"
  using assms by (simp add: map_shows_def)

lemma entry_shows_frame:
  assumes "entry_shows w v c d k e"
    and "\<And>x bs. map_option em_extent (bget (extents c) e) = Some x \<Longrightarrow> extent_held w v x bs \<Longrightarrow>
      \<exists>x'. map_option em_extent (bget (extents c') e) = Some x' \<and> x_id x' = x_id x \<and> x_logical_offset x' = x_logical_offset x
        \<and> extent_held w v' x' bs"
  shows "entry_shows w v' c' d k e"
  using assms unfolding entry_shows_def by metis

lemma map_shows_same:
  assumes "map_shows w v c m d" and "\<And>k e. bget m k = Some e \<Longrightarrow> map_option em_extent (bget (extents c') e) = map_option em_extent (bget (extents c) e)"
    and "grows_to (live_bytes (extents c)) v v'"
  shows "map_shows w v' c' m d"
proof (rule map_shows_frame [OF assms(1)])
  fix k e assume e: "bget m k = Some e" "entry_shows w v c d k e"
  show "entry_shows w v' c' d k e"
  proof (rule entry_shows_frame [OF e(2)])
    fix x bs assume x: "map_option em_extent (bget (extents c) e) = Some x" "extent_held w v x bs"
    then have "extent_bytes x \<subseteq> live_bytes (extents c)" by (auto simp: live_bytes_def)
    then show "\<exists>x'. map_option em_extent (bget (extents c') e) = Some x' \<and> x_id x' = x_id x \<and> x_logical_offset x' = x_logical_offset x \<and> extent_held w v' x' bs"
      using x assms(2) [OF e(1)] extent_held_grows [OF x(2) assms(3)] by auto
  qed
qed

section \<open>Reading a range\<close>

text \<open>The parts wanted of a range, and the bytes copied from them.\<close>

definition part_right :: "nat \<Rightarrow> nat \<Rightarrow> byte list \<Rightarrow> extent_ref \<times> nat \<times> nat \<Rightarrow> byte list \<Rightarrow> bool" where
  "part_right off ln d p bs \<longleftrightarrow> (case p of (x, a, b) \<Rightarrow> off \<le> a \<and> a < b \<and> b \<le> off + ln \<and> x_logical_offset x \<le> a
     \<and> b \<le> x_logical_offset x + length bs \<and> (\<forall>p. a \<le> p \<longrightarrow> p < b \<longrightarrow> bs ! (p - x_logical_offset x) = byte_of d p))"

definition part_covers :: "(extent_ref \<times> nat \<times> nat) list \<Rightarrow> nat \<Rightarrow> bool" where
  "part_covers ps p \<longleftrightarrow> (\<exists>(x, a, b) \<in> set ps. a \<le> p \<and> p < b)"

lemma part_covers_append: "part_covers (ps @ qs) p \<longleftrightarrow> part_covers ps p \<or> part_covers qs p"
  by (auto simp: part_covers_def)

lemma copy_bufs_spec:
  assumes "length bufs = length ps" and "\<And>i bs. i < length ps \<Longrightarrow> bufs ! i = Inr bs \<Longrightarrow> part_right off ln d (ps ! i) bs"
    and "length out = ln" and "copy_bufs off (zip ps bufs) out = Inr out'"
  shows "length out' = ln \<and> (\<forall>i < ln. out' ! i = (if part_covers ps (off + i) then byte_of d (off + i) else out ! i))"
  using assms
proof (induction ps arbitrary: bufs out)
  case (Cons p ps)
  obtain x a b where p: "p = (x, a, b)" by (cases p)
  obtain b0 bufs' where bufs: "bufs = b0 # bufs'" using Cons.prems(1) by (cases bufs) auto
  let ?lo = "x_logical_offset x"
  obtain bs where bs: "b0 = Inr bs" "\<not> length bs < b - ?lo"
    and rest: "copy_bufs off (zip ps bufs') (put_slice (a - off) (drop (a - ?lo) (take (b - ?lo) bs)) out) = Inr out'"
    using Cons.prems(4) by (auto simp: p bufs rbind_eq_Inr Let_def split: if_splits)
  have pr: "off \<le> a" "a < b" "b \<le> off + ln" "?lo \<le> a" "b \<le> ?lo + length bs" "\<And>q. a \<le> q \<Longrightarrow> q < b \<Longrightarrow> bs ! (q - ?lo) = byte_of d q"
    using Cons.prems(2) [of 0 bs] bs by (auto simp: part_right_def p bufs)
  define part where "part = drop (a - ?lo) (take (b - ?lo) bs)"
  define out1 where "out1 = put_slice (a - off) part out"
  have lp: "length part = b - a" using pr by (auto simp: part_def)
  have fit: "a - off + length part \<le> length out" using lp pr Cons.prems(3) by simp
  have l1: "length out1 = ln" using put_slice_length [OF fit] Cons.prems(3) by (simp add: out1_def)
  have nth1: "out1 ! i = (if a \<le> off + i \<and> off + i < b then byte_of d (off + i) else out ! i)" if "i < ln" for i
  proof -
    have "part ! (i - (a - off)) = byte_of d (off + i)" if "a \<le> off + i" "off + i < b"
      using that pr lp by (auto simp: part_def add.commute)
    then show ?thesis using put_slice_nth [OF fit, of i] that Cons.prems(3) lp pr by (auto simp: out1_def)
  qed
  have "length out' = ln \<and> (\<forall>i < ln. out' ! i = (if part_covers ps (off + i) then byte_of d (off + i) else out1 ! i))"
    by (rule Cons.IH [of bufs']) (use Cons.prems(1) Cons.prems(2) [of "Suc _"] bufs l1 rest in \<open>auto simp: part_def out1_def\<close>)
  then show ?case using nth1 by (auto simp: part_covers_def p)
qed (simp add: part_covers_def)

lemma list_all2_members: "list_all2 P xs ys \<Longrightarrow> (\<forall>y \<in> set ys. \<exists>x \<in> set xs. P x y) \<and> (\<forall>x \<in> set xs. \<exists>y \<in> set ys. P x y)"
  by (induction rule: list_all2_induct) auto

lemma collect_ok_Inr: "collect_ok rs = Inr xs \<longleftrightarrow> rs = map Inr xs"
  by (induction rs arbitrary: xs rule: collect_ok.induct) (auto simp: rbind_eq_Inr)

lemma set_wanted_parts:
  "set (wanted_parts off stop xs) = {(x, a, b) | x a b. x \<in> set xs \<and> a = max (x_logical_offset x) off
     \<and> b = min (x_logical_offset x + x_len x) stop \<and> a < b}"
  unfolding wanted_parts_def Let_def List.map_filter_def by (auto split: if_splits intro!: image_eqI)

text \<open>The extents of a range are those of its cells.\<close>

lemma extents_in_spec:
  assumes "extents_in c m g sz off ln = Inr xs"
  shows "off + ln \<le> sz \<and> (\<forall>x \<in> set xs. \<exists>k e. bget m k = Some e \<and> map_option em_extent (bget (extents c) e) = Some x)
    \<and> (\<forall>k e. bget m k = Some e \<longrightarrow> off - off mod g \<le> k \<longrightarrow> k < off + ln \<longrightarrow> ln \<noteq> 0 \<longrightarrow>
         (\<exists>x \<in> set xs. map_option em_extent (bget (extents c) e) = Some x))"
proof -
  have b: "off + ln \<le> sz" "checked_add off ln = Some (off + ln)"
    using assms by (auto simp: extents_in_def rbind_eq_Inr ok_or_def checked_add_def split: option.splits if_splits)
  show ?thesis
  proof (cases "ln = 0")
    case True
    then show ?thesis using assms b by (simp add: extents_in_def rbind_def ok_or_def)
  next
    case False
    let ?es = "bvals (bbelow (off + ln) (bfrom (off - off mod g) m))"
    have "map (\<lambda>e. ok_or (map_option em_extent (bget (extents c) e)) NoSuch) ?es = map Inr xs"
      using assms b False unfolding extents_in_def by (simp add: rbind_def ok_or_def collect_ok_Inr split: if_splits)
    then have "list_all2 (\<lambda>e x. map_option em_extent (bget (extents c) e) = Some x) ?es xs"
      unfolding list_eq_iff_nth_eq list_all2_conv_all_nth by (auto simp: ok_or_def split: option.splits)
    then have "\<forall>x \<in> set xs. \<exists>e \<in> set ?es. map_option em_extent (bget (extents c) e) = Some x"
        "\<forall>e \<in> set ?es. \<exists>x \<in> set xs. map_option em_extent (bget (extents c) e) = Some x"
      using list_all2_members by blast+
    moreover have "e \<in> set ?es \<longleftrightarrow> (\<exists>k. bget m k = Some e \<and> off - off mod g \<le> k \<and> k < off + ln)" for e
      by (auto simp: set_bvals split: if_splits)
    ultimately show ?thesis using b(1) by blast
  qed
qed

context block_store
begin

text \<open>Each wanted part is of an extent that holds the bytes of the array.\<close>

definition part_held :: "'d env \<Rightarrow> 'd engine \<Rightarrow> nat \<Rightarrow> nat \<Rightarrow> byte list \<Rightarrow> extent_ref \<times> nat \<times> nat \<Rightarrow> bool" where
  "part_held w eng off ln d p \<longleftrightarrow> (\<exists>bs. extent_held w (view eng) (fst p) bs \<and> part_right off ln d p bs
     \<and> map_option em_extent (bget (extents (en_catalog eng)) (x_id (fst p))) = Some (fst p))"

lemma part_held_still: "still eng eng' \<Longrightarrow> part_held w eng off ln d p \<Longrightarrow> part_held w eng' off ln d p"
  by (simp add: part_held_def still_def steady_def)

lemma read_batch_spec:
  assumes "nodes_ok eng" and "ev_ops w = ops" and "\<forall>p \<in> set ps. part_held w eng off ln d p"
    and "read_batch w now (map fst ps) eng = (bufs, eng')"
  shows "still eng eng' \<and> length bufs = length ps \<and> (\<forall>i bs. i < length ps \<longrightarrow> bufs ! i = Inr bs \<longrightarrow> part_right off ln d (ps ! i) bs)"
  using assms
proof (induction ps arbitrary: eng bufs)
  case (Cons p ps)
  obtain b e where b: "read_extent w now (fst p) eng = (b, e)" by (rule prod.exhaust)
  obtain bs e' where rest: "read_batch w now (map fst ps) e = (bs, e')" by (rule prod.exhaust)
  have out: "bufs = b # bs" "eng' = e'" using Cons.prems(4) b rest by simp_all
  note rest = rest [folded out(2)]
  obtain x where x: "extent_held w (view eng) (fst p) x" "part_right off ln d p x"
      "map_option em_extent (bget (extents (en_catalog eng)) (x_id (fst p))) = Some (fst p)"
    using Cons.prems(3) by (auto simp: part_held_def)
  have r: "still eng e" "\<And>out. b = Inr out \<Longrightarrow> out = x" using read_extent_right [OF Cons.prems(1,2) x(1,3) b] by auto
  have "still e eng' \<and> length bs = length ps \<and> (\<forall>i buf. i < length ps \<longrightarrow> bs ! i = Inr buf \<longrightarrow> part_right off ln d (ps ! i) buf)"
    by (rule Cons.IH [OF still_nodes [OF r(1) Cons.prems(1)] Cons.prems(2) _ rest]) (use Cons.prems(3) part_held_still [OF r(1)] in auto)
  then show ?case using still_trans [OF r(1)] r(2) x(2) by (auto simp: out(1) nth_Cons split: nat.split)
qed simp

lemma read_windows_spec:
  assumes "nodes_ok eng" and "ev_ops w = ops" and "\<forall>p \<in> set (concat wins). part_held w eng off ln d p" and "length out = ln"
    and "read_windows w now off wins out eng = (res, eng')"
  shows "still eng eng' \<and> (\<forall>out'. res = Inr out' \<longrightarrow> length out' = ln
    \<and> (\<forall>i < ln. out' ! i = (if part_covers (concat wins) (off + i) then byte_of d (off + i) else out ! i)))"
  using assms
proof (induction wins arbitrary: eng out)
  case Nil
  then show ?case by (auto simp: part_covers_def)
next
  case (Cons ps wins)
  obtain bufs e where b: "read_batch w now (map fst ps) eng = (bufs, e)" by (rule prod.exhaust)
  have r: "still eng e" "length bufs = length ps" "\<And>i bs. i < length ps \<Longrightarrow> bufs ! i = Inr bs \<Longrightarrow> part_right off ln d (ps ! i) bs"
    using read_batch_spec [OF Cons.prems(1,2) _ b, of off ln d] Cons.prems(3) by auto
  show ?case
  proof (cases "copy_bufs off (zip ps bufs) out")
    case (Inl x)
    then show ?thesis using Cons.prems(5) b r(1) by auto
  next
    case (Inr out1)
    note o = copy_bufs_spec [OF r(2,3) Cons.prems(4) Inr]
    have rest: "read_windows w now off wins out1 e = (res, eng')" using Cons.prems(5) b Inr by simp
    have "still e eng' \<and> (\<forall>out'. res = Inr out' \<longrightarrow> length out' = ln
        \<and> (\<forall>i < ln. out' ! i = (if part_covers (concat wins) (off + i) then byte_of d (off + i) else out1 ! i)))"
      by (rule Cons.IH [OF still_nodes [OF r(1) Cons.prems(1)] Cons.prems(2) _ _ rest])
        (use Cons.prems(3) part_held_still [OF r(1)] o in auto)
    then show ?thesis using still_trans [OF r(1)] o by (auto simp: part_covers_append)
  qed
qed

lemma read_map_spec:
  assumes ok: "nodes_ok eng" "ev_ops w = ops" "env_ok w" and m: "map_shows w (view eng) (en_catalog eng) m d"
    and xs: "extents_in (en_catalog eng) m (cg_extent_bytes (ev_cfg w)) (length d) off ln = Inr xs"
    and call: "read_range w now xs off ln eng = (res, eng')"
  shows "still eng eng' \<and> (\<forall>out. res = Inr out \<longrightarrow> out = take ln (drop off d))"
proof -
  let ?g = "cg_extent_bytes (ev_cfg w)" and ?ps = "wanted_parts off (off + ln) xs"
  note X = extents_in_spec [OF xs]
  have g: "0 < ?g" using ok(3) by (simp add: env_ok_def)
  have cc: "concat (chunks READ_PARALLELISM ?ps) = ?ps" by (rule concat_chunks) (simp add: READ_PARALLELISM_def)
  have held: "part_held w eng off ln d p" if p: "p \<in> set ?ps" for p
  proof -
    obtain x a b where x: "p = (x, a, b)" "x \<in> set xs" "a = max (x_logical_offset x) off" "b = min (x_logical_offset x + x_len x) (off + ln)" "a < b"
      using p unfolding set_wanted_parts by auto
    then obtain k e where e: "bget m k = Some e" "map_option em_extent (bget (extents (en_catalog eng)) e) = Some x" using X by blast
    obtain bs where bs: "x_id x = e" "x_logical_offset x = k" "length bs \<le> ?g" "extent_held w (view eng) x bs"
        "\<And>i. i < ?g \<Longrightarrow> byte_of d (k + i) = byte_of bs i" and len: "x_len x = length bs"
      by (rule entry_showsE [OF map_showsD(2) [OF m e(1)] e(2)]) (rule that)
    have "bs ! (q - k) = byte_of d q" if "k \<le> q" "q < k + length bs" for q
    proof -
      have "q - k < length bs" "q - k < ?g" using that bs(3) by linarith+
      then show ?thesis using bs(5) [of "q - k"] that(1) by (simp add: byte_of_def [of bs])
    qed
    then have "part_right off ln d p bs" using x bs(2) len by (auto simp: part_right_def)
    then show ?thesis using bs e(2) x(1) by (auto simp: part_held_def)
  qed
  have zero: "byte_of d (off + i) = 0" if i: "i < ln" "\<not> part_covers ?ps (off + i)" for i
  proof (cases "bget m (off + i - (off + i) mod ?g)")
    case None
    then show ?thesis using m by (simp add: map_shows_def)
  next
    case (Some e)
    define k where "k = off + i - (off + i) mod ?g"
    have km: "off - off mod ?g \<le> k" using div_le_mono [of off "off + i" ?g] by (simp add: k_def minus_mod_eq_mult_div)
    have kb: "k \<le> off + i" "off + i < k + ?g" using g mod_less_divisor [of ?g "off + i"] by (auto simp: k_def simp del: mod_less_divisor)
    then obtain x where x: "x \<in> set xs" "map_option em_extent (bget (extents (en_catalog eng)) e) = Some x"
      using X Some km i(1) k_def by fastforce
    obtain bs where bs: "x_id x = e" "x_logical_offset x = k" "length bs \<le> ?g" "extent_held w (view eng) x bs"
        "\<And>i. i < ?g \<Longrightarrow> byte_of d (k + i) = byte_of bs i" and len: "x_len x = length bs"
      by (rule entry_showsE [OF map_showsD(2) [OF m Some, folded k_def] x(2)]) (rule that)
    have "\<not> off + i < k + length bs"
      using i x(1) kb(1) bs(2) len unfolding part_covers_def set_wanted_parts by auto
    then have "off + i - k < ?g" "\<not> off + i - k < length bs" using kb by linarith+
    then show ?thesis using bs(5) [of "off + i - k"] kb(1) by (simp add: byte_of_def [of bs])
  qed
  have R: "still eng eng' \<and> (\<forall>out. res = Inr out \<longrightarrow> length out = ln
      \<and> (\<forall>i < ln. out ! i = (if part_covers (concat (chunks READ_PARALLELISM ?ps)) (off + i) then byte_of d (off + i) else replicate ln 0 ! i)))"
    by (rule read_windows_spec [OF ok(1,2) _ _ call [unfolded read_range_def]]) (use held cc in auto)
  have "out = take ln (drop off d)" if "res = Inr out" for out
  proof (rule nth_equalityI)
    have len: "length out = ln" and fit: "off + ln \<le> length d" using R X that by auto
    then show "length out = length (take ln (drop off d))" by simp
    fix i assume i: "i < length out"
    then have "out ! i = byte_of d (off + i)" using R that len zero [of i] unfolding cc by auto
    then show "out ! i = take ln (drop off d) ! i" using i len fit by (simp add: byte_of_def)
  qed
  then show ?thesis using R by blast
qed

end

end
