(* ===== verification/EngineDisks.thy ===== *)
theory EngineDisks
  imports EngineVolumes
begin

text \<open>
  The engine as a set of disks: named volumes and snapshots, each an array of bytes of a fixed size.
  Every operation of the engine either changes the disks as its specification says or leaves them.
\<close>

section \<open>A write installed in a map\<close>

lemma put_extents_other: "k \<notin> set (map x_logical_offset xs) \<Longrightarrow> bget (put_extents xs m) k = bget m k"
  unfolding put_extents_def by (induction xs arbitrary: m) auto

lemma put_extents_new:
  "distinct (map x_logical_offset xs) \<Longrightarrow> x \<in> set xs \<Longrightarrow> bget (put_extents xs m) (x_logical_offset x) = Some (x_id x)"
proof (induction xs arbitrary: m)
  case (Cons y xs)
  have "bget (put_extents xs (bput (x_logical_offset y) (x_id y) m)) (x_logical_offset x) = Some (x_id x)"
    using Cons put_extents_other [of "x_logical_offset y" xs "bput (x_logical_offset y) (x_id y) m"] by auto
  then show ?case by (simp add: put_extents_def)
qed simp

text \<open>The bytes before the write, cell by cell.\<close>

definition old_cells :: "nat \<Rightarrow> byte list \<Rightarrow> (nat \<Rightarrow> byte list) \<Rightarrow> bool" where
  "old_cells g d old \<longleftrightarrow> (\<forall>k. k mod g = 0 \<longrightarrow> (old k = [] \<or> k + length (old k) \<le> length d) \<and> (\<forall>i < g. byte_of (old k) i = byte_of d (k + i)))"

lemma map_shows_old:
  assumes m: "map_shows w v c m d" and g: "0 < cg_extent_bytes (ev_cfg w)"
  obtains old where "old_cells (cg_extent_bytes (ev_cfg w)) d old"
    "\<And>k. bget m k = None \<Longrightarrow> old k = []"
    "\<And>k e. bget m k = Some e \<Longrightarrow> \<exists>x. map_option em_extent (bget (extents c) e) = Some x \<and> x_id x = e
       \<and> length (old k) \<le> cg_extent_bytes (ev_cfg w) \<and> extent_held w v x (old k)"
proof -
  let ?g = "cg_extent_bytes (ev_cfg w)"
  let ?P = "\<lambda>k e bs. \<exists>x. map_option em_extent (bget (extents c) e) = Some x \<and> x_id x = e \<and> length bs \<le> ?g \<and> k + length bs \<le> length d
      \<and> extent_held w v x bs \<and> (\<forall>i < ?g. byte_of d (k + i) = byte_of bs i)"
  define Q where "Q k bs \<longleftrightarrow> (case bget m k of None \<Rightarrow> bs = [] | Some e \<Rightarrow> ?P k e bs)" for k bs
  have "\<forall>k. \<exists>bs. Q k bs"
  proof
    fix k
    show "\<exists>bs. Q k bs" using map_showsD(2) [OF m, of k] by (cases "bget m k") (auto simp: entry_shows_def Q_def)
  qed
  then obtain old where old: "\<And>k. Q k (old k)" using choice [of Q] by blast
  have some: "?P k e (old k)" if "bget m k = Some e" for k e using old [of k] that by (simp add: Q_def)
  have empty: "old k = []" if "bget m k = None" for k using old [of k] that by (simp add: Q_def)
  have none: "byte_of d (k + i) = 0" if "bget m k = None" "k mod ?g = 0" "i < ?g" for k i
    using m that same_cell [of k ?g "k + i"] by (simp add: map_shows_def)
  show thesis
  proof (rule that [of old])
    have "(old k = [] \<or> k + length (old k) \<le> length d) \<and> (\<forall>i < ?g. byte_of (old k) i = byte_of d (k + i))" if k: "k mod ?g = 0" for k
    proof (cases "bget m k")
      case None
      then show ?thesis using none [OF None k] empty by (simp add: byte_of_def [of "[]"])
    next
      case (Some e)
      then show ?thesis using some [OF Some] by auto
    qed
    then show "old_cells ?g d old" by (simp add: old_cells_def)
    show "\<exists>x. map_option em_extent (bget (extents c) e) = Some x \<and> x_id x = e \<and> length (old k) \<le> ?g \<and> extent_held w v x (old k)"
      if "bget m k = Some e" for k e
      using some [OF that] by blast
  qed (rule empty)
qed

text \<open>The array after the write.\<close>

definition overwrite :: "nat \<Rightarrow> byte list \<Rightarrow> byte list \<Rightarrow> byte list" where
  "overwrite off data d = take off d @ data @ drop (off + length data) d"

lemma overwrite_byte:
  assumes "off + length data \<le> length d"
  shows "length (overwrite off data d) = length d"
    "byte_of (overwrite off data d) p = (if off \<le> p \<and> p < off + length data then data ! (p - off) else byte_of d p)"
  using assms put_slice_length [OF assms] put_slice_nth [OF assms, of p] by (auto simp: overwrite_def put_slice_def byte_of_def)

lemma coverD:
  assumes "cells_cover g off data old cells" and "(k, bs) \<in> set cells"
  shows "k mod g = 0" "k + length bs \<le> max (off + length data) (k + length (old k))" "k < off + length data" "length bs \<le> g"
    "i < g \<Longrightarrow> byte_of bs i = (if off \<le> k + i \<and> k + i < off + length data then data ! (k + i - off) else byte_of (old k) i)"
proof -
  have "cell_right g off data old (k, bs)" using assms by (simp add: cells_cover_def)
  then show "k mod g = 0" "k + length bs \<le> max (off + length data) (k + length (old k))" "k < off + length data" "length bs \<le> g"
    "i < g \<Longrightarrow> byte_of bs i = (if off \<le> k + i \<and> k + i < off + length data then data ! (k + i - off) else byte_of (old k) i)"
    by (simp_all add: cell_right_def)
qed

lemma cover_length:
  assumes "cells_cover g off data old cells" and "old_cells g d old" and "off + length data \<le> length d" and "(k, bs) \<in> set cells"
  shows "k + length bs \<le> length d"
proof -
  have "old k = [] \<or> k + length (old k) \<le> length d" using assms(2) coverD(1) [OF assms(1,4)] by (simp add: old_cells_def)
  then show ?thesis using coverD(2,3) [OF assms(1,4)] assms(3) by auto
qed

lemma cover_bytes:
  assumes "cells_cover g off data old cells" and "old_cells g d old" and "off + length data \<le> length d" and "(k, bs) \<in> set cells" and "i < g"
  shows "byte_of (overwrite off data d) (k + i) = byte_of bs i"
proof -
  have "byte_of (old k) i = byte_of d (k + i)" using assms(2,5) coverD(1) [OF assms(1,4)] by (simp add: old_cells_def)
  then show ?thesis using coverD(5) [OF assms(1,4,5)] overwrite_byte(2) [OF assms(3)] by simp
qed

lemma outside_cover:
  assumes "cells_cover g off data old cells" and "off + length data \<le> length d" and "p - p mod g \<notin> fst ` set cells"
  shows "byte_of (overwrite off data d) p = byte_of d p"
  using assms unfolding overwrite_byte(2) [OF assms(2)] cells_cover_def by auto

lemma written_shows:
  assumes m: "map_shows w v c m d" and g: "g = cg_extent_bytes (ev_cfg w)" "0 < g"
    and cov: "cells_cover g off data old cells" "old_cells g d old" "off + length data \<le> length d"
    and xs: "map x_logical_offset xs = map fst cells" "list_all2 (\<lambda>x p. extent_held w v' x (snd p)) xs cells"
    and new: "\<And>x. x \<in> set xs \<Longrightarrow> map_option em_extent (bget (extents c') (x_id x)) = Some x"
    and kept: "\<And>k e. bget m k = Some e \<Longrightarrow> entry_shows w v c d k e \<Longrightarrow> entry_shows w v' c' d k e"
  shows "map_shows w v' c' (put_extents xs m) (overwrite off data d)"
proof -
  let ?d = "overwrite off data d"
  have dist: "distinct (map x_logical_offset xs)"
    unfolding xs(1) using cov(1) by (simp add: cells_cover_def strict_sorted_iff)
  have keys: "set (map x_logical_offset xs) = fst ` set cells" unfolding xs(1) by simp
  have at: "k mod g = 0 \<and> entry_shows w v' c' ?d k e" if "bget (put_extents xs m) k = Some e" for k e
  proof (cases "k \<in> fst ` set cells")
    case True
    then have "k \<in> set (map x_logical_offset xs)" using keys by simp
    then obtain i where i: "i < length xs" "x_logical_offset (xs ! i) = k" unfolding in_set_conv_nth by auto
    obtain bs where p: "cells ! i = (k, bs)" "i < length cells"
      using i arg_cong [OF xs(1), of "\<lambda>l. l ! i"] arg_cong [OF xs(1), of length] by (cases "cells ! i") auto
    then have mem: "(k, bs) \<in> set cells" by (metis nth_mem)
    have e: "e = x_id (xs ! i)" using that put_extents_new [OF dist, of "xs ! i" m] i by simp
    have held: "extent_held w v' (xs ! i) bs" using list_all2_nthD [OF xs(2) i(1)] p(1) by simp
    have "entry_shows w v' c' ?d k e"
      unfolding entry_shows_def using i p cover_length [OF cov mem] cover_bytes [OF cov mem] new [of "xs ! i"] e held
        coverD(4) [OF cov(1) mem] overwrite_byte(1) [OF cov(3)] g(1)
      by (intro exI [of _ "xs ! i"] exI [of _ bs]) simp
    then show ?thesis using coverD(1) [OF cov(1) mem] by simp
  next
    case False
    then have e: "bget m k = Some e" using that put_extents_other keys by metis
    have k: "k mod g = 0" using map_showsD(1) [OF m e] g(1) by simp
    have "byte_of ?d (k + i) = byte_of d (k + i)" if "i < g" for i
      using outside_cover [OF cov(1,3)] same_cell [OF k, of "k + i"] False that by simp
    then show ?thesis using k kept [OF e map_showsD(2) [OF m e]] overwrite_byte(1) [OF cov(3)] g(1) by (auto simp: entry_shows_def)
  qed
  have "byte_of ?d p = 0" if none: "bget (put_extents xs m) (p - p mod g) = None" for p
  proof -
    have out: "p - p mod g \<notin> set (map x_logical_offset xs)"
      using none put_extents_new [OF dist, of _ m] by auto
    then have "bget m (p - p mod g) = None" using none put_extents_other by simp
    then show ?thesis using outside_cover [OF cov(1,3)] out keys m g(1) by (simp add: map_shows_def)
  qed
  then show ?thesis using at g(1) by (simp add: map_shows_def)
qed

section \<open>Disks\<close>

record disk_state =
  ds_volumes :: "string \<rightharpoonup> string \<times> byte list"
  ds_snapshots :: "string \<rightharpoonup> (string \<times> string) \<times> byte list"

datatype disk_request =
    CreateDisk string string nat
  | DeleteDisk string
  | ResizeDisk string nat
  | WriteDisk string nat "byte list"
  | ReadDisk string nat nat
  | TakeSnap string string string
  | DeleteSnap string
  | ReadSnap string nat nat
  | CloneSnap string string string "nat option"
  | CollectGarbage
  | RepairData
  | SaveCheckpoint

datatype disk_answer = Ack | Bytes "byte list"

definition zero_fill :: "nat \<Rightarrow> byte list \<Rightarrow> byte list" where
  "zero_fill n d = d @ replicate (n - length d) 0"

definition disk_slice :: "nat \<Rightarrow> nat \<Rightarrow> byte list \<Rightarrow> disk_answer option" where
  "disk_slice off ln d = (if off + ln \<le> length d then Some (Bytes (take ln (drop off d))) else None)"

text \<open>What a request does to the disks; \<open>None\<close> when it must be refused.\<close>

fun disk_step :: "disk_request \<Rightarrow> disk_state \<Rightarrow> (disk_state \<times> disk_answer) option" where
  "disk_step (CreateDisk vid name n) s = (if n = 0 then None else case ds_volumes s vid of
       None \<Rightarrow> Some (s\<lparr>ds_volumes := (ds_volumes s)(vid \<mapsto> (name, replicate n 0))\<rparr>, Ack)
     | Some (name', d) \<Rightarrow> if name' = name \<and> length d = n then Some (s, Ack) else None)"
| "disk_step (DeleteDisk vid) s =
     map_option (\<lambda>_. (s\<lparr>ds_volumes := (ds_volumes s)(vid := None)\<rparr>, Ack)) (ds_volumes s vid)"
| "disk_step (ResizeDisk vid n) s = (case ds_volumes s vid of
       Some (name, d) \<Rightarrow> if length d \<le> n then Some (s\<lparr>ds_volumes := (ds_volumes s)(vid \<mapsto> (name, zero_fill n d))\<rparr>, Ack) else None
     | None \<Rightarrow> None)"
| "disk_step (WriteDisk vid off data) s = (if data = [] then Some (s, Ack) else case ds_volumes s vid of
       Some (name, d) \<Rightarrow>
         if off + length data \<le> length d then Some (s\<lparr>ds_volumes := (ds_volumes s)(vid \<mapsto> (name, overwrite off data d))\<rparr>, Ack) else None
     | None \<Rightarrow> None)"
| "disk_step (ReadDisk vid off ln) s = (case ds_volumes s vid of
       Some (_, d) \<Rightarrow> map_option (Pair s) (disk_slice off ln d)
     | None \<Rightarrow> None)"
| "disk_step (TakeSnap sid vid name) s = (case ds_snapshots s sid of
       Some (from, _) \<Rightarrow> if from = (vid, name) then Some (s, Ack) else None
     | None \<Rightarrow> map_option (\<lambda>(_, d). (s\<lparr>ds_snapshots := (ds_snapshots s)(sid \<mapsto> ((vid, name), d))\<rparr>, Ack)) (ds_volumes s vid))"
| "disk_step (DeleteSnap sid) s =
     map_option (\<lambda>_. (s\<lparr>ds_snapshots := (ds_snapshots s)(sid := None)\<rparr>, Ack)) (ds_snapshots s sid)"
| "disk_step (ReadSnap sid off ln) s = (case ds_snapshots s sid of
       Some (_, d) \<Rightarrow> map_option (Pair s) (disk_slice off ln d)
     | None \<Rightarrow> None)"
| "disk_step (CloneSnap vid sid name n) s = (case ds_volumes s vid of
       Some (name', _) \<Rightarrow> if name' = name then Some (s, Ack) else None
     | None \<Rightarrow> (case ds_snapshots s sid of
           Some (_, d) \<Rightarrow> (let sz = (case n of None \<Rightarrow> length d | Some b \<Rightarrow> b)
             in if length d \<le> sz then Some (s\<lparr>ds_volumes := (ds_volumes s)(vid \<mapsto> (name, zero_fill sz d))\<rparr>, Ack) else None)
         | None \<Rightarrow> None))"
| "disk_step _ s = Some (s, Ack)"

text \<open>The catalog and the devices show the disks. Sizes stay below the largest \<open>u64\<close>.\<close>

definition array_ok :: "byte list \<Rightarrow> bool" where
  "array_ok d \<longleftrightarrow> d \<noteq> [] \<and> length d < u64_max"

definition volume_shows :: "'d env \<Rightarrow> device_view \<Rightarrow> catalog \<Rightarrow> volume_meta \<Rightarrow> string \<times> byte list \<Rightarrow> bool" where
  "volume_shows w v c m p \<longleftrightarrow> fst p = v_name m \<and> v_size_bytes m = length (snd p) \<and> array_ok (snd p) \<and> map_shows w v c (v_extents m) (snd p)"

definition snapshot_shows :: "'d env \<Rightarrow> device_view \<Rightarrow> catalog \<Rightarrow> snapshot_meta \<Rightarrow> (string \<times> string) \<times> byte list \<Rightarrow> bool" where
  "snapshot_shows w v c m p \<longleftrightarrow> fst p = (sn_volume_id m, sn_name m) \<and> sn_size_bytes m = length (snd p) \<and> array_ok (snd p)
     \<and> map_shows w v c (sn_extents m) (snd p)"

definition disks_shown :: "'d env \<Rightarrow> device_view \<Rightarrow> catalog \<Rightarrow> disk_state \<Rightarrow> bool" where
  "disks_shown w v c s \<longleftrightarrow> (\<forall>vid. rel_option (volume_shows w v c) (bget (volumes c) vid) (ds_volumes s vid))
     \<and> (\<forall>sid. rel_option (snapshot_shows w v c) (bget (snapshots c) sid) (ds_snapshots s sid))"

lemma disks_shownD:
  assumes "disks_shown w v c s"
  shows "bget (volumes c) vid = Some m \<Longrightarrow> \<exists>d. ds_volumes s vid = Some (v_name m, d) \<and> volume_shows w v c m (v_name m, d)"
    "bget (volumes c) vid = None \<Longrightarrow> ds_volumes s vid = None"
    "bget (snapshots c) sid = Some n \<Longrightarrow> \<exists>d. ds_snapshots s sid = Some ((sn_volume_id n, sn_name n), d)
       \<and> snapshot_shows w v c n ((sn_volume_id n, sn_name n), d)"
    "bget (snapshots c) sid = None \<Longrightarrow> ds_snapshots s sid = None"
proof -
  have v: "rel_option (volume_shows w v c) (bget (volumes c) vid) (ds_volumes s vid)"
    and n: "rel_option (snapshot_shows w v c) (bget (snapshots c) sid) (ds_snapshots s sid)"
    using assms by (auto simp: disks_shown_def)
  show "bget (volumes c) vid = Some m \<Longrightarrow> \<exists>d. ds_volumes s vid = Some (v_name m, d) \<and> volume_shows w v c m (v_name m, d)"
    "bget (volumes c) vid = None \<Longrightarrow> ds_volumes s vid = None"
    using v by (auto simp: option_rel_Some1 volume_shows_def)
  show "bget (snapshots c) sid = Some n \<Longrightarrow> \<exists>d. ds_snapshots s sid = Some ((sn_volume_id n, sn_name n), d)
       \<and> snapshot_shows w v c n ((sn_volume_id n, sn_name n), d)"
    "bget (snapshots c) sid = None \<Longrightarrow> ds_snapshots s sid = None"
    using n by (auto simp: option_rel_Some1 snapshot_shows_def)
qed

text \<open>The disks stay when the maps stay and their entries keep their bytes.\<close>

definition entries_kept :: "'d env \<Rightarrow> device_view \<Rightarrow> catalog \<Rightarrow> device_view \<Rightarrow> catalog \<Rightarrow> bool" where
  "entries_kept w v c v' c' \<longleftrightarrow> (\<forall>m d. m \<in> v_extents ` set (bvals (volumes c)) \<union> sn_extents ` set (bvals (snapshots c)) \<longrightarrow>
     map_shows w v c m d \<longrightarrow> map_shows w v' c' m d)"

lemma keeps_entries: "keeps c c' \<Longrightarrow> entries_kept w v c v c'"
  unfolding entries_kept_def keeps_def
  by (auto simp: same_extents_def intro: map_shows_same [where v = v and v' = v])

lemma grows_entries: "grows_to (live_bytes (extents c)) v v' \<Longrightarrow> entries_kept w v c v' c"
  unfolding entries_kept_def by (auto intro: map_shows_same [where v = v])

lemma volume_kept:
  "entries_kept w v c v' c' \<Longrightarrow> bget (volumes c) vid = Some m \<Longrightarrow> volume_shows w v c m p \<Longrightarrow> volume_shows w v' c' m p"
  unfolding entries_kept_def volume_shows_def set_bvals by blast

lemma snapshot_kept:
  "entries_kept w v c v' c' \<Longrightarrow> bget (snapshots c) sid = Some m \<Longrightarrow> snapshot_shows w v c m p \<Longrightarrow> snapshot_shows w v' c' m p"
  unfolding entries_kept_def snapshot_shows_def set_bvals by blast

lemma disks_rows:
  assumes "disks_shown w v c s" and "entries_kept w v c v' c'"
  shows "rel_option (volume_shows w v' c') (bget (volumes c) vid) (ds_volumes s vid)"
    "rel_option (snapshot_shows w v' c') (bget (snapshots c) sid) (ds_snapshots s sid)"
  using disks_shownD(1,2) [OF assms(1), of vid] volume_kept [OF assms(2), of vid]
    disks_shownD(3,4) [OF assms(1), of sid] snapshot_kept [OF assms(2), of sid]
  by (cases "bget (volumes c) vid", auto) (cases "bget (snapshots c) sid", auto)

lemma disks_kept:
  assumes "disks_shown w v c s" and "entries_kept w v c v' c'" and "volumes c' = volumes c" and "snapshots c' = snapshots c"
  shows "disks_shown w v' c' s"
  using disks_rows [OF assms(1,2)] assms(3,4) by (simp add: disks_shown_def)

text \<open>One table entry changes.\<close>

lemma disks_put_volume:
  assumes "disks_shown w v c s" and "entries_kept w v c v' c'" and "volumes c' = bput vid m (volumes c)" and "snapshots c' = snapshots c"
    and "volume_shows w v' c' m p"
  shows "disks_shown w v' c' (s\<lparr>ds_volumes := (ds_volumes s)(vid \<mapsto> p)\<rparr>)"
  using disks_rows [OF assms(1,2)] assms(3-5) by (simp add: disks_shown_def)

lemma disks_del_volume:
  assumes "disks_shown w v c s" and "entries_kept w v c v' c'" and "volumes c' = bdel vid (volumes c)" and "snapshots c' = snapshots c"
  shows "disks_shown w v' c' (s\<lparr>ds_volumes := (ds_volumes s)(vid := None)\<rparr>)"
  using disks_rows [OF assms(1,2)] assms(3,4) by (simp add: disks_shown_def)

lemma disks_put_snapshot:
  assumes "disks_shown w v c s" and "entries_kept w v c v' c'" and "volumes c' = volumes c" and "snapshots c' = bput sid m (snapshots c)"
    and "snapshot_shows w v' c' m p"
  shows "disks_shown w v' c' (s\<lparr>ds_snapshots := (ds_snapshots s)(sid \<mapsto> p)\<rparr>)"
  using disks_rows [OF assms(1,2)] assms(3-5) by (simp add: disks_shown_def)

lemma disks_del_snapshot:
  assumes "disks_shown w v c s" and "entries_kept w v c v' c'" and "volumes c' = volumes c" and "snapshots c' = bdel sid (snapshots c)"
  shows "disks_shown w v' c' (s\<lparr>ds_snapshots := (ds_snapshots s)(sid := None)\<rparr>)"
  using disks_rows [OF assms(1,2)] assms(3,4) by (simp add: disks_shown_def)

end
