(* ===== verification/EngineSteps.thy ===== *)
theory EngineSteps
  imports EngineDisks
begin

text \<open>
  Every request to the engine, served on the catalog, the log and the devices: the disks change as
  the request says, or stay.
\<close>

section \<open>Commands on volumes and snapshots\<close>

lemma zero_fill_byte: "byte_of (zero_fill n d) p = byte_of d p"
  by (auto simp: byte_of_def zero_fill_def nth_append)

lemma zero_fill_length: "length d \<le> n \<Longrightarrow> length (zero_fill n d) = n"
  by (simp add: zero_fill_def)

lemma zero_fill_shows: "map_shows w v c m d \<Longrightarrow> length d \<le> n \<Longrightarrow> map_shows w v c m (zero_fill n d)"
  unfolding map_shows_def entry_shows_def zero_fill_byte by (fastforce simp: zero_fill_length)

lemma empty_shows: "map_shows w v c bempty (replicate n 0)"
  by (simp add: map_shows_def byte_of_def)

text \<open>The sizes a client may ask for.\<close>

fun request_ok :: "disk_request \<Rightarrow> bool" where
  "request_ok (CreateDisk _ _ n) \<longleftrightarrow> n < u64_max"
| "request_ok (ResizeDisk _ n) \<longleftrightarrow> n < u64_max"
| "request_ok (CloneSnap _ _ _ n) \<longleftrightarrow> (case n of None \<Rightarrow> True | Some b \<Rightarrow> b < u64_max)"
| "request_ok _ \<longleftrightarrow> True"

text \<open>A run of a command that does what the request says.\<close>

definition does :: "'d env \<Rightarrow> device_view \<Rightarrow> catalog \<Rightarrow> disk_state \<Rightarrow> disk_request \<Rightarrow> catalog \<Rightarrow> bool" where
  "does w v c s q c' \<longleftrightarrow> keeps c c' \<and> same_fs c c' \<and> (\<exists>s'. disk_step q s = Some (s', Ack) \<and> disks_shown w v c' s')"

lemma good_keeps: "good c b r \<Longrightarrow> r = (Inr gc, c') \<Longrightarrow> keeps b c'"
  by (simp add: good_def)

lemma does_nothing: "disks_shown w v c s \<Longrightarrow> disk_step q s = Some (s, Ack) \<Longrightarrow> does w v c s q c"
  by (simp add: does_def same_fs_def)

lemma create_volume_does:
  assumes "cat_inv c" and D: "disks_shown w v c s" and run: "create_volume vid name n c = (Inr gc, c')" and n: "n \<noteq> 0" "n < u64_max"
  shows "does w v c s (CreateDisk vid name n) c'"
proof (cases "bget (volumes c) vid")
  case None
  let ?m = "\<lparr>v_id = vid, v_name = name, v_size_bytes = n, v_extents = bempty\<rparr>"
  have c': "c' = c\<lparr>volumes := bput vid ?m (volumes c)\<rparr>" using run None by (simp add: create_volume_def)
  have k: "keeps c c'" using good_keeps [OF create_volume_good [OF assms(1)] run] .
  have "volume_shows w v c' ?m (name, replicate n 0)" using n by (simp add: volume_shows_def array_ok_def empty_shows)
  then have "disks_shown w v c' (s\<lparr>ds_volumes := (ds_volumes s)(vid \<mapsto> (name, replicate n 0))\<rparr>)"
    using disks_put_volume [OF D keeps_entries [OF k]] c' by simp
  then show ?thesis using k c' n disks_shownD(2) [OF D None] by (simp add: does_def same_fs_def)
next
  case (Some m)
  then have "c' = c" "v_name m = name" "v_size_bytes m = n" using run by (auto simp: create_volume_def split: if_splits)
  then show ?thesis using does_nothing [OF D] disks_shownD(1) [OF D Some] n by (auto simp: volume_shows_def)
qed

lemma resize_volume_does:
  assumes "cat_inv c" and D: "disks_shown w v c s" and run: "resize_volume vid n c = (Inr gc, c')" and n: "n < u64_max"
  shows "does w v c s (ResizeDisk vid n) c'"
proof -
  obtain m where m: "bget (volumes c) vid = Some m" "v_size_bytes m \<le> n" and c': "c' = c\<lparr>volumes := bput vid (m\<lparr>v_size_bytes := n\<rparr>) (volumes c)\<rparr>"
    using run by (auto simp: resize_volume_def attempt_def ok_or_def guard_def split: option.splits if_splits)
  obtain d where d: "ds_volumes s vid = Some (v_name m, d)" "volume_shows w v c m (v_name m, d)" using disks_shownD(1) [OF D m(1)] by blast
  have k: "keeps c c'" using good_keeps [OF resize_volume_good [OF assms(1)] run] .
  have le: "length d \<le> n" "array_ok d" using d(2) m(2) by (auto simp: volume_shows_def)
  have "map_shows w v c' (v_extents m) d"
    using volume_kept [OF keeps_entries [OF k] m(1) d(2)] by (simp add: volume_shows_def)
  then have "volume_shows w v c' (m\<lparr>v_size_bytes := n\<rparr>) (v_name m, zero_fill n d)"
    using le n zero_fill_shows zero_fill_length [OF le(1)] by (auto simp: volume_shows_def array_ok_def)
  then have "disks_shown w v c' (s\<lparr>ds_volumes := (ds_volumes s)(vid \<mapsto> (v_name m, zero_fill n d))\<rparr>)"
    using disks_put_volume [OF D keeps_entries [OF k]] c' by simp
  then show ?thesis using k c' d(1) le(1) by (simp add: does_def same_fs_def)
qed

lemma delete_volume_does:
  assumes "cat_inv c" and D: "disks_shown w v c s" and run: "delete_volume vid c = (Inr gc, c')"
  shows "does w v c s (DeleteDisk vid) c'"
proof -
  obtain m where m: "bget (volumes c) vid = Some m" and dec: "dec_refs (bvals (v_extents m)) [] (c\<lparr>volumes := bdel vid (volumes c)\<rparr>) = (Inr gc, c')"
    using run by (auto simp: delete_volume_def attempt_def ok_or_def split: option.splits)
  obtain X where c': "c' = c\<lparr>volumes := bdel vid (volumes c), extents := X\<rparr>" by (rule dec_refs_frame [OF dec])
  have k: "keeps c c'" using good_keeps [OF delete_volume_good [OF assms(1)] run] .
  show ?thesis
    using disks_del_volume [OF D keeps_entries [OF k]] c' k disks_shownD(1) [OF D m] by (auto simp: does_def same_fs_def)
qed

lemma delete_snapshot_does:
  assumes "cat_inv c" and D: "disks_shown w v c s" and run: "delete_snapshot sid c = (Inr gc, c')"
  shows "does w v c s (DeleteSnap sid) c'"
proof -
  obtain m where m: "bget (snapshots c) sid = Some m" and dec: "dec_refs (bvals (sn_extents m)) [] (c\<lparr>snapshots := bdel sid (snapshots c)\<rparr>) = (Inr gc, c')"
    using run by (auto simp: delete_snapshot_def attempt_def ok_or_def split: option.splits)
  obtain X where c': "c' = c\<lparr>snapshots := bdel sid (snapshots c), extents := X\<rparr>" by (rule dec_refs_frame [OF dec])
  have k: "keeps c c'" using good_keeps [OF delete_snapshot_good [OF assms(1)] run] .
  show ?thesis
    using disks_del_snapshot [OF D keeps_entries [OF k]] c' k disks_shownD(3) [OF D m] by (auto simp: does_def same_fs_def)
qed

lemma create_snapshot_does:
  assumes "cat_inv c" and D: "disks_shown w v c s" and run: "create_snapshot sid vid name c = (Inr gc, c')"
  shows "does w v c s (TakeSnap sid vid name) c'"
proof (cases "bget (snapshots c) sid")
  case None
  then obtain m r c1 where m: "bget (volumes c) vid = Some m" and inc: "inc_refs (bvals (v_extents m)) c = (r, c1)"
    and c1: "c' = c1\<lparr>snapshots := bput sid \<lparr>sn_id = sid, sn_volume_id = vid, sn_name = name,
                sn_size_bytes = v_size_bytes m, sn_extents = v_extents m\<rparr> (snapshots c1)\<rparr>"
    using run by (auto simp: create_snapshot_def attempt_def ok_or_def andthen_def split: option.splits prod.splits sum.splits)
  obtain X where X: "c1 = c\<lparr>extents := X\<rparr>" by (rule inc_refs_frame [OF inc])
  have k: "keeps c c'" using good_keeps [OF create_snapshot_good [OF assms(1)] run] .
  obtain d where d: "ds_volumes s vid = Some (v_name m, d)" "volume_shows w v c m (v_name m, d)" using disks_shownD(1) [OF D m] by blast
  let ?m = "\<lparr>sn_id = sid, sn_volume_id = vid, sn_name = name, sn_size_bytes = v_size_bytes m, sn_extents = v_extents m\<rparr>"
  have "snapshot_shows w v c' ?m ((vid, name), d)"
    using volume_kept [OF keeps_entries [OF k] m d(2)] by (simp add: volume_shows_def snapshot_shows_def)
  then have "disks_shown w v c' (s\<lparr>ds_snapshots := (ds_snapshots s)(sid \<mapsto> ((vid, name), d))\<rparr>)"
    using disks_put_snapshot [OF D keeps_entries [OF k]] c1 X by simp
  then show ?thesis using k c1 X d(1) disks_shownD(4) [OF D None] by (simp add: does_def same_fs_def)
next
  case (Some m)
  then have "c' = c" "sn_volume_id m = vid" "sn_name m = name" using run by (auto simp: create_snapshot_def split: if_splits)
  then show ?thesis using does_nothing [OF D] disks_shownD(3) [OF D Some] by auto
qed

lemma clone_snapshot_does:
  assumes "cat_inv c" and D: "disks_shown w v c s" and run: "clone_snapshot vid name sid n c = (Inr gc, c')"
    and ok: "request_ok (CloneSnap vid sid name n)"
  shows "does w v c s (CloneSnap vid sid name n) c'"
proof (cases "bget (volumes c) vid")
  case None
  then obtain m where m: "bget (snapshots c) sid = Some m"
    using run by (auto simp: clone_snapshot_def attempt_def ok_or_def split: option.splits)
  obtain d where d: "ds_snapshots s sid = Some ((sn_volume_id m, sn_name m), d)" "snapshot_shows w v c m ((sn_volume_id m, sn_name m), d)"
    using disks_shownD(3) [OF D m] by blast
  have sz: "sn_size_bytes m = length d" "array_ok d" using d(2) by (auto simp: snapshot_shows_def)
  define b where "b = (case n of None \<Rightarrow> length d | Some b \<Rightarrow> b)"
  let ?m = "\<lparr>v_id = vid, v_name = name, v_size_bytes = b, v_extents = sn_extents m\<rparr>"
  obtain r c1 where b: "length d \<le> b" and inc: "inc_refs (bvals (sn_extents m)) c = (r, c1)" and c1: "c' = c1\<lparr>volumes := bput vid ?m (volumes c1)\<rparr>"
    using run None m sz by (auto simp: clone_snapshot_def attempt_def ok_or_def guard_def Let_def andthen_def b_def array_ok_def
      split: prod.splits sum.splits if_splits cong: option.case_cong)
  have bm: "b < u64_max" using ok sz(2) by (auto simp: b_def array_ok_def split: option.splits)
  obtain X where X: "c1 = c\<lparr>extents := X\<rparr>" by (rule inc_refs_frame [OF inc])
  have k: "keeps c c'" using good_keeps [OF clone_snapshot_good [OF assms(1)] run] .
  have "map_shows w v c' (sn_extents m) d"
    using snapshot_kept [OF keeps_entries [OF k] m d(2)] by (simp add: snapshot_shows_def)
  then have "volume_shows w v c' ?m (name, zero_fill b d)"
    using b bm sz zero_fill_shows zero_fill_length [OF b] by (auto simp: volume_shows_def array_ok_def)
  then have "disks_shown w v c' (s\<lparr>ds_volumes := (ds_volumes s)(vid \<mapsto> (name, zero_fill b d))\<rparr>)"
    using disks_put_volume [OF D keeps_entries [OF k]] c1 X by simp
  then show ?thesis using k c1 X d(1) b disks_shownD(2) [OF D None] by (simp add: does_def same_fs_def b_def)
next
  case (Some m)
  then have "c' = c" "v_name m = name" using run by (auto simp: clone_snapshot_def split: if_splits)
  then show ?thesis using does_nothing [OF D] disks_shownD(1) [OF D Some] by auto
qed

section \<open>Serving a request\<close>

definition ack :: "('a, 'd) eng \<Rightarrow> (disk_answer, 'd) eng" where
  "ack r = andthen r (\<lambda>_ eng. (Inr Ack, eng))"

fun eng_serve :: "'d env \<Rightarrow> clock \<Rightarrow> disk_request \<Rightarrow> 'd engine \<Rightarrow> (disk_answer, 'd) eng" where
  "eng_serve w now (CreateDisk vid name n) eng = ack (eng_create_volume w vid name n eng)"
| "eng_serve w now (DeleteDisk vid) eng = ack (eng_delete_volume w vid eng)"
| "eng_serve w now (ResizeDisk vid n) eng = ack (eng_resize_volume w vid n eng)"
| "eng_serve w now (WriteDisk vid off data) eng = ack (eng_write w now vid off data eng)"
| "eng_serve w now (ReadDisk vid off ln) eng = andthen (eng_read w now vid off ln eng) (\<lambda>bs eng. (Inr (Bytes bs), eng))"
| "eng_serve w now (TakeSnap sid vid name) eng = ack (eng_create_snapshot w sid vid name eng)"
| "eng_serve w now (DeleteSnap sid) eng = ack (eng_delete_snapshot w sid eng)"
| "eng_serve w now (ReadSnap sid off ln) eng = andthen (eng_read_snapshot w now sid off ln eng) (\<lambda>bs eng. (Inr (Bytes bs), eng))"
| "eng_serve w now (CloneSnap vid sid name n) eng = ack (eng_clone_snapshot w vid sid name n eng)"
| "eng_serve w now CollectGarbage eng = ack (gc_once w eng)"
| "eng_serve w now RepairData eng = ack (repair_once w now eng)"
| "eng_serve w now SaveCheckpoint eng = ack (eng_checkpoint eng)"

text \<open>An engine that is consistent and shows the disks.\<close>

definition engine_shows :: "('d \<Rightarrow> nat \<Rightarrow> byte) \<Rightarrow> ('d \<Rightarrow> nat) \<Rightarrow> 'd env \<Rightarrow> 'd engine \<Rightarrow> disk_state \<Rightarrow> bool" where
  "engine_shows cell used w eng s \<longleftrightarrow> engine_ok cell used w eng \<and> disks_shown w (dev_view cell used eng) (en_catalog eng) s"

text \<open>The answers a request may get: an error that leaves the disks, the effect and the answer, or
  the effect with an error when the log failed after it was written.\<close>

definition disk_allows :: "disk_request \<Rightarrow> disk_state \<Rightarrow> disk_answer native_result \<Rightarrow> disk_state \<Rightarrow> bool" where
  "disk_allows q s res s' \<longleftrightarrow> (\<exists>e. res = Inl e) \<and> s' = s
     \<or> (\<exists>a. disk_step q s = Some (s', a) \<and> (res = Inr a \<or> (\<exists>e. res = Inl (WalFailed e))))"

lemma disks_applied [simp]: "disks_shown w v (applied trm index c) s = disks_shown w v c s"
  by (simp add: disks_shown_def volume_shows_def [abs_def] snapshot_shows_def [abs_def] map_shows_def entry_shows_def applied_def)

lemma ack_eq: "ack r = (map_sum id (\<lambda>_. Ack) (fst r), snd r)"
  by (cases r; cases "fst r") (auto simp: ack_def andthen_def)

context block_store
begin

abbreviation shown :: "'d env \<Rightarrow> 'd engine \<Rightarrow> disk_state \<Rightarrow> bool" where
  "shown \<equiv> engine_shows cell used"

text \<open>The end of a request.\<close>

definition served :: "'d env \<Rightarrow> disk_request \<Rightarrow> disk_state \<Rightarrow> (disk_answer, 'd) eng \<Rightarrow> bool" where
  "served w q s r \<longleftrightarrow> (\<exists>s'. disk_allows q s (fst r) s' \<and> shown w (snd r) s')"

lemma served_error: "shown w eng s \<Longrightarrow> served w q s (Inl e, eng)"
  by (auto simp: served_def disk_allows_def)

lemma served_done: "shown w eng s' \<Longrightarrow> disk_step q s = Some (s', a) \<Longrightarrow> served w q s (Inr a, eng)"
  by (auto simp: served_def disk_allows_def)

lemma shown_still: "shown w eng s \<Longrightarrow> still eng eng' \<Longrightarrow> shown w eng' s"
  using core_still [of w eng eng'] by (auto simp: engine_shows_def engine_ok_def still_def steady_def)

lemma commit_served:
  assumes sh: "shown w eng s" and call: "eng_commit w cmd eng = (r, eng')" and ok: "command_ok (en_catalog eng) cmd"
    and does: "\<And>trm gc c'. run_command trm cmd (en_catalog eng) = (Inr gc, c') \<Longrightarrow> does w (view eng) (en_catalog eng) s q c'"
  shows "served w q s (ack (r, eng'))"
proof -
  have I: "core w eng" "idle (en_inflight eng)" "disks_shown w (view eng) (en_catalog eng) s"
    using sh by (auto simp: engine_shows_def engine_ok_def)
  have "core w eng' \<and> same_data eng eng' \<and> (\<forall>r'. r \<noteq> Inl (RaftFailed r'))
    \<and> (en_catalog eng' = en_catalog eng \<and> (\<exists>e. r = Inl e) \<or> (r = Inr () \<or> (\<exists>e. r = Inl (WalFailed e)))
       \<and> (\<exists>trm index gc c'. run_command trm cmd (en_catalog eng) = (Inr gc, c') \<and> en_catalog eng' = applied trm index c'))"
    by (rule core_commit [OF I(1) call ok]) (use does keeps_fits [OF I(1)] in \<open>auto simp: does_def\<close>)
  then have ok': "engine_ok cell used w eng'" "view eng' = view eng"
    and ends: "en_catalog eng' = en_catalog eng \<and> (\<exists>e. r = Inl e) \<or> (r = Inr () \<or> (\<exists>e. r = Inl (WalFailed e)))
       \<and> (\<exists>trm index gc c'. run_command trm cmd (en_catalog eng) = (Inr gc, c') \<and> en_catalog eng' = applied trm index c')"
    using I(2) same_data_view by (auto simp: engine_ok_def same_data_def)
  from ends show ?thesis
  proof
    assume "en_catalog eng' = en_catalog eng \<and> (\<exists>e. r = Inl e)"
    then show ?thesis using ok' I(3) by (auto simp: ack_eq engine_shows_def intro!: served_error)
  next
    assume a: "(r = Inr () \<or> (\<exists>e. r = Inl (WalFailed e)))
       \<and> (\<exists>trm index gc c'. run_command trm cmd (en_catalog eng) = (Inr gc, c') \<and> en_catalog eng' = applied trm index c')"
    then obtain s' where "disk_step q s = Some (s', Ack)" "shown w eng' s'"
      using does ok' by (fastforce simp: does_def engine_shows_def)
    then show ?thesis using a by (auto simp: served_def disk_allows_def ack_eq)
  qed
qed

lemma volume_requests_served:
  assumes sh: "shown w eng s" and q: "request_ok q"
  shows "q = CreateDisk vid name n \<Longrightarrow> served w q s (eng_serve w now q eng)"
    "q = DeleteDisk vid \<Longrightarrow> served w q s (eng_serve w now q eng)"
    "q = ResizeDisk vid n \<Longrightarrow> served w q s (eng_serve w now q eng)"
    "q = TakeSnap sid vid name \<Longrightarrow> served w q s (eng_serve w now q eng)"
    "q = DeleteSnap sid \<Longrightarrow> served w q s (eng_serve w now q eng)"
    "q = CloneSnap vid sid name m \<Longrightarrow> served w q s (eng_serve w now q eng)"
proof -
  have I: "cat_inv (en_catalog eng)" "disks_shown w (view eng) (en_catalog eng) s"
    using sh by (auto simp: engine_shows_def engine_ok_def engine_core_def cat_ok_def)
  have step: "served w q s (ack (eng_commit w cmd eng))"
    if "command_ok (en_catalog eng) cmd"
      "\<And>trm gc c'. run_command trm cmd (en_catalog eng) = (Inr gc, c') \<Longrightarrow> does w (view eng) (en_catalog eng) s q c'" for cmd
    using commit_served [OF sh _ that] by (cases "eng_commit w cmd eng") auto
  have ack: "ack (andthen r (\<lambda>_ eng. (Inr x, eng))) = ack r" for r :: "(unit, 'd) eng" and x :: string
    by (cases r; cases "fst r") (auto simp: ack_def andthen_def)
  show "q = CreateDisk vid name n \<Longrightarrow> served w q s (eng_serve w now q eng)"
    using step [of "CreateVolume vid name n"] create_volume_does [OF I] q served_error [OF sh]
    by (auto simp: eng_create_volume_def ack, auto simp: ack_eq)
  show "q = DeleteDisk vid \<Longrightarrow> served w q s (eng_serve w now q eng)"
    using step [of "DeleteVolume vid"] delete_volume_does [OF I] by (auto simp: eng_delete_volume_def)
  show "q = ResizeDisk vid n \<Longrightarrow> served w q s (eng_serve w now q eng)"
    using step [of "ResizeVolume vid n"] resize_volume_does [OF I] q by (auto simp: eng_resize_volume_def)
  show "q = TakeSnap sid vid name \<Longrightarrow> served w q s (eng_serve w now q eng)"
    using step [of "CreateSnapshot sid vid name"] create_snapshot_does [OF I] by (auto simp: eng_create_snapshot_def ack)
  show "q = DeleteSnap sid \<Longrightarrow> served w q s (eng_serve w now q eng)"
    using step [of "DeleteSnapshot sid"] delete_snapshot_does [OF I] by (auto simp: eng_delete_snapshot_def)
  show "q = CloneSnap vid sid name m \<Longrightarrow> served w q s (eng_serve w now q eng)"
    using step [of "CloneSnapshot vid name sid m"] clone_snapshot_does [OF I] q by (auto simp: eng_clone_snapshot_def ack)
qed

section \<open>Reads and writes\<close>

lemma map_read_served:
  assumes sh: "shown w eng s" and w: "ev_ops w = ops" "env_ok w" and m: "map_shows w (view eng) (en_catalog eng) m d"
    and step: "disk_step q s = map_option (Pair s) (disk_slice off ln d)"
  shows "served w q s (andthen (attempt eng (extents_in (en_catalog eng) m (cg_extent_bytes (ev_cfg w)) (length d) off ln)
    (\<lambda>xs. read_range w now xs off ln eng)) (\<lambda>bs eng. (Inr (Bytes bs), eng)))"
proof (cases "extents_in (en_catalog eng) m (cg_extent_bytes (ev_cfg w)) (length d) off ln")
  case (Inl e)
  then show ?thesis using served_error [OF sh] by (simp add: attempt_def andthen_def)
next
  case (Inr xs)
  obtain r e where r: "read_range w now xs off ln eng = (r, e)" by (rule prod.exhaust)
  have n: "nodes_ok eng" using sh by (simp add: engine_shows_def engine_ok_def engine_core_def)
  have R: "still eng e" "\<And>out. r = Inr out \<Longrightarrow> out = take ln (drop off d)" using read_map_spec [OF n w m Inr r] by auto
  have fit: "off + ln \<le> length d" using extents_in_spec [OF Inr] by blast
  show ?thesis
    using Inr r R(2) fit served_error [OF shown_still [OF sh R(1)]] served_done [OF shown_still [OF sh R(1)]] step
    by (cases r) (auto simp: attempt_def andthen_def disk_slice_def)
qed

lemma read_served:
  assumes sh: "shown w eng s" and w: "ev_ops w = ops" "env_ok w"
  shows "served w (ReadDisk vid off ln) s (eng_serve w now (ReadDisk vid off ln) eng)"
proof -
  have D: "disks_shown w (view eng) (en_catalog eng) s" using sh by (simp add: engine_shows_def)
  show ?thesis
  proof (cases "bget (volumes (en_catalog eng)) vid")
    case None
    then show ?thesis using served_error [OF sh] by (simp add: eng_read_def attempt_def rbind_def ok_or_def andthen_def)
  next
    case (Some m)
    obtain d where d: "ds_volumes s vid = Some (v_name m, d)" "volume_shows w (view eng) (en_catalog eng) m (v_name m, d)"
      using disks_shownD(1) [OF D Some] by blast
    then have "map_shows w (view eng) (en_catalog eng) (v_extents m) d" "v_size_bytes m = length d" by (auto simp: volume_shows_def)
    then show ?thesis
      using map_read_served [OF sh w, of "v_extents m" d "ReadDisk vid off ln" off ln now] Some d(1)
      by (simp add: eng_read_def rbind_def ok_or_def)
  qed
qed

lemma read_snapshot_served:
  assumes sh: "shown w eng s" and w: "ev_ops w = ops" "env_ok w"
  shows "served w (ReadSnap sid off ln) s (eng_serve w now (ReadSnap sid off ln) eng)"
proof -
  have D: "disks_shown w (view eng) (en_catalog eng) s" using sh by (simp add: engine_shows_def)
  show ?thesis
  proof (cases "bget (snapshots (en_catalog eng)) sid")
    case None
    then show ?thesis using served_error [OF sh] by (simp add: eng_read_snapshot_def attempt_def rbind_def ok_or_def andthen_def)
  next
    case (Some m)
    obtain d where d: "ds_snapshots s sid = Some ((sn_volume_id m, sn_name m), d)"
        "snapshot_shows w (view eng) (en_catalog eng) m ((sn_volume_id m, sn_name m), d)"
      using disks_shownD(3) [OF D Some] by blast
    then have "map_shows w (view eng) (en_catalog eng) (sn_extents m) d" "sn_size_bytes m = length d" "d \<noteq> []"
      by (auto simp: snapshot_shows_def array_ok_def)
    then show ?thesis
      using map_read_served [OF sh w, of "sn_extents m" d "ReadSnap sid off ln" off ln now] Some d(1)
      by (simp add: eng_read_snapshot_def rbind_def ok_or_def)
  qed
qed

text \<open>The cells a write finds.\<close>

lemma volume_cells:
  assumes D: "disks_shown w (view eng) (en_catalog eng) s" and m: "bget (volumes (en_catalog eng)) vid = Some m"
    and d: "volume_shows w (view eng) (en_catalog eng) m (n, d)" and g: "0 < cg_extent_bytes (ev_cfg w)"
  obtains old where "old_cells (cg_extent_bytes (ev_cfg w)) d old" "cells_hold w eng (ToVolume vid) (cg_extent_bytes (ev_cfg w)) old"
proof -
  have ms: "map_shows w (view eng) (en_catalog eng) (v_extents m) d" using d by (simp add: volume_shows_def)
  obtain old where old: "old_cells (cg_extent_bytes (ev_cfg w)) d old" "\<And>k. bget (v_extents m) k = None \<Longrightarrow> old k = []"
    "\<And>k e. bget (v_extents m) k = Some e \<Longrightarrow> \<exists>x. map_option em_extent (bget (extents (en_catalog eng)) e) = Some x \<and> x_id x = e
       \<and> length (old k) \<le> cg_extent_bytes (ev_cfg w) \<and> extent_held w (view eng) x (old k)"
    by (rule map_shows_old [OF ms g]) (rule that)
  have "cells_hold w eng (ToVolume vid) (cg_extent_bytes (ev_cfg w)) old"
    unfolding cells_hold_def
  proof (intro allI impI)
    fix k x assume "k mod cg_extent_bytes (ev_cfg w) = 0" and x: "extent_at (ToVolume vid) (en_catalog eng) k = Inr x"
    show "case x of None \<Rightarrow> old k = [] | Some x \<Rightarrow> extent_held w (view eng) x (old k) \<and> length (old k) \<le> cg_extent_bytes (ev_cfg w)
          \<and> map_option em_extent (bget (extents (en_catalog eng)) (x_id x)) = Some x"
      using x m old(2,3) [of k] by (cases "bget (v_extents m) k") (auto simp: extent_at_def)
  qed
  then show thesis using that old(1) by blast
qed

text \<open>An installed write.\<close>

lemma installed_entries:
  assumes D: "disks_shown w v c s" and i: "installed c vid xs c'" "sorted_wrt (\<lambda>x y. x_id x \<noteq> x_id y) xs"
      "\<forall>x \<in> set xs. bget (extents c) (x_id x) = None" and gr: "grows_to (live_bytes (extents c)) v v'"
  shows "entries_kept w v c v' (applied trm index c')"
  unfolding entries_kept_def
proof (intro allI impI)
  fix m d assume m: "map_shows w v c m d"
  show "map_shows w v' (applied trm index c') m d"
  proof (rule map_shows_same [OF m _ gr])
    fix k e assume "bget m k = Some e"
    then obtain em where "bget (extents c) e = Some em" using map_showsD(2) [OF m] by (fastforce simp: entry_shows_def)
    then show "map_option em_extent (bget (extents (applied trm index c')) e) = map_option em_extent (bget (extents c) e)"
      using installed_held(2) [OF i] by (simp add: applied_def)
  qed
qed

lemma written_served:
  assumes sh: "shown w eng s" and w: "env_ok w" and ok: "engine_ok cell used w eng'"
    and gr: "grows_to (live_bytes (extents (en_catalog eng))) (view eng) (view eng')"
    and d: "ds_volumes s vid = Some (n, d)" and old: "old_cells (cg_extent_bytes (ev_cfg w)) d old"
    and wr: "volume_written cell used w vid off data old eng eng'"
  shows "off + length data \<le> length d \<and> shown w eng' (s\<lparr>ds_volumes := (ds_volumes s)(vid \<mapsto> (n, overwrite off data d))\<rparr>)"
proof -
  have D: "disks_shown w (view eng) (en_catalog eng) s" using sh by (simp add: engine_shows_def)
  obtain m cells where m: "bget (volumes (en_catalog eng)) vid = Some m" "off + length data \<le> v_size_bytes m"
    and cov: "cells_cover (cg_extent_bytes (ev_cfg w)) off data old cells" and "wrote cell used w eng eng' vid cells"
    using wr by (auto simp: volume_written_def)
  then obtain xs trm index c' where xs: "map x_logical_offset xs = map fst cells" "list_all2 (\<lambda>x p. extent_held w (view eng') x (snd p)) xs cells"
    and i: "installed (en_catalog eng) vid xs c'" "sorted_wrt (\<lambda>x y. x_id x \<noteq> x_id y) xs" "\<forall>x \<in> set xs. bget (extents (en_catalog eng)) (x_id x) = None"
    and c': "en_catalog eng' = applied trm index c'"
    unfolding wrote_def by blast
  have dm: "n = v_name m" "length d = v_size_bytes m" "array_ok d" "map_shows w (view eng) (en_catalog eng) (v_extents m) d"
    using disks_shownD(1) [OF D m(1)] d by (auto simp: volume_shows_def)
  have fit: "off + length data \<le> length d" using m(2) dm(2) by simp
  note kept = installed_entries [OF D i gr, of trm index, folded c']
  have vols: "volumes (en_catalog eng') = bput vid (m\<lparr>v_extents := put_extents xs (v_extents m)\<rparr>) (volumes (en_catalog eng))"
      "snapshots (en_catalog eng') = snapshots (en_catalog eng)"
    using i(1) m(1) c' by (auto simp: installed_def applied_def)
  have "map_shows w (view eng') (en_catalog eng') (put_extents xs (v_extents m)) (overwrite off data d)"
  proof (rule written_shows [OF dm(4) refl _ cov old fit xs])
    show "0 < cg_extent_bytes (ev_cfg w)" using w by (simp add: env_ok_def)
    show "map_option em_extent (bget (extents (en_catalog eng')) (x_id x)) = Some x" if "x \<in> set xs" for x
      using installed_held(1) [OF i that] c' by (simp add: applied_def)
    have "map_shows w (view eng') (en_catalog eng') (v_extents m) d"
      using kept dm(4) m(1) unfolding entries_kept_def set_bvals by blast
    then show "entry_shows w (view eng') (en_catalog eng') d k e" if "bget (v_extents m) k = Some e" for k e
      using map_showsD(2) that by blast
  qed
  then have "volume_shows w (view eng') (en_catalog eng') (m\<lparr>v_extents := put_extents xs (v_extents m)\<rparr>) (n, overwrite off data d)"
    using dm(1-3) overwrite_byte(1) [OF fit] by (auto simp: volume_shows_def array_ok_def)
  then show ?thesis using disks_put_volume [OF D kept vols] ok fit by (simp add: engine_shows_def)
qed

lemma write_served:
  assumes sh: "shown w eng s" and w: "ev_ops w = ops" "env_ok w"
  shows "served w (WriteDisk vid off data) s (eng_serve w now (WriteDisk vid off data) eng)"
proof (cases "data = []")
  case True
  then show ?thesis using served_done [OF sh] by (simp add: eng_write_def ack_eq)
next
  case data: False
  have I: "engine_ok cell used w eng" and D: "disks_shown w (view eng) (en_catalog eng) s" using sh by (auto simp: engine_shows_def)
  have g: "0 < cg_extent_bytes (ev_cfg w)" using w by (simp add: env_ok_def)
  obtain r e where call: "eng_write w now vid off data eng = (r, e)" by (rule prod.exhaust)
  have sz: "v_size_bytes m < u64_max" if "bget (volumes (en_catalog eng)) vid = Some m" for m
    using disks_shownD(1) [OF D that] by (auto simp: volume_shows_def array_ok_def)
  have kept: ?thesis if "op_ends cell used w eng r e changed" "en_catalog e = en_catalog eng" "\<exists>x. r = Inl x" for changed
    using that disks_kept [OF D grows_entries, of "view e"] call
    by (auto simp: op_ends_def engine_shows_def ack_eq intro!: served_error)
  show ?thesis
  proof (cases "bget (volumes (en_catalog eng)) vid")
    case None
    then have "cells_hold w eng (ToVolume vid) (cg_extent_bytes (ev_cfg w)) (\<lambda>_. [])" by (auto simp: cells_hold_def extent_at_def)
    from eng_write_ends [OF I w this sz data call] show ?thesis using kept None by (auto simp: op_ends_def volume_written_def)
  next
    case (Some m)
    obtain d where d: "ds_volumes s vid = Some (v_name m, d)" "volume_shows w (view eng) (en_catalog eng) m (v_name m, d)"
      using disks_shownD(1) [OF D Some] by blast
    obtain old where old: "old_cells (cg_extent_bytes (ev_cfg w)) d old" "cells_hold w eng (ToVolume vid) (cg_extent_bytes (ev_cfg w)) old"
      by (rule volume_cells [OF D Some d(2) g])
    note E = eng_write_ends [OF I w old(2) sz data call]
    show ?thesis
    proof (cases "en_catalog e = en_catalog eng \<and> (\<exists>x. r = Inl x)")
      case True
      then show ?thesis using kept [OF E] by simp
    next
      case False
      then have e: "engine_ok cell used w e" "grows_to (live_bytes (extents (en_catalog eng))) (view eng) (view e)"
          "volume_written cell used w vid off data old eng e" and r: "r = Inr () \<or> (\<exists>x. r = Inl (WalFailed x))"
        using E by (auto simp: op_ends_def)
      let ?s = "s\<lparr>ds_volumes := (ds_volumes s)(vid \<mapsto> (v_name m, overwrite off data d))\<rparr>"
      have "disk_step (WriteDisk vid off data) s = Some (?s, Ack)" "shown w e ?s"
        using written_served [OF sh w(2) e(1,2) d(1) old(1) e(3)] data d(1) by auto
      then show ?thesis using r call by (auto simp: served_def disk_allows_def ack_eq)
    qed
  qed
qed

lemma checkpoint_served:
  assumes sh: "shown w eng s"
  shows "served w SaveCheckpoint s (eng_serve w now SaveCheckpoint eng)"
proof -
  obtain r e where call: "eng_checkpoint eng = (r, e)" by (rule prod.exhaust)
  have e: "en_nodes e = en_nodes eng" "en_catalog e = en_catalog eng" "en_inflight e = en_inflight eng"
      "en_uuids e = en_uuids eng" "en_uuid_next e = en_uuid_next eng" "\<exists>n. r = Inr n"
    using call by (auto simp: eng_checkpoint_def Let_def)
  have v: "view e = view eng" using dev_at_cong [OF e(1)] by (simp add: dev_view_def [abs_def])
  have "shown w e s"
    using sh checkpoint_durable [OF _ call] v e
    by (auto simp: engine_shows_def engine_ok_def engine_core_def nodes_ok_def ids_ok_def)
  then show ?thesis using call e(6) served_done [of w e s SaveCheckpoint s Ack] by (auto simp: ack_eq)
qed

end

end
