(* ===== verification/EngineUpkeep.thy ===== *)
theory EngineUpkeep
  imports EngineSteps
begin

text \<open>
  Garbage collection and repair. Collecting an extent nothing refers to, and moving one part of an
  extent to another node, leave every volume and snapshot as it is.
\<close>

lemma referenced_extent:
  assumes "cat_inv c" and "m \<in> v_extents ` set (bvals (volumes c)) \<union> sn_extents ` set (bvals (snapshots c))" and "bget m k = Some e"
    and "bget (extents c) e = Some em"
  shows "0 < em_refs em"
proof -
  have e: "e \<in># map_refs m" using assms(3) by (auto simp: map_refs_def set_bvals)
  have "map_refs m \<subseteq># refs_of c"
  proof -
    consider vid v where "bget (volumes c) vid = Some v" "m = v_extents v" | sid n where "bget (snapshots c) sid = Some n" "m = sn_extents n"
      using assms(2) by (auto simp: set_bvals)
    then show ?thesis
    proof cases
      case 1
      then show ?thesis using refs_volumes(2) [of vid c] mset_subset_eq_add_right by (metis bopt_simps(2))
    next
      case 2
      then show ?thesis using refs_snapshots(2) [of sid c] mset_subset_eq_add_right by (metis bopt_simps(2))
    qed
  qed
  then have "e \<in># refs_of c" using e by (metis mset_subset_eqD)
  then show ?thesis using ext_matchD(1) [OF cat_inv_match [OF assms(1)] assms(4)] by simp
qed

text \<open>A run that leaves the tables of volumes and snapshots and the bytes of their entries.\<close>

definition tidies :: "'d env \<Rightarrow> device_view \<Rightarrow> catalog \<Rightarrow> catalog \<Rightarrow> bool" where
  "tidies w v c c' \<longleftrightarrow> data_ok w v c' \<and> same_fs c c' \<and> volumes c' = volumes c \<and> snapshots c' = snapshots c
     \<and> entries_kept w v c v c' \<and> (\<forall>e. bget (extents c) e = None \<longrightarrow> bget (extents c') e = None)"

lemma reclaim_tidies:
  assumes inv: "cat_inv c" and d: "data_ok w v c" and run: "mark_extent_reclaimed e c = (Inr gc, c')"
  shows "tidies w v c c'"
proof -
  have sp: "space_inv c" using d by (simp add: data_ok_def)
  obtain m where m: "bget (extents c) e = Some m" "em_refs m = 0"
    using run by (auto simp: mark_extent_reclaimed_def attempt_def ok_or_def guard_def split: option.splits if_splits)
  obtain fl where fl: "mark_extent_reclaimed e c = (Inr [], c\<lparr>extents := bdel e (extents c), free := fl\<rparr>)"
      "free_bytes fl = free_bytes (free c) \<union> extent_bytes (em_extent m)"
      "space_inv (c\<lparr>extents := bdel e (extents c), free := fl\<rparr>)"
    by (rule reclaim_ok [OF inv sp m]) (rule that)
  have c': "c' = c\<lparr>extents := bdel e (extents c), free := fl\<rparr>" using fl(1) run by simp
  have "below_used v b" if "b \<in> extent_bytes (em_extent m)" for b
  proof -
    obtain bs where "extent_held w v (em_extent m) bs" using d m(1) unfolding data_ok_def by blast
    then show ?thesis using that by (rule extent_held_below)
  qed
  then have "data_ok w v c'" using d fl(2,3) by (auto simp: data_ok_def c')
  moreover have "entries_kept w v c v c'"
    unfolding entries_kept_def
  proof (intro allI impI)
    fix em d assume em: "em \<in> v_extents ` set (bvals (volumes c)) \<union> sn_extents ` set (bvals (snapshots c))" "map_shows w v c em d"
    show "map_shows w v c' em d"
    proof (rule map_shows_same [OF em(2) _ grows_to_refl])
      fix k e' assume "bget em k = Some e'"
      then have "e' \<noteq> e" using referenced_extent [OF inv em(1), of k e m] m by auto
      then show "map_option em_extent (bget (extents c') e') = map_option em_extent (bget (extents c) e')" by (simp add: c')
    qed
  qed
  ultimately show ?thesis by (simp add: tidies_def same_fs_def c')
qed

section \<open>Moving one part\<close>

text \<open>Parts to be moved: the replicas they are on, which hold them.\<close>

definition movable :: "device_view \<Rightarrow> extent_ref \<Rightarrow> replica_ref \<times> byte list \<Rightarrow> bool" where
  "movable v x p \<longleftrightarrow> fst p \<in> set (x_replicas x) \<and> holds_at v (fst p) (snd p) \<and> length (snd p) = stored_len x"

lemma movable_grows:
  assumes "movable v x p" and "grows_to S v v'" and "extent_bytes x \<subseteq> S"
  shows "movable v' x p"
proof -
  have "place_bytes (length (snd p)) (replica_place (fst p)) \<subseteq> extent_bytes x"
    using assms(1) by (auto simp: movable_def extent_bytes_def extent_places_eq places_bytes_def)
  then show ?thesis using assms holds_at_grows [OF _ assms(2)] by (auto simp: movable_def)
qed

lemma moved_held:
  assumes h: "extent_held w v x bs" and pos: "pos < length (x_replicas x)" "x_replicas x ! pos = old"
    and old: "holds_at v old data" "length data = stored_len x" and new: "holds_at v new data"
  shows "extent_held w v (x\<lparr>x_replicas := (x_replicas x)[pos := new]\<rparr>) bs"
proof -
  obtain ps where ps: "extent_of w x bs" "parts_of w x bs ps" "list_all2 (holds_at v) (x_replicas x) ps"
    using h by (auto simp: extent_held_def)
  have "length (ps ! pos) = stored_len x" "holds_at v old (ps ! pos)"
    using parts_of_length(1) [OF ps(1,2)] ps(3) pos by (auto simp: list_all2_conv_all_nth)
  then have "ps ! pos = data" using holds_at_unique [OF _ old(1)] old(2) by simp
  then have "list_all2 (holds_at v) ((x_replicas x)[pos := new]) ps"
    using ps(3) new pos(1) by (auto simp: list_all2_conv_all_nth nth_list_update)
  moreover have "parts_of w (x\<lparr>x_replicas := (x_replicas x)[pos := new]\<rparr>) bs ps"
    using ps(2) by (simp add: parts_of_def cong: option.case_cong)
  ultimately show ?thesis using ps(1) by (auto simp: extent_held_def extent_of_def)
qed

lemma places_distinct: "places_ok ln ps \<Longrightarrow> 0 < ln \<Longrightarrow> distinct ps"
proof (induction ps)
  case (Cons p ps)
  have "place_bytes ln p \<noteq> {}" using Cons.prems(2) by (cases p) (auto simp: byte_range_def)
  then have "p \<notin> set ps" using Cons.prems(1) by (auto simp: places_bytes_def)
  then show ?case using Cons by simp
qed simp

lemma replicas_distinct:
  assumes "space_inv c" and "bget (extents c) e = Some m" and "0 < stored_len (em_extent m)"
  shows "distinct (x_replicas (em_extent m))"
proof -
  have "places_ok (stored_len (em_extent m)) (extent_places (em_extent m))"
    using assms(1,2) by (auto simp: space_inv_def extent_placed_def)
  from places_distinct [OF this assms(3)] show ?thesis by (simp add: extent_places_eq distinct_map)
qed

lemma movable_moved:
  assumes "movable v x p" and "pos < length (x_replicas x)" and "fst p \<noteq> x_replicas x ! pos"
  shows "movable v (x\<lparr>x_replicas := (x_replicas x)[pos := new]\<rparr>) p"
proof -
  obtain j where "j < length (x_replicas x)" "x_replicas x ! j = fst p" using assms(1) by (auto simp: movable_def in_set_conv_nth)
  then have "fst p \<in> set ((x_replicas x)[pos := new])" using assms(3) by (metis length_list_update nth_list_update_neq nth_mem)
  then show ?thesis using assms(1) by (simp add: movable_def stored_len_def cong: option.case_cong)
qed

lemma replace_run:
  assumes inv: "cat_inv c" "data_ok w v c" and mv: "move_ok c e new" and m: "bget (extents c) e = Some m"
    and old: "movable v (em_extent m) (old, data)" and new: "holds_at v new data"
    and run: "replace_replica e old new c = (Inr gc, c')"
  obtains pos fl where "pos < length (x_replicas (em_extent m))" "x_replicas (em_extent m) ! pos = old" "tidies w v c c'"
    "c' = c\<lparr>extents := bput e (m\<lparr>em_extent := (em_extent m)\<lparr>x_replicas := (x_replicas (em_extent m))[pos := new]\<rparr>\<rparr>) (extents c), free := fl\<rparr>"
proof -
  let ?x = "em_extent m" and ?ln = "stored_len (em_extent m)"
  have sp: "space_inv c" using inv(2) by (simp add: data_ok_def)
  define fl0 where "fl0 = snd (fl_reserve (free c) (r_node_id new) (r_device_index new) (r_offset new) ?ln)"
  obtain pos where p: "position (\<lambda>r. r = old) (x_replicas ?x) = Some pos"
    and rel: "release_replicas [old] ?ln (c\<lparr>extents := bput e (m\<lparr>em_extent := ?x\<lparr>x_replicas := (x_replicas ?x)[pos := new]\<rparr>\<rparr>) (extents c),
      free := fl0\<rparr>) = (Inr gc, c')"
    using run m by (auto simp: replace_replica_def attempt_def ok_or_def guard_def Let_def fl0_def split: option.splits if_splits)
  have pos: "pos < length (x_replicas ?x)" "x_replicas ?x ! pos = old" using position_nth [OF p] by auto
  let ?x' = "?x\<lparr>x_replicas := (x_replicas ?x)[pos := new]\<rparr>"
  obtain fl where fl: "c' = c\<lparr>extents := bput e (m\<lparr>em_extent := ?x'\<rparr>) (extents c), free := fl\<rparr>"
      "space_inv c'" "free_bytes fl \<subseteq> free_bytes (free c) \<union> extent_bytes ?x"
    by (rule replace_ok [OF inv(1) sp mv m pos, folded fl0_def]) (use rel in auto)
  have held: "extent_held w v ?x' bs" if "extent_held w v ?x bs" for bs
    using moved_held [OF that pos] old new by (auto simp: movable_def)
  obtain bs where bs: "extent_held w v ?x bs" "x_id ?x = e" using inv(2) m unfolding data_ok_def by blast
  have "\<forall>b \<in> free_bytes fl. below_used v b"
    using fl(3) extent_held_below [OF bs(1)] inv(2) unfolding data_ok_def by blast
  then have "data_ok w v c'" using inv(2) fl(1,2) held [OF bs(1)] bs(2) by (auto simp: data_ok_def)
  moreover have "entries_kept w v c v c'"
    unfolding entries_kept_def
  proof (intro allI impI)
    fix mp d assume "map_shows w v c mp d"
    then show "map_shows w v c' mp d"
    proof (rule map_shows_frame)
      fix k e' assume "entry_shows w v c d k e'"
      then show "entry_shows w v c' d k e'" by (rule entry_shows_frame) (use fl(1) held m in \<open>auto split: if_splits\<close>)
    qed
  qed
  ultimately have "tidies w v c c'" using fl(1) m by (auto simp: tidies_def same_fs_def)
  then show thesis using that pos fl(1) by blast
qed

context block_store
begin

lemma tidies_fits: "core w eng \<Longrightarrow> tidies w (view eng) (en_catalog eng) c' \<Longrightarrow> run_fits w eng c'"
  by (auto simp: tidies_def run_fits_def engine_core_def ids_ok_def durable_def same_fs_filled)

lemma commit_tidies:
  assumes core: "core w eng" and D: "disks_shown w (view eng) (en_catalog eng) s" and call: "eng_commit w cmd eng = (r, eng')"
    and ok: "command_ok (en_catalog eng) cmd"
    and tidy: "\<And>trm gc c'. run_command trm cmd (en_catalog eng) = (Inr gc, c') \<Longrightarrow> tidies w (view eng) (en_catalog eng) c'"
  shows "core w eng' \<and> same_data eng eng' \<and> (\<forall>e. r \<noteq> Inl (RaftFailed e)) \<and> disks_shown w (view eng) (en_catalog eng') s
    \<and> (r = Inr () \<longrightarrow> (\<exists>trm index gc c'. run_command trm cmd (en_catalog eng) = (Inr gc, c') \<and> en_catalog eng' = applied trm index c'))"
proof -
  have "core w eng' \<and> same_data eng eng' \<and> (\<forall>e. r \<noteq> Inl (RaftFailed e))
    \<and> (en_catalog eng' = en_catalog eng \<and> (\<exists>e. r = Inl e) \<or> (r = Inr () \<or> (\<exists>e. r = Inl (WalFailed e)))
       \<and> (\<exists>trm index gc c'. run_command trm cmd (en_catalog eng) = (Inr gc, c') \<and> en_catalog eng' = applied trm index c'))"
    by (rule core_commit [OF core call ok]) (rule tidies_fits [OF core tidy])
  moreover have "disks_shown w (view eng) c' s" if "run_command trm cmd (en_catalog eng) = (Inr gc, c')" for trm gc c'
    using disks_kept [OF D] tidy [OF that] by (simp add: tidies_def)
  ultimately show ?thesis using D by auto
qed

section \<open>Garbage collection\<close>

lemma reclaim_each_shown:
  assumes "shown w eng s" and "reclaim_each w es eng = (r, eng')"
  shows "shown w eng' s"
  using assms
proof (induction es arbitrary: eng eng' r)
  case (Cons e es)
  let ?cmd = "MarkExtentReclaimed e"
  obtain q e1 where q: "eng_commit w ?cmd eng = (q, e1)" by (rule prod.exhaust)
  have I: "core w eng" "disks_shown w (view eng) (en_catalog eng) s" "cat_inv (en_catalog eng)" "data_ok w (view eng) (en_catalog eng)"
    using Cons.prems(1) by (auto simp: engine_shows_def engine_ok_def engine_core_def cat_ok_def)
  have "core w e1 \<and> same_data eng e1 \<and> (\<forall>e. q \<noteq> Inl (RaftFailed e)) \<and> disks_shown w (view eng) (en_catalog e1) s
      \<and> (q = Inr () \<longrightarrow> (\<exists>trm index gc c'. run_command trm ?cmd (en_catalog eng) = (Inr gc, c') \<and> en_catalog e1 = applied trm index c'))"
    by (rule commit_tidies [OF I(1,2) q]) (use reclaim_tidies [OF I(3,4)] in auto)
  then have e1: "shown w e1 s"
    using Cons.prems(1) same_data_view [of eng e1 cell used] by (auto simp: engine_shows_def engine_ok_def same_data_def)
  define e2 where "e2 = (case (case bget (extents (en_catalog eng)) e of None \<Rightarrow> None | Some m \<Rightarrow> x_object (em_extent m)) of
      None \<Rightarrow> e1 | Some k \<Rightarrow> e1\<lparr>en_objects := map_option (bdel k) (en_objects e1)\<rparr>)"
  have same: "en_nodes e2 = en_nodes e1" "en_catalog e2 = en_catalog e1" "en_log e2 = en_log e1" "en_saved e2 = en_saved e1"
      "en_inflight e2 = en_inflight e1" "en_uuids e2 = en_uuids e1" "en_uuid_next e2 = en_uuid_next e1" "en_log_faults e2 = en_log_faults e1"
    by (auto simp: e2_def split: option.split)
  have e2: "shown w e2 s"
    using e1 same dev_at_cong [OF same(1)]
    by (simp add: engine_shows_def engine_ok_def engine_core_def nodes_ok_def durable_def ids_ok_def dev_view_def [abs_def])
  obtain n e3 where rest: "reclaim_each w es e2 = (n, e3)" by (rule prod.exhaust)
  have def: "reclaim_each w (e # es) eng = andthen (eng_commit w ?cmd eng) (\<lambda>_ e0.
      andthen (reclaim_each w es (case (case bget (extents (en_catalog eng)) e of None \<Rightarrow> None | Some m \<Rightarrow> x_object (em_extent m)) of
        None \<Rightarrow> e0 | Some k \<Rightarrow> e0\<lparr>en_objects := map_option (bdel k) (en_objects e0)\<rparr>)) (\<lambda>n eng. (Inr (n + 1), eng)))"
    by (simp add: Let_def)
  show ?case
  proof (cases q)
    case (Inl x)
    then show ?thesis using Cons.prems(2) q e1 by (simp add: def andthen_def del: reclaim_each.simps)
  next
    case (Inr u)
    then have "eng' = e3"
      using Cons.prems(2) q rest by (cases n) (auto simp: def andthen_def e2_def [symmetric] simp del: reclaim_each.simps)
    then show ?thesis using Cons.IH [OF e2] rest by simp
  qed
qed simp

lemma gc_served: "shown w eng s \<Longrightarrow> served w CollectGarbage s (eng_serve w now CollectGarbage eng)"
proof -
  assume sh: "shown w eng s"
  obtain r e where r: "reclaim_each w (collect_candidates (en_catalog eng)) eng = (r, e)" by (rule prod.exhaust)
  have "shown w e s" by (rule reclaim_each_shown [OF sh r])
  then show ?thesis
    using r served_error [of w e s] served_done [of w e s CollectGarbage s Ack]
    by (cases r) (auto simp: gc_once_def Let_def andthen_def ack_eq)
qed

section \<open>Repair\<close>

text \<open>One part placed elsewhere and the move committed.\<close>

lemma part_move_ok:
  assumes "part_placed c v T (new, data)" and "T \<inter> live_bytes (extents c) = {}" and "bget (extents c) e = Some m"
    and "length data = stored_len (em_extent m)"
  shows "move_ok c e new"
  using assms by (fastforce simp: move_ok_def Let_def part_placed_def places_bytes_def replica_place_def)

lemma replace_one_shown:
  assumes sh: "shown w eng s" and w: "ev_ops w = ops" and m: "bget (extents (en_catalog eng)) e = Some m"
    and old: "movable (view eng) (em_extent m) (old, data)" and data: "data \<noteq> []"
    and call: "replace_one w now fence e current old data eng = (res, eng')"
  shows "shown w eng' s \<and> grows_to (live_bytes (extents (en_catalog eng))) (view eng) (view eng')
    \<and> (res = Inr Skipped \<longrightarrow> en_catalog eng' = en_catalog eng)
    \<and> (\<forall>new. res = Inr (Moved new) \<longrightarrow> (\<exists>m' pos. bget (extents (en_catalog eng')) e = Some m' \<and> pos < length (x_replicas (em_extent m))
         \<and> x_replicas (em_extent m) ! pos = old \<and> em_extent m' = (em_extent m)\<lparr>x_replicas := (x_replicas (em_extent m))[pos := new]\<rparr>))"
proof -
  have I: "engine_ok cell used w eng" "disks_shown w (view eng) (en_catalog eng) s" using sh by (auto simp: engine_shows_def)
  obtain token infl where lease: "if_lease (en_inflight eng) = (token, infl)" by (rule prod.exhaust)
  let ?e0 = "eng\<lparr>en_inflight := infl\<rparr>"
  define order where "order = replacement_order w now (filter (\<lambda>r. r \<noteq> old) current) (length data) eng"
  note L = lease_starts [OF I(1) lease]
  obtain q e1 where q: "place_first w now token fence order data ?e0 = (q, e1)" by (rule prod.exhaust)
  obtain T where pl: "places w token {} T ?e0 e1"
    and new: "\<And>r. q = Inr (Some r) \<Longrightarrow> part_placed (en_catalog eng) (view e1) T (r, data)"
    using place_first_spec [OF L(1) w data q] by auto
  have gr: "grows_to (live_bytes (extents (en_catalog eng))) (view eng) (view e1)"
    using pl L(3) by (simp add: places_def)
  have c1: "en_catalog e1 = en_catalog eng" "placing_inv w token T e1" using pl by (auto simp: places_def steady_def)
  have core1: "core w e1" by (rule core_places [OF L(2) pl])
  have D1: "disks_shown w (view e1) (en_catalog e1) s" using disks_kept [OF I(2) grows_entries [OF gr]] c1(1) by simp
  note def = call [unfolded replace_one_def Let_def with_lease_def lease prod.case, folded order_def, unfolded q andthen_def prod.case]
  have stop: "shown w (e\<lparr>en_inflight := if_drop token (en_inflight e)\<rparr>) s \<and> view (e\<lparr>en_inflight := if_drop token (en_inflight e)\<rparr>) = view e1"
    if "core w e" "en_inflight e = en_inflight e1" "view e = view e1" "disks_shown w (view e1) (en_catalog e) s" for e
    using lease_ends [OF that(1), of "free (en_catalog e1)" token] c1(2) that by (simp add: placing_inv_def engine_shows_def)
  show ?thesis
  proof (cases "\<exists>r. q = Inr (Some r)")
    case False
    then have "eng' = e1\<lparr>en_inflight := if_drop token (en_inflight e1)\<rparr>" "\<forall>r. res \<noteq> Inr (Moved r)"
      using def by (auto split: sum.splits option.splits)
    then show ?thesis using stop [OF core1 refl refl D1] gr c1(1) by simp
  next
    case True
    then obtain r where r: "q = Inr (Some r)" by blast
    obtain a e2 where a: "eng_commit w (ReplaceReplica e old r) e1 = (a, e2)" by (rule prod.exhaust)
    note part = new [OF r]
    have m1: "bget (extents (en_catalog e1)) e = Some m" using m c1(1) by simp
    have mv: "move_ok (en_catalog e1) e r"
      using part_move_ok [OF part _ m] old c1 by (simp add: placing_inv_def fresh_bytes_def movable_def)
    have old1: "movable (view e1) (em_extent m) (old, data)" by (rule movable_grows [OF old gr extent_bytes_live [OF m]])
    have rr: "holds_at (view e1) r data" using part by (simp add: part_placed_def)
    have inv1: "cat_inv (en_catalog e1)" "data_ok w (view e1) (en_catalog e1)" using core1 by (auto simp: engine_core_def cat_ok_def)
    have C: "core w e2 \<and> same_data e1 e2 \<and> (\<forall>x. a \<noteq> Inl (RaftFailed x)) \<and> disks_shown w (view e1) (en_catalog e2) s
      \<and> (a = Inr () \<longrightarrow> (\<exists>trm index gc c'. run_command trm (ReplaceReplica e old r) (en_catalog e1) = (Inr gc, c')
            \<and> en_catalog e2 = applied trm index c'))"
    proof (rule commit_tidies [OF core1 D1 a])
      show "tidies w (view e1) (en_catalog e1) c'" if "run_command trm (ReplaceReplica e old r) (en_catalog e1) = (Inr gc, c')" for trm gc c'
        by (rule replace_run [OF inv1 mv m1 old1 rr]) (use that in auto)
    qed (use mv in simp)
    have eng': "eng' = e2\<lparr>en_inflight := if_drop token (en_inflight e2)\<rparr>"
      and res: "res = Inr (Moved n) \<Longrightarrow> n = r \<and> a = Inr ()" "res \<noteq> Inr Skipped" for n
      using def r a C settle_lease_id [of a now token e2] by (auto split: sum.splits native_error.splits raft_error.splits prod.splits)
    have "shown w eng' s" "view eng' = view e1"
      using stop [of e2] C same_data_view [of e1 e2 cell used] unfolding eng' by (auto simp: same_data_def)
    moreover have "\<exists>m' pos. bget (extents (en_catalog eng')) e = Some m' \<and> pos < length (x_replicas (em_extent m))
         \<and> x_replicas (em_extent m) ! pos = old \<and> em_extent m' = (em_extent m)\<lparr>x_replicas := (x_replicas (em_extent m))[pos := n]\<rparr>"
      if n: "res = Inr (Moved n)" for n
    proof -
      obtain trm index gc c' where run: "replace_replica e old r (en_catalog e1) = (Inr gc, c')" "en_catalog e2 = applied trm index c'"
        using C res(1) [OF n] by auto
      show ?thesis
        by (rule replace_run [OF inv1 mv m1 old1 rr run(1)]) (use run(2) res(1) [OF n] eng' in \<open>auto simp: applied_def\<close>)
    qed
    ultimately show ?thesis using gr res(2) by simp
  qed
qed

lemma replace_each_shown:
  assumes "shown w eng s" and "ev_ops w = ops" and "bget (extents (en_catalog eng)) e = Some m"
    and "\<forall>p \<in> set bad. movable (view eng) (em_extent m) p \<and> snd p \<noteq> []" and "distinct (map fst bad)"
    and "replace_each w now fence e current bad st eng = (res, eng')"
  shows "shown w eng' s"
  using assms
proof (induction bad arbitrary: eng m current st)
  case (Cons p bad)
  obtain old data where p: "p = (old, data)" by (rule prod.exhaust)
  obtain q e1 where q: "replace_one w now fence e current old data eng = (q, e1)" by (rule prod.exhaust)
  have old: "movable (view eng) (em_extent m) (old, data)" "data \<noteq> []" using Cons.prems(4) p by auto
  note R = replace_one_shown [OF Cons.prems(1-3) old q]
  have rest: "movable (view e1) (em_extent m) p' \<and> snd p' \<noteq> [] \<and> fst p' \<noteq> old" if "p' \<in> set bad" for p'
    using movable_grows [OF _ conjunct1 [OF conjunct2 [OF R]] extent_bytes_live [OF Cons.prems(3)]] Cons.prems(4,5) that p by auto
  show ?case
  proof (cases q)
    case (Inl x)
    then show ?thesis using R Cons.prems(6) p q by (auto simp: andthen_def)
  next
    case (Inr out)
    show ?thesis
    proof (cases out)
      case (Moved new)
      obtain m' pos where m': "bget (extents (en_catalog e1)) e = Some m'" "pos < length (x_replicas (em_extent m))"
          "x_replicas (em_extent m) ! pos = old" "em_extent m' = (em_extent m)\<lparr>x_replicas := (x_replicas (em_extent m))[pos := new]\<rparr>"
        using R Inr Moved by blast
      have "\<forall>p' \<in> set bad. movable (view e1) (em_extent m') p' \<and> snd p' \<noteq> []"
        unfolding m'(4) using rest movable_moved m'(2,3) by blast
      then show ?thesis
        using Cons.IH [OF conjunct1 [OF R] Cons.prems(2) m'(1)] Cons.prems(5,6) p q Inr Moved by (simp add: andthen_def)
    next
      case Skipped
      have "bget (extents (en_catalog e1)) e = Some m" using R Inr Skipped Cons.prems(3) by simp
      from Cons.IH [OF conjunct1 [OF R] Cons.prems(2) this] show ?thesis
        using Cons.prems(5,6) rest p q Inr Skipped by (simp add: andthen_def)
    next
      case Stopped
      then show ?thesis using R Cons.prems(6) p q Inr by (auto simp: andthen_def)
    qed
  qed
qed simp

text \<open>What the checks find: a good copy is the extent's bytes, a good shard is its part.\<close>

lemma check_shards_right:
  assumes "nodes_ok eng" and w: "ev_ops w = ops" and "check_shards w now x ec lost is eng = (ss, eng')"
    and "\<forall>i \<in> set is. holds_at (view eng) (x_replicas x ! i) (ps ! i) \<and> length (ps ! i) = ly_shard_len ec"
  shows "still eng eng' \<and> list_all2 (\<lambda>i s. s = None \<or> s = Some (ps ! i)) is ss"
  using assms
proof (induction "is" arbitrary: eng ss)
  case (Cons i "is")
  obtain s e where e: "(if r_node_id (x_replicas x ! i) |\<in>| lost then (None, eng) else read_shard w now x ec i eng) = (s, e)" by (rule prod.exhaust)
  obtain ss' e' where rest: "check_shards w now x ec lost is e = (ss', e')" by (rule prod.exhaust)
  have out: "ss = s # ss'" "eng' = e'" using Cons.prems(3) e rest by auto
  have r: "still eng e" "s = None \<or> s = Some (ps ! i)"
    using e read_shard_right [OF Cons.prems(1) w, of now x ec i s e] Cons.prems(4) by (cases s; auto split: if_splits)+
  have "still e eng' \<and> list_all2 (\<lambda>i s. s = None \<or> s = Some (ps ! i)) is ss'"
    using Cons.IH [OF still_nodes [OF r(1) Cons.prems(1)] w rest [folded out(2)]] Cons.prems(4) r(1) by (simp add: still_def)
  then show ?case using out(1) r by (auto intro: still_trans)
qed simp

lemma check_replicas_right:
  assumes "nodes_ok eng" and w: "ev_ops w = ops" and "check_replicas w now x lost rs eng = ((copy, n, bad), eng')"
    and "\<forall>r \<in> set rs. holds_at (view eng) r bs" and "length bs = x_len x"
  shows "still eng eng' \<and> (\<forall>out. copy = Some out \<longrightarrow> out = bs) \<and> set bad \<subseteq> set rs \<and> (distinct rs \<longrightarrow> distinct bad)"
  using assms
proof (induction rs arbitrary: eng copy n bad)
  case (Cons r rs)
  have IH: "still e eng' \<and> (\<forall>out. g = Some out \<longrightarrow> out = bs) \<and> set b \<subseteq> set rs \<and> (distinct rs \<longrightarrow> distinct b)"
    if "still eng e" "check_replicas w now x lost rs e = ((g, k, b), eng')" for e g k b
    using Cons.IH [OF still_nodes [OF that(1) Cons.prems(1)] w that(2) _ Cons.prems(5)] Cons.prems(4) that(1) by (simp add: still_def)
  have absent: ?case
    if "still eng e" "(case check_replicas w now x lost rs e of ((copy, n, bad), eng) \<Rightarrow> ((copy, n, r # bad), eng)) = ((copy, n, bad), eng')" for e
    using IH [OF that(1)] that still_trans [OF that(1)] by (fastforce split: prod.splits)
  let ?P = "\<lambda>n. n_id (nr_spec n) = r_node_id r \<and> healthy (nr_spec n) \<and> n_id (nr_spec n) |\<notin>| lost"
  note def = Cons.prems(3) [unfolded check_replicas.simps Let_def]
  show ?case
  proof (cases "position ?P (en_nodes eng)")
    case None
    then show ?thesis using absent [of eng] def by simp
  next
    case (Some i)
    have i: "i < length (en_nodes eng)" "node_name (en_nodes eng ! i) = r_node_id r" using position_nth [OF Some] by auto
    show ?thesis
    proof (cases "length (nr_devices (en_nodes eng ! i)) \<le> r_device_index r")
      case True
      then show ?thesis using absent [of eng] def Some by simp
    next
      case False
      obtain b e where u: "use_device i (r_device_index r) (bs_read ops (r_offset r) (x_len x)) eng = (b, e)" by (rule prod.exhaust)
      note rd = device_read [OF Cons.prems(1) i(1) _ i(2) u]
      have e: "still eng e" using rd(1) False by simp
      have m: "still eng (upd_node i mark_up e)" "still eng (upd_node i (mark_down (ev_cfg w) now) e)"
        using marks_still [OF still_nodes [OF e Cons.prems(1)]] i(1) still_length [OF e] still_trans [OF e] by auto
      note def' = def [unfolded Some option.case w u]
      show ?thesis
      proof (cases b)
        case (Inl err)
        then show ?thesis using absent [OF m(2)] def' False by simp
      next
        case (Inr buf)
        have buf: "buf = bs" using rd(3) [OF _ Inr] False Cons.prems(4,5) by simp
        show ?thesis
        proof (cases "ev_sha w buf = x_checksum x")
          case True
          obtain g k b' e' where c: "check_replicas w now x lost rs (upd_node i mark_up e) = ((g, k, b'), e')"
            by (metis prod.exhaust)
          then have "copy = Some buf" "bad = b'" "eng' = e'" using def' False Inr True by auto
          then show ?thesis using IH [OF m(1)] c buf still_trans [OF m(1)] by auto
        next
          case no: False
          then show ?thesis using absent [OF e] def' False Inr by simp
        qed
      qed
    qed
  qed
qed simp

lemma rebuilt_parts:
  assumes "extent_of w x bs" and "scheme_ok w s" and "ec_encode (ev_enc w) (ev_sha w) s bs = Inr (ec, ps)"
    and "length shards = length ps" and "\<forall>i < length shards. shards ! i = None \<or> shards ! i = Some (ps ! i)"
    and "ec_rebuild (ev_enc w) (ev_dec w) ec shards = Inr parts"
  shows "parts = ps"
proof -
  have len: "length bs < u64_max" using assms(1) by (simp add: extent_of_def)
  have enc: "ly_data ec = sc_data s" "length ps = sc_data s + sc_parity s"
      "\<And>I. sc_data s \<le> card (I \<inter> {..<sc_data s + sc_parity s}) \<Longrightarrow> ec_rebuild (ev_enc w) (ev_dec w) ec (survivors I ps) = Inr ps"
    using ec_encoded [OF _ _ len, of "ev_enc w" "ev_dec w" "sc_data s" "sc_parity s" s "ev_sha w"] assms(2,3)
    by (auto simp: scheme_ok_def)
  define I where "I = {i. shards ! i \<noteq> None}"
  have sh: "shards = survivors I ps" using some_shards_survive [OF assms(4)] assms(5) by (simp add: I_def)
  obtain ds where "rebuild_data (ev_dec w) ec shards = Inr ds"
    using assms(6) by (auto simp: ec_rebuild_def Let_def rbind_eq_Inr)
  then have "\<not> length (filter (\<lambda>x. x \<noteq> None) shards) < ly_data ec"
    by (auto simp: rebuild_data_def rbind_eq_Inr split: if_splits)
  then have "sc_data s \<le> card (I \<inter> {..<sc_data s + sc_parity s})" unfolding sh count_survivors using enc by simp
  then show ?thesis using enc(3) assms(6) sh by simp
qed

lemma replace_replicas_shown:
  assumes "shown w eng s" and "ev_ops w = ops" and "bget (extents (en_catalog eng)) (x_id x) = Some m" and "em_extent m = x"
    and "\<forall>p \<in> set bad. movable (view eng) x p \<and> snd p \<noteq> []" and "distinct (map fst bad)"
    and "replace_replicas w now fence x bad st eng = (res, eng')"
  shows "shown w eng' s"
  using replace_each_shown [OF assms(1-3), of bad now fence "x_replicas x" st res eng'] assms(3-7) by (simp add: replace_replicas_def)

lemma repair_shards_shown:
  assumes sh: "shown w eng s" and w: "ev_ops w = ops" and m: "bget (extents (en_catalog eng)) e = Some m" "x_id (em_extent m) = e"
    and h: "extent_held w (view eng) (em_extent m) bs" and ec: "x_ec (em_extent m) = Some ec" and dist: "distinct (x_replicas (em_extent m))"
    and long: "\<not> length (x_replicas (em_extent m)) < ly_shards ec"
    and chk: "check_shards w now (em_extent m) ec lost [0..<ly_shards ec] eng = (shards, e1)"
  shows "shown w e1 s \<and> (\<forall>parts bad st' res eng'. ec_rebuild (ev_enc w) (ev_dec w) ec shards = Inr parts \<longrightarrow>
    bad = filter (\<lambda>i. shards ! i = None) [0..<length shards] \<longrightarrow>
    replace_replicas w now fence (em_extent m) (map (\<lambda>i. (x_replicas (em_extent m) ! i, parts ! i)) bad) st' e1 = (res, eng') \<longrightarrow> shown w eng' s)"
proof -
  let ?x = "em_extent m"
  have n: "nodes_ok eng" using sh by (simp add: engine_shows_def engine_ok_def engine_core_def)
  obtain ps sc where p: "extent_of w ?x bs" "scheme_ok w sc" "ec_encode (ev_enc w) (ev_sha w) sc bs = Inr (ec, ps)"
      "list_all2 (holds_at (view eng)) (x_replicas ?x) ps" "parts_of w ?x bs ps"
    using h ec by (auto simp: extent_held_def parts_of_def)
  have len: "length bs < u64_max" using p(1) by (simp add: extent_of_def)
  have lp: "ly_shards ec = length ps" "length ps = length (x_replicas ?x)"
    using ec_encoded [OF _ _ len, of "ev_enc w" "ev_dec w" "sc_data sc" "sc_parity sc" sc "ev_sha w"] p(2-4)
    by (auto simp: scheme_ok_def ly_shards_def dest: list_all2_lengthD)
  have part: "holds_at (view eng) (x_replicas ?x ! i) (ps ! i)" "length (ps ! i) = stored_len ?x" if "i < length ps" for i
    using p(4) parts_of_length(1) [OF p(1,5)] that by (auto simp: list_all2_conv_all_nth)
  have "still eng e1 \<and> list_all2 (\<lambda>i s. s = None \<or> s = Some (ps ! i)) [0..<ly_shards ec] shards"
    by (rule check_shards_right [OF n w chk]) (use part ec lp in \<open>auto simp: stored_len_def\<close>)
  then have st: "still eng e1" and ss: "length shards = length ps" "\<forall>i < length shards. shards ! i = None \<or> shards ! i = Some (ps ! i)"
    using lp(1) by (auto simp: list_all2_conv_all_nth)
  have sh1: "shown w e1 s" by (rule shown_still [OF sh st])
  have m1: "bget (extents (en_catalog e1)) (x_id ?x) = Some m" using m st by (simp add: still_def steady_def)
  have "shown w eng' s" if r: "ec_rebuild (ev_enc w) (ev_dec w) ec shards = Inr parts" and bad: "bad = filter (\<lambda>i. shards ! i = None) [0..<length shards]"
    and call: "replace_replicas w now fence ?x (map (\<lambda>i. (x_replicas ?x ! i, parts ! i)) bad) st' e1 = (res, eng')" for parts bad st' res eng'
  proof (rule replace_replicas_shown [OF sh1 w m1 refl _ _ call])
    have parts: "parts = ps" by (rule rebuilt_parts [OF p(1-3) ss r])
    have v: "view e1 = view eng" using st by (simp add: still_def)
    have "ps ! i \<noteq> []" if "i < length ps" for i using part(2) [OF that] parts_of_length(2) [OF p(1,5)] by auto
    then show "\<forall>q \<in> set (map (\<lambda>i. (x_replicas ?x ! i, parts ! i)) bad). movable (view e1) ?x q \<and> snd q \<noteq> []"
      using part lp ss(1) by (auto simp: bad parts v movable_def)
    show "distinct (map fst (map (\<lambda>i. (x_replicas ?x ! i, parts ! i)) bad))"
      using dist lp ss(1) by (auto simp: bad distinct_map inj_on_def comp_def nth_eq_iff_index_eq)
  qed
  then show ?thesis using sh1 by blast
qed

lemma repair_extent_shown:
  assumes sh: "shown w eng s" and w: "ev_ops w = ops" and call: "repair_extent_with w now e lost fence st eng = (res, eng')"
  shows "shown w eng' s"
proof (cases "bget (extents (en_catalog eng)) e")
  case None
  then show ?thesis using sh call by (simp add: repair_extent_with_def)
next
  case (Some m)
  let ?x = "em_extent m"
  have I: "nodes_ok eng" "data_ok w (view eng) (en_catalog eng)" using sh by (auto simp: engine_shows_def engine_ok_def engine_core_def)
  obtain bs where bs: "x_id ?x = e" "extent_held w (view eng) ?x bs" using I(2) Some unfolding data_ok_def by blast
  obtain ps where ps: "extent_of w ?x bs" "parts_of w ?x bs ps" "list_all2 (holds_at (view eng)) (x_replicas ?x) ps"
    using bs(2) by (auto simp: extent_held_def)
  have dist: "distinct (x_replicas ?x)"
    using replicas_distinct [OF _ Some parts_of_length(2) [OF ps(1,2)]] I(2) by (simp add: data_ok_def)
  note def = call [unfolded repair_extent_with_def Some option.map option.case Let_def]
  show ?thesis
  proof (cases "x_ec ?x")
    case ec: (Some ec)
    obtain shards e1 where chk: "check_shards w now ?x ec lost [0..<ly_shards ec] eng = (shards, e1)" by (rule prod.exhaust)
    show ?thesis
    proof (cases "length (x_replicas ?x) < ly_shards ec")
      case True
      then show ?thesis using sh def ec by simp
    next
      case False
      from repair_shards_shown [OF sh w Some bs ec dist False chk, of fence] show ?thesis
        using def ec chk False by (auto split: if_splits sum.splits)
    qed
  next
    case None
    have all: "ps = replicate (length (x_replicas ?x)) bs" using ps(2) None by (simp add: parts_of_def)
    then have held: "\<forall>r \<in> set (x_replicas ?x). holds_at (view eng) r bs"
      using ps(3) by (auto simp: list_all2_conv_all_nth in_set_conv_nth)
    have len: "length bs = x_len ?x" "bs \<noteq> []" using ps(1) by (auto simp: extent_of_def)
    obtain copy n bad e1 where chk: "check_replicas w now ?x lost (x_replicas ?x) eng = ((copy, n, bad), e1)" by (metis prod.exhaust)
    note R = check_replicas_right [OF I(1) w chk held len(1)]
    have sh1: "shown w e1 s" using shown_still [OF sh] R by blast
    have m1: "bget (extents (en_catalog e1)) (x_id ?x) = Some m" "view e1 = view eng" using Some bs(1) R by (auto simp: still_def steady_def)
    show ?thesis
    proof (cases "bad = [] \<or> copy = None")
      case True
      then show ?thesis using def None chk sh1 by (auto split: if_splits)
    next
      case False
      then obtain st' where "replace_replicas w now fence ?x (map (\<lambda>r. (r, bs)) bad) st' e1 = (res, eng')"
        using def None chk R by auto
      moreover have "\<forall>p \<in> set (map (\<lambda>r. (r, bs)) bad). movable (view e1) ?x p \<and> snd p \<noteq> []"
        using R held len None m1(2) by (auto simp: movable_def stored_len_def)
      moreover have "distinct (map fst (map (\<lambda>r. (r, bs)) bad))" using R dist by (simp add: comp_def)
      ultimately show ?thesis using replace_replicas_shown [OF sh1 w m1(1) refl] by blast
    qed
  qed
qed

lemma repair_each_shown:
  assumes "shown w eng s" and "ev_ops w = ops" and "repair_each w now es st eng = (res, eng')"
  shows "shown w eng' s"
  using assms
proof (induction es arbitrary: eng st)
  case (Cons e es)
  obtain q e1 where q: "repair_extent_with w now e {||} 0 st eng = (q, e1)" by (rule prod.exhaust)
  have "shown w e1 s" by (rule repair_extent_shown [OF Cons.prems(1,2) q])
  then show ?case using Cons q by (cases q) (auto simp: andthen_def)
qed simp

lemma repair_served: "shown w eng s \<Longrightarrow> ev_ops w = ops \<Longrightarrow> served w RepairData s (eng_serve w now RepairData eng)"
  using repair_each_shown [of w eng s now "bkeys (extents (en_catalog eng))" no_repairs] served_error [of w _ s RepairData]
    served_done [of w _ s RepairData s Ack]
  by (cases "repair_each w now (bkeys (extents (en_catalog eng))) no_repairs eng"; cases "fst (repair_each w now (bkeys (extents (en_catalog eng))) no_repairs eng)")
    (auto simp: repair_once_def ack_eq)

text \<open>Every request.\<close>

lemma request_served:
  assumes "shown w eng s" and "ev_ops w = ops" and "env_ok w" and "request_ok q"
  shows "served w q s (eng_serve w now q eng)"
  using assms read_served read_snapshot_served write_served gc_served repair_served checkpoint_served
    volume_requests_served [OF assms(1,4)]
  by (cases q) auto

end

end
