(* ===== verification/EngineRuns.thy ===== *)
theory EngineRuns
  imports EngineUpkeep
begin

text \<open>
  Runs of the engine on file devices, with failing devices and log, and restarts. Their events are
  those of a run of the disks; every part of every extent stays readable; a restart finds
  everything again.
\<close>

section \<open>Opening\<close>

text \<open>The devices a restarted engine finds: at least the space that was used, with its bytes.\<close>

definition nodes_again :: "('d \<Rightarrow> nat \<Rightarrow> byte) \<Rightarrow> ('d \<Rightarrow> nat) \<Rightarrow> 'd node_runtime list \<Rightarrow> (node \<times> 'd list) list \<Rightarrow> bool" where
  "nodes_again cell used ns nodes \<longleftrightarrow> list_all2 (\<lambda>n (spec, ds). n_id spec = node_name n
     \<and> list_all2 (\<lambda>d d'. used d \<le> used d' \<and> cell d' = cell d) (nr_devices n) ds) ns nodes"

lemma replay_covered: "\<forall>r \<in> set rs. wr_index r \<le> applied_index c \<Longrightarrow> replay_records rs c = Inr c"
  by (induction rs) auto

lemma nodes_again_ok:
  assumes "nodes_again cell used (en_nodes eng) nodes" and "nodes_ok eng"
    and e: "en_nodes eng' = map (\<lambda>(n, ds). \<lparr>nr_spec = n, nr_devices = ds, nr_failures = 0, nr_down_until = None, nr_down_since = None, nr_next = 0\<rparr>) nodes"
  shows "nodes_ok eng'" "grows_to S (dev_view cell used eng) (dev_view cell used eng')" "\<not> list_ex (\<lambda>(_, ds). ds = []) nodes"
proof -
  let ?A = "\<lambda>d d'. used d \<le> used d' \<and> cell d' = cell d"
  have A: "length nodes = length (en_nodes eng)" "\<And>i. i < length nodes \<Longrightarrow> n_id (fst (nodes ! i)) = node_name (en_nodes eng ! i)
      \<and> list_all2 ?A (nr_devices (en_nodes eng ! i)) (snd (nodes ! i))"
    using assms(1) by (auto simp: nodes_again_def list_all2_conv_all_nth split_def)
  have names: "map node_name (en_nodes eng') = map node_name (en_nodes eng)"
    using A by (auto simp: e split_def intro: nth_equalityI)
  have full: "snd (nodes ! i) \<noteq> []" if "i < length nodes" for i
    using A(2) [OF that] A(1) assms(2) that by (auto simp: nodes_ok_def dest!: list_all2_lengthD)
  then have all: "\<forall>p \<in> set nodes. snd p \<noteq> []" by (simp add: all_set_conv_all_nth)
  then show "\<not> list_ex (\<lambda>(_, ds). ds = []) nodes" by (auto simp: list_ex_iff)
  show ok: "nodes_ok eng'" using assms(2) all by (auto simp: nodes_ok_def names) (auto simp: e)
  show "grows_to S (dev_view cell used eng) (dev_view cell used eng')"
    unfolding grows_to_def
  proof (intro allI impI)
    fix n k u c assume "dev_view cell used eng n k = Some (u, c)"
    then obtain d where d: "dev_at eng n k = Some d" "u = used d" "c = cell d" by (auto simp: dev_view_def)
    then obtain i where i: "i < length nodes" "node_name (en_nodes eng ! i) = n" "k < length (nr_devices (en_nodes eng ! i))"
        "d = nr_devices (en_nodes eng ! i) ! k"
      using A(1) by (auto simp: dev_at_def Let_def dest!: position_nth split: option.splits if_splits)
    have l: "list_all2 ?A (nr_devices (en_nodes eng ! i)) (snd (nodes ! i))" using A(2) [OF i(1)] by blast
    have "dev_at eng' n k = Some (snd (nodes ! i) ! k)"
      using dev_at_nth [OF ok, of i k] i A(2) [OF i(1)] list_all2_lengthD [OF l] by (simp add: e split_def)
    moreover have "?A d (snd (nodes ! i) ! k)" using list_all2_nthD [OF l i(3)] i(4) by simp
    ultimately show "\<exists>u' c'. dev_view cell used eng' n k = Some (u', c') \<and> u \<le> u' \<and> (\<forall>j < u. (n, k, j) \<in> S \<longrightarrow> c' j = c j)"
      using d by (simp add: dev_view_def)
  qed
qed

lemma opened:
  assumes "open_engine w nodes saved rs objects uuids faults = Inr eng"
  obtains l where "load_local saved rs = Inr (en_catalog eng, l)" "en_log eng = l" "en_saved eng = Some (en_catalog eng)"
    "en_nodes eng = map (\<lambda>(n, ds). \<lparr>nr_spec = n, nr_devices = ds, nr_failures = 0, nr_down_until = None, nr_down_since = None, nr_next = 0\<rparr>) nodes"
    "\<forall>(n, ds) \<in> set nodes. ds \<noteq> []" "en_inflight eng = no_inflight" "en_uuids eng = uuids" "en_uuid_next eng = 0"
proof -
  have "\<not> list_ex (\<lambda>(_, ds). ds = []) nodes" using assms by (auto simp: open_engine_def split: if_splits)
  then have "\<forall>(n, ds) \<in> set nodes. ds \<noteq> []" by (auto simp: list_ex_iff)
  then show thesis using assms that by (auto simp: open_engine_def rbind_eq_Inr split: if_splits)
qed

definition no_disks :: disk_state where
  "no_disks = \<lparr>ds_volumes = Map.empty, ds_snapshots = Map.empty\<rparr>"

context block_store
begin

lemma reopen_shown:
  assumes sh: "shown w eng s" and w: "env_ok w" and n: "nodes_again cell used (en_nodes eng) nodes"
    and u: "inj uuids" "\<And>k. bget (extents (en_catalog eng)) (uuids k) = None"
  shows "\<exists>eng'. open_engine w nodes (en_saved eng) (dl_records (en_log eng)) objects uuids faults = Inr eng'
    \<and> en_catalog eng' = en_catalog eng \<and> shown w eng' s"
proof -
  let ?c = "en_catalog eng"
  have I: "nodes_ok eng" "cat_ok ?c" "data_ok w (view eng) ?c" "durable eng" "disks_shown w (view eng) ?c s"
    using sh by (auto simp: engine_shows_def engine_ok_def engine_core_def)
  obtain l where l: "load_local (en_saved eng) (dl_records (en_log eng)) = Inr (?c, l)" "dl_records l = dl_records (en_log eng)"
      "dl_inv l" "applied_index ?c \<le> dl_last l" by (rule load_durable [OF I(4)])
  define eng' where "eng' = \<lparr>en_nodes = map (\<lambda>(n, ds). \<lparr>nr_spec = n, nr_devices = ds, nr_failures = 0, nr_down_until = None, nr_down_since = None, nr_next = 0\<rparr>) nodes,
     en_catalog = ?c, en_log = l, en_log_faults = faults, en_saved = Some ?c, en_inflight = no_inflight,
     en_objects = objects, en_reads = bempty, en_uuids = uuids, en_uuid_next = 0\<rparr>"
  have e: "en_nodes eng' = map (\<lambda>(n, ds). \<lparr>nr_spec = n, nr_devices = ds, nr_failures = 0, nr_down_until = None, nr_down_since = None, nr_next = 0\<rparr>) nodes"
    by (simp add: eng'_def)
  note N = nodes_again_ok [OF n I(1) e]
  have open': "open_engine w nodes (en_saved eng) (dl_records (en_log eng)) objects uuids faults = Inr eng'"
    using l(1) w N(3) by (simp add: open_engine_def env_ok_def eng'_def rbind_def)
  have gr: "grows_to (live_bytes (extents ?c)) (view eng) (view eng')" by (rule N(2))
  have D: "disks_shown w (view eng') ?c s" using disks_kept [OF I(5) grows_entries [OF gr]] by simp
  have "replay_records (dl_records l) ?c = Inr ?c"
    using replay_covered replay_covers I(4) l(2) by (auto simp: durable_def)
  then have "durable eng'"
    using I(4) l(3,4) fill_usage_filled [of ?c] by (simp add: durable_def eng'_def load_checkpoint_def)
  then have "shown w eng' s"
    using D I(2) N(1) data_ok_grows [OF I(3) gr] u by (simp add: engine_shows_def engine_ok_def engine_core_def ids_ok_def eng'_def)
  then show ?thesis using open' by (auto simp: eng'_def)
qed

lemma fresh_shown:
  assumes "open_engine w nodes None [] objects uuids faults = Inr eng" and "distinct (map (n_id \<circ> fst) nodes)" and "inj uuids"
  shows "shown w eng no_disks"
proof -
  have filled: "usage_filled empty_catalog" by (simp add: usage_filled_def empty_catalog_def)
  obtain l where l: "load_local None [] = Inr (en_catalog eng, l)" "en_log eng = l" "en_saved eng = Some (en_catalog eng)"
    "en_nodes eng = map (\<lambda>(n, ds). \<lparr>nr_spec = n, nr_devices = ds, nr_failures = 0, nr_down_until = None, nr_down_since = None, nr_next = 0\<rparr>) nodes"
    "\<forall>(n, ds) \<in> set nodes. ds \<noteq> []" "en_inflight eng = no_inflight" "en_uuids eng = uuids" "en_uuid_next eng = 0"
    by (rule opened [OF assms(1)]) (rule that)
  have c: "en_catalog eng = empty_catalog" "l = dl_raise_floor 0 (dl_load [])"
    using l(1) fill_usage_filled [OF filled] by (auto simp: load_local_def load_checkpoint_def rbind_def empty_catalog_def)
  have "dl_inv l" unfolding c by (intro dl_inv_ops(3) dl_load_inv) simp
  moreover have "dl_records l = []" by (simp add: c dl_raise_floor_def dl_load_def Let_def)
  ultimately have "durable eng"
    using l c filled fill_usage_filled [OF filled] by (simp add: durable_def load_checkpoint_def empty_catalog_def)
  moreover have "nodes_ok eng"
    using assms(2) l(4,5) by (auto simp: nodes_ok_def comp_def split_def)
  moreover have "data_ok w (view eng) (en_catalog eng)"
    using empty_catalog_ok by (auto simp: data_ok_def c cat_ok_def empty_catalog_def)
  moreover have "disks_shown w (view eng) (en_catalog eng) no_disks" by (simp add: disks_shown_def no_disks_def c empty_catalog_def)
  ultimately show ?thesis
    using empty_catalog_ok l(6-8) assms(3) by (simp add: engine_shows_def engine_ok_def engine_core_def ids_ok_def c)
      (simp add: empty_catalog_def)
qed

end

section \<open>Runs\<close>

text \<open>A restart opens the files the devices were on; identifiers drawn after it are new.\<close>

definition files_again :: "file_device node_runtime list \<Rightarrow> (node \<times> file_device list) list \<Rightarrow> bool" where
  "files_again ns nodes \<longleftrightarrow> list_all2 (\<lambda>n (spec, ds). n_id spec = node_name n
     \<and> list_all2 (\<lambda>d d'. \<exists>faults. d' = fd_open (fd_bytes d) faults) (nr_devices n) ds) ns nodes"

lemma files_nodes_again: "files_again ns nodes \<Longrightarrow> nodes_again fd_cell fd_used ns nodes"
  unfolding files_again_def nodes_again_def
  by (erule list_all2_mono) (auto elim!: list_all2_mono simp: fd_open_same)

definition fresh_uuids :: "(nat \<Rightarrow> string) \<Rightarrow> catalog \<Rightarrow> bool" where
  "fresh_uuids uuids c \<longleftrightarrow> inj uuids \<and> (\<forall>k. bget (extents c) (uuids k) = None)"

definition fresh_engine :: "file_device env \<Rightarrow> file_device engine \<Rightarrow> bool" where
  "fresh_engine w eng \<longleftrightarrow> (\<exists>nodes objects uuids faults. open_engine w nodes None [] objects uuids faults = Inr eng
     \<and> distinct (map (n_id \<circ> fst) nodes) \<and> inj uuids)"

definition files_env :: "file_device env \<Rightarrow> bool" where
  "files_env w \<longleftrightarrow> ev_ops w = file_store \<and> env_ok w"

datatype disk_event = Served disk_request "disk_answer native_result" | Restarted

inductive engine_run :: "file_device env \<Rightarrow> file_device engine \<Rightarrow> disk_event list \<Rightarrow> file_device engine \<Rightarrow> bool" for w eng0 where
  run_start: "engine_run w eng0 [] eng0"
| run_serve: "engine_run w eng0 tr eng \<Longrightarrow> request_ok q \<Longrightarrow> eng_serve w now q eng = (res, eng') \<Longrightarrow>
    engine_run w eng0 (tr @ [Served q res]) eng'"
| run_restart: "engine_run w eng0 tr eng \<Longrightarrow> files_again (en_nodes eng) nodes \<Longrightarrow> fresh_uuids uuids (en_catalog eng) \<Longrightarrow>
    open_engine w nodes (en_saved eng) (dl_records (en_log eng)) objects uuids faults = Inr eng' \<Longrightarrow>
    engine_run w eng0 (tr @ [Restarted]) eng'"

inductive disk_run :: "disk_state \<Rightarrow> disk_event list \<Rightarrow> disk_state \<Rightarrow> bool" for s0 where
  disk_start: "disk_run s0 [] s0"
| disk_serve: "disk_run s0 tr s \<Longrightarrow> disk_allows q s res s' \<Longrightarrow> disk_run s0 (tr @ [Served q res]) s'"
| disk_restart: "disk_run s0 tr s \<Longrightarrow> disk_run s0 (tr @ [Restarted]) s"

abbreviation files_show :: "file_device env \<Rightarrow> file_device engine \<Rightarrow> disk_state \<Rightarrow> bool" where
  "files_show \<equiv> engine_shows fd_cell fd_used"

lemma run_shows:
  assumes "engine_run w eng0 tr eng" and "fresh_engine w eng0" and "files_env w"
  shows "\<exists>s. disk_run no_disks tr s \<and> files_show w eng s"
  using assms
proof (induction rule: engine_run.induct)
  case run_start
  then show ?case using fdev.fresh_shown disk_start by (fastforce simp: fresh_engine_def)
next
  case (run_serve tr eng q now res eng')
  then obtain s where s: "disk_run no_disks tr s" "files_show w eng s" by blast
  have "fdev.served w q s (eng_serve w now q eng)"
    by (rule fdev.request_served [OF s(2)]) (use run_serve in \<open>auto simp: files_env_def\<close>)
  then obtain s' where "disk_allows q s res s'" "files_show w eng' s'" using run_serve by (auto simp: fdev.served_def)
  then show ?case using disk_serve [OF s(1)] by blast
next
  case (run_restart tr eng nodes uuids objects faults eng')
  then obtain s where s: "disk_run no_disks tr s" "files_show w eng s" by blast
  have w: "env_ok w" using run_restart by (simp add: files_env_def)
  have "\<exists>e. open_engine w nodes (en_saved eng) (dl_records (en_log eng)) objects uuids faults = Inr e
      \<and> en_catalog e = en_catalog eng \<and> files_show w e s"
    by (rule fdev.reopen_shown [OF s(2) w files_nodes_again]) (use run_restart in \<open>auto simp: fresh_uuids_def\<close>)
  then have "files_show w eng' s" using run_restart by auto
  then show ?case using disk_restart [OF s(1)] by blast
qed

section \<open>A run\<close>

text \<open>One node with one file, cells of four bytes; a volume of eight bytes is made, written across
  its two cells and read back.\<close>

definition sample_cfg :: engine_config where
  "sample_cfg = \<lparr>cg_extent_bytes = 4, cg_placement = \<lparr>replicas = 1, require_distinct_hosts = False, prefer_distinct_racks = False\<rparr>,
     cg_compact_after = 0, cg_retry_after = 0, cg_erasure = None, cg_erasure_min = 0\<rparr>"

definition sample_env :: "file_device env" where
  "sample_env = \<lparr>ev_cfg = sample_cfg, ev_ops = file_store, ev_sha = (\<lambda>bs. bs), ev_enc = (\<lambda>_ _ _. Inl Invalid), ev_dec = (\<lambda>_ _ _ _. Inl Invalid)\<rparr>"

definition sample_uuids :: "nat \<Rightarrow> string" where
  "sample_uuids k = replicate k (CHR ''a'')"

definition sample_node :: node where
  "sample_node = \<lparr>n_id = ''n'', failure_domain = \<lparr>zone = ''z'', rack = ''r'', host = ''h''\<rparr>, free_space = 1000, healthy = True\<rparr>"

definition sample_engine :: "file_device engine" where
  "sample_engine = projr (open_engine sample_env [(sample_node, [fd_open [] []])] None [] None sample_uuids [])"

definition sample_clock :: clock where
  "sample_clock = \<lparr>ck_now = 0, ck_ms = 0, ck_ns = 0\<rparr>"

definition sample_requests :: "disk_request list" where
  "sample_requests = [CreateDisk ''v'' ''vol'' 8, WriteDisk ''v'' 2 [1, 2, 3], ReadDisk ''v'' 1 5]"

fun serve_all :: "'d env \<Rightarrow> clock \<Rightarrow> disk_request list \<Rightarrow> 'd engine \<Rightarrow> disk_event list \<times> 'd engine" where
  "serve_all w now [] eng = ([], eng)"
| "serve_all w now (q # qs) eng = (case eng_serve w now q eng of (res, eng) \<Rightarrow>
     (case serve_all w now qs eng of (tr, eng) \<Rightarrow> (Served q res # tr, eng)))"

end
