(* ===== verification/Spec2Isabelle.thy ===== *)
theory Spec2Isabelle
  imports FreeSpace Quorum Placement PosixAcl ErasureCode Leases Returns Wal RaftInv Inflight CacheLeases StoreSpec EngineRuns
begin

text \<open>
  A verification library for Atlas, a storage control plane with a storage engine of its own. It
  covers the core of the native engine, \<open>crates/atlas-native/src\<close>: the replicated metadata
  catalog, the log and the Raft protocol that replicate it, and the allocators and leases around it.

  \<^bold>\<open>The program.\<close> The catalog (\<open>metadata.rs\<close>, \<open>namespace.rs\<close>) holds volumes, snapshots,
  filesystems and the extents their data lies in. It changes by commands only. A command is
  proposed to a Raft node (\<open>raft.rs\<close>), appended to a write-ahead log (\<open>wal.rs\<close>), replicated to a
  majority of the voters (\<open>membership.rs\<close>) and applied with its term and index; nodes that lag behind
  are sent the catalog in chunks (\<open>raft_snapshot.rs\<close>). A write first takes free device space
  (\<open>alloc.rs\<close>, \<open>engine/inflight.rs\<close>) on nodes chosen by \<open>placement.rs\<close>, writes replicas or erasure-coded
  shards (\<open>ec.rs\<close>) there, and then commits the command that installs the extent. Clients hold sessions
  and byte-range locks in the catalog (\<open>leases.rs\<close>), and leases on what they cache, which only the
  leader knows (\<open>node/cache_leases.rs\<close>).

  \<^bold>\<open>Theories.\<close> A theory per component, in the order in which they build on each other.

  \<^item> \<open>Prelude\<close>: ordered maps (\<open>BTreeMap\<close>) as a type of their own, results and error propagation,
    \<open>u64\<close> arithmetic, vectors, sums over maps.
  \<^item> \<open>FreeSpace\<close> (\<open>alloc.rs\<close>): the free list, as a refinement of the set of free bytes per device;
    first fit is complete, totals are exact.
  \<^item> \<open>Quorum\<close> (\<open>membership.rs\<close>): stable and joint configurations; quorums that can coexist meet.
  \<^item> \<open>Placement\<close> (\<open>placement.rs\<close>): the chosen nodes are eligible and on distinct hosts, as many as
    there can be, on as many racks as there can be.
  \<^item> \<open>PosixAcl\<close> (\<open>acl.rs\<close>): the extended-attribute encoding at its widths; parsing and encoding are
    inverse, \<open>chmod\<close> and creation keep mode and ACL in step.
  \<^item> \<open>ErasureCode\<close> (\<open>ec.rs\<close>): any sufficient set of shards rebuilds the extent. The Reed-Solomon codec
    and the checksum are parameters; the codec's promise is a named hypothesis.
  \<^item> \<open>Leases\<close> (\<open>leases.rs\<close>): sessions and locks; locks stay exclusive, a request changes exactly the
    requested bytes, expiry drops exactly what ran out.
  \<^item> \<open>MetaErrors\<close>, \<open>CatalogTypes\<close>, \<open>ExtentRefs\<close>, \<open>Namespace\<close>, \<open>Replica\<close>, \<open>Metadata\<close> (\<open>metadata.rs\<close>,
    \<open>namespace.rs\<close>, \<open>namespace/replica.rs\<close>): the catalog as a record with the fields of the source, and
    one function per command. A command is a function from a catalog to a result or error and
    a catalog, so that what it changed before it failed is visible.
  \<^item> \<open>FsShape\<close>, \<open>RefCounts\<close>, \<open>ReplicaRefs\<close>, \<open>SpaceInv\<close>, \<open>CommandLog\<close>: what every command keeps. Reference
    counts equal the number of references, a byte of a device is free or in one extent, garbage is
    referenced by nothing, a failing command changes nothing, and an index is consumed once.
  \<^item> \<open>TreeSpec\<close>, \<open>TableInv\<close>, \<open>TreeInv\<close>, \<open>Returns\<close>: the name space. Directory entries form a tree with exact
    link counts, the parent walk of \<open>rename\<close> ends and decides, and no command panics or loops.
  \<^item> \<open>WalSpec\<close>, \<open>Wal\<close> (\<open>wal.rs\<close>): the log as its users see it, and on the bytes of its file; the second
    refines the first, also across crashes. Two inputs are exhibited on which recovery goes wrong.
  \<^item> \<open>RaftTypes\<close>, \<open>RaftSnapshot\<close>, \<open>RaftNode\<close>, \<open>ApplyFrame\<close>, \<open>RaftInv\<close> (\<open>raft.rs\<close>, \<open>raft_snapshot.rs\<close>): a node as
    a record, its operations with explicit state, and its life as a relation of opens, calls and
    crashes. The node stays well formed, never goes back, and restarts with its vote and log; a
    streamed snapshot arrives whole.
  \<^item> \<open>Inflight\<close> (\<open>engine/inflight.rs\<close>): placements in flight never get hold of the same bytes.
  \<^item> \<open>CacheLeases\<close> (\<open>node/cache_leases.rs\<close>): a change excludes the caches of other sessions and waits
    for them at most one lease; a run across two terms breaks this.

  \<^item> \<open>Tracked\<close> (\<open>tracked.rs\<close>), \<open>LruCache\<close>, \<open>CatalogStore\<close> (\<open>store.rs\<close>), \<open>PagedInodes\<close> (\<open>inodes.rs\<close>): the catalog as
    it is kept on disk and paged into memory, over the tables of the database. \<open>StoreInv\<close> shows what
    checkpoints leave there and that every step keeps memory and tables together; \<open>StoreSpec\<close> that
    a paged table acts as the plain one, that rows are well typed, that writing changes equals
    writing everything, and that a restart gives the catalog back. \<open>RowCodecs\<close> has row codecs with the
    law asked of the JSON library.

  \<^bold>\<open>Interfaces.\<close> The locales \<open>quorum_system\<close>, the table invariants of \<open>TableInv\<close> and the others state what
  one component relies on; each is interpreted on the definitions that model the code.

  \<^bold>\<open>Numbers, clocks, loops.\<close> Byte counts and inode numbers are natural numbers with the wrap-around or
  saturation of \<open>u64\<close> written out where the code adds; ACL fields and modes are machine words. Raft terms
  and indexes are natural numbers: they grow by one per entry or election. Clocks are arguments. Loops
  are structural recursion; the parent walk of \<open>rename\<close>, which need not end on arbitrary input, is a
  partial function, and it is proved to end on every catalog that commands lead to. Unwinding panics
  and endless loops are error values (\<open>Panic\<close>, \<open>Diverge\<close>) of the model.

  \<^bold>\<open>Assumptions.\<close> The invariants of the catalog hold of command logs whose new extents take space nobody
  uses (\<open>command_ok\<close>), which is what \<open>Inflight\<close> shows of placements, whose replica parts still fit after
  an unfinished increment is thrown away, and which leave room in the \<open>u64\<close> and \<open>u32\<close> counters.

  \<^bold>\<open>Not modelled.\<close> The old \<open>catalog.json\<close> that \<open>store.rs\<close> reads once. In the Raft node a checkpoint is the
  catalog it holds; the tables behind it are in \<open>CatalogStore\<close>. Device, network and object store I/O and
  the threads around it (\<open>device.rs\<close>, \<open>raw.rs\<close>, \<open>data_node.rs\<close>, \<open>raft_server.rs\<close>, \<open>http.rs\<close>, \<open>tls.rs\<close>, \<open>node.rs\<close>,
  \<open>engine.rs\<close>). The protocol front ends, drivers, gateway, inventory, job queue and migration crates,
  which consist of calls to external systems and SQL queries. JSON, Reed-Solomon coding and SHA-256 are
  libraries and enter as parameters.
\<close>

end
